(* ===== verification/Prelude.thy ===== *)
theory Prelude
  imports Complex_Main "HOL-Library.Word" "HOL-Library.Monad_Syntax"
begin

text \<open>
  The prelude of the development: the collections of simplification rules the component theories
  extend, the machine integer types of the runtime, and the facts about words, lists and options
  that several components share.

  Conventions of the whole development.  The model is the release build of the runtime: an
  assertion macro (HPX\_ASSERT, assert\_true, assert\_lt, ...) expands to nothing, so it is not a
  branch of any definition; what the assertions state is proved where it holds.  An access out of
  the bounds of a vector or through an invalid id is a value of its own (None, or an error) and
  never an unspecified element.
\<close>

unbundle bit_operations_syntax

section \<open>Collections of facts\<close>

named_theorems word_conv \<open>facts that move words to natural numbers and bits\<close>
named_theorems region_simps \<open>facts about the elements of regions\<close>
named_theorems bounds \<open>index bounds of the operations\<close>

section \<open>Machine integers\<close>

text \<open>The integer types of the code: std::size\_t and std::uint64\_t are 64 bits wide,
  std::uint32\_t is 32 bits wide.\<close>

type_synonym size_t = "64 word"
type_synonym uint64_t = "64 word"
type_synonym uint32_t = "32 word"
type_synonym uint8_t = "8 word"

lemma unat_plus_one [word_conv]:
  fixes x :: "'a::len word"
  assumes "unat x + 1 < 2 ^ LENGTH('a)"
  shows "unat (x + 1) = unat x + 1"
  using assms by (simp add: unat_word_ariths)

lemma unat_minus_one_pos [word_conv]:
  fixes x :: "'a::len word"
  assumes "x \<noteq> 0"
  shows "unat (x - 1) = unat x - 1"
  using assms by (rule unat_minus_one)

lemma unat_gt_0_word: "x \<noteq> 0 \<longleftrightarrow> 0 < unat x" for x :: "'a::len word"
  using unat_gt_0 by blast

lemma and_1_cases: "x AND 1 = 0 \<or> x AND 1 = 1" for x :: "'a::len word"
  by (simp add: and_one_eq mod2_eq_if)

lemma odd_drop_bit_word: "(drop_bit n w) mod 2 \<noteq> 0 \<longleftrightarrow> bit w n" for w :: "'a::len word"
  by (simp add: bit_iff_odd_drop_bit even_iff_mod_2_eq_zero)

lemma word_eq_by_bits:
  fixes v w :: "'a::len word"
  assumes "\<And>n. n < LENGTH('a) \<Longrightarrow> bit v n = bit w n"
  shows "v = w"
  by (rule bit_word_eqI) (use assms in simp)

section \<open>Floating point arithmetic\<close>

text \<open>The float and double operations of the code are the fields of a record: nothing is assumed of
  their rounding, so what is proved holds for IEEE arithmetic and for exact arithmetic.  An operation
  on NaN is one of the values of flt like any other.  fof\_int is the conversion of an integer, and
  flit n d the literal nearest to n/d.\<close>

record 'f farith =
  fadd :: "'f \<Rightarrow> 'f \<Rightarrow> 'f"
  fsub :: "'f \<Rightarrow> 'f \<Rightarrow> 'f"
  fmul :: "'f \<Rightarrow> 'f \<Rightarrow> 'f"
  fdiv :: "'f \<Rightarrow> 'f \<Rightarrow> 'f"
  fsqrt :: "'f \<Rightarrow> 'f"
  flt :: "'f \<Rightarrow> 'f \<Rightarrow> bool"
  feq :: "'f \<Rightarrow> 'f \<Rightarrow> bool"
  fof_int :: "int \<Rightarrow> 'f"
  flit :: "int \<Rightarrow> int \<Rightarrow> 'f"

text \<open>An instance: exact arithmetic on the rationals (without a square root).\<close>

definition rat_arith :: "rat farith" where
  "rat_arith = \<lparr>fadd = (+), fsub = (-), fmul = (*), fdiv = (/), fsqrt = (\<lambda>x. x), flt = (<), feq = (=),
    fof_int = of_int, flit = (\<lambda>n d. of_int n / of_int d)\<rparr>"

lemma rat_arith_simps [simp]:
  "fadd rat_arith = (+)" "fsub rat_arith = (-)" "fmul rat_arith = (*)" "fdiv rat_arith = (/)"
  "fsqrt rat_arith = (\<lambda>x. x)" "flt rat_arith = (<)" "feq rat_arith = (=)" "fof_int rat_arith = of_int"
  "flit rat_arith = (\<lambda>n d. of_int n / of_int d)"
  by (simp_all add: rat_arith_def)

definition fsum :: "'f farith \<Rightarrow> 'f list \<Rightarrow> 'f" where
  "fsum F xs = foldl (fadd F) (fof_int F 0) xs"

lemma fsum_rat: "fsum rat_arith xs = sum_list xs"
proof -
  have "foldl (+) a xs = a + sum_list xs" for a :: rat by (induction xs arbitrary: a) simp_all
  then show ?thesis by (simp add: fsum_def)
qed

section \<open>Lists updated by index\<close>

text \<open>The element access of a vector at an index that need not be in range: None stands for the
  undefined behaviour of the C++ operator[].\<close>

definition at_opt :: "'a list \<Rightarrow> nat \<Rightarrow> 'a option" where
  "at_opt xs i = (if i < length xs then Some (xs ! i) else None)"

lemma at_opt_in [simp]: "i < length xs \<Longrightarrow> at_opt xs i = Some (xs ! i)"
  by (simp add: at_opt_def)

lemma at_opt_out [simp]: "length xs \<le> i \<Longrightarrow> at_opt xs i = None"
  by (simp add: at_opt_def)

lemma at_opt_eq_Some [simp]: "at_opt xs i = Some x \<longleftrightarrow> i < length xs \<and> xs ! i = x"
  by (auto simp: at_opt_def)

lemma at_opt_eq_None [simp]: "at_opt xs i = None \<longleftrightarrow> length xs \<le> i"
  by (auto simp: at_opt_def)

lemma nth_list_update': "xs[i := x] ! p = (if p = i \<and> i < length xs then x else xs ! p)"
  by (cases "i < length xs") (auto simp: nth_list_update list_update_beyond)

lemma sum_list_update_nat:
  fixes xs :: "nat list"
  assumes "i < length xs"
  shows "sum_list (xs[i := v]) + xs ! i = sum_list xs + v"
  using assms
proof (induction xs arbitrary: i)
  case (Cons x xs)
  then show ?case by (cases i) auto
qed simp

end
