(* ===== verification/Hierarchy.thy ===== *)
theory Hierarchy
  imports Prelude
begin

text \<open>
  The hierarchical overlay network: HierarchyAddress, HierarchyService and
  HierarchicalOverlayNetwork of allscale/hierarchy.hpp and src/hierarchy.cpp.  A virtual node is
  addressed by the rank that hosts it (64 bits) and its layer on that rank (32 bits); layer 0 is
  the rank itself.  The expression 1<<layer of the code is a shift of a 32-bit int which is then
  widened to 64 bits, so it is exact for layers below 31 only.
\<close>

section \<open>Addresses\<close>

type_synonym layer_t = uint32_t

datatype HierarchyAddress = HierarchyAddress (getRank: size_t) (getLayer: layer_t)

definition isLeaf :: "HierarchyAddress \<Rightarrow> bool" where
  "isLeaf a = (getLayer a = 0)"

definition isVirtualNode :: "HierarchyAddress \<Rightarrow> bool" where
  "isVirtualNode a = (\<not> isLeaf a)"

text \<open>The int expression 1<<l, widened (with its sign) to a size\_t.\<close>

definition int_shl1 :: "layer_t \<Rightarrow> size_t" where
  "int_shl1 l = scast (push_bit (unat l) (1 :: 32 word))"

definition isRightChild :: "HierarchyAddress \<Rightarrow> bool" where
  "isRightChild a = (getRank a AND int_shl1 (getLayer a) \<noteq> 0)"

definition isLeftChild :: "HierarchyAddress \<Rightarrow> bool" where
  "isLeftChild a = (\<not> isRightChild a)"

definition getParent :: "HierarchyAddress \<Rightarrow> HierarchyAddress" where
  "getParent a = HierarchyAddress (getRank a AND NOT (int_shl1 (getLayer a))) (getLayer a + 1)"

text \<open>getParent(int steps); the recursion of the code counts steps down to 0.\<close>

fun getParent_steps :: "HierarchyAddress \<Rightarrow> nat \<Rightarrow> HierarchyAddress" where
  "getParent_steps a 0 = a"
| "getParent_steps a (Suc steps) = getParent_steps (getParent a) steps"

definition getLeftChild :: "HierarchyAddress \<Rightarrow> HierarchyAddress" where
  "getLeftChild a = HierarchyAddress (getRank a) (getLayer a - 1)"

definition getRightChild :: "HierarchyAddress \<Rightarrow> HierarchyAddress" where
  "getRightChild a = HierarchyAddress (getRank a + int_shl1 (getLayer a - 1)) (getLayer a - 1)"

text \<open>check(): the loop over the lowest layer digits of the rank.  The second argument is the loop
  variable i, the third the number of iterations left.\<close>

fun check_loop :: "size_t \<Rightarrow> nat \<Rightarrow> nat \<Rightarrow> bool" where
  "check_loop r i 0 = True"
| "check_loop r i (Suc n) = (if drop_bit i r mod 2 \<noteq> 0 then False else check_loop r (Suc i) n)"

definition check :: "HierarchyAddress \<Rightarrow> bool" where
  "check a = check_loop (getRank a) 0 (unat (getLayer a))"

text \<open>The operators < and <= compare the pairs std::tie(rank, layer).\<close>

definition address_less :: "HierarchyAddress \<Rightarrow> HierarchyAddress \<Rightarrow> bool" where
  "address_less a b = (getRank a < getRank b \<or> (getRank a = getRank b \<and> getLayer a < getLayer b))"

definition address_less_eq :: "HierarchyAddress \<Rightarrow> HierarchyAddress \<Rightarrow> bool" where
  "address_less_eq a b = (getRank a < getRank b \<or> (getRank a = getRank b \<and> getLayer a \<le> getLayer b))"

text \<open>They are the order of the type.\<close>

instantiation HierarchyAddress :: linorder
begin

definition less_eq_HierarchyAddress :: "HierarchyAddress \<Rightarrow> HierarchyAddress \<Rightarrow> bool" where
  "a \<le> b = address_less_eq a b"

definition less_HierarchyAddress :: "HierarchyAddress \<Rightarrow> HierarchyAddress \<Rightarrow> bool" where
  "a < b = address_less a b"

instance
  by standard
    (auto simp: less_eq_HierarchyAddress_def less_HierarchyAddress_def address_less_eq_def address_less_def intro: HierarchyAddress.expand)

end

section \<open>Layers and the root\<close>

text \<open>The loops of getLayersOn.  Both are written as partial functions: the first does not end
  when the size is above 2^63, because pos overflows to 0.\<close>

partial_function (option) height_loop :: "size_t \<Rightarrow> size_t \<Rightarrow> layer_t \<Rightarrow> layer_t option" where
  "height_loop sz pos height =
    (if pos < sz then height_loop sz (push_bit 1 pos) (height + 1) else Some height)"

partial_function (option) trailing_loop :: "size_t \<Rightarrow> layer_t \<Rightarrow> layer_t option" where
  "trailing_loop rank res =
    (if rank mod 2 = 0 then trailing_loop (drop_bit 1 rank) (res + 1) else Some res)"

definition getLayersOn :: "size_t \<Rightarrow> size_t \<Rightarrow> layer_t option" where
  "getLayersOn rank sz =
    (if rank = 0 then map_option (\<lambda>height. height + 1) (height_loop sz 1 0)
     else trailing_loop rank 1)"

definition getRootOfNetworkSize :: "size_t \<Rightarrow> HierarchyAddress option" where
  "getRootOfNetworkSize sz = map_option (\<lambda>l. HierarchyAddress 0 (l - 1)) (getLayersOn 0 sz)"

section \<open>Hierarchical services\<close>

text \<open>HierarchyService: the vector of services of a rank, one for each layer.  The constructor of
  the service is the argument mk; init is given the number of localities and the own id.\<close>

record 's HierarchyService =
  services :: "'s list"

definition service_init ::
    "(HierarchyAddress \<Rightarrow> 's) \<Rightarrow> size_t \<Rightarrow> size_t \<Rightarrow> 's HierarchyService \<Rightarrow> 's HierarchyService option" where
  "service_init mk num_localities locality_id s =
    map_option
      (\<lambda>numServices. s\<lparr>services :=
        services s @ map (\<lambda>i. mk (HierarchyAddress locality_id (word_of_nat i))) [0..<unat numServices]\<rparr>)
      (getLayersOn locality_id num_localities)"

definition service_get :: "'s HierarchyService \<Rightarrow> layer_t \<Rightarrow> 's option" where
  "service_get s l = at_opt (services s) (unat l)"

definition service_forAll :: "('s \<Rightarrow> 's) \<Rightarrow> 's HierarchyService \<Rightarrow> 's HierarchyService" where
  "service_forAll op s = s\<lparr>services := map op (services s)\<rparr>"

text \<open>HierarchicalOverlayNetwork keeps the service of each type in a function-local static; the
  operations go through to it.\<close>

definition getRootAddress :: "size_t \<Rightarrow> HierarchyAddress option" where
  "getRootAddress num_localities = getRootOfNetworkSize num_localities"

definition installService ::
    "(HierarchyAddress \<Rightarrow> 's) \<Rightarrow> size_t \<Rightarrow> size_t \<Rightarrow> 's HierarchyService option" where
  "installService mk num_localities locality_id =
    service_init mk num_localities locality_id \<lparr>services = []\<rparr>"

section \<open>Bits of an address\<close>

text \<open>Layers below 31 are the range in which 1<<layer is the power of two it is meant to be.\<close>

lemma int_shl1_eq: "unat l < 31 \<Longrightarrow> int_shl1 l = 2 ^ unat l"
  by (rule word_eq_by_bits) (auto simp: int_shl1_def bit_signed_iff bit_exp_iff min_def)

lemma bit_int_shl1: "unat l < 31 \<Longrightarrow> bit (int_shl1 l) n \<longleftrightarrow> n = unat l"
  by (auto simp: int_shl1_eq bit_exp_iff)

lemma check_loop_iff: "check_loop r i n \<longleftrightarrow> (\<forall>j. i \<le> j \<and> j < i + n \<longrightarrow> \<not> bit r j)"
proof (induction n arbitrary: i)
  case (Suc n)
  have "(\<forall>j. i \<le> j \<and> j < i + Suc n \<longrightarrow> \<not> bit r j) \<longleftrightarrow>
      \<not> bit r i \<and> (\<forall>j. Suc i \<le> j \<and> j < Suc i + n \<longrightarrow> \<not> bit r j)"
    by (auto simp: Suc_le_eq) (metis le_neq_implies_less)
  then show ?case unfolding check_loop.simps odd_drop_bit_word Suc.IH by simp
qed auto

lemma check_iff: "check a \<longleftrightarrow> (\<forall>j < unat (getLayer a). \<not> bit (getRank a) j)"
  by (simp add: check_def check_loop_iff)

lemma isRightChild_iff:
  assumes "unat (getLayer a) < 31"
  shows "isRightChild a \<longleftrightarrow> bit (getRank a) (unat (getLayer a))"
proof -
  have "getRank a AND int_shl1 (getLayer a) \<noteq> 0 \<longleftrightarrow>
      (\<exists>n. bit (getRank a AND int_shl1 (getLayer a)) n)"
    by (metis bit_0_eq bot_apply bot_bool_def word_eq_by_bits)
  also have "\<dots> \<longleftrightarrow> bit (getRank a) (unat (getLayer a))"
    using assms by (auto simp: bit_and_iff bit_int_shl1)
  finally show ?thesis by (simp add: isRightChild_def)
qed

lemma unat_layer_plus1 [word_conv]: "unat (l :: layer_t) < 31 \<Longrightarrow> unat (l + 1) = unat l + 1"
  by (rule unat_plus_one) simp

lemma bit_getParent:
  assumes "unat (getLayer a) < 31" and "n < 64"
  shows "bit (getRank (getParent a)) n \<longleftrightarrow> bit (getRank a) n \<and> n \<noteq> unat (getLayer a)"
  using assms by (auto simp: getParent_def bit_and_iff bit_not_iff bit_int_shl1)

lemma rank_getRightChild:
  assumes "check a" and "getLayer a \<noteq> 0" and "unat (getLayer a) < 32"
  shows "getRank (getRightChild a) = getRank a OR 2 ^ (unat (getLayer a) - 1)"
proof -
  have l: "unat (getLayer a - 1) = unat (getLayer a) - 1"
    using assms by (simp add: word_conv)
  have "int_shl1 (getLayer a - 1) = 2 ^ (unat (getLayer a) - 1)"
    using assms by (subst int_shl1_eq) (auto simp: l)
  moreover have "getRank a + 2 ^ (unat (getLayer a) - 1) =
      getRank a OR 2 ^ (unat (getLayer a) - 1)"
  proof (rule disjunctive_add)
    fix n
    show "\<not> bit (getRank a) n \<or> \<not> bit (2 ^ (unat (getLayer a) - 1) :: size_t) n"
      using assms by (auto simp: check_iff bit_exp_iff unat_gt_0_word)
  qed
  ultimately show ?thesis by (simp add: getRightChild_def)
qed

lemma bit_getRightChild:
  assumes "check a" and "getLayer a \<noteq> 0" and "unat (getLayer a) < 32" and "n < 64"
  shows "bit (getRank (getRightChild a)) n \<longleftrightarrow> bit (getRank a) n \<or> n = unat (getLayer a) - 1"
  using assms by (auto simp: rank_getRightChild bit_or_iff bit_exp_iff)

lemma layer_getLeftChild [simp]: "getLayer (getLeftChild a) = getLayer a - 1"
  by (simp add: getLeftChild_def)

lemma rank_getLeftChild [simp]: "getRank (getLeftChild a) = getRank a"
  by (simp add: getLeftChild_def)

lemma layer_getRightChild [simp]: "getLayer (getRightChild a) = getLayer a - 1"
  by (simp add: getRightChild_def)

lemma layer_getParent [simp]: "getLayer (getParent a) = getLayer a + 1"
  by (simp add: getParent_def)

section \<open>Family relations\<close>

lemma check_getParent:
  assumes "check a" and "unat (getLayer a) < 31"
  shows "check (getParent a)"
  using assms by (auto simp: check_iff bit_getParent unat_layer_plus1 less_Suc_eq)

lemma check_getLeftChild:
  assumes "check a" and "getLayer a \<noteq> 0"
  shows "check (getLeftChild a)"
  using assms by (auto simp: check_iff word_conv)

lemma check_getRightChild:
  assumes "check a" and "getLayer a \<noteq> 0" and "unat (getLayer a) < 32"
  shows "check (getRightChild a)"
  using assms by (auto simp: check_iff word_conv bit_getRightChild)

lemma getParent_getLeftChild:
  assumes "check a" and "getLayer a \<noteq> 0" and "unat (getLayer a) < 32"
  shows "getParent (getLeftChild a) = a"
proof (rule HierarchyAddress.expand, rule conjI)
  have l: "unat (getLayer (getLeftChild a)) = unat (getLayer a) - 1" "unat (getLayer a) > 0"
    using assms by (auto simp: word_conv unat_gt_0)
  show "getRank (getParent (getLeftChild a)) = getRank a"
    by (rule word_eq_by_bits)
      (use assms l in \<open>auto simp: bit_getParent check_iff\<close>)
qed simp

lemma getParent_getRightChild:
  assumes "check a" and "getLayer a \<noteq> 0" and "unat (getLayer a) < 32"
  shows "getParent (getRightChild a) = a"
proof (rule HierarchyAddress.expand, rule conjI)
  have l: "unat (getLayer (getRightChild a)) = unat (getLayer a) - 1" "unat (getLayer a) > 0"
    using assms by (auto simp: word_conv unat_gt_0)
  show "getRank (getParent (getRightChild a)) = getRank a"
    by (rule word_eq_by_bits)
      (use assms l in \<open>auto simp: bit_getParent bit_getRightChild check_iff\<close>)
qed simp

lemma isLeftChild_getLeftChild:
  assumes "check a" and "getLayer a \<noteq> 0" and "unat (getLayer a) < 32"
  shows "isLeftChild (getLeftChild a)"
  using assms by (auto simp: isLeftChild_def isRightChild_iff word_conv check_iff unat_gt_0_word)

lemma isRightChild_getRightChild:
  assumes "check a" and "getLayer a \<noteq> 0" and "unat (getLayer a) < 32"
  shows "isRightChild (getRightChild a)"
proof -
  have "unat (getLayer (getRightChild a)) = unat (getLayer a) - 1"
    using assms by (simp add: word_conv)
  then show ?thesis
    using assms by (auto simp: isRightChild_iff bit_getRightChild)
qed

lemma child_of_getParent:
  assumes "check a" and "unat (getLayer a) < 31"
  shows "a = (if isRightChild a then getRightChild (getParent a) else getLeftChild (getParent a))"
proof (rule HierarchyAddress.expand, rule conjI)
  have l: "unat (getLayer (getParent a)) = unat (getLayer a) + 1"
    using assms by (simp add: word_conv)
  then have nz: "getLayer (getParent a) \<noteq> 0"
    by (metis add_is_0 unat_0 zero_neq_one)
  have c: "check (getParent a)" using assms by (rule check_getParent)
  show "getRank a =
      getRank (if isRightChild a then getRightChild (getParent a) else getLeftChild (getParent a))"
  proof (rule word_eq_by_bits)
    fix n assume "n < LENGTH(64)"
    then show "bit (getRank a) n =
        bit (getRank (if isRightChild a then getRightChild (getParent a) else getLeftChild (getParent a))) n"
      using assms l nz c by (auto simp: bit_getRightChild bit_getParent isRightChild_iff)
  qed
qed simp

section \<open>The number of layers\<close>

lemma height_loop_step [simp]: "\<not> pos < sz \<Longrightarrow> height_loop sz pos h = Some h"
  by (subst height_loop.simps) simp

lemma unat_two_power:
  assumes "k < 64"
  shows "unat (2 ^ k :: size_t) = 2 ^ k"
proof -
  have "(2::nat) ^ k < 2 ^ 64" using assms by (intro power_strict_increasing) auto
  then show ?thesis using unat_of_nat [of "2 ^ k", where 'a = 64] by simp
qed

lemma height_loop_eq:
  assumes "k + n \<le> 63" and "unat sz \<le> 2 ^ (k + n)" and "n = 0 \<or> 2 ^ (k + n - 1) < unat sz"
  shows "height_loop sz (2 ^ k) h = Some (h + word_of_nat n)"
  using assms
proof (induction n arbitrary: k h)
  case 0
  then have "\<not> 2 ^ k < sz" by (simp add: word_less_nat_alt unat_two_power)
  then show ?case by simp
next
  case (Suc n)
  have "(2::nat) ^ k \<le> 2 ^ (k + n)" by (simp add: power_increasing)
  also have "\<dots> < unat sz" using Suc.prems by simp
  finally have lt: "2 ^ k < sz" using Suc.prems by (simp add: word_less_nat_alt unat_two_power)
  have "height_loop sz (2 ^ Suc k) (h + 1) = Some (h + 1 + word_of_nat n)"
    by (rule Suc.IH) (use Suc.prems in \<open>auto\<close>)
  then show ?case
    using lt by (subst height_loop.simps) (simp add: push_bit_eq_mult mult.commute add.assoc)
qed

lemma ceil_log2_exists:
  assumes "s \<le> 2 ^ m"
  obtains n where "n \<le> m" and "s \<le> 2 ^ n" and "n = 0 \<or> 2 ^ (n - 1) < (s :: nat)"
proof -
  define n where "n = (LEAST n. s \<le> 2 ^ n)"
  have le: "s \<le> 2 ^ n" unfolding n_def by (rule LeastI) (rule assms)
  have m: "n \<le> m" unfolding n_def by (rule Least_le) (rule assms)
  have "n = 0 \<or> 2 ^ (n - 1) < s"
    using not_less_Least [of "n - 1" "\<lambda>n. s \<le> 2 ^ n"] unfolding n_def by (metis diff_less not_le not_gr0 zero_less_one)
  with le m show thesis by (intro that [of n])
qed

lemma getLayersOn_root:
  assumes "sz \<le> 2 ^ 63"
  obtains n where "n \<le> 63" and "getLayersOn 0 sz = Some (word_of_nat (n + 1))"
    and "unat sz \<le> 2 ^ n" and "n = 0 \<or> 2 ^ (n - 1) < unat sz"
proof -
  have "unat sz \<le> 2 ^ 63"
    using assms unat_two_power [of 63] by (simp add: word_le_nat_alt)
  then obtain n where n: "n \<le> 63" "unat sz \<le> 2 ^ n" "n = 0 \<or> 2 ^ (n - 1) < unat sz"
    by (rule ceil_log2_exists)
  with height_loop_eq [of 0 n sz 0] have "height_loop sz 1 0 = Some (word_of_nat n)" by simp
  then show thesis using n by (intro that [of n]) (simp_all add: getLayersOn_def add.commute)
qed

text \<open>Above 2^63 the loop does not end: pos overflows to 0 and stays there.\<close>

lemma height_loop_zero_diverges:
  assumes "0 < sz"
  shows "height_loop sz 0 h = None"
proof -
  have "height_loop sz' pos h' = Some y \<Longrightarrow> pos = 0 \<longrightarrow> sz' = 0" for sz' pos h' y
    by (rule height_loop.raw_induct [where P = "\<lambda>sz pos h y. pos = 0 \<longrightarrow> sz = 0"])
      (auto split: if_splits simp: word_gt_0)
  from this [of sz 0 h] assms show ?thesis
    by (cases "height_loop sz 0 h") auto
qed

lemma two_power_64: "(2 :: size_t) ^ 64 = 0"
  by (rule word_eq_by_bits) (simp add: bit_exp_iff del: power_numeral)

lemma height_loop_diverges:
  assumes "2 ^ 63 < unat sz" and "k \<le> 64"
  shows "height_loop sz (2 ^ (64 - k)) h = None"
  using assms(2)
proof (induction k arbitrary: h)
  case 0
  have "(2 :: size_t) ^ (64 - 0) = 0" by (simp only: diff_zero) (rule two_power_64)
  moreover have "0 < sz" using assms by (simp add: word_less_nat_alt)
  ultimately show ?case by (simp only: height_loop_zero_diverges)
next
  case (Suc k)
  have "(2::nat) ^ (64 - Suc k) \<le> 2 ^ 63" by (rule power_increasing) auto
  then have "2 ^ (64 - Suc k) < sz"
    using assms(1) by (simp add: word_less_nat_alt unat_two_power)
  moreover have "64 - k = Suc (64 - Suc k)" using Suc.prems by simp
  then have "push_bit 1 (2 ^ (64 - Suc k)) = (2 :: size_t) ^ (64 - k)"
    by (simp add: push_bit_eq_mult mult.commute)
  ultimately show ?case
    using Suc.IH [of "h + 1"] Suc.prems by (subst height_loop.simps) simp
qed

lemma trailing_loop_eq:
  assumes "\<forall>j < n. \<not> bit rank j" and "bit rank n"
  shows "trailing_loop rank res = Some (res + word_of_nat n)"
  using assms
proof (induction n arbitrary: rank res)
  case 0
  then have "rank mod 2 \<noteq> 0" using odd_drop_bit_word [of 0 rank] by simp
  then show ?case by (subst trailing_loop.simps) simp
next
  case (Suc n)
  then have "rank mod 2 = 0" using odd_drop_bit_word [of 0 rank] by auto
  moreover have "trailing_loop (drop_bit 1 rank) (res + 1) = Some (res + 1 + word_of_nat n)"
    by (rule Suc.IH) (use Suc.prems in \<open>auto simp: bit_drop_bit_eq\<close>)
  ultimately show ?case by (subst trailing_loop.simps) (simp add: add.assoc)
qed

lemma getLayersOn_nonzero:
  assumes "rank \<noteq> 0"
  obtains n where "n < 64" and "getLayersOn rank sz = Some (word_of_nat (n + 1))"
    and "\<forall>j < n. \<not> bit rank j" and "bit rank n"
proof -
  obtain m where "bit rank m" using assms by (metis bit_0_eq bot_apply bot_bool_def word_eq_by_bits)
  define n where "n = (LEAST n. bit rank n)"
  have b: "bit rank n" unfolding n_def by (rule LeastI) fact
  have "\<forall>j < n. \<not> bit rank j" unfolding n_def using not_less_Least by blast
  moreover have "n < 64" using b bit_imp_le_length by force
  moreover have "getLayersOn rank sz = Some (word_of_nat (n + 1))"
    using assms trailing_loop_eq [OF calculation(1) b, of 1] by (simp add: getLayersOn_def)
  ultimately show thesis using b by (intro that)
qed

lemma unat_word_of_nat_layer: "n < 2 ^ 32 \<Longrightarrow> unat (word_of_nat n :: layer_t) = n"
  by (simp add: unsigned_of_nat take_bit_nat_eq_self)

section \<open>The way to the root\<close>

text \<open>Climbing k layers from a leaf clears the lowest k digits of its rank.\<close>

lemma getParent_steps_Suc: "getParent_steps a (Suc n) = getParent (getParent_steps a n)"
  by (induction n arbitrary: a) auto

lemma getParent_steps_leaf:
  assumes "k \<le> 31"
  shows "unat (getLayer (getParent_steps (HierarchyAddress r 0) k)) = k \<and>
    (\<forall>j < 64. bit (getRank (getParent_steps (HierarchyAddress r 0) k)) j \<longleftrightarrow> bit r j \<and> k \<le> j)"
  using assms
proof (induction k)
  case (Suc k)
  define b where "b = getParent_steps (HierarchyAddress r 0) k"
  have "unat (getLayer b) = k" "\<forall>j < 64. bit (getRank b) j \<longleftrightarrow> bit r j \<and> k \<le> j"
    using Suc unfolding b_def by auto
  then show ?case
    using Suc.prems unfolding getParent_steps_Suc b_def [symmetric]
    by (auto simp: unat_layer_plus1 bit_getParent)
qed simp

lemma word_less_bits: "unat (r :: size_t) < 2 ^ k \<Longrightarrow> k \<le> j \<Longrightarrow> \<not> bit r j"
  by (metis bit_take_bit_iff leD take_bit_nat_eq_self unsigned_take_bit_eq word_unat_eq_iff)

lemma getParent_steps_root:
  assumes "unat r < 2 ^ k" and "k \<le> 31"
  shows "getParent_steps (HierarchyAddress r 0) k = HierarchyAddress 0 (word_of_nat k)"
proof (rule HierarchyAddress.expand, rule conjI)
  show "getRank (getParent_steps (HierarchyAddress r 0) k) = getRank (HierarchyAddress 0 (word_of_nat k))"
    by (rule word_eq_by_bits)
      (use assms getParent_steps_leaf [of k r] in \<open>auto dest: word_less_bits\<close>)
  show "getLayer (getParent_steps (HierarchyAddress r 0) k) = getLayer (HierarchyAddress 0 (word_of_nat k))"
    using assms getParent_steps_leaf [of k r] by (auto intro: word_unat_eq_iff [THEN iffD2] simp: unsigned_of_nat take_bit_nat_eq_self)
qed

lemma check_getParent_steps_leaf:
  assumes "k \<le> 31"
  shows "check (getParent_steps (HierarchyAddress r 0) k)"
  using getParent_steps_leaf [OF assms, of r] assms by (auto simp: check_iff)

lemma rank_getParent_steps_le:
  assumes "k \<le> 31"
  shows "getRank (getParent_steps (HierarchyAddress r 0) k) \<le> r"
proof -
  have "getRank (getParent_steps (HierarchyAddress r 0) k) =
      r AND getRank (getParent_steps (HierarchyAddress r 0) k)"
    by (rule word_eq_by_bits) (use getParent_steps_leaf [OF assms, of r] in \<open>auto simp: bit_and_iff\<close>)
  then show ?thesis by (metis and.commute word_and_le1)
qed

text \<open>The layers that exist on a rank other than 0 are exactly those with a valid address.\<close>

lemma getLayersOn_check:
  assumes "rank \<noteq> 0"
  obtains l where "getLayersOn rank sz = Some l"
    and "\<And>layer. layer < l \<longleftrightarrow> check (HierarchyAddress rank layer)"
proof -
  obtain n where n: "n < 64" "getLayersOn rank sz = Some (word_of_nat (n + 1))"
    "\<forall>j < n. \<not> bit rank j" "bit rank n"
    using assms by (rule getLayersOn_nonzero)
  have "layer < word_of_nat (n + 1) \<longleftrightarrow> check (HierarchyAddress rank layer)" for layer
  proof -
    have "layer < word_of_nat (n + 1) \<longleftrightarrow> unat layer \<le> n"
      using n(1) unat_word_of_nat_layer [of "n + 1"] by (simp add: word_less_nat_alt less_Suc_eq_le)
    also have "\<dots> \<longleftrightarrow> (\<forall>j < unat layer. \<not> bit rank j)"
      using n(3,4) by (metis less_le_trans not_le)
    finally show ?thesis by (simp add: check_iff)
  qed
  with n(2) show thesis by (rule that)
qed

lemma getRootOfNetworkSize_eq:
  assumes "sz \<le> 2 ^ 31" and "0 < sz"
  obtains n where "n \<le> 31" and "getRootOfNetworkSize sz = Some (HierarchyAddress 0 (word_of_nat n))"
    and "unat sz \<le> 2 ^ n" and "n = 0 \<or> 2 ^ (n - 1) < unat sz"
    and "getLayersOn 0 sz = Some (word_of_nat (n + 1))"
proof -
  have s: "unat sz \<le> 2 ^ 31" using assms(1) by (simp add: word_le_nat_alt)
  have "sz \<le> 2 ^ 63" using assms(1) by (rule order_trans) simp
  then obtain n where n: "n \<le> 63" "getLayersOn 0 sz = Some (word_of_nat (n + 1))"
    "unat sz \<le> 2 ^ n" "n = 0 \<or> 2 ^ (n - 1) < unat sz"
    by (rule getLayersOn_root)
  have "n \<le> 31"
  proof (rule ccontr)
    assume "\<not> n \<le> 31"
    then have "(2::nat) ^ 31 \<le> 2 ^ (n - 1)" by (intro power_increasing) auto
    with n(4) s \<open>\<not> n \<le> 31\<close> show False by linarith
  qed
  with n show thesis by (intro that [of n]) (auto simp: getRootOfNetworkSize_def)
qed

section \<open>Properties\<close>

text \<open>The two children of a valid virtual node are valid, they are told apart by
  isLeftChild and isRightChild, and the node is the parent of both.\<close>

theorem children_of_node:
  assumes "check a" and "isVirtualNode a" and "unat (getLayer a) < 32"
  shows "check (getLeftChild a) \<and> check (getRightChild a) \<and>
    isLeftChild (getLeftChild a) \<and> isRightChild (getRightChild a) \<and>
    getParent (getLeftChild a) = a \<and> getParent (getRightChild a) = a"
  using assms
  by (auto simp: isVirtualNode_def isLeaf_def check_getLeftChild check_getRightChild
      isLeftChild_getLeftChild isRightChild_getRightChild getParent_getLeftChild getParent_getRightChild)

theorem children_of_node_witness:
  "check (HierarchyAddress 4 2) \<and> isVirtualNode (HierarchyAddress 4 2) \<and>
    getParent (getRightChild (HierarchyAddress 4 2)) = HierarchyAddress 4 2"
proof -
  have c: "check (HierarchyAddress 4 2)" "isVirtualNode (HierarchyAddress 4 2)"
    "unat (getLayer (HierarchyAddress 4 2)) < 32"
    by (code_simp, code_simp, simp)
  show ?thesis using children_of_node [OF c] c by blast
qed

text \<open>A valid address below layer 31 is a child of its parent, on the side that isRightChild
  says, and its parent is a valid virtual node.\<close>

theorem child_of_parent:
  assumes "check a" and "unat (getLayer a) < 31"
  shows "check (getParent a) \<and> isVirtualNode (getParent a) \<and>
    a = (if isRightChild a then getRightChild (getParent a) else getLeftChild (getParent a))"
proof -
  have "unat (getLayer (getParent a)) = unat (getLayer a) + 1"
    using assms by (simp add: word_conv)
  then have "isVirtualNode (getParent a)"
    by (metis add_is_0 isLeaf_def isVirtualNode_def unat_0 zero_neq_one)
  with assms check_getParent child_of_getParent show ?thesis by blast
qed

theorem child_of_parent_witness:
  "check (HierarchyAddress 6 1) \<and> check (getParent (HierarchyAddress 6 1)) \<and>
    getRightChild (getParent (HierarchyAddress 6 1)) = HierarchyAddress 6 1"
proof -
  have c: "check (HierarchyAddress 6 1)" "unat (getLayer (HierarchyAddress 6 1)) < 31"
    "isRightChild (HierarchyAddress 6 1)"
    by (code_simp, simp, code_simp)
  show ?thesis using child_of_parent [OF c(1,2)] c(1,3) by auto
qed

text \<open>C22: in a network of up to 2^31 ranks, climbing from any rank for as many steps as the root
  has layers ends at the root, and every node on the way is valid and exists on the rank that is
  meant to host it.\<close>

theorem path_to_root:
  assumes "rank < sz" and "sz \<le> 2 ^ 31"
  shows "\<exists>root. getRootOfNetworkSize sz = Some root \<and>
    getParent_steps (HierarchyAddress rank 0) (unat (getLayer root)) = root \<and>
    (\<forall>k \<le> unat (getLayer root).
      check (getParent_steps (HierarchyAddress rank 0) k) \<and>
      getRank (getParent_steps (HierarchyAddress rank 0) k) < sz \<and>
      (\<exists>l. getLayersOn (getRank (getParent_steps (HierarchyAddress rank 0) k)) sz = Some l \<and>
        getLayer (getParent_steps (HierarchyAddress rank 0) k) < l))"
proof -
  have "0 < sz" using assms(1) by (metis word_gt_0 word_not_simps(1))
  with assms(2) obtain n where n: "n \<le> 31"
    "getRootOfNetworkSize sz = Some (HierarchyAddress 0 (word_of_nat n))" "unat sz \<le> 2 ^ n"
    "getLayersOn 0 sz = Some (word_of_nat (n + 1))"
    by (rule getRootOfNetworkSize_eq)
  have u: "unat (word_of_nat n :: layer_t) = n" using n(1) by (simp add: unat_word_of_nat_layer)
  have "unat rank < 2 ^ n" using assms(1) n(3) by (simp add: word_less_nat_alt)
  with n(1) have root: "getParent_steps (HierarchyAddress rank 0) n = HierarchyAddress 0 (word_of_nat n)"
    by (intro getParent_steps_root)
  have host: "\<exists>l. getLayersOn (getRank (getParent_steps (HierarchyAddress rank 0) k)) sz = Some l \<and>
        getLayer (getParent_steps (HierarchyAddress rank 0) k) < l" if "k \<le> n" for k
  proof (cases "getRank (getParent_steps (HierarchyAddress rank 0) k) = 0")
    case True
    have "getLayer (getParent_steps (HierarchyAddress rank 0) k) < word_of_nat (n + 1)"
      using getParent_steps_leaf [of k rank] that n(1) unat_word_of_nat_layer [of "n + 1"]
      by (simp add: word_less_nat_alt)
    with True n(4) show ?thesis by auto
  next
    case False
    then obtain l where "getLayersOn (getRank (getParent_steps (HierarchyAddress rank 0) k)) sz = Some l"
      "\<And>layer. layer < l \<longleftrightarrow>
        check (HierarchyAddress (getRank (getParent_steps (HierarchyAddress rank 0) k)) layer)"
      using getLayersOn_check [OF False, where sz = sz] by blast
    then show ?thesis using check_getParent_steps_leaf [of k rank] that n(1)
      by (metis HierarchyAddress.collapse order_trans)
  qed
  have below: "getRank (getParent_steps (HierarchyAddress rank 0) k) < sz" if "k \<le> n" for k
    using rank_getParent_steps_le [of k rank] that n(1) assms(1) by (meson le_less_trans order_trans)
  show ?thesis
    using n root host u below check_getParent_steps_leaf by auto
qed

theorem path_to_root_witness:
  "getRootOfNetworkSize 6 = Some (HierarchyAddress 0 3) \<and>
    getParent_steps (HierarchyAddress 5 0) 3 = HierarchyAddress 0 3"
proof -
  have r: "getRootOfNetworkSize 6 = Some (HierarchyAddress 0 3)"
    by (simp add: getRootOfNetworkSize_def getLayersOn_def height_loop.simps)
  have "(5::size_t) < 6" "(6::size_t) \<le> 2 ^ 31" by simp_all
  from path_to_root [OF this] r show ?thesis by (simp del: getParent_steps.simps)
qed

text \<open>The number of layers of a rank other than 0 is the number of its valid addresses, and
  rank 0 has one layer more than the height of the network; the loop of getLayersOn for rank 0
  returns exactly for sizes up to 2^63.\<close>

theorem layers_on_rank:
  "(rank \<noteq> 0 \<longrightarrow> (\<exists>l. getLayersOn rank sz = Some l \<and>
      (\<forall>layer. layer < l \<longleftrightarrow> check (HierarchyAddress rank layer)))) \<and>
   (unat sz \<le> 2 ^ 63 \<longrightarrow> (\<exists>h \<le> 63. getLayersOn 0 sz = Some (word_of_nat (h + 1)) \<and>
      unat sz \<le> 2 ^ h \<and> (h = 0 \<or> 2 ^ (h - 1) < unat sz))) \<and>
   (2 ^ 63 < unat sz \<longrightarrow> getLayersOn 0 sz = None)"
proof (intro conjI impI)
  assume "rank \<noteq> 0"
  then show "\<exists>l. getLayersOn rank sz = Some l \<and>
      (\<forall>layer. layer < l \<longleftrightarrow> check (HierarchyAddress rank layer))"
    by (rule getLayersOn_check) blast
next
  assume "unat sz \<le> 2 ^ 63"
  then have "sz \<le> 2 ^ 63" by (simp add: word_le_nat_alt)
  then show "\<exists>h \<le> 63. getLayersOn 0 sz = Some (word_of_nat (h + 1)) \<and>
      unat sz \<le> 2 ^ h \<and> (h = 0 \<or> 2 ^ (h - 1) < unat sz)"
    by (rule getLayersOn_root) blast
next
  assume "2 ^ 63 < unat sz"
  then show "getLayersOn 0 sz = None"
    using height_loop_diverges [of sz 64 0] by (simp add: getLayersOn_def)
qed

theorem layers_on_rank_witness:
  "getLayersOn 4 8 = Some 3 \<and> getLayersOn 0 9 = Some 5 \<and> getLayersOn 0 (2 ^ 63 + 1) = None"
proof -
  have "getLayersOn 4 8 = Some 3" "getLayersOn 0 9 = Some 5"
    by (simp_all add: getLayersOn_def trailing_loop.simps height_loop.simps)
  moreover have "2 ^ 63 < unat (2 ^ 63 + 1 :: size_t)" by simp
  ultimately show ?thesis using layers_on_rank [where sz = "2 ^ 63 + 1"] by blast
qed

text \<open>Init starts one service per layer of the rank, each with its own address, and the
  services found by get are exactly those.\<close>

theorem one_service_per_layer:
  assumes "rank < n" and "n \<le> 2 ^ 31"
  shows "\<exists>l s. getLayersOn rank n = Some l \<and> installService mk n rank = Some s \<and>
    (\<forall>layer. service_get s layer =
      (if layer < l then Some (mk (HierarchyAddress rank layer)) else None))"
proof -
  have "\<exists>l. getLayersOn rank n = Some l"
  proof (cases "rank = 0")
    case True
    have "0 < n" using assms(1) by (metis word_gt_0 word_not_simps(1))
    with True assms(2) show ?thesis using getRootOfNetworkSize_eq by metis
  qed (metis getLayersOn_check)
  then obtain l where l: "getLayersOn rank n = Some l" ..
  then show ?thesis
    by (auto simp: installService_def service_init_def service_get_def word_less_nat_alt)
qed

theorem one_service_per_layer_witness:
  "\<exists>s. installService (\<lambda>a. getLayer a) 8 4 = Some s \<and> service_get s 2 = Some 2 \<and> service_get s 3 = None"
proof -
  have "getLayersOn 4 8 = Some 3" by (simp add: getLayersOn_def trailing_loop.simps)
  moreover have "(4::size_t) < 8" "(8::size_t) \<le> 2 ^ 31" by simp_all
  ultimately show ?thesis using one_service_per_layer [of 4 8 "\<lambda>a. getLayer a"] by auto
qed

end
