(* ===== verification/Task_Path.thy ===== *)
theory Task_Path
  imports Prelude
begin

text \<open>
  Task ids (allscale/task_id.hpp, src/task_id.cpp).  The type TaskPath of a task id belongs to the
  AllScale API, which is not part of the repository: a path type is a parameter of the model, given
  by the record of its operations, and task\_path\_ok states what the runtime relies on.  The laws are
  restricted to paths shorter than 63, since the bits of a path are kept in 64 bits.
\<close>

section \<open>The interface of task paths\<close>

record 'p path_ops =
  pt_root :: 'p
  pt_left :: "'p \<Rightarrow> 'p"
  pt_right :: "'p \<Rightarrow> 'p"
  pt_parent :: "'p \<Rightarrow> 'p"
  pt_is_root :: "'p \<Rightarrow> bool"
  pt_len :: "'p \<Rightarrow> nat"
  pt_bits :: "'p \<Rightarrow> uint64_t"
  pt_prefix :: "'p \<Rightarrow> 'p \<Rightarrow> bool"
  pt_less :: "'p \<Rightarrow> 'p \<Rightarrow> bool"

text \<open>Paths are the nodes of a binary tree; getLength is the depth of the node and getPath the
  sequence of turns that leads to it, the last turn in the lowest bit.\<close>

definition task_path_ok :: "'p path_ops \<Rightarrow> bool" where
  "task_path_ok P \<longleftrightarrow>
    pt_len P (pt_root P) = 0 \<and> pt_bits P (pt_root P) = 0 \<and>
    (\<forall>p. pt_is_root P p \<longleftrightarrow> p = pt_root P) \<and>
    (\<forall>p. pt_len P p = 0 \<longrightarrow> p = pt_root P) \<and>
    (\<forall>p. pt_len P p < 63 \<longrightarrow>
      pt_len P (pt_left P p) = Suc (pt_len P p) \<and> pt_len P (pt_right P p) = Suc (pt_len P p) \<and>
      pt_parent P (pt_left P p) = p \<and> pt_parent P (pt_right P p) = p \<and>
      pt_bits P (pt_left P p) = 2 * pt_bits P p \<and> pt_bits P (pt_right P p) = 2 * pt_bits P p + 1) \<and>
    (\<forall>p. p \<noteq> pt_root P \<longrightarrow>
      Suc (pt_len P (pt_parent P p)) = pt_len P p \<and>
      (p = pt_left P (pt_parent P p) \<or> p = pt_right P (pt_parent P p)))"

definition pt_child :: "'p path_ops \<Rightarrow> bool \<Rightarrow> 'p \<Rightarrow> 'p" where
  "pt_child P b p = (if b then pt_right P p else pt_left P p)"

text \<open>Paths as lists of turns, the last turn first: an instance of the interface.\<close>

primrec list_bits :: "bool list \<Rightarrow> uint64_t" where
  "list_bits [] = 0"
| "list_bits (b # p) = 2 * list_bits p + of_bool b"

definition list_paths :: "bool list path_ops" where
  "list_paths = \<lparr>pt_root = [], pt_left = (#) False, pt_right = (#) True, pt_parent = tl,
    pt_is_root = (\<lambda>p. p = []), pt_len = length, pt_bits = list_bits,
    pt_prefix = (\<lambda>p q. length p \<le> length q \<and> drop (length q - length p) q = p),
    pt_less = (\<lambda>p q. length p < length q \<or> length p = length q \<and> list_bits p < list_bits q)\<rparr>"

lemma list_paths_simps [simp]:
  "pt_root list_paths = []" "pt_left list_paths = (#) False" "pt_right list_paths = (#) True"
  "pt_parent list_paths = tl" "pt_is_root list_paths = (\<lambda>p. p = [])" "pt_len list_paths = length"
  "pt_bits list_paths = list_bits"
  by (simp_all add: list_paths_def)

lemma list_paths_ok: "task_path_ok list_paths"
  unfolding task_path_ok_def by (auto simp: neq_Nil_conv)

section \<open>Consequences of the laws\<close>

lemma path_root [simp]:
  assumes "task_path_ok P"
  shows "pt_len P (pt_root P) = 0" and "pt_bits P (pt_root P) = 0"
    and "pt_is_root P p \<longleftrightarrow> p = pt_root P"
  using assms unfolding task_path_ok_def by blast+

lemma path_len_0: "task_path_ok P \<Longrightarrow> pt_len P p = 0 \<longleftrightarrow> p = pt_root P"
  unfolding task_path_ok_def by metis

lemma path_child:
  assumes "task_path_ok P" and "pt_len P p < 63"
  shows "pt_len P (pt_child P b p) = Suc (pt_len P p)" and "pt_parent P (pt_child P b p) = p"
    and "pt_bits P (pt_child P b p) = 2 * pt_bits P p + of_bool b"
  using assms unfolding task_path_ok_def pt_child_def by auto

lemma path_child_not_root:
  assumes "task_path_ok P" and "pt_len P p < 63"
  shows "pt_child P b p \<noteq> pt_root P"
  using path_child(1) [OF assms, of b] path_root(1) [OF assms(1)] by auto

lemma path_parent_len:
  assumes "task_path_ok P" and "p \<noteq> pt_root P"
  shows "Suc (pt_len P (pt_parent P p)) = pt_len P p"
  using assms unfolding task_path_ok_def by blast

lemma path_parent_child:
  assumes "task_path_ok P" and "p \<noteq> pt_root P"
  obtains b where "p = pt_child P b (pt_parent P p)"
proof -
  have "p = pt_left P (pt_parent P p) \<or> p = pt_right P (pt_parent P p)"
    using assms unfolding task_path_ok_def by blast
  then show thesis
    using that [of False] that [of True] by (auto simp: pt_child_def)
qed

text \<open>Induction along a path, from the root.\<close>

lemma path_induct [consumes 1, case_names root child]:
  assumes ok: "task_path_ok P"
    and root: "Q (pt_root P)"
    and child: "\<And>p b. Q p \<Longrightarrow> Q (pt_child P b p)"
  shows "Q p"
proof (induction "pt_len P p" arbitrary: p)
  case 0
  then show ?case using path_len_0 [OF ok] root by metis
next
  case (Suc n)
  then have nr: "p \<noteq> pt_root P" using ok by auto
  then obtain b where b: "p = pt_child P b (pt_parent P p)"
    by (rule path_parent_child [OF ok])
  have "Q (pt_parent P p)"
    using path_parent_len [OF ok nr] Suc by (intro Suc.hyps) simp
  then show ?case using child b by metis
qed

text \<open>The bits of a path of length n are a number below 2^n.\<close>

lemma path_bits_bound:
  assumes ok: "task_path_ok P" and "pt_len P p \<le> 62"
  shows "unat (pt_bits P p) < 2 ^ pt_len P p"
  using assms(2)
proof (induction "pt_len P p" arbitrary: p)
  case 0
  then show ?case using path_len_0 [OF ok] ok by (metis path_root(2) power_0 unat_0 zero_less_one)
next
  case (Suc n)
  then have nr: "p \<noteq> pt_root P" using ok by auto
  then obtain b where b: "p = pt_child P b (pt_parent P p)"
    by (rule path_parent_child [OF ok])
  have n: "n = pt_len P (pt_parent P p)" using path_parent_len [OF ok nr] Suc.hyps by simp
  then have IH: "unat (pt_bits P (pt_parent P p)) < 2 ^ n"
    using Suc.hyps Suc.prems by (metis Suc_leD)
  have "n \<le> 61" using Suc by simp
  then have le: "(2::nat) ^ Suc n \<le> 2 ^ 62" by (intro power_increasing) auto
  have bits: "pt_bits P p = 2 * pt_bits P (pt_parent P p) + of_bool b"
    using path_child(3) [OF ok, of "pt_parent P p" b] b n Suc by auto
  have "unat (pt_bits P p) = 2 * unat (pt_bits P (pt_parent P p)) + of_bool b"
    unfolding bits using IH le by (cases b) (auto simp: unat_word_ariths)
  moreover have "(2::nat) ^ pt_len P p = 2 * 2 ^ n" by (simp flip: Suc.hyps(2))
  ultimately show ?case using IH by (cases b) auto
qed

lemma path_child_unat_bits:
  assumes ok: "task_path_ok P" and "pt_len P p \<le> 61"
  shows "unat (pt_bits P (pt_child P b p)) = 2 * unat (pt_bits P p) + of_bool b"
proof -
  have "unat (pt_bits P p) < 2 ^ pt_len P p" using assms by (intro path_bits_bound) auto
  also have "(2::nat) ^ pt_len P p \<le> 2 ^ 61" using assms by (intro power_increasing) auto
  finally show ?thesis
    using assms by (cases b) (auto simp: path_child unat_word_ariths)
qed

section \<open>Task ids\<close>

text \<open>The shared pointer to the profile is left out: it is only read by the monitor and is null in
  every id that the operations below create.  numa\_depth and numa\_node\_ (cur\_numa) are mutable members, so
  numa\_node returns the updated id with its result.\<close>

record 'p task_id =
  locality_id :: uint64_t
  tid :: uint64_t
  path :: 'p
  numa_depth :: uint8_t
  cur_numa :: uint8_t

definition mk_task_id :: "uint64_t \<Rightarrow> uint64_t \<Rightarrow> 'p \<Rightarrow> 'p task_id" where
  "mk_task_id l i p = \<lparr>locality_id = l, tid = i, path = p, numa_depth = 0, cur_numa = - 1\<rparr>"

definition task_depth :: "'p path_ops \<Rightarrow> 'p task_id \<Rightarrow> nat" where
  "task_depth P t = pt_len P (path t)"

definition numa_node :: "'p path_ops \<Rightarrow> size_t \<Rightarrow> nat \<Rightarrow> 'p task_id \<Rightarrow> size_t \<times> 'p task_id" where
  "numa_node P numa_d cut_off t =
    (if task_depth P t < cut_off then (0, t)
     else let t' =
       (if cur_numa t = - 1 then t\<lparr>numa_depth := ucast numa_d, cur_numa := 0\<rparr>
        else if 0 < numa_depth t then
          t\<lparr>numa_depth := numa_depth t - 1,
            cur_numa := cur_numa t * 2 + ucast (pt_bits P (path t) AND 1)\<rparr>
        else t)
       in (ucast (cur_numa t'), t'))"

definition is_root :: "'p path_ops \<Rightarrow> 'p task_id \<Rightarrow> bool" where
  "is_root P t = pt_is_root P (path t)"

definition is_left :: "'p path_ops \<Rightarrow> 'p task_id \<Rightarrow> bool" where
  "is_left P t = (pt_bits P (path t) AND 1 = 0)"

definition is_right :: "'p path_ops \<Rightarrow> 'p task_id \<Rightarrow> bool" where
  "is_right P t = (pt_bits P (path t) AND 1 = 1)"

definition left_child :: "'p path_ops \<Rightarrow> 'p task_id \<Rightarrow> 'p task_id" where
  "left_child P t = t\<lparr>path := pt_left P (path t)\<rparr>"

definition right_child :: "'p path_ops \<Rightarrow> 'p task_id \<Rightarrow> 'p task_id" where
  "right_child P t = t\<lparr>path := pt_right P (path t)\<rparr>"

text \<open>parent(): of a root task it is the id of the work item that runs, if there is one.\<close>

definition parent :: "'p path_ops \<Rightarrow> 'p task_id option \<Rightarrow> 'p task_id \<Rightarrow> 'p task_id" where
  "parent P this_wi t =
    (if is_root P t then
       (case this_wi of None \<Rightarrow> mk_task_id 0 0 (pt_root P) | Some wi \<Rightarrow> wi)
     else mk_task_id (locality_id t) (tid t) (pt_parent P (path t)))"

definition is_parent_of :: "'p path_ops \<Rightarrow> 'p task_id \<Rightarrow> 'p task_id \<Rightarrow> bool" where
  "is_parent_of P t u =
    (tid t = tid u \<and> locality_id t = locality_id u \<and> pt_prefix P (path t) (path u))"

text \<open>The comparison operators compare std::tie(locality\_id, id, path).\<close>

definition task_eq :: "'p task_id \<Rightarrow> 'p task_id \<Rightarrow> bool" where
  "task_eq t u = (locality_id t = locality_id u \<and> tid t = tid u \<and> path t = path u)"

definition task_less :: "'p path_ops \<Rightarrow> 'p task_id \<Rightarrow> 'p task_id \<Rightarrow> bool" where
  "task_less P t u =
    (locality_id t < locality_id u \<or>
     (locality_id t = locality_id u \<and>
       (tid t < tid u \<or> (tid t = tid u \<and> pt_less P (path t) (path u)))))"

text \<open>create\_root: the static counter is the state, its first value is 1.\<close>

definition create_root :: "'p path_ops \<Rightarrow> uint64_t \<Rightarrow> uint64_t \<Rightarrow> 'p task_id \<times> uint64_t" where
  "create_root P here counter = (mk_task_id here counter (pt_root P), counter + 1)"

text \<open>create\_child: the running work item is given by its id and its counter num\_children, which is
  incremented in every case.  The third child has no id: the switch runs into its assertion and the
  function ends without a value (None).\<close>

definition create_child ::
    "'p path_ops \<Rightarrow> uint64_t \<Rightarrow> ('p task_id \<times> nat) option \<Rightarrow> uint64_t \<Rightarrow>
     'p task_id option \<times> ('p task_id \<times> nat) option \<times> uint64_t" where
  "create_child P here cur_wi counter =
    (case cur_wi of
       None \<Rightarrow> (let (t, counter') = create_root P here counter in (Some t, None, counter'))
     | Some (t, num_children) \<Rightarrow>
         ((if num_children = 0 then Some (left_child P t)
           else if num_children = 1 then Some (right_child P t)
           else None),
          Some (t, num_children + 1), counter))"

section \<open>Lemmas on task ids\<close>

lemmas task_id_defs = mk_task_id_def task_depth_def is_root_def is_left_def is_right_def left_child_def
  right_child_def parent_def create_root_def create_child_def

lemma parent_of_child:
  assumes "task_path_ok P" and "task_depth P t < 63"
  shows "task_eq (parent P wi (left_child P t)) t" and "task_eq (parent P wi (right_child P t)) t"
  using assms path_child [of P "path t" False] path_child [of P "path t" True]
    path_child_not_root [of P "path t" False] path_child_not_root [of P "path t" True]
  by (auto simp: task_id_defs task_eq_def pt_child_def)

lemma side_of_child:
  assumes "task_path_ok P" and "task_depth P t < 63"
  shows "is_left P (left_child P t)" and "is_right P (right_child P t)"
  using assms path_child(3) [of P "path t" False] path_child(3) [of P "path t" True]
  by (auto simp: task_id_defs pt_child_def and_one_eq mod2_eq_if)

text \<open>The numa node of a task: as long as the counter numa\_depth has not run out, one more digit of
  the node is known with each step down the path.\<close>

definition numa_inv :: "nat \<Rightarrow> 'p task_id \<Rightarrow> bool" where
  "numa_inv D t \<longleftrightarrow> cur_numa t = - 1 \<or>
    (unat (numa_depth t) \<le> D \<and> unat (cur_numa t) < 2 ^ (D - unat (numa_depth t)))"

lemma numa_inv_fresh: "numa_inv D (mk_task_id l i p)"
  by (simp add: numa_inv_def mk_task_id_def)

lemma numa_inv_child:
  "numa_inv D t \<Longrightarrow> numa_inv D (left_child P t)" "numa_inv D t \<Longrightarrow> numa_inv D (right_child P t)"
  by (auto simp: numa_inv_def left_child_def right_child_def)

lemma numa_node_step:
  assumes "numa_inv D t" and "D \<le> 7" and "\<not> task_depth P t < c"
  shows "unat (numa_depth (snd (numa_node P (word_of_nat D) c t))) \<le> D"
    and "unat (cur_numa (snd (numa_node P (word_of_nat D) c t)))
      < 2 ^ (D - unat (numa_depth (snd (numa_node P (word_of_nat D) c t))))"
proof -
  have D: "unat (ucast (word_of_nat D :: size_t) :: uint8_t) = D"
    using assms(2) by (simp add: unsigned_ucast_eq unsigned_of_nat take_bit_nat_eq_self)
  have p: "(2::nat) ^ D \<le> 2 ^ 7" using assms(2) by (intro power_increasing) auto
  define t' where "t' = snd (numa_node P (word_of_nat D) c t)"
  have "unat (numa_depth t') \<le> D \<and> unat (cur_numa t') < 2 ^ (D - unat (numa_depth t'))"
  proof (cases "cur_numa t = - 1 \<or> numa_depth t = 0")
    case True
    then show ?thesis
      using assms D unfolding t'_def by (auto simp: numa_node_def numa_inv_def)
  next
    case False
    then have pos: "0 < unat (numa_depth t)" by (simp add: unat_gt_0_word)
    then have dec: "unat (numa_depth t - 1) = unat (numa_depth t) - 1"
      using False by (simp add: unat_minus_one)
    have inv: "unat (numa_depth t) \<le> D" "unat (cur_numa t) < 2 ^ (D - unat (numa_depth t))"
      using assms False by (auto simp: numa_inv_def)
    define b where "b = unat (ucast (pt_bits P (path t) AND 1) :: uint8_t)"
    have b: "b \<le> 1" using and_1_cases [of "pt_bits P (path t)"] unfolding b_def by auto
    have step: "2 ^ (D - (unat (numa_depth t) - 1)) = (2::nat) * 2 ^ (D - unat (numa_depth t))"
    proof -
      have "D - (unat (numa_depth t) - 1) = Suc (D - unat (numa_depth t))" using inv(1) pos by linarith
      then show ?thesis by simp
    qed
    have "(2::nat) * 2 ^ (D - unat (numa_depth t)) \<le> 2 ^ D"
      using step power_increasing [of "D - (unat (numa_depth t) - 1)" D "2::nat"] by simp
    then have "unat (cur_numa t * 2 + ucast (pt_bits P (path t) AND 1)) = unat (cur_numa t) * 2 + b"
      using inv(2) b p unfolding b_def by (auto simp: unat_word_ariths)
    then have "unat (cur_numa t * 2 + ucast (pt_bits P (path t) AND 1))
        < 2 ^ (D - unat (numa_depth t - 1))"
      using inv(2) b step dec by simp
    then show ?thesis
      using False assms(3) dec inv(1) pos unfolding t'_def
      by (auto simp: numa_node_def Let_def unat_gt_0_word word_gt_0)
  qed
  then show "unat (numa_depth (snd (numa_node P (word_of_nat D) c t))) \<le> D"
    and "unat (cur_numa (snd (numa_node P (word_of_nat D) c t)))
      < 2 ^ (D - unat (numa_depth (snd (numa_node P (word_of_nat D) c t))))"
    by (simp_all add: t'_def)
qed

lemma unat_ucast_byte: "unat (ucast (b :: uint8_t) :: size_t) = unat b"
proof -
  have "unat b < 2 ^ LENGTH(8)" by (rule unsigned_less)
  then show ?thesis by (simp add: unsigned_ucast_eq take_bit_nat_eq_self)
qed

lemma numa_inv_numa_node:
  assumes "numa_inv D t" and "D \<le> 7"
  shows "numa_inv D (snd (numa_node P (word_of_nat D) c t))"
    and "unat (fst (numa_node P (word_of_nat D) c t)) < 2 ^ D"
proof (atomize (full), cases "task_depth P t < c")
  case True
  then show "numa_inv D (snd (numa_node P (word_of_nat D) c t)) \<and>
      unat (fst (numa_node P (word_of_nat D) c t)) < 2 ^ D"
    using assms(1) by (simp add: numa_node_def)
next
  case False
  note step = numa_node_step [OF assms False]
  have "fst (numa_node P (word_of_nat D) c t) =
      ucast (cur_numa (snd (numa_node P (word_of_nat D) c t)))"
    using False by (simp add: numa_node_def Let_def)
  then have "unat (fst (numa_node P (word_of_nat D) c t)) =
      unat (cur_numa (snd (numa_node P (word_of_nat D) c t)))"
    by (simp add: unat_ucast_byte)
  also have "\<dots> < 2 ^ (D - unat (numa_depth (snd (numa_node P (word_of_nat D) c t))))"
    by (rule step(2))
  also have "\<dots> \<le> 2 ^ D" by (intro power_increasing) auto
  finally show "numa_inv D (snd (numa_node P (word_of_nat D) c t)) \<and>
      unat (fst (numa_node P (word_of_nat D) c t)) < 2 ^ D"
    using step by (simp add: numa_inv_def)
qed

text \<open>The ids that a run creates: fresh ids, their children and the ids updated by numa\_node.\<close>

inductive numa_reach :: "'p path_ops \<Rightarrow> nat \<Rightarrow> nat \<Rightarrow> 'p task_id \<Rightarrow> bool" for P D c where
  fresh: "numa_reach P D c (mk_task_id l i p)"
| left: "numa_reach P D c t \<Longrightarrow> numa_reach P D c (left_child P t)"
| right: "numa_reach P D c t \<Longrightarrow> numa_reach P D c (right_child P t)"
| numa: "numa_reach P D c t \<Longrightarrow> numa_reach P D c (snd (numa_node P (word_of_nat D) c t))"

lemma numa_reach_inv: "numa_reach P D c t \<Longrightarrow> D \<le> 7 \<Longrightarrow> numa_inv D t"
  by (induction rule: numa_reach.induct)
    (auto intro: numa_inv_fresh numa_inv_child numa_inv_numa_node(1))

section \<open>Properties\<close>

text \<open>Every child that a running task creates is a child of it: the parent of the id that
  create\_child returns is the id of the running task, the first child is the left one and the second
  the right one, they differ, and there is no third child.\<close>

theorem create_child_parent:
  assumes "task_path_ok P" and "task_depth P t < 63"
    and "create_child P here (Some (t, 0)) n0 = (c1, wi1, n1)"
    and "create_child P here wi1 n1 = (c2, wi2, n2)"
    and "create_child P here wi2 n2 = (c3, wi3, n3)"
  shows "(\<exists>l r. c1 = Some l \<and> c2 = Some r \<and> is_left P l \<and> is_right P r \<and> \<not> task_eq l r \<and>
      task_eq (parent P wi l) t \<and> task_eq (parent P wi r) t) \<and> c3 = None \<and> n3 = n0"
proof -
  have "\<not> task_eq (left_child P t) (right_child P t)"
    using side_of_child [OF assms(1,2)] by (auto simp: task_eq_def is_left_def is_right_def)
  then show ?thesis
    using assms(3-5) side_of_child [OF assms(1,2)] parent_of_child [OF assms(1,2), of wi]
    by (auto simp: create_child_def)
qed

theorem create_child_parent_witness:
  "task_path_ok list_paths \<and>
    task_eq (parent list_paths None (left_child list_paths (mk_task_id 0 1 [True]))) (mk_task_id 0 1 [True])"
proof -
  define t :: "bool list task_id" where "t = mk_task_id 0 1 [True]"
  have "task_depth list_paths t < 63" by (simp add: t_def task_depth_def mk_task_id_def)
  from create_child_parent [OF list_paths_ok this, where wi = None]
  show ?thesis using list_paths_ok by (auto simp: create_child_def simp flip: t_def)
qed

text \<open>The numa node of a task is below 2^D, for a machine whose numa tree has depth D (at most
  7): along any sequence of created children and of calls of numa\_node.\<close>

theorem numa_node_bound:
  assumes "numa_reach P D c t" and "D \<le> 7"
  shows "unat (fst (numa_node P (word_of_nat D) c t)) < 2 ^ D"
  using numa_reach_inv [OF assms] assms(2) by (rule numa_inv_numa_node(2))

theorem numa_node_bound_witness:
  "numa_reach list_paths 2 1 (right_child list_paths
      (snd (numa_node list_paths 2 1 (mk_task_id 0 1 [True])))) \<and>
    unat (fst (numa_node list_paths 2 1 (right_child list_paths
      (snd (numa_node list_paths 2 1 (mk_task_id 0 1 [True])))))) < 4"
proof -
  have r: "numa_reach list_paths 2 1 (right_child list_paths
      (snd (numa_node list_paths 2 1 (mk_task_id 0 1 [True]))))"
    using numa_reach.right [OF numa_reach.numa [OF numa_reach.fresh, where D = 2 and c = 1]] by simp
  show ?thesis using r numa_node_bound [OF r] by simp
qed

end
