(* ===== verification/Task_Times.thy ===== *)
theory Task_Times
  imports Task_Path
begin

text \<open>
  The tracked execution times of tasks (allscale/task\_times.hpp, src/task\_times.cpp): one float
  for each task of the tracking level.  The level is an argument of the recursive functions and
  TRACKING\_LEVEL in the operations themselves.  The recursions over paths take as fuel the number of
  levels between the path and the tracking level; None is a path whose record is out of the vector.
\<close>

definition TRACKING_LEVEL :: nat where
  "TRACKING_LEVEL = 14"

definition new_task_times :: "'f farith \<Rightarrow> 'f list" where
  "new_task_times F = replicate (2 ^ TRACKING_LEVEL) (flit F 0 1)"

text \<open>add(path, time).  The time is a signed number of nanoseconds, its division truncates.\<close>

fun add_at :: "'p path_ops \<Rightarrow> 'f farith \<Rightarrow> nat \<Rightarrow> nat \<Rightarrow> 'f list \<Rightarrow> 'p \<Rightarrow> int \<Rightarrow> 'f list option" where
  "add_at P F level fuel ts p time =
    (if pt_len P p = level then
       (let i = unat (pt_bits P p)
        in map_option (\<lambda>x. ts[i := fadd F x (fof_int F time)]) (at_opt ts i))
     else (case fuel of 0 \<Rightarrow> None
       | Suc fuel' \<Rightarrow>
           if pt_len P p < level then do {
             let f = (if 0 \<le> time then time div 2 else - ((- time) div 2));
             ts1 \<leftarrow> add_at P F level fuel' ts (pt_left P p) f;
             add_at P F level fuel' ts1 (pt_right P p) (time - f)}
           else add_at P F level fuel' ts (pt_parent P p) time))"

declare add_at.simps [simp del]

definition distance :: "nat \<Rightarrow> nat \<Rightarrow> nat" where
  "distance a b = (a - b) + (b - a)"

definition task_times_add :: "'p path_ops \<Rightarrow> 'f farith \<Rightarrow> 'f list \<Rightarrow> 'p \<Rightarrow> int \<Rightarrow> 'f list option" where
  "task_times_add P F ts p time =
    add_at P F TRACKING_LEVEL (distance (pt_len P p) TRACKING_LEVEL) ts p time"

definition task_times_add_id :: "'p path_ops \<Rightarrow> 'f farith \<Rightarrow> 'f list \<Rightarrow> 'p task_id \<Rightarrow> int \<Rightarrow> 'f list option" where
  "task_times_add_id P F ts t time = task_times_add P F ts (path t) time"

fun time_at :: "'p path_ops \<Rightarrow> 'f farith \<Rightarrow> nat \<Rightarrow> nat \<Rightarrow> 'f list \<Rightarrow> 'p \<Rightarrow> 'f option" where
  "time_at P F level fuel ts p =
    (if pt_len P p = level then at_opt ts (unat (pt_bits P p))
     else (case fuel of 0 \<Rightarrow> None
       | Suc fuel' \<Rightarrow>
           if pt_len P p < level then do {
             l \<leftarrow> time_at P F level fuel' ts (pt_left P p);
             r \<leftarrow> time_at P F level fuel' ts (pt_right P p);
             Some (fadd F l r)}
           else map_option (\<lambda>x. fdiv F x (flit F 2 1)) (time_at P F level fuel' ts (pt_parent P p))))"

declare time_at.simps [simp del]

definition get_time :: "'p path_ops \<Rightarrow> 'f farith \<Rightarrow> 'f list \<Rightarrow> 'p \<Rightarrow> 'f option" where
  "get_time P F ts p = time_at P F TRACKING_LEVEL (distance (pt_len P p) TRACKING_LEVEL) ts p"

text \<open>The operators +=, - and /.  The loops run over the own vector, so the other one must not be
  shorter.\<close>

definition times_zip :: "('f \<Rightarrow> 'f \<Rightarrow> 'f) \<Rightarrow> 'f list \<Rightarrow> 'f list \<Rightarrow> 'f list option" where
  "times_zip f ts other =
    (if length ts \<le> length other then Some (map2 f ts (take (length ts) other)) else None)"

definition times_plus :: "'f farith \<Rightarrow> 'f list \<Rightarrow> 'f list \<Rightarrow> 'f list option" where
  "times_plus F = times_zip (fadd F)"

definition times_minus :: "'f farith \<Rightarrow> 'f list \<Rightarrow> 'f list \<Rightarrow> 'f list option" where
  "times_minus F = times_zip (fsub F)"

definition times_div :: "'f farith \<Rightarrow> 'f list \<Rightarrow> 'f \<Rightarrow> 'f list" where
  "times_div F ts f = map (\<lambda>x. fdiv F x f) ts"

section \<open>What add records\<close>

text \<open>The parts of a time recorded at path p: the list of the parts of the 2^n tasks of the tracking
  level below it is added to the slice of the vector that belongs to them.\<close>

definition add_slice :: "'f farith \<Rightarrow> 'f list \<Rightarrow> nat \<Rightarrow> int list \<Rightarrow> 'f list" where
  "add_slice F ts i parts =
    take i ts @ map2 (\<lambda>x t. fadd F x (fof_int F t)) (take (length parts) (drop i ts)) parts @
    drop (i + length parts) ts"

lemma length_add_slice [simp]: "i + length parts \<le> length ts \<Longrightarrow> length (add_slice F ts i parts) = length ts"
  by (simp add: add_slice_def)

lemma nth_add_slice:
  assumes "i + length parts \<le> length ts" and "j < length ts"
  shows "add_slice F ts i parts ! j =
    (if i \<le> j \<and> j < i + length parts then fadd F (ts ! j) (fof_int F (parts ! (j - i))) else ts ! j)"
  using assms by (auto simp: add_slice_def nth_append min_def)

lemma add_slice_append:
  assumes "i + length ps + length qs \<le> length ts"
  shows "add_slice F (add_slice F ts i ps) (i + length ps) qs = add_slice F ts i (ps @ qs)"
  using assms
  by (intro nth_equalityI) (auto simp: nth_add_slice nth_append)

lemma add_slice_single:
  assumes "i < length ts"
  shows "add_slice F ts i [t] = ts[i := fadd F (ts ! i) (fof_int F t)]"
  using assms by (intro nth_equalityI) (auto simp: nth_add_slice nth_list_update less_Suc_eq)

lemma add_at_parts:
  assumes ok: "task_path_ok P" and level: "level \<le> 60"
  shows "pt_len P p + n = level \<Longrightarrow> (unat (pt_bits P p) + 1) * 2 ^ n \<le> length ts \<Longrightarrow>
    \<exists>parts. length parts = 2 ^ n \<and> sum_list parts = time \<and>
      add_at P F level n ts p time = Some (add_slice F ts (unat (pt_bits P p) * 2 ^ n) parts)"
proof (induction n arbitrary: p ts time)
  case 0
  then show ?case
    by (intro exI [of _ "[time]"]) (simp add: add_at.simps add_slice_single Let_def)
next
  case (Suc n)
  define f where "f = (if 0 \<le> time then time div 2 else - ((- time) div 2))"
  have len: "pt_len P p \<le> 61" using Suc.prems(1) level by simp
  note left = path_child(1) [OF ok, of p False] path_child_unat_bits [OF ok, of p False]
  note right = path_child(1) [OF ok, of p True] path_child_unat_bits [OF ok, of p True]
  let ?i = "unat (pt_bits P p) * 2 ^ Suc n"
  have fit: "?i + 2 * 2 ^ n \<le> length ts" using Suc.prems(2) by (simp add: algebra_simps)
  obtain ps where ps: "length ps = 2 ^ n" "sum_list ps = f"
    "add_at P F level n ts (pt_left P p) f = Some (add_slice F ts ?i ps)"
    using Suc.IH [of "pt_left P p" ts f] left len Suc.prems(1) fit
    by (auto simp: pt_child_def algebra_simps)
  define ts1 where "ts1 = add_slice F ts ?i ps"
  have l1: "length ts1 = length ts" using fit ps(1) by (simp add: ts1_def)
  obtain qs where qs: "length qs = 2 ^ n" "sum_list qs = time - f"
    "add_at P F level n ts1 (pt_right P p) (time - f) = Some (add_slice F ts1 (?i + 2 ^ n) qs)"
    using Suc.IH [of "pt_right P p" ts1 "time - f"] right len Suc.prems(1) fit l1
    by (auto simp: pt_child_def algebra_simps)
  have "add_at P F level (Suc n) ts p time = Some (add_slice F ts ?i (ps @ qs))"
    using Suc.prems(1) ps(3) qs(3) add_slice_append [of ?i ps qs ts F] fit ps(1) qs(1)
    unfolding ts1_def by (subst add_at.simps) (simp add: Let_def flip: f_def)
  then show ?case using ps(1,2) qs(1,2)
    by (intro exI [of _ "ps @ qs"]) simp
qed

text \<open>A path below the tracking level is recorded, and read, at its ancestor of that level.\<close>

fun ancestor :: "'p path_ops \<Rightarrow> nat \<Rightarrow> 'p \<Rightarrow> 'p" where
  "ancestor P 0 p = p"
| "ancestor P (Suc n) p = ancestor P n (pt_parent P p)"

lemma add_at_below:
  assumes ok: "task_path_ok P"
  shows "pt_len P p = level + n \<Longrightarrow>
    add_at P F level n ts p time = add_at P F level 0 ts (ancestor P n p) time"
proof (induction n arbitrary: p)
  case (Suc n)
  then have "p \<noteq> pt_root P" using ok by auto
  then have "pt_len P (pt_parent P p) = level + n" using path_parent_len [OF ok] Suc.prems by fastforce
  then show ?case using Suc by (subst add_at.simps) simp
qed simp

section \<open>Properties\<close>

text \<open>The time of a task at or above the tracking level is split completely: it is added, in
  integer parts that sum up to it, to the records of the tasks of the tracking level below the task,
  and no other record changes.  This does not depend on the rounding of the floats.\<close>

theorem task_times_add_complete:
  assumes "task_path_ok P" and "pt_len P p + n = TRACKING_LEVEL" and "length ts = 2 ^ TRACKING_LEVEL"
  shows "\<exists>parts. length parts = 2 ^ n \<and> sum_list parts = time \<and>
    task_times_add P F ts p time = Some (add_slice F ts (unat (pt_bits P p) * 2 ^ n) parts)"
proof -
  have "distance (pt_len P p) TRACKING_LEVEL = n" using assms(2) by (simp add: distance_def)
  moreover have "unat (pt_bits P p) < 2 ^ pt_len P p"
    using assms(1,2) by (intro path_bits_bound) (auto simp: TRACKING_LEVEL_def)
  then have "unat (pt_bits P p) + 1 \<le> 2 ^ pt_len P p" by simp
  then have "(unat (pt_bits P p) + 1) * 2 ^ n \<le> 2 ^ pt_len P p * 2 ^ n" by (rule mult_right_mono) simp
  then have "(unat (pt_bits P p) + 1) * 2 ^ n \<le> length ts"
    using assms(2,3) by (simp flip: power_add)
  ultimately show ?thesis
    using add_at_parts [OF assms(1), of TRACKING_LEVEL p n ts time F] assms(2)
    by (simp add: task_times_add_def TRACKING_LEVEL_def)
qed

theorem task_times_add_complete_witness:
  "\<exists>parts. length parts = 2 ^ 13 \<and> sum_list parts = 7 \<and>
    task_times_add list_paths rat_arith (new_task_times rat_arith) [True] 7 =
      Some (add_slice rat_arith (new_task_times rat_arith) (2 ^ 13) parts)"
  using task_times_add_complete [OF list_paths_ok, of "[True]" 13 "new_task_times rat_arith" 7 rat_arith]
  by (simp add: TRACKING_LEVEL_def new_task_times_def)
end
