(* ===== verification/Decision_Tree.thy ===== *)
theory Decision_Tree
  imports Task_Path Hierarchy "HOL-Library.Monad_Syntax"
begin

text \<open>
  The decision trees of the scheduling policies (decision\_tree of allscale/schedule\_policy.hpp and
  src/schedule\_policy.cpp): the embedded binary tree of two-bit decisions, and the functions that
  fill it so that it realizes a mapping of tasks to ranks.  None stands for undefined behaviour: an
  int that overflows, or an access outside of the encoding vector.
\<close>

section \<open>Decisions and positions\<close>

datatype schedule_decision = sd_done | sd_stay | sd_left | sd_right

definition decision_code :: "schedule_decision \<Rightarrow> uint8_t" where
  "decision_code d = (case d of sd_done \<Rightarrow> 0 | sd_stay \<Rightarrow> 1 | sd_left \<Rightarrow> 2 | sd_right \<Rightarrow> 3)"

definition decision_of :: "uint8_t \<Rightarrow> schedule_decision" where
  "decision_of c = (if c = 0 then sd_done else if c = 1 then sd_stay else if c = 2 then sd_left else sd_right)"

text \<open>The loop of ceilLog2; like the loop of getLayersOn it does not end above 2^63.\<close>

partial_function (option) log2_loop :: "uint64_t \<Rightarrow> uint64_t \<Rightarrow> nat \<Rightarrow> nat option" where
  "log2_loop x c i = (if c < x then log2_loop x (push_bit 1 c) (i + 1) else Some i)"

definition ceilLog2 :: "uint64_t \<Rightarrow> nat option" where
  "ceilLog2 x = log2_loop x 1 0"

text \<open>The position of a path in the embedded tree is an int, and it is doubled before it is used:
  there is a position only where 2*pos fits.\<close>

definition get_position :: "'p path_ops \<Rightarrow> 'p \<Rightarrow> nat option" where
  "get_position P p =
    (let pos = int_shl1 (word_of_nat (pt_len P p)) OR pt_bits P p
     in if pt_len P p < 31 \<and> pos < 2 ^ 30 then Some (unat pos) else None)"

section \<open>The embedded tree\<close>

type_synonym decision_tree = "uint8_t list"

definition new_decision_tree :: "uint64_t \<Rightarrow> decision_tree" where
  "new_decision_tree num_nodes = replicate (unat (2 * 2 * num_nodes div 8)) 0"

definition set_at :: "decision_tree \<Rightarrow> nat \<Rightarrow> schedule_decision \<Rightarrow> decision_tree option" where
  "set_at encoded pos d =
    (let byte_pos = 2 * pos div 8; bit_pos = (2 * pos) mod 8
     in map_option
       (\<lambda>b. encoded[byte_pos :=
         (b AND NOT (push_bit bit_pos 3)) OR push_bit bit_pos (decision_code d)])
       (at_opt encoded byte_pos))"

definition get_at :: "decision_tree \<Rightarrow> nat \<Rightarrow> schedule_decision option" where
  "get_at encoded pos =
    (let byte_pos = 2 * pos div 8; bit_pos = (2 * pos) mod 8
     in if length encoded < byte_pos then Some sd_done
        else map_option (\<lambda>b. decision_of (drop_bit bit_pos b AND 3)) (at_opt encoded byte_pos))"

definition tree_set :: "'p path_ops \<Rightarrow> decision_tree \<Rightarrow> 'p \<Rightarrow> schedule_decision \<Rightarrow> decision_tree option" where
  "tree_set P encoded p d = do {pos \<leftarrow> get_position P p; set_at encoded pos d}"

definition tree_get :: "'p path_ops \<Rightarrow> decision_tree \<Rightarrow> 'p \<Rightarrow> schedule_decision option" where
  "tree_get P encoded p = do {pos \<leftarrow> get_position P p; get_at encoded pos}"

section \<open>Filling the tree\<close>

text \<open>getEqualDistribution.  The outer loop is indexed by i up to the number of active nodes, not up
  to the size of the mask; c is the next index of the result and l the number of nodes that got one
  task more.  The inner loop writes the node i share times from index c on.\<close>

definition write_n :: "nat list \<Rightarrow> nat \<Rightarrow> nat \<Rightarrow> nat \<Rightarrow> nat list option" where
  "write_n res c n i =
    (if c + n \<le> length res then Some (take c res @ replicate n i @ drop (c + n) res) else None)"

fun equal_loop ::
    "bool list \<Rightarrow> nat \<Rightarrow> nat \<Rightarrow> nat \<Rightarrow> nat \<Rightarrow> nat list \<Rightarrow> nat \<Rightarrow> nat \<Rightarrow> nat list option" where
  "equal_loop active share remainder i 0 res c l = Some res"
| "equal_loop active share remainder i (Suc n) res c l = do {
     m \<leftarrow> at_opt active i;
     if \<not> m then equal_loop active share remainder (Suc i) n res c l
     else do {
       res1 \<leftarrow> write_n res c share i;
       if l < remainder then do {
         res2 \<leftarrow> write_n res1 (c + share) 1 i;
         equal_loop active share remainder (Suc i) n res2 (c + share + 1) (l + 1)}
       else equal_loop active share remainder (Suc i) n res1 (c + share) l}}"

text \<open>Without active nodes the share is a division by zero.\<close>

definition getEqualDistribution :: "bool list \<Rightarrow> nat \<Rightarrow> nat list option" where
  "getEqualDistribution active numTasks =
    (let numNodes = count_list active True
     in if numNodes = 0 then None
        else equal_loop active (numTasks div numNodes) (numTasks mod numNodes) 0 numNodes
          (replicate numTasks 0) 0 0)"

text \<open>The decision of one call of fillTree, with the depth and the range of the nested calls.\<close>

definition fill_decision ::
    "nat \<Rightarrow> nat \<Rightarrow> nat \<Rightarrow> nat \<Rightarrow> nat \<Rightarrow> schedule_decision \<times> nat \<times> nat \<times> nat" where
  "fill_decision depth range_min range_max cur_min cur_max =
    (let center = range_min + (range_max - range_min) div 2
     in if cur_max < center then (sd_left, depth + 1, range_min, center)
        else if center \<le> cur_min then (sd_right, depth + 1, center, range_max)
        else (sd_stay, depth, range_min, range_max))"

lemma fill_decision_depth:
  "fill_decision depth rmin rmax a b = (d, depth', c, e) \<Longrightarrow>
    depth \<le> depth' \<and> (a = b \<longrightarrow> depth' = Suc depth)"
  by (auto simp: fill_decision_def Let_def split: if_splits)

text \<open>fillTree.  The pair of pointers min, max into the mapping is the index mn and the distance n.\<close>

function fillTree ::
    "'p path_ops \<Rightarrow> nat list \<Rightarrow> nat \<Rightarrow> decision_tree \<Rightarrow> 'p \<Rightarrow> nat \<Rightarrow> nat \<Rightarrow> nat \<Rightarrow> nat \<Rightarrow> nat \<Rightarrow>
     decision_tree option" where
  "fillTree P mp max_depth tree p depth range_min range_max mn n =
    (if max_depth \<le> depth then Some tree
     else do {
       cur_min \<leftarrow> at_opt mp mn;
       cur_max \<leftarrow> (if n = 0 then Some cur_min else at_opt mp (mn + n - 1));
       let (d, depth', nested_min, nested_max) =
         fill_decision depth range_min range_max cur_min cur_max;
       tree1 \<leftarrow> tree_set P tree p d;
       if max_depth \<le> depth' \<and> n \<le> 1 then Some tree1
       else do {
         tree2 \<leftarrow> fillTree P mp max_depth tree1 (pt_left P p) depth' nested_min nested_max mn (n div 2);
         fillTree P mp max_depth tree2 (pt_right P p) depth' nested_min nested_max
           (mn + n div 2) (n - n div 2)}})"
  by pat_completeness auto

termination
proof (relation "measure (\<lambda>(P, mp, max_depth, tree, p, depth, rmin, rmax, mn, n). (max_depth - depth) + n)",
    goal_cases)
  case 1
  then show ?case by simp
next
  case (2 P mp max_depth tree p depth rmin rmax mn n cur_min cur_max x d y depth' z c e tree1)
  then have "fill_decision depth rmin rmax cur_min cur_max = (d, depth', c, e)" by simp
  note fill_decision_depth [OF this]
  with 2 show ?case by (auto split: if_splits)
next
  case (3 P mp max_depth tree p depth rmin rmax mn n cur_min cur_max x d y depth' z c e tree1 tree2)
  then have "fill_decision depth rmin rmax cur_min cur_max = (d, depth', c, e)" by simp
  note fill_decision_depth [OF this]
  moreover have "n = 1 \<Longrightarrow> cur_min = cur_max" using 3 by auto
  ultimately show ?case using 3 by (cases "n \<le> 1") (auto split: if_splits simp: le_Suc_eq)
qed

definition toDecisionTree :: "'p path_ops \<Rightarrow> nat \<Rightarrow> nat list \<Rightarrow> decision_tree option" where
  "toDecisionTree P num_nodes mp = do {
     log2 \<leftarrow> ceilLog2 (word_of_nat (length mp));
     max_depth \<leftarrow> ceilLog2 (word_of_nat num_nodes);
     fillTree P mp max_depth (new_decision_tree (push_bit (2 * log2) 1)) (pt_root P)
       0 0 num_nodes 0 (length mp)}"

section \<open>The codes of decisions\<close>

lemma decision_of_code [simp]: "decision_of (decision_code d) = d"
  by (cases d) (simp_all add: decision_of_def decision_code_def)

lemma and_3_take_bit: "(w :: uint8_t) AND 3 = take_bit 2 w"
  by (simp add: take_bit_eq_mask mask_eq_exp_minus_1)

lemma decision_code_2_bits: "take_bit 2 (decision_code d) = decision_code d"
  by (cases d) (simp_all add: decision_code_def flip: and_3_take_bit)

lemma three_mask: "(3 :: uint8_t) = mask 2"
  by (simp add: mask_eq_exp_minus_1)

text \<open>Writing the two bits of slot i of a byte and reading those of slot j.\<close>

lemma byte_get_set:
  assumes "i < 4" and "j < 4" and c: "take_bit 2 c = c"
  shows "drop_bit (2 * j) ((b AND NOT (push_bit (2 * i) 3)) OR push_bit (2 * i) c) AND 3 =
    (if i = j then c else drop_bit (2 * j) (b :: uint8_t) AND 3)"
  unfolding three_mask
proof (rule word_eq_by_bits)
  fix n assume n: "n < LENGTH(8)"
  have cb: "bit c m \<Longrightarrow> m < 2" for m
    using c by (metis bit_take_bit_iff)
  have *: "2 * i \<le> 2 * j + n \<and> 2 * j + n - 2 * i < 2 \<longleftrightarrow> i = j" if "n < 2" using that by auto
  show "bit (drop_bit (2 * j) ((b AND NOT (push_bit (2 * i) (mask 2))) OR push_bit (2 * i) c) AND mask 2) n =
      bit (if i = j then c else drop_bit (2 * j) b AND mask 2) n"
  proof (cases "n < 2")
    case True
    then have "2 * j + n < 8" using assms by simp
    then show ?thesis
      using * [OF True] True cb [of "2 * j + n - 2 * i"] assms
      by (auto simp: bit_and_iff bit_or_iff bit_not_iff bit_drop_bit_eq bit_push_bit_iff bit_mask_iff)
  next
    case False
    then show ?thesis using cb [of n] by (auto simp: bit_and_iff bit_mask_iff)
  qed
qed

section \<open>Reading after writing\<close>

lemma byte_bit_pos: "(2 * pos) mod 8 = 2 * (pos mod 4)" "2 * pos div 8 = pos div (4::nat)"
  by (simp_all add: mult_mod_right [of 2 pos 4, simplified])

lemma get_at_in:
  "pos < 4 * length t \<Longrightarrow>
    get_at t pos = Some (decision_of (drop_bit (2 * (pos mod 4)) (t ! (pos div 4)) AND 3))"
  by (auto simp: get_at_def Let_def byte_bit_pos)

lemma set_at_in:
  "pos < 4 * length t \<Longrightarrow> \<exists>t'. set_at t pos d = Some t'"
  by (auto simp: set_at_def Let_def byte_bit_pos)

lemma set_at_out: "4 * length t \<le> pos \<Longrightarrow> set_at t pos d = None"
  by (auto simp: set_at_def Let_def byte_bit_pos)

lemma set_at_length: "set_at t pos d = Some t' \<Longrightarrow> length t' = length t"
  by (auto simp: set_at_def Let_def)

lemma get_at_set_at:
  assumes "set_at t pos d = Some t'"
  shows "get_at t' q = (if q = pos then Some d else get_at t q)"
proof -
  have pos: "pos div 4 < length t"
    and t': "t' = t[pos div 4 := (t ! (pos div 4) AND NOT (push_bit (2 * (pos mod 4)) 3)) OR
      push_bit (2 * (pos mod 4)) (decision_code d)]"
    using assms by (auto simp: set_at_def Let_def byte_bit_pos split: if_splits)
  show ?thesis
  proof (cases "q div 4 < length t")
    case False
    then have "q \<noteq> pos" using pos by auto
    then show ?thesis using False t' by (auto simp: get_at_def Let_def byte_bit_pos)
  next
    case True
    have eq: "q = pos \<longleftrightarrow> q div 4 = pos div 4 \<and> q mod 4 = pos mod 4"
      by (metis div_mult_mod_eq)
    have "get_at t' q = Some (decision_of (drop_bit (2 * (q mod 4)) (t' ! (q div 4)) AND 3))"
      using True t' by (auto simp: get_at_def Let_def byte_bit_pos)
    moreover have "get_at t q = Some (decision_of (drop_bit (2 * (q mod 4)) (t ! (q div 4)) AND 3))"
      using True by (auto simp: get_at_def Let_def byte_bit_pos)
    moreover have "t' ! (q div 4) =
        (if q div 4 = pos div 4 then (t ! (q div 4) AND NOT (push_bit (2 * (pos mod 4)) 3)) OR
          push_bit (2 * (pos mod 4)) (decision_code d) else t ! (q div 4))"
      using True t' by auto
    ultimately show ?thesis
      using byte_get_set [of "pos mod 4" "q mod 4" "decision_code d" "t ! (q div 4)"] eq
      by (auto simp: decision_code_2_bits)
  qed
qed

section \<open>Positions of paths\<close>

text \<open>The number of a path in the embedded tree: the root is 1, the children of x are 2x and
  2x+1.\<close>

definition node_no :: "'p path_ops \<Rightarrow> 'p \<Rightarrow> nat" where
  "node_no P p = 2 ^ pt_len P p + unat (pt_bits P p)"

lemma node_no_pos: "0 < node_no P p"
  by (simp add: node_no_def)

lemma node_no_root: "task_path_ok P \<Longrightarrow> node_no P (pt_root P) = 1"
  by (simp add: node_no_def)

lemma node_no_child:
  "task_path_ok P \<Longrightarrow> pt_len P p \<le> 61 \<Longrightarrow> node_no P (pt_child P b p) = 2 * node_no P p + of_bool b"
  by (simp add: node_no_def path_child(1) path_child_unat_bits)

lemma node_no_bound:
  assumes "task_path_ok P" and "pt_len P p \<le> 62"
  shows "node_no P p < 2 ^ Suc (pt_len P p)" and "2 ^ pt_len P p \<le> node_no P p"
  using path_bits_bound [OF assms] by (simp_all add: node_no_def)

lemma get_position_eq:
  assumes ok: "task_path_ok P" and len: "pt_len P p \<le> 28"
  shows "get_position P p = Some (node_no P p)"
proof -
  have l: "unat (word_of_nat (pt_len P p) :: layer_t) = pt_len P p"
    using len by (simp add: unat_word_of_nat_layer)
  have sh: "int_shl1 (word_of_nat (pt_len P p)) = 2 ^ pt_len P p"
    using len by (simp add: int_shl1_eq l)
  have b: "unat (pt_bits P p) < 2 ^ pt_len P p" using ok len by (intro path_bits_bound) auto
  have "2 ^ pt_len P p OR pt_bits P p = 2 ^ pt_len P p + pt_bits P p"
    by (rule disjunctive_add [symmetric])
      (use word_less_bits [OF b] in \<open>auto simp: bit_exp_iff\<close>)
  moreover have "unat (2 ^ pt_len P p + pt_bits P p) = node_no P p"
  proof -
    have "(2::nat) ^ pt_len P p \<le> 2 ^ 28" using len by (intro power_increasing) auto
    then have "unat (2 ^ pt_len P p :: uint64_t) + unat (pt_bits P p) < 2 ^ LENGTH(64)"
      using b len by (simp add: unat_two_power)
    then show ?thesis using len
      by (simp add: unat_add_lem [THEN iffD1] node_no_def unat_two_power)
  qed
  moreover have "node_no P p < 2 ^ 30"
  proof -
    have "node_no P p < 2 ^ Suc (pt_len P p)" using ok len by (intro node_no_bound) auto
    also have "\<dots> \<le> 2 ^ 30" using len by (intro power_increasing) auto
    finally show ?thesis .
  qed
  ultimately show ?thesis
    using len by (simp add: get_position_def sh word_less_nat_alt)
qed

section \<open>The logarithm\<close>

lemma log2_loop_step [simp]: "\<not> c < x \<Longrightarrow> log2_loop x c i = Some i"
  by (subst log2_loop.simps) simp

lemma log2_loop_eq:
  assumes "k + n \<le> 63" and "unat x \<le> 2 ^ (k + n)" and "n = 0 \<or> 2 ^ (k + n - 1) < unat x"
  shows "log2_loop x (2 ^ k) i = Some (i + n)"
  using assms
proof (induction n arbitrary: k i)
  case 0
  then have "\<not> 2 ^ k < x" by (simp add: word_less_nat_alt unat_two_power)
  then show ?case by simp
next
  case (Suc n)
  have "(2::nat) ^ k \<le> 2 ^ (k + n)" by (simp add: power_increasing)
  also have "\<dots> < unat x" using Suc.prems by simp
  finally have lt: "2 ^ k < x" using Suc.prems by (simp add: word_less_nat_alt unat_two_power)
  have "log2_loop x (2 ^ Suc k) (i + 1) = Some (i + 1 + n)"
    by (rule Suc.IH) (use Suc.prems in \<open>auto\<close>)
  then show ?case
    using lt by (subst log2_loop.simps) (simp add: push_bit_eq_mult mult.commute)
qed

lemma ceilLog2_spec:
  assumes "unat x \<le> 2 ^ 63"
  obtains n where "ceilLog2 x = Some n" and "n \<le> 63" and "unat x \<le> 2 ^ n"
    and "n = 0 \<or> 2 ^ (n - 1) < unat x"
proof -
  obtain n where n: "n \<le> 63" "unat x \<le> 2 ^ n" "n = 0 \<or> 2 ^ (n - 1) < unat x"
    using assms by (rule ceil_log2_exists)
  with log2_loop_eq [of 0 n x 0] show thesis
    by (intro that [of n]) (simp_all add: ceilLog2_def)
qed

lemma ceilLog2_power:
  assumes "k \<le> 62"
  shows "ceilLog2 (word_of_nat (2 ^ k)) = Some k"
proof -
  have "(2::nat) ^ k \<le> 2 ^ 62" using assms by (intro power_increasing) auto
  then have u: "unat (word_of_nat (2 ^ k) :: uint64_t) = 2 ^ k"
    using assms by (simp only: unsigned_of_nat) (simp add: take_bit_nat_eq_self)
  have "k = 0 \<or> (2::nat) ^ (k - 1) < 2 ^ k" by (cases k) auto
  then have "log2_loop (word_of_nat (2 ^ k)) (2 ^ 0) 0 = Some (0 + k)"
    using assms u by (intro log2_loop_eq) auto
  then show ?thesis by (simp add: ceilLog2_def)
qed

section \<open>Walking down the tree\<close>

text \<open>The reference of a scheduling step: at a virtual node the decision of the tree for the path is
  followed, at a leaf there is nothing to decide.\<close>

definition step :: "'p path_ops \<Rightarrow> decision_tree \<Rightarrow> HierarchyAddress \<Rightarrow> 'p \<Rightarrow> HierarchyAddress option" where
  "step P t a p =
    (if isLeaf a then Some a
     else map_option
       (\<lambda>d. case d of sd_left \<Rightarrow> getLeftChild a | sd_right \<Rightarrow> getRightChild a | _ \<Rightarrow> a)
       (tree_get P t p))"

text \<open>The node reached from node a when the path p and then its descendants, turn by turn, have been
  scheduled.\<close>

primrec walk ::
    "'p path_ops \<Rightarrow> decision_tree \<Rightarrow> bool list \<Rightarrow> HierarchyAddress \<Rightarrow> 'p \<Rightarrow> HierarchyAddress option" where
  "walk P t [] a p = step P t a p"
| "walk P t (b # bs) a p = do {a' \<leftarrow> step P t a p; walk P t bs a' (pt_child P b p)}"

text \<open>The path numbered y is a descendant of the one numbered x.\<close>

definition desc :: "nat \<Rightarrow> nat \<Rightarrow> bool" where
  "desc x y \<longleftrightarrow> (\<exists>j. y div 2 ^ j = x)"

lemma desc_refl: "desc x x"
  unfolding desc_def by (rule exI [of _ 0]) simp

lemma desc_child: "desc (2 * x + of_bool b) y \<Longrightarrow> desc x y"
proof -
  assume "desc (2 * x + of_bool b) y"
  then obtain j where "y div 2 ^ j = 2 * x + of_bool b" by (auto simp: desc_def)
  then have "y div 2 ^ Suc j = x" by (simp add: div_mult2_eq power_Suc2 del: power_Suc)
  then show "desc x y" unfolding desc_def by blast
qed

lemma not_desc_child: "0 < x \<Longrightarrow> \<not> desc (2 * x + of_bool b) x"
proof
  assume "0 < x" and "desc (2 * x + of_bool b) x"
  then obtain j where "x div 2 ^ j = 2 * x + of_bool b" by (auto simp: desc_def)
  moreover have "x div 2 ^ j \<le> x" by (rule div_le_dividend)
  ultimately show False using \<open>0 < x\<close> by simp
qed

lemma desc_disjoint_aux:
  fixes x y :: nat
  assumes "0 < x" and "y div 2 ^ j = 2 * x + of_bool b" and "y div 2 ^ i = 2 * x + of_bool (\<not> b)" and "j \<le> i"
  shows False
proof -
  have "y div 2 ^ i = y div 2 ^ j div 2 ^ (i - j)"
    using assms(4) by (simp flip: div_mult2_eq power_add)
  then have eq: "2 * x + of_bool (\<not> b) = (2 * x + of_bool b) div 2 ^ (i - j)" using assms by simp
  show False
  proof (cases "i = j")
    case True
    with eq show ?thesis by (cases b) auto
  next
    case False
    then obtain d where "i - j = Suc d" using assms(4) by (metis Suc_diff_Suc le_neq_implies_less)
    then have "(2 * x + of_bool b) div 2 ^ (i - j) = x div 2 ^ d"
      by (simp add: div_mult2_eq)
    moreover have "x div 2 ^ d \<le> x" by (rule div_le_dividend)
    ultimately show ?thesis using eq assms(1) by simp
  qed
qed

lemma desc_disjoint:
  assumes "0 < x" and "desc (2 * x + of_bool b) y"
  shows "\<not> desc (2 * x + of_bool (\<not> b)) y"
proof
  assume "desc (2 * x + of_bool (\<not> b)) y"
  with assms(2) obtain i j where "y div 2 ^ j = 2 * x + of_bool b" "y div 2 ^ i = 2 * x + of_bool (\<not> b)"
    by (auto simp: desc_def)
  then show False
    using desc_disjoint_aux [of x y j b i] desc_disjoint_aux [of x y i "\<not> b" j] assms(1)
    by (cases "j \<le> i") auto
qed

text \<open>A walk below p reads the slots of descendants of p only.\<close>

lemma tree_get_cong:
  assumes "task_path_ok P" and "pt_len P p \<le> 28" and "get_at t1 (node_no P p) = get_at t2 (node_no P p)"
  shows "tree_get P t1 p = tree_get P t2 p"
  using assms by (simp add: tree_get_def get_position_eq)

lemma walk_cong:
  assumes ok: "task_path_ok P" and "pt_len P p + length bs \<le> 28"
    and "\<And>y. desc (node_no P p) y \<Longrightarrow> get_at t1 y = get_at t2 y"
  shows "walk P t1 bs a p = walk P t2 bs a p"
  using assms(2,3)
proof (induction bs arbitrary: a p)
  case Nil
  then have "tree_get P t1 p = tree_get P t2 p"
    by (intro tree_get_cong ok) (auto intro: desc_refl)
  then show ?case by (simp add: step_def)
next
  case (Cons b bs)
  have "tree_get P t1 p = tree_get P t2 p"
    by (intro tree_get_cong ok) (use Cons.prems in \<open>auto intro: desc_refl\<close>)
  then have st: "step P t1 a p = step P t2 a p" by (simp add: step_def)
  have "walk P t1 bs a' (pt_child P b p) = walk P t2 bs a' (pt_child P b p)" for a'
  proof (rule Cons.IH)
    show "pt_len P (pt_child P b p) + length bs \<le> 28"
      using Cons.prems ok by (simp add: path_child(1))
    show "get_at t1 y = get_at t2 y" if "desc (node_no P (pt_child P b p)) y" for y
    proof -
      have "node_no P (pt_child P b p) = 2 * node_no P p + of_bool b"
        using Cons.prems(1) ok by (intro node_no_child) auto
      with that have "desc (node_no P p) y" by (metis desc_child)
      then show ?thesis by (rule Cons.prems(2))
    qed
  qed
  then show ?case by (simp add: st)
qed

lemma walk_leaf:
  assumes "isLeaf a"
  shows "walk P t bs a p = Some a"
  using assms by (induction bs arbitrary: p) (simp_all add: step_def)

section \<open>A filled tree realizes the mapping\<close>

text \<open>The index of a task in its slice of 2^m tasks, from the first m turns below the path.\<close>

fun turn_index :: "nat \<Rightarrow> bool list \<Rightarrow> nat" where
  "turn_index (Suc m) (b # bs) = (if b then 2 ^ m else 0) + turn_index m bs"
| "turn_index _ _ = 0"

lemma turn_index_less: "turn_index m bs < 2 ^ m"
  by (induction m bs rule: turn_index.induct) auto

definition node_at :: "nat \<Rightarrow> nat \<Rightarrow> HierarchyAddress" where
  "node_at r l = HierarchyAddress (word_of_nat r) (word_of_nat l)"

lemma isLeaf_node_at: "l < 2 ^ 32 \<Longrightarrow> isLeaf (node_at r l) \<longleftrightarrow> l = 0"
  by (simp add: node_at_def isLeaf_def word_unat_eq_iff unat_word_of_nat_layer)

lemma left_node_at: "getLeftChild (node_at r (Suc l)) = node_at r l"
  by (simp add: node_at_def getLeftChild_def)

lemma right_node_at: "l < 31 \<Longrightarrow> getRightChild (node_at r (Suc l)) = node_at (r + 2 ^ l) l"
  by (simp add: node_at_def getRightChild_def int_shl1_eq unat_word_of_nat_layer)

text \<open>The slice of the mapping a call works on: its tasks are sorted and within the range.\<close>

definition slice_ok :: "nat list \<Rightarrow> nat \<Rightarrow> nat \<Rightarrow> nat \<Rightarrow> nat \<Rightarrow> bool" where
  "slice_ok mp mn n lo hi \<longleftrightarrow> mn + max n 1 \<le> length mp \<and>
    (\<forall>i j. mn \<le> i \<and> i \<le> j \<and> j < mn + max n 1 \<longrightarrow> mp ! i \<le> mp ! j) \<and>
    (\<forall>i. mn \<le> i \<and> i < mn + max n 1 \<longrightarrow> lo \<le> mp ! i \<and> mp ! i < hi)"

lemma slice_okD:
  assumes "slice_ok mp mn n lo hi" and "mn \<le> i" and "i < mn + max n 1"
  shows "i < length mp" "lo \<le> mp ! i" "mp ! i < hi"
  using assms by (auto simp: slice_ok_def)

lemma slice_ok_sub:
  assumes "slice_ok mp mn n lo hi" and "mn \<le> mn'" and "mn' + max n' 1 \<le> mn + max n 1"
    and "lo' = lo \<or> lo' \<le> mp ! mn" and "hi' = hi \<or> mp ! (mn + max n 1 - 1) < hi'"
  shows "slice_ok mp mn' n' lo' hi'"
proof -
  have sorted: "mp ! i \<le> mp ! j" if "mn \<le> i" "i \<le> j" "j < mn + max n 1" for i j
    using assms(1) that by (auto simp: slice_ok_def)
  have "lo' \<le> mp ! i \<and> mp ! i < hi'" if "mn' \<le> i" "i < mn' + max n' 1" for i
  proof -
    have i: "mn \<le> i" "i < mn + max n 1" using that assms(2,3) by auto
    have "mp ! mn \<le> mp ! i" using i by (intro sorted) auto
    moreover have "mp ! i \<le> mp ! (mn + max n 1 - 1)" using i by (intro sorted) auto
    ultimately show ?thesis using slice_okD [OF assms(1) i] assms(4,5) by auto
  qed
  then show ?thesis
    using assms(1-3) sorted by (auto simp: slice_ok_def)
qed

text \<open>What a call of fillTree does to the tree: it changes only the slots below its path, and a
  walk from the node the range belongs to ends at the rank the mapping gives to the task.\<close>

definition fills ::
    "'p path_ops \<Rightarrow> nat list \<Rightarrow> decision_tree \<Rightarrow> decision_tree \<Rightarrow> 'p \<Rightarrow> HierarchyAddress \<Rightarrow> nat \<Rightarrow> nat \<Rightarrow> nat \<Rightarrow> bool" where
  "fills P mp t t' p a mn m l \<longleftrightarrow>
    length t' = length t \<and>
    (\<forall>y. \<not> desc (node_no P p) y \<longrightarrow> get_at t' y = get_at t y) \<and>
    (\<forall>bs. m + l \<le> length bs \<and> pt_len P p + length bs \<le> 28 \<longrightarrow>
      walk P t' bs a p = Some (node_at (mp ! (mn + turn_index m bs)) 0))"

lemma fills_frame: "fills P mp t t' p a mn m l \<Longrightarrow> \<not> desc (node_no P p) y \<Longrightarrow> get_at t' y = get_at t y"
  by (simp add: fills_def)

lemma fills_length: "fills P mp t t' p a mn m l \<Longrightarrow> length t' = length t"
  by (simp add: fills_def)

text \<open>One step of the filling: the decision written at p and the two fills below it compose.\<close>

lemma fills_node:
  assumes ok: "task_path_ok P" and len: "pt_len P p \<le> 27"
    and set: "tree_set P t p d = Some t1"
    and a': "\<not> isLeaf a" "a' = (case d of sd_left \<Rightarrow> getLeftChild a | sd_right \<Rightarrow> getRightChild a | _ \<Rightarrow> a)"
    and f1: "fills P mp t1 t2 (pt_left P p) a' mn m' l'"
    and f2: "fills P mp t2 t3 (pt_right P p) a' (mn + (if m = 0 then 0 else 2 ^ m')) m' l'"
    and m: "m' = m - 1" and l: "m' + l' < m + l"
  shows "fills P mp t t3 p a mn m l"
proof -
  have pos: "get_position P p = Some (node_no P p)" using ok len by (intro get_position_eq) auto
  have set': "set_at t (node_no P p) d = Some t1" using set pos by (simp add: tree_set_def)
  note left = pt_child_def [of P False p, simplified, symmetric]
  note right = pt_child_def [of P True p, simplified, symmetric]
  have nl: "node_no P (pt_left P p) = 2 * node_no P p + of_bool False"
    unfolding left using ok len by (intro node_no_child) auto
  have nr: "node_no P (pt_right P p) = 2 * node_no P p + of_bool True"
    unfolding right using ok len by (intro node_no_child) auto
  have frame: "get_at t3 y = get_at t1 y"
    if "\<not> desc (node_no P (pt_left P p)) y" "\<not> desc (node_no P (pt_right P p)) y" for y
    using fills_frame [OF f1 that(1)] fills_frame [OF f2 that(2)] by simp
  have "get_at t3 (node_no P p) = Some d"
    using frame [of "node_no P p"] get_at_set_at [OF set'] not_desc_child [OF node_no_pos, of P p False]
      not_desc_child [OF node_no_pos, of P p True] unfolding nl nr by simp
  then have step: "step P t3 a p = Some a'" using a' pos by (simp add: step_def tree_get_def)
  have "get_at t3 y = get_at t y" if "\<not> desc (node_no P p) y" for y
  proof -
    have "y \<noteq> node_no P p" using that desc_refl by metis
    moreover have "\<not> desc (node_no P (pt_left P p)) y" "\<not> desc (node_no P (pt_right P p)) y"
      using that desc_child unfolding nl nr by blast+
    ultimately show ?thesis using frame get_at_set_at [OF set'] by simp
  qed
  moreover have "walk P t3 bs a p = Some (node_at (mp ! (mn + turn_index m bs)) 0)"
    if bs: "m + l \<le> length bs" "pt_len P p + length bs \<le> 28" for bs
  proof -
    obtain b bs' where b: "bs = b # bs'" using bs(1) l by (cases bs) auto
    have len': "m' + l' \<le> length bs'" "pt_len P (pt_child P b p) + length bs' \<le> 28"
      using bs l b ok len by (auto simp: path_child(1))
    have "walk P t3 bs' a' (pt_child P b p) =
        Some (node_at (mp ! (mn + (if b then (if m = 0 then 0 else 2 ^ m') else 0) + turn_index m' bs')) 0)"
    proof (cases b)
      case True
      then show ?thesis using f2 len' by (simp add: fills_def pt_child_def)
    next
      case False
      have "walk P t3 bs' a' (pt_left P p) = walk P t2 bs' a' (pt_left P p)"
      proof (rule walk_cong [OF ok])
        show "pt_len P (pt_left P p) + length bs' \<le> 28"
          using len' False by (simp add: pt_child_def)
        show "get_at t3 y = get_at t2 y" if "desc (node_no P (pt_left P p)) y" for y
          using that desc_disjoint [OF node_no_pos [of P p], of False y] fills_frame [OF f2, of y]
          unfolding nl nr by simp
      qed
      then show ?thesis using f1 len' False by (simp add: fills_def pt_child_def)
    qed
    moreover have "turn_index m bs = (if b then (if m = 0 then 0 else 2 ^ m') else 0) + turn_index m' bs'"
      using m b by (cases m) auto
    ultimately show ?thesis using b step by (simp add: add.assoc)
  qed
  moreover have "length t3 = length t"
    using fills_length [OF f1] fills_length [OF f2] set_at_length [OF set'] by simp
  ultimately show ?thesis by (simp add: fills_def)
qed

text \<open>A call that stops, because its node is a leaf: all walks stay there.\<close>

lemma fills_leaf:
  assumes ok: "task_path_ok P" and len: "pt_len P p \<le> 27"
    and set: "tree_set P t p d = Some t1"
    and a': "\<not> isLeaf a" "a' = (case d of sd_left \<Rightarrow> getLeftChild a | sd_right \<Rightarrow> getRightChild a | _ \<Rightarrow> a)"
    and leaf: "a' = node_at (mp ! mn) 0" and l: "0 < l"
  shows "fills P mp t t1 p a mn 0 l"
proof -
  have pos: "get_position P p = Some (node_no P p)" using ok len by (intro get_position_eq) auto
  have set': "set_at t (node_no P p) d = Some t1" using set pos by (simp add: tree_set_def)
  have step: "step P t1 a p = Some a'"
    using a' pos get_at_set_at [OF set'] by (simp add: step_def tree_get_def)
  have "walk P t1 bs a p = Some (node_at (mp ! (mn + turn_index 0 bs)) 0)" if bs: "0 + l \<le> length bs" for bs
  proof -
    obtain b bs' where "bs = b # bs'" using bs l by (cases bs) auto
    then show ?thesis
      using step leaf by (simp add: walk_leaf isLeaf_node_at)
  qed
  then show ?thesis
    using get_at_set_at [OF set'] set_at_length [OF set'] desc_refl
    by (auto simp: fills_def)
qed

lemma tree_set_exists:
  assumes ok: "task_path_ok P" and "pt_len P p \<le> 27" and "2 ^ Suc (pt_len P p) \<le> 4 * length t"
  shows "\<exists>t'. tree_set P t p d = Some t' \<and> length t' = length t"
proof -
  have "node_no P p < 4 * length t"
    using node_no_bound(1) [OF ok, of p] assms(2,3) by simp
  then obtain t' where "set_at t (node_no P p) d = Some t'" using set_at_in by blast
  moreover have "get_position P p = Some (node_no P p)" using ok assms(2) by (intro get_position_eq) auto
  ultimately show ?thesis using set_at_length by (auto simp: tree_set_def)
qed

lemma fillTree_fills:
  assumes ok: "task_path_ok P"
  shows "\<lbrakk>depth + l = k; rmax = rmin + 2 ^ l; slice_ok mp mn n rmin rmax;
      n = 2 ^ m \<or> (n = 0 \<and> m = 0); pt_len P p + m + l \<le> 28;
      2 ^ (pt_len P p + m + l) \<le> 4 * length t\<rbrakk> \<Longrightarrow>
    \<exists>t'. fillTree P mp k t p depth rmin rmax mn n = Some t' \<and> fills P mp t t' p (node_at rmin l) mn m l"
proof (induction "m + l" arbitrary: t p depth rmin rmax mn n m l rule: less_induct)
  case less
  show ?case
  proof (cases "l = 0")
    case True
    have "rmin \<le> mp ! i \<and> mp ! i < rmin + 1" if "mn \<le> i" "i < mn + max n 1" for i
      using slice_okD [OF less.prems(3) that] less.prems(2) True by simp
    moreover have "mn + turn_index m bs < mn + max n 1" for bs
      using turn_index_less [of m bs] less.prems(4) by auto
    ultimately have "mp ! (mn + turn_index m bs) = rmin" for bs
      by (metis add_leD1 le_add1 less_Suc_eq_le le_antisym Suc_eq_plus1)
    then have "fills P mp t t p (node_at rmin l) mn m l"
      using True by (simp add: fills_def walk_leaf isLeaf_node_at)
    then show ?thesis using True less.prems(1) by (intro exI [of _ t]) (subst fillTree.simps, simp)
  next
    case False
    then obtain l0 where l0: "l = Suc l0" by (cases l) auto
    have d: "\<not> k \<le> depth" using less.prems(1) l0 by simp
    have len: "pt_len P p \<le> 27" using less.prems(5) l0 by simp
    define N where "N = max n 1"
    have N: "0 < N" "n \<le> N" "n = 0 \<or> N = n" "n = 0 \<longrightarrow> N = 1" by (auto simp: N_def)
    define lo hi where "lo = mp ! mn" and "hi = mp ! (mn + N - 1)"
    have in_lo: "mn < length mp" "rmin \<le> lo" "lo < rmax"
      using slice_okD [OF less.prems(3), of mn] by (auto simp: lo_def)
    have in_hi: "mn + N - 1 < length mp" "rmin \<le> hi" "hi < rmax"
      using slice_okD [OF less.prems(3), of "mn + N - 1"] N by (auto simp: hi_def N_def)
    have cmin: "at_opt mp mn = Some lo" using in_lo by (simp add: lo_def)
    have cmax: "(if n = 0 then Some lo else at_opt mp (mn + n - 1)) = Some hi"
      using in_hi N by (auto simp: lo_def hi_def)
    define center where "center = rmin + 2 ^ l0"
    have center: "rmin + (rmax - rmin) div 2 = center" using less.prems(2) l0 by (simp add: center_def)
    obtain dd depth' rmin' rmax' where fd: "fill_decision depth rmin rmax lo hi = (dd, depth', rmin', rmax')"
      by (metis prod_cases4)
    define l' where "l' = k - depth'"
    define a' where "a' = (case dd of sd_left \<Rightarrow> getLeftChild (node_at rmin l)
      | sd_right \<Rightarrow> getRightChild (node_at rmin l) | _ \<Rightarrow> node_at rmin l)"
    have l32: "l < 31" using less.prems(5) by simp
    have eqd: "lo = hi" if "m = 0"
      using that less.prems(4) N by (auto simp: lo_def hi_def)
    have nested: "depth' + l' = k" "rmax' = rmin' + 2 ^ l'" "a' = node_at rmin' l'"
      "rmin' = rmin \<or> rmin' \<le> lo" "rmax' = rmax \<or> hi < rmax'" "m = 0 \<longrightarrow> l' = l0" "l' \<le> l"
      using fd less.prems(1,2) l0 l32 eqd
      by (auto simp: fill_decision_def Let_def center l'_def a'_def center_def left_node_at right_node_at
          split: if_splits)
    have nl: "\<not> isLeaf (node_at rmin l)" using False l32 by (simp add: isLeaf_node_at)
    have "(2::nat) ^ Suc (pt_len P p) \<le> 2 ^ (pt_len P p + m + l)"
      using l0 by (intro power_increasing) auto
    then have "2 ^ Suc (pt_len P p) \<le> 4 * length t" using less.prems(6) by linarith
    then obtain t1 where t1: "tree_set P t p dd = Some t1" "length t1 = length t"
      using tree_set_exists [OF ok len] by blast
    have unfold: "fillTree P mp k t p depth rmin rmax mn n =
      (if k \<le> depth' \<and> n \<le> 1 then Some t1
       else fillTree P mp k t1 (pt_left P p) depth' rmin' rmax' mn (n div 2) \<bind>
        (\<lambda>t2. fillTree P mp k t2 (pt_right P p) depth' rmin' rmax' (mn + n div 2) (n - n div 2)))"
      using d cmin cmax fd t1(1) by (subst fillTree.simps) simp
    show ?thesis
    proof (cases "k \<le> depth' \<and> n \<le> 1")
      case True
      have m0: "m = 0"
      proof (cases m)
        case (Suc x)
        have "(1::nat) \<le> 2 ^ x" by simp
        moreover have "n = 2 * 2 ^ x" using Suc less.prems(4) by simp
        ultimately have False using True by linarith
        then show ?thesis ..
      qed
      have l'0: "l' = 0" using True by (simp add: l'_def)
      have "slice_ok mp mn n rmin' rmax'"
        using nested(4,5) by (intro slice_ok_sub [OF less.prems(3)]) (auto simp: lo_def hi_def N_def)
      then have "mp ! mn = rmin'"
        using slice_okD [of mp mn n rmin' rmax' mn] nested(2) l'0 by (auto simp: less_max_iff_disj)
      then have "fills P mp t t1 p (node_at rmin l) mn 0 l"
        using nested(3) l'0 False
        by (intro fills_leaf [OF ok len t1(1) nl a'_def]) auto
      then show ?thesis using True m0 unfold by simp
    next
      case False
      define m' where "m' = m - 1"
      have lt: "m' + l' < m + l" using nested(6,7) l0 by (cases "m = 0") (auto simp: m'_def)
      have half: "n div 2 = 2 ^ m' \<or> (n div 2 = 0 \<and> m' = 0)"
        "n - n div 2 = 2 ^ m' \<or> (n - n div 2 = 0 \<and> m' = 0)"
        "n div 2 = (if m = 0 then 0 else 2 ^ m')"
        using less.prems(4) by (cases m; auto simp: m'_def)+
      have len_child: "pt_len P (pt_left P p) = Suc (pt_len P p)" "pt_len P (pt_right P p) = Suc (pt_len P p)"
        using path_child(1) [OF ok, of p False] path_child(1) [OF ok, of p True] len
        by (simp_all add: pt_child_def)
      have fit: "Suc (pt_len P p) + m' + l' \<le> pt_len P p + m + l" using lt by simp
      then have "(2::nat) ^ (Suc (pt_len P p) + m' + l') \<le> 2 ^ (pt_len P p + m + l)"
        by (intro power_increasing) auto
      then have size: "2 ^ (Suc (pt_len P p) + m' + l') \<le> 4 * length t" using less.prems(6) by linarith
      have sub1: "slice_ok mp mn (n div 2) rmin' rmax'"
        using nested(4,5) N by (intro slice_ok_sub [OF less.prems(3)]) (auto simp: lo_def hi_def N_def)
      have sub2: "slice_ok mp (mn + n div 2) (n - n div 2) rmin' rmax'"
        using nested(4,5) N by (intro slice_ok_sub [OF less.prems(3)]) (auto simp: lo_def hi_def N_def)
      obtain t2 where t2: "fillTree P mp k t1 (pt_left P p) depth' rmin' rmax' mn (n div 2) = Some t2"
        "fills P mp t1 t2 (pt_left P p) a' mn m' l'"
        using less.hyps [OF lt nested(1,2) sub1 half(1), of "pt_left P p" t1] nested(3) fit size less.prems(5)
          len_child t1(2) by auto
      obtain t3 where t3: "fillTree P mp k t2 (pt_right P p) depth' rmin' rmax' (mn + n div 2) (n - n div 2) = Some t3"
        "fills P mp t2 t3 (pt_right P p) a' (mn + n div 2) m' l'"
        using less.hyps [OF lt nested(1,2) sub2 half(2), of "pt_right P p" t2] nested(3) fit size less.prems(5)
          len_child t1(2) fills_length [OF t2(2)] by auto
      have "fills P mp t t3 p (node_at rmin l) mn m l"
        using fills_node [OF ok len t1(1) nl a'_def t2(2) t3(2) [unfolded half(3)] m'_def lt] .
      then show ?thesis using unfold False t2(1) t3(1) by auto
    qed
  qed
qed

end
