(* ===== verification/Tree_Policy.thy ===== *)
theory Tree_Policy
  imports Decision_Tree
begin

text \<open>
  tree\_scheduling\_policy (allscale/schedule\_policy.hpp, src/schedule\_policy.cpp): the policy that
  schedules a task by the decisions of a tree, its factories create\_uniform and from\_mapping, and
  the mapping of tasks to ranks that a policy realizes.  decide and get\_target call each other along
  the ancestors of a path; they are written with a fuel of twice the length of the path, and
  get\_target\_spec shows that this is enough.  None stands for undefined behaviour of the decision
  tree below.
\<close>

section \<open>The policy\<close>

record tree_scheduling_policy =
  root_addr :: HierarchyAddress
  granularity :: nat
  tree :: decision_tree

definition follow :: "schedule_decision \<Rightarrow> HierarchyAddress \<Rightarrow> HierarchyAddress" where
  "follow d a = (case d of sd_left \<Rightarrow> getLeftChild a | sd_right \<Rightarrow> getRightChild a | _ \<Rightarrow> a)"

fun get_target_f ::
    "'p path_ops \<Rightarrow> tree_scheduling_policy \<Rightarrow> nat \<Rightarrow> 'p \<Rightarrow> HierarchyAddress option"
  and decide_loop ::
    "'p path_ops \<Rightarrow> tree_scheduling_policy \<Rightarrow> nat \<Rightarrow> HierarchyAddress \<Rightarrow> 'p \<Rightarrow> schedule_decision option" where
  "get_target_f P pol 0 p = None"
| "get_target_f P pol (Suc n) p =
    (if pt_is_root P p then do {
       d \<leftarrow> (if isLeaf (root_addr pol) then Some sd_stay else decide_loop P pol n (root_addr pol) p);
       Some (follow d (root_addr pol))}
     else do {
       res \<leftarrow> get_target_f P pol n (pt_parent P p);
       d \<leftarrow> (if isLeaf res then Some sd_stay else decide_loop P pol n res p);
       Some (follow d res)})"
| "decide_loop P pol 0 addr cur = None"
| "decide_loop P pol (Suc n) addr cur =
    (if pt_is_root P cur then
       (if root_addr pol = addr then tree_get P (tree pol) cur else Some sd_stay)
     else do {
       t \<leftarrow> get_target_f P pol n (pt_parent P cur);
       if t = addr then tree_get P (tree pol) cur
       else decide_loop P pol n addr (pt_parent P cur)})"

definition path_fuel :: "'p path_ops \<Rightarrow> 'p \<Rightarrow> nat" where
  "path_fuel P p = 2 * pt_len P p + 2"

definition decide ::
    "'p path_ops \<Rightarrow> tree_scheduling_policy \<Rightarrow> HierarchyAddress \<Rightarrow> 'p \<Rightarrow> schedule_decision option" where
  "decide P pol addr p =
    (if isLeaf addr then Some sd_stay else decide_loop P pol (path_fuel P p) addr p)"

definition get_target :: "'p path_ops \<Rightarrow> tree_scheduling_policy \<Rightarrow> 'p \<Rightarrow> HierarchyAddress option" where
  "get_target P pol p = get_target_f P pol (path_fuel P p) p"

definition check_target ::
    "'p path_ops \<Rightarrow> tree_scheduling_policy \<Rightarrow> HierarchyAddress \<Rightarrow> 'p \<Rightarrow> bool option" where
  "check_target P pol addr p = map_option (\<lambda>t. addr = t) (get_target P pol p)"

fun is_involved_f ::
    "'p path_ops \<Rightarrow> tree_scheduling_policy \<Rightarrow> nat \<Rightarrow> HierarchyAddress \<Rightarrow> 'p \<Rightarrow> bool option" where
  "is_involved_f P pol 0 addr p = None"
| "is_involved_f P pol (Suc n) addr p =
    (if addr = root_addr pol then Some True
     else if pt_is_root P p then do {
       d \<leftarrow> decide P pol (root_addr pol) p;
       Some (case d of
         sd_left \<Rightarrow> addr = getLeftChild (root_addr pol)
       | sd_right \<Rightarrow> addr = getRightChild (root_addr pol)
       | _ \<Rightarrow> False)}
     else do {
       b \<leftarrow> is_involved_f P pol n addr (pt_parent P p);
       if b then Some True
       else do {t \<leftarrow> get_target P pol p; Some (t = addr)}})"

definition is_involved ::
    "'p path_ops \<Rightarrow> tree_scheduling_policy \<Rightarrow> HierarchyAddress \<Rightarrow> 'p \<Rightarrow> bool option" where
  "is_involved P pol addr p = is_involved_f P pol (Suc (pt_len P p)) addr p"

section \<open>The mapping of a policy\<close>

text \<open>traceTarget follows left children until the target is a leaf.  A path of length 31 has no
  position any more, so 31 rounds are as good as a loop without a bound.\<close>

fun trace_loop :: "'p path_ops \<Rightarrow> tree_scheduling_policy \<Rightarrow> nat \<Rightarrow> 'p \<Rightarrow> size_t option" where
  "trace_loop P pol fuel p = do {
     res \<leftarrow> get_target P pol p;
     if isLeaf res then Some (getRank res)
     else (case fuel of 0 \<Rightarrow> None | Suc n \<Rightarrow> trace_loop P pol n (pt_left P p))}"

declare trace_loop.simps [simp del]

definition traceTarget :: "'p path_ops \<Rightarrow> tree_scheduling_policy \<Rightarrow> 'p \<Rightarrow> size_t option" where
  "traceTarget P pol p = trace_loop P pol 31 p"

text \<open>collectPaths with the depth counted from 1, so that 0 is the negative depth of the code.\<close>

fun collectPaths :: "'p path_ops \<Rightarrow> 'p \<Rightarrow> nat \<Rightarrow> 'p list" where
  "collectPaths P cur 0 = []"
| "collectPaths P cur (Suc n) = cur # collectPaths P (pt_left P cur) n @ collectPaths P (pt_right P cur) n"

definition getAllPaths :: "'p path_ops \<Rightarrow> nat \<Rightarrow> 'p list" where
  "getAllPaths P n = collectPaths P (pt_root P) (Suc n)"

definition task_distribution_mapping :: "'p path_ops \<Rightarrow> tree_scheduling_policy \<Rightarrow> size_t list option" where
  "task_distribution_mapping P pol =
    those (map (traceTarget P pol)
      (filter (\<lambda>p. pt_len P p = granularity pol) (getAllPaths P (granularity pol))))"

section \<open>Factories\<close>

text \<open>create\_uniform for a mask and a granularity; 1<<levels is an int.\<close>

definition create_uniform_mask ::
    "'p path_ops \<Rightarrow> bool list \<Rightarrow> int \<Rightarrow> tree_scheduling_policy option" where
  "create_uniform_mask P active g = do {
     log2 \<leftarrow> ceilLog2 (word_of_nat (length active));
     let levels = nat (max (int log2) g);
     if 31 \<le> levels then None
     else do {
       mapping \<leftarrow> getEqualDistribution active (2 ^ levels);
       root \<leftarrow> getRootOfNetworkSize (word_of_nat (length active));
       t \<leftarrow> toDecisionTree P (2 ^ log2) mapping;
       Some \<lparr>root_addr = root, granularity = levels, tree = t\<rparr>}}"

definition create_uniform_mask_default :: "'p path_ops \<Rightarrow> bool list \<Rightarrow> tree_scheduling_policy option" where
  "create_uniform_mask_default P active = do {
     log2 \<leftarrow> ceilLog2 (word_of_nat (length active));
     create_uniform_mask P active (max (int log2 + 3) 5)}"

definition create_uniform :: "'p path_ops \<Rightarrow> nat \<Rightarrow> int \<Rightarrow> tree_scheduling_policy option" where
  "create_uniform P N g = create_uniform_mask P (replicate N True) g"

definition create_uniform_default :: "'p path_ops \<Rightarrow> nat \<Rightarrow> tree_scheduling_policy option" where
  "create_uniform_default P N = do {
     log2 \<leftarrow> ceilLog2 (word_of_nat N);
     create_uniform_mask P (replicate N True) (max (int log2 + 3) 5)}"

text \<open>The last lines of from\_mapping and of both rebalancing functions: the policy of the old root and
  granularity that realizes the mapping; 1<<log2 is an int.\<close>

definition from_mapping ::
    "'p path_ops \<Rightarrow> tree_scheduling_policy \<Rightarrow> nat list \<Rightarrow> tree_scheduling_policy option" where
  "from_mapping P old mapping =
    (let log2 = unat (getLayer (root_addr old))
     in if 31 \<le> log2 then None
        else map_option (\<lambda>t. \<lparr>root_addr = root_addr old, granularity = granularity old, tree = t\<rparr>)
          (toDecisionTree P (2 ^ log2) mapping))"

section \<open>The reference of get\_target\<close>

text \<open>The target of a path is found by one scheduling step from the target of its parent.\<close>

primrec target_spec ::
    "'p path_ops \<Rightarrow> tree_scheduling_policy \<Rightarrow> nat \<Rightarrow> 'p \<Rightarrow> HierarchyAddress option" where
  "target_spec P pol 0 p = step P (tree pol) (root_addr pol) p"
| "target_spec P pol (Suc n) p = do {
     res \<leftarrow> target_spec P pol n (pt_parent P p);
     step P (tree pol) res p}"

lemma step_follow:
  "step P t a p = (if isLeaf a then Some a else map_option (\<lambda>d. follow d a) (tree_get P t p))"
  by (simp add: step_def follow_def)

lemma follow_stay [simp]: "follow sd_stay a = a"
  by (simp add: follow_def)

lemma ge_2_Suc_Suc: "2 \<le> n \<Longrightarrow> \<exists>m. n = Suc (Suc m)"
  by (rule exI [of _ "n - 2"]) simp

lemma bind_follow:
  "(if c then Some sd_stay else X) \<bind> (\<lambda>d. Some (follow d a)) =
    (if c then Some a else map_option (\<lambda>d. follow d a) X)"
  by (cases X) auto

lemma get_target_f_spec:
  assumes ok: "task_path_ok P"
  shows "2 * pt_len P p + 2 \<le> n \<Longrightarrow> get_target_f P pol n p = target_spec P pol (pt_len P p) p"
proof (induction "pt_len P p" arbitrary: p n)
  case 0
  then have "2 \<le> n" by simp
  then obtain n' where n: "n = Suc (Suc n')" using ge_2_Suc_Suc by blast
  have p: "p = pt_root P" using 0 path_len_0 [OF ok] by metis
  then show ?case
    using ok n by (simp add: step_follow bind_follow)
next
  case (Suc L)
  then have nr: "p \<noteq> pt_root P" using ok by auto
  then have pl: "pt_len P (pt_parent P p) = L" using path_parent_len [OF ok nr] Suc.hyps(2) by simp
  have "2 \<le> n" using Suc.prems by simp
  then obtain n' where n: "n = Suc (Suc n')" using ge_2_Suc_Suc by blast
  have IH: "get_target_f P pol m (pt_parent P p) = target_spec P pol L (pt_parent P p)"
    if "2 * L + 2 \<le> m" for m
    using Suc.hyps(1) [of "pt_parent P p" m] pl that by simp
  have "2 * L + 2 \<le> n'" "2 * L + 2 \<le> Suc n'" using Suc.prems Suc.hyps(2) n by auto
  note IH' = IH [OF this(1)] IH [OF this(2)]
  have "target_spec P pol (pt_len P p) p =
      do {res \<leftarrow> target_spec P pol L (pt_parent P p); step P (tree pol) res p}"
    by (simp flip: Suc.hyps(2))
  moreover have "get_target_f P pol n p =
      do {res \<leftarrow> target_spec P pol L (pt_parent P p);
        d \<leftarrow> (if isLeaf res then Some sd_stay else decide_loop P pol (Suc n') res p);
        Some (follow d res)}"
    unfolding n get_target_f.simps(2) [of P pol "Suc n'" p] IH'(2) using nr ok by simp
  moreover have "decide_loop P pol (Suc n') res p = tree_get P (tree pol) p"
    if "target_spec P pol L (pt_parent P p) = Some res" for res
    unfolding decide_loop.simps(2) [of P pol n' res p] IH'(1) that using nr ok by simp
  ultimately show ?case
    by (cases "target_spec P pol L (pt_parent P p)") (simp_all add: step_follow bind_follow)
qed

lemma get_target_spec:
  "task_path_ok P \<Longrightarrow> get_target P pol p = target_spec P pol (pt_len P p) p"
  unfolding get_target_def path_fuel_def by (rule get_target_f_spec) simp_all

lemma get_target_root:
  assumes "task_path_ok P"
  shows "get_target P pol (pt_root P) = step P (tree pol) (root_addr pol) (pt_root P)"
  using assms by (simp add: get_target_spec)

lemma get_target_child:
  assumes "task_path_ok P" and "pt_len P p < 63"
  shows "get_target P pol (pt_child P b p) =
    do {res \<leftarrow> get_target P pol p; step P (tree pol) res (pt_child P b p)}"
  using assms by (simp add: get_target_spec path_child)

text \<open>decide at the target of the parent of a path reads the tree at once.\<close>

lemma decide_at_parent_target:
  assumes ok: "task_path_ok P" and nr: "p \<noteq> pt_root P"
    and t: "get_target P pol (pt_parent P p) = Some a"
  shows "decide P pol a p = (if isLeaf a then Some sd_stay else tree_get P (tree pol) p)"
proof -
  have len: "Suc (pt_len P (pt_parent P p)) = pt_len P p" using ok nr by (rule path_parent_len)
  obtain m where m: "path_fuel P p = Suc m" by (simp add: path_fuel_def)
  have "get_target_f P pol m (pt_parent P p) = Some a"
    using t get_target_f_spec [OF ok, of "pt_parent P p" m pol] len m
    by (simp add: path_fuel_def get_target_spec [OF ok])
  then show ?thesis using m nr ok by (simp add: decide_def)
qed

lemma decide_root:
  assumes ok: "task_path_ok P"
  shows "decide P pol a (pt_root P) =
    (if isLeaf a then Some sd_stay else if root_addr pol = a then tree_get P (tree pol) (pt_root P)
     else Some sd_stay)"
  using ok by (simp add: decide_def path_fuel_def numeral_2_eq_2)

section \<open>Targets as walks\<close>

definition ext :: "'p path_ops \<Rightarrow> 'p \<Rightarrow> bool list \<Rightarrow> 'p" where
  "ext P p bs = foldl (\<lambda>q b. pt_child P b q) p bs"

lemma ext_simps [simp]: "ext P p [] = p" "ext P p (b # bs) = ext P (pt_child P b p) bs"
  "ext P p (bs @ cs) = ext P (ext P p bs) cs"
  by (simp_all add: ext_def)

lemma ext_len:
  assumes "task_path_ok P"
  shows "pt_len P p + length bs \<le> 63 \<Longrightarrow> pt_len P (ext P p bs) = pt_len P p + length bs"
  using assms by (induction bs arbitrary: p) (auto simp: path_child(1))

lemma walk_append:
  "walk P t (bs @ c # cs) a p = do {a' \<leftarrow> walk P t bs a p; walk P t cs a' (pt_child P c (ext P p bs))}"
  by (induction bs arbitrary: a p) auto

lemma walk_append_leaf:
  assumes "walk P t bs a p = Some a'" and "isLeaf a'"
  shows "walk P t (bs @ cs) a p = Some a'"
  using assms by (cases cs) (auto simp: walk_append walk_leaf)

lemma get_target_walk:
  assumes ok: "task_path_ok P"
  shows "length bs \<le> 62 \<Longrightarrow>
    get_target P pol (ext P (pt_root P) bs) = walk P (tree pol) bs (root_addr pol) (pt_root P)"
proof (induction bs rule: rev_induct)
  case Nil
  then show ?case using ok by (simp add: get_target_root)
next
  case (snoc b bs)
  then show ?case
    using ok get_target_child [OF ok, of "ext P (pt_root P) bs" pol b] ext_len [OF ok, of "pt_root P" bs]
    by (simp add: walk_append)
qed

lemma path_is_ext:
  assumes ok: "task_path_ok P"
  shows "\<exists>bs. p = ext P (pt_root P) bs"
  using ok
proof (induction p rule: path_induct)
  case root
  then show ?case by (intro exI [of _ "[]"]) simp
next
  case (child p b)
  then obtain bs where "p = ext P (pt_root P) bs" by blast
  then show ?case by (intro exI [of _ "bs @ [b]"]) simp
qed

lemma trace_loop_walk:
  assumes ok: "task_path_ok P"
  shows "walk P (tree pol) (bs @ replicate n False) (root_addr pol) (pt_root P) = Some a \<Longrightarrow> isLeaf a \<Longrightarrow>
    length bs + n \<le> 62 \<Longrightarrow> n \<le> fuel \<Longrightarrow>
    trace_loop P pol fuel (ext P (pt_root P) bs) = Some (getRank a)"
proof (induction n arbitrary: bs fuel)
  case 0
  then have "get_target P pol (ext P (pt_root P) bs) = Some a"
    using get_target_walk [OF ok, of bs pol] by simp
  then show ?case using 0 by (simp add: trace_loop.simps)
next
  case (Suc n)
  obtain a' where a': "walk P (tree pol) bs (root_addr pol) (pt_root P) = Some a'"
    using Suc.prems(1) walk_append [of P "tree pol" bs False "replicate n False" "root_addr pol" "pt_root P"]
    by (cases "walk P (tree pol) bs (root_addr pol) (pt_root P)") auto
  then have t: "get_target P pol (ext P (pt_root P) bs) = Some a'"
    using get_target_walk [OF ok, of bs pol] Suc.prems by simp
  show ?case
  proof (cases "isLeaf a'")
    case True
    then have "a' = a" using walk_append_leaf [OF a' True] Suc.prems(1) by simp
    then show ?thesis using t True by (simp add: trace_loop.simps)
  next
    case False
    obtain fuel' where fuel: "fuel = Suc fuel'" using Suc.prems by (cases fuel) auto
    have "trace_loop P pol fuel' (ext P (pt_root P) (bs @ [False])) = Some (getRank a)"
      using Suc.prems fuel by (intro Suc.IH) (auto simp: replicate_app_Cons_same)
    then show ?thesis using t False fuel by (subst trace_loop.simps) (simp add: pt_child_def)
  qed
qed

text \<open>The paths of length n below p, in the order of collectPaths, are those with the indices 0, 1,
  and so on.\<close>

lemma collectPaths_map:
  assumes ok: "task_path_ok P"
  shows "pt_len P p + n \<le> 60 \<Longrightarrow>
    (\<And>bs. length bs = n \<Longrightarrow> f (ext P p bs) = g (turn_index n bs)) \<Longrightarrow>
    map f (filter (\<lambda>q. pt_len P q = pt_len P p + n) (collectPaths P p (Suc n))) = map g [0..<2 ^ n]"
proof (induction n arbitrary: p g)
  case 0
  then show ?case using 0(2) [of "[]"] by simp
next
  case (Suc n)
  have l: "pt_len P (pt_child P b p) = Suc (pt_len P p)" for b
    using ok Suc.prems(1) by (intro path_child(1)) auto
  have half: "map f (filter (\<lambda>q. pt_len P q = pt_len P p + Suc n) (collectPaths P (pt_child P b p) (Suc n)))
      = map (\<lambda>i. g (of_bool b * 2 ^ n + i)) [0..<2 ^ n]" for b
  proof -
    have "map f (filter (\<lambda>q. pt_len P q = pt_len P (pt_child P b p) + n) (collectPaths P (pt_child P b p) (Suc n)))
      = map (\<lambda>i. g (of_bool b * 2 ^ n + i)) [0..<2 ^ n]"
    proof (rule Suc.IH)
      show "pt_len P (pt_child P b p) + n \<le> 60" using l Suc.prems(1) by simp
      fix bs :: "bool list" assume "length bs = n"
      then show "f (ext P (pt_child P b p) bs) = g (of_bool b * 2 ^ n + turn_index n bs)"
        using Suc.prems(2) [of "b # bs"] by (cases b) auto
    qed
    then show ?thesis by (simp add: l)
  qed
  have "[0..<2 ^ n + 2 ^ n] = [0..<2 ^ n] @ [2 ^ n..<2 ^ n + 2 ^ n]" by (rule upt_add_eq_append) simp
  also have "[2 ^ n..<2 ^ n + 2 ^ n] = map (\<lambda>i. i + 2 ^ n) [0..<2 ^ n]" by (rule map_add_upt [symmetric])
  finally have "[0..<2 ^ Suc n] = [0..<2 ^ n] @ map (\<lambda>i. 2 ^ n + i) [0..<2 ^ n]"
    by (simp add: mult_2 add.commute)
  moreover have "collectPaths P p (Suc (Suc n)) =
      p # collectPaths P (pt_left P p) (Suc n) @ collectPaths P (pt_right P p) (Suc n)"
    by (rule collectPaths.simps(2))
  ultimately show ?case
    using half [of False] half [of True] by (simp add: pt_child_def comp_def del: collectPaths.simps)
qed

lemma those_map_Some: "(\<And>x. x \<in> set xs \<Longrightarrow> f x = Some (g x)) \<Longrightarrow> those (map f xs) = Some (map g xs)"
  by (induction xs) auto

section \<open>Every policy made from a mapping realizes it\<close>

definition mapping_ok :: "nat \<Rightarrow> nat \<Rightarrow> nat list \<Rightarrow> bool" where
  "mapping_ok k g mp \<longleftrightarrow> length mp = 2 ^ g \<and> sorted mp \<and> (\<forall>r \<in> set mp. r < 2 ^ k)"

lemma toDecisionTree_fills:
  assumes ok: "task_path_ok P" and mp: "mapping_ok k g mp" and "g + k \<le> 28" and "k \<le> g" and "0 < g"
  obtains t where "toDecisionTree P (2 ^ k) mp = Some t"
    and "\<And>bs. g + k \<le> length bs \<Longrightarrow> length bs \<le> 28 \<Longrightarrow>
      walk P t bs (node_at 0 k) (pt_root P) = Some (node_at (mp ! turn_index g bs) 0)"
proof -
  have p: "(2::nat) ^ (2 * g + 2) < 2 ^ 64" using assms(3,4) by (intro power_strict_increasing) auto
  have "unat (2 ^ (2 * g + 2) :: uint64_t) = 2 ^ (2 * g + 2)"
    using assms(3,4) by (intro unat_two_power) auto
  moreover have "2 * 2 * push_bit (2 * g) (1 :: uint64_t) = 2 ^ (2 * g + 2)" by simp
  ultimately have "unat (2 * 2 * push_bit (2 * g) (1 :: uint64_t) div 8) = 2 ^ (2 * g + 2) div 8"
    by (simp only: unat_div_distrib) simp
  also have "\<dots> = 2 ^ (2 * g - 1)"
  proof -
    have "2 * g + 2 = (2 * g - 1) + 3" using assms(5) by simp
    then show ?thesis by (simp only: power_add) simp
  qed
  finally have "length (new_decision_tree (push_bit (2 * g) 1)) = 2 ^ (2 * g - 1)"
    by (simp add: new_decision_tree_def)
  moreover have "(2::nat) ^ (g + k) \<le> 2 ^ Suc (2 * g - 1)"
    using assms(4,5) by (intro power_increasing) auto
  ultimately have size: "2 ^ (pt_len P (pt_root P) + g + k) \<le> 4 * length (new_decision_tree (push_bit (2 * g) 1))"
    using ok by simp
  have "slice_ok mp 0 (length mp) 0 (2 ^ k)"
    using mp by (auto simp: mapping_ok_def slice_ok_def sorted_iff_nth_mono)
  then obtain t where t: "fillTree P mp k (new_decision_tree (push_bit (2 * g) 1)) (pt_root P) 0 0 (2 ^ k) 0 (2 ^ g) = Some t"
    "fills P mp (new_decision_tree (push_bit (2 * g) 1)) t (pt_root P) (node_at 0 k) 0 g k"
    using fillTree_fills [OF ok, of 0 k k "2 ^ k" 0 mp 0 "2 ^ g" g "pt_root P" "new_decision_tree (push_bit (2 * g) 1)"]
      mp size assms(3) ok by (auto simp: mapping_ok_def)
  have "toDecisionTree P (2 ^ k) mp = Some t"
    using t(1) mp ceilLog2_power [of g] ceilLog2_power [of k] assms(3,4)
    by (simp add: toDecisionTree_def mapping_ok_def)
  then show thesis using t(2) ok by (intro that [of t]) (auto simp: fills_def)
qed

lemma mapping_realized:
  assumes ok: "task_path_ok P" and mp: "mapping_ok k g mp" and "g + k \<le> 28" and "k \<le> g" and "0 < g"
    and t: "toDecisionTree P (2 ^ k) mp = Some t" and pol: "root_addr pol = node_at 0 k"
      "granularity pol = g" "tree pol = t"
  shows "task_distribution_mapping P pol = Some (map word_of_nat mp)"
proof -
  have "traceTarget P pol (ext P (pt_root P) bs) = Some (word_of_nat (mp ! turn_index g bs))"
    if bs: "length bs = g" for bs
  proof -
    obtain t' where "toDecisionTree P (2 ^ k) mp = Some t'"
      "\<And>bs. g + k \<le> length bs \<Longrightarrow> length bs \<le> 28 \<Longrightarrow>
        walk P t' bs (node_at 0 k) (pt_root P) = Some (node_at (mp ! turn_index g bs) 0)"
      using toDecisionTree_fills [OF assms(1-5)] by blast
    then have w: "walk P (tree pol) (bs @ replicate k False) (root_addr pol) (pt_root P) =
        Some (node_at (mp ! turn_index g (bs @ replicate k False)) 0)"
      using t pol bs assms(3) by simp
    moreover have "turn_index g (bs @ replicate k False) = turn_index g bs"
      using bs by (induction g bs rule: turn_index.induct) auto
    ultimately have "trace_loop P pol 31 (ext P (pt_root P) bs) =
        Some (getRank (node_at (mp ! turn_index g bs) 0))"
      using bs assms(3) by (intro trace_loop_walk [OF ok]) (auto simp: isLeaf_node_at)
    then show ?thesis by (simp add: traceTarget_def node_at_def)
  qed
  then have "map (traceTarget P pol) (filter (\<lambda>q. pt_len P q = pt_len P (pt_root P) + g)
      (collectPaths P (pt_root P) (Suc g))) = map (\<lambda>i. Some (word_of_nat (mp ! i))) [0..<2 ^ g]"
    using ok assms(3) by (intro collectPaths_map) auto
  then have "task_distribution_mapping P pol = those (map (\<lambda>i. Some (word_of_nat (mp ! i))) [0..<2 ^ g])"
    using ok pol by (simp add: task_distribution_mapping_def getAllPaths_def del: collectPaths.simps)
  also have "\<dots> = Some (map (\<lambda>i. word_of_nat (mp ! i)) [0..<2 ^ g])"
    by (rule those_map_Some) simp
  also have "map (\<lambda>i. word_of_nat (mp ! i)) [0..<2 ^ g] = map word_of_nat mp"
    using mp by (intro nth_equalityI) (auto simp: mapping_ok_def)
  finally show ?thesis .
qed

lemma policy_of_mapping:
  assumes "task_path_ok P" and mp: "mapping_ok k (granularity old) mp"
    and "root_addr old = HierarchyAddress 0 (word_of_nat k)"
    and "k \<le> granularity old" and "0 < granularity old" and "granularity old + k \<le> 28"
  shows "\<exists>pol. from_mapping P old mp = Some pol \<and>
    task_distribution_mapping P pol = Some (map word_of_nat mp)"
proof -
  obtain t where t: "toDecisionTree P (2 ^ k) mp = Some t"
    using toDecisionTree_fills [OF assms(1) mp] assms by metis
  have "unat (word_of_nat k :: layer_t) = k" using assms by (simp add: unat_word_of_nat_layer)
  then have "from_mapping P old mp =
      Some \<lparr>root_addr = root_addr old, granularity = granularity old, tree = t\<rparr>"
    using t assms by (simp add: from_mapping_def)
  moreover have "task_distribution_mapping P \<lparr>root_addr = root_addr old, granularity = granularity old, tree = t\<rparr> =
      Some (map word_of_nat mp)"
    using assms by (intro mapping_realized [OF assms(1) mp _ _ _ t]) (auto simp: node_at_def)
  ultimately show ?thesis by blast
qed

section \<open>Equal distributions\<close>

text \<open>The distribution meant by getEqualDistribution: the tasks in order, the first nodes with one task
  more when the number of tasks is not a multiple of the number of nodes.\<close>

definition equal_count :: "nat \<Rightarrow> nat \<Rightarrow> nat \<Rightarrow> nat" where
  "equal_count T N i = T div N + of_bool (i < T mod N)"

definition equal_dist :: "nat \<Rightarrow> nat \<Rightarrow> nat list" where
  "equal_dist T N = concat (map (\<lambda>i. replicate (equal_count T N i) i) [0..<N])"

lemma write_n_fill:
  assumes "n \<le> z"
  shows "write_n (pre @ replicate z x) (length pre) n i = Some ((pre @ replicate n i) @ replicate (z - n) x)"
  using assms by (simp add: write_n_def)

lemma equal_loop_all:
  assumes "i + n = N"
  shows "(\<Sum>j = i..<N. share + of_bool (j < remainder)) = z \<Longrightarrow>
    equal_loop (replicate N True) share remainder i n (pre @ replicate z 0) (length pre) (min i remainder) =
      Some (pre @ concat (map (\<lambda>j. replicate (share + of_bool (j < remainder)) j) [i..<N]))"
  using assms
proof (induction n arbitrary: i pre z)
  case 0
  then show ?case by simp
next
  case (Suc n)
  define z' where "z' = (\<Sum>j = Suc i..<N. share + of_bool (j < remainder))"
  have lt: "i < N" using Suc.prems(2) by simp
  have z: "z = share + of_bool (i < remainder) + z'"
    using Suc.prems(1) sum.atLeast_Suc_lessThan [OF lt, of "\<lambda>j. share + of_bool (j < remainder)"]
    by (simp add: z'_def)
  have upt: "[i..<N] = i # [Suc i..<N]" using lt by (rule upt_conv_Cons)
  show ?case
  proof (cases "i < remainder")
    case True
    have w1: "write_n (pre @ replicate z 0) (length pre) share i =
        Some ((pre @ replicate share i) @ replicate (Suc z') 0)"
      using write_n_fill [of share z pre 0 i] z True by simp
    have w2: "write_n ((pre @ replicate share i) @ replicate (Suc z') 0) (length pre + share) 1 i =
        Some ((pre @ replicate share i @ [i]) @ replicate z' 0)"
      using write_n_fill [of 1 "Suc z'" "pre @ replicate share i" 0 i] by simp
    have "equal_loop (replicate N True) share remainder (Suc i) n ((pre @ replicate share i @ [i]) @ replicate z' 0)
        (length (pre @ replicate share i @ [i])) (min (Suc i) remainder) =
      Some ((pre @ replicate share i @ [i]) @
        concat (map (\<lambda>j. replicate (share + of_bool (j < remainder)) j) [Suc i..<N]))"
      by (rule Suc.IH) (use Suc.prems(2) z'_def in auto)
    then show ?thesis
      using lt True w1 w2 upt by (simp add: replicate_app_Cons_same)
  next
    case False
    have w1: "write_n (pre @ replicate z 0) (length pre) share i =
        Some ((pre @ replicate share i) @ replicate z' 0)"
      using write_n_fill [of share z pre 0 i] z False by simp
    have "equal_loop (replicate N True) share remainder (Suc i) n ((pre @ replicate share i) @ replicate z' 0)
        (length (pre @ replicate share i)) (min (Suc i) remainder) =
      Some ((pre @ replicate share i) @
        concat (map (\<lambda>j. replicate (share + of_bool (j < remainder)) j) [Suc i..<N]))"
      by (rule Suc.IH) (use Suc.prems(2) z'_def in auto)
    then show ?thesis using lt False w1 upt by (cases "i = remainder") (auto simp: min_def)
  qed
qed

lemma equal_count_sum:
  assumes "0 < N"
  shows "(\<Sum>j = 0..<N. equal_count T N j) = T"
proof -
  have "(\<Sum>j = 0..<N. of_bool (j < T mod N)) = T mod N"
  proof -
    have "{j. j < T mod N} \<inter> {0..<N} = {0..<T mod N}"
      using mod_less_divisor [OF assms, of T] by auto
    then show ?thesis by (simp add: of_bool_def sum.If_cases Int_commute)
  qed
  then show ?thesis by (simp add: equal_count_def sum.distrib)
qed

lemma getEqualDistribution_all:
  assumes "0 < N"
  shows "getEqualDistribution (replicate N True) T = Some (equal_dist T N)"
proof -
  have "count_list (replicate N True) True = N" by (induction N) auto
  moreover have "(\<Sum>j = 0..<N. T div N + of_bool (j < T mod N)) = T"
    using equal_count_sum [OF assms, of T] by (simp add: equal_count_def)
  note equal_loop_all [of 0 N N "T div N" "T mod N" T "[]", OF _ this]
  ultimately show ?thesis using assms
    by (simp add: getEqualDistribution_def equal_dist_def equal_count_def)
qed

lemma length_equal_dist: "0 < N \<Longrightarrow> length (equal_dist T N) = T"
  using equal_count_sum [of N T]
  by (simp add: equal_dist_def length_concat comp_def interv_sum_list_conv_sum_set_nat)

lemma sorted_concat_replicate: "sorted (concat (map (\<lambda>i. replicate (c i) i) [a..<b :: nat]))"
proof (induction "b - a" arbitrary: a)
  case (Suc n)
  then have "[a..<b] = a # [Suc a..<b]" by (intro upt_conv_Cons) auto
  with Suc show ?case by (auto simp: sorted_append)
qed simp

lemma mapping_ok_equal_dist:
  assumes "0 < N" and "N \<le> 2 ^ k"
  shows "mapping_ok k g (equal_dist (2 ^ g) N)"
  using assms length_equal_dist [of N "2 ^ g"] sorted_concat_replicate
  by (auto simp: mapping_ok_def equal_dist_def)

lemma count_list_replicate: "count_list (replicate n x) y = (if x = y then n else 0)"
  by (induction n) auto

lemma count_equal_dist: "i < N \<Longrightarrow> count_list (equal_dist T N) i = equal_count T N i"
proof -
  have *: "count_list (concat (map (\<lambda>i. replicate (c i) i) xs)) i = (if i \<in> set xs then c i else 0)"
    if "distinct xs" for c xs and i :: nat
    using that by (induction xs) (auto simp: count_list_append count_list_replicate)
  assume "i < N"
  then show ?thesis by (simp add: equal_dist_def *)
qed

section \<open>Involved nodes\<close>

fun ancestors :: "'p path_ops \<Rightarrow> nat \<Rightarrow> 'p \<Rightarrow> 'p list" where
  "ancestors P 0 p = [p]"
| "ancestors P (Suc n) p = p # ancestors P n (pt_parent P p)"

lemma get_target_parent_some:
  assumes ok: "task_path_ok P" and nr: "p \<noteq> pt_root P" and t: "get_target P pol p = Some t"
  shows "\<exists>t'. get_target P pol (pt_parent P p) = Some t'"
proof -
  obtain L where "pt_len P p = Suc L" "pt_len P (pt_parent P p) = L"
    using path_parent_len [OF ok nr] by metis
  then show ?thesis using t
    by (cases "target_spec P pol L (pt_parent P p)") (auto simp: get_target_spec [OF ok])
qed

lemma is_involved_f_iff:
  assumes ok: "task_path_ok P"
  shows "pt_len P p = n \<Longrightarrow> get_target P pol p = Some t \<Longrightarrow>
    is_involved_f P pol (Suc n) addr p =
      Some (addr = root_addr pol \<or> (\<exists>q \<in> set (ancestors P n p). get_target P pol q = Some addr))"
proof (induction n arbitrary: p t)
  case 0
  then have p: "p = pt_root P" using path_len_0 [OF ok] by metis
  have step: "step P (tree pol) (root_addr pol) (pt_root P) = Some t" using 0 p get_target_root [OF ok] by metis
  then obtain d where d: "decide P pol (root_addr pol) (pt_root P) = Some d" "t = follow d (root_addr pol)"
    by (auto simp: decide_root [OF ok] step_follow split: if_splits)
  show ?case
    using d 0 p ok by (cases d) (auto simp: follow_def)
next
  case (Suc n)
  then have nr: "p \<noteq> pt_root P" using ok by auto
  have len: "pt_len P (pt_parent P p) = n" using path_parent_len [OF ok nr] Suc.prems(1) by simp
  obtain t' where "get_target P pol (pt_parent P p) = Some t'"
    using get_target_parent_some [OF ok nr Suc.prems(2)] by blast
  note IH = Suc.IH [OF len this]
  show ?case
    unfolding is_involved_f.simps(2) [of P pol "Suc n" addr p] IH using nr ok Suc.prems(2) by auto
qed

section \<open>Properties\<close>

text \<open>A policy for two ranks: stay at the root, then the left half to rank 0, the right half to rank 1.\<close>

definition two_rank_policy :: tree_scheduling_policy where
  "two_rank_policy = \<lparr>root_addr = HierarchyAddress 0 1, granularity = 1, tree = [228]\<rparr>"

lemma two_rank_target: "get_target list_paths two_rank_policy [True] = Some (HierarchyAddress 1 0)"
  by code_simp

text \<open>C19: a node is involved in the scheduling of a task exactly if it is the root of the policy or the
  target of the task or of one of its ancestors.\<close>

theorem involved_iff_on_the_way:
  assumes "task_path_ok P" and "get_target P pol p = Some t"
  shows "is_involved P pol addr p =
    Some (addr = root_addr pol \<or> (\<exists>q \<in> set (ancestors P (pt_len P p) p). get_target P pol q = Some addr))"
  unfolding is_involved_def by (rule is_involved_f_iff [OF assms(1) refl assms(2)])

theorem involved_iff_on_the_way_witness:
  "is_involved list_paths two_rank_policy (HierarchyAddress 1 0) [True] = Some True"
  using involved_iff_on_the_way [OF list_paths_ok two_rank_target, of "HierarchyAddress 1 0"]
  by (simp add: two_rank_target)

text \<open>C2: a policy made from a mapping realizes it: for a sorted mapping of 2^g tasks to the ranks of
  a network of height k, from\_mapping yields a policy whose task\_distribution\_mapping is the mapping
  itself.\<close>

theorem from_mapping_realizes:
  assumes "task_path_ok P" and "length mapping = 2 ^ granularity old" and "sorted mapping"
    and "\<forall>r \<in> set mapping. r < 2 ^ k" and "root_addr old = HierarchyAddress 0 (word_of_nat k)"
    and "k \<le> granularity old" and "0 < granularity old" and "granularity old + k \<le> 28"
  shows "\<exists>pol. from_mapping P old mapping = Some pol \<and>
    task_distribution_mapping P pol = Some (map word_of_nat mapping)"
  using policy_of_mapping [OF assms(1) _ assms(5-8)] assms(2-4) by (simp add: mapping_ok_def)

theorem from_mapping_realizes_witness:
  "\<exists>pol. from_mapping list_paths \<lparr>root_addr = HierarchyAddress 0 1, granularity = 2, tree = []\<rparr> [0, 0, 0, 1] = Some pol \<and>
    task_distribution_mapping list_paths pol = Some [0, 0, 0, 1]"
  using from_mapping_realizes [OF list_paths_ok, of "[0, 0, 0, 1]"
      "\<lparr>root_addr = HierarchyAddress 0 1, granularity = 2, tree = []\<rparr>" 1]
  by simp

text \<open>C8: create\_uniform distributes the tasks of its granularity evenly over N nodes: the mapping of
  the policy it creates is sorted, and each node i has T div N tasks, or one more if i < T mod N.\<close>

theorem create_uniform_realizes:
  assumes "task_path_ok P" and "0 < N" and "N \<le> 2 ^ 14" and "1 \<le> g" and "int k \<le> g" and "g + int k \<le> 28"
    and "N \<le> 2 ^ k" and "k = 0 \<or> 2 ^ (k - 1) < N"
  shows "\<exists>pol. create_uniform P N g = Some pol \<and>
    task_distribution_mapping P pol = Some (map word_of_nat (equal_dist (2 ^ nat g) N)) \<and>
    sorted (equal_dist (2 ^ nat g) N) \<and>
    (\<forall>i < N. count_list (equal_dist (2 ^ nat g) N) i = 2 ^ nat g div N + of_bool (i < 2 ^ nat g mod N))"
proof -
  have k: "k \<le> 14"
  proof (rule ccontr)
    assume "\<not> k \<le> 14"
    then have "(2::nat) ^ 14 \<le> 2 ^ (k - 1)" by (intro power_increasing) auto
    then show False using assms(3,8) \<open>\<not> k \<le> 14\<close> by linarith
  qed
  define szw where "szw = (word_of_nat N :: size_t)"
  have u: "unat szw = N" using assms(3) by (simp add: szw_def unsigned_of_nat take_bit_nat_eq_self)
  have log: "ceilLog2 szw = Some k"
    using log2_loop_eq [of 0 k szw 0] assms k u by (simp add: ceilLog2_def)
  have h: "height_loop szw 1 0 = Some (word_of_nat k)"
    using height_loop_eq [of 0 k szw 0] assms k u by simp
  then have root: "getRootOfNetworkSize szw = Some (HierarchyAddress 0 (word_of_nat k))"
    by (simp add: getRootOfNetworkSize_def getLayersOn_def)
  define mp where "mp = equal_dist (2 ^ nat g) N"
  have mp: "mapping_ok k (nat g) mp"
    using assms mapping_ok_equal_dist by (simp add: mp_def)
  have b: "nat g + k \<le> 28" "k \<le> nat g" "0 < nat g" using assms by auto
  obtain t where t: "toDecisionTree P (2 ^ k) mp = Some t"
    using toDecisionTree_fills [OF assms(1) mp b] by metis
  define pol where "pol = \<lparr>root_addr = HierarchyAddress 0 (word_of_nat k), granularity = nat g, tree = t\<rparr>"
  have "max (int k) g = g" using assms by simp
  then have "create_uniform P N g = Some pol"
    using log root t getEqualDistribution_all [OF assms(2), of "2 ^ nat g"] b
    by (simp add: create_uniform_def create_uniform_mask_def mp_def pol_def szw_def)
  moreover have "task_distribution_mapping P pol = Some (map word_of_nat mp)"
    by (rule mapping_realized [OF assms(1) mp b t]) (simp_all add: pol_def node_at_def)
  ultimately show ?thesis
    using count_equal_dist [of _ N "2 ^ nat g"] mp
    by (auto simp: mp_def mapping_ok_def equal_count_def)
qed

theorem create_uniform_realizes_witness:
  "\<exists>pol. create_uniform list_paths 3 3 = Some pol \<and>
    task_distribution_mapping list_paths pol = Some [0, 0, 0, 1, 1, 1, 2, 2]"
proof -
  have "equal_dist 8 3 = [0, 0, 0, 1, 1, 1, 2, 2]" by code_simp
  then show ?thesis using create_uniform_realizes [OF list_paths_ok, of 3 3 2] by auto
qed

text \<open>With an inactive node below the number of active nodes the distribution is wrong: with the
  first of two nodes inactive every task goes to that inactive node.\<close>

theorem inactive_node_gets_all_tasks:
  "getEqualDistribution [False, True] 4 = Some [0, 0, 0, 0]"
  by code_simp

end
