(* ===== verification/Rebalance.thy ===== *)
theory Rebalance
  imports Tree_Policy Task_Times
begin

text \<open>
  The rebalancing of tree policies (create\_rebalanced of src/schedule\_policy.cpp): by the load of
  the nodes, and by the measured times of the tasks.  Both compute a new mapping of the tasks and
  hand it to the last step, from\_mapping.  Floats are the operations of a parameter, so the results
  below hold whatever the rounding.  None stands for an access outside of a vector.
\<close>

section \<open>Rebalancing by costs of tasks\<close>

text \<open>The loops while (!mask[cur\_node]) cur\_node++.\<close>

function next_active :: "bool list \<Rightarrow> nat \<Rightarrow> nat option" where
  "next_active active i =
    (if i < length active then (if active ! i then Some i else next_active active (Suc i)) else None)"
  by pat_completeness auto
termination by (relation "measure (\<lambda>(active, i). length active - i)") auto

declare next_active.simps [simp del]

fun rebalance_loop ::
    "'f farith \<Rightarrow> bool list \<Rightarrow> 'f \<Rightarrow> 'f list \<Rightarrow> 'f \<Rightarrow> 'f \<Rightarrow> nat \<Rightarrow> nat list option" where
  "rebalance_loop F active share [] cur_costs next_goal cur_node = Some []"
| "rebalance_loop F active share (c # cs) cur_costs next_goal cur_node =
    (let next_costs = fadd F cur_costs c
     in if cur_node < length active - 1 \<and> flt F next_goal next_costs then do {
          node \<leftarrow> next_active active (cur_node + 1);
          rest \<leftarrow> rebalance_loop F active share cs next_costs (fadd F next_goal share) node;
          Some (node # rest)}
        else do {
          rest \<leftarrow> rebalance_loop F active share cs next_costs next_goal cur_node;
          Some (cur_node # rest)})"

text \<open>The new mapping of rebalance\_tasks.\<close>

definition rebalanced_mapping :: "'f farith \<Rightarrow> 'f list \<Rightarrow> bool list \<Rightarrow> nat list option" where
  "rebalanced_mapping F task_costs active =
    (let available = count_list active True;
         available_nodes = (if available = 0 then 1 else available);
         share = fdiv F (fsum F task_costs) (fof_int F (int available_nodes))
     in do {
       cur_node \<leftarrow> next_active active 0;
       rebalance_loop F active share task_costs (fof_int F 0) share cur_node})"

definition rebalance_tasks ::
    "'p path_ops \<Rightarrow> 'f farith \<Rightarrow> tree_scheduling_policy \<Rightarrow> 'f list \<Rightarrow> bool list \<Rightarrow> tree_scheduling_policy option" where
  "rebalance_tasks P F old task_costs active =
    (if length task_costs < 2 ^ granularity old then None
     else do {
       new_mapping \<leftarrow> rebalanced_mapping F (take (2 ^ granularity old) task_costs) active;
       from_mapping P old new_mapping})"

section \<open>Rebalancing by the load of nodes\<close>

text \<open>old\_share counts the tasks of each node; the average is the default of nodes without tasks.\<close>

definition node_costs :: "'f farith \<Rightarrow> 'f list \<Rightarrow> nat list \<Rightarrow> 'f list" where
  "node_costs F state mapping =
    (let avg = fdiv F (fsum F state) (fof_int F (int (length mapping)))
     in map (\<lambda>i. let old_share = count_list mapping i
                 in if old_share = 0 then avg else fdiv F (state ! i) (fof_int F (int old_share)))
          [0..<length state])"

definition create_rebalanced ::
    "'p path_ops \<Rightarrow> 'f farith \<Rightarrow> tree_scheduling_policy \<Rightarrow> 'f list \<Rightarrow> bool list \<Rightarrow> tree_scheduling_policy option" where
  "create_rebalanced P F old state active = do {
     mapping \<leftarrow> map_option (map unat) (task_distribution_mapping P old);
     if \<forall>node \<in> set mapping. node < length state
     then rebalance_tasks P F old (map (\<lambda>node. node_costs F state mapping ! node) mapping) active
     else None}"

definition create_rebalanced_all ::
    "'p path_ops \<Rightarrow> 'f farith \<Rightarrow> tree_scheduling_policy \<Rightarrow> 'f list \<Rightarrow> tree_scheduling_policy option" where
  "create_rebalanced_all P F old state =
    create_rebalanced P F old state (replicate (length state) True)"

section \<open>Rebalancing by measured times\<close>

fun sample_task_costs ::
    "'p path_ops \<Rightarrow> 'f farith \<Rightarrow> 'f list \<Rightarrow> nat \<Rightarrow> 'p \<Rightarrow> 'f list \<Rightarrow> 'f list option" where
  "sample_task_costs P F times' 0 cur res = do {
     t \<leftarrow> get_time P F times' cur;
     map_option (\<lambda>_. res[unat (pt_bits P cur) := t]) (at_opt res (unat (pt_bits P cur)))}"
| "sample_task_costs P F times' (Suc n) cur res = do {
     res1 \<leftarrow> sample_task_costs P F times' n (pt_left P cur) res;
     sample_task_costs P F times' n (pt_right P cur) res1}"

text \<open>The averages of the nodes, their contribution to the mapping, and the flag update\_mapping.\<close>

record 'f balance =
  node_avg :: "'f list"
  contribution :: "size_t list"
  update_mapping :: bool

text \<open>Move one task from a node to another one (node\_contribution[from]--, [to]++).\<close>

definition move_task :: "nat \<Rightarrow> nat \<Rightarrow> 'f balance \<Rightarrow> 'f balance" where
  "move_task src dst b =
    (let c1 = (contribution b)[src := contribution b ! src - 1]
     in b\<lparr>contribution := c1[dst := c1 ! dst + 1], update_mapping := True\<rparr>)"

text \<open>eligable\_max: a node with too much load gives a task to the neighbour with less load.\<close>

definition give_if :: "'f farith \<Rightarrow> 'f \<Rightarrow> nat \<Rightarrow> nat \<Rightarrow> 'f balance \<Rightarrow> 'f balance" where
  "give_if F margin node nb b =
    (if flt F (node_avg b ! nb) (fsub F (node_avg b ! node) margin) then move_task node nb b else b)"

definition eligable_max :: "'f farith \<Rightarrow> 'f \<Rightarrow> nat \<Rightarrow> 'f balance \<Rightarrow> 'f balance option" where
  "eligable_max F margin node b =
    (if contribution b ! node = 1 then Some b
     else if node = 0 then
       (if length (node_avg b) \<le> 1 then None else Some (give_if F margin node (node + 1) b))
     else if node = length (node_avg b) - 1 then Some (give_if F margin node (node - 1) b)
     else if flt F (node_avg b ! (node - 1)) (node_avg b ! (node + 1))
       then Some (give_if F margin node (node - 1) b)
     else Some (give_if F margin node (node + 1) b))"

text \<open>eligable\_min: a node with too little load takes a task from the neighbour with more load, unless
  that has a single task.\<close>

definition take_if :: "'f farith \<Rightarrow> 'f \<Rightarrow> nat \<Rightarrow> nat \<Rightarrow> 'f balance \<Rightarrow> 'f balance" where
  "take_if F margin node nb b =
    (if contribution b ! nb = 1 then b
     else if flt F (fadd F (node_avg b ! node) margin) (node_avg b ! nb) then move_task nb node b else b)"

definition eligable_min :: "'f farith \<Rightarrow> 'f \<Rightarrow> nat \<Rightarrow> 'f balance \<Rightarrow> 'f balance option" where
  "eligable_min F margin node b =
    (if node = 0 then
       (if length (node_avg b) \<le> 1 then None else Some (take_if F margin node (node + 1) b))
     else if node = length (node_avg b) - 1 then Some (take_if F margin node (node - 1) b)
     else if flt F (node_avg b ! (node - 1)) (node_avg b ! (node + 1))
       then Some (take_if F margin node (node + 1) b)
     else Some (take_if F margin node (node - 1) b))"

definition balance_node :: "'f farith \<Rightarrow> 'f \<Rightarrow> 'f \<Rightarrow> 'f \<Rightarrow> nat \<Rightarrow> 'f balance \<Rightarrow> 'f balance option" where
  "balance_node F margin lower upper i b = do {
     b1 \<leftarrow> (if flt F upper (node_avg b ! i) then eligable_max F margin i b else Some b);
     if flt F (node_avg b1 ! i) lower then eligable_min F margin i b1 else Some b1}"

fun balance_nodes :: "'f farith \<Rightarrow> 'f \<Rightarrow> 'f \<Rightarrow> 'f \<Rightarrow> nat list \<Rightarrow> 'f balance \<Rightarrow> 'f balance option" where
  "balance_nodes F margin lower upper [] b = Some b"
| "balance_nodes F margin lower upper (i # is) b = do {
     b' \<leftarrow> balance_node F margin lower upper i b;
     balance_nodes F margin lower upper is b'}"

text \<open>The accumulation of the averages and contributions over the mapping.\<close>

fun contribute :: "'f farith \<Rightarrow> (nat \<times> 'f) list \<Rightarrow> 'f list \<Rightarrow> size_t list \<Rightarrow> ('f list \<times> size_t list) option" where
  "contribute F [] avg con = Some (avg, con)"
| "contribute F ((node, cost) # xs) avg con =
    (if node < length avg \<and> node < length con
     then contribute F xs (avg[node := fadd F (avg ! node) cost]) (con[node := con ! node + 1])
     else None)"

text \<open>The new mapping written through the iterator jt: each node as often as it contributes.  Writing
  more entries than the mapping has is out of its bounds; a tail that is not reached keeps its
  entries.\<close>

definition contribution_mapping :: "size_t list \<Rightarrow> nat list \<Rightarrow> nat list option" where
  "contribution_mapping con mapping =
    (let new = concat (map (\<lambda>i. replicate (unat (con ! i)) i) [0..<length con])
     in if length new \<le> length mapping then Some (new @ drop (length new) mapping) else None)"

text \<open>The mean and variance of the task costs, and the margin of a 95\% confidence interval.\<close>

definition cost_mean :: "'f farith \<Rightarrow> 'f list \<Rightarrow> 'f" where
  "cost_mean F costs = fdiv F (fsum F costs) (fof_int F (int (length costs)))"

definition cost_var :: "'f farith \<Rightarrow> 'f list \<Rightarrow> 'f" where
  "cost_var F costs =
    (let avg = cost_mean F costs
     in fdiv F (fsum F (map (\<lambda>c. let dist = fsub F c avg in fmul F dist dist) costs))
          (fof_int F (int (length costs))))"

definition cost_margin :: "'f farith \<Rightarrow> 'f list \<Rightarrow> 'f" where
  "cost_margin F costs =
    fmul F (flit F 196 100) (fsqrt F (fdiv F (cost_var F costs) (fof_int F (int (length costs)))))"

definition rebalance_by_times ::
    "'f farith \<Rightarrow> 'f list \<Rightarrow> nat list \<Rightarrow> nat \<Rightarrow> nat list option" where
  "rebalance_by_times F task_costs mapping num_nodes =
    (let avg = cost_mean F task_costs; margin = cost_margin F task_costs;
         lower = fsub F avg margin; upper = fadd F avg margin
     in do {
       (tot, con) \<leftarrow> contribute F (zip mapping task_costs)
         (replicate num_nodes (flit F 0 1)) (replicate num_nodes 0);
       let avgs = map2 (\<lambda>s c. fdiv F s (fof_int F (uint c))) tot con;
       let b = \<lparr>node_avg = avgs, contribution = con, update_mapping = False\<rparr>;
       b' \<leftarrow> (if flt F (cost_var F task_costs) (flit F 1 100) then Some b
              else balance_nodes F margin lower upper [0..<num_nodes] b);
       if update_mapping b' then contribution_mapping (contribution b') mapping else Some mapping})"

definition create_rebalanced_times ::
    "'p path_ops \<Rightarrow> 'f farith \<Rightarrow> tree_scheduling_policy \<Rightarrow> 'f list \<Rightarrow> bool list \<Rightarrow> tree_scheduling_policy option" where
  "create_rebalanced_times P F old times' active = do {
     task_costs \<leftarrow> sample_task_costs P F times' (granularity old) (pt_root P)
       (replicate (2 ^ granularity old) (flit F 0 1));
     mapping \<leftarrow> map_option (map unat) (task_distribution_mapping P old);
     new_mapping \<leftarrow> rebalance_by_times F task_costs mapping (length active);
     from_mapping P old new_mapping}"

section \<open>The mapping by costs\<close>

lemma next_active_Some:
  "next_active active i = Some j \<Longrightarrow> i \<le> j \<and> j < length active \<and> active ! j"
proof (induction active i rule: next_active.induct)
  case (1 active i)
  then show ?case
    by (subst (asm) next_active.simps) (auto split: if_splits)
qed

lemma next_active_exists:
  "i \<le> k \<Longrightarrow> k < length active \<Longrightarrow> active ! k \<Longrightarrow> \<exists>j. next_active active i = Some j"
proof (induction active i rule: next_active.induct)
  case (1 active i)
  show ?case
  proof (cases "active ! i")
    case True
    then show ?thesis using 1 by (subst next_active.simps) simp
  next
    case False
    then have "Suc i \<le> k" using 1 by (metis Suc_leI le_neq_implies_less)
    then show ?thesis using 1 False by (subst next_active.simps) auto
  qed
qed

lemma next_active_none: "next_active (replicate n False) i = None"
proof -
  have "\<And>j. next_active (replicate n False) i = Some j \<Longrightarrow> False"
    using next_active_Some by fastforce
  then show ?thesis by (cases "next_active (replicate n False) i") auto
qed

definition active_from :: "bool list \<Rightarrow> nat \<Rightarrow> nat list \<Rightarrow> bool" where
  "active_from active lo mp \<longleftrightarrow> sorted mp \<and> (\<forall>r \<in> set mp. lo \<le> r \<and> r < length active \<and> active ! r)"

lemma rebalance_loop_active:
  assumes "active \<noteq> []" and "last active" and "active ! node" and "node < length active"
  shows "\<exists>mp. rebalance_loop F active share costs cur goal node = Some mp \<and>
    length mp = length costs \<and> active_from active node mp"
  using assms(3,4)
proof (induction costs arbitrary: cur goal node)
  case Nil
  then show ?case by (simp add: active_from_def)
next
  case (Cons c cs)
  show ?case
  proof (cases "node < length active - 1 \<and> flt F goal (fadd F cur c)")
    case True
    have "active ! (length active - 1)" using assms by (simp add: last_conv_nth)
    then obtain j where j: "next_active active (node + 1) = Some j"
      using next_active_exists [of "node + 1" "length active - 1" active] True assms(1) by auto
    then have j': "node + 1 \<le> j" "j < length active" "active ! j" using next_active_Some by auto
    then obtain mp where mp: "rebalance_loop F active share cs (fadd F cur c) (fadd F goal share) j = Some mp"
      "length mp = length cs" "active_from active j mp"
      using Cons.IH by blast
    then have "active_from active node (j # mp)" using j' by (auto simp: active_from_def)
    then show ?thesis using True j mp by simp
  next
    case False
    obtain mp where mp: "rebalance_loop F active share cs (fadd F cur c) goal node = Some mp"
      "length mp = length cs" "active_from active node mp"
      using Cons.IH Cons.prems by blast
    then have "active_from active node (node # mp)" using Cons.prems by (auto simp: active_from_def)
    then show ?thesis using False mp by (auto simp: Let_def)
  qed
qed

lemma rebalanced_mapping_active:
  assumes "active \<noteq> []" and "last active"
  shows "\<exists>mp. rebalanced_mapping F costs active = Some mp \<and> length mp = length costs \<and> active_from active 0 mp"
proof -
  have "active ! (length active - 1)" using assms by (simp add: last_conv_nth)
  then obtain j where j: "next_active active 0 = Some j"
    using next_active_exists [of 0 "length active - 1" active] assms(1) by auto
  then have "active ! j" "j < length active" using next_active_Some by auto
  define share where "share = fdiv F (fsum F costs)
    (fof_int F (int (if count_list active True = 0 then 1 else count_list active True)))"
  obtain mp where "rebalance_loop F active share costs (fof_int F 0) share j = Some mp"
    "length mp = length costs" "active_from active j mp"
    using rebalance_loop_active [OF assms \<open>active ! j\<close> \<open>j < length active\<close>,
      of F share costs "fof_int F 0" share] by blast
  then show ?thesis using j by (auto simp: rebalanced_mapping_def Let_def active_from_def share_def)
qed

text \<open>Whatever the mask is, the scan for the next active node either leaves the mask, or all entries are active
  nodes.\<close>

lemma rebalance_loop_result:
  assumes "rebalance_loop F active share costs cur goal node = Some mp" and "active ! node" and "node < length active"
  shows "length mp = length costs \<and> active_from active node mp"
  using assms
proof (induction costs arbitrary: cur goal node mp)
  case Nil
  then show ?case by (simp add: active_from_def)
next
  case (Cons c cs)
  show ?case
  proof (cases "node < length active - 1 \<and> flt F goal (fadd F cur c)")
    case True
    then obtain j rest where j: "next_active active (node + 1) = Some j" and mp: "mp = j # rest"
      and rest: "rebalance_loop F active share cs (fadd F cur c) (fadd F goal share) j = Some rest"
      using Cons.prems(1) by (auto simp: Let_def Option.bind_eq_Some_conv)
    then have j': "node + 1 \<le> j" "j < length active" "active ! j" using next_active_Some by auto
    then show ?thesis using Cons.IH [OF rest j'(3,2)] mp by (auto simp: active_from_def)
  next
    case False
    then obtain rest where mp: "mp = node # rest" and rest: "rebalance_loop F active share cs (fadd F cur c) goal node = Some rest"
      using Cons.prems(1) by (auto simp: Let_def Option.bind_eq_Some_conv)
    then show ?thesis using Cons.IH [OF rest Cons.prems(2,3)] Cons.prems by (auto simp: active_from_def)
  qed
qed

lemma rebalanced_mapping_result:
  assumes "rebalanced_mapping F costs active = Some mp"
  shows "length mp = length costs \<and> active_from active 0 mp"
proof -
  obtain j share where j: "next_active active 0 = Some j" and l: "rebalance_loop F active share costs (fof_int F 0) share j = Some mp"
    using assms by (auto simp: rebalanced_mapping_def Let_def Option.bind_eq_Some_conv)
  then have "j < length active" "active ! j" using next_active_Some by auto
  then show ?thesis using rebalance_loop_result [OF l] by (auto simp: active_from_def)
qed

text \<open>With exact arithmetic and costs that are not negative, one active node is enough: the goal of the last active
  node is the sum of all costs, which is never exceeded.\<close>

lemma count_drop_next_active:
  assumes "next_active active i = Some j"
  shows "count_list (drop i active) True = Suc (count_list (drop (Suc j) active) True)"
  using assms
proof (induction active i rule: next_active.induct)
  case (1 active i)
  have i: "i < length active" using 1(2) by (subst (asm) next_active.simps) (auto split: if_splits)
  then have d: "drop i active = active ! i # drop (Suc i) active" by (simp add: Cons_nth_drop_Suc)
  show ?case
  proof (cases "active ! i")
    case True
    then have "j = i" using 1(2) i by (subst (asm) next_active.simps) simp
    then show ?thesis using d True by simp
  next
    case False
    then have "next_active active (i + 1) = Some j" using 1(2) i by (subst (asm) next_active.simps) simp
    then show ?thesis using 1(1) [OF i] False d by simp
  qed
qed

lemma next_active_of_count: "0 < count_list (drop i active) True \<Longrightarrow> \<exists>j. next_active active i = Some j"
proof -
  assume "0 < count_list (drop i active) True"
  then have "True \<in> set (drop i active)" using count_list_0_iff [of "drop i active" True] by auto
  then obtain m where "m < length (drop i active)" "drop i active ! m" by (auto simp: in_set_conv_nth)
  then show ?thesis using next_active_exists [of i "i + m" active] by simp
qed

lemma rebalance_loop_exact:
  assumes "\<forall>c \<in> set costs. 0 \<le> c"
  shows "cur + sum_list costs \<le> goal + share * of_nat (count_list (drop (Suc node) active) True) \<Longrightarrow>
    \<exists>mp. rebalance_loop rat_arith active share costs cur goal node = Some mp"
  using assms
proof (induction costs arbitrary: cur goal node)
  case (Cons c cs)
  have nonneg: "0 \<le> sum_list cs" "\<forall>c \<in> set cs. 0 \<le> c" using Cons.prems(2) by (simp_all add: sum_list_nonneg)
  let ?r = "count_list (drop (Suc node) active) True"
  show ?case
  proof (cases "node < length active - 1 \<and> flt rat_arith goal (fadd rat_arith cur c)")
    case True
    then have "goal < cur + c" by (simp add: rat_arith_def)
    then have "?r \<noteq> 0" using Cons.prems(1) nonneg(1) by (cases ?r) auto
    then obtain j where j: "next_active active (Suc node) = Some j" using next_active_of_count by blast
    have "?r = Suc (count_list (drop (Suc j) active) True)" by (rule count_drop_next_active [OF j])
    then have "cur + c + sum_list cs \<le> goal + share + share * of_nat (count_list (drop (Suc j) active) True)"
      using Cons.prems(1) by (simp add: algebra_simps)
    from Cons.IH [OF this nonneg(2)] show ?thesis using True j by (auto simp: Let_def rat_arith_def)
  next
    case False
    have "cur + c + sum_list cs \<le> goal + share * of_nat ?r" using Cons.prems(1) by simp
    from Cons.IH [OF this nonneg(2)] show ?thesis using False by (auto simp: Let_def rat_arith_def)
  qed
qed simp

lemma rebalanced_mapping_exact:
  assumes "\<forall>c \<in> set costs. 0 \<le> c" and "True \<in> set active"
  shows "\<exists>mp. rebalanced_mapping rat_arith costs active = Some mp"
proof -
  let ?m = "count_list active True"
  have m: "?m \<noteq> 0" using assms(2) by (simp add: count_list_0_iff)
  then obtain j where j: "next_active active 0 = Some j" using next_active_of_count [of 0 active] by auto
  have c: "?m = Suc (count_list (drop (Suc j) active) True)" using count_drop_next_active [OF j] by simp
  define share where "share = sum_list costs / of_nat ?m"
  have "sum_list costs = share * of_nat ?m" using m by (simp add: share_def)
  also have "\<dots> = share + share * of_nat (count_list (drop (Suc j) active) True)" by (simp add: c algebra_simps)
  finally have "\<exists>mp. rebalance_loop rat_arith active share costs 0 share j = Some mp"
    by (intro rebalance_loop_exact [OF assms(1)]) simp
  then show ?thesis using j m by (simp add: rebalanced_mapping_def Let_def share_def fsum_rat)
qed

section \<open>The mapping by times\<close>

definition balance_ok :: "nat \<Rightarrow> nat \<Rightarrow> 'f balance \<Rightarrow> bool" where
  "balance_ok n T b \<longleftrightarrow> length (node_avg b) = n \<and> length (contribution b) = n \<and>
    (\<forall>c \<in> set (contribution b). c \<noteq> 0) \<and> sum_list (map unat (contribution b)) = T \<and> T < 2 ^ 64"

lemma sum_list_ge_nth2:
  fixes xs :: "nat list"
  assumes "i < length xs" and "j < length xs" and "i \<noteq> j"
  shows "xs ! i + xs ! j \<le> sum_list xs"
proof -
  have "sum_list (xs[i := 0]) + xs ! i = sum_list xs"
    using sum_list_update_nat [OF assms(1), of 0] by simp
  moreover have "xs[i := 0] ! j \<le> sum_list (xs[i := 0])"
    using assms by (intro member_le_sum_list) (auto simp: set_conv_nth intro!: exI [of _ j])
  ultimately show ?thesis using assms by simp
qed

lemma move_task_ok:
  assumes b: "balance_ok n T b" and "src < n" "dst < n" "src \<noteq> dst" and "contribution b ! src \<noteq> 1"
  shows "balance_ok n T (move_task src dst b)"
proof -
  define con where "con = contribution b"
  have len: "length con = n" and nz: "\<forall>c \<in> set con. c \<noteq> 0"
    and sum: "sum_list (map unat con) = T" "T < 2 ^ 64"
    using b by (auto simp: balance_ok_def con_def)
  have src: "con ! src \<noteq> 0" and dst: "con ! dst \<noteq> 0" using nz len assms by auto
  then have src2: "2 \<le> unat (con ! src)" and u1: "unat (con ! src - 1) = unat (con ! src) - 1"
    using assms(5) by (auto simp: con_def unat_minus_one unat_gt_0_word word_unat_eq_iff)
  have "unat (con ! src) + unat (con ! dst) \<le> T"
    using sum_list_ge_nth2 [of src "map unat con" dst] assms len sum by simp
  then have u2: "unat (con ! dst + 1) = unat (con ! dst) + 1"
    using src2 sum(2) by (intro unat_plus_one) simp
  define con' where "con' = con[src := con ! src - 1, dst := con ! dst + 1]"
  have eq: "contribution (move_task src dst b) = con'"
    using assms by (simp add: move_task_def Let_def con_def con'_def)
  have "map unat con' = (map unat con)[src := unat (con ! src) - 1, dst := unat (con ! dst) + 1]"
    using u1 u2 by (simp add: con'_def map_update)
  then have "sum_list (map unat con') = T"
    using sum_list_update_nat [of src "map unat con" "unat (con ! src) - 1"]
      sum_list_update_nat [of dst "(map unat con)[src := unat (con ! src) - 1]" "unat (con ! dst) + 1"]
      assms len sum src2 by simp
  moreover have "\<forall>c \<in> set con'. c \<noteq> 0"
  proof
    fix c assume "c \<in> set con'"
    then obtain i where i: "i < n" "c = con' ! i" using len by (auto simp: con'_def in_set_conv_nth)
    have "unat c \<noteq> 0"
    proof -
      have "con ! i \<noteq> 0" using nz len i by auto
      then have "unat (con ! i) \<noteq> 0" by (simp add: unat_0_iff)
      then show ?thesis using i len assms(2-4) u1 u2 src2
        by (cases "i = dst"; cases "i = src") (auto simp: con'_def)
    qed
    then show "c \<noteq> 0" by (simp add: unat_0_iff)
  qed
  ultimately show ?thesis
    using b eq len by (simp add: balance_ok_def con'_def) (simp add: move_task_def Let_def)
qed

lemma eligable_max_ok:
  assumes "balance_ok n T b" and "node < n" and "2 \<le> n"
  shows "\<exists>b'. eligable_max F margin node b = Some b' \<and> balance_ok n T b'"
  using assms move_task_ok [OF assms(1,2), of "node + 1"] move_task_ok [OF assms(1,2), of "node - 1"]
  by (auto simp: eligable_max_def give_if_def balance_ok_def [of n T b])

lemma eligable_min_ok:
  assumes "balance_ok n T b" and "node < n" and "2 \<le> n"
  shows "\<exists>b'. eligable_min F margin node b = Some b' \<and> balance_ok n T b'"
  using assms move_task_ok [OF assms(1) _ assms(2), of "node + 1"]
    move_task_ok [OF assms(1) _ assms(2), of "node - 1"]
  by (auto simp: eligable_min_def take_if_def balance_ok_def [of n T b])

lemma balance_node_ok:
  assumes "balance_ok n T b" and "i < n" and "2 \<le> n"
  shows "\<exists>b'. balance_node F margin lower upper i b = Some b' \<and> balance_ok n T b'"
proof -
  obtain b1 where "(if flt F upper (node_avg b ! i) then eligable_max F margin i b else Some b) = Some b1"
    "balance_ok n T b1"
    using assms eligable_max_ok [OF assms] by (cases "flt F upper (node_avg b ! i)") auto
  then show ?thesis
    using eligable_min_ok [of n T b1 i F margin] assms(2,3) by (auto simp: balance_node_def)
qed

lemma balance_nodes_ok:
  assumes "balance_ok n T b" and "\<forall>i \<in> set is. i < n" and "2 \<le> n"
  shows "\<exists>b'. balance_nodes F margin lower upper is b = Some b' \<and> balance_ok n T b'"
  using assms
proof (induction "is" arbitrary: b)
  case (Cons i js)
  then obtain b1 where "balance_node F margin lower upper i b = Some b1" "balance_ok n T b1"
    using balance_node_ok [of n T b i F margin lower upper] by auto
  with Cons show ?case by auto
qed simp

lemma contribute_counts:
  "length xs < 2 ^ 64 \<Longrightarrow> (\<forall>x \<in> set xs. fst x < n) \<Longrightarrow> length avg = n \<Longrightarrow> length con = n \<Longrightarrow>
    (\<And>i. i < n \<Longrightarrow> unat (con ! i) = c i) \<Longrightarrow> (\<And>i. i < n \<Longrightarrow> c i + length xs < 2 ^ 64) \<Longrightarrow>
    \<exists>avg' con'. contribute F xs avg con = Some (avg', con') \<and> length avg' = n \<and> length con' = n \<and>
      (\<forall>i < n. unat (con' ! i) = c i + count_list (map fst xs) i)"
proof (induction xs arbitrary: avg con c)
  case Nil
  then show ?case by simp
next
  case (Cons x xs)
  obtain node cost where x: "x = (node, cost)" by (cases x)
  then have node: "node < n" using Cons.prems(2) by auto
  define c' where "c' = c(node := Suc (c node))"
  have "unat (con ! node + 1) = Suc (c node)"
    using Cons.prems(5,6) [OF node] unat_plus_one [of "con ! node"] by simp
  then have "unat (con[node := con ! node + 1] ! i) = c' i" if "i < n" for i
    using that node Cons.prems(4,5) by (auto simp: c'_def nth_list_update)
  moreover have "c' i + length xs < 2 ^ 64" if "i < n" for i
    using Cons.prems(6) [OF that] by (auto simp: c'_def)
  ultimately obtain avg' con' where IH:
    "contribute F xs (avg[node := fadd F (avg ! node) cost]) (con[node := con ! node + 1]) = Some (avg', con')"
    "length avg' = n" "length con' = n" "\<forall>i < n. unat (con' ! i) = c' i + count_list (map fst xs) i"
    using Cons.IH [of "avg[node := fadd F (avg ! node) cost]" "con[node := con ! node + 1]" c'] Cons.prems
    by auto
  then show ?case using x node Cons.prems(3,4) by (auto simp: c'_def)
qed

lemma sum_count_list:
  "\<forall>x \<in> set xs. x < n \<Longrightarrow> (\<Sum>i = 0..<n. count_list xs i) = length (xs :: nat list)"
proof (induction xs)
  case (Cons x xs)
  have "(\<Sum>i = 0..<n. count_list (x # xs) i) =
      (\<Sum>i = 0..<n. count_list xs i + (if i = x then 1 else 0))"
    by (rule sum.cong) auto
  then show ?case using Cons by (simp add: sum.distrib)
qed simp

lemma map_nth_upt_sum: "sum_list (map f xs) = (\<Sum>i = 0..<length xs. (f (xs ! i) :: nat))"
  by (simp add: sum_list_sum_nth)

lemma contribution_mapping_ok:
  assumes "length con = n" and "\<forall>c \<in> set con. c \<noteq> 0" and "sum_list (map unat con) = length mapping"
  shows "\<exists>new. contribution_mapping con mapping = Some new \<and> length new = length mapping \<and> sorted new \<and>
    (\<forall>i < n. 1 \<le> count_list new i) \<and> (\<forall>r \<in> set new. r < n)"
proof -
  define new where "new = concat (map (\<lambda>i. replicate (unat (con ! i)) i) [0..<n])"
  have len: "length new = length mapping"
    using assms(1,3)
    by (simp add: new_def length_concat comp_def interv_sum_list_conv_sum_set_nat map_nth_upt_sum)
  have *: "count_list (concat (map (\<lambda>i. replicate (c i) i) xs)) i = (if i \<in> set xs then c i else 0)"
    if "distinct xs" for c xs and i :: nat
    using that by (induction xs) (auto simp: count_list_append count_list_replicate)
  have "1 \<le> count_list new i" if "i < n" for i
  proof -
    have "con ! i \<noteq> 0" using assms that by auto
    then show ?thesis using that by (simp add: new_def * Suc_le_eq unat_gt_0)
  qed
  moreover have "contribution_mapping con mapping = Some new"
    using len assms(1) by (simp add: contribution_mapping_def Let_def flip: new_def)
  moreover have "sorted new" unfolding new_def by (rule sorted_concat_replicate)
  moreover have "\<forall>r \<in> set new. r < n" by (auto simp: new_def)
  ultimately show ?thesis using len by blast
qed

section \<open>Properties\<close>

text \<open>C14: rebalancing by task costs is safe whenever it returns, whatever the mask, the costs and the rounding of the
  floats: the new mapping has one entry per task, is sorted, uses active nodes only, and the policy that is created
  realizes it.  It does return when the last node is active.  When the last node is inactive, the scan for the next
  active node can leave the mask, and does for some roundings (rounded\_shares\_leave\_mask); with exact arithmetic
  it never does, see rebalanced\_mapping\_exact.\<close>

theorem rebalance_tasks_active:
  assumes "task_path_ok P" and "active \<noteq> []"
    and "length costs = 2 ^ granularity old" and "length active \<le> 2 ^ k"
    and "root_addr old = HierarchyAddress 0 (word_of_nat k)"
    and "k \<le> granularity old" and "0 < granularity old" and "granularity old + k \<le> 28"
  shows "(last active \<longrightarrow> rebalanced_mapping F costs active \<noteq> None) \<and>
    (case rebalanced_mapping F costs active of
       None \<Rightarrow> rebalance_tasks P F old costs active = None
     | Some mp \<Rightarrow> length mp = length costs \<and> sorted mp \<and> (\<forall>r \<in> set mp. r < length active \<and> active ! r) \<and>
         (\<exists>pol. rebalance_tasks P F old costs active = Some pol \<and>
           task_distribution_mapping P pol = Some (map word_of_nat mp)))"
proof (cases "rebalanced_mapping F costs active")
  case None
  then show ?thesis
    using rebalanced_mapping_active [OF assms(2), of F costs] assms(3) by (auto simp: rebalance_tasks_def)
next
  case (Some mp)
  then have mp: "length mp = length costs" "active_from active 0 mp" using rebalanced_mapping_result by blast+
  then have "mapping_ok k (granularity old) mp"
    using assms(3,4) by (auto simp: active_from_def mapping_ok_def)
  then obtain pol where "from_mapping P old mp = Some pol"
    "task_distribution_mapping P pol = Some (map word_of_nat mp)"
    using policy_of_mapping [OF assms(1) _ assms(5-8)] by blast
  then show ?thesis
    using mp Some assms(3) by (auto simp: rebalance_tasks_def active_from_def)
qed

theorem rebalance_tasks_active_witness:
  "\<exists>mp pol. rebalanced_mapping rat_arith [3, 1, 1, 1] [True, True] = Some mp \<and> length mp = 4 \<and>
    rebalance_tasks list_paths rat_arith \<lparr>root_addr = HierarchyAddress 0 1, granularity = 2, tree = []\<rparr>
      [3, 1, 1, 1] [True, True] = Some pol \<and>
    task_distribution_mapping list_paths pol = Some (map word_of_nat mp)"
  using rebalance_tasks_active [OF list_paths_ok, of "[True, True]" "[3, 1, 1, 1]"
      "\<lparr>root_addr = HierarchyAddress 0 1, granularity = 2, tree = []\<rparr>" 1 rat_arith]
  by (auto split: option.splits)

text \<open>Shares that are rounded down: the three active nodes get a share of 1 of the costs 4, and the last task is
  beyond their goals.\<close>

definition rounded_arith :: "int farith" where
  "rounded_arith = \<lparr>fadd = (+), fsub = (-), fmul = (*), fdiv = (div), fsqrt = id,
    flt = (<), feq = (=), fof_int = id, flit = (div)\<rparr>"

lemma rounded_shares_leave_mask:
  "rebalanced_mapping rounded_arith [1, 1, 1, 1] [True, True, True, False] = None"
  by code_simp

text \<open>C15: rebalancing by measured times never starves a node: if every one of the n (at least two)
  nodes has a task in the mapping, then the new mapping is computed without leaving a vector, has one
  entry per task, is sorted, and again gives every node at least one task.\<close>

theorem rebalance_by_times_keeps_nodes_busy:
  assumes "length task_costs = length mapping" and "length mapping < 2 ^ 64" and "2 \<le> n"
    and "sorted mapping" and "\<forall>r \<in> set mapping. r < n" and "\<forall>i < n. i \<in> set mapping"
  shows "\<exists>new. rebalance_by_times F task_costs mapping n = Some new \<and> length new = length mapping \<and>
    sorted new \<and> (\<forall>i < n. i \<in> set new) \<and> (\<forall>r \<in> set new. r < n)"
proof -
  have fst: "map fst (zip mapping task_costs) = mapping" using assms(1) by simp
  have "length (zip mapping task_costs) < 2 ^ 64" using assms(1,2) by simp
  moreover have "\<forall>x \<in> set (zip mapping task_costs). fst x < n" using assms(5) by (auto dest: set_zip_leftD)
  ultimately obtain tot con where con:
    "contribute F (zip mapping task_costs) (replicate n (flit F 0 1)) (replicate n 0) = Some (tot, con)"
    "length tot = n" "length con = n" "\<forall>i < n. unat (con ! i) = 0 + count_list mapping i"
    using contribute_counts [of "zip mapping task_costs" n "replicate n (flit F 0 1)" "replicate n 0" "\<lambda>_. 0" F]
    unfolding fst by auto
  define b where "b = \<lparr>node_avg = map2 (\<lambda>s c. fdiv F s (fof_int F (uint c))) tot con,
    contribution = con, update_mapping = False\<rparr>"
  have "\<forall>i < n. count_list mapping i \<noteq> 0" using assms(6) by (simp only: count_list_0_iff) simp
  then have "c \<noteq> 0" if "c \<in> set con" for c
    using that con(3,4) by (auto simp: in_set_conv_nth simp flip: unat_0_iff)
  moreover have "sum_list (map unat con) = length mapping"
    using con(3,4) sum_count_list [OF assms(5)] by (simp add: map_nth_upt_sum)
  ultimately have b: "balance_ok n (length mapping) b"
    using con(2,3) assms(2) by (simp add: balance_ok_def b_def)
  obtain b' where b': "(if flt F (cost_var F task_costs) (flit F 1 100) then Some b
      else balance_nodes F (cost_margin F task_costs) (fsub F (cost_mean F task_costs) (cost_margin F task_costs))
        (fadd F (cost_mean F task_costs) (cost_margin F task_costs)) [0..<n] b) = Some b'"
    "balance_ok n (length mapping) b'"
    using b balance_nodes_ok [OF b _ assms(3), of "[0..<n]" F "cost_margin F task_costs"
        "fsub F (cost_mean F task_costs) (cost_margin F task_costs)"
        "fadd F (cost_mean F task_costs) (cost_margin F task_costs)"]
    by (cases "flt F (cost_var F task_costs) (flit F 1 100)") auto
  have eq: "rebalance_by_times F task_costs mapping n =
      (if update_mapping b' then contribution_mapping (contribution b') mapping else Some mapping)"
    using con(1) b'(1)
    by (cases "flt F (cost_var F task_costs) (flit F 1 100)")
      (auto simp: rebalance_by_times_def Let_def b_def)
  obtain new where new: "contribution_mapping (contribution b') mapping = Some new" "length new = length mapping"
    "sorted new" "\<forall>i < n. 1 \<le> count_list new i" "\<forall>r \<in> set new. r < n"
    using contribution_mapping_ok [of "contribution b'" n mapping] b'(2) by (auto simp: balance_ok_def)
  have "\<forall>i < n. i \<in> set new" using new(4) by (metis count_notin not_one_le_zero)
  show ?thesis
  proof (cases "update_mapping b'")
    case True
    then have "rebalance_by_times F task_costs mapping n = Some new" using eq new(1) by simp
    then show ?thesis using new(2,3,5) \<open>\<forall>i < n. i \<in> set new\<close> by blast
  next
    case False
    then have "rebalance_by_times F task_costs mapping n = Some mapping" using eq by simp
    then show ?thesis using assms(4-6) by blast
  qed
qed

theorem rebalance_by_times_keeps_nodes_busy_witness:
  "\<exists>new. rebalance_by_times rat_arith [9, 1, 1, 1] [0, 0, 1, 1] 2 = Some new \<and> length new = 4 \<and> 0 \<in> set new"
proof -
  have "\<forall>i < 2. i \<in> set [0, 0, 1, 1 :: nat]" by (auto simp: less_2_cases_iff)
  then show ?thesis
    using rebalance_by_times_keeps_nodes_busy [of "[9, 1, 1, 1]" "[0, 0, 1, 1]" 2 rat_arith] by auto
qed

text \<open>The fallback to one available node does not help when no node is active: the scan for the
  first active node leaves the mask, for every input.\<close>

theorem rebalance_without_active_nodes:
  "rebalanced_mapping F costs (replicate n False) = None"
  by (simp add: rebalanced_mapping_def next_active_none)

end
