(* ===== verification/Regions.thy ===== *)
theory Regions
  imports Prelude
begin

text \<open>
  Regions and fragments of data items, and the location\_info of
  allscale/data\_item\_manager/location\_info.hpp.  The region and fragment types of a data item belong
  to the AllScale API and to the application: their operations are the fields of two records.
  region\_ok states what a region is: a set of elements, with merge, intersect and difference the set
  operations, of which E gives the elements.
\<close>

section \<open>The interface of regions and fragments\<close>

record 'r region_ops =
  r_none :: 'r
  r_merge :: "'r \<Rightarrow> 'r \<Rightarrow> 'r"
  r_inter :: "'r \<Rightarrow> 'r \<Rightarrow> 'r"
  r_diff :: "'r \<Rightarrow> 'r \<Rightarrow> 'r"
  r_empty :: "'r \<Rightarrow> bool"
  r_sub :: "'r \<Rightarrow> 'r \<Rightarrow> bool"

definition region_ok :: "'r region_ops \<Rightarrow> ('r \<Rightarrow> 'e set) \<Rightarrow> bool" where
  "region_ok R E \<longleftrightarrow>
    E (r_none R) = {} \<and>
    (\<forall>a b. E (r_merge R a b) = E a \<union> E b) \<and>
    (\<forall>a b. E (r_inter R a b) = E a \<inter> E b) \<and>
    (\<forall>a b. E (r_diff R a b) = E a - E b) \<and>
    (\<forall>a. r_empty R a \<longleftrightarrow> E a = {}) \<and>
    (\<forall>a b. r_sub R a b \<longleftrightarrow> E a \<subseteq> E b)"

text \<open>A fragment holds the data of its covered region; 'x is the archive of extracted data.\<close>

record ('r, 'f, 'x) fragment_ops =
  f_new :: 'f
  f_covered :: "'f \<Rightarrow> 'r"
  f_resize :: "'f \<Rightarrow> 'r \<Rightarrow> 'f"
  f_extract :: "'f \<Rightarrow> 'r \<Rightarrow> 'x"
  f_insert :: "'f \<Rightarrow> 'x \<Rightarrow> 'f"

lemma region_simps_ok [region_simps]:
  assumes "region_ok R E"
  shows "E (r_none R) = {}" and "E (r_merge R a b) = E a \<union> E b" and "E (r_inter R a b) = E a \<inter> E b"
    and "E (r_diff R a b) = E a - E b" and "r_empty R a \<longleftrightarrow> E a = {}" and "r_sub R a b \<longleftrightarrow> E a \<subseteq> E b"
  using assms by (simp_all add: region_ok_def)

text \<open>An instance: regions of up to eight elements as bit masks.\<close>

definition mask_regions :: "uint8_t region_ops" where
  "mask_regions = \<lparr>r_none = 0, r_merge = (OR), r_inter = (AND), r_diff = (\<lambda>a b. a AND NOT b),
    r_empty = (\<lambda>a. a = 0), r_sub = (\<lambda>a b. a AND NOT b = 0)\<rparr>"

definition mask_elems :: "uint8_t \<Rightarrow> nat set" where
  "mask_elems a = {i. bit a i}"

lemma mask_regions_simps [simp]:
  "r_none mask_regions = 0" "r_merge mask_regions = (OR)" "r_inter mask_regions = (AND)"
  "r_diff mask_regions = (\<lambda>a b. a AND NOT b)" "r_empty mask_regions = (\<lambda>a. a = 0)"
  "r_sub mask_regions = (\<lambda>a b. a AND NOT b = 0)"
  by (simp_all add: mask_regions_def)

lemma byte_bit_less: "bit (a :: uint8_t) n \<Longrightarrow> n < 8"
  using bit_imp_le_length [of a n] by simp

lemma byte_eq_0_iff: "(a :: uint8_t) = 0 \<longleftrightarrow> (\<forall>n. \<not> bit a n)"
  by (auto simp: bit_eq_iff dest: byte_bit_less)

lemma mask_regions_ok: "region_ok mask_regions mask_elems"
  by (auto simp: region_ok_def mask_elems_def bit_or_iff bit_and_iff bit_not_iff byte_eq_0_iff
      subset_iff dest: byte_bit_less)

text \<open>Fragments that are nothing but their covered region.\<close>

definition mask_fragments :: "(uint8_t, uint8_t, uint8_t) fragment_ops" where
  "mask_fragments = \<lparr>f_new = 0, f_covered = (\<lambda>f. f), f_resize = (\<lambda>f r. r),
    f_extract = (\<lambda>f r. r), f_insert = (\<lambda>f x. f OR x)\<rparr>"

section \<open>Location infos\<close>

text \<open>The unordered\_map from ranks to regions, as a list of its entries.  The order of the list stands
  for the unspecified order of iteration; what is stated below does not depend on it.\<close>

type_synonym 'r location_info = "(size_t \<times> 'r) list"

fun add_part :: "'r region_ops \<Rightarrow> size_t \<Rightarrow> 'r \<Rightarrow> 'r location_info \<Rightarrow> 'r location_info" where
  "add_part R rank region [] = [(rank, r_merge R (r_none R) region)]"
| "add_part R rank region ((k, part) # ps) =
    (if k = rank then (k, r_merge R part region) # ps else (k, part) # add_part R rank region ps)"

text \<open>The loop of update: the parts without the region, and what was cut out of them.\<close>

fun cut_parts :: "'r region_ops \<Rightarrow> 'r \<Rightarrow> 'r location_info \<Rightarrow> 'r \<Rightarrow> 'r location_info \<times> 'r" where
  "cut_parts R region [] updated = ([], updated)"
| "cut_parts R region ((k, part) # ps) updated =
    (let reg = r_inter R part region
     in if r_empty R reg then (let (ps', u) = cut_parts R region ps updated in ((k, part) # ps', u))
        else (let (ps', u) = cut_parts R region ps (r_merge R updated reg)
              in ((k, r_diff R part region) # ps', u)))"

definition update_info :: "'r region_ops \<Rightarrow> size_t \<Rightarrow> 'r \<Rightarrow> 'r location_info \<Rightarrow> 'r location_info" where
  "update_info R rank region ps =
    (let (ps', updated) = cut_parts R region ps (r_none R)
     in if r_empty R updated then ps' else add_part R rank updated ps')"

text \<open>What an info says: the elements it locates at a rank, and all elements it locates.\<close>

definition located :: "('r \<Rightarrow> 'e set) \<Rightarrow> 'r location_info \<Rightarrow> size_t \<Rightarrow> 'e set" where
  "located E ps k = \<Union> (E ` snd ` {p \<in> set ps. fst p = k})"

definition covered :: "('r \<Rightarrow> 'e set) \<Rightarrow> 'r location_info \<Rightarrow> 'e set" where
  "covered E ps = \<Union> (E ` snd ` set ps)"

lemma located_Nil [simp]: "located E [] k = {}"
  by (simp add: located_def)

lemma located_Cons [simp]:
  "located E ((j, r) # ps) k = (if j = k then E r else {}) \<union> located E ps k"
  by (auto simp: located_def)

lemma covered_Nil [simp]: "covered E [] = {}"
  by (simp add: covered_def)

lemma covered_Cons [simp]: "covered E ((j, r) # ps) = E r \<union> covered E ps"
  by (simp add: covered_def)

lemma covered_located: "covered E ps = (\<Union>k. located E ps k)"
  by (auto simp: covered_def located_def)

lemma located_subset_covered: "located E ps k \<subseteq> covered E ps"
  by (auto simp: covered_def located_def)

lemma located_add_part:
  assumes "region_ok R E"
  shows "located E (add_part R rank region ps) k =
    (if k = rank then located E ps k \<union> E region else located E ps k)"
  using assms by (induction ps) (auto simp: region_simps split: if_splits)

lemma covered_add_part:
  assumes "region_ok R E"
  shows "covered E (add_part R rank region ps) = covered E ps \<union> E region"
  using assms by (induction ps) (auto simp: region_simps split: if_splits)

lemma keys_add_part: "set (map fst (add_part R rank region ps)) = insert rank (set (map fst ps))"
proof (induction ps)
  case (Cons p ps)
  then show ?case by (cases p) (simp add: insert_commute)
qed simp

lemma distinct_add_part: "distinct (map fst ps) \<Longrightarrow> distinct (map fst (add_part R rank region ps))"
proof (induction ps)
  case (Cons p ps)
  then show ?case using keys_add_part [of R rank region ps] by (cases p) (auto simp: image_iff)
qed simp

lemma cut_parts_spec:
  assumes "region_ok R E"
  shows "located E (fst (cut_parts R region ps u)) k = located E ps k - E region \<and>
    E (snd (cut_parts R region ps u)) = E u \<union> (covered E ps \<inter> E region) \<and>
    map fst (fst (cut_parts R region ps u)) = map fst ps"
  using assms
proof (induction ps arbitrary: u)
  case (Cons p ps)
  obtain j part where p: "p = (j, part)" by (cases p)
  note IH = Cons.IH [OF Cons.prems]
  show ?case
  proof (cases "r_empty R (r_inter R part region)")
    case True
    obtain ps' u' where c: "cut_parts R region ps u = (ps', u')" by (cases "cut_parts R region ps u")
    have "E part \<inter> E region = {}" using True by (simp add: region_simps [OF assms])
    then show ?thesis using IH [of u] p True c by (auto simp: Let_def)
  next
    case False
    let ?u = "r_merge R u (r_inter R part region)"
    obtain ps' u' where c: "cut_parts R region ps ?u = (ps', u')" by (cases "cut_parts R region ps ?u")
    show ?thesis using IH [of ?u] p False c by (auto simp: Let_def region_simps [OF assms])
  qed
qed simp

lemma located_update_info:
  assumes "region_ok R E"
  shows "located E (update_info R rank region ps) k =
    (located E ps k - E region) \<union> (if k = rank then covered E ps \<inter> E region else {})"
  using cut_parts_spec [OF assms, of region ps "r_none R"] located_add_part [OF assms]
  by (cases "cut_parts R region ps (r_none R)")
    (simp add: update_info_def region_simps [OF assms] Un_commute)

text \<open>A coherent info locates no element at two ranks.\<close>

definition coherent :: "('r \<Rightarrow> 'e set) \<Rightarrow> 'r location_info \<Rightarrow> bool" where
  "coherent E ps \<longleftrightarrow> (\<forall>j k. j \<noteq> k \<longrightarrow> located E ps j \<inter> located E ps k = {})"

section \<open>Properties\<close>

text \<open>Update moves a region to its new rank in a location cache: afterwards exactly the elements of
  the region that the cache knew are located at the new rank and nowhere else, everything else stays
  where it was, and a cache that locates no element twice keeps doing so.\<close>

theorem update_info_moves:
  assumes "region_ok R E"
  shows "located E (update_info R rank region ps) k =
      (located E ps k - E region) \<union> (if k = rank then covered E ps \<inter> E region else {}) \<and>
    covered E (update_info R rank region ps) = covered E ps \<and>
    (coherent E ps \<longrightarrow> coherent E (update_info R rank region ps))"
proof (intro conjI impI)
  note loc = located_update_info [OF assms, of rank region ps]
  show "located E (update_info R rank region ps) k =
      (located E ps k - E region) \<union> (if k = rank then covered E ps \<inter> E region else {})"
    by (rule loc)
  show "covered E (update_info R rank region ps) = covered E ps"
  proof -
    have "covered E (update_info R rank region ps) = (\<Union>k. located E (update_info R rank region ps) k)"
      by (rule covered_located)
    also have "\<dots> = (\<Union>k. located E ps k - E region) \<union> (covered E ps \<inter> E region)"
      unfolding located_update_info [OF assms] by (auto split: if_splits)
    also have "\<dots> = covered E ps" using covered_located [of E ps] by blast
    finally show ?thesis .
  qed
  assume "coherent E ps"
  then show "coherent E (update_info R rank region ps)"
    unfolding coherent_def loc by auto
qed

theorem update_info_moves_witness:
  "located mask_elems (update_info mask_regions 3 6 [(1, 3), (2, 4)]) 3 =
    (mask_elems 3 \<union> mask_elems 4) \<inter> mask_elems 6"
  using update_info_moves [OF mask_regions_ok, where k = 3 and rank = 3 and region = 6 and ps = "[(1, 3), (2, 4)]"]
  by auto

end
