(* ===== verification/Data_Items.thy ===== *)
theory Data_Items
  imports Regions Hierarchy
begin

text \<open>
  The data items of a rank: ids and references (allscale/data\_item\_reference.hpp), requirements
  (allscale/data\_item\_requirement.hpp), the store of items with its thread-local cache
  (data\_item\_store.hpp, src/data\_item\_store.cpp), fragments and shared data
  (fragment.hpp, shared\_data.hpp), and the views that carry data between ranks
  (data\_item\_view.hpp), all in allscale/data\_item\_manager.
\<close>

section \<open>Ids and references\<close>

datatype data_item_id = data_item_id (id_locality: uint32_t) (id_number: uint32_t)

text \<open>create(): the atomic counter of the rank is the state.\<close>

definition create_id :: "uint32_t \<Rightarrow> uint32_t \<Rightarrow> data_item_id \<times> uint32_t" where
  "create_id here counter = (data_item_id here counter, counter + 1)"

text \<open>A reference holds the id and a hint, the cached pointer to the fragment.\<close>

record 'h data_item_reference =
  ref_id :: data_item_id
  ref_cache :: "'h option"

definition ref_copy :: "'h data_item_reference \<Rightarrow> 'h data_item_reference" where
  "ref_copy other = \<lparr>ref_id = ref_id other, ref_cache = None\<rparr>"

text \<open>The move constructor: the new reference and the one moved from.\<close>

definition ref_move :: "'h data_item_reference \<Rightarrow> 'h data_item_reference \<times> 'h data_item_reference" where
  "ref_move other = (\<lparr>ref_id = ref_id other, ref_cache = None\<rparr>, other\<lparr>ref_cache := None\<rparr>)"

text \<open>Both assignments copy the id and leave the own cache as it is.\<close>

definition ref_assign :: "'h data_item_reference \<Rightarrow> 'h data_item_reference \<Rightarrow> 'h data_item_reference" where
  "ref_assign this other = this\<lparr>ref_id := ref_id other\<rparr>"

definition getFragmentHint :: "'h data_item_reference \<Rightarrow> 'h option" where
  "getFragmentHint r = ref_cache r"

definition setFragmentHint :: "'h data_item_reference \<Rightarrow> 'h option \<Rightarrow> 'h data_item_reference" where
  "setFragmentHint r hint = r\<lparr>ref_cache := hint\<rparr>"

section \<open>Requirements\<close>

datatype access_mode = Invalid | ReadOnly | ReadWrite

record 'r requirement =
  req_id :: data_item_id
  req_region :: 'r
  req_allowance :: 'r
  req_mode :: access_mode

definition createDataItemRequirement :: "'r region_ops \<Rightarrow> data_item_id \<Rightarrow> 'r \<Rightarrow> access_mode \<Rightarrow> 'r requirement" where
  "createDataItemRequirement R d region mode =
    \<lparr>req_id = d, req_region = region, req_allowance = r_none R, req_mode = mode\<rparr>"

text \<open>The inserter of merge\_data\_item\_reqs: the first requirement of the same item and mode takes
  the region, otherwise the requirement is added at the end.  The requirements of a tuple are inserted
  from the last to the first.\<close>

fun insert_req :: "'r region_ops \<Rightarrow> 'r requirement \<Rightarrow> 'r requirement list \<Rightarrow> 'r requirement list" where
  "insert_req R cur [] = [cur]"
| "insert_req R cur (req # reqs) =
    (if req_id req = req_id cur \<and> req_mode req = req_mode cur
     then req\<lparr>req_region := r_merge R (req_region req) (req_region cur)\<rparr> # reqs
     else req # insert_req R cur reqs)"

definition merge_data_item_reqs :: "'r region_ops \<Rightarrow> 'r requirement list \<Rightarrow> 'r requirement list" where
  "merge_data_item_reqs R reqs = foldr (insert_req R) reqs []"

section \<open>The store of a rank\<close>

text \<open>An item: the region it owns exclusively, its fragment and the shared data, if there are any.\<close>

record ('r, 'f, 'd) data_item =
  exclusive :: 'r
  frag :: "'f option"
  shared :: "'d option"

definition new_item :: "'r region_ops \<Rightarrow> ('r, 'f, 'd) data_item" where
  "new_item R = \<lparr>exclusive = r_none R, frag = None, shared = None\<rparr>"

text \<open>The store of one item type and the thread-local map, which all item types of a thread share.  A
  pointer is the pair of the item type and the key, since entries of the store never move.\<close>

type_synonym 't item_ptr = "'t \<times> data_item_id"

record ('t, 'i) stores =
  store_map :: "'t \<Rightarrow> data_item_id \<rightharpoonup> 'i"
  tls_map :: "data_item_id \<rightharpoonup> 't item_ptr"

definition tls_set :: "data_item_id \<Rightarrow> 't item_ptr \<Rightarrow> ('t, 'i) stores \<Rightarrow> ('t, 'i) stores" where
  "tls_set d p s = s\<lparr>tls_map := (tls_map s)(d \<mapsto> p)\<rparr>"

definition tls_get :: "data_item_id \<Rightarrow> ('t, 'i) stores \<Rightarrow> 't item_ptr option" where
  "tls_get d s = tls_map s d"

definition store_lookup :: "'i \<Rightarrow> 't \<Rightarrow> data_item_id \<Rightarrow> ('t, 'i) stores \<Rightarrow> 't item_ptr \<times> ('t, 'i) stores" where
  "store_lookup fresh ty d s =
    (case tls_get d s of
       Some p \<Rightarrow> (p, s)
     | None \<Rightarrow>
         (case store_map s ty d of
            None \<Rightarrow> ((ty, d), tls_set d (ty, d)
              (s\<lparr>store_map := (store_map s)(ty := (store_map s ty)(d \<mapsto> fresh))\<rparr>))
          | Some i \<Rightarrow> ((ty, d), tls_set d (ty, d) s)))"

section \<open>Shared data and fragments\<close>

text \<open>The items of all ranks for one id.  shared\_data fetches missing shared data from the rank
  (this\_id-1)/2 and keeps it; at rank 0 there is nobody to ask (None).  The recursion ends because
  that rank is smaller; the fuel is the own rank.\<close>

type_synonym ('r, 'f, 'd) items = "nat \<Rightarrow> ('r, 'f, 'd) data_item"

fun shared_data_f :: "nat \<Rightarrow> nat \<Rightarrow> ('r, 'f, 'd) items \<Rightarrow> ('d \<times> ('r, 'f, 'd) items) option" where
  "shared_data_f fuel this_id its =
    (case shared (its this_id) of
       Some d \<Rightarrow> Some (d, its)
     | None \<Rightarrow>
         (case fuel of 0 \<Rightarrow> None
          | Suc n \<Rightarrow>
              if this_id = 0 then None
              else do {
                (res, its1) \<leftarrow> shared_data_f n ((this_id - 1) div 2) its;
                let its2 = (if shared (its1 this_id) = None
                  then its1(this_id := (its1 this_id)\<lparr>shared := Some res\<rparr>) else its1);
                d \<leftarrow> shared (its2 this_id);
                Some (d, its2)}))"

declare shared_data_f.simps [simp del]

definition shared_data :: "nat \<Rightarrow> ('r, 'f, 'd) items \<Rightarrow> ('d \<times> ('r, 'f, 'd) items) option" where
  "shared_data this_id its = shared_data_f this_id this_id its"

text \<open>fragment(): creates the fragment from the shared data when there is none.\<close>

definition get_fragment ::
    "('r, 'f, 'x) fragment_ops \<Rightarrow> nat \<Rightarrow> ('r, 'f, 'd) items \<Rightarrow> ('f \<times> ('r, 'f, 'd) items) option" where
  "get_fragment FO here its =
    (case frag (its here) of
       Some f \<Rightarrow> Some (f, its)
     | None \<Rightarrow> do {
         (sd, its1) \<leftarrow> shared_data here its;
         let its2 = (if frag (its1 here) = None
           then its1(here := (its1 here)\<lparr>frag := Some (f_new FO)\<rparr>) else its1);
         f \<leftarrow> frag (its2 here);
         Some (f, its2)})"

section \<open>Views\<close>

text \<open>data\_item\_view: save writes the data of the region, or only false when the region is not covered;
  with migrate the saved region leaves the fragment.  load inserts what was saved.  Without a fragment
  both dereference a null pointer (None).\<close>

definition view_save ::
    "'r region_ops \<Rightarrow> ('r, 'f, 'x) fragment_ops \<Rightarrow> 'r \<Rightarrow> bool \<Rightarrow> ('r, 'f, 'd) data_item \<Rightarrow>
     ('x option \<times> ('r, 'f, 'd) data_item) option" where
  "view_save R FO region migrate item =
    map_option
      (\<lambda>f. if \<not> r_sub R region (f_covered FO f) then (None, item)
           else (Some (f_extract FO f region),
             if migrate then item\<lparr>frag := Some (f_resize FO f (r_diff R (f_covered FO f) region))\<rparr> else item))
      (frag item)"

definition view_load ::
    "('r, 'f, 'x) fragment_ops \<Rightarrow> 'x option \<Rightarrow> ('r, 'f, 'd) data_item \<Rightarrow> ('r, 'f, 'd) data_item option" where
  "view_load FO data item =
    map_option
      (\<lambda>f. case data of None \<Rightarrow> item | Some x \<Rightarrow> item\<lparr>frag := Some (f_insert FO f x)\<rparr>)
      (frag item)"

section \<open>The lookup of the store\<close>

text \<open>What a client of an item store relies on: a lookup returns a pointer to an existing item, which is
  the same for every lookup of the id, and keeps all items that exist.\<close>

locale item_lookup =
  fixes lookup :: "'d \<Rightarrow> 's \<Rightarrow> 'p \<times> 's"
    and deref :: "'s \<Rightarrow> 'p \<Rightarrow> 'i option"
    and addr_of :: "'d \<Rightarrow> 'p"
    and inv :: "'s \<Rightarrow> bool"
  assumes lookup_inv: "inv s \<Longrightarrow> inv (snd (lookup d s))"
    and lookup_ptr: "inv s \<Longrightarrow> fst (lookup d s) = addr_of d"
    and lookup_exists: "inv s \<Longrightarrow> deref (snd (lookup d s)) (addr_of d) \<noteq> None"
    and lookup_keeps: "inv s \<Longrightarrow> deref s p = Some i \<Longrightarrow> deref (snd (lookup d s)) p = Some i"
begin

fun lookups :: "'d list \<Rightarrow> 's \<Rightarrow> 's" where
  "lookups [] s = s"
| "lookups (d # ds) s = lookups ds (snd (lookup d s))"

lemma lookups_inv: "inv s \<Longrightarrow> inv (lookups ds s)"
  by (induction ds arbitrary: s) (auto intro: lookup_inv)

lemma lookups_keep: "inv s \<Longrightarrow> deref s p = Some i \<Longrightarrow> deref (lookups ds s) p = Some i"
  by (induction ds arbitrary: s) (auto intro: lookup_inv lookup_keeps)

lemma lookup_stable:
  assumes "inv s"
  shows "fst (lookup d (lookups ds (snd (lookup d s)))) = fst (lookup d s)"
    and "deref (lookups ds (snd (lookup d s))) (fst (lookup d s)) = deref (snd (lookup d s)) (fst (lookup d s))"
proof -
  have i: "inv (snd (lookup d s))" using assms by (rule lookup_inv)
  show "fst (lookup d (lookups ds (snd (lookup d s)))) = fst (lookup d s)"
    using lookup_ptr [OF lookups_inv [OF i]] lookup_ptr [OF assms] by simp
  obtain x where "deref (snd (lookup d s)) (fst (lookup d s)) = Some x"
    using lookup_exists [OF assms] lookup_ptr [OF assms] by fastforce
  then show "deref (lookups ds (snd (lookup d s))) (fst (lookup d s)) = deref (snd (lookup d s)) (fst (lookup d s))"
    using lookups_keep [OF i] by simp
qed

end

text \<open>The stores of the runtime provide it, as long as each id belongs to one item type: then the
  thread-local map, which is keyed by the id alone, never yields a pointer of another type.\<close>

definition stores_ok :: "(data_item_id \<Rightarrow> 't) \<Rightarrow> ('t, 'i) stores \<Rightarrow> bool" where
  "stores_ok ty_of s \<longleftrightarrow> (\<forall>d p. tls_map s d = Some p \<longrightarrow> p = (ty_of d, d) \<and> store_map s (ty_of d) d \<noteq> None)"

definition deref :: "('t, 'i) stores \<Rightarrow> 't item_ptr \<Rightarrow> 'i option" where
  "deref s p = store_map s (fst p) (snd p)"

interpretation item_store: item_lookup "\<lambda>d. store_lookup fresh (ty_of d) d" deref
  "\<lambda>d. (ty_of d, d)" "stores_ok ty_of" for fresh ty_of
proof (standard, goal_cases)
  case (1 s d)
  then show ?case
    by (auto simp: store_lookup_def stores_ok_def tls_get_def tls_set_def split: option.splits) metis+
next
  case (2 s d)
  then show ?case
    by (auto simp: store_lookup_def stores_ok_def tls_get_def split: option.splits)
next
  case (3 s d)
  show ?case
  proof (cases "tls_map s d")
    case (Some p)
    then have "store_map s (ty_of d) d \<noteq> None" using 3 unfolding stores_ok_def by blast
    then show ?thesis using Some by (simp add: store_lookup_def tls_get_def deref_def)
  next
    case None
    then show ?thesis
      by (auto simp: store_lookup_def tls_get_def tls_set_def deref_def split: option.splits)
  qed
next
  case (4 s p i d)
  then show ?case
    by (auto simp: store_lookup_def tls_get_def tls_set_def deref_def split: option.splits)
qed

section \<open>Merged requirements\<close>

definition required_elems :: "('r \<Rightarrow> 'e set) \<Rightarrow> 'r requirement list \<Rightarrow> data_item_id \<Rightarrow> access_mode \<Rightarrow> 'e set" where
  "required_elems E reqs d m = \<Union> (E ` req_region ` {q \<in> set reqs. req_id q = d \<and> req_mode q = m})"

lemma required_Cons:
  "required_elems E (q # qs) d m = (if req_id q = d \<and> req_mode q = m then E (req_region q) else {}) \<union> required_elems E qs d m"
  by (auto simp: required_elems_def)

lemma required_insert_req:
  assumes "region_ok R E"
  shows "required_elems E (insert_req R cur reqs) d m =
    (if req_id cur = d \<and> req_mode cur = m then E (req_region cur) else {}) \<union> required_elems E reqs d m"
proof (induction reqs)
  case Nil
  show ?case by (simp add: required_Cons)
next
  case (Cons q reqs)
  show ?case
    by (cases "req_id q = req_id cur \<and> req_mode q = req_mode cur")
      (simp_all add: required_Cons Cons region_simps [OF assms] Un_ac)
qed

lemma keys_insert_req:
  "set (map (\<lambda>q. (req_id q, req_mode q)) (insert_req R cur reqs)) =
    insert (req_id cur, req_mode cur) (set (map (\<lambda>q. (req_id q, req_mode q)) reqs))"
proof (induction reqs)
  case (Cons q qs)
  then show ?case by (simp add: insert_commute)
qed simp

lemma distinct_insert_req:
  "distinct (map (\<lambda>q. (req_id q, req_mode q)) reqs) \<Longrightarrow>
    distinct (map (\<lambda>q. (req_id q, req_mode q)) (insert_req R cur reqs))"
proof (induction reqs)
  case (Cons q qs)
  have "(req_id q, req_mode q) \<notin> set (map (\<lambda>q. (req_id q, req_mode q)) (insert_req R cur qs))"
    if "\<not> (req_id q = req_id cur \<and> req_mode q = req_mode cur)"
    using that Cons.prems unfolding keys_insert_req by auto
  with Cons show ?case by (cases "req_id q = req_id cur \<and> req_mode q = req_mode cur") auto
qed simp

section \<open>Shared data along the ranks\<close>

lemma shared_data_f_spec:
  assumes "shared (its 0) = Some d0"
  shows "this_id \<le> fuel \<Longrightarrow> \<exists>d its'. shared_data_f fuel this_id its = Some (d, its') \<and>
    shared (its' this_id) = Some d \<and>
    (\<forall>i. (\<exists>x. shared (its' i) = x \<and> (shared (its i) \<noteq> None \<longrightarrow> x = shared (its i))) \<and>
      exclusive (its' i) = exclusive (its i) \<and> frag (its' i) = frag (its i)) \<and>
    (\<forall>i > this_id. its' i = its i) \<and>
    (\<forall>i. shared (its' i) = shared (its i) \<or> shared (its' i) = Some d)"
proof (induction fuel arbitrary: this_id)
  case 0
  then show ?case using assms by (subst shared_data_f.simps) simp
next
  case (Suc n)
  show ?case
  proof (cases "shared (its this_id)")
    case (Some d)
    then show ?thesis by (subst shared_data_f.simps) simp
  next
    case None
    then have nz: "this_id \<noteq> 0" using assms by (cases this_id) auto
    define up where "up = (this_id - 1) div 2"
    have up: "up < this_id" using nz by (simp add: up_def)
    then have "up \<le> n" using Suc.prems by simp
    then obtain d its1 where IH: "shared_data_f n up its = Some (d, its1)" "shared (its1 up) = Some d"
      "\<forall>i. shared (its i) \<noteq> None \<longrightarrow> shared (its1 i) = shared (its i)"
      "\<forall>i. exclusive (its1 i) = exclusive (its i) \<and> frag (its1 i) = frag (its i)"
      "\<forall>i > up. its1 i = its i" "\<forall>i. shared (its1 i) = shared (its i) \<or> shared (its1 i) = Some d"
      using Suc.IH [of up] by auto
    have "shared (its1 this_id) = None" using IH(5) up None by simp
    then have "shared_data_f (Suc n) this_id its =
        Some (d, its1(this_id := (its1 this_id)\<lparr>shared := Some d\<rparr>))"
      using None nz IH(1) by (subst shared_data_f.simps) (simp add: up_def Let_def)
    then show ?thesis using IH None up by auto
  qed
qed

lemma shared_data_reaches_spec:
  assumes "shared (its 0) = Some d0"
  shows "\<exists>d its'. shared_data this_id its = Some (d, its') \<and> shared (its' this_id) = Some d \<and>
    (\<forall>i. shared (its i) \<noteq> None \<longrightarrow> shared (its' i) = shared (its i)) \<and>
    (\<forall>i. exclusive (its' i) = exclusive (its i) \<and> frag (its' i) = frag (its i))"
  using shared_data_f_spec [where its = its and this_id = this_id and fuel = this_id, OF assms]
  unfolding shared_data_def by fastforce

section \<open>Properties\<close>

text \<open>An item keeps its place: every later lookup of an id, after any other lookups, returns the same
  pointer, through the store or through the thread-local cache, and the item it points to is not
  replaced, provided that each id is only used with its own item type.\<close>

theorem item_lookup_stable:
  assumes "stores_ok ty_of s"
  shows "fst (store_lookup fresh (ty_of d) d
        (item_store.lookups fresh ty_of ds (snd (store_lookup fresh (ty_of d) d s)))) = (ty_of d, d) \<and>
    deref (item_store.lookups fresh ty_of ds (snd (store_lookup fresh (ty_of d) d s))) (ty_of d, d) =
      deref (snd (store_lookup fresh (ty_of d) d s)) (ty_of d, d) \<and>
    deref (snd (store_lookup fresh (ty_of d) d s)) (ty_of d, d) \<noteq> None"
  using item_store.lookup_stable [OF assms, where d = d and ds = ds and fresh = fresh]
    item_store.lookup_ptr [OF assms, where d = d and fresh = fresh]
    item_store.lookup_exists [OF assms, where d = d and fresh = fresh] by simp

theorem item_lookup_stable_witness:
  "deref (item_store.lookups 7 (\<lambda>_. ()) [data_item_id 1 1]
      (snd (store_lookup 7 () (data_item_id 0 1) \<lparr>store_map = (\<lambda>_ _. None), tls_map = (\<lambda>_. None)\<rparr>)))
    ((), data_item_id 0 1) = Some (7 :: nat)"
proof -
  let ?s = "\<lparr>store_map = (\<lambda>_ _. None), tls_map = (\<lambda>_. None)\<rparr> :: (unit, nat) stores"
  have "stores_ok (\<lambda>_. ()) ?s" by (simp add: stores_ok_def)
  from item_lookup_stable [OF this, of 7 "data_item_id 0 1" "[data_item_id 1 1]"]
  show ?thesis by (simp add: deref_def store_lookup_def tls_get_def tls_set_def)
qed

text \<open>Merging requirements loses and invents nothing: for every item and access mode the merged
  requirements ask for the same elements, in a single requirement.\<close>

theorem merge_data_item_reqs_exact:
  assumes "region_ok R E"
  shows "required_elems E (merge_data_item_reqs R reqs) d m = required_elems E reqs d m \<and>
    distinct (map (\<lambda>q. (req_id q, req_mode q)) (merge_data_item_reqs R reqs))"
proof (induction reqs)
  case Nil
  then show ?case by (simp add: merge_data_item_reqs_def)
next
  case (Cons q reqs)
  then show ?case
    by (simp add: merge_data_item_reqs_def required_insert_req [OF assms] required_Cons distinct_insert_req)
qed

theorem merge_data_item_reqs_exact_witness:
  "required_elems mask_elems (merge_data_item_reqs mask_regions
      [createDataItemRequirement mask_regions (data_item_id 0 0) 1 ReadOnly,
       createDataItemRequirement mask_regions (data_item_id 0 0) 6 ReadOnly]) (data_item_id 0 0) ReadOnly =
    mask_elems 1 \<union> mask_elems 6"
  using merge_data_item_reqs_exact [OF mask_regions_ok]
  by (simp add: required_Cons createDataItemRequirement_def) (simp add: required_elems_def)

text \<open>Shared data reaches every rank: once rank 0 has the shared data of an item, shared\_data
  returns at every rank, leaves data that is already there untouched, and keeps what it fetched.\<close>

theorem shared_data_reaches_all:
  assumes "shared (its 0) = Some d0"
  shows "\<exists>d its'. shared_data this_id its = Some (d, its') \<and> shared (its' this_id) = Some d \<and>
    (\<forall>i. shared (its i) \<noteq> None \<longrightarrow> shared (its' i) = shared (its i)) \<and>
    (\<forall>i. exclusive (its' i) = exclusive (its i) \<and> frag (its' i) = frag (its i))"
  using assms by (rule shared_data_reaches_spec)

theorem shared_data_reaches_all_witness:
  "\<exists>d its'. shared_data 6 ((\<lambda>_. new_item mask_regions)
      (0 := (new_item mask_regions)\<lparr>shared := Some (5 :: nat)\<rparr>)) = Some (d, its') \<and> shared (its' 6) = Some d"
  using shared_data_reaches_all [of "(\<lambda>_. new_item mask_regions)
      (0 := (new_item mask_regions)\<lparr>shared := Some (5 :: nat)\<rparr>)" 5 6] by auto

end
