(* ===== verification/Index_Service.thy ===== *)
theory Index_Service
  imports Data_Items
begin

text \<open>
  The distributed index of data items (allscale/data\_item\_manager/index\_service.hpp) and the
  operations on requirements that use it (get\_missing\_regions.hpp, add\_allowance.hpp,
  check\_write\_requirements.hpp, acquire.hpp, task\_requirements.hpp in the same directory).

  Every virtual node of the hierarchy has an index service with an entry for each data item: the
  region full that its subtree manages, and the parts left and right of its children.  An action that
  runs on another locality is the same function at the service of that locality; its locality is the
  id of the service record, and the layer is the one of the target address.  A future is the result
  of a call that has returned (the dataflows run with launch::sync), and each section under the mutex
  of an entry is one step.  None is the error of the runtime: a service that does not exist, an action
  on an invalid id, or a null fragment.
\<close>

section \<open>Entries\<close>

record 'r index_entry =
  full :: 'r
  right_part :: 'r
  left_part :: 'r
  location_cache :: "'r location_info"

definition new_entry :: "'r region_ops \<Rightarrow> 'r index_entry" where
  "new_entry R = \<lparr>full = r_none R, right_part = r_none R, left_part = r_none R, location_cache = []\<rparr>"

definition get_managed_unallocated :: "'r region_ops \<Rightarrow> bool \<Rightarrow> 'r index_entry \<Rightarrow> 'r \<Rightarrow> 'r" where
  "get_managed_unallocated R leaf e region =
    (if leaf then r_none R
     else let allocated = r_merge R (left_part e) (right_part e);
              unallocated = r_diff R (full e) allocated
          in r_inter R region unallocated)"

text \<open>The flag unallocated is the second component of the result; its argument is the value before.\<close>

definition get_missing_region :: "'r region_ops \<Rightarrow> bool \<Rightarrow> 'r index_entry \<Rightarrow> 'r \<Rightarrow> bool \<Rightarrow> 'r \<times> bool" where
  "get_missing_region R leaf e region unallocated =
    (if r_empty R region then (r_none R, unallocated)
     else let managed_unallocated = get_managed_unallocated R leaf e region
          in if \<not> r_empty R managed_unallocated then (managed_unallocated, True)
             else (r_diff R region (full e), False))"

definition check_write_requirement :: "'r region_ops \<Rightarrow> bool \<Rightarrow> 'r index_entry \<Rightarrow> 'r \<Rightarrow> bool" where
  "check_write_requirement R leaf e region = r_empty R (fst (get_missing_region R leaf e region False))"

definition add_full :: "'r region_ops \<Rightarrow> 'r \<Rightarrow> 'r index_entry \<Rightarrow> 'r index_entry" where
  "add_full R region e = (if r_empty R region then e else e\<lparr>full := r_merge R (full e) region\<rparr>)"

definition add_left :: "'r region_ops \<Rightarrow> 'r \<Rightarrow> 'r \<Rightarrow> 'r index_entry \<Rightarrow> 'r \<times> 'r index_entry" where
  "add_left R region required e =
    (let e1 = e\<lparr>full := r_merge R (full e) region\<rparr>;
         missing = r_diff R required (left_part e1)
     in if r_empty R missing then (r_none R, e1)
        else let missing1 = r_diff R (r_inter R missing (full e1)) (right_part e1)
             in (missing1, e1\<lparr>left_part := r_merge R (left_part e1) missing1\<rparr>))"

definition add_right :: "'r region_ops \<Rightarrow> 'r \<Rightarrow> 'r \<Rightarrow> 'r index_entry \<Rightarrow> 'r \<times> 'r index_entry" where
  "add_right R region required e =
    (let e1 = e\<lparr>full := r_merge R (full e) region\<rparr>;
         missing = r_diff R required (right_part e1)
     in if r_empty R missing then (r_none R, e1)
        else let missing1 = r_diff R (r_inter R missing (full e1)) (left_part e1)
             in (missing1, e1\<lparr>right_part := r_merge R (right_part e1) missing1\<rparr>))"

text \<open>The section of acquire\_ownership\_for under the mutex: the part to be collected from the other
  child, what is still missing, and the updated entry.\<close>

definition take_over :: "'r region_ops \<Rightarrow> bool \<Rightarrow> 'r \<Rightarrow> 'r index_entry \<Rightarrow> 'r \<times> 'r \<times> 'r index_entry" where
  "take_over R collect_left missing e =
    (let part = (if collect_left then r_inter R missing (left_part e) else r_inter R missing (right_part e));
         e1 = (if collect_left then e\<lparr>right_part := r_merge R (right_part e) missing\<rparr>
               else e\<lparr>left_part := r_merge R (left_part e) missing\<rparr>);
         missing1 = (if r_empty R part then missing else r_diff R missing part);
         e2 = (if r_empty R part then e1
               else let e' = e1\<lparr>left_part := r_diff R (left_part e1) part,
                               right_part := r_diff R (right_part e1) part\<rparr>
                    in if collect_left then e'\<lparr>right_part := r_merge R (right_part e') part\<rparr>
                       else e'\<lparr>left_part := r_merge R (left_part e') part\<rparr>);
         e3 = (if r_empty R missing1 then e2 else e2\<lparr>full := r_diff R (full e2) missing1\<rparr>)
     in (part, missing1, e3))"

text \<open>The section of collect\_child\_ownerships at a virtual node: the parts to be collected from the left
  and from the right child, and the updated entry.\<close>

definition collect_parts :: "'r region_ops \<Rightarrow> 'r \<Rightarrow> 'r index_entry \<Rightarrow> 'r \<times> 'r \<times> 'r index_entry" where
  "collect_parts R missing e =
    (let part = r_inter R missing (left_part e);
         (lpart, missing1, e1) =
           (if r_empty R part then (r_none R, missing, e)
            else (part, r_diff R missing part,
              e\<lparr>left_part := r_diff R (left_part e) part, full := r_diff R (full e) part\<rparr>));
         part' = r_inter R missing1 (right_part e1)
     in if r_empty R missing1 \<or> r_empty R part' then (lpart, r_none R, e1)
        else (lpart, part',
          e1\<lparr>right_part := r_diff R (right_part e1) part', full := r_diff R (full e1) part'\<rparr>))"

section \<open>Services\<close>

record 'r index_service =
  here :: HierarchyAddress
  parent_node :: HierarchyAddress
  left_node :: HierarchyAddress
  right_node :: HierarchyAddress
  parent_id :: "size_t option"
  right_id :: "size_t option"
  is_root_node :: bool
  entries :: "data_item_id \<rightharpoonup> 'r index_entry"

text \<open>The constructor, on the locality rank (scheduler::rank()) of a network of num ranks.\<close>

definition new_index_service :: "size_t \<Rightarrow> size_t \<Rightarrow> HierarchyAddress \<Rightarrow> 'r index_service option" where
  "new_index_service num rank a =
    map_option
      (\<lambda>root.
        let p = getParent a;
            l = (if isLeaf a then HierarchyAddress 0 0 else getLeftChild a);
            r = (if isLeaf a then HierarchyAddress 0 0
                 else if num \<le> getRank (getRightChild a) then l else getRightChild a)
        in \<lparr>here = a, parent_node = p, left_node = l, right_node = r,
            parent_id = (if getRank p \<noteq> rank then Some (getRank p) else None),
            right_id = (if \<not> isLeaf a \<and> getRank r \<noteq> rank then Some (getRank r) else None),
            is_root_node = (a = root), entries = (\<lambda>_. None)\<rparr>)
      (getRootOfNetworkSize num)"

definition get_entry :: "'r region_ops \<Rightarrow> data_item_id \<Rightarrow> 'r index_service \<Rightarrow> 'r index_entry \<times> 'r index_service" where
  "get_entry R d svc =
    (case entries svc d of
       Some e \<Rightarrow> (e, svc)
     | None \<Rightarrow> (new_entry R, svc\<lparr>entries := (entries svc)(d \<mapsto> new_entry R)\<rparr>))"

definition put_entry :: "data_item_id \<Rightarrow> 'r index_entry \<Rightarrow> 'r index_service \<Rightarrow> 'r index_service" where
  "put_entry d e svc = svc\<lparr>entries := (entries svc)(d \<mapsto> e)\<rparr>"

text \<open>The state of the network: the index services by rank and layer, and the items of the ranks.\<close>

record ('r, 'f, 'd) world =
  services :: "HierarchyAddress \<rightharpoonup> 'r index_service"
  items_of :: "data_item_id \<Rightarrow> ('r, 'f, 'd) items"

definition set_entry ::
    "HierarchyAddress \<Rightarrow> data_item_id \<Rightarrow> 'r index_entry \<Rightarrow> 'r index_service \<Rightarrow> ('r, 'f, 'd) world \<Rightarrow> ('r, 'f, 'd) world" where
  "set_entry a d e svc w = w\<lparr>services := (services w)(a \<mapsto> put_entry d e svc)\<rparr>"

text \<open>The service at which an action runs: on the given locality, or on the own one if the id is
  invalid, at the layer of the address.\<close>

definition target_of :: "size_t option \<Rightarrow> HierarchyAddress \<Rightarrow> HierarchyAddress \<Rightarrow> HierarchyAddress" where
  "target_of loc own addr = HierarchyAddress (case loc of Some r \<Rightarrow> r | None \<Rightarrow> getRank own) (getLayer addr)"

definition merge_infos :: "'r region_ops \<Rightarrow> 'r location_info list \<Rightarrow> 'r location_info" where
  "merge_infos R infos = foldl (\<lambda>info (rank, part). add_part R rank part info) [] (concat infos)"

section \<open>Changing ownership\<close>

text \<open>The leaf case of collect\_child\_ownerships: the rank gives up the region.\<close>

definition collect_leaf ::
    "'r region_ops \<Rightarrow> ('r, 'f, 'x) fragment_ops \<Rightarrow> HierarchyAddress \<Rightarrow> data_item_id \<Rightarrow> 'r \<Rightarrow>
     'r index_service \<Rightarrow> ('r, 'f, 'd) world \<Rightarrow> ('r location_info \<times> ('r, 'f, 'd) world) option" where
  "collect_leaf R FO a d missing svc w =
    (let (e, svc1) = get_entry R d svc;
         w1 = set_entry a d (e\<lparr>full := r_diff R (full e) missing\<rparr>) svc1 w;
         rank = unat (getRank (here svc));
         its = items_of w1 d;
         its1 = its(rank := (its rank)\<lparr>exclusive := r_diff R (exclusive (its rank)) missing\<rparr>)
     in map_option
       (\<lambda>(f, its2).
         (if r_sub R missing (f_covered FO f) then add_part R (getRank (here svc)) missing [] else [],
          w1\<lparr>items_of := (items_of w1)(d := its2)\<rparr>))
       (get_fragment FO rank its1))"

text \<open>collect\_child\_ownerships; the fuel is the layer of the node.\<close>

fun collect_f ::
    "'r region_ops \<Rightarrow> ('r, 'f, 'x) fragment_ops \<Rightarrow> nat \<Rightarrow> HierarchyAddress \<Rightarrow> data_item_id \<Rightarrow> 'r \<Rightarrow>
     ('r, 'f, 'd) world \<Rightarrow> ('r location_info \<times> ('r, 'f, 'd) world) option" where
  "collect_f R FO fuel a d missing w = do {
     svc \<leftarrow> services w a;
     if isLeaf (here svc) then collect_leaf R FO a d missing svc w
     else (case fuel of 0 \<Rightarrow> None | Suc n \<Rightarrow> do {
       let (e, svc1) = get_entry R d svc;
       let (lpart, rpart, e1) = collect_parts R missing e;
       let w1 = set_entry a d e1 svc1 w;
       (rinfo, w2) \<leftarrow>
         (if r_empty R rpart then Some ([], w1)
          else if right_id svc = None then None
          else collect_f R FO n (target_of (right_id svc) a (right_node svc)) d rpart w1);
       (linfo, w3) \<leftarrow>
         (if r_empty R lpart then Some ([], w2)
          else collect_f R FO n (target_of None a (left_node svc)) d lpart w2);
       Some (merge_infos R [rinfo, linfo], w3)})}"

declare collect_f.simps [simp del]

definition collect_child_ownerships ::
    "'r region_ops \<Rightarrow> ('r, 'f, 'x) fragment_ops \<Rightarrow> HierarchyAddress \<Rightarrow> data_item_id \<Rightarrow> 'r \<Rightarrow>
     ('r, 'f, 'd) world \<Rightarrow> ('r location_info \<times> ('r, 'f, 'd) world) option" where
  "collect_child_ownerships R FO a d region w = collect_f R FO (unat (getLayer a)) a d region w"

text \<open>acquire\_ownership\_for at the node a; the fuel bounds the climb to the root, and no network has
  more than 64 layers.\<close>

fun acquire_for_f ::
    "'r region_ops \<Rightarrow> ('r, 'f, 'x) fragment_ops \<Rightarrow> nat \<Rightarrow> HierarchyAddress \<Rightarrow> HierarchyAddress \<Rightarrow> data_item_id \<Rightarrow> 'r \<Rightarrow>
     ('r, 'f, 'd) world \<Rightarrow> ('r location_info \<times> ('r, 'f, 'd) world) option" where
  "acquire_for_f R FO fuel a child d missing w = do {
     svc \<leftarrow> services w a;
     let (e, svc1) = get_entry R d svc;
     let collect_left = (child = right_node svc);
     let (part, missing1, e1) = take_over R collect_left missing e;
     let w1 = set_entry a d e1 svc1 w;
     (pinfo, w2) \<leftarrow>
       (if r_empty R missing1 \<or> is_root_node svc then Some ([], w1)
        else (case fuel of 0 \<Rightarrow> None
          | Suc n \<Rightarrow> acquire_for_f R FO n (target_of (parent_id svc) a (parent_node svc)) (here svc) d missing1 w1));
     (cinfo, w3) \<leftarrow>
       (if r_empty R part then Some ([], w2)
        else collect_child_ownerships R FO
          (if collect_left then target_of None a (left_node svc)
           else target_of (right_id svc) a (right_node svc)) d part w2);
     Some (merge_infos R [pinfo, cinfo], w3)}"

declare acquire_for_f.simps [simp del]

definition acquire_ownership_for ::
    "'r region_ops \<Rightarrow> ('r, 'f, 'x) fragment_ops \<Rightarrow> HierarchyAddress \<Rightarrow> HierarchyAddress \<Rightarrow> data_item_id \<Rightarrow> 'r \<Rightarrow>
     ('r, 'f, 'd) world \<Rightarrow> ('r location_info \<times> ('r, 'f, 'd) world) option" where
  "acquire_ownership_for R FO a child d missing w = acquire_for_f R FO 64 a child d missing w"

definition acquire_ownership ::
    "'r region_ops \<Rightarrow> ('r, 'f, 'x) fragment_ops \<Rightarrow> HierarchyAddress \<Rightarrow> data_item_id \<Rightarrow> 'r \<Rightarrow>
     ('r, 'f, 'd) world \<Rightarrow> ('r location_info \<times> ('r, 'f, 'd) world) option" where
  "acquire_ownership R FO a d missing w = do {
     svc \<leftarrow> services w a;
     let (e, svc1) = get_entry R d svc;
     let w1 = set_entry a d (e\<lparr>full := r_merge R (full e) missing\<rparr>) svc1 w;
     if is_root_node svc then Some ([], w1)
     else acquire_ownership_for R FO (target_of (parent_id svc) a (parent_node svc)) (here svc) d missing w1}"

section \<open>Locating regions\<close>

text \<open>The search in the cache: what is found, and what remains.\<close>

fun search_cache :: "'r region_ops \<Rightarrow> 'r location_info \<Rightarrow> 'r \<Rightarrow> 'r location_info \<Rightarrow> 'r location_info \<times> 'r" where
  "search_cache R [] remaining info = (info, remaining)"
| "search_cache R ((rank, cached) # cs) remaining info =
    (let part = r_inter R remaining cached
     in if r_empty R part then search_cache R cs remaining info
        else (let info1 = add_part R rank part info; remaining1 = r_diff R remaining part
              in if r_empty R remaining1 then (info1, remaining1)
                 else search_cache R cs remaining1 info1))"

text \<open>The first part of locate, under the mutex: the info found here, and the regions to ask the parent,
  the left and the right child for.\<close>

definition locate_here ::
    "'r region_ops \<Rightarrow> HierarchyAddress \<Rightarrow> bool \<Rightarrow> 'r index_entry \<Rightarrow> 'r \<Rightarrow> 'r location_info \<times> 'r \<times> 'r \<times> 'r" where
  "locate_here R a at_root e region =
    (let own = r_inter R region (full e);
         (info1, rem1) = (if isLeaf a \<and> \<not> r_empty R own
           then (add_part R (getRank a) own [], r_diff R region own) else ([], region))
     in if r_empty R rem1 then (info1, r_none R, r_none R, r_none R)
        else (let (info2, rem2) = search_cache R (location_cache e) rem1 info1
              in if r_empty R rem2 then (info2, r_none R, r_none R, r_none R)
                 else if isLeaf a then (info2, if at_root then r_none R else rem2, r_none R, r_none R)
                 else (let rpart = r_inter R rem2 (right_part e);
                           rem3 = (if r_empty R rpart then rem2 else r_diff R rem2 rpart);
                           lpart = r_inter R rem3 (left_part e);
                           rem4 = (if r_empty R lpart then rem3 else r_diff R rem3 lpart)
                       in (info2, if at_root then r_none R else rem4, lpart, rpart))))"

text \<open>locate: the answers are added to the cache and to the own info.  The fuel bounds the number of
  nested calls; the code has no bound.  locate\_reports\_owners in the theory Index\_Runs has a fuel that is enough, for
  regions without elements on their way or managed unallocated; a lookup of an element that is
  managed unallocated below the root goes up and down between two nodes for ever (locate\_never\_returns there).\<close>

fun locate_f ::
    "'r region_ops \<Rightarrow> nat \<Rightarrow> HierarchyAddress \<Rightarrow> data_item_id \<Rightarrow> 'r \<Rightarrow>
     ('r, 'f, 'd) world \<Rightarrow> ('r location_info \<times> ('r, 'f, 'd) world) option" where
  "locate_f R 0 a d region w = None"
| "locate_f R (Suc n) a d region w = do {
     svc \<leftarrow> services w a;
     let (e, svc1) = get_entry R d svc;
     let (info, up, lpart, rpart) = locate_here R (here svc) (is_root_node svc) e region;
     let w1 = set_entry a d e svc1 w;
     (rinfo, w2) \<leftarrow> (if r_empty R rpart then Some ([], w1)
       else locate_f R n (target_of (right_id svc) a (right_node svc)) d rpart w1);
     (linfo, w3) \<leftarrow> (if r_empty R lpart then Some ([], w2)
       else locate_f R n (target_of None a (left_node svc)) d lpart w2);
     (pinfo, w4) \<leftarrow> (if r_empty R up then Some ([], w3)
       else locate_f R n (target_of (parent_id svc) a (parent_node svc)) d up w3);
     svc4 \<leftarrow> services w4 a;
     let (e4, svc5) = get_entry R d svc4;
     let answers = rinfo @ linfo @ pinfo;
     let e5 = e4\<lparr>location_cache := foldl (\<lambda>c (rank, part). add_part R rank part c) (location_cache e4) answers\<rparr>;
     Some (foldl (\<lambda>i (rank, part). add_part R rank part i) info answers, set_entry a d e5 svc5 w4)}"

text \<open>update\_cache on all localities: every local service of every locality.  In the code the localities are told one by
  one, by actions that are started with acquire; here all caches change in one step, before the ownership moves.
  Likewise locate adds the answers to the cache in a continuation, here at the end of its call.  What a lookup finds
  while the updates of a concurrent acquisition are under way is not modelled.\<close>

definition update_caches ::
    "'r region_ops \<Rightarrow> data_item_id \<Rightarrow> 'r \<Rightarrow> size_t \<Rightarrow> ('r, 'f, 'd) world \<Rightarrow> ('r, 'f, 'd) world" where
  "update_caches R d missing new_rank w =
    w\<lparr>services := (\<lambda>a. map_option
      (\<lambda>svc. let (e, svc1) = get_entry R d svc
             in put_entry d (e\<lparr>location_cache := update_info R new_rank missing (location_cache e)\<rparr>) svc1)
      (services w a))\<rparr>"

section \<open>Requirements at a node\<close>

definition entry_at :: "'r region_ops \<Rightarrow> ('r, 'f, 'd) world \<Rightarrow> data_item_id \<Rightarrow> HierarchyAddress \<Rightarrow> 'r index_entry" where
  "entry_at R w d a = (case services w a of Some svc \<Rightarrow> fst (get_entry R d svc) | None \<Rightarrow> new_entry R)"

text \<open>An operation on the entry of the data item d at the local service of the node a.\<close>

definition with_entry ::
    "'r region_ops \<Rightarrow> HierarchyAddress \<Rightarrow> data_item_id \<Rightarrow> ('r index_entry \<Rightarrow> 'b \<times> 'r index_entry) \<Rightarrow>
     ('r, 'f, 'd) world \<Rightarrow> ('b \<times> ('r, 'f, 'd) world) option" where
  "with_entry R a d op w =
    map_option
      (\<lambda>svc. let (e, svc1) = get_entry R d svc; (b, e1) = op e in (b, set_entry a d e1 svc1 w))
      (services w a)"

definition missing_regions_req ::
    "'r region_ops \<Rightarrow> HierarchyAddress \<Rightarrow> 'r requirement \<Rightarrow> ('r, 'f, 'd) world \<Rightarrow>
     ((bool \<times> 'r requirement) \<times> ('r, 'f, 'd) world) option" where
  "missing_regions_req R a req w =
    (if req_mode req = ReadOnly then Some ((False, req), w)
     else with_entry R a (req_id req)
       (\<lambda>e. let (allowance, unallocated) = get_missing_region R (isLeaf a) e (req_region req) False
            in ((unallocated, req\<lparr>req_allowance := allowance\<rparr>), e)) w)"

definition add_allowance_left_req ::
    "'r region_ops \<Rightarrow> HierarchyAddress \<Rightarrow> 'r requirement \<Rightarrow> ('r, 'f, 'd) world \<Rightarrow>
     ('r requirement \<times> ('r, 'f, 'd) world) option" where
  "add_allowance_left_req R a req w =
    (if req_mode req = ReadOnly then Some (req, w)
     else with_entry R a (req_id req)
       (\<lambda>e. let (allowance, e1) = add_left R (req_allowance req) (req_region req) e
            in (req\<lparr>req_allowance := allowance\<rparr>, e1)) w)"

definition add_allowance_right_req ::
    "'r region_ops \<Rightarrow> HierarchyAddress \<Rightarrow> 'r requirement \<Rightarrow> ('r, 'f, 'd) world \<Rightarrow>
     ('r requirement \<times> ('r, 'f, 'd) world) option" where
  "add_allowance_right_req R a req w =
    (if req_mode req = ReadOnly then Some (req, w)
     else with_entry R a (req_id req)
       (\<lambda>e. let (allowance, e1) = add_right R (req_allowance req) (req_region req) e
            in (req\<lparr>req_allowance := allowance\<rparr>, e1)) w)"

text \<open>resize\_fragment: grows the fragment to cover the region and, if exclusive, records it.\<close>

definition resize_fragment ::
    "'r region_ops \<Rightarrow> ('r, 'f, 'x) fragment_ops \<Rightarrow> nat \<Rightarrow> data_item_id \<Rightarrow> 'r \<Rightarrow> bool \<Rightarrow>
     ('r, 'f, 'd) world \<Rightarrow> ('r, 'f, 'd) world option" where
  "resize_fragment R FO rank d region excl w = do {
     (f, its) \<leftarrow> get_fragment FO rank (items_of w d);
     let f1 = (if r_sub R region (f_covered FO f) then f
               else f_resize FO f (r_merge R (f_covered FO f) region));
     let it = (its rank)\<lparr>frag := Some f1\<rparr>;
     let it1 = (if excl then it\<lparr>exclusive := r_merge R (exclusive it) region\<rparr> else it);
     Some (w\<lparr>items_of := (items_of w)(d := its(rank := it1))\<rparr>)}"

definition add_allowance_req ::
    "'r region_ops \<Rightarrow> ('r, 'f, 'x) fragment_ops \<Rightarrow> HierarchyAddress \<Rightarrow> 'r requirement \<Rightarrow>
     ('r, 'f, 'd) world \<Rightarrow> ('r, 'f, 'd) world option" where
  "add_allowance_req R FO a req w =
    (if req_mode req = ReadWrite then do {
       (_, w1) \<leftarrow> with_entry R a (req_id req) (\<lambda>e. ((), add_full R (req_allowance req) e)) w;
       if isLeaf a then resize_fragment R FO (unat (getRank a)) (req_id req) (req_region req) True w1
       else Some w1}
     else do {
       (_, w1) \<leftarrow> with_entry R a (req_id req) (\<lambda>e. ((), e)) w;
       if isLeaf a then resize_fragment R FO (unat (getRank a)) (req_id req) (req_region req) False w1
       else Some w1})"

definition check_write_req ::
    "'r region_ops \<Rightarrow> HierarchyAddress \<Rightarrow> 'r requirement \<Rightarrow> ('r, 'f, 'd) world \<Rightarrow> bool" where
  "check_write_req R a req w =
    (if req_mode req = ReadOnly then True
     else check_write_requirement R (isLeaf a) (entry_at R w (req_id req) a) (req_region req))"

text \<open>The transfer of a part from the rank src to the rank dst.\<close>

definition transfer_part ::
    "'r region_ops \<Rightarrow> ('r, 'f, 'x) fragment_ops \<Rightarrow> data_item_id \<Rightarrow> bool \<Rightarrow> nat \<Rightarrow> nat \<times> 'r \<Rightarrow>
     ('r, 'f, 'd) world \<Rightarrow> ('r, 'f, 'd) world option" where
  "transfer_part R FO d migrate dst part w =
    (let (src, region) = part
     in if src = dst then Some w
        else do {
          (data, src_item) \<leftarrow> view_save R FO region migrate (items_of w d src);
          let its1 = (items_of w d)(src := src_item);
          dst_item \<leftarrow> view_load FO data (its1 dst);
          Some (w\<lparr>items_of := (items_of w)(d := its1(dst := dst_item))\<rparr>)})"

fun transfer_parts ::
    "'r region_ops \<Rightarrow> ('r, 'f, 'x) fragment_ops \<Rightarrow> data_item_id \<Rightarrow> bool \<Rightarrow> nat \<Rightarrow> (nat \<times> 'r) list \<Rightarrow>
     ('r, 'f, 'd) world \<Rightarrow> ('r, 'f, 'd) world option" where
  "transfer_parts R FO d migrate dst [] w = Some w"
| "transfer_parts R FO d migrate dst (p # ps) w = do {
     w1 \<leftarrow> transfer_part R FO d migrate dst p w;
     transfer_parts R FO d migrate dst ps w1}"

definition info_parts :: "'r location_info \<Rightarrow> (nat \<times> 'r) list" where
  "info_parts info = map (\<lambda>(r, p). (unat r, p)) info"

text \<open>acquire for one requirement, at the leaf a.\<close>

definition acquire_req ::
    "'r region_ops \<Rightarrow> ('r, 'f, 'x) fragment_ops \<Rightarrow> nat \<Rightarrow> HierarchyAddress \<Rightarrow> 'r requirement \<Rightarrow>
     ('r, 'f, 'd) world \<Rightarrow> ('r, 'f, 'd) world option" where
  "acquire_req R FO fuel a req w =
    (if req_mode req = ReadWrite then
       (if services w a = None then None
        else let missing = r_diff R (req_region req) (full (entry_at R w (req_id req) a))
        in if r_empty R missing then Some w
           else do {
             (info, w1) \<leftarrow> acquire_ownership R FO a (req_id req) missing
               (update_caches R (req_id req) missing (getRank a) w);
             transfer_parts R FO (req_id req) True (unat (getRank a)) (info_parts info) w1})
     else do {
       (info, w1) \<leftarrow> locate_f R fuel a (req_id req) (req_region req) w;
       transfer_parts R FO (req_id req) False (unat (getRank a)) (info_parts info) w1})"

text \<open>data\_item\_manager::create, on the locality rank.\<close>

definition create_item :: "nat \<Rightarrow> data_item_id \<Rightarrow> 'd \<Rightarrow> ('r, 'f, 'd) world \<Rightarrow> ('r, 'f, 'd) world" where
  "create_item rank d sd w =
    w\<lparr>items_of := (items_of w)(d := (items_of w d)(rank := (items_of w d rank)\<lparr>shared := Some sd\<rparr>))\<rparr>"

section \<open>Task requirements\<close>

text \<open>The requirements of a task, as the list of the requirements in its tuples of vectors.\<close>

record 'r task_requirements =
  split_requirements :: "'r requirement list"
  process_requirements :: "'r requirement list"

fun map_reqs ::
    "('q \<Rightarrow> 'w \<Rightarrow> ('b \<times> 'w) option) \<Rightarrow> 'q list \<Rightarrow> 'w \<Rightarrow> ('b list \<times> 'w) option" where
  "map_reqs op [] w = Some ([], w)"
| "map_reqs op (q # qs) w = do {
     (b, w1) \<leftarrow> op q w;
     (bs, w2) \<leftarrow> map_reqs op qs w1;
     Some (b # bs, w2)}"

definition task_check_write_requirements ::
    "'r region_ops \<Rightarrow> HierarchyAddress \<Rightarrow> 'r task_requirements \<Rightarrow> ('r, 'f, 'd) world \<Rightarrow> bool" where
  "task_check_write_requirements R a tr w = list_all (\<lambda>q. check_write_req R a q w) (process_requirements tr)"

definition task_get_missing_regions ::
    "'r region_ops \<Rightarrow> HierarchyAddress \<Rightarrow> 'r task_requirements \<Rightarrow> ('r, 'f, 'd) world \<Rightarrow>
     (bool \<times> 'r task_requirements \<times> ('r, 'f, 'd) world) option" where
  "task_get_missing_regions R a tr w =
    map_option (\<lambda>(bs, w1). (list_ex fst bs, tr\<lparr>process_requirements := map snd bs\<rparr>, w1))
      (map_reqs (missing_regions_req R a) (process_requirements tr) w)"

definition task_add_allowance ::
    "'r region_ops \<Rightarrow> ('r, 'f, 'x) fragment_ops \<Rightarrow> HierarchyAddress \<Rightarrow> 'r task_requirements \<Rightarrow>
     ('r, 'f, 'd) world \<Rightarrow> ('r, 'f, 'd) world option" where
  "task_add_allowance R FO a tr w =
    map_option snd (map_reqs (\<lambda>q w. map_option (Pair ()) (add_allowance_req R FO a q w)) (process_requirements tr) w)"

definition task_add_allowance_left ::
    "'r region_ops \<Rightarrow> HierarchyAddress \<Rightarrow> 'r task_requirements \<Rightarrow> ('r, 'f, 'd) world \<Rightarrow>
     ('r task_requirements \<times> ('r, 'f, 'd) world) option" where
  "task_add_allowance_left R a tr w =
    map_option (\<lambda>(qs, w1). (tr\<lparr>process_requirements := qs\<rparr>, w1))
      (map_reqs (add_allowance_left_req R a) (process_requirements tr) w)"

definition task_add_allowance_right ::
    "'r region_ops \<Rightarrow> HierarchyAddress \<Rightarrow> 'r task_requirements \<Rightarrow> ('r, 'f, 'd) world \<Rightarrow>
     ('r task_requirements \<times> ('r, 'f, 'd) world) option" where
  "task_add_allowance_right R a tr w =
    map_option (\<lambda>(qs, w1). (tr\<lparr>process_requirements := qs\<rparr>, w1))
      (map_reqs (add_allowance_right_req R a) (process_requirements tr) w)"

definition acquire_reqs ::
    "'r region_ops \<Rightarrow> ('r, 'f, 'x) fragment_ops \<Rightarrow> nat \<Rightarrow> HierarchyAddress \<Rightarrow> 'r requirement list \<Rightarrow>
     ('r, 'f, 'd) world \<Rightarrow> ('r, 'f, 'd) world option" where
  "acquire_reqs R FO fuel a qs w =
    map_option snd (map_reqs (\<lambda>q w. map_option (Pair ()) (acquire_req R FO fuel a q w)) qs w)"

definition task_acquire_split ::
    "'r region_ops \<Rightarrow> ('r, 'f, 'x) fragment_ops \<Rightarrow> nat \<Rightarrow> HierarchyAddress \<Rightarrow> 'r task_requirements \<Rightarrow>
     ('r, 'f, 'd) world \<Rightarrow> ('r, 'f, 'd) world option" where
  "task_acquire_split R FO fuel a tr w = acquire_reqs R FO fuel a (split_requirements tr) w"

definition task_acquire_process ::
    "'r region_ops \<Rightarrow> ('r, 'f, 'x) fragment_ops \<Rightarrow> nat \<Rightarrow> HierarchyAddress \<Rightarrow> 'r task_requirements \<Rightarrow>
     ('r, 'f, 'd) world \<Rightarrow> ('r, 'f, 'd) world option" where
  "task_acquire_process R FO fuel a tr w = acquire_reqs R FO fuel a (process_requirements tr) w"

end
