(* ===== verification/Ownership.thy ===== *)
theory Ownership
  imports Prelude
begin

text \<open>
  The abstract specification of the ownership that the index services of a network of 2^k ranks
  maintain.  The node (l, j) is the j-th virtual node of layer l; its children are (l-1, 2j) and
  (l-1, 2j+1), its parent (l+1, j div 2).  Every node has three sets of elements, the regions full,
  left and right of its index entry.  The theory Index\_Refinement shows that the index service
  implements these operations.
\<close>

record 'e own =
  oF :: "nat \<Rightarrow> nat \<Rightarrow> 'e set"
  oL :: "nat \<Rightarrow> nat \<Rightarrow> 'e set"
  oR :: "nat \<Rightarrow> nat \<Rightarrow> 'e set"

definition upd :: "(nat \<Rightarrow> nat \<Rightarrow> 'a) \<Rightarrow> nat \<Rightarrow> nat \<Rightarrow> 'a \<Rightarrow> nat \<Rightarrow> nat \<Rightarrow> 'a" where
  "upd f l j x = (\<lambda>l' j'. if l' = l \<and> j' = j then x else f l' j')"

lemma upd_apply [simp]: "upd f l j x l' j' = (if l' = l \<and> j' = j then x else f l' j')"
  by (simp add: upd_def)

text \<open>What the subtree of a node holds.\<close>

definition held :: "'e own \<Rightarrow> nat \<Rightarrow> nat \<Rightarrow> 'e set" where
  "held s l j = (if l = 0 then oF s 0 j else oF s l j \<union> oL s l j \<union> oR s l j)"

text \<open>The managed but unallocated part of a virtual node.\<close>

definition unalloc :: "'e own \<Rightarrow> nat \<Rightarrow> nat \<Rightarrow> 'e set" where
  "unalloc s l j = (if l = 0 then {} else oF s l j - (oL s l j \<union> oR s l j))"

section \<open>Operations\<close>

text \<open>A set M leaves the subtree of a node.\<close>

fun own_collect :: "nat \<Rightarrow> nat \<Rightarrow> 'e set \<Rightarrow> 'e own \<Rightarrow> 'e own" where
  "own_collect 0 j M s = s\<lparr>oF := upd (oF s) 0 j (oF s 0 j - M)\<rparr>"
| "own_collect (Suc l) j M s =
    (let p = M \<inter> oL s (Suc l) j; q = (M - p) \<inter> oR s (Suc l) j;
         s1 = s\<lparr>oF := upd (oF s) (Suc l) j (oF s (Suc l) j - p - q),
                oL := upd (oL s) (Suc l) j (oL s (Suc l) j - p),
                oR := upd (oR s) (Suc l) j (oR s (Suc l) j - q)\<rparr>
     in own_collect l (2 * j) p (own_collect l (2 * j + 1) q s1))"

text \<open>A set M moves to the child on the side b (True for the right child) of the node (l+1, j), taken from
  the other child, and where that has none of it from above; n is the number of layers above.\<close>

definition own_take :: "nat \<Rightarrow> nat \<Rightarrow> bool \<Rightarrow> 'e set \<Rightarrow> 'e own \<Rightarrow> 'e own" where
  "own_take l j b M s =
    (let part = M \<inter> (if b then oL s l j else oR s l j)
     in s\<lparr>oF := upd (oF s) l j (oF s l j - (M - part)),
          oL := upd (oL s) l j (if b then oL s l j - part else oL s l j \<union> M),
          oR := upd (oR s) l j (if b then oR s l j \<union> M else oR s l j - part)\<rparr>)"

fun own_acquire_for :: "nat \<Rightarrow> nat \<Rightarrow> nat \<Rightarrow> bool \<Rightarrow> 'e set \<Rightarrow> 'e own \<Rightarrow> 'e own" where
  "own_acquire_for n l j b M s =
    (let part = M \<inter> (if b then oL s (Suc l) j else oR s (Suc l) j);
         s1 = own_take (Suc l) j b M s;
         s2 = (case n of 0 \<Rightarrow> s1 | Suc n' \<Rightarrow> own_acquire_for n' (Suc l) (j div 2) (odd j) (M - part) s1)
     in own_collect l (if b then 2 * j else 2 * j + 1) part s2)"

declare own_acquire_for.simps [simp del]

text \<open>The rank j acquires M.\<close>

definition own_acquire :: "nat \<Rightarrow> nat \<Rightarrow> 'e set \<Rightarrow> 'e own \<Rightarrow> 'e own" where
  "own_acquire k j M s =
    (let s1 = s\<lparr>oF := upd (oF s) 0 j (oF s 0 j \<union> M)\<rparr>
     in case k of 0 \<Rightarrow> s1 | Suc n \<Rightarrow> own_acquire_for n 0 (j div 2) (odd j) M s1)"

definition own_add_full :: "nat \<Rightarrow> nat \<Rightarrow> 'e set \<Rightarrow> 'e own \<Rightarrow> 'e own" where
  "own_add_full l j A s = s\<lparr>oF := upd (oF s) l j (oF s l j \<union> A)\<rparr>"

text \<open>The part of Q granted to the left (right) child of a node that is itself granted A.\<close>

definition left_grant :: "nat \<Rightarrow> nat \<Rightarrow> 'e set \<Rightarrow> 'e set \<Rightarrow> 'e own \<Rightarrow> 'e set" where
  "left_grant l j A Q s = ((Q - oL s l j) \<inter> (oF s l j \<union> A)) - oR s l j"

definition right_grant :: "nat \<Rightarrow> nat \<Rightarrow> 'e set \<Rightarrow> 'e set \<Rightarrow> 'e own \<Rightarrow> 'e set" where
  "right_grant l j A Q s = ((Q - oR s l j) \<inter> (oF s l j \<union> A)) - oL s l j"

definition own_add_left :: "nat \<Rightarrow> nat \<Rightarrow> 'e set \<Rightarrow> 'e set \<Rightarrow> 'e own \<Rightarrow> 'e own" where
  "own_add_left l j A Q s =
    s\<lparr>oF := upd (oF s) l j (oF s l j \<union> A), oL := upd (oL s) l j (oL s l j \<union> left_grant l j A Q s)\<rparr>"

definition own_add_right :: "nat \<Rightarrow> nat \<Rightarrow> 'e set \<Rightarrow> 'e set \<Rightarrow> 'e own \<Rightarrow> 'e own" where
  "own_add_right l j A Q s =
    s\<lparr>oF := upd (oF s) l j (oF s l j \<union> A), oR := upd (oR s) l j (oR s l j \<union> right_grant l j A Q s)\<rparr>"

section \<open>The invariant\<close>

text \<open>fl l j is what has been granted to the node (l, j) by its parent and is still on its way.  While an
  acquisition runs, dbt l j is held by the node but not yet recorded by the parent, and cr l j has
  been taken from the record of the parent but is still held by the node.\<close>

definition side :: "'e own \<Rightarrow> nat \<Rightarrow> nat \<Rightarrow> 'e set" where
  "side s l i = (if odd i then oR s (Suc l) (i div 2) else oL s (Suc l) (i div 2))"

definition own_inv ::
    "nat \<Rightarrow> (nat \<Rightarrow> nat \<Rightarrow> 'e set) \<Rightarrow> (nat \<Rightarrow> nat \<Rightarrow> 'e set) \<Rightarrow> (nat \<Rightarrow> nat \<Rightarrow> 'e set) \<Rightarrow> 'e own \<Rightarrow> bool" where
  "own_inv k fl dbt cr s \<longleftrightarrow>
    (\<forall>l j. l < k \<longrightarrow> j < 2 ^ (k - Suc l) \<longrightarrow> oL s (Suc l) j \<inter> oR s (Suc l) j = {}) \<and>
    (\<forall>l i. l < k \<longrightarrow> i < 2 ^ (k - l) \<longrightarrow> side s l i \<union> dbt l i = (held s l i \<union> fl l i) - cr l i)"

abbreviation none_at :: "nat \<Rightarrow> nat \<Rightarrow> 'e set" where
  "none_at \<equiv> \<lambda>_ _. {}"

text \<open>The node (l', j') is below (l, j).\<close>

definition below :: "nat \<Rightarrow> nat \<Rightarrow> nat \<Rightarrow> nat \<Rightarrow> bool" where
  "below l j l' j' \<longleftrightarrow> l' \<le> l \<and> j' div 2 ^ (l - l') = j"

lemma below_refl [simp]: "below l j l j"
  by (simp add: below_def)

lemma below_child:
  assumes "below l (2 * j + of_bool b) l' j'"
  shows "below (Suc l) j l' j'"
proof -
  have le: "l' \<le> l" and d: "j' div 2 ^ (l - l') = 2 * j + of_bool b" using assms by (auto simp: below_def)
  have "Suc l - l' = Suc (l - l')" using le by simp
  then have "j' div 2 ^ (Suc l - l') = (j' div 2 ^ (l - l')) div 2"
    by (simp only: power_Suc2 div_mult2_eq)
  then show ?thesis using le d by (simp add: below_def)
qed

lemma below_cases:
  assumes "below (Suc l) j l' j'"
  shows "(l' = Suc l \<and> j' = j) \<or> below l (2 * j) l' j' \<or> below l (2 * j + 1) l' j'"
proof (cases "l' = Suc l")
  case True
  then show ?thesis using assms by (simp add: below_def)
next
  case False
  then have le: "l' \<le> l" using assms by (simp add: below_def)
  then have "Suc l - l' = Suc (l - l')" by simp
  then have "j' div 2 ^ (l - l') div 2 = j"
    using assms unfolding below_def by (simp only: power_Suc2 div_mult2_eq)
  then have "j' div 2 ^ (l - l') = 2 * j \<or> j' div 2 ^ (l - l') = 2 * j + 1" by auto
  then show ?thesis using le by (auto simp: below_def)
qed

lemma below_unique: "below l j l' j' \<Longrightarrow> below l i l' j' \<Longrightarrow> i = j"
  by (auto simp: below_def)

lemma below_layer: "below l j l' j' \<Longrightarrow> l' \<le> l"
  by (simp add: below_def)

lemma below_same_layer: "below l j l j' \<longleftrightarrow> j' = j"
  by (simp add: below_def)

text \<open>What collect does: nodes outside of the subtree keep everything, leaves lose elements of M only, and
  no node gets unallocated elements.\<close>

lemma own_collect_outside:
  "\<not> below l j l' j' \<Longrightarrow> oF (own_collect l j M s) l' j' = oF s l' j' \<and>
    oL (own_collect l j M s) l' j' = oL s l' j' \<and> oR (own_collect l j M s) l' j' = oR s l' j'"
proof (induction l arbitrary: j M s)
  case 0
  then show ?case by (auto simp: below_def)
next
  case (Suc l)
  have "\<not> below l (2 * j) l' j'" "\<not> below l (2 * j + 1) l' j'"
    using below_child [of l j False l' j'] below_child [of l j True l' j'] Suc.prems by auto
  moreover have "\<not> (l' = Suc l \<and> j' = j)" using Suc.prems by auto
  ultimately show ?case using Suc.IH by (auto simp: Let_def)
qed

lemma own_collect_leaf:
  "oF s 0 i - M \<subseteq> oF (own_collect l j M s) 0 i \<and> oF (own_collect l j M s) 0 i \<subseteq> oF s 0 i"
proof (induction l arbitrary: j M s)
  case (Suc l)
  define p q where "p = M \<inter> oL s (Suc l) j" and "q = (M - p) \<inter> oR s (Suc l) j"
  define s1 where "s1 = s\<lparr>oF := upd (oF s) (Suc l) j (oF s (Suc l) j - p - q),
    oL := upd (oL s) (Suc l) j (oL s (Suc l) j - p), oR := upd (oR s) (Suc l) j (oR s (Suc l) j - q)\<rparr>"
  have "oF s1 0 i = oF s 0 i" by (simp add: s1_def)
  moreover have "own_collect (Suc l) j M s = own_collect l (2 * j) p (own_collect l (2 * j + 1) q s1)"
    by (simp add: Let_def p_def q_def s1_def)
  ultimately show ?case
    using Suc.IH [where j = "2 * j" and M = p and s = "own_collect l (2 * j + 1) q s1"]
      Suc.IH [where j = "2 * j + 1" and M = q and s = s1]
    by (auto simp: p_def q_def)
qed auto

lemma own_collect_unalloc: "unalloc (own_collect l j M s) l' j' \<subseteq> unalloc s l' j'"
proof (induction l arbitrary: j M s)
  case 0
  then show ?case by (auto simp: unalloc_def)
next
  case (Suc l)
  define p q where "p = M \<inter> oL s (Suc l) j" and "q = (M - p) \<inter> oR s (Suc l) j"
  define s1 where "s1 = s\<lparr>oF := upd (oF s) (Suc l) j (oF s (Suc l) j - p - q),
    oL := upd (oL s) (Suc l) j (oL s (Suc l) j - p), oR := upd (oR s) (Suc l) j (oR s (Suc l) j - q)\<rparr>"
  have "unalloc s1 l' j' \<subseteq> unalloc s l' j'" by (auto simp: unalloc_def s1_def)
  moreover have "own_collect (Suc l) j M s = own_collect l (2 * j) p (own_collect l (2 * j + 1) q s1)"
    by (simp add: Let_def p_def q_def s1_def)
  ultimately show ?case
    using Suc.IH [where j = "2 * j" and M = p and s = "own_collect l (2 * j + 1) q s1"]
      Suc.IH [where j = "2 * j + 1" and M = q and s = s1] by simp
qed

lemma own_invD:
  assumes "own_inv k fl dbt cr s" and "l < k"
  shows "j < 2 ^ (k - Suc l) \<Longrightarrow> oL s (Suc l) j \<inter> oR s (Suc l) j = {}"
    and "i < 2 ^ (k - l) \<Longrightarrow> side s l i \<union> dbt l i = (held s l i \<union> fl l i) - cr l i"
  using assms by (auto simp: own_inv_def)

lemma child_index_less:
  fixes j k l :: nat
  shows "l < k \<Longrightarrow> j < 2 ^ (k - Suc l) \<Longrightarrow> 2 * j + of_bool b < 2 ^ (k - l)"
proof -
  assume "l < k" "j < 2 ^ (k - Suc l)"
  moreover have "k - l = Suc (k - Suc l)" using \<open>l < k\<close> by simp
  then have "(2::nat) ^ (k - l) = 2 * 2 ^ (k - Suc l)" by simp
  ultimately show ?thesis by (cases b) auto
qed

lemma parent_index_less:
  fixes i k l :: nat
  shows "l < k \<Longrightarrow> i < 2 ^ (k - l) \<Longrightarrow> i div 2 < 2 ^ (k - Suc l)"
proof -
  assume "l < k" "i < 2 ^ (k - l)"
  moreover have "k - l = Suc (k - Suc l)" using \<open>l < k\<close> by simp
  then have "(2::nat) ^ (k - l) = 2 * 2 ^ (k - Suc l)" by simp
  ultimately show ?thesis by auto
qed

text \<open>The step of own\_collect at a virtual node: the record of the node is updated and the children get
  the credit.\<close>

lemma collect_step_inv:
  assumes inv: "own_inv k fl dbt (upd cr (Suc l) j M) s"
    and lk: "Suc l \<le> k" and j: "j < 2 ^ (k - Suc l)"
    and fl: "M \<inter> fl (Suc l) j = {}" and dbt: "dbt (Suc l) j = {}" "dbt l (2 * j) = {}" "dbt l (2 * j + 1) = {}"
    and cr: "cr l (2 * j) = {}" "cr l (2 * j + 1) = {}" and un: "M \<inter> unalloc s (Suc l) j = {}"
    and p: "p = M \<inter> oL s (Suc l) j" and q: "q = (M - p) \<inter> oR s (Suc l) j"
    and s1: "s1 = s\<lparr>oF := upd (oF s) (Suc l) j (oF s (Suc l) j - p - q),
      oL := upd (oL s) (Suc l) j (oL s (Suc l) j - p), oR := upd (oR s) (Suc l) j (oR s (Suc l) j - q)\<rparr>"
  shows "own_inv k fl dbt (upd (upd (upd cr (Suc l) j {}) l (2 * j) p) l (2 * j + 1) q) s1"
proof -
  have lk': "l < k" using lk by simp
  have disj: "oL s (Suc l) j \<inter> oR s (Suc l) j = {}" using own_invD(1) [OF inv lk'] j by blast
  have held1: "held s1 (Suc l) j = held s (Suc l) j - M"
    using un disj by (auto simp: held_def unalloc_def s1 p q)
  have held2: "held s1 l' i = held s l' i" if "\<not> (l' = Suc l \<and> i = j)" for l' i
    using that by (auto simp: held_def s1)
  have side2: "side s1 l' i = side s l' i" if "\<not> (l' = l \<and> i div 2 = j)" for l' i
    using that by (auto simp: side_def s1)
  show ?thesis unfolding own_inv_def
  proof (intro conjI allI impI)
    fix l' j' assume "l' < k" "j' < (2::nat) ^ (k - Suc l')"
    then have "oL s (Suc l') j' \<inter> oR s (Suc l') j' = {}" using own_invD(1) [OF inv] by blast
    then show "oL s1 (Suc l') j' \<inter> oR s1 (Suc l') j' = {}" by (auto simp: s1)
  next
    fix l' i assume l': "l' < k" and i: "i < (2::nat) ^ (k - l')"
    have old: "side s l' i \<union> dbt l' i = (held s l' i \<union> fl l' i) - upd cr (Suc l) j M l' i"
      using own_invD(2) [OF inv l' i] .
    consider "l' = Suc l" "i = j" | "l' = l" "i = 2 * j" | "l' = l" "i = 2 * j + 1"
      | "\<not> (l' = Suc l \<and> i = j)" "\<not> (l' = l \<and> i div 2 = j)" by fastforce
    then show "side s1 l' i \<union> dbt l' i =
        (held s1 l' i \<union> fl l' i) - upd (upd (upd cr (Suc l) j {}) l (2 * j) p) l (2 * j + 1) q l' i"
    proof cases
      case 1
      then show ?thesis using old held1 side2 [of l' i] dbt(1) fl by auto
    next
      case 2
      then have "side s l i = oL s (Suc l) j" "side s1 l i = oL s (Suc l) j - p"
        by (simp_all add: side_def s1)
      then show ?thesis using 2 old held2 [of l' i] dbt cr by auto
    next
      case 3
      then have "side s l i = oR s (Suc l) j" "side s1 l i = oR s (Suc l) j - q"
        by (simp_all add: side_def s1)
      then show ?thesis using 3 old held2 [of l' i] dbt cr by auto
    next
      case 4
      then have "\<not> (l' = l \<and> i = 2 * j)" "\<not> (l' = l \<and> i = 2 * j + 1)" by auto
      then show ?thesis using 4 old held2 [of l' i] side2 [of l' i] by auto
    qed
  qed
qed

lemma own_collect_inv:
  "\<lbrakk>l \<le> k; j < 2 ^ (k - l); own_inv k fl dbt (upd cr l j M) s;
    \<forall>l' j'. below l j l' j' \<longrightarrow> M \<inter> fl l' j' = {} \<and> dbt l' j' = {} \<and> M \<inter> unalloc s l' j' = {} \<and>
      (\<not> (l' = l \<and> j' = j) \<longrightarrow> cr l' j' = {})\<rbrakk> \<Longrightarrow>
    own_inv k fl dbt (upd cr l j {}) (own_collect l j M s)"
proof (induction l arbitrary: j M s cr)
  case 0
  have fl: "M \<inter> fl 0 j = {}" and dbt: "dbt 0 j = {}" using 0(4) below_refl by blast+
  have h: "held (own_collect 0 j M s) l' i = (if l' = 0 \<and> i = j then held s l' i - M else held s l' i)" for l' i
    by (simp add: held_def)
  have sd: "side (own_collect 0 j M s) l' i = side s l' i" for l' i by (simp add: side_def)
  show ?case unfolding own_inv_def
  proof (intro conjI allI impI)
    fix l' j' assume "l' < k" "j' < (2::nat) ^ (k - Suc l')"
    then show "oL (own_collect 0 j M s) (Suc l') j' \<inter> oR (own_collect 0 j M s) (Suc l') j' = {}"
      using own_invD(1) [OF 0(3)] by simp
  next
    fix l' i assume "l' < k" "i < (2::nat) ^ (k - l')"
    then have "side s l' i \<union> dbt l' i = (held s l' i \<union> fl l' i) - upd cr 0 j M l' i"
      using own_invD(2) [OF 0(3)] by blast
    then show "side (own_collect 0 j M s) l' i \<union> dbt l' i =
        (held (own_collect 0 j M s) l' i \<union> fl l' i) - upd cr 0 j {} l' i"
      unfolding h sd using fl dbt by (auto split: if_splits)
  qed
next
  case (Suc l)
  define p q where "p = M \<inter> oL s (Suc l) j" and "q = (M - p) \<inter> oR s (Suc l) j"
  define s1 where "s1 = s\<lparr>oF := upd (oF s) (Suc l) j (oF s (Suc l) j - p - q),
    oL := upd (oL s) (Suc l) j (oL s (Suc l) j - p), oR := upd (oR s) (Suc l) j (oR s (Suc l) j - q)\<rparr>"
  have bl: "below (Suc l) j l' j'" if "below l (2 * j) l' j'" for l' j'
    using below_child [of l j False] that by simp
  have br: "below (Suc l) j l' j'" if "below l (2 * j + 1) l' j'" for l' j'
    using below_child [of l j True] that by simp
  have ch: "2 * j < 2 ^ (k - l)" "2 * j + 1 < 2 ^ (k - l)"
    using child_index_less [of l k j False] child_index_less [of l k j True] Suc.prems(1,2) by auto
  have un1: "unalloc s1 l' j' \<subseteq> unalloc s l' j'" for l' j' by (auto simp: unalloc_def s1_def)
  let ?cr1 = "upd (upd cr (Suc l) j {}) l (2 * j) p"
  have inv1: "own_inv k fl dbt (upd ?cr1 l (2 * j + 1) q) s1"
    using Suc.prems(4) bl [OF below_refl] br [OF below_refl]
    by (intro collect_step_inv [OF Suc.prems(3,1,2) _ _ _ _ _ _ _ p_def q_def s1_def]) auto
  have inv2: "own_inv k fl dbt (upd ?cr1 l (2 * j + 1) {}) (own_collect l (2 * j + 1) q s1)"
  proof (rule Suc.IH [OF _ ch(2) inv1])
    show "\<forall>l' j'. below l (2 * j + 1) l' j' \<longrightarrow> q \<inter> fl l' j' = {} \<and> dbt l' j' = {} \<and>
        q \<inter> unalloc s1 l' j' = {} \<and> (\<not> (l' = l \<and> j' = 2 * j + 1) \<longrightarrow> ?cr1 l' j' = {})"
    proof (intro allI impI)
      fix l' j' assume b: "below l (2 * j + 1) l' j'"
      have ne: "\<not> (l' = l \<and> j' = 2 * j)" using b below_same_layer by auto
      have "q \<subseteq> M" by (auto simp: q_def)
      then show "q \<inter> fl l' j' = {} \<and> dbt l' j' = {} \<and> q \<inter> unalloc s1 l' j' = {} \<and>
          (\<not> (l' = l \<and> j' = 2 * j + 1) \<longrightarrow> ?cr1 l' j' = {})"
        using Suc.prems(4) br [OF b] un1 [of l' j'] ne below_layer [OF b] by fastforce
    qed
  qed (use Suc.prems in simp)
  have "upd ?cr1 l (2 * j + 1) {} = upd (upd cr (Suc l) j {}) l (2 * j) p"
    using Suc.prems(4) br [OF below_refl] by (intro ext) auto
  with inv2 have inv2': "own_inv k fl dbt (upd (upd cr (Suc l) j {}) l (2 * j) p) (own_collect l (2 * j + 1) q s1)"
    by simp
  have inv3: "own_inv k fl dbt (upd (upd cr (Suc l) j {}) l (2 * j) {})
      (own_collect l (2 * j) p (own_collect l (2 * j + 1) q s1))"
  proof (rule Suc.IH [OF _ ch(1) inv2'])
    show "\<forall>l' j'. below l (2 * j) l' j' \<longrightarrow> p \<inter> fl l' j' = {} \<and> dbt l' j' = {} \<and>
        p \<inter> unalloc (own_collect l (2 * j + 1) q s1) l' j' = {} \<and>
        (\<not> (l' = l \<and> j' = 2 * j) \<longrightarrow> upd cr (Suc l) j {} l' j' = {})"
    proof (intro allI impI)
      fix l' j' assume b: "below l (2 * j) l' j'"
      have "p \<subseteq> M" by (auto simp: p_def)
      moreover have "unalloc (own_collect l (2 * j + 1) q s1) l' j' \<subseteq> unalloc s l' j'"
        using own_collect_unalloc un1 by (meson order_trans)
      ultimately show "p \<inter> fl l' j' = {} \<and> dbt l' j' = {} \<and>
          p \<inter> unalloc (own_collect l (2 * j + 1) q s1) l' j' = {} \<and>
          (\<not> (l' = l \<and> j' = 2 * j) \<longrightarrow> upd cr (Suc l) j {} l' j' = {})"
        using Suc.prems(4) bl [OF b] below_layer [OF b] by fastforce
    qed
  qed (use Suc.prems in simp)
  have "upd (upd cr (Suc l) j {}) l (2 * j) {} = upd cr (Suc l) j {}"
    using Suc.prems(4) bl [OF below_refl] by (intro ext) auto
  moreover have "own_collect (Suc l) j M s = own_collect l (2 * j) p (own_collect l (2 * j + 1) q s1)"
    unfolding own_collect.simps Let_def p_def q_def s1_def ..
  ultimately show ?case using inv3 by (simp only:)
qed

section \<open>Acquiring ownership\<close>

lemma own_take_same:
  "\<not> (l' = l \<and> j' = j) \<Longrightarrow> oF (own_take l j b M s) l' j' = oF s l' j' \<and>
    oL (own_take l j b M s) l' j' = oL s l' j' \<and> oR (own_take l j b M s) l' j' = oR s l' j'"
  by (auto simp: own_take_def Let_def)

text \<open>The step of own\_acquire\_for at a node: it records what its child c holds, owes that to its own
  parent, and the other child is credited with what it has to give up.\<close>

lemma own_take_inv:
  assumes inv: "own_inv k fl (upd none_at l c M) cr s"
    and lk: "Suc l \<le> k" and j: "j < 2 ^ (k - Suc l)"
    and c: "c = 2 * j + of_bool b" and sib: "sib = 2 * j + of_bool (\<not> b)"
    and cr: "cr (Suc l) j = {}" "cr l c = {}" "cr l sib = {}"
    and part: "part = M \<inter> (if b then oL s (Suc l) j else oR s (Suc l) j)"
  shows "own_inv k fl (upd none_at (Suc l) j (M - part)) (upd cr l sib part) (own_take (Suc l) j b M s)"
proof -
  define s1 where "s1 = own_take (Suc l) j b M s"
  have same: "oF s1 l' j' = oF s l' j'" "oL s1 l' j' = oL s l' j'" "oR s1 l' j' = oR s l' j'"
    if "\<not> (l' = Suc l \<and> j' = j)" for l' j' using own_take_same [OF that] s1_def by metis+
  have at: "oL s1 (Suc l) j = (if b then oL s (Suc l) j - part else oL s (Suc l) j \<union> M)"
      "oR s1 (Suc l) j = (if b then oR s (Suc l) j \<union> M else oR s (Suc l) j - part)"
      "oF s1 (Suc l) j = oF s (Suc l) j - (M - part)"
    by (simp_all add: s1_def own_take_def part Let_def)
  have lk': "l < k" using lk by simp
  have held1: "held s1 (Suc l) j = held s (Suc l) j \<union> M" by (auto simp: held_def at part)
  have held2: "held s1 l' i = held s l' i" if "\<not> (l' = Suc l \<and> i = j)" for l' i
    using same [OF that] by (cases "l' = 0") (simp_all add: held_def)
  have side2: "side s1 l' i = side s l' i" if "\<not> (l' = l \<and> i div 2 = j)" for l' i
    using same [of "Suc l'" "i div 2"] that by (auto simp: side_def)
  have sub: "part \<subseteq> held s (Suc l) j" by (auto simp: held_def part)
  show ?thesis unfolding own_inv_def s1_def [symmetric]
  proof (intro conjI allI impI)
    fix l' j' assume l': "l' < k" "j' < (2::nat) ^ (k - Suc l')"
    have "oL s (Suc l') j' \<inter> oR s (Suc l') j' = {}" using own_invD(1) [OF inv l'] .
    then show "oL s1 (Suc l') j' \<inter> oR s1 (Suc l') j' = {}"
      using same [of "Suc l'" j'] at part by (cases "l' = l \<and> j' = j") (auto split: if_splits)
  next
    fix l' i assume l': "l' < k" and i: "i < (2::nat) ^ (k - l')"
    have old: "side s l' i \<union> upd none_at l c M l' i = (held s l' i \<union> fl l' i) - cr l' i"
      using own_invD(2) [OF inv l' i] .
    consider (up) "l' = Suc l" "i = j" | (child) "l' = l" "i = c" | (other_child) "l' = l" "i = sib"
      | (other) "\<not> (l' = Suc l \<and> i = j)" "\<not> (l' = l \<and> i div 2 = j)"
      using c sib by (cases b) fastforce+
    then show "side s1 l' i \<union> upd none_at (Suc l) j (M - part) l' i =
        (held s1 l' i \<union> fl l' i) - upd cr l sib part l' i"
    proof cases
      case up
      then show ?thesis using old held1 side2 [of l' i] cr sub by auto
    next
      case child
      then have "side s1 l i = side s l i \<union> M"
        using at \<open>c = 2 * j + of_bool b\<close> by (cases b) (simp_all add: side_def)
      moreover have "c \<noteq> sib" using \<open>c = 2 * j + of_bool b\<close> sib by (cases b) auto
      ultimately show ?thesis using child old held2 [of l' i] cr by auto
    next
      case other_child
      then have "side s1 l i = side s l i - part"
        using at \<open>sib = 2 * j + of_bool (\<not> b)\<close> by (cases b) (simp_all add: side_def)
      moreover have "c \<noteq> sib" using \<open>c = 2 * j + of_bool b\<close> \<open>sib = _\<close> by (cases b) auto
      ultimately show ?thesis using other_child old held2 [of l' i] cr by auto
    next
      case other
      then have "i \<noteq> c \<or> l' \<noteq> l" "i \<noteq> sib \<or> l' \<noteq> l"
        using \<open>c = 2 * j + of_bool b\<close> sib by (cases b; auto)+
      then show ?thesis using other old held2 [of l' i] side2 [of l' i] by (auto split: if_splits)
    qed
  qed
qed

lemma own_inv_top: "own_inv k fl (upd none_at k j M) cr s \<longleftrightarrow> own_inv k fl none_at cr s"
  by (simp add: own_inv_def)

lemma below_sibling:
  assumes "below l (2 * j + of_bool b) l' j'" shows "\<not> below l (2 * j + of_bool (\<not> b)) l' j'"
  using assms below_unique [of l "2 * j + of_bool b" l' j' "2 * j + of_bool (\<not> b)"] by (cases b) auto

lemma acquire_credits:
  assumes "\<forall>l' j'. cr l' j' \<noteq> {} \<longrightarrow> below l c l' j' \<and> \<not> (l' = l \<and> j' = c)"
    and "c = 2 * j + of_bool b" and "sib = 2 * j + of_bool (\<not> b)"
  shows "cr (Suc l) j = {}" "cr l c = {}" "cr l sib = {}" "below l sib l' j' \<Longrightarrow> cr l' j' = {}"
    "upd cr l sib p l' j' \<noteq> {} \<Longrightarrow> below (Suc l) j l' j' \<and> \<not> (l' = Suc l \<and> j' = j)"
proof -
  have s: "below l sib l' j' \<Longrightarrow> \<not> below l c l' j'" for l' j'
    using below_sibling [of l j "\<not> b" l' j'] assms(2,3) by simp
  show "cr (Suc l) j = {}" using assms(1) below_layer by (metis not_less_eq_eq order_refl)
  show "cr l c = {}" using assms(1) by blast
  show "cr l sib = {}" "below l sib l' j' \<Longrightarrow> cr l' j' = {}" using assms(1) s below_refl by blast+
  show "below (Suc l) j l' j' \<and> \<not> (l' = Suc l \<and> j' = j)" if "upd cr l sib p l' j' \<noteq> {}"
  proof -
    have "below l sib l' j' \<or> below l c l' j'"
      using that assms(1) by (cases "l' = l \<and> j' = sib") auto
    then have "below (Suc l) j l' j' \<and> l' \<le> l"
      using below_child [of l j "\<not> b"] below_child [of l j b] below_layer assms(2,3) by blast
    then show ?thesis by auto
  qed
qed

text \<open>The last step: the other child gives up its part.\<close>

lemma acquire_finish:
  assumes inv: "own_inv k fl none_at (upd cr l sib part) s2"
    and c: "c = 2 * j + of_bool b" and sib: "sib = 2 * j + of_bool (\<not> b)"
    and part: "part = M \<inter> (if b then oL s (Suc l) j else oR s (Suc l) j)"
    and cr: "\<forall>l' j'. cr l' j' \<noteq> {} \<longrightarrow> below l c l' j' \<and> \<not> (l' = l \<and> j' = c)"
    and fl: "\<forall>l' j'. M \<inter> fl l' j' = {}"
    and un: "\<forall>l' j'. \<not> below l c l' j' \<longrightarrow> M \<inter> unalloc s l' j' = {}"
    and same: "\<forall>l' j'. below (Suc l) j l' j' \<and> \<not> (l' = Suc l \<and> j' = j) \<longrightarrow>
      oF s2 l' j' = oF s l' j' \<and> oL s2 l' j' = oL s l' j' \<and> oR s2 l' j' = oR s l' j'"
    and lk: "Suc l \<le> k" and j: "j < 2 ^ (k - Suc l)"
  shows "own_inv k fl none_at cr (own_collect l sib part s2) \<and>
    (\<forall>l' j'. below l c l' j' \<longrightarrow> oF (own_collect l sib part s2) l' j' = oF s l' j' \<and>
      oL (own_collect l sib part s2) l' j' = oL s l' j' \<and> oR (own_collect l sib part s2) l' j' = oR s l' j')"
proof (intro conjI allI impI)
  have sd: "\<not> below l sib l' j'" if "below l c l' j'" for l' j'
    using below_sibling [of l j b l' j'] that c sib by simp
  have dn: "below (Suc l) j l' j' \<and> \<not> (l' = Suc l \<and> j' = j)" if "below l sib l' j' \<or> below l c l' j'" for l' j'
    using that below_child [of l j b] below_child [of l j "\<not> b"] below_layer [of l _ l' j'] c sib by auto
  have "own_inv k fl none_at (upd cr l sib {}) (own_collect l sib part s2)"
  proof (rule own_collect_inv [OF _ _ inv])
    show "sib < 2 ^ (k - l)" using child_index_less [of l k j "\<not> b"] lk j sib by simp
    show "\<forall>l' j'. below l sib l' j' \<longrightarrow> part \<inter> fl l' j' = {} \<and> none_at l' j' = {} \<and>
        part \<inter> unalloc s2 l' j' = {} \<and> (\<not> (l' = l \<and> j' = sib) \<longrightarrow> cr l' j' = {})"
    proof (intro allI impI)
      fix l' j' assume b: "below l sib l' j'"
      have "below (Suc l) j l' j' \<and> \<not> (l' = Suc l \<and> j' = j)" using dn b by blast
      then have "oF s2 l' j' = oF s l' j' \<and> oL s2 l' j' = oL s l' j' \<and> oR s2 l' j' = oR s l' j'"
        using same by blast
      then have "unalloc s2 l' j' = unalloc s l' j'" by (simp add: unalloc_def)
      moreover have "\<not> below l c l' j'" using sd b by blast
      moreover have "part \<subseteq> M" by (auto simp: part)
      ultimately show "part \<inter> fl l' j' = {} \<and> none_at l' j' = {} \<and> part \<inter> unalloc s2 l' j' = {} \<and>
          (\<not> (l' = l \<and> j' = sib) \<longrightarrow> cr l' j' = {})" using fl un cr by blast
    qed
  qed (use lk in simp)
  moreover have "upd cr l sib {} = cr" using acquire_credits(3) [OF cr c sib] by (intro ext) simp
  ultimately show "own_inv k fl none_at cr (own_collect l sib part s2)" by simp
  fix l' j' assume b: "below l c l' j'"
  note o = own_collect_outside [OF sd [OF b], of part s2]
  show "oF (own_collect l sib part s2) l' j' = oF s l' j'" "oL (own_collect l sib part s2) l' j' = oL s l' j'"
    "oR (own_collect l sib part s2) l' j' = oR s l' j'" using o same dn b by blast+
qed

lemma own_acquire_for_inv:
  "\<lbrakk>k = Suc l + n; j < 2 ^ n; \<forall>l' j'. M \<inter> fl l' j' = {}; c = 2 * j + of_bool b;
    own_inv k fl (upd none_at l c M) cr s;
    \<forall>l' j'. cr l' j' \<noteq> {} \<longrightarrow> below l c l' j' \<and> \<not> (l' = l \<and> j' = c);
    \<forall>l' j'. \<not> below l c l' j' \<longrightarrow> M \<inter> unalloc s l' j' = {}\<rbrakk> \<Longrightarrow>
    own_inv k fl none_at cr (own_acquire_for n l j b M s) \<and>
    (\<forall>l' j'. below l c l' j' \<longrightarrow> oF (own_acquire_for n l j b M s) l' j' = oF s l' j' \<and>
      oL (own_acquire_for n l j b M s) l' j' = oL s l' j' \<and> oR (own_acquire_for n l j b M s) l' j' = oR s l' j')"
proof (induction n arbitrary: l j b M cr s c)
  case (0 l j b M cr s c)
  define part sib where "part = M \<inter> (if b then oL s (Suc l) j else oR s (Suc l) j)"
    and "sib = 2 * j + of_bool (\<not> b)"
  define s1 where "s1 = own_take (Suc l) j b M s"
  have "own_inv k fl (upd none_at (Suc l) j (M - part)) (upd cr l sib part) s1"
    unfolding s1_def
    by (rule own_take_inv [OF 0(5) _ _ 0(4) sib_def acquire_credits(1-3) [OF 0(6,4) sib_def] part_def])
      (use 0(1,2) in simp_all)
  then have inv: "own_inv k fl none_at (upd cr l sib part) s1"
    using 0(1) own_inv_top [of k fl j "M - part" "upd cr l sib part" s1] by simp
  have same: "\<forall>l' j'. below (Suc l) j l' j' \<and> \<not> (l' = Suc l \<and> j' = j) \<longrightarrow>
      oF s1 l' j' = oF s l' j' \<and> oL s1 l' j' = oL s l' j' \<and> oR s1 l' j' = oR s l' j'"
    unfolding s1_def by (intro allI impI own_take_same) blast
  have "sib = (if b then 2 * j else 2 * j + 1)" by (simp add: sib_def)
  then have "own_acquire_for 0 l j b M s = own_collect l sib part s1"
    by (simp only: own_acquire_for.simps [of 0] Let_def part_def s1_def nat.case)
  then show ?case
    using acquire_finish [OF inv 0(4) sib_def part_def 0(6,3,7) same] 0(1,2) by simp
next
  case (Suc n l j b M cr s c)
  define part sib where "part = M \<inter> (if b then oL s (Suc l) j else oR s (Suc l) j)"
    and "sib = 2 * j + of_bool (\<not> b)"
  define s1 where "s1 = own_take (Suc l) j b M s"
  define s2 where "s2 = own_acquire_for n (Suc l) (j div 2) (odd j) (M - part) s1"
  have j: "j < 2 ^ (k - Suc l)" "j div 2 < 2 ^ n" using Suc.prems(1,2) by auto
  have inv1: "own_inv k fl (upd none_at (Suc l) j (M - part)) (upd cr l sib part) s1"
    unfolding s1_def
    by (rule own_take_inv [OF Suc.prems(5) _ j(1) Suc.prems(4) sib_def
        acquire_credits(1-3) [OF Suc.prems(6,4) sib_def] part_def]) (use Suc.prems(1) in simp)
  have un: "\<forall>l' j'. \<not> below (Suc l) j l' j' \<longrightarrow> (M - part) \<inter> unalloc s1 l' j' = {}"
  proof (intro allI impI)
    fix l' j' assume nb: "\<not> below (Suc l) j l' j'"
    then have "unalloc s1 l' j' = unalloc s l' j'"
      using own_take_same [of l' "Suc l" j' j b M s] below_refl by (cases "l' = Suc l \<and> j' = j") (simp_all add: unalloc_def s1_def)
    moreover have "\<not> below l c l' j'" using nb below_child [of l j b] Suc.prems(4) by blast
    ultimately show "(M - part) \<inter> unalloc s1 l' j' = {}" using Suc.prems(7) by blast
  qed
  have IH: "own_inv k fl none_at (upd cr l sib part) s2 \<and>
      (\<forall>l' j'. below (Suc l) j l' j' \<longrightarrow> oF s2 l' j' = oF s1 l' j' \<and> oL s2 l' j' = oL s1 l' j' \<and>
        oR s2 l' j' = oR s1 l' j')"
    unfolding s2_def
  proof (rule Suc.IH [OF _ j(2) _ _ inv1 _ un])
    show "\<forall>l' j'. upd cr l sib part l' j' \<noteq> {} \<longrightarrow> below (Suc l) j l' j' \<and> \<not> (l' = Suc l \<and> j' = j)"
      using acquire_credits(5) [OF Suc.prems(6,4) sib_def] by blast
  qed (use Suc.prems(1,3) in auto)
  have same: "\<forall>l' j'. below (Suc l) j l' j' \<and> \<not> (l' = Suc l \<and> j' = j) \<longrightarrow>
      oF s2 l' j' = oF s l' j' \<and> oL s2 l' j' = oL s l' j' \<and> oR s2 l' j' = oR s l' j'"
    using IH own_take_same [of _ "Suc l" _ j b M s] s1_def by metis
  have "sib = (if b then 2 * j else 2 * j + 1)" by (simp add: sib_def)
  then have "own_acquire_for (Suc n) l j b M s = own_collect l sib part s2"
    by (simp only: own_acquire_for.simps [of "Suc n"] Let_def part_def s1_def s2_def nat.case)
  then show ?case
    using acquire_finish [OF conjunct1 [OF IH] Suc.prems(4) sib_def part_def Suc.prems(6,3,7) same] Suc.prems(1) j
    by simp
qed

lemma own_acquire_for_leaf:
  "oF s 0 i - M \<subseteq> oF (own_acquire_for n l j b M s) 0 i \<and> oF (own_acquire_for n l j b M s) 0 i \<subseteq> oF s 0 i"
proof (induction n arbitrary: l j b M s)
  case 0
  have "oF (own_take (Suc l) j b M s) 0 i = oF s 0 i" using own_take_same [of 0 "Suc l" i j b M s] by simp
  then show ?case
    using own_collect_leaf [of "own_take (Suc l) j b M s" i] by (auto simp: own_acquire_for.simps [of 0] Let_def) blast+
next
  case (Suc n)
  define part where "part = M \<inter> (if b then oL s (Suc l) j else oR s (Suc l) j)"
  define s1 where "s1 = own_take (Suc l) j b M s"
  define s2 where "s2 = own_acquire_for n (Suc l) (j div 2) (odd j) (M - part) s1"
  have "own_acquire_for (Suc n) l j b M s = own_collect l (if b then 2 * j else 2 * j + 1) part s2"
    by (simp only: own_acquire_for.simps [of "Suc n"] Let_def part_def s1_def s2_def nat.case)
  moreover have "oF s1 0 i = oF s 0 i" using own_take_same [of 0 "Suc l" i j b M s] s1_def by simp
  moreover have "part \<subseteq> M" by (auto simp: part_def)
  moreover have "oF s1 0 i - (M - part) \<subseteq> oF s2 0 i \<and> oF s2 0 i \<subseteq> oF s1 0 i"
    unfolding s2_def by (rule Suc.IH)
  ultimately show ?case
    using own_collect_leaf [of s2 i part l "if b then 2 * j else 2 * j + 1"] by auto
qed

section \<open>What the operations keep\<close>

abbreviation good :: "nat \<Rightarrow> (nat \<Rightarrow> nat \<Rightarrow> 'e set) \<Rightarrow> 'e own \<Rightarrow> bool" where
  "good k fl s \<equiv> own_inv k fl none_at none_at s"

lemma own_acquire_good:
  assumes "good k fl s" and j: "j < 2 ^ k" and fl: "\<forall>l' j'. M \<inter> fl l' j' = {}"
    and un: "\<forall>l' j'. M \<inter> unalloc s l' j' = {}"
  shows "good k fl (own_acquire k j M s) \<and>
    oF (own_acquire k j M s) 0 j = oF s 0 j \<union> M \<and>
    (\<forall>i. i \<noteq> j \<longrightarrow> oF s 0 i - M \<subseteq> oF (own_acquire k j M s) 0 i \<and> oF (own_acquire k j M s) 0 i \<subseteq> oF s 0 i)"
proof -
  define s1 where "s1 = s\<lparr>oF := upd (oF s) 0 j (oF s 0 j \<union> M)\<rparr>"
  have h: "held s1 l i = (if l = 0 \<and> i = j then held s l i \<union> M else held s l i)" for l i
    by (simp add: held_def s1_def)
  have sd: "side s1 l i = side s l i" for l i by (simp add: side_def s1_def)
  have inv1: "own_inv k fl (upd none_at 0 j M) none_at s1"
    unfolding own_inv_def
  proof (intro conjI allI impI)
    fix l j' assume "l < k" "j' < (2::nat) ^ (k - Suc l)"
    then show "oL s1 (Suc l) j' \<inter> oR s1 (Suc l) j' = {}" using own_invD(1) [OF assms(1)] by (simp add: s1_def)
  next
    fix l i assume "l < k" "i < (2::nat) ^ (k - l)"
    then have "side s l i \<union> {} = (held s l i \<union> fl l i) - {}" using own_invD(2) [OF assms(1)] by blast
    then show "side s1 l i \<union> upd none_at 0 j M l i = (held s1 l i \<union> fl l i) - {}"
      unfolding h sd by auto
  qed
  have leaf1: "oF s1 0 i = (if i = j then oF s 0 i \<union> M else oF s 0 i)" for i by (simp add: s1_def)
  show ?thesis
  proof (cases k)
    case 0
    then show ?thesis using inv1 leaf1 by (simp add: own_acquire_def s1_def own_inv_def)
  next
    case (Suc n)
    have eq: "own_acquire k j M s = own_acquire_for n 0 (j div 2) (odd j) M s1"
      by (simp add: own_acquire_def Suc Let_def s1_def)
    have "unalloc s1 l' j' = unalloc s l' j'" for l' j' by (simp add: unalloc_def s1_def)
    then have "good k fl (own_acquire_for n 0 (j div 2) (odd j) M s1) \<and>
        (\<forall>l' j'. below 0 j l' j' \<longrightarrow> oF (own_acquire_for n 0 (j div 2) (odd j) M s1) l' j' = oF s1 l' j' \<and>
        oL (own_acquire_for n 0 (j div 2) (odd j) M s1) l' j' = oL s1 l' j' \<and>
        oR (own_acquire_for n 0 (j div 2) (odd j) M s1) l' j' = oR s1 l' j')"
      using j Suc un by (intro own_acquire_for_inv [OF _ _ fl _ inv1]) auto
    then show ?thesis
      unfolding eq using leaf1 own_acquire_for_leaf [of s1 _ M n 0 "j div 2" "odd j"] below_refl by metis
  qed
qed

text \<open>Adding a granted region.  Only the root gets regions that no parent has granted.\<close>

lemma own_grow_good:
  assumes "good k fl s" and A: "l = k \<or> A \<subseteq> fl l j \<union> oF s l j"
  shows "good k (upd fl l j (fl l j - A)) (own_add_full l j A s)"
  unfolding own_inv_def
proof (intro conjI allI impI)
  fix l' j' assume "l' < k" "j' < (2::nat) ^ (k - Suc l')"
  then show "oL (own_add_full l j A s) (Suc l') j' \<inter> oR (own_add_full l j A s) (Suc l') j' = {}"
    using own_invD(1) [OF assms(1)] by (simp add: own_add_full_def)
next
  fix l' i assume l': "l' < k" "i < (2::nat) ^ (k - l')"
  have "side s l' i \<union> {} = (held s l' i \<union> fl l' i) - {}" using own_invD(2) [OF assms(1) l'] .
  moreover have "side (own_add_full l j A s) l' i = side s l' i" by (simp add: side_def own_add_full_def)
  moreover have "held (own_add_full l j A s) l' i = (if l' = l \<and> i = j then held s l' i \<union> A else held s l' i)"
    by (auto simp: held_def own_add_full_def)
  moreover have "oF s l j \<subseteq> held s l j" by (auto simp: held_def)
  ultimately show "side (own_add_full l j A s) l' i \<union> {} =
      (held (own_add_full l j A s) l' i \<union> upd fl l j (fl l j - A) l' i) - {}"
    using A l'(1) by auto
qed

lemma own_add_left_eq:
  "own_add_left l j A Q s = (let s1 = own_add_full l j A s in s1\<lparr>oL := upd (oL s1) l j (oL s1 l j \<union> left_grant l j A Q s)\<rparr>)"
  by (simp add: own_add_left_def own_add_full_def)

lemma own_add_right_eq:
  "own_add_right l j A Q s = (let s1 = own_add_full l j A s in s1\<lparr>oR := upd (oR s1) l j (oR s1 l j \<union> right_grant l j A Q s)\<rparr>)"
  by (simp add: own_add_right_def own_add_full_def)

text \<open>A node hands a part G of what it holds to a child, which has not received it yet.\<close>

lemma grant_left_good:
  assumes "good k fl s" and l: "l < k" and G: "G \<subseteq> oF s (Suc l) j" "G \<inter> oR s (Suc l) j = {}"
  shows "good k (upd fl l (2 * j) (fl l (2 * j) \<union> G)) (s\<lparr>oL := upd (oL s) (Suc l) j (oL s (Suc l) j \<union> G)\<rparr>)"
    (is "good k ?fl ?s")
  unfolding own_inv_def
proof (intro conjI allI impI)
  fix l' j' assume "l' < k" "j' < (2::nat) ^ (k - Suc l')"
  then have "oL s (Suc l') j' \<inter> oR s (Suc l') j' = {}" using own_invD(1) [OF assms(1)] by simp
  then show "oL ?s (Suc l') j' \<inter> oR ?s (Suc l') j' = {}" using G by auto
next
  fix l' i assume l': "l' < k" "i < (2::nat) ^ (k - l')"
  have "side s l' i \<union> {} = (held s l' i \<union> fl l' i) - {}" using own_invD(2) [OF assms(1) l'] .
  moreover have "held ?s l' i = held s l' i" using G by (auto simp: held_def)
  moreover have "side ?s l' i = (if l' = l \<and> i = 2 * j then side s l' i \<union> G else side s l' i)"
    by (auto simp: side_def)
  ultimately show "side ?s l' i \<union> {} = (held ?s l' i \<union> ?fl l' i) - {}" by auto
qed

lemma grant_right_good:
  assumes "good k fl s" and l: "l < k" and G: "G \<subseteq> oF s (Suc l) j" "G \<inter> oL s (Suc l) j = {}"
  shows "good k (upd fl l (2 * j + 1) (fl l (2 * j + 1) \<union> G)) (s\<lparr>oR := upd (oR s) (Suc l) j (oR s (Suc l) j \<union> G)\<rparr>)"
    (is "good k ?fl ?s")
  unfolding own_inv_def
proof (intro conjI allI impI)
  fix l' j' assume "l' < k" "j' < (2::nat) ^ (k - Suc l')"
  then have "oL s (Suc l') j' \<inter> oR s (Suc l') j' = {}" using own_invD(1) [OF assms(1)] by simp
  then show "oL ?s (Suc l') j' \<inter> oR ?s (Suc l') j' = {}" using G by auto
next
  fix l' i assume l': "l' < k" "i < (2::nat) ^ (k - l')"
  have "side s l' i \<union> {} = (held s l' i \<union> fl l' i) - {}" using own_invD(2) [OF assms(1) l'] .
  moreover have "held ?s l' i = held s l' i" using G by (auto simp: held_def)
  moreover have "side ?s l' i = (if l' = l \<and> i = 2 * j + 1 then side s l' i \<union> G else side s l' i)"
    by (auto simp: side_def elim!: oddE)
  ultimately show "side ?s l' i \<union> {} = (held ?s l' i \<union> ?fl l' i) - {}" by auto
qed

section \<open>Exclusive ownership\<close>

text \<open>What a node holds or has been granted is part of the record of every ancestor.\<close>

lemma held_subset_ancestor:
  assumes "good k fl s"
  shows "l + n \<le> k \<Longrightarrow> i < 2 ^ (k - l) \<Longrightarrow> held s l i \<subseteq> held s (l + n) (i div 2 ^ n)"
proof (induction n)
  case (Suc n)
  have j: "i div 2 ^ n < 2 ^ (k - (l + n))"
    using Suc.prems by (simp add: less_mult_imp_div_less flip: power_add)
  have lk: "l + n < k" using Suc.prems by simp
  have "held s l i \<subseteq> held s (l + n) (i div 2 ^ n)" using Suc by simp
  also have "\<dots> \<subseteq> side s (l + n) (i div 2 ^ n)" using own_invD(2) [OF assms lk j] by blast
  also have "\<dots> \<subseteq> held s (Suc (l + n)) (i div 2 ^ n div 2)" by (auto simp: side_def held_def)
  also have "i div 2 ^ n div 2 = i div 2 ^ Suc n" by (simp only: power_Suc2 div_mult2_eq)
  finally show ?case by simp
qed simp

lemma leaves_disjoint:
  assumes g: "good k fl s" and i: "i1 < 2 ^ k" "i2 < 2 ^ k" "i1 \<noteq> i2"
  shows "oF s 0 i1 \<inter> oF s 0 i2 = {}"
proof -
  have ex: "i1 div 2 ^ k = i2 div 2 ^ k" using i by simp
  define l where "l = (LEAST l. i1 div 2 ^ l = i2 div 2 ^ l)"
  have eq: "i1 div 2 ^ l = i2 div 2 ^ l" unfolding l_def by (rule LeastI [of _ k]) (rule ex)
  have lk: "l \<le> k" unfolding l_def by (rule Least_le) (rule ex)
  have "l \<noteq> 0" using eq i(3) by (cases l) auto
  then obtain m where m: "l = Suc m" by (cases l) auto
  have ne: "i1 div 2 ^ m \<noteq> i2 div 2 ^ m"
    using not_less_Least [of m "\<lambda>l. i1 div 2 ^ l = i2 div 2 ^ l"] m l_def by simp
  let ?a = "i1 div 2 ^ m" and ?b = "i2 div 2 ^ m"
  have p: "?a div 2 = ?b div 2" using eq m by (simp add: power_Suc2 div_mult2_eq del: power_Suc)
  have mk: "m < k" using m lk by simp
  have ab: "?a < 2 ^ (k - m)" "?b < 2 ^ (k - m)" using i mk by (simp_all add: less_mult_imp_div_less flip: power_add)
  have "oF s 0 i1 \<subseteq> side s m ?a" "oF s 0 i2 \<subseteq> side s m ?b"
  proof -
    have "oF s 0 i1 \<subseteq> held s m ?a" "oF s 0 i2 \<subseteq> held s m ?b"
      using held_subset_ancestor [OF g, of 0 m i1] held_subset_ancestor [OF g, of 0 m i2] i mk
      by (simp_all add: held_def [of s 0])
    then show "oF s 0 i1 \<subseteq> side s m ?a" "oF s 0 i2 \<subseteq> side s m ?b"
      using own_invD(2) [OF g mk ab(1)] own_invD(2) [OF g mk ab(2)] by blast+
  qed
  moreover have "side s m ?a \<inter> side s m ?b = {}"
  proof -
    have "oL s (Suc m) (?a div 2) \<inter> oR s (Suc m) (?a div 2) = {}"
      using own_invD(1) [OF g mk parent_index_less [OF mk ab(1)]] .
    moreover have "odd ?a \<noteq> odd ?b" using p ne by (metis dvd_mult_div_cancel odd_two_times_div_two_succ)
    ultimately show ?thesis using p by (auto simp: side_def)
  qed
  ultimately show ?thesis by blast
qed

lemma own_empty_good: "good k none_at \<lparr>oF = none_at, oL = none_at, oR = none_at\<rparr>"
  by (simp add: own_inv_def side_def held_def)

lemma own_collect_none: "own_collect l j {} s = s"
proof -
  have u: "upd f l j (f l j) = f" for f :: "nat \<Rightarrow> nat \<Rightarrow> 'e set" and l j by (intro ext) simp
  show ?thesis by (induction l arbitrary: j s) (simp_all add: u Let_def)
qed

lemma own_take_none: "own_take l j b {} s = s"
proof -
  have u: "upd f l j (f l j) = f" for f :: "nat \<Rightarrow> nat \<Rightarrow> 'e set" and l j by (intro ext) simp
  show ?thesis by (simp add: own_take_def Let_def u)
qed

lemma own_acquire_for_none: "own_acquire_for n l j b {} s = s"
  by (induction n arbitrary: l j b s)
    (simp_all add: own_acquire_for.simps [of 0] own_acquire_for.simps [of "Suc _"] Let_def own_take_none own_collect_none)

end
