(* ===== verification/Index_Refinement.thy ===== *)
theory Index_Refinement
  imports Index_Service Ownership Decision_Tree
begin

text \<open>
  The index service implements the ownership specification of the theory Ownership in a network of
  2^k localities, where every virtual node has two children.  The world of all index services is seen
  as the record of what the nodes own, and the recursive calls between the services as the operations
  of the specification.
\<close>

section \<open>The nodes of the network\<close>

definition nd :: "nat \<Rightarrow> nat \<Rightarrow> HierarchyAddress" where
  "nd l j = node_at (j * 2 ^ l) l"

definition in_net :: "nat \<Rightarrow> nat \<Rightarrow> nat \<Rightarrow> bool" where
  "in_net k l j \<longleftrightarrow> l \<le> k \<and> j < 2 ^ (k - l)"

lemma in_net_rank:
  assumes "in_net k l j" and "k \<le> 30"
  shows "j * 2 ^ l < 2 ^ 64" and "j * 2 ^ l < 2 ^ k"
proof -
  have "j * 2 ^ l < 2 ^ (k - l) * 2 ^ l" using assms(1) by (simp add: in_net_def)
  also have "\<dots> = (2::nat) ^ k" using assms(1) by (simp add: in_net_def flip: power_add)
  finally show "j * 2 ^ l < 2 ^ k" .
  moreover have "(2::nat) ^ k \<le> 2 ^ 64" using assms(2) by (intro power_increasing) simp_all
  ultimately show "j * 2 ^ l < 2 ^ 64" by linarith
qed

lemma unat_rank: "n < 2 ^ 64 \<Longrightarrow> unat (word_of_nat n :: size_t) = n"
  by (simp add: unat_of_nat take_bit_nat_eq_self)

lemma nd_simps:
  "getRank (nd l j) = word_of_nat (j * 2 ^ l)" "getLayer (nd l j) = word_of_nat l"
  by (simp_all add: nd_def node_at_def)

lemma unat_rank_nd: "in_net k l j \<Longrightarrow> k \<le> 30 \<Longrightarrow> unat (getRank (nd l j)) = j * 2 ^ l"
  using in_net_rank(1) [of k l j] unat_rank [of "j * 2 ^ l"] by (simp add: nd_simps)

lemma unat_layer_nd: "in_net k l j \<Longrightarrow> k \<le> 30 \<Longrightarrow> unat (getLayer (nd l j)) = l"
  using unat_word_of_nat_layer [of l] by (simp add: in_net_def nd_simps)

lemma nd_inject:
  assumes "in_net k l j" "in_net k l' j'" "k \<le> 30"
  shows "nd l j = nd l' j' \<longleftrightarrow> l = l' \<and> j = j'"
proof
  assume eq: "nd l j = nd l' j'"
  have "l = l'" using unat_layer_nd [OF assms(1,3)] unat_layer_nd [OF assms(2,3)] eq by simp
  moreover have "j * 2 ^ l = j' * 2 ^ l'"
    using unat_rank_nd [OF assms(1,3)] unat_rank_nd [OF assms(2,3)] eq by metis
  ultimately show "l = l' \<and> j = j'" by simp
qed simp

lemma isLeaf_nd: "l < 2 ^ 32 \<Longrightarrow> isLeaf (nd l j) \<longleftrightarrow> l = 0"
  by (simp add: nd_def isLeaf_node_at)

lemma getParent_nd:
  assumes "l < 31"
  shows "getParent (nd l j) = nd (Suc l) (j div 2)"
proof -
  have u: "unat (word_of_nat l :: layer_t) = l" using assms by (simp add: unat_word_of_nat_layer)
  define r p where "r = j * 2 ^ l" and "p = j div 2 * 2 ^ Suc l"
  have "word_of_nat r AND NOT (int_shl1 (word_of_nat l)) = (word_of_nat p :: size_t)"
  proof (rule word_eq_by_bits)
    fix n assume "n < LENGTH(64)"
    then have n: "n < 64" by simp
    have a: "bit r n \<longleftrightarrow> l \<le> n \<and> bit j (n - l)"
      by (simp add: bit_push_bit_iff r_def flip: push_bit_eq_mult)
    have b: "bit p n \<longleftrightarrow> Suc l \<le> n \<and> bit j (Suc (n - Suc l))"
      by (simp only: bit_push_bit_iff bit_Suc p_def flip: push_bit_eq_mult) simp
    have c: "l < n \<Longrightarrow> Suc (n - Suc l) = n - l" by simp
    show "bit (word_of_nat r AND NOT (int_shl1 (word_of_nat l)) :: size_t) n = bit (word_of_nat p :: size_t) n"
      using n assms a b c
      by (cases "n = l") (auto simp: bit_and_iff bit_not_iff bit_int_shl1 u bit_of_nat_iff le_less)
  qed
  then show ?thesis by (simp only: getParent_def nd_def node_at_def r_def p_def HierarchyAddress.sel) simp
qed

lemma getLeftChild_nd: "getLeftChild (nd (Suc l) j) = nd l (2 * j)"
proof -
  have "j * 2 ^ Suc l = 2 * j * 2 ^ l" by simp
  then show ?thesis by (simp only: nd_def left_node_at)
qed

lemma getRightChild_nd: "l < 31 \<Longrightarrow> getRightChild (nd (Suc l) j) = nd l (Suc (2 * j))"
proof -
  assume "l < 31"
  moreover have "j * 2 ^ Suc l + 2 ^ l = (Suc (2 * j)) * 2 ^ l" by (simp add: algebra_simps)
  ultimately show ?thesis by (simp only: nd_def right_node_at)
qed

lemma root_nd:
  assumes "k \<le> 30"
  shows "getRootOfNetworkSize (2 ^ k) = Some (nd k 0)"
proof -
  have u: "unat ((2 :: size_t) ^ k) = 2 ^ k" using assms by (simp add: unat_two_power)
  have "(2 :: nat) ^ k \<le> 2 ^ 31" using assms by (intro power_increasing) simp_all
  then have "(2 :: size_t) ^ k \<le> 2 ^ 31" "(0 :: size_t) < 2 ^ k"
    using u unat_two_power [of 31] by (simp_all add: word_le_nat_alt word_less_nat_alt)
  then obtain n where n: "n \<le> 31" "getRootOfNetworkSize (2 ^ k) = Some (HierarchyAddress 0 (word_of_nat n))"
    "unat ((2 :: size_t) ^ k) \<le> 2 ^ n" "n = 0 \<or> 2 ^ (n - 1) < unat ((2 :: size_t) ^ k)"
    by (rule getRootOfNetworkSize_eq)
  have "k \<le> n" using n(3) u by simp
  moreover have "n = 0 \<or> n - 1 < k" using n(4) u by (simp add: power_strict_increasing_iff)
  ultimately have "n = k" by auto
  then show ?thesis using n(2) by (simp add: nd_def node_at_def)
qed

text \<open>What the constructor of a service computes in such a network.\<close>

definition service_at :: "nat \<Rightarrow> nat \<Rightarrow> nat \<Rightarrow> (data_item_id \<rightharpoonup> 'r index_entry) \<Rightarrow> 'r index_service" where
  "service_at k l j es = \<lparr>here = nd l j, parent_node = nd (Suc l) (j div 2),
    left_node = (if l = 0 then HierarchyAddress 0 0 else nd (l - 1) (2 * j)),
    right_node = (if l = 0 then HierarchyAddress 0 0 else nd (l - 1) (Suc (2 * j))),
    parent_id = (if odd j then Some (getRank (nd (Suc l) (j div 2))) else None),
    right_id = (if l = 0 then None else Some (getRank (nd (l - 1) (Suc (2 * j))))),
    is_root_node = (l = k), entries = es\<rparr>"

lemma new_index_service_nd:
  assumes net: "in_net k l j" and k: "k \<le> 30"
  shows "new_index_service (2 ^ k) (getRank (nd l j)) (nd l j) = Some (service_at k l j (\<lambda>_. None))"
proof -
  have l: "l \<le> 30" "l < 2 ^ 32" using assms by (simp_all add: in_net_def)
  note rk = in_net_rank [OF net k]
  have par: "j div 2 * 2 ^ Suc l \<le> j * 2 ^ l" by (simp flip: mult.assoc)
  then have "unat (getRank (nd (Suc l) (j div 2))) = j div 2 * 2 ^ Suc l"
    unfolding nd_simps using rk(1) by (intro unat_rank) linarith
  have even_iff: "even j \<longleftrightarrow> j div 2 * 2 = j" by (metis dvd_div_mult_self dvd_triv_right)
  from \<open>unat _ = _\<close> have pid: "getRank (nd (Suc l) (j div 2)) \<noteq> getRank (nd l j) \<longleftrightarrow> odd j"
    using unat_rank_nd [OF net k] even_iff by (auto simp: word_unat_eq_iff)
  have root: "nd l j = nd k 0 \<longleftrightarrow> l = k"
    using nd_inject [of k l j k 0] net k by (auto simp: in_net_def)
  have right: "(2::size_t) ^ k \<le> getRank (getRightChild (nd l j)) \<longleftrightarrow> False"
      "getRank (nd (l - 1) (Suc (2 * j))) \<noteq> getRank (nd l j)" if nz: "l \<noteq> 0"
  proof -
    obtain m where m: "l = Suc m" using nz by (cases l) auto
    have "in_net k m (Suc (2 * j))"
      using net child_index_less [of m k j True] by (simp add: in_net_def m)
    note r = in_net_rank [OF this k] unat_rank_nd [OF this k]
    show "(2::size_t) ^ k \<le> getRank (getRightChild (nd l j)) \<longleftrightarrow> False"
      using r k l m getRightChild_nd [of m j] by (simp add: word_le_nat_alt unat_two_power)
    show "getRank (nd (l - 1) (Suc (2 * j))) \<noteq> getRank (nd l j)"
      using r(3) unat_rank_nd [OF net k] m by (auto simp: word_unat_eq_iff algebra_simps)
  qed
  show ?thesis
  proof (cases l)
    case 0
    then show ?thesis
      using root pid getParent_nd [of l j] isLeaf_nd [OF l(2)]
      by (simp add: new_index_service_def root_nd [OF k] Let_def service_at_def)
  next
    case (Suc m)
    then show ?thesis
      using root pid getParent_nd [of l j] isLeaf_nd [OF l(2)] right l getLeftChild_nd [of m j] getRightChild_nd [of m j]
      by (simp add: new_index_service_def root_nd [OF k] Let_def service_at_def)
  qed
qed

section \<open>The world as a record of ownership\<close>

definition tree_world :: "nat \<Rightarrow> ('r, 'f, 'd) world \<Rightarrow> bool" where
  "tree_world k w \<longleftrightarrow> (\<forall>l j. in_net k l j \<longrightarrow> (\<exists>es. services w (nd l j) = Some (service_at k l j es)))"

definition own_of :: "'r region_ops \<Rightarrow> ('r \<Rightarrow> 'e set) \<Rightarrow> nat \<Rightarrow> data_item_id \<Rightarrow> ('r, 'f, 'd) world \<Rightarrow> 'e own" where
  "own_of R E k d w = \<lparr>
    oF = (\<lambda>l j. if in_net k l j then E (full (entry_at R w d (nd l j))) else {}),
    oL = (\<lambda>l j. if in_net k l j then E (left_part (entry_at R w d (nd l j))) else {}),
    oR = (\<lambda>l j. if in_net k l j then E (right_part (entry_at R w d (nd l j))) else {})\<rparr>"

text \<open>What an operation on the item d leaves as it is.\<close>

definition keeps ::
    "'r region_ops \<Rightarrow> ('r \<Rightarrow> 'e set) \<Rightarrow> nat \<Rightarrow> data_item_id \<Rightarrow> ('r, 'f, 'd) world \<Rightarrow> ('r, 'f, 'd) world \<Rightarrow> bool" where
  "keeps R E k d w w' \<longleftrightarrow> tree_world k w' \<and> shared (items_of w' d 0) \<noteq> None \<and>
    (\<forall>d'. d' \<noteq> d \<longrightarrow> items_of w' d' = items_of w d' \<and> own_of R E k d' w' = own_of R E k d' w) \<and>
    (\<forall>d' l j. in_net k l j \<longrightarrow>
      location_cache (entry_at R w' d' (nd l j)) = location_cache (entry_at R w d' (nd l j)))"

lemma keeps_trans: "keeps R E k d w w1 \<Longrightarrow> keeps R E k d w1 w2 \<Longrightarrow> keeps R E k d w w2"
  by (simp add: keeps_def)

lemma keeps_refl: "tree_world k w \<Longrightarrow> shared (items_of w d 0) \<noteq> None \<Longrightarrow> keeps R E k d w w"
  by (simp add: keeps_def)

lemma service_at_sel [simp]:
  "here (service_at k l j es) = nd l j" "parent_node (service_at k l j es) = nd (Suc l) (j div 2)"
  "is_root_node (service_at k l j es) = (l = k)" "entries (service_at k l j es) = es"
  "left_node (service_at k (Suc l) j es) = nd l (2 * j)" "right_node (service_at k (Suc l) j es) = nd l (Suc (2 * j))"
  by (simp_all add: service_at_def)

lemma right_id_service_at: "right_id (service_at k (Suc l) j es) = Some (getRank (nd l (Suc (2 * j))))"
  by (simp add: service_at_def)

lemma target_right: "target_of (right_id (service_at k (Suc l) j es)) a (nd l (Suc (2 * j))) = nd l (Suc (2 * j))"
  by (simp add: right_id_service_at target_of_def HierarchyAddress.expand)

lemma target_left: "target_of None (nd (Suc l) j) (nd l (2 * j)) = nd l (2 * j)"
  by (rule HierarchyAddress.expand) (simp add: target_of_def nd_simps ac_simps)

lemma target_parent:
  "target_of (parent_id (service_at k l j es)) (nd l j) (nd (Suc l) (j div 2)) = nd (Suc l) (j div 2)"
proof (cases "odd j")
  case True
  then show ?thesis by (simp add: target_of_def service_at_def HierarchyAddress.expand)
next
  case False
  then have "(word_of_nat j :: size_t) = word_of_nat (j div 2) * 2" by (metis dvd_div_mult_self of_nat_mult of_nat_numeral)
  with False show ?thesis
    by (intro HierarchyAddress.expand) (simp add: target_of_def service_at_def nd_simps ac_simps)
qed

lemma get_entry_service_at:
  "get_entry R d (service_at k l j es) =
    (case es d of Some e \<Rightarrow> (e, service_at k l j es)
     | None \<Rightarrow> (new_entry R, service_at k l j (es(d \<mapsto> new_entry R))))"
  by (simp add: get_entry_def service_at_def split: option.split)

lemma own_record_eqI:
  "oF s = oF s' \<Longrightarrow> oL s = oL s' \<Longrightarrow> oR s = oR s' \<Longrightarrow> s = (s' :: 'e own)"
  by (cases s, cases s') simp

text \<open>An operation on the entry of a node is an update of the record at that node.\<close>

lemma set_entry_at:
  assumes w: "tree_world k w" and k: "k \<le> 30" and net: "in_net k l j"
    and svc: "services w (nd l j) = Some svc" and e: "get_entry R d svc = (e0, svc1)"
  shows "in_net k l' j' \<Longrightarrow> entry_at R (set_entry (nd l j) d e svc1 w) d' (nd l' j') =
      (if d' = d \<and> l' = l \<and> j' = j then e else entry_at R w d' (nd l' j'))"
    and "tree_world k (set_entry (nd l j) d e svc1 w)"
proof -
  obtain es where es: "svc = service_at k l j es" using w net svc unfolding tree_world_def by fastforce
  let ?w = "set_entry (nd l j) d e svc1 w"
  obtain es' where es': "svc1 = service_at k l j es'" "\<forall>d'. d' \<noteq> d \<longrightarrow> es' d' = es d'"
    using e es by (cases "es d") (auto simp: get_entry_service_at)
  show "entry_at R ?w d' (nd l' j') = (if d' = d \<and> l' = l \<and> j' = j then e else entry_at R w d' (nd l' j'))"
    if n: "in_net k l' j'"
  proof (cases "l' = l \<and> j' = j")
    case True
    then show ?thesis
      using es' es svc by (simp add: entry_at_def set_entry_def put_entry_def get_entry_def split: option.split)
  next
    case False
    then show ?thesis using nd_inject [OF n net k] by (auto simp: entry_at_def set_entry_def)
  qed
  show "tree_world k ?w"
    unfolding tree_world_def
  proof (intro allI impI)
    fix l' j' assume n: "in_net k l' j'"
    have "put_entry d e svc1 = service_at k l j (es'(d \<mapsto> e))"
      using es' by (simp add: put_entry_def service_at_def)
    then show "\<exists>es. services ?w (nd l' j') = Some (service_at k l' j' es)"
      using w n nd_inject [OF n net k] unfolding tree_world_def set_entry_def by auto
  qed
qed

lemma set_entry_sim:
  assumes w: "tree_world k w" and k: "k \<le> 30" and net: "in_net k l j"
    and svc: "services w (nd l j) = Some svc" and e: "get_entry R d svc = (e0, svc1)"
    and sh: "shared (items_of w d 0) \<noteq> None" and lc: "location_cache e = location_cache e0"
  shows "own_of R E k d (set_entry (nd l j) d e svc1 w) = \<lparr>
      oF = upd (oF (own_of R E k d w)) l j (E (full e)),
      oL = upd (oL (own_of R E k d w)) l j (E (left_part e)),
      oR = upd (oR (own_of R E k d w)) l j (E (right_part e))\<rparr>"
    and "keeps R E k d w (set_entry (nd l j) d e svc1 w)"
    and "E (full e0) = oF (own_of R E k d w) l j" "E (left_part e0) = oL (own_of R E k d w) l j"
      "E (right_part e0) = oR (own_of R E k d w) l j"
proof -
  have e0: "entry_at R w d (nd l j) = e0" using svc e by (simp add: entry_at_def)
  then show "E (full e0) = oF (own_of R E k d w) l j" "E (left_part e0) = oL (own_of R E k d w) l j"
      "E (right_part e0) = oR (own_of R E k d w) l j" using net by (simp_all add: own_of_def)
  let ?w = "set_entry (nd l j) d e svc1 w"
  note at = set_entry_at(1) [OF w k net svc e, where e = e]
  show "own_of R E k d ?w = \<lparr>oF = upd (oF (own_of R E k d w)) l j (E (full e)),
      oL = upd (oL (own_of R E k d w)) l j (E (left_part e)),
      oR = upd (oR (own_of R E k d w)) l j (E (right_part e))\<rparr>"
    using net at by (intro own_record_eqI ext) (auto simp: own_of_def)
  have "own_of R E k d' ?w = own_of R E k d' w" if "d' \<noteq> d" for d'
    using at that by (intro own_record_eqI ext) (auto simp: own_of_def)
  moreover have "location_cache (entry_at R ?w d' (nd l' j')) = location_cache (entry_at R w d' (nd l' j'))"
    if "in_net k l' j'" for d' l' j' using at [OF that] lc e0 by auto
  ultimately show "keeps R E k d w ?w"
    using sh set_entry_at(2) [OF w k net svc e] by (simp add: keeps_def set_entry_def)
qed

lemma collect_parts_spec:
  assumes R: "region_ok R E" and c: "collect_parts R m e = (lpart, rpart, e1)"
  shows "E lpart = E m \<inter> E (left_part e)" "E rpart = (E m - E lpart) \<inter> E (right_part e)"
    "E (full e1) = E (full e) - E lpart - E rpart" "E (left_part e1) = E (left_part e) - E lpart"
    "E (right_part e1) = E (right_part e) - E rpart"
proof -
  note simps = region_simps [OF R]
  define p where "p = r_inter R m (left_part e)"
  define m1 where "m1 = (if r_empty R p then m else r_diff R m p)"
  define q where "q = r_inter R m1 (right_part e)"
  have p: "E p = E m \<inter> E (left_part e)" and m1: "E m1 = E m - E p" and q: "E q = E m1 \<inter> E (right_part e)"
    by (auto simp: p_def m1_def q_def simps)
  have eq: "collect_parts R m e =
      (let e' = (if r_empty R p then e else e\<lparr>left_part := r_diff R (left_part e) p, full := r_diff R (full e) p\<rparr>);
           p' = (if r_empty R p then r_none R else p)
       in if r_empty R m1 \<or> r_empty R q then (p', r_none R, e')
          else (p', q, e'\<lparr>right_part := r_diff R (right_part e') q, full := r_diff R (full e') q\<rparr>))"
    by (simp add: collect_parts_def Let_def p_def m1_def q_def)
  let ?f = "if r_empty R p then full e else r_diff R (full e) p"
  have l: "lpart = (if r_empty R p then r_none R else p)"
    and r: "rpart = (if r_empty R m1 \<or> r_empty R q then r_none R else q)"
    and f: "full e1 = (if r_empty R m1 \<or> r_empty R q then ?f else r_diff R ?f q)"
    and le: "left_part e1 = (if r_empty R p then left_part e else r_diff R (left_part e) p)"
    and re: "right_part e1 = (if r_empty R m1 \<or> r_empty R q then right_part e else r_diff R (right_part e) q)"
    using c unfolding eq Let_def by (auto split: if_splits)
  have nil: "E m1 = {} \<Longrightarrow> E q = {}" using q by simp
  have "E lpart = E p" by (simp add: l simps)
  moreover have "E rpart = E q" using nil by (simp add: r simps)
  moreover have "E (full e1) = E (full e) - E p - E q" using nil by (simp add: f simps)
  moreover have "E (left_part e1) = E (left_part e) - E p" by (simp add: le simps)
  moreover have "E (right_part e1) = E (right_part e) - E q" using nil by (simp add: re simps)
  ultimately show "E lpart = E m \<inter> E (left_part e)" "E rpart = (E m - E lpart) \<inter> E (right_part e)"
    "E (full e1) = E (full e) - E lpart - E rpart" "E (left_part e1) = E (left_part e) - E lpart"
    "E (right_part e1) = E (right_part e) - E rpart"
    using p m1 q by simp_all
qed

lemma cache_unchanged:
  "collect_parts R m e = (lpart, rpart, e1) \<Longrightarrow> location_cache e1 = location_cache e"
  "take_over R b m e = (part, m1, e1) \<Longrightarrow> location_cache e1 = location_cache e"
  by (auto simp: collect_parts_def take_over_def Let_def split: if_splits)

lemma take_over_spec:
  assumes R: "region_ok R E" and t: "take_over R b m e = (part, m1, e1)"
  shows "E part = E m \<inter> (if b then E (left_part e) else E (right_part e))" "E m1 = E m - E part"
    "E (full e1) = E (full e) - (E m - E part)"
    "E (left_part e1) = (if b then E (left_part e) - E part else E (left_part e) \<union> E m)"
    "E (right_part e1) = (if b then E (right_part e) \<union> E m else E (right_part e) - E part)"
proof -
  note simps = region_simps [OF R]
  have p: "part = r_inter R m (if b then left_part e else right_part e)"
    and m: "m1 = (if r_empty R part then m else r_diff R m part)"
    and f: "full e1 = (if r_empty R m1 then full e else r_diff R (full e) m1)"
    and l: "left_part e1 = (let x = if b then left_part e else r_merge R (left_part e) m;
        y = r_diff R x part in if r_empty R part then x else if b then y else r_merge R y part)"
    and r: "right_part e1 = (let x = if b then r_merge R (right_part e) m else right_part e;
        y = r_diff R x part in if r_empty R part then x else if b then r_merge R y part else y)"
    using t unfolding take_over_def Let_def by (auto split: if_splits)
  have "E part = E m \<inter> (if b then E (left_part e) else E (right_part e))" by (simp add: p simps)
  moreover have "E m1 = E m - E part" by (simp add: m simps)
  moreover have "E (full e1) = E (full e) - E m1" by (simp add: f simps)
  moreover have "E (left_part e1) = (if b then E (left_part e) - E part else E (left_part e) \<union> E m)"
    using \<open>E part = _\<close> by (auto simp: l simps Let_def)
  moreover have "E (right_part e1) = (if b then E (right_part e) \<union> E m else E (right_part e) - E part)"
    using \<open>E part = _\<close> by (auto simp: r simps Let_def)
  ultimately show "E part = E m \<inter> (if b then E (left_part e) else E (right_part e))" "E m1 = E m - E part"
    "E (full e1) = E (full e) - (E m - E part)"
    "E (left_part e1) = (if b then E (left_part e) - E part else E (left_part e) \<union> E m)"
    "E (right_part e1) = (if b then E (right_part e) \<union> E m else E (right_part e) - E part)" by simp_all
qed

lemma get_fragment_ok:
  assumes "shared (its 0) \<noteq> None"
  shows "\<exists>f its'. get_fragment FO rank its = Some (f, its') \<and> shared (its' 0) \<noteq> None"
proof (cases "frag (its rank)")
  case None
  obtain d0 where "shared (its 0) = Some d0" using assms by auto
  then obtain d its1 where s: "shared_data rank its = Some (d, its1)" "shared (its1 0) = Some d0" "frag (its1 rank) = None"
    using shared_data_reaches_spec [of its d0 rank] None by auto
  then show ?thesis using None by (auto simp: get_fragment_def)
qed (use assms in \<open>simp add: get_fragment_def\<close>)

section \<open>The operations implement the specification\<close>

lemma tree_worldD: "tree_world k w \<Longrightarrow> in_net k l j \<Longrightarrow> \<exists>es. services w (nd l j) = Some (service_at k l j es)"
  by (simp add: tree_world_def)

lemma own_of_items [simp]: "own_of R E k d (w\<lparr>items_of := its\<rparr>) = own_of R E k d w"
  by (intro own_record_eqI ext) (auto simp: own_of_def entry_at_def)

lemma entry_at_items [simp]: "entry_at R (w\<lparr>items_of := its\<rparr>) d a = entry_at R w d a"
  by (simp add: entry_at_def)

lemma tree_world_items [simp]: "tree_world k (w\<lparr>items_of := its\<rparr>) = tree_world k w"
  by (simp add: tree_world_def)

lemma collect_leaf_sim:
  assumes R: "region_ok R E" and k: "k \<le> 30" and net: "in_net k 0 j" and w: "tree_world k w"
    and sh: "shared (items_of w d 0) \<noteq> None" and svc: "services w (nd 0 j) = Some svc"
  shows "\<exists>info w'. collect_leaf R FO (nd 0 j) d m svc w = Some (info, w') \<and>
    own_of R E k d w' = own_collect 0 j (E m) (own_of R E k d w) \<and> keeps R E k d w w'"
proof -
  obtain e svc1 where e: "get_entry R d svc = (e, svc1)" by (cases "get_entry R d svc")
  define w1 where "w1 = set_entry (nd 0 j) d (e\<lparr>full := r_diff R (full e) m\<rparr>) svc1 w"
  have lc: "location_cache (e\<lparr>full := r_diff R (full e) m\<rparr>) = location_cache e" by simp
  note s = set_entry_sim [where E = E and R = R, OF w k net svc e sh lc]
  have u: "upd f l j (f l j) = f" for f :: "nat \<Rightarrow> nat \<Rightarrow> 'b set" and l j by (intro ext) simp
  have own1: "own_of R E k d w1 = own_collect 0 j (E m) (own_of R E k d w)"
    unfolding w1_def s(1) by (intro own_record_eqI) (simp_all add: s(3-5) region_simps [OF R] u del: upd_apply)
  have kp: "keeps R E k d w w1" unfolding w1_def by (rule s(2))
  define rank where "rank = unat (getRank (here svc))"
  define its1 where "its1 = (items_of w1 d)(rank := (items_of w1 d rank)\<lparr>exclusive := r_diff R (exclusive (items_of w1 d rank)) m\<rparr>)"
  have "shared (its1 0) \<noteq> None" using kp by (simp add: its1_def keeps_def)
  then obtain f its2 where f: "get_fragment FO rank its1 = Some (f, its2)" "shared (its2 0) \<noteq> None"
    using get_fragment_ok [of its1 FO rank] by auto
  let ?w = "w1\<lparr>items_of := (items_of w1)(d := its2)\<rparr>"
  have "keeps R E k d w1 ?w" using kp f(2) by (simp add: keeps_def)
  then have "keeps R E k d w ?w" using kp keeps_trans by blast
  moreover have "own_of R E k d ?w = own_collect 0 j (E m) (own_of R E k d w)" using own1 by simp
  moreover have "\<exists>info. collect_leaf R FO (nd 0 j) d m svc w = Some (info, ?w)"
    using f(1) by (simp add: collect_leaf_def Let_def e flip: w1_def rank_def its1_def)
  ultimately show ?thesis by blast
qed

lemma in_net_child: "in_net k (Suc l) j \<Longrightarrow> in_net k l (2 * j) \<and> in_net k l (Suc (2 * j))"
  using child_index_less [of l k j False] child_index_less [of l k j True] by (simp add: in_net_def)

lemma in_net_parent: "in_net k l j \<Longrightarrow> l < k \<Longrightarrow> in_net k (Suc l) (j div 2)"
  using parent_index_less [of l k j] by (simp add: in_net_def)

lemma collect_f_node:
  assumes "l < 30" and "services w (nd (Suc l) j) = Some (service_at k (Suc l) j es)"
    and "get_entry R d (service_at k (Suc l) j es) = (e, svc1)" and "collect_parts R m e = (lp, rp, e1)"
  shows "collect_f R FO (Suc l) (nd (Suc l) j) d m w = do {
    (rinfo, w2) \<leftarrow> (if r_empty R rp then Some ([], set_entry (nd (Suc l) j) d e1 svc1 w)
      else collect_f R FO l (nd l (Suc (2 * j))) d rp (set_entry (nd (Suc l) j) d e1 svc1 w));
    (linfo, w3) \<leftarrow> (if r_empty R lp then Some ([], w2) else collect_f R FO l (nd l (2 * j)) d lp w2);
    Some (merge_infos R [rinfo, linfo], w3)}"
proof -
  have "\<not> isLeaf (nd (Suc l) j)" using assms(1) isLeaf_nd [of "Suc l" j] by simp
  moreover have r: "(right_id (service_at k (Suc l) j es) = None) = False" by (simp add: right_id_service_at)
  ultimately show ?thesis
    using assms(2-4) by (subst collect_f.simps) (simp add: target_right target_left r)
qed

lemma collect_sim:
  assumes R: "region_ok R E" and k: "k \<le> 30"
  shows "\<lbrakk>in_net k l j; tree_world k w; shared (items_of w d 0) \<noteq> None\<rbrakk> \<Longrightarrow>
    \<exists>info w'. collect_f R FO l (nd l j) d m w = Some (info, w') \<and>
      own_of R E k d w' = own_collect l j (E m) (own_of R E k d w) \<and> keeps R E k d w w'"
proof (induction l arbitrary: j m w)
  case 0
  obtain es where es: "services w (nd 0 j) = Some (service_at k 0 j es)" using tree_worldD [OF 0(2,1)] by blast
  then show ?case
    using collect_leaf_sim [OF R k 0(1,2,3) es] by (simp add: collect_f.simps isLeaf_nd)
next
  case (Suc l)
  note net = Suc.prems(1) and w = Suc.prems(2) and sh = Suc.prems(3)
  have l30: "l < 30" using net k by (simp add: in_net_def)
  obtain es where es: "services w (nd (Suc l) j) = Some (service_at k (Suc l) j es)"
    using tree_worldD [OF w net] by blast
  define svc where "svc = service_at k (Suc l) j es"
  obtain e svc1 where e: "get_entry R d svc = (e, svc1)" by (cases "get_entry R d svc")
  obtain lp rp e1 where c: "collect_parts R m e = (lp, rp, e1)" by (cases "collect_parts R m e")
  note cs = collect_parts_spec [OF R c]
  define w1 where "w1 = set_entry (nd (Suc l) j) d e1 svc1 w"
  note s = set_entry_sim [where E = E and R = R, OF w k net es [folded svc_def] e sh cache_unchanged(1) [OF c]]
  let ?s = "own_of R E k d w"
  define p q where "p = E m \<inter> oL ?s (Suc l) j" and "q = (E m - p) \<inter> oR ?s (Suc l) j"
  define s1 where "s1 = ?s\<lparr>oF := upd (oF ?s) (Suc l) j (oF ?s (Suc l) j - p - q),
    oL := upd (oL ?s) (Suc l) j (oL ?s (Suc l) j - p), oR := upd (oR ?s) (Suc l) j (oR ?s (Suc l) j - q)\<rparr>"
  have pq: "E lp = p" "E rp = q" using cs(1,2) s(3-5) by (simp_all add: p_def q_def)
  have own1: "own_of R E k d w1 = s1"
    unfolding w1_def s(1) s1_def by (intro own_record_eqI) (simp_all add: cs(3-5) s(3-5) pq)
  have k1: "keeps R E k d w w1" unfolding w1_def by (rule s(2))
  then have w1: "tree_world k w1" "shared (items_of w1 d 0) \<noteq> None" by (simp_all add: keeps_def)
  note ch = in_net_child [OF net]
  obtain rinfo w2 where r: "(if r_empty R rp then Some ([], w1)
      else collect_f R FO l (nd l (Suc (2 * j))) d rp w1) = Some (rinfo, w2)"
      "own_of R E k d w2 = own_collect l (Suc (2 * j)) q s1" "keeps R E k d w1 w2"
  proof (cases "r_empty R rp")
    case True
    then have "q = {}" using pq by (simp add: region_simps [OF R])
    then show ?thesis using True keeps_refl [OF w1] own1 by (intro that [of "[]" w1]) (simp_all add: own_collect_none)
  next
    case False
    then show ?thesis using Suc.IH [OF conjunct2 [OF ch] w1, of rp] that pq own1 by auto
  qed
  then have w2: "tree_world k w2" "shared (items_of w2 d 0) \<noteq> None" by (simp_all add: keeps_def)
  obtain linfo w3 where lf: "(if r_empty R lp then Some ([], w2)
      else collect_f R FO l (nd l (2 * j)) d lp w2) = Some (linfo, w3)"
      "own_of R E k d w3 = own_collect l (2 * j) p (own_collect l (Suc (2 * j)) q s1)" "keeps R E k d w2 w3"
  proof (cases "r_empty R lp")
    case True
    then have "p = {}" using pq by (simp add: region_simps [OF R])
    then show ?thesis using True keeps_refl [OF w2] r by (intro that [of "[]" w2]) (simp_all add: own_collect_none)
  next
    case False
    then show ?thesis using Suc.IH [OF conjunct1 [OF ch] w2, of lp] that pq r by auto
  qed
  have "collect_f R FO (Suc l) (nd (Suc l) j) d m w = Some (merge_infos R [rinfo, linfo], w3)"
    by (simp only: collect_f_node [OF l30 es e [unfolded svc_def] c, of FO] w1_def [symmetric] r(1) lf(1)
      Option.bind.simps prod.case)
  moreover have "own_of R E k d w3 = own_collect (Suc l) j (E m) ?s"
    unfolding lf(2) own_collect.simps Let_def p_def q_def s1_def by (simp del: upd_apply)
  moreover have "keeps R E k d w w3" using k1 r(3) lf(3) keeps_trans by blast
  ultimately show ?case by blast
qed

lemma acquire_for_node:
  assumes "services w (nd (Suc l) j) = Some (service_at k (Suc l) j es)"
    and "get_entry R d (service_at k (Suc l) j es) = (e, svc1)" and "b \<longleftrightarrow> child = nd l (Suc (2 * j))"
    and "take_over R b m e = (part, m1, e1)" and rt: "rt \<longleftrightarrow> Suc l = k"
  shows "acquire_for_f R FO fuel (nd (Suc l) j) child d m w = do {
     (pinfo, w2) \<leftarrow>
       (if r_empty R m1 \<or> rt then Some ([], set_entry (nd (Suc l) j) d e1 svc1 w)
        else (case fuel of 0 \<Rightarrow> None
          | Suc n \<Rightarrow> acquire_for_f R FO n (nd (Suc (Suc l)) (j div 2)) (nd (Suc l) j) d m1
              (set_entry (nd (Suc l) j) d e1 svc1 w)));
     (cinfo, w3) \<leftarrow>
       (if r_empty R part then Some ([], w2)
        else collect_child_ownerships R FO (nd l (if b then 2 * j else Suc (2 * j))) d part w2);
     Some (merge_infos R [pinfo, cinfo], w3)}"
  using assms(1,2,4) target_parent [of k "Suc l" j es]
  by (cases fuel; subst acquire_for_f.simps) (simp_all add: assms(3) target_right target_left flip: rt)

lemma acquire_for_sim:
  assumes R: "region_ok R E" and k: "k \<le> 30"
  shows "\<lbrakk>k = Suc l + n; n \<le> fuel; j < 2 ^ n; tree_world k w; shared (items_of w d 0) \<noteq> None\<rbrakk> \<Longrightarrow>
    \<exists>info w'. acquire_for_f R FO fuel (nd (Suc l) j) (nd l (2 * j + of_bool b)) d m w = Some (info, w') \<and>
      own_of R E k d w' = own_acquire_for n l j b (E m) (own_of R E k d w) \<and> keeps R E k d w w'"
proof (induction n arbitrary: l j b m w fuel rule: less_induct)
  case (less n l j b m w fuel)
  note w = less.prems(4) and sh = less.prems(5)
  have net: "in_net k (Suc l) j" using less.prems(1,3) by (simp add: in_net_def)
  note ch = in_net_child [OF net]
  obtain es where es: "services w (nd (Suc l) j) = Some (service_at k (Suc l) j es)"
    using tree_worldD [OF w net] by blast
  obtain e svc1 where e: "get_entry R d (service_at k (Suc l) j es) = (e, svc1)"
    by (cases "get_entry R d (service_at k (Suc l) j es)")
  obtain part m1 e1 where t: "take_over R b m e = (part, m1, e1)" by (cases "take_over R b m e")
  note ts = take_over_spec [OF R t]
  have b: "b \<longleftrightarrow> nd l (2 * j + of_bool b) = nd l (Suc (2 * j))"
    using nd_inject [OF conjunct1 [OF ch] conjunct2 [OF ch] k] by (cases b) auto
  let ?s = "own_of R E k d w" and ?M = "E m"
  define w1 where "w1 = set_entry (nd (Suc l) j) d e1 svc1 w"
  note s = set_entry_sim [where E = E and R = R, OF w k net es e sh cache_unchanged(2) [OF t]]
  define p where "p = ?M \<inter> (if b then oL ?s (Suc l) j else oR ?s (Suc l) j)"
  define s1 where "s1 = own_take (Suc l) j b ?M ?s"
  define s2 where "s2 = (case n of 0 \<Rightarrow> s1 | Suc n' \<Rightarrow> own_acquire_for n' (Suc l) (j div 2) (odd j) (?M - p) s1)"
  have pm: "E part = p" "E m1 = ?M - p" using ts(1,2) s(3-5) by (auto simp: p_def)
  have own1: "own_of R E k d w1 = s1"
    unfolding w1_def s(1) s1_def own_take_def Let_def
    by (intro own_record_eqI) (use ts(3-5) s(3-5) pm in \<open>simp_all add: p_def\<close>)
  have k1: "keeps R E k d w w1" unfolding w1_def by (rule s(2))
  then have w1: "tree_world k w1" "shared (items_of w1 d 0) \<noteq> None" by (simp_all add: keeps_def)
  obtain pinfo w2 where up: "(if r_empty R m1 \<or> Suc l = k then Some ([], w1)
        else (case fuel of 0 \<Rightarrow> None
          | Suc f \<Rightarrow> acquire_for_f R FO f (nd (Suc (Suc l)) (j div 2)) (nd (Suc l) j) d m1 w1)) = Some (pinfo, w2)"
      "own_of R E k d w2 = s2" "keeps R E k d w1 w2"
  proof (cases "r_empty R m1 \<or> Suc l = k")
    case True
    then have "s2 = s1"
    proof
      assume "r_empty R m1"
      then have "?M - p = {}" using pm by (simp add: region_simps [OF R])
      then show ?thesis by (cases n) (simp_all only: s2_def own_acquire_for_none nat.case)
    qed (use less.prems(1) in \<open>simp add: s2_def\<close>)
    then show ?thesis using True keeps_refl [OF w1] own1 by (intro that [of "[]" w1]) auto
  next
    case False
    then obtain n' where n': "n = Suc n'" using less.prems(1) by (cases n) auto
    obtain f where f: "fuel = Suc f" using n' less.prems(2) by (cases fuel) auto
    have "2 * (j div 2) + of_bool (odd j) = j" by (cases "odd j") (auto elim: oddE)
    then have "\<exists>info w'. acquire_for_f R FO f (nd (Suc (Suc l)) (j div 2)) (nd (Suc l) j) d m1 w1 = Some (info, w') \<and>
        own_of R E k d w' = own_acquire_for n' (Suc l) (j div 2) (odd j) (E m1) (own_of R E k d w1) \<and> keeps R E k d w1 w'"
      using less.IH [of n' "Suc l" f "j div 2" w1 "odd j" m1] n' f less.prems(1-3) w1 by simp
    then show ?thesis using False f n' that own1 pm by (auto simp: s2_def)
  qed
  then have w2: "tree_world k w2" "shared (items_of w2 d 0) \<noteq> None" by (simp_all add: keeps_def)
  let ?c = "if b then 2 * j else Suc (2 * j)"
  have cnet: "in_net k l ?c" using ch by simp
  have lay: "unat (getLayer (nd l ?c)) = l" using unat_layer_nd [OF cnet k] .
  obtain cinfo w3 where dn: "(if r_empty R part then Some ([], w2)
        else collect_child_ownerships R FO (nd l ?c) d part w2) = Some (cinfo, w3)"
      "own_of R E k d w3 = own_collect l ?c p s2" "keeps R E k d w2 w3"
  proof (cases "r_empty R part")
    case True
    then have "p = {}" using pm by (simp add: region_simps [OF R])
    then show ?thesis using True keeps_refl [OF w2] up by (intro that [of "[]" w2]) (simp_all add: own_collect_none)
  next
    case False
    then show ?thesis using collect_sim [OF R k cnet w2, of FO part] that pm up lay
      by (auto simp: collect_child_ownerships_def)
  qed
  have "acquire_for_f R FO fuel (nd (Suc l) j) (nd l (2 * j + of_bool b)) d m w = Some (merge_infos R [pinfo, cinfo], w3)"
    by (simp only: acquire_for_node [OF es e b t refl, of FO fuel] w1_def [symmetric] up(1) dn(1) Option.bind.simps prod.case)
  moreover have "own_of R E k d w3 = own_acquire_for n l j b ?M ?s"
    unfolding dn(2) own_acquire_for.simps [of n] Let_def p_def s1_def s2_def by (simp del: upd_apply)
  moreover have "keeps R E k d w w3" using k1 up(3) dn(3) keeps_trans by blast
  ultimately show ?case by blast
qed

lemma acquire_sim:
  assumes R: "region_ok R E" and k: "k \<le> 30" and j: "j < 2 ^ k" and w: "tree_world k w"
    and sh: "shared (items_of w d 0) \<noteq> None"
  shows "\<exists>info w'. acquire_ownership R FO (nd 0 j) d m w = Some (info, w') \<and>
    own_of R E k d w' = own_acquire k j (E m) (own_of R E k d w) \<and> keeps R E k d w w'"
proof -
  have net: "in_net k 0 j" using j by (simp add: in_net_def)
  obtain es where es: "services w (nd 0 j) = Some (service_at k 0 j es)" using tree_worldD [OF w net] by blast
  obtain e svc1 where e: "get_entry R d (service_at k 0 j es) = (e, svc1)"
    by (cases "get_entry R d (service_at k 0 j es)")
  let ?s = "own_of R E k d w"
  define w1 where "w1 = set_entry (nd 0 j) d (e\<lparr>full := r_merge R (full e) m\<rparr>) svc1 w"
  have lc: "location_cache (e\<lparr>full := r_merge R (full e) m\<rparr>) = location_cache e" by simp
  note s = set_entry_sim [where E = E and R = R, OF w k net es e sh lc]
  define s1 where "s1 = ?s\<lparr>oF := upd (oF ?s) 0 j (oF ?s 0 j \<union> E m)\<rparr>"
  have u: "upd f l j (f l j) = f" for f :: "nat \<Rightarrow> nat \<Rightarrow> 'b set" and l j by (intro ext) simp
  have own1: "own_of R E k d w1 = s1"
    unfolding w1_def s(1) s1_def
    by (intro own_record_eqI) (simp_all add: s(3-5) region_simps [OF R] u del: upd_apply)
  have k1: "keeps R E k d w w1" unfolding w1_def by (rule s(2))
  then have w1: "tree_world k w1" "shared (items_of w1 d 0) \<noteq> None" by (simp_all add: keeps_def)
  show ?thesis
  proof (cases k)
    case 0
    then have "acquire_ownership R FO (nd 0 j) d m w = Some ([], w1)"
      using es e by (simp add: acquire_ownership_def w1_def)
    then show ?thesis using own1 k1 0 by (auto simp: own_acquire_def Let_def s1_def)
  next
    case (Suc n)
    have "acquire_ownership R FO (nd 0 j) d m w =
        acquire_for_f R FO 64 (nd (Suc 0) (j div 2)) (nd 0 j) d m w1"
      using es e Suc target_parent [of k 0 j es]
      by (simp add: acquire_ownership_def acquire_ownership_for_def w1_def)
    moreover have "2 * (j div 2) + of_bool (odd j) = j" by (cases "odd j") (auto elim: oddE)
    ultimately show ?thesis
      using acquire_for_sim [OF R k, of 0 n 64 "j div 2" w1 d FO "odd j" m] w1 own1 k1 Suc k j keeps_trans [OF k1]
      by (auto simp: own_acquire_def Let_def s1_def)
  qed
qed

lemma add_left_spec:
  assumes R: "region_ok R E" and a: "add_left R A Q e = (G, e1)"
  shows "E (full e1) = E (full e) \<union> E A" "E G = ((E Q - E (left_part e)) \<inter> (E (full e) \<union> E A)) - E (right_part e)"
    "E (left_part e1) = E (left_part e) \<union> E G" "right_part e1 = right_part e" "location_cache e1 = location_cache e"
  using a by (auto simp: add_left_def Let_def region_simps [OF R] split: if_splits)

lemma add_right_spec:
  assumes R: "region_ok R E" and a: "add_right R A Q e = (G, e1)"
  shows "E (full e1) = E (full e) \<union> E A" "E G = ((E Q - E (right_part e)) \<inter> (E (full e) \<union> E A)) - E (left_part e)"
    "E (right_part e1) = E (right_part e) \<union> E G" "left_part e1 = left_part e" "location_cache e1 = location_cache e"
  using a by (auto simp: add_right_def Let_def region_simps [OF R] split: if_splits)

lemma with_entry_sim:
  assumes k: "k \<le> 30" and net: "in_net k l j" and w: "tree_world k w"
    and sh: "shared (items_of w d 0) \<noteq> None"
    and lc: "\<forall>e. location_cache (snd (op e)) = location_cache e"
  shows "\<exists>e w'. with_entry R (nd l j) d op w = Some (fst (op e), w') \<and> keeps R E k d w w' \<and>
    own_of R E k d w' = \<lparr>oF = upd (oF (own_of R E k d w)) l j (E (full (snd (op e)))),
      oL = upd (oL (own_of R E k d w)) l j (E (left_part (snd (op e)))),
      oR = upd (oR (own_of R E k d w)) l j (E (right_part (snd (op e))))\<rparr> \<and>
    E (full e) = oF (own_of R E k d w) l j \<and> E (left_part e) = oL (own_of R E k d w) l j \<and>
    E (right_part e) = oR (own_of R E k d w) l j"
proof -
  obtain es where es: "services w (nd l j) = Some (service_at k l j es)" using tree_worldD [OF w net] by blast
  obtain e svc1 where e: "get_entry R d (service_at k l j es) = (e, svc1)"
    by (cases "get_entry R d (service_at k l j es)")
  obtain b e1 where op: "op e = (b, e1)" by (cases "op e")
  have "location_cache e1 = location_cache e" using spec [OF lc, of e] op by simp
  note s = set_entry_sim [where E = E and R = R, OF w k net es e sh this]
  have "with_entry R (nd l j) d op w = Some (b, set_entry (nd l j) d e1 svc1 w)"
    using es e op by (simp add: with_entry_def)
  then show ?thesis
    using s op by (intro exI [of _ e] exI [of _ "set_entry (nd l j) d e1 svc1 w"]) (simp del: upd_apply)
qed

lemma upd_same: "upd f l j (f l j) = f"
  by (intro ext) simp

lemma left_sim:
  assumes R: "region_ok R E" and k: "k \<le> 30" and net: "in_net k l j" and w: "tree_world k w"
    and sh: "shared (items_of w (req_id req) 0) \<noteq> None" and rw: "req_mode req = ReadWrite"
  shows "\<exists>G w'. add_allowance_left_req R (nd l j) req w = Some (req\<lparr>req_allowance := G\<rparr>, w') \<and>
    E G = left_grant l j (E (req_allowance req)) (E (req_region req)) (own_of R E k (req_id req) w) \<and>
    own_of R E k (req_id req) w' =
      own_add_left l j (E (req_allowance req)) (E (req_region req)) (own_of R E k (req_id req) w) \<and>
    keeps R E k (req_id req) w w'"
proof -
  let ?d = "req_id req" and ?A = "req_allowance req" and ?Q = "req_region req"
  let ?op = "\<lambda>e. let (allowance, e1) = add_left R ?A ?Q e in (req\<lparr>req_allowance := allowance\<rparr>, e1)"
  have lc: "\<forall>e. location_cache (snd (?op e)) = location_cache e"
    by (auto split: prod.splits dest: add_left_spec(5) [OF R])
  obtain e w' where e: "with_entry R (nd l j) ?d ?op w = Some (fst (?op e), w')" "keeps R E k ?d w w'"
    "own_of R E k ?d w' = \<lparr>oF = upd (oF (own_of R E k ?d w)) l j (E (full (snd (?op e)))),
      oL = upd (oL (own_of R E k ?d w)) l j (E (left_part (snd (?op e)))),
      oR = upd (oR (own_of R E k ?d w)) l j (E (right_part (snd (?op e))))\<rparr>"
    "E (full e) = oF (own_of R E k ?d w) l j" "E (left_part e) = oL (own_of R E k ?d w) l j"
    "E (right_part e) = oR (own_of R E k ?d w) l j"
    using with_entry_sim [where op = ?op and R = R and E = E, OF k net w sh lc] by blast
  obtain G e1 where G: "add_left R ?A ?Q e = (G, e1)" by (cases "add_left R ?A ?Q e")
  note sp = add_left_spec [OF R G]
  have g: "E G = left_grant l j (E ?A) (E ?Q) (own_of R E k ?d w)"
    using sp(2) e(4-6) by (simp add: left_grant_def)
  have "own_of R E k ?d w' = own_add_left l j (E ?A) (E ?Q) (own_of R E k ?d w)"
    unfolding e(3) own_add_left_def g [symmetric]
    by (intro own_record_eqI) (simp_all add: G sp(1,3,4) e(4-6) upd_same del: upd_apply)
  moreover have "add_allowance_left_req R (nd l j) req w = Some (req\<lparr>req_allowance := G\<rparr>, w')"
    using e(1) rw G by (simp add: add_allowance_left_req_def)
  ultimately show ?thesis using g e(2) by blast
qed

lemma right_sim:
  assumes R: "region_ok R E" and k: "k \<le> 30" and net: "in_net k l j" and w: "tree_world k w"
    and sh: "shared (items_of w (req_id req) 0) \<noteq> None" and rw: "req_mode req = ReadWrite"
  shows "\<exists>G w'. add_allowance_right_req R (nd l j) req w = Some (req\<lparr>req_allowance := G\<rparr>, w') \<and>
    E G = right_grant l j (E (req_allowance req)) (E (req_region req)) (own_of R E k (req_id req) w) \<and>
    own_of R E k (req_id req) w' =
      own_add_right l j (E (req_allowance req)) (E (req_region req)) (own_of R E k (req_id req) w) \<and>
    keeps R E k (req_id req) w w'"
proof -
  let ?d = "req_id req" and ?A = "req_allowance req" and ?Q = "req_region req"
  let ?op = "\<lambda>e. let (allowance, e1) = add_right R ?A ?Q e in (req\<lparr>req_allowance := allowance\<rparr>, e1)"
  have lc: "\<forall>e. location_cache (snd (?op e)) = location_cache e"
    by (auto split: prod.splits dest: add_right_spec(5) [OF R])
  obtain e w' where e: "with_entry R (nd l j) ?d ?op w = Some (fst (?op e), w')" "keeps R E k ?d w w'"
    "own_of R E k ?d w' = \<lparr>oF = upd (oF (own_of R E k ?d w)) l j (E (full (snd (?op e)))),
      oL = upd (oL (own_of R E k ?d w)) l j (E (left_part (snd (?op e)))),
      oR = upd (oR (own_of R E k ?d w)) l j (E (right_part (snd (?op e))))\<rparr>"
    "E (full e) = oF (own_of R E k ?d w) l j" "E (left_part e) = oL (own_of R E k ?d w) l j"
    "E (right_part e) = oR (own_of R E k ?d w) l j"
    using with_entry_sim [where op = ?op and R = R and E = E, OF k net w sh lc] by blast
  obtain G e1 where G: "add_right R ?A ?Q e = (G, e1)" by (cases "add_right R ?A ?Q e")
  note sp = add_right_spec [OF R G]
  have g: "E G = right_grant l j (E ?A) (E ?Q) (own_of R E k ?d w)"
    using sp(2) e(4-6) by (simp add: right_grant_def)
  have "own_of R E k ?d w' = own_add_right l j (E ?A) (E ?Q) (own_of R E k ?d w)"
    unfolding e(3) own_add_right_def g [symmetric]
    by (intro own_record_eqI) (simp_all add: G sp(1,3,4) e(4-6) upd_same del: upd_apply)
  moreover have "add_allowance_right_req R (nd l j) req w = Some (req\<lparr>req_allowance := G\<rparr>, w')"
    using e(1) rw G by (simp add: add_allowance_right_req_def)
  ultimately show ?thesis using g e(2) by blast
qed

section \<open>Properties\<close>

text \<open>C4: the index service refines the ownership specification: on 2^k localities every acquisition and
  every allowance succeeds, has on the record of who owns what the effect of the operation of the
  specification, returns the grants the specification gives, and touches neither the fragments nor the
  record of any other item.\<close>

theorem index_refines_ownership:
  assumes "region_ok R E" and "k \<le> 30" and "in_net k l j" and "tree_world k w"
    and "shared (items_of w (req_id req) 0) \<noteq> None" and "req_mode req = ReadWrite"
  shows "(l = 0 \<longrightarrow> (\<exists>info w'. acquire_ownership R FO (nd l j) (req_id req) m w = Some (info, w') \<and>
      own_of R E k (req_id req) w' = own_acquire k j (E m) (own_of R E k (req_id req) w) \<and>
      keeps R E k (req_id req) w w')) \<and>
    (\<exists>G w'. add_allowance_left_req R (nd l j) req w = Some (req\<lparr>req_allowance := G\<rparr>, w') \<and>
      E G = left_grant l j (E (req_allowance req)) (E (req_region req)) (own_of R E k (req_id req) w) \<and>
      own_of R E k (req_id req) w' =
        own_add_left l j (E (req_allowance req)) (E (req_region req)) (own_of R E k (req_id req) w) \<and>
      keeps R E k (req_id req) w w') \<and>
    (\<exists>G w'. add_allowance_right_req R (nd l j) req w = Some (req\<lparr>req_allowance := G\<rparr>, w') \<and>
      E G = right_grant l j (E (req_allowance req)) (E (req_region req)) (own_of R E k (req_id req) w) \<and>
      own_of R E k (req_id req) w' =
        own_add_right l j (E (req_allowance req)) (E (req_region req)) (own_of R E k (req_id req) w) \<and>
      keeps R E k (req_id req) w w')"
proof (intro conjI impI)
  assume "l = 0"
  then show "\<exists>info w'. acquire_ownership R FO (nd l j) (req_id req) m w = Some (info, w') \<and>
      own_of R E k (req_id req) w' = own_acquire k j (E m) (own_of R E k (req_id req) w) \<and>
      keeps R E k (req_id req) w w'"
    using acquire_sim [OF assms(1,2) _ assms(4,5), of j FO m] assms(3) by (simp add: in_net_def)
qed (intro left_sim right_sim assms)+

definition one_service :: "(uint8_t, uint8_t, unit) world" where
  "one_service = \<lparr>services = (\<lambda>_. Some (service_at 0 0 0 (\<lambda>_. None))),
    items_of = (\<lambda>_ _. (new_item mask_regions)\<lparr>shared := Some ()\<rparr>)\<rparr>"

theorem index_refines_ownership_witness:
  "\<exists>info w'. acquire_ownership mask_regions mask_fragments (nd 0 0) (data_item_id 0 0) 3 one_service = Some (info, w') \<and>
    own_of mask_regions mask_elems 0 (data_item_id 0 0) w' =
      own_acquire 0 0 (mask_elems 3) (own_of mask_regions mask_elems 0 (data_item_id 0 0) one_service)"
proof -
  have "tree_world 0 one_service" by (auto simp: tree_world_def in_net_def one_service_def)
  moreover have "in_net 0 0 0" by (simp add: in_net_def)
  ultimately show ?thesis
    using index_refines_ownership [OF mask_regions_ok, of 0 0 0 one_service
        "createDataItemRequirement mask_regions (data_item_id 0 0) 3 ReadWrite" mask_fragments 3]
    by (auto simp: createDataItemRequirement_def one_service_def)
qed

text \<open>What a node still misses for a write: nothing exactly when it manages the whole region and, at a
  virtual node, its children have been told about all of it; otherwise the part that no child has been
  given, or without such a part the elements the node does not manage.\<close>

theorem missing_region_exact:
  assumes "region_ok R E"
  shows "(check_write_requirement R leaf e region \<longleftrightarrow>
      E region \<subseteq> E (full e) \<and> (leaf \<or> E region \<subseteq> E (left_part e) \<union> E (right_part e))) \<and>
    E (fst (get_missing_region R leaf e region u)) =
      (let un = (if leaf then {} else E region \<inter> (E (full e) - (E (left_part e) \<union> E (right_part e))))
       in if un \<noteq> {} then un else E region - E (full e)) \<and>
    (E region \<noteq> {} \<longrightarrow> (snd (get_missing_region R leaf e region u) \<longleftrightarrow>
      \<not> leaf \<and> E region \<inter> (E (full e) - (E (left_part e) \<union> E (right_part e))) \<noteq> {}))"
proof -
  note simps = region_simps [OF assms]
  define un where "un = (if leaf then {} else E region \<inter> (E (full e) - (E (left_part e) \<union> E (right_part e))))"
  have un: "E (get_managed_unallocated R leaf e region) = un"
    by (simp add: get_managed_unallocated_def Let_def simps un_def)
  have g: "E (fst (get_missing_region R leaf e region v)) = (if un \<noteq> {} then un else E region - E (full e))" for v
  proof (cases "E region = {}")
    case True
    then show ?thesis by (simp add: get_missing_region_def simps un_def)
  next
    case False
    then show ?thesis by (simp add: get_missing_region_def Let_def simps un)
  qed
  have "check_write_requirement R leaf e region \<longleftrightarrow> un = {} \<and> E region \<subseteq> E (full e)"
    unfolding check_write_requirement_def using g [of False] by (auto simp: simps)
  moreover have "E region \<noteq> {} \<longrightarrow> (snd (get_missing_region R leaf e region u) \<longleftrightarrow> un \<noteq> {})"
    by (simp add: get_missing_region_def Let_def simps un)
  ultimately show ?thesis using g [of u] by (auto simp: un_def Let_def)
qed

theorem missing_region_exact_witness:
  "\<not> check_write_requirement mask_regions False ((new_entry mask_regions)\<lparr>full := 3, left_part := 1\<rparr>) 2"
proof -
  have "\<not> mask_elems 2 \<subseteq> mask_elems 1 \<union> mask_elems 0"
    by (auto simp: mask_elems_def bit_iff_odd subset_iff intro!: exI [of _ 1])
  then show ?thesis
    using missing_region_exact [OF mask_regions_ok, of False "(new_entry mask_regions)\<lparr>full := 3, left_part := 1\<rparr>" 2 False]
    by (simp add: new_entry_def)
qed

end
