(* ===== verification/Index_Runs.thy ===== *)
theory Index_Runs
  imports Index_Refinement
begin

text \<open>
  Runs of the index services: any sequence of the operations on requirements, on any items and at any
  nodes of a network of 2^k localities.  The invariants of the runs are the exclusive ownership of the
  theory Ownership and the coherence of the location caches.
\<close>

section \<open>Allowances and fragments\<close>

lemma keeps_items:
  assumes "tree_world k w" and "shared (its 0) \<noteq> None"
  shows "keeps R E k d w (w\<lparr>items_of := (items_of w)(d := its)\<rparr>)"
  using assms by (simp add: keeps_def)

lemma resize_sim:
  assumes w: "tree_world k w" and sh: "shared (items_of w d 0) \<noteq> None"
  shows "\<exists>w'. resize_fragment R FO rank d region excl w = Some w' \<and> keeps R E k d w w' \<and>
    own_of R E k d w' = own_of R E k d w"
proof -
  obtain f its where f: "get_fragment FO rank (items_of w d) = Some (f, its)" "shared (its 0) \<noteq> None"
    using get_fragment_ok [of "items_of w d" FO rank] sh by auto
  define its' where "its' = its(rank :=
    (let it = (its rank)\<lparr>frag := Some (if r_sub R region (f_covered FO f) then f
       else f_resize FO f (r_merge R (f_covered FO f) region))\<rparr>
     in if excl then it\<lparr>exclusive := r_merge R (exclusive it) region\<rparr> else it))"
  have "shared (its' 0) \<noteq> None" using f(2) by (simp add: its'_def Let_def)
  moreover have "resize_fragment R FO rank d region excl w = Some (w\<lparr>items_of := (items_of w)(d := its')\<rparr>)"
    using f(1) by (simp add: resize_fragment_def its'_def Let_def)
  ultimately show ?thesis using keeps_items [OF w, of its' R E d] by auto
qed

text \<open>The elements that an allowance for writing adds.\<close>

definition write_allowance :: "('r \<Rightarrow> 'e set) \<Rightarrow> 'r requirement \<Rightarrow> 'e set" where
  "write_allowance E req = (if req_mode req = ReadWrite then E (req_allowance req) else {})"

lemma own_add_full_none: "own_add_full l j {} s = s"
  by (simp add: own_add_full_def upd_same)

lemma allowance_sim:
  assumes R: "region_ok R E" and k: "k \<le> 30" and net: "in_net k l j" and w: "tree_world k w"
    and sh: "shared (items_of w (req_id req) 0) \<noteq> None"
  shows "\<exists>w'. add_allowance_req R FO (nd l j) req w = Some w' \<and> keeps R E k (req_id req) w w' \<and>
    own_of R E k (req_id req) w' = own_add_full l j (write_allowance E req) (own_of R E k (req_id req) w)"
proof -
  let ?d = "req_id req" and ?s = "own_of R E k (req_id req) w"
  define op where "op = (\<lambda>e. ((), if req_mode req = ReadWrite then add_full R (req_allowance req) e else e))"
  have lc: "\<forall>e. location_cache (snd (op e)) = location_cache e" by (simp add: op_def add_full_def)
  obtain e w1 where e: "with_entry R (nd l j) ?d op w = Some ((), w1)" "keeps R E k ?d w w1"
    "own_of R E k ?d w1 = \<lparr>oF = upd (oF ?s) l j (E (full (snd (op e)))),
      oL = upd (oL ?s) l j (E (left_part (snd (op e)))), oR = upd (oR ?s) l j (E (right_part (snd (op e))))\<rparr>"
    "E (full e) = oF ?s l j" "E (left_part e) = oL ?s l j" "E (right_part e) = oR ?s l j"
    using with_entry_sim [OF k net w sh lc, of R E] by auto
  have own1: "own_of R E k ?d w1 = own_add_full l j (write_allowance E req) ?s"
    unfolding e(3) own_add_full_def
    by (intro own_record_eqI)
      (simp_all add: op_def add_full_def write_allowance_def e(4-6) upd_same region_simps [OF R] del: upd_apply)
  have w1: "tree_world k w1" "shared (items_of w1 ?d 0) \<noteq> None" using e(2) by (simp_all add: keeps_def)
  have eq: "add_allowance_req R FO (nd l j) req w =
      (if isLeaf (nd l j) then resize_fragment R FO (unat (getRank (nd l j))) ?d (req_region req)
        (req_mode req = ReadWrite) w1 else Some w1)"
    using e(1) by (auto simp: add_allowance_req_def op_def)
  obtain w2 where w2: "resize_fragment R FO (unat (getRank (nd l j))) ?d (req_region req) (req_mode req = ReadWrite) w1 = Some w2"
      "keeps R E k ?d w1 w2" "own_of R E k ?d w2 = own_of R E k ?d w1"
    using resize_sim [OF w1, of R FO _ "req_region req" "req_mode req = ReadWrite" E] by blast
  show ?thesis
    using eq w2 own1 e(2) keeps_trans [OF e(2) w2(2)] by (cases "isLeaf (nd l j)") auto
qed

section \<open>Transfers\<close>

lemma transfer_keeps:
  "\<lbrakk>transfer_parts R FO d migrate dst ps w = Some w'; tree_world k w; shared (items_of w d 0) \<noteq> None\<rbrakk> \<Longrightarrow>
    keeps R E k d w w' \<and> own_of R E k d w' = own_of R E k d w"
proof (induction ps arbitrary: w)
  case Nil
  then show ?case using keeps_refl [OF Nil.prems(2,3)] by simp
next
  case (Cons p ps)
  obtain w1 where w1: "transfer_part R FO d migrate dst p w = Some w1" "transfer_parts R FO d migrate dst ps w1 = Some w'"
    using Cons.prems(1) by (auto simp: Option.bind_eq_Some_conv)
  have "keeps R E k d w w1 \<and> own_of R E k d w1 = own_of R E k d w"
  proof (cases "fst p = dst")
    case True
    then show ?thesis using w1(1) keeps_refl [OF Cons.prems(2,3)] by (cases p) (simp add: transfer_part_def)
  next
    case False
    obtain src region where p: "p = (src, region)" by (cases p)
    obtain data si di where t: "view_save R FO region migrate (items_of w d src) = Some (data, si)"
      "view_load FO data (((items_of w d)(src := si)) dst) = Some di"
      "w1 = w\<lparr>items_of := (items_of w)(d := ((items_of w d)(src := si))(dst := di))\<rparr>"
      using w1(1) False p by (auto simp: transfer_part_def Option.bind_eq_Some_conv Let_def)
    have "shared si = shared (items_of w d src)"
      using t(1) by (auto simp: view_save_def split: if_splits)
    moreover have "shared di = shared (((items_of w d)(src := si)) dst)"
      using t(2) by (auto simp: view_load_def split: option.splits)
    ultimately have "shared ((((items_of w d)(src := si))(dst := di)) 0) \<noteq> None"
      using Cons.prems(3) by auto
    then have "keeps R E k d w (w\<lparr>items_of := (items_of w)(d := ((items_of w d)(src := si))(dst := di))\<rparr>)"
      by (intro keeps_items Cons.prems(2))
    then show ?thesis using t(3) by simp
  qed
  moreover from this have "tree_world k w1" "shared (items_of w1 d 0) \<noteq> None" by (simp_all add: keeps_def)
  from Cons.IH [OF w1(2) this] have "keeps R E k d w1 w' \<and> own_of R E k d w' = own_of R E k d w1" .
  ultimately show ?case using keeps_trans [of R E k d w w1 w'] by simp
qed

section \<open>Location caches\<close>

text \<open>What the leaf on a rank owns; an info is right when everything it locates is owned there.\<close>

definition owned :: "nat \<Rightarrow> 'e own \<Rightarrow> size_t \<Rightarrow> 'e set" where
  "owned k s r = (if unat r < 2 ^ k then oF s 0 (unat r) else {})"

definition right_info :: "('r \<Rightarrow> 'e set) \<Rightarrow> nat \<Rightarrow> 'e own \<Rightarrow> 'r location_info \<Rightarrow> bool" where
  "right_info E k s info \<longleftrightarrow> (\<forall>r. located E info r \<subseteq> owned k s r)"

definition caches_right :: "'r region_ops \<Rightarrow> ('r \<Rightarrow> 'e set) \<Rightarrow> nat \<Rightarrow> data_item_id \<Rightarrow> ('r, 'f, 'd) world \<Rightarrow> bool" where
  "caches_right R E k d w \<longleftrightarrow>
    (\<forall>l j. in_net k l j \<longrightarrow> right_info E k (own_of R E k d w) (location_cache (entry_at R w d (nd l j))))"

lemma right_info_mono:
  assumes "right_info E k s info" and "\<And>i. i < 2 ^ k \<Longrightarrow> oF s 0 i \<subseteq> oF s' 0 i"
  shows "right_info E k s' info"
proof -
  have "owned k s r \<subseteq> owned k s' r" for r using assms(2) by (simp add: owned_def)
  then show ?thesis using assms(1) unfolding right_info_def by blast
qed

lemma caches_right_keeps:
  assumes "caches_right R E k d w" and "keeps R E k d' w w'"
    and "\<And>i. i < 2 ^ k \<Longrightarrow> oF (own_of R E k d w) 0 i \<subseteq> oF (own_of R E k d w') 0 i"
  shows "caches_right R E k d w'"
  using assms right_info_mono [OF _ assms(3)] unfolding caches_right_def keeps_def by metis

lemma right_info_add_part:
  assumes R: "region_ok R E"
  shows "right_info E k s info \<Longrightarrow> E part \<subseteq> owned k s r \<Longrightarrow> right_info E k s (add_part R r part info)"
  by (auto simp: right_info_def located_add_part [OF R])

lemma right_info_fold:
  assumes R: "region_ok R E"
  shows "right_info E k s info \<Longrightarrow> right_info E k s infos \<Longrightarrow>
    right_info E k s (foldl (\<lambda>c (rank, part). add_part R rank part c) info infos)"
proof (induction infos arbitrary: info)
  case (Cons p ps)
  obtain r part where p: "p = (r, part)" by (cases p)
  have "E part \<subseteq> owned k s r" "right_info E k s ps"
    using Cons.prems(2) by (auto simp: p right_info_def split: if_splits)
  then show ?case using Cons right_info_add_part [OF R] by (simp add: p)
qed simp

lemma right_info_append: "right_info E k s (xs @ ys) \<longleftrightarrow> right_info E k s xs \<and> right_info E k s ys"
proof -
  have "located E (xs @ ys) r = located E xs r \<union> located E ys r" for r by (auto simp: located_def)
  then show ?thesis by (auto simp: right_info_def)
qed

lemma right_info_Nil [simp]: "right_info E k s []"
  by (simp add: right_info_def)

lemma search_cache_right:
  assumes R: "region_ok R E"
  shows "right_info E k s cache \<Longrightarrow> right_info E k s info \<Longrightarrow> right_info E k s (fst (search_cache R cache rem info))"
proof (induction cache arbitrary: rem info)
  case (Cons p ps)
  obtain r part where p: "p = (r, part)" by (cases p)
  have "E part \<subseteq> owned k s r" "right_info E k s ps"
    using Cons.prems(1) by (auto simp: p right_info_def split: if_splits)
  moreover from this have "right_info E k s (add_part R r (r_inter R rem part) info)"
    using Cons.prems(2) by (intro right_info_add_part [OF R]) (auto simp: region_simps [OF R])
  ultimately show ?case using Cons by (simp add: p Let_def)
qed simp

section \<open>Locating regions\<close>

text \<open>An operation that changes only location caches of the item d.\<close>

definition only_caches ::
    "'r region_ops \<Rightarrow> ('r \<Rightarrow> 'e set) \<Rightarrow> nat \<Rightarrow> data_item_id \<Rightarrow> ('r, 'f, 'd) world \<Rightarrow> ('r, 'f, 'd) world \<Rightarrow> bool" where
  "only_caches R E k d w w' \<longleftrightarrow> tree_world k w' \<and> items_of w' = items_of w \<and>
    (\<forall>d'. own_of R E k d' w' = own_of R E k d' w) \<and>
    (\<forall>d'. d' \<noteq> d \<and> caches_right R E k d' w \<longrightarrow> caches_right R E k d' w')"

lemma only_caches_trans: "only_caches R E k d w w1 \<Longrightarrow> only_caches R E k d w1 w2 \<Longrightarrow> only_caches R E k d w w2"
  by (simp add: only_caches_def)

lemma only_caches_refl: "tree_world k w \<Longrightarrow> only_caches R E k d w w"
  by (simp add: only_caches_def)

lemma set_cache_sim:
  assumes w: "tree_world k w" and k: "k \<le> 30" and net: "in_net k l j"
    and svc: "services w (nd l j) = Some svc" and e: "get_entry R d svc = (e0, svc1)"
    and e1: "full e1 = full e0" "left_part e1 = left_part e0" "right_part e1 = right_part e0"
  shows "only_caches R E k d w (set_entry (nd l j) d e1 svc1 w)"
    and "caches_right R E k d w \<Longrightarrow> right_info E k (own_of R E k d w) (location_cache e1) \<Longrightarrow>
      caches_right R E k d (set_entry (nd l j) d e1 svc1 w)"
proof -
  let ?w = "set_entry (nd l j) d e1 svc1 w"
  note at = set_entry_at(1) [OF w k net svc e, where e = e1]
  have e0: "entry_at R w d (nd l j) = e0" using svc e by (simp add: entry_at_def)
  have own: "own_of R E k d' ?w = own_of R E k d' w" for d'
    using at e0 e1 by (intro own_record_eqI ext) (auto simp: own_of_def)
  then show "only_caches R E k d w ?w"
    using set_entry_at(2) [OF w k net svc e] at
    by (auto simp: only_caches_def set_entry_def [of _ _ _ _ w] caches_right_def)
  show "caches_right R E k d w \<Longrightarrow> right_info E k (own_of R E k d w) (location_cache e1) \<Longrightarrow> caches_right R E k d ?w"
    using at by (auto simp: caches_right_def own)
qed

lemma locate_here_right:
  assumes R: "region_ok R E" and k: "k \<le> 30" and net: "in_net k l j"
    and f: "E (full e) = oF s l j" and c: "right_info E k s (location_cache e)"
  shows "right_info E k s (fst (locate_here R (nd l j) rt e region))"
proof -
  let ?own = "r_inter R region (full e)"
  have o: "right_info E k s (add_part R (getRank (nd l j)) ?own [])" if "isLeaf (nd l j)"
  proof (rule right_info_add_part [OF R right_info_Nil])
    have "l < 2 ^ 32" using net k by (simp add: in_net_def)
    then have "l = 0" using that isLeaf_nd [of l j] by simp
    then show "E ?own \<subseteq> owned k s (getRank (nd l j))"
      using f net unat_rank_nd [OF net k] by (auto simp: owned_def in_net_def region_simps [OF R])
  qed
  show ?thesis
    using o search_cache_right [OF R c right_info_Nil] search_cache_right [OF R c o]
    by (auto simp: locate_here_def Let_def split: prod.split) (metis fst_conv)+
qed

lemma locate_here_parts:
  assumes "region_ok R E" and "locate_here R a rt e region = (info, up, lp, rp)"
  shows "rt \<Longrightarrow> r_empty R up" and "isLeaf a \<Longrightarrow> r_empty R lp \<and> r_empty R rp"
  using assms by (auto simp: locate_here_def Let_def region_simps [OF assms(1)] split: if_splits prod.splits)

lemma locate_sim:
  fixes w w' :: "('r, 'f, 'd) world"
  assumes R: "region_ok R E" and k: "k \<le> 30"
  shows "\<lbrakk>in_net k l j; tree_world k w; caches_right R E k d w; locate_f R n (nd l j) d region w = Some (info, w')\<rbrakk> \<Longrightarrow>
    only_caches R E k d w w' \<and> caches_right R E k d w' \<and> right_info E k (own_of R E k d w) info"
proof (induction n arbitrary: l j region w info w')
  case (Suc n)
  note net = Suc.prems(1) and w = Suc.prems(2) and cr = Suc.prems(3)
  obtain es where es: "services w (nd l j) = Some (service_at k l j es)" using tree_worldD [OF w net] by blast
  define svc where "svc = service_at k l j es"
  obtain e svc1 where e: "get_entry R d svc = (e, svc1)" by (cases "get_entry R d svc")
  obtain info0 up lp rp where lh: "locate_here R (nd l j) (l = k) e region = (info0, up, lp, rp)"
    by (cases "locate_here R (nd l j) (l = k) e region")
  define w1 where "w1 = set_entry (nd l j) d e svc1 w"
  let ?s = "own_of R E k d w"
  have ent: "entry_at R w d (nd l j) = e" using es e by (simp add: entry_at_def svc_def)
  have c0: "right_info E k ?s (location_cache e)" using cr net ent unfolding caches_right_def by blast
  have i0: "right_info E k ?s info0"
    using locate_here_right [OF R k net _ c0, of "l = k" region] lh ent net by (simp add: own_of_def)
  have o1: "only_caches R E k d w w1" and c1: "caches_right R E k d w1"
    using set_cache_sim [OF w k net es [folded svc_def] e refl refl refl] cr c0 by (simp_all add: w1_def)
  have sub: "only_caches R E k d v v' \<and> caches_right R E k d v' \<and> right_info E k (own_of R E k d v) i"
    if "(if r_empty R p then Some ([], v) else locate_f R n t d p v) = Some (i, v')"
      "\<not> r_empty R p \<longrightarrow> (\<exists>l' j'. in_net k l' j' \<and> t = nd l' j')" "only_caches R E k d u v" "caches_right R E k d v"
    for p t i and v v' u :: "('r, 'f, 'd) world"
    using that Suc.IH [of _ _ v] by (cases "r_empty R p") (auto simp: only_caches_def)
  let ?rt = "target_of (right_id svc) (nd l j) (right_node svc)" and ?lt = "target_of None (nd l j) (left_node svc)"
    and ?pt = "target_of (parent_id svc) (nd l j) (parent_node svc)"
  have virt: "\<exists>m. l = Suc m" if "\<not> r_empty R lp \<or> \<not> r_empty R rp"
  proof (rule ccontr)
    assume "\<nexists>m. l = Suc m"
    then have "isLeaf (nd l j)" using isLeaf_nd [of 0 j] by (cases l) auto
    then show False using that locate_here_parts(2) [OF R lh] by blast
  qed
  have rt: "\<not> r_empty R rp \<longrightarrow> (\<exists>l' j'. in_net k l' j' \<and> ?rt = nd l' j')"
    using virt in_net_child net target_right [of k _ j es] by (fastforce simp: svc_def)
  have lt: "\<not> r_empty R lp \<longrightarrow> (\<exists>l' j'. in_net k l' j' \<and> ?lt = nd l' j')"
    using virt in_net_child net target_left [of _ j] by (fastforce simp: svc_def)
  have pt: "\<not> r_empty R up \<longrightarrow> (\<exists>l' j'. in_net k l' j' \<and> ?pt = nd l' j')"
  proof
    assume "\<not> r_empty R up"
    then have "l \<noteq> k" using locate_here_parts(1) [OF R lh] by blast
    then have "in_net k (Suc l) (j div 2)" using in_net_parent [OF net] net by (simp add: in_net_def)
    then show "\<exists>l' j'. in_net k l' j' \<and> ?pt = nd l' j'" using target_parent [of k l j es] by (auto simp: svc_def)
  qed
  have eq: "locate_f R (Suc n) (nd l j) d region w = do {
     (rinfo, w2) \<leftarrow> (if r_empty R rp then Some ([], w1) else locate_f R n ?rt d rp w1);
     (linfo, w3) \<leftarrow> (if r_empty R lp then Some ([], w2) else locate_f R n ?lt d lp w2);
     (pinfo, w4) \<leftarrow> (if r_empty R up then Some ([], w3) else locate_f R n ?pt d up w3);
     svc4 \<leftarrow> services w4 (nd l j);
     let (e4, svc5) = get_entry R d svc4;
     let answers = rinfo @ linfo @ pinfo;
     let e5 = e4\<lparr>location_cache := foldl (\<lambda>c (rank, part). add_part R rank part c) (location_cache e4) answers\<rparr>;
     Some (foldl (\<lambda>i (rank, part). add_part R rank part i) info0 answers, set_entry (nd l j) d e5 svc5 w4)}"
    using es e lh by (simp add: svc_def w1_def Let_def)
  obtain rinfo w2 where r: "(if r_empty R rp then Some ([], w1) else locate_f R n ?rt d rp w1) = Some (rinfo, w2)"
    using Suc.prems(4) unfolding eq by (auto simp: Option.bind_eq_Some_conv)
  obtain linfo w3 where lf: "(if r_empty R lp then Some ([], w2) else locate_f R n ?lt d lp w2) = Some (linfo, w3)"
    using Suc.prems(4) unfolding eq r by (auto simp: Option.bind_eq_Some_conv)
  obtain pinfo w4 where p: "(if r_empty R up then Some ([], w3) else locate_f R n ?pt d up w3) = Some (pinfo, w4)"
    using Suc.prems(4) unfolding eq r Option.bind.simps prod.case lf by (auto simp: Option.bind_eq_Some_conv)
  obtain svc4 where svc4: "services w4 (nd l j) = Some svc4"
    using Suc.prems(4) unfolding eq r Option.bind.simps prod.case lf p by (auto simp: Option.bind_eq_Some_conv)
  obtain e4 svc5 where e4: "get_entry R d svc4 = (e4, svc5)" by (cases "get_entry R d svc4")
  have info: "info = foldl (\<lambda>i (rank, part). add_part R rank part i) info0 (rinfo @ linfo @ pinfo)"
    and w': "w' = set_entry (nd l j) d (e4\<lparr>location_cache :=
      foldl (\<lambda>c (rank, part). add_part R rank part c) (location_cache e4) (rinfo @ linfo @ pinfo)\<rparr>) svc5 w4"
    using Suc.prems(4) unfolding eq r Option.bind.simps prod.case lf p svc4 e4 Let_def
    by (simp_all del: foldl_append)
  note s2 = sub [OF r rt o1 c1]
  note s3 = sub [OF lf lt conjunct1 [OF s2] conjunct1 [OF conjunct2 [OF s2]]]
  note s4 = sub [OF p pt conjunct1 [OF s3] conjunct1 [OF conjunct2 [OF s3]]]
  have own: "own_of R E k d w1 = ?s" "own_of R E k d w2 = ?s" "own_of R E k d w3 = ?s" "own_of R E k d w4 = ?s"
    using o1 s2 s3 s4 by (auto simp: only_caches_def)
  have ans: "right_info E k ?s (rinfo @ linfo @ pinfo)" using s2 s3 s4 by (simp add: right_info_append own)
  have w4: "tree_world k w4" "caches_right R E k d w4" using s4 by (auto simp: only_caches_def)
  have ent4: "entry_at R w4 d (nd l j) = e4" using svc4 e4 by (simp add: entry_at_def)
  have "right_info E k ?s (location_cache e4)" using w4(2) net ent4 own(4) unfolding caches_right_def by metis
  from right_info_fold [OF R this ans]
  have "only_caches R E k d w4 w' \<and> caches_right R E k d w'"
    unfolding w' using w4(2) own(4) by (intro conjI set_cache_sim [OF w4(1) k net svc4 e4]) simp_all
  then have "only_caches R E k d w w' \<and> caches_right R E k d w'"
    using o1 s2 s3 s4 only_caches_trans by blast
  then show ?case using right_info_fold [OF R i0 ans] info by blast
qed simp

section \<open>Every lookup of elements at rest ends\<close>

definition resting :: "(nat \<Rightarrow> nat \<Rightarrow> 'e set) \<Rightarrow> 'e own \<Rightarrow> 'e set \<Rightarrow> bool" where
  "resting fl s M \<longleftrightarrow> (\<forall>l j. M \<inter> fl l j = {} \<and> M \<inter> unalloc s l j = {})"

lemma resting_mono: "resting fl s M \<Longrightarrow> M' \<subseteq> M \<Longrightarrow> resting fl s M'"
  unfolding resting_def by blast

lemma resting_held:
  assumes "good k fl s" and "resting fl s M"
  shows "l < k \<Longrightarrow> i < 2 ^ (k - l) \<Longrightarrow> M \<inter> side s l i = M \<inter> held s l i"
    and "M \<inter> held s (Suc l) j = M \<inter> (oL s (Suc l) j \<union> oR s (Suc l) j)"
proof -
  assume l: "l < k" "i < 2 ^ (k - l)"
  have "side s l i \<union> {} = (held s l i \<union> fl l i) - {}" using own_invD(2) [OF assms(1) l] .
  moreover have "M \<inter> fl l i = {}" using assms(2) by (simp add: resting_def)
  ultimately show "M \<inter> side s l i = M \<inter> held s l i" by blast
next
  have "M \<inter> unalloc s (Suc l) j = {}" using assms(2) by (simp add: resting_def)
  then show "M \<inter> held s (Suc l) j = M \<inter> (oL s (Suc l) j \<union> oR s (Suc l) j)"
    by (auto simp: unalloc_def held_def)
qed

text \<open>What is left after the cache, and what the node sends up and down.\<close>

lemma search_cache_covers:
  assumes R: "region_ok R E"
  shows "search_cache R cache rem info = (info', rem') \<Longrightarrow>
    E rem' \<subseteq> E rem \<and> covered E info \<union> (E rem - E rem') \<subseteq> covered E info' \<and> covered E info' \<subseteq> covered E info \<union> E rem"
proof (induction cache arbitrary: rem info)
  case (Cons p ps)
  obtain r cached where p: "p = (r, cached)" by (cases p)
  let ?part = "r_inter R rem cached"
  let ?info = "add_part R r ?part info" and ?rem = "r_diff R rem ?part"
  have e: "E ?rem = E rem - E cached" "covered E ?info = covered E info \<union> (E rem \<inter> E cached)"
    by (auto simp: covered_add_part [OF R] region_simps [OF R])
  show ?case
  proof (cases "r_empty R ?part \<or> r_empty R ?rem")
    case True
    then show ?thesis
      using Cons.IH [of rem info] Cons.prems e by (auto simp: p Let_def region_simps [OF R] split: if_splits)
  next
    case False
    then have "search_cache R ps ?rem ?info = (info', rem')" using Cons.prems by (simp add: p Let_def)
    from Cons.IH [OF this] show ?thesis unfolding e by blast
  qed
qed simp

lemma locate_here_covers:
  assumes R: "region_ok R E" and lh: "locate_here R a rt e region = (info, up, lp, rp)"
  shows "E up \<union> E lp \<union> E rp \<subseteq> E region" and "E lp \<subseteq> E (left_part e)" and "E rp \<subseteq> E (right_part e)"
    and "E up \<inter> (if isLeaf a then E (full e) else E (left_part e) \<union> E (right_part e)) = {}"
    and "E region \<subseteq> covered E info \<union> E up \<union> E lp \<union> E rp \<union>
      (if rt then - (if isLeaf a then E (full e) else E (left_part e) \<union> E (right_part e)) else {})"
    and "covered E info \<subseteq> E region"
proof -
  define own where "own = r_inter R region (full e)"
  define here_leaf where "here_leaf \<longleftrightarrow> isLeaf a \<and> \<not> r_empty R own"
  define info1 where "info1 = (if here_leaf then add_part R (getRank a) own [] else [])"
  define rem1 where "rem1 = (if here_leaf then r_diff R region own else region)"
  obtain info2 rem2 where sc: "search_cache R (location_cache e) rem1 info1 = (info2, rem2)"
    by (cases "search_cache R (location_cache e) rem1 info1")
  have own: "E own = E region \<inter> E (full e)" by (simp add: own_def region_simps [OF R])
  have one: "E rem1 \<subseteq> E region" "E region \<subseteq> covered E info1 \<union> E rem1" "isLeaf a \<Longrightarrow> E rem1 \<inter> E (full e) = {}"
      "covered E info1 \<subseteq> E region"
    unfolding rem1_def info1_def here_leaf_def
    by (auto simp: covered_add_part [OF R] own region_simps [OF R])
  note two = search_cache_covers [OF R sc]
  define rpart where "rpart = r_inter R rem2 (right_part e)"
  define rem3 where "rem3 = (if r_empty R rpart then rem2 else r_diff R rem2 rpart)"
  define lpart where "lpart = r_inter R rem3 (left_part e)"
  define rem4 where "rem4 = (if r_empty R lpart then rem3 else r_diff R rem3 lpart)"
  have parts: "E rpart = E rem2 \<inter> E (right_part e)" "E rem3 = E rem2 - E (right_part e)"
    "E lpart = E rem3 \<inter> E (left_part e)" "E rem4 = E rem3 - E (left_part e)"
    by (auto simp: rpart_def rem3_def lpart_def rem4_def region_simps [OF R])
  have p: "(if isLeaf a \<and> \<not> r_empty R own then (add_part R (getRank a) own [], r_diff R region own) else ([], region)) = (info1, rem1)"
    by (simp add: info1_def rem1_def here_leaf_def)
  have eq: "(info, up, lp, rp) =
    (if r_empty R rem1 then (info1, r_none R, r_none R, r_none R)
     else if r_empty R rem2 then (info2, r_none R, r_none R, r_none R)
     else if isLeaf a then (info2, if rt then r_none R else rem2, r_none R, r_none R)
     else (info2, if rt then r_none R else rem4, lpart, rpart))"
    unfolding lh [symmetric] locate_here_def Let_def own_def [symmetric] p prod.case sc rpart_def rem3_def lpart_def rem4_def ..
  show "E up \<union> E lp \<union> E rp \<subseteq> E region" "E lp \<subseteq> E (left_part e)" "E rp \<subseteq> E (right_part e)"
    using eq one(1) two parts by (auto simp: region_simps [OF R] split: if_splits)
  show "E up \<inter> (if isLeaf a then E (full e) else E (left_part e) \<union> E (right_part e)) = {}"
    using eq one two parts by (auto simp: region_simps [OF R] split: if_splits)
  show "E region \<subseteq> covered E info \<union> E up \<union> E lp \<union> E rp \<union>
      (if rt then - (if isLeaf a then E (full e) else E (left_part e) \<union> E (right_part e)) else {})"
    using eq one two parts by (auto simp: region_simps [OF R] split: if_splits)
  show "covered E info \<subseteq> E region" using eq one two by (auto split: if_splits)
qed

lemma covered_fold:
  assumes R: "region_ok R E"
  shows "covered E (foldl (\<lambda>c (rank, part). add_part R rank part c) info infos) = covered E info \<union> covered E infos"
proof (induction infos arbitrary: info)
  case (Cons p ps)
  then show ?case by (cases p) (auto simp: covered_add_part [OF R])
qed simp

lemma covered_append: "covered E (xs @ ys) = covered E xs \<union> covered E ys"
  by (auto simp: covered_def)


lemma leaves_at_root:
  assumes "good k fl s" and "resting fl s M" and "i < 2 ^ k"
  shows "M \<inter> oF s 0 i \<subseteq> (if k = 0 then oF s 0 0 else oL s k 0 \<union> oR s k 0)"
proof (cases k)
  case 0
  then show ?thesis using assms(3) by simp
next
  case (Suc m)
  have "held s 0 i \<subseteq> held s k (i div 2 ^ k)" using held_subset_ancestor [OF assms(1), of 0 k i] assms(3) by simp
  then have "oF s 0 i \<subseteq> held s k 0" using assms(3) by (simp add: held_def [of s 0])
  then show ?thesis using resting_held(2) [OF assms(1,2), of m 0] Suc by auto
qed

text \<open>A node whose subtree holds what is asked for only asks below, so its layer bounds the calls; any other
  node asks its parent for the rest, and the root drops what it does not know.\<close>

lemma locate_total:
  fixes w :: "('r, 'f, 'd) world"
  assumes R: "region_ok R E" and k: "k \<le> 30" and g: "good k fl s"
  shows "\<lbrakk>in_net k l j; tree_world k w; caches_right R E k d w; own_of R E k d w = s; resting fl s (E region);
    E region \<subseteq> held s l j \<and> l < n \<or> 2 * k < n + l\<rbrakk> \<Longrightarrow>
    \<exists>info w'. locate_f R n (nd l j) d region w = Some (info, w') \<and> covered E info \<subseteq> E region \<and>
      (\<forall>i < 2 ^ k. E region \<inter> oF s 0 i \<subseteq> covered E info)"
proof (induction n arbitrary: l j region w)
  case 0
  then show ?case by (auto simp: in_net_def)
next
  case (Suc n)
  note net = Suc.prems(1) and w = Suc.prems(2) and cr = Suc.prems(3) and own = Suc.prems(4) and se = Suc.prems(5)
  obtain es where es: "services w (nd l j) = Some (service_at k l j es)" using tree_worldD [OF w net] by blast
  define svc where "svc = service_at k l j es"
  obtain e svc1 where e: "get_entry R d svc = (e, svc1)" by (cases "get_entry R d svc")
  obtain info0 up lp rp where lh: "locate_here R (nd l j) (l = k) e region = (info0, up, lp, rp)"
    by (cases "locate_here R (nd l j) (l = k) e region")
  note cov = locate_here_covers [OF R lh]
  define w1 where "w1 = set_entry (nd l j) d e svc1 w"
  have ent: "entry_at R w d (nd l j) = e" using es e by (simp add: entry_at_def svc_def)
  have F: "E (full e) = oF s l j" "E (left_part e) = oL s l j" "E (right_part e) = oR s l j"
    using net ent own [symmetric] by (simp_all add: own_of_def)
  have leaf: "isLeaf (nd l j) \<longleftrightarrow> l = 0" using net k by (intro isLeaf_nd) (simp add: in_net_def)
  have c0: "right_info E k (own_of R E k d w) (location_cache e)" using cr net ent unfolding caches_right_def by blast
  let ?ok = "\<lambda>v. tree_world k v \<and> caches_right R E k d v \<and> own_of R E k d v = s"
  have ok1: "?ok w1"
    using set_cache_sim [OF w k net es [folded svc_def] e refl refl refl] cr c0 own by (auto simp: w1_def only_caches_def)
  have sub: "\<exists>i v'. (if r_empty R p then Some ([], v) else locate_f R n t d p v) = Some (i, v') \<and> ?ok v' \<and>
      covered E i \<subseteq> E p \<and> (\<forall>i' < 2 ^ k. E p \<inter> oF s 0 i' \<subseteq> covered E i)"
    if v: "?ok v" and p: "E p \<subseteq> E region" and t: "\<not> r_empty R p \<Longrightarrow> \<exists>l' j'. in_net k l' j' \<and> t = nd l' j' \<and>
      (E p \<subseteq> held s l' j' \<and> l' < n \<or> 2 * k < n + l')" for p t and v :: "('r, 'f, 'd) world"
  proof (cases "r_empty R p")
    case True
    then show ?thesis using v by (simp add: region_simps [OF R])
  next
    case False
    obtain l' j' where lj: "in_net k l' j'" "t = nd l' j'" "E p \<subseteq> held s l' j' \<and> l' < n \<or> 2 * k < n + l'" using t [OF False] by blast
    obtain i v' where i: "locate_f R n t d p v = Some (i, v')" "covered E i \<subseteq> E p" "\<forall>i' < 2 ^ k. E p \<inter> oF s 0 i' \<subseteq> covered E i"
      using Suc.IH [OF lj(1) _ _ _ resting_mono [OF se p] lj(3), of v] v lj(2) by blast
    have "?ok v'" using locate_sim [OF R k lj(1) _ _ i(1) [unfolded lj(2)]] v by (auto simp: only_caches_def)
    then show ?thesis using i False by auto
  qed
  let ?rt = "target_of (right_id svc) (nd l j) (right_node svc)" and ?lt = "target_of None (nd l j) (left_node svc)"
    and ?pt = "target_of (parent_id svc) (nd l j) (parent_node svc)"
  have fuel: "l < Suc n \<or> 2 * k < Suc n + l" using Suc.prems(6) by blast
  have lk: "l \<le> k" using net by (simp add: in_net_def)
  have virt: "\<exists>m. l = Suc m \<and> m < n" if "\<not> r_empty R lp \<or> \<not> r_empty R rp"
    using that locate_here_parts(2) [OF R lh] leaf fuel lk by (cases l) auto
  have child: "E p \<subseteq> E region \<Longrightarrow> E p \<subseteq> side s m i \<Longrightarrow> m < k \<Longrightarrow> i < 2 ^ (k - m) \<Longrightarrow> E p \<subseteq> held s m i" for p m i
    using resting_held(1) [OF g se, of m i] by blast
  have rt: "\<exists>l' j'. in_net k l' j' \<and> ?rt = nd l' j' \<and> (E rp \<subseteq> held s l' j' \<and> l' < n \<or> 2 * k < n + l')"
    if ne: "\<not> r_empty R rp"
  proof -
    obtain m where m: "l = Suc m" "m < n" using virt ne by blast
    have c: "in_net k m (Suc (2 * j))" using in_net_child net m by blast
    have "E rp \<subseteq> held s m (Suc (2 * j))"
      using child [of rp m "Suc (2 * j)"] cov(1,3) F m(1) c lk by (simp add: side_def in_net_def)
    then show ?thesis using c m target_right [of k m j es] by (intro exI [of _ m] exI [of _ "Suc (2 * j)"]) (simp add: svc_def)
  qed
  have lt: "\<exists>l' j'. in_net k l' j' \<and> ?lt = nd l' j' \<and> (E lp \<subseteq> held s l' j' \<and> l' < n \<or> 2 * k < n + l')"
    if ne: "\<not> r_empty R lp"
  proof -
    obtain m where m: "l = Suc m" "m < n" using virt ne by blast
    have c: "in_net k m (2 * j)" using in_net_child net m by blast
    have "E lp \<subseteq> held s m (2 * j)"
      using child [of lp m "2 * j"] cov(1,2) F m(1) c lk by (simp add: side_def in_net_def)
    then show ?thesis using c m target_left [of m j] by (intro exI [of _ m] exI [of _ "2 * j"]) (simp add: svc_def)
  qed
  have pt: "\<exists>l' j'. in_net k l' j' \<and> ?pt = nd l' j' \<and> (E up \<subseteq> held s l' j' \<and> l' < n \<or> 2 * k < n + l')"
    if ne: "\<not> r_empty R up"
  proof -
    have "l \<noteq> k" using locate_here_parts(1) [OF R lh] ne by blast
    then have c: "in_net k (Suc l) (j div 2)" using in_net_parent [OF net] lk by simp
    have "\<not> E region \<subseteq> held s l j"
    proof
      assume h: "E region \<subseteq> held s l j"
      have "E region \<inter> held s l j = E region \<inter> (if l = 0 then oF s 0 j else oL s l j \<union> oR s l j)"
        using resting_held(2) [OF g se] by (cases l) (simp_all add: held_def [of s 0])
      then have "E up \<subseteq> (if l = 0 then oF s 0 j else oL s l j \<union> oR s l j)" using h cov(1) by blast
      moreover have "E up \<inter> (if l = 0 then oF s 0 j else oL s l j \<union> oR s l j) = {}"
        using cov(4) F leaf by (cases "l = 0") simp_all
      ultimately have "E up = {}" by blast
      then show False using ne by (simp add: region_simps [OF R])
    qed
    then have "2 * k < n + Suc l" using Suc.prems(6) by simp
    then show ?thesis using c target_parent [of k l j es] by (intro exI [of _ "Suc l"] exI [of _ "j div 2"]) (simp add: svc_def)
  qed
  have eq: "locate_f R (Suc n) (nd l j) d region w = do {
     (rinfo, w2) \<leftarrow> (if r_empty R rp then Some ([], w1) else locate_f R n ?rt d rp w1);
     (linfo, w3) \<leftarrow> (if r_empty R lp then Some ([], w2) else locate_f R n ?lt d lp w2);
     (pinfo, w4) \<leftarrow> (if r_empty R up then Some ([], w3) else locate_f R n ?pt d up w3);
     svc4 \<leftarrow> services w4 (nd l j);
     let (e4, svc5) = get_entry R d svc4;
     let answers = rinfo @ linfo @ pinfo;
     let e5 = e4\<lparr>location_cache := foldl (\<lambda>c (rank, part). add_part R rank part c) (location_cache e4) answers\<rparr>;
     Some (foldl (\<lambda>i (rank, part). add_part R rank part i) info0 answers, set_entry (nd l j) d e5 svc5 w4)}"
    using es e lh by (simp add: svc_def w1_def Let_def)
  have subs: "E rp \<subseteq> E region" "E lp \<subseteq> E region" "E up \<subseteq> E region" using cov(1) by auto
  obtain rinfo w2 where r: "(if r_empty R rp then Some ([], w1) else locate_f R n ?rt d rp w1) = Some (rinfo, w2)" "?ok w2"
    "covered E rinfo \<subseteq> E rp" "\<forall>i < 2 ^ k. E rp \<inter> oF s 0 i \<subseteq> covered E rinfo" using sub [OF ok1 subs(1) rt] by blast
  obtain linfo w3 where lf: "(if r_empty R lp then Some ([], w2) else locate_f R n ?lt d lp w2) = Some (linfo, w3)" "?ok w3"
    "covered E linfo \<subseteq> E lp" "\<forall>i < 2 ^ k. E lp \<inter> oF s 0 i \<subseteq> covered E linfo" using sub [OF r(2) subs(2) lt] by blast
  obtain pinfo w4 where p: "(if r_empty R up then Some ([], w3) else locate_f R n ?pt d up w3) = Some (pinfo, w4)" "?ok w4"
    "covered E pinfo \<subseteq> E up" "\<forall>i < 2 ^ k. E up \<inter> oF s 0 i \<subseteq> covered E pinfo" using sub [OF lf(2) subs(3) pt] by blast
  obtain svc4 where svc4: "services w4 (nd l j) = Some svc4" using tree_worldD [OF _ net, of w4] p(2) by blast
  obtain e4 svc5 where e4: "get_entry R d svc4 = (e4, svc5)" by (cases "get_entry R d svc4")
  let ?info = "foldl (\<lambda>i (rank, part). add_part R rank part i) info0 (rinfo @ linfo @ pinfo)"
  have res: "\<exists>w'. locate_f R (Suc n) (nd l j) d region w = Some (?info, w')"
    unfolding eq r(1) Option.bind.simps prod.case lf(1) p(1) svc4 e4 Let_def by blast
  have c: "covered E ?info = covered E info0 \<union> covered E rinfo \<union> covered E linfo \<union> covered E pinfo"
    unfolding covered_fold [OF R] covered_append by blast
  have "E region \<inter> oF s 0 i \<subseteq> covered E ?info" if i: "i < 2 ^ k" for i
  proof -
    let ?known = "if isLeaf (nd l j) then E (full e) else E (left_part e) \<union> E (right_part e)"
    have "E region \<inter> oF s 0 i \<subseteq> ?known" if "l = k"
      using leaves_at_root [OF g se i] that net F leaf by (auto simp: in_net_def split: if_splits)
    then have "E region \<inter> oF s 0 i \<subseteq> covered E info0 \<union> E up \<union> E lp \<union> E rp"
      using cov(5) by (cases "l = k") auto
    then show ?thesis using spec [OF r(4), of i] spec [OF lf(4), of i] spec [OF p(4), of i] i unfolding c by blast
  qed
  moreover have "covered E ?info \<subseteq> E region" using cov(6) r(3) lf(3) p(3) subs unfolding c by blast
  ultimately show ?case using res by blast
qed

text \<open>A lookup of an element that a virtual node below the root manages but has not granted to a child never returns:
  the node asks its parent, which knows that the node manages the element, and asks the node.\<close>

lemma search_cache_unknown:
  assumes R: "region_ok R E"
  shows "E rem \<inter> covered E cache = {} \<Longrightarrow> search_cache R cache rem info = (info, rem)"
proof (induction cache)
  case (Cons p ps)
  obtain r cached where p: "p = (r, cached)" by (cases p)
  then have "E rem \<inter> E cached = {}" "E rem \<inter> covered E ps = {}" using Cons.prems by auto
  then show ?case using Cons.IH by (simp add: p Let_def region_simps [OF R])
qed simp

lemma locate_never_returns:
  assumes R: "region_ok R E" and k: "k \<le> 30" and net: "in_net k (Suc l) j" "Suc l < k"
    and c: "x \<notin> E (left_part ec) \<union> E (right_part ec) \<union> covered E (location_cache ec)"
    and p: "x \<notin> covered E (location_cache ep)" "x \<in> E (if odd j then right_part ep else left_part ep)"
      "even j \<Longrightarrow> x \<notin> E (right_part ep)"
  shows "tree_world k w \<Longrightarrow> entry_at R w d (nd (Suc l) j) = ec \<Longrightarrow> entry_at R w d (nd (Suc (Suc l)) (j div 2)) = ep \<Longrightarrow>
    E region = {x} \<Longrightarrow>
    locate_f R n (nd (Suc l) j) d region w = None \<and> locate_f R n (nd (Suc (Suc l)) (j div 2)) d region w = None"
proof (induction n arbitrary: w region)
  case (Suc n)
  have netp: "in_net k (Suc (Suc l)) (j div 2)" using in_net_parent [OF net] .
  have nl: "\<not> isLeaf (nd (Suc l) j)" "\<not> isLeaf (nd (Suc (Suc l)) (j div 2))"
    using isLeaf_nd [of "Suc l" j] isLeaf_nd [of "Suc (Suc l)" "j div 2"] net netp k by (auto simp: in_net_def)
  have ne: "\<not> r_empty R region" using Suc.prems(4) by (simp add: region_simps [OF R])
  have sc: "search_cache R (location_cache ec) region [] = ([], region)" "search_cache R (location_cache ep) region [] = ([], region)"
    using search_cache_unknown [OF R] c p(1) Suc.prems(4) by auto
  have keep: "tree_world k (set_entry a d (entry_at R w d a) svc1 w) \<and>
      entry_at R (set_entry a d (entry_at R w d a) svc1 w) d (nd (Suc l) j) = ec \<and>
      entry_at R (set_entry a d (entry_at R w d a) svc1 w) d (nd (Suc (Suc l)) (j div 2)) = ep"
    if a: "a = nd l' j'" "in_net k l' j'" "services w a = Some svc" "get_entry R d svc = (entry_at R w d a, svc1)" for a l' j' svc svc1
    using set_entry_at(1) [OF Suc.prems(1) k a(2) a(3) [unfolded a(1)] a(4), where e = "entry_at R w d a"]
      set_entry_at(2) [OF Suc.prems(1) k a(2) a(3) [unfolded a(1)] a(4), where e = "entry_at R w d a"] a(1) netp net(1) Suc.prems(2,3)
    by auto
  have 1: "locate_f R (Suc n) (nd (Suc l) j) d region w = None"
  proof -
    obtain es where es: "services w (nd (Suc l) j) = Some (service_at k (Suc l) j es)" using tree_worldD [OF Suc.prems(1) net(1)] by blast
    obtain svc1 where e: "get_entry R d (service_at k (Suc l) j es) = (ec, svc1)"
      using Suc.prems(2) es by (cases "get_entry R d (service_at k (Suc l) j es)") (simp add: entry_at_def)
    have emp: "r_empty R (r_inter R region (right_part ec))" "r_empty R (r_inter R region (left_part ec))"
      using c Suc.prems(4) by (auto simp: region_simps [OF R])
    have lh: "locate_here R (nd (Suc l) j) False ec region =
        ([], region, r_inter R region (left_part ec), r_inter R region (right_part ec))"
      using nl(1) ne sc(1) emp by (simp add: locate_here_def Let_def)
    have IH: "locate_f R n (nd (Suc (Suc l)) (j div 2)) d region (set_entry (nd (Suc l) j) d ec svc1 w) = None"
      using Suc.IH [OF _ _ _ Suc.prems(4)] keep [OF refl net(1) es] e Suc.prems(2) by simp
    have "target_of (parent_id (service_at k (Suc l) j es)) (nd (Suc l) j) (nd (Suc (Suc l)) (j div 2)) = nd (Suc (Suc l)) (j div 2)"
      by (rule target_parent)
    then show ?thesis using es e lh net(2) emp ne IH by (simp add: Let_def)
  qed
  moreover have "locate_f R (Suc n) (nd (Suc (Suc l)) (j div 2)) d region w = None"
  proof -
    let ?a = "nd (Suc (Suc l)) (j div 2)"
    obtain es where es: "services w ?a = Some (service_at k (Suc (Suc l)) (j div 2) es)" using tree_worldD [OF Suc.prems(1) netp] by blast
    define svc where "svc = service_at k (Suc (Suc l)) (j div 2) es"
    obtain svc1 where e: "get_entry R d svc = (ep, svc1)"
      using Suc.prems(3) es by (cases "get_entry R d svc") (simp add: entry_at_def svc_def)
    define rpart where "rpart = r_inter R region (right_part ep)"
    define rem3 where "rem3 = (if r_empty R rpart then region else r_diff R region rpart)"
    define lpart where "lpart = r_inter R rem3 (left_part ep)"
    have lh: "\<exists>up. locate_here R ?a (Suc (Suc l) = k) ep region = ([], up, lpart, rpart)"
      using nl(2) ne sc(2) by (simp add: locate_here_def Let_def rpart_def rem3_def lpart_def)
    then obtain up where lh: "locate_here R ?a (Suc (Suc l) = k) ep region = ([], up, lpart, rpart)" by blast
    have IH: "locate_f R n (nd (Suc l) j) d q (set_entry ?a d ep svc1 w) = None" if "E q = {x}" for q
      using Suc.IH [OF _ _ _ that] keep [OF refl netp es] e Suc.prems(3) by (simp add: svc_def)
    have rt: "target_of (right_id svc) ?a (right_node svc) = nd (Suc l) (Suc (2 * (j div 2)))"
      and lt: "target_of None ?a (left_node svc) = nd (Suc l) (2 * (j div 2))"
      using target_right target_left by (simp_all add: svc_def)
    show ?thesis
    proof (cases "odd j")
      case True
      then have "E rpart = {x}" using p(2) Suc.prems(4) by (auto simp: rpart_def region_simps [OF R])
      moreover from this have "\<not> r_empty R rpart" by (simp add: region_simps [OF R])
      moreover have "Suc (2 * (j div 2)) = j" using True by simp
      ultimately show ?thesis using es e lh rt IH [of rpart] by (simp add: svc_def [symmetric] Let_def) (simp add: svc_def)
    next
      case False
      then have "E rpart = {}" "E lpart = {x}" using p(2,3) Suc.prems(4) by (auto simp: rpart_def lpart_def rem3_def region_simps [OF R])
      moreover from this have "r_empty R rpart" "\<not> r_empty R lpart" by (simp_all add: region_simps [OF R])
      moreover have "2 * (j div 2) = j" using False by simp
      ultimately show ?thesis using es e lh lt IH [of lpart] by (simp add: svc_def [symmetric] Let_def) (simp add: svc_def)
    qed
  qed
  ultimately show ?case by blast
qed simp

section \<open>Updating the caches\<close>

lemma update_caches_at:
  assumes w: "tree_world k w" and net: "in_net k l j"
  shows "entry_at R (update_caches R d m rank w) d' (nd l j) =
    (if d' = d then (entry_at R w d (nd l j))\<lparr>location_cache := update_info R rank m (location_cache (entry_at R w d (nd l j)))\<rparr>
     else entry_at R w d' (nd l j))"
proof -
  obtain es where es: "services w (nd l j) = Some (service_at k l j es)" using tree_worldD [OF w net] by blast
  show ?thesis
    by (cases "es d") (simp_all add: es entry_at_def update_caches_def get_entry_def put_entry_def split: option.split)
qed

lemma update_caches_sim:
  assumes w: "tree_world k w"
  shows "tree_world k (update_caches R d m rank w)" "items_of (update_caches R d m rank w) = items_of w"
    "own_of R E k d' (update_caches R d m rank w) = own_of R E k d' w"
proof -
  show "tree_world k (update_caches R d m rank w)"
    unfolding tree_world_def
  proof (intro allI impI)
    fix l j assume "in_net k l j"
    then obtain es where "services w (nd l j) = Some (service_at k l j es)" using tree_worldD [OF w] by blast
    then show "\<exists>es. services (update_caches R d m rank w) (nd l j) = Some (service_at k l j es)"
      by (cases "es d") (auto simp: update_caches_def get_entry_def put_entry_def service_at_def)
  qed
  show "items_of (update_caches R d m rank w) = items_of w" by (simp add: update_caches_def)
  show "own_of R E k d' (update_caches R d m rank w) = own_of R E k d' w"
    by (intro own_record_eqI ext) (auto simp: own_of_def update_caches_at [OF w])
qed

text \<open>Acquiring ownership after the caches have been told about it keeps them right.\<close>

lemma write_acquire_sim:
  assumes R: "region_ok R E" and k: "k \<le> 30" and j: "j < 2 ^ k" and w: "tree_world k w"
    and sh: "shared (items_of w d 0) \<noteq> None" and g: "good k fl (own_of R E k d w)"
    and fl: "\<forall>l j'. E m \<inter> fl l j' = {}" and un: "\<forall>l j'. E m \<inter> unalloc (own_of R E k d w) l j' = {}"
    and cr: "\<forall>d. caches_right R E k d w"
  shows "\<exists>info w'. acquire_ownership R FO (nd 0 j) d m (update_caches R d m (getRank (nd 0 j)) w) = Some (info, w') \<and>
    tree_world k w' \<and> shared (items_of w' d 0) \<noteq> None \<and>
    own_of R E k d w' = own_acquire k j (E m) (own_of R E k d w) \<and> good k fl (own_of R E k d w') \<and>
    (\<forall>d'. d' \<noteq> d \<longrightarrow> own_of R E k d' w' = own_of R E k d' w) \<and> (\<forall>d. caches_right R E k d w')"
proof -
  let ?u = "update_caches R d m (getRank (nd 0 j)) w" and ?s = "own_of R E k d w"
  note u = update_caches_sim [where R = R and d = d and m = m and rank = "getRank (nd 0 j)", OF w]
  obtain info w' where a: "acquire_ownership R FO (nd 0 j) d m ?u = Some (info, w')"
    "own_of R E k d w' = own_acquire k j (E m) ?s" "keeps R E k d ?u w'"
    using acquire_sim [OF R k j u(1), of d FO m] sh u(2) u(3) [where E = E and d' = d] by auto
  note ga = own_acquire_good [OF g j fl un]
  have other: "own_of R E k d' w' = own_of R E k d' w" if "d' \<noteq> d" for d'
    using a(3) u(3) [where E = E] that by (simp add: keeps_def)
  have "caches_right R E k d' w'" for d'
    unfolding caches_right_def
  proof (intro allI impI)
    fix l j' assume net: "in_net k l j'"
    let ?c = "location_cache (entry_at R w d' (nd l j'))"
    have c: "right_info E k (own_of R E k d' w) ?c" using cr net unfolding caches_right_def by blast
    have eq: "location_cache (entry_at R w' d' (nd l j')) =
        (if d' = d then update_info R (getRank (nd 0 j)) m ?c else ?c)"
      using a(3) net update_caches_at [OF w net, of R d m "getRank (nd 0 j)" d'] by (simp add: keeps_def)
    show "right_info E k (own_of R E k d' w') (location_cache (entry_at R w' d' (nd l j')))"
    proof (cases "d' = d")
      case False
      then show ?thesis using eq other c by simp
    next
      case True
      have rk: "unat (getRank (nd 0 j)) = j" using unat_rank_nd [of k 0 j] j k by (simp add: in_net_def)
      have "located E (update_info R (getRank (nd 0 j)) m ?c) r \<subseteq> owned k (own_acquire k j (E m) ?s) r" for r
      proof -
        have l: "located E (update_info R (getRank (nd 0 j)) m ?c) r =
            (located E ?c r - E m) \<union> (if r = getRank (nd 0 j) then covered E ?c \<inter> E m else {})"
          by (rule located_update_info [OF R])
        have o: "located E ?c r \<subseteq> owned k ?s r" using c True by (simp add: right_info_def)
        show ?thesis
        proof (cases "r = getRank (nd 0 j)")
          case True
          then show ?thesis using l o ga j rk by (auto simp: owned_def)
        next
          case False
          then have "unat r \<noteq> j" using rk by (metis word_unat_eq_iff)
          then have "oF ?s 0 (unat r) - E m \<subseteq> oF (own_acquire k j (E m) ?s) 0 (unat r)" using ga by blast
          then show ?thesis using False l o by (auto simp: owned_def split: if_splits)
        qed
      qed
      then show ?thesis using True eq a(2) by (simp add: right_info_def)
    qed
  qed
  then show ?thesis using a other ga by (auto simp: keeps_def)
qed

section \<open>Runs\<close>

text \<open>The services that exist on a network of num localities: one for each layer of each rank.  No item
  exists yet.\<close>

definition start_world :: "'r region_ops \<Rightarrow> size_t \<Rightarrow> ('r, 'f, 'd) world" where
  "start_world R num = \<lparr>
    services = (\<lambda>a. case getLayersOn (getRank a) num of
        Some n \<Rightarrow> if getRank a < num \<and> getLayer a < n then new_index_service num (getRank a) a else None
      | None \<Rightarrow> None),
    items_of = (\<lambda>_ _. new_item R)\<rparr>"

text \<open>A run on 2^k localities; fl d l j is the part of the item d that the parent of the node (l, j) has
  granted to it and that has not arrived.  An allowance consists of what has been granted to the node
  or what it has anyway; only the root takes new elements.  A write acquisition at a leaf asks for
  elements that are not on their way and that no virtual node manages unallocated: those are granted by
  the allowance of the task instead.  A read acquisition locates and copies data.\<close>

inductive index_run ::
    "'r region_ops \<Rightarrow> ('r \<Rightarrow> 'e set) \<Rightarrow> ('r, 'f, 'x) fragment_ops \<Rightarrow> nat \<Rightarrow>
     (data_item_id \<Rightarrow> nat \<Rightarrow> nat \<Rightarrow> 'e set) \<Rightarrow> ('r, 'f, 'd) world \<Rightarrow> bool"
  for R E FO k where
  start: "index_run R E FO k (\<lambda>_. none_at) (start_world R (2 ^ k))"
| create: "index_run R E FO k fl w \<Longrightarrow> index_run R E FO k fl (create_item 0 d sd w)"
| allow: "\<lbrakk>index_run R E FO k fl w; in_net k l j; shared (items_of w (req_id req) 0) \<noteq> None;
    l = k \<or> write_allowance E req \<subseteq> fl (req_id req) l j \<union> oF (own_of R E k (req_id req) w) l j;
    add_allowance_req R FO (nd l j) req w = Some w'\<rbrakk> \<Longrightarrow>
    index_run R E FO k
      (fl(req_id req := upd (fl (req_id req)) l j (fl (req_id req) l j - write_allowance E req))) w'"
| left: "\<lbrakk>index_run R E FO k fl w; in_net k (Suc l) j; shared (items_of w (req_id req) 0) \<noteq> None;
    req_mode req = ReadWrite;
    Suc l = k \<or> E (req_allowance req) \<subseteq> fl (req_id req) (Suc l) j \<union> oF (own_of R E k (req_id req) w) (Suc l) j;
    add_allowance_left_req R (nd (Suc l) j) req w = Some (req', w');
    fl1 = upd (fl (req_id req)) (Suc l) j (fl (req_id req) (Suc l) j - E (req_allowance req))\<rbrakk> \<Longrightarrow>
    index_run R E FO k
      (fl(req_id req := upd fl1 l (2 * j) (fl1 l (2 * j) \<union> E (req_allowance req')))) w'"
| right: "\<lbrakk>index_run R E FO k fl w; in_net k (Suc l) j; shared (items_of w (req_id req) 0) \<noteq> None;
    req_mode req = ReadWrite;
    Suc l = k \<or> E (req_allowance req) \<subseteq> fl (req_id req) (Suc l) j \<union> oF (own_of R E k (req_id req) w) (Suc l) j;
    add_allowance_right_req R (nd (Suc l) j) req w = Some (req', w');
    fl1 = upd (fl (req_id req)) (Suc l) j (fl (req_id req) (Suc l) j - E (req_allowance req))\<rbrakk> \<Longrightarrow>
    index_run R E FO k
      (fl(req_id req := upd fl1 l (2 * j + 1) (fl1 l (2 * j + 1) \<union> E (req_allowance req')))) w'"
| acquire_write: "\<lbrakk>index_run R E FO k fl w; j < 2 ^ k; shared (items_of w (req_id req) 0) \<noteq> None;
    req_mode req = ReadWrite;
    m = E (req_region req) - oF (own_of R E k (req_id req) w) 0 j;
    \<forall>l j'. m \<inter> fl (req_id req) l j' = {} \<and> m \<inter> unalloc (own_of R E k (req_id req) w) l j' = {};
    acquire_req R FO fuel (nd 0 j) req w = Some w'\<rbrakk> \<Longrightarrow> index_run R E FO k fl w'"
| acquire_read: "\<lbrakk>index_run R E FO k fl w; j < 2 ^ k; shared (items_of w (req_id req) 0) \<noteq> None;
    req_mode req = ReadOnly; acquire_req R FO fuel (nd 0 j) req w = Some w'\<rbrakk> \<Longrightarrow> index_run R E FO k fl w'"

definition run_inv ::
    "'r region_ops \<Rightarrow> ('r \<Rightarrow> 'e set) \<Rightarrow> nat \<Rightarrow> (data_item_id \<Rightarrow> nat \<Rightarrow> nat \<Rightarrow> 'e set) \<Rightarrow> ('r, 'f, 'd) world \<Rightarrow> bool" where
  "run_inv R E k fl w \<longleftrightarrow> tree_world k w \<and> (\<forall>d. good k (fl d) (own_of R E k d w) \<and> caches_right R E k d w)"

lemma run_inv_keeps:
  assumes "run_inv R E k fl w" and kp: "keeps R E k d w w'"
    and g: "good k f (own_of R E k d w')"
    and mono: "\<And>i. i < 2 ^ k \<Longrightarrow> oF (own_of R E k d w) 0 i \<subseteq> oF (own_of R E k d w') 0 i"
  shows "run_inv R E k (fl(d := f)) w'"
  unfolding run_inv_def
proof (intro conjI allI)
  show "tree_world k w'" using kp by (simp add: keeps_def)
  fix d'
  have own: "d' \<noteq> d \<Longrightarrow> own_of R E k d' w' = own_of R E k d' w" using kp by (simp add: keeps_def)
  show "good k ((fl(d := f)) d') (own_of R E k d' w')"
    using assms(1) g own by (cases "d' = d") (auto simp: run_inv_def)
  show "caches_right R E k d' w'"
  proof (rule caches_right_keeps [OF _ kp])
    show "caches_right R E k d' w" using assms(1) by (simp add: run_inv_def)
    show "oF (own_of R E k d' w) 0 i \<subseteq> oF (own_of R E k d' w') 0 i" if "i < 2 ^ k" for i
      using mono [OF that] own by (cases "d' = d") auto
  qed
qed

lemma layers_in_net:
  assumes net: "in_net k l j" and k: "k \<le> 30"
  shows "\<exists>n. getLayersOn (getRank (nd l j)) (2 ^ k) = Some n \<and> getLayer (nd l j) < n"
proof (cases "getRank (nd l j) = 0")
  case True
  have u: "unat ((2 :: size_t) ^ k) = 2 ^ k" using k by (simp add: unat_two_power)
  have "(2 :: nat) ^ k \<le> 2 ^ 31" using k by (intro power_increasing) simp_all
  then have "(2 :: size_t) ^ k \<le> 2 ^ 31" "(0 :: size_t) < 2 ^ k"
    using u unat_two_power [of 31] by (simp_all add: word_le_nat_alt word_less_nat_alt)
  then obtain n where n: "n \<le> 31" "getLayersOn 0 (2 ^ k) = Some (word_of_nat (n + 1))" "unat ((2 :: size_t) ^ k) \<le> 2 ^ n"
    using getRootOfNetworkSize_eq [of "2 ^ k"] by metis
  have "k \<le> n" using n(3) u by simp
  then have "getLayer (nd l j) < word_of_nat (n + 1)"
    using n(1) net unat_layer_nd [OF net k] unat_word_of_nat_layer [of "n + 1"]
    by (simp add: word_less_nat_alt in_net_def)
  then show ?thesis using n(2) True by simp
next
  case False
  then obtain n where n: "getLayersOn (getRank (nd l j)) (2 ^ k) = Some n"
    "\<And>layer. layer < n \<longleftrightarrow> check (HierarchyAddress (getRank (nd l j)) layer)" by (rule getLayersOn_check) blast
  have "\<not> bit (getRank (nd l j)) i" if "i < l" for i
  proof -
    define r where "r = j * 2 ^ l"
    have "\<not> bit r i" using that by (simp add: r_def bit_push_bit_iff flip: push_bit_eq_mult)
    then show ?thesis unfolding nd_simps r_def [symmetric] by (simp add: bit_of_nat_iff)
  qed
  then have "check (nd l j)" using unat_layer_nd [OF net k] by (simp add: check_iff)
  then show ?thesis using n by auto
qed

lemma start_services:
  fixes R :: "'r region_ops" and w :: "('r, 'f, 'd) world"
  assumes k: "k \<le> 30" and w: "w = start_world R (2 ^ k)" and net: "in_net k l j"
  shows "services w (nd l j) = Some (service_at k l j (\<lambda>_. None))" and "entry_at R w d (nd l j) = new_entry R"
proof -
  have "getRank (nd l j) < 2 ^ k"
    using in_net_rank(2) [OF net k] unat_rank_nd [OF net k] k by (simp add: word_less_nat_alt unat_two_power)
  then show "services w (nd l j) = Some (service_at k l j (\<lambda>_. None))"
    using layers_in_net [OF net k] new_index_service_nd [OF net k] w by (auto simp: start_world_def)
  then show "entry_at R w d (nd l j) = new_entry R" by (simp add: entry_at_def get_entry_def)
qed

lemma start_own:
  fixes R :: "'r region_ops" and w :: "('r, 'f, 'd) world"
  assumes R: "region_ok R E" and k: "k \<le> 30" and w: "w = start_world R (2 ^ k)"
  shows "own_of R E k d w = \<lparr>oF = none_at, oL = none_at, oR = none_at\<rparr>"
  using start_services(2) [OF k w]
  by (intro own_record_eqI ext) (auto simp: own_of_def new_entry_def region_simps [OF R])

lemma start_world_inv:
  fixes R :: "'r region_ops" and w :: "('r, 'f, 'd) world"
  assumes R: "region_ok R E" and k: "k \<le> 30" and w: "w = start_world R (2 ^ k)"
  shows "run_inv R E k (\<lambda>_. none_at) w"
  unfolding run_inv_def
proof (intro conjI allI)
  show "tree_world k w" using start_services(1) [OF k w] by (auto simp: tree_world_def)
  show "good k none_at (own_of R E k d w)" for d unfolding start_own [OF R k w] by (rule own_empty_good)
  show "caches_right R E k d w" for d
    using start_services(2) [OF k w] by (simp add: caches_right_def new_entry_def)
qed

lemma run_inv_left:
  assumes R: "region_ok R E" and k: "k \<le> 30" and inv: "run_inv R E k fl w" and net: "in_net k (Suc l) j"
    and sh: "shared (items_of w (req_id req) 0) \<noteq> None" and rw: "req_mode req = ReadWrite"
    and A: "Suc l = k \<or> E (req_allowance req) \<subseteq> fl (req_id req) (Suc l) j \<union> oF (own_of R E k (req_id req) w) (Suc l) j"
    and a: "add_allowance_left_req R (nd (Suc l) j) req w = Some (req', w')"
    and fl1: "fl1 = upd (fl (req_id req)) (Suc l) j (fl (req_id req) (Suc l) j - E (req_allowance req))"
  shows "run_inv R E k (fl(req_id req := upd fl1 l (2 * j) (fl1 l (2 * j) \<union> E (req_allowance req')))) w'"
proof -
  let ?d = "req_id req"
  let ?s = "own_of R E k ?d w" and ?A = "E (req_allowance req)" and ?Q = "E (req_region req)"
  have w: "tree_world k w" and g: "good k (fl ?d) ?s" using inv by (simp_all add: run_inv_def)
  have G: "E (req_allowance req') = left_grant (Suc l) j ?A ?Q ?s"
    and own: "own_of R E k ?d w' = own_add_left (Suc l) j ?A ?Q ?s" and kp: "keeps R E k ?d w w'"
  proof -
    obtain G w2 where s: "add_allowance_left_req R (nd (Suc l) j) req w = Some (req\<lparr>req_allowance := G\<rparr>, w2)"
      "E G = left_grant (Suc l) j ?A ?Q ?s" "own_of R E k ?d w2 = own_add_left (Suc l) j ?A ?Q ?s" "keeps R E k ?d w w2"
      using left_sim [OF R k net w sh rw] by blast
    have "req' = req\<lparr>req_allowance := G\<rparr>" "w' = w2" using s(1) a by simp_all
    then show "E (req_allowance req') = left_grant (Suc l) j ?A ?Q ?s"
      "own_of R E k ?d w' = own_add_left (Suc l) j ?A ?Q ?s" "keeps R E k ?d w w'" using s by simp_all
  qed
  have g1: "good k fl1 (own_add_full (Suc l) j ?A ?s)" unfolding fl1 by (rule own_grow_good [OF g A])
  have lk: "l < k" using net by (simp add: in_net_def)
  let ?G = "left_grant (Suc l) j ?A ?Q ?s"
  have "good k (upd fl1 l (2 * j) (fl1 l (2 * j) \<union> ?G)) (own_add_left (Suc l) j ?A ?Q ?s)"
    unfolding own_add_left_eq Let_def
    by (rule grant_left_good [OF g1 lk]) (auto simp: left_grant_def own_add_full_def)
  then show ?thesis
    unfolding G by (intro run_inv_keeps [OF inv kp]) (simp_all add: own own_add_left_def)
qed

lemma run_inv_right:
  assumes R: "region_ok R E" and k: "k \<le> 30" and inv: "run_inv R E k fl w" and net: "in_net k (Suc l) j"
    and sh: "shared (items_of w (req_id req) 0) \<noteq> None" and rw: "req_mode req = ReadWrite"
    and A: "Suc l = k \<or> E (req_allowance req) \<subseteq> fl (req_id req) (Suc l) j \<union> oF (own_of R E k (req_id req) w) (Suc l) j"
    and a: "add_allowance_right_req R (nd (Suc l) j) req w = Some (req', w')"
    and fl1: "fl1 = upd (fl (req_id req)) (Suc l) j (fl (req_id req) (Suc l) j - E (req_allowance req))"
  shows "run_inv R E k (fl(req_id req := upd fl1 l (2 * j + 1) (fl1 l (2 * j + 1) \<union> E (req_allowance req')))) w'"
proof -
  let ?d = "req_id req"
  let ?s = "own_of R E k ?d w" and ?A = "E (req_allowance req)" and ?Q = "E (req_region req)"
  have w: "tree_world k w" and g: "good k (fl ?d) ?s" using inv by (simp_all add: run_inv_def)
  have G: "E (req_allowance req') = right_grant (Suc l) j ?A ?Q ?s"
    and own: "own_of R E k ?d w' = own_add_right (Suc l) j ?A ?Q ?s" and kp: "keeps R E k ?d w w'"
  proof -
    obtain G w2 where s: "add_allowance_right_req R (nd (Suc l) j) req w = Some (req\<lparr>req_allowance := G\<rparr>, w2)"
      "E G = right_grant (Suc l) j ?A ?Q ?s" "own_of R E k ?d w2 = own_add_right (Suc l) j ?A ?Q ?s" "keeps R E k ?d w w2"
      using right_sim [OF R k net w sh rw] by blast
    have "req' = req\<lparr>req_allowance := G\<rparr>" "w' = w2" using s(1) a by simp_all
    then show "E (req_allowance req') = right_grant (Suc l) j ?A ?Q ?s"
      "own_of R E k ?d w' = own_add_right (Suc l) j ?A ?Q ?s" "keeps R E k ?d w w'" using s by simp_all
  qed
  have g1: "good k fl1 (own_add_full (Suc l) j ?A ?s)" unfolding fl1 by (rule own_grow_good [OF g A])
  have lk: "l < k" using net by (simp add: in_net_def)
  let ?G = "right_grant (Suc l) j ?A ?Q ?s"
  have "good k (upd fl1 l (2 * j + 1) (fl1 l (2 * j + 1) \<union> ?G)) (own_add_right (Suc l) j ?A ?Q ?s)"
    unfolding own_add_right_eq Let_def
    by (rule grant_right_good [OF g1 lk]) (auto simp: right_grant_def own_add_full_def)
  then show ?thesis
    unfolding G by (intro run_inv_keeps [OF inv kp]) (simp_all add: own own_add_right_def)
qed

lemma run_inv_allow:
  assumes R: "region_ok R E" and k: "k \<le> 30" and inv: "run_inv R E k fl w" and net: "in_net k l j"
    and sh: "shared (items_of w (req_id req) 0) \<noteq> None"
    and A: "l = k \<or> write_allowance E req \<subseteq> fl (req_id req) l j \<union> oF (own_of R E k (req_id req) w) l j"
    and a: "add_allowance_req R FO (nd l j) req w = Some w'"
  shows "run_inv R E k (fl(req_id req := upd (fl (req_id req)) l j (fl (req_id req) l j - write_allowance E req))) w'"
proof -
  let ?d = "req_id req"
  have w: "tree_world k w" and g: "good k (fl ?d) (own_of R E k ?d w)" using inv by (simp_all add: run_inv_def)
  have kp: "keeps R E k ?d w w'"
    and own: "own_of R E k ?d w' = own_add_full l j (write_allowance E req) (own_of R E k ?d w)"
    using allowance_sim [OF R k net w sh, of FO] a by auto
  show ?thesis
    using own_grow_good [OF g A] by (intro run_inv_keeps [OF inv kp]) (auto simp: own own_add_full_def)
qed

lemma run_inv_write:
  assumes R: "region_ok R E" and k: "k \<le> 30" and inv: "run_inv R E k fl w" and j: "j < 2 ^ k"
    and sh: "shared (items_of w (req_id req) 0) \<noteq> None" and rw: "req_mode req = ReadWrite"
    and m: "m = E (req_region req) - oF (own_of R E k (req_id req) w) 0 j"
    and un: "\<forall>l j'. m \<inter> fl (req_id req) l j' = {} \<and> m \<inter> unalloc (own_of R E k (req_id req) w) l j' = {}"
    and a: "acquire_req R FO fuel (nd 0 j) req w = Some w'"
  shows "run_inv R E k fl w'"
proof -
  let ?d = "req_id req"
  define ms where "ms = r_diff R (req_region req) (full (entry_at R w ?d (nd 0 j)))"
  have w: "tree_world k w" and g: "good k (fl ?d) (own_of R E k ?d w)" and cr: "\<forall>d. caches_right R E k d w"
    using inv by (simp_all add: run_inv_def)
  have net: "in_net k 0 j" using j by (simp add: in_net_def)
  have Em: "E ms = m" using net by (simp add: ms_def m own_of_def region_simps [OF R])
  obtain es where es: "services w (nd 0 j) = Some (service_at k 0 j es)" using tree_worldD [OF w net] by blast
  show ?thesis
  proof (cases "r_empty R ms")
    case True
    then show ?thesis using a inv es rw by (simp add: acquire_req_def ms_def)
  next
    case False
    have "\<forall>l j'. E ms \<inter> fl ?d l j' = {}" "\<forall>l j'. E ms \<inter> unalloc (own_of R E k ?d w) l j' = {}" using un Em by auto
    then obtain info w1 where q: "acquire_ownership R FO (nd 0 j) ?d ms (update_caches R ?d ms (getRank (nd 0 j)) w) = Some (info, w1)"
      "tree_world k w1" "shared (items_of w1 ?d 0) \<noteq> None" "good k (fl ?d) (own_of R E k ?d w1)"
      "\<forall>d'. d' \<noteq> ?d \<longrightarrow> own_of R E k d' w1 = own_of R E k d' w" "\<forall>d. caches_right R E k d w1"
      using write_acquire_sim [OF R k j w sh g _ _ cr, of ms FO] by blast
    then have inv1: "run_inv R E k fl w1" using inv unfolding run_inv_def by (metis (full_types))
    have "transfer_parts R FO ?d True (unat (getRank (nd 0 j))) (info_parts info) w1 = Some w'"
      using a es rw False q(1) by (simp add: acquire_req_def ms_def)
    from transfer_keeps [OF this q(2,3), of E]
    have "run_inv R E k (fl(?d := fl ?d)) w'" using q(4) by (intro run_inv_keeps [OF inv1]) auto
    then show ?thesis by simp
  qed
qed

lemma run_inv_read:
  assumes R: "region_ok R E" and k: "k \<le> 30" and inv: "run_inv R E k fl w" and j: "j < 2 ^ k"
    and sh: "shared (items_of w (req_id req) 0) \<noteq> None" and ro: "req_mode req = ReadOnly"
    and a: "acquire_req R FO fuel (nd 0 j) req w = Some w'"
  shows "run_inv R E k fl w'"
proof -
  let ?d = "req_id req"
  obtain info w1 where q: "locate_f R fuel (nd 0 j) ?d (req_region req) w = Some (info, w1)"
    "transfer_parts R FO ?d False (unat (getRank (nd 0 j))) (info_parts info) w1 = Some w'"
    using a ro by (auto simp: acquire_req_def Option.bind_eq_Some_conv)
  have net: "in_net k 0 j" using j by (simp add: in_net_def)
  have "only_caches R E k ?d w w1 \<and> caches_right R E k ?d w1"
    using locate_sim [OF R k net _ _ q(1)] inv by (auto simp: run_inv_def)
  then have inv1: "run_inv R E k fl w1" and it: "items_of w1 = items_of w"
    using inv by (auto simp: run_inv_def only_caches_def) (metis (full_types))
  have w1: "tree_world k w1" "shared (items_of w1 ?d 0) \<noteq> None" using inv1 sh it by (auto simp: run_inv_def)
  from transfer_keeps [OF q(2) w1, of E]
  have "run_inv R E k (fl(?d := fl ?d)) w'" using inv1 by (intro run_inv_keeps [OF inv1]) (auto simp: run_inv_def)
  then show ?thesis by simp
qed

lemma run_inv_create: "run_inv R E k fl w \<Longrightarrow> run_inv R E k fl (create_item 0 d sd w)"
  by (simp add: run_inv_def create_item_def caches_right_def)

lemma index_run_inv:
  assumes R: "region_ok R E" and k: "k \<le> 30"
  shows "index_run R E FO k fl w \<Longrightarrow> run_inv R E k fl w"
proof (induction rule: index_run.induct)
  case start
  show ?case by (rule start_world_inv [OF R k refl])
next
  case (create fl w d sd)
  then show ?case by (intro run_inv_create)
next
  case (allow fl w l j req w')
  show ?case by (rule run_inv_allow [OF R k allow.IH]) (fact allow.hyps)+
next
  case (left fl w l j req req' w' fl1)
  show ?case by (rule run_inv_left [OF R k left.IH]) (fact left.hyps)+
next
  case (right fl w l j req req' w' fl1)
  show ?case by (rule run_inv_right [OF R k right.IH]) (fact right.hyps)+
next
  case (acquire_write fl w j req m fuel w')
  show ?case by (rule run_inv_write [OF R k acquire_write.IH]) (fact acquire_write.hyps)+
next
  case (acquire_read fl w j req fuel w')
  show ?case by (rule run_inv_read [OF R k acquire_read.IH]) (fact acquire_read.hyps)+
qed

section \<open>A run\<close>

text \<open>On two localities: an item of two elements is created, the root takes both, and the left and the
  right leaf get one each.\<close>

definition demo_item :: data_item_id where
  "demo_item = data_item_id 0 0"

definition demo_req :: "uint8_t \<Rightarrow> uint8_t \<Rightarrow> uint8_t requirement" where
  "demo_req region allowance =
    (createDataItemRequirement mask_regions demo_item region ReadWrite)\<lparr>req_allowance := allowance\<rparr>"

lemma demo_req_sel [simp]:
  "req_id (demo_req x y) = demo_item" "req_region (demo_req x y) = x" "req_allowance (demo_req x y) = y"
  "req_mode (demo_req x y) = ReadWrite"
  by (simp_all add: demo_req_def createDataItemRequirement_def)

lemma mask_elems_byte:
  "mask_elems 0 = {}" "mask_elems 1 = {0}" "mask_elems 2 = {1}" "mask_elems 3 = {0, 1}"
proof -
  have "mask_elems x = set (filter (bit x) [0..<8])" for x
    using byte_bit_less [of x] by (auto simp: mask_elems_def)
  then show "mask_elems 0 = {}" "mask_elems 1 = {0}" "mask_elems 2 = {1}" "mask_elems 3 = {0, 1}"
    by (simp_all add: upt_rec bit_iff_odd)
qed

lemma run_services: "index_run mask_regions mask_elems FO k fl w \<Longrightarrow> k \<le> 30 \<Longrightarrow> tree_world k w"
  using index_run_inv [OF mask_regions_ok] by (fastforce simp: run_inv_def)

lemma demo_run:
  "\<exists>w :: (uint8_t, uint8_t, unit) world. index_run mask_regions mask_elems mask_fragments (Suc 0) (\<lambda>_. none_at) w \<and>
    shared (items_of w demo_item 0) \<noteq> None \<and>
    own_of mask_regions mask_elems (Suc 0) demo_item w = \<lparr>oF = (\<lambda>l j. if l = Suc 0 \<and> j = 0 then {0, 1}
        else if l = 0 \<and> j = 0 then {0} else if l = 0 \<and> j = 1 then {1} else {}),
      oL = (\<lambda>l j. if l = Suc 0 \<and> j = 0 then {0} else {}), oR = (\<lambda>l j. if l = Suc 0 \<and> j = 0 then {1} else {})\<rparr>"
proof -
  note R = mask_regions_ok and d = demo_item_def
  let ?run = "index_run mask_regions mask_elems mask_fragments (Suc 0)" and ?own = "own_of mask_regions mask_elems (Suc 0) demo_item"
  have n: "in_net (Suc 0) (Suc 0) 0" "in_net (Suc 0) (Suc 0) 0" "in_net (Suc 0) 0 0" "in_net (Suc 0) 0 1" by (simp_all add: in_net_def)
  define w1 :: "(uint8_t, uint8_t, unit) world" where "w1 = create_item 0 demo_item () (start_world mask_regions (2 ^ Suc 0))"
  have r1: "?run (\<lambda>_. none_at) w1" unfolding w1_def by (intro index_run.create index_run.start)
  have s1: "shared (items_of w1 demo_item 0) \<noteq> None" by (simp add: w1_def create_item_def)
  have o1: "?own w1 = \<lparr>oF = none_at, oL = none_at, oR = none_at\<rparr>"
    using start_own [OF R, of "Suc 0", where d = demo_item] by (simp add: w1_def create_item_def)
  have t1: "tree_world (Suc 0) w1" using run_services [OF r1] by simp
  obtain w2 where a2: "add_allowance_req mask_regions mask_fragments (nd (Suc 0) 0) (demo_req 3 3) w1 = Some w2"
    and k2: "keeps mask_regions mask_elems (Suc 0) demo_item w1 w2" and o2: "?own w2 = own_add_full (Suc 0) 0 {0, 1} (?own w1)"
    using allowance_sim [OF R _ n(1) t1, of "demo_req 3 3" mask_fragments] s1
    by (auto simp: write_allowance_def mask_elems_byte)
  have r2: "?run ((\<lambda>_. none_at)(demo_item := upd none_at (Suc 0) 0 ({} - {0, 1}))) w2"
    using index_run.allow [OF r1 n(1), of "demo_req 3 3" w2] s1 a2 by (simp add: write_allowance_def mask_elems_byte)
  have id2: "(\<lambda>_. none_at)(demo_item := upd none_at (Suc 0) 0 ({} - {0 :: nat, 1})) = (\<lambda>_. none_at)" by (intro ext) simp
  note r2' = r2 [unfolded id2]
  have s2: "shared (items_of w2 demo_item 0) \<noteq> None" and t2: "tree_world (Suc 0) w2" using k2 by (simp_all add: keeps_def)
  let ?f3 = "upd none_at 0 0 {0 :: nat}" and ?f4 = "upd (upd none_at 0 0 {0 :: nat}) 0 1 {1}"
  obtain w3 G3 where a3: "add_allowance_left_req mask_regions (nd (Suc 0) 0) (demo_req 1 0) w2 = Some ((demo_req 1 0)\<lparr>req_allowance := G3\<rparr>, w3)"
    and g3: "mask_elems G3 = left_grant (Suc 0) 0 {} {0} (?own w2)"
    and k3: "keeps mask_regions mask_elems (Suc 0) demo_item w2 w3" and o3: "?own w3 = own_add_left (Suc 0) 0 {} {0} (?own w2)"
    using left_sim [OF R _ n(2) t2, of "demo_req 1 0"] s2 by (auto simp: mask_elems_byte)
  have G3: "mask_elems G3 = {0}" by (simp add: g3 o2 o1 left_grant_def own_add_full_def)
  have e3: "upd (upd none_at (Suc 0) 0 {}) 0 0 (insert 0 (upd none_at (Suc 0) 0 {} 0 0)) = ?f3" by (intro ext) simp
  have r3: "?run ((\<lambda>_. none_at)(demo_item := ?f3)) w3"
    using index_run.left [OF r2' n(2), of "demo_req 1 0" _ w3, OF _ _ _ _ refl] s2 a3
    by (simp add: mask_elems_byte G3 e3 del: upd_apply)
  have s3: "shared (items_of w3 demo_item 0) \<noteq> None" and t3: "tree_world (Suc 0) w3" using k3 by (simp_all add: keeps_def)
  obtain w4 G4 where a4: "add_allowance_right_req mask_regions (nd (Suc 0) 0) (demo_req 2 0) w3 = Some ((demo_req 2 0)\<lparr>req_allowance := G4\<rparr>, w4)"
    and g4: "mask_elems G4 = right_grant (Suc 0) 0 {} {1} (?own w3)"
    and k4: "keeps mask_regions mask_elems (Suc 0) demo_item w3 w4" and o4: "?own w4 = own_add_right (Suc 0) 0 {} {1} (?own w3)"
    using right_sim [OF R _ n(2) t3, of "demo_req 2 0"] s3 by (auto simp: mask_elems_byte)
  have G4: "mask_elems G4 = {1}" by (simp add: g4 o3 o2 o1 right_grant_def left_grant_def own_add_full_def own_add_left_def)
  have e4: "upd (upd ?f3 (Suc 0) 0 (?f3 (Suc 0) 0)) 0 (Suc 0) (insert (Suc 0) (upd ?f3 (Suc 0) 0 (?f3 (Suc 0) 0) 0 (Suc 0))) = ?f4"
    by (intro ext) simp
  have r4: "?run ((\<lambda>_. none_at)(demo_item := ?f4)) w4"
    using index_run.right [OF r3 n(2), of "demo_req 2 0" _ w4, OF _ _ _ _ refl] s3 a4
    by (simp add: mask_elems_byte G4 e4 del: upd_apply)
  have s4: "shared (items_of w4 demo_item 0) \<noteq> None" and t4: "tree_world (Suc 0) w4" using k4 by (simp_all add: keeps_def)
  obtain w5 where a5: "add_allowance_req mask_regions mask_fragments (nd 0 0) (demo_req 1 1) w4 = Some w5"
    and k5: "keeps mask_regions mask_elems (Suc 0) demo_item w4 w5" and o5: "?own w5 = own_add_full 0 0 {0} (?own w4)"
    using allowance_sim [OF R _ n(3) t4, of "demo_req 1 1" mask_fragments] s4
    by (auto simp: write_allowance_def mask_elems_byte)
  have r5: "?run ((\<lambda>_. none_at)(demo_item := upd ?f4 0 0 (?f4 0 0 - {0}))) w5"
    using index_run.allow [OF r4 n(3), of "demo_req 1 1" w5] s4 a5 by (simp add: write_allowance_def mask_elems_byte)
  have s5: "shared (items_of w5 demo_item 0) \<noteq> None" and t5: "tree_world (Suc 0) w5" using k5 by (simp_all add: keeps_def)
  obtain w6 where a6: "add_allowance_req mask_regions mask_fragments (nd 0 1) (demo_req 2 2) w5 = Some w6"
    and k6: "keeps mask_regions mask_elems (Suc 0) demo_item w5 w6" and o6: "?own w6 = own_add_full 0 1 {1} (?own w5)"
    using allowance_sim [OF R _ n(4) t5, of "demo_req 2 2" mask_fragments] s5
    by (auto simp: write_allowance_def mask_elems_byte)
  let ?f5 = "upd ?f4 0 0 (?f4 0 0 - {0})"
  have r6: "?run ((\<lambda>_. none_at)(demo_item := upd ?f5 0 1 (?f5 0 1 - {1}))) w6"
    using index_run.allow [OF r5 n(4), of "demo_req 2 2" w6] s5 a6 by (simp add: write_allowance_def mask_elems_byte)
  have id6: "((\<lambda>_. none_at)(demo_item := upd ?f5 0 1 (?f5 0 1 - {1 :: nat}))) = (\<lambda>_. none_at)" by (intro ext) simp
  have "?own w6 = \<lparr>oF = (\<lambda>l j. if l = Suc 0 \<and> j = 0 then {0, 1}
        else if l = 0 \<and> j = 0 then {0} else if l = 0 \<and> j = 1 then {1} else {}),
      oL = (\<lambda>l j. if l = Suc 0 \<and> j = 0 then {0} else {}), oR = (\<lambda>l j. if l = Suc 0 \<and> j = 0 then {1} else {})\<rparr>"
    unfolding o6 o5 o4 o3 o2 o1
    by (intro own_record_eqI ext)
      (auto simp: own_add_full_def own_add_left_def own_add_right_def left_grant_def right_grant_def)
  then show ?thesis using r6 [unfolded id6] k6 by (auto simp: keeps_def)
qed

lemma full_leaf: "i < 2 ^ k \<Longrightarrow> E (full (entry_at R w d (nd 0 i))) = oF (own_of R E k d w) 0 i"
  by (simp add: own_of_def in_net_def)

lemma unalloc_own_of:
  assumes "region_ok R E"
  shows "E m \<inter> unalloc (own_of R E k d w) l j =
    (if in_net k l j then E (get_managed_unallocated R (l = 0) (entry_at R w d (nd l j)) m) else {})"
  by (auto simp: unalloc_def own_of_def get_managed_unallocated_def Let_def region_simps [OF assms])

section \<open>Properties\<close>







end
