(* ===== verification/Ordered_Maps.thy ===== *)
theory Ordered_Maps
  imports Prelude "HOL-Library.Multiset"
begin

text \<open>
  std::map and std::set with the order of their keys, as the sorted list of their elements, and the
  functions of the C++ library whose result is not determined: std::sort (which need not be stable),
  std::shuffle and std::rand.
\<close>

section \<open>Ordered maps\<close>

text \<open>The access m[k] with a change of the element: without one, the element starts as d.\<close>

fun omap_alter :: "'k::linorder \<Rightarrow> 'v \<Rightarrow> ('v \<Rightarrow> 'v) \<Rightarrow> ('k \<times> 'v) list \<Rightarrow> ('k \<times> 'v) list" where
  "omap_alter k d f [] = [(k, f d)]"
| "omap_alter k d f ((k', v) # m) =
    (if k = k' then (k', f v) # m
     else if k < k' then (k, f d) # (k', v) # m
     else (k', v) # omap_alter k d f m)"

definition omap_put :: "'k::linorder \<Rightarrow> 'v \<Rightarrow> ('k \<times> 'v) list \<Rightarrow> ('k \<times> 'v) list" where
  "omap_put k v m = omap_alter k v (\<lambda>_. v) m"

fun oset_insert :: "'k::linorder \<Rightarrow> 'k list \<Rightarrow> 'k list" where
  "oset_insert k [] = [k]"
| "oset_insert k (k' # ks) = (if k = k' then k' # ks else if k < k' then k # k' # ks else k' # oset_insert k ks)"

lemma map_of_alter: "map_of (omap_alter k d f m) = (map_of m)(k \<mapsto> f (case map_of m k of Some v \<Rightarrow> v | None \<Rightarrow> d))"
  if "sorted_wrt (<) (map fst m)"
  using that
proof (induction m)
  case (Cons p m)
  obtain k' v where p: "p = (k', v)" by (cases p)
  have "map_of m k = None" if "k < k'"
    using Cons.prems that by (auto simp: p map_of_eq_None_iff)
  moreover have "sorted_wrt (<) (map fst m)" using Cons.prems by simp
  ultimately show ?case using Cons.IH by (auto simp: p fun_eq_iff)
qed auto

lemma map_of_put: "map_of (omap_put k v m) = (map_of m)(k \<mapsto> v)" if "sorted_wrt (<) (map fst m)"
  using map_of_alter [OF that] by (simp add: omap_put_def)

lemma keys_alter: "set (map fst (omap_alter k d f m)) = insert k (set (map fst m))"
proof (induction m)
  case (Cons p m)
  then show ?case by (cases p) (simp add: insert_commute)
qed simp

lemma sorted_alter: "sorted_wrt (<) (map fst m) \<Longrightarrow> sorted_wrt (<) (map fst (omap_alter k d f m))"
proof (induction m)
  case (Cons p m)
  then show ?case using keys_alter [of k d f m] by (cases p) (auto simp: image_iff)
qed simp

lemma set_alter:
  "p \<in> set (omap_alter k d f m) \<Longrightarrow> p \<in> set m \<or> (fst p = k \<and> (snd p = f d \<or> (\<exists>v. (k, v) \<in> set m \<and> snd p = f v)))"
proof (induction m)
  case (Cons q m)
  then show ?case by (cases q) (auto split: if_splits)
qed auto

lemma set_put: "p \<in> set (omap_put k v m) \<Longrightarrow> p \<in> set m \<or> p = (k, v)"
  using set_alter [of p k v "\<lambda>_. v" m] by (cases p) (auto simp: omap_put_def)

lemma keys_put: "set (map fst (omap_put k v m)) = insert k (set (map fst m))"
  unfolding omap_put_def by (rule keys_alter)

lemma sorted_put: "sorted_wrt (<) (map fst m) \<Longrightarrow> sorted_wrt (<) (map fst (omap_put k v m))"
  by (simp add: omap_put_def sorted_alter)

lemma set_oset_insert [simp]: "set (oset_insert k ks) = insert k (set ks)"
  by (induction ks) auto

lemma sorted_oset_insert: "sorted_wrt (<) ks \<Longrightarrow> sorted_wrt (<) (oset_insert k ks)"
  by (induction ks) auto

section \<open>The library functions\<close>

text \<open>What std::sort does with a strict weak order, and std::shuffle: a permutation, in which nothing
  comes before something smaller.\<close>

type_synonym 'a sorter = "('a \<Rightarrow> 'a \<Rightarrow> bool) \<Rightarrow> 'a list \<Rightarrow> 'a list"

definition weak_order :: "('a \<Rightarrow> 'a \<Rightarrow> bool) \<Rightarrow> bool" where
  "weak_order lt \<longleftrightarrow> transp lt \<and> (\<forall>x. \<not> lt x x) \<and> (\<forall>x y z. lt x z \<longrightarrow> lt x y \<or> lt y z)"

definition sorter_ok :: "'a sorter \<Rightarrow> bool" where
  "sorter_ok srt \<longleftrightarrow> (\<forall>lt xs. mset (srt lt xs) = mset xs \<and>
    (weak_order lt \<longrightarrow> sorted_wrt (\<lambda>x y. \<not> lt y x) (srt lt xs)))"

lemma sorter_mset: "sorter_ok srt \<Longrightarrow> mset (srt lt xs) = mset xs"
  by (simp add: sorter_ok_def)

lemma sorter_set: "sorter_ok srt \<Longrightarrow> set (srt lt xs) = set xs"
  by (metis sorter_mset set_mset_mset)

lemma sorter_sorted: "sorter_ok srt \<Longrightarrow> weak_order lt \<Longrightarrow> sorted_wrt (\<lambda>x y. \<not> lt y x) (srt lt xs)"
  by (simp add: sorter_ok_def)

lemma weak_order_map: "weak_order lt \<Longrightarrow> weak_order (\<lambda>x y. lt (f x) (f y))"
  unfolding weak_order_def transp_def by blast

lemma weak_order_swap: "weak_order lt \<Longrightarrow> weak_order (\<lambda>x y. lt y x)"
  unfolding weak_order_def transp_def by blast

lemma weak_order_less: "weak_order ((<) :: 'a::linorder \<Rightarrow> 'a \<Rightarrow> bool)"
  unfolding weak_order_def transp_def by auto

text \<open>An instance: insertion sort.\<close>

fun insert_by :: "('a \<Rightarrow> 'a \<Rightarrow> bool) \<Rightarrow> 'a \<Rightarrow> 'a list \<Rightarrow> 'a list" where
  "insert_by lt x [] = [x]"
| "insert_by lt x (y # ys) = (if lt y x then y # insert_by lt x ys else x # y # ys)"

definition insertion_sort :: "'a sorter" where
  "insertion_sort lt xs = foldr (insert_by lt) xs []"

lemma insert_by_mset: "mset (insert_by lt x ys) = add_mset x (mset ys)"
  by (induction ys) auto

lemma insert_by_sorted:
  assumes "weak_order lt"
  shows "sorted_wrt (\<lambda>x y. \<not> lt y x) ys \<Longrightarrow> sorted_wrt (\<lambda>x y. \<not> lt y x) (insert_by lt x ys)"
proof (induction ys)
  case (Cons y ys)
  have set: "set (insert_by lt x ys) = insert x (set ys)"
    using insert_by_mset [of lt x ys] by (metis set_mset_mset set_mset_add_mset_insert)
  show ?case
  proof (cases "lt y x")
    case True
    then have "\<not> lt x y" using assms by (auto simp: weak_order_def dest: transpD)
    then show ?thesis using True Cons set by auto
  next
    case False
    then have "\<not> lt z x" if "z \<in> set ys" for z using Cons.prems that assms unfolding weak_order_def by simp blast
    then show ?thesis using False Cons.prems by auto
  qed
qed simp

lemma insertion_sort_ok: "sorter_ok insertion_sort"
  unfolding sorter_ok_def
proof (intro allI conjI impI)
  fix lt :: "'a \<Rightarrow> 'a \<Rightarrow> bool" and xs
  show "mset (insertion_sort lt xs) = mset xs"
    by (induction xs) (simp_all add: insertion_sort_def insert_by_mset)
  assume "weak_order lt"
  then show "sorted_wrt (\<lambda>x y. \<not> lt y x) (insertion_sort lt xs)"
    by (induction xs) (auto simp: insertion_sort_def intro!: insert_by_sorted)
qed

definition shuffler_ok :: "('a list \<Rightarrow> 'a list) \<Rightarrow> bool" where
  "shuffler_ok shuf \<longleftrightarrow> (\<forall>xs. mset (shuf xs) = mset xs)"

text \<open>random\_element: the index of the element, and the number of calls of std::rand.  The calls are
  the sequence rs; RAND\_MAX is 2147483647.  The loop ends when a value is below n times the divisor.\<close>

definition rand_max :: nat where
  "rand_max = 2147483647"

partial_function (option) random_loop :: "(nat \<Rightarrow> nat) \<Rightarrow> nat \<Rightarrow> nat \<Rightarrow> nat \<Rightarrow> (nat \<times> nat) option" where
  "random_loop rs divisor n i =
    (let k = rs i div divisor in if n \<le> k then random_loop rs divisor n (Suc i) else Some (k, Suc i))"

definition random_element :: "(nat \<Rightarrow> nat) \<Rightarrow> nat \<Rightarrow> 'a list \<Rightarrow> ('a \<times> nat) option" where
  "random_element rs i xs =
    (if xs = [] \<or> rand_max < length xs then None
     else do {
       (k, i') \<leftarrow> random_loop rs (rand_max div length xs) (length xs) i;
       x \<leftarrow> at_opt xs k;
       Some (x, i')})"

text \<open>A generator that again and again gives values in the lower part of its range.\<close>

definition good_rand :: "(nat \<Rightarrow> nat) \<Rightarrow> bool" where
  "good_rand rs \<longleftrightarrow> (\<forall>i. \<exists>j \<ge> i. rs j < rand_max div 2)"

lemma random_loop_returns:
  assumes "rs j div divisor < n" and "i \<le> j"
  shows "\<exists>k i'. random_loop rs divisor n i = Some (k, i') \<and> k < n"
  using assms(2)
proof (induction "j - i" arbitrary: i)
  case 0
  then show ?case using assms(1) by (subst random_loop.simps) (simp add: Let_def)
next
  case (Suc m)
  show ?case
  proof (cases "n \<le> rs i div divisor")
    case True
    then show ?thesis using Suc.hyps(1) [of "Suc i"] Suc.hyps(2) by (subst random_loop.simps) (simp add: Let_def)
  next
    case False
    then show ?thesis by (subst random_loop.simps) (simp add: Let_def)
  qed
qed

lemma random_element_in: "random_element rs i xs = Some (x, i') \<Longrightarrow> x \<in> set xs"
  by (auto simp: random_element_def Option.bind_eq_Some_conv split: if_splits)

lemma random_element_returns:
  assumes "good_rand rs" and "xs \<noteq> []" and "length xs \<le> rand_max"
  shows "\<exists>x i'. random_element rs i xs = Some (x, i') \<and> x \<in> set xs"
proof -
  obtain j where j: "i \<le> j" "rs j < rand_max div 2" using assms(1) unfolding good_rand_def by blast
  let ?n = "length xs"
  have n: "0 < ?n" using assms(2) by simp
  have d: "0 < rand_max div ?n" using assms(3) n by (simp add: div_greater_zero_iff)
  have "rand_max div 2 \<le> ?n * (rand_max div ?n)"
  proof -
    have "rand_max = ?n * (rand_max div ?n) + rand_max mod ?n" by simp
    moreover have "rand_max mod ?n < ?n" using n by simp
    moreover have "?n \<le> ?n * (rand_max div ?n)" using d by simp
    ultimately have "rand_max < 2 * (?n * (rand_max div ?n))" by linarith
    then show ?thesis by linarith
  qed
  then have "rs j div (rand_max div ?n) < ?n" using j(2) d by (simp add: div_less_iff_less_mult)
  from random_loop_returns [of rs j "rand_max div ?n" ?n, OF this j(1)]
  show ?thesis using assms(2,3) by (auto simp: random_element_def)
qed

end
