(* ===== verification/Internode.thy ===== *)
theory Internode
  imports Ordered_Maps
begin

text \<open>
  The inter-node optimizer (allscale/components/internodeoptimizer.hpp and
  src/components/internodeoptimizer.cpp): the number of nodes to use, chosen from a history of
  measurements, and the assignment of the work items to the nodes.

  The optimizer sums up vectors of float in double, so its arithmetic is a pair of formats with the
  conversion between them.  std::rand is a sequence of values and the number of values used so far.
\<close>

record 'f fpu =
  sgl :: "'f farith"
  dbl :: "'f farith"
  narrow :: "'f \<Rightarrow> 'f"

definition rat_fpu :: "rat fpu" where
  "rat_fpu = \<lparr>sgl = rat_arith, dbl = rat_arith, narrow = (\<lambda>x. x)\<rparr>"

lemma rat_fpu_simps [simp]: "sgl rat_fpu = rat_arith" "dbl rat_fpu = rat_arith" "narrow rat_fpu = (\<lambda>x. x)"
  by (simp_all add: rat_fpu_def)

section \<open>Entries of the history\<close>

text \<open>ino\_knobs\_t has the number of nodes as its only member.\<close>

type_synonym ino_knobs = nat

record 'f pareto_entry =
  u_at_tick :: size_t
  c_knobs :: ino_knobs
  v_load :: "'f list"
  v_time :: "'f list"
  v_energy :: "'f list"

definition average :: "'f fpu \<Rightarrow> 'f list \<Rightarrow> nat \<Rightarrow> 'f" where
  "average P v n = narrow P (fdiv (dbl P) (fsum (dbl P) v) (fof_int (dbl P) (int n)))"

definition average_load :: "'f fpu \<Rightarrow> 'f pareto_entry \<Rightarrow> 'f" where
  "average_load P e = average P (v_load e) (c_knobs e)"

definition average_time :: "'f fpu \<Rightarrow> 'f pareto_entry \<Rightarrow> 'f" where
  "average_time P e = average P (v_time e) (c_knobs e)"

definition average_energy :: "'f fpu \<Rightarrow> 'f pareto_entry \<Rightarrow> 'f" where
  "average_energy P e = average P (v_energy e) (c_knobs e)"

definition CompareParetoLoad :: "'f fpu \<Rightarrow> 'f pareto_entry \<Rightarrow> 'f pareto_entry \<Rightarrow> bool" where
  "CompareParetoLoad P l r \<longleftrightarrow> flt (sgl P) (average_load P r) (average_load P l)"

definition CompareParetoTime :: "'f fpu \<Rightarrow> 'f pareto_entry \<Rightarrow> 'f pareto_entry \<Rightarrow> bool" where
  "CompareParetoTime P l r \<longleftrightarrow> flt (sgl P) (average_time P l) (average_time P r)"

definition CompareParetoEnergy :: "'f fpu \<Rightarrow> 'f pareto_entry \<Rightarrow> 'f pareto_entry \<Rightarrow> bool" where
  "CompareParetoEnergy P l r \<longleftrightarrow> flt (sgl P) (average_energy P l) (average_energy P r)"

text \<open>One of the three loops of operator<: None is a read behind the end of a vector.\<close>

definition compare_vectors :: "'f fpu \<Rightarrow> nat \<Rightarrow> 'f list \<Rightarrow> 'f list \<Rightarrow> (bool \<times> bool) option" where
  "compare_vectors P n xs ys =
    (if length xs < n \<or> length ys < n then None
     else let ps = zip (take n xs) (take n ys) in
       Some (list_all (\<lambda>(x, y). flt (sgl P) x y) ps, list_ex (\<lambda>(x, y). flt (sgl P) y x) ps))"

definition entry_less :: "'f fpu \<Rightarrow> 'f pareto_entry \<Rightarrow> 'f pareto_entry \<Rightarrow> bool option" where
  "entry_less P l r =
    (let n = c_knobs l in
     if n < c_knobs r then Some True
     else if c_knobs r < n then Some False
     else do {
       (all_lt, any_gt) \<leftarrow> compare_vectors P n (v_load l) (v_load r);
       if all_lt then Some True else if any_gt then Some False
       else do {
         (all_lt, any_gt) \<leftarrow> compare_vectors P n (v_time l) (v_time r);
         if all_lt then Some True else if any_gt then Some False
         else do {
           (all_lt, any_gt) \<leftarrow> compare_vectors P (length (v_load l)) (v_energy l) (v_energy r);
           if all_lt then Some True else if any_gt then Some False
           else Some (u_at_tick l < u_at_tick r)}}})"

text \<open>The insertion into the std::set of entries, which is ordered by operator<.\<close>

fun frontier_insert :: "'f fpu \<Rightarrow> 'f pareto_entry \<Rightarrow> 'f pareto_entry list \<Rightarrow> 'f pareto_entry list option" where
  "frontier_insert P e [] = Some [e]"
| "frontier_insert P e (x # xs) = do {
    below \<leftarrow> entry_less P e x;
    if below then Some (e # x # xs)
    else do {
      above \<leftarrow> entry_less P x e;
      if above then do { ys \<leftarrow> frontier_insert P e xs; Some (x # ys) }
      else Some (x # xs)}}"

record exploration =
  expl_nodes :: nat
  b_explored :: bool

definition get_next :: "exploration \<Rightarrow> ino_knobs \<times> exploration" where
  "get_next x = (expl_nodes x, x\<lparr>b_explored := True\<rparr>)"

section \<open>The optimizer\<close>

record 'f ino =
  c_last_choice :: ino_knobs
  ino_nodes :: nat
  u_min_nodes :: nat
  u_max_nodes :: nat
  u_choices :: size_t
  u_history_interval :: size_t
  u_history_tick :: size_t
  d_target :: 'f
  d_leeway :: 'f
  v_past :: "(ino_knobs \<times> 'f pareto_entry) list"
  v_explore_logistics :: "exploration list"
  s_forgotten :: "ino_knobs list"
  s_explore :: "ino_knobs list"

definition INO_EXPLORATION_PHASE_STEPS :: size_t where "INO_EXPLORATION_PHASE_STEPS = 3"
definition INO_EXPLORATION_SOFT_LIMIT :: nat where "INO_EXPLORATION_SOFT_LIMIT = 10"
definition INO_RANDOM_EVERY :: size_t where "INO_RANDOM_EVERY = 3"

text \<open>The constructor; to\_size is the conversion of the value of ceil to std::size\_t.\<close>

definition new_ino :: "'f fpu \<Rightarrow> ('f \<Rightarrow> nat) \<Rightarrow> nat \<Rightarrow> 'f \<Rightarrow> 'f \<Rightarrow> size_t \<Rightarrow> 'f ino" where
  "new_ino P to_size nodes target leeway reset =
    (let n = fof_int (sgl P) (int nodes);
         lo = max 1 (to_size (fmul (sgl P) target n));
         hi = min nodes (to_size (fmul (sgl P) (fadd (sgl P) target leeway) n)) in
     \<lparr>c_last_choice = 0, ino_nodes = nodes, u_min_nodes = lo, u_max_nodes = hi, u_choices = 0,
      u_history_interval = reset, u_history_tick = 0, d_target = target, d_leeway = leeway,
      v_past = [], v_explore_logistics = map (\<lambda>n. \<lparr>expl_nodes = n, b_explored = False\<rparr>) [lo..<hi + 1],
      s_forgotten = [], s_explore = []\<rparr>)"

definition record_point :: "ino_knobs \<Rightarrow> 'f list \<Rightarrow> 'f list \<Rightarrow> 'f list \<Rightarrow> 'f ino \<Rightarrow> 'f ino" where
  "record_point knobs load time energy s = s\<lparr>v_past :=
    (case map_of (v_past s) knobs of
       None \<Rightarrow> omap_put knobs \<lparr>u_at_tick = u_history_tick s, c_knobs = knobs, v_load = load,
                 v_time = time, v_energy = energy\<rparr> (v_past s)
     | Some e \<Rightarrow> omap_put knobs (e\<lparr>u_at_tick := u_history_tick s, v_load := load, v_time := time,
                 v_energy := energy\<rparr>) (v_past s))\<rparr>"

definition try_forget :: "'f ino \<Rightarrow> 'f ino" where
  "try_forget s =
    (let old = (\<lambda>e. u_history_interval s < u_history_tick s - u_at_tick e) in
     s\<lparr>v_past := filter (\<lambda>(_, e). \<not> old e) (v_past s),
       s_forgotten := foldl (\<lambda>ks (_, e). oset_insert (c_knobs e) ks) (s_forgotten s)
         (filter (\<lambda>(_, e). old e) (v_past s))\<rparr>)"

text \<open>One round over the generators: the generators, the set of configurations, the free places and
  may\_find\_new.\<close>

fun explore_pass :: "exploration list \<Rightarrow> ino_knobs list \<Rightarrow> nat \<Rightarrow> bool \<Rightarrow> exploration list \<times> ino_knobs list \<times> nat \<times> bool" where
  "explore_pass [] ks remaining may = ([], ks, remaining, may)"
| "explore_pass (x # xs) ks remaining may =
    (if b_explored x then
       (let (xs', r) = explore_pass xs ks remaining may in (x # xs', r))
     else
       (let (k, x') = get_next x; ks' = oset_insert k ks; may' = (may \<or> \<not> b_explored x') in
        if remaining - 1 = 0 then (x' # xs, ks', 0, may')
        else (let (xs', r) = explore_pass xs ks' (remaining - 1) may' in (x' # xs', r))))"

lemma explore_pass_not_may: "explore_pass xs ks rem False = (xs', ks', rem', may) \<Longrightarrow> \<not> may"
  by (induction xs arbitrary: ks rem xs' ks' rem')
    (auto simp: get_next_def Let_def split: if_splits prod.splits)

function explore_loop :: "exploration list \<Rightarrow> ino_knobs list \<Rightarrow> nat \<Rightarrow> bool \<Rightarrow> exploration list \<times> ino_knobs list \<times> nat" where
  "explore_loop xs ks remaining may =
    (if may \<and> 0 < remaining then
       (case explore_pass xs ks remaining False of (xs', ks', remaining', may') \<Rightarrow>
          explore_loop xs' ks' remaining' may')
     else (xs, ks, remaining))"
  by pat_completeness auto
termination
  by (relation "measure (\<lambda>(xs, ks, remaining, may). if may then 1 else 0)")
    (auto dest: explore_pass_not_may split: prod.split)

declare explore_loop.simps [simp del]

definition explore_configurations :: "'f ino \<Rightarrow> 'f ino" where
  "explore_configurations s =
    (if INO_EXPLORATION_SOFT_LIMIT \<le> length (s_explore s) then s
     else let may = (v_explore_logistics s \<noteq> []);
              remaining = INO_EXPLORATION_SOFT_LIMIT - length (s_explore s);
              (xs, ks, remaining) = explore_loop (v_explore_logistics s) (s_explore s) remaining may;
              use = min (length (s_forgotten s)) remaining;
              ks = foldl (\<lambda>ks k. oset_insert k ks) ks (take use (s_forgotten s));
              remaining = remaining - use;
              use = min (length (v_past s)) remaining;
              ks = foldl (\<lambda>ks (_, e). oset_insert (c_knobs e) ks) ks (take use (v_past s)) in
       s\<lparr>v_explore_logistics := xs, s_explore := ks\<rparr>)"

definition get_next_explore :: "(nat \<Rightarrow> nat) \<Rightarrow> nat \<Rightarrow> 'f ino \<Rightarrow> (ino_knobs \<times> 'f ino \<times> nat) option" where
  "get_next_explore rs i s =
    (let s = (if s_explore s = [] then explore_configurations s else s) in
     if s_explore s \<noteq> [] then do {
       (k, i) \<leftarrow> random_element rs i (s_explore s);
       Some (k, s\<lparr>s_explore := removeAll k (s_explore s)\<rparr>, i)}
     else do {
       ((_, e), i) \<leftarrow> random_element rs i (v_past s);
       Some (c_knobs e, s, i)})"

subsection \<open>The Pareto frontier\<close>

definition pareto_eligible ::
  "'f pareto_entry list \<Rightarrow> ('f pareto_entry \<Rightarrow> 'f pareto_entry \<Rightarrow> bool) \<Rightarrow>
   ('f pareto_entry \<Rightarrow> 'f pareto_entry \<Rightarrow> bool) \<Rightarrow> 'f pareto_entry \<Rightarrow> bool" where
  "pareto_eligible frontier one two e = list_all (\<lambda>x. \<not> one x e \<or> \<not> two x e) (rev frontier)"

fun frontier_sweep ::
  "'f fpu \<Rightarrow> ('f pareto_entry \<Rightarrow> 'f pareto_entry \<Rightarrow> bool) \<Rightarrow> ('f pareto_entry \<Rightarrow> 'f pareto_entry \<Rightarrow> bool) \<Rightarrow>
   'f pareto_entry list \<Rightarrow> 'f pareto_entry list \<Rightarrow> 'f pareto_entry list option" where
  "frontier_sweep P one two [] frontier = Some frontier"
| "frontier_sweep P one two (e # es) frontier =
    (if pareto_eligible frontier one two e then do {
       frontier' \<leftarrow> frontier_insert P e frontier;
       frontier_sweep P one two es frontier'}
     else frontier_sweep P one two es frontier)"

definition comparators :: "'f fpu \<Rightarrow> ('f pareto_entry \<Rightarrow> 'f pareto_entry \<Rightarrow> bool) list" where
  "comparators P = [CompareParetoLoad P, CompareParetoTime P, CompareParetoEnergy P]"

fun pareto_loop ::
  "'f fpu \<Rightarrow> 'f pareto_entry sorter \<Rightarrow> nat list \<Rightarrow> 'f pareto_entry list \<Rightarrow> 'f pareto_entry list \<Rightarrow>
   'f pareto_entry list option" where
  "pareto_loop P srt [] es frontier = Some frontier"
| "pareto_loop P srt (index # ixs) es frontier =
    (case srt (comparators P ! index) es of
       [] \<Rightarrow> Some frontier
     | best # rest \<Rightarrow> do {
         frontier \<leftarrow> frontier_insert P best frontier;
         let comp1 = comparators P ! ((index + 1) mod 3);
         let comp2 = comparators P ! ((index + 1) mod 3);
         frontier \<leftarrow> frontier_sweep P comp1 comp2 (best # rest) frontier;
         pareto_loop P srt ixs (best # rest) frontier})"

definition get_best :: "'f fpu \<Rightarrow> 'f pareto_entry sorter \<Rightarrow> (nat \<Rightarrow> nat) \<Rightarrow> nat \<Rightarrow> 'f ino \<Rightarrow> (ino_knobs \<times> nat) option" where
  "get_best P srt rs i s = do {
    frontier \<leftarrow> pareto_loop P srt [0, 1, 2] (map snd (v_past s)) [];
    (e, i) \<leftarrow> random_element rs i frontier;
    Some (c_knobs e, i)}"

definition get_node_configuration ::
  "'f fpu \<Rightarrow> 'f pareto_entry sorter \<Rightarrow> (nat \<Rightarrow> nat) \<Rightarrow> nat \<Rightarrow> 'f list \<Rightarrow> 'f list \<Rightarrow> 'f list \<Rightarrow> ino_knobs option \<Rightarrow>
   'f ino \<Rightarrow> (ino_knobs \<times> 'f ino \<times> nat) option" where
  "get_node_configuration P srt rs i load time energy previous s =
    (let previous = (if previous = None \<and> 0 < u_choices s then Some (c_last_choice s) else previous);
         s = (case previous of Some k \<Rightarrow> record_point k load energy time s | None \<Rightarrow> s);
         s = s\<lparr>u_history_tick := u_history_tick s + 1\<rparr>;
         s = try_forget s in do {
     (k, s, i) \<leftarrow>
       (if u_choices s < INO_EXPLORATION_PHASE_STEPS \<or>
           (INO_EXPLORATION_PHASE_STEPS < u_choices s \<and>
            (u_choices s - INO_EXPLORATION_PHASE_STEPS + 1) mod (INO_RANDOM_EVERY + 1) = 0)
        then get_next_explore rs i s
        else do { (k, i) \<leftarrow> get_best P srt rs i s; Some (k, s, i) });
     Some (k, s\<lparr>c_last_choice := k, u_choices := u_choices s + 1\<rparr>, i)})"

section \<open>What holds of the optimizer\<close>

text \<open>The configurations of an optimizer lie between its bounds, and every entry of the history is
  filed under its own configuration.  Its vectors have the length n of the measurements.\<close>

definition in_bounds :: "'f ino \<Rightarrow> ino_knobs \<Rightarrow> bool" where
  "in_bounds s k \<longleftrightarrow> u_min_nodes s \<le> k \<and> k \<le> u_max_nodes s"

definition entry_ok :: "'f ino \<Rightarrow> ino_knobs \<times> 'f pareto_entry \<Rightarrow> bool" where
  "entry_ok s p \<longleftrightarrow> in_bounds s (fst p) \<and> c_knobs (snd p) = fst p \<and>
     u_max_nodes s \<le> length (v_load (snd p)) \<and>
     length (v_time (snd p)) = length (v_load (snd p)) \<and> length (v_energy (snd p)) = length (v_load (snd p))"

definition ino_inv :: "'f ino \<Rightarrow> bool" where
  "ino_inv s \<longleftrightarrow>
     1 \<le> u_min_nodes s \<and> u_min_nodes s \<le> u_max_nodes s \<and> u_max_nodes s \<le> ino_nodes s \<and>
     sorted_wrt (<) (map fst (v_past s)) \<and> (\<forall>p \<in> set (v_past s). entry_ok s p) \<and>
     (\<forall>x \<in> set (v_explore_logistics s). in_bounds s (expl_nodes x)) \<and>
     (\<forall>k \<in> set (s_forgotten s). in_bounds s k) \<and>
     sorted_wrt (<) (s_explore s) \<and> (\<forall>k \<in> set (s_explore s). in_bounds s k) \<and>
     (u_choices s \<noteq> 0 \<longrightarrow> in_bounds s (c_last_choice s))"

lemma in_bounds_cong: "u_min_nodes s = u_min_nodes t \<Longrightarrow> u_max_nodes s = u_max_nodes t \<Longrightarrow> in_bounds s = in_bounds t"
  by (simp add: in_bounds_def fun_eq_iff)

lemma entry_ok_cong: "u_min_nodes s = u_min_nodes t \<Longrightarrow> u_max_nodes s = u_max_nodes t \<Longrightarrow> entry_ok s = entry_ok t"
  by (simp add: entry_ok_def fun_eq_iff in_bounds_cong [of s t])

lemma new_ino_inv:
  assumes "u_min_nodes (new_ino P to_size nodes target leeway reset) \<le> u_max_nodes (new_ino P to_size nodes target leeway reset)"
  shows "ino_inv (new_ino P to_size nodes target leeway reset)"
  using assms by (auto simp: new_ino_def ino_inv_def in_bounds_def Let_def)

lemma record_point_inv:
  assumes "ino_inv s" and "in_bounds s k" and "u_max_nodes s \<le> length a" and "length b = length a" and "length c = length a"
  shows "ino_inv (record_point k a b c s)"
proof -
  let ?t = "record_point k a b c s"
  have ok: "in_bounds ?t = in_bounds s" "entry_ok ?t = entry_ok s"
    by (auto intro!: in_bounds_cong entry_ok_cong simp: record_point_def)
  have keys: "sorted_wrt (<) (map fst (v_past s))" using assms(1) by (simp add: ino_inv_def)
  obtain e where t: "v_past ?t = omap_put k e (v_past s)" "entry_ok s (k, e)"
  proof (cases "map_of (v_past s) k")
    case None
    then show ?thesis using that assms(2-5) by (simp add: record_point_def entry_ok_def)
  next
    case (Some e)
    then have "entry_ok s (k, e)" using assms(1) map_of_SomeD unfolding ino_inv_def by fast
    then show ?thesis using Some that assms(2-5) by (simp add: record_point_def entry_ok_def)
  qed
  have "\<forall>p \<in> set (v_past ?t). entry_ok s p"
    using t set_put [of _ k e "v_past s"] assms(1) unfolding ino_inv_def by metis
  moreover have "sorted_wrt (<) (map fst (v_past ?t))" unfolding t(1) by (rule sorted_put [OF keys])
  ultimately show ?thesis
    using assms(1) unfolding ino_inv_def ok by (simp add: record_point_def)
qed

lemma record_point_has: "sorted_wrt (<) (map fst (v_past s)) \<Longrightarrow>
  \<exists>e. (k, e) \<in> set (v_past (record_point k a b c s)) \<and> u_at_tick e = u_history_tick s"
proof (cases "map_of (v_past s) k")
  case None
  assume "sorted_wrt (<) (map fst (v_past s))"
  from map_of_put [OF this, THEN fun_cong, of k _ k] None show ?thesis
    by (auto simp: record_point_def intro!: map_of_SomeD)
next
  case (Some e)
  assume "sorted_wrt (<) (map fst (v_past s))"
  from map_of_put [OF this, THEN fun_cong, of k _ k] Some show ?thesis
    by (auto simp: record_point_def intro!: map_of_SomeD)
qed

lemma foldl_oset:
  "set (foldl (\<lambda>ks k. oset_insert k ks) ks ps) = set ks \<union> set ps"
  "sorted_wrt (<) ks \<Longrightarrow> sorted_wrt (<) (foldl (\<lambda>ks k. oset_insert k ks) ks ps)"
  by (induction ps arbitrary: ks) (auto simp: sorted_oset_insert)

lemma foldl_oset_pair:
  "set (foldl (\<lambda>ks (_, e). oset_insert (f e) ks) ks ps) = set ks \<union> (\<lambda>p. f (snd p)) ` set ps"
  "sorted_wrt (<) ks \<Longrightarrow> sorted_wrt (<) (foldl (\<lambda>ks (_, e). oset_insert (f e) ks) ks ps)"
  by (induction ps arbitrary: ks) (auto simp: sorted_oset_insert split: prod.splits)

lemma inv_entry: "ino_inv s \<Longrightarrow> p \<in> set (v_past s) \<Longrightarrow> entry_ok s p"
  by (simp add: ino_inv_def)

lemma entry_in_bounds: "entry_ok s p \<Longrightarrow> in_bounds s (c_knobs (snd p))"
  by (simp add: entry_ok_def)

lemma try_forget_inv:
  assumes "ino_inv s" shows "ino_inv (try_forget s)"
proof -
  let ?t = "try_forget s"
  have ok: "in_bounds ?t = in_bounds s" "entry_ok ?t = entry_ok s"
    by (auto intro!: in_bounds_cong entry_ok_cong simp: try_forget_def Let_def)
  have sub: "set (v_past ?t) \<subseteq> set (v_past s)" by (auto simp: try_forget_def Let_def)
  have "sorted_wrt (<) (map fst (v_past ?t))"
    using assms unfolding ino_inv_def by (auto simp: try_forget_def Let_def sorted_wrt_map intro!: sorted_wrt_filter)
  moreover have "in_bounds s k" if k: "k \<in> set (s_forgotten ?t)" for k
  proof -
    let ?old = "filter (\<lambda>(_, e). u_history_interval s < u_history_tick s - u_at_tick e) (v_past s)"
    have "s_forgotten ?t = foldl (\<lambda>ks (_, e). oset_insert (c_knobs e) ks) (s_forgotten s) ?old"
      by (simp add: try_forget_def Let_def)
    then consider "k \<in> set (s_forgotten s)" | p where "p \<in> set ?old" "k = c_knobs (snd p)"
      using k by (auto simp: foldl_oset_pair(1))
    then show ?thesis
    proof cases
      case 1
      then show ?thesis using assms by (simp add: ino_inv_def)
    next
      case (2 p)
      then have "p \<in> set (v_past s)" by simp
      then show ?thesis unfolding 2(2) by (rule entry_in_bounds [OF inv_entry [OF assms]])
    qed
  qed
  ultimately show ?thesis
    using assms sub unfolding ino_inv_def ok by (auto simp: try_forget_def Let_def)
qed

lemma explore_pass_bounds:
  assumes "expl_nodes ` set xs \<subseteq> A" and "set ks \<subseteq> A" and "sorted_wrt (<) ks"
    and "explore_pass xs ks rem may = (xs', ks', rem', may')"
  shows "expl_nodes ` set xs' \<subseteq> A \<and> set ks' \<subseteq> A \<and> sorted_wrt (<) ks' \<and> set ks \<subseteq> set ks'"
  using assms
proof (induction xs arbitrary: ks rem may xs' ks' rem' may')
  case (Cons x xs)
  have sub: "expl_nodes ` set xs \<subseteq> A" "expl_nodes x \<in> A" using Cons.prems(1) by auto
  show ?case
  proof (cases "b_explored x")
    case True
    then obtain xs2 where r: "explore_pass xs ks rem may = (xs2, ks', rem', may')" and xs': "xs' = x # xs2"
      using Cons.prems(4) by (auto split: prod.splits)
    from Cons.IH [OF sub(1) Cons.prems(2,3) r] sub show ?thesis by (simp add: xs')
  next
    case new: False
    let ?ks = "oset_insert (expl_nodes x) ks"
    have ks: "sorted_wrt (<) ?ks" "set ?ks \<subseteq> A"
      using Cons.prems(2,3) sub by (simp_all add: sorted_oset_insert)
    show ?thesis
    proof (cases "rem - 1 = 0")
      case True
      then have "xs' = x\<lparr>b_explored := True\<rparr> # xs" "ks' = ?ks"
        using new Cons.prems(4) by (simp_all add: get_next_def Let_def)
      then show ?thesis using ks sub by auto
    next
      case False
      then obtain xs2 where r: "explore_pass xs ?ks (rem - 1) may = (xs2, ks', rem', may')"
        and xs': "xs' = x\<lparr>b_explored := True\<rparr> # xs2"
        using new Cons.prems(4) by (auto simp: get_next_def Let_def split: prod.splits)
      from Cons.IH [OF sub(1) ks(2,1) r] sub show ?thesis by (simp add: xs')
    qed
  qed
qed simp

lemma explore_loop_bounds:
  assumes "expl_nodes ` set xs \<subseteq> A" and "set ks \<subseteq> A" and "sorted_wrt (<) ks"
    and "explore_loop xs ks rem may = (xs', ks', rem')"
  shows "expl_nodes ` set xs' \<subseteq> A \<and> set ks' \<subseteq> A \<and> sorted_wrt (<) ks' \<and> set ks \<subseteq> set ks'"
  using assms
proof (induction xs ks rem may arbitrary: xs' ks' rem' rule: explore_loop.induct)
  case (1 xs ks rem may)
  show ?case
  proof (cases "may \<and> 0 < rem")
    case True
    obtain xs2 ks2 rem2 may2 where p: "explore_pass xs ks rem False = (xs2, ks2, rem2, may2)"
      by (cases "explore_pass xs ks rem False") auto
    note b = explore_pass_bounds [OF "1.prems"(1,2,3) p]
    have r: "explore_loop xs2 ks2 rem2 may2 = (xs', ks', rem')"
      using "1.prems"(4) True p by (simp add: explore_loop.simps [of xs])
    from "1.IH" [OF True p [symmetric] refl refl _ _ _ r] b show ?thesis by blast
  next
    case False
    then have "explore_loop xs ks rem may = (xs, ks, rem)" by (simp only: explore_loop.simps [of xs] if_False)
    then show ?thesis using "1.prems" by simp
  qed
qed

text \<open>What explore\_configurations computes when there is room.\<close>

lemma explore_configurations_eq:
  assumes "explore_loop (v_explore_logistics s) (s_explore s) (INO_EXPLORATION_SOFT_LIMIT - length (s_explore s))
      (v_explore_logistics s \<noteq> []) = (xs, ks, r)"
    and "length (s_explore s) < INO_EXPLORATION_SOFT_LIMIT"
  obtains u v where "explore_configurations s = s\<lparr>v_explore_logistics := xs, s_explore :=
      foldl (\<lambda>ks (_, e). oset_insert (c_knobs e) ks)
        (foldl (\<lambda>ks k. oset_insert k ks) ks (take u (s_forgotten s))) (take v (v_past s))\<rparr>"
  using assms by (simp add: explore_configurations_def Let_def)

lemma explore_configurations_inv:
  assumes "ino_inv s" shows "ino_inv (explore_configurations s)"
proof (cases "INO_EXPLORATION_SOFT_LIMIT \<le> length (s_explore s)")
  case False
  let ?t = "explore_configurations s" and ?rem = "INO_EXPLORATION_SOFT_LIMIT - length (s_explore s)"
  let ?B = "Collect (in_bounds s)"
  obtain xs ks r where l: "explore_loop (v_explore_logistics s) (s_explore s) ?rem (v_explore_logistics s \<noteq> []) = (xs, ks, r)"
    by (cases "explore_loop (v_explore_logistics s) (s_explore s) ?rem (v_explore_logistics s \<noteq> [])") auto
  obtain u v where t: "?t = s\<lparr>v_explore_logistics := xs, s_explore :=
      foldl (\<lambda>ks (_, e). oset_insert (c_knobs e) ks)
        (foldl (\<lambda>ks k. oset_insert k ks) ks (take u (s_forgotten s))) (take v (v_past s))\<rparr>"
    by (rule explore_configurations_eq [OF l]) (use False in simp)
  have ok: "in_bounds ?t = in_bounds s" "entry_ok ?t = entry_ok s"
    unfolding t by (auto intro!: in_bounds_cong entry_ok_cong)
  have b: "expl_nodes ` set xs \<subseteq> ?B \<and> set ks \<subseteq> ?B \<and> sorted_wrt (<) ks \<and> set (s_explore s) \<subseteq> set ks"
    by (rule explore_loop_bounds [OF _ _ _ l]) (use assms in \<open>auto simp: ino_inv_def\<close>)
  have "set (take u (s_forgotten s)) \<subseteq> ?B"
    using set_take_subset [of u "s_forgotten s"] assms by (auto simp: ino_inv_def)
  moreover have "(\<lambda>p. c_knobs (snd p)) ` set (take v (v_past s)) \<subseteq> ?B"
    using set_take_subset [of v "v_past s"] entry_in_bounds [OF inv_entry [OF assms]] by auto
  ultimately have "set (s_explore ?t) \<subseteq> ?B" "sorted_wrt (<) (s_explore ?t)"
    using b by (simp_all add: t foldl_oset foldl_oset_pair)
  then have e: "sorted_wrt (<) (s_explore ?t)" "\<forall>k \<in> set (s_explore ?t). in_bounds s k" by blast+
  have x: "\<forall>x \<in> set (v_explore_logistics ?t). in_bounds s (expl_nodes x)" using b by (auto simp: t)
  have "v_past ?t = v_past s" "u_min_nodes ?t = u_min_nodes s" "u_max_nodes ?t = u_max_nodes s"
    "ino_nodes ?t = ino_nodes s" "u_choices ?t = u_choices s" "s_forgotten ?t = s_forgotten s"
    "c_last_choice ?t = c_last_choice s" by (simp_all add: t)
  then show ?thesis using assms e x unfolding ino_inv_def ok by simp
qed (use assms in \<open>simp add: explore_configurations_def\<close>)

lemma explore_configurations_simps:
  "v_past (explore_configurations s) = v_past s" "u_min_nodes (explore_configurations s) = u_min_nodes s"
  "u_max_nodes (explore_configurations s) = u_max_nodes s" "ino_nodes (explore_configurations s) = ino_nodes s"
  "u_choices (explore_configurations s) = u_choices s" "u_history_interval (explore_configurations s) = u_history_interval s"
  "u_history_tick (explore_configurations s) = u_history_tick s"
  by (simp_all add: explore_configurations_def Let_def case_prod_beta)

lemma explore_pass_grows: "explore_pass xs ks rem may = (xs', ks', rem', may') \<Longrightarrow> set ks \<subseteq> set ks'"
proof (induction xs arbitrary: ks rem may xs' ks' rem' may')
  case (Cons x xs)
  show ?case
  proof (cases "b_explored x \<or> rem - 1 = 0")
    case True
    then show ?thesis using Cons.prems Cons.IH by (auto simp: get_next_def Let_def split: prod.splits if_splits)
  next
    case False
    then obtain xs2 where "explore_pass xs (oset_insert (expl_nodes x) ks) (rem - 1) may = (xs2, ks', rem', may')"
      using Cons.prems by (auto simp: get_next_def Let_def split: prod.splits)
    from Cons.IH [OF this] show ?thesis by simp
  qed
qed simp

lemma explore_pass_first:
  assumes "xs \<noteq> []" and "0 < rem" and "\<And>x. x \<in> set xs \<Longrightarrow> \<not> b_explored x"
    and "explore_pass xs ks rem may = (xs', ks', rem', may')"
  shows "ks' \<noteq> []"
proof (cases xs)
  case (Cons x ys)
  have ne: "oset_insert k ks \<noteq> []" for k using set_oset_insert [of k ks] by (metis insert_not_empty set_empty)
  show ?thesis
  proof (cases "rem - 1 = 0")
    case True
    then show ?thesis using assms(3,4) ne by (auto simp: Cons get_next_def Let_def)
  next
    case False
    then obtain ys2 where "explore_pass ys (oset_insert (expl_nodes x) ks) (rem - 1) may = (ys2, ks', rem', may')"
      using assms(3,4) by (auto simp: Cons get_next_def Let_def split: prod.splits)
    from explore_pass_grows [OF this] ne show ?thesis by auto
  qed
qed (use assms in simp)

subsection \<open>The frontier\<close>

text \<open>The entries the frontier is made of: at least one node, vectors long enough, and one entry per
  number of nodes.\<close>

definition entries_fit :: "'f pareto_entry set \<Rightarrow> bool" where
  "entries_fit E \<longleftrightarrow> inj_on c_knobs E \<and> (\<forall>e \<in> E. c_knobs e \<le> length (v_load e) \<and>
     length (v_time e) = length (v_load e) \<and> length (v_energy e) = length (v_load e))"

lemma entry_less_other: "c_knobs e \<noteq> c_knobs x \<Longrightarrow> entry_less P e x = Some (c_knobs e < c_knobs x)"
  by (simp add: entry_less_def Let_def)

lemma entry_less_self:
  assumes "entries_fit E" and "e \<in> E" shows "\<exists>b. entry_less P e e = Some b"
  using assms by (auto simp: entries_fit_def entry_less_def compare_vectors_def Let_def)

lemma frontier_insert_total:
  assumes "entries_fit E" and "e \<in> E" and "set fr \<subseteq> E"
  shows "\<exists>fr'. frontier_insert P e fr = Some fr' \<and> set fr' = insert e (set fr)"
  using assms(3)
proof (induction fr)
  case (Cons x fr)
  show ?case
  proof (cases "x = e")
    case True
    obtain b where "entry_less P e e = Some b" using entry_less_self [OF assms(1,2)] by blast
    then show ?thesis using True Cons by (cases b) auto
  next
    case False
    then have "c_knobs e \<noteq> c_knobs x"
      using Cons.prems assms(1,2) by (auto simp: entries_fit_def inj_on_def)
    then show ?thesis using Cons by (cases "c_knobs e < c_knobs x") (auto simp: entry_less_other)
  qed
qed simp

lemma frontier_sweep_total:
  assumes "entries_fit E" and "set es \<subseteq> E" and "set fr \<subseteq> E"
  shows "\<exists>fr'. frontier_sweep P one two es fr = Some fr' \<and> set fr \<subseteq> set fr' \<and> set fr' \<subseteq> E"
  using assms(2,3)
proof (induction es arbitrary: fr)
  case (Cons e es)
  show ?case
  proof (cases "pareto_eligible fr one two e")
    case True
    obtain fr1 where fr1: "frontier_insert P e fr = Some fr1" "set fr1 = insert e (set fr)"
      using frontier_insert_total [OF assms(1), of e fr P] Cons.prems by auto
    then show ?thesis using Cons.IH [of fr1] Cons.prems True by auto
  next
    case False
    then show ?thesis using Cons by auto
  qed
qed simp

text \<open>No entry of the frontier is worse than another entry by both criteria of its sweep.\<close>

lemma frontier_sweep_undominated:
  assumes fit: "entries_fit E" "set es1 \<union> set es2 = E" "set fr \<subseteq> E"
    and ord: "weak_order c" "weak_order d"
    and sorted: "sorted_wrt (\<lambda>x y. \<not> c y x) (es1 @ es2)"
    and D: "\<And>x y. D x y \<Longrightarrow> c x y \<and> d x y"
    and seen: "\<forall>y \<in> set es1. y \<in> set fr \<or> (\<exists>x \<in> set fr. d x y)"
    and fr: "\<forall>x \<in> set fr. \<forall>y \<in> E. \<not> D y x"
    and run: "frontier_sweep P d d es2 fr = Some fr'"
  shows "\<forall>x \<in> set fr'. \<forall>y \<in> E. \<not> D y x"
  using fit(2,3) sorted seen fr run
proof (induction es2 arbitrary: es1 fr)
  case (Cons e es)
  have app: "set (es1 @ [e]) \<union> set es = E" "sorted_wrt (\<lambda>x y. \<not> c y x) ((es1 @ [e]) @ es)"
    using Cons.prems(1,3) by auto
  show ?case
  proof (cases "pareto_eligible fr d d e")
    case True
    then have elig: "\<not> d x e" if "x \<in> set fr" for x using that by (simp add: pareto_eligible_def list_all_iff)
    obtain fr1 where fr1: "frontier_insert P e fr = Some fr1" "set fr1 = insert e (set fr)"
      using frontier_insert_total [OF fit(1), of e fr P] Cons.prems(1,2) by auto
    have "\<not> D y e" if "y \<in> E" for y
    proof
      assume Dy: "D y e"
      then have cd: "c y e" "d y e" using D by auto
      consider "y \<in> set es1" | "y = e" | "y \<in> set es" using \<open>y \<in> E\<close> Cons.prems(1) by auto
      then show False
      proof cases
        case 1
        then show False using Cons.prems(4) elig cd ord(2) unfolding weak_order_def by (meson transpD)
      next
        case 2
        then show False using cd ord by (simp add: weak_order_def)
      next
        case 3
        then show False using cd Cons.prems(3) by (auto simp: sorted_wrt_append)
      qed
    qed
    then have "\<forall>x \<in> set fr1. \<forall>y \<in> E. \<not> D y x" using fr1 Cons.prems(5) by auto
    moreover have "\<forall>y \<in> set (es1 @ [e]). y \<in> set fr1 \<or> (\<exists>x \<in> set fr1. d x y)" using fr1 Cons.prems(4) by auto
    moreover have "set fr1 \<subseteq> E" using fr1 Cons.prems(1,2) by auto
    moreover have "frontier_sweep P d d es fr1 = Some fr'" using Cons.prems(6) True fr1 by simp
    ultimately show ?thesis using Cons.IH [OF app(1) _ app(2)] by blast
  next
    case False
    then have "\<exists>x \<in> set fr. d x e" by (auto simp: pareto_eligible_def list_all_iff)
    then have "\<forall>y \<in> set (es1 @ [e]). y \<in> set fr \<or> (\<exists>x \<in> set fr. d x y)" using Cons.prems(4) by auto
    moreover have "frontier_sweep P d d es fr = Some fr'" using Cons.prems(6) False by simp
    ultimately show ?thesis using Cons.IH [OF app(1) Cons.prems(2) app(2)] Cons.prems(5) by blast
  qed
qed simp

definition dominates :: "'f fpu \<Rightarrow> 'f pareto_entry \<Rightarrow> 'f pareto_entry \<Rightarrow> bool" where
  "dominates P x y \<longleftrightarrow> CompareParetoLoad P x y \<and> CompareParetoTime P x y \<and> CompareParetoEnergy P x y"

lemma comparators_weak_order: "weak_order (flt (sgl P)) \<Longrightarrow> index < 3 \<Longrightarrow> weak_order (comparators P ! index)"
proof -
  assume w: "weak_order (flt (sgl P))" and "index < 3"
  then consider "index = 0" | "index = 1" | "index = 2" by linarith
  then show ?thesis
  proof cases
    case 1
    have "weak_order (CompareParetoLoad P)" unfolding CompareParetoLoad_def
      by (rule weak_order_map [OF weak_order_swap [OF w]])
    then show ?thesis by (simp add: 1 comparators_def)
  next
    case 2
    have "weak_order (CompareParetoTime P)" unfolding CompareParetoTime_def by (rule weak_order_map [OF w])
    then show ?thesis by (simp add: 2 comparators_def)
  next
    case 3
    have "weak_order (CompareParetoEnergy P)" unfolding CompareParetoEnergy_def by (rule weak_order_map [OF w])
    then show ?thesis by (simp add: 3 comparators_def numeral_2_eq_2)
  qed
qed

lemma dominates_comparators: "dominates P x y \<Longrightarrow> index < 3 \<Longrightarrow> (comparators P ! index) x y"
proof -
  assume "dominates P x y" and "index < 3"
  then show ?thesis by (auto simp: comparators_def dominates_def less_Suc_eq numeral_3_eq_3)
qed

lemma pareto_loop_total:
  assumes "entries_fit E" and "sorter_ok srt" and "E \<noteq> {}"
  shows "set es = E \<Longrightarrow> set fr \<subseteq> E \<Longrightarrow> ixs \<noteq> [] \<or> fr \<noteq> [] \<Longrightarrow>
    \<exists>fr'. pareto_loop P srt ixs es fr = Some fr' \<and> fr' \<noteq> [] \<and> set fr' \<subseteq> E"
proof (induction ixs arbitrary: es fr)
  case (Cons index ixs)
  have set: "set (srt (comparators P ! index) es) = E" using Cons.prems(1) sorter_set [OF assms(2)] by blast
  then obtain best rest where s: "srt (comparators P ! index) es = best # rest"
    using assms(3) by (cases "srt (comparators P ! index) es") auto
  have E: "set (best # rest) = E" using set s by simp
  obtain fr1 where fr1: "frontier_insert P best fr = Some fr1" "set fr1 = insert best (set fr)"
    using frontier_insert_total [OF assms(1), of best fr P] Cons.prems(2) E by auto
  let ?d = "comparators P ! ((index + 1) mod 3)"
  have "set fr1 \<subseteq> E" using fr1 Cons.prems(2) E by auto
  then obtain fr2 where fr2: "frontier_sweep P ?d ?d (best # rest) fr1 = Some fr2" "set fr1 \<subseteq> set fr2" "set fr2 \<subseteq> E"
    using frontier_sweep_total [OF assms(1), of "best # rest" fr1 P ?d ?d] E by blast
  have "fr2 \<noteq> []" using fr1(2) fr2(2) by auto
  then show ?case using Cons.IH [of "best # rest" fr2] E fr2(3) s fr1(1) fr2(1) by (simp add: Let_def)
qed auto

lemma pareto_loop_undominated:
  assumes "entries_fit E" and "sorter_ok srt" and "weak_order (flt (sgl P))"
  shows "set es = E \<Longrightarrow> set fr \<subseteq> E \<Longrightarrow> \<forall>index \<in> set ixs. index < 3 \<Longrightarrow>
    \<forall>x \<in> set fr. \<forall>y \<in> E. \<not> dominates P y x \<Longrightarrow> pareto_loop P srt ixs es fr = Some fr' \<Longrightarrow>
    \<forall>x \<in> set fr'. \<forall>y \<in> E. \<not> dominates P y x"
proof (induction ixs arbitrary: es fr)
  case (Cons index ixs)
  let ?c = "comparators P ! index" and ?d = "comparators P ! ((index + 1) mod 3)"
  have ix: "index < 3" "(index + 1) mod 3 < 3" using Cons.prems(3) by auto
  have c: "weak_order ?c" "weak_order ?d" using comparators_weak_order [OF assms(3)] ix by auto
  have set: "set (srt ?c es) = E" using Cons.prems(1) sorter_set [OF assms(2)] by blast
  have sorted: "sorted_wrt (\<lambda>x y. \<not> ?c y x) (srt ?c es)" by (rule sorter_sorted [OF assms(2) c(1)])
  show ?case
  proof (cases "srt ?c es")
    case Nil
    then show ?thesis using set by simp
  next
    case s: (Cons best rest)
    have E: "set (best # rest) = E" using set s by simp
    obtain fr1 where fr1: "frontier_insert P best fr = Some fr1" "set fr1 = insert best (set fr)"
      using frontier_insert_total [OF assms(1), of best fr P] Cons.prems(2) E by auto
    have sub: "set fr1 \<subseteq> E" using fr1 Cons.prems(2) E by auto
    have "\<not> ?c y best" if "y \<in> E" for y
      using that E sorted c(1) unfolding s weak_order_def by auto
    then have best: "\<forall>y \<in> E. \<not> dominates P y best" using dominates_comparators [OF _ ix(1)] by blast
    obtain fr2 where fr2: "frontier_sweep P ?d ?d (best # rest) fr1 = Some fr2" "set fr2 \<subseteq> E"
      using frontier_sweep_total [OF assms(1), of "best # rest" fr1 P ?d ?d] E sub by blast
    have run: "pareto_loop P srt ixs (best # rest) fr2 = Some fr'"
      using Cons.prems(5) s fr1(1) fr2(1) by (simp add: Let_def)
    have "\<forall>x \<in> set fr2. \<forall>y \<in> E. \<not> dominates P y x"
    proof (rule frontier_sweep_undominated [where ?es1.0 = "[]" and c = ?c and d = ?d, OF assms(1) _ sub c _ _ _ _ fr2(1)])
      show "?c x y \<and> ?d x y" if "dominates P x y" for x y
        using dominates_comparators [OF that] ix by blast
    qed (use E sorted s best Cons.prems(4) fr1(2) in auto)
    from Cons.IH [OF E fr2(2) _ this run] Cons.prems(3) show ?thesis by simp
  qed
qed simp

lemma inv_entries_fit:
  assumes "ino_inv s" shows "entries_fit (snd ` set (v_past s))"
proof -
  have ok: "entry_ok s p" if "p \<in> set (v_past s)" for p by (rule inv_entry [OF assms that])
  have dist: "distinct (map fst (v_past s))"
    using assms strict_sorted_iff unfolding ino_inv_def by blast
  have "inj_on c_knobs (snd ` set (v_past s))"
  proof (rule inj_onI)
    fix e x assume "e \<in> snd ` set (v_past s)" "x \<in> snd ` set (v_past s)" "c_knobs e = c_knobs x"
    then obtain p q where pq: "p \<in> set (v_past s)" "q \<in> set (v_past s)" "e = snd p" "x = snd q" by auto
    then have "fst p = fst q" using \<open>c_knobs e = c_knobs x\<close> ok unfolding entry_ok_def by metis
    then have "p = q" using dist pq by (metis distinct_map inj_onD)
    then show "e = x" using pq by simp
  qed
  then show ?thesis using ok unfolding entries_fit_def entry_ok_def in_bounds_def by fastforce
qed

lemma frontier_insert_length: "frontier_insert P e fr = Some fr' \<Longrightarrow> length fr' \<le> Suc (length fr)"
  by (induction fr arbitrary: fr') (auto simp: Option.bind_eq_Some_conv split: if_splits)

lemma frontier_sweep_length: "frontier_sweep P one two es fr = Some fr' \<Longrightarrow> length fr' \<le> length fr + length es"
proof (induction es arbitrary: fr)
  case (Cons e es)
  show ?case
  proof (cases "pareto_eligible fr one two e")
    case True
    then obtain fr1 where "frontier_insert P e fr = Some fr1" "frontier_sweep P one two es fr1 = Some fr'"
      using Cons.prems by (auto simp: Option.bind_eq_Some_conv)
    then show ?thesis using Cons.IH [of fr1] frontier_insert_length [of P e fr fr1] by simp
  next
    case False
    then show ?thesis using Cons.IH [of fr] Cons.prems by simp
  qed
qed simp

lemma pareto_loop_length:
  assumes "sorter_ok srt"
  shows "pareto_loop P srt ixs es fr = Some fr' \<Longrightarrow> length fr' \<le> length fr + length ixs * Suc (length es)"
proof (induction ixs arbitrary: es fr)
  case (Cons index ixs)
  let ?d = "comparators P ! ((index + 1) mod 3)"
  have len: "length (srt (comparators P ! index) es) = length es"
    using sorter_mset [OF assms] by (metis size_mset)
  show ?case
  proof (cases "srt (comparators P ! index) es")
    case Nil
    then show ?thesis using Cons.prems by simp
  next
    case s: (Cons best rest)
    obtain fr1 fr2 where r: "frontier_insert P best fr = Some fr1" "frontier_sweep P ?d ?d (best # rest) fr1 = Some fr2"
      "pareto_loop P srt ixs (best # rest) fr2 = Some fr'"
      using Cons.prems s by (auto simp: Let_def Option.bind_eq_Some_conv simp del: frontier_sweep.simps)
    have "length (best # rest) = length es" using len s by simp
    then show ?thesis
      using Cons.IH [OF r(3)] frontier_insert_length [OF r(1)] frontier_sweep_length [OF r(2)] by simp
  qed
qed simp

lemma get_best_total:
  assumes "ino_inv s" and "v_past s \<noteq> []" and "sorter_ok srt" and "good_rand rs"
    and "3 * Suc (length (v_past s)) \<le> rand_max"
  shows "\<exists>k i'. get_best P srt rs i s = Some (k, i') \<and> in_bounds s k"
proof -
  let ?E = "snd ` set (v_past s)"
  note fit = inv_entries_fit [OF assms(1)]
  obtain fr where fr: "pareto_loop P srt [0, 1, 2] (map snd (v_past s)) [] = Some fr" "fr \<noteq> []" "set fr \<subseteq> ?E"
    using pareto_loop_total [OF fit assms(3), of "map snd (v_past s)" "[]" "[0, 1, 2]" P] assms(2) by auto
  have E: "in_bounds s (c_knobs e)" if "e \<in> ?E" for e
    using that entry_in_bounds [OF inv_entry [OF assms(1)]] by blast
  have "length fr \<le> rand_max" using pareto_loop_length [OF assms(3) fr(1)] assms(5) by simp
  then obtain e i' where "random_element rs i fr = Some (e, i')" "e \<in> set fr"
    using random_element_returns [OF assms(4) fr(2), of i] by blast
  then show ?thesis using fr(1,3) E by (auto simp: get_best_def)
qed

text \<open>C23: what get_best returns is the configuration of an entry of the history that no other entry
  beats by load, time and energy at once.\<close>

theorem get_best_undominated:
  assumes "ino_inv s" and "sorter_ok srt" and "weak_order (flt (sgl P))" and "get_best P srt rs i s = Some (k, i')"
  shows "\<exists>e. (k, e) \<in> set (v_past s) \<and> (\<forall>(k', e') \<in> set (v_past s). \<not> dominates P e' e)"
proof -
  let ?E = "snd ` set (v_past s)"
  note fit = inv_entries_fit [OF assms(1)]
  obtain fr e where fr: "pareto_loop P srt [0, 1, 2] (map snd (v_past s)) [] = Some fr"
    and e: "random_element rs i fr = Some (e, i')" "k = c_knobs e"
    using assms(4) by (auto simp: get_best_def Option.bind_eq_Some_conv)
  have "v_past s \<noteq> []"
  proof
    assume "v_past s = []"
    then have "fr = []" using fr sorter_set [OF assms(2), of _ "[]"] by simp
    then show False using e by (simp add: random_element_def)
  qed
  then obtain fr2 where "pareto_loop P srt [0, 1, 2] (map snd (v_past s)) [] = Some fr2" "set fr2 \<subseteq> ?E"
    using pareto_loop_total [OF fit assms(2), of "map snd (v_past s)" "[]" "[0, 1, 2]" P] by auto
  then have sub: "set fr \<subseteq> ?E" using fr by simp
  have "e \<in> set fr" by (rule random_element_in [OF e(1)])
  then obtain p where p: "p \<in> set (v_past s)" "e = snd p" using sub by blast
  have "\<forall>x \<in> set fr. \<forall>y \<in> ?E. \<not> dominates P y x"
    by (rule pareto_loop_undominated [OF fit assms(2,3) _ _ _ _ fr]) auto
  then have "\<forall>y \<in> ?E. \<not> dominates P y e" using \<open>e \<in> set fr\<close> by blast
  moreover have "k = fst p" using p inv_entry [OF assms(1) p(1)] e(2) unfolding entry_ok_def by metis
  then have "(k, e) \<in> set (v_past s)" using p by simp
  ultimately show ?thesis by (intro exI [of _ e]) (auto simp: image_iff split: prod.split)
qed

text \<open>An example: four configurations and their averages.\<close>

definition demo_entry :: "nat \<Rightarrow> rat \<Rightarrow> rat \<Rightarrow> rat \<Rightarrow> rat pareto_entry" where
  "demo_entry n l t e = \<lparr>u_at_tick = 0, c_knobs = n, v_load = [l * of_nat n, 0, 0, 0],
     v_time = [t * of_nat n, 0, 0, 0], v_energy = [e * of_nat n, 0, 0, 0]\<rparr>"

definition demo_ino :: "rat ino" where
  "demo_ino = \<lparr>c_last_choice = 1, ino_nodes = 4, u_min_nodes = 1, u_max_nodes = 4, u_choices = 3,
     u_history_interval = 10000, u_history_tick = 4, d_target = 1/4, d_leeway = 3/4,
     v_past = [(1, demo_entry 1 3 1 3), (2, demo_entry 2 1 1 1), (3, demo_entry 3 3 3 1), (4, demo_entry 4 2 2 2)],
     v_explore_logistics = [], s_forgotten = [], s_explore = []\<rparr>"

lemma rat_weak_order [simp]: "weak_order (flt (sgl rat_fpu))"
  by (simp add: weak_order_less)

lemma demo_ino_inv: "ino_inv demo_ino"
  by (simp add: demo_ino_def ino_inv_def demo_entry_def entry_ok_def in_bounds_def)

lemma demo_compare:
  assumes "0 < n" and "0 < n'"
  shows "CompareParetoLoad rat_fpu (demo_entry n l t e) (demo_entry n' l' t' e') \<longleftrightarrow> l' < l"
    and "CompareParetoTime rat_fpu (demo_entry n l t e) (demo_entry n' l' t' e') \<longleftrightarrow> t < t'"
    and "CompareParetoEnergy rat_fpu (demo_entry n l t e) (demo_entry n' l' t' e') \<longleftrightarrow> e < e'"
  using assms by (simp_all add: CompareParetoLoad_def CompareParetoTime_def CompareParetoEnergy_def
    average_load_def average_time_def average_energy_def average_def demo_entry_def fsum_def)

lemma demo_less: "n \<le> 4 \<Longrightarrow> 0 < n \<Longrightarrow> entry_less rat_fpu (demo_entry n l t e) (demo_entry n l t e) = Some False"
  by (auto simp: entry_less_def demo_entry_def compare_vectors_def Let_def take_Cons' list_all_iff)

lemma demo_less_other: "n \<noteq> n' \<Longrightarrow> entry_less rat_fpu (demo_entry n l t e) (demo_entry n' l' t' e') = Some (n < n')"
  by (simp add: entry_less_def demo_entry_def Let_def)

lemmas demo_simps = demo_compare demo_less demo_less_other comparators_def insertion_sort_def pareto_eligible_def

lemma demo_frontier:
  "pareto_loop rat_fpu insertion_sort [0, 1, 2] (map snd (v_past demo_ino)) [] =
    Some [demo_entry 1 3 1 3, demo_entry 2 1 1 1, demo_entry 3 3 3 1]"
  by (simp add: demo_simps demo_ino_def numeral_2_eq_2)

lemma demo_best: "get_best rat_fpu insertion_sort (\<lambda>_. 0) 0 demo_ino = Some (1, 1)"
  unfolding get_best_def demo_frontier
  by (simp add: random_element_def random_loop.simps rand_max_def demo_entry_def Let_def)

theorem get_best_undominated_witness:
  "\<exists>e. (1, e) \<in> set (v_past demo_ino) \<and> (\<forall>(k', e') \<in> set (v_past demo_ino). \<not> dominates rat_fpu e' e)"
  by (rule get_best_undominated [OF demo_ino_inv insertion_sort_ok rat_weak_order demo_best])

text \<open>The sweeps compare with one criterion only, comp1 and comp2 being the same function: an entry
  that no other entry equals or beats in all three criteria can be missing from the frontier.\<close>

lemma frontier_misses_optimal:
  "(4, demo_entry 4 2 2 2) \<in> set (v_past demo_ino) \<and>
   (\<forall>(k, e) \<in> set (v_past demo_ino). k \<noteq> 4 \<longrightarrow>
     CompareParetoLoad rat_fpu (demo_entry 4 2 2 2) e \<or> CompareParetoTime rat_fpu (demo_entry 4 2 2 2) e \<or>
     CompareParetoEnergy rat_fpu (demo_entry 4 2 2 2) e) \<and>
   (\<exists>fr. pareto_loop rat_fpu insertion_sort [0, 1, 2] (map snd (v_past demo_ino)) [] = Some fr \<and>
     demo_entry 4 2 2 2 \<notin> set fr)"
proof -
  have "demo_entry 4 2 2 2 \<notin> set [demo_entry 1 3 1 3, demo_entry 2 1 1 1, demo_entry 3 3 3 1]"
    by (simp add: demo_entry_def)
  then show ?thesis unfolding demo_frontier by (simp add: demo_compare demo_ino_def)
qed

subsection \<open>Every request is answered\<close>

lemma bounded_length:
  fixes ks :: "nat list"
  assumes "sorted_wrt (<) ks" and "\<And>k. k \<in> set ks \<Longrightarrow> 1 \<le> k \<and> k \<le> n"
  shows "length ks \<le> n"
proof -
  have "length ks = card (set ks)" using assms(1) strict_sorted_iff distinct_card by metis
  also have "\<dots> \<le> card {1..n}" using assms(2) by (intro card_mono) auto
  finally show ?thesis by simp
qed

lemma inv_lengths:
  assumes "ino_inv s"
  shows "length (v_past s) \<le> ino_nodes s" and "length (s_explore s) \<le> ino_nodes s"
proof -
  have b: "1 \<le> k \<and> k \<le> ino_nodes s" if "in_bounds s k" for k
    using that assms unfolding in_bounds_def ino_inv_def by auto
  have "length (map fst (v_past s)) \<le> ino_nodes s"
  proof (rule bounded_length)
    fix k assume "k \<in> set (map fst (v_past s))"
    then obtain p where "p \<in> set (v_past s)" "k = fst p" by auto
    then show "1 \<le> k \<and> k \<le> ino_nodes s" using b inv_entry [OF assms] unfolding entry_ok_def by auto
  qed (use assms in \<open>simp add: ino_inv_def\<close>)
  then show "length (v_past s) \<le> ino_nodes s" by simp
  show "length (s_explore s) \<le> ino_nodes s"
    by (rule bounded_length) (use assms b in \<open>auto simp: ino_inv_def\<close>)
qed

definition fresh_generators :: "'f ino \<Rightarrow> bool" where
  "fresh_generators s \<longleftrightarrow> v_explore_logistics s \<noteq> [] \<and> (\<forall>x \<in> set (v_explore_logistics s). \<not> b_explored x)"

lemma explore_fresh:
  assumes "fresh_generators s" and "s_explore s = []"
  shows "s_explore (explore_configurations s) \<noteq> []"
proof -
  let ?xs = "v_explore_logistics s" and ?r = "INO_EXPLORATION_SOFT_LIMIT"
  obtain xs ks r where l: "explore_loop ?xs (s_explore s) (?r - length (s_explore s)) (?xs \<noteq> []) = (xs, ks, r)"
    by (cases "explore_loop ?xs (s_explore s) (?r - length (s_explore s)) (?xs \<noteq> [])") auto
  have pos: "?xs \<noteq> [] \<and> 0 < ?r" using assms(1) by (simp add: fresh_generators_def INO_EXPLORATION_SOFT_LIMIT_def)
  obtain xs1 ks1 r1 m1 where p: "explore_pass ?xs [] ?r False = (xs1, ks1, r1, m1)"
    by (cases "explore_pass ?xs [] ?r False") auto
  have "ks1 \<noteq> []"
    by (rule explore_pass_first [OF _ _ _ p]) (use assms(1) pos in \<open>auto simp: fresh_generators_def\<close>)
  moreover have "ks = ks1"
    using l pos p explore_pass_not_may [OF p]
    by (simp add: assms(2) explore_loop.simps [of ?xs] explore_loop.simps [of xs1])
  ultimately have "ks \<noteq> []" by simp
  obtain u v where "explore_configurations s = s\<lparr>v_explore_logistics := xs, s_explore :=
      foldl (\<lambda>ks (_, e). oset_insert (c_knobs e) ks)
        (foldl (\<lambda>ks k. oset_insert k ks) ks (take u (s_forgotten s))) (take v (v_past s))\<rparr>"
    by (rule explore_configurations_eq [OF l]) (use assms(2) pos in simp)
  then have "set ks \<subseteq> set (s_explore (explore_configurations s))" by (auto simp: foldl_oset foldl_oset_pair)
  then show ?thesis using \<open>ks \<noteq> []\<close> by auto
qed

text \<open>The fields the choice of a configuration leaves alone.\<close>

definition same_setup :: "'f ino \<Rightarrow> 'f ino \<Rightarrow> bool" where
  "same_setup s t \<longleftrightarrow> ino_nodes t = ino_nodes s \<and> u_min_nodes t = u_min_nodes s \<and> u_max_nodes t = u_max_nodes s \<and>
     u_history_interval t = u_history_interval s"

lemma explore_configurations_setup: "same_setup s (explore_configurations s)"
  by (simp add: same_setup_def explore_configurations_simps)

lemma get_next_explore_total:
  assumes "ino_inv s" and "v_past s \<noteq> [] \<or> (fresh_generators s \<and> s_explore s = [])" and "good_rand rs"
    and "ino_nodes s \<le> rand_max"
  shows "\<exists>k s' i'. get_next_explore rs i s = Some (k, s', i') \<and> in_bounds s k \<and> ino_inv s' \<and> same_setup s s' \<and>
    u_choices s' = u_choices s"
proof -
  define t where "t = (if s_explore s = [] then explore_configurations s else s)"
  have inv: "ino_inv t" using assms(1) explore_configurations_inv [OF assms(1)] by (simp add: t_def)
  have same: "same_setup s t" "u_choices t = u_choices s" "v_past t = v_past s"
    using explore_configurations_setup by (auto simp: t_def explore_configurations_simps same_setup_def)
  have B: "in_bounds t = in_bounds s" using same(1) by (intro in_bounds_cong) (simp_all add: same_setup_def)
  have nodes: "ino_nodes t \<le> rand_max" using same(1) assms(4) by (simp add: same_setup_def)
  show ?thesis
  proof (cases "s_explore t = []")
    case False
    have "length (s_explore t) \<le> rand_max" using inv_lengths [OF inv] nodes by linarith
    then obtain k i' where r: "random_element rs i (s_explore t) = Some (k, i')" "k \<in> set (s_explore t)"
      using random_element_returns [OF assms(3) False, of i] by blast
    let ?s = "t\<lparr>s_explore := removeAll k (s_explore t)\<rparr>"
    have b: "in_bounds ?s = in_bounds t" "entry_ok ?s = entry_ok t" by (auto intro!: in_bounds_cong entry_ok_cong)
    have "sorted_wrt (<) (removeAll k (s_explore t))"
      using inv unfolding ino_inv_def by (simp add: removeAll_filter_not_eq sorted_wrt_filter)
    then have "ino_inv ?s" using inv unfolding ino_inv_def b by simp
    moreover have "in_bounds s k" using r(2) inv B by (simp add: ino_inv_def)
    moreover have "same_setup s ?s" using same(1) by (simp add: same_setup_def)
    moreover have "get_next_explore rs i s = Some (k, ?s, i')"
      using r(1) False unfolding get_next_explore_def t_def [symmetric] Let_def by simp
    ultimately show ?thesis using same(2) by auto
  next
    case True
    then have "v_past s \<noteq> []" using assms(2) explore_fresh [of s] t_def by auto
    moreover have "length (v_past s) \<le> rand_max" using inv_lengths [OF assms(1)] assms(4) by linarith
    ultimately obtain p i' where r: "random_element rs i (v_past s) = Some (p, i')" "p \<in> set (v_past s)"
      using random_element_returns [OF assms(3), of "v_past s" i] by blast
    then have "get_next_explore rs i s = Some (c_knobs (snd p), t, i')"
      using True unfolding get_next_explore_def t_def [symmetric] Let_def by (cases p) (simp add: same(3))
    moreover have "in_bounds s (c_knobs (snd p))" by (rule entry_in_bounds [OF inv_entry [OF assms(1) r(2)]])
    ultimately show ?thesis using inv same by auto
  qed
qed

text \<open>An optimizer that has not chosen yet has all its generators; afterwards the history gets an entry
  before every choice.\<close>

definition ino_ready :: "'f ino \<Rightarrow> bool" where
  "ino_ready s \<longleftrightarrow> ino_inv s \<and> 0 < u_history_interval s \<and> ino_nodes s \<le> 500000000 \<and>
     (u_choices s \<noteq> 0 \<or> (fresh_generators s \<and> s_explore s = [] \<and> v_past s = []))"

text \<open>Complete measurements of a step: three vectors with an element per node, at least as many as the optimizer may
  choose.  get\_node\_configuration does not check it, and its only caller passes about half as many.\<close>

definition measures_ok :: "'f ino \<Rightarrow> 'f list \<times> 'f list \<times> 'f list \<Rightarrow> bool" where
  "measures_ok s m \<longleftrightarrow> (case m of (load, time, energy) \<Rightarrow>
     u_max_nodes s \<le> length load \<and> length time = length load \<and> length energy = length load)"

lemma get_node_configuration_step:
  assumes "ino_ready s" and "measures_ok s (load, time, energy)" and "sorter_ok srt" and "good_rand rs"
  shows "\<exists>k s' i'. get_node_configuration P srt rs i load time energy None s = Some (k, s', i') \<and> in_bounds s k \<and>
    ino_inv s' \<and> same_setup s s' \<and> u_choices s' = u_choices s + 1"
proof -
  have inv: "ino_inv s" and nodes: "ino_nodes s \<le> 500000000" and int: "0 < u_history_interval s"
    using assms(1) by (simp_all add: ino_ready_def)
  define t where "t = (if 0 < u_choices s then record_point (c_last_choice s) load energy time s else s)"
  define u where "u = try_forget (t\<lparr>u_history_tick := u_history_tick t + 1\<rparr>)"
  have tinv: "ino_inv t"
    using inv assms(2) record_point_inv [OF inv, of "c_last_choice s" load energy time]
    by (auto simp: t_def measures_ok_def ino_inv_def word_gt_0)
  have "ino_inv (t\<lparr>u_history_tick := u_history_tick t + 1\<rparr>)"
  proof -
    let ?t = "t\<lparr>u_history_tick := u_history_tick t + 1\<rparr>"
    have b: "in_bounds ?t = in_bounds t" "entry_ok ?t = entry_ok t" by (auto intro!: in_bounds_cong entry_ok_cong)
    show ?thesis using tinv unfolding ino_inv_def b by simp
  qed
  then have uinv: "ino_inv u" unfolding u_def by (rule try_forget_inv)
  have same: "same_setup s u" "u_choices u = u_choices s"
    by (auto simp: u_def t_def try_forget_def Let_def record_point_def same_setup_def)
  have B: "in_bounds u = in_bounds s" using same(1) by (intro in_bounds_cong) (simp_all add: same_setup_def)
  have past: "v_past u \<noteq> []" if c: "u_choices s \<noteq> 0"
  proof -
    have sorted: "sorted_wrt (<) (map fst (v_past s))" using inv by (simp add: ino_inv_def)
    obtain e where e: "(c_last_choice s, e) \<in> set (v_past t)" "u_at_tick e = u_history_tick s"
      using record_point_has [OF sorted, of "c_last_choice s" load energy time] c unfolding t_def word_gt_0 by auto
    have "u_history_tick t + 1 - u_at_tick e = 1" "u_history_interval t = u_history_interval s"
      using e(2) by (auto simp: t_def record_point_def)
    then have "\<not> u_history_interval t < u_history_tick t + 1 - u_at_tick e"
      using int by (simp add: word_less_nat_alt not_less unat_gt_0_word)
    then have "(c_last_choice s, e) \<in> set (v_past u)" using e(1) by (simp add: u_def try_forget_def Let_def)
    then show ?thesis by auto
  qed
  have unodes: "ino_nodes u \<le> 500000000" using same nodes by (simp add: same_setup_def)
  define explore where "explore \<longleftrightarrow> u_choices u < INO_EXPLORATION_PHASE_STEPS \<or>
           (INO_EXPLORATION_PHASE_STEPS < u_choices u \<and>
            (u_choices u - INO_EXPLORATION_PHASE_STEPS + 1) mod (INO_RANDOM_EVERY + 1) = 0)"
  have "\<exists>k v i'. (if explore then get_next_explore rs i u
        else do { (k, i) \<leftarrow> get_best P srt rs i u; Some (k, u, i) }) = Some (k, v, i') \<and> in_bounds u k \<and>
      ino_inv v \<and> same_setup u v \<and> u_choices v = u_choices u"
  proof (cases explore)
    case True
    have "v_past u \<noteq> [] \<or> (fresh_generators u \<and> s_explore u = [])"
    proof (cases "u_choices s = 0")
      case True
      then have "fresh_generators s \<and> s_explore s = []" using assms(1) by (simp add: ino_ready_def)
      then show ?thesis using True by (auto simp: u_def t_def try_forget_def Let_def fresh_generators_def)
    qed (use past in simp)
    from get_next_explore_total [OF uinv this assms(4)] unodes True show ?thesis by (simp add: rand_max_def)
  next
    case False
    have "u_choices s \<noteq> 0" using False same(2) by (auto simp: explore_def INO_EXPLORATION_PHASE_STEPS_def)
    moreover have "3 * Suc (length (v_past u)) \<le> rand_max" using inv_lengths(1) [OF uinv] unodes by (simp add: rand_max_def)
    ultimately obtain k i' where "get_best P srt rs i u = Some (k, i')" "in_bounds u k"
      using get_best_total [OF uinv past assms(3,4)] by blast
    then show ?thesis using False uinv by (simp add: same_setup_def)
  qed
  then obtain k v i' where r: "(if explore then get_next_explore rs i u
        else do { (k, i) \<leftarrow> get_best P srt rs i u; Some (k, u, i) }) = Some (k, v, i')"
    "in_bounds u k" "ino_inv v" "same_setup u v" "u_choices v = u_choices u" by blast
  let ?v = "v\<lparr>c_last_choice := k, u_choices := u_choices v + 1\<rparr>"
  have "get_node_configuration P srt rs i load time energy None s = Some (k, ?v, i')"
  proof -
    have t: "(case (if None = None \<and> 0 < u_choices s then Some (c_last_choice s) else None) of
        Some k \<Rightarrow> record_point k load energy time s | None \<Rightarrow> s) = t" by (simp add: t_def)
    show ?thesis
      unfolding get_node_configuration_def Let_def t u_def [symmetric] explore_def [symmetric] r(1) by simp
  qed
  moreover have "ino_inv ?v"
  proof -
    have b: "in_bounds ?v = in_bounds v" "entry_ok ?v = entry_ok v" "in_bounds v = in_bounds u"
      using r(4) by (auto intro!: in_bounds_cong entry_ok_cong simp: same_setup_def)
    show ?thesis using r(2,3) unfolding ino_inv_def b(1,2) by (simp add: b(3))
  qed
  moreover have "same_setup s ?v" using same(1) r(4) by (simp add: same_setup_def)
  ultimately show ?thesis using r(2,5) B same(2) by auto
qed

text \<open>A sequence of requests with the measurements before each of them.\<close>

fun ino_requests ::
  "'f fpu \<Rightarrow> 'f pareto_entry sorter \<Rightarrow> (nat \<Rightarrow> nat) \<Rightarrow> nat \<Rightarrow> ('f list \<times> 'f list \<times> 'f list) list \<Rightarrow> 'f ino \<Rightarrow>
   (ino_knobs list \<times> 'f ino \<times> nat) option" where
  "ino_requests P srt rs i [] s = Some ([], s, i)"
| "ino_requests P srt rs i ((load, time, energy) # ms) s = do {
    (k, s, i) \<leftarrow> get_node_configuration P srt rs i load time energy None s;
    (ks, s, i) \<leftarrow> ino_requests P srt rs i ms s;
    Some (k # ks, s, i)}"

lemma ino_requests_answered:
  assumes "sorter_ok srt" and "good_rand rs"
  shows "ino_ready s \<Longrightarrow> \<forall>m \<in> set ms. measures_ok s m \<Longrightarrow> unat (u_choices s) + length ms < 2 ^ 64 \<Longrightarrow>
    \<exists>ks s' i'. ino_requests P srt rs i ms s = Some (ks, s', i') \<and> length ks = length ms \<and> (\<forall>k \<in> set ks. in_bounds s k)"
proof (induction ms arbitrary: s i)
  case (Cons m ms)
  obtain load time energy where m: "m = (load, time, energy)" by (cases m)
  have m_ok: "measures_ok s (load, time, energy)" using Cons.prems(2) m by simp
  obtain k s1 i1 where r: "get_node_configuration P srt rs i load time energy None s = Some (k, s1, i1)"
      "in_bounds s k" "ino_inv s1" "same_setup s s1" "u_choices s1 = u_choices s + 1"
    using get_node_configuration_step [OF Cons.prems(1) m_ok assms] by blast
  have u: "unat (u_choices s1) = unat (u_choices s) + 1"
    using Cons.prems(3) r(5) by (simp add: unat_plus_one)
  then have "u_choices s1 \<noteq> 0" by auto
  then have ready: "ino_ready s1" using Cons.prems(1) r(3,4) by (simp add: ino_ready_def same_setup_def)
  have "\<forall>m \<in> set ms. measures_ok s1 m"
    using Cons.prems(2) r(4) by (auto simp: measures_ok_def same_setup_def)
  moreover have "unat (u_choices s1) + length ms < 2 ^ 64" using u Cons.prems(3) by simp
  ultimately obtain ks s' i' where "ino_requests P srt rs i1 ms s1 = Some (ks, s', i')" "length ks = length ms"
      "\<forall>k \<in> set ks. in_bounds s1 k" using Cons.IH [OF ready] by blast
  moreover have "in_bounds s1 = in_bounds s" using r(4) by (intro in_bounds_cong) (simp_all add: same_setup_def)
  ultimately show ?case using r(1,2) m by simp
qed simp

text \<open>C26: from its construction on the optimizer answers every request, with a number of nodes between the bounds it was
  constructed with, if the least number of nodes is not above the greatest, the interval of the history is positive,
  no previous decision is passed, and every measurement is complete (measures\_ok): three vectors of the same length,
  with an element for each of the u\_max\_nodes nodes.  The only caller does not grant the last one: balance\_ino passes
  the values of every second node, and the comparison of two records then reads past the end of the vectors
  (balance\_ino\_even\_fails in the theory Global\_Optimizer).\<close>

theorem node_configuration_answered:
  fixes P :: "'f fpu" and to_size target leeway nodes reset
  defines "s \<equiv> new_ino P to_size nodes target leeway reset"
  assumes "sorter_ok srt" and "good_rand rs"
    and "u_min_nodes s \<le> u_max_nodes s" and "0 < reset" and "nodes \<le> 500000000"
    and "\<forall>m \<in> set ms. measures_ok s m" and "length ms < 2 ^ 64"
  shows "\<exists>ks s' i'. ino_requests P srt rs i ms s = Some (ks, s', i') \<and> length ks = length ms \<and>
    (\<forall>k \<in> set ks. 1 \<le> k \<and> u_min_nodes s \<le> k \<and> k \<le> u_max_nodes s \<and> k \<le> nodes)"
proof -
  have inv: "ino_inv s" using assms(4) unfolding s_def by (rule new_ino_inv)
  have s: "u_choices s = 0" "v_past s = []" "s_explore s = []" "ino_nodes s = nodes" "u_history_interval s = reset"
    by (simp_all add: s_def new_ino_def Let_def)
  have "fresh_generators s" using assms(4) by (auto simp: s_def new_ino_def Let_def fresh_generators_def)
  then have "ino_ready s" using inv s assms(5,6) by (simp add: ino_ready_def)
  from ino_requests_answered [OF assms(2,3) this assms(7)] assms(8) s(1)
  obtain ks s' i' where "ino_requests P srt rs i ms s = Some (ks, s', i')" "length ks = length ms"
    "\<forall>k \<in> set ks. in_bounds s k" by fastforce
  moreover have "1 \<le> u_min_nodes s" "u_max_nodes s \<le> nodes" using inv s(4) by (auto simp: ino_inv_def)
  ultimately show ?thesis by (fastforce simp: in_bounds_def)
qed

theorem node_configuration_answered_witness:
  "\<exists>ks s' i'. ino_requests rat_fpu insertion_sort (\<lambda>_. 0) 0
      (replicate 5 ([1, 2, 3, 4], [1, 1, 1, 1], [5, 5, 5, 5]))
      (new_ino rat_fpu (\<lambda>r. nat \<lceil>r\<rceil>) 4 (1/4) (3/4) 10000) = Some (ks, s', i') \<and> length ks = 5 \<and>
    (\<forall>k \<in> set ks. 1 \<le> k \<and> k \<le> 4)"
proof -
  have lo: "u_min_nodes (new_ino rat_fpu (\<lambda>r. nat \<lceil>r\<rceil>) 4 (1/4) (3/4) 10000) = 1"
    and hi: "u_max_nodes (new_ino rat_fpu (\<lambda>r. nat \<lceil>r\<rceil>) 4 (1/4) (3/4) 10000) = 4"
    by (simp_all add: new_ino_def Let_def)
  have r: "good_rand (\<lambda>_. 0)" by (auto simp: good_rand_def rand_max_def)
  have "\<exists>ks s' i'. ino_requests rat_fpu insertion_sort (\<lambda>_. 0) 0
      (replicate 5 ([1, 2, 3, 4], [1, 1, 1, 1], [5, 5, 5, 5]))
      (new_ino rat_fpu (\<lambda>r. nat \<lceil>r\<rceil>) 4 (1/4) (3/4) 10000) = Some (ks, s', i') \<and>
      length ks = length (replicate 5 ([1, 2, 3, 4 :: rat], [1, 1, 1, 1 :: rat], [5, 5, 5, 5 :: rat])) \<and>
    (\<forall>k \<in> set ks. 1 \<le> k \<and> u_min_nodes (new_ino rat_fpu (\<lambda>r. nat \<lceil>r\<rceil>) 4 (1/4) (3/4) 10000) \<le> k \<and>
      k \<le> u_max_nodes (new_ino rat_fpu (\<lambda>r. nat \<lceil>r\<rceil>) 4 (1/4) (3/4) 10000) \<and> k \<le> 4)"
    by (rule node_configuration_answered [OF insertion_sort_ok r]) (simp_all add: lo hi measures_ok_def)
  then show ?thesis by (fastforce simp: lo hi)
qed

lemma get_next_explore_past: "get_next_explore rs i s = Some (k, s', i') \<Longrightarrow> v_past s' = v_past s"
  by (auto simp: get_next_explore_def Let_def Option.bind_eq_Some_conv explore_configurations_simps split: if_splits)

text \<open>Get\_node\_configuration files the energy of a step as its time, and the time as its energy.\<close>

theorem measurements_swapped:
  assumes "sorted_wrt (<) (map fst (v_past s))" and "0 < u_history_interval s"
    and "get_node_configuration P srt rs i load time energy (Some k) s = Some (k', s', i')"
  shows "\<exists>e. (k, e) \<in> set (v_past s') \<and> v_load e = load \<and> v_time e = energy \<and> v_energy e = time"
proof -
  let ?t = "record_point k load energy time s"
  let ?u = "try_forget (?t\<lparr>u_history_tick := u_history_tick ?t + 1\<rparr>)"
  have put: "map_of (omap_put k e (v_past s)) k = Some e" for e using map_of_put [OF assms(1)] by simp
  obtain e where e: "map_of (v_past ?t) k = Some e" "u_at_tick e = u_history_tick s" "v_load e = load"
    "v_time e = energy" "v_energy e = time"
    by (cases "map_of (v_past s) k") (simp_all add: record_point_def put)
  have "u_history_tick ?t + 1 - u_at_tick e = 1" "u_history_interval ?t = u_history_interval s"
    using e(2) by (simp_all add: record_point_def)
  then have "\<not> u_history_interval ?t < u_history_tick ?t + 1 - u_at_tick e"
    using assms(2) by (simp add: word_less_nat_alt not_less unat_gt_0_word)
  then have "(k, e) \<in> set (v_past ?u)" using map_of_SomeD [OF e(1)] by (simp add: try_forget_def Let_def)
  moreover have "v_past s' = v_past ?u"
    using assms(3) unfolding get_node_configuration_def Let_def
    by (auto simp: Option.bind_eq_Some_conv dest: get_next_explore_past split: if_splits)
  ultimately show ?thesis using e(3-5) by auto
qed

theorem measurements_swapped_witness:
  "\<exists>k' s' i' e. get_node_configuration rat_fpu insertion_sort (\<lambda>_. 0) 0 [1] [2] [3] (Some 1)
      (new_ino rat_fpu (\<lambda>r. nat \<lceil>r\<rceil>) 1 (1/4) (3/4) 10000) = Some (k', s', i') \<and>
    (1, e) \<in> set (v_past s') \<and> v_load e = [1] \<and> v_time e = [3] \<and> v_energy e = [2]"
proof -
  let ?s = "new_ino rat_fpu (\<lambda>r. nat \<lceil>r\<rceil>) 1 (1/4) (3/4) 10000"
  have "\<exists>k' s' i'. get_node_configuration rat_fpu insertion_sort (\<lambda>_. 0) 0 [1] [2] [3] (Some 1) ?s = Some (k', s', i')"
    by (simp add: new_ino_def get_node_configuration_def record_point_def omap_put_def try_forget_def
      get_next_explore_def explore_configurations_def explore_loop.simps get_next_def INO_EXPLORATION_SOFT_LIMIT_def
      INO_EXPLORATION_PHASE_STEPS_def random_element_def random_loop.simps rand_max_def Let_def)
  then obtain k' s' i' where r: "get_node_configuration rat_fpu insertion_sort (\<lambda>_. 0) 0 [1] [2] [3] (Some 1) ?s = Some (k', s', i')"
    by blast
  have "\<exists>e. (1, e) \<in> set (v_past s') \<and> v_load e = [1] \<and> v_time e = [3] \<and> v_energy e = [2]"
    by (rule measurements_swapped [OF _ _ r]) (simp_all add: new_ino_def Let_def)
  then show ?thesis using r by blast
qed

end
