(* ===== verification/Node_Schedule.thy ===== *)
theory Node_Schedule
  imports Internode
begin

text \<open>
  decide\_schedule of the inter-node optimizer (allscale/components/internodeoptimizer.hpp): the work
  items of all nodes, distributed anew when the number of nodes changes, and between the slowest and the
  fastest nodes otherwise.  std::map is the sorted list of its elements; None is the exception of
  std::map::at.
\<close>

section \<open>Definitions\<close>

record 'w node_config =
  v_work_items :: "'w list"
  cfg_knobs :: ino_knobs

definition new_config :: "'w node_config" where
  "new_config = \<lparr>v_work_items = [], cfg_knobs = 0\<rparr>"

type_synonym 'w schedule = "(nat \<times> 'w node_config) list"

definition push_item :: "nat \<Rightarrow> 'w \<Rightarrow> 'w schedule \<Rightarrow> 'w schedule" where
  "push_item n wi sched = omap_alter n new_config (\<lambda>c. c\<lparr>v_work_items := v_work_items c @ [wi]\<rparr>) sched"

record 'f node_load =
  ld_node :: nat
  ld_load :: 'f

text \<open>The average load of the items of a node.\<close>

fun work_item_loads ::
  "'f fpu \<Rightarrow> (nat \<times> 'w list) list \<Rightarrow> (nat \<times> 'f) list \<Rightarrow> (nat \<times> 'f) list \<Rightarrow> (nat \<times> 'f) list option" where
  "work_item_loads P node_map [] acc = Some acc"
| "work_item_loads P node_map ((n, load) # loads) acc = do {
    items \<leftarrow> map_of node_map n;
    let avg = fdiv (sgl P) load (fof_int (sgl P) (int (length items)));
    let least = flit (sgl P) 1 1000;
    work_item_loads P node_map loads (omap_put n (if flt (sgl P) least avg then avg else least) acc)}"

definition cost_of :: "'f fpu \<Rightarrow> (nat \<times> 'f) list \<Rightarrow> nat \<Rightarrow> 'f" where
  "cost_of P loads n = (case map_of loads n of Some c \<Rightarrow> c | None \<Rightarrow> fof_int (sgl P) 0)"

subsection \<open>The partition\<close>

text \<open>The insertion of the node that is no longer the least loaded one.\<close>

fun reinsert :: "'f fpu \<Rightarrow> 'f node_load \<Rightarrow> 'f node_load list \<Rightarrow> 'f node_load list" where
  "reinsert P x [] = [x]"
| "reinsert P x (y # ys) = (if flt (sgl P) (ld_load x) (ld_load y) then x # y # ys else y # reinsert P x ys)"

fun least_loaded_first :: "'f fpu \<Rightarrow> 'f node_load list \<Rightarrow> 'f node_load list" where
  "least_loaded_first P (x # y # ys) =
    (if flt (sgl P) (ld_load y) (ld_load x) then reinsert P x (y # ys) else x # y # ys)"
| "least_loaded_first P xs = xs"

fun partition_many ::
  "'f fpu \<Rightarrow> ('f \<times> 'w) list \<Rightarrow> 'f node_load list \<Rightarrow> 'w schedule \<Rightarrow> 'f node_load list \<times> 'w schedule" where
  "partition_many P [] nls sched = (nls, sched)"
| "partition_many P ((cost, wi) # tasks) nls sched =
    (case least_loaded_first P nls of
       [] \<Rightarrow> (nls, sched)
     | x # xs \<Rightarrow> partition_many P tasks (x\<lparr>ld_load := fadd (sgl P) (ld_load x) cost\<rparr> # xs) (push_item (ld_node x) wi sched))"

definition partition_tasks :: "'f fpu \<Rightarrow> ('f \<times> 'w) list \<Rightarrow> 'f node_load list \<Rightarrow> 'w schedule \<Rightarrow> 'w schedule" where
  "partition_tasks P tasks nls sched =
    (if 1 < length nls then snd (partition_many P tasks nls sched)
     else case nls of
         [] \<Rightarrow> sched
       | x # _ \<Rightarrow> foldl (\<lambda>sched (_, wi). push_item (ld_node x) wi sched) sched tasks)"

subsection \<open>The two ways to collect the items\<close>

text \<open>All items, and all nodes below the number of nodes.\<close>

definition collect_all ::
  "'f fpu \<Rightarrow> (nat \<times> 'w list) list \<Rightarrow> (nat \<times> 'f) list \<Rightarrow> nat \<Rightarrow> ('f \<times> 'w) list \<times> 'f node_load list \<times> 'w schedule" where
  "collect_all P node_map loads nodes =
    (concat (map (\<lambda>(n, items). map (\<lambda>wi. (cost_of P loads n, wi)) items) node_map),
     map (\<lambda>i. \<lparr>ld_node = i, ld_load = fof_int (sgl P) 0\<rparr>) [0..<nodes],
     map (\<lambda>i. (i, new_config)) [0..<nodes])"

text \<open>The loop over the nodes by falling time: the first top and the last bottom nodes give their items
  away, the others keep them.\<close>

fun collect_extremes ::
  "'f fpu \<Rightarrow> (nat \<times> 'w list) list \<Rightarrow> (nat \<times> 'f) list \<Rightarrow> (nat \<times> 'f) list \<Rightarrow> 'f \<Rightarrow> nat \<Rightarrow> nat \<Rightarrow> nat \<Rightarrow> nat \<Rightarrow>
   (nat \<times> 'f) list \<Rightarrow> ('f \<times> 'w) list \<times> 'f node_load list \<times> 'w schedule \<Rightarrow>
   (('f \<times> 'w) list \<times> 'f node_load list \<times> 'w schedule) option" where
  "collect_extremes P node_map loads tms avg_k topN botK len i [] r = Some r"
| "collect_extremes P node_map loads tms avg_k topN botK len i ((n, t) # ts) (tasks, nls, sched) = do {
    items \<leftarrow> map_of node_map n;
    if i < topN \<or> len - botK \<le> i then do {
      cost \<leftarrow> (if i < topN then do {
          time \<leftarrow> map_of tms n;
          Some (fmul (sgl P) (cost_of P loads n) (fdiv (sgl P) time avg_k))}
        else Some (cost_of P loads n));
      collect_extremes P node_map loads tms avg_k topN botK len (i + 1) ts
        (tasks @ map (\<lambda>wi. (cost, wi)) items, nls @ [\<lparr>ld_node = n, ld_load = fof_int (sgl P) 0\<rparr>], sched)}
    else
      collect_extremes P node_map loads tms avg_k topN botK len (i + 1) ts
        (tasks, nls, foldl (\<lambda>sched wi. push_item n wi sched) sched items)}"

text \<open>The mean of the first elements of a list, summed up from 0.\<close>

definition mean_of :: "'f fpu \<Rightarrow> 'f list \<Rightarrow> 'f" where
  "mean_of P xs = fdiv (sgl P) (fsum (sgl P) xs) (fof_int (sgl P) (int (length xs)))"

text \<open>The test for enough difference in time: the threshold is a double, its literal 1.41421356237.\<close>

definition worth_balancing :: "'f fpu \<Rightarrow> 'f list \<Rightarrow> 'f \<Rightarrow> 'f \<Rightarrow> bool" where
  "worth_balancing P tms avg_n avg_k =
    (let S = sgl P;
         avg = mean_of P tms;
         sq = foldl (\<lambda>a t. let d = fsub S t avg in fadd S a (fmul S d d)) (fof_int S 0) tms;
         var = fdiv S sq (fof_int S (uint (word_of_nat (length tms) - 1 :: size_t)));
         threshold = fmul (dbl P) var (flit (dbl P) 141421356237 100000000000);
         diff = fsub S avg_n avg_k in
     \<not> flt (dbl P) (fmul S diff diff) threshold \<and> flt (dbl P) (flit S 1 100) threshold)"

definition decide_schedule ::
  "'f fpu \<Rightarrow> (nat \<times> 'f) sorter \<Rightarrow> (('f \<times> 'w) list \<Rightarrow> ('f \<times> 'w) list) \<Rightarrow>
   (nat \<times> 'w list) list \<Rightarrow> (nat \<times> 'f) list \<Rightarrow> (nat \<times> 'f) list \<Rightarrow> ino_knobs \<Rightarrow> bool \<Rightarrow> nat \<Rightarrow> nat \<Rightarrow> 'w schedule option" where
  "decide_schedule P srt shuf node_map node_loads node_times knobs randomly topN botK = do {
    loads \<leftarrow> work_item_loads P node_map node_loads [];
    (tasks, nls, sched) \<leftarrow>
      (if length node_loads \<noteq> knobs \<or> randomly \<or> length node_times < topN + botK
       then Some (collect_all P node_map loads knobs)
       else
         (let ts = srt (\<lambda>x y. flt (sgl P) (snd y) (snd x)) node_times;
              avg_n = mean_of P (take topN (map snd ts));
              avg_k = mean_of P (take botK (rev (map snd ts))) in
          if worth_balancing P (map snd node_times) avg_n avg_k then do {
            (tasks, nls, sched) \<leftarrow>
              collect_extremes P node_map loads node_times avg_k topN botK (length ts) 0 ts ([], [], []);
            Some (shuf tasks, nls, sched)}
          else Some ([], [], [])));
    Some (filter (\<lambda>(_, c). v_work_items c \<noteq> []) (partition_tasks P tasks nls sched))}"

section \<open>Nothing is lost\<close>

definition items_of :: "'w schedule \<Rightarrow> 'w multiset" where
  "items_of sched = mset (concat (map (\<lambda>(_, c). v_work_items c) sched))"

lemma items_of_simps [simp]:
  "items_of [] = {#}" "items_of ((n, c) # sched) = mset (v_work_items c) + items_of sched"
  by (simp_all add: items_of_def)

lemma push_item_items [simp]: "items_of (push_item n wi sched) = add_mset wi (items_of sched)"
  unfolding push_item_def by (induction sched rule: list.induct) (auto simp: new_config_def split: prod.splits)

lemma push_item_keys: "fst ` set (push_item n wi sched) = insert n (fst ` set sched)"
  using keys_alter [of n _ _ sched] by (simp add: push_item_def)

lemma push_items:
  "items_of (foldl (\<lambda>sched wi. push_item n wi sched) sched items) = items_of sched + mset items"
  "fst ` set (foldl (\<lambda>sched wi. push_item n wi sched) sched items) \<subseteq> insert n (fst ` set sched)"
proof (induction items arbitrary: sched)
  case (Cons wi items)
  { case 1 then show ?case using Cons.IH(1) by simp }
  { case 2 then show ?case using Cons.IH(2) [of "push_item n wi sched"] push_item_keys [of n wi sched] by auto }
qed auto

lemma reinsert_mset [simp]: "mset (reinsert P x ys) = add_mset x (mset ys)"
  by (induction ys) auto

lemma least_loaded_first_mset [simp]: "mset (least_loaded_first P xs) = mset xs"
  by (induction P xs rule: least_loaded_first.induct) auto

lemma least_loaded_first_Nil [simp]: "least_loaded_first P xs = [] \<longleftrightarrow> xs = []"
  by (metis least_loaded_first_mset mset_zero_iff)

lemma least_loaded_first_set: "set (least_loaded_first P xs) = set xs"
  by (metis least_loaded_first_mset set_mset_mset)

lemma partition_many_items:
  assumes "nls \<noteq> []"
  shows "items_of (snd (partition_many P tasks nls sched)) = items_of sched + mset (map snd tasks)"
  using assms
proof (induction P tasks nls sched rule: partition_many.induct)
  case (2 P cost wi tasks nls sched)
  then obtain x xs where "least_loaded_first P nls = x # xs" by (cases "least_loaded_first P nls") auto
  then show ?case using 2 by simp
qed simp

lemma partition_many_keys:
  "fst ` set (snd (partition_many P tasks nls sched)) \<subseteq> fst ` set sched \<union> ld_node ` set nls"
proof (induction P tasks nls sched rule: partition_many.induct)
  case (2 P cost wi tasks nls sched)
  show ?case
  proof (cases "least_loaded_first P nls")
    case (Cons x xs)
    let ?x = "x\<lparr>ld_load := fadd (sgl P) (ld_load x) cost\<rparr>"
    have nls: "set nls = insert x (set xs)" using least_loaded_first_set [of P nls] unfolding Cons by simp
    have "fst ` set (snd (partition_many P tasks (?x # xs) (push_item (ld_node x) wi sched)))
        \<subseteq> fst ` set (push_item (ld_node x) wi sched) \<union> ld_node ` set (?x # xs)"
      by (rule 2 [OF Cons])
    also have "\<dots> \<subseteq> fst ` set sched \<union> ld_node ` set nls" unfolding push_item_keys nls by simp
    finally show ?thesis by (simp add: Cons)
  qed simp
qed simp

lemma partition_one:
  "items_of (foldl (\<lambda>sched (_, wi). push_item n wi sched) sched tasks) = items_of sched + mset (map snd tasks)"
  "fst ` set (foldl (\<lambda>sched (_, wi). push_item n wi sched) sched tasks) \<subseteq> insert n (fst ` set sched)"
proof (induction tasks arbitrary: sched)
  case (Cons p tasks)
  { case 1 then show ?case using Cons.IH(1) by (cases p) simp }
  { case 2 then show ?case using Cons.IH(2) [of "push_item n (snd p) sched"] push_item_keys [of n "snd p" sched] by (cases p) auto }
qed auto

lemma partition_tasks_items:
  assumes "nls \<noteq> [] \<or> tasks = []"
  shows "items_of (partition_tasks P tasks nls sched) = items_of sched + mset (map snd tasks)"
proof (cases nls)
  case Nil
  then show ?thesis using assms by (simp add: partition_tasks_def)
next
  case (Cons x xs)
  then show ?thesis using partition_many_items [of nls P tasks sched] by (simp add: partition_tasks_def partition_one)
qed

lemma partition_tasks_keys:
  "fst ` set (partition_tasks P tasks nls sched) \<subseteq> fst ` set sched \<union> ld_node ` set nls"
proof (cases nls)
  case Nil
  then show ?thesis by (simp add: partition_tasks_def)
next
  case (Cons x xs)
  then show ?thesis
    using partition_many_keys [of P tasks nls sched] partition_one(2) [of "ld_node x" sched tasks]
    by (auto simp: partition_tasks_def)
qed

lemma drop_empty_items [simp]: "items_of (filter (\<lambda>(_, c). v_work_items c \<noteq> []) sched) = items_of sched"
  by (induction sched) auto

lemma collect_all_items:
  fixes sched :: "'w schedule"
  assumes "collect_all P node_map loads nodes = (tasks, nls, sched)"
  shows "mset (map snd tasks) = mset (concat (map snd node_map))" and "items_of sched = {#}"
    and "ld_node ` set nls = {..<nodes}" and "fst ` set sched = {..<nodes}"
proof -
  have "items_of (map (\<lambda>i. (i, new_config)) ns) = ({#} :: 'w multiset)" for ns
    by (induction ns) (auto simp: new_config_def)
  then show "items_of sched = {#}" using assms by (auto simp: collect_all_def)
  have "map snd tasks = concat (map snd node_map)"
    using assms by (auto simp: collect_all_def map_concat o_def case_prod_beta)
  then show "mset (map snd tasks) = mset (concat (map snd node_map))" by simp
  show "ld_node ` set nls = {..<nodes}" "fst ` set sched = {..<nodes}"
    using assms by (force simp: collect_all_def)+
qed

lemma collect_extremes_step:
  assumes "collect_extremes P node_map loads tms avg_k topN botK len i ((n, t) # ts) (tasks, nls, sched) = Some r"
  obtains (give) items cost where "map_of node_map n = Some items"
      "collect_extremes P node_map loads tms avg_k topN botK len (i + 1) ts (tasks @ map (\<lambda>wi. (cost, wi)) items,
          nls @ [\<lparr>ld_node = n, ld_load = fof_int (sgl P) 0\<rparr>], sched) = Some r"
    | (keep) items where "map_of node_map n = Some items"
      "collect_extremes P node_map loads tms avg_k topN botK len (i + 1) ts
        (tasks, nls, foldl (\<lambda>sched wi. push_item n wi sched) sched items) = Some r"
  using assms by (auto simp: Option.bind_eq_Some_conv split: if_splits)

lemma map_snd_cost: "map snd (map (\<lambda>wi. (cost, wi)) items) = items"
  by (induction items) auto

lemma un_insert: "K \<subseteq> A \<union> F \<union> T \<Longrightarrow> F \<subseteq> insert n S \<Longrightarrow> K \<subseteq> A \<union> S \<union> insert n T"
  by blast

lemma collect_extremes_items:
  assumes "collect_extremes P node_map loads tms avg_k topN botK len i ts (tasks, nls, sched) = Some (tasks', nls', sched')"
  shows "mset (map snd tasks') + items_of sched' =
      mset (map snd tasks) + items_of sched + (\<Sum>(n, _) \<in># mset ts. mset (the (map_of node_map n))) \<and>
    (nls \<noteq> [] \<or> tasks = [] \<longrightarrow> nls' \<noteq> [] \<or> tasks' = []) \<and>
    ld_node ` set nls' \<union> fst ` set sched' \<subseteq> ld_node ` set nls \<union> fst ` set sched \<union> fst ` set ts"
  using assms
proof (induction ts arbitrary: i tasks nls sched)
  case (Cons p ts)
  obtain n t where p: "p = (n, t)" by (cases p)
  from Cons.prems [unfolded p] show ?case
  proof (cases rule: collect_extremes_step)
    case (give items cost)
    note IH1 = Cons.IH [OF give(2), THEN conjunct1]
      and IH2 = Cons.IH [OF give(2), THEN conjunct2, THEN conjunct1]
      and IH3 = Cons.IH [OF give(2), THEN conjunct2, THEN conjunct2]
    have "nls @ [\<lparr>ld_node = n, ld_load = fof_int (sgl P) 0\<rparr>] \<noteq> []" by simp
    moreover have "ld_node ` set (nls @ [\<lparr>ld_node = n, ld_load = fof_int (sgl P) 0\<rparr>]) = insert n (ld_node ` set nls)"
      "fst ` set (p # ts) = insert n (fst ` set ts)" by (simp_all add: p)
    ultimately have "nls' \<noteq> [] \<or> tasks' = []"
      "ld_node ` set nls' \<union> fst ` set sched' \<subseteq> ld_node ` set nls \<union> fst ` set sched \<union> fst ` set (p # ts)"
      subgoal using IH2 by blast
      subgoal using IH3 by (simp add: Un_ac p)
      done
    moreover have "mset (map snd tasks') + items_of sched' =
        mset (map snd tasks) + items_of sched + (\<Sum>(n, _) \<in># mset (p # ts). mset (the (map_of node_map n)))"
      using IH1 give(1) unfolding map_append map_snd_cost by (simp add: p)
    ultimately show ?thesis by blast
  next
    case (keep items)
    note IH1 = Cons.IH [OF keep(2), THEN conjunct1]
      and IH2 = Cons.IH [OF keep(2), THEN conjunct2, THEN conjunct1]
      and IH3 = Cons.IH [OF keep(2), THEN conjunct2, THEN conjunct2]
    have "fst ` set (p # ts) = insert n (fst ` set ts)" by (simp add: p)
    then have "ld_node ` set nls' \<union> fst ` set sched' \<subseteq> ld_node ` set nls \<union> fst ` set sched \<union> fst ` set (p # ts)"
      using un_insert [OF IH3 push_items(2)] by simp
    moreover have "mset (map snd tasks') + items_of sched' =
        mset (map snd tasks) + items_of sched + (\<Sum>(n, _) \<in># mset (p # ts). mset (the (map_of node_map n)))"
      using IH1 keep(1) push_items(1) [of n sched items] by (simp add: p)
    ultimately show ?thesis using IH2 by blast
  qed
qed simp

lemma sum_of_items:
  assumes "distinct (map fst node_map)"
  shows "(\<Sum>n \<in># mset (map fst node_map). mset (the (map_of node_map n))) = mset (concat (map snd node_map))"
  using assms
proof (induction node_map)
  case (Cons p m)
  obtain n items where p: "p = (n, items)" by (cases p)
  have "(\<Sum>n \<in># mset (map fst m). mset (the (map_of (p # m) n))) = (\<Sum>n \<in># mset (map fst m). mset (the (map_of m n)))"
    by (rule arg_cong [where f = sum_mset], rule image_mset_cong) (use Cons.prems in \<open>auto simp: p\<close>)
  then show ?case using Cons by (simp add: p)
qed simp

text \<open>The result of decide\_schedule before the partition: all items on all nodes, the items of the
  extreme nodes, or nothing.\<close>

lemma decide_schedule_cases:
  fixes sched :: "'w schedule"
  assumes "decide_schedule P srt shuf node_map node_loads node_times knobs randomly topN botK = Some sched"
  obtains (all) loads tasks nls sched0 where
      "collect_all P node_map loads knobs = (tasks, nls, sched0)"
      "length node_loads \<noteq> knobs \<or> randomly \<or> length node_times < topN + botK"
      "sched = filter (\<lambda>(_, c). v_work_items c \<noteq> []) (partition_tasks P tasks nls sched0)"
    | (some) loads avg_k tasks nls sched0 where
      "length node_loads = knobs"
      "collect_extremes P node_map loads node_times avg_k topN botK (length (srt (\<lambda>x y. flt (sgl P) (snd y) (snd x)) node_times))
        0 (srt (\<lambda>x y. flt (sgl P) (snd y) (snd x)) node_times) ([], [], []) = Some (tasks, nls, sched0)"
      "sched = filter (\<lambda>(_, c). v_work_items c \<noteq> []) (partition_tasks P (shuf tasks) nls sched0)"
      "\<not> randomly" "topN + botK \<le> length node_times"
    | (none) "sched = []" "length node_loads = knobs" "\<not> randomly" "topN + botK \<le> length node_times"
proof -
  obtain loads tasks nls sched0 where
    r: "(if length node_loads \<noteq> knobs \<or> randomly \<or> length node_times < topN + botK
       then Some (collect_all P node_map loads knobs)
       else
         (let ts = srt (\<lambda>x y. flt (sgl P) (snd y) (snd x)) node_times;
              avg_n = mean_of P (take topN (map snd ts));
              avg_k = mean_of P (take botK (rev (map snd ts))) in
          if worth_balancing P (map snd node_times) avg_n avg_k then do {
            (tasks, nls, sched) \<leftarrow>
              collect_extremes P node_map loads node_times avg_k topN botK (length ts) 0 ts ([], [], []);
            Some (shuf tasks, nls, sched)}
          else Some ([], [], []))) = Some (tasks, nls, sched0)"
    and s: "sched = filter (\<lambda>(_, c). v_work_items c \<noteq> []) (partition_tasks P tasks nls sched0)"
    using assms unfolding decide_schedule_def by (auto simp: Option.bind_eq_Some_conv)
  show ?thesis
  proof (cases "length node_loads \<noteq> knobs \<or> randomly \<or> length node_times < topN + botK")
    case True
    then show ?thesis using all [of loads tasks nls sched0] r s by simp
  next
    case False
    let ?ts = "srt (\<lambda>x y. flt (sgl P) (snd y) (snd x)) node_times"
    let ?k = "mean_of P (take botK (rev (map snd ?ts)))"
    show ?thesis
    proof (cases "worth_balancing P (map snd node_times) (mean_of P (take topN (map snd ?ts))) ?k")
      case True
      then obtain tasks0 where "collect_extremes P node_map loads node_times ?k topN botK (length ?ts) 0 ?ts ([], [], []) =
          Some (tasks0, nls, sched0)" "tasks = shuf tasks0"
        using r False by (auto simp: Let_def Option.bind_eq_Some_conv split: if_splits)
      then show ?thesis using some [of loads ?k tasks0 nls sched0] False s by auto
    next
      case nw: False
      then have "tasks = []" "nls = []" "sched0 = []" using r False by (auto simp: Let_def split: if_splits)
      then show ?thesis using none s False by (simp add: partition_tasks_def)
    qed
  qed
qed

text \<open>It has an answer when the measured nodes are nodes of the map.\<close>

lemma work_item_loads_returns:
  "fst ` set loads \<subseteq> fst ` set node_map \<Longrightarrow> \<exists>r. work_item_loads P node_map loads acc = Some r"
proof (induction loads arbitrary: acc)
  case (Cons x loads)
  obtain n load where x: "x = (n, load)" by (cases x)
  then obtain items where "map_of node_map n = Some items" using Cons.prems by (auto dest!: weak_map_of_SomeI)
  then show ?case using Cons x by (simp add: Let_def)
qed simp

lemma collect_extremes_returns:
  "\<lbrakk>fst ` set ts \<subseteq> fst ` set node_map; fst ` set ts \<subseteq> fst ` set tms\<rbrakk> \<Longrightarrow>
    \<exists>r. collect_extremes P node_map loads tms avg_k topN botK len i ts acc = Some r"
proof (induction ts arbitrary: i acc)
  case (Cons x ts)
  obtain n t where x: "x = (n, t)" by (cases x)
  obtain tasks nls sched where acc: "acc = (tasks, nls, sched)" by (cases acc)
  obtain items where "map_of node_map n = Some items" using Cons.prems x by (auto dest!: weak_map_of_SomeI)
  moreover obtain time where "map_of tms n = Some time" using Cons.prems x by (auto dest!: weak_map_of_SomeI)
  ultimately show ?case using Cons x acc by simp
next
  case Nil
  then show ?case by (cases acc) simp
qed

lemma decide_schedule_returns:
  assumes "sorter_ok srt" and "fst ` set node_loads \<subseteq> fst ` set node_map" and "fst ` set node_times \<subseteq> fst ` set node_map"
  shows "\<exists>sched. decide_schedule P srt shuf node_map node_loads node_times knobs randomly topN botK = Some sched"
proof -
  let ?ts = "srt (\<lambda>x y. flt (sgl P) (snd y) (snd x)) node_times"
  have "set ?ts = set node_times" by (rule sorter_set [OF assms(1)])
  moreover obtain loads where l: "work_item_loads P node_map node_loads [] = Some loads"
    using work_item_loads_returns [OF assms(2)] by blast
  ultimately obtain tasks nls sched where
    "collect_extremes P node_map loads node_times (mean_of P (take botK (rev (map snd ?ts)))) topN botK (length ?ts) 0 ?ts ([], [], []) =
      Some (tasks, nls, sched)"
    using collect_extremes_returns [of ?ts node_map node_times P loads] assms(3) by (metis prod_cases3 subset_refl)
  with l show ?thesis by (auto simp: decide_schedule_def Let_def split: prod.splits)
qed

lemma decide_schedule_spread:
  assumes "decide_schedule P srt shuf node_map node_loads node_times knobs randomly topN botK = Some sched"
    and "0 < knobs" and "length node_loads \<noteq> knobs \<or> randomly \<or> length node_times < topN + botK"
  shows "items_of sched = mset (concat (map snd node_map))"
  using assms(1)
proof (cases rule: decide_schedule_cases)
  case (all loads tasks nls sched0)
  have "ld_node ` set nls \<noteq> {}" using collect_all_items(3) [OF all(1)] assms(2) by auto
  then have "nls \<noteq> []" by auto
  then have "items_of (partition_tasks P tasks nls sched0) = items_of sched0 + mset (map snd tasks)"
    by (intro partition_tasks_items disjI1)
  then show ?thesis using collect_all_items(1,2) [OF all(1)] all(3) by simp
qed (use assms(3) in auto)

lemma decide_schedule_measured:
  assumes "decide_schedule P srt shuf node_map node_loads node_times knobs randomly topN botK = Some sched"
    and "sorter_ok srt" and "shuffler_ok shuf" and "sched \<noteq> []"
    and "\<not> (length node_loads \<noteq> knobs \<or> randomly \<or> length node_times < topN + botK)"
  shows "items_of sched = (\<Sum>n \<in># mset (map fst node_times). mset (the (map_of node_map n)))"
  using assms(1)
proof (cases rule: decide_schedule_cases)
  case (some loads avg_k tasks nls sched0)
  let ?ts = "srt (\<lambda>x y. flt (sgl P) (snd y) (snd x)) node_times"
  note e = collect_extremes_items [OF some(2)]
  have ts: "mset ?ts = mset node_times" by (rule sorter_mset [OF assms(2)])
  have shuf: "mset (shuf tasks) = mset tasks" using assms(3) by (simp add: shuffler_ok_def)
  have "nls \<noteq> [] \<or> shuf tasks = []" using e shuf by auto
  from partition_tasks_items [OF this, of P sched0]
  have "items_of sched = items_of sched0 + image_mset snd (mset (shuf tasks))" by (simp add: some(3))
  also have "\<dots> = mset (map snd tasks) + items_of sched0" by (simp add: shuf add.commute)
  also have "\<dots> = (\<Sum>(n, _) \<in># mset node_times. mset (the (map_of node_map n)))"
    using e [THEN conjunct1] by (simp add: ts)
  also have "\<dots> = (\<Sum>n \<in># mset (map fst node_times). mset (the (map_of node_map n)))"
    by (simp add: image_mset.compositionality o_def case_prod_beta')
  finally show ?thesis .
qed (use assms(4,5) in auto)

text \<open>C20: decide\_schedule answers, when the measured nodes are nodes of the map, and what it answers is conserved.
  When it spreads all work items (the number of nodes changes, a random distribution is asked for, or there are too
  few measured times), the new schedule has every work item of the node map exactly once.  Otherwise it is empty
  (nothing is worth changing) or has exactly the work items of the nodes with a measured time: all work items, if
  every node is measured, and not otherwise.  (The only caller measures every second node: decide\_schedule\_loses
  below.)\<close>

theorem decide_schedule_conserves:
  assumes "sorter_ok srt" and "shuffler_ok shuf" and "0 < knobs" and "distinct (map fst node_map)"
    and "fst ` set node_loads \<subseteq> fst ` set node_map" and "fst ` set node_times \<subseteq> fst ` set node_map"
  shows "\<exists>sched. decide_schedule P srt shuf node_map node_loads node_times knobs randomly topN botK = Some sched \<and>
    (if length node_loads \<noteq> knobs \<or> randomly \<or> length node_times < topN + botK
     then items_of sched = mset (concat (map snd node_map))
     else sched = [] \<or>
       items_of sched = (\<Sum>n \<in># mset (map fst node_times). mset (the (map_of node_map n))) \<and>
       (mset (map fst node_times) = mset (map fst node_map) \<longrightarrow> items_of sched = mset (concat (map snd node_map))))"
proof -
  let ?spread = "length node_loads \<noteq> knobs \<or> randomly \<or> length node_times < topN + botK"
  obtain sched where d: "decide_schedule P srt shuf node_map node_loads node_times knobs randomly topN botK = Some sched"
    using decide_schedule_returns [OF assms(1,5,6)] by blast
  show ?thesis
  proof (cases ?spread)
    case True
    then show ?thesis using d decide_schedule_spread [OF d assms(3)] by auto
  next
    case False
    show ?thesis
    proof (cases "sched = []")
      case nonempty: False
      note items = decide_schedule_measured [OF d assms(1,2) nonempty False]
      then have "items_of sched = mset (concat (map snd node_map))" if "mset (map fst node_times) = mset (map fst node_map)"
        using that sum_of_items [OF assms(4)] by simp
      then show ?thesis using d items False by (intro exI [of _ sched]) auto
    qed (use d False in auto)
  qed
qed

lemma decide_schedule_keys:
  assumes "decide_schedule P srt shuf node_map node_loads node_times knobs randomly topN botK = Some sched"
    and "sorter_ok srt" and "(n, c) \<in> set sched"
  shows "v_work_items c \<noteq> [] \<and>
    (if length node_loads \<noteq> knobs then n < knobs else n < knobs \<or> n \<in> fst ` set node_times)"
  using assms(1)
proof (cases rule: decide_schedule_cases)
  case (all loads tasks nls sched0)
  then have "(n, c) \<in> set (partition_tasks P tasks nls sched0)" "v_work_items c \<noteq> []" using assms(3) by auto
  then have "n \<in> fst ` set sched0 \<union> ld_node ` set nls" using partition_tasks_keys by force
  then show ?thesis using collect_all_items(3,4) [OF all(1)] \<open>v_work_items c \<noteq> []\<close> by auto
next
  case (some loads avg_k tasks nls sched0)
  let ?ts = "srt (\<lambda>x y. flt (sgl P) (snd y) (snd x)) node_times"
  have ts: "set ?ts = set node_times" by (rule sorter_set [OF assms(2)])
  have "(n, c) \<in> set (partition_tasks P (shuf tasks) nls sched0)" "v_work_items c \<noteq> []" using some(3) assms(3) by auto
  then have "n \<in> fst ` set sched0 \<union> ld_node ` set nls" using partition_tasks_keys by force
  moreover have "ld_node ` set nls \<union> fst ` set sched0 \<subseteq> fst ` set node_times"
    using collect_extremes_items [OF some(2)] ts by simp
  ultimately have "n \<in> fst ` set node_times" by blast
  then show ?thesis using \<open>v_work_items c \<noteq> []\<close> some(1) by simp
qed (use assms(3) in simp)

text \<open>A new schedule gives no node an empty list, and uses only nodes below the chosen number of nodes
  when the number of nodes changes, and otherwise also the nodes with a measured time.\<close>

theorem decide_schedule_nodes:
  assumes "decide_schedule P srt shuf node_map node_loads node_times knobs randomly topN botK = Some sched"
    and "sorter_ok srt" and "(n, c) \<in> set sched"
  shows "v_work_items c \<noteq> [] \<and>
    (if length node_loads \<noteq> knobs then n < knobs else n < knobs \<or> n \<in> fst ` set node_times)"
  by (rule decide_schedule_keys [OF assms])

text \<open>Three nodes, the last of which is new.\<close>

lemma demo_schedule: "decide_schedule rat_fpu insertion_sort (\<lambda>xs. xs) [(0, [0, 1, 2]), (1, [3, 4 :: nat])] [(0, 1), (1, 1)] [(0, 3), (1, 1)] 3 False 1 1 =
  Some [(0, \<lparr>v_work_items = [0, 4], cfg_knobs = 0\<rparr>), (1, \<lparr>v_work_items = [1], cfg_knobs = 0\<rparr>), (2, \<lparr>v_work_items = [2, 3], cfg_knobs = 0\<rparr>)]"
  by (simp add: decide_schedule_def omap_put_def collect_all_def cost_of_def partition_tasks_def push_item_def
    new_config_def Let_def upt_rec)

lemma identity_shuffler: "shuffler_ok (\<lambda>xs. xs)"
  by (simp add: shuffler_ok_def)

theorem decide_schedule_conserves_witness:
  "\<exists>sched. decide_schedule rat_fpu insertion_sort (\<lambda>xs. xs) [(0, [0, 1, 2]), (1, [3, 4 :: nat])] [(0, 1), (1, 1)] [(0, 3), (1, 1)] 3 False 1 1 =
    Some sched \<and> items_of sched = {#0, 1, 2, 3, 4#}"
  using decide_schedule_conserves [OF insertion_sort_ok identity_shuffler, of 3 "[(0, [0, 1, 2]), (1, [3, 4 :: nat])]"
      "[(0, 1), (1, 1)]" "[(0, 3), (1, 1)]" rat_fpu False 1 1]
  by (simp add: insert_commute add_mset_commute)

text \<open>The caller in optimizer.cpp skips every second node when it collects loads and times: of five nodes it
  measures 0, 2 and 4, and with three nodes chosen the work items 1 and 3 of the other two are in no list.\<close>

lemma decide_schedule_loses:
  "map_option (\<lambda>sched. concat (map (\<lambda>(_, c). v_work_items c) sched)) (decide_schedule rat_fpu insertion_sort (\<lambda>xs. xs)
      [(0, [0 :: nat]), (1, [1]), (2, [2]), (3, [3]), (4, [4])] [(0, 1), (2, 1), (4, 1)] [(0, 30), (2, 2), (4, 1)] 3 False 1 1) =
    Some [0, 2, 4]"
  by code_simp

theorem decide_schedule_nodes_witness:
  "v_work_items \<lparr>v_work_items = [2, 3 :: nat], cfg_knobs = 0\<rparr> \<noteq> [] \<and> (2 :: nat) < 3"
  using decide_schedule_nodes [OF demo_schedule insertion_sort_ok, of 2 "\<lparr>v_work_items = [2, 3], cfg_knobs = 0\<rparr>"] by simp

section \<open>The partition is even\<close>

text \<open>With exact arithmetic.  The loads beyond the first node are sorted, and no two loads are further
  apart than the largest cost.\<close>

definition even_loads :: "rat \<Rightarrow> rat node_load list \<Rightarrow> bool" where
  "even_loads c nls \<longleftrightarrow> sorted (map ld_load (tl nls)) \<and> (\<forall>x \<in> set nls. \<forall>y \<in> set nls. ld_load x - ld_load y \<le> c)"

lemma reinsert_sorted: "sorted (map ld_load ys) \<Longrightarrow> sorted (map ld_load (reinsert rat_fpu x ys))"
proof (induction ys)
  case (Cons y ys)
  have "set (reinsert rat_fpu x ys) = insert x (set ys)" by (metis reinsert_mset set_mset_add_mset_insert set_mset_mset)
  then show ?case using Cons by auto
qed simp

lemma least_loaded_first_sorted:
  assumes "sorted (map ld_load (tl nls))"
  shows "sorted (map ld_load (least_loaded_first rat_fpu nls))"
  using assms
proof (induction "rat_fpu" nls rule: least_loaded_first.induct)
  case (1 x y ys)
  then show ?case using reinsert_sorted [of "y # ys" x] by auto
qed auto

lemma partition_many_even:
  assumes "even_loads c nls" and "\<forall>(cost, _) \<in> set tasks. 0 \<le> cost \<and> cost \<le> c" and "0 \<le> c"
  shows "even_loads c (fst (partition_many rat_fpu tasks nls sched))"
  using assms
proof (induction tasks arbitrary: nls sched)
  case (Cons task tasks)
  obtain cost wi where t: "task = (cost, wi)" by (cases task)
  have cost: "0 \<le> cost" "cost \<le> c" using Cons.prems(2) t by auto
  show ?case
  proof (cases "least_loaded_first rat_fpu nls")
    case Nil
    then show ?thesis using Cons.prems by (simp add: t)
  next
    case s: (Cons x xs)
    have sorted: "sorted (map ld_load (x # xs))"
      using least_loaded_first_sorted [of nls] Cons.prems(1) by (simp add: even_loads_def s)
    have set: "set nls = set (x # xs)" using least_loaded_first_set [of rat_fpu nls] s by simp
    have diff: "\<And>y z. y \<in> set (x # xs) \<Longrightarrow> z \<in> set (x # xs) \<Longrightarrow> ld_load y - ld_load z \<le> c"
      using Cons.prems(1) unfolding even_loads_def set by blast
    have least: "\<And>y. y \<in> set xs \<Longrightarrow> ld_load x \<le> ld_load y" using sorted by auto
    let ?x = "x\<lparr>ld_load := ld_load x + cost\<rparr>"
    have "even_loads c (?x # xs)"
      unfolding even_loads_def
    proof (intro conjI ballI)
      show "sorted (map ld_load (tl (?x # xs)))" using sorted by simp
      fix y z assume yz: "y \<in> set (?x # xs)" "z \<in> set (?x # xs)"
      have "ld_load y - (ld_load x + cost) \<le> c" if "y \<in> set xs" for y
        using diff [of y x] that cost by simp
      moreover have "ld_load x + cost - ld_load y \<le> c" if "y \<in> set xs" for y
        using least [OF that] cost by linarith
      moreover have "ld_load y - ld_load z \<le> c" if "y \<in> set xs" "z \<in> set xs" for y z
        using diff [of y z] that by simp
      ultimately show "ld_load y - ld_load z \<le> c" using yz Cons.prems(3) by auto
    qed
    from Cons.IH [OF this _ Cons.prems(3)] Cons.prems(2) show ?thesis by (simp add: t s)
  qed
qed simp

text \<open>C29: the greedy partition gives the nodes loads that differ by at most the largest cost of an item.\<close>

theorem partition_balanced:
  assumes "\<forall>(cost, _) \<in> set tasks. 0 \<le> cost \<and> cost \<le> c" and "0 \<le> c" and "0 < nodes"
    and "partition_many rat_fpu tasks (map (\<lambda>i. \<lparr>ld_node = i, ld_load = 0\<rparr>) [0..<nodes]) sched = (nls, sched')"
  shows "(\<forall>x \<in> set nls. \<forall>y \<in> set nls. \<bar>ld_load x - ld_load y\<bar> \<le> c) \<and>
    (\<Sum>x \<leftarrow> nls. ld_load x) = (\<Sum>(cost, _) \<leftarrow> tasks. cost)"
proof -
  let ?nls = "map (\<lambda>i. \<lparr>ld_node = i, ld_load = 0 :: rat\<rparr>) [0..<nodes]"
  have z: "map ld_load (tl ?nls) = replicate (nodes - 1) 0"
    by (simp add: map_tl o_def map_replicate_const flip: drop_Suc)
  have "even_loads c ?nls" unfolding even_loads_def z using assms(2) by (auto simp: sorted_replicate)
  from partition_many_even [OF this assms(1,2), of sched] have e: "even_loads c nls" by (simp add: assms(4))
  have sum: "(\<Sum>x \<leftarrow> fst (partition_many rat_fpu tasks ns s). ld_load x) = (\<Sum>x \<leftarrow> ns. ld_load x) + (\<Sum>(cost, _) \<leftarrow> tasks. cost)"
    if "ns \<noteq> []" for ns s using that
  proof (induction tasks arbitrary: ns s)
    case (Cons task tasks)
    obtain x xs where l: "least_loaded_first rat_fpu ns = x # xs"
      using Cons.prems by (cases "least_loaded_first rat_fpu ns") auto
    have "(\<Sum>x \<leftarrow> ns. ld_load x) = (\<Sum>x \<leftarrow> x # xs. ld_load x)"
      by (metis l least_loaded_first_mset mset_map sum_mset_sum_list)
    then show ?case using Cons.IH [of "x\<lparr>ld_load := ld_load x + fst task\<rparr> # xs"] by (cases task) (simp add: l)
  qed simp
  have "(\<Sum>x \<leftarrow> nls. ld_load x) = (\<Sum>(cost, _) \<leftarrow> tasks. cost)"
    using sum [of ?nls sched] assms(3,4) by (simp add: o_def)
  moreover have "\<bar>ld_load x - ld_load y\<bar> \<le> c" if "x \<in> set nls" "y \<in> set nls" for x y
    using e that by (simp add: even_loads_def abs_le_iff)
  ultimately show ?thesis by blast
qed

theorem partition_balanced_witness:
  "\<exists>nls sched'. partition_many rat_fpu [(1/2, ''a''), (1, ''b''), (1/4, ''c'')]
      (map (\<lambda>i. \<lparr>ld_node = i, ld_load = 0\<rparr>) [0..<2]) [] = (nls, sched') \<and>
    (\<forall>x \<in> set nls. \<forall>y \<in> set nls. \<bar>ld_load x - ld_load y\<bar> \<le> 1)"
proof -
  obtain nls sched' where r: "partition_many rat_fpu [(1/2, ''a''), (1, ''b''), (1/4, ''c'')]
      (map (\<lambda>i. \<lparr>ld_node = i, ld_load = 0\<rparr>) [0..<2]) [] = (nls, sched')"
    by (cases "partition_many rat_fpu [(1/2, ''a''), (1, ''b''), (1/4, ''c'')]
      (map (\<lambda>i. \<lparr>ld_node = i, ld_load = 0\<rparr>) [0..<2]) []") auto
  from partition_balanced [OF _ _ _ r, of 1] show ?thesis using r by simp
qed

end
