(* ===== verification/Tuner.thy ===== *)
theory Tuner
  imports Ordered_Maps
begin

text \<open>
  Tuning objectives (allscale/tuning\_objective.hpp, src/optimizer.cpp) and the simple coordinate descent
  over the nodes in use and the clock frequency (allscale/tuner.hpp, src/tuner.cpp).  The frequencies of
  the processor are the argument freqs.
\<close>

section \<open>Objectives\<close>

record 'f tuning_objective =
  speed_exponent :: 'f
  efficiency_exponent :: 'f
  power_exponent :: 'f

definition objective_of :: "'f farith \<Rightarrow> int \<Rightarrow> int \<Rightarrow> int \<Rightarrow> 'f tuning_objective" where
  "objective_of F s e p = \<lparr>speed_exponent = fof_int F s, efficiency_exponent = fof_int F e, power_exponent = fof_int F p\<rparr>"

definition objective_speed :: "'f farith \<Rightarrow> 'f tuning_objective" where
  "objective_speed F = objective_of F 1 0 0"

definition objective_efficiency :: "'f farith \<Rightarrow> 'f tuning_objective" where
  "objective_efficiency F = objective_of F 0 1 0"

definition objective_power :: "'f farith \<Rightarrow> 'f tuning_objective" where
  "objective_power F = objective_of F 0 1 0"

definition objective_eq :: "'f farith \<Rightarrow> 'f tuning_objective \<Rightarrow> 'f tuning_objective \<Rightarrow> bool" where
  "objective_eq F a b \<longleftrightarrow> feq F (speed_exponent a) (speed_exponent b) \<and>
     feq F (efficiency_exponent a) (efficiency_exponent b) \<and> feq F (power_exponent a) (power_exponent b)"

text \<open>pow is std::pow.\<close>

definition score :: "'f farith \<Rightarrow> ('f \<Rightarrow> 'f \<Rightarrow> 'f) \<Rightarrow> 'f tuning_objective \<Rightarrow> 'f \<Rightarrow> 'f \<Rightarrow> 'f \<Rightarrow> 'f" where
  "score F pow obj speed efficiency pwr =
    fmul F (fmul F (pow speed (speed_exponent obj)) (pow efficiency (efficiency_exponent obj)))
      (pow (fsub F (fof_int F 1) pwr) (power_exponent obj))"

text \<open>The loop over the characters of ALLSCALE\_OBJECTIVE: None is the fallback.\<close>

fun objective_chars :: "'f farith \<Rightarrow> char list \<Rightarrow> 'f \<Rightarrow> 'f \<Rightarrow> 'f \<Rightarrow> 'f tuning_objective option" where
  "objective_chars F [] s e p = Some \<lparr>speed_exponent = s, efficiency_exponent = e, power_exponent = p\<rparr>"
| "objective_chars F (c # cs) s e p =
    (if c = CHR ''s'' then objective_chars F cs (fadd F s (fof_int F 1)) e p
     else if c = CHR ''e'' then objective_chars F cs s (fadd F e (fof_int F 1)) p
     else if c = CHR ''p'' then objective_chars F cs s e (fadd F p (fof_int F 1))
     else None)"

definition get_default_objective :: "'f farith \<Rightarrow> string option \<Rightarrow> 'f tuning_objective" where
  "get_default_objective F env =
    (case env of
       None \<Rightarrow> objective_speed F
     | Some obj \<Rightarrow>
         if obj = ''speed'' then objective_speed F
         else if obj = ''efficiency'' then objective_efficiency F
         else if obj = ''power'' then objective_power F
         else (case objective_chars F obj (fof_int F 0) (fof_int F 0) (fof_int F 0) of
                 None \<Rightarrow> objective_speed F
               | Some o' \<Rightarrow> o'))"

section \<open>Steps in the configuration space\<close>

record tuner_configuration =
  node_mask :: "bool list"
  cfg_frequency :: uint64_t

record 'f tuner_state =
  ts_speed :: 'f
  ts_efficiency :: 'f
  ts_power :: 'f
  ts_score :: 'f

text \<open>inc activates the first inactive node, dec deactivates the last active one.\<close>

fun set_first_false :: "bool list \<Rightarrow> bool list" where
  "set_first_false [] = []"
| "set_first_false (b # bs) = (if b then b # set_first_false bs else True # bs)"

definition clear_last_true :: "bool list \<Rightarrow> bool list" where
  "clear_last_true m = rev (map Not (set_first_false (map Not (rev m))))"

definition inc_mask :: "bool list \<Rightarrow> bool list option" where
  "inc_mask m = (if count_list m True = length m then None else Some (set_first_false m))"

definition dec_mask :: "bool list \<Rightarrow> bool list option" where
  "dec_mask m = (if count_list m True = 1 then None else Some (clear_last_true m))"

text \<open>std::find: the length of the list when the element is missing.\<close>

fun find_pos :: "'a \<Rightarrow> 'a list \<Rightarrow> nat" where
  "find_pos x [] = 0"
| "find_pos x (y # ys) = (if x = y then 0 else Suc (find_pos x ys))"

text \<open>The result None is a read behind the end.  The condition freqs.begin() > freqs.end() compares the
  first position with the one behind the last, as here.  freqs.size() - 1 is a size\_t.\<close>

definition last_pos :: "uint64_t list \<Rightarrow> nat" where
  "last_pos freqs = unat (word_of_nat (length freqs) - 1 :: size_t)"

definition freq_at :: "uint64_t list \<Rightarrow> nat \<Rightarrow> uint64_t option option" where
  "freq_at freqs i = (case at_opt freqs i of None \<Rightarrow> None | Some f \<Rightarrow> Some (Some f))"

definition inc_freq :: "uint64_t list \<Rightarrow> uint64_t \<Rightarrow> uint64_t option option" where
  "inc_freq freqs f =
    (let pos = find_pos f freqs in
     if 0 > length freqs then (if pos = 0 then Some None else freq_at freqs (pos - 1))
     else (if pos = last_pos freqs then Some None else freq_at freqs (pos + 1)))"

definition dec_freq :: "uint64_t list \<Rightarrow> uint64_t \<Rightarrow> uint64_t option option" where
  "dec_freq freqs f =
    (let pos = find_pos f freqs in
     if 0 > length freqs then (if pos = last_pos freqs then Some None else freq_at freqs (pos + 1))
     else (if pos = 0 then Some None else freq_at freqs (pos - 1)))"

section \<open>The coordinate descent\<close>

datatype dimension = Num_nodes | Frequency
datatype direction = Up | Down

record 'f tuner =
  t_dim :: dimension
  t_dir :: direction
  t_objective :: "'f tuning_objective"
  t_best :: tuner_configuration
  t_best_score :: 'f

text \<open>The constructor does not initialise best\_score: it has any value, the argument junk.\<close>

definition new_tuner :: "'f farith \<Rightarrow> string option \<Rightarrow> 'f \<Rightarrow> tuner_configuration \<Rightarrow> 'f tuner" where
  "new_tuner F env junk cfg = \<lparr>t_dim = Num_nodes, t_dir = Down, t_objective = get_default_objective F env,
     t_best = cfg, t_best_score = junk\<rparr>"

fun next_dir :: "dimension \<times> direction \<Rightarrow> dimension \<times> direction" where
  "next_dir (dm, Up) = (dm, Down)"
| "next_dir (Num_nodes, Down) = (Frequency, Up)"
| "next_dir (Frequency, Down) = (Num_nodes, Up)"

definition next_direction :: "'f tuner \<Rightarrow> 'f tuner" where
  "next_direction t = (case next_dir (t_dim t, t_dir t) of (dm, dir) \<Rightarrow> t\<lparr>t_dim := dm, t_dir := dir\<rparr>)"

text \<open>One round of the loop: a step in the current direction, if there is one.\<close>

fun try_step :: "uint64_t list \<Rightarrow> tuner_configuration \<Rightarrow> dimension \<times> direction \<Rightarrow> tuner_configuration option option" where
  "try_step freqs res (Num_nodes, dir) =
    Some (case (if dir = Up then inc_mask (node_mask res) else dec_mask (node_mask res)) of
       None \<Rightarrow> None | Some m \<Rightarrow> Some (res\<lparr>node_mask := m\<rparr>))"
| "try_step freqs res (Frequency, dir) =
    (case (if dir = Up then inc_freq freqs (cfg_frequency res) else dec_freq freqs (cfg_frequency res)) of
       None \<Rightarrow> None
     | Some None \<Rightarrow> Some None
     | Some (Some f) \<Rightarrow> Some (Some (res\<lparr>cfg_frequency := f\<rparr>)))"

text \<open>The loop while (true).  No value is a loop that never ends, and Some None a read behind the end.\<close>

partial_function (option) next_loop ::
  "uint64_t list \<Rightarrow> tuner_configuration \<Rightarrow> dimension \<times> direction \<Rightarrow> (tuner_configuration \<times> dimension \<times> direction) option option" where
  "next_loop freqs res d =
    (case try_step freqs res d of
       None \<Rightarrow> Some None
     | Some (Some res') \<Rightarrow> Some (Some (res', d))
     | Some None \<Rightarrow> next_loop freqs res (next_dir d))"

text \<open>What happens before the loop: a new objective forgets the best score, a worse score changes the
  direction, a better one is remembered.\<close>

definition prepare_next :: "'f farith \<Rightarrow> tuner_configuration \<Rightarrow> 'f tuner_state \<Rightarrow> 'f tuning_objective \<Rightarrow> 'f tuner \<Rightarrow> 'f tuner" where
  "prepare_next F cfg state obj t =
    (let t = (if \<not> objective_eq F obj (t_objective t) then t\<lparr>t_best_score := fof_int F (-1), t_objective := obj\<rparr> else t);
         t = (if flt F (ts_score state) (t_best_score t) then next_direction t else t) in
     if flt F (t_best_score t) (ts_score state) then t\<lparr>t_best_score := ts_score state, t_best := cfg\<rparr> else t)"

definition tuner_next ::
  "'f farith \<Rightarrow> uint64_t list \<Rightarrow> tuner_configuration \<Rightarrow> 'f tuner_state \<Rightarrow> 'f tuning_objective \<Rightarrow> 'f tuner \<Rightarrow>
   (tuner_configuration \<times> 'f tuner) option option" where
  "tuner_next F freqs cfg state obj t =
    (let t = prepare_next F cfg state obj t in
     case next_loop freqs (t_best t) (t_dim t, t_dir t) of
       None \<Rightarrow> None
     | Some None \<Rightarrow> Some None
     | Some (Some (res, dm, dir)) \<Rightarrow> Some (Some (res, t\<lparr>t_dim := dm, t_dir := dir\<rparr>)))"

section \<open>Facts about the steps\<close>

lemma find_pos_less: "x \<in> set xs \<Longrightarrow> find_pos x xs < length xs"
  by (induction xs) auto

lemma find_pos_nth: "x \<in> set xs \<Longrightarrow> xs ! find_pos x xs = x"
  by (induction xs) auto

lemma set_first_false_update: "False \<in> set m \<Longrightarrow> set_first_false m = m[find_pos False m := True]"
  by (induction m) auto

lemma count_True_full: "count_list m True = length m \<longleftrightarrow> False \<notin> set m"
proof (induction m)
  case (Cons b m)
  have "count_list m True \<le> length m" by (simp add: count_le_length)
  with Cons show ?case by (cases b) auto
qed simp

lemma count_rev_Not: "count_list (map Not (rev m)) True + count_list m True = length m"
  by (induction m) auto

lemma inc_mask_flips:
  assumes "inc_mask m = Some m'"
  shows "\<exists>i < length m. \<not> m ! i \<and> m' = m[i := True]"
proof -
  have "False \<in> set m" "m' = set_first_false m"
    using assms by (simp_all add: inc_mask_def count_True_full split: if_splits)
  then show ?thesis using find_pos_less [of False m] find_pos_nth [of False m] set_first_false_update [of m] by blast
qed

lemma rev_map_update: "i < length m \<Longrightarrow> rev (map Not ((map Not (rev m))[i := True])) = m[length m - 1 - i := False]"
  by (simp add: map_update o_def rev_update)

lemma dec_mask_flips:
  assumes "dec_mask m = Some m'" and "True \<in> set m"
  shows "\<exists>i < length m. m ! i \<and> m' = m[i := False] \<and> True \<in> set m'"
proof -
  let ?n = "map Not (rev m)" and ?i = "find_pos False (map Not (rev m))"
  have m': "m' = clear_last_true m" "count_list m True \<noteq> 1"
    using assms by (simp_all add: dec_mask_def split: if_splits)
  have F: "False \<in> set ?n" using assms(2) by force
  have i: "?i < length m" using find_pos_less [OF F] by simp
  let ?j = "length m - 1 - ?i"
  have e: "m' = m[?j := False]"
    unfolding m'(1) clear_last_true_def set_first_false_update [OF F] by (rule rev_map_update [OF i])
  have "?n ! ?i = False" by (rule find_pos_nth [OF F])
  then have nth: "m ! ?j" using i by (simp add: rev_nth)
  have j: "?j < length m" using i by simp
  have "True \<in> set m'"
  proof (rule ccontr)
    assume none: "True \<notin> set m'"
    have "m = take ?j m @ True # drop (Suc ?j) m" using id_take_nth_drop [OF j] nth by simp
    then have "count_list m True = count_list (take ?j m) True + 1 + count_list (drop (Suc ?j) m) True"
      by (metis count_list.simps(2) count_list_append add.assoc add.commute)
    moreover have "m' = take ?j m @ False # drop (Suc ?j) m" unfolding e by (rule upd_conv_take_nth_drop [OF j])
    then have "True \<notin> set (take ?j m)" "True \<notin> set (drop (Suc ?j) m)" using none by auto
    ultimately show False using m'(2) by (simp add: count_notin)
  qed
  then show ?thesis using e nth j by blast
qed

text \<open>The masks of an optimizer whose nodes are not toggled by hand: the first k nodes are active.\<close>

definition prefix_mask :: "nat \<Rightarrow> nat \<Rightarrow> bool list" where
  "prefix_mask n k = replicate k True @ replicate (n - k) False"

lemma count_prefix: "k \<le> n \<Longrightarrow> count_list (prefix_mask n k) True = k"
proof -
  have "count_list (replicate k True) True = k" "count_list (replicate j False) True = 0" for j
    by (induction k) (auto simp: count_notin)
  then show ?thesis by (simp add: prefix_mask_def)
qed

lemma set_first_false_app: "set_first_false (replicate k True @ bs) = replicate k True @ set_first_false bs"
  by (induction k) auto

lemma inc_prefix: "k \<le> n \<Longrightarrow> inc_mask (prefix_mask n k) = (if k = n then None else Some (prefix_mask n (k + 1)))"
proof (cases "k = n")
  case False
  assume "k \<le> n"
  then obtain j where j: "n - k = Suc j" using False by (metis Suc_diff_Suc le_neq_implies_less)
  have "set_first_false (prefix_mask n k) = prefix_mask n (k + 1)"
  proof -
    have "n - Suc k = j" using j by simp
    then show ?thesis using j by (simp add: prefix_mask_def set_first_false_app replicate_app_Cons_same)
  qed
  moreover have "length (prefix_mask n k) = n" using \<open>k \<le> n\<close> by (simp add: prefix_mask_def)
  ultimately show ?thesis using False \<open>k \<le> n\<close> by (simp add: inc_mask_def count_prefix)
qed (simp add: inc_mask_def count_prefix, simp add: prefix_mask_def)

lemma dec_prefix: "1 \<le> k \<Longrightarrow> k \<le> n \<Longrightarrow> dec_mask (prefix_mask n k) = (if k = 1 then None else Some (prefix_mask n (k - 1)))"
proof -
  assume k: "1 \<le> k" "k \<le> n"
  then obtain j where j: "k = Suc j" by (metis Suc_le_D One_nat_def)
  have "map Not (rev (prefix_mask n k)) = replicate (n - k) True @ replicate k False" by (simp add: prefix_mask_def)
  then have "clear_last_true (prefix_mask n k) = replicate j True @ False # replicate (n - k) False"
    by (simp add: clear_last_true_def set_first_false_app j)
  also have "\<dots> = prefix_mask n (k - 1)" using k by (simp add: prefix_mask_def j Suc_diff_le flip: replicate_Suc)
  finally show ?thesis using k by (simp add: dec_mask_def count_prefix)
qed

text \<open>Two configurations one step apart: one node more or less, or a neighbouring frequency.\<close>

definition neighbour :: "uint64_t list \<Rightarrow> tuner_configuration \<Rightarrow> tuner_configuration \<Rightarrow> bool" where
  "neighbour freqs a b \<longleftrightarrow>
     (cfg_frequency b = cfg_frequency a \<and> (\<exists>i < length (node_mask a). node_mask b = (node_mask a)[i := \<not> node_mask a ! i])) \<or>
     (node_mask b = node_mask a \<and> (\<exists>i. Suc i < length freqs \<and>
        {freqs ! i, freqs ! Suc i} = {cfg_frequency a, cfg_frequency b}))"

definition has_space :: "uint64_t list \<Rightarrow> tuner_configuration \<Rightarrow> bool" where
  "has_space freqs c \<longleftrightarrow> inc_mask (node_mask c) \<noteq> None \<or> dec_mask (node_mask c) \<noteq> None \<or> 1 < length freqs"

text \<open>A configuration of the machine: an active node, and a frequency of the list.\<close>

definition config_ok :: "uint64_t list \<Rightarrow> tuner_configuration \<Rightarrow> bool" where
  "config_ok freqs c \<longleftrightarrow> True \<in> set (node_mask c) \<and> cfg_frequency c \<in> set freqs \<and> length freqs < 2 ^ 64"

lemma last_pos_eq: "freqs \<noteq> [] \<Longrightarrow> length freqs < 2 ^ 64 \<Longrightarrow> last_pos freqs = length freqs - 1"
proof -
  assume a: "freqs \<noteq> []" "length freqs < 2 ^ 64"
  have u: "unat (word_of_nat (length freqs) :: size_t) = length freqs" using a(2) by (simp add: unat_of_nat)
  then have "(word_of_nat (length freqs) :: size_t) \<noteq> 0" using a(1) by (metis length_0_conv unat_0)
  then show ?thesis unfolding last_pos_def using u by (simp add: unat_minus_one)
qed

lemma inc_freq_cases:
  assumes "f \<in> set freqs" and "length freqs < 2 ^ 64"
  shows "inc_freq freqs f = (let i = find_pos f freqs in if i = length freqs - 1 then Some None else Some (Some (freqs ! Suc i)))"
  using find_pos_less [OF assms(1)] last_pos_eq [of freqs] assms(2) by (cases freqs) (auto simp: inc_freq_def freq_at_def Let_def)

lemma dec_freq_cases:
  assumes "f \<in> set freqs" and "length freqs < 2 ^ 64"
  shows "dec_freq freqs f = (let i = find_pos f freqs in if i = 0 then Some None else Some (Some (freqs ! (i - 1))))"
  using find_pos_less [OF assms(1)] by (auto simp: dec_freq_def freq_at_def Let_def at_opt_def)

section \<open>The descent\<close>

lemma try_step_neighbour:
  assumes "config_ok freqs c"
  shows "try_step freqs c d = Some None \<or>
    (\<exists>r. try_step freqs c d = Some (Some r) \<and> neighbour freqs c r \<and> config_ok freqs r)"
proof -
  have ok: "True \<in> set (node_mask c)" "cfg_frequency c \<in> set freqs" "length freqs < 2 ^ 64"
    using assms by (simp_all add: config_ok_def)
  let ?i = "find_pos (cfg_frequency c) freqs"
  have i: "?i < length freqs" "freqs ! ?i = cfg_frequency c" using ok(2) find_pos_less find_pos_nth by fast+
  consider (inc) "d = (Num_nodes, Up)" | (dec) "d = (Num_nodes, Down)" | (faster) "d = (Frequency, Up)" | (slower) "d = (Frequency, Down)"
    by (cases d; cases "fst d"; cases "snd d") auto
  then show ?thesis
  proof cases
    case inc
    show ?thesis
    proof (cases "inc_mask (node_mask c)")
      case (Some m)
      then obtain j where j: "j < length (node_mask c)" "\<not> node_mask c ! j" "m = (node_mask c)[j := True]"
        using inc_mask_flips by blast
      have "True \<in> set m" using j by (metis set_update_memI)
      then show ?thesis using Some inc j ok by (auto simp: neighbour_def config_ok_def)
    qed (simp add: inc)
  next
    case dec
    show ?thesis
    proof (cases "dec_mask (node_mask c)")
      case (Some m)
      then obtain j where j: "j < length (node_mask c)" "node_mask c ! j" "m = (node_mask c)[j := False]" "True \<in> set m"
        using dec_mask_flips ok(1) by blast
      then show ?thesis using Some dec ok by (auto simp: neighbour_def config_ok_def)
    qed (simp add: dec)
  next
    case faster
    show ?thesis
    proof (cases "?i = length freqs - 1")
      case True
      then show ?thesis using faster ok by (simp add: inc_freq_cases Let_def)
    next
      case False
      then have s: "Suc ?i < length freqs" using i by simp
      then have "neighbour freqs c (c\<lparr>cfg_frequency := freqs ! Suc ?i\<rparr>)"
        unfolding neighbour_def using i(2) by auto
      then show ?thesis using False faster ok s by (simp add: inc_freq_cases Let_def config_ok_def)
    qed
  next
    case slower
    show ?thesis
    proof (cases "?i = 0")
      case True
      then show ?thesis using slower ok by (simp add: dec_freq_cases Let_def)
    next
      case False
      then have s: "Suc (?i - 1) = ?i" by simp
      have "neighbour freqs c (c\<lparr>cfg_frequency := freqs ! (?i - 1)\<rparr>)"
        unfolding neighbour_def by (rule disjI2) (use s i in \<open>auto intro!: exI [of _ "?i - 1"]\<close>)
      moreover have "freqs ! (?i - 1) \<in> set freqs" using i(1) by (simp add: less_imp_diff_less)
      ultimately show ?thesis using False slower ok by (simp add: dec_freq_cases Let_def config_ok_def)
    qed
  qed
qed

lemma next_loop_returns:
  assumes "config_ok freqs c" and "try_step freqs c ((next_dir ^^ k) d) \<noteq> Some None"
  shows "\<exists>r d'. next_loop freqs c d = Some (Some (r, d')) \<and> try_step freqs c d' = Some (Some r)"
  using assms(2)
proof (induction k arbitrary: d)
  case 0
  then obtain r where "try_step freqs c d = Some (Some r)" using try_step_neighbour [OF assms(1), of d] by auto
  then show ?case by (subst next_loop.simps) simp
next
  case (Suc k)
  show ?case
  proof (cases "try_step freqs c d = Some None")
    case True
    then have "next_loop freqs c d = next_loop freqs c (next_dir d)" by (subst next_loop.simps) simp
    then show ?thesis using Suc.IH [of "next_dir d"] Suc.prems by (simp add: funpow_swap1)
  next
    case False
    then obtain r where "try_step freqs c d = Some (Some r)" using try_step_neighbour [OF assms(1), of d] by auto
    then show ?thesis by (subst next_loop.simps) simp
  qed
qed

text \<open>Every direction comes up within four rounds.\<close>

lemma next_dir_reaches: "\<exists>k. (next_dir ^^ k) (a, b) = (a', b')"
proof -
  have "(next_dir ^^ 0) (a, b) = (a', b') \<or> (next_dir ^^ 1) (a, b) = (a', b') \<or>
      (next_dir ^^ 2) (a, b) = (a', b') \<or> (next_dir ^^ 3) (a, b) = (a', b')"
    by (cases a; cases b; cases a'; cases b') (simp_all add: numeral_2_eq_2 numeral_3_eq_3)
  then show ?thesis by blast
qed

lemma has_space_step:
  assumes "config_ok freqs c" and "has_space freqs c"
  shows "\<exists>d. try_step freqs c d \<noteq> Some None"
proof -
  have ok: "cfg_frequency c \<in> set freqs" "length freqs < 2 ^ 64" using assms(1) by (simp_all add: config_ok_def)
  from assms(2) consider "inc_mask (node_mask c) \<noteq> None" | "dec_mask (node_mask c) \<noteq> None" | "1 < length freqs"
    unfolding has_space_def by blast
  then show ?thesis
  proof cases
    case 1
    then show ?thesis by (intro exI [of _ "(Num_nodes, Up)"]) auto
  next
    case 2
    then show ?thesis by (intro exI [of _ "(Num_nodes, Down)"]) auto
  next
    case 3
    show ?thesis
    proof (cases "find_pos (cfg_frequency c) freqs = 0")
      case True
      then have "try_step freqs c (Frequency, Up) \<noteq> Some None" using 3 ok by (simp add: inc_freq_cases Let_def)
      then show ?thesis by blast
    next
      case False
      then have "try_step freqs c (Frequency, Down) \<noteq> Some None" using ok by (simp add: dec_freq_cases Let_def)
      then show ?thesis by blast
    qed
  qed
qed

lemma next_loop_stuck:
  assumes "next_loop freqs c d = Some y" shows "\<exists>d. try_step freqs c d \<noteq> Some None"
proof (rule next_loop.raw_induct [where P = "\<lambda>freqs c d y. \<exists>d. try_step freqs c d \<noteq> Some None", OF _ assms])
  fix loop :: "uint64_t list \<Rightarrow> tuner_configuration \<Rightarrow> dimension \<times> direction \<Rightarrow> (tuner_configuration \<times> dimension \<times> direction) option option"
    and freqs res d y
  assume IH: "\<And>freqs res d y. loop freqs res d = Some y \<Longrightarrow> \<exists>d. try_step freqs res d \<noteq> Some None"
    and run: "(case try_step freqs res d of None \<Rightarrow> Some None | Some None \<Rightarrow> loop freqs res (next_dir d)
      | Some (Some res') \<Rightarrow> Some (Some (res', d))) = Some y"
  show "\<exists>d. try_step freqs res d \<noteq> Some None"
  proof (cases "try_step freqs res d = Some None")
    case True
    then show ?thesis using IH [of freqs res "next_dir d" y] run by simp
  qed blast
qed

lemma prepare_next_best: "t_best (prepare_next F cfg state obj t) = t_best t \<or> t_best (prepare_next F cfg state obj t) = cfg"
  by (auto simp: prepare_next_def next_direction_def Let_def split: prod.splits)

text \<open>C31: next returns, and its configuration is one step away from the best one so far.\<close>

theorem tuner_next_returns:
  assumes "config_ok freqs (t_best (prepare_next F cfg state obj t))"
    and "has_space freqs (t_best (prepare_next F cfg state obj t))"
  shows "\<exists>res t'. tuner_next F freqs cfg state obj t = Some (Some (res, t')) \<and>
    t_best t' = t_best (prepare_next F cfg state obj t) \<and> neighbour freqs (t_best t') res \<and> config_ok freqs res"
proof -
  let ?p = "prepare_next F cfg state obj t"
  obtain d where d: "try_step freqs (t_best ?p) d \<noteq> Some None" using has_space_step [OF assms] by blast
  obtain k where k: "(next_dir ^^ k) (t_dim ?p, t_dir ?p) = d" using next_dir_reaches by (cases d) blast
  obtain r d' where "next_loop freqs (t_best ?p) (t_dim ?p, t_dir ?p) = Some (Some (r, d'))"
      "try_step freqs (t_best ?p) d' = Some (Some r)"
    using next_loop_returns [OF assms(1), of k "(t_dim ?p, t_dir ?p)"] d k by auto
  then show ?thesis using try_step_neighbour [OF assms(1), of d'] by (cases d') (auto simp: tuner_next_def Let_def)
qed

text \<open>Without configuration space - one node and one frequency - next never returns.\<close>

theorem tuner_next_diverges:
  assumes "node_mask (t_best (prepare_next F cfg state obj t)) = [True]"
    and "cfg_frequency (t_best (prepare_next F cfg state obj t)) = f"
  shows "tuner_next F [f] cfg state obj t = None"
proof -
  let ?c = "t_best (prepare_next F cfg state obj t)"
  have l: "last_pos [f] = 0" by (simp add: last_pos_def)
  have stuck: "try_step [f] ?c d = Some None" for d
    by (cases d; cases "fst d"; cases "snd d")
      (auto simp: assms inc_mask_def dec_mask_def inc_freq_def dec_freq_def l Let_def)
  have "next_loop [f] ?c d = None" for d using next_loop_stuck [of "[f]" ?c d] stuck by (metis option.exhaust)
  then show ?thesis by (simp add: tuner_next_def Let_def)
qed

text \<open>An example: two of three nodes, at the lower of two frequencies.\<close>

definition demo_config :: tuner_configuration where
  "demo_config = \<lparr>node_mask = [True, True, False], cfg_frequency = 1\<rparr>"

definition demo_state :: "rat tuner_state" where
  "demo_state = \<lparr>ts_speed = 1/2, ts_efficiency = 1/2, ts_power = 0, ts_score = 1/2\<rparr>"

lemma demo_prepared: "t_best (prepare_next rat_arith cfg demo_state (objective_speed rat_arith) (new_tuner rat_arith None 0 cfg)) = cfg"
  by (simp add: prepare_next_def new_tuner_def demo_state_def get_default_objective_def objective_eq_def next_direction_def Let_def)

theorem tuner_next_returns_witness:
  "\<exists>res t'. tuner_next rat_arith [1, 2] demo_config demo_state (objective_speed rat_arith) (new_tuner rat_arith None 0 demo_config) =
      Some (Some (res, t')) \<and> t_best t' = demo_config \<and> neighbour [1, 2] (t_best t') res"
proof -
  have "config_ok [1, 2] demo_config" "has_space [1, 2] demo_config"
    by (simp_all add: demo_config_def config_ok_def has_space_def)
  then show ?thesis
    using tuner_next_returns [of "[1, 2]" rat_arith demo_config demo_state "objective_speed rat_arith" "new_tuner rat_arith None 0 demo_config"]
    unfolding demo_prepared by blast
qed

theorem tuner_next_diverges_witness:
  "tuner_next rat_arith [1000] \<lparr>node_mask = [True], cfg_frequency = 1000\<rparr> demo_state (objective_speed rat_arith)
    (new_tuner rat_arith None 0 \<lparr>node_mask = [True], cfg_frequency = 1000\<rparr>) = None"
  by (rule tuner_next_diverges) (simp_all only: demo_prepared tuner_configuration.simps)

text \<open>A configuration whose mask is that of the descent.\<close>

definition prefix_config :: "nat \<Rightarrow> uint64_t list \<Rightarrow> tuner_configuration \<Rightarrow> bool" where
  "prefix_config n freqs c \<longleftrightarrow> (\<exists>k. 1 \<le> k \<and> k \<le> n \<and> node_mask c = prefix_mask n k) \<and>
     cfg_frequency c \<in> set freqs \<and> length freqs < 2 ^ 64"

lemma prefix_config_ok: "prefix_config n freqs c \<Longrightarrow> config_ok freqs c"
  by (auto simp: prefix_config_def config_ok_def prefix_mask_def)

lemma try_step_prefix:
  assumes "prefix_config n freqs c" and "try_step freqs c d = Some (Some r)"
  shows "prefix_config n freqs r"
proof -
  obtain k where k: "1 \<le> k" "k \<le> n" "node_mask c = prefix_mask n k" using assms(1) unfolding prefix_config_def by blast
  have ok: "config_ok freqs r" using try_step_neighbour [OF prefix_config_ok [OF assms(1)], of d] assms(2) by simp
  have "\<exists>k. 1 \<le> k \<and> k \<le> n \<and> node_mask r = prefix_mask n k"
  proof (cases "fst d")
    case Num_nodes
    then obtain m where m: "(if snd d = Up then inc_mask (node_mask c) else dec_mask (node_mask c)) = Some m" "node_mask r = m"
      using assms(2) by (cases d) (auto split: option.splits)
    show ?thesis
    proof (cases "snd d = Up")
      case True
      then have "k \<noteq> n" "m = prefix_mask n (k + 1)" using m(1) inc_prefix [OF k(2)] k(3) by (auto split: if_splits)
      then show ?thesis using k(2) m(2) by (intro exI [of _ "k + 1"]) simp
    next
      case False
      then have "k \<noteq> 1" "m = prefix_mask n (k - 1)" using m(1) dec_prefix [OF k(1,2)] k(3) by (auto split: if_splits)
      then show ?thesis using k(1,2) m(2) by (intro exI [of _ "k - 1"]) auto
    qed
  next
    case Frequency
    then have "node_mask r = node_mask c" using assms(2) by (cases d) (auto split: option.splits)
    then show ?thesis using k by metis
  qed
  then show ?thesis using ok by (simp add: prefix_config_def config_ok_def)
qed

lemma tuner_step_prefix:
  assumes "prefix_config n freqs cfg" and "prefix_config n freqs (t_best t)"
    and "tuner_next F freqs cfg state obj t = Some (Some (res, t'))"
  shows "prefix_config n freqs res \<and> prefix_config n freqs (t_best t')"
proof -
  let ?p = "prepare_next F cfg state obj t"
  have best: "prefix_config n freqs (t_best ?p)" using prepare_next_best [of F cfg state obj t] assms(1,2) by auto
  obtain d where l: "next_loop freqs (t_best ?p) (t_dim ?p, t_dir ?p) = Some (Some (res, d))" and t': "t_best t' = t_best ?p"
    using assms(3) by (auto simp: tuner_next_def Let_def split: option.splits prod.splits)
  obtain d0 where "try_step freqs (t_best ?p) d0 \<noteq> Some None" using next_loop_stuck [OF l] by blast
  moreover obtain k where "(next_dir ^^ k) (t_dim ?p, t_dir ?p) = d0" using next_dir_reaches by (cases d0) blast
  ultimately have "try_step freqs (t_best ?p) d = Some (Some res)"
    using next_loop_returns [OF prefix_config_ok [OF best], of k "(t_dim ?p, t_dir ?p)"] l by auto
  from try_step_prefix [OF best this] best t' show ?thesis by simp
qed

text \<open>With one objective the best score never falls, it is at least the last score, and the best
  configuration is the one it was measured with.\<close>

theorem best_score_grows:
  assumes "weak_order (flt F)" and "objective_eq F obj (t_objective t)"
    and "tuner_next F freqs cfg state obj t = Some (Some (res, t'))"
  shows "\<not> flt F (t_best_score t') (t_best_score t) \<and> \<not> flt F (t_best_score t') (ts_score state) \<and>
    ((t_best t', t_best_score t') = (t_best t, t_best_score t) \<or> (t_best t', t_best_score t') = (cfg, ts_score state))"
proof -
  let ?p = "prepare_next F cfg state obj t"
  have t': "t_best t' = t_best ?p" "t_best_score t' = t_best_score ?p"
    using assms(3) by (auto simp: tuner_next_def Let_def split: option.splits prod.splits)
  have n: "t_best (next_direction s) = t_best s" "t_best_score (next_direction s) = t_best_score s" for s :: "'a tuner"
    by (auto simp: next_direction_def split: prod.splits)
  show ?thesis
    using assms(1,2) unfolding t' weak_order_def by (auto simp: prepare_next_def n Let_def dest: transpD)
qed

theorem best_score_grows_witness:
  "\<exists>res t'. tuner_next rat_arith [1, 2] demo_config demo_state (objective_speed rat_arith) (new_tuner rat_arith None 0 demo_config) =
      Some (Some (res, t')) \<and> \<not> t_best_score t' < 1/2"
proof -
  have s: "tuner_next rat_arith [1, 2] demo_config demo_state (objective_speed rat_arith) (new_tuner rat_arith None 0 demo_config) =
      Some (Some (demo_config\<lparr>node_mask := [True, False, False]\<rparr>, (new_tuner rat_arith None 0 demo_config)\<lparr>t_best_score := 1/2\<rparr>))"
    by (simp add: tuner_next_def prepare_next_def new_tuner_def demo_state_def get_default_objective_def objective_eq_def
      next_loop.simps demo_config_def dec_mask_def clear_last_true_def Let_def)
  have w: "weak_order (flt rat_arith)" by (simp add: weak_order_less)
  from best_score_grows [OF w _ s] s show ?thesis
    by (auto simp: objective_eq_def new_tuner_def get_default_objective_def demo_state_def)
qed

text \<open>On the masks of the descent, activating a node and deactivating one undo each other.\<close>

lemma mask_roundtrip:
  assumes "1 \<le> k" and "k < n"
  shows "inc_mask (prefix_mask n k) = Some (prefix_mask n (k + 1)) \<and> dec_mask (prefix_mask n (k + 1)) = Some (prefix_mask n k)"
  using assms by (simp add: inc_prefix dec_prefix)

section \<open>Where the code departs from its comments\<close>

text \<open>The objective power is the objective efficiency.\<close>

lemma power_is_efficiency: "objective_power F = objective_efficiency F"
  by (simp add: objective_power_def objective_efficiency_def)

text \<open>The test freqs.begin() > freqs.end() never holds: on a list of falling frequencies inc lowers the
  frequency.\<close>

lemma inc_freq_falling:
  assumes "sorted_wrt (>) freqs" and "f \<in> set freqs" and "length freqs < 2 ^ 64" and "inc_freq freqs f = Some (Some f')"
  shows "f' < f"
proof -
  let ?i = "find_pos f freqs"
  have i: "?i < length freqs" "freqs ! ?i = f" using assms(2) find_pos_less find_pos_nth by fast+
  have "Suc ?i < length freqs" "f' = freqs ! Suc ?i"
    using assms(4) i(1) by (auto simp: inc_freq_cases [OF assms(2,3)] Let_def split: if_splits)
  then show ?thesis using assms(1) i(2) by (metis lessI sorted_wrt_nth_less)
qed

end
