(* ===== verification/Global_Optimizer.thy ===== *)
theory Global_Optimizer
  imports Node_Schedule Tuner Tree_Policy Task_Times
begin

text \<open>
  The global optimizer (allscale/optimizer.hpp and src/optimizer.cpp): the state it collects from the
  localities, the tuning step, and the three ways to balance - by task times, by the inter-node optimizer
  and at random.  The broadcast that collects the states is the argument states of the continuations, and
  what a continuation broadcasts is part of its result.  None is an exception or an access behind the end
  of a vector.
\<close>

section \<open>The state of a locality\<close>

record 'f optimizer_state =
  os_load :: 'f
  os_task_times :: "'f list"
  os_avg_time :: 'f
  os_energy :: uint64_t
  os_frequency :: uint64_t
  os_cores :: size_t

text \<open>The arguments are the values of the monitor and the scheduler; power is the current power in a
  build with POWER\_ESTIMATE, and to\_u64 the conversion of a float.\<close>

definition get_optimizer_state ::
  "'f farith \<Rightarrow> ('f \<Rightarrow> bool) \<Rightarrow> ('f \<Rightarrow> uint64_t) \<Rightarrow> 'f \<Rightarrow> 'f \<Rightarrow> 'f list \<Rightarrow> 'f option \<Rightarrow> uint64_t \<Rightarrow> size_t \<Rightarrow> 'f optimizer_state" where
  "get_optimizer_state F isfinite to_u64 idle_rate avg_time task_times pwr freq threads =
    (let energy = (case pwr of None \<Rightarrow> fof_int F 100 | Some e \<Rightarrow> e) in
     \<lparr>os_load = fsub F (fof_int F 1) idle_rate, os_task_times = task_times,
      os_avg_time = (if \<not> isfinite avg_time \<or> flt F avg_time (flit F 1 100) then fof_int F (-1) else avg_time),
      os_energy = to_u64 energy, os_frequency = to_u64 (fof_int F (uint freq)), os_cores = threads\<rparr>)"

definition estimate_power :: "'f farith \<Rightarrow> 'f \<Rightarrow> 'f" where
  "estimate_power F frequency =
    (let U = flit F 8 10 in
     fmul F (fmul F (fmul F (fof_int F 100) frequency) frequency) (fmul F U U))"

section \<open>The optimizer\<close>

record 'f global_optimizer =
  u_balance_every :: size_t
  u_steps_till_rebalance :: size_t
  active_nodes :: "bool list"
  active_frequency :: uint64_t
  go_tuner :: "'f tuner"
  go_objective :: "'f tuning_objective"
  go_active :: bool
  localities :: nat
  f_resource_max :: 'f
  f_resource_leeway :: 'f
  o_ino :: "'f ino"

text \<open>internode\_optimizer\_t() sets only some members, the others have any value (junk).\<close>

definition default_ino :: "'f farith \<Rightarrow> 'f ino \<Rightarrow> 'f ino" where
  "default_ino F junk = junk\<lparr>ino_nodes := 0, d_target := fof_int F (-1), d_leeway := fof_int F (-1),
     u_history_interval := 0, c_last_choice := 0, v_past := [], v_explore_logistics := [],
     s_forgotten := [], s_explore := []\<rparr>"

text \<open>The constructor.  strncasecmp with a length of 3, atoi and atof are functions of the C library; the
  environment is a map.\<close>

definition lower :: "char \<Rightarrow> char" where
  "lower c = (let n = of_char c :: nat in if 65 \<le> n \<and> n \<le> 90 then char_of (n + 32) else c)"

definition starts_with_ino :: "string \<Rightarrow> bool" where
  "starts_with_ino s \<longleftrightarrow> map lower (take 3 s) = ''ino''"

definition INO_DEFAULT_FORGET_AFTER :: size_t where "INO_DEFAULT_FORGET_AFTER = 10000"

definition new_global_optimizer ::
  "'f fpu \<Rightarrow> ('f \<Rightarrow> nat) \<Rightarrow> (string \<Rightarrow> size_t) \<Rightarrow> (string \<Rightarrow> 'f) \<Rightarrow> (string \<Rightarrow> string option) \<Rightarrow> 'f \<Rightarrow> uint64_t \<Rightarrow> 'f ino \<Rightarrow>
   uint64_t \<Rightarrow> nat \<Rightarrow> 'f global_optimizer" where
  "new_global_optimizer P to_size atoi atof env junk_score junk_freq junk_ino cur_freq N =
    (let F = sgl P;
         mask = replicate N True;
         g = \<lparr>u_balance_every = 10, u_steps_till_rebalance = 10, active_nodes = mask, active_frequency = junk_freq,
              go_tuner = new_tuner F (env ''ALLSCALE_OBJECTIVE'') junk_score \<lparr>node_mask = mask, cfg_frequency = cur_freq\<rparr>,
              go_objective = get_default_objective F (env ''ALLSCALE_OBJECTIVE''), go_active = True, localities = N,
              f_resource_max = fof_int F (-1), f_resource_leeway = fof_int F (-1), o_ino = default_ino F junk_ino\<rparr> in
     case env ''ALLSCALE_SCHEDULING_POLICY'' of
       None \<Rightarrow> g
     | Some policy \<Rightarrow>
         if starts_with_ino policy then
           (let every = (case env ''ALLSCALE_INO_BALANCE_EVERY'' of None \<Rightarrow> 10 | Some v \<Rightarrow> atoi v);
                leeway = (case env ''ALLSCALE_RESOURCE_LEEWAY'' of None \<Rightarrow> flit F 1 4 | Some v \<Rightarrow> atof v);
                most = (case env ''ALLSCALE_RESOURCE_MAX'' of None \<Rightarrow> flit F 3 4 | Some v \<Rightarrow> atof v) in
            g\<lparr>u_balance_every := every, f_resource_leeway := leeway, f_resource_max := most,
              o_ino := new_ino P to_size N most leeway INO_DEFAULT_FORGET_AFTER\<rparr>)
         else g)"

text \<open>The move constructor: what it does not name is default-constructed or has any value, and o\_ino is
  moved from itself.\<close>

definition move_optimizer :: "'f farith \<Rightarrow> 'f global_optimizer \<Rightarrow> 'f global_optimizer \<Rightarrow> 'f global_optimizer" where
  "move_optimizer F junk other = junk\<lparr>active_nodes := active_nodes other, active_frequency := active_frequency other,
     go_tuner := go_tuner other, go_objective := objective_of F 0 0 0, go_active := go_active other,
     localities := localities other, f_resource_max := f_resource_max other,
     f_resource_leeway := f_resource_leeway other\<rparr>"

definition may_rebalance :: "'f global_optimizer \<Rightarrow> bool \<times> 'f global_optimizer" where
  "may_rebalance g =
    (if u_steps_till_rebalance g \<noteq> 0
     then (False, g\<lparr>u_steps_till_rebalance := u_steps_till_rebalance g - 1\<rparr>) else (True, g))"

definition num_active :: "'f global_optimizer \<Rightarrow> nat" where
  "num_active g = count_list (active_nodes g) True"

subsection \<open>Tuning\<close>

text \<open>The loop over the nodes: speed, efficiency, used and maximal power.\<close>

fun tune_loop ::
  "'f farith \<Rightarrow> uint64_t \<Rightarrow> 'f option \<Rightarrow> nat \<Rightarrow> 'f optimizer_state list \<Rightarrow> nat list \<Rightarrow> 'f \<times> 'f \<times> 'f \<times> 'f \<Rightarrow>
   ('f \<times> 'f \<times> 'f \<times> 'f) option" where
  "tune_loop F max_freq max_pow n states [] acc = Some acc"
| "tune_loop F max_freq max_pow n states (i # ns) (spd, eff, used, mx) = do {
    (spd, eff, used) \<leftarrow>
      (if i < n then do {
         s \<leftarrow> at_opt states i;
         Some (fadd F spd (os_load s),
               fadd F eff (fmul F (os_load s)
                 (fdiv F (fof_int F (uint (os_frequency s * os_cores s))) (fof_int F (uint (max_freq * os_cores s))))),
               fadd F used (fof_int F (uint (os_energy s))))}
       else Some (spd, eff, used));
    let mx = (case max_pow of None \<Rightarrow> mx | Some m \<Rightarrow> fadd F mx m);
    tune_loop F max_freq max_pow n states ns (spd, eff, used, mx)}"

definition tuning_state ::
  "'f farith \<Rightarrow> ('f \<Rightarrow> 'f \<Rightarrow> 'f) \<Rightarrow> uint64_t \<Rightarrow> 'f option \<Rightarrow> 'f optimizer_state list \<Rightarrow> 'f global_optimizer \<Rightarrow> 'f tuner_state option" where
  "tuning_state F pow max_freq max_pow states g = do {
    let z = fof_int F 0;
    (spd, eff, used, mx) \<leftarrow> tune_loop F max_freq max_pow (num_active g) states [0..<length (active_nodes g)] (z, z, z, z);
    let size = fof_int F (int (length (active_nodes g)));
    let s = fdiv F spd size;
    let e = fdiv F eff size;
    let p = fdiv F used mx;
    Some \<lparr>ts_speed = s, ts_efficiency = e, ts_power = p, ts_score = score F pow (go_objective g) s e p\<rparr>}"

text \<open>tune; the inner option is that of the tuner: a step without an end, or a read behind the end.\<close>

definition tune ::
  "'f farith \<Rightarrow> ('f \<Rightarrow> 'f \<Rightarrow> 'f) \<Rightarrow> uint64_t list \<Rightarrow> uint64_t \<Rightarrow> 'f option \<Rightarrow> 'f optimizer_state list \<Rightarrow> 'f global_optimizer \<Rightarrow>
   'f global_optimizer option" where
  "tune F pow freqs max_freq max_pow states g = do {
    ts \<leftarrow> tuning_state F pow max_freq max_pow states g;
    r \<leftarrow> tuner_next F freqs \<lparr>node_mask = active_nodes g, cfg_frequency = active_frequency g\<rparr> ts (go_objective g) (go_tuner g);
    (cfg, t) \<leftarrow> r;
    Some (g\<lparr>go_tuner := t, active_nodes := node_mask cfg, active_frequency := cfg_frequency cfg\<rparr>)}"

subsection \<open>Balancing by task times\<close>

fun add_times :: "'f farith \<Rightarrow> 'f optimizer_state list \<Rightarrow> 'f list \<Rightarrow> 'f list option" where
  "add_times F [] ts = Some ts"
| "add_times F (s # ss) ts = do { ts \<leftarrow> times_plus F ts (os_task_times s); add_times F ss ts }"

fun square_dists :: "'f farith \<Rightarrow> 'f \<Rightarrow> 'f optimizer_state list \<Rightarrow> nat list \<Rightarrow> 'f \<Rightarrow> 'f option" where
  "square_dists F avg states [] acc = Some acc"
| "square_dists F avg states (i # ns) acc = do {
    s \<leftarrow> at_opt states i;
    let d = fsub F (os_load s) avg;
    square_dists F avg states ns (fadd F acc (fmul F d d))}"

text \<open>global\_optimizer::balance: the task times, the mask and the frequency that are broadcast to update the policies.\<close>

definition load_variance :: "'f farith \<Rightarrow> 'f optimizer_state list \<Rightarrow> nat \<Rightarrow> 'f option" where
  "load_variance F states n = do {
    let avg = fdiv F (foldl (\<lambda>a s. fadd F a (os_load s)) (fof_int F 0) states) (fof_int F (int n));
    sum_dist \<leftarrow> square_dists F avg states [0..<n] (fof_int F 0);
    Some (if 1 < n then fdiv F sum_dist (fof_int F (int (n - 1))) else fof_int F 0)}"

definition global_balance ::
  "'f farith \<Rightarrow> ('f \<Rightarrow> 'f \<Rightarrow> 'f) \<Rightarrow> uint64_t list \<Rightarrow> uint64_t \<Rightarrow> 'f option \<Rightarrow> bool \<Rightarrow> 'f optimizer_state list \<Rightarrow>
   'f global_optimizer \<Rightarrow> (('f list \<times> bool list \<times> uint64_t) \<times> 'f global_optimizer) option" where
  "global_balance F pow freqs max_freq max_pow tuned states g = do {
    times \<leftarrow> add_times F states (new_task_times F);
    var \<leftarrow> load_variance F states (num_active g);
    g \<leftarrow> (if tuned \<and> flt F var (flit F 1 100) then tune F pow freqs max_freq max_pow states g else Some g);
    Some ((times, active_nodes g, active_frequency g), g)}"

subsection \<open>A random mapping\<close>

text \<open>get\_random\_node: the draws of the uniform distribution below the number of localities are the
  sequence us, of which i have been used.\<close>

partial_function (option) get_random_node :: "(nat \<Rightarrow> nat) \<Rightarrow> nat list \<Rightarrow> nat \<Rightarrow> (nat \<times> nat) option" where
  "get_random_node us exclude i = (if us i \<in> set exclude then get_random_node us exclude (Suc i) else Some (us i, Suc i))"

fun exclude_nodes :: "(nat \<Rightarrow> nat) \<Rightarrow> nat \<Rightarrow> nat list \<Rightarrow> nat \<Rightarrow> (nat list \<times> nat) option" where
  "exclude_nodes us 0 exclude i = Some (exclude, i)"
| "exclude_nodes us (Suc n) exclude i = do {
    (x, i) \<leftarrow> get_random_node us exclude i;
    exclude_nodes us n (exclude @ [x]) i}"

fun random_mapping :: "(nat \<Rightarrow> nat) \<Rightarrow> nat list \<Rightarrow> nat \<Rightarrow> nat \<Rightarrow> (nat list \<times> nat) option" where
  "random_mapping us exclude 0 i = Some ([], i)"
| "random_mapping us exclude (Suc n) i = do {
    (x, i) \<leftarrow> get_random_node us exclude i;
    (xs, i) \<leftarrow> random_mapping us exclude n i;
    Some (x # xs, i)}"

definition decide_random_mapping ::
  "(nat \<Rightarrow> nat) \<Rightarrow> nat \<Rightarrow> nat list \<Rightarrow> 'f global_optimizer \<Rightarrow> (nat list \<times> 'f global_optimizer \<times> nat) option" where
  "decide_random_mapping us i old_mapping g = do {
    (how_many, i) \<leftarrow> get_random_node us [] i;
    (exclude, i) \<leftarrow> (if how_many < localities g then exclude_nodes us how_many [] i else Some ([], i));
    let g = g\<lparr>u_steps_till_rebalance := u_balance_every g\<rparr>;
    (mapping, i) \<leftarrow> random_mapping us exclude (length old_mapping) i;
    Some (mapping, g, i)}"

subsection \<open>Balancing by the inter-node optimizer\<close>

text \<open>The replacement of the average times that are too small.\<close>

definition clean_times :: "'f farith \<Rightarrow> 'f optimizer_state list \<Rightarrow> 'f optimizer_state list option" where
  "clean_times F states =
    (case states of [] \<Rightarrow> None
     | s # ss \<Rightarrow>
       (let tenth = flit F 1 10;
            mx = foldl (\<lambda>m s. if flt F m (os_avg_time s) then os_avg_time s else m) (os_avg_time s) ss;
            mx = (if flt F mx tenth then tenth else mx) in
        Some (map (\<lambda>s. if flt F (os_avg_time s) tenth then s\<lparr>os_avg_time := mx\<rparr> else s) states)))"

text \<open>The map from the nodes to the tasks of the old mapping.\<close>

definition node_map_of :: "nat list \<Rightarrow> (nat \<times> nat list) list" where
  "node_map_of mapping = foldl (\<lambda>m (idx, node). omap_alter node [] (\<lambda>xs. xs @ [idx]) m) [] (enumerate 0 mapping)"

text \<open>The loop from idx = 0 to the number of active nodes: idx is incremented in its body and by the loop,
  the iterator over the states only by the loop.\<close>

function measured_nodes :: "nat \<Rightarrow> nat \<Rightarrow> 'f optimizer_state list \<Rightarrow> (nat \<times> 'f optimizer_state) list option" where
  "measured_nodes n idx states =
    (if idx \<le> n then
       (case states of [] \<Rightarrow> None
        | s # ss \<Rightarrow> map_option (\<lambda>r. (idx, s) # r) (measured_nodes n (Suc idx + 1) ss))
     else Some [])"
  by pat_completeness auto
termination by (relation "measure (\<lambda>(n, idx, states). length states)") auto

declare measured_nodes.simps [simp del]

definition ino_mapping :: "nat \<Rightarrow> nat schedule \<Rightarrow> nat list" where
  "ino_mapping len sched =
    foldl (\<lambda>m (node, c). foldl (\<lambda>m wi. m[wi := node]) m (v_work_items c)) (replicate len 0) sched"

text \<open>balance\_ino: the new mapping, when one is broadcast.  The two defaults are balance\_top\_N and
  balance\_bottom\_K.\<close>

definition balance_ino ::
  "'f fpu \<Rightarrow> 'f pareto_entry sorter \<Rightarrow> (nat \<times> 'f) sorter \<Rightarrow> (('f \<times> nat) list \<Rightarrow> ('f \<times> nat) list) \<Rightarrow> (nat \<Rightarrow> nat) \<Rightarrow> nat \<Rightarrow>
   nat list \<Rightarrow> 'f optimizer_state list \<Rightarrow> 'f global_optimizer \<Rightarrow> (nat list option \<times> 'f global_optimizer \<times> nat) option" where
  "balance_ino P esrt srt shuf rs i old_mapping states g = do {
    let F = sgl P;
    let g = g\<lparr>u_steps_till_rebalance := u_balance_every g\<rparr>;
    states \<leftarrow> clean_times F states;
    ms \<leftarrow> measured_nodes (num_active g) 0 states;
    let node_loads = map (\<lambda>(n, s). (n, os_load s)) ms;
    let node_times = map (\<lambda>(n, s). (n, os_avg_time s)) ms;
    (knobs, ino, i) \<leftarrow> get_node_configuration P esrt rs i (map (\<lambda>(_, s). os_load s) ms)
      (map (\<lambda>(_, s). os_avg_time s) ms) (map (\<lambda>(_, s). fof_int F (uint (os_energy s))) ms) None (o_ino g);
    let g = g\<lparr>o_ino := ino\<rparr>;
    sched \<leftarrow> decide_schedule P srt shuf (node_map_of old_mapping) node_loads node_times knobs False 1 1;
    Some (if sched \<noteq> [] then Some (ino_mapping (length old_mapping) sched) else None, g, i)}"

section \<open>Tuning keeps a usable set of nodes\<close>

text \<open>The nodes in use are the first ones, at least one, and the frequency is one of the processor.\<close>

definition optimizer_inv :: "nat \<Rightarrow> uint64_t list \<Rightarrow> 'f global_optimizer \<Rightarrow> bool" where
  "optimizer_inv n freqs g \<longleftrightarrow>
     prefix_config n freqs \<lparr>node_mask = active_nodes g, cfg_frequency = active_frequency g\<rparr> \<and>
     prefix_config n freqs (t_best (go_tuner g))"

lemma tune_inv:
  assumes "optimizer_inv n freqs g" and "tune F pow freqs max_freq max_pow states g = Some g'"
  shows "optimizer_inv n freqs g'"
proof -
  obtain ts cfg t where r: "tuner_next F freqs \<lparr>node_mask = active_nodes g, cfg_frequency = active_frequency g\<rparr> ts
      (go_objective g) (go_tuner g) = Some (Some (cfg, t))"
    and g': "g' = g\<lparr>go_tuner := t, active_nodes := node_mask cfg, active_frequency := cfg_frequency cfg\<rparr>"
    using assms(2) by (auto simp: tune_def Option.bind_eq_Some_conv)
  from tuner_step_prefix [OF _ _ r] assms(1) have "prefix_config n freqs cfg \<and> prefix_config n freqs (t_best t)"
    by (simp add: optimizer_inv_def)
  then show ?thesis by (simp add: optimizer_inv_def g' prefix_config_def)
qed

text \<open>C32: balancing, with or without tuning, broadcasts a mask whose first nodes are active, at least one
  of them, and a frequency of the processor.\<close>

theorem global_balance_keeps_nodes:
  assumes "optimizer_inv n freqs g"
    and "global_balance F pow freqs max_freq max_pow tuned states g = Some ((tms, msk, freq), g')"
  shows "(\<exists>k. 1 \<le> k \<and> k \<le> n \<and> msk = prefix_mask n k) \<and> freq \<in> set freqs \<and> optimizer_inv n freqs g'"
proof -
  have "optimizer_inv n freqs g'" and m: "msk = active_nodes g'" "freq = active_frequency g'"
    using assms tune_inv [OF assms(1)] by (auto simp: global_balance_def Option.bind_eq_Some_conv split: if_splits)
  then show ?thesis by (simp add: optimizer_inv_def prefix_config_def)
qed

section \<open>Random mappings\<close>

lemma get_random_node_returns:
  assumes "us j \<notin> set exclude" and "i \<le> j"
  shows "\<exists>x i'. get_random_node us exclude i = Some (x, i')"
  using assms(2)
proof (induction "j - i" arbitrary: i)
  case 0
  then show ?case using assms(1) by (subst get_random_node.simps) simp
next
  case (Suc m)
  show ?case
  proof (cases "us i \<in> set exclude")
    case True
    then show ?thesis using Suc.hyps(1) [of "Suc i"] Suc.hyps(2) by (subst get_random_node.simps) simp
  next
    case False
    then show ?thesis by (subst get_random_node.simps) simp
  qed
qed

lemma get_random_node_result:
  assumes "get_random_node us exclude i = Some y"
  shows "fst y \<in> range us \<and> fst y \<notin> set exclude"
proof (rule get_random_node.raw_induct [where P = "\<lambda>us exclude i y. fst y \<in> range us \<and> fst y \<notin> set exclude", OF _ assms])
  fix loop :: "(nat \<Rightarrow> nat) \<Rightarrow> nat list \<Rightarrow> nat \<Rightarrow> (nat \<times> nat) option" and us exclude i y
  assume IH: "\<And>us exclude i y. loop us exclude i = Some y \<Longrightarrow> fst y \<in> range us \<and> fst y \<notin> set exclude"
    and run: "(if us i \<in> set exclude then loop us exclude (Suc i) else Some (us i, Suc i)) = Some y"
  show "fst y \<in> range us \<and> fst y \<notin> set exclude"
  proof (cases "us i \<in> set exclude")
    case True
    then show ?thesis using IH run by simp
  next
    case False
    then have "y = (us i, Suc i)" using run by simp
    then show ?thesis using False by simp
  qed
qed

lemma short_list_misses:
  assumes "length xs < n" shows "\<not> {..<n} \<subseteq> set xs"
proof
  assume "{..<n} \<subseteq> set xs"
  then have "card {..<n} \<le> card (set xs)" by (intro card_mono) simp_all
  then show False using card_length [of xs] assms by simp
qed

text \<open>Draws below n in which every node comes up again and again.\<close>

definition fair_draws :: "nat \<Rightarrow> (nat \<Rightarrow> nat) \<Rightarrow> bool" where
  "fair_draws n us \<longleftrightarrow> (\<forall>i. us i < n) \<and> (\<forall>x < n. \<forall>i. \<exists>j \<ge> i. us j = x)"

lemma get_random_node_fair:
  assumes "fair_draws n us" and "\<not> {..<n} \<subseteq> set exclude"
  shows "\<exists>x i'. get_random_node us exclude i = Some (x, i') \<and> x < n \<and> x \<notin> set exclude"
proof -
  obtain x where x: "x < n" "x \<notin> set exclude" using assms(2) by auto
  then obtain j where "i \<le> j" "us j = x" using assms(1) unfolding fair_draws_def by blast
  then obtain y i' where y: "get_random_node us exclude i = Some (y, i')"
    using get_random_node_returns [of us j exclude i] x by auto
  from get_random_node_result [OF y] assms(1) have "y < n \<and> y \<notin> set exclude" by (auto simp: fair_draws_def)
  then show ?thesis using y by blast
qed

lemma exclude_nodes_fair:
  assumes "fair_draws n us"
  shows "length exclude + k < n \<Longrightarrow>
    \<exists>ex i'. exclude_nodes us k exclude i = Some (ex, i') \<and> length ex = length exclude + k"
proof (induction k arbitrary: exclude i)
  case (Suc k)
  have "\<not> {..<n} \<subseteq> set exclude" using Suc.prems by (intro short_list_misses) simp
  then obtain x i' where "get_random_node us exclude i = Some (x, i')" using get_random_node_fair [OF assms] by blast
  then show ?case using Suc.IH [of "exclude @ [x]" i'] Suc.prems by auto
qed simp

lemma random_mapping_fair:
  assumes "fair_draws n us" and "\<not> {..<n} \<subseteq> set exclude"
  shows "\<exists>m i'. random_mapping us exclude k i = Some (m, i') \<and> length m = k \<and> (\<forall>x \<in> set m. x < n \<and> x \<notin> set exclude)"
proof (induction k arbitrary: i)
  case (Suc k)
  obtain x i' where "get_random_node us exclude i = Some (x, i')" "x < n" "x \<notin> set exclude"
    using get_random_node_fair [OF assms] by blast
  then show ?case using Suc.IH [of i'] by auto
qed simp

text \<open>With fair draws the random mapping is found: it never excludes all localities, and every task
  gets a locality.\<close>

theorem random_mapping_found:
  assumes "fair_draws (localities g) us"
  shows "\<exists>m g' i'. decide_random_mapping us i old g = Some (m, g', i') \<and> length m = length old \<and>
    (\<forall>x \<in> set m. x < localities g) \<and> u_steps_till_rebalance g' = u_balance_every g"
proof -
  let ?n = "localities g"
  have n: "0 < ?n" using assms by (auto simp: fair_draws_def)
  then obtain h i1 where h: "get_random_node us [] i = Some (h, i1)" "h < ?n"
    using get_random_node_fair [OF assms, of "[]" i] by auto
  obtain ex i2 where ex: "exclude_nodes us h [] i1 = Some (ex, i2)" "length ex = h"
    using exclude_nodes_fair [OF assms, of "[]" h i1] h(2) by auto
  have "\<not> {..<?n} \<subseteq> set ex" using ex(2) h(2) by (intro short_list_misses) simp
  from random_mapping_fair [OF assms this, of "length old" i2] h ex show ?thesis
    by (auto simp: decide_random_mapping_def)
qed

theorem random_mapping_found_witness:
  "\<exists>m g' i'. decide_random_mapping (\<lambda>i. i mod 3) 0 [0, 1, 2, 0] (new_global_optimizer rat_fpu (\<lambda>_. 0) (\<lambda>_. 0) (\<lambda>_. 0) (\<lambda>_. None) 0 0 demo_ino 1000 3) =
      Some (m, g', i') \<and> length m = 4 \<and> (\<forall>x \<in> set m. x < 3)"
proof -
  let ?g = "new_global_optimizer rat_fpu (\<lambda>_. 0) (\<lambda>_. 0) (\<lambda>_. 0) (\<lambda>_. None) 0 0 demo_ino 1000 3"
  have l: "localities ?g = 3" by (simp add: new_global_optimizer_def Let_def)
  have "\<exists>j \<ge> i. j mod 3 = x" if "x < 3" for x i :: nat
    using that by (intro exI [of _ "3 * i + x"]) auto
  then have "fair_draws 3 (\<lambda>i. i mod 3)" by (simp add: fair_draws_def)
  then show ?thesis using random_mapping_found [of ?g "\<lambda>i. i mod 3" 0 "[0, 1, 2, 0]"] by (auto simp: l)
qed

section \<open>The new mapping of the inter-node optimizer\<close>

lemma work_item_loads_keys:
  "work_item_loads P m loads acc = Some r \<Longrightarrow> n \<in> fst ` set loads \<Longrightarrow> map_of m n \<noteq> None"
proof (induction loads arbitrary: acc)
  case (Cons p loads)
  obtain k load where p: "p = (k, load)" by (cases p)
  obtain items acc' where "map_of m k = Some items" "work_item_loads P m loads acc' = Some r"
    using Cons.prems(1) by (auto simp: p Option.bind_eq_Some_conv Let_def)
  then show ?case using Cons.IH [of acc'] Cons.prems(2) by (cases "n = k") (auto simp: p)
qed simp

lemma measured_nodes_even:
  "measured_nodes n idx states = Some ms \<Longrightarrow> idx \<le> n \<Longrightarrow> even (n - idx) \<Longrightarrow> n \<in> fst ` set ms"
proof (induction n idx states arbitrary: ms rule: measured_nodes.induct)
  case (1 n idx states)
  then obtain s ss where st: "states = s # ss" by (cases states) (auto simp: measured_nodes.simps)
  then obtain r where r: "measured_nodes n (Suc idx + 1) ss = Some r" "ms = (idx, s) # r"
    using "1.prems"(1,2) by (auto simp: measured_nodes.simps [of n idx])
  show ?case
  proof (cases "idx = n")
    case False
    have "Suc idx \<noteq> n" using "1.prems"(3) by auto
    then have "Suc idx + 1 \<le> n" "even (n - (Suc idx + 1))" using False "1.prems"(2,3) by auto
    from "1.IH" [OF "1.prems"(2) st r(1) this] show ?thesis by (simp add: r(2))
  qed (simp add: r(2))
qed

lemma node_map_keys: "fst ` set (node_map_of mapping) = set mapping"
proof -
  have "fst ` set (foldl (\<lambda>m (idx, node). omap_alter node [] (\<lambda>xs. xs @ [idx]) m) m ps) = fst ` set m \<union> snd ` set ps"
    for ps :: "(nat \<times> nat) list" and m :: "(nat \<times> nat list) list"
  proof (induction ps arbitrary: m)
    case (Cons p ps)
    then show ?case using keys_alter [of "snd p" "[]" "\<lambda>xs. xs @ [fst p]" m] by (cases p) auto
  qed simp
  moreover have "snd ` set (enumerate 0 mapping) = set mapping" by (metis list.set_map map_snd_enumerate)
  ultimately show ?thesis by (simp add: node_map_of_def)
qed

lemma balance_ino_parts:
  assumes "balance_ino P esrt srt shuf rs i old states g = Some (r, g', i')"
  obtains states' ms knobs ino sched where
    "measured_nodes (num_active g) 0 states' = Some ms"
    "decide_schedule P srt shuf (node_map_of old) (map (\<lambda>(n, s). (n, os_load s)) ms)
      (map (\<lambda>(n, s). (n, os_avg_time s)) ms) knobs False 1 1 = Some sched"
    "get_node_configuration P esrt rs i (map (\<lambda>(_, s). os_load s) ms) (map (\<lambda>(_, s). os_avg_time s) ms)
      (map (\<lambda>(_, s). fof_int (sgl P) (uint (os_energy s))) ms) None (o_ino g) = Some (knobs, ino, i')"
    "r = (if sched \<noteq> [] then Some (ino_mapping (length old) sched) else None)" "o_ino g' = ino"
  using assms
  by (auto simp: balance_ino_def num_active_def Let_def Option.bind_eq_Some_conv split: if_splits)

text \<open>With an even number of active nodes, balancing fails with the exception of std::map::at when
  the tasks are mapped to the active nodes: the loop, which steps idx twice, also measures the node behind
  the last one.\<close>

theorem balance_ino_even_fails:
  assumes "even (num_active g)" and "\<forall>r \<in> set old. r < num_active g"
  shows "balance_ino P esrt srt shuf rs i old states g = None"
proof (rule ccontr)
  assume "\<not> ?thesis"
  then obtain r g' i' where "balance_ino P esrt srt shuf rs i old states g = Some (r, g', i')"
    by (metis not_None_eq prod_cases3)
  then obtain states' ms knobs sched where ms: "measured_nodes (num_active g) 0 states' = Some ms"
    and d: "decide_schedule P srt shuf (node_map_of old) (map (\<lambda>(n, s). (n, os_load s)) ms)
      (map (\<lambda>(n, s). (n, os_avg_time s)) ms) knobs False 1 1 = Some sched"
    by (rule balance_ino_parts)
  have "num_active g \<in> fst ` set ms" using measured_nodes_even [OF ms] assms(1) by simp
  then have "num_active g \<in> fst ` set (map (\<lambda>(n, s). (n, os_load s)) ms)" by (force simp: case_prod_beta)
  moreover obtain l where "work_item_loads P (node_map_of old) (map (\<lambda>(n, s). (n, os_load s)) ms) [] = Some l"
    using d by (auto simp: decide_schedule_def Option.bind_eq_Some_conv)
  ultimately have "map_of (node_map_of old) (num_active g) \<noteq> None" by (rule work_item_loads_keys [rotated])
  then have "num_active g \<in> set old" by (simp add: map_of_eq_None_iff node_map_keys)
  then show False using assms(2) by auto
qed

lemma ino_mapping_range:
  "length (ino_mapping len sched) = len \<and> set (ino_mapping len sched) \<subseteq> insert 0 (fst ` set sched)"
proof -
  have inner: "length (foldl (\<lambda>m wi. m[wi := node]) m wis) = length m \<and>
      set (foldl (\<lambda>m wi. m[wi := node]) m wis) \<subseteq> insert node (set m)" for node :: nat and m wis
  proof (induction wis arbitrary: m)
    case (Cons wi wis)
    then show ?case using set_update_subset_insert [of m wi node] by fastforce
  qed auto
  have "length (foldl (\<lambda>m (node, c). foldl (\<lambda>m wi. m[wi := node]) m (v_work_items c)) m sched) = length m \<and>
      set (foldl (\<lambda>m (node, c). foldl (\<lambda>m wi. m[wi := node]) m (v_work_items c)) m sched) \<subseteq> set m \<union> fst ` set sched" for m
  proof (induction sched arbitrary: m)
    case (Cons p sched)
    then show ?case using inner [of "fst p" m "v_work_items (snd p)"] by (cases p) fastforce
  qed auto
  from this [of "replicate len 0"] show ?thesis by (auto simp: ino_mapping_def set_replicate_conv_if split: if_splits)
qed

text \<open>A new mapping maps the same tasks, to nodes below the number of nodes that was chosen or to
  nodes that had tasks before.\<close>

theorem balance_ino_mapping:
  assumes "balance_ino P esrt srt shuf rs i old states g = Some (Some m, g', i')" and "sorter_ok srt"
  shows "length m = length old \<and> (\<forall>r \<in> set m. r < max 1 (c_last_choice (o_ino g')) \<or> r \<in> set old)"
  using assms(1)
proof (rule balance_ino_parts)
  fix states' ms knobs ino sched
  assume d: "decide_schedule P srt shuf (node_map_of old) (map (\<lambda>(n, s). (n, os_load s)) ms)
      (map (\<lambda>(n, s). (n, os_avg_time s)) ms) knobs False 1 1 = Some sched"
    and g: "get_node_configuration P esrt rs i (map (\<lambda>(_, s). os_load s) ms) (map (\<lambda>(_, s). os_avg_time s) ms)
      (map (\<lambda>(_, s). fof_int (sgl P) (uint (os_energy s))) ms) None (o_ino g) = Some (knobs, ino, i')"
    and m: "Some m = (if sched \<noteq> [] then Some (ino_mapping (length old) sched) else None)" and g': "o_ino g' = ino"
  have last: "c_last_choice ino = knobs"
    using g unfolding get_node_configuration_def Let_def by (auto simp: Option.bind_eq_Some_conv split: if_splits)
  have m': "m = ino_mapping (length old) sched" using m by (simp split: if_splits)
  obtain l where l: "work_item_loads P (node_map_of old) (map (\<lambda>(n, s). (n, os_load s)) ms) [] = Some l"
    using d by (auto simp: decide_schedule_def Option.bind_eq_Some_conv)
  have measured: "n \<in> set old" if "n \<in> fst ` set ms" for n
  proof -
    have "n \<in> fst ` set (map (\<lambda>(n, s). (n, os_load s)) ms)" using that by (force simp: case_prod_beta)
    from work_item_loads_keys [OF l this] show ?thesis by (simp add: map_of_eq_None_iff node_map_keys)
  qed
  have "r < max 1 knobs \<or> r \<in> set old" if "r \<in> set m" for r
  proof -
    have "r = 0 \<or> r \<in> fst ` set sched" using ino_mapping_range [of "length old" sched] that unfolding m' by blast
    then consider "r = 0" | c where "(r, c) \<in> set sched" by force
    then show ?thesis
    proof cases
      case (2 c)
      have "fst ` set (map (\<lambda>(n, s). (n, os_avg_time s)) ms) = fst ` set ms" by (force simp: case_prod_beta)
      with decide_schedule_keys [OF d assms(2) 2] measured show ?thesis by (auto split: if_splits)
    qed (simp add: less_max_iff_disj)
  qed
  then show ?thesis using ino_mapping_range [of "length old" sched] by (simp add: m' g' last)
qed

text \<open>An example: localities of one core each, the policy ino, and the tasks 0 and 3 on the first of three.\<close>

definition demo_env :: "string \<Rightarrow> string option" where
  "demo_env v = (if v = ''ALLSCALE_SCHEDULING_POLICY'' then Some ''ino'' else None)"

definition demo_optimizer :: "nat \<Rightarrow> rat global_optimizer" where
  "demo_optimizer n = new_global_optimizer rat_fpu (\<lambda>r. nat \<lceil>r\<rceil>) (\<lambda>_. 0) (\<lambda>_. 0) demo_env 0 1000 demo_ino 1000 n"

definition demo_os :: "rat optimizer_state" where
  "demo_os = \<lparr>os_load = 1, os_task_times = new_task_times rat_arith, os_avg_time = 2, os_energy = 100,
     os_frequency = 1000, os_cores = 1\<rparr>"

lemma demo_optimizer_simps:
  "active_nodes (demo_optimizer n) = replicate n True" "num_active (demo_optimizer n) = n"
  "active_frequency (demo_optimizer n) = 1000" "o_ino (demo_optimizer n) = new_ino rat_fpu (\<lambda>r. nat \<lceil>r\<rceil>) n (3/4) (1/4) 10000"
  "t_best (go_tuner (demo_optimizer n)) = \<lparr>node_mask = replicate n True, cfg_frequency = 1000\<rparr>"
proof -
  have "count_list (replicate n True) True = n" by (induction n) auto
  then show "active_nodes (demo_optimizer n) = replicate n True" "num_active (demo_optimizer n) = n"
    "active_frequency (demo_optimizer n) = 1000" "o_ino (demo_optimizer n) = new_ino rat_fpu (\<lambda>r. nat \<lceil>r\<rceil>) n (3/4) (1/4) 10000"
    "t_best (go_tuner (demo_optimizer n)) = \<lparr>node_mask = replicate n True, cfg_frequency = 1000\<rparr>"
    by (simp_all add: demo_optimizer_def new_global_optimizer_def demo_env_def starts_with_ino_def lower_def
      num_active_def new_tuner_def INO_DEFAULT_FORGET_AFTER_def Let_def)
qed

theorem balance_ino_even_fails_witness:
  "balance_ino rat_fpu insertion_sort insertion_sort (\<lambda>xs. xs) (\<lambda>_. 0) 0 [0, 1, 1, 0] [demo_os, demo_os] (demo_optimizer 2) = None"
  by (rule balance_ino_even_fails) (simp_all add: demo_optimizer_simps)

lemma demo_balance_ino:
  "\<exists>m g' i'. balance_ino rat_fpu insertion_sort insertion_sort (\<lambda>xs. xs) (\<lambda>_. 0) 0 [0, 1, 2, 0] [demo_os, demo_os, demo_os] (demo_optimizer 3) =
    Some (Some m, g', i')"
proof -
  have c: "clean_times rat_arith [demo_os, demo_os, demo_os] = Some [demo_os, demo_os, demo_os]"
    by (simp add: clean_times_def demo_os_def)
  have m: "measured_nodes 3 0 [demo_os, demo_os, demo_os] = Some [(0, demo_os), (2, demo_os)]"
    by (simp add: measured_nodes.simps)
  have conf: "\<exists>ino i'. get_node_configuration rat_fpu insertion_sort (\<lambda>_. 0) 0 [1, 1] [2, 2] [100, 100] None
      (new_ino rat_fpu (\<lambda>r. nat \<lceil>r\<rceil>) 3 (3/4) (1/4) 10000) = Some (3, ino, i')"
  proof -
    have "[3..<3 + 1] = [3 :: nat]" by (simp add: upt_rec)
    then have ino: "new_ino rat_fpu (\<lambda>r. nat \<lceil>r\<rceil>) 3 (3/4) (1/4) 10000 = \<lparr>c_last_choice = 0, ino_nodes = 3, u_min_nodes = 3,
        u_max_nodes = 3, u_choices = 0, u_history_interval = 10000, u_history_tick = 0, d_target = 3/4, d_leeway = 1/4,
        v_past = [], v_explore_logistics = [\<lparr>expl_nodes = 3, b_explored = False\<rparr>], s_forgotten = [], s_explore = []\<rparr>"
    proof -
      have "\<lceil>9 / 4 :: rat\<rceil> = 3" by (rule ceiling_unique) simp_all
      then show ?thesis by (simp add: new_ino_def Let_def)
    qed
    show ?thesis unfolding ino
      by (simp add: get_node_configuration_def record_point_def try_forget_def
        get_next_explore_def explore_configurations_def explore_loop.simps get_next_def INO_EXPLORATION_SOFT_LIMIT_def
        INO_EXPLORATION_PHASE_STEPS_def random_element_def random_loop.simps rand_max_def Let_def)
  qed
  then obtain ino i' where conf: "get_node_configuration rat_fpu insertion_sort (\<lambda>_. 0) 0 [1, 1] [2, 2] [100, 100] None
      (new_ino rat_fpu (\<lambda>r. nat \<lceil>r\<rceil>) 3 (3/4) (1/4) 10000) = Some (3, ino, i')" by blast
  have nm: "node_map_of [0, 1, 2, 0] = [(0, [0, 3]), (1, [1]), (2, [2])]"
    by (simp add: node_map_of_def)
  have "\<exists>p sched. decide_schedule rat_fpu insertion_sort (\<lambda>xs. xs) [(0, [0, 3]), (1, [1]), (2, [2 :: nat])]
      [(0, 1), (2, 1)] [(0, 2), (2, 2)] 3 False 1 1 = Some (p # sched)"
    by (simp add: decide_schedule_def omap_put_def collect_all_def cost_of_def partition_tasks_def push_item_def
      new_config_def Let_def upt_rec)
  then obtain p sched where d: "decide_schedule rat_fpu insertion_sort (\<lambda>xs. xs) [(0, [0, 3]), (1, [1]), (2, [2 :: nat])]
      [(0, 1), (2, 1)] [(0, 2), (2, 2)] 3 False (Suc 0) (Suc 0) = Some (p # sched)" by (auto simp del: One_nat_def simp flip: One_nat_def)
  have os: "os_load demo_os = 1" "os_avg_time demo_os = 2" "os_energy demo_os = 100" by (simp_all add: demo_os_def)
  let ?g = "(demo_optimizer 3)\<lparr>u_steps_till_rebalance := u_balance_every (demo_optimizer 3)\<rparr>"
  have n: "num_active ?g = 3" using demo_optimizer_simps(2) [of 3] by (simp add: num_active_def)
  show ?thesis by (simp add: balance_ino_def n c m nm [unfolded One_nat_def] os conf d [unfolded One_nat_def] demo_optimizer_simps(4))
qed

theorem balance_ino_mapping_witness:
  "\<exists>m g' i'. balance_ino rat_fpu insertion_sort insertion_sort (\<lambda>xs. xs) (\<lambda>_. 0) 0 [0, 1, 2, 0] [demo_os, demo_os, demo_os] (demo_optimizer 3) =
      Some (Some m, g', i') \<and> length m = 4"
proof -
  obtain m g' i' where r: "balance_ino rat_fpu insertion_sort insertion_sort (\<lambda>xs. xs) (\<lambda>_. 0) 0 [0, 1, 2, 0] [demo_os, demo_os, demo_os]
      (demo_optimizer 3) = Some (Some m, g', i')" using demo_balance_ino by blast
  from balance_ino_mapping [OF r insertion_sort_ok] r show ?thesis by simp
qed

lemma add_times_total:
  "\<forall>s \<in> set ss. length ts \<le> length (os_task_times s) \<Longrightarrow> \<exists>ts'. add_times F ss ts = Some ts'"
proof (induction ss arbitrary: ts)
  case (Cons s ss)
  then obtain ts1 where "times_plus F ts (os_task_times s) = Some ts1" "length ts1 = length ts"
    by (auto simp: times_plus_def times_zip_def)
  then show ?case using Cons by simp
qed simp

theorem global_balance_keeps_nodes_witness:
  "\<exists>tms msk freq g'. global_balance rat_arith (\<lambda>x _. x) [1000] 1000 None False [demo_os, demo_os] (demo_optimizer 2) =
      Some ((tms, msk, freq), g') \<and> (\<exists>k. 1 \<le> k \<and> k \<le> 2 \<and> msk = prefix_mask 2 k) \<and> freq \<in> set [1000]"
proof -
  have inv: "optimizer_inv 2 [1000] (demo_optimizer 2)"
    by (auto simp: optimizer_inv_def prefix_config_def demo_optimizer_simps prefix_mask_def intro!: exI [of _ 2])
  have "\<forall>s \<in> set [demo_os, demo_os]. length (new_task_times rat_arith) \<le> length (os_task_times s)"
    by (simp add: demo_os_def)
  from add_times_total [OF this] obtain tms where t: "add_times rat_arith [demo_os, demo_os] (new_task_times rat_arith) = Some tms"
    by blast
  have "load_variance rat_arith [demo_os, demo_os] (num_active (demo_optimizer 2)) = Some 0"
    unfolding demo_optimizer_simps by (simp add: load_variance_def demo_os_def numeral_2_eq_2)
  then have "\<exists>tms msk freq g'. global_balance rat_arith (\<lambda>x _. x) [1000] 1000 None False [demo_os, demo_os] (demo_optimizer 2) =
      Some ((tms, msk, freq), g')" using t by (simp add: global_balance_def)
  then obtain tms msk freq g' where r: "global_balance rat_arith (\<lambda>x _. x) [1000] 1000 None False [demo_os, demo_os] (demo_optimizer 2) =
      Some ((tms, msk, freq), g')" by blast
  from global_balance_keeps_nodes [OF inv r] r show ?thesis by blast
qed

section \<open>Where the code departs from its intention\<close>

text \<open>The constructor leaves the frequency without a value, and the first balancing broadcasts it.\<close>

lemma first_frequency_is_junk:
  assumes "env ''ALLSCALE_SCHEDULING_POLICY'' = None"
    and "global_balance F pow freqs max_freq max_pow False states
      (new_global_optimizer P to_size atoi atof env junk_score junk_freq junk_ino cur_freq N) = Some ((tms, msk, freq), g')"
  shows "freq = junk_freq"
  using assms by (auto simp: global_balance_def new_global_optimizer_def Option.bind_eq_Some_conv Let_def)

text \<open>The move constructor loses the objective.\<close>

lemma move_loses_objective: "go_objective (move_optimizer F junk other) = objective_of F 0 0 0"
  by (simp add: move_optimizer_def)

text \<open>A mapping of the inter-node optimizer need not be sorted, but the decision tree of from\_mapping bisects
  it like a sorted one: from the mapping 1, 0, 0, 1 of four tasks to two nodes it makes a policy that
  runs all four tasks on node 1.\<close>

lemma unsorted_mapping_lost:
  "\<exists>pol. from_mapping list_paths \<lparr>root_addr = HierarchyAddress 0 1, granularity = 2, tree = []\<rparr> [1, 0, 0, 1] = Some pol \<and>
    task_distribution_mapping list_paths pol = Some [1, 1, 1, 1]"
proof -
  have log: "ceilLog2 4 = Some 2" "ceilLog2 2 = Some 1"
    using ceilLog2_power [of 2] ceilLog2_power [of 1] by simp_all
  have "fillTree list_paths [1, 0, 0, 1] 1 (new_decision_tree 16) (pt_root list_paths) 0 0 2 0 4 =
      Some [12, 0, 0, 0, 0, 0, 0, 0]"
    by code_simp
  moreover have "toDecisionTree list_paths 2 mp =
      fillTree list_paths mp 1 (new_decision_tree 16) (pt_root list_paths) 0 0 2 0 4" if "length mp = 4" for mp
    using log by (simp add: toDecisionTree_def that del: fillTree.simps)
  ultimately have "toDecisionTree list_paths 2 [1, 0, 0, 1] = Some [12, 0, 0, 0, 0, 0, 0, 0]"
    by (simp only: length_Cons list.size One_nat_def numeral_eq_Suc pred_numeral_simps) (simp add: numeral_eq_Suc del: fillTree.simps)
  then have "from_mapping list_paths \<lparr>root_addr = HierarchyAddress 0 1, granularity = 2, tree = []\<rparr> [1, 0, 0, 1] =
      Some \<lparr>root_addr = HierarchyAddress 0 1, granularity = 2, tree = [12, 0, 0, 0, 0, 0, 0, 0]\<rparr>"
    by (simp add: from_mapping_def)
  moreover have "task_distribution_mapping list_paths
      \<lparr>root_addr = HierarchyAddress 0 1, granularity = 2, tree = [12, 0, 0, 0, 0, 0, 0, 0]\<rparr> = Some [1, 1, 1, 1]"
    by code_simp
  ultimately show ?thesis by blast
qed

end
