(* ===== verification/Acquisition.thy ===== *)
theory Acquisition
  imports Index_Runs
begin

text \<open>
  The data of a task on its way through the network (the operations on task requirements of
  allscale/data\_item\_manager): how its requirements and the index services change from node to node, and
  when a node can acquire them.  In a network of 2^k localities it always can, for a task that requires
  regions for writing of items that exist.
\<close>

section \<open>Moving through the network\<close>

text \<open>The index services that exist in a world.\<close>

definition hosts :: "('r, 'f, 'd) world \<Rightarrow> HierarchyAddress set" where
  "hosts w = {a. services w a \<noteq> None}"

text \<open>Requirements tr and a world w that a task which started with tr0 in the world w0 may have on its way: at
  any existing node its missing regions are looked up, or it is given an allowance for a child; a task that
  is handed on to a parent starts with its requirements again.\<close>

inductive carried ::
    "'r region_ops \<Rightarrow> 'r task_requirements \<Rightarrow> ('r, 'f, 'd) world \<Rightarrow> 'r task_requirements \<Rightarrow> ('r, 'f, 'd) world \<Rightarrow> bool"
  for R tr0 w0 where
  start: "carried R tr0 w0 tr0 w0"
| missing: "carried R tr0 w0 tr w \<Longrightarrow> a \<in> hosts w \<Longrightarrow> task_get_missing_regions R a tr w = Some (u, tr', w') \<Longrightarrow>
    carried R tr0 w0 tr' w'"
| left: "carried R tr0 w0 tr w \<Longrightarrow> a \<in> hosts w \<Longrightarrow> task_add_allowance_left R a tr w = Some (tr', w') \<Longrightarrow> carried R tr0 w0 tr' w'"
| right: "carried R tr0 w0 tr w \<Longrightarrow> a \<in> hosts w \<Longrightarrow> task_add_allowance_right R a tr w = Some (tr', w') \<Longrightarrow> carried R tr0 w0 tr' w'"
| again: "carried R tr0 w0 tr w \<Longrightarrow> carried R tr0 w0 tr0 w"

text \<open>A node acquires the requirements: however the task gets there, the allowance is added and the
  requirements are acquired, those of the split if it can be split, those of the processing if the node is a
  leaf.\<close>

definition acquires ::
    "'r region_ops \<Rightarrow> ('r, 'f, 'x) fragment_ops \<Rightarrow> nat \<Rightarrow> bool \<Rightarrow> 'r task_requirements \<Rightarrow> ('r, 'f, 'd) world \<Rightarrow> HierarchyAddress \<Rightarrow> bool" where
  "acquires R FO fuel can_split tr0 w0 a \<longleftrightarrow> (\<forall>tr w. carried R tr0 w0 tr w \<longrightarrow>
     (can_split \<longrightarrow> Option.bind (task_add_allowance R FO a tr w) (task_acquire_split R FO fuel a tr) \<noteq> None) \<and>
     (isLeaf a \<longrightarrow> Option.bind (task_add_allowance R FO a tr w) (task_acquire_process R FO fuel a tr) \<noteq> None))"

lemma map_reqs_rel:
  assumes "\<And>q w b w1. op q w = Some (b, w1) \<Longrightarrow> I w \<Longrightarrow> I w1 \<and> Q q b"
  shows "map_reqs op qs w = Some (bs, w') \<Longrightarrow> I w \<Longrightarrow> I w' \<and> list_all2 Q qs bs"
proof (induction qs arbitrary: w bs)
  case (Cons q qs)
  then obtain b w1 cs where "op q w = Some (b, w1)" "map_reqs op qs w1 = Some (cs, w')" "bs = b # cs"
    by (auto simp: Option.bind_eq_Some_conv)
  then show ?case using assms [of q w b w1] Cons.IH [of w1 cs] Cons.prems(2) by simp
qed simp

lemma map_reqs_total:
  assumes "\<And>q w. q \<in> set qs \<Longrightarrow> I w \<Longrightarrow> \<exists>b w1. op q w = Some (b, w1) \<and> I w1"
  shows "I w \<Longrightarrow> \<exists>bs w'. map_reqs op qs w = Some (bs, w') \<and> I w'"
  using assms
proof (induction qs arbitrary: w)
  case (Cons q qs)
  obtain b w1 where "op q w = Some (b, w1)" "I w1" using Cons.prems by force
  moreover obtain bs w' where "map_reqs op qs w1 = Some (bs, w')" "I w'"
    using Cons.IH [OF \<open>I w1\<close>] Cons.prems(2) by force
  ultimately show ?case by auto
qed simp

section \<open>What moving keeps\<close>

text \<open>An entry changes; the services, their addresses and the items stay.\<close>

definition same_net :: "('r, 'f, 'd) world \<Rightarrow> ('r, 'f, 'd) world \<Rightarrow> bool" where
  "same_net w w' \<longleftrightarrow> items_of w' = items_of w \<and> hosts w' = hosts w \<and> (\<forall>k. tree_world k w \<longrightarrow> tree_world k w')"

lemma same_net_refl [simp]: "same_net w w"
  by (simp add: same_net_def)

lemma same_net_trans: "same_net w w1 \<Longrightarrow> same_net w1 w2 \<Longrightarrow> same_net w w2"
  by (simp add: same_net_def)

lemma with_entry_cases:
  assumes "with_entry R a d op w = Some (b, w1)"
  obtains svc e svc1 e1 where "services w a = Some svc" and "get_entry R d svc = (e, svc1)"
    and "op e = (b, e1)" and "w1 = set_entry a d e1 svc1 w"
proof -
  obtain svc where s: "services w a = Some svc" using assms by (auto simp: with_entry_def)
  obtain e svc1 where e: "get_entry R d svc = (e, svc1)" by (cases "get_entry R d svc")
  obtain b' e1 where "op e = (b', e1)" by (cases "op e")
  then show thesis using that s e assms by (simp add: with_entry_def)
qed

lemma with_entry_same_net:
  assumes "with_entry R a d op w = Some (b, w1)"
  shows "same_net w w1"
proof -
  obtain svc e svc1 e1 where s: "services w a = Some svc" and e: "get_entry R d svc = (e, svc1)"
    and w1: "w1 = set_entry a d e1 svc1 w" using assms by (rule with_entry_cases)
  have h: "hosts w1 = hosts w" using s by (auto simp: hosts_def w1 set_entry_def)
  have "tree_world k w1" if t: "tree_world k w" for k
    unfolding tree_world_def
  proof (intro allI impI)
    fix l j assume n: "in_net k l j"
    then obtain es where es: "services w (nd l j) = Some (service_at k l j es)" using tree_worldD [OF t] by blast
    show "\<exists>es. services w1 (nd l j) = Some (service_at k l j es)"
    proof (cases "nd l j = a")
      case True
      then have "svc = service_at k l j es" using es s by simp
      then obtain es' where "svc1 = service_at k l j es'" using e by (cases "es d") (auto simp: get_entry_service_at)
      then have "put_entry d e1 svc1 = service_at k l j (es'(d \<mapsto> e1))" by (simp add: put_entry_def service_at_def)
      then show ?thesis using True by (auto simp: w1 set_entry_def)
    next
      case False
      then show ?thesis using es by (intro exI [of _ es]) (simp add: w1 set_entry_def)
    qed
  qed
  then show ?thesis using h by (simp add: same_net_def w1 set_entry_def)
qed

lemma with_entry_hosts:
  assumes "a \<in> hosts w"
  shows "\<exists>b w1. with_entry R a d op w = Some (b, w1) \<and> hosts w1 = hosts w"
proof -
  obtain svc where "services w a = Some svc" using assms by (auto simp: hosts_def)
  then obtain b w1 where "with_entry R a d op w = Some (b, w1)" 
    by (cases "get_entry R d svc", cases "op (fst (get_entry R d svc))") (simp add: with_entry_def)
  then show ?thesis using with_entry_same_net [of R a d op w b w1] by (simp add: same_net_def)
qed

text \<open>Two requirements that differ in the allowance only.\<close>

definition like_req :: "'r requirement \<Rightarrow> 'r requirement \<Rightarrow> bool" where
  "like_req q q' \<longleftrightarrow> req_id q' = req_id q \<and> req_region q' = req_region q \<and> req_mode q' = req_mode q"

lemma missing_req_like:
  assumes "missing_regions_req R a q w = Some (b, w1)"
  shows "same_net w w1 \<and> like_req q (snd b)"
proof (cases "req_mode q = ReadOnly")
  case False
  then have e: "with_entry R a (req_id q) (\<lambda>e. let (allowance, unallocated) = get_missing_region R (isLeaf a) e (req_region q) False
      in ((unallocated, q\<lparr>req_allowance := allowance\<rparr>), e)) w = Some (b, w1)" using assms by (simp add: missing_regions_req_def)
  then obtain al where "snd b = q\<lparr>req_allowance := al\<rparr>" by (rule with_entry_cases) (auto split: prod.splits)
  then show ?thesis using with_entry_same_net [OF e] by (simp add: like_req_def)
qed (use assms in \<open>auto simp: missing_regions_req_def like_req_def\<close>)

lemma left_req_like:
  assumes "add_allowance_left_req R a q w = Some (b, w1)"
  shows "same_net w w1 \<and> like_req q b"
proof (cases "req_mode q = ReadOnly")
  case False
  then have e: "with_entry R a (req_id q) (\<lambda>e. let (allowance, e1) = add_left R (req_allowance q) (req_region q) e
      in (q\<lparr>req_allowance := allowance\<rparr>, e1)) w = Some (b, w1)" using assms by (simp add: add_allowance_left_req_def)
  then obtain al where "b = q\<lparr>req_allowance := al\<rparr>" by (rule with_entry_cases) (auto split: prod.splits)
  then show ?thesis using with_entry_same_net [OF e] by (simp add: like_req_def)
qed (use assms in \<open>simp add: add_allowance_left_req_def like_req_def\<close>)

lemma right_req_like:
  assumes "add_allowance_right_req R a q w = Some (b, w1)"
  shows "same_net w w1 \<and> like_req q b"
proof (cases "req_mode q = ReadOnly")
  case False
  then have e: "with_entry R a (req_id q) (\<lambda>e. let (allowance, e1) = add_right R (req_allowance q) (req_region q) e
      in (q\<lparr>req_allowance := allowance\<rparr>, e1)) w = Some (b, w1)" using assms by (simp add: add_allowance_right_req_def)
  then obtain al where "b = q\<lparr>req_allowance := al\<rparr>" by (rule with_entry_cases) (auto split: prod.splits)
  then show ?thesis using with_entry_same_net [OF e] by (simp add: like_req_def)
qed (use assms in \<open>simp add: add_allowance_right_req_def like_req_def\<close>)

definition like_reqs :: "'r task_requirements \<Rightarrow> 'r task_requirements \<Rightarrow> bool" where
  "like_reqs tr tr' \<longleftrightarrow> split_requirements tr' = split_requirements tr \<and>
    list_all2 like_req (process_requirements tr) (process_requirements tr')"

lemma like_req_trans: "like_req p q \<Longrightarrow> like_req q r \<Longrightarrow> like_req p r"
  by (simp add: like_req_def)

lemma like_reqs_refl: "like_reqs tr tr"
  by (simp add: like_reqs_def like_req_def list_all2_refl)

lemma like_reqs_trans: "like_reqs p q \<Longrightarrow> like_reqs q r \<Longrightarrow> like_reqs p r"
  by (simp add: like_reqs_def list_all2_conv_all_nth) (metis like_req_trans)

lemma missing_like:
  assumes "task_get_missing_regions R a tr w = Some (u, tr', w')"
  shows "same_net w w' \<and> like_reqs tr tr'"
proof -
  obtain bs where bs: "map_reqs (missing_regions_req R a) (process_requirements tr) w = Some (bs, w')"
    "tr' = tr\<lparr>process_requirements := map snd bs\<rparr>" using assms by (auto simp: task_get_missing_regions_def)
  have "same_net w w' \<and> list_all2 (\<lambda>q b. like_req q (snd b)) (process_requirements tr) bs"
    by (rule map_reqs_rel [where I = "same_net w", OF _ bs(1)]) (use missing_req_like same_net_trans in blast, simp)
  then show ?thesis by (simp add: bs(2) like_reqs_def list_all2_map2)
qed

lemma left_like:
  assumes "task_add_allowance_left R a tr w = Some (tr', w')"
  shows "same_net w w' \<and> like_reqs tr tr'"
proof -
  obtain bs where bs: "map_reqs (add_allowance_left_req R a) (process_requirements tr) w = Some (bs, w')"
    "tr' = tr\<lparr>process_requirements := bs\<rparr>" using assms by (auto simp: task_add_allowance_left_def)
  have "same_net w w' \<and> list_all2 like_req (process_requirements tr) bs"
    by (rule map_reqs_rel [where I = "same_net w", OF _ bs(1)]) (use left_req_like same_net_trans in blast, simp)
  then show ?thesis by (simp add: bs(2) like_reqs_def)
qed

lemma right_like:
  assumes "task_add_allowance_right R a tr w = Some (tr', w')"
  shows "same_net w w' \<and> like_reqs tr tr'"
proof -
  obtain bs where bs: "map_reqs (add_allowance_right_req R a) (process_requirements tr) w = Some (bs, w')"
    "tr' = tr\<lparr>process_requirements := bs\<rparr>" using assms by (auto simp: task_add_allowance_right_def)
  have "same_net w w' \<and> list_all2 like_req (process_requirements tr) bs"
    by (rule map_reqs_rel [where I = "same_net w", OF _ bs(1)]) (use right_req_like same_net_trans in blast, simp)
  then show ?thesis by (simp add: bs(2) like_reqs_def)
qed

text \<open>On its way a task keeps its requirements, and the network keeps its services and items.\<close>

lemma carried_keeps: "carried R tr0 w0 tr w \<Longrightarrow> same_net w0 w \<and> like_reqs tr0 tr"
proof (induction rule: carried.induct)
  case start
  then show ?case by (simp add: like_reqs_refl)
next
  case (missing tr w a u tr' w')
  then show ?case using missing_like same_net_trans like_reqs_trans by blast
next
  case (left tr w a tr' w')
  then show ?case using left_like same_net_trans like_reqs_trans by blast
next
  case (right tr w a tr' w')
  then show ?case using right_like same_net_trans like_reqs_trans by blast
next
  case (again tr w)
  then show ?case by (simp add: like_reqs_refl)
qed

lemma carried_hosts: "carried R tr0 w0 tr w \<Longrightarrow> hosts w = hosts w0"
  using carried_keeps [of R tr0 w0 tr w] by (simp add: same_net_def)

section \<open>Moving never fails at an existing node\<close>

lemma map_reqs_hosts:
  assumes "\<And>q w. a \<in> hosts w \<Longrightarrow> \<exists>b w1. op q w = Some (b, w1) \<and> hosts w1 = hosts w" and "a \<in> hosts w"
  shows "\<exists>bs w1. map_reqs op qs w = Some (bs, w1)"
proof -
  have "\<exists>bs w1. map_reqs op qs w = Some (bs, w1) \<and> a \<in> hosts w1"
    by (rule map_reqs_total [where I = "\<lambda>w. a \<in> hosts w", OF _ assms(2)]) (use assms(1) in metis)
  then show ?thesis by blast
qed

lemma if_entry_hosts:
  "a \<in> hosts w \<Longrightarrow> \<exists>b w1. (if c then Some (x, w) else with_entry R a d op w) = Some (b, w1) \<and> hosts w1 = hosts w"
  by (cases c) (simp_all add: with_entry_hosts)

lemma carried_left:
  assumes "carried R tr0 w0 tr w" and "a \<in> hosts w"
  shows "\<exists>tr' w'. task_add_allowance_left R a tr w = Some (tr', w') \<and> carried R tr0 w0 tr' w' \<and> hosts w' = hosts w"
proof -
  have "\<exists>b w1. add_allowance_left_req R a q w = Some (b, w1) \<and> hosts w1 = hosts w" if "a \<in> hosts w" for q w
    unfolding add_allowance_left_req_def by (rule if_entry_hosts [OF that])
  from map_reqs_hosts [of a "add_allowance_left_req R a", OF this assms(2)] obtain tr' w'
    where l: "task_add_allowance_left R a tr w = Some (tr', w')" by (force simp: task_add_allowance_left_def)
  then show ?thesis using carried.left [OF assms l] left_like [OF l] by (simp add: same_net_def)
qed

lemma carried_right:
  assumes "carried R tr0 w0 tr w" and "a \<in> hosts w"
  shows "\<exists>tr' w'. task_add_allowance_right R a tr w = Some (tr', w') \<and> carried R tr0 w0 tr' w' \<and> hosts w' = hosts w"
proof -
  have "\<exists>b w1. add_allowance_right_req R a q w = Some (b, w1) \<and> hosts w1 = hosts w" if "a \<in> hosts w" for q w
    unfolding add_allowance_right_req_def by (rule if_entry_hosts [OF that])
  from map_reqs_hosts [of a "add_allowance_right_req R a", OF this assms(2)] obtain tr' w'
    where l: "task_add_allowance_right R a tr w = Some (tr', w')" by (force simp: task_add_allowance_right_def)
  then show ?thesis using carried.right [OF assms l] right_like [OF l] by (simp add: same_net_def)
qed

lemma carried_missing:
  assumes "carried R tr0 w0 tr w" and "a \<in> hosts w"
  shows "\<exists>u tr' w'. task_get_missing_regions R a tr w = Some (u, tr', w') \<and> carried R tr0 w0 tr' w' \<and> hosts w' = hosts w"
proof -
  have "\<exists>b w1. missing_regions_req R a q w = Some (b, w1) \<and> hosts w1 = hosts w" if "a \<in> hosts w" for q w
    unfolding missing_regions_req_def by (rule if_entry_hosts [OF that])
  from map_reqs_hosts [of a "missing_regions_req R a", OF this assms(2)] obtain u tr' w'
    where l: "task_get_missing_regions R a tr w = Some (u, tr', w')" by (force simp: task_get_missing_regions_def)
  then show ?thesis using carried.missing [OF assms l] missing_like [OF l] by (simp add: same_net_def)
qed

section \<open>Fragments\<close>

text \<open>Ranks that have a fragment of an item keep it, while ownership and data move.\<close>

definition has_frag :: "('r, 'f, 'd) world \<Rightarrow> data_item_id \<Rightarrow> nat \<Rightarrow> bool" where
  "has_frag w d r \<longleftrightarrow> frag (items_of w d r) \<noteq> None"

definition keeps_frags :: "('r, 'f, 'd) world \<Rightarrow> ('r, 'f, 'd) world \<Rightarrow> bool" where
  "keeps_frags w w' \<longleftrightarrow> (\<forall>d r. has_frag w d r \<longrightarrow> has_frag w' d r)"

lemma keeps_frags_trans: "keeps_frags w w1 \<Longrightarrow> keeps_frags w1 w2 \<Longrightarrow> keeps_frags w w2"
  by (simp add: keeps_frags_def)

lemma keeps_frags_refl [simp]: "keeps_frags w w"
  by (simp add: keeps_frags_def)

lemma keeps_frags_set_entry [simp]: "keeps_frags w (set_entry a d e svc w)"
  by (simp add: keeps_frags_def has_frag_def set_entry_def)

lemma shared_data_f_frag: "shared_data_f n r its = Some (d, its') \<Longrightarrow> frag (its' i) = frag (its i)"
proof (induction n arbitrary: r d its')
  case 0
  then show ?case by (simp add: shared_data_f.simps [of 0] split: option.splits)
next
  case (Suc n)
  show ?case
  proof (cases "shared (its r)")
    case None
    then obtain res its1 where "shared_data_f n ((r - 1) div 2) its = Some (res, its1)"
      "its' = its1 \<or> its' = its1(r := (its1 r)\<lparr>shared := Some res\<rparr>)"
      using Suc.prems
      by (auto simp: shared_data_f.simps [of "Suc n"] Let_def Option.bind_eq_Some_conv split: if_splits)
    then show ?thesis using Suc.IH by auto
  qed (use Suc.prems in \<open>simp add: shared_data_f.simps [of "Suc n"]\<close>)
qed

lemma get_fragment_frag:
  assumes "get_fragment FO r its = Some (f, its')"
  shows "frag (its' r) \<noteq> None \<and> (frag (its i) \<noteq> None \<longrightarrow> frag (its' i) \<noteq> None)"
proof (cases "frag (its r)")
  case None
  then obtain sd its1 where s: "shared_data_f r r its = Some (sd, its1)"
    "f = f_new FO" "its' = its1(r := (its1 r)\<lparr>frag := Some (f_new FO)\<rparr>)"
    using assms shared_data_f_frag [of r r its _ _ r]
    by (fastforce simp: get_fragment_def shared_data_def Let_def Option.bind_eq_Some_conv split: if_splits)
  then show ?thesis using shared_data_f_frag [OF s(1), of i] by simp
qed (use assms in \<open>simp add: get_fragment_def\<close>)

text \<open>Every rank that an acquisition names has a fragment when the ownership has carried.\<close>

definition frags_of :: "('r, 'f, 'd) world \<Rightarrow> data_item_id \<Rightarrow> 'r location_info \<Rightarrow> bool" where
  "frags_of w d info \<longleftrightarrow> (\<forall>p \<in> set info. has_frag w d (unat (fst p)))"

lemma frags_of_Nil [simp]: "frags_of w d []"
  by (simp add: frags_of_def)

lemma frags_of_keeps: "frags_of w d info \<Longrightarrow> keeps_frags w w' \<Longrightarrow> frags_of w' d info"
  by (simp add: frags_of_def keeps_frags_def)

lemma frags_of_add_part: "has_frag w d (unat r) \<Longrightarrow> frags_of w d info \<Longrightarrow> frags_of w d (add_part R r p info)"
proof -
  have "frags_of w d info' \<longleftrightarrow> (\<forall>r \<in> set (map fst info'). has_frag w d (unat r))" for info'
    by (auto simp: frags_of_def)
  then show "has_frag w d (unat r) \<Longrightarrow> frags_of w d info \<Longrightarrow> frags_of w d (add_part R r p info)"
    by (simp only: keys_add_part ball_simps)
qed

lemma frags_of_merge: "frags_of w d i1 \<Longrightarrow> frags_of w d i2 \<Longrightarrow> frags_of w d (merge_infos R [i1, i2])"
proof -
  have "frags_of w d acc \<Longrightarrow> frags_of w d ps \<Longrightarrow> frags_of w d (foldl (\<lambda>info (r, p). add_part R r p info) acc ps)" for acc ps
  proof (induction ps arbitrary: acc)
    case (Cons p ps)
    obtain r q where p: "p = (r, q)" by (cases p)
    have "frags_of w d (add_part R r q acc)" using Cons.prems by (intro frags_of_add_part) (simp_all add: p frags_of_def)
    moreover have "frags_of w d ps" using Cons.prems(2) by (simp add: frags_of_def)
    ultimately show ?case using Cons.IH by (simp add: p)
  qed simp
  from this [of "[]" "i1 @ i2"] show "frags_of w d i1 \<Longrightarrow> frags_of w d i2 \<Longrightarrow> frags_of w d (merge_infos R [i1, i2])"
    by (auto simp: merge_infos_def frags_of_def)
qed

lemma collect_leaf_frags:
  assumes "collect_leaf R FO a d m svc w = Some (info, w')"
  shows "keeps_frags w w' \<and> frags_of w' d info"
proof -
  obtain e svc1 where e: "get_entry R d svc = (e, svc1)" by (cases "get_entry R d svc")
  define rank where "rank = unat (getRank (here svc))"
  define w1 where "w1 = set_entry a d (e\<lparr>full := r_diff R (full e) m\<rparr>) svc1 w"
  define its1 where "its1 = (items_of w1 d)(rank := (items_of w1 d rank)\<lparr>exclusive := r_diff R (exclusive (items_of w1 d rank)) m\<rparr>)"
  obtain f its2 where f: "get_fragment FO rank its1 = Some (f, its2)" "w' = w1\<lparr>items_of := (items_of w1)(d := its2)\<rparr>"
    and info: "info = [] \<or> info = add_part R (getRank (here svc)) m []"
    using assms by (auto simp: collect_leaf_def e rank_def w1_def its1_def Let_def)
  have i1: "frag (its1 i) = frag (items_of w d i)" for i by (simp add: its1_def w1_def set_entry_def)
  have o: "items_of w1 = items_of w" by (simp add: w1_def set_entry_def)
  have "has_frag w' d' r" if "has_frag w d' r" for d' r
    using that get_fragment_frag [OF f(1), of r] i1 o by (cases "d' = d") (auto simp: has_frag_def f(2))
  moreover have "has_frag w' d rank" using get_fragment_frag [OF f(1)] by (simp add: has_frag_def f(2))
  ultimately show ?thesis using info by (auto simp: keeps_frags_def rank_def frags_of_def)
qed

lemma collect_f_frags: "collect_f R FO n a d m w = Some (info, w') \<Longrightarrow> keeps_frags w w' \<and> frags_of w' d info"
proof (induction n arbitrary: a m w info w')
  case 0
  then obtain svc where "services w a = Some svc" "isLeaf (here svc)"
    by (auto simp: collect_f.simps [of _ _ 0] Option.bind_eq_Some_conv split: if_splits)
  then show ?case using 0 collect_leaf_frags [of R FO a d m svc w info w'] by (simp add: collect_f.simps [of _ _ 0])
next
  case (Suc n)
  obtain svc where svc: "services w a = Some svc"
    using Suc.prems by (auto simp: collect_f.simps [of _ _ "Suc n"] Option.bind_eq_Some_conv)
  show ?case
  proof (cases "isLeaf (here svc)")
    case True
    then show ?thesis using Suc.prems svc collect_leaf_frags [of R FO a d m svc w info w'] by (simp add: collect_f.simps [of _ _ "Suc n"])
  next
    case False
    obtain e svc1 where e: "get_entry R d svc = (e, svc1)" by (cases "get_entry R d svc")
    obtain lp rp e1 where cp: "collect_parts R m e = (lp, rp, e1)" by (cases "collect_parts R m e")
    define w1 where "w1 = set_entry a d e1 svc1 w"
    obtain i1 w2 where r: "(if r_empty R rp then Some ([], w1) else if right_id svc = None then None
        else collect_f R FO n (target_of (right_id svc) a (right_node svc)) d rp w1) = Some (i1, w2)"
      using Suc.prems svc False e cp
      by (auto simp: collect_f.simps [of _ _ "Suc n"] Let_def w1_def [symmetric] Option.bind_eq_Some_conv split: if_splits)
    obtain i2 where lf: "(if r_empty R lp then Some ([], w2)
        else collect_f R FO n (target_of None a (left_node svc)) d lp w2) = Some (i2, w')" and info: "info = merge_infos R [i1, i2]"
      using Suc.prems r unfolding collect_f.simps [of _ _ "Suc n"] svc Option.bind.simps if_not_P [OF False] e cp prod.case nat.case Let_def w1_def [symmetric]
      by (auto simp: Option.bind_eq_Some_conv)
    have 1: "keeps_frags w1 w2 \<and> frags_of w2 d i1" using r Suc.IH by (cases "r_empty R rp") (auto split: if_splits)
    have 2: "keeps_frags w2 w' \<and> frags_of w' d i2" using lf Suc.IH by (cases "r_empty R lp") auto
    have "keeps_frags w w1" by (simp add: w1_def)
    then show ?thesis using 1 2 keeps_frags_trans frags_of_keeps frags_of_merge unfolding info by blast
  qed
qed

lemma acquire_for_f_frags: "acquire_for_f R FO n a c d m w = Some (info, w') \<Longrightarrow> keeps_frags w w' \<and> frags_of w' d info"
proof (induction n arbitrary: a c m w info w' rule: less_induct)
  case (less n)
  obtain svc where svc: "services w a = Some svc"
    using less.prems by (auto simp: acquire_for_f.simps [of _ _ n] Option.bind_eq_Some_conv)
  obtain e svc1 where e: "get_entry R d svc = (e, svc1)" by (cases "get_entry R d svc")
  define left where "left \<longleftrightarrow> c = right_node svc"
  obtain part m1 e1 where t: "take_over R left m e = (part, m1, e1)" by (cases "take_over R left m e")
  define w1 where "w1 = set_entry a d e1 svc1 w"
  let ?up = "if r_empty R m1 \<or> is_root_node svc then Some ([], w1)
    else (case n of 0 \<Rightarrow> None | Suc n \<Rightarrow> acquire_for_f R FO n (target_of (parent_id svc) a (parent_node svc)) (here svc) d m1 w1)"
  let ?down = "\<lambda>w2. if r_empty R part then Some ([], w2) else collect_child_ownerships R FO
    (if left then target_of None a (left_node svc) else target_of (right_id svc) a (right_node svc)) d part w2"
  have eq: "acquire_for_f R FO n a c d m w = do {(i1, w2) \<leftarrow> ?up; (i2, w3) \<leftarrow> ?down w2; Some (merge_infos R [i1, i2], w3)}"
    unfolding acquire_for_f.simps [of _ _ n] svc Option.bind.simps e prod.case Let_def left_def [symmetric] t w1_def [symmetric] ..
  obtain i1 w2 where u: "?up = Some (i1, w2)"
    using less.prems unfolding eq by (auto simp: Option.bind_eq_Some_conv)
  obtain i2 where dn: "?down w2 = Some (i2, w')" and info: "info = merge_infos R [i1, i2]"
    using less.prems unfolding eq u by (auto simp: Option.bind_eq_Some_conv)
  have 1: "keeps_frags w1 w2 \<and> frags_of w2 d i1"
  proof (cases "r_empty R m1 \<or> is_root_node svc")
    case False
    then obtain n' where "n = Suc n'" using u by (cases n) auto
    then show ?thesis using u False less.IH [of n'] by auto
  qed (use u in auto)
  have 2: "keeps_frags w2 w' \<and> frags_of w' d i2"
  proof (cases "r_empty R part")
    case False
    with dn show ?thesis unfolding collect_child_ownerships_def by (simp add: collect_f_frags)
  qed (use dn in auto)
  have "keeps_frags w w1" by (simp add: w1_def)
  then show ?case using 1 2 keeps_frags_trans frags_of_keeps frags_of_merge unfolding info by blast
qed

lemma acquire_ownership_frags:
  assumes "acquire_ownership R FO a d m w = Some (info, w')"
  shows "keeps_frags w w' \<and> frags_of w' d info"
proof -
  obtain svc where svc: "services w a = Some svc"
    using assms by (auto simp: acquire_ownership_def Option.bind_eq_Some_conv)
  obtain e svc1 where e: "get_entry R d svc = (e, svc1)" by (cases "get_entry R d svc")
  define w1 where "w1 = set_entry a d (e\<lparr>full := r_merge R (full e) m\<rparr>) svc1 w"
  have eq: "(if is_root_node svc then Some ([], w1)
      else acquire_ownership_for R FO (target_of (parent_id svc) a (parent_node svc)) (here svc) d m w1) = Some (info, w')"
    using assms unfolding acquire_ownership_def svc Option.bind.simps e prod.case Let_def w1_def .
  have "keeps_frags w w1" by (simp add: w1_def)
  show ?thesis
  proof (cases "is_root_node svc")
    case False
    then have "keeps_frags w1 w' \<and> frags_of w' d info"
      using eq acquire_for_f_frags unfolding acquire_ownership_for_def by (simp add: acquire_for_f_frags)
    then show ?thesis using keeps_frags_trans [OF \<open>keeps_frags w w1\<close>] by blast
  qed (use eq \<open>keeps_frags w w1\<close> in auto)
qed

text \<open>So the data can be transferred, when the receiver has a fragment too.\<close>

lemma transfer_total:
  assumes "has_frag w d dst" and "\<forall>p \<in> set ps. has_frag w d (fst p)"
  shows "\<exists>w'. transfer_parts R FO d migrate dst ps w = Some w' \<and> keeps_frags w w'"
  using assms
proof (induction ps arbitrary: w)
  case (Cons p ps)
  have "\<exists>w1. transfer_part R FO d migrate dst p w = Some w1 \<and> keeps_frags w w1"
  proof (cases "fst p = dst")
    case True
    then show ?thesis by (cases p) (simp add: transfer_part_def)
  next
    case False
    obtain src region where p: "p = (src, region)" by (cases p)
    obtain f where f: "frag (items_of w d src) = Some f" using Cons.prems(2) by (auto simp: p has_frag_def)
    obtain data si where s: "view_save R FO region migrate (items_of w d src) = Some (data, si)" "frag si \<noteq> None"
      using f by (cases "r_sub R region (f_covered FO f)"; cases migrate) (simp_all add: view_save_def)
    obtain g where g: "frag (items_of w d dst) = Some g" using Cons.prems(1) by (auto simp: has_frag_def)
    obtain di where l: "view_load FO data (items_of w d dst) = Some di" "frag di \<noteq> None"
      using g by (cases data) (auto simp: view_load_def)
    have "transfer_part R FO d migrate dst p w = Some (w\<lparr>items_of := (items_of w)(d := ((items_of w d)(src := si))(dst := di))\<rparr>)"
      using s(1) l(1) False by (simp add: p transfer_part_def Let_def)
    moreover have "keeps_frags w (w\<lparr>items_of := (items_of w)(d := ((items_of w d)(src := si))(dst := di))\<rparr>)"
      using s(2) l(2) by (simp add: keeps_frags_def has_frag_def)
    ultimately show ?thesis by blast
  qed
  then obtain w1 where w1: "transfer_part R FO d migrate dst p w = Some w1" "keeps_frags w w1" by blast
  have "has_frag w1 d dst" "\<forall>p \<in> set ps. has_frag w1 d (fst p)" using w1(2) Cons.prems by (auto simp: keeps_frags_def)
  from Cons.IH [OF this] w1 keeps_frags_trans show ?case by (auto intro: keeps_frags_trans)
qed simp

section \<open>Write requirements are always acquired\<close>

text \<open>The items of the requirements exist, and the network is one of 2^k localities.\<close>

definition items_ready :: "nat \<Rightarrow> data_item_id set \<Rightarrow> ('r, 'f, 'd) world \<Rightarrow> bool" where
  "items_ready k D w \<longleftrightarrow> tree_world k w \<and> (\<forall>d \<in> D. shared (items_of w d 0) \<noteq> None)"

lemma items_ready_keeps: "items_ready k D w \<Longrightarrow> keeps R E k d w w' \<Longrightarrow> items_ready k D w'"
  unfolding items_ready_def keeps_def by metis

lemma resize_frag:
  assumes "resize_fragment R FO rank d region excl w = Some w'"
  shows "keeps_frags w w' \<and> has_frag w' d rank"
proof -
  obtain f its where f: "get_fragment FO rank (items_of w d) = Some (f, its)"
    using assms by (auto simp: resize_fragment_def Option.bind_eq_Some_conv)
  define it where "it = (its rank)\<lparr>frag := Some (if r_sub R region (f_covered FO f) then f
    else f_resize FO f (r_merge R (f_covered FO f) region))\<rparr>"
  have "w' = w\<lparr>items_of := (items_of w)(d := its(rank :=
      (if excl then it\<lparr>exclusive := r_merge R (exclusive it) region\<rparr> else it)))\<rparr>"
    using assms by (auto simp: resize_fragment_def f Let_def it_def split: if_splits)
  moreover have "frag (if excl then it\<lparr>exclusive := r_merge R (exclusive it) region\<rparr> else it) \<noteq> None" by (simp add: it_def)
  ultimately obtain it' where w': "w' = w\<lparr>items_of := (items_of w)(d := its(rank := it'))\<rparr>" "frag it' \<noteq> None" by blast
  have "frag (items_of w d i) \<noteq> None \<longrightarrow> frag (its i) \<noteq> None" for i using get_fragment_frag [OF f, of i] by blast
  then show ?thesis using w' by (auto simp: keeps_frags_def has_frag_def)
qed

lemma allowance_ready:
  assumes R: "region_ok R E" and k: "k \<le> 30" and net: "in_net k l j" and w: "items_ready k D w" and d: "req_id q \<in> D"
  shows "\<exists>w'. add_allowance_req R FO (nd l j) q w = Some w' \<and> items_ready k D w' \<and> keeps_frags w w' \<and>
    (l = 0 \<longrightarrow> has_frag w' (req_id q) j)"
proof -
  have t: "tree_world k w" "shared (items_of w (req_id q) 0) \<noteq> None" using w d by (auto simp: items_ready_def)
  obtain w' where w': "add_allowance_req R FO (nd l j) q w = Some w'" "keeps R E k (req_id q) w w'"
    using allowance_sim [OF R k net t(1), of q FO] t(2) by blast
  obtain w1 where w1: "\<exists>b op. with_entry R (nd l j) (req_id q) op w = Some (b :: unit, w1)"
    "w' = w1 \<and> \<not> isLeaf (nd l j) \<or> isLeaf (nd l j) \<and> (\<exists>x. resize_fragment R FO (unat (getRank (nd l j))) (req_id q) (req_region q) x w1 = Some w')"
    using w'(1) by (auto simp: add_allowance_req_def Option.bind_eq_Some_conv split: if_splits)
  have f: "keeps_frags w w1" using w1(1) with_entry_same_net by (fastforce simp: same_net_def keeps_frags_def has_frag_def)
  have r: "keeps_frags w1 w' \<and> has_frag w' (req_id q) (unat (getRank (nd l j)))" if lf: "isLeaf (nd l j)"
  proof -
    obtain x where "resize_fragment R FO (unat (getRank (nd l j))) (req_id q) (req_region q) x w1 = Some w'" using w1(2) lf by blast
    then show ?thesis by (rule resize_frag)
  qed
  have "keeps_frags w w'" using w1(2) f r keeps_frags_trans by blast
  moreover have "has_frag w' (req_id q) j" if "l = 0"
    using r isLeaf_nd [of l j] unat_rank_nd [OF net k] that by simp
  ultimately show ?thesis using w' items_ready_keeps [OF w w'(2)] by blast
qed

lemma acquire_ready:
  assumes R: "region_ok R E" and k: "k \<le> 30" and j: "j < 2 ^ k" and w: "items_ready k D w" and d: "req_id q \<in> D"
    and rw: "req_mode q = ReadWrite" and f: "\<forall>d \<in> D. has_frag w d j"
  shows "\<exists>w'. acquire_req R FO fuel (nd 0 j) q w = Some w' \<and> items_ready k D w' \<and> (\<forall>d \<in> D. has_frag w' d j)"
proof -
  let ?d = "req_id q"
  have net: "in_net k 0 j" using j by (simp add: in_net_def)
  have t: "tree_world k w" "shared (items_of w ?d 0) \<noteq> None" using w d by (auto simp: items_ready_def)
  obtain es where es: "services w (nd 0 j) = Some (service_at k 0 j es)" using tree_worldD [OF t(1) net] by blast
  define m where "m = r_diff R (req_region q) (full (entry_at R w ?d (nd 0 j)))"
  define wc where "wc = update_caches R ?d m (getRank (nd 0 j)) w"
  have eq: "acquire_req R FO fuel (nd 0 j) q w = (if r_empty R m then Some w
      else do {(info, w1) \<leftarrow> acquire_ownership R FO (nd 0 j) ?d m wc;
        transfer_parts R FO ?d True (unat (getRank (nd 0 j))) (info_parts info) w1})"
    using rw es by (simp add: acquire_req_def m_def wc_def Let_def)
  have wc: "tree_world k wc" "items_of wc = items_of w" using update_caches_sim [OF t(1)] by (simp_all add: wc_def)
  obtain info w1 where a: "acquire_ownership R FO (nd 0 j) ?d m wc = Some (info, w1)" "keeps R E k ?d wc w1"
    using acquire_sim [OF R k j wc(1), of ?d FO m] t(2) wc(2) by auto
  have fr: "keeps_frags w w1" "frags_of w1 ?d info"
    using acquire_ownership_frags [OF a(1)] wc(2) by (simp_all add: keeps_frags_def has_frag_def)
  have rank: "unat (getRank (nd 0 j)) = j" using unat_rank_nd [OF net k] by simp
  obtain w2 where tr: "transfer_parts R FO ?d True j (info_parts info) w1 = Some w2" "keeps_frags w1 w2"
  proof -
    have "has_frag w1 ?d j" using fr(1) f d by (simp add: keeps_frags_def)
    moreover have "\<forall>p \<in> set (info_parts info). has_frag w1 ?d (fst p)"
      using fr(2) by (auto simp: frags_of_def info_parts_def split: prod.splits)
    ultimately show thesis using transfer_total [of w1 ?d j "info_parts info" R FO True] that by blast
  qed
  have "items_ready k D wc" using w wc by (simp add: items_ready_def)
  then have r1: "items_ready k D w1" using a(2) by (rule items_ready_keeps)
  then have "tree_world k w1" "shared (items_of w1 ?d 0) \<noteq> None" using d by (simp_all add: items_ready_def)
  with tr(1) have "keeps R E k ?d w1 w2" using transfer_keeps by blast
  with r1 have "items_ready k D w2" by (rule items_ready_keeps)
  moreover have "\<forall>d \<in> D. has_frag w2 d j" using f fr(1) tr(2) by (simp add: keeps_frags_def)
  ultimately show ?thesis using eq a(1) tr(1) rank w f by (cases "r_empty R m") auto
qed

lemma allowances_ready:
  assumes R: "region_ok R E" and k: "k \<le> 30" and net: "in_net k l j"
  shows "items_ready k D w \<Longrightarrow> req_id ` set qs \<subseteq> D \<Longrightarrow>
    \<exists>u w'. map_reqs (\<lambda>q w. map_option (Pair ()) (add_allowance_req R FO (nd l j) q w)) qs w = Some (u, w') \<and>
      items_ready k D w' \<and> keeps_frags w w' \<and> (l = 0 \<longrightarrow> (\<forall>q \<in> set qs. has_frag w' (req_id q) j))"
proof (induction qs arbitrary: w)
  case (Cons q qs)
  obtain w1 where w1: "add_allowance_req R FO (nd l j) q w = Some w1" "items_ready k D w1" "keeps_frags w w1"
    "l = 0 \<longrightarrow> has_frag w1 (req_id q) j"
    using allowance_ready [OF R k net Cons.prems(1), of q FO] Cons.prems(2) by auto
  obtain u w2 where w2: "map_reqs (\<lambda>q w. map_option (Pair ()) (add_allowance_req R FO (nd l j) q w)) qs w1 = Some (u, w2)"
    "items_ready k D w2" "keeps_frags w1 w2" "l = 0 \<longrightarrow> (\<forall>q \<in> set qs. has_frag w2 (req_id q) j)"
    using Cons.IH [OF w1(2)] Cons.prems(2) by auto
  have "keeps_frags w w2" using w1(3) w2(3) by (rule keeps_frags_trans)
  moreover have "l = 0 \<longrightarrow> has_frag w2 (req_id q) j" using w1(4) w2(3) by (auto simp: keeps_frags_def)
  ultimately show ?case using w1(1) w2 by auto
qed simp

lemma acquires_network:
  assumes R: "region_ok R E" and k: "k \<le> 30" and net: "in_net k l j" and w0: "tree_world k w0"
    and reqs: "\<And>q. q \<in> set (process_requirements tr0) \<Longrightarrow> req_mode q = ReadWrite \<and> shared (items_of w0 (req_id q) 0) \<noteq> None"
    and split: "can_split \<Longrightarrow> split_requirements tr0 = []"
  shows "acquires R FO fuel can_split tr0 w0 (nd l j)"
  unfolding acquires_def
proof (intro allI impI)
  fix tr w assume "carried R tr0 w0 tr w"
  then have w: "same_net w0 w" "like_reqs tr0 tr" using carried_keeps by blast+
  define D where "D = req_id ` set (process_requirements tr0)"
  have like: "length (process_requirements tr) = length (process_requirements tr0)"
    "\<And>i. i < length (process_requirements tr0) \<Longrightarrow> like_req (process_requirements tr0 ! i) (process_requirements tr ! i)"
    using w(2) by (simp_all add: like_reqs_def list_all2_conv_all_nth)
  have "map req_id (process_requirements tr) = map req_id (process_requirements tr0)"
    using like by (intro nth_equalityI) (simp_all add: like_req_def)
  then have ids: "req_id ` set (process_requirements tr) = D" unfolding D_def by (metis list.set_map)
  have rw: "req_mode q = ReadWrite" if "q \<in> set (process_requirements tr)" for q
    using that like reqs nth_mem unfolding in_set_conv_nth like_req_def by metis
  have ready: "items_ready k D w"
    using w(1) w0 reqs unfolding items_ready_def same_net_def D_def by auto
  obtain u w1 where w1: "map_reqs (\<lambda>q w. map_option (Pair ()) (add_allowance_req R FO (nd l j) q w)) (process_requirements tr) w = Some (u, w1)"
    "items_ready k D w1" "l = 0 \<longrightarrow> (\<forall>q \<in> set (process_requirements tr). has_frag w1 (req_id q) j)"
    using allowances_ready [OF R k net ready, of "process_requirements tr" FO] ids by auto
  have add: "task_add_allowance R FO (nd l j) tr w = Some w1" using w1(1) by (simp add: task_add_allowance_def)
  have leaf: "isLeaf (nd l j) \<longleftrightarrow> l = 0" using net k by (intro isLeaf_nd) (simp add: in_net_def)
  have "task_acquire_process R FO fuel (nd l j) tr w1 \<noteq> None" if l0: "l = 0"
  proof -
    let ?I = "\<lambda>w. items_ready k D w \<and> (\<forall>d \<in> D. has_frag w d j)"
    have j: "j < 2 ^ k" using net l0 by (simp add: in_net_def)
    have "?I w1" using w1(2,3) l0 ids by blast
    moreover have "\<exists>b v1. map_option (Pair ()) (acquire_req R FO fuel (nd l j) q v) = Some (b, v1) \<and> ?I v1"
      if q: "q \<in> set (process_requirements tr)" and v: "?I v" for q v
      using acquire_ready [OF R k j conjunct1 [OF v] _ rw [OF q] conjunct2 [OF v], of FO fuel] ids q l0 by fastforce
    ultimately obtain bs w2 where "map_reqs (\<lambda>q w. map_option (Pair ()) (acquire_req R FO fuel (nd l j) q w)) (process_requirements tr) w1 = Some (bs, w2)"
      using map_reqs_total [where I = ?I and op = "\<lambda>q w. map_option (Pair ()) (acquire_req R FO fuel (nd l j) q w)" and qs = "process_requirements tr" and w = w1] by blast
    then show ?thesis by (simp add: task_acquire_process_def acquire_reqs_def)
  qed
  moreover have "task_acquire_split R FO fuel (nd l j) tr w1 \<noteq> None" if "can_split"
    using split [OF that] w(2) by (simp add: task_acquire_split_def acquire_reqs_def like_reqs_def)
  ultimately show "(can_split \<longrightarrow> Option.bind (task_add_allowance R FO (nd l j) tr w) (task_acquire_split R FO fuel (nd l j) tr) \<noteq> None) \<and>
      (isLeaf (nd l j) \<longrightarrow> Option.bind (task_add_allowance R FO (nd l j) tr w) (task_acquire_process R FO fuel (nd l j) tr) \<noteq> None)"
    unfolding add Option.bind.simps using leaf by blast
qed

end
