(* ===== verification/Scheduler.thy ===== *)
theory Scheduler
  imports Global_Optimizer Rebalance Acquisition
begin

text \<open>
  The scheduler of the runtime: the scheduling policies behind their common interface
  (allscale/schedule\_policy.hpp, src/schedule\_policy.cpp), the scheduler service of every virtual node
  (src/scheduler.cpp), and the hand-over of a task to its locality (schedule\_local of
  src/components/scheduler\_component.cpp).  The calls between the services of different localities are
  carried out in the order of the code.  None is undefined behaviour, an access to a service that does
  not exist, or a fuel that is used up; what is proved about schedule is that none of them happens, and that its
  result is the end of the task at its target.
\<close>

section \<open>Policies\<close>

datatype scheduling_policy = Tree_policy tree_scheduling_policy | Random_policy HierarchyAddress

text \<open>random\_scheduling\_policy, with the root as its only member that is read.  The generator is a
  sequence of the comparisons r < 0.5 of its values, of which i have been used.\<close>

definition layer_int :: "HierarchyAddress \<Rightarrow> int" where
  "layer_int a = sint (getLayer a)"

definition random_is_involved :: "'p path_ops \<Rightarrow> HierarchyAddress \<Rightarrow> HierarchyAddress \<Rightarrow> 'p \<Rightarrow> bool" where
  "random_is_involved P rt addr p \<longleftrightarrow>
     (if addr = rt then True else layer_int rt - layer_int addr \<le> int (pt_len P p) - 3)"

definition random_decide ::
  "'p path_ops \<Rightarrow> (nat \<Rightarrow> bool) \<Rightarrow> HierarchyAddress \<Rightarrow> HierarchyAddress \<Rightarrow> 'p \<Rightarrow> nat \<Rightarrow> schedule_decision \<times> nat" where
  "random_decide P coins rt addr p i =
    (if pt_len P p < 3 then (sd_stay, i)
     else if int (pt_len P p) - 3 = layer_int rt - layer_int addr then (sd_stay, i)
     else if coins i then (sd_left, i + 1) else (sd_right, i + 1))"

text \<open>The virtual functions of scheduling\_policy.\<close>

definition policy_is_involved :: "'p path_ops \<Rightarrow> scheduling_policy \<Rightarrow> HierarchyAddress \<Rightarrow> 'p \<Rightarrow> bool option" where
  "policy_is_involved P pol addr p =
    (case pol of Tree_policy t \<Rightarrow> is_involved P t addr p | Random_policy r \<Rightarrow> Some (random_is_involved P r addr p))"

definition policy_decide ::
  "'p path_ops \<Rightarrow> (nat \<Rightarrow> bool) \<Rightarrow> scheduling_policy \<Rightarrow> HierarchyAddress \<Rightarrow> 'p \<Rightarrow> nat \<Rightarrow> (schedule_decision \<times> nat) option" where
  "policy_decide P coins pol addr p i =
    (case pol of
       Tree_policy t \<Rightarrow> map_option (\<lambda>d. (d, i)) (decide P t addr p)
     | Random_policy r \<Rightarrow> Some (random_decide P coins r addr p i))"

definition policy_check_target :: "'p path_ops \<Rightarrow> scheduling_policy \<Rightarrow> HierarchyAddress \<Rightarrow> 'p \<Rightarrow> bool option" where
  "policy_check_target P pol addr p =
    (case pol of Tree_policy t \<Rightarrow> check_target P t addr p | Random_policy _ \<Rightarrow> Some True)"

section \<open>The service\<close>

datatype policy_value = static_policy | dynamic_policy | tuned_policy | ino_policy | random_policy | truly_random_policy

definition policy_name :: "policy_value \<Rightarrow> string" where
  "policy_name v = (case v of
     static_policy \<Rightarrow> ''uniform'' | dynamic_policy \<Rightarrow> ''balanced'' | tuned_policy \<Rightarrow> ''tuned''
   | ino_policy \<Rightarrow> ''ino'' | random_policy \<Rightarrow> ''random'' | _ \<Rightarrow> ''unknown'')"

text \<open>create\_policy for N localities.\<close>

definition create_policy :: "'p path_ops \<Rightarrow> nat \<Rightarrow> string \<Rightarrow> (policy_value \<times> scheduling_policy) option" where
  "create_policy P N policy =
    (let uniform = (\<lambda>v. map_option (\<lambda>t. (v, Tree_policy t)) (create_uniform_default P N)) in
     if policy = ''uniform'' then uniform static_policy
     else if policy = ''balanced'' then uniform dynamic_policy
     else if policy = ''tuned'' then uniform tuned_policy
     else if policy = ''ino'' then uniform ino_policy
     else if policy = ''random''
       then map_option (\<lambda>r. (random_policy, Random_policy r)) (getRootOfNetworkSize (word_of_nat N))
     else uniform static_policy)"

definition create_policy_env :: "'p path_ops \<Rightarrow> nat \<Rightarrow> (string \<Rightarrow> string option) \<Rightarrow> (policy_value \<times> scheduling_policy) option" where
  "create_policy_env P N env =
    (case env ''ALLSCALE_SCHEDULING_POLICY'' of Some p \<Rightarrow> create_policy P N p | None \<Rightarrow> create_policy P N ''uniform'')"

record 'f scheduler_service =
  sv_value :: policy_value
  sv_policy :: scheduling_policy
  sv_here :: HierarchyAddress
  sv_root :: HierarchyAddress
  sv_parent :: HierarchyAddress
  sv_left :: HierarchyAddress
  sv_right :: HierarchyAddress
  sv_parent_id :: "size_t option"
  sv_right_id :: "size_t option"
  sv_is_root :: bool
  sv_optimizer :: "'f global_optimizer"

text \<open>The constructor at the node addr of the locality rank; an invalid id is None.\<close>

definition new_scheduler_service ::
  "'p path_ops \<Rightarrow> nat \<Rightarrow> (string \<Rightarrow> string option) \<Rightarrow> 'f global_optimizer \<Rightarrow> size_t \<Rightarrow> HierarchyAddress \<Rightarrow>
   'f scheduler_service option" where
  "new_scheduler_service P N env optimizer rank addr = do {
    (v, pol) \<leftarrow> create_policy_env P N env;
    rt \<leftarrow> getRootOfNetworkSize (word_of_nat N);
    let par = getParent addr;
    let lft = (if isLeaf addr then HierarchyAddress 0 0 else getLeftChild addr);
    let rgt = (if isLeaf addr then HierarchyAddress 0 0
                 else if word_of_nat N \<le> getRank (getRightChild addr) then lft else getRightChild addr);
    Some \<lparr>sv_value = v, sv_policy = pol, sv_here = addr, sv_root = rt, sv_parent = par, sv_left = lft,
      sv_right = rgt, sv_parent_id = (if getRank par \<noteq> rank then Some (getRank par) else None),
      sv_right_id = (if \<not> isLeaf addr \<and> getRank rgt \<noteq> rank then Some (getRank rgt) else None),
      sv_is_root = (addr = rt), sv_optimizer = optimizer\<rparr>}"

definition sv_policy_name :: "'f scheduler_service \<Rightarrow> string" where
  "sv_policy_name s = policy_name (sv_value s)"

text \<open>The cast of a policy to a tree policy is undefined for the random policy.\<close>

definition as_tree :: "scheduling_policy \<Rightarrow> tree_scheduling_policy option" where
  "as_tree pol = (case pol of Tree_policy t \<Rightarrow> Some t | Random_policy _ \<Rightarrow> None)"

definition sv_apply_new_mapping :: "'p path_ops \<Rightarrow> nat list \<Rightarrow> 'f scheduler_service \<Rightarrow> 'f scheduler_service option" where
  "sv_apply_new_mapping P mapping s = do {
    old \<leftarrow> as_tree (sv_policy s);
    new \<leftarrow> from_mapping P old mapping;
    Some (s\<lparr>sv_policy := Tree_policy new\<rparr>)}"

definition sv_toggle_node :: "'p path_ops \<Rightarrow> nat \<Rightarrow> 'f scheduler_service \<Rightarrow> 'f scheduler_service option" where
  "sv_toggle_node P locality s = do {
    let g = sv_optimizer s;
    b \<leftarrow> at_opt (active_nodes g) locality;
    let g = g\<lparr>active_nodes := (active_nodes g)[locality := \<not> b]\<rparr>;
    t \<leftarrow> create_uniform_mask_default P (active_nodes g);
    Some (s\<lparr>sv_value := (if sv_value s = random_policy then static_policy else sv_value s),
      sv_policy := Tree_policy t, sv_optimizer := g\<rparr>)}"

definition sv_set_exponent ::
  "('f tuning_objective \<Rightarrow> 'f tuning_objective) \<Rightarrow> 'f scheduler_service \<Rightarrow> 'f scheduler_service" where
  "sv_set_exponent change s = s\<lparr>sv_optimizer := (sv_optimizer s)\<lparr>go_objective := change (go_objective (sv_optimizer s))\<rparr>\<rparr>"

definition sv_set_speed_exponent :: "'f \<Rightarrow> 'f scheduler_service \<Rightarrow> 'f scheduler_service" where
  "sv_set_speed_exponent e = sv_set_exponent (\<lambda>obj. obj\<lparr>speed_exponent := e\<rparr>)"

definition sv_set_efficiency_exponent :: "'f \<Rightarrow> 'f scheduler_service \<Rightarrow> 'f scheduler_service" where
  "sv_set_efficiency_exponent e = sv_set_exponent (\<lambda>obj. obj\<lparr>efficiency_exponent := e\<rparr>)"

definition sv_set_power_exponent :: "'f \<Rightarrow> 'f scheduler_service \<Rightarrow> 'f scheduler_service" where
  "sv_set_power_exponent e = sv_set_exponent (\<lambda>obj. obj\<lparr>power_exponent := e\<rparr>)"

definition sv_get_optimizer_exponents :: "'f scheduler_service \<Rightarrow> 'f \<times> 'f \<times> 'f" where
  "sv_get_optimizer_exponents s =
    (let obj = go_objective (sv_optimizer s) in (speed_exponent obj, efficiency_exponent obj, power_exponent obj))"

definition sv_set_policy :: "'p path_ops \<Rightarrow> nat \<Rightarrow> string \<Rightarrow> 'f scheduler_service \<Rightarrow> 'f scheduler_service option" where
  "sv_set_policy P N policy s = do {
    (v, pol) \<leftarrow> create_policy P N policy;
    let g = sv_optimizer s;
    Some (s\<lparr>sv_value := v, sv_policy := pol,
      sv_optimizer := g\<lparr>active_nodes := replicate (length (active_nodes g)) True\<rparr>\<rparr>)}"

definition sv_update_policy ::
  "'p path_ops \<Rightarrow> 'f farith \<Rightarrow> 'f list \<Rightarrow> bool list \<Rightarrow> uint64_t \<Rightarrow> 'f scheduler_service \<Rightarrow> 'f scheduler_service option" where
  "sv_update_policy P F task_tms msk freq s =
    (if sv_value s \<noteq> dynamic_policy \<and> sv_value s \<noteq> tuned_policy then Some s
     else do {
       old \<leftarrow> as_tree (sv_policy s);
       new \<leftarrow> create_rebalanced_times P F old task_tms msk;
       Some (s\<lparr>sv_policy := Tree_policy new,
         sv_optimizer := (sv_optimizer s)\<lparr>active_nodes := msk, active_frequency := freq\<rparr>\<rparr>)})"

text \<open>balance starts an operation of the optimizer: by task times, by task times with tuning, or with the
  mapping of the policy.\<close>

datatype balance_request = Balance_times bool | Balance_ino "size_t list"

definition sv_balance :: "'p path_ops \<Rightarrow> 'f scheduler_service \<Rightarrow> balance_request list option" where
  "sv_balance P s =
    (case sv_value s of
       dynamic_policy \<Rightarrow> Some [Balance_times False]
     | tuned_policy \<Rightarrow> Some [Balance_times True]
     | ino_policy \<Rightarrow> do {
         old \<leftarrow> as_tree (sv_policy s);
         m \<leftarrow> task_distribution_mapping P old;
         Some [Balance_ino m]}
     | _ \<Rightarrow> Some [])"

text \<open>scheduler::active\_ of a locality.\<close>

definition toggle_active :: "bool \<Rightarrow> bool \<Rightarrow> bool" where
  "toggle_active toggle active = (if toggle then \<not> active else True)"

section \<open>Scheduling a task\<close>

text \<open>A work item: its id, whether it can be split, whether it may be scheduled to other localities, and
  its requirements.\<close>

record ('p, 'r) work_item =
  wi_id :: "'p task_id"
  wi_can_split :: bool
  wi_remote :: bool
  wi_reqs :: "'r task_requirements"

text \<open>What the scheduler component of a locality has for its tasks.\<close>

record local_scheduler =
  ls_numa_depth :: size_t
  ls_numa_start :: nat
  ls_depth_cut_off :: nat
  ls_tasks_scheduled :: nat

text \<open>The state of the run: the data, the components, the generator of the random policy, the dispatches
  reported to the resilience component (the work items sent to another locality and its rank), and the
  operations the optimizer was asked for.\<close>

record ('r, 'f, 'd, 'p) sched_state =
  ss_world :: "('r, 'f, 'd) world"
  ss_local :: "size_t \<Rightarrow> local_scheduler"
  ss_coin :: nat
  ss_dispatched :: "('p task_id \<times> size_t) list"
  ss_balance :: "balance_request list"

text \<open>Where a task ends: it is split or processed at a node, in a numa domain, after its requirements have
  been acquired.\<close>

datatype fate = Split_at HierarchyAddress size_t | Process_at HierarchyAddress size_t

text \<open>do\_split and schedule\_local of the component; the second kind of result is a task that is given back.\<close>

definition do_split :: "'p path_ops \<Rightarrow> local_scheduler \<Rightarrow> ('p, 'r) work_item \<Rightarrow> bool" where
  "do_split P ls w \<longleftrightarrow> wi_can_split w \<and> task_depth P (wi_id w) < ls_depth_cut_off ls"

definition component_schedule_local ::
  "'p path_ops \<Rightarrow> 'r region_ops \<Rightarrow> ('r, 'f, 'x) fragment_ops \<Rightarrow> nat \<Rightarrow> HierarchyAddress \<Rightarrow>
   ('p, 'r) work_item \<Rightarrow> 'r task_requirements \<Rightarrow> ('r, 'f, 'd, 'p) sched_state \<Rightarrow>
   (fate + ('p, 'r) work_item \<times> 'r task_requirements) option \<times> ('r, 'f, 'd, 'p) sched_state" where
  "component_schedule_local P R FO fuel addr w reqs st =
    (let rank = getRank addr;
         ls = ss_local st rank;
         st = st\<lparr>ss_local := (ss_local st)(rank := ls\<lparr>ls_tasks_scheduled := ls_tasks_scheduled ls + 1\<rparr>)\<rparr>;
         (numa, id) = numa_node P (ls_numa_depth ls) (ls_numa_start ls) (wi_id w);
         w = w\<lparr>wi_id := id\<rparr>;
         finish = (\<lambda>acquire fate.
           (case Option.bind (task_add_allowance R FO addr reqs (ss_world st)) acquire of
              None \<Rightarrow> (None, st)
            | Some w2 \<Rightarrow> (Some (Inl fate), st\<lparr>ss_world := w2\<rparr>))) in
     if do_split P ls w then finish (task_acquire_split R FO fuel addr reqs) (Split_at addr numa)
     else if \<not> isLeaf addr then (Some (Inr (w, reqs)), st)
     else finish (task_acquire_process R FO fuel addr reqs) (Process_at addr numa))"

type_synonym 'f sched_net = "HierarchyAddress \<Rightarrow> 'f scheduler_service option"

text \<open>schedule\_local of the service: a task that is given back goes to the left child, with its allowance.\<close>

fun service_schedule_local ::
  "'p path_ops \<Rightarrow> 'r region_ops \<Rightarrow> ('r, 'f, 'x) fragment_ops \<Rightarrow> nat \<Rightarrow> 'g sched_net \<Rightarrow> nat \<Rightarrow> HierarchyAddress \<Rightarrow>
   ('p, 'r) work_item \<Rightarrow> 'r task_requirements \<Rightarrow> ('r, 'f, 'd, 'p) sched_state \<Rightarrow>
   (fate \<times> ('r, 'f, 'd, 'p) sched_state) option" where
  "service_schedule_local P R FO fuel net 0 addr w reqs st = None"
| "service_schedule_local P R FO fuel net (Suc n) addr w reqs st = do {
    s \<leftarrow> net addr;
    (case component_schedule_local P R FO fuel addr w reqs st of
       (None, st) \<Rightarrow> None
     | (Some (Inl fate), st) \<Rightarrow> Some (fate, st)
     | (Some (Inr (w, reqs)), st) \<Rightarrow> do {
         (reqs, w1) \<leftarrow> task_add_allowance_left R addr reqs (ss_world st);
         service_schedule_local P R FO fuel net n (sv_left s) w reqs (st\<lparr>ss_world := w1\<rparr>)})}"

text \<open>A leaf is at most getLayer steps away.\<close>

definition schedule_local ::
  "'p path_ops \<Rightarrow> 'r region_ops \<Rightarrow> ('r, 'f, 'x) fragment_ops \<Rightarrow> nat \<Rightarrow> 'g sched_net \<Rightarrow> HierarchyAddress \<Rightarrow>
   ('p, 'r) work_item \<Rightarrow> 'r task_requirements \<Rightarrow> ('r, 'f, 'd, 'p) sched_state \<Rightarrow>
   (fate \<times> ('r, 'f, 'd, 'p) sched_state) option" where
  "schedule_local P R FO fuel net addr w reqs st =
    service_schedule_local P R FO fuel net (Suc (unat (getLayer addr))) addr w reqs st"

text \<open>schedule and schedule\_down of the service at addr.  running is rank\_running of the resilience
  component.\<close>

fun schedule ::
    "'p path_ops \<Rightarrow> 'r region_ops \<Rightarrow> ('r, 'f, 'x) fragment_ops \<Rightarrow> nat \<Rightarrow> (nat \<Rightarrow> bool) \<Rightarrow> (size_t \<Rightarrow> bool) \<Rightarrow> 'g sched_net \<Rightarrow>
     nat \<Rightarrow> HierarchyAddress \<Rightarrow> ('p, 'r) work_item \<Rightarrow> ('r, 'f, 'd, 'p) sched_state \<Rightarrow>
     (fate \<times> ('r, 'f, 'd, 'p) sched_state) option"
  and schedule_down ::
    "'p path_ops \<Rightarrow> 'r region_ops \<Rightarrow> ('r, 'f, 'x) fragment_ops \<Rightarrow> nat \<Rightarrow> (nat \<Rightarrow> bool) \<Rightarrow> (size_t \<Rightarrow> bool) \<Rightarrow> 'g sched_net \<Rightarrow>
     nat \<Rightarrow> HierarchyAddress \<Rightarrow> ('p, 'r) work_item \<Rightarrow> 'r task_requirements \<Rightarrow> ('r, 'f, 'd, 'p) sched_state \<Rightarrow>
     (fate \<times> ('r, 'f, 'd, 'p) sched_state) option" where
  "schedule P R FO fuel coins running net 0 addr w st = None"
| "schedule P R FO fuel coins running net (Suc n) addr w st = do {
    s \<leftarrow> net addr;
    bal \<leftarrow> (if sv_is_root s \<and> is_root P (wi_id w) \<and> tid (wi_id w) mod 20 = 0 then sv_balance P s else Some []);
    let st = st\<lparr>ss_balance := ss_balance st @ bal\<rparr>;
    let reqs = wi_reqs w;
    let p = path (wi_id w);
    if \<not> wi_remote w then do {
      (_, reqs, w1) \<leftarrow> task_get_missing_regions R addr reqs (ss_world st);
      schedule_local P R FO fuel net addr w reqs (st\<lparr>ss_world := w1\<rparr>)}
    else do {
      involved \<leftarrow> (if sv_is_root s then Some False
        else if pt_is_root P p then Some (sv_is_root s)
        else policy_is_involved P (sv_policy s) addr (pt_parent P p));
      if involved \<and> task_check_write_requirements R addr reqs (ss_world st)
      then schedule_down P R FO fuel coins running net n addr w reqs st
      else do {
        (unallocated, reqs, w1) \<leftarrow> task_get_missing_regions R addr reqs (ss_world st);
        let st = st\<lparr>ss_world := w1\<rparr>;
        if unallocated \<or> sv_is_root s then schedule_down P R FO fuel coins running net n addr w reqs st
        else schedule P R FO fuel coins running net n (sv_parent s) w st}}}"
| "schedule_down P R FO fuel coins running net 0 addr w reqs st = None"
| "schedule_down P R FO fuel coins running net (Suc n) addr w reqs st = do {
    s \<leftarrow> net addr;
    let p = path (wi_id w);
    involved \<leftarrow> policy_is_involved P (sv_policy s) addr p;
    if \<not> involved then schedule P R FO fuel coins running net n (sv_parent s) w st
    else do {
      (d, i) \<leftarrow> policy_decide P coins (sv_policy s) addr p (ss_coin st);
      let st = st\<lparr>ss_coin := i\<rparr>;
      if d = sd_stay \<or> isLeaf addr then schedule_local P R FO fuel net addr w reqs st
      else
        (let target_left = (d = sd_left \<or> sv_right s = sv_left s) in
         if \<not> target_left \<and> \<not> running (getRank (sv_right s)) then schedule_local P R FO fuel net addr w reqs st
         else if target_left then do {
           (reqs, w1) \<leftarrow> task_add_allowance_left R addr reqs (ss_world st);
           schedule_down P R FO fuel coins running net n (sv_left s) w reqs (st\<lparr>ss_world := w1\<rparr>)}
         else do {
           (reqs, w1) \<leftarrow> task_add_allowance_right R addr reqs (ss_world st);
           schedule_down P R FO fuel coins running net n (sv_right s) w reqs
             (st\<lparr>ss_world := w1, ss_dispatched := ss_dispatched st @ [(wi_id w, getRank (sv_right s))]\<rparr>)})}}"

section \<open>Descending policies\<close>

text \<open>The walk of a task down the network: a step by the choice of the policy at the node, until the
  choice is to stay or the node is a leaf.\<close>

fun descend ::
  "(HierarchyAddress \<Rightarrow> nat \<Rightarrow> (schedule_decision \<times> nat) option) \<Rightarrow> (HierarchyAddress \<Rightarrow> HierarchyAddress) \<Rightarrow>
   (HierarchyAddress \<Rightarrow> HierarchyAddress) \<Rightarrow> nat \<Rightarrow> HierarchyAddress \<Rightarrow> nat \<Rightarrow> (HierarchyAddress \<times> nat) option" where
  "descend pick lft rgt 0 a i = None"
| "descend pick lft rgt (Suc n) a i = do {
    (d, i) \<leftarrow> pick a i;
    if d = sd_stay \<or> isLeaf a then Some (a, i)
    else descend pick lft rgt n (if d = sd_left \<or> rgt a = lft a then lft a else rgt a) i}"

text \<open>What the scheduler needs of a policy: the nodes that are on the way of a task are closed under the
  choices made at them, and the children are a layer below.\<close>

locale descending_policy =
  fixes on_way :: "HierarchyAddress \<Rightarrow> bool"
    and pick :: "HierarchyAddress \<Rightarrow> nat \<Rightarrow> (schedule_decision \<times> nat) option"
    and lft rgt :: "HierarchyAddress \<Rightarrow> HierarchyAddress"
  assumes chooses: "on_way a \<Longrightarrow> \<exists>d i'. pick a i = Some (d, i')"
    and child_on_way: "on_way a \<Longrightarrow> \<not> isLeaf a \<Longrightarrow> pick a i = Some (d, i') \<Longrightarrow> d \<noteq> sd_stay \<Longrightarrow>
      on_way (if d = sd_left \<or> rgt a = lft a then lft a else rgt a)"
    and child_layer: "on_way a \<Longrightarrow> \<not> isLeaf a \<Longrightarrow> getLayer (lft a) = getLayer a - 1 \<and> getLayer (rgt a) = getLayer a - 1"
begin

lemma descend_stops:
  assumes "on_way a" and "unat (getLayer a) < n"
  shows "\<exists>b i'. descend pick lft rgt n a i = Some (b, i') \<and> on_way b \<and>
    (isLeaf b \<or> (\<exists>j j'. pick b j = Some (sd_stay, j')))"
  using assms
proof (induction n arbitrary: a i)
  case (Suc n)
  obtain d i1 where d: "pick a i = Some (d, i1)" using chooses [OF Suc.prems(1)] by blast
  show ?case
  proof (cases "d = sd_stay \<or> isLeaf a")
    case True
    then show ?thesis using d Suc.prems(1) by auto
  next
    case False
    let ?b = "if d = sd_left \<or> rgt a = lft a then lft a else rgt a"
    have b: "on_way ?b" using child_on_way [OF Suc.prems(1) _ d] False by blast
    have l: "getLayer ?b = getLayer a - 1" using child_layer [OF Suc.prems(1)] False by simp
    have "getLayer a \<noteq> 0" using False by (simp add: isLeaf_def)
    then have "0 < unat (getLayer a)" "unat (getLayer ?b) = unat (getLayer a) - 1"
      using l by (simp_all add: unat_minus_one unat_gt_0)
    then have "unat (getLayer ?b) < n" using Suc.prems(2) by linarith
    from Suc.IH [OF b this, of i1] show ?thesis using d False by simp
  qed
qed simp

text \<open>schedule\_down follows the walk, and hands the task over where it ends.\<close>

lemma schedule_down_descends:
  assumes net: "\<And>a. on_way a \<Longrightarrow> \<exists>s. net a = Some s \<and> policy_is_involved P (sv_policy s) a p = Some True \<and>
      policy_decide P coins (sv_policy s) a p = pick a \<and>
      (\<not> isLeaf a \<longrightarrow> sv_left s = lft a \<and> sv_right s = rgt a)"
    and run: "\<And>a. on_way a \<Longrightarrow> running (getRank a)"
  shows "on_way a \<Longrightarrow> {a. on_way a} \<subseteq> hosts (ss_world st) \<Longrightarrow> path (wi_id w) = p \<Longrightarrow>
    descend pick lft rgt n a (ss_coin st) = Some (b, i') \<Longrightarrow> carried R tr0 w0 reqs (ss_world st) \<Longrightarrow>
    \<exists>reqs' st'. schedule_down P R FO fuel coins running net n a w reqs st = schedule_local P R FO fuel net b w reqs' st' \<and>
      carried R tr0 w0 reqs' (ss_world st') \<and> hosts (ss_world st') = hosts (ss_world st) \<and> ss_coin st' = i'"
proof (induction n arbitrary: a st reqs)
  case (Suc n)
  obtain s where s: "net a = Some s" "policy_is_involved P (sv_policy s) a p = Some True"
      "policy_decide P coins (sv_policy s) a p = pick a" "\<not> isLeaf a \<longrightarrow> sv_left s = lft a \<and> sv_right s = rgt a"
    using net [OF Suc.prems(1)] by blast
  obtain d i1 where d: "pick a (ss_coin st) = Some (d, i1)" using chooses [OF Suc.prems(1)] by blast
  show ?case
  proof (cases "d = sd_stay \<or> isLeaf a")
    case True
    then have "b = a" "i' = i1" using Suc.prems(4) d by auto
    then show ?thesis using s d Suc.prems(3,5) True
      by (intro exI [of _ reqs] exI [of _ "st\<lparr>ss_coin := i1\<rparr>"]) simp
  next
    case False
    let ?left = "d = sd_left \<or> rgt a = lft a"
    let ?c = "if ?left then lft a else rgt a"
    have c: "on_way ?c" using child_on_way [OF Suc.prems(1) _ d] False by blast
    have a: "a \<in> hosts (ss_world st)" using Suc.prems(1,2) by blast
    have sc: "sv_left s = lft a" "sv_right s = rgt a" using s(4) False by auto
    have desc: "descend pick lft rgt n ?c i1 = Some (b, i')" using Suc.prems(4) d False by simp
    show ?thesis
    proof (cases ?left)
      case True
      obtain tr w1 where w1: "task_add_allowance_left R a reqs (ss_world st) = Some (tr, w1)" "hosts w1 = hosts (ss_world st)"
        "carried R tr0 w0 tr w1" using carried_left [OF Suc.prems(5) a] by blast
      let ?st = "st\<lparr>ss_coin := i1, ss_world := w1\<rparr>"
      have "\<exists>reqs' st'. schedule_down P R FO fuel coins running net n ?c w tr ?st = schedule_local P R FO fuel net b w reqs' st' \<and>
          carried R tr0 w0 reqs' (ss_world st') \<and> hosts (ss_world st') = hosts (ss_world ?st) \<and> ss_coin st' = i'"
        by (rule Suc.IH [OF c]) (use w1 Suc.prems(2,3) desc in simp_all)
      moreover have "schedule_down P R FO fuel coins running net (Suc n) a w reqs st =
          schedule_down P R FO fuel coins running net n ?c w tr ?st"
        using s(1-3) d Suc.prems(3) False True w1 sc by auto
      ultimately show ?thesis using w1(2) by simp
    next
      case right: False
      obtain tr w1 where w1: "task_add_allowance_right R a reqs (ss_world st) = Some (tr, w1)" "hosts w1 = hosts (ss_world st)"
        "carried R tr0 w0 tr w1" using carried_right [OF Suc.prems(5) a] by blast
      let ?st = "st\<lparr>ss_coin := i1, ss_world := w1, ss_dispatched := ss_dispatched st @ [(wi_id w, getRank (rgt a))]\<rparr>"
      have r: "running (getRank (rgt a))" using run [OF c] right by simp
      have "\<exists>reqs' st'. schedule_down P R FO fuel coins running net n ?c w tr ?st = schedule_local P R FO fuel net b w reqs' st' \<and>
          carried R tr0 w0 reqs' (ss_world st') \<and> hosts (ss_world st') = hosts (ss_world ?st) \<and> ss_coin st' = i'"
        by (rule Suc.IH [OF c]) (use w1 Suc.prems(2,3) desc in simp_all)
      moreover have "schedule_down P R FO fuel coins running net (Suc n) a w reqs st =
          schedule_down P R FO fuel coins running net n ?c w tr ?st"
        using s(1-3) d Suc.prems(3) False right w1 sc r by auto
      ultimately show ?thesis using w1(2) by simp
    qed
  qed
qed simp

end

section \<open>The tree policy descends\<close>

text \<open>decide, one ancestor at a time.\<close>

lemma decide_loop_fuel:
  assumes ok: "task_path_ok P"
  shows "pt_len P p = n \<Longrightarrow> 2 * n + 2 \<le> m \<Longrightarrow> decide_loop P pol m a p = decide_loop P pol (2 * n + 2) a p"
proof (induction n arbitrary: p m)
  case 0
  then have p: "pt_is_root P p" using path_len_0 [OF ok] ok by simp
  obtain m' where "m = Suc m'" using 0 by (metis Suc_le_D add_2_eq_Suc' mult_0_right)
  then show ?case using p by (simp add: numeral_2_eq_2)
next
  case (Suc n)
  then have nr: "p \<noteq> pt_root P" using ok by auto
  have len: "pt_len P (pt_parent P p) = n" using path_parent_len [OF ok nr] Suc.prems(1) by simp
  obtain m' where m: "m = Suc m'" "2 * n + 3 \<le> m'" using Suc.prems(2) by (cases m) auto
  have f: "2 * Suc n + 2 = Suc (2 * n + 3)" by simp
  have t: "get_target_f P pol k (pt_parent P p) = get_target P pol (pt_parent P p)" if "2 * n + 3 \<le> k" for k
    using get_target_f_spec [OF ok, of "pt_parent P p" k pol] len that by (simp add: get_target_spec [OF ok])
  have l: "decide_loop P pol k a (pt_parent P p) = decide_loop P pol (2 * n + 2) a (pt_parent P p)" if "2 * n + 3 \<le> k" for k
    using Suc.IH [OF len, of k] that by simp
  have k3: "2 * n + 3 \<le> 2 * n + 3" by simp
  show ?case
    unfolding f m(1) decide_loop.simps(2) t [OF m(2)] t [OF k3] l [OF m(2)] l [OF k3] ..
qed

lemma decide_parent:
  assumes ok: "task_path_ok P" and nr: "p \<noteq> pt_root P" and t: "get_target P pol (pt_parent P p) = Some b"
    and a: "\<not> isLeaf a" and ne: "b \<noteq> a"
  shows "decide P pol a p = decide P pol a (pt_parent P p)"
proof -
  let ?q = "pt_parent P p"
  have len: "Suc (pt_len P ?q) = pt_len P p" using ok nr by (rule path_parent_len)
  have f: "path_fuel P p = Suc (2 * pt_len P ?q + 3)" by (simp add: path_fuel_def flip: len)
  have "get_target_f P pol (2 * pt_len P ?q + 3) ?q = Some b"
    using t get_target_f_spec [OF ok, of ?q "2 * pt_len P ?q + 3" pol] by (simp add: get_target_spec [OF ok])
  moreover have "decide_loop P pol (2 * pt_len P ?q + 3) a ?q = decide_loop P pol (path_fuel P ?q) a ?q"
    using decide_loop_fuel [OF ok, of ?q "pt_len P ?q" "2 * pt_len P ?q + 3"] by (simp add: path_fuel_def)
  ultimately show ?thesis using a ne nr ok unfolding decide_def f decide_loop.simps(2) by simp
qed

text \<open>The nodes that are involved with a path: the root of the policy and the targets of its ancestors.\<close>

definition passes :: "'p path_ops \<Rightarrow> tree_scheduling_policy \<Rightarrow> HierarchyAddress \<Rightarrow> 'p \<Rightarrow> bool" where
  "passes P pol a p \<longleftrightarrow> a = root_addr pol \<or> (\<exists>q \<in> set (ancestors P (pt_len P p) p). get_target P pol q = Some a)"

lemma is_involved_passes:
  assumes "task_path_ok P" and "get_target P pol p = Some t"
  shows "is_involved P pol a p = Some (passes P pol a p)"
  unfolding is_involved_def passes_def by (rule is_involved_f_iff [OF assms(1) refl assms(2)])

lemma passes_parent:
  assumes "task_path_ok P" and "p \<noteq> pt_root P"
  shows "passes P pol a p \<longleftrightarrow> passes P pol a (pt_parent P p) \<or> get_target P pol p = Some a"
  using path_parent_len [OF assms] by (auto simp: passes_def simp flip: path_parent_len [OF assms])

lemma decide_off_way:
  assumes ok: "task_path_ok P"
  shows "pt_len P p = n \<Longrightarrow> get_target P pol p = Some t \<Longrightarrow> \<not> isLeaf a \<Longrightarrow> a \<noteq> root_addr pol \<Longrightarrow>
    p = pt_root P \<or> \<not> passes P pol a (pt_parent P p) \<Longrightarrow> decide P pol a p = Some sd_stay"
proof (induction n arbitrary: p t)
  case 0
  then have "p = pt_root P" using path_len_0 [OF ok] by metis
  then show ?case using 0 by (simp add: decide_root [OF ok])
next
  case (Suc n)
  then have nr: "p \<noteq> pt_root P" using ok by auto
  let ?q = "pt_parent P p"
  have len: "pt_len P ?q = n" using path_parent_len [OF ok nr] Suc.prems(1) by simp
  obtain b where b: "get_target P pol ?q = Some b" using get_target_parent_some [OF ok nr Suc.prems(2)] by blast
  have np: "\<not> passes P pol a ?q" using Suc.prems(5) nr by blast
  have "get_target P pol ?q = Some a \<Longrightarrow> passes P pol a ?q"
    unfolding passes_def by (cases "pt_len P ?q") auto
  then have "b \<noteq> a" using b np by auto
  then have "decide P pol a p = decide P pol a ?q" by (rule decide_parent [OF ok nr b Suc.prems(3)])
  also have "\<dots> = Some sd_stay"
  proof (rule Suc.IH [OF len b Suc.prems(3,4)])
    show "?q = pt_root P \<or> \<not> passes P pol a (pt_parent P ?q)"
      using np passes_parent [OF ok, of ?q pol a] by blast
  qed
  finally show ?case .
qed

text \<open>At a node on the way of a path: the task goes on to the next node on the way, unless this node is the
  target.\<close>

definition goes_on :: "'p path_ops \<Rightarrow> tree_scheduling_policy \<Rightarrow> HierarchyAddress \<Rightarrow> HierarchyAddress \<Rightarrow> 'p \<Rightarrow> schedule_decision \<Rightarrow> bool" where
  "goes_on P pol t a p d \<longleftrightarrow>
     (isLeaf a \<longrightarrow> t = a) \<and> (d = sd_stay \<or> d = sd_done \<longrightarrow> t = a) \<and>
     (\<not> isLeaf a \<longrightarrow> d = sd_left \<longrightarrow> passes P pol (getLeftChild a) p) \<and>
     (\<not> isLeaf a \<longrightarrow> d = sd_right \<longrightarrow> passes P pol (getRightChild a) p)"

lemma target_passes: "get_target P pol p = Some a \<Longrightarrow> passes P pol a p"
  unfolding passes_def by (cases "pt_len P p") auto

lemma goes_on_step:
  assumes "get_target P pol p = Some (follow d a)" and "isLeaf a \<Longrightarrow> d = sd_stay"
  shows "goes_on P pol (follow d a) a p d"
  using assms target_passes [OF assms(1)] by (cases d) (auto simp: goes_on_def follow_def)

lemma tree_goes_on:
  assumes ok: "task_path_ok P"
  shows "pt_len P p = n \<Longrightarrow> get_target P pol p = Some t \<Longrightarrow> passes P pol a p \<Longrightarrow>
    \<exists>d. decide P pol a p = Some d \<and> goes_on P pol t a p d"
proof (induction n arbitrary: p t)
  case 0
  then have p: "p = pt_root P" using path_len_0 [OF ok] by metis
  have st: "step P (tree pol) (root_addr pol) p = Some t" using 0 get_target_root [OF ok] p by metis
  show ?case
  proof (cases "a = root_addr pol")
    case True
    obtain d where d: "decide P pol a p = Some d" "t = follow d a" "isLeaf a \<Longrightarrow> d = sd_stay"
      using st by (auto simp: p True decide_root [OF ok] step_follow split: if_splits)
    then show ?thesis using goes_on_step [of P pol p d a] 0(2) by auto
  next
    case False
    then have "a = t" using 0 ok by (auto simp: passes_def)
    then have "decide P pol a p = Some sd_stay" using False by (simp add: p decide_root [OF ok])
    then show ?thesis using \<open>a = t\<close> by (simp add: goes_on_def)
  qed
next
  case (Suc n)
  then have nr: "p \<noteq> pt_root P" using ok by auto
  let ?q = "pt_parent P p"
  have len: "pt_len P ?q = n" "Suc (pt_len P ?q) = pt_len P p" using path_parent_len [OF ok nr] Suc.prems(1) by simp_all
  obtain b where b: "get_target P pol ?q = Some b" using get_target_parent_some [OF ok nr Suc.prems(2)] by blast
  have st: "step P (tree pol) b p = Some t"
  proof -
    have "target_spec P pol (pt_len P p) p = Some t" "target_spec P pol n ?q = Some b"
      using Suc.prems(2) b len(1) by (simp_all add: get_target_spec [OF ok])
    then show ?thesis using Suc.prems(1) by simp
  qed
  show ?case
  proof (cases "b = a")
    case True
    obtain d where d: "decide P pol a p = Some d" "t = follow d a" "isLeaf a \<Longrightarrow> d = sd_stay"
      using st decide_at_parent_target [OF ok nr b] by (auto simp: True step_follow split: if_splits)
    then show ?thesis using goes_on_step [of P pol p d a] Suc.prems(2) by auto
  next
    case ne: False
    show ?thesis
    proof (cases "passes P pol a ?q")
      case True
      from Suc.IH [OF len(1) b True] obtain d where d: "decide P pol a ?q = Some d" "goes_on P pol b a ?q d" by blast
      have nl: "\<not> isLeaf a" using d(2) ne by (auto simp: goes_on_def)
      have "decide P pol a p = Some d" using decide_parent [OF ok nr b nl ne] d(1) by simp
      moreover have "goes_on P pol t a p d"
        using d(2) ne nl passes_parent [OF ok nr] by (auto simp: goes_on_def)
      ultimately show ?thesis by blast
    next
      case off: False
      then have a: "a = t" "a \<noteq> root_addr pol"
        using Suc.prems(2,3) passes_parent [OF ok nr, of pol a] by (auto simp: passes_def)
      have "decide P pol a p = Some sd_stay"
      proof (cases "isLeaf a")
        case False
        then show ?thesis using decide_off_way [OF ok Suc.prems(1,2) False a(2)] off by blast
      qed (simp add: decide_def)
      then show ?thesis using a(1) by (simp add: goes_on_def)
    qed
  qed
qed

text \<open>Obeying decide at every node: a step to the child it names, until it names none.\<close>

fun hops :: "(HierarchyAddress \<Rightarrow> schedule_decision option) \<Rightarrow> nat \<Rightarrow> HierarchyAddress \<Rightarrow> HierarchyAddress option" where
  "hops dec 0 a = None"
| "hops dec (Suc n) a = do {
    d \<leftarrow> dec a;
    (case d of sd_left \<Rightarrow> hops dec n (getLeftChild a) | sd_right \<Rightarrow> hops dec n (getRightChild a) | _ \<Rightarrow> Some a)}"

lemma hops_target:
  assumes ok: "task_path_ok P" and t: "get_target P pol p = Some t"
  shows "passes P pol a p \<Longrightarrow> unat (getLayer a) < n \<Longrightarrow> hops (\<lambda>a. decide P pol a p) n a = Some t"
proof (induction n arbitrary: a)
  case (Suc n)
  obtain d where d: "decide P pol a p = Some d" "goes_on P pol t a p d"
    using tree_goes_on [OF ok refl t Suc.prems(1)] by blast
  show ?case
  proof (cases "d = sd_left \<or> d = sd_right")
    case True
    then have nl: "\<not> isLeaf a" using d(1) by (auto simp: decide_def)
    then have "0 < unat (getLayer a)" "unat (getLayer a - 1) = unat (getLayer a) - 1"
      by (simp_all add: unat_minus_one unat_gt_0 isLeaf_def)
    then have l: "unat (getLayer a - 1) < n" using Suc.prems(2) by linarith
    show ?thesis
      using True
    proof
      assume "d = sd_left"
      then show ?thesis using d nl l Suc.IH [of "getLeftChild a"] by (simp add: goes_on_def)
    next
      assume "d = sd_right"
      then show ?thesis using d nl l Suc.IH [of "getRightChild a"] by (simp add: goes_on_def)
    qed
  next
    case False
    then have "d = sd_stay \<or> d = sd_done" by (cases d) auto
    then show ?thesis using d by (auto simp: goes_on_def)
  qed
qed simp

text \<open>C6: the decisions lead a task where the mapping says: with the policy that from\_mapping makes of a sorted
  mapping of 2^g tasks to ranks, a task that obeys decide for its own path at every node, from the root on, arrives
  after at most as many steps as the network is high at the leaf of the rank that the mapping has for the first
  g turns of the path.\<close>

theorem decisions_reach_target:
  assumes "task_path_ok P" and "length mapping = 2 ^ granularity old" and "sorted mapping"
    and "\<forall>r \<in> set mapping. r < 2 ^ k" and "root_addr old = HierarchyAddress 0 (word_of_nat k)"
    and "k \<le> granularity old" and "0 < granularity old" and "granularity old + k \<le> 28"
    and "from_mapping P old mapping = Some pol" and "granularity old + k \<le> length turns" and "length turns \<le> 28"
  shows "hops (\<lambda>a. decide P pol a (ext P (pt_root P) turns)) (Suc k) (root_addr pol) =
    Some (HierarchyAddress (word_of_nat (mapping ! turn_index (granularity old) turns)) 0)"
proof -
  let ?p = "ext P (pt_root P) turns" and ?r = "mapping ! turn_index (granularity old) turns"
  have mp: "mapping_ok k (granularity old) mapping" using assms(2-4) by (simp add: mapping_ok_def)
  obtain t where t: "toDecisionTree P (2 ^ k) mapping = Some t"
    "walk P t turns (node_at 0 k) (pt_root P) = Some (node_at ?r 0)"
    using toDecisionTree_fills [OF assms(1) mp assms(8,6,7)] assms(10,11) by metis
  have u: "unat (word_of_nat k :: layer_t) = k" using assms by (simp add: unat_word_of_nat_layer)
  then have pol: "pol = \<lparr>root_addr = root_addr old, granularity = granularity old, tree = t\<rparr>"
    using t(1) assms(5,8,9) by (simp add: from_mapping_def)
  have "get_target P pol ?p = Some (node_at ?r 0)"
    using get_target_walk [OF assms(1), of turns pol] t(2) pol assms(5,11) by (simp add: node_at_def)
  moreover have "passes P pol (root_addr pol) ?p" by (simp add: passes_def)
  moreover have "unat (getLayer (root_addr pol)) < Suc k" using u by (simp add: pol assms(5))
  ultimately have "hops (\<lambda>a. decide P pol a ?p) (Suc k) (root_addr pol) = Some (node_at ?r 0)"
    by (rule hops_target [OF assms(1)])
  then show ?thesis by (simp add: node_at_def)
qed

theorem decisions_reach_target_witness:
  "\<exists>pol. from_mapping list_paths \<lparr>root_addr = HierarchyAddress 0 1, granularity = 2, tree = []\<rparr> [0, 0, 0, 1] = Some pol \<and>
    hops (\<lambda>a. decide list_paths pol a (ext list_paths [] [True, True, False])) 2 (root_addr pol) = Some (HierarchyAddress 1 0)"
proof -
  let ?old = "\<lparr>root_addr = HierarchyAddress 0 1, granularity = 2, tree = []\<rparr>"
  have "mapping_ok 1 (granularity ?old) [0, 0, 0, 1]" by (simp add: mapping_ok_def)
  then obtain pol where pol: "from_mapping list_paths ?old [0, 0, 0, 1] = Some pol"
    using policy_of_mapping [OF list_paths_ok, of 1 ?old "[0, 0, 0, 1]"] by auto
  show ?thesis
    using decisions_reach_target [OF list_paths_ok, of "[0, 0, 0, 1]" ?old 1 pol "[True, True, False]"] pol
    by (intro exI [of _ pol]) (simp add: numeral_2_eq_2)
qed

text \<open>The right child of a service, as its constructor sets it.\<close>

definition service_right :: "nat \<Rightarrow> HierarchyAddress \<Rightarrow> HierarchyAddress" where
  "service_right N a = (if word_of_nat N \<le> getRank (getRightChild a) then getLeftChild a else getRightChild a)"

lemma new_service_children:
  "new_scheduler_service P N env optimizer rank a = Some s \<Longrightarrow> \<not> isLeaf a \<Longrightarrow>
    sv_left s = getLeftChild a \<and> sv_right s = service_right N a"
  by (auto simp: new_scheduler_service_def service_right_def Option.bind_eq_Some_conv Let_def)

lemma service_right_layer: "getLayer (service_right N a) = getLayer a - 1"
  by (simp add: service_right_def)

text \<open>A path the policy can schedule: it has a target, no decision for it is done, and the nodes on its
  way are nodes of the network of N localities.\<close>

definition routable :: "'p path_ops \<Rightarrow> nat \<Rightarrow> tree_scheduling_policy \<Rightarrow> 'p \<Rightarrow> bool" where
  "routable P N pol p \<longleftrightarrow> task_path_ok P \<and> get_target P pol p \<noteq> None \<and> (\<forall>a. decide P pol a p \<noteq> Some sd_done) \<and>
     (\<forall>a. passes P pol a p \<longrightarrow> getRank a < word_of_nat N)"

definition tree_on_way :: "'p path_ops \<Rightarrow> nat \<Rightarrow> tree_scheduling_policy \<Rightarrow> 'p \<Rightarrow> HierarchyAddress \<Rightarrow> bool" where
  "tree_on_way P N pol p a \<longleftrightarrow> routable P N pol p \<and> passes P pol a p"

definition tree_pick :: "'p path_ops \<Rightarrow> tree_scheduling_policy \<Rightarrow> 'p \<Rightarrow> HierarchyAddress \<Rightarrow> nat \<Rightarrow> (schedule_decision \<times> nat) option" where
  "tree_pick P pol p a i = map_option (\<lambda>d. (d, i)) (decide P pol a p)"

lemma tree_on_way_goes_on:
  assumes "tree_on_way P N pol p a" and "get_target P pol p = Some t"
  shows "\<exists>d. decide P pol a p = Some d \<and> goes_on P pol t a p d"
  using assms tree_goes_on [of P p _ pol t a] by (auto simp: tree_on_way_def routable_def)

interpretation tree_policy: descending_policy "tree_on_way P N pol p" "tree_pick P pol p" getLeftChild "service_right N"
  for P N pol p
proof (unfold_locales, goal_cases)
  case (1 a i)
  then obtain t where "get_target P pol p = Some t" by (auto simp: tree_on_way_def routable_def)
  with tree_on_way_goes_on [OF 1] show ?case by (auto simp: tree_pick_def)
next
  case (2 a i d i')
  obtain t where t: "get_target P pol p = Some t" using 2(1) by (auto simp: tree_on_way_def routable_def)
  have d: "decide P pol a p = Some d" "goes_on P pol t a p d"
    using tree_on_way_goes_on [OF 2(1) t] 2(3) by (auto simp: tree_pick_def)
  have "d = sd_left \<or> d = sd_right" using 2(1,4) d(1) by (cases d) (auto simp: tree_on_way_def routable_def)
  then show ?case
  proof
    assume "d = sd_left"
    then show ?thesis using d(2) 2(1,2) by (simp add: tree_on_way_def goes_on_def)
  next
    assume r: "d = sd_right"
    then have "passes P pol (getRightChild a) p" using d(2) 2(2) by (simp add: goes_on_def)
    then show ?thesis using 2(1) r by (auto simp: tree_on_way_def routable_def service_right_def not_le)
  qed
next
  case (3 a)
  then show ?case by (simp add: service_right_layer)
qed

text \<open>The random policy: the nodes of the network that are involved.\<close>

definition random_on_way :: "'p path_ops \<Rightarrow> nat \<Rightarrow> HierarchyAddress \<Rightarrow> 'p \<Rightarrow> HierarchyAddress \<Rightarrow> bool" where
  "random_on_way P N rt p a \<longleftrightarrow> random_is_involved P rt a p \<and> getRank a < word_of_nat N \<and>
     unat (getLayer a) \<le> unat (getLayer rt) \<and> unat (getLayer rt) < 2 ^ 31"

lemma layer_int_unat: "unat (getLayer a) < 2 ^ 31 \<Longrightarrow> layer_int a = int (unat (getLayer a))"
proof -
  assume "unat (getLayer a) < 2 ^ 31"
  then have l: "unat (getLayer a) < 2147483648" by simp
  have u: "int (unat (getLayer a)) = uint (getLayer a)" by simp
  have "uint (getLayer a) < 2147483648" using l by (metis u of_nat_less_numeral_iff)
  moreover have "- (2 ^ 31) \<le> uint (getLayer a)" by (rule order_trans [of _ 0]) simp_all
  ultimately have "signed_take_bit 31 (uint (getLayer a)) = uint (getLayer a)" by (intro signed_take_bit_int_eq_self) simp_all
  then show ?thesis unfolding u by (simp add: layer_int_def sint_uint)
qed

interpretation random_policy: descending_policy "random_on_way P N rt p" "\<lambda>a i. Some (random_decide P coins rt a p i)"
    getLeftChild "service_right N" for P N rt p coins
proof (unfold_locales, goal_cases)
  case (1 a i)
  then show ?case by (cases "random_decide P coins rt a p i") simp
next
  case (2 a i d i')
  let ?c = "if d = sd_left \<or> service_right N a = getLeftChild a then getLeftChild a else service_right N a"
  have l: "unat (getLayer a) < 2 ^ 31" "unat (getLayer rt) < 2 ^ 31" using 2(1) by (auto simp: random_on_way_def)
  have nl: "getLayer a \<noteq> 0" using 2(2) by (simp add: isLeaf_def)
  have lc: "getLayer ?c = getLayer a - 1" by (simp add: service_right_layer)
  have uc: "unat (getLayer ?c) = unat (getLayer a) - 1" "0 < unat (getLayer a)"
    using nl by (simp_all add: lc unat_minus_one unat_gt_0)
  have len: "\<not> pt_len P p < 3" "int (pt_len P p) - 3 \<noteq> layer_int rt - layer_int a"
    using 2(3,4) by (auto simp: random_decide_def split: if_splits)
  have inv: "layer_int rt - layer_int a \<le> int (pt_len P p) - 3"
    using 2(1) len(1) by (auto simp: random_on_way_def random_is_involved_def split: if_splits)
  have "layer_int ?c = layer_int a - 1" using uc l layer_int_unat [of a] layer_int_unat [of ?c] by simp
  then have "random_is_involved P rt ?c p" using len(2) inv by (simp add: random_is_involved_def)
  moreover have "getRank ?c < word_of_nat N"
    using 2(1) by (auto simp: random_on_way_def service_right_def not_le)
  moreover have "unat (getLayer ?c) \<le> unat (getLayer rt)" using 2(1) uc by (auto simp: random_on_way_def)
  ultimately show ?case using 2(1) by (simp add: random_on_way_def)
next
  case (3 a)
  then show ?case by (simp add: service_right_layer)
qed

section \<open>Where a task is scheduled\<close>

text \<open>The services of a network of N localities with one policy: the children are those of the
  constructor, the parent of a service other than the root is one layer above, and every service has its
  index service.\<close>

definition sched_network ::
  "'p path_ops \<Rightarrow> nat \<Rightarrow> HierarchyAddress \<Rightarrow> scheduling_policy \<Rightarrow> 'g sched_net \<Rightarrow> ('r, 'f, 'd) world \<Rightarrow> bool" where
  "sched_network P N rt pol net w \<longleftrightarrow> {a. net a \<noteq> None} \<subseteq> hosts w \<and> net rt \<noteq> None \<and>
     (\<forall>a s. net a = Some s \<longrightarrow> sv_policy s = pol \<and> (sv_is_root s \<longleftrightarrow> a = rt) \<and> sv_balance P s \<noteq> None \<and>
       (\<not> isLeaf a \<longrightarrow> sv_left s = getLeftChild a \<and> sv_right s = service_right N a) \<and>
       (a \<noteq> rt \<longrightarrow> net (sv_parent s) \<noteq> None \<and> unat (getLayer (sv_parent s)) = unat (getLayer a) + 1 \<and>
          unat (getLayer a) < unat (getLayer rt)))"

lemma sched_network_hosts: "hosts w1 = hosts w \<Longrightarrow> sched_network P N rt pol net w1 = sched_network P N rt pol net w"
  by (simp add: sched_network_def)

text \<open>The nodes on the way of a path exist and run.\<close>

definition way_runs :: "'p path_ops \<Rightarrow> nat \<Rightarrow> tree_scheduling_policy \<Rightarrow> 'g sched_net \<Rightarrow> (size_t \<Rightarrow> bool) \<Rightarrow> 'p \<Rightarrow> bool" where
  "way_runs P N pol net running p \<longleftrightarrow> routable P N pol p \<and>
     (\<forall>a. passes P pol a p \<longrightarrow> net a \<noteq> None \<and> running (getRank a))"

lemma tree_descent_target:
  assumes "tree_on_way P N pol p b" and "isLeaf b \<or> (\<exists>j j'. tree_pick P pol p b j = Some (sd_stay, j'))"
  shows "get_target P pol p = Some b"
proof -
  obtain t where t: "get_target P pol p = Some t" using assms(1) by (auto simp: tree_on_way_def routable_def)
  obtain d where d: "decide P pol b p = Some d" "goes_on P pol t b p d" using tree_on_way_goes_on [OF assms(1) t] by blast
  then have "t = b" using assms(2) by (auto simp: goes_on_def tree_pick_def)
  then show ?thesis using t by simp
qed

lemma schedule_down_tree:
  assumes "sched_network P N (root_addr pol) (Tree_policy pol) net (ss_world st)"
    and "way_runs P N pol net running (path (wi_id w))" and "passes P pol a (path (wi_id w))"
    and "get_target P pol (path (wi_id w)) = Some t" and "unat (getLayer a) < n" and mv: "carried R tr0 w0 reqs (ss_world st)"
  shows "\<exists>reqs' st'. schedule_down P R FO fuel coins running net n a w reqs st = schedule_local P R FO fuel net t w reqs' st' \<and>
    carried R tr0 w0 reqs' (ss_world st')"
proof -
  let ?p = "path (wi_id w)" and ?pol = "Tree_policy pol"
  have a: "tree_on_way P N pol ?p a" using assms(2,3) by (simp add: tree_on_way_def way_runs_def)
  obtain b i' where b: "descend (tree_pick P pol ?p) getLeftChild (service_right N) n a (ss_coin st) = Some (b, i')"
      "tree_on_way P N pol ?p b" "isLeaf b \<or> (\<exists>j j'. tree_pick P pol ?p b j = Some (sd_stay, j'))"
    using tree_policy.descend_stops [OF a assms(5)] by blast
  have bt: "b = t" using tree_descent_target [OF b(2,3)] assms(4) by simp
  have "\<exists>reqs' st'. schedule_down P R FO fuel coins running net n a w reqs st = schedule_local P R FO fuel net b w reqs' st' \<and>
      carried R tr0 w0 reqs' (ss_world st') \<and> hosts (ss_world st') = hosts (ss_world st) \<and> ss_coin st' = i'"
  proof (rule tree_policy.schedule_down_descends [OF _ _ a _ refl b(1) mv])
    fix c assume c: "tree_on_way P N pol ?p c"
    obtain s where s: "net c = Some s" using c assms(2) by (auto simp: tree_on_way_def way_runs_def)
    then have "sv_policy s = ?pol" "\<not> isLeaf c \<longrightarrow> sv_left s = getLeftChild c \<and> sv_right s = service_right N c"
      using assms(1) by (auto simp: sched_network_def)
    moreover have "is_involved P pol c ?p = Some True"
      using is_involved_passes [of P pol ?p t c] assms(4) c by (simp add: tree_on_way_def routable_def)
    ultimately show "\<exists>s. net c = Some s \<and> policy_is_involved P (sv_policy s) c ?p = Some True \<and>
        policy_decide P coins (sv_policy s) c ?p = tree_pick P pol ?p c \<and>
        (\<not> isLeaf c \<longrightarrow> sv_left s = getLeftChild c \<and> sv_right s = service_right N c)"
      using s by (auto simp: policy_is_involved_def policy_decide_def tree_pick_def fun_eq_iff)
    show "running (getRank c)" using c assms(2) by (auto simp: tree_on_way_def way_runs_def)
  next
    show "{a. tree_on_way P N pol ?p a} \<subseteq> hosts (ss_world st)"
      using assms(1,2) by (auto simp: sched_network_def way_runs_def tree_on_way_def)
  qed
  then show ?thesis using bt by blast
qed

text \<open>From any node of the network: up to a node that may decide, and down to the target.\<close>

lemma schedule_climbs:
  fixes st :: "('r, 'f, 'd, 'p) sched_state"
  assumes "way_runs P N pol net running (path (wi_id w))" and "wi_remote w"
    and "get_target P pol (path (wi_id w)) = Some t"
  shows "sched_network P N (root_addr pol) (Tree_policy pol) net (ss_world st) \<Longrightarrow> net a \<noteq> None \<Longrightarrow>
    unat (getLayer a) \<le> unat (getLayer (root_addr pol)) \<Longrightarrow>
    3 * unat (getLayer (root_addr pol)) + 2 < n + 2 * unat (getLayer a) \<Longrightarrow> carried R (wi_reqs w) w0 (wi_reqs w) (ss_world st) \<Longrightarrow>
    \<exists>reqs' st'. schedule P R FO fuel coins running net n a w st = schedule_local P R FO fuel net t w reqs' st' \<and>
      carried R (wi_reqs w) w0 reqs' (ss_world st')"
proof (induction "unat (getLayer (root_addr pol)) - unat (getLayer a)" arbitrary: a st n rule: less_induct)
  case less
  let ?p = "path (wi_id w)" and ?rt = "root_addr pol" and ?H = "unat (getLayer (root_addr pol))"
  obtain s where s: "net a = Some s" using less.prems(2) by blast
  have ok: "task_path_ok P" using assms(1) by (simp add: way_runs_def routable_def)
  have sv: "sv_policy s = Tree_policy pol" "sv_is_root s \<longleftrightarrow> a = ?rt" "sv_balance P s \<noteq> None"
      "a \<noteq> ?rt \<Longrightarrow> net (sv_parent s) \<noteq> None \<and> unat (getLayer (sv_parent s)) = unat (getLayer a) + 1 \<and> unat (getLayer a) < ?H"
    using less.prems(1) s by (auto simp: sched_network_def)
  have n: "?H + 2 < n" using less.prems(3,4) by simp
  then obtain n1 where n1: "n = Suc n1" by (cases n) auto
  obtain m where m: "n1 = Suc m" using n n1 by (cases n1) auto
  obtain bal where bal: "(if sv_is_root s \<and> is_root P (wi_id w) \<and> tid (wi_id w) mod 20 = 0 then sv_balance P s else Some []) = Some bal"
    using sv(3) by (cases "sv_is_root s \<and> is_root P (wi_id w) \<and> tid (wi_id w) mod 20 = 0") auto
  let ?st = "st\<lparr>ss_balance := ss_balance st @ bal\<rparr>"
  have ah: "a \<in> hosts (ss_world st)" using less.prems(1,2) by (auto simp: sched_network_def)
  obtain u tr w1 where w1: "task_get_missing_regions R a (wi_reqs w) (ss_world st) = Some (u, tr, w1)" "hosts w1 = hosts (ss_world st)"
    "carried R (wi_reqs w) w0 tr w1" using carried_missing [OF less.prems(5) ah] by blast
  let ?st1 = "?st\<lparr>ss_world := w1\<rparr>"
  have net1: "sched_network P N ?rt (Tree_policy pol) net (ss_world ?st1)" "sched_network P N ?rt (Tree_policy pol) net (ss_world ?st)"
    using less.prems(1) sched_network_hosts [OF w1(2), of P N "root_addr pol" "Tree_policy pol" net] by simp_all
  have down: "\<exists>reqs' st'. schedule_down P R FO fuel coins running net k a w reqs st2 = schedule_local P R FO fuel net t w reqs' st' \<and>
      carried R (wi_reqs w) w0 reqs' (ss_world st')"
    if "sched_network P N ?rt (Tree_policy pol) net (ss_world st2)" "passes P pol a ?p" "unat (getLayer a) < k"
      "carried R (wi_reqs w) w0 reqs (ss_world st2)" for k reqs st2
    by (rule schedule_down_tree [OF that(1) assms(1) that(2) assms(3) that(3,4)])
  have up: "\<exists>reqs' st'. schedule P R FO fuel coins running net k (sv_parent s) w st2 = schedule_local P R FO fuel net t w reqs' st' \<and>
      carried R (wi_reqs w) w0 reqs' (ss_world st')"
    if "a \<noteq> ?rt" "sched_network P N ?rt (Tree_policy pol) net (ss_world st2)" "m \<le> k" "carried R (wi_reqs w) w0 (wi_reqs w) (ss_world st2)"
    for k and st2 :: "('r, 'f, 'd, 'p) sched_state"
  proof (rule less.hyps)
    show "?H - unat (getLayer (sv_parent s)) < ?H - unat (getLayer a)" using sv(4) [OF that(1)] by linarith
    show "3 * ?H + 2 < k + 2 * unat (getLayer (sv_parent s))"
      using sv(4) [OF that(1)] less.prems(4) n1 m that(3) by simp
  qed (use sv(4) [OF that(1)] that(2,4) in auto)
  have mv: "carried R (wi_reqs w) w0 tr (ss_world ?st1)" "carried R (wi_reqs w) w0 (wi_reqs w) (ss_world ?st1)"
    "carried R (wi_reqs w) w0 (wi_reqs w) (ss_world ?st)" using w1(3) carried.again [OF w1(3)] less.prems(5) by simp_all
  have k: "unat (getLayer a) < n1" using n n1 less.prems(3) by simp
  obtain p_inv where inv: "(if sv_is_root s then Some False else if pt_is_root P ?p then Some (sv_is_root s)
        else policy_is_involved P (sv_policy s) a (pt_parent P ?p)) = Some p_inv"
      and p_inv: "p_inv \<Longrightarrow> passes P pol a ?p"
  proof (cases "sv_is_root s \<or> pt_is_root P ?p")
    case True
    then show ?thesis using that by (cases "sv_is_root s") auto
  next
    case False
    then have nr: "?p \<noteq> pt_root P" using ok by simp
    obtain t' where t': "get_target P pol (pt_parent P ?p) = Some t'" using get_target_parent_some [OF ok nr assms(3)] by blast
    then have "policy_is_involved P (sv_policy s) a (pt_parent P ?p) = Some (passes P pol a (pt_parent P ?p))"
      using is_involved_passes [OF ok t'] sv(1) by (simp add: policy_is_involved_def)
    then show ?thesis using that False passes_parent [OF ok nr, of pol a] by auto
  qed
  show ?case
  proof (cases "p_inv \<and> task_check_write_requirements R a (wi_reqs w) (ss_world st)")
    case True
    then have "schedule P R FO fuel coins running net n a w st = schedule_down P R FO fuel coins running net n1 a w (wi_reqs w) ?st"
      using s bal inv assms(2) by (simp add: n1)
    then show ?thesis using down [OF net1(2) p_inv k mv(3)] True by simp
  next
    case False
    have e: "schedule P R FO fuel coins running net n a w st =
        (if u \<or> sv_is_root s then schedule_down P R FO fuel coins running net n1 a w tr ?st1
         else schedule P R FO fuel coins running net n1 (sv_parent s) w ?st1)"
      using s bal inv assms(2) w1(1) False by (auto simp: n1)
    show ?thesis
    proof (cases "u \<or> sv_is_root s")
      case ud: True
      show ?thesis
      proof (cases "passes P pol a ?p")
        case True
        then show ?thesis using e ud down [OF net1(1) _ k mv(1)] by simp
      next
        case off: False
        then have nroot: "a \<noteq> ?rt" by (auto simp: passes_def)
        have "is_involved P pol a ?p = Some False" using is_involved_passes [OF ok assms(3)] off by simp
        then have "schedule_down P R FO fuel coins running net n1 a w tr ?st1 =
            schedule P R FO fuel coins running net m (sv_parent s) w ?st1"
          using s sv(1) by (simp add: m policy_is_involved_def)
        then show ?thesis using e ud up [OF nroot net1(1) _ mv(2), of m] by simp
      qed
    next
      case False
      then have "a \<noteq> ?rt" using sv(2) by simp
      then show ?thesis using e False up [OF _ net1(1) _ mv(2), of n1] m by simp
    qed
  qed
qed

text \<open>The component keeps a task on its locality, and processes it at a leaf only.\<close>

definition ends_on :: "size_t \<Rightarrow> fate \<Rightarrow> bool" where
  "ends_on r f \<longleftrightarrow> (case f of Split_at a _ \<Rightarrow> getRank a = r | Process_at a _ \<Rightarrow> getRank a = r \<and> isLeaf a)"

lemma component_ends_on:
  "component_schedule_local P R FO fuel a w reqs st = (Some (Inl f), st') \<Longrightarrow> ends_on (getRank a) f"
  by (auto simp: component_schedule_local_def ends_on_def Let_def split: prod.splits if_splits option.splits)

lemma component_gives_back:
  "component_schedule_local P R FO fuel a w reqs st = (Some (Inr r), st') \<Longrightarrow> \<not> isLeaf a"
  by (auto simp: component_schedule_local_def Let_def split: prod.splits if_splits option.splits)

lemma service_schedule_local_rank:
  assumes "\<And>a s. net a = Some s \<Longrightarrow> \<not> isLeaf a \<Longrightarrow> sv_left s = getLeftChild a"
  shows "service_schedule_local P R FO fuel net n a w reqs st = Some (f, st') \<Longrightarrow> ends_on (getRank a) f"
proof (induction n arbitrary: a w reqs st)
  case (Suc n)
  obtain s where s: "net a = Some s" using Suc.prems by (auto simp: Option.bind_eq_Some_conv)
  obtain r st1 where c: "component_schedule_local P R FO fuel a w reqs st = (r, st1)"
    by (cases "component_schedule_local P R FO fuel a w reqs st")
  show ?case
  proof (cases r)
    case None
    then show ?thesis using Suc.prems s c by simp
  next
    case (Some r')
    show ?thesis
    proof (cases r')
      case (Inl f')
      then show ?thesis using Suc.prems s c Some component_ends_on [of P R FO fuel a w reqs st f' st1] by simp
    next
      case (Inr q)
      obtain w' reqs' where q: "q = (w', reqs')" by (cases q)
      have "\<not> isLeaf a" using component_gives_back c Some Inr by metis
      then have "getRank (sv_left s) = getRank a" using assms [OF s] by simp
      moreover obtain reqs2 w2 where "service_schedule_local P R FO fuel net n (sv_left s) w' reqs2 (st1\<lparr>ss_world := w2\<rparr>) = Some (f, st')"
        using Suc.prems s c Some Inr q by (auto simp: Option.bind_eq_Some_conv)
      ultimately show ?thesis using Suc.IH by metis
    qed
  qed
qed simp

text \<open>A node that acquires the requirements of a task ends its scheduling: it is split or processed there, or at
  a left descendant, which is on the same locality.\<close>

definition left_nodes :: "'g sched_net \<Rightarrow> bool" where
  "left_nodes net \<longleftrightarrow> (\<forall>a s. net a = Some s \<and> \<not> isLeaf a \<longrightarrow> sv_left s = getLeftChild a \<and> net (getLeftChild a) \<noteq> None)"

lemma component_total:
  assumes "acquires R FO fuel (wi_can_split w) tr0 w0 a" and "carried R tr0 w0 reqs (ss_world st)"
  shows "(\<exists>f st'. component_schedule_local P R FO fuel a w reqs st = (Some (Inl f), st')) \<or>
    (\<exists>w' st'. component_schedule_local P R FO fuel a w reqs st = (Some (Inr (w', reqs)), st') \<and> \<not> isLeaf a \<and>
      wi_can_split w' = wi_can_split w \<and> ss_world st' = ss_world st)"
proof -
  obtain numa id where n: "numa_node P (ls_numa_depth (ss_local st (getRank a))) (ls_numa_start (ss_local st (getRank a))) (wi_id w) = (numa, id)"
    by (cases "numa_node P (ls_numa_depth (ss_local st (getRank a))) (ls_numa_start (ss_local st (getRank a))) (wi_id w)")
  have sp: "\<exists>w2. Option.bind (task_add_allowance R FO a reqs (ss_world st)) (task_acquire_split R FO fuel a reqs) = Some w2"
    if "wi_can_split w" using assms that by (simp add: acquires_def)
  have pr: "\<exists>w2. Option.bind (task_add_allowance R FO a reqs (ss_world st)) (task_acquire_process R FO fuel a reqs) = Some w2"
    if "isLeaf a" using assms that by (simp add: acquires_def)
  let ?ls = "(ss_local st (getRank a))\<lparr>ls_tasks_scheduled := ls_tasks_scheduled (ss_local st (getRank a)) + 1\<rparr>"
  consider (split) "do_split P (ss_local st (getRank a)) (w\<lparr>wi_id := id\<rparr>)"
    | (leaf) "\<not> do_split P (ss_local st (getRank a)) (w\<lparr>wi_id := id\<rparr>)" "isLeaf a"
    | (given_back) "\<not> do_split P (ss_local st (getRank a)) (w\<lparr>wi_id := id\<rparr>)" "\<not> isLeaf a" by blast
  then show ?thesis
  proof cases
    case split
    then have "wi_can_split w" by (simp add: do_split_def)
    with split sp n show ?thesis by (auto simp: component_schedule_local_def Let_def)
  next
    case leaf
    with pr n show ?thesis by (auto simp: component_schedule_local_def Let_def)
  next
    case given_back
    with n show ?thesis by (auto simp: component_schedule_local_def Let_def)
  qed
qed

lemma service_schedule_local_total:
  assumes ch: "left_nodes net" and h: "{a. net a \<noteq> None} \<subseteq> hosts w0"
    and ac: "\<And>a. net a \<noteq> None \<Longrightarrow> getRank a = r \<Longrightarrow> acquires R FO fuel b tr0 w0 a"
  shows "net a \<noteq> None \<Longrightarrow> getRank a = r \<Longrightarrow> unat (getLayer a) < n \<Longrightarrow> wi_can_split w = b \<Longrightarrow>
    carried R tr0 w0 reqs (ss_world st) \<Longrightarrow> \<exists>f st'. service_schedule_local P R FO fuel net n a w reqs st = Some (f, st')"
proof (induction n arbitrary: a w reqs st)
  case (Suc n)
  obtain s where s: "net a = Some s" using Suc.prems(1) by blast
  have "acquires R FO fuel (wi_can_split w) tr0 w0 a" using ac [OF Suc.prems(1,2)] Suc.prems(4) by simp
  from component_total [OF this Suc.prems(5), of P] show ?case
  proof
    assume "\<exists>f st'. component_schedule_local P R FO fuel a w reqs st = (Some (Inl f), st')"
    then show ?thesis using s by auto
  next
    assume "\<exists>w' st'. component_schedule_local P R FO fuel a w reqs st = (Some (Inr (w', reqs)), st') \<and> \<not> isLeaf a \<and>
      wi_can_split w' = wi_can_split w \<and> ss_world st' = ss_world st"
    then obtain w' st' where c: "component_schedule_local P R FO fuel a w reqs st = (Some (Inr (w', reqs)), st')"
      "\<not> isLeaf a" "wi_can_split w' = wi_can_split w" "ss_world st' = ss_world st" by blast
    have l: "sv_left s = getLeftChild a" "net (getLeftChild a) \<noteq> None" using ch s c(2) by (auto simp: left_nodes_def)
    have "a \<in> hosts (ss_world st)" using h Suc.prems(1) carried_hosts [OF Suc.prems(5)] by blast
    then obtain tr w1 where w1: "task_add_allowance_left R a reqs (ss_world st) = Some (tr, w1)" "carried R tr0 w0 tr w1"
      using carried_left [OF Suc.prems(5)] by blast
    have "getLayer a \<noteq> 0" using c(2) by (simp add: isLeaf_def)
    then have "0 < unat (getLayer a)" "unat (getLayer (getLeftChild a)) = unat (getLayer a) - 1"
      by (simp_all add: unat_minus_one unat_gt_0)
    then have "unat (getLayer (getLeftChild a)) < n" using Suc.prems(3) by linarith
    then obtain f st2 where "service_schedule_local P R FO fuel net n (getLeftChild a) w' tr (st'\<lparr>ss_world := w1\<rparr>) = Some (f, st2)"
      using Suc.IH [of "getLeftChild a" w' tr "st'\<lparr>ss_world := w1\<rparr>"] l(2) Suc.prems(2,4) c(3) w1(2) by auto
    then show ?thesis using s c l(1) w1(1) by auto
  qed
qed simp

text \<open>Climbing, descending and ending together: shared by the scheduling of a task and by what the dashboard
  sends before.\<close>

lemma scheduling_ends:
  fixes st :: "('r, 'f, 'd, 'p) sched_state"
  assumes "sched_network P N (root_addr pol) (Tree_policy pol) net (ss_world st)" and "left_nodes net"
    and "way_runs P N pol net running (path (wi_id w))" and "get_target P pol (path (wi_id w)) = Some t"
    and "wi_remote w" and "net a \<noteq> None" and "unat (getLayer a) \<le> unat (getLayer (root_addr pol))"
    and "\<And>b. net b \<noteq> None \<Longrightarrow> getRank b = getRank t \<Longrightarrow> acquires R FO fuel (wi_can_split w) (wi_reqs w) (ss_world st) b"
  shows "\<exists>reqs' st1 f st'. schedule P R FO fuel coins running net (3 * unat (getLayer (root_addr pol)) + 3) a w st = Some (f, st') \<and>
    schedule_local P R FO fuel net t w reqs' st1 = Some (f, st') \<and>
    carried R (wi_reqs w) (ss_world st) reqs' (ss_world st1) \<and> ends_on (getRank t) f"
proof -
  let ?s = "schedule P R FO fuel coins running net (3 * unat (getLayer (root_addr pol)) + 3) a w st"
  have "\<exists>reqs' st'. ?s = schedule_local P R FO fuel net t w reqs' st' \<and> carried R (wi_reqs w) (ss_world st) reqs' (ss_world st')"
    by (rule schedule_climbs [OF assms(3,5,4,1,6,7) _ carried.start]) simp
  then obtain reqs' st1 where l: "?s = schedule_local P R FO fuel net t w reqs' st1"
    and m: "carried R (wi_reqs w) (ss_world st) reqs' (ss_world st1)" by blast
  have t: "net t \<noteq> None" using assms(3) target_passes [OF assms(4)] by (simp add: way_runs_def)
  have h: "{a. net a \<noteq> None} \<subseteq> hosts (ss_world st)" using assms(1) by (simp add: sched_network_def)
  obtain f st' where f: "service_schedule_local P R FO fuel net (Suc (unat (getLayer t))) t w reqs' st1 = Some (f, st')"
    using service_schedule_local_total [OF assms(2) h assms(8) t refl _ refl m, of "Suc (unat (getLayer t))" P] by blast
  have "ends_on (getRank t) f"
    by (rule service_schedule_local_rank [OF _ f]) (use assms(2) in \<open>auto simp: left_nodes_def\<close>)
  then show ?thesis using l f m by (auto simp: schedule_local_def)
qed

text \<open>C5: with a tree policy, schedule delivers every task: from whatever node it starts at, the result is that
  the task is split or processed on the rank of the target that the policy has for its path, after schedule\_local
  at that target got it with its own requirements (only the allowances and the entries of the index services
  have changed on the way).  The calls are at most three times the height of the network and three.  The
  services of the way exist and run, and the nodes of the target's rank can acquire the requirements, as they can
  for tasks that require nothing or write to existing items (theory Acquisition).\<close>

theorem task_reaches_target:
  assumes "sched_network P N (root_addr pol) (Tree_policy pol) net (ss_world st)" and "left_nodes net"
    and "way_runs P N pol net running (path (wi_id w))" and "get_target P pol (path (wi_id w)) = Some t"
    and "wi_remote w" and "net a \<noteq> None" and "unat (getLayer a) \<le> unat (getLayer (root_addr pol))"
    and "\<And>b. net b \<noteq> None \<Longrightarrow> getRank b = getRank t \<Longrightarrow> acquires R FO fuel (wi_can_split w) (wi_reqs w) (ss_world st) b"
  shows "\<exists>reqs' st1 f st'. schedule P R FO fuel coins running net (3 * unat (getLayer (root_addr pol)) + 3) a w st = Some (f, st') \<and>
    schedule_local P R FO fuel net t w reqs' st1 = Some (f, st') \<and>
    carried R (wi_reqs w) (ss_world st) reqs' (ss_world st1) \<and> ends_on (getRank t) f"
  by (rule scheduling_ends [OF assms])

text \<open>With the random policy, a task that arrives at a node that is involved is handed over at a node as
  deep as its path is long beyond three, at a leaf, or, if its path is shorter than three, at once.\<close>

theorem random_task_depth:
  assumes "\<And>c. random_on_way P N rt (path (wi_id w)) c \<Longrightarrow> \<exists>s. net c = Some s \<and> sv_policy s = Random_policy rt \<and>
      (\<not> isLeaf c \<longrightarrow> sv_left s = getLeftChild c \<and> sv_right s = service_right N c) \<and> running (getRank c) \<and>
      c \<in> hosts (ss_world st)"
    and "random_on_way P N rt (path (wi_id w)) a" and "unat (getLayer a) < n"
  shows "\<exists>b reqs' st'. schedule_down P R FO fuel coins running net n a w reqs st = schedule_local P R FO fuel net b w reqs' st' \<and>
    (isLeaf b \<or> pt_len P (path (wi_id w)) < 3 \<or>
     int (pt_len P (path (wi_id w))) - 3 = layer_int rt - layer_int b)"
proof -
  let ?p = "path (wi_id w)"
  obtain b i' where b: "descend (\<lambda>a i. Some (random_decide P coins rt a ?p i)) getLeftChild (service_right N) n a (ss_coin st) = Some (b, i')"
      "random_on_way P N rt ?p b" "isLeaf b \<or> (\<exists>j j'. Some (random_decide P coins rt b ?p j) = Some (sd_stay, j'))"
    using random_policy.descend_stops [OF assms(2,3)] by blast
  have "\<exists>reqs' st'. schedule_down P R FO fuel coins running net n a w reqs st = schedule_local P R FO fuel net b w reqs' st' \<and>
      carried R reqs (ss_world st) reqs' (ss_world st') \<and> hosts (ss_world st') = hosts (ss_world st) \<and> ss_coin st' = i'"
  proof (rule random_policy.schedule_down_descends [OF _ _ assms(2) _ refl b(1) carried.start])
    fix c assume c: "random_on_way P N rt ?p c"
    from assms(1) [OF this] obtain s where "net c = Some s" "sv_policy s = Random_policy rt" "running (getRank c)"
      "\<not> isLeaf c \<longrightarrow> sv_left s = getLeftChild c \<and> sv_right s = service_right N c" by blast
    then show "\<exists>s. net c = Some s \<and> policy_is_involved P (sv_policy s) c ?p = Some True \<and>
        policy_decide P coins (sv_policy s) c ?p = (\<lambda>i. Some (random_decide P coins rt c ?p i)) \<and>
        (\<not> isLeaf c \<longrightarrow> sv_left s = getLeftChild c \<and> sv_right s = service_right N c)" "running (getRank c)"
      using c by (auto simp: policy_is_involved_def policy_decide_def fun_eq_iff random_on_way_def)
  next
    show "{a. random_on_way P N rt ?p a} \<subseteq> hosts (ss_world st)" using assms(1) by blast
  qed
  moreover have "isLeaf b \<or> pt_len P ?p < 3 \<or> int (pt_len P ?p) - 3 = layer_int rt - layer_int b"
    using b(3) by (auto simp: random_decide_def split: if_splits)
  ultimately show ?thesis by blast
qed

section \<open>Two localities\<close>

text \<open>A network of two localities: the root (0,1) above the leaves (0,0) and (1,0).\<close>

definition two_rank_service :: "scheduling_policy \<Rightarrow> HierarchyAddress \<Rightarrow> rat scheduler_service" where
  "two_rank_service pol a = \<lparr>sv_value = static_policy, sv_policy = pol, sv_here = a, sv_root = HierarchyAddress 0 1,
    sv_parent = HierarchyAddress 0 1, sv_left = getLeftChild a, sv_right = service_right 2 a,
    sv_parent_id = Some 0, sv_right_id = Some 1, sv_is_root = (a = HierarchyAddress 0 1),
    sv_optimizer = demo_optimizer 2\<rparr>"

definition two_rank_net :: "scheduling_policy \<Rightarrow> rat sched_net" where
  "two_rank_net pol a = (if a \<in> {HierarchyAddress 0 1, HierarchyAddress 0 0, HierarchyAddress 1 0}
     then Some (two_rank_service pol a) else None)"

definition two_rank_item :: "bool list \<Rightarrow> (bool list, uint8_t) work_item" where
  "two_rank_item p = \<lparr>wi_id = \<lparr>locality_id = 0, tid = 1, path = p, numa_depth = 0, cur_numa = 0\<rparr>, wi_can_split = True, wi_remote = True,
    wi_reqs = \<lparr>split_requirements = [], process_requirements = []\<rparr>\<rparr>"

definition two_rank_world :: "(uint8_t, uint8_t, unit) world" where
  "two_rank_world = \<lparr>services = (\<lambda>a. new_index_service 2 (getRank a) a),
    items_of = (\<lambda>_ _. (new_item mask_regions)\<lparr>shared := Some ()\<rparr>)\<rparr>"

definition two_rank_state :: "(uint8_t, uint8_t, unit, bool list) sched_state" where
  "two_rank_state = \<lparr>ss_world = two_rank_world,
    ss_local = (\<lambda>_. \<lparr>ls_numa_depth = 0, ls_numa_start = 0, ls_depth_cut_off = 4, ls_tasks_scheduled = 0\<rparr>),
    ss_coin = 0, ss_dispatched = [], ss_balance = []\<rparr>"

lemma two_rank_hosts: "hosts (ss_world two_rank_state) = UNIV"
proof -
  have "getRootOfNetworkSize 2 = Some (HierarchyAddress 0 1)"
    by (simp add: getRootOfNetworkSize_def getLayersOn_def height_loop.simps)
  then show ?thesis by (simp add: hosts_def two_rank_state_def two_rank_world_def new_index_service_def Let_def)
qed

lemma two_rank_passes:
  "passes list_paths two_rank_policy a [True] \<longleftrightarrow> a = HierarchyAddress 0 1 \<or> a = HierarchyAddress 1 0"
proof -
  have "get_target list_paths two_rank_policy [] = Some (HierarchyAddress 0 1)" by code_simp
  then show ?thesis by (auto simp: passes_def two_rank_target) (auto simp: two_rank_policy_def)
qed

lemma two_rank_routable: "routable list_paths 2 two_rank_policy [True]"
proof -
  have "decide list_paths two_rank_policy a [True] \<noteq> Some sd_done" for a
  proof (cases "isLeaf a")
    case False
    show ?thesis
    proof (cases "a = root_addr two_rank_policy")
      case True
      moreover have "decide list_paths two_rank_policy (HierarchyAddress 0 1) [True] = Some sd_right" by code_simp
      ultimately show ?thesis by (simp add: two_rank_policy_def)
    next
      case nr: False
      have "get_target list_paths two_rank_policy [] = Some (HierarchyAddress 0 1)" by code_simp
      then have "\<not> passes list_paths two_rank_policy a []" using nr by (auto simp: passes_def two_rank_policy_def)
      then have "decide list_paths two_rank_policy a [True] = Some sd_stay"
        using decide_off_way [OF list_paths_ok _ two_rank_target False nr] by simp
      then show ?thesis by simp
    qed
  qed (simp add: decide_def)
  then show ?thesis by (auto simp: routable_def list_paths_ok two_rank_target two_rank_passes)
qed

text \<open>A task for the right half that writes two elements of an item.\<close>

definition two_rank_writer :: "(bool list, uint8_t) work_item" where
  "two_rank_writer = (two_rank_item [True])\<lparr>wi_can_split := False,
    wi_reqs := \<lparr>split_requirements = [],
      process_requirements = [createDataItemRequirement mask_regions (data_item_id 0 0) 3 ReadWrite]\<rparr>\<rparr>"

lemma two_rank_tree_world: "tree_world 1 (ss_world two_rank_state)"
proof -
  have "new_index_service 2 (getRank (nd l j)) (nd l j) = Some (service_at 1 l j (\<lambda>_. None))" if "in_net 1 l j" for l j
    using new_index_service_nd [OF that] by simp
  then show ?thesis by (auto simp: tree_world_def two_rank_state_def two_rank_world_def)
qed

lemma two_rank_acquires:
  "acquires mask_regions mask_fragments 3 False (wi_reqs two_rank_writer) (ss_world two_rank_state) (HierarchyAddress 1 0)"
proof -
  have "acquires mask_regions mask_fragments 3 False (wi_reqs two_rank_writer) (ss_world two_rank_state) (nd 0 1)"
    by (rule acquires_network [OF mask_regions_ok _ _ two_rank_tree_world])
      (auto simp: in_net_def two_rank_writer_def createDataItemRequirement_def two_rank_state_def two_rank_world_def)
  then show ?thesis by (simp add: nd_def node_at_def)
qed

lemma two_rank_network:
  "sched_network list_paths 2 (root_addr two_rank_policy) (Tree_policy two_rank_policy)
    (two_rank_net (Tree_policy two_rank_policy)) (ss_world two_rank_state)"
  "left_nodes (two_rank_net (Tree_policy two_rank_policy))"
proof -
  have "getLeftChild (HierarchyAddress 0 1) = HierarchyAddress 0 0" by (rule HierarchyAddress.expand) simp
  then show "left_nodes (two_rank_net (Tree_policy two_rank_policy))"
    by (auto simp: left_nodes_def two_rank_net_def two_rank_service_def isLeaf_def)
qed (auto simp: sched_network_def two_rank_net_def two_rank_service_def two_rank_hosts sv_balance_def two_rank_policy_def)

theorem task_reaches_target_witness:
  "\<exists>f st'. schedule list_paths mask_regions mask_fragments 3 (\<lambda>_. True) (\<lambda>_. True)
      (two_rank_net (Tree_policy two_rank_policy)) 6 (HierarchyAddress 0 0) two_rank_writer two_rank_state = Some (f, st') \<and>
    ends_on 1 f"
proof -
  let ?net = "two_rank_net (Tree_policy two_rank_policy)" and ?w = two_rank_writer
  have way: "way_runs list_paths 2 two_rank_policy ?net (\<lambda>_. True) (path (wi_id ?w))"
    by (auto simp: way_runs_def two_rank_routable two_rank_passes two_rank_writer_def two_rank_item_def two_rank_net_def)
  have t: "get_target list_paths two_rank_policy (path (wi_id ?w)) = Some (HierarchyAddress 1 0)"
    by (simp add: two_rank_writer_def two_rank_item_def two_rank_target)
  have a: "wi_remote ?w" "?net (HierarchyAddress 0 0) \<noteq> None"
    "unat (getLayer (HierarchyAddress 0 0)) \<le> unat (getLayer (root_addr two_rank_policy))"
    by (simp_all add: two_rank_writer_def two_rank_item_def two_rank_net_def)
  have ac: "acquires mask_regions mask_fragments 3 (wi_can_split ?w) (wi_reqs ?w) (ss_world two_rank_state) b"
    if "?net b \<noteq> None" "getRank b = getRank (HierarchyAddress 1 0)" for b
    using that two_rank_acquires by (auto simp: two_rank_net_def two_rank_writer_def split: if_splits)
  have "3 * unat (getLayer (root_addr two_rank_policy)) + 3 = 6" by (simp add: two_rank_policy_def)
  with task_reaches_target [OF two_rank_network way t a ac, of "\<lambda>_. True"] show ?thesis by fastforce
qed

theorem random_task_depth_witness:
  "\<exists>b reqs' st'. schedule_down list_paths mask_regions mask_fragments 3 (\<lambda>_. True) (\<lambda>_. True)
      (\<lambda>a. Some (two_rank_service (Random_policy (HierarchyAddress 0 1)) a)) 2 (HierarchyAddress 0 1)
      (two_rank_item [True, True, False, True]) (wi_reqs (two_rank_item [])) two_rank_state =
    schedule_local list_paths mask_regions mask_fragments 3
      (\<lambda>a. Some (two_rank_service (Random_policy (HierarchyAddress 0 1)) a)) b
      (two_rank_item [True, True, False, True]) reqs' st' \<and> isLeaf b"
proof -
  let ?rt = "HierarchyAddress 0 1" and ?p = "[True, True, False, True]"
  let ?net = "\<lambda>a. Some (two_rank_service (Random_policy ?rt) a)"
  have p: "path (wi_id (two_rank_item ?p)) = ?p" by (simp add: two_rank_item_def)
  have way: "random_on_way list_paths 2 ?rt (path (wi_id (two_rank_item ?p))) ?rt" 
    by (simp add: p random_on_way_def random_is_involved_def layer_int_def)
  have net: "\<exists>s. ?net c = Some s \<and> sv_policy s = Random_policy ?rt \<and>
      (\<not> isLeaf c \<longrightarrow> sv_left s = getLeftChild c \<and> sv_right s = service_right 2 c) \<and> True \<and>
      c \<in> hosts (ss_world two_rank_state)" for c
    by (simp add: two_rank_service_def two_rank_hosts)
  have "unat (getLayer ?rt) < 2" by simp
  from random_task_depth [of list_paths 2 ?rt "two_rank_item ?p" ?net "\<lambda>_. True", OF net way this,
      of mask_regions mask_fragments 3 "\<lambda>_. True" "wi_reqs (two_rank_item [])"]
  obtain b reqs' st' where b: "schedule_down list_paths mask_regions mask_fragments 3 (\<lambda>_. True) (\<lambda>_. True) ?net 2 ?rt
      (two_rank_item ?p) (wi_reqs (two_rank_item [])) two_rank_state =
      schedule_local list_paths mask_regions mask_fragments 3 ?net b (two_rank_item ?p) reqs' st'"
    "isLeaf b \<or> length ?p < 3 \<or> int (length ?p) - 3 = layer_int ?rt - layer_int b"
    unfolding p list_paths_simps by blast
  have "isLeaf b"
  proof (cases "isLeaf b")
    case False
    then have "int (length ?p) - 3 = layer_int ?rt - layer_int b" using b(2) by auto
    then have "layer_int b = 0" by (simp add: layer_int_def)
    then show ?thesis by (metis layer_int_def isLeaf_def signed_0 sint_0 signed_eq_0_iff)
  qed simp
  then show ?thesis using b(1) by blast
qed

end
