(* ===== verification/Scheduler_Control.thy ===== *)
theory Scheduler_Control
  imports Scheduler
begin

text \<open>The control operations of the scheduler: scheduler::toggle\_node, set\_policy, the setters of the
  exponents, update\_policy and apply\_new\_mapping of src/src/scheduler.cpp, which a locality broadcasts to all
  localities, and which every locality applies to all its services.  A locality has its services in the order
  of the layers, the flag active\_, and the frequency last handed to the monitor.

  All services decide with their own copy of the policy, so the routing of a task (theory Scheduler) needs the
  copies to agree.  The lemmas show that they agree after any sequence of control operations, and that the
  network stays one that routes tasks.\<close>

section \<open>Operations\<close>

record 'f locality_control =
  lc_services :: "'f scheduler_service list"
  lc_active :: bool
  lc_frequency :: "uint64_t option"

datatype 'f control =
    Toggle_node nat
  | Set_policy string
  | Set_speed_exponent 'f
  | Set_efficiency_exponent 'f
  | Set_power_exponent 'f
  | Update_policy "'f list" "bool list" uint64_t
  | Apply_new_mapping "nat list"

text \<open>The calls at one service.\<close>

fun control_service ::
  "'p path_ops \<Rightarrow> 'f farith \<Rightarrow> nat \<Rightarrow> 'f control \<Rightarrow> 'f scheduler_service \<Rightarrow> 'f scheduler_service option" where
  "control_service P F N (Toggle_node node) s = sv_toggle_node P node s"
| "control_service P F N (Set_policy policy) s = sv_set_policy P N policy s"
| "control_service P F N (Set_speed_exponent e) s = Some (sv_set_speed_exponent e s)"
| "control_service P F N (Set_efficiency_exponent e) s = Some (sv_set_efficiency_exponent e s)"
| "control_service P F N (Set_power_exponent e) s = Some (sv_set_power_exponent e s)"
| "control_service P F N (Update_policy task_tms msk freq) s = sv_update_policy P F task_tms msk freq s"
| "control_service P F N (Apply_new_mapping mapping) s = sv_apply_new_mapping P mapping s"

definition for_all_local ::
  "('f scheduler_service \<Rightarrow> 'f scheduler_service option) \<Rightarrow> 'f locality_control \<Rightarrow> 'f locality_control option" where
  "for_all_local op l = map_option (\<lambda>ss. l\<lparr>lc_services := ss\<rparr>) (those (map op (lc_services l)))"

text \<open>What a locality does after its services.\<close>

fun control_after :: "'f control \<Rightarrow> nat \<Rightarrow> 'f locality_control \<Rightarrow> 'f locality_control" where
  "control_after (Toggle_node node) rank l =
    (if rank = node then l\<lparr>lc_active := toggle_active True (lc_active l)\<rparr> else l)"
| "control_after (Set_policy policy) rank l = l\<lparr>lc_active := toggle_active False (lc_active l)\<rparr>"
| "control_after (Update_policy task_tms msk freq) rank l = l\<lparr>lc_frequency := Some freq\<rparr>"
| "control_after op rank l = l"

definition control_local ::
  "'p path_ops \<Rightarrow> 'f farith \<Rightarrow> nat \<Rightarrow> 'f control \<Rightarrow> nat \<Rightarrow> 'f locality_control \<Rightarrow> 'f locality_control option" where
  "control_local P F N op rank l = map_option (control_after op rank) (for_all_local (control_service P F N op) l)"

text \<open>The broadcast to all localities; the position in the list is the rank.\<close>

definition broadcast ::
  "'p path_ops \<Rightarrow> 'f farith \<Rightarrow> nat \<Rightarrow> 'f control \<Rightarrow> 'f locality_control list \<Rightarrow> 'f locality_control list option" where
  "broadcast P F N op ls = those (map (\<lambda>(rank, l). control_local P F N op rank l) (zip [0..<length ls] ls))"

fun control_run ::
  "'p path_ops \<Rightarrow> 'f farith \<Rightarrow> nat \<Rightarrow> 'f control list \<Rightarrow> 'f locality_control list \<Rightarrow> 'f locality_control list option" where
  "control_run P F N [] ls = Some ls"
| "control_run P F N (op # ops) ls = do {ls' \<leftarrow> broadcast P F N op ls; control_run P F N ops ls'}"

text \<open>scheduler::policy and get\_optimizer\_exponents ask the service of layer 0.\<close>

definition local_policy :: "'f locality_control \<Rightarrow> string option" where
  "local_policy l = map_option sv_policy_name (at_opt (lc_services l) 0)"

definition local_exponents :: "'f locality_control \<Rightarrow> ('f \<times> 'f \<times> 'f) option" where
  "local_exponents l = map_option sv_get_optimizer_exponents (at_opt (lc_services l) 0)"

section \<open>Agreement\<close>

definition same_view :: "'f scheduler_service \<Rightarrow> 'f scheduler_service \<Rightarrow> bool" where
  "same_view s t \<longleftrightarrow> sv_value s = sv_value t \<and> sv_policy s = sv_policy t \<and>
     active_nodes (sv_optimizer s) = active_nodes (sv_optimizer t) \<and> go_objective (sv_optimizer s) = go_objective (sv_optimizer t)"

definition all_services :: "'f locality_control list \<Rightarrow> 'f scheduler_service list" where
  "all_services ls = concat (map lc_services ls)"

definition agree :: "'f locality_control list \<Rightarrow> bool" where
  "agree ls \<longleftrightarrow> (\<forall>s \<in> set (all_services ls). \<forall>t \<in> set (all_services ls). same_view s t)"

text \<open>What no control operation changes.\<close>

definition same_place :: "'f scheduler_service \<Rightarrow> 'f scheduler_service \<Rightarrow> bool" where
  "same_place s t \<longleftrightarrow> sv_here s = sv_here t \<and> sv_root s = sv_root t \<and> sv_parent s = sv_parent t \<and> sv_left s = sv_left t \<and>
     sv_right s = sv_right t \<and> sv_parent_id s = sv_parent_id t \<and> sv_right_id s = sv_right_id t \<and> sv_is_root s = sv_is_root t"

lemmas control_defs = sv_toggle_node_def sv_set_policy_def sv_set_speed_exponent_def sv_set_efficiency_exponent_def
  sv_set_power_exponent_def sv_set_exponent_def sv_update_policy_def sv_apply_new_mapping_def

lemma control_service_place: "control_service P F N op s = Some s' \<Longrightarrow> same_place s s'"
  by (cases op) (auto simp: control_defs same_place_def Let_def Option.bind_eq_Some_conv split: if_splits)

lemma control_service_view:
  "same_view s t \<Longrightarrow> control_service P F N op s = Some s' \<Longrightarrow>
    \<exists>t'. control_service P F N op t = Some t' \<and> same_view s' t'"
  by (cases op) (auto simp: control_defs same_view_def Let_def Option.bind_eq_Some_conv split: if_splits)

lemma those_eq_Some: "those xs = Some ys \<longleftrightarrow> xs = map Some ys"
  by (induction xs arbitrary: ys) (auto split: option.splits)

lemma those_map: "those (map f xs) = Some ys \<longleftrightarrow> list_all2 (\<lambda>x y. f x = Some y) xs ys"
  unfolding those_eq_Some by (auto simp: list_eq_iff_nth_eq list_all2_conv_all_nth)

lemma those_map_total: "(\<And>x. x \<in> set xs \<Longrightarrow> f x \<noteq> None) \<Longrightarrow> those (map f xs) \<noteq> None"
  by (induction xs) (fastforce split: option.splits)+

lemma control_local_services:
  "control_local P F N op rank l = Some l' \<Longrightarrow>
    list_all2 (\<lambda>s s'. control_service P F N op s = Some s') (lc_services l) (lc_services l')"
proof -
  assume "control_local P F N op rank l = Some l'"
  then obtain ss where ss: "those (map (control_service P F N op) (lc_services l)) = Some ss"
      "l' = control_after op rank (l\<lparr>lc_services := ss\<rparr>)"
    by (auto simp: control_local_def for_all_local_def)
  moreover have "lc_services (control_after op rank k) = lc_services k" for k by (cases op) auto
  ultimately show ?thesis by (simp add: those_map)
qed

lemma broadcast_services:
  assumes "broadcast P F N op ls = Some ls'"
  shows "list_all2 (\<lambda>s s'. control_service P F N op s = Some s') (all_services ls) (all_services ls')"
proof -
  let ?R = "list_all2 (\<lambda>s s'. control_service P F N op s = Some s')"
  have a: "list_all2 (\<lambda>(rank, l) l'. control_local P F N op rank l = Some l') (zip [0..<length ls] ls) ls'"
    using assms unfolding broadcast_def those_map by (auto elim: list.rel_mono_strong)
  then have "list_all2 (\<lambda>l l'. ?R (lc_services l) (lc_services l')) ls ls'"
    unfolding list_all2_conv_all_nth [of _ ls] list_all2_conv_all_nth [of _ "zip [0..<length ls] ls"]
    using control_local_services by fastforce
  then have "list_all2 ?R (map lc_services ls) (map lc_services ls')" by (simp add: list.rel_map)
  then show ?thesis unfolding all_services_def by (rule concat_transfer [THEN rel_funD])
qed

lemma list_all2_set2: "list_all2 R xs ys \<Longrightarrow> y \<in> set ys \<Longrightarrow> \<exists>x \<in> set xs. R x y"
  by (induction rule: list_all2_induct) auto

lemma broadcast_agree:
  assumes "agree ls" and "broadcast P F N op ls = Some ls'"
  shows "agree ls'"
  unfolding agree_def
proof (intro ballI)
  fix s' t' assume "s' \<in> set (all_services ls')" "t' \<in> set (all_services ls')"
  then obtain s t where s: "s \<in> set (all_services ls)" "control_service P F N op s = Some s'"
    and t: "t \<in> set (all_services ls)" "control_service P F N op t = Some t'"
    using list_all2_set2 [OF broadcast_services [OF assms(2)]] by blast
  have "same_view s t" using assms(1) s(1) t(1) by (simp add: agree_def)
  then show "same_view s' t'" using control_service_view [OF \<open>same_view s t\<close> s(2)] t(2) by auto
qed

lemma control_run_agree: "agree ls \<Longrightarrow> control_run P F N ops ls = Some ls' \<Longrightarrow> agree ls'"
  by (induction ops arbitrary: ls) (auto simp: Option.bind_eq_Some_conv intro: broadcast_agree)

lemma control_run_places: "control_run P F N ops ls = Some ls' \<Longrightarrow> list_all2 same_place (all_services ls) (all_services ls')"
proof (induction ops arbitrary: ls)
  case Nil
  then show ?case by (simp add: list_all2_refl same_place_def)
next
  case (Cons op ops)
  obtain l1 where l1: "broadcast P F N op ls = Some l1" "control_run P F N ops l1 = Some ls'"
    using Cons.prems by (auto simp: Option.bind_eq_Some_conv)
  have "list_all2 same_place (all_services ls) (all_services l1)"
    using broadcast_services [OF l1(1)] by (rule list.rel_mono_strong) (auto intro: control_service_place)
  moreover have "list_all2 same_place (all_services l1) (all_services ls')" by (rule Cons.IH [OF l1(2)])
  ultimately show ?case
    by (rule list_all2_trans [rotated]) (auto simp: same_place_def)
qed

text \<open>Services that are constructed in the same environment agree.\<close>

definition constructed :: "'p path_ops \<Rightarrow> 'f farith \<Rightarrow> nat \<Rightarrow> (string \<Rightarrow> string option) \<Rightarrow> 'f scheduler_service \<Rightarrow> bool" where
  "constructed P F N env s \<longleftrightarrow> (\<exists>g rank a. new_scheduler_service P N env g rank a = Some s \<and>
     active_nodes g = replicate N True \<and> go_objective g = get_default_objective F (env ''ALLSCALE_OBJECTIVE''))"

lemma constructed_agree:
  assumes "\<And>s. s \<in> set (all_services ls) \<Longrightarrow> constructed P F N env s"
  shows "agree ls"
proof -
  have "\<exists>v pol. create_policy_env P N env = Some (v, pol) \<and> sv_value s = v \<and> sv_policy s = pol \<and>
      active_nodes (sv_optimizer s) = replicate N True \<and>
      go_objective (sv_optimizer s) = get_default_objective F (env ''ALLSCALE_OBJECTIVE'')"
    if "s \<in> set (all_services ls)" for s
    using assms [OF that] by (auto simp: constructed_def new_scheduler_service_def Option.bind_eq_Some_conv Let_def)
  then show ?thesis unfolding agree_def same_view_def by (metis option.inject prod.inject)
qed

text \<open>C13: all services of all localities have the same policy, the same active nodes and the same objective,
  after any sequence of control operations from the construction on; and a further operation that one service
  can carry out is carried out everywhere.\<close>

theorem control_agreement:
  assumes "\<And>s. s \<in> set (all_services ls) \<Longrightarrow> constructed P F N env s"
    and "control_run P F N ops ls = Some ls'" and "s \<in> set (all_services ls')"
  shows "(\<forall>t \<in> set (all_services ls'). same_view s t) \<and>
    (control_service P F N op s \<noteq> None \<longrightarrow> broadcast P F N op ls' \<noteq> None)"
proof
  have a: "agree ls'" by (rule control_run_agree [OF constructed_agree assms(2)]) (rule assms(1))
  then show views: "\<forall>t \<in> set (all_services ls'). same_view s t" using assms(3) by (simp add: agree_def)
  show "control_service P F N op s \<noteq> None \<longrightarrow> broadcast P F N op ls' \<noteq> None"
  proof
    assume "control_service P F N op s \<noteq> None"
    then have op: "control_service P F N op t \<noteq> None" if "t \<in> set (all_services ls')" for t
      using control_service_view views that by fastforce
    have "control_local P F N op rank l \<noteq> None" if "l \<in> set ls'" for rank l
    proof -
      have "those (map (control_service P F N op) (lc_services l)) \<noteq> None"
        by (rule those_map_total) (use op that in \<open>auto simp: all_services_def\<close>)
      then show ?thesis by (auto simp: control_local_def for_all_local_def)
    qed
    then show "broadcast P F N op ls' \<noteq> None"
      unfolding broadcast_def by (intro those_map_total) (auto dest: set_zip_rightD)
  qed
qed

section \<open>Routing under control\<close>

text \<open>The services by their address.\<close>

definition net_of :: "'f locality_control list \<Rightarrow> 'f sched_net" where
  "net_of ls = map_of (map (\<lambda>s. (sv_here s, s)) (all_services ls))"

lemma map_of_places:
  "list_all2 same_place xs ys \<Longrightarrow>
    rel_option same_place (map_of (map (\<lambda>s. (sv_here s, s)) xs) a) (map_of (map (\<lambda>s. (sv_here s, s)) ys) a)"
  by (induction rule: list_all2_induct) (auto simp: same_place_def)

lemma net_of_set: "net_of ls a = Some s \<Longrightarrow> s \<in> set (all_services ls)"
  unfolding net_of_def using map_of_SomeD by fastforce

text \<open>Control operations keep a network that routes tasks: if it had one policy and the children and
  parents of the constructor, it has one policy and the same children and parents after them.  The mapping that
  the internode optimizer asks the policy for is left out, as it is defined for tree policies only.\<close>

theorem control_keeps_network:
  assumes "sched_network P N rt pol (net_of ls) w" and "agree ls" and "control_run P F N ops ls = Some ls'"
    and "\<forall>s \<in> set (all_services ls'). sv_value s \<noteq> ino_policy"
  shows "\<exists>pol'. sched_network P N rt pol' (net_of ls') w"
proof -
  have rel: "rel_option same_place (net_of ls a) (net_of ls' a)" for a
    unfolding net_of_def by (rule map_of_places [OF control_run_places [OF assms(3)]])
  have none: "net_of ls a = None \<longleftrightarrow> net_of ls' a = None" for a
    using rel [of a] by (auto simp: option_rel_Some1 option_rel_Some2 elim: option.rel_cases)
  have some: "\<exists>s. net_of ls a = Some s \<and> same_place s s'" if "net_of ls' a = Some s'" for a s'
    using rel [of a] that by (auto simp: option_rel_Some2)
  obtain r where r: "net_of ls' rt = Some r" using assms(1) none [of rt] by (auto simp: sched_network_def)
  have ag: "agree ls'" by (rule control_run_agree [OF assms(2,3)])
  have pol: "sv_policy s = sv_policy r \<and> sv_balance P s \<noteq> None" if "net_of ls' a = Some s" for a s
  proof -
    have "same_view s r" using ag net_of_set [OF that] net_of_set [OF r] by (simp add: agree_def)
    moreover have "sv_value s \<noteq> ino_policy" using assms(4) net_of_set [OF that] by blast
    ultimately show ?thesis by (auto simp: same_view_def sv_balance_def split: policy_value.splits)
  qed
  have "sched_network P N rt (sv_policy r) (net_of ls') w"
    unfolding sched_network_def
  proof (intro conjI allI impI)
    show "{a. net_of ls' a \<noteq> None} \<subseteq> hosts w" "net_of ls' rt \<noteq> None"
      using assms(1) none by (simp_all add: sched_network_def)
    fix a s' assume s': "net_of ls' a = Some s'"
    obtain s where s: "net_of ls a = Some s" "same_place s s'" using some [OF s'] by blast
    show "sv_policy s' = sv_policy r" "sv_balance P s' \<noteq> None" using pol [OF s'] by auto
    have n: "(sv_is_root s \<longleftrightarrow> a = rt) \<and>
       (\<not> isLeaf a \<longrightarrow> sv_left s = getLeftChild a \<and> sv_right s = service_right N a) \<and>
       (a \<noteq> rt \<longrightarrow> net_of ls (sv_parent s) \<noteq> None \<and> unat (getLayer (sv_parent s)) = unat (getLayer a) + 1 \<and>
          unat (getLayer a) < unat (getLayer rt))"
      using assms(1) s(1) by (simp add: sched_network_def)
    show "sv_is_root s' = (a = rt)" "\<not> isLeaf a \<Longrightarrow> sv_left s' = getLeftChild a" "\<not> isLeaf a \<Longrightarrow> sv_right s' = service_right N a"
      "a \<noteq> rt \<Longrightarrow> net_of ls' (sv_parent s') \<noteq> None" "a \<noteq> rt \<Longrightarrow> unat (getLayer (sv_parent s')) = unat (getLayer a) + 1"
      "a \<noteq> rt \<Longrightarrow> unat (getLayer a) < unat (getLayer rt)"
      using n s(2) none by (auto simp: same_place_def)
  qed
  then show ?thesis by blast
qed

section \<open>Two localities under control\<close>

definition random_env :: "string \<Rightarrow> string option" where
  "random_env v = (if v = ''ALLSCALE_SCHEDULING_POLICY'' then Some ''random'' else None)"

definition two_rank_control :: "rat locality_control list" where
  "two_rank_control =
    [\<lparr>lc_services = [two_rank_service (Random_policy (HierarchyAddress 0 1)) (HierarchyAddress 0 0),
        two_rank_service (Random_policy (HierarchyAddress 0 1)) (HierarchyAddress 0 1)],
      lc_active = True, lc_frequency = None\<rparr>,
     \<lparr>lc_services = [two_rank_service (Random_policy (HierarchyAddress 0 1)) (HierarchyAddress 1 0)],
      lc_active = True, lc_frequency = None\<rparr>]"

lemma two_rank_root: "getRootOfNetworkSize 2 = Some (HierarchyAddress 0 1)"
  by (simp add: getRootOfNetworkSize_def getLayersOn_def height_loop.simps)

theorem control_keeps_network_witness:
  "\<exists>ls' pol'. control_run list_paths rat_arith 2 [Set_speed_exponent 2, Set_policy ''random''] two_rank_control = Some ls' \<and>
    sched_network list_paths 2 (HierarchyAddress 0 1) pol' (net_of ls') two_rank_world"
proof -
  let ?ops = "[Set_speed_exponent 2, Set_policy ''random'']"
  have n: "sched_network list_paths 2 (HierarchyAddress 0 1) (Random_policy (HierarchyAddress 0 1)) (net_of two_rank_control)
      two_rank_world"
    using two_rank_hosts
    by (auto simp: sched_network_def net_of_def all_services_def two_rank_control_def two_rank_service_def sv_balance_def
        two_rank_state_def)
  have a: "agree two_rank_control"
    by (auto simp: agree_def all_services_def two_rank_control_def same_view_def two_rank_service_def)
  have c: "create_policy list_paths 2 ''random'' = Some (random_policy, Random_policy (HierarchyAddress 0 1))"
    using two_rank_root by (simp add: create_policy_def Let_def)
  obtain ls' where ls': "control_run list_paths rat_arith 2 ?ops two_rank_control = Some ls'"
    "\<forall>s \<in> set (all_services ls'). sv_value s = random_policy"
    by (simp add: broadcast_def control_local_def for_all_local_def two_rank_control_def sv_set_speed_exponent_def
        sv_set_exponent_def sv_set_policy_def c all_services_def upt_rec Let_def)
  show ?thesis using control_keeps_network [OF n a ls'(1)] ls' by auto
qed

theorem control_agreement_witness:
  "\<exists>l. (\<forall>s \<in> set (all_services [l]). constructed list_paths rat_arith 2 random_env s) \<and>
    (\<exists>l'. control_run list_paths rat_arith 2 [Set_power_exponent 2] [l] = Some [l'] \<and> length (lc_services l') = 2 \<and>
      (\<forall>s \<in> set (lc_services l'). \<forall>t \<in> set (lc_services l'). same_view s t))"
proof -
  have c: "create_policy_env list_paths 2 random_env = Some (random_policy, Random_policy (HierarchyAddress 0 1))"
    using two_rank_root by (simp add: create_policy_env_def random_env_def create_policy_def Let_def)
  have g: "go_objective (demo_optimizer 2) = get_default_objective rat_arith (random_env ''ALLSCALE_OBJECTIVE'')"
    by (simp add: demo_optimizer_def new_global_optimizer_def demo_env_def random_env_def starts_with_ino_def lower_def
        rat_fpu_def Let_def)
  have "\<exists>s. new_scheduler_service list_paths 2 random_env (demo_optimizer 2) 0 a = Some s" for a
    using two_rank_root c by (simp add: new_scheduler_service_def Let_def)
  then obtain s0 s1 where s: "new_scheduler_service list_paths 2 random_env (demo_optimizer 2) 0 (HierarchyAddress 0 0) = Some s0"
    "new_scheduler_service list_paths 2 random_env (demo_optimizer 2) 0 (HierarchyAddress 0 1) = Some s1" by blast
  let ?l = "\<lparr>lc_services = [s0, s1], lc_active = True, lc_frequency = None\<rparr>"
  let ?l' = "\<lparr>lc_services = [sv_set_power_exponent 2 s0, sv_set_power_exponent 2 s1], lc_active = True, lc_frequency = None\<rparr>"
  have k: "\<And>s. s \<in> set (all_services [?l]) \<Longrightarrow> constructed list_paths rat_arith 2 random_env s"
    using s g demo_optimizer_simps(1) [of 2] by (auto simp: all_services_def constructed_def)
  have r: "control_run list_paths rat_arith 2 [Set_power_exponent 2] [?l] = Some [?l']"
    by (simp add: broadcast_def control_local_def for_all_local_def)
  have "same_view s t" if "s \<in> set (lc_services ?l')" "t \<in> set (lc_services ?l')" for s t
    using control_agreement [OF k r, of s, THEN conjunct1] that by (auto simp: all_services_def)
  then show ?thesis using k r by (intro exI [of _ ?l] conjI exI [of _ ?l']) simp_all
qed

end
