(* ===== verification/Step_Systems.thy ===== *)
theory Step_Systems
  imports Prelude
begin

text \<open>
  The interfaces of the components that are step relations: step\_invariant is a relation with an invariant that holds at the start and
  that every step keeps, and ending\_steps one in which every step makes a weight smaller, in a well-founded order.  What follows for the
  runs is proved once, and the step relations of the components are interpretations.
\<close>

locale step_invariant =
  fixes step :: "'s \<Rightarrow> 's \<Rightarrow> bool" and start :: "'s \<Rightarrow> bool" and inv :: "'s \<Rightarrow> bool"
  assumes inv_start: "start s \<Longrightarrow> inv s"
    and inv_step: "inv s \<Longrightarrow> step s s' \<Longrightarrow> inv s'"
begin

lemma steps_inv: "step\<^sup>*\<^sup>* s s' \<Longrightarrow> inv s \<Longrightarrow> inv s'"
  by (induction rule: rtranclp_induct) (auto intro: inv_step)

lemma reachable_inv: "start s \<Longrightarrow> step\<^sup>*\<^sup>* s s' \<Longrightarrow> inv s'"
  using steps_inv inv_start by blast

lemma infinite_run_inv: "start (f 0) \<Longrightarrow> (\<And>n. step (f n) (f (Suc n))) \<Longrightarrow> inv (f n)"
  by (induction n) (auto intro: inv_start inv_step)

end

locale ending_steps = step_invariant +
  fixes weight :: "'a \<Rightarrow> 'w" and smaller :: "('w \<times> 'w) set"
  assumes wf_smaller: "wf smaller"
    and step_smaller: "inv s \<Longrightarrow> step s s' \<Longrightarrow> (weight s', weight s) \<in> smaller"
begin

lemma no_infinite_run: "\<nexists>f. start (f 0) \<and> (\<forall>n. step (f n) (f (Suc n)))"
proof
  assume "\<exists>f. start (f 0) \<and> (\<forall>n. step (f n) (f (Suc n)))"
  then obtain f where f: "start (f 0)" "\<And>n. step (f n) (f (Suc n))" by blast
  have "\<exists>g. \<forall>n. (g (Suc n), g n) \<in> smaller"
    using step_smaller [OF infinite_run_inv [OF f] f(2)] by (intro exI [of _ "\<lambda>n. weight (f n)"]) simp
  then show False using wf_smaller unfolding wf_iff_no_infinite_down_chain by blast
qed

lemma run_ends: "inv s \<Longrightarrow> \<exists>s'. step\<^sup>*\<^sup>* s s' \<and> (\<nexists>s''. step s' s'')"
proof (induction "weight s" arbitrary: s rule: wf_induct_rule [OF wf_smaller])
  case (1 s)
  show ?case
  proof (cases "\<exists>t. step s t")
    case True
    then obtain t where t: "step s t" by blast
    then obtain s' where "step\<^sup>*\<^sup>* t s'" "\<nexists>s''. step s' s''"
      using 1(1) [OF step_smaller [OF 1(2) t] inv_step [OF 1(2) t]] by blast
    then show ?thesis using t by (meson converse_rtranclp_into_rtranclp)
  qed auto
qed

end

end
