(* ===== verification/Resilience.thy ===== *)
theory Resilience
  imports Step_Systems Ordered_Maps "HOL-Library.Word"
begin

text \<open>The resilience component: src/components/resilience\_component.cpp with
  allscale/components/resilience.hpp, and rank\_running of src/resilience.cpp.  The localities form a
  ring.  Every locality sends a heartbeat to its guard, the next locality, and watches the heartbeat of its
  protectee, the one before.  When a protectee falls silent, its guard takes over the protectee of the
  protectee, and tells all localities around the ring that the rank is dead, which schedule the work items
  again that they had dispatched there.

  The state of a locality is a record, the network a record of the localities, the crashed ranks and the
  messages under way.  The remote calls of protectee\_crashed, which wait for their answer, are part of the
  step of the caller; a call to a crashed locality has no answer.  Futures of localities are the ranks they
  were made from.  Work items are a type parameter.  The printed messages are left out.\<close>

section \<open>The state of a locality\<close>

datatype trust_state = TRUST | SUSPECT | RECOVERING

record 'w resilience =
  rs_rank :: nat
  env_resilience_disabled :: bool
  my_state :: trust_state
  keep_running :: bool
  recovery_done :: bool
  my_heartbeat :: nat
  protectee_heartbeat :: nat
  rank_running_bits :: "bool list"
  num_localities :: "64 word"
  guard_rank :: nat
  protectee_rank :: nat
  protectees_protectee_rank :: nat
  delegated_items :: "nat \<Rightarrow> 'w list"
  scheduled_again :: "'w list"

text \<open>delta / 1000, in seconds.\<close>

definition heartbeat_delta :: nat where
  "heartbeat_delta = 10000 div 1000"

text \<open>The bits of rank\_running\_ are counted.\<close>

definition get_running_ranks :: "'w resilience \<Rightarrow> nat" where
  "get_running_ranks v = count_list (rank_running_bits v) True"

text \<open>rank\_running of the component, and of the module; an index behind the bits is not allowed.\<close>

definition component_rank_running :: "nat \<Rightarrow> 'w resilience \<Rightarrow> bool option" where
  "component_rank_running r v =
    (if env_resilience_disabled v then Some True
     else if r < length (rank_running_bits v) then Some (rank_running_bits v ! r) else None)"

definition rank_running :: "nat \<Rightarrow> 'w resilience \<Rightarrow> bool option" where
  "rank_running r v = (if rs_rank v = r then Some True else component_rank_running r v)"

text \<open>The component before init, and init of the locality rank of n localities; env is the variable
  ALLSCALE\_RESILIENCE.  A disabled component keeps the members as they are.\<close>

definition new_resilience :: "nat \<Rightarrow> 'w resilience" where
  "new_resilience r = \<lparr>rs_rank = r, env_resilience_disabled = False, my_state = TRUST, keep_running = False,
    recovery_done = False, my_heartbeat = 0, protectee_heartbeat = 0, rank_running_bits = [],
    num_localities = 0, guard_rank = 0, protectee_rank = 0, protectees_protectee_rank = 0,
    delegated_items = (\<lambda>_. []), scheduled_again = []\<rparr>"

definition left_rank :: "nat \<Rightarrow> nat \<Rightarrow> nat" where
  "left_rank n r = (if r = 0 then n - 1 else r - 1)"

definition right_rank :: "nat \<Rightarrow> nat \<Rightarrow> nat" where
  "right_rank n r = (r + 1) mod n"

definition init_resilience :: "string option \<Rightarrow> nat \<Rightarrow> 'w resilience \<Rightarrow> 'w resilience" where
  "init_resilience env n v =
    (let v = v\<lparr>env_resilience_disabled := (case env of Some (c # _) \<Rightarrow> c = CHR ''0'' | _ \<Rightarrow> False)\<rparr> in
     if env_resilience_disabled v then v
     else
       let v = v\<lparr>num_localities := word_of_nat n\<rparr> in
       if num_localities v < 2 then v\<lparr>env_resilience_disabled := True\<rparr>
       else
         v\<lparr>rank_running_bits := rank_running_bits v @ replicate (n - length (rank_running_bits v)) True,
           my_state := TRUST, my_heartbeat := 0, protectee_heartbeat := 0, keep_running := True,
           recovery_done := False, guard_rank := right_rank n (rs_rank v),
           protectee_rank := left_rank n (rs_rank v),
           protectees_protectee_rank := left_rank n (left_rank n (rs_rank v))\<rparr>)"

text \<open>The test of failure\_detection\_loop\_async and of shutdown.\<close>

definition ring_active :: "'w resilience \<Rightarrow> bool" where
  "ring_active v \<longleftrightarrow> \<not> (get_running_ranks v < 2 \<or> env_resilience_disabled v)"

section \<open>Operations of a locality\<close>

definition send_heartbeat :: "nat \<Rightarrow> 'w resilience \<Rightarrow> 'w resilience" where
  "send_heartbeat counter v = v\<lparr>protectee_heartbeat := counter\<rparr>"

definition set_guard :: "nat \<Rightarrow> 'w resilience \<Rightarrow> 'w resilience" where
  "set_guard r v = v\<lparr>guard_rank := r\<rparr>"

definition get_protectee :: "'w resilience \<Rightarrow> nat" where
  "get_protectee v = protectee_rank v"

text \<open>A dispatched work item is kept under the rank it was sent to; the values of a key of a multimap are in
  the order of their insertion.  When a work item is finished, find gives the iterator of one of the items
  of that rank, the one at the position j, and this one is erased.\<close>

definition work_item_dispatched :: "'w \<Rightarrow> nat \<Rightarrow> 'w resilience \<Rightarrow> 'w resilience" where
  "work_item_dispatched w r v =
    (if env_resilience_disabled v then v
     else v\<lparr>delegated_items := (delegated_items v)(r := delegated_items v r @ [w])\<rparr>)"

definition work_item_finished :: "nat \<Rightarrow> nat \<Rightarrow> 'w resilience \<Rightarrow> 'w resilience" where
  "work_item_finished j r v =
    (let ws = delegated_items v r
     in v\<lparr>delegated_items := (delegated_items v)(r := take j ws @ drop (Suc j) ws)\<rparr>)"

datatype resilience_msg =
    Heartbeat nat nat
  | Reschedule nat nat nat

text \<open>The messages have a destination; a heartbeat has its counter, and the call of
  reschedule\_dispatched\_to\_dead the dead rank and the token.  mark\_dead is what
  reschedule\_dispatched\_to\_dead changes; its work items go to scheduler::schedule in the order of the
  multimap.\<close>

fun msg_dest :: "resilience_msg \<Rightarrow> nat" where
  "msg_dest (Heartbeat dst _) = dst"
| "msg_dest (Reschedule dst _ _) = dst"

definition mark_dead :: "nat \<Rightarrow> 'w resilience \<Rightarrow> 'w resilience" where
  "mark_dead r v =
    (let ws = delegated_items v r;
         v = v\<lparr>delegated_items := (delegated_items v)(r := [])\<rparr>;
         v = v\<lparr>rank_running_bits := (rank_running_bits v)[r := False], num_localities := num_localities v - 1\<rparr>;
         v = (if num_localities v < 2 then v\<lparr>keep_running := False\<rparr> else v)
     in v\<lparr>scheduled_again := scheduled_again v @ ws\<rparr>)"

definition reschedule_dispatched_to_dead ::
  "nat \<Rightarrow> nat \<Rightarrow> 'w resilience \<Rightarrow> ('w resilience \<times> resilience_msg list) option" where
  "reschedule_dispatched_to_dead r token v =
    (if length (rank_running_bits v) \<le> r then None
     else
       let v = mark_dead r v; token = token + 1
       in Some (v, if token < get_running_ranks v then [Reschedule (guard_rank v) r token] else []))"

definition get_cp_granularity :: int where
  "get_cp_granularity = 3"

section \<open>The network\<close>

record 'w ring_net =
  rn_node :: "nat \<Rightarrow> 'w resilience"
  rn_crashed :: "nat \<Rightarrow> bool"
  rn_msgs :: "resilience_msg list"

definition upd_node :: "nat \<Rightarrow> ('w resilience \<Rightarrow> 'w resilience) \<Rightarrow> 'w ring_net \<Rightarrow> 'w ring_net" where
  "upd_node r f s = s\<lparr>rn_node := (rn_node s)(r := f (rn_node s r))\<rparr>"

text \<open>protectee\_crashed at the locality r: both calls go to the new protectee, and the call of
  reschedule\_dispatched\_to\_dead at r itself is queued.\<close>

definition protectee_crashed :: "nat \<Rightarrow> 'w ring_net \<Rightarrow> 'w ring_net option" where
  "protectee_crashed r s =
    (let dead = protectee_rank (rn_node s r);
         s = upd_node r (\<lambda>v. v\<lparr>protectee_rank := protectees_protectee_rank v\<rparr>) s;
         p = protectee_rank (rn_node s r) in
     if rn_crashed s p then None
     else
       let s = upd_node p (set_guard (rs_rank (rn_node s r))) s;
           s = upd_node r (\<lambda>v. v\<lparr>protectees_protectee_rank := get_protectee (rn_node s p)\<rparr>) s
       in Some (s\<lparr>rn_msgs := rn_msgs s @ [Reschedule r dead 0]\<rparr>))"

text \<open>One round of send\_heartbeat\_loop at the time now, in seconds since the start.\<close>

definition heartbeat_round :: "nat \<Rightarrow> nat \<Rightarrow> 'w ring_net \<Rightarrow> 'w ring_net option" where
  "heartbeat_round now r s =
    (let s = upd_node r (\<lambda>v. v\<lparr>my_heartbeat := now\<rparr>) s;
         s = s\<lparr>rn_msgs := rn_msgs s @ [Heartbeat (guard_rank (rn_node s r)) now]\<rparr> in
     if protectee_heartbeat (rn_node s r) + heartbeat_delta < now
     then protectee_crashed r (upd_node r (\<lambda>v. v\<lparr>my_state := SUSPECT\<rparr>) s)
     else Some s)"

text \<open>A message arrives; at a crashed locality it is lost.\<close>

fun receive :: "resilience_msg \<Rightarrow> 'w ring_net \<Rightarrow> 'w ring_net option" where
  "receive (Heartbeat dst counter) s = Some (if rn_crashed s dst then s else upd_node dst (send_heartbeat counter) s)"
| "receive (Reschedule dst r token) s =
    (if rn_crashed s dst then Some s
     else do {
       (v, ms) \<leftarrow> reschedule_dispatched_to_dead r token (rn_node s dst);
       Some (upd_node dst (\<lambda>_. v) s\<lparr>rn_msgs := rn_msgs s @ ms\<rparr>)})"

definition deliver :: "nat \<Rightarrow> 'w ring_net \<Rightarrow> 'w ring_net option" where
  "deliver i s = receive (rn_msgs s ! i) (s\<lparr>rn_msgs := take i (rn_msgs s) @ drop (Suc i) (rn_msgs s)\<rparr>)"

text \<open>shutdown goes around the ring; every call waits for the next one.  The fuel bounds the calls.\<close>

fun shutdown :: "nat \<Rightarrow> nat \<Rightarrow> nat \<Rightarrow> 'w ring_net \<Rightarrow> 'w ring_net option" where
  "shutdown 0 r token s = None"
| "shutdown (Suc m) r token s =
    (if rn_crashed s r then None
     else if ring_active (rn_node s r) then
       let s = upd_node r (\<lambda>v. v\<lparr>keep_running := False\<rparr>) s in
       if token < get_running_ranks (rn_node s r) then shutdown m (guard_rank (rn_node s r)) (token + 1) s
       else Some s
     else Some s)"

text \<open>n localities after init, with a variable ALLSCALE\_RESILIENCE each.\<close>

definition start_ring :: "(nat \<Rightarrow> string option) \<Rightarrow> nat \<Rightarrow> 'w ring_net" where
  "start_ring env n = \<lparr>rn_node = (\<lambda>r. init_resilience (env r) n (new_resilience r)),
    rn_crashed = (\<lambda>r. n \<le> r), rn_msgs = []\<rparr>"

section \<open>Runs of the network\<close>

text \<open>Localities crash, send their heartbeats as their clock goes on, receive messages in any order, dispatch
  work items, and are told that a work item is finished.\<close>

inductive ring_step :: "nat \<Rightarrow> 'w ring_net \<Rightarrow> 'w ring_net \<Rightarrow> bool" for n where
  crash: "r < n \<Longrightarrow> ring_step n s (s\<lparr>rn_crashed := (rn_crashed s)(r := True)\<rparr>)"
| heartbeat: "r < n \<Longrightarrow> \<not> rn_crashed s r \<Longrightarrow> \<not> env_resilience_disabled (rn_node s r) \<Longrightarrow> keep_running (rn_node s r) \<Longrightarrow>
    my_heartbeat (rn_node s r) \<le> now \<Longrightarrow> heartbeat_round now r s = Some s' \<Longrightarrow> ring_step n s s'"
| arrival: "i < length (rn_msgs s) \<Longrightarrow> deliver i s = Some s' \<Longrightarrow> ring_step n s s'"
| dispatched: "r < n \<Longrightarrow> \<not> rn_crashed s r \<Longrightarrow> dst < n \<Longrightarrow> ring_step n s (upd_node r (work_item_dispatched w dst) s)"
| finished: "r < n \<Longrightarrow> \<not> rn_crashed s r \<Longrightarrow> j < length (delegated_items (rn_node s r) dst) \<Longrightarrow>
    ring_step n s (upd_node r (work_item_finished j dst) s)"

definition node_ok :: "nat \<Rightarrow> 'w resilience \<Rightarrow> bool" where
  "node_ok n v \<longleftrightarrow> length (rank_running_bits v) = n \<and> rs_rank v < n \<and> guard_rank v < n \<and> protectee_rank v < n \<and>
    protectees_protectee_rank v < n \<and> \<not> env_resilience_disabled v"

fun msg_ok :: "nat \<Rightarrow> resilience_msg \<Rightarrow> bool" where
  "msg_ok n (Heartbeat dst _) \<longleftrightarrow> dst < n"
| "msg_ok n (Reschedule dst r token) \<longleftrightarrow> dst < n \<and> r < n \<and> token < n"

definition net_ok :: "nat \<Rightarrow> 'w ring_net \<Rightarrow> bool" where
  "net_ok n s \<longleftrightarrow> (\<forall>r < n. rs_rank (rn_node s r) = r \<and> node_ok n (rn_node s r)) \<and> list_all (msg_ok n) (rn_msgs s)"

lemma upd_node_sel [simp]:
  "rn_node (upd_node r f s) = (rn_node s)(r := f (rn_node s r))" "rn_crashed (upd_node r f s) = rn_crashed s"
  "rn_msgs (upd_node r f s) = rn_msgs s"
  by (simp_all add: upd_node_def)

lemma net_ok_upd:
  "net_ok n s \<Longrightarrow> (r < n \<Longrightarrow> rs_rank (rn_node s r) = r \<Longrightarrow> node_ok n (rn_node s r) \<Longrightarrow>
    rs_rank (f (rn_node s r)) = r \<and> node_ok n (f (rn_node s r))) \<Longrightarrow> net_ok n (upd_node r f s)"
  by (simp add: net_ok_def)

lemma net_ok_node: "net_ok n s \<Longrightarrow> r < n \<Longrightarrow> node_ok n (rn_node s r)"
  by (simp add: net_ok_def)

lemma net_ok_send: "net_ok n s \<Longrightarrow> list_all (msg_ok n) ms \<Longrightarrow> net_ok n (s\<lparr>rn_msgs := rn_msgs s @ ms\<rparr>)"
  by (simp add: net_ok_def)

lemma mark_dead_sel [simp]:
  "rs_rank (mark_dead r v) = rs_rank v" "guard_rank (mark_dead r v) = guard_rank v"
  "protectee_rank (mark_dead r v) = protectee_rank v" "protectees_protectee_rank (mark_dead r v) = protectees_protectee_rank v"
  "env_resilience_disabled (mark_dead r v) = env_resilience_disabled v"
  "rank_running_bits (mark_dead r v) = (rank_running_bits v)[r := False]"
  "delegated_items (mark_dead r v) = (delegated_items v)(r := [])"
  "scheduled_again (mark_dead r v) = scheduled_again v @ delegated_items v r"
  "protectee_heartbeat (mark_dead r v) = protectee_heartbeat v"
  by (simp_all add: mark_dead_def Let_def)

lemma running_le: "get_running_ranks v \<le> length (rank_running_bits v)"
  by (simp add: get_running_ranks_def count_le_length)

lemma protectee_crashed_ok:
  assumes "net_ok n s" and "r < n" and "protectee_crashed r s = Some s'"
  shows "net_ok n s'"
proof -
  let ?p = "protectees_protectee_rank (rn_node s r)"
  have v: "node_ok n (rn_node s r)" "rs_rank (rn_node s r) = r" using assms(1,2) by (simp_all add: net_ok_def)
  have p: "?p < n" using v by (simp add: node_ok_def)
  let ?s1 = "upd_node r (\<lambda>v. v\<lparr>protectee_rank := protectees_protectee_rank v\<rparr>) s"
  let ?s2 = "upd_node ?p (set_guard r) ?s1"
  let ?s3 = "upd_node r (\<lambda>v. v\<lparr>protectees_protectee_rank := get_protectee (rn_node ?s2 ?p)\<rparr>) ?s2"
  have 1: "net_ok n ?s1" using assms(1) by (rule net_ok_upd) (auto simp: node_ok_def)
  have 2: "net_ok n ?s2" using 1 by (rule net_ok_upd) (use assms(2) in \<open>auto simp: node_ok_def set_guard_def\<close>)
  have q: "get_protectee (rn_node ?s2 ?p) < n"
    using net_ok_node [OF 2 p] unfolding get_protectee_def node_ok_def by blast
  have 3: "net_ok n ?s3" using 2 by (rule net_ok_upd) (simp add: node_ok_def q del: upd_node_sel)
  have "protectee_rank (rn_node s r) < n" using v by (simp add: node_ok_def)
  then have "net_ok n (?s3\<lparr>rn_msgs := rn_msgs ?s3 @ [Reschedule r (protectee_rank (rn_node s r)) 0]\<rparr>)"
    using 3 assms(2) by (intro net_ok_send) auto
  then show ?thesis using assms(3) v(2) by (auto simp: protectee_crashed_def Let_def split: if_splits)
qed

lemma heartbeat_round_ok:
  assumes "net_ok n s" and "r < n" and "heartbeat_round now r s = Some s'"
  shows "net_ok n s'"
proof -
  let ?s1 = "upd_node r (\<lambda>v. v\<lparr>my_heartbeat := now\<rparr>) s"
  let ?s2 = "?s1\<lparr>rn_msgs := rn_msgs ?s1 @ [Heartbeat (guard_rank (rn_node ?s1 r)) now]\<rparr>"
  let ?s3 = "upd_node r (\<lambda>v. v\<lparr>my_state := SUSPECT\<rparr>) ?s2"
  have 1: "net_ok n ?s1" using assms(1) by (rule net_ok_upd) (auto simp: node_ok_def)
  have "guard_rank (rn_node ?s1 r) < n" using net_ok_node [OF 1 assms(2)] unfolding node_ok_def by blast
  then have 2: "net_ok n ?s2" using 1 by (intro net_ok_send) auto
  then have 3: "net_ok n ?s3" by (rule net_ok_upd) (auto simp: node_ok_def)
  show ?thesis
  proof (cases "protectee_heartbeat (rn_node ?s2 r) + heartbeat_delta < now")
    case True
    then have "protectee_crashed r ?s3 = Some s'" using assms(3) by (simp add: heartbeat_round_def Let_def)
    then show ?thesis by (rule protectee_crashed_ok [OF 3 assms(2)])
  next
    case False
    then have "s' = ?s2" using assms(3) by (simp add: heartbeat_round_def Let_def)
    then show ?thesis using 2 by simp
  qed
qed

lemma receive_ok:
  assumes "net_ok n s" and "msg_ok n m"
  shows "\<exists>s'. receive m s = Some s' \<and> net_ok n s'"
proof (cases m)
  case (Heartbeat dst c)
  have "net_ok n (upd_node dst (send_heartbeat c) s)"
    using assms(1) by (rule net_ok_upd) (auto simp: node_ok_def send_heartbeat_def)
  then show ?thesis using assms(1) Heartbeat by simp
next
  case (Reschedule dst r token)
  have v: "node_ok n (rn_node s dst)" "dst < n" "r < n" using assms Reschedule by (auto simp: net_ok_def)
  let ?v = "mark_dead r (rn_node s dst)"
  let ?ms = "if token + 1 < get_running_ranks ?v then [Reschedule (guard_rank ?v) r (token + 1)] else []"
  have e: "receive m s = Some (if rn_crashed s dst then s else (upd_node dst (\<lambda>_. ?v) s)\<lparr>rn_msgs := rn_msgs s @ ?ms\<rparr>)"
    using v by (simp add: Reschedule reschedule_dispatched_to_dead_def node_ok_def)
  have "get_running_ranks ?v \<le> n" using running_le [of ?v] v(1) by (simp add: node_ok_def)
  then have ms: "list_all (msg_ok n) ?ms" using v by (auto simp: node_ok_def)
  have "net_ok n (upd_node dst (\<lambda>_. ?v) s)" using assms(1) by (rule net_ok_upd) (auto simp: node_ok_def)
  from net_ok_send [OF this ms] show ?thesis using e assms(1) by simp
qed

lemma deliver_ok:
  assumes "net_ok n s" and "i < length (rn_msgs s)"
  shows "\<exists>s'. deliver i s = Some s' \<and> net_ok n s'"
proof -
  let ?s = "s\<lparr>rn_msgs := take i (rn_msgs s) @ drop (Suc i) (rn_msgs s)\<rparr>"
  have "set (rn_msgs ?s) \<subseteq> set (rn_msgs s)" using set_take_subset set_drop_subset by fastforce
  then have "net_ok n ?s" "msg_ok n (rn_msgs s ! i)"
    using assms by (auto simp: net_ok_def list_all_iff)
  then show ?thesis using receive_ok unfolding deliver_def by blast
qed

lemma ring_step_ok: "ring_step n s s' \<Longrightarrow> net_ok n s \<Longrightarrow> net_ok n s'"
proof (induction rule: ring_step.induct)
  case (crash r s)
  then show ?case by (simp add: net_ok_def)
next
  case (heartbeat r s now s')
  then show ?case using heartbeat_round_ok by blast
next
  case (arrival i s s')
  then show ?case using deliver_ok by fastforce
next
  case (dispatched r s dst w)
  show ?case using dispatched(4) by (rule net_ok_upd) (auto simp: node_ok_def work_item_dispatched_def)
next
  case (finished r s j dst)
  show ?case using finished(4) by (rule net_ok_upd) (auto simp: node_ok_def work_item_finished_def Let_def)
qed

lemma word_two_le: "2 \<le> n \<Longrightarrow> n < 2 ^ 64 \<Longrightarrow> \<not> (word_of_nat n :: 64 word) < 2"
  by (simp add: word_less_nat_alt unat_of_nat take_bit_nat_eq_self)

lemma start_ring_ok:
  assumes "2 \<le> n" and "n < 2 ^ 64" and "\<And>r. env r = None"
  shows "net_ok n (start_ring env n)"
  using word_two_le [OF assms(1,2)] assms(1)
  by (auto simp: net_ok_def start_ring_def init_resilience_def new_resilience_def node_ok_def Let_def assms(3)
      right_rank_def left_rank_def)

interpretation ring_runs: step_invariant "ring_step n"
    "\<lambda>s. \<exists>env. 2 \<le> n \<and> n < 2 ^ 64 \<and> (\<forall>r. env r = None) \<and> s = start_ring env n" "net_ok n"
  by unfold_locales (auto intro: start_ring_ok ring_step_ok)

text \<open>C35: in every run, from the start on, all ranks that the localities and the messages hold are ranks of the
  network, no message is forwarded more than n - 1 times, and the receiver of a message can always handle it:
  no locality is marked that has no bit.\<close>

theorem resilience_in_bounds:
  assumes "2 \<le> n" and "n < 2 ^ 64" and "\<And>r. env r = None" and "(ring_step n)\<^sup>*\<^sup>* (start_ring env n) s"
  shows "net_ok n s \<and> (\<forall>i < length (rn_msgs s). deliver i s \<noteq> None)"
proof -
  have "net_ok n s" using ring_runs.reachable_inv [OF _ assms(4)] assms(1-3) by blast
  then show ?thesis using deliver_ok by fastforce
qed

section \<open>The ring\<close>

text \<open>The number of steps to the right from the neighbour of d to r.\<close>

definition ring_dist :: "nat \<Rightarrow> nat \<Rightarrow> nat \<Rightarrow> nat" where
  "ring_dist n d r = (if d < r then r - Suc d else r + n - Suc d)"

lemma right_rank_if: "r < n \<Longrightarrow> right_rank n r = (if Suc r = n then 0 else Suc r)"
  by (simp add: right_rank_def)

lemma ring_ranks_less: "r < n \<Longrightarrow> right_rank n r < n" "r < n \<Longrightarrow> left_rank n r < n"
  by (auto simp: right_rank_def left_rank_def)

lemma left_right: "r < n \<Longrightarrow> left_rank n (right_rank n r) = r" "r < n \<Longrightarrow> right_rank n (left_rank n r) = r"
  by (auto simp: right_rank_if left_rank_def)

lemma ring_neq: "3 \<le> n \<Longrightarrow> r < n \<Longrightarrow> right_rank n r \<noteq> r \<and> left_rank n r \<noteq> r \<and> left_rank n r \<noteq> right_rank n r"
  by (auto simp: right_rank_if left_rank_def)

lemma ring_dist_less: "r < n \<Longrightarrow> d < n \<Longrightarrow> ring_dist n d r < n"
  by (auto simp: ring_dist_def)

lemma ring_dist_first: "d < n \<Longrightarrow> ring_dist n d (right_rank n d) = 0"
  by (auto simp: ring_dist_def right_rank_if)

lemma ring_dist_right: "r < n \<Longrightarrow> d < n \<Longrightarrow> r \<noteq> d \<Longrightarrow> ring_dist n d (right_rank n r) = Suc (ring_dist n d r)"
  by (auto simp: ring_dist_def right_rank_if)

lemma ring_dist_inj: "r < n \<Longrightarrow> q < n \<Longrightarrow> d < n \<Longrightarrow> ring_dist n d r = ring_dist n d q \<Longrightarrow> r = q"
  by (auto simp: ring_dist_def split: if_splits)

lemma ring_dist_last: "r < n \<Longrightarrow> d < n \<Longrightarrow> Suc (ring_dist n d r) = n \<longleftrightarrow> r = d"
  by (auto simp: ring_dist_def)

text \<open>The k-th locality to the right of the neighbour of d.\<close>

fun ring_at :: "nat \<Rightarrow> nat \<Rightarrow> nat \<Rightarrow> nat" where
  "ring_at n d 0 = right_rank n d"
| "ring_at n d (Suc k) = right_rank n (ring_at n d k)"

lemma ring_at_dist: "d < n \<Longrightarrow> k < n \<Longrightarrow> ring_at n d k < n \<and> ring_dist n d (ring_at n d k) = k"
proof (induction k)
  case (Suc k)
  then have "ring_at n d k \<noteq> d" using ring_dist_last [of d n d] by auto
  then show ?case using Suc ring_dist_right ring_ranks_less(1) by simp
qed (simp add: ring_dist_first ring_ranks_less)

lemma ring_at_eq: "d < n \<Longrightarrow> r < n \<Longrightarrow> k < n \<Longrightarrow> ring_dist n d r = k \<longleftrightarrow> r = ring_at n d k"
  using ring_at_dist ring_dist_inj by metis

section \<open>Recovery\<close>

text \<open>The newest message arrives, k times.\<close>

fun deliver_newest :: "nat \<Rightarrow> 'w ring_net \<Rightarrow> 'w ring_net option" where
  "deliver_newest 0 s = Some s"
| "deliver_newest (Suc k) s = do {s' \<leftarrow> deliver_newest k s; deliver (length (rn_msgs s') - 1) s'}"

lemma deliver_newest_one: "rn_msgs s = ms @ [m] \<Longrightarrow> deliver (length (rn_msgs s) - 1) s = receive m (s\<lparr>rn_msgs := ms\<rparr>)"
  by (simp add: deliver_def nth_append)

text \<open>The message about d goes around the ring: after k arrivals the k localities to the right of d have
  handled it.\<close>

definition told :: "nat \<Rightarrow> nat \<Rightarrow> nat \<Rightarrow> 'w ring_net \<Rightarrow> nat \<Rightarrow> 'w resilience" where
  "told n d k s r = (if r < n \<and> r \<noteq> d \<and> ring_dist n d r < k then mark_dead d (rn_node s r) else rn_node s r)"

lemma running_but_one: "d < n \<Longrightarrow> count_list ((replicate n True)[d := False]) True = n - 1"
proof -
  assume d: "d < n"
  have "(replicate n True)[d := False] = replicate d True @ False # replicate (n - Suc d) True"
    using d by (simp add: upd_conv_take_nth_drop)
  moreover have "count_list (replicate m True) True = m" for m :: nat by (induction m) simp_all
  ultimately show ?thesis using d by simp
qed

lemma told_step:
  assumes "d < n" and "k < n - 1"
  shows "(told n d k s)(ring_at n d k := mark_dead d (told n d k s (ring_at n d k))) = told n d (Suc k) s"
proof
  fix r
  have a: "ring_at n d k < n" "ring_dist n d (ring_at n d k) = k" using ring_at_dist [of d n k] assms by auto
  then have "ring_at n d k \<noteq> d" using ring_dist_last [of d n d] assms by auto
  moreover have "r < n \<Longrightarrow> ring_dist n d r = k \<longleftrightarrow> r = ring_at n d k" using ring_at_eq [of d n r k] assms by simp
  ultimately show "((told n d k s)(ring_at n d k := mark_dead d (told n d k s (ring_at n d k)))) r = told n d (Suc k) s r"
    using a by (auto simp: told_def less_Suc_eq)
qed

lemma message_goes_around:
  assumes d: "d < n" and two: "2 \<le> n"
    and bits: "\<And>r. r < n \<Longrightarrow> r \<noteq> d \<Longrightarrow> rank_running_bits (rn_node s r) = replicate n True \<and> \<not> rn_crashed s r"
    and guards: "\<And>r. r < n \<Longrightarrow> r \<noteq> d \<Longrightarrow> right_rank n r \<noteq> d \<Longrightarrow> guard_rank (rn_node s r) = right_rank n r"
    and msgs: "rn_msgs s = ms @ [Reschedule (right_rank n d) d 0]"
  shows "k \<le> n - 1 \<Longrightarrow> deliver_newest k s =
    Some (s\<lparr>rn_node := told n d k s, rn_msgs := ms @ (if k < n - 1 then [Reschedule (ring_at n d k) d k] else [])\<rparr>)"
proof (induction k)
  case 0
  have "told n d 0 s = rn_node s" by (simp add: told_def fun_eq_iff)
  then show ?case
    using msgs two by simp
next
  case (Suc k)
  then have k: "k < n - 1" by simp
  let ?s = "s\<lparr>rn_node := told n d k s, rn_msgs := ms @ [Reschedule (ring_at n d k) d k]\<rparr>"
  let ?a = "ring_at n d k"
  have a: "?a < n" "ring_dist n d ?a = k" using ring_at_dist [of d n k] d k by auto
  then have ad: "?a \<noteq> d" using ring_dist_last [of d n d] d k by auto
  let ?v = "told n d k s ?a"
  have v: "?v = rn_node s ?a" using a by (simp add: told_def)
  have run: "get_running_ranks (mark_dead d ?v) = n - 1"
    using bits [OF a(1) ad] running_but_one [OF d] by (simp add: get_running_ranks_def v)
  have fwd: "guard_rank (rn_node s ?a) = ring_at n d (Suc k)" if "Suc k < n - 1"
  proof -
    have "ring_dist n d (right_rank n ?a) = Suc k" using ring_dist_right [OF a(1) d ad] a(2) by simp
    then have "right_rank n ?a \<noteq> d" using ring_dist_last [of d n d] d that by auto
    then show ?thesis using guards [OF a(1) ad] by simp
  qed
  have "reschedule_dispatched_to_dead d k ?v = Some (mark_dead d ?v,
      if Suc k < n - 1 then [Reschedule (ring_at n d (Suc k)) d (Suc k)] else [])"
    using bits [OF a(1) ad] d run fwd unfolding v by (simp add: reschedule_dispatched_to_dead_def Let_def del: ring_at.simps)
  then have "receive (Reschedule ?a d k) (?s\<lparr>rn_msgs := ms\<rparr>) = Some (s\<lparr>rn_node := told n d (Suc k) s,
      rn_msgs := ms @ (if Suc k < n - 1 then [Reschedule (ring_at n d (Suc k)) d (Suc k)] else [])\<rparr>)"
    using bits [OF a(1) ad] told_step [OF d k, of s] by (simp add: upd_node_def)
  then have "deliver (length (rn_msgs ?s) - 1) ?s = Some (s\<lparr>rn_node := told n d (Suc k) s,
      rn_msgs := ms @ (if Suc k < n - 1 then [Reschedule (ring_at n d (Suc k)) d (Suc k)] else [])\<rparr>)"
    using deliver_newest_one [of ?s ms "Reschedule ?a d k"] by simp
  moreover have "deliver_newest k s = Some ?s" using Suc k by simp
  ultimately show ?case by simp
qed

text \<open>The ring after init, as long as no locality has been declared dead.\<close>

definition intact :: "nat \<Rightarrow> 'w ring_net \<Rightarrow> bool" where
  "intact n s \<longleftrightarrow> (\<forall>r < n. let v = rn_node s r in rs_rank v = r \<and> rank_running_bits v = replicate n True \<and>
     guard_rank v = right_rank n r \<and> protectee_rank v = left_rank n r \<and>
     protectees_protectee_rank v = left_rank n (left_rank n r) \<and> \<not> env_resilience_disabled v)"

lemma start_ring_intact:
  assumes "2 \<le> n" and "n < 2 ^ 64" and "\<And>r. env r = None"
  shows "intact n (start_ring env n)"
  using word_two_le [OF assms(1,2)]
  by (auto simp: intact_def start_ring_def init_resilience_def new_resilience_def Let_def assms(3))

text \<open>The network after the guard of d has taken over.\<close>

definition taken_over :: "nat \<Rightarrow> nat \<Rightarrow> nat \<Rightarrow> 'w ring_net \<Rightarrow> 'w ring_net" where
  "taken_over n now d s =
    (let g = right_rank n d; p = left_rank n d in
     s\<lparr>rn_node := (rn_node s)(
         p := set_guard g (rn_node s p),
         g := (rn_node s g)\<lparr>my_heartbeat := now, my_state := SUSPECT, protectee_rank := p,
           protectees_protectee_rank := left_rank n p\<rparr>),
       rn_msgs := rn_msgs s @ [Heartbeat (right_rank n g) now, Reschedule g d 0]\<rparr>)"

lemma guard_takes_over:
  assumes "intact n s" and "3 \<le> n" and "d < n" and "\<not> rn_crashed s (left_rank n d)"
    and "protectee_heartbeat (rn_node s (right_rank n d)) + heartbeat_delta < now"
  shows "heartbeat_round now (right_rank n d) s = Some (taken_over n now d s)"
proof -
  let ?g = "right_rank n d" and ?p = "left_rank n d"
  have r: "?g < n" "?p < n" "?p \<noteq> ?g" using assms(2,3) ring_ranks_less ring_neq by blast+
  have g: "rs_rank (rn_node s ?g) = ?g" "guard_rank (rn_node s ?g) = right_rank n ?g" "protectee_rank (rn_node s ?g) = d"
      "protectees_protectee_rank (rn_node s ?g) = ?p" "protectee_rank (rn_node s ?p) = left_rank n ?p"
    using assms(1) r(1,2) left_right [OF assms(3)] by (auto simp: intact_def Let_def)
  show ?thesis
    using assms(4,5) r(3) g
    by (simp add: heartbeat_round_def protectee_crashed_def taken_over_def Let_def upd_node_def set_guard_def get_protectee_def
        fun_upd_twist)
qed

lemma crash_is_told:
  assumes "intact n s" and "3 \<le> n" and "d < n" and "\<And>r. r < n \<Longrightarrow> rn_crashed s r \<longleftrightarrow> r = d"
  shows "deliver_newest (n - 1) (taken_over n now d s) = Some ((taken_over n now d s)\<lparr>
    rn_node := told n d (n - 1) (taken_over n now d s),
    rn_msgs := rn_msgs s @ [Heartbeat (right_rank n (right_rank n d)) now]\<rparr>)"
proof -
  let ?g = "right_rank n d" and ?p = "left_rank n d"
  have p: "?p < n" "right_rank n ?p = d" using ring_ranks_less left_right assms(3) by auto
  have "deliver_newest (n - 1) (taken_over n now d s) = Some ((taken_over n now d s)\<lparr>
    rn_node := told n d (n - 1) (taken_over n now d s),
    rn_msgs := (rn_msgs s @ [Heartbeat (right_rank n ?g) now]) @ (if n - 1 < n - 1 then [Reschedule (ring_at n d (n - 1)) d (n - 1)] else [])\<rparr>)"
  proof (rule message_goes_around [OF assms(3)])
    fix r assume r: "r < n" "r \<noteq> d"
    show "rank_running_bits (rn_node (taken_over n now d s) r) = replicate n True \<and> \<not> rn_crashed (taken_over n now d s) r"
      using assms(1) assms(4) [OF r(1)] r by (simp add: taken_over_def intact_def Let_def set_guard_def)
    assume "right_rank n r \<noteq> d"
    then have "r \<noteq> ?p" using p by blast
    then show "guard_rank (rn_node (taken_over n now d s) r) = right_rank n r"
      using assms(1) r by (simp add: taken_over_def intact_def Let_def)
  qed (use assms(2) in \<open>simp_all add: taken_over_def Let_def\<close>)
  then show ?thesis by simp
qed

text \<open>C11: in one schedule, a crash is recovered completely.  The ring has at least three localities, resilience is
  enabled, no locality has been declared dead before (intact), and exactly the locality d has crashed.  The schedule:
  the guard of d makes the round in which the heartbeat of d is overdue, and then the message about d arrives n - 1
  times, each time before any other message and before any other round.  After it every other locality has marked d as
  dead, has scheduled again exactly what it had listed as delegated to d, and the guards and protectees form a ring
  without d.  Other schedules can end differently: a second round of the guard before the first heartbeat of its new
  protectee declares that one dead as well (takeover\_suspects\_next), a second crash can stop the recovery
  (second\_crash\_stuck), and a work item that was erased from the list by mistake is not scheduled again
  (unfinished\_item\_lost).\<close>

theorem recovery_reaches_all:
  assumes "intact n s" and "3 \<le> n" and "d < n" and "\<And>r. r < n \<Longrightarrow> rn_crashed s r \<longleftrightarrow> r = d"
    and "protectee_heartbeat (rn_node s (right_rank n d)) + heartbeat_delta < now"
  shows "\<exists>s1 s2. heartbeat_round now (right_rank n d) s = Some s1 \<and> deliver_newest (n - 1) s1 = Some s2 \<and>
    rn_msgs s2 = rn_msgs s @ [Heartbeat (right_rank n (right_rank n d)) now] \<and>
    (\<forall>r < n. r \<noteq> d \<longrightarrow>
      rank_running_bits (rn_node s2 r) = (replicate n True)[d := False] \<and> delegated_items (rn_node s2 r) d = [] \<and>
      scheduled_again (rn_node s2 r) = scheduled_again (rn_node s r) @ delegated_items (rn_node s r) d \<and>
      guard_rank (rn_node s2 r) = (if right_rank n r = d then right_rank n d else right_rank n r) \<and>
      protectee_rank (rn_node s2 r) = (if left_rank n r = d then left_rank n d else left_rank n r))"
proof -
  let ?g = "right_rank n d" and ?p = "left_rank n d"
  let ?s1 = "taken_over n now d s"
  let ?s2 = "?s1\<lparr>rn_node := told n d (n - 1) ?s1, rn_msgs := rn_msgs s @ [Heartbeat (right_rank n ?g) now]\<rparr>"
  have p: "?p < n" "?g < n" "?p \<noteq> d" "?g \<noteq> d" "?p \<noteq> ?g" using assms(2,3) ring_ranks_less ring_neq by blast+
  have 1: "heartbeat_round now ?g s = Some ?s1"
    using guard_takes_over [OF assms(1-3) _ assms(5)] assms(4) [OF p(1)] p(3) by simp
  have 2: "deliver_newest (n - 1) ?s1 = Some ?s2" by (rule crash_is_told [OF assms(1-4)])
  have "rank_running_bits (rn_node ?s2 r) = (replicate n True)[d := False] \<and> delegated_items (rn_node ?s2 r) d = [] \<and>
      scheduled_again (rn_node ?s2 r) = scheduled_again (rn_node s r) @ delegated_items (rn_node s r) d \<and>
      guard_rank (rn_node ?s2 r) = (if right_rank n r = d then ?g else right_rank n r) \<and>
      protectee_rank (rn_node ?s2 r) = (if left_rank n r = d then ?p else left_rank n r)" if r: "r < n" "r \<noteq> d" for r
  proof -
    have "ring_dist n d r < n - 1" using ring_dist_less [OF r(1) assms(3)] ring_dist_last [OF r(1) assms(3)] r(2) by linarith
    then have t: "rn_node ?s2 r = mark_dead d (rn_node ?s1 r)" using r by (simp add: told_def)
    have "right_rank n r = d \<longleftrightarrow> r = ?p" "left_rank n r = d \<longleftrightarrow> r = ?g"
      using left_right [OF r(1)] left_right [OF assms(3)] by metis+
    then show ?thesis unfolding t
      using assms(1) r p by (simp add: taken_over_def intact_def Let_def set_guard_def)
  qed
  then show ?thesis using 1 2 by (intro exI [of _ ?s1] exI [of _ ?s2]) auto
qed

definition three_ring :: "nat ring_net" where
  "three_ring = (upd_node 2 (work_item_dispatched 7 1) (start_ring (\<lambda>_. None) 3))\<lparr>rn_crashed := (\<lambda>r. r = 1 \<or> 3 \<le> r)\<rparr>"

lemma three_ring_intact: "intact 3 three_ring"
  using start_ring_intact [of 3 "\<lambda>_. None"]
  by (auto simp: three_ring_def intact_def work_item_dispatched_def Let_def)

lemma three_ring_silent: "protectee_heartbeat (rn_node three_ring (right_rank 3 1)) + heartbeat_delta < 11"
proof -
  have "\<not> (3 :: 64 word) < 2" by simp
  then show ?thesis
    by (simp add: three_ring_def right_rank_def start_ring_def work_item_dispatched_def init_resilience_def Let_def
        heartbeat_delta_def)
qed

lemma three_ring_crashed: "r < 3 \<Longrightarrow> rn_crashed three_ring r \<longleftrightarrow> r = 1"
  by (auto simp: three_ring_def)

lemma three_ring_items: "delegated_items (rn_node three_ring 2) 1 = [7]" "scheduled_again (rn_node three_ring 2) = []"
proof -
  have "\<not> (3 :: 64 word) < 2" by simp
  then show "delegated_items (rn_node three_ring 2) 1 = [7]" "scheduled_again (rn_node three_ring 2) = []"
    by (simp_all add: three_ring_def start_ring_def work_item_dispatched_def init_resilience_def new_resilience_def Let_def)
qed

theorem recovery_reaches_all_witness:
  "\<exists>s1 s2. heartbeat_round 11 2 three_ring = Some s1 \<and> deliver_newest 2 s1 = Some s2 \<and>
    rank_running_bits (rn_node s2 0) = [True, False, True] \<and> scheduled_again (rn_node s2 2) = [7]"
proof -
  have r: "right_rank 3 1 = 2" by (simp add: right_rank_def)
  obtain s1 s2 where s: "heartbeat_round 11 (right_rank 3 1) three_ring = Some s1" "deliver_newest (3 - 1) s1 = Some s2"
    "\<And>r. r < 3 \<Longrightarrow> r \<noteq> 1 \<Longrightarrow> rank_running_bits (rn_node s2 r) = (replicate 3 True)[1 := False] \<and>
      scheduled_again (rn_node s2 r) = scheduled_again (rn_node three_ring r) @ delegated_items (rn_node three_ring r) 1"
    using recovery_reaches_all [OF three_ring_intact _ _ three_ring_crashed three_ring_silent] by fastforce
  have "rank_running_bits (rn_node s2 0) = [True, False, True]" using s(3) [of 0] by (simp add: numeral_3_eq_3)
  moreover have "scheduled_again (rn_node s2 2) = [7]" using s(3) [of 2] three_ring_items by simp
  ultimately show ?thesis using s(1,2) r by auto
qed

theorem resilience_in_bounds_witness:
  "net_ok 3 (start_ring (\<lambda>_. None) 3 :: nat ring_net) \<and> (\<exists>s :: nat ring_net. (ring_step 3)\<^sup>*\<^sup>* (start_ring (\<lambda>_. None) 3) s \<and> rn_crashed s 1 \<and> net_ok 3 s)"
proof -
  let ?s = "start_ring (\<lambda>_. None) 3 :: nat ring_net"
  have 1: "(ring_step 3)\<^sup>*\<^sup>* ?s (?s\<lparr>rn_crashed := (rn_crashed ?s)(1 := True)\<rparr>)"
    using ring_step.crash [of 1 3 ?s] by (intro r_into_rtranclp) simp
  have "net_ok 3 ?s" "net_ok 3 (?s\<lparr>rn_crashed := (rn_crashed ?s)(1 := True)\<rparr>)"
    using resilience_in_bounds [of 3 "\<lambda>_. None" ?s] resilience_in_bounds [OF _ _ _ 1] by simp_all
  then show ?thesis using 1 by fastforce
qed

section \<open>Where recovery fails\<close>

text \<open>The guard of the locality that took over still has the dead rank as the protectee of its protectee.\<close>

lemma after_recovery:
  assumes "intact n s" and "3 \<le> n" and "d < n" and "\<And>r. r < n \<Longrightarrow> rn_crashed s r \<longleftrightarrow> r = d"
    and "protectee_heartbeat (rn_node s (right_rank n d)) + heartbeat_delta < now"
    and "heartbeat_round now (right_rank n d) s = Some s1" and "deliver_newest (n - 1) s1 = Some s2"
  shows "protectees_protectee_rank (rn_node s2 (right_rank n (right_rank n d))) = d \<and> rn_crashed s2 = rn_crashed s"
proof -
  let ?g = "right_rank n d" and ?p = "left_rank n d"
  let ?h = "right_rank n ?g"
  have p: "?p < n" "?g < n" "?p \<noteq> d" using assms(2,3) ring_ranks_less ring_neq by blast+
  have h: "?h < n" "?h \<noteq> ?g" using assms(2) p(2) ring_ranks_less ring_neq by blast+
  have s1: "s1 = taken_over n now d s"
    using guard_takes_over [OF assms(1-3) _ assms(5)] assms(4) [OF p(1)] p(3) assms(6) by simp
  have s2: "s2 = (taken_over n now d s)\<lparr>rn_node := told n d (n - 1) (taken_over n now d s),
      rn_msgs := rn_msgs s @ [Heartbeat ?h now]\<rparr>"
    using crash_is_told [OF assms(1-4)] assms(7) s1 by simp
  have "protectees_protectee_rank (rn_node s ?h) = left_rank n (left_rank n ?h)"
    using assms(1) h(1) by (simp add: intact_def Let_def)
  also have "\<dots> = d" using left_right(1) [OF p(2)] left_right(1) [OF assms(3)] by simp
  finally have "protectees_protectee_rank (rn_node (taken_over n now d s) ?h) = d"
    using h(2) by (cases "?h = ?p") (simp_all add: taken_over_def Let_def set_guard_def)
  then show ?thesis by (simp add: s2 told_def) (simp add: taken_over_def Let_def)
qed

text \<open>C39: after the recovery from one crash, the crash of the locality that took over is not recovered from: its
  guard calls the locality that crashed first, and waits for an answer that never comes.\<close>

theorem second_crash_stuck:
  assumes "intact n s" and "3 \<le> n" and "d < n" and "\<And>r. r < n \<Longrightarrow> rn_crashed s r \<longleftrightarrow> r = d"
    and "protectee_heartbeat (rn_node s (right_rank n d)) + heartbeat_delta < now"
    and "heartbeat_round now (right_rank n d) s = Some s1" and "deliver_newest (n - 1) s1 = Some s2"
    and "protectee_heartbeat (rn_node s2 (right_rank n (right_rank n d))) + heartbeat_delta < now2"
  shows "heartbeat_round now2 (right_rank n (right_rank n d))
    (s2\<lparr>rn_crashed := (rn_crashed s2)(right_rank n d := True)\<rparr>) = None"
  using after_recovery [OF assms(1-7)] assms(3) assms(4) [OF assms(3)] assms(8)
  by (simp add: heartbeat_round_def protectee_crashed_def Let_def)

theorem second_crash_stuck_witness:
  "\<exists>s1 s2. heartbeat_round 11 2 three_ring = Some s1 \<and> deliver_newest 2 s1 = Some s2 \<and>
    heartbeat_round (protectee_heartbeat (rn_node s2 0) + 11) 0 (s2\<lparr>rn_crashed := (rn_crashed s2)(2 := True)\<rparr>) = None"
proof -
  have r: "right_rank 3 1 = 2" "right_rank 3 2 = 0" by (simp_all add: right_rank_def)
  have g: "heartbeat_round 11 (right_rank 3 1) three_ring = Some (taken_over 3 11 1 three_ring)"
    by (rule guard_takes_over [OF three_ring_intact _ _ _ three_ring_silent]) (simp_all add: three_ring_def left_rank_def)
  have "\<exists>s2. deliver_newest (3 - 1) (taken_over 3 11 1 three_ring) = Some s2"
    using crash_is_told [OF three_ring_intact _ _ three_ring_crashed, of 11] by simp
  then obtain s2 where s2: "deliver_newest (3 - 1) (taken_over 3 11 1 three_ring) = Some s2" by blast
  have "heartbeat_round (protectee_heartbeat (rn_node s2 (right_rank 3 (right_rank 3 1))) + 11) (right_rank 3 (right_rank 3 1))
      (s2\<lparr>rn_crashed := (rn_crashed s2)(right_rank 3 1 := True)\<rparr>) = None"
    by (rule second_crash_stuck [OF three_ring_intact _ _ three_ring_crashed three_ring_silent g s2])
      (simp_all add: heartbeat_delta_def)
  then show ?thesis using g s2 unfolding r by (intro exI [of _ "taken_over 3 11 1 three_ring"] exI [of _ s2]) simp
qed

text \<open>The guard that took over declares its new protectee dead in its next round, though it runs, unless a
  heartbeat of it arrived in between: the counter of the dead protectee is kept.\<close>

theorem takeover_suspects_next:
  assumes "intact n s" and "3 \<le> n" and "d < n" and "\<And>r. r < n \<Longrightarrow> rn_crashed s r \<longleftrightarrow> r = d"
    and "protectee_heartbeat (rn_node s (right_rank n d)) + heartbeat_delta < now" and "now \<le> now2"
    and "heartbeat_round now (right_rank n d) s = Some s1"
  shows "\<exists>s2. heartbeat_round now2 (right_rank n d) s1 = Some s2 \<and>
    Reschedule (right_rank n d) (left_rank n d) 0 \<in> set (rn_msgs s2) \<and> \<not> rn_crashed s2 (left_rank n d)"
proof -
  let ?g = "right_rank n d" and ?p = "left_rank n d"
  have p: "?p < n" "?g < n" "?p \<noteq> d" "?g \<noteq> d" "?p \<noteq> ?g" using assms(2,3) ring_ranks_less ring_neq by blast+
  have q: "left_rank n ?p < n" "left_rank n ?p \<noteq> d" "left_rank n ?p \<noteq> ?p"
    using assms(2,3) by (auto simp: left_rank_def split: if_splits)
  have s1: "s1 = taken_over n now d s"
    using guard_takes_over [OF assms(1-3) _ assms(5)] assms(4) [OF p(1)] p(3) assms(7) by simp
  have "rs_rank (rn_node s ?g) = ?g" using assms(1) p(2) by (simp add: intact_def Let_def)
  then show ?thesis
    using assms(4) [OF p(1)] assms(4) [OF q(1)] assms(5,6) p q
    by (simp add: s1 taken_over_def heartbeat_round_def protectee_crashed_def Let_def)
qed

theorem takeover_suspects_next_witness:
  "\<exists>s2. heartbeat_round 12 2 (taken_over 3 11 1 three_ring) = Some s2 \<and> Reschedule 2 0 0 \<in> set (rn_msgs s2) \<and> \<not> rn_crashed s2 0"
proof -
  have r: "right_rank 3 1 = 2" "left_rank 3 1 = 0" by (simp_all add: right_rank_def left_rank_def)
  have g: "heartbeat_round 11 (right_rank 3 1) three_ring = Some (taken_over 3 11 1 three_ring)"
    by (rule guard_takes_over [OF three_ring_intact _ _ _ three_ring_silent]) (simp_all add: three_ring_def left_rank_def)
  show ?thesis
    using takeover_suspects_next [OF three_ring_intact _ _ three_ring_crashed three_ring_silent _ g, of 12]
    by (simp only: r)
qed

text \<open>Two work items run at a rank.  When the second one is finished, the first one may be erased, and is then
  not scheduled again after a crash of that rank, but the finished one is.\<close>

lemma unfinished_item_lost:
  assumes "delegated_items v d = []" and "\<not> env_resilience_disabled v"
  shows "scheduled_again (mark_dead d (work_item_finished 0 d (work_item_dispatched b d (work_item_dispatched a d v)))) =
    scheduled_again v @ [b]"
  using assms by (simp add: work_item_finished_def work_item_dispatched_def Let_def)

section \<open>Shutdown\<close>

text \<open>The k localities from the right of c on have stopped.\<close>

definition stopped :: "nat \<Rightarrow> nat \<Rightarrow> nat \<Rightarrow> 'w ring_net \<Rightarrow> 'w ring_net" where
  "stopped n c k s = s\<lparr>rn_node := (\<lambda>r. if r < n \<and> ring_dist n c r < k then (rn_node s r)\<lparr>keep_running := False\<rparr> else rn_node s r)\<rparr>"

lemma stopped_step:
  assumes "c < n" and "k < n"
  shows "upd_node (ring_at n c k) (\<lambda>v. v\<lparr>keep_running := False\<rparr>) (stopped n c k s) = stopped n c (Suc k) s"
proof -
  have a: "ring_at n c k < n" "ring_dist n c (ring_at n c k) = k" using ring_at_dist [of c n k] assms by auto
  have "r < n \<Longrightarrow> ring_dist n c r = k \<longleftrightarrow> r = ring_at n c k" for r using ring_at_eq [of c n r k] assms by simp
  then have "(\<lambda>r. if r < n \<and> ring_dist n c r < k then (rn_node s r)\<lparr>keep_running := False\<rparr> else rn_node s r)
      (ring_at n c k := (rn_node s (ring_at n c k))\<lparr>keep_running := False\<rparr>) =
      (\<lambda>r. if r < n \<and> ring_dist n c r < Suc k then (rn_node s r)\<lparr>keep_running := False\<rparr> else rn_node s r)"
    using a by (auto simp: less_Suc_eq fun_eq_iff)
  then show ?thesis using a by (simp add: upd_node_def stopped_def)
qed

lemma shutdown_goes_around:
  assumes "intact n s" and "2 \<le> n" and "c < n" and "\<And>r. r < n \<Longrightarrow> \<not> rn_crashed s r"
  shows "k < n \<Longrightarrow> m = n - k \<Longrightarrow> shutdown m (ring_at n c k) (Suc k) (stopped n c k s) = Some (stopped n c n s)"
proof (induction m arbitrary: k)
  case (Suc m)
  let ?a = "ring_at n c k" and ?s = "stopped n c k s"
  have a: "?a < n" using ring_at_dist [of c n k] assms(3) Suc.prems(1) by simp
  have rep: "count_list (replicate j True) True = j" for j :: nat by (induction j) simp_all
  have v: "guard_rank (rn_node ?s ?a) = right_rank n ?a" "get_running_ranks (rn_node ?s ?a) = n"
      "\<not> env_resilience_disabled (rn_node ?s ?a)" "\<not> rn_crashed ?s ?a"
    using assms(1) assms(4) [OF a] a rep by (auto simp: intact_def stopped_def get_running_ranks_def Let_def)
  have st: "guard_rank (rn_node (stopped n c (Suc k) s) ?a) = right_rank n ?a"
      "get_running_ranks (rn_node (stopped n c (Suc k) s) ?a) = n"
    using assms(1) a rep by (auto simp: intact_def stopped_def get_running_ranks_def Let_def)
  show ?case
  proof (cases "Suc k < n")
    case True
    then have "shutdown m (ring_at n c (Suc k)) (Suc (Suc k)) (stopped n c (Suc k) s) = Some (stopped n c n s)"
      using Suc.IH [OF True] Suc.prems(2) by linarith
    then show ?thesis
      using v st assms(2) True by (simp add: ring_active_def stopped_step [OF assms(3) Suc.prems(1)])
  next
    case False
    then have "Suc k = n" using Suc.prems(1) by simp
    then show ?thesis
      using v st assms(2) by (simp add: ring_active_def stopped_step [OF assms(3) Suc.prems(1)])
  qed
qed simp

text \<open>In an intact ring, shutdown from any locality with the token 1, as resilience::stop calls it, comes
  back after n calls, and every heartbeat loop is told to end.\<close>

theorem shutdown_stops_all:
  assumes "intact n s" and "2 \<le> n" and "r < n" and "\<And>r. r < n \<Longrightarrow> \<not> rn_crashed s r"
  shows "\<exists>s'. shutdown n r 1 s = Some s' \<and> (\<forall>q < n. \<not> keep_running (rn_node s' q))"
proof -
  let ?c = "left_rank n r"
  have c: "?c < n" "right_rank n ?c = r" using ring_ranks_less left_right assms(3) by auto
  have "shutdown n (ring_at n ?c 0) (Suc 0) (stopped n ?c 0 s) = Some (stopped n ?c n s)"
    using assms(2) by (intro shutdown_goes_around [OF assms(1,2) c(1) assms(4)]) auto
  moreover have "stopped n ?c 0 s = s" by (simp add: stopped_def)
  moreover have "\<not> keep_running (rn_node (stopped n ?c n s) q)" if "q < n" for q
    using ring_dist_less [OF that c(1)] that by (simp add: stopped_def)
  ultimately show ?thesis using c(2) by auto
qed

theorem shutdown_stops_all_witness:
  "\<exists>s'. shutdown 3 2 1 (start_ring (\<lambda>_. None) 3 :: nat ring_net) = Some s' \<and> \<not> keep_running (rn_node s' 0)"
proof -
  have "intact 3 (start_ring (\<lambda>_. None) 3 :: nat ring_net)" by (rule start_ring_intact) simp_all
  from shutdown_stops_all [OF this, of 2] show ?thesis by (auto simp: start_ring_def)
qed

end
