(* ===== verification/Work_Items.thy ===== *)
theory Work_Items
  imports Task_Path Step_Systems "HOL-Library.Multiset"
begin

text \<open>
  Work items and their treetures: allscale/detail/work\_item\_impl.hpp (splitting, processing, finalizing),
  allscale/work\_item\_description.hpp, allscale/spawn.hpp, the combination of treetures in
  allscale/runtime.hpp, and the promises of allscale/treeture.hpp.

  A program is a parameter: its closures, and for every closure what its split and its process variant do.
  The code of a variant is a sequence of calls of the runtime, each of which makes a treeture: the spawn of
  a work item after some of the treetures made before, the combination of two of them, or a ready treeture;
  the variant returns the last one.  Or it returns a value at once.

  The state of the runtime has the promises, which are empty or have a value, the work items, and the
  combinations that wait for their arguments.  The decisions of the scheduler, the executors and the order of
  callbacks are free: a step takes any of them.  The code of a variant runs in one step; a work item that it
  spawns may run in any later one.

  The phase of a work item is not a member in the code.  It stands for the continuation that holds the work item at the
  moment: the one that the scheduler was given (it calls split or process once), a posted task, a callback that is
  attached to the dependencies or to the result.  Each of them is run once by HPX, which run\_choice expresses by its
  test of the phase; that no work item runs twice rests on this as well as on the code.
\<close>

section \<open>Programs\<close>

datatype ('c, 'v) instr =
    Spawn_wi 'c "nat list"
  | Combine_wi "'v \<Rightarrow> 'v \<Rightarrow> 'v" nat nat "nat list"
  | Ready_wi 'v

datatype ('c, 'v) outcome = Value 'v | Tree "('c, 'v) instr list"

text \<open>The work item description of a closure: can\_split\_variant::call, split\_variant::valid, and execute of
  both variants.\<close>

record ('c, 'v) work_item_description =
  can_split_call :: "'c \<Rightarrow> bool"
  split_valid :: "'c \<Rightarrow> bool"
  split_execute :: "'c \<Rightarrow> ('c, 'v) outcome"
  process_execute :: "'c \<Rightarrow> ('c, 'v) outcome"

definition item_can_split :: "('c, 'v) work_item_description \<Rightarrow> 'c \<Rightarrow> bool" where
  "item_can_split D c \<longleftrightarrow> can_split_call D c \<and> split_valid D c"

section \<open>The runtime\<close>

text \<open>Where a work item is.  In Finishing it waits for the treeture that its variant returned; the flag is
  is\_split.\<close>

datatype wi_phase = Scheduled | Split_posted | Dep_waiting | Running bool | Finishing bool nat | Finished bool

record ('c, 'p) work_item_impl =
  wi_task :: "'p task_id"
  wi_children :: nat
  wi_closure :: 'c
  wi_tres :: nat
  wi_deps :: "nat list"
  wi_phase :: wi_phase

text \<open>The signals of the monitor and the release of the requirements.\<close>

datatype wi_event =
    Enqueued
  | Execution_started bool
  | Execution_finished bool
  | Requirements_released bool
  | Result_propagated

record 'v combination =
  co_op :: "'v \<Rightarrow> 'v \<Rightarrow> 'v"
  co_left :: nat
  co_right :: nat
  co_deps :: "nat list"
  co_result :: nat

record ('c, 'v, 'p) wi_runtime =
  promises :: "'v option list"
  wi_items :: "('c, 'p) work_item_impl list"
  combinations :: "'v combination list"
  wi_log :: "(wi_event \<times> nat) list"
  root_ids :: uint64_t

definition is_ready :: "('c, 'v, 'p) wi_runtime \<Rightarrow> nat \<Rightarrow> bool" where
  "is_ready s t \<longleftrightarrow> t < length (promises s) \<and> promises s ! t \<noteq> None"

text \<open>set\_value of a treeture: a second value is an exception, which is caught and ignored.\<close>

definition set_value :: "nat \<Rightarrow> 'v \<Rightarrow> ('c, 'v, 'p) wi_runtime \<Rightarrow> ('c, 'v, 'p) wi_runtime" where
  "set_value t v s = (if is_ready s t then s else s\<lparr>promises := (promises s)[t := Some v]\<rparr>)"

definition signal :: "wi_event \<Rightarrow> nat \<Rightarrow> ('c, 'v, 'p) wi_runtime \<Rightarrow> ('c, 'v, 'p) wi_runtime" where
  "signal e i s = s\<lparr>wi_log := wi_log s @ [(e, i)]\<rparr>"

definition set_phase :: "nat \<Rightarrow> wi_phase \<Rightarrow> ('c, 'v, 'p) wi_runtime \<Rightarrow> ('c, 'v, 'p) wi_runtime" where
  "set_phase i ph s = s\<lparr>wi_items := (wi_items s)[i := (wi_items s ! i)\<lparr>wi_phase := ph\<rparr>]\<rparr>"

text \<open>spawn: a new work item with an empty treeture is handed to the scheduler.\<close>

definition new_work_item :: "'p task_id \<Rightarrow> 'c \<Rightarrow> nat list \<Rightarrow> ('c, 'v, 'p) wi_runtime \<Rightarrow> ('c, 'v, 'p) wi_runtime \<times> nat" where
  "new_work_item tk c deps s =
    (let t = length (promises s) in
     (signal Enqueued (length (wi_items s))
        (s\<lparr>promises := promises s @ [None],
           wi_items := wi_items s @ [\<lparr>wi_task = tk, wi_children = 0, wi_closure = c, wi_tres = t, wi_deps = deps,
             wi_phase = Scheduled\<rparr>]\<rparr>), t))"

text \<open>spawn\_with\_dependencies of the running work item i: its child gets the next id of create\_child.\<close>

definition spawn_child ::
  "'p path_ops \<Rightarrow> uint64_t \<Rightarrow> nat \<Rightarrow> 'c \<Rightarrow> nat list \<Rightarrow> ('c, 'v, 'p) wi_runtime \<Rightarrow> (('c, 'v, 'p) wi_runtime \<times> nat) option" where
  "spawn_child P here i c deps s = do {
    it \<leftarrow> at_opt (wi_items s) i;
    let (tk, _, ids) = create_child P here (Some (wi_task it, wi_children it)) (root_ids s);
    tk \<leftarrow> tk;
    Some (new_work_item tk c deps
      (s\<lparr>wi_items := (wi_items s)[i := it\<lparr>wi_children := wi_children it + 1\<rparr>], root_ids := ids\<rparr>))}"

text \<open>spawn\_first.\<close>

definition spawn_first ::
  "'p path_ops \<Rightarrow> uint64_t \<Rightarrow> 'c \<Rightarrow> nat list \<Rightarrow> ('c, 'v, 'p) wi_runtime \<Rightarrow> ('c, 'v, 'p) wi_runtime \<times> nat" where
  "spawn_first P here c deps s =
    (let (tk, ids) = create_root P here (root_ids s) in new_work_item tk c deps (s\<lparr>root_ids := ids\<rparr>))"

text \<open>treeture\_combine: a dependency that is ready at the call is not waited for.\<close>

definition treeture_combine ::
  "('v \<Rightarrow> 'v \<Rightarrow> 'v) \<Rightarrow> nat \<Rightarrow> nat \<Rightarrow> nat list \<Rightarrow> ('c, 'v, 'p) wi_runtime \<Rightarrow> ('c, 'v, 'p) wi_runtime \<times> nat" where
  "treeture_combine f a b deps s =
    (let t = length (promises s);
         deps = (if list_all (is_ready s) deps then [] else deps) in
     (s\<lparr>promises := promises s @ [None],
        combinations := combinations s @ [\<lparr>co_op = f, co_left = a, co_right = b, co_deps = deps, co_result = t\<rparr>]\<rparr>, t))"

definition ready_treeture :: "'v \<Rightarrow> ('c, 'v, 'p) wi_runtime \<Rightarrow> ('c, 'v, 'p) wi_runtime \<times> nat" where
  "ready_treeture v s = (s\<lparr>promises := promises s @ [Some v]\<rparr>, length (promises s))"

text \<open>The code of a variant, run by the work item i; ls are the treetures made so far.\<close>

fun run_instr ::
  "'p path_ops \<Rightarrow> uint64_t \<Rightarrow> nat \<Rightarrow> ('c, 'v) instr \<Rightarrow> nat list \<Rightarrow> ('c, 'v, 'p) wi_runtime \<Rightarrow>
   (('c, 'v, 'p) wi_runtime \<times> nat) option" where
  "run_instr P here i (Spawn_wi c deps) ls s = do {
    ds \<leftarrow> those (map (at_opt ls) deps);
    spawn_child P here i c ds s}"
| "run_instr P here i (Combine_wi f a b deps) ls s = do {
    ta \<leftarrow> at_opt ls a; tb \<leftarrow> at_opt ls b;
    ds \<leftarrow> those (map (at_opt ls) deps);
    Some (treeture_combine f ta tb ds s)}"
| "run_instr P here i (Ready_wi v) ls s = Some (ready_treeture v s)"

fun run_code ::
  "'p path_ops \<Rightarrow> uint64_t \<Rightarrow> nat \<Rightarrow> ('c, 'v) instr list \<Rightarrow> nat list \<Rightarrow> ('c, 'v, 'p) wi_runtime \<Rightarrow>
   (('c, 'v, 'p) wi_runtime \<times> nat list) option" where
  "run_code P here i [] ls s = Some (s, ls)"
| "run_code P here i (x # xs) ls s = do {
    (s, t) \<leftarrow> run_instr P here i x ls s;
    run_code P here i xs (ls @ [t]) s}"

text \<open>The end of finalize: the requirements are released, the treeture gets its value.\<close>

definition propagate :: "nat \<Rightarrow> bool \<Rightarrow> 'v \<Rightarrow> ('c, 'v, 'p) wi_runtime \<Rightarrow> ('c, 'v, 'p) wi_runtime" where
  "propagate i is_split v s =
    (let s = signal (Requirements_released is_split) i s;
         s = set_value (wi_tres (wi_items s ! i)) v s
     in set_phase i (Finished is_split) (signal Result_propagated i s))"

text \<open>do\_split and do\_process with finalize: a value is propagated at once, for a treeture a callback is set.\<close>

definition execute ::
  "'p path_ops \<Rightarrow> uint64_t \<Rightarrow> nat \<Rightarrow> bool \<Rightarrow> ('c, 'v) outcome \<Rightarrow> ('c, 'v, 'p) wi_runtime \<Rightarrow> ('c, 'v, 'p) wi_runtime option" where
  "execute P here i is_split out s =
    (let s = set_phase i (Running is_split) (signal (Execution_started is_split) i s) in
     case out of
       Value v \<Rightarrow> Some (propagate i is_split v (signal (Execution_finished is_split) i s))
     | Tree code \<Rightarrow> do {
         (s, ls) \<leftarrow> run_code P here i code [] s;
         t \<leftarrow> at_opt ls (length ls - 1);
         Some (set_phase i (Finishing is_split t) (signal (Execution_finished is_split) i s))})"

definition wi_do_split ::
  "('c, 'v) work_item_description \<Rightarrow> 'p path_ops \<Rightarrow> uint64_t \<Rightarrow> nat \<Rightarrow> ('c, 'v, 'p) wi_runtime \<Rightarrow> ('c, 'v, 'p) wi_runtime option" where
  "wi_do_split D P here i s = execute P here i True (split_execute D (wi_closure (wi_items s ! i))) s"

definition wi_do_process ::
  "('c, 'v) work_item_description \<Rightarrow> 'p path_ops \<Rightarrow> uint64_t \<Rightarrow> nat \<Rightarrow> ('c, 'v, 'p) wi_runtime \<Rightarrow> ('c, 'v, 'p) wi_runtime option" where
  "wi_do_process D P here i s = execute P here i False (process_execute D (wi_closure (wi_items s ! i))) s"

text \<open>split: the right child is split at once, the others are posted.  process with get\_deps: the code runs at
  once if the dependencies are ready, else in a callback.\<close>

definition wi_split ::
  "('c, 'v) work_item_description \<Rightarrow> 'p path_ops \<Rightarrow> uint64_t \<Rightarrow> nat \<Rightarrow> ('c, 'v, 'p) wi_runtime \<Rightarrow> ('c, 'v, 'p) wi_runtime option" where
  "wi_split D P here i s =
    (if is_right P (wi_task (wi_items s ! i)) then wi_do_split D P here i s
     else Some (set_phase i Split_posted s))"

definition wi_process ::
  "('c, 'v) work_item_description \<Rightarrow> 'p path_ops \<Rightarrow> uint64_t \<Rightarrow> nat \<Rightarrow> ('c, 'v, 'p) wi_runtime \<Rightarrow> ('c, 'v, 'p) wi_runtime option" where
  "wi_process D P here i s =
    (if list_all (is_ready s) (wi_deps (wi_items s ! i)) then wi_do_process D P here i s
     else Some (set_phase i Dep_waiting s))"

definition remove_combination :: "nat \<Rightarrow> ('c, 'v, 'p) wi_runtime \<Rightarrow> ('c, 'v, 'p) wi_runtime" where
  "remove_combination k s = s\<lparr>combinations := take k (combinations s) @ drop (Suc k) (combinations s)\<rparr>"

text \<open>One step, chosen by the scheduler or the executors: a scheduled work item is split (if it can be) or
  processed; a posted split is run; the callback of the dependencies, of a result or of a combination is
  run.\<close>

datatype wi_choice = Split nat | Process nat | Run_split nat | Run_process nat | Run_result nat | Run_combination nat

fun run_choice ::
  "('c, 'v) work_item_description \<Rightarrow> 'p path_ops \<Rightarrow> uint64_t \<Rightarrow> wi_choice \<Rightarrow> ('c, 'v, 'p) wi_runtime \<Rightarrow>
   ('c, 'v, 'p) wi_runtime option" where
  "run_choice D P here (Split i) s = do {
    it \<leftarrow> at_opt (wi_items s) i;
    if wi_phase it = Scheduled \<and> item_can_split D (wi_closure it) then wi_split D P here i s else None}"
| "run_choice D P here (Process i) s = do {
    it \<leftarrow> at_opt (wi_items s) i;
    if wi_phase it = Scheduled then wi_process D P here i s else None}"
| "run_choice D P here (Run_split i) s = do {
    it \<leftarrow> at_opt (wi_items s) i;
    if wi_phase it = Split_posted then wi_do_split D P here i s else None}"
| "run_choice D P here (Run_process i) s = do {
    it \<leftarrow> at_opt (wi_items s) i;
    if wi_phase it = Dep_waiting \<and> list_all (is_ready s) (wi_deps it) then wi_do_process D P here i s else None}"
| "run_choice D P here (Run_result i) s = do {
    it \<leftarrow> at_opt (wi_items s) i;
    (case wi_phase it of
       Finishing is_split t \<Rightarrow> do {
         v \<leftarrow> at_opt (promises s) t;
         v \<leftarrow> v;
         Some (propagate i is_split v s)}
     | _ \<Rightarrow> None)}"
| "run_choice D P here (Run_combination k) s = do {
    c \<leftarrow> at_opt (combinations s) k;
    a \<leftarrow> at_opt (promises s) (co_left c); a \<leftarrow> a;
    b \<leftarrow> at_opt (promises s) (co_right c); b \<leftarrow> b;
    if list_all (is_ready s) (co_deps c)
    then Some (set_value (co_result c) (co_op c a b) (remove_combination k s))
    else None}"

definition start_runtime :: "'p path_ops \<Rightarrow> uint64_t \<Rightarrow> 'c \<Rightarrow> ('c, 'v, 'p) wi_runtime" where
  "start_runtime P here c =
    fst (spawn_first P here c [] \<lparr>promises = [], wi_items = [], combinations = [], wi_log = [], root_ids = 1\<rparr>)"

inductive wi_step ::
    "('c, 'v) work_item_description \<Rightarrow> 'p path_ops \<Rightarrow> uint64_t \<Rightarrow> ('c, 'v, 'p) wi_runtime \<Rightarrow> ('c, 'v, 'p) wi_runtime \<Rightarrow> bool"
  for D P here where
  wi_step: "run_choice D P here ch s = Some s' \<Longrightarrow> wi_step D P here s s'"

inductive_cases wi_stepE: "wi_step D P here s s'"

section \<open>What a program computes\<close>

text \<open>The value of a closure is a function V of the program; the values of the treetures of a variant follow
  from it.\<close>

fun instr_val :: "('c \<Rightarrow> 'v) \<Rightarrow> 'v list \<Rightarrow> ('c, 'v) instr \<Rightarrow> 'v" where
  "instr_val V vs (Spawn_wi c deps) = V c"
| "instr_val V vs (Combine_wi f a b deps) = f (vs ! a) (vs ! b)"
| "instr_val V vs (Ready_wi v) = v"

fun code_vals :: "('c \<Rightarrow> 'v) \<Rightarrow> 'v list \<Rightarrow> ('c, 'v) instr list \<Rightarrow> 'v list" where
  "code_vals V vs [] = vs"
| "code_vals V vs (x # xs) = code_vals V (vs @ [instr_val V vs x]) xs"

fun outcome_val :: "('c \<Rightarrow> 'v) \<Rightarrow> ('c, 'v) outcome \<Rightarrow> 'v" where
  "outcome_val V (Value v) = v"
| "outcome_val V (Tree code) = last (code_vals V [] code)"

fun instr_spawns :: "('c, 'v) instr \<Rightarrow> 'c list" where
  "instr_spawns (Spawn_wi c deps) = [c]"
| "instr_spawns _ = []"

fun outcome_spawns :: "('c, 'v) outcome \<Rightarrow> 'c list" where
  "outcome_spawns (Value v) = []"
| "outcome_spawns (Tree code) = concat (map instr_spawns code)"

text \<open>Code uses treetures it has made, and spawns at most two work items.\<close>

fun instr_ok :: "nat \<Rightarrow> ('c, 'v) instr \<Rightarrow> bool" where
  "instr_ok n (Spawn_wi c deps) \<longleftrightarrow> (\<forall>d \<in> set deps. d < n)"
| "instr_ok n (Combine_wi f a b deps) \<longleftrightarrow> a < n \<and> b < n \<and> (\<forall>d \<in> set deps. d < n)"
| "instr_ok n (Ready_wi v) \<longleftrightarrow> True"

fun code_ok :: "nat \<Rightarrow> ('c, 'v) instr list \<Rightarrow> bool" where
  "code_ok n [] \<longleftrightarrow> True"
| "code_ok n (x # xs) \<longleftrightarrow> instr_ok n x \<and> code_ok (Suc n) xs"

fun outcome_ok :: "('c, 'v) outcome \<Rightarrow> bool" where
  "outcome_ok (Value v) \<longleftrightarrow> True"
| "outcome_ok (Tree code) \<longleftrightarrow> code \<noteq> [] \<and> code_ok 0 code \<and> length (concat (map instr_spawns code)) \<le> 2"

text \<open>What the runtime asks of a program: its variants are well-formed, agree on the value of their closure,
  and the recursion is founded on a rank of the closures.\<close>

definition variant_ok :: "('c \<Rightarrow> 'v) \<Rightarrow> ('c \<Rightarrow> nat) \<Rightarrow> 'c \<Rightarrow> ('c, 'v) outcome \<Rightarrow> bool" where
  "variant_ok V rank c out \<longleftrightarrow> outcome_ok out \<and> outcome_val V out = V c \<and> (\<forall>c' \<in> set (outcome_spawns out). rank c' < rank c)"

definition program_ok :: "('c, 'v) work_item_description \<Rightarrow> ('c \<Rightarrow> 'v) \<Rightarrow> ('c \<Rightarrow> nat) \<Rightarrow> bool" where
  "program_ok D V rank \<longleftrightarrow> (\<forall>c. variant_ok V rank c (process_execute D c) \<and>
     (item_can_split D c \<longrightarrow> variant_ok V rank c (split_execute D c)))"

section \<open>The invariant\<close>

text \<open>Every promise has an expected value and a depth: the depth of the treeture of a work item is one less than
  that of the treetures which its variant makes.  A promise without a value is owed by an unfinished work item or by
  a waiting combination.\<close>

definition unfinished :: "wi_phase \<Rightarrow> bool" where
  "unfinished ph \<longleftrightarrow> (case ph of Finished b \<Rightarrow> False | _ \<Rightarrow> True)"

definition item_inv :: "('c \<Rightarrow> 'v) \<Rightarrow> 'v list \<Rightarrow> nat list \<Rightarrow> ('c, 'p) work_item_impl \<Rightarrow> bool" where
  "item_inv V ev dp it \<longleftrightarrow>
     wi_tres it < length ev \<and> ev ! wi_tres it = V (wi_closure it) \<and>
     (\<forall>d \<in> set (wi_deps it). d < wi_tres it \<and> dp ! d = dp ! wi_tres it) \<and>
     (case wi_phase it of
        Finishing b t \<Rightarrow> t < length ev \<and> ev ! t = ev ! wi_tres it \<and> dp ! t = Suc (dp ! wi_tres it)
      | Running b \<Rightarrow> True | Finished b \<Rightarrow> True | _ \<Rightarrow> wi_children it = 0)"

definition comb_inv :: "'v list \<Rightarrow> nat list \<Rightarrow> 'v combination \<Rightarrow> bool" where
  "comb_inv ev dp c \<longleftrightarrow>
     co_result c < length ev \<and> ev ! co_result c = co_op c (ev ! co_left c) (ev ! co_right c) \<and>
     (\<forall>t \<in> set (co_left c # co_right c # co_deps c). t < co_result c \<and> dp ! t = dp ! co_result c)"

definition owed :: "('c, 'v, 'p) wi_runtime \<Rightarrow> nat \<Rightarrow> bool" where
  "owed s t \<longleftrightarrow> (\<exists>it \<in> set (wi_items s). wi_tres it = t \<and> unfinished (wi_phase it)) \<or>
     (\<exists>c \<in> set (combinations s). co_result c = t)"

definition wi_inv :: "('c \<Rightarrow> 'v) \<Rightarrow> 'v list \<Rightarrow> nat list \<Rightarrow> ('c, 'v, 'p) wi_runtime \<Rightarrow> bool" where
  "wi_inv V ev dp s \<longleftrightarrow> length ev = length (promises s) \<and> length dp = length (promises s) \<and>
     (\<forall>t < length (promises s). promises s ! t \<in> {None, Some (ev ! t)}) \<and>
     (\<forall>t < length (promises s). promises s ! t = None \<longrightarrow> owed s t) \<and>
     (\<forall>it \<in> set (wi_items s). item_inv V ev dp it) \<and>
     (\<forall>it \<in> set (wi_items s). unfinished (wi_phase it) \<or> is_ready s (wi_tres it)) \<and>
     (\<forall>c \<in> set (combinations s). comb_inv ev dp c)"

lemma unfinished_simps [simp]:
  "unfinished Scheduled" "unfinished Split_posted" "unfinished Dep_waiting" "unfinished (Running b)"
  "unfinished (Finishing b t)" "\<not> unfinished (Finished b)"
  by (simp_all add: unfinished_def)

lemma signal_sel [simp]:
  "promises (signal e i s) = promises s" "wi_items (signal e i s) = wi_items s"
  "combinations (signal e i s) = combinations s" "wi_log (signal e i s) = wi_log s @ [(e, i)]"
  by (simp_all add: signal_def)

lemma wi_inv_unchanged [simp]:
  "wi_inv V ev dp (signal e i s) = wi_inv V ev dp s"
  "wi_inv V ev dp (s\<lparr>root_ids := n\<rparr>) = wi_inv V ev dp s"
  by (simp_all add: wi_inv_def owed_def is_ready_def signal_def)

lemma item_inv_append:
  "item_inv V ev dp it \<Longrightarrow> length dp = length ev \<Longrightarrow> item_inv V (ev @ [v]) (dp @ [d]) it"
  by (auto simp: item_inv_def nth_append split: wi_phase.splits)

lemma comb_inv_append:
  "comb_inv ev dp c \<Longrightarrow> length dp = length ev \<Longrightarrow> comb_inv (ev @ [v]) (dp @ [d]) c"
  by (auto simp: comb_inv_def nth_append)

lemma wi_inv_item:
  assumes "wi_inv V ev dp s" and "i < length (wi_items s)" and "item_inv V ev dp it"
    and "wi_tres it = wi_tres (wi_items s ! i)" and "unfinished (wi_phase it)"
  shows "wi_inv V ev dp (s\<lparr>wi_items := (wi_items s)[i := it]\<rparr>)"
proof -
  have "owed (s\<lparr>wi_items := (wi_items s)[i := it]\<rparr>) t" if ow: "owed s t" for t
  proof (cases "t = wi_tres it")
    case True
    have "it \<in> set ((wi_items s)[i := it])" using assms(2) by (rule set_update_memI)
    then show ?thesis using True assms(5) unfolding owed_def by auto
  next
    case False
    have "\<exists>x \<in> set ((wi_items s)[i := it]). wi_tres x = t \<and> unfinished (wi_phase x)"
      if x: "x \<in> set (wi_items s)" "wi_tres x = t" "unfinished (wi_phase x)" for x
    proof -
      from x(1) obtain j where j: "j < length (wi_items s)" "x = wi_items s ! j" by (auto simp: in_set_conv_nth)
      then have "j \<noteq> i" using x(2) False assms(4) by auto
      then have "x \<in> set ((wi_items s)[i := it])" using j by (auto simp: set_conv_nth intro!: exI [of _ j])
      then show ?thesis using x by blast
    qed
    then show ?thesis using ow unfolding owed_def by auto
  qed
  then show ?thesis
    using assms(1,3,5) unfolding wi_inv_def by (auto simp: is_ready_def dest!: set_update_subset_insert [THEN subsetD])
qed

lemma wi_inv_phase:
  assumes "wi_inv V ev dp s" and "i < length (wi_items s)" and "unfinished ph"
    and "item_inv V ev dp ((wi_items s ! i)\<lparr>wi_phase := ph\<rparr>)"
  shows "wi_inv V ev dp (set_phase i ph s)"
  unfolding set_phase_def by (rule wi_inv_item) (use assms in auto)

text \<open>A new promise.\<close>

lemma wi_inv_new_work_item:
  assumes inv: "wi_inv V ev dp s" and "\<forall>t \<in> set deps. t < length ev \<and> dp ! t = d"
  shows "wi_inv V (ev @ [V c]) (dp @ [d]) (fst (new_work_item tk c deps s))"
proof -
  have l: "length dp = length ev" "length ev = length (promises s)" using inv by (auto simp: wi_inv_def)
  show ?thesis
    using inv assms(2) l unfolding wi_inv_def new_work_item_def Let_def fst_conv wi_inv_unchanged
    by (auto simp: owed_def is_ready_def nth_append less_Suc_eq signal_def intro: item_inv_append comb_inv_append)
      (auto simp: item_inv_def nth_append)
qed

lemma wi_inv_combine:
  assumes inv: "wi_inv V ev dp s" and "\<forall>t \<in> set (a # b # deps). t < length ev \<and> dp ! t = d"
  shows "wi_inv V (ev @ [f (ev ! a) (ev ! b)]) (dp @ [d]) (fst (treeture_combine f a b deps s))"
proof -
  have l: "length dp = length ev" "length ev = length (promises s)" using inv by (auto simp: wi_inv_def)
  show ?thesis
    using inv assms(2) l unfolding wi_inv_def treeture_combine_def Let_def fst_conv
    by (auto simp: owed_def is_ready_def nth_append less_Suc_eq intro: item_inv_append comb_inv_append)
      (auto simp: comb_inv_def nth_append)
qed

lemma wi_inv_ready:
  assumes inv: "wi_inv V ev dp s"
  shows "wi_inv V (ev @ [v]) (dp @ [d]) (fst (ready_treeture v s))"
proof -
  have l: "length dp = length ev" "length ev = length (promises s)" using inv by (auto simp: wi_inv_def)
  show ?thesis
    using inv l unfolding wi_inv_def ready_treeture_def fst_conv
    by (auto simp: owed_def is_ready_def nth_append less_Suc_eq intro: item_inv_append comb_inv_append)
qed

section \<open>The code of a variant\<close>

text \<open>The treetures made so far have the values vs and the depth d.\<close>

definition made :: "'v list \<Rightarrow> nat list \<Rightarrow> nat \<Rightarrow> nat list \<Rightarrow> 'v list \<Rightarrow> bool" where
  "made ev dp d ls vs \<longleftrightarrow> length ls = length vs \<and>
     (\<forall>k < length ls. ls ! k < length ev \<and> ev ! (ls ! k) = vs ! k \<and> dp ! (ls ! k) = d)"

lemma made_append:
  "made ev dp d ls vs \<Longrightarrow> length dp = length ev \<Longrightarrow> made (ev @ [v]) (dp @ [d]) d (ls @ [length ev]) (vs @ [v])"
  by (auto simp: made_def nth_append less_Suc_eq)

lemma those_at_opt: "\<forall>d \<in> set ds. d < length ls \<Longrightarrow> those (map (at_opt ls) ds) = Some (map ((!) ls) ds)"
  by (induction ds) auto

lemma create_child_some:
  "n < 2 \<Longrightarrow> \<exists>tk w ids. create_child P here (Some (t, n)) c = (Some tk, w, ids)"
  by (auto simp: create_child_def Let_def)

lemma run_instr_inv:
  fixes s :: "('c, 'v, 'p) wi_runtime"
  assumes inv: "wi_inv V ev dp s" and i: "i < length (wi_items s)" and ph: "wi_phase (wi_items s ! i) = Running b"
    and made: "made ev dp d ls vs" and ok: "instr_ok (length ls) x"
    and two: "wi_children (wi_items s ! i) + length (instr_spawns x) \<le> 2"
  shows "\<exists>s'. run_instr P here i x ls s = Some (s', length (promises s)) \<and>
    wi_inv V (ev @ [instr_val V vs x]) (dp @ [d]) s' \<and> i < length (wi_items s') \<and>
    wi_items s' ! i = (wi_items s ! i)\<lparr>wi_children := wi_children (wi_items s ! i) + length (instr_spawns x)\<rparr>"
proof (cases x)
  case (Spawn_wi c deps)
  let ?it = "wi_items s ! i" and ?ds = "map ((!) ls) deps"
  obtain tk w ids where tk: "create_child P here (Some (wi_task ?it, wi_children ?it)) (root_ids s) = (Some tk, w, ids)"
    using create_child_some [of "wi_children ?it" P here] two Spawn_wi by fastforce
  let ?s = "s\<lparr>wi_items := (wi_items s)[i := ?it\<lparr>wi_children := wi_children ?it + 1\<rparr>], root_ids := ids\<rparr>"
  have "item_inv V ev dp ?it" using inv i unfolding wi_inv_def by auto
  then have "item_inv V ev dp (?it\<lparr>wi_children := wi_children ?it + 1\<rparr>)" using ph unfolding item_inv_def by simp
  then have "wi_inv V ev dp (s\<lparr>wi_items := (wi_items s)[i := ?it\<lparr>wi_children := wi_children ?it + 1\<rparr>]\<rparr>)"
    by (intro wi_inv_item [OF inv i]) (simp_all add: ph)
  then have "wi_inv V ev dp ?s" by (simp add: wi_inv_def owed_def is_ready_def)
  moreover have "\<forall>t \<in> set ?ds. t < length ev \<and> dp ! t = d" using made ok Spawn_wi by (auto simp: made_def)
  ultimately have "wi_inv V (ev @ [V c]) (dp @ [d]) (fst (new_work_item tk c ?ds ?s))" by (rule wi_inv_new_work_item)
  moreover have "run_instr P here i x ls s = Some (new_work_item tk c ?ds ?s)"
    using ok Spawn_wi i tk by (simp add: those_at_opt spawn_child_def)
  ultimately show ?thesis using i Spawn_wi by (simp add: new_work_item_def Let_def signal_def nth_append)
next
  case (Combine_wi f x y deps)
  have l: "length ls = length vs" using made by (simp add: made_def)
  have "wi_inv V (ev @ [f (ev ! (ls ! x)) (ev ! (ls ! y))]) (dp @ [d]) (fst (treeture_combine f (ls ! x) (ls ! y) (map ((!) ls) deps) s))"
    by (rule wi_inv_combine [OF inv]) (use made ok Combine_wi in \<open>auto simp: made_def\<close>)
  then show ?thesis
    using made ok Combine_wi i those_at_opt [of deps ls]
    by (simp add: treeture_combine_def Let_def made_def split: if_splits)
next
  case (Ready_wi v)
  then show ?thesis using wi_inv_ready [OF inv, of v d] i by (simp add: ready_treeture_def)
qed

lemma run_code_inv:
  fixes s :: "('c, 'v, 'p) wi_runtime"
  assumes "wi_inv V ev dp s" and "i < length (wi_items s)" and "wi_phase (wi_items s ! i) = Running b"
    and "made ev dp d ls vs" and "code_ok (length ls) xs"
    and "wi_children (wi_items s ! i) + length (concat (map instr_spawns xs)) \<le> 2"
  shows "\<exists>s' ls' ev' dp'. run_code P here i xs ls s = Some (s', ls') \<and> wi_inv V (ev @ ev') (dp @ dp') s' \<and>
    made (ev @ ev') (dp @ dp') d ls' (code_vals V vs xs) \<and> length ls' = length ls + length xs \<and>
    i < length (wi_items s') \<and> wi_items s' ! i = (wi_items s ! i)\<lparr>wi_children := wi_children (wi_items s' ! i)\<rparr>"
  using assms
proof (induction xs arbitrary: s ls vs ev dp)
  case Nil
  then show ?case by (intro exI [of _ s] exI [of _ ls] exI [of _ "[]"]) simp
next
  case (Cons x xs)
  obtain s1 where s1: "run_instr P here i x ls s = Some (s1, length (promises s))"
    "wi_inv V (ev @ [instr_val V vs x]) (dp @ [d]) s1" "i < length (wi_items s1)"
    "wi_items s1 ! i = (wi_items s ! i)\<lparr>wi_children := wi_children (wi_items s ! i) + length (instr_spawns x)\<rparr>"
    using run_instr_inv [OF Cons.prems(1-4), of x P here] Cons.prems(5,6) by auto
  have l: "length (promises s) = length ev" "length dp = length ev" using Cons.prems(1) by (auto simp: wi_inv_def)
  have "made (ev @ [instr_val V vs x]) (dp @ [d]) d (ls @ [length (promises s)]) (vs @ [instr_val V vs x])"
    using made_append [OF Cons.prems(4) l(2)] l(1) by simp
  from Cons.IH [OF s1(2,3) _ this] Cons.prems(3,5,6) s1(4) obtain s' ls' ev' dp' where
    s': "run_code P here i xs (ls @ [length (promises s)]) s1 = Some (s', ls')"
    "wi_inv V ((ev @ [instr_val V vs x]) @ ev') ((dp @ [d]) @ dp') s'"
    "made ((ev @ [instr_val V vs x]) @ ev') ((dp @ [d]) @ dp') d ls' (code_vals V (vs @ [instr_val V vs x]) xs)"
    "length ls' = length ls + 1 + length xs" "i < length (wi_items s')"
    "wi_items s' ! i = (wi_items s1 ! i)\<lparr>wi_children := wi_children (wi_items s' ! i)\<rparr>" by auto
  show ?case
    using s1 s' by (intro exI [of _ s'] exI [of _ ls'] exI [of _ "instr_val V vs x # ev'"] exI [of _ "d # dp'"]) simp
qed

text \<open>What the code leaves alone, and what it adds.\<close>

lemma run_instr_frame:
  assumes "run_instr P here i x ls s = Some (s', t)" and "i < length (wi_items s)"
  shows "\<exists>new nc np. wi_items s' = (wi_items s)[i := (wi_items s ! i)\<lparr>wi_children := wi_children (wi_items s' ! i)\<rparr>] @ new \<and>
    map wi_closure new = instr_spawns x \<and> list_all (\<lambda>it. wi_phase it = Scheduled) new \<and>
    combinations s' = combinations s @ nc \<and> promises s' = promises s @ np \<and>
    wi_log s' = wi_log s @ map (Pair Enqueued) [length (wi_items s)..<length (wi_items s')]"
proof (cases x)
  case (Spawn_wi c deps)
  then show ?thesis
    using assms by (auto simp: spawn_child_def new_work_item_def Let_def signal_def nth_append split: bind_splits prod.splits)
next
  case (Combine_wi f a b deps)
  then show ?thesis using assms by (auto simp: treeture_combine_def Let_def split: bind_splits)
next
  case (Ready_wi v)
  then show ?thesis using assms by (auto simp: ready_treeture_def)
qed

lemma run_code_frame:
  assumes "run_code P here i xs ls s = Some (s', ls')" and "i < length (wi_items s)"
  shows "\<exists>new nc np. wi_items s' = (wi_items s)[i := (wi_items s ! i)\<lparr>wi_children := wi_children (wi_items s' ! i)\<rparr>] @ new \<and>
    map wi_closure new = concat (map instr_spawns xs) \<and> list_all (\<lambda>it. wi_phase it = Scheduled) new \<and>
    combinations s' = combinations s @ nc \<and> promises s' = promises s @ np \<and>
    wi_log s' = wi_log s @ map (Pair Enqueued) [length (wi_items s)..<length (wi_items s')]"
  using assms
proof (induction xs arbitrary: s ls)
  case Nil
  then show ?case by simp
next
  case (Cons x xs)
  obtain s1 t where s1: "run_instr P here i x ls s = Some (s1, t)" and r: "run_code P here i xs (ls @ [t]) s1 = Some (s', ls')"
    using Cons.prems(1) by (auto split: bind_splits)
  obtain new nc np where f1: "wi_items s1 = (wi_items s)[i := (wi_items s ! i)\<lparr>wi_children := wi_children (wi_items s1 ! i)\<rparr>] @ new"
    "map wi_closure new = instr_spawns x" "list_all (\<lambda>it. wi_phase it = Scheduled) new"
    "combinations s1 = combinations s @ nc" "promises s1 = promises s @ np"
    "wi_log s1 = wi_log s @ map (Pair Enqueued) [length (wi_items s)..<length (wi_items s1)]"
    using run_instr_frame [OF s1 Cons.prems(2)] by auto
  have l1: "length (wi_items s) \<le> length (wi_items s1)" by (subst f1(1)) simp
  have i1: "i < length (wi_items s1)" using l1 Cons.prems(2) by simp
  obtain new' nc' np' where f2: "wi_items s' = (wi_items s1)[i := (wi_items s1 ! i)\<lparr>wi_children := wi_children (wi_items s' ! i)\<rparr>] @ new'"
    "map wi_closure new' = concat (map instr_spawns xs)" "list_all (\<lambda>it. wi_phase it = Scheduled) new'"
    "combinations s' = combinations s1 @ nc'" "promises s' = promises s1 @ np'"
    "wi_log s' = wi_log s1 @ map (Pair Enqueued) [length (wi_items s1)..<length (wi_items s')]"
    using Cons.IH [OF r i1] by auto
  have l2: "length (wi_items s1) \<le> length (wi_items s')" by (subst f2(1)) simp
  have h: "wi_items s1 ! i = (wi_items s ! i)\<lparr>wi_children := wi_children (wi_items s1 ! i)\<rparr>"
    using arg_cong [OF f1(1), of "\<lambda>xs. xs ! i"] Cons.prems(2) by (simp add: nth_append)
  obtain k where k: "wi_items s1 ! i = (wi_items s ! i)\<lparr>wi_children := k\<rparr>" using h by blast
  have u: "(wi_items s1)[i := y] = (wi_items s)[i := y] @ new" for y
    using arg_cong [OF f1(1), of "\<lambda>xs. xs[i := y]"] Cons.prems(2) by (simp add: list_update_append)
  have "wi_items s' = ((wi_items s)[i := (wi_items s ! i)\<lparr>wi_children := wi_children (wi_items s' ! i)\<rparr>] @ new) @ new'"
    using f2(1) unfolding u k by simp
  moreover have "map (Pair Enqueued) [length (wi_items s)..<length (wi_items s1)] @ map (Pair Enqueued) [length (wi_items s1)..<length (wi_items s')] =
      map (Pair Enqueued) [length (wi_items s)..<length (wi_items s')]"
    using l1 l2 by (metis map_append upt_add_eq_append le_Suc_ex)
  ultimately show ?case
    using f1 f2 by (intro exI [of _ "new @ new'"] exI [of _ "nc @ nc'"] exI [of _ "np @ np'"]) simp
qed

section \<open>The steps\<close>

definition not_started :: "wi_phase \<Rightarrow> bool" where
  "not_started ph \<longleftrightarrow> ph \<in> {Scheduled, Split_posted, Dep_waiting}"

definition variant_of :: "('c, 'v) work_item_description \<Rightarrow> bool \<Rightarrow> 'c \<Rightarrow> ('c, 'v) outcome" where
  "variant_of D b c = (if b then split_execute D c else process_execute D c)"

text \<open>Four kinds of steps.\<close>

lemma wi_step_cases [consumes 1, case_names post run result combination]:
  assumes "wi_step D P here s s'"
  obtains i ph where "i < length (wi_items s)" and "wi_phase (wi_items s ! i) = Scheduled" and "s' = set_phase i ph s"
      and "ph = Split_posted \<and> item_can_split D (wi_closure (wi_items s ! i)) \<or> ph = Dep_waiting"
  | i b where "i < length (wi_items s)" and "not_started (wi_phase (wi_items s ! i))"
      and "execute P here i b (variant_of D b (wi_closure (wi_items s ! i))) s = Some s'"
      and "b \<longrightarrow> item_can_split D (wi_closure (wi_items s ! i)) \<or> wi_phase (wi_items s ! i) = Split_posted"
      and "\<not> b \<longrightarrow> list_all (is_ready s) (wi_deps (wi_items s ! i))"
  | i b t v where "i < length (wi_items s)" and "wi_phase (wi_items s ! i) = Finishing b t"
      and "t < length (promises s)" and "promises s ! t = Some v" and "s' = propagate i b v s"
  | k a b where "k < length (combinations s)" and "co_left (combinations s ! k) < length (promises s)"
      and "promises s ! co_left (combinations s ! k) = Some a" and "co_right (combinations s ! k) < length (promises s)"
      and "promises s ! co_right (combinations s ! k) = Some b"
      and "s' = set_value (co_result (combinations s ! k)) (co_op (combinations s ! k) a b) (remove_combination k s)"
proof -
  obtain ch where ch: "run_choice D P here ch s = Some s'" using assms by (rule wi_stepE)
  show thesis
  proof (cases ch)
    case (Split i)
    with ch have i: "i < length (wi_items s)" "wi_phase (wi_items s ! i) = Scheduled"
      "item_can_split D (wi_closure (wi_items s ! i))" "wi_split D P here i s = Some s'"
      by (auto split: bind_splits if_splits)
    show thesis
    proof (cases "is_right P (wi_task (wi_items s ! i))")
      case True
      then show thesis using i by (intro that(2) [of i True]) (auto simp: wi_split_def wi_do_split_def not_started_def variant_of_def)
    next
      case False
      then show thesis using i by (intro that(1) [of i Split_posted]) (auto simp: wi_split_def)
    qed
  next
    case (Process i)
    with ch have i: "i < length (wi_items s)" "wi_phase (wi_items s ! i) = Scheduled" "wi_process D P here i s = Some s'"
      by (auto split: bind_splits if_splits)
    show thesis
    proof (cases "list_all (is_ready s) (wi_deps (wi_items s ! i))")
      case True
      then show thesis
        using i by (intro that(2) [of i False]) (auto simp: wi_process_def wi_do_process_def not_started_def variant_of_def)
    next
      case False
      then show thesis using i by (intro that(1) [of i Dep_waiting]) (auto simp: wi_process_def)
    qed
  next
    case (Run_split i)
    with ch show thesis
      by (intro that(2) [of i True]) (auto simp: wi_do_split_def not_started_def variant_of_def split: bind_splits if_splits)
  next
    case (Run_process i)
    with ch show thesis
      by (intro that(2) [of i False]) (auto simp: wi_do_process_def not_started_def variant_of_def split: bind_splits if_splits)
  next
    case (Run_result i)
    with ch show thesis by (auto split: bind_splits if_splits wi_phase.splits intro: that(3))
  next
    case (Run_combination k)
    with ch show thesis by (auto split: bind_splits if_splits intro: that(4))
  qed
qed

lemma propagate_inv:
  fixes s :: "('c, 'v, 'p) wi_runtime"
  assumes inv: "wi_inv V ev dp s" and i: "i < length (wi_items s)" and v: "v = ev ! wi_tres (wi_items s ! i)"
  shows "wi_inv V ev dp (propagate i b v s)"
proof -
  let ?it = "wi_items s ! i" and ?s = "propagate i b v s"
  have it: "item_inv V ev dp ?it" using inv i unfolding wi_inv_def by auto
  then have t: "wi_tres ?it < length (promises s)" using inv unfolding wi_inv_def item_inv_def by auto
  have pr: "promises ?s = (if promises s ! wi_tres ?it = None then (promises s)[wi_tres ?it := Some v] else promises s)"
    using t by (simp add: propagate_def Let_def set_value_def set_phase_def signal_def is_ready_def)
  have its: "wi_items ?s = (wi_items s)[i := ?it\<lparr>wi_phase := Finished b\<rparr>]"
    by (simp add: propagate_def Let_def set_value_def set_phase_def signal_def)
  have cs: "combinations ?s = combinations s"
    by (simp add: propagate_def Let_def set_value_def set_phase_def signal_def)
  have ow: "owed ?s x" if "owed s x" "x \<noteq> wi_tres ?it" for x
  proof -
    have "\<exists>y \<in> set ((wi_items s)[i := z]). wi_tres y = x \<and> unfinished (wi_phase y)"
      if y: "y \<in> set (wi_items s)" "wi_tres y = x" "unfinished (wi_phase y)" for y z
    proof -
      from y(1) obtain j where j: "j < length (wi_items s)" "y = wi_items s ! j" by (auto simp: in_set_conv_nth)
      then have "j \<noteq> i" using y(2) \<open>x \<noteq> wi_tres ?it\<close> by auto
      then have "y \<in> set ((wi_items s)[i := z])" using j by (auto simp: set_conv_nth intro!: exI [of _ j])
      then show ?thesis using y by blast
    qed
    then show ?thesis using that(1) unfolding owed_def its cs by auto
  qed
  have rd: "is_ready ?s x" if "is_ready s x" for x
    using that unfolding is_ready_def pr by (cases "x = wi_tres ?it") auto
  have rt: "is_ready ?s (wi_tres ?it)" using t unfolding is_ready_def pr by auto
  have "item_inv V ev dp (?it\<lparr>wi_phase := Finished b\<rparr>)" using it by (simp add: item_inv_def)
  moreover have "\<forall>x < length (promises ?s). promises ?s ! x = None \<longrightarrow> owed ?s x"
  proof (intro allI impI)
    fix x
    assume x: "x < length (promises ?s)" "promises ?s ! x = None"
    have "x < length (promises s)" using x(1) unfolding pr by (simp split: if_splits)
    moreover have "x \<noteq> wi_tres ?it" using x(2) t unfolding pr by (auto split: if_splits)
    moreover have "promises s ! x = None" using x(2) \<open>x \<noteq> wi_tres ?it\<close> unfolding pr by (simp split: if_splits)
    ultimately show "owed ?s x" using inv ow unfolding wi_inv_def by blast
  qed
  moreover have "\<forall>x < length (promises ?s). promises ?s ! x \<in> {None, Some (ev ! x)}"
    using inv t v unfolding wi_inv_def pr by (auto simp: nth_list_update)
  ultimately show ?thesis
    using inv rd rt unfolding wi_inv_def its cs
    by (auto simp: pr dest!: set_update_subset_insert [THEN subsetD])
qed

lemma execute_inv:
  fixes s :: "('c, 'v, 'p) wi_runtime"
  assumes inv: "wi_inv V ev dp s" and i: "i < length (wi_items s)" and ns: "not_started (wi_phase (wi_items s ! i))"
    and out: "variant_ok V rank (wi_closure (wi_items s ! i)) out"
  shows "\<exists>s' ev' dp'. execute P here i b out s = Some s' \<and> wi_inv V (ev @ ev') (dp @ dp') s'"
proof -
  let ?it = "wi_items s ! i" and ?s = "set_phase i (Running b) (signal (Execution_started b) i s)"
  have it: "item_inv V ev dp ?it" using inv i unfolding wi_inv_def by auto
  have ch: "wi_children ?it = 0" using it ns by (auto simp: item_inv_def not_started_def)
  have inv1: "wi_inv V ev dp ?s"
    by (rule wi_inv_phase) (use inv i it in \<open>auto simp: item_inv_def split: wi_phase.splits\<close>)
  have it1: "i < length (wi_items ?s)" "wi_items ?s ! i = ?it\<lparr>wi_phase := Running b\<rparr>"
    using i by (simp_all add: set_phase_def signal_def)
  show ?thesis
  proof (cases out)
    case (Value v)
    have "v = ev ! wi_tres ?it" using out it Value by (simp add: variant_ok_def item_inv_def)
    then have "wi_inv V ev dp (propagate i b v (signal (Execution_finished b) i ?s))"
      by (intro propagate_inv) (use inv1 it1 in auto)
    then show ?thesis using Value by (intro exI [of _ "propagate i b v (signal (Execution_finished b) i ?s)"] exI [of _ "[]"])
       (simp add: execute_def Let_def)
  next
    case (Tree code)
    let ?d = "Suc (dp ! wi_tres ?it)"
    have code: "code \<noteq> []" "code_ok 0 code" "length (concat (map instr_spawns code)) \<le> 2" "last (code_vals V [] code) = V (wi_closure ?it)"
      using out Tree by (auto simp: variant_ok_def)
    have "made ev dp ?d [] []" by (simp add: made_def)
    from run_code_inv [OF inv1 it1(1) _ this, of b code P here] code it1(2) ch obtain s' ls' ev' dp' where
      s': "run_code P here i code [] ?s = Some (s', ls')" "wi_inv V (ev @ ev') (dp @ dp') s'"
      "made (ev @ ev') (dp @ dp') ?d ls' (code_vals V [] code)" "length ls' = length code" "i < length (wi_items s')"
      "wi_items s' ! i = (wi_items ?s ! i)\<lparr>wi_children := wi_children (wi_items s' ! i)\<rparr>" by auto
    let ?t = "ls' ! (length ls' - 1)"
    have le: "length ls' - 1 < length ls'" using s'(4) code(1) by simp
    have l: "length ls' = length (code_vals V [] code)" using s'(3) by (simp add: made_def)
    moreover from this le have "code_vals V [] code \<noteq> []" by auto
    ultimately have "?t < length (ev @ ev')" "(ev @ ev') ! ?t = V (wi_closure ?it)" "(dp @ dp') ! ?t = ?d"
      using s'(3) le code(4) unfolding made_def by (auto simp: last_conv_nth)
    moreover have "item_inv V (ev @ ev') (dp @ dp') (wi_items s' ! i)" using s'(2,5) unfolding wi_inv_def by auto
    moreover have "wi_tres (wi_items s' ! i) = wi_tres ?it" "wi_closure (wi_items s' ! i) = wi_closure ?it"
      by (subst s'(6), simp add: it1(2))+
    moreover have "(dp @ dp') ! wi_tres ?it = dp ! wi_tres ?it"
      using it inv unfolding item_inv_def wi_inv_def by (simp add: nth_append)
    ultimately have "item_inv V (ev @ ev') (dp @ dp') ((wi_items s' ! i)\<lparr>wi_phase := Finishing b ?t\<rparr>)"
      unfolding item_inv_def by simp
    then have "wi_inv V (ev @ ev') (dp @ dp') (set_phase i (Finishing b ?t) (signal (Execution_finished b) i s'))"
      by (intro wi_inv_phase) (use s'(2,5) in auto)
    moreover have "execute P here i b out s = Some (set_phase i (Finishing b ?t) (signal (Execution_finished b) i s'))"
      using s'(1) le Tree unfolding execute_def Let_def by simp
    ultimately show ?thesis by blast
  qed
qed

lemma combination_inv:
  fixes s :: "('c, 'v, 'p) wi_runtime"
  assumes inv: "wi_inv V ev dp s" and k: "k < length (combinations s)" and v: "v = ev ! co_result (combinations s ! k)"
  shows "wi_inv V ev dp (set_value (co_result (combinations s ! k)) v (remove_combination k s))"
proof -
  let ?c = "combinations s ! k" and ?s = "set_value (co_result (combinations s ! k)) v (remove_combination k s)"
  have "comb_inv ev dp ?c" using inv k unfolding wi_inv_def by auto
  then have t: "co_result ?c < length (promises s)" using inv unfolding wi_inv_def comb_inv_def by auto
  have pr: "promises ?s = (if promises s ! co_result ?c = None then (promises s)[co_result ?c := Some v] else promises s)"
    using t by (simp add: set_value_def remove_combination_def is_ready_def)
  have its: "wi_items ?s = wi_items s" by (simp add: set_value_def remove_combination_def)
  have cs: "combinations ?s = take k (combinations s) @ drop (Suc k) (combinations s)"
    by (simp add: set_value_def remove_combination_def)
  have split: "combinations s = take k (combinations s) @ ?c # drop (Suc k) (combinations s)"
    using k by (rule id_take_nth_drop)
  then have sc: "set (combinations s) = insert ?c (set (combinations ?s))" unfolding cs by (metis list.simps(15) set_append Un_insert_right)
  have ow: "owed ?s x" if "owed s x" "x \<noteq> co_result ?c" for x
    using that unfolding owed_def its sc by blast
  have rd: "is_ready ?s x" if "is_ready s x" for x
    using that unfolding is_ready_def pr by (cases "x = co_result ?c") auto
  have "owed ?s x" if x: "x < length (promises ?s)" "promises ?s ! x = None" for x
  proof -
    have "x < length (promises s)" using x(1) unfolding pr by (simp split: if_splits)
    moreover have "x \<noteq> co_result ?c" using x(2) t unfolding pr by (auto split: if_splits)
    moreover have "promises s ! x = None" using x(2) \<open>x \<noteq> co_result ?c\<close> unfolding pr by (simp split: if_splits)
    ultimately show "owed ?s x" using inv ow unfolding wi_inv_def by blast
  qed
  moreover have "\<forall>x < length (promises ?s). promises ?s ! x \<in> {None, Some (ev ! x)}"
    using inv t v unfolding wi_inv_def pr by (auto simp: nth_list_update)
  ultimately show ?thesis using inv rd sc unfolding wi_inv_def its by (auto simp: pr)
qed

section \<open>Phases, signals and dependencies\<close>

text \<open>The signals of a work item in the order of its phases.\<close>

fun phase_log :: "wi_phase \<Rightarrow> wi_event list" where
  "phase_log (Running b) = [Enqueued, Execution_started b]"
| "phase_log (Finishing b t) = [Enqueued, Execution_started b, Execution_finished b]"
| "phase_log (Finished b) =
     [Enqueued, Execution_started b, Execution_finished b, Requirements_released b, Result_propagated]"
| "phase_log _ = [Enqueued]"

definition item_log :: "('c, 'v, 'p) wi_runtime \<Rightarrow> nat \<Rightarrow> wi_event list" where
  "item_log s i = map fst (filter (\<lambda>e. snd e = i) (wi_log s))"

fun phase_settled :: "('c, 'v) work_item_description \<Rightarrow> ('c, 'v, 'p) wi_runtime \<Rightarrow> ('c, 'p) work_item_impl \<Rightarrow> wi_phase \<Rightarrow> bool" where
  "phase_settled D s it (Running b) \<longleftrightarrow> False"
| "phase_settled D s it Split_posted \<longleftrightarrow> item_can_split D (wi_closure it)"
| "phase_settled D s it (Finishing b t) \<longleftrightarrow> b \<or> list_all (is_ready s) (wi_deps it)"
| "phase_settled D s it (Finished b) \<longleftrightarrow> b \<or> list_all (is_ready s) (wi_deps it)"
| "phase_settled D s it _ \<longleftrightarrow> True"

definition settled :: "('c, 'v) work_item_description \<Rightarrow> ('c, 'v, 'p) wi_runtime \<Rightarrow> bool" where
  "settled D s \<longleftrightarrow> (\<forall>it \<in> set (wi_items s). phase_settled D s it (wi_phase it)) \<and>
     (\<forall>i. item_log s i = (if i < length (wi_items s) then phase_log (wi_phase (wi_items s ! i)) else []))"

lemma filter_Pair_upt: "filter (\<lambda>e. snd e = i) (map (Pair x) [m..<n]) = (if m \<le> i \<and> i < n then [(x, i)] else [])"
  by (induction n) auto

lemma execute_frame:
  assumes ex: "execute P here i b out s = Some s'" and i: "i < length (wi_items s)"
  shows "\<exists>new nc n ph. wi_items s' = (wi_items s)[i := (wi_items s ! i)\<lparr>wi_children := n, wi_phase := ph\<rparr>] @ new \<and>
    map wi_closure new = outcome_spawns out \<and> list_all (\<lambda>it. wi_phase it = Scheduled) new \<and>
    combinations s' = combinations s @ nc \<and> (\<forall>t. is_ready s t \<longrightarrow> is_ready s' t) \<and>
    (ph = Finished b \<or> (\<exists>t. ph = Finishing b t)) \<and>
    wi_log s' = wi_log s @ (Execution_started b, i) # map (Pair Enqueued) [length (wi_items s)..<length (wi_items s')] @
      map (\<lambda>e. (e, i)) (drop 2 (phase_log ph))"
proof (cases out)
  case (Value v)
  then show ?thesis
    using ex i unfolding execute_def
    by (intro exI [of _ "[]"] exI [of _ "wi_children (wi_items s ! i)"] exI [of _ "Finished b"])
      (auto simp: propagate_def Let_def set_value_def set_phase_def is_ready_def, metis nth_list_update_eq nth_list_update_neq)
next
  case (Tree code)
  let ?s = "set_phase i (Running b) (signal (Execution_started b) i s)"
  obtain s1 ls t where s1: "run_code P here i code [] ?s = Some (s1, ls)"
    "s' = set_phase i (Finishing b t) (signal (Execution_finished b) i s1)"
    using ex Tree unfolding execute_def Let_def by (auto split: bind_splits)
  have "i < length (wi_items ?s)" using i by (simp add: set_phase_def)
  from run_code_frame [OF s1(1) this] obtain new nc np where
    f: "wi_items s1 = (wi_items ?s)[i := (wi_items ?s ! i)\<lparr>wi_children := wi_children (wi_items s1 ! i)\<rparr>] @ new"
    "map wi_closure new = concat (map instr_spawns code)" "list_all (\<lambda>it. wi_phase it = Scheduled) new"
    "combinations s1 = combinations ?s @ nc" "promises s1 = promises ?s @ np"
    "wi_log s1 = wi_log ?s @ map (Pair Enqueued) [length (wi_items ?s)..<length (wi_items s1)]" by auto
  have swap: "x\<lparr>wi_phase := p, wi_children := n\<rparr> = x\<lparr>wi_children := n, wi_phase := p\<rparr>" for x :: "('a, 'c) work_item_impl" and p n
    by (cases x) simp
  obtain n where n: "wi_items s1 = (wi_items s)[i := (wi_items s ! i)\<lparr>wi_children := n, wi_phase := Running b\<rparr>] @ new"
    using f(1) i swap by (simp add: set_phase_def)
  have "wi_items s' = (wi_items s)[i := (wi_items s ! i)\<lparr>wi_children := n, wi_phase := Finishing b t\<rparr>] @ new"
    unfolding s1(2) set_phase_def using n i by (simp add: nth_append list_update_append)
  moreover have "\<forall>t. is_ready s t \<longrightarrow> is_ready s' t"
    using f(5) unfolding s1(2) by (auto simp: is_ready_def set_phase_def nth_append)
  moreover have "combinations s' = combinations s @ nc" using f(4) unfolding s1(2) by (simp add: set_phase_def)
  moreover have "wi_log s' = wi_log s @ (Execution_started b, i) # map (Pair Enqueued) [length (wi_items s)..<length (wi_items s')] @
      map (\<lambda>e. (e, i)) (drop 2 (phase_log (Finishing b t)))"
    using f(6) n unfolding s1(2) by (simp add: set_phase_def)
  ultimately show ?thesis using f(2,3) Tree
    by (intro exI [of _ new] exI [of _ nc] exI [of _ n] exI [of _ "Finishing b t"]) simp
qed

lemma phase_settled_ready:
  "phase_settled D s it ph \<Longrightarrow> \<forall>t. is_ready s t \<longrightarrow> is_ready s' t \<Longrightarrow> phase_settled D s' it ph"
  by (cases ph) (auto simp: list_all_iff)

lemma settled_step:
  assumes st: "settled D s" and i: "i < length (wi_items s)"
    and items: "wi_items s' = (wi_items s)[i := it] @ new" and new: "list_all (\<lambda>it. wi_phase it = Scheduled) new"
    and ready: "\<forall>t. is_ready s t \<longrightarrow> is_ready s' t" and it: "phase_settled D s' it (wi_phase it)"
    and log: "wi_log s' = wi_log s @ map (\<lambda>e. (e, i)) xs @ map (Pair Enqueued) [length (wi_items s)..<length (wi_items s')] @
      map (\<lambda>e. (e, i)) ys"
    and order: "phase_log (wi_phase it) = phase_log (wi_phase (wi_items s ! i)) @ xs @ ys"
  shows "settled D s'"
proof -
  have "phase_settled D s' x (wi_phase x)" if "x \<in> set (wi_items s')" for x
  proof -
    from that consider "x = it" | "x \<in> set (wi_items s)" | "x \<in> set new"
      unfolding items by (auto dest!: set_update_subset_insert [THEN subsetD])
    then show ?thesis
    proof cases
      case 2
      then show ?thesis using st ready phase_settled_ready unfolding settled_def by blast
    qed (use it new in \<open>auto simp: list_all_iff\<close>)
  qed
  moreover have "item_log s' j = (if j < length (wi_items s') then phase_log (wi_phase (wi_items s' ! j)) else [])" for j
  proof -
    have own: "filter (\<lambda>e. snd e = j) (map (\<lambda>e. (e, i)) zs) = (if j = i then map (\<lambda>e. (e, i)) zs else [])" for zs :: "wi_event list"
      by (induction zs) auto
    have "item_log s' j = item_log s j @ (if j = i then xs else []) @
        (if length (wi_items s) \<le> j \<and> j < length (wi_items s') then [Enqueued] else []) @ (if j = i then ys else [])"
      unfolding item_log_def log by (simp add: filter_Pair_upt own comp_def)
    moreover have "item_log s j = (if j < length (wi_items s) then phase_log (wi_phase (wi_items s ! j)) else [])"
      using st unfolding settled_def by blast
    moreover have "wi_phase (new ! k) = Scheduled" if "k < length new" for k using new that by (auto simp: list_all_iff)
    ultimately show ?thesis using i order items by (auto simp: nth_append nth_list_update)
  qed
  ultimately show ?thesis unfolding settled_def by blast
qed

lemma settled_phase:
  assumes "settled D s" and "i < length (wi_items s)" and "wi_phase (wi_items s ! i) = Scheduled"
    and "ph = Split_posted \<and> item_can_split D (wi_closure (wi_items s ! i)) \<or> ph = Dep_waiting"
  shows "settled D (set_phase i ph s)"
  by (rule settled_step [where s' = "set_phase i ph s" and new = "[]" and xs = "[]" and ys = "[]", OF assms(1,2)])
    (use assms in \<open>auto simp: set_phase_def is_ready_def\<close>)

lemma wi_step_settled:
  assumes st: "settled D s" and step: "wi_step D P here s s'"
  shows "settled D s'"
  using step
proof (cases rule: wi_step_cases)
  case (post i ph)
  then show ?thesis using settled_phase [OF st post(1,2,4)] by simp
next
  case (run i b)
  from execute_frame [OF run(3,1)] obtain new nc n ph where
    f: "wi_items s' = (wi_items s)[i := (wi_items s ! i)\<lparr>wi_children := n, wi_phase := ph\<rparr>] @ new"
    "list_all (\<lambda>it. wi_phase it = Scheduled) new" "\<forall>t. is_ready s t \<longrightarrow> is_ready s' t"
    "ph = Finished b \<or> (\<exists>t. ph = Finishing b t)"
    "wi_log s' = wi_log s @ (Execution_started b, i) # map (Pair Enqueued) [length (wi_items s)..<length (wi_items s')] @
      map (\<lambda>e. (e, i)) (drop 2 (phase_log ph))" by auto
  have pl: "phase_log ph = phase_log (wi_phase (wi_items s ! i)) @ [Execution_started b] @ drop 2 (phase_log ph)"
    using f(4) run(2) by (auto simp: not_started_def)
  show ?thesis
    by (rule settled_step [OF st run(1) f(1,2,3), where xs = "[Execution_started b]" and ys = "drop 2 (phase_log ph)"])
      (use f(3-5) run(5) pl in \<open>auto simp: list_all_iff\<close>)
next
  case (result i b t v)
  have rd: "is_ready s' x" if "is_ready s x" for x
    using that result(5) by (cases "x = wi_tres (wi_items s ! i)")
      (auto simp: propagate_def Let_def set_value_def set_phase_def is_ready_def)
  have "wi_items s ! i \<in> set (wi_items s)" using result(1) by simp
  then have "phase_settled D s (wi_items s ! i) (Finishing b t)" using st result(2) unfolding settled_def by metis
  then have ps: "phase_settled D s' ((wi_items s ! i)\<lparr>wi_phase := Finished b\<rparr>) (Finished b)" using rd by (auto simp: list_all_iff)
  show ?thesis
    by (rule settled_step [OF st result(1), where new = "[]" and it = "(wi_items s ! i)\<lparr>wi_phase := Finished b\<rparr>" and
          xs = "[Requirements_released b, Result_propagated]" and ys = "[]"])
      (use result rd ps in \<open>auto simp: propagate_def Let_def set_value_def set_phase_def\<close>)
next
  case (combination k a b)
  have its: "wi_items s' = wi_items s" and lg: "wi_log s' = wi_log s"
    using combination(6) by (simp_all add: set_value_def remove_combination_def)
  have "is_ready s' x" if "is_ready s x" for x
    using that combination(6) by (cases "x = co_result (combinations s ! k)")
      (auto simp: set_value_def remove_combination_def is_ready_def)
  then show ?thesis using st unfolding settled_def item_log_def its lg by (blast intro: phase_settled_ready)
qed

lemma wi_step_inv:
  fixes s :: "('c, 'v, 'p) wi_runtime"
  assumes prog: "program_ok D V rank" and st: "settled D s" and inv: "wi_inv V ev dp s" and step: "wi_step D P here s s'"
  shows "\<exists>ev' dp'. wi_inv V (ev @ ev') (dp @ dp') s'"
  using step
proof (cases rule: wi_step_cases)
  case (post i ph)
  have "item_inv V ev dp (wi_items s ! i)" using inv post(1) unfolding wi_inv_def by auto
  then have "wi_inv V ev dp s'"
    unfolding post(3) by (intro wi_inv_phase [OF inv post(1)]) (use post in \<open>auto simp: item_inv_def\<close>)
  then show ?thesis by (intro exI [of _ "[]"]) simp
next
  case (run i b)
  have "item_can_split D (wi_closure (wi_items s ! i))" if "b"
    using run(4) that st run(1) unfolding settled_def by (metis nth_mem phase_settled.simps(2))
  then have "variant_ok V rank (wi_closure (wi_items s ! i)) (variant_of D b (wi_closure (wi_items s ! i)))"
    using prog unfolding program_ok_def variant_of_def by simp
  from execute_inv [OF inv run(1,2) this, of P here b] run(3) show ?thesis by auto
next
  case (result i b t v)
  have "item_inv V ev dp (wi_items s ! i)" using inv result(1) unfolding wi_inv_def by auto
  moreover have "v = ev ! t" using inv result(3,4) unfolding wi_inv_def by force
  ultimately have "v = ev ! wi_tres (wi_items s ! i)" using result(2) by (simp add: item_inv_def)
  from propagate_inv [OF inv result(1) this, of b] show ?thesis
    unfolding result(5) by (intro exI [of _ "[]"]) simp
next
  case (combination k a b)
  have "comb_inv ev dp (combinations s ! k)" using inv combination(1) unfolding wi_inv_def by auto
  moreover have "a = ev ! co_left (combinations s ! k)" "b = ev ! co_right (combinations s ! k)"
    using inv combination(2-5) unfolding wi_inv_def by force+
  ultimately have "co_op (combinations s ! k) a b = ev ! co_result (combinations s ! k)" by (simp add: comb_inv_def)
  from combination_inv [OF inv combination(1) this] show ?thesis
    unfolding combination(6) by (intro exI [of _ "[]"]) simp
qed

definition runtime_good :: "('c, 'v) work_item_description \<Rightarrow> ('c \<Rightarrow> 'v) \<Rightarrow> 'c \<Rightarrow> ('c, 'v, 'p) wi_runtime \<Rightarrow> bool" where
  "runtime_good D V c s \<longleftrightarrow> settled D s \<and> (\<exists>ev dp. wi_inv V ev dp s) \<and>
     wi_items s \<noteq> [] \<and> wi_closure (wi_items s ! 0) = c \<and> wi_tres (wi_items s ! 0) = 0"

lemma start_runtime_good:
  fixes D :: "('c, 'v) work_item_description" and P :: "'p path_ops"
  shows "runtime_good D V c (start_runtime P here c)"
proof -
  let ?s = "\<lparr>promises = [], wi_items = [], combinations = [], wi_log = [], root_ids = 1\<rparr> :: ('c, 'v, 'p) wi_runtime"
  let ?r = "start_runtime P here c :: ('c, 'v, 'p) wi_runtime"
  obtain tk ids where tk: "create_root P here 1 = (tk, ids)" by (cases "create_root P here 1")
  have s: "?r = fst (new_work_item tk c [] (?s\<lparr>root_ids := ids\<rparr>))"
    by (simp add: start_runtime_def spawn_first_def Let_def tk)
  have "wi_inv V [] [] (?s\<lparr>root_ids := ids\<rparr>)" by (simp add: wi_inv_def)
  from wi_inv_new_work_item [OF this, of "[]" 0 c tk] have "wi_inv V [V c] [0] (?r)" unfolding s by simp
  moreover have "settled D (?r)"
    unfolding s by (auto simp: settled_def new_work_item_def Let_def item_log_def)
  moreover have "wi_items (?r) \<noteq> [] \<and> wi_closure (wi_items (?r) ! 0) = c \<and>
      wi_tres (wi_items (?r) ! 0) = 0"
    unfolding s by (simp add: new_work_item_def Let_def)
  ultimately show ?thesis unfolding runtime_good_def by blast
qed

lemma wi_step_root:
  assumes step: "wi_step D P here s s'" and ne: "wi_items s \<noteq> []"
  shows "wi_items s' \<noteq> [] \<and> wi_closure (wi_items s' ! 0) = wi_closure (wi_items s ! 0) \<and>
    wi_tres (wi_items s' ! 0) = wi_tres (wi_items s ! 0)"
  using step
proof (cases rule: wi_step_cases)
  case (run i b)
  from execute_frame [OF run(3,1)] ne show ?thesis by (cases i) (auto simp: nth_append)
next
  case (post i ph)
  then show ?thesis using ne by (cases i) (auto simp: set_phase_def)
next
  case (result i b t v)
  then show ?thesis using ne by (cases i) (auto simp: set_phase_def propagate_def set_value_def Let_def)
qed (use ne in \<open>auto simp: set_value_def remove_combination_def\<close>)

section \<open>Every run ends\<close>

text \<open>A step replaces a work item or a combination by smaller ones: the work items that a variant spawns have a
  smaller rank.\<close>

fun phase_weight :: "nat \<Rightarrow> wi_phase \<Rightarrow> nat multiset" where
  "phase_weight r Scheduled = {#4 * r + 3#}"
| "phase_weight r Split_posted = {#4 * r + 2#}"
| "phase_weight r Dep_waiting = {#4 * r + 2#}"
| "phase_weight r (Running b) = {#4 * r + 1#}"
| "phase_weight r (Finishing b t) = {#4 * r + 1#}"
| "phase_weight r (Finished b) = {#}"

definition item_weight :: "('c \<Rightarrow> nat) \<Rightarrow> ('c, 'p) work_item_impl \<Rightarrow> nat multiset" where
  "item_weight rank it = phase_weight (rank (wi_closure it)) (wi_phase it)"

definition run_weight :: "('c \<Rightarrow> nat) \<Rightarrow> ('c, 'v, 'p) wi_runtime \<Rightarrow> nat multiset" where
  "run_weight rank s = sum_list (map (item_weight rank) (wi_items s)) + replicate_mset (length (combinations s)) 0"

lemma sum_list_mset_update:
  fixes f :: "'a \<Rightarrow> 'b multiset"
  assumes "i < length xs"
  shows "\<exists>M. sum_list (map f xs) = M + f (xs ! i) \<and> (\<forall>y. sum_list (map f (xs[i := y])) = M + f y)"
proof (intro exI [of _ "sum_list (map f (take i xs)) + sum_list (map f (drop (Suc i) xs))"] conjI allI)
  show "sum_list (map f xs) = sum_list (map f (take i xs)) + sum_list (map f (drop (Suc i) xs)) + f (xs ! i)"
    using arg_cong [OF id_take_nth_drop [OF assms], of "\<lambda>xs. sum_list (map f xs)"] by (simp add: ac_simps)
  show "sum_list (map f (xs[i := y])) = sum_list (map f (take i xs)) + sum_list (map f (drop (Suc i) xs)) + f y" for y
    using assms by (simp add: upd_conv_take_nth_drop ac_simps)
qed

lemma replicate_mset_add: "replicate_mset (m + n) x = replicate_mset m x + replicate_mset n x"
  by (induction m) auto

lemma smaller_mult:
  fixes w :: nat
  assumes "\<forall>x \<in># K. x < w"
  shows "(M + K, M + {#w#}) \<in> mult {(x, y). x < y}"
  using one_step_implies_mult [of "{#w#}" K "{(x, y). x < y}" M] assms by auto

lemma spawned_weight:
  assumes "list_all (\<lambda>it. wi_phase it = Scheduled) new" and "\<forall>it \<in> set new. rank (wi_closure it) < r"
  shows "\<forall>x \<in># sum_list (map (item_weight rank) new). x < 4 * r"
  using assms by (induction new) (auto simp: item_weight_def)

lemma wi_step_weight:
  fixes s :: "('c, 'v, 'p) wi_runtime"
  assumes prog: "program_ok D V rank" and st: "settled D s" and step: "wi_step D P here s s'"
  shows "(run_weight rank s', run_weight rank s) \<in> mult {(x, y). x < y}"
  using step
proof (cases rule: wi_step_cases)
  case (post i ph)
  let ?r = "rank (wi_closure (wi_items s ! i))"
  obtain M where M: "sum_list (map (item_weight rank) (wi_items s)) = M + item_weight rank (wi_items s ! i)"
    "\<And>y. sum_list (map (item_weight rank) ((wi_items s)[i := y])) = M + item_weight rank y"
    using sum_list_mset_update [OF post(1), of "item_weight rank"] by blast
  have "run_weight rank s = (M + replicate_mset (length (combinations s)) 0) + {#4 * ?r + 3#}"
    using M(1) post(2) by (simp add: run_weight_def item_weight_def)
  moreover have "run_weight rank s' = (M + replicate_mset (length (combinations s)) 0) + {#4 * ?r + 2#}"
    unfolding post(3) run_weight_def set_phase_def using M(2) post(4) by (auto simp: item_weight_def)
  ultimately show ?thesis by (simp only:) (rule smaller_mult, simp)
next
  case (run i b)
  let ?c = "wi_closure (wi_items s ! i)"
  have "item_can_split D ?c" if "b" using run(4) that st run(1) unfolding settled_def by (metis nth_mem phase_settled.simps(2))
  then have less: "\<forall>c' \<in> set (outcome_spawns (variant_of D b ?c)). rank c' < rank ?c"
    using prog unfolding program_ok_def variant_of_def variant_ok_def by auto
  from execute_frame [OF run(3,1)] obtain new nc n ph where
    f: "wi_items s' = (wi_items s)[i := (wi_items s ! i)\<lparr>wi_children := n, wi_phase := ph\<rparr>] @ new"
    "map wi_closure new = outcome_spawns (variant_of D b ?c)" "list_all (\<lambda>it. wi_phase it = Scheduled) new"
    "combinations s' = combinations s @ nc" "ph = Finished b \<or> (\<exists>t. ph = Finishing b t)" by auto
  obtain M where M: "sum_list (map (item_weight rank) (wi_items s)) = M + item_weight rank (wi_items s ! i)"
    "\<And>y. sum_list (map (item_weight rank) ((wi_items s)[i := y])) = M + item_weight rank y"
    using sum_list_mset_update [OF run(1), of "item_weight rank"] by blast
  let ?new = "sum_list (map (item_weight rank) new)"
  let ?K = "phase_weight (rank ?c) ph + ?new + replicate_mset (length nc) 0"
  obtain w where w: "phase_weight (rank ?c) (wi_phase (wi_items s ! i)) = {#w#}" "4 * rank ?c + 2 \<le> w"
    using run(2) by (auto simp: not_started_def)
  have "\<forall>it \<in> set new. rank (wi_closure it) < rank ?c"
    using less unfolding f(2) [symmetric] by simp
  from spawned_weight [OF f(3) this] have "\<forall>x \<in># ?new. x < w" using w(2) by force
  then have "\<forall>x \<in># ?K. x < w" using w(2) f(5) by (auto dest: in_replicate_mset [THEN iffD1])
  then have "((M + replicate_mset (length (combinations s)) 0) + ?K, (M + replicate_mset (length (combinations s)) 0) + {#w#})
      \<in> mult {(x, y). x < y}" by (rule smaller_mult)
  moreover have "run_weight rank s = (M + replicate_mset (length (combinations s)) 0) + {#w#}"
    using M(1) w(1) by (simp add: run_weight_def item_weight_def)
  moreover have "run_weight rank s' = (M + replicate_mset (length (combinations s)) 0) + ?K"
    using M(2) f(1,4) by (simp add: run_weight_def item_weight_def ac_simps replicate_mset_add)
  ultimately show ?thesis by simp
next
  case (result i b t v)
  let ?r = "rank (wi_closure (wi_items s ! i))"
  obtain M where M: "sum_list (map (item_weight rank) (wi_items s)) = M + item_weight rank (wi_items s ! i)"
    "\<And>y. sum_list (map (item_weight rank) ((wi_items s)[i := y])) = M + item_weight rank y"
    using sum_list_mset_update [OF result(1), of "item_weight rank"] by blast
  have "run_weight rank s = (M + replicate_mset (length (combinations s)) 0) + {#4 * ?r + 1#}"
    using M(1) result(2) by (simp add: run_weight_def item_weight_def)
  moreover have "run_weight rank s' = (M + replicate_mset (length (combinations s)) 0) + {#}"
    unfolding result(5) run_weight_def using M(2)
    by (simp add: propagate_def set_value_def set_phase_def Let_def item_weight_def)
  ultimately show ?thesis by (simp only:) (rule smaller_mult, simp)
next
  case (combination k a b)
  obtain n where n: "length (combinations s) = Suc n" using combination(1) by (cases "length (combinations s)") auto
  have "run_weight rank s = (sum_list (map (item_weight rank) (wi_items s)) + replicate_mset n 0) + {#0#}"
    by (simp add: run_weight_def n)
  moreover have "run_weight rank s' = (sum_list (map (item_weight rank) (wi_items s)) + replicate_mset n 0) + {#}"
    using combination(1) n unfolding combination(6) by (simp add: run_weight_def set_value_def remove_combination_def)
  ultimately show ?thesis using smaller_mult [of "{#}" 0] by simp
qed

interpretation wi_runs: ending_steps "\<lambda>s s'. program_ok D V rank \<and> wi_step D P here s s'" "\<lambda>s. s = start_runtime P here c"
    "runtime_good D V c" "run_weight rank" "mult {(x, y). x < y}"
proof
  show "runtime_good D V c s" if "s = start_runtime P here c" for s using that by (simp add: start_runtime_good)
  show "runtime_good D V c s'" if "runtime_good D V c s" "program_ok D V rank \<and> wi_step D P here s s'" for s s'
    using that unfolding runtime_good_def by (metis wi_step_settled wi_step_inv wi_step_root)
  show "wf (mult {(x :: nat, y). x < y})" by (intro wf_mult wf)
  show "(run_weight rank s', run_weight rank s) \<in> mult {(x, y). x < y}"
    if "runtime_good D V c s" "program_ok D V rank \<and> wi_step D P here s s'" for s s'
    using that wi_step_weight unfolding runtime_good_def by blast
qed

lemma reachable_good:
  assumes "program_ok D V rank" and "(wi_step D P here)\<^sup>*\<^sup>* (start_runtime P here c) s"
  shows "runtime_good D V c s"
  using wi_runs.reachable_inv [where D = D and V = V and rank = rank and P = P and here = here and c = c] assms by simp

text \<open>Every state that a run can reach can be brought to an end.\<close>

lemma runtime_ends:
  assumes "program_ok D V rank" and "runtime_good D V c s"
  shows "\<exists>s'. (wi_step D P here)\<^sup>*\<^sup>* s s' \<and> (\<nexists>s''. wi_step D P here s' s'')"
  using wi_runs.run_ends [where D = D and V = V and rank = rank and P = P and here = here and c = c] assms by simp

section \<open>A run that has ended is complete\<close>

lemma waiting_item_steps:
  assumes prog: "program_ok D V rank" and st: "settled D s" and inv: "wi_inv V ev dp s"
    and i: "i < length (wi_items s)" and un: "unfinished (wi_phase (wi_items s ! i))"
    and deps: "list_all (is_ready s) (wi_deps (wi_items s ! i))"
    and res: "\<And>b t. wi_phase (wi_items s ! i) = Finishing b t \<Longrightarrow> is_ready s t"
  shows "\<exists>s'. wi_step D P here s s'"
proof -
  let ?it = "wi_items s ! i"
  have sp: "phase_settled D s ?it (wi_phase ?it)" using st i unfolding settled_def by simp
  have pr: "\<exists>s'. wi_do_process D P here i s = Some s'" if "not_started (wi_phase ?it)"
    using execute_inv [OF inv i that, of rank "process_execute D (wi_closure ?it)" P here False] prog
    by (auto simp: wi_do_process_def program_ok_def)
  have spl: "\<exists>s'. wi_do_split D P here i s = Some s'" if "wi_phase ?it = Split_posted"
    using execute_inv [OF inv i, of rank "split_execute D (wi_closure ?it)" P here True] prog sp that
    by (auto simp: wi_do_split_def program_ok_def not_started_def)
  have "\<exists>ch s'. run_choice D P here ch s = Some s'"
  proof (cases "wi_phase ?it")
    case Scheduled
    then show ?thesis using pr deps i by (intro exI [of _ "Process i"]) (auto simp: not_started_def wi_process_def)
  next
    case Split_posted
    then show ?thesis using spl i by (intro exI [of _ "Run_split i"]) auto
  next
    case Dep_waiting
    then show ?thesis using pr deps i by (intro exI [of _ "Run_process i"]) (auto simp: not_started_def)
  next
    case (Finishing b t)
    then show ?thesis using res i by (intro exI [of _ "Run_result i"]) (auto simp: is_ready_def)
  qed (use sp un in auto)
  then show ?thesis by (blast intro: wi_step)
qed

lemma waiting_combination_steps:
  assumes "k < length (combinations s)" and "is_ready s (co_left (combinations s ! k))"
    and "is_ready s (co_right (combinations s ! k))" and "list_all (is_ready s) (co_deps (combinations s ! k))"
  shows "\<exists>s'. wi_step D P here s s'"
proof -
  have "\<exists>s'. run_choice D P here (Run_combination k) s = Some s'" using assms by (auto simp: is_ready_def)
  then show ?thesis by (blast intro: wi_step)
qed

text \<open>Of the promises without a value, the one of the greatest depth, and of these the oldest, is owed by a work
  item or a combination that can go on.\<close>

lemma stuck_all_ready:
  assumes prog: "program_ok D V rank" and st: "settled D s" and inv: "wi_inv V ev dp s"
    and stuck: "\<nexists>s'. wi_step D P here s s'" and "x < length (promises s)"
  shows "is_ready s x"
proof (rule ccontr)
  define A where "A = {x. x < length (promises s) \<and> promises s ! x = None}"
  assume "\<not> is_ready s x"
  then have A: "finite A" "A \<noteq> {}" using assms(5) by (auto simp: A_def is_ready_def)
  define m where "m = Max ((!) dp ` A)"
  have m: "m \<in> (!) dp ` A" "\<forall>x \<in> A. dp ! x \<le> m" using A by (simp_all add: m_def)
  define t where "t = Min {x \<in> A. dp ! x = m}"
  have "finite {x \<in> A. dp ! x = m}" "{x \<in> A. dp ! x = m} \<noteq> {}" using A m(1) by auto
  then have t: "t \<in> A" "dp ! t = m" "\<forall>x \<in> A. dp ! x = m \<longrightarrow> t \<le> x"
    using Min_in [of "{x \<in> A. dp ! x = m}"] by (auto simp: t_def)
  have old: "is_ready s x" if "x < t" "dp ! x = dp ! t" for x
  proof (rule ccontr)
    assume "\<not> is_ready s x"
    then have "x \<in> A" using that(1) t(1) by (auto simp: A_def is_ready_def)
    then show False using t(2,3) that by fastforce
  qed
  have deep: "is_ready s x" if "x < length (promises s)" "dp ! x = Suc (dp ! t)" for x
    using that t(2) m(2) by (auto simp: A_def is_ready_def)
  have len: "length ev = length (promises s)" using inv by (simp add: wi_inv_def)
  have "owed s t" using t(1) inv by (auto simp: A_def wi_inv_def)
  then show False
    unfolding owed_def
  proof
    assume "\<exists>it \<in> set (wi_items s). wi_tres it = t \<and> unfinished (wi_phase it)"
    then obtain i where i: "i < length (wi_items s)" "wi_tres (wi_items s ! i) = t" "unfinished (wi_phase (wi_items s ! i))"
      by (metis in_set_conv_nth)
    have it: "item_inv V ev dp (wi_items s ! i)" using inv i(1) unfolding wi_inv_def by auto
    then have "list_all (is_ready s) (wi_deps (wi_items s ! i))"
      using old i(2) unfolding item_inv_def list_all_iff by blast
    moreover have "is_ready s y" if "wi_phase (wi_items s ! i) = Finishing b y" for b y
      using it that deep i(2) len unfolding item_inv_def by simp
    ultimately show False using waiting_item_steps [OF prog st inv i(1,3)] stuck by blast
  next
    assume "\<exists>c \<in> set (combinations s). co_result c = t"
    then obtain k where k: "k < length (combinations s)" "co_result (combinations s ! k) = t" by (metis in_set_conv_nth)
    have "comb_inv ev dp (combinations s ! k)" using inv k(1) unfolding wi_inv_def by auto
    then have "\<forall>x \<in> set (co_left (combinations s ! k) # co_right (combinations s ! k) # co_deps (combinations s ! k)). is_ready s x"
      using old k(2) unfolding comb_inv_def by blast
    then show False using waiting_combination_steps [OF k(1)] stuck by (auto simp: list_all_iff)
  qed
qed

lemma stuck_complete:
  assumes prog: "program_ok D V rank" and st: "settled D s" and inv: "wi_inv V ev dp s"
    and stuck: "\<nexists>s'. wi_step D P here s s'"
  shows "combinations s = []" and "\<forall>it \<in> set (wi_items s). \<not> unfinished (wi_phase it)"
proof -
  have rd: "is_ready s x" if "x < length (promises s)" for x by (rule stuck_all_ready [OF assms that])
  have len: "length ev = length (promises s)" using inv by (simp add: wi_inv_def)
  show "combinations s = []"
  proof (rule ccontr)
    assume "combinations s \<noteq> []"
    then have k: "0 < length (combinations s)" by simp
    then have "comb_inv ev dp (combinations s ! 0)" using inv unfolding wi_inv_def by (metis nth_mem)
    then have "\<forall>x \<in> set (co_left (combinations s ! 0) # co_right (combinations s ! 0) # co_deps (combinations s ! 0)). is_ready s x"
      using rd len unfolding comb_inv_def by (metis order_less_trans)
    then show False using waiting_combination_steps [OF k] stuck by (auto simp: list_all_iff)
  qed
  show "\<forall>it \<in> set (wi_items s). \<not> unfinished (wi_phase it)"
  proof
    fix it
    assume "it \<in> set (wi_items s)"
    then obtain i where i: "i < length (wi_items s)" "wi_items s ! i = it" by (metis in_set_conv_nth)
    have inv_it: "item_inv V ev dp it" using inv i unfolding wi_inv_def by auto
    then have "list_all (is_ready s) (wi_deps it)" using rd len unfolding item_inv_def list_all_iff by (metis order_less_trans)
    moreover have "is_ready s y" if "wi_phase it = Finishing b y" for b y
      using inv_it that rd len unfolding item_inv_def by simp
    ultimately show "\<not> unfinished (wi_phase it)"
      using waiting_item_steps [OF prog st inv i(1)] stuck i(2) by blast
  qed
qed

section \<open>An example\<close>

text \<open>The sum of n ones by halving; the second half is spawned after the first.\<close>

definition halving :: "(nat, nat) work_item_description" where
  "halving = \<lparr>can_split_call = (\<lambda>n. 2 \<le> n), split_valid = (\<lambda>_. True),
    split_execute = (\<lambda>n. Tree [Spawn_wi (n div 2) [], Spawn_wi (n - n div 2) [0], Combine_wi (+) 0 1 []]),
    process_execute = Value\<rparr>"

lemma halving_ok: "program_ok halving (\<lambda>n. n) (\<lambda>n. n)"
  by (auto simp: program_ok_def halving_def variant_ok_def item_can_split_def)

fun run_choices ::
  "('c, 'v) work_item_description \<Rightarrow> 'p path_ops \<Rightarrow> uint64_t \<Rightarrow> wi_choice list \<Rightarrow> ('c, 'v, 'p) wi_runtime \<Rightarrow>
   ('c, 'v, 'p) wi_runtime option" where
  "run_choices D P here [] s = Some s"
| "run_choices D P here (ch # chs) s = do {
    s \<leftarrow> run_choice D P here ch s;
    run_choices D P here chs s}"

lemma run_choices_steps: "run_choices D P here chs s = Some s' \<Longrightarrow> (wi_step D P here)\<^sup>*\<^sup>* s s'"
  by (induction chs arbitrary: s) (auto split: bind_splits intro: wi_step converse_rtranclp_into_rtranclp)

lemmas run_eval = start_runtime_def spawn_first_def create_root_def mk_task_id_def new_work_item_def signal_def set_phase_def
  wi_split_def wi_process_def wi_do_split_def wi_do_process_def execute_def propagate_def set_value_def is_ready_def
  spawn_child_def create_child_def treeture_combine_def remove_combination_def item_can_split_def is_right_def left_child_def right_child_def halving_def

definition halved :: "(nat, nat, bool list) wi_runtime option" where
  "halved = run_choices halving list_paths 0 [Split 0, Run_split 0, Process 2, Process 1, Run_process 2, Run_combination 0,
    Run_result 0] (start_runtime list_paths 0 2)"

lemma halved_eval:
  "map_option promises halved = Some [Some 2, Some 1, Some 1, Some 2]" 
  by (simp add: halved_def run_eval Let_def)

lemma in_item_log: "e \<in> set (item_log s i) \<longleftrightarrow> (e, i) \<in> set (wi_log s)"
  by (force simp: item_log_def)

lemma halved_done:
  obtains s where "(wi_step halving list_paths 0)\<^sup>*\<^sup>* (start_runtime list_paths 0 2) s" and "promises s = [Some 2, Some 1, Some 1, Some 2]"
    and "combinations s = []" and "map wi_phase (wi_items s) = [Finished True, Finished False, Finished False]"
    and "map wi_deps (wi_items s) = [[], [], [1]]" and "map wi_tres (wi_items s) = [0, 1, 2]"
    and "map wi_closure (wi_items s) = [2, 1, 1]"
    and "item_log s 2 = phase_log (Finished False)"
proof -
  have "\<exists>s. halved = Some s \<and> promises s = [Some 2, Some 1, Some 1, Some 2] \<and> combinations s = [] \<and>
    map wi_phase (wi_items s) = [Finished True, Finished False, Finished False] \<and>
    map wi_deps (wi_items s) = [[], [], [1]] \<and> map wi_tres (wi_items s) = [0, 1, 2] \<and>
    map wi_closure (wi_items s) = [2, 1, 1] \<and> item_log s 2 = phase_log (Finished False)"
    by (simp add: halved_def run_eval Let_def item_log_def)
  then show thesis
  proof (elim exE conjE)
    fix s
    assume "halved = Some s" and s: "promises s = [Some 2, Some 1, Some 1, Some 2]" "combinations s = []"
      "map wi_phase (wi_items s) = [Finished True, Finished False, Finished False]"
      "map wi_deps (wi_items s) = [[], [], [1]]" "map wi_tres (wi_items s) = [0, 1, 2]"
      "map wi_closure (wi_items s) = [2, 1, 1]" "item_log s 2 = phase_log (Finished False)"
    then have "(wi_step halving list_paths 0)\<^sup>*\<^sup>* (start_runtime list_paths 0 2) s"
      unfolding halved_def by (intro run_choices_steps)
    then show thesis by (rule that [OF _ s])
  qed
qed

lemma ended_no_step:
  assumes "combinations s = []" and "\<forall>it \<in> set (wi_items s). \<not> unfinished (wi_phase it)"
  shows "\<nexists>s'. wi_step D P here s s'"
proof
  assume "\<exists>s'. wi_step D P here s s'"
  then obtain s' where "wi_step D P here s s'" ..
  then show False
  proof (cases rule: wi_step_cases)
    case (post i ph)
    then show False using assms(2) nth_mem [OF post(1)] by (metis unfinished_simps(1))
  next
    case (run i b)
    have "unfinished (wi_phase (wi_items s ! i))" using run(2) by (auto simp: not_started_def)
    then show False using assms(2) nth_mem [OF run(1)] by blast
  next
    case (result i b t v)
    then show False using assms(2) nth_mem [OF result(1)] by (metis unfinished_simps(5))
  qed (use assms(1) in simp)
qed

text \<open>C7: Whatever the scheduler decides and in whatever order the callbacks run, the treeture of a work item is
  empty or has the value that the program defines for its closure; so a result never depends on which variants were
  chosen.\<close>

theorem tasks_compute_value:
  fixes D :: "('c, 'v) work_item_description" and P :: "'p path_ops"
  assumes "program_ok D V rank" and "(wi_step D P here)\<^sup>*\<^sup>* (start_runtime P here c) s" and "it \<in> set (wi_items s)"
  shows "wi_tres it < length (promises s) \<and> promises s ! wi_tres it \<in> {None, Some (V (wi_closure it))}"
proof -
  obtain ev dp where inv: "wi_inv V ev dp s"
    using reachable_good [OF assms(1,2)] unfolding runtime_good_def by blast
  then have "item_inv V ev dp it" "length ev = length (promises s)" using assms(3) unfolding wi_inv_def by auto
  then show ?thesis using inv unfolding wi_inv_def item_inv_def by metis
qed

theorem tasks_compute_value_witness:
  "\<exists>s it. (wi_step halving list_paths 0)\<^sup>*\<^sup>* (start_runtime list_paths 0 2) s \<and> it \<in> set (wi_items s) \<and>
     wi_closure it = 2 \<and> promises s ! wi_tres it = Some 2 \<and> promises s ! wi_tres it \<in> {None, Some (wi_closure it)}"
proof -
  obtain s where s: "(wi_step halving list_paths 0)\<^sup>*\<^sup>* (start_runtime list_paths 0 2) s"
    "promises s = [Some 2, Some 1, Some 1, Some 2]" "map wi_tres (wi_items s) = [0, 1, 2]"
    "map wi_closure (wi_items s) = [2, 1, 1]" by (rule halved_done)
  then obtain it xs where it: "wi_items s = it # xs" "wi_tres it = 0" "wi_closure it = 2" by (cases "wi_items s") auto
  then have m: "it \<in> set (wi_items s)" by simp
  show ?thesis using tasks_compute_value [OF halving_ok s(1) m] s(1,2) it m by fastforce
qed

text \<open>C27: A program whose recursion is well-founded has no infinite run: every schedule of its work items, splits and
  callbacks comes to an end.\<close>

theorem work_item_runs_end:
  fixes D :: "('c, 'v) work_item_description" and P :: "'p path_ops"
  assumes "program_ok D V rank"
  shows "\<nexists>f. f 0 = start_runtime P here c \<and> (\<forall>n. wi_step D P here (f n) (f (Suc n)))"
  using wi_runs.no_infinite_run [where D = D and V = V and rank = rank and P = P and here = here and c = c] assms by simp

theorem work_item_runs_end_witness:
  "\<nexists>f. f 0 = start_runtime list_paths 0 2 \<and> (\<forall>n. wi_step halving list_paths 0 (f n) (f (Suc n)))"
  by (rule work_item_runs_end [OF halving_ok])

text \<open>C9: A run that cannot go on is complete: the treeture of the first work item has the value of the program,
  no combination waits, and every work item has gone through all its phases.  Nothing is ever left waiting, in
  whatever order dependencies were given to tasks.\<close>

theorem ended_run_complete:
  fixes D :: "('c, 'v) work_item_description" and P :: "'p path_ops"
  assumes "program_ok D V rank" and "(wi_step D P here)\<^sup>*\<^sup>* (start_runtime P here c) s" and "\<nexists>s'. wi_step D P here s s'"
  shows "promises s ! 0 = Some (V c) \<and> combinations s = [] \<and>
    (\<forall>i < length (wi_items s). \<exists>b. item_log s i =
       [Enqueued, Execution_started b, Execution_finished b, Requirements_released b, Result_propagated])"
proof -
  obtain ev dp where g: "settled D s" "wi_inv V ev dp s" "wi_items s \<noteq> []" "wi_closure (wi_items s ! 0) = c"
    "wi_tres (wi_items s ! 0) = 0"
    using reachable_good [OF assms(1,2)] unfolding runtime_good_def by blast
  note all_done = stuck_complete [OF assms(1) g(1,2) assms(3)]
  have it: "item_inv V ev dp (wi_items s ! 0)" using g(2,3) unfolding wi_inv_def by auto
  then have "0 < length (promises s)" using g(2,5) unfolding item_inv_def wi_inv_def by simp
  moreover from this have "is_ready s 0" by (rule stuck_all_ready [OF assms(1) g(1,2) assms(3)])
  ultimately have "promises s ! 0 = Some (ev ! 0)" using g(2) unfolding wi_inv_def is_ready_def by auto
  then have "promises s ! 0 = Some (V c)" using it g(4,5) by (simp add: item_inv_def)
  moreover have "\<exists>b. item_log s i = phase_log (Finished b)" if "i < length (wi_items s)" for i
  proof -
    have "\<not> unfinished (wi_phase (wi_items s ! i))" using all_done(2) that by simp
    then obtain b where "wi_phase (wi_items s ! i) = Finished b" by (cases "wi_phase (wi_items s ! i)") auto
    then show ?thesis using g(1) that unfolding settled_def by auto
  qed
  ultimately show ?thesis using all_done(1) by simp
qed

theorem ended_run_complete_witness:
  "\<exists>s :: (nat, nat, bool list) wi_runtime. (wi_step halving list_paths 0)\<^sup>*\<^sup>* (start_runtime list_paths 0 2) s \<and>
     length (wi_items s) = 3 \<and> (\<nexists>s'. wi_step halving list_paths 0 s s') \<and> promises s ! 0 = Some 2"
proof -
  obtain s :: "(nat, nat, bool list) wi_runtime" where s: "(wi_step halving list_paths 0)\<^sup>*\<^sup>* (start_runtime list_paths 0 2) s"
    "combinations s = []" "map wi_phase (wi_items s) = [Finished True, Finished False, Finished False]"
    by (rule halved_done)
  have "length (wi_items s) = 3" using arg_cong [OF s(3), of length] by simp
  moreover have "\<forall>ph \<in> set (map wi_phase (wi_items s)). \<not> unfinished ph" by (simp add: s(3))
  then have "\<nexists>s'. wi_step halving list_paths 0 s s'" by (intro ended_no_step [OF s(2)]) simp
  ultimately show ?thesis using ended_run_complete [OF halving_ok s(1)] s(1) by blast
qed

text \<open>C37: Every work item runs once, as a split or as a process, never both: its signals are a prefix of enqueued,
  execution started, execution finished, requirements released and result propagated, all of the same
  variant.\<close>

theorem items_run_once:
  fixes D :: "('c, 'v) work_item_description" and P :: "'p path_ops"
  assumes "program_ok D V rank" and "(wi_step D P here)\<^sup>*\<^sup>* (start_runtime P here c) s" and "i < length (wi_items s)"
  shows "\<exists>b n. item_log s i = take (Suc n)
    [Enqueued, Execution_started b, Execution_finished b, Requirements_released b, Result_propagated]"
proof -
  have st: "settled D s" using reachable_good [OF assms(1,2)] unfolding runtime_good_def by blast
  have "\<exists>b n. phase_log ph = take (Suc n) (phase_log (Finished b))" for ph
  proof (cases ph)
    case (Running b)
    then show ?thesis by (intro exI [of _ b] exI [of _ 1]) (simp add: numeral_eq_Suc)
  next
    case (Finishing b t)
    then show ?thesis by (intro exI [of _ b] exI [of _ 2]) (simp add: numeral_eq_Suc)
  next
    case (Finished b)
    then show ?thesis by (intro exI [of _ b] exI [of _ 4]) (simp add: numeral_eq_Suc)
  qed (intro exI [of _ True] exI [of _ 0], simp)+
  then show ?thesis using st assms(3) unfolding settled_def by simp
qed

theorem items_run_once_witness:
  "\<exists>s b n. (wi_step halving list_paths 0)\<^sup>*\<^sup>* (start_runtime list_paths 0 2) s \<and> 2 < length (wi_items s) \<and>
     item_log s 2 = take (Suc n) [Enqueued, Execution_started b, Execution_finished b, Requirements_released b, Result_propagated]"
proof -
  obtain s where s: "(wi_step halving list_paths 0)\<^sup>*\<^sup>* (start_runtime list_paths 0 2) s"
    "map wi_tres (wi_items s) = [0, 1, 2]" by (rule halved_done)
  have "2 < length (wi_items s)" using arg_cong [OF s(2), of length] by simp
  then show ?thesis using items_run_once [OF halving_ok s(1), of 2] s(1) by blast
qed

text \<open>The process variant of a work item starts only when the dependencies it was spawned with have their
  values.\<close>

theorem process_waits_for_dependencies:
  fixes D :: "('c, 'v) work_item_description" and P :: "'p path_ops"
  assumes "program_ok D V rank" and "(wi_step D P here)\<^sup>*\<^sup>* (start_runtime P here c) s" and "i < length (wi_items s)"
    and "Execution_started False \<in> set (item_log s i)"
  shows "list_all (is_ready s) (wi_deps (wi_items s ! i))"
proof -
  have st: "settled D s" using reachable_good [OF assms(1,2)] unfolding runtime_good_def by blast
  then have "phase_settled D s (wi_items s ! i) (wi_phase (wi_items s ! i))" "item_log s i = phase_log (wi_phase (wi_items s ! i))"
    using assms(3) unfolding settled_def by simp_all
  then show ?thesis using assms(4) by (cases "wi_phase (wi_items s ! i)") auto
qed

theorem process_waits_for_dependencies_witness:
  "\<exists>s. (wi_step halving list_paths 0)\<^sup>*\<^sup>* (start_runtime list_paths 0 2) s \<and> wi_deps (wi_items s ! 2) = [1] \<and>
     Execution_started False \<in> set (item_log s 2) \<and> list_all (is_ready s) (wi_deps (wi_items s ! 2))"
proof -
  obtain s where s: "(wi_step halving list_paths 0)\<^sup>*\<^sup>* (start_runtime list_paths 0 2) s"
    "map wi_deps (wi_items s) = [[], [], [1]]" "item_log s 2 = phase_log (Finished False)" by (rule halved_done)
  have l: "2 < length (wi_items s)" using arg_cong [OF s(2), of length] by simp
  have "wi_deps (wi_items s ! 2) = [1]" using arg_cong [OF s(2), of "\<lambda>xs. xs ! 2"] l by simp
  then show ?thesis using process_waits_for_dependencies [OF halving_ok s(1) l] s(1,3) by auto
qed

text \<open>The split variant does not wait: the second child of a split, which depends on the first, is split while
  the first has not started.\<close>

lemma split_ignores_dependencies:
  "\<exists>s. (wi_step halving list_paths 0)\<^sup>*\<^sup>* (start_runtime list_paths 0 4) s \<and> wi_deps (wi_items s ! 2) = [1] \<and>
     Execution_started True \<in> set (item_log s 2) \<and> \<not> is_ready s 1"
proof -
  have "\<exists>s. run_choices halving list_paths 0 [Split 0, Run_split 0, Split 2] (start_runtime list_paths 0 4) = Some s \<and>
    wi_deps (wi_items s ! 2) = [1] \<and> Execution_started True \<in> set (item_log s 2) \<and> \<not> is_ready s 1"
    by (simp add: run_eval Let_def in_item_log)
  then show ?thesis using run_choices_steps by blast
qed

end
