(* ===== verification/Nelder_Mead.thy ===== *)
theory Nelder_Mead
  imports Ordered_Maps
begin

text \<open>
  The incremental Nelder-Mead search of the local optimizer: allscale/components/nmsimplex\_bbincr.hpp and
  src/components/nmsimplex\_bbincr.cpp.  The objective function is not called: step returns a point to try, and
  the next call of step is given the value that was sampled there.

  A point has n = 2 coordinates, the number of threads and the index of a frequency.  The arithmetic of double is a
  parameter.  The arrays of the object have the sizes with which the constructor allocates them; their first
  contents and those of the indices vs, vh and vg are what the memory held.
\<close>

section \<open>The state\<close>

record 'f nm_fpu =
  fp :: "'f farith"
  fround :: "'f \<Rightarrow> 'f"
  fsquare :: "'f \<Rightarrow> 'f"
  to_int :: "'f \<Rightarrow> int"

definition fge :: "'f farith \<Rightarrow> 'f \<Rightarrow> 'f \<Rightarrow> bool" where
  "fge F x y \<longleftrightarrow> flt F y x \<or> feq F x y"

datatype iterationstates = Start | Reflection | Expansion | Contraction

record 'f optstepresult =
  r_converged :: bool
  r_threads :: 'f
  r_freq_idx :: int

record 'f nelder_mead =
  nm_vs :: nat
  nm_vh :: nat
  nm_vg :: nat
  nm_itr :: nat
  nm_v :: "'f list list"
  nm_f :: "'f list"
  nm_fr :: 'f
  nm_vr :: "'f list"
  nm_ve :: "'f list"
  nm_vc :: "'f list"
  nm_vm :: "'f list"
  nm_min :: 'f
  nm_epsilon :: 'f
  nm_state :: iterationstates
  constraint_min :: "'f list"
  constraint_max :: "'f list"

abbreviation nm_n :: nat where
  "nm_n \<equiv> 2"

definition max_iterations :: nat where
  "max_iterations = 15"

text \<open>The constructor, given the memory of the object.\<close>

definition new_nelder_mead :: "'f \<Rightarrow> 'f nelder_mead \<Rightarrow> 'f nelder_mead" where
  "new_nelder_mead eps mem = mem\<lparr>nm_epsilon := eps, nm_itr := 0, nm_state := Start\<rparr>"

text \<open>initialize\_simplex.  Its loop runs to i = n, one past the end of the constraint arrays (two elements each) of
  the caller and of the object.  What it reads there is arbitrary (past\_min); the element behind constraint\_min is
  the first one of constraint\_max, which is the next member, and the element behind constraint\_max is outside
  the object.\<close>

definition initialize_simplex ::
  "'f list list \<Rightarrow> 'f list \<Rightarrow> 'f list \<Rightarrow> 'f list \<Rightarrow> 'f \<Rightarrow> 'f nelder_mead \<Rightarrow> 'f nelder_mead" where
  "initialize_simplex params values cmin cmax past_min nm =
     nm\<lparr>nm_v := map (\<lambda>i. map (\<lambda>j. params ! i ! j) [0..<nm_n]) [0..<Suc nm_n],
        nm_f := map (\<lambda>i. values ! i) [0..<Suc nm_n],
        constraint_min := map (\<lambda>i. cmin ! i) [0..<nm_n],
        constraint_max := (map (\<lambda>i. cmax ! i) [0..<nm_n])[0 := past_min],
        nm_itr := 0\<rparr>"

section \<open>The operations\<close>

definition back_in :: "'f nm_fpu \<Rightarrow> 'f \<Rightarrow> 'f \<Rightarrow> 'f \<Rightarrow> 'f" where
  "back_in N lo hi x =
     (if flt (fp N) x lo \<or> flt (fp N) hi x then fdiv (fp N) (fadd (fp N) lo hi) (fof_int (fp N) 2) else x)"

definition my_constraints :: "'f nm_fpu \<Rightarrow> 'f nelder_mead \<Rightarrow> 'f list \<Rightarrow> 'f list" where
  "my_constraints N nm x =
     (let x = x[0 := back_in N (constraint_min nm ! 0) (constraint_max nm ! 0) (x ! 0)];
          x = x[1 := back_in N (constraint_min nm ! 1) (constraint_max nm ! 1) (x ! 1)]
      in x[0 := fround N (x ! 0), 1 := fround N (x ! 1)])"

definition vg_index :: "'f nm_fpu \<Rightarrow> 'f list \<Rightarrow> nat" where
  "vg_index N f = foldl (\<lambda>vg j. if flt (fp N) (f ! vg) (f ! j) then j else vg) 0 [0..<Suc nm_n]"

definition vs_index :: "'f nm_fpu \<Rightarrow> 'f list \<Rightarrow> nat" where
  "vs_index N f = foldl (\<lambda>vs j. if flt (fp N) (f ! j) (f ! vs) then j else vs) 0 [0..<Suc nm_n]"

text \<open>vh\_index starts from the value that the member vh has.\<close>

definition vh_index :: "'f nm_fpu \<Rightarrow> 'f list \<Rightarrow> nat \<Rightarrow> nat \<Rightarrow> nat option" where
  "vh_index N f vg vh = do {
     _ \<leftarrow> at_opt f vh;
     Some (foldl (\<lambda>vh j. if flt (fp N) (f ! vh) (f ! j) \<and> flt (fp N) (f ! j) (f ! vg) then j else vh) vh [0..<Suc nm_n])}"

definition centroid :: "'f nm_fpu \<Rightarrow> 'f nelder_mead \<Rightarrow> 'f list" where
  "centroid N nm = map (\<lambda>j.
     fdiv (fp N)
       (foldl (\<lambda>cent m. if m \<noteq> nm_vg nm then fadd (fp N) cent (nm_v nm ! m ! j) else cent) (fof_int (fp N) 0) [0..<Suc nm_n])
       (fof_int (fp N) (int nm_n))) [0..<nm_n]"

definition replace_worst :: "'f list \<Rightarrow> 'f \<Rightarrow> 'f nelder_mead \<Rightarrow> 'f nelder_mead" where
  "replace_worst p x nm = nm\<lparr>nm_v := (nm_v nm)[nm_vg nm := p], nm_f := (nm_f nm)[nm_vg nm := x]\<rparr>"

definition find_indices :: "'f nm_fpu \<Rightarrow> 'f nelder_mead \<Rightarrow> 'f nelder_mead option" where
  "find_indices N nm = do {
     let vg = vg_index N (nm_f nm);
     vh \<leftarrow> vh_index N (nm_f nm) vg (nm_vh nm);
     Some (nm\<lparr>nm_vg := vg, nm_vs := vs_index N (nm_f nm), nm_vh := vh\<rparr>)}"

definition updateObjectives :: "'f nm_fpu \<Rightarrow> 'f nelder_mead \<Rightarrow> 'f nelder_mead option" where
  "updateObjectives N nm = do {
     nm \<leftarrow> find_indices N nm;
     let nm = nm\<lparr>nm_v := (nm_v nm)[nm_vg nm := my_constraints N nm (nm_v nm ! nm_vg nm)]\<rparr>;
     Some (nm\<lparr>nm_v := (nm_v nm)[nm_vh nm := my_constraints N nm (nm_v nm ! nm_vh nm)]\<rparr>)}"

text \<open>testConvergence: the deviation of the values, relative to their average, or the number of iterations.\<close>

definition deviation :: "'f nm_fpu \<Rightarrow> 'f list \<Rightarrow> 'f" where
  "deviation N f =
    (let favg = fdiv (fp N) (foldl (fadd (fp N)) (fof_int (fp N) 0) f) (fof_int (fp N) (int nm_n + 1));
         s = foldl (\<lambda>s x. fadd (fp N) s (fdiv (fp N) (fsquare N (fsub (fp N) x favg)) (fof_int (fp N) (int nm_n))))
               (fof_int (fp N) 0) f
     in fdiv (fp N) (fsqrt (fp N) s) favg)"

definition testConvergence :: "'f nm_fpu \<Rightarrow> 'f nelder_mead \<Rightarrow> bool \<times> 'f nelder_mead" where
  "testConvergence N nm =
    (if fge (fp N) (deviation N (nm_f nm)) (nm_epsilon nm) \<and> nm_itr nm \<le> max_iterations then (False, nm)
     else let vs = vs_index N (nm_f nm) in (True, nm\<lparr>nm_vs := vs, nm_min := nm_f nm ! vs\<rparr>))"

text \<open>The points of an iteration, from the centroid m: m + c * (p - m).\<close>

definition along :: "'f nm_fpu \<Rightarrow> 'f \<Rightarrow> 'f list \<Rightarrow> 'f list \<Rightarrow> 'f list" where
  "along N c m p = map (\<lambda>j. fadd (fp N) (m ! j) (fmul (fp N) c (fsub (fp N) (p ! j) (m ! j)))) [0..<nm_n]"

definition reflect :: "'f nm_fpu \<Rightarrow> 'f list \<Rightarrow> 'f list \<Rightarrow> 'f list" where
  "reflect N m w =
     map (\<lambda>j. fadd (fp N) (m ! j) (fmul (fp N) (flit (fp N) 1 1) (fsub (fp N) (m ! j) (w ! j)))) [0..<nm_n]"

definition contract_inside :: "'f nm_fpu \<Rightarrow> 'f list \<Rightarrow> 'f list \<Rightarrow> 'f list" where
  "contract_inside N m w =
     map (\<lambda>j. fsub (fp N) (m ! j) (fmul (fp N) (flit (fp N) 1 2) (fsub (fp N) (m ! j) (w ! j)))) [0..<nm_n]"

text \<open>The shrinking of a row: the constraints are applied to the row after each coordinate.\<close>

definition shrink_row :: "'f nm_fpu \<Rightarrow> 'f nelder_mead \<Rightarrow> 'f list \<Rightarrow> 'f list \<Rightarrow> 'f list" where
  "shrink_row N nm best row = foldl (\<lambda>row j. my_constraints N nm
     (row[j := fadd (fp N) (best ! j) (fdiv (fp N) (fsub (fp N) (row ! j) (best ! j)) (fof_int (fp N) 2))])) row [0..<nm_n]"

definition shrink :: "'f nm_fpu \<Rightarrow> 'f nelder_mead \<Rightarrow> 'f nelder_mead" where
  "shrink N nm = nm\<lparr>nm_v := map (\<lambda>row. if row \<noteq> nm_vs nm then shrink_row N nm (nm_v nm ! nm_vs nm) (nm_v nm ! row)
     else nm_v nm ! row) [0..<Suc nm_n]\<rparr>"

definition no_point :: "'f nm_fpu \<Rightarrow> 'f \<times> int" where
  "no_point N = (fof_int (fp N) 0, - 1)"

definition point :: "'f nm_fpu \<Rightarrow> 'f list \<Rightarrow> 'f \<times> int" where
  "point N p = (p ! 0, to_int N (p ! 1))"

definition step_start :: "'f nm_fpu \<Rightarrow> 'f nelder_mead \<Rightarrow> (('f \<times> int) \<times> 'f nelder_mead) option" where
  "step_start N nm = do {
     nm \<leftarrow> find_indices N (nm\<lparr>nm_itr := nm_itr nm + 1\<rparr>);
     let nm = nm\<lparr>nm_vm := centroid N nm\<rparr>;
     let vr = my_constraints N nm (reflect N (nm_vm nm) (nm_v nm ! nm_vg nm));
     Some (point N vr, nm\<lparr>nm_vr := vr, nm_state := Reflection\<rparr>)}"

definition step_reflection :: "'f nm_fpu \<Rightarrow> 'f \<Rightarrow> 'f nelder_mead \<Rightarrow> (('f \<times> int) \<times> 'f nelder_mead) option" where
  "step_reflection N fr nm = do {
     let nm = nm\<lparr>nm_fr := fr\<rparr>;
     fh \<leftarrow> at_opt (nm_f nm) (nm_vh nm);
     if flt (fp N) fr fh then
       if fge (fp N) fr (nm_f nm ! nm_vs nm) then do {
         nm \<leftarrow> updateObjectives N (replace_worst (nm_vr nm) fr nm);
         Some (no_point N, nm\<lparr>nm_state := Start\<rparr>)}
       else
         (let ve = my_constraints N nm (along N (flit (fp N) 2 1) (nm_vm nm) (nm_vr nm))
          in Some (point N ve, nm\<lparr>nm_ve := ve, nm_state := Expansion\<rparr>))
     else
       (let nm = (if flt (fp N) fr (nm_f nm ! nm_vg nm) then replace_worst (nm_vr nm) fr nm else nm);
            vc = (if flt (fp N) fr (nm_f nm ! nm_vg nm) \<and> fge (fp N) fr (nm_f nm ! nm_vh nm)
              then along N (flit (fp N) 1 2) (nm_vm nm) (nm_vr nm)
              else contract_inside N (nm_vm nm) (nm_v nm ! nm_vg nm));
            vc = my_constraints N nm vc
        in Some (point N vc, nm\<lparr>nm_vc := vc, nm_state := Contraction\<rparr>))}"

definition step_expansion :: "'f nm_fpu \<Rightarrow> 'f \<Rightarrow> 'f nelder_mead \<Rightarrow> (('f \<times> int) \<times> 'f nelder_mead) option" where
  "step_expansion N fe nm = do {
     nm \<leftarrow> updateObjectives N
       (if flt (fp N) fe (nm_f nm ! nm_vs nm) then replace_worst (nm_ve nm) fe nm
        else replace_worst (nm_vr nm) (nm_fr nm) nm);
     Some (no_point N, nm\<lparr>nm_state := Start\<rparr>)}"

definition step_contraction :: "'f nm_fpu \<Rightarrow> 'f \<Rightarrow> 'f nelder_mead \<Rightarrow> (('f \<times> int) \<times> 'f nelder_mead) option" where
  "step_contraction N fc nm = do {
     nm \<leftarrow> updateObjectives N
       (if flt (fp N) fc (nm_f nm ! nm_vg nm) then replace_worst (nm_vc nm) fc nm else shrink N nm);
     Some (no_point N, nm\<lparr>nm_state := Start\<rparr>)}"

definition nm_move :: "'f nm_fpu \<Rightarrow> 'f \<Rightarrow> 'f nelder_mead \<Rightarrow> (('f \<times> int) \<times> 'f nelder_mead) option" where
  "nm_move N param nm = (case nm_state nm of
       Start \<Rightarrow> step_start N nm
     | Reflection \<Rightarrow> step_reflection N param nm
     | Expansion \<Rightarrow> step_expansion N param nm
     | Contraction \<Rightarrow> step_contraction N param nm)"

definition nm_step :: "'f nm_fpu \<Rightarrow> 'f \<Rightarrow> 'f nelder_mead \<Rightarrow> ('f optstepresult \<times> 'f nelder_mead) option" where
  "nm_step N param nm = do {
     (p, nm) \<leftarrow> nm_move N param nm;
     let (c, nm) = testConvergence N nm;
     Some (\<lparr>r_converged = c, r_threads = fst p, r_freq_idx = snd p\<rparr>, nm)}"

definition getMinVertices :: "'f nelder_mead \<Rightarrow> 'f list" where
  "getMinVertices nm = nm_v nm ! nm_vs nm"

text \<open>The calls of step for a sequence of samples.\<close>

fun nm_run :: "'f nm_fpu \<Rightarrow> 'f list \<Rightarrow> 'f nelder_mead \<Rightarrow> ('f optstepresult list \<times> 'f nelder_mead) option" where
  "nm_run N [] nm = Some ([], nm)"
| "nm_run N (x # xs) nm = do {
    (r, nm) \<leftarrow> nm_step N x nm;
    (rs, nm) \<leftarrow> nm_run N xs nm;
    Some (r # rs, nm)}"

section \<open>Sizes and indices\<close>

lemma upt_coordinates [simp]: "[0..<2] = [0, 1 :: nat]" "[0..<3] = [0, 1, 2 :: nat]"
  by (simp_all add: upt_rec)

text \<open>The arrays have their sizes and the index vh, which is read before it is set, is one of the simplex.\<close>

definition nm_ok :: "'f nelder_mead \<Rightarrow> bool" where
  "nm_ok nm \<longleftrightarrow> length (nm_v nm) = 3 \<and> (\<forall>p \<in> set (nm_v nm). length p = 2) \<and> length (nm_f nm) = 3 \<and> nm_vh nm < 3 \<and>
     (nm_state nm \<noteq> Start \<longrightarrow> nm_vs nm < 3 \<and> nm_vg nm < 3) \<and>
     (nm_state nm \<in> {Reflection, Expansion} \<longrightarrow> length (nm_vr nm) = 2) \<and>
     (nm_state nm = Expansion \<longrightarrow> length (nm_ve nm) = 2) \<and> (nm_state nm = Contraction \<longrightarrow> length (nm_vc nm) = 2)"

lemma index_bounds [simp]: "vg_index N f < 3" "vs_index N f < 3"
  by (simp_all add: vg_index_def vs_index_def)

lemma vh_index_total: "length f = 3 \<Longrightarrow> vh < 3 \<Longrightarrow> \<exists>vh'. vh_index N f vg vh = Some vh' \<and> vh' < 3"
  by (auto simp: vh_index_def)

lemma length_my_constraints [simp]: "length (my_constraints N nm p) = length p"
  by (simp add: my_constraints_def Let_def)

lemma length_points [simp]:
  "length (along N c m p) = 2" "length (reflect N m p) = 2" "length (contract_inside N m p) = 2"
  "length (shrink_row N nm best row) = length row"
  by (simp_all add: along_def reflect_def contract_inside_def shrink_row_def)

lemma find_indices_total:
  assumes "length (nm_f nm) = 3" and "nm_vh nm < 3"
  shows "\<exists>vh < 3. find_indices N nm = Some (nm\<lparr>nm_vg := vg_index N (nm_f nm), nm_vs := vs_index N (nm_f nm), nm_vh := vh\<rparr>)"
  using vh_index_total [OF assms, of N "vg_index N (nm_f nm)"] by (auto simp: find_indices_def)

lemma updateObjectives_total:
  assumes "length (nm_f nm) = 3" and "nm_vh nm < 3"
  shows "\<exists>vh v. vh < 3 \<and> updateObjectives N nm =
    Some (nm\<lparr>nm_vg := vg_index N (nm_f nm), nm_vs := vs_index N (nm_f nm), nm_vh := vh, nm_v := v\<rparr>) \<and>
    v = (let v = (nm_v nm)[vg_index N (nm_f nm) := my_constraints N nm (nm_v nm ! vg_index N (nm_f nm))]
         in v[vh := my_constraints N nm (v ! vh)])"
proof -
  obtain vh where "vh < 3" "find_indices N nm =
      Some (nm\<lparr>nm_vg := vg_index N (nm_f nm), nm_vs := vs_index N (nm_f nm), nm_vh := vh\<rparr>)"
    using find_indices_total [OF assms] by blast
  then show ?thesis by (auto simp: updateObjectives_def my_constraints_def Let_def)
qed

lemma testConvergence_cases:
  "testConvergence N nm = (False, nm) \<and> nm_itr nm \<le> max_iterations \<or>
   testConvergence N nm = (True, nm\<lparr>nm_vs := vs_index N (nm_f nm), nm_min := nm_f nm ! vs_index N (nm_f nm)\<rparr>)"
  by (auto simp: testConvergence_def Let_def)

text \<open>What updateObjectives changes: the indices, and the vertices by the constraints.\<close>

definition refreshed :: "'f nm_fpu \<Rightarrow> 'f nelder_mead \<Rightarrow> 'f nelder_mead \<Rightarrow> bool" where
  "refreshed N nm nm' \<longleftrightarrow> (\<exists>vh < 3. \<exists>v. nm' = nm\<lparr>nm_vg := vg_index N (nm_f nm), nm_vs := vs_index N (nm_f nm), nm_vh := vh,
      nm_v := v, nm_state := Start\<rparr> \<and>
     length v = length (nm_v nm) \<and> (\<forall>i < length v. v ! i = nm_v nm ! i \<or> (\<exists>p. length p = length (nm_v nm ! i) \<and> v ! i = my_constraints N nm p)))"

lemma updateObjectives_refreshed:
  assumes "length (nm_f nm) = 3" and "nm_vh nm < 3"
  shows "\<exists>nm'. updateObjectives N nm = Some nm' \<and> refreshed N nm (nm'\<lparr>nm_state := Start\<rparr>)"
proof -
  obtain vh v where u: "vh < 3" "updateObjectives N nm =
      Some (nm\<lparr>nm_vg := vg_index N (nm_f nm), nm_vs := vs_index N (nm_f nm), nm_vh := vh, nm_v := v\<rparr>)"
    "v = (let v = (nm_v nm)[vg_index N (nm_f nm) := my_constraints N nm (nm_v nm ! vg_index N (nm_f nm))]
          in v[vh := my_constraints N nm (v ! vh)])"
    using updateObjectives_total [OF assms] by blast
  have "v ! i = nm_v nm ! i \<or> (\<exists>p. length p = length (nm_v nm ! i) \<and> v ! i = my_constraints N nm p)" if "i < length v" for i
  proof -
    define v1 where "v1 = (nm_v nm)[vg_index N (nm_f nm) := my_constraints N nm (nm_v nm ! vg_index N (nm_f nm))]"
    have "v1 ! i = nm_v nm ! i \<or> v1 ! i = my_constraints N nm (nm_v nm ! i)"
      by (cases "i = vg_index N (nm_f nm)"; cases "i < length (nm_v nm)") (simp_all add: v1_def not_less list_update_beyond)
    then have v1: "length (v1 ! i) = length (nm_v nm ! i)" "v1 ! i = nm_v nm ! i \<or> (\<exists>p. length p = length (nm_v nm ! i) \<and> v1 ! i = my_constraints N nm p)"
      by auto
    have v: "v = v1[vh := my_constraints N nm (v1 ! vh)]" by (simp add: u(3) v1_def Let_def)
    show ?thesis
    proof (cases "i = vh")
      case True
      then show ?thesis using v1(1) that unfolding v by auto
    next
      case False
      then show ?thesis using v1(2) unfolding v by simp
    qed
  qed
  moreover have "length v = length (nm_v nm)" by (simp add: u(3) Let_def)
  ultimately have "refreshed N nm (nm\<lparr>nm_vg := vg_index N (nm_f nm), nm_vs := vs_index N (nm_f nm), nm_vh := vh, nm_v := v, nm_state := Start\<rparr>)"
    using u(1) unfolding refreshed_def by (intro exI [of _ vh] conjI exI [of _ v] refl) simp_all
  then show ?thesis using u(2) by auto
qed

text \<open>The kinds of moves.\<close>

lemma nm_move_cases:
  assumes ok: "nm_ok nm"
  obtains (start) vh where "nm_state nm = Start" and "vh < 3"
      and "nm_move N x nm = (let nm' = nm\<lparr>nm_itr := nm_itr nm + 1, nm_vg := vg_index N (nm_f nm), nm_vs := vs_index N (nm_f nm), nm_vh := vh\<rparr>;
          vm = centroid N nm'; vr = my_constraints N nm (reflect N vm (nm_v nm ! vg_index N (nm_f nm)))
        in Some (point N vr, nm'\<lparr>nm_vm := vm, nm_vr := vr, nm_state := Reflection\<rparr>))"
  | (accept) nm' where "nm_state nm = Reflection" and "flt (fp N) x (nm_f nm ! nm_vh nm)"
      and "nm_move N x nm = Some (no_point N, nm')" and "refreshed N (replace_worst (nm_vr nm) x (nm\<lparr>nm_fr := x\<rparr>)) nm'"
  | (expand) ve where "nm_state nm = Reflection" and "flt (fp N) x (nm_f nm ! nm_vh nm)"
      and "ve = my_constraints N nm (along N (flit (fp N) 2 1) (nm_vm nm) (nm_vr nm))"
      and "nm_move N x nm = Some (point N ve, nm\<lparr>nm_fr := x, nm_ve := ve, nm_state := Expansion\<rparr>)"
  | (contract) nm1 p where "nm_state nm = Reflection" and "\<not> flt (fp N) x (nm_f nm ! nm_vh nm)"
      and "nm1 = (if flt (fp N) x (nm_f nm ! nm_vg nm) then replace_worst (nm_vr nm) x (nm\<lparr>nm_fr := x\<rparr>) else nm\<lparr>nm_fr := x\<rparr>)"
      and "length p = 2" and "nm_move N x nm = Some (point N (my_constraints N nm p), nm1\<lparr>nm_vc := my_constraints N nm p, nm_state := Contraction\<rparr>)"
  | (expanded) nm' where "nm_state nm = Expansion" and "flt (fp N) x (nm_f nm ! nm_vs nm)"
      and "nm_move N x nm = Some (no_point N, nm')" and "refreshed N (replace_worst (nm_ve nm) x nm) nm'"
  | (reflected) nm' where "nm_state nm = Expansion" and "\<not> flt (fp N) x (nm_f nm ! nm_vs nm)"
      and "nm_move N x nm = Some (no_point N, nm')" and "refreshed N (replace_worst (nm_vr nm) (nm_fr nm) nm) nm'"
  | (contracted) nm' where "nm_state nm = Contraction" and "flt (fp N) x (nm_f nm ! nm_vg nm)"
      and "nm_move N x nm = Some (no_point N, nm')" and "refreshed N (replace_worst (nm_vc nm) x nm) nm'"
  | (shrunk) nm' where "nm_state nm = Contraction" and "\<not> flt (fp N) x (nm_f nm ! nm_vg nm)"
      and "nm_move N x nm = Some (no_point N, nm')" and "refreshed N (shrink N nm) nm'"
proof -
  have l: "length (nm_f nm) = 3" "nm_vh nm < 3" using ok by (auto simp: nm_ok_def)
  have up: "\<exists>nm'. updateObjectives N (replace_worst p y nm) = Some nm' \<and> refreshed N (replace_worst p y nm) (nm'\<lparr>nm_state := Start\<rparr>)"
    for p y by (rule updateObjectives_refreshed) (use l in \<open>simp_all add: replace_worst_def\<close>)
  have up2: "\<exists>nm'. updateObjectives N (replace_worst p y (nm\<lparr>nm_fr := y\<rparr>)) = Some nm' \<and>
      refreshed N (replace_worst p y (nm\<lparr>nm_fr := y\<rparr>)) (nm'\<lparr>nm_state := Start\<rparr>)"
    for p y by (rule updateObjectives_refreshed) (use l in \<open>simp_all add: replace_worst_def\<close>)
  have up3: "\<exists>nm'. updateObjectives N (shrink N nm) = Some nm' \<and> refreshed N (shrink N nm) (nm'\<lparr>nm_state := Start\<rparr>)"
    by (rule updateObjectives_refreshed) (use l in \<open>simp_all add: shrink_def\<close>)
  have c: "my_constraints N (nm\<lparr>nm_fr := y\<rparr>) = my_constraints N nm"
    "my_constraints N (replace_worst p y nm2) = my_constraints N nm2" for y p nm2
    by (simp_all add: fun_eq_iff my_constraints_def replace_worst_def)
  show thesis
  proof (cases "nm_state nm")
    case Start
    obtain vh where "vh < 3" "find_indices N (nm\<lparr>nm_itr := nm_itr nm + 1\<rparr>) =
        Some (nm\<lparr>nm_itr := nm_itr nm + 1, nm_vg := vg_index N (nm_f nm), nm_vs := vs_index N (nm_f nm), nm_vh := vh\<rparr>)"
      using find_indices_total [of "nm\<lparr>nm_itr := nm_itr nm + 1\<rparr>" N] l by auto
    then show thesis
      by (intro start [OF Start]) (simp_all add: nm_move_def Start step_start_def Let_def my_constraints_def)
  next
    case Reflection
    show thesis
    proof (cases "flt (fp N) x (nm_f nm ! nm_vh nm)")
      case True
      show thesis
      proof (cases "fge (fp N) x (nm_f nm ! nm_vs nm)")
        case acc: True
        from up2 [of "nm_vr nm" x] obtain nm' where u: "updateObjectives N (replace_worst (nm_vr nm) x (nm\<lparr>nm_fr := x\<rparr>)) = Some nm'"
          "refreshed N (replace_worst (nm_vr nm) x (nm\<lparr>nm_fr := x\<rparr>)) (nm'\<lparr>nm_state := Start\<rparr>)" by blast
        show thesis
          by (rule accept [OF Reflection True _ u(2)]) (use True acc l u(1) in \<open>simp add: nm_move_def Reflection step_reflection_def Let_def\<close>)
      next
        case False
        then show thesis
          by (intro expand [OF Reflection True refl]) (use True l in \<open>simp add: nm_move_def Reflection step_reflection_def Let_def c\<close>)
      qed
    next
      case False
      let ?nm1 = "if flt (fp N) x (nm_f nm ! nm_vg nm) then replace_worst (nm_vr nm) x (nm\<lparr>nm_fr := x\<rparr>) else nm\<lparr>nm_fr := x\<rparr>"
      let ?p = "if flt (fp N) x (nm_f ?nm1 ! nm_vg ?nm1) \<and> fge (fp N) x (nm_f ?nm1 ! nm_vh ?nm1)
        then along N (flit (fp N) 1 2) (nm_vm ?nm1) (nm_vr ?nm1) else contract_inside N (nm_vm ?nm1) (nm_v ?nm1 ! nm_vg ?nm1)"
      show thesis
        by (rule contract [OF Reflection False refl, of ?p])
          (use False l in \<open>auto simp: nm_move_def Reflection step_reflection_def Let_def c\<close>)
    qed
  next
    case Expansion
    from up [of "nm_ve nm" x] obtain n1 where u1: "updateObjectives N (replace_worst (nm_ve nm) x nm) = Some n1"
      "refreshed N (replace_worst (nm_ve nm) x nm) (n1\<lparr>nm_state := Start\<rparr>)" by blast
    from up [of "nm_vr nm" "nm_fr nm"] obtain n2 where u2: "updateObjectives N (replace_worst (nm_vr nm) (nm_fr nm) nm) = Some n2"
      "refreshed N (replace_worst (nm_vr nm) (nm_fr nm) nm) (n2\<lparr>nm_state := Start\<rparr>)" by blast
    show thesis
    proof (cases "flt (fp N) x (nm_f nm ! nm_vs nm)")
      case True
      show thesis by (rule expanded [OF Expansion True _ u1(2)]) (use True u1(1) in \<open>simp add: nm_move_def Expansion step_expansion_def\<close>)
    next
      case False
      show thesis by (rule reflected [OF Expansion False _ u2(2)]) (use False u2(1) in \<open>simp add: nm_move_def Expansion step_expansion_def\<close>)
    qed
  next
    case Contraction
    from up [of "nm_vc nm" x] obtain n1 where u1: "updateObjectives N (replace_worst (nm_vc nm) x nm) = Some n1"
      "refreshed N (replace_worst (nm_vc nm) x nm) (n1\<lparr>nm_state := Start\<rparr>)" by blast
    from up3 obtain n2 where u2: "updateObjectives N (shrink N nm) = Some n2"
      "refreshed N (shrink N nm) (n2\<lparr>nm_state := Start\<rparr>)" by blast
    show thesis
    proof (cases "flt (fp N) x (nm_f nm ! nm_vg nm)")
      case True
      show thesis by (rule contracted [OF Contraction True _ u1(2)]) (use True u1(1) in \<open>simp add: nm_move_def Contraction step_contraction_def\<close>)
    next
      case False
      show thesis by (rule shrunk [OF Contraction False _ u2(2)]) (use False u2(1) in \<open>simp add: nm_move_def Contraction step_contraction_def\<close>)
    qed
  qed
qed

section \<open>The invariants of a search\<close>

lemma refreshed_simps:
  assumes "refreshed N nm nm'"
  shows "nm_f nm' = nm_f nm" "nm_state nm' = Start" "nm_itr nm' = nm_itr nm" "nm_vh nm' < 3"
    "constraint_min nm' = constraint_min nm" "constraint_max nm' = constraint_max nm" "length (nm_v nm') = length (nm_v nm)"
    "nm_epsilon nm' = nm_epsilon nm"
  using assms unfolding refreshed_def by auto

lemma refreshed_ok:
  assumes "refreshed N nm nm'" and "length (nm_v nm) = 3" and "\<forall>p \<in> set (nm_v nm). length p = 2" and "length (nm_f nm) = 3"
  shows "nm_ok nm'"
proof -
  from assms(1) obtain vh v where v: "vh < 3" "nm' = nm\<lparr>nm_vg := vg_index N (nm_f nm), nm_vs := vs_index N (nm_f nm), nm_vh := vh,
      nm_v := v, nm_state := Start\<rparr>" "length v = length (nm_v nm)"
    "\<forall>i < length v. v ! i = nm_v nm ! i \<or> (\<exists>p. length p = length (nm_v nm ! i) \<and> v ! i = my_constraints N nm p)"
    unfolding refreshed_def by blast
  have "length (v ! i) = 2" if "i < length v" for i using v(3,4) that assms(3) by (metis length_my_constraints nth_mem)
  then have "\<forall>p \<in> set v. length p = 2" by (auto simp: in_set_conv_nth)
  then show ?thesis using assms(2,4) v(1-3) by (simp add: nm_ok_def)
qed

lemma vertices_update:
  "\<forall>p \<in> set vs. length p = n \<Longrightarrow> length q = n \<Longrightarrow> \<forall>p \<in> set (vs[i := q]). length p = n"
  by (auto dest!: set_update_subset_insert [THEN subsetD])

lemma replaced_ok:
  assumes "refreshed N (replace_worst p y nm) nm'" and "nm_ok nm" and "length p = 2"
  shows "nm_ok nm'"
  by (rule refreshed_ok [OF assms(1)])
    (use assms(2,3) vertices_update [of "nm_v nm" 2 p "nm_vg nm"] in \<open>simp_all add: nm_ok_def replace_worst_def\<close>)

lemma nm_move_total:
  assumes ok: "nm_ok nm"
  shows "\<exists>p nm'. nm_move N x nm = Some (p, nm') \<and> nm_ok nm'"
  using ok
proof (cases rule: nm_move_cases [of nm N x])
  case (start vh)
  then show ?thesis using ok by (simp add: Let_def nm_ok_def)
next
  case (accept nm')
  have "nm_ok nm'" by (rule replaced_ok [OF accept(4)]) (use ok accept(1) in \<open>auto simp: nm_ok_def\<close>)
  then show ?thesis using accept(3) by blast
next
  case (expand ve)
  then show ?thesis using ok by (auto simp: nm_ok_def)
next
  case (contract nm1 p)
  have "\<forall>p \<in> set ((nm_v nm)[nm_vg nm := nm_vr nm]). length p = 2"
    by (rule vertices_update) (use ok contract(1) in \<open>auto simp: nm_ok_def\<close>)
  then have "nm_ok (nm1\<lparr>nm_vc := my_constraints N nm p, nm_state := Contraction\<rparr>)"
    using ok contract(1,3,4) by (simp add: nm_ok_def replace_worst_def)
  then show ?thesis using contract(5) by blast
next
  case (expanded nm')
  have "nm_ok nm'" by (rule replaced_ok [OF expanded(4)]) (use ok expanded(1) in \<open>auto simp: nm_ok_def\<close>)
  then show ?thesis using expanded(3) by blast
next
  case (reflected nm')
  have "nm_ok nm'" by (rule replaced_ok [OF reflected(4)]) (use ok reflected(1) in \<open>auto simp: nm_ok_def\<close>)
  then show ?thesis using reflected(3) by blast
next
  case (contracted nm')
  have "nm_ok nm'" by (rule replaced_ok [OF contracted(4)]) (use ok contracted(1) in \<open>auto simp: nm_ok_def\<close>)
  then show ?thesis using contracted(3) by blast
next
  case (shrunk nm')
  have "nm_ok nm'" by (rule refreshed_ok [OF shrunk(4)]) (use ok in \<open>auto simp: nm_ok_def shrink_def\<close>)
  then show ?thesis using shrunk(3) by blast
qed

lemma testConvergence_ok: "nm_ok nm \<Longrightarrow> nm_ok (snd (testConvergence N nm))"
  by (simp add: testConvergence_def Let_def nm_ok_def)

lemma nm_step_move:
  assumes "nm_ok nm"
  obtains p nm1 c nm' where "nm_move N x nm = Some (p, nm1)" and "nm_ok nm1" and "testConvergence N nm1 = (c, nm')" and "nm_ok nm'"
    and "nm_step N x nm = Some (\<lparr>r_converged = c, r_threads = fst p, r_freq_idx = snd p\<rparr>, nm')"
proof -
  obtain p nm1 where m: "nm_move N x nm = Some (p, nm1)" "nm_ok nm1" using nm_move_total [OF assms] by blast
  obtain c nm' where t: "testConvergence N nm1 = (c, nm')" by (cases "testConvergence N nm1")
  show thesis
    by (rule that [OF m t]) (use testConvergence_ok [OF m(2), of N] m(1) t in \<open>simp_all add: nm_step_def\<close>)
qed

text \<open>Every iteration takes at most three calls.\<close>

definition calls_left :: "'f nelder_mead \<Rightarrow> nat" where
  "calls_left nm = 3 * (16 - nm_itr nm) + (case nm_state nm of Start \<Rightarrow> 0 | Reflection \<Rightarrow> 2 | _ \<Rightarrow> 1)"

lemma nm_move_calls:
  assumes "nm_ok nm" and "nm_move N x nm = Some (p, nm')" and "nm_itr nm' \<le> max_iterations"
  shows "calls_left nm' < calls_left nm"
  using assms(1)
proof (cases rule: nm_move_cases [of nm N x])
  case (contract nm1 p)
  then show ?thesis using assms(2,3) by (auto simp: calls_left_def replace_worst_def split: if_splits)
next
  case (start vh)
  then show ?thesis using assms(2,3) by (auto simp: calls_left_def Let_def max_iterations_def)
next
  case (expand ve)
  then show ?thesis using assms(2,3) by (auto simp: calls_left_def)
next
  case (accept nm')
  then show ?thesis using assms(2) refreshed_simps(2,3) [OF accept(4)] by (simp add: calls_left_def replace_worst_def)
next
  case (expanded nm')
  then show ?thesis using assms(2) refreshed_simps(2,3) [OF expanded(4)] by (simp add: calls_left_def replace_worst_def)
next
  case (reflected nm')
  then show ?thesis using assms(2) refreshed_simps(2,3) [OF reflected(4)] by (simp add: calls_left_def replace_worst_def)
next
  case (contracted nm')
  then show ?thesis using assms(2) refreshed_simps(2,3) [OF contracted(4)] by (simp add: calls_left_def replace_worst_def)
next
  case (shrunk nm')
  then show ?thesis using assms(2) refreshed_simps(2,3) [OF shrunk(4)] by (simp add: calls_left_def shrink_def)
qed

lemma nm_step_calls:
  assumes "nm_ok nm" and "nm_step N x nm = Some (r, nm')" and "\<not> r_converged r"
  shows "calls_left nm' < calls_left nm" and "3 \<le> calls_left nm'"
proof -
  obtain p nm1 c nm2 where s: "nm_move N x nm = Some (p, nm1)" "testConvergence N nm1 = (c, nm2)"
    "nm_step N x nm = Some (\<lparr>r_converged = c, r_threads = fst p, r_freq_idx = snd p\<rparr>, nm2)"
    using nm_step_move [OF assms(1)] by metis
  then have "nm2 = nm'" "\<not> c" using assms(2,3) by auto
  then have "nm' = nm1" "nm_itr nm1 \<le> max_iterations" using testConvergence_cases [of N nm1] s(2) by auto
  then show "calls_left nm' < calls_left nm" "3 \<le> calls_left nm'"
    using nm_move_calls [OF assms(1) s(1)] by (auto simp: calls_left_def max_iterations_def)
qed

lemma nm_step_total: "nm_ok nm \<Longrightarrow> \<exists>r nm'. nm_step N x nm = Some (r, nm') \<and> nm_ok nm'"
  using nm_step_move by metis

lemma nm_run_total: "nm_ok nm \<Longrightarrow> \<exists>rs nm'. nm_run N xs nm = Some (rs, nm') \<and> nm_ok nm' \<and> length rs = length xs"
proof (induction xs arbitrary: nm)
  case (Cons x xs)
  obtain r nm1 where "nm_step N x nm = Some (r, nm1)" "nm_ok nm1" using nm_step_total [OF Cons.prems] by blast
  then show ?case using Cons.IH [of nm1] by auto
qed simp

lemma nm_run_calls:
  assumes "nm_ok nm" and "nm_run N xs nm = Some (rs, nm')" and "\<forall>r \<in> set rs. \<not> r_converged r" and "xs \<noteq> []"
  shows "length xs + 3 \<le> calls_left nm"
  using assms
proof (induction xs arbitrary: nm rs)
  case (Cons x xs)
  obtain r nm1 where r: "nm_step N x nm = Some (r, nm1)" "nm_ok nm1" using nm_step_total [OF Cons.prems(1)] by blast
  then obtain rs1 where rs: "rs = r # rs1" "nm_run N xs nm1 = Some (rs1, nm')" using Cons.prems(2) by (auto split: bind_splits)
  have c: "calls_left nm1 < calls_left nm" "3 \<le> calls_left nm1" using nm_step_calls [OF Cons.prems(1) r(1)] Cons.prems(3) rs(1) by auto
  show ?case
  proof (cases "xs = []")
    case False
    then show ?thesis using Cons.IH [OF r(2) rs(2)] Cons.prems(3) rs(1) c by auto
  qed (use c in simp)
qed simp

section \<open>The points stay within the constraints\<close>

text \<open>What a coordinate needs of the arithmetic: comparisons decide (there is no NaN), the middle of the interval is in
  it, and rounding does not leave it (its ends are integers).\<close>

definition fle :: "'f farith \<Rightarrow> 'f \<Rightarrow> 'f \<Rightarrow> bool" where
  "fle F x y \<longleftrightarrow> flt F x y \<or> feq F x y"

definition coord_ok :: "'f nm_fpu \<Rightarrow> 'f \<Rightarrow> 'f \<Rightarrow> bool" where
  "coord_ok N lo hi \<longleftrightarrow>
     (\<forall>x. \<not> flt (fp N) x lo \<and> \<not> flt (fp N) hi x \<longrightarrow> fle (fp N) lo x \<and> fle (fp N) x hi) \<and>
     (let mid = fdiv (fp N) (fadd (fp N) lo hi) (fof_int (fp N) 2) in fle (fp N) lo mid \<and> fle (fp N) mid hi) \<and>
     (\<forall>x. fle (fp N) lo x \<and> fle (fp N) x hi \<longrightarrow> fle (fp N) lo (fround N x) \<and> fle (fp N) (fround N x) hi)"

definition in_coord :: "'f nm_fpu \<Rightarrow> 'f nelder_mead \<Rightarrow> nat \<Rightarrow> 'f \<Rightarrow> bool" where
  "in_coord N nm k x \<longleftrightarrow> fle (fp N) (constraint_min nm ! k) x \<and> fle (fp N) x (constraint_max nm ! k)"

lemma my_constraints_nth:
  "k < 2 \<Longrightarrow> length p = 2 \<Longrightarrow>
   my_constraints N nm p ! k = fround N (back_in N (constraint_min nm ! k) (constraint_max nm ! k) (p ! k))"
  by (auto simp: my_constraints_def Let_def less_2_cases_iff)

lemma my_constraints_in:
  assumes "coord_ok N (constraint_min nm ! k) (constraint_max nm ! k)" and "k < 2" and "length p = 2"
  shows "in_coord N nm k (my_constraints N nm p ! k)"
  using assms unfolding my_constraints_nth [OF assms(2,3)] in_coord_def coord_ok_def back_in_def Let_def by (auto split: if_split)

definition box_inv :: "'f nm_fpu \<Rightarrow> nat \<Rightarrow> 'f nelder_mead \<Rightarrow> bool" where
  "box_inv N k nm \<longleftrightarrow> (\<forall>row < 3. in_coord N nm k (nm_v nm ! row ! k)) \<and>
     (nm_state nm \<in> {Reflection, Expansion} \<longrightarrow> in_coord N nm k (nm_vr nm ! k)) \<and>
     (nm_state nm = Expansion \<longrightarrow> in_coord N nm k (nm_ve nm ! k)) \<and>
     (nm_state nm = Contraction \<longrightarrow> in_coord N nm k (nm_vc nm ! k))"

definition same_box :: "'f nelder_mead \<Rightarrow> 'f nelder_mead \<Rightarrow> bool" where
  "same_box nm nm' \<longleftrightarrow> constraint_min nm' = constraint_min nm \<and> constraint_max nm' = constraint_max nm"

lemma in_coord_same: "same_box nm nm' \<Longrightarrow> in_coord N nm' k x = in_coord N nm k x"
  by (simp add: same_box_def in_coord_def)

lemma refreshed_box:
  assumes re: "refreshed N nm nm'" and c: "coord_ok N (constraint_min nm ! k) (constraint_max nm ! k)" and k: "k < 2"
    and l: "length (nm_v nm) = 3" "\<forall>p \<in> set (nm_v nm). length p = 2" and v: "\<forall>row < 3. in_coord N nm k (nm_v nm ! row ! k)"
  shows "box_inv N k nm' \<and> same_box nm nm'"
proof -
  have sb: "same_box nm nm'" using refreshed_simps(5,6) [OF re] by (simp add: same_box_def)
  have "in_coord N nm k (nm_v nm' ! i ! k)" if i: "i < 3" for i
  proof -
    have "length (nm_v nm ! i) = 2" using l i by simp
    then obtain p where "nm_v nm' ! i = nm_v nm ! i \<or> length p = 2 \<and> nm_v nm' ! i = my_constraints N nm p"
      using re i l(1) unfolding refreshed_def by fastforce
    then show ?thesis using v i my_constraints_in [OF c k] by auto
  qed
  then show ?thesis using sb refreshed_simps(2) [OF re] unfolding box_inv_def by (simp add: in_coord_same)
qed

lemma replaced_box:
  assumes re: "refreshed N (replace_worst p y nm) nm'" and ok: "nm_ok nm" and b: "box_inv N k nm" and p: "in_coord N nm k (p ! k)" "length p = 2"
    and c: "coord_ok N (constraint_min nm ! k) (constraint_max nm ! k)" and k: "k < 2"
  shows "box_inv N k nm' \<and> same_box nm nm'"
proof -
  let ?r = "replace_worst p y nm"
  have sb: "same_box nm ?r" by (simp add: same_box_def replace_worst_def)
  have "in_coord N ?r k (nm_v ?r ! row ! k)" if row: "row < 3" for row
  proof -
    have "nm_v ?r ! row = (if row = nm_vg nm then p else nm_v nm ! row)"
      using ok row by (simp add: replace_worst_def nm_ok_def nth_list_update)
    then show ?thesis using b p(1) row unfolding in_coord_same [OF sb] box_inv_def by simp
  qed
  then have "\<forall>row < 3. in_coord N ?r k (nm_v ?r ! row ! k)" by blast
  moreover have "length (nm_v ?r) = 3" "\<forall>p \<in> set (nm_v ?r). length p = 2"
    using ok p(2) vertices_update [of "nm_v nm" 2 p "nm_vg nm"] by (simp_all add: replace_worst_def nm_ok_def)
  ultimately have "box_inv N k nm' \<and> same_box ?r nm'"
    using refreshed_box [OF re _ k] c by (simp add: replace_worst_def)
  then show ?thesis using sb by (simp add: same_box_def)
qed

lemma shrink_row_in:
  assumes "coord_ok N (constraint_min nm ! k) (constraint_max nm ! k)" and "k < 2" and "length row = 2"
  shows "in_coord N nm k (shrink_row N nm best row ! k)"
  unfolding shrink_row_def using assms by (simp add: my_constraints_in)

definition point_in :: "'f nm_fpu \<Rightarrow> 'f nelder_mead \<Rightarrow> nat \<Rightarrow> 'f \<times> int \<Rightarrow> bool" where
  "point_in N nm k q \<longleftrightarrow> q = no_point N \<or> (\<exists>p. length p = 2 \<and> q = point N p \<and> in_coord N nm k (p ! k))"

lemma nm_move_box:
  assumes ok: "nm_ok nm" and b: "box_inv N k nm" and c: "coord_ok N (constraint_min nm ! k) (constraint_max nm ! k)" and k: "k < 2"
    and m: "nm_move N x nm = Some (q, nm')"
  shows "box_inv N k nm' \<and> same_box nm nm' \<and> point_in N nm k q"
  using ok
proof (cases rule: nm_move_cases [of nm N x])
  case (start vh)
  then show ?thesis using m b my_constraints_in [OF c k]
    by (auto simp: Let_def box_inv_def same_box_def in_coord_def point_in_def intro!: exI)
next
  case (accept nm')
  let ?nm = "nm\<lparr>nm_fr := x\<rparr>"
  have "nm_ok ?nm" "box_inv N k ?nm" "in_coord N ?nm k (nm_vr nm ! k)" "length (nm_vr nm) = 2"
    using ok b accept(1) by (simp_all add: nm_ok_def box_inv_def in_coord_def)
  from replaced_box [OF accept(4) this] c k m accept(3) show ?thesis by (simp add: same_box_def point_in_def)
next
  case (expand ve)
  then show ?thesis using m b my_constraints_in [OF c k]
    by (auto simp: box_inv_def same_box_def in_coord_def point_in_def intro!: exI)
next
  case (contract nm1 p)
  have sb: "same_box nm (nm1\<lparr>nm_vc := my_constraints N nm p, nm_state := Contraction\<rparr>)"
    by (simp add: contract(3) same_box_def replace_worst_def)
  have "\<forall>row < 3. in_coord N nm k (nm_v nm1 ! row ! k)"
    using b ok contract(1) unfolding contract(3) by (auto simp: replace_worst_def box_inv_def nm_ok_def nth_list_update)
  then have "box_inv N k (nm1\<lparr>nm_vc := my_constraints N nm p, nm_state := Contraction\<rparr>)"
    using my_constraints_in [OF c k contract(4)] unfolding box_inv_def in_coord_same [OF sb] by simp
  then show ?thesis using m contract(4,5) sb my_constraints_in [OF c k contract(4)]
    by (auto simp: point_in_def intro!: exI [of _ "my_constraints N nm p"])
next
  case (expanded nm')
  have "in_coord N nm k (nm_ve nm ! k)" "length (nm_ve nm) = 2" using ok b expanded(1) by (simp_all add: nm_ok_def box_inv_def)
  from replaced_box [OF expanded(4) ok b this c k] m expanded(3) show ?thesis by (simp add: point_in_def)
next
  case (reflected nm')
  have "in_coord N nm k (nm_vr nm ! k)" "length (nm_vr nm) = 2" using ok b reflected(1) by (simp_all add: nm_ok_def box_inv_def)
  from replaced_box [OF reflected(4) ok b this c k] m reflected(3) show ?thesis by (simp add: point_in_def)
next
  case (contracted nm')
  have "in_coord N nm k (nm_vc nm ! k)" "length (nm_vc nm) = 2" using ok b contracted(1) by (simp_all add: nm_ok_def box_inv_def)
  from replaced_box [OF contracted(4) ok b this c k] m contracted(3) show ?thesis by (simp add: point_in_def)
next
  case (shrunk nm')
  let ?s = "shrink N nm"
  have sb: "same_box nm ?s" by (simp add: same_box_def shrink_def)
  have "\<forall>row < 3. in_coord N ?s k (nm_v ?s ! row ! k)"
  proof (intro allI impI)
    fix row :: nat
    assume row: "row < 3"
    then have "length (nm_v nm ! row) = 2" using ok by (auto simp: nm_ok_def)
    then have "in_coord N nm k (nm_v ?s ! row ! k)"
      using shrink_row_in [OF c k] b row by (auto simp: shrink_def box_inv_def numeral_3_eq_3 less_Suc_eq)
    then show "in_coord N ?s k (nm_v ?s ! row ! k)" unfolding in_coord_same [OF sb] .
  qed
  moreover have "length (nm_v ?s) = 3" "\<forall>p \<in> set (nm_v ?s). length p = 2" using ok by (auto simp: shrink_def nm_ok_def)
  ultimately have "box_inv N k nm' \<and> same_box ?s nm'"
    using refreshed_box [OF shrunk(4) _ k] c sb by (simp add: same_box_def)
  then show ?thesis using m shrunk(3) sb by (simp add: point_in_def same_box_def)
qed

lemma testConvergence_same:
  assumes "testConvergence N nm = (c, nm')"
  shows "box_inv N k nm' = box_inv N k nm" and "same_box nm nm'" and "nm_f nm' = nm_f nm" and "nm_state nm' = nm_state nm"
    and "nm_vg nm' = nm_vg nm" and "nm_fr nm' = nm_fr nm" and "nm_v nm' = nm_v nm"
  using testConvergence_cases [of N nm] assms by (elim disjE; auto simp: box_inv_def same_box_def in_coord_def)+

lemma nm_run_box:
  assumes "nm_ok nm" and "box_inv N k nm" and "coord_ok N (constraint_min nm ! k) (constraint_max nm ! k)" and "k < 2"
    and "nm_run N xs nm = Some (rs, nm')"
  shows "box_inv N k nm' \<and> same_box nm nm' \<and> (\<forall>r \<in> set rs. point_in N nm k (r_threads r, r_freq_idx r))"
  using assms
proof (induction xs arbitrary: nm rs)
  case Nil
  then show ?case by (simp add: same_box_def)
next
  case (Cons x xs)
  obtain p nm1 c nm2 where s: "nm_move N x nm = Some (p, nm1)" "testConvergence N nm1 = (c, nm2)" "nm_ok nm2"
    "nm_step N x nm = Some (\<lparr>r_converged = c, r_threads = fst p, r_freq_idx = snd p\<rparr>, nm2)"
    using nm_step_move [OF Cons.prems(1)] by metis
  obtain rs2 where rs: "rs = \<lparr>r_converged = c, r_threads = fst p, r_freq_idx = snd p\<rparr> # rs2" "nm_run N xs nm2 = Some (rs2, nm')"
    using Cons.prems(5) s(4) by (auto split: bind_splits)
  have m: "box_inv N k nm1 \<and> same_box nm nm1 \<and> point_in N nm k p" by (rule nm_move_box [OF Cons.prems(1-4) s(1)])
  then have b: "box_inv N k nm2" "same_box nm nm2" using testConvergence_same(1,2) [OF s(2)] by (auto simp: same_box_def)
  have "box_inv N k nm' \<and> same_box nm2 nm' \<and> (\<forall>r \<in> set rs2. point_in N nm2 k (r_threads r, r_freq_idx r))"
    by (rule Cons.IH [OF s(3) b(1) _ Cons.prems(4) rs(2)]) (use b(2) Cons.prems(3) in \<open>simp add: same_box_def\<close>)
  then show ?case using m b(2) rs(1) by (auto simp: same_box_def point_in_def in_coord_def)
qed

lemma nm_run_last:
  assumes "nm_ok nm" and "nm_run N xs nm = Some (rs, nm')" and "rs \<noteq> []"
  shows "r_converged (last rs) \<Longrightarrow> nm_vs nm' = vs_index N (nm_f nm') \<and> nm_min nm' = nm_f nm' ! nm_vs nm'"
  using assms
proof (induction xs arbitrary: nm rs)
  case (Cons x xs)
  obtain p nm1 c nm2 where s: "testConvergence N nm1 = (c, nm2)" "nm_ok nm2"
    "nm_step N x nm = Some (\<lparr>r_converged = c, r_threads = fst p, r_freq_idx = snd p\<rparr>, nm2)"
    using nm_step_move [OF Cons.prems(2)] by metis
  obtain rs2 where rs: "rs = \<lparr>r_converged = c, r_threads = fst p, r_freq_idx = snd p\<rparr> # rs2" "nm_run N xs nm2 = Some (rs2, nm')"
    using Cons.prems(3) s(3) by (auto split: bind_splits)
  show ?case
  proof (cases "rs2 = []")
    case True
    then have "nm' = nm2" "c" using nm_run_total [OF s(2), of N xs] rs Cons.prems(1) by auto
    then show ?thesis using testConvergence_cases [of N nm1] s(1) by (elim disjE) auto
  next
    case False
    then show ?thesis using Cons.IH [OF _ s(2) rs(2)] Cons.prems(1) rs(1) by simp
  qed
qed simp

section \<open>The values never grow\<close>

lemma vg_index_greatest:
  assumes "weak_order (flt (fp N))" and "j < 3"
  shows "\<not> flt (fp N) (f ! vg_index N f) (f ! j)"
proof -
  have t: "\<And>x y z. flt (fp N) x y \<Longrightarrow> flt (fp N) y z \<Longrightarrow> flt (fp N) x z" "\<And>x. \<not> flt (fp N) x x"
    using assms(1) unfolding weak_order_def transp_def by blast+
  have n: "\<And>x y z. flt (fp N) x z \<Longrightarrow> flt (fp N) x y \<or> flt (fp N) y z" using assms(1) unfolding weak_order_def by blast
  have "j = 0 \<or> j = 1 \<or> j = 2" using assms(2) by auto
  then show ?thesis unfolding vg_index_def by (auto split: if_split simp: t(2)) (use t n in blast)+
qed

lemma vs_index_least:
  assumes "weak_order (flt (fp N))" and "j < 3"
  shows "\<not> flt (fp N) (f ! j) (f ! vs_index N f)"
proof -
  have t: "\<And>x y z. flt (fp N) x y \<Longrightarrow> flt (fp N) y z \<Longrightarrow> flt (fp N) x z" "\<And>x. \<not> flt (fp N) x x"
    using assms(1) unfolding weak_order_def transp_def by blast+
  have n: "\<And>x y z. flt (fp N) x z \<Longrightarrow> flt (fp N) x y \<or> flt (fp N) y z" using assms(1) unfolding weak_order_def by blast
  have "j = 0 \<or> j = 1 \<or> j = 2" using assms(2) by auto
  then show ?thesis unfolding vs_index_def by (auto split: if_split simp: t(2)) (use t n in blast)+
qed

definition val_inv :: "'f nm_fpu \<Rightarrow> 'f set \<Rightarrow> 'f nelder_mead \<Rightarrow> bool" where
  "val_inv N S nm \<longleftrightarrow> set (nm_f nm) \<subseteq> S \<and>
     (nm_state nm \<in> {Reflection, Expansion} \<longrightarrow> (\<forall>j < 3. \<not> flt (fp N) (nm_f nm ! nm_vg nm) (nm_f nm ! j))) \<and>
     (nm_state nm = Expansion \<longrightarrow> flt (fp N) (nm_fr nm) (nm_f nm ! nm_vg nm) \<and> nm_fr nm \<in> S)"

definition not_grown :: "'f nm_fpu \<Rightarrow> 'f list \<Rightarrow> 'f list \<Rightarrow> bool" where
  "not_grown N f f' \<longleftrightarrow> (\<forall>i < 3. \<not> flt (fp N) (f ! i) (f' ! i))"

lemma not_grown_refl: "weak_order (flt (fp N)) \<Longrightarrow> not_grown N f f"
  by (simp add: not_grown_def weak_order_def)

lemma not_grown_trans:
  "weak_order (flt (fp N)) \<Longrightarrow> not_grown N f g \<Longrightarrow> not_grown N g h \<Longrightarrow> not_grown N f h"
  unfolding not_grown_def weak_order_def by blast

lemma not_grown_update:
  "weak_order (flt (fp N)) \<Longrightarrow> flt (fp N) x (f ! i) \<Longrightarrow> not_grown N f (f[i := x])"
  unfolding not_grown_def weak_order_def transp_def
  by (metis nth_list_update_eq nth_list_update_neq list_update_beyond not_le_imp_less)

lemma replaced_values:
  assumes re: "refreshed N (replace_worst p x nm) nm'" and w: "weak_order (flt (fp N))"
    and x: "flt (fp N) x (nm_f nm ! nm_vg nm)" "x \<in> S" and v: "val_inv N S nm"
  shows "val_inv N S nm' \<and> not_grown N (nm_f nm) (nm_f nm')"
proof -
  have f: "nm_f nm' = (nm_f nm)[nm_vg nm := x]" using refreshed_simps(1) [OF re] by (simp add: replace_worst_def)
  have "set (nm_f nm') \<subseteq> S" using v x(2) set_update_subset_insert [of "nm_f nm" "nm_vg nm" x] unfolding f val_inv_def by auto
  then have "val_inv N S nm'" using refreshed_simps(2) [OF re] by (simp add: val_inv_def)
  then show ?thesis using not_grown_update [OF w x(1)] f by simp
qed

lemma nm_move_values:
  assumes ok: "nm_ok nm" and w: "weak_order (flt (fp N))" and v: "val_inv N S nm" and m: "nm_move N x nm = Some (q, nm')"
  shows "val_inv N (insert x S) nm' \<and> not_grown N (nm_f nm) (nm_f nm')"
proof -
  have v': "val_inv N (insert x S) nm" using v unfolding val_inv_def by blast
  have n: "\<And>x y z. flt (fp N) x z \<Longrightarrow> flt (fp N) x y \<or> flt (fp N) y z" using w unfolding weak_order_def by blast
  have below: "flt (fp N) x (nm_f nm ! nm_vg nm)"
    if "flt (fp N) x (nm_f nm ! j)" "j < 3" "nm_state nm \<in> {Reflection, Expansion}" for j
    using n [OF that(1), of "nm_f nm ! nm_vg nm"] v that(2,3) unfolding val_inv_def by blast
  note refl = not_grown_refl [OF w]
  show ?thesis
    using ok
  proof (cases rule: nm_move_cases [of nm N x])
    case (start vh)
    then show ?thesis using m v' refl vg_index_greatest [OF w] by (auto simp: Let_def val_inv_def)
  next
    case (accept nm')
    have "flt (fp N) x (nm_f nm ! nm_vg nm)" using below [OF accept(2)] ok accept(1) by (simp add: nm_ok_def)
    then have "val_inv N (insert x S) nm' \<and> not_grown N (nm_f (nm\<lparr>nm_fr := x\<rparr>)) (nm_f nm')"
      by (intro replaced_values [OF accept(4) w]) (use v' accept(1) in \<open>auto simp: val_inv_def\<close>)
    then show ?thesis using m accept(3) by simp
  next
    case (expand ve)
    have "flt (fp N) x (nm_f nm ! nm_vg nm)" using below [OF expand(2)] ok expand(1) by (simp add: nm_ok_def)
    then show ?thesis using m expand(1,4) v' refl by (auto simp: val_inv_def)
  next
    case (contract nm1 p)
    have f: "nm_f nm1 = (if flt (fp N) x (nm_f nm ! nm_vg nm) then (nm_f nm)[nm_vg nm := x] else nm_f nm)"
      by (simp add: contract(3) replace_worst_def)
    have "set (nm_f nm1) \<subseteq> insert x S"
      using v set_update_subset_insert [of "nm_f nm" "nm_vg nm" x] unfolding f val_inv_def by auto
    moreover have "not_grown N (nm_f nm) (nm_f nm1)" unfolding f using not_grown_update [OF w] refl by simp
    ultimately show ?thesis using m contract(5) by (auto simp: val_inv_def)
  next
    case (expanded nm')
    have "flt (fp N) x (nm_f nm ! nm_vg nm)" using below [OF expanded(2)] ok expanded(1) by (simp add: nm_ok_def)
    from replaced_values [OF expanded(4) w this _ v'] m expanded(3) show ?thesis by simp
  next
    case (reflected nm')
    have "flt (fp N) (nm_fr nm) (nm_f nm ! nm_vg nm)" "nm_fr nm \<in> insert x S" using v reflected(1) by (auto simp: val_inv_def)
    from replaced_values [OF reflected(4) w this v'] m reflected(3) show ?thesis by simp
  next
    case (contracted nm')
    from replaced_values [OF contracted(4) w contracted(2) _ v'] m contracted(3) show ?thesis by simp
  next
    case (shrunk nm')
    have "nm_f nm' = nm_f nm" using refreshed_simps(1) [OF shrunk(4)] by (simp add: shrink_def)
    then show ?thesis using m shrunk(3) v' refl refreshed_simps(2) [OF shrunk(4)] by (auto simp: val_inv_def)
  qed
qed

lemma nm_run_values:
  assumes "nm_ok nm" and "weak_order (flt (fp N))" and "val_inv N S nm" and "nm_run N xs nm = Some (rs, nm')"
  shows "val_inv N (S \<union> set xs) nm' \<and> not_grown N (nm_f nm) (nm_f nm')"
  using assms
proof (induction xs arbitrary: nm rs S)
  case Nil
  then show ?case by (simp add: not_grown_refl)
next
  case (Cons x xs)
  obtain p nm1 c nm2 where s: "nm_move N x nm = Some (p, nm1)" "testConvergence N nm1 = (c, nm2)" "nm_ok nm2"
    "nm_step N x nm = Some (\<lparr>r_converged = c, r_threads = fst p, r_freq_idx = snd p\<rparr>, nm2)"
    using nm_step_move [OF Cons.prems(1)] by metis
  obtain rs2 where rs: "nm_run N xs nm2 = Some (rs2, nm')" using Cons.prems(4) s(4) by (auto split: bind_splits)
  have "val_inv N (insert x S) nm1 \<and> not_grown N (nm_f nm) (nm_f nm1)" by (rule nm_move_values [OF Cons.prems(1-3) s(1)])
  then have v: "val_inv N (insert x S) nm2" "not_grown N (nm_f nm) (nm_f nm2)"
    using testConvergence_same(3-6) [OF s(2)] by (simp_all add: val_inv_def)
  have "val_inv N (insert x S \<union> set xs) nm' \<and> not_grown N (nm_f nm2) (nm_f nm')" by (rule Cons.IH [OF s(3) Cons.prems(2) v(1) rs])
  then show ?case using not_grown_trans [OF Cons.prems(2) v(2)] by simp
qed

section \<open>Exact arithmetic\<close>

definition rat_nm :: "rat nm_fpu" where
  "rat_nm = \<lparr>fp = rat_arith, fround = (\<lambda>x. of_int (round x)), fsquare = (\<lambda>x. x * x), to_int = (\<lambda>x. \<lfloor>x\<rfloor>)\<rparr>"

lemma rat_nm_order: "weak_order (flt (fp rat_nm))"
  by (simp add: rat_nm_def weak_order_less)

lemma rat_coord_ok:
  assumes "m \<le> n"
  shows "coord_ok rat_nm (of_int m) (of_int n)"
proof -
  have r: "of_int m \<le> (of_int (round x) :: rat) \<and> of_int (round x) \<le> (of_int n :: rat)"
    if "of_int m \<le> x" "x \<le> of_int n" for x :: rat
    using round_mono [OF that(1)] round_mono [OF that(2)] by (simp add: of_int_le_iff)
  have "(of_int m :: rat) \<le> of_int n" using assms by simp
  then show ?thesis using r unfolding coord_ok_def rat_nm_def fle_def by (auto simp: Let_def le_less field_simps)
qed

definition demo_simplex :: "rat nelder_mead" where
  "demo_simplex = \<lparr>nm_vs = 0, nm_vh = 0, nm_vg = 0, nm_itr = 0, nm_v = [[1, 0], [4, 1], [2, 3]], nm_f = [9, 4, 6], nm_fr = 0,
     nm_vr = [0, 0], nm_ve = [0, 0], nm_vc = [0, 0], nm_vm = [0, 0], nm_min = 0, nm_epsilon = 1/100, nm_state = Start,
     constraint_min = [of_int 1, of_int 0], constraint_max = [of_int 8, of_int 4]\<rparr>"

lemma demo_simplex_ok: "nm_ok demo_simplex"
  by (simp add: demo_simplex_def nm_ok_def)

section \<open>Properties\<close>

text \<open>C30: The search always ends: whatever values are sampled, one of the first 48 calls of step after
  initialize\_simplex reports convergence.  (The number of iterations is limited to 15, an iteration takes at most
  three calls, and a search that starts in the middle of an old iteration takes two more.)\<close>

theorem nelder_mead_converges:
  assumes "nm_ok nm" and "nm_itr nm = 0" and "length xs = 48"
  shows "\<exists>rs nm'. nm_run N xs nm = Some (rs, nm') \<and> length rs = 48 \<and> (\<exists>r \<in> set rs. r_converged r)"
proof -
  obtain rs nm' where r: "nm_run N xs nm = Some (rs, nm')" "length rs = length xs" using nm_run_total [OF assms(1)] by blast
  have "calls_left nm \<le> 50" using assms(2) by (simp add: calls_left_def split: iterationstates.split)
  moreover have "xs \<noteq> []" using assms(3) by auto
  ultimately have "\<exists>r \<in> set rs. r_converged r" using nm_run_calls [OF assms(1) r(1)] assms(3) by fastforce
  then show ?thesis using r assms(3) by simp
qed

theorem nelder_mead_converges_witness:
  "\<exists>rs nm'. nm_run rat_nm (replicate 48 5) demo_simplex = Some (rs, nm') \<and> length rs = 48 \<and> (\<exists>r \<in> set rs. r_converged r)"
  by (rule nelder_mead_converges [OF demo_simplex_ok]) (simp_all add: demo_simplex_def)

text \<open>C33: Every point that the search asks to be tried, and every point it reports as the minimum, lies within the
  constraints in each coordinate in which the first simplex does, as long as no comparison meets a NaN.\<close>

theorem nelder_mead_points_in_bounds:
  assumes "nm_ok nm" and "nm_state nm = Start" and "coord_ok N (constraint_min nm ! k) (constraint_max nm ! k)" and "k < 2"
    and "\<forall>row < 3. in_coord N nm k (nm_v nm ! row ! k)"
    and "nm_run N xs nm = Some (rs, nm')"
  shows "(\<forall>r \<in> set rs. point_in N nm k (r_threads r, r_freq_idx r)) \<and>
    (rs \<noteq> [] \<and> r_converged (last rs) \<longrightarrow> in_coord N nm k (getMinVertices nm' ! k))"
proof -
  have "box_inv N k nm" using assms(2,5) by (simp add: box_inv_def)
  from nm_run_box [OF assms(1) this assms(3,4,6)]
  have b: "box_inv N k nm'" "same_box nm nm'" "\<forall>r \<in> set rs. point_in N nm k (r_threads r, r_freq_idx r)" by blast+
  have "in_coord N nm k (getMinVertices nm' ! k)" if "rs \<noteq> []" "r_converged (last rs)"
  proof -
    have "nm_vs nm' < 3" using nm_run_last [OF assms(1,6) that] by simp
    then show ?thesis using b(1) unfolding box_inv_def getMinVertices_def in_coord_same [OF b(2)] by blast
  qed
  then show ?thesis using b(3) by blast
qed

theorem nelder_mead_points_in_bounds_witness:
  "\<exists>rs nm'. nm_run rat_nm [0, 3, 2] demo_simplex = Some (rs, nm') \<and>
     (\<forall>r \<in> set rs. point_in rat_nm demo_simplex 0 (r_threads r, r_freq_idx r))"
proof -
  obtain rs nm' where r: "nm_run rat_nm [0, 3, 2] demo_simplex = Some (rs, nm')" using nm_run_total [OF demo_simplex_ok] by blast
  have "coord_ok rat_nm (constraint_min demo_simplex ! 0) (constraint_max demo_simplex ! 0)"
    using rat_coord_ok [of 1 8] by (simp add: demo_simplex_def)
  moreover have "\<forall>row < 3. in_coord rat_nm demo_simplex 0 (nm_v demo_simplex ! row ! 0)"
    by (auto simp: demo_simplex_def in_coord_def rat_nm_def fle_def numeral_3_eq_3 less_Suc_eq)
  ultimately show ?thesis
    using nelder_mead_points_in_bounds [OF demo_simplex_ok _ _ _ _ r, of 0] r by (auto simp: demo_simplex_def)
qed

text \<open>No vertex of the simplex is ever replaced by a worse one: the minimum that the search reports is one of the
  values that were sampled, and none of the values it started from is smaller.\<close>

theorem nelder_mead_improves:
  assumes "nm_ok nm" and "nm_state nm = Start" and "weak_order (flt (fp N))"
    and "nm_run N xs nm = Some (rs, nm')" and "rs \<noteq> []" and "r_converged (last rs)"
  shows "nm_min nm' \<in> set (nm_f nm) \<union> set xs \<and> (\<forall>i < 3. \<not> flt (fp N) (nm_f nm ! i) (nm_min nm'))"
proof -
  have "val_inv N (set (nm_f nm)) nm" using assms(2) by (simp add: val_inv_def)
  from nm_run_values [OF assms(1,3) this assms(4)]
  have v: "val_inv N (set (nm_f nm) \<union> set xs) nm'" "not_grown N (nm_f nm) (nm_f nm')" by blast+
  have last: "nm_vs nm' = vs_index N (nm_f nm')" "nm_min nm' = nm_f nm' ! nm_vs nm'"
    using nm_run_last [OF assms(1,4,5,6)] by blast+
  have "length (nm_f nm') = 3" using nm_run_total [OF assms(1), of N xs] assms(4) by (auto simp: nm_ok_def)
  then have "nm_min nm' \<in> set (nm_f nm')" using last by simp
  moreover have "\<not> flt (fp N) (nm_f nm ! i) (nm_min nm')" if "i < 3" for i
    using vs_index_least [OF assms(3) that, of "nm_f nm'"] v(2) that assms(3) unfolding last not_grown_def weak_order_def by blast
  ultimately show ?thesis using v(1) unfolding val_inv_def by blast
qed

text \<open>A search that ends at once: all three values are equal.\<close>

lemma flat_simplex_run:
  "nm_run rat_nm [7] (demo_simplex\<lparr>nm_f := [5, 5, 5]\<rparr>) =
     Some ([\<lparr>r_converged = True, r_threads = 5, r_freq_idx = 4\<rparr>],
       demo_simplex\<lparr>nm_f := [5, 5, 5], nm_itr := 1, nm_vm := [3, 2], nm_vr := [5, 4], nm_state := Reflection, nm_min := 5\<rparr>)"
  by (simp add: nm_step_def nm_move_def step_start_def find_indices_def vg_index_def vs_index_def vh_index_def demo_simplex_def rat_nm_def
      centroid_def reflect_def my_constraints_def back_in_def point_def testConvergence_def deviation_def fge_def max_iterations_def Let_def)

lemmas nm_eval = nm_step_def nm_move_def step_start_def step_reflection_def step_expansion_def step_contraction_def
  find_indices_def updateObjectives_def replace_worst_def vg_index_def vs_index_def vh_index_def demo_simplex_def rat_nm_def
  centroid_def reflect_def along_def contract_inside_def my_constraints_def back_in_def point_def no_point_def shrink_def shrink_row_def
  testConvergence_def deviation_def fge_def max_iterations_def

text \<open>A search in which an expansion succeeds.\<close>

lemma expanding_run:
  "\<exists>rs nm'. nm_run rat_nm [0, 3, 2] (demo_simplex\<lparr>nm_epsilon := 10\<rparr>) = Some (rs, nm') \<and> length rs = 3 \<and> r_converged (last rs) \<and>
     nm_min nm' = 2 \<and> nm_f nm' = [2, 4, 6]"
  by (simp add: nm_eval Let_def)

theorem nelder_mead_improves_witness:
  "\<exists>rs nm'. nm_run rat_nm [0, 3, 2] (demo_simplex\<lparr>nm_epsilon := 10\<rparr>) = Some (rs, nm') \<and> nm_min nm' = 2 \<and>
     nm_min nm' \<in> set [9, 4, 6] \<union> set [0, 3, 2] \<and> (\<forall>i < 3. \<not> [9, 4, 6] ! i < nm_min nm')"
proof -
  let ?nm = "demo_simplex\<lparr>nm_epsilon := 10\<rparr>"
  obtain rs nm' where r: "nm_run rat_nm [0, 3, 2] ?nm = Some (rs, nm')" "length rs = 3" "r_converged (last rs)" "nm_min nm' = 2"
    using expanding_run by blast
  have ok: "nm_ok ?nm" "nm_state ?nm = Start" "nm_f ?nm = [9, 4, 6]" using demo_simplex_ok by (simp_all add: demo_simplex_def nm_ok_def)
  have "rs \<noteq> []" using r(2) by auto
  from nelder_mead_improves [OF ok(1,2) rat_nm_order r(1) this r(3)] show ?thesis
    using r(1,4) unfolding ok(3) by (simp add: rat_nm_def)
qed

section \<open>Where the search is not the one of Nelder and Mead\<close>

text \<open>When the reflected point is worse than the second worst one, the contraction is always the inside one: the worst
  value is replaced by the sample before the sample is compared with it.\<close>

lemma outside_contraction_dead:
  assumes "nm_state nm = Reflection" and "nm_ok nm" and "weak_order (flt (fp N))" and "\<not> flt (fp N) x (nm_f nm ! nm_vh nm)"
  shows "\<exists>nm' w. nm_move N x nm = Some (point N (nm_vc nm'), nm') \<and>
    w = (if flt (fp N) x (nm_f nm ! nm_vg nm) then nm_vr nm else nm_v nm ! nm_vg nm) \<and>
    nm_vc nm' = my_constraints N nm (contract_inside N (nm_vm nm) w)"
proof -
  have irr: "\<not> flt (fp N) x x" using assms(3) by (simp add: weak_order_def)
  have "nm_vg nm < 3" "nm_vh nm < 3" "length (nm_f nm) = 3" "length (nm_v nm) = 3" using assms(1,2) by (auto simp: nm_ok_def)
  then show ?thesis
    using assms(1,4) irr by (auto simp: nm_move_def step_reflection_def Let_def replace_worst_def my_constraints_def)
qed

text \<open>vh\_index starts from the index it found before, so it can miss the second largest value: of the values 1, 3 and 2
  it returns the largest if that was vh before.\<close>

lemma second_largest_missed:
  "vh_index rat_nm [1, 3, 2] (vg_index rat_nm [1, 3, 2]) 1 = Some 1" "vh_index rat_nm [1, 3, 2] (vg_index rat_nm [1, 3, 2]) 0 = Some 2"
  by (simp_all add: vh_index_def vg_index_def rat_nm_def)

text \<open>The upper bound of the first coordinate is lost by the initialization.\<close>

lemma first_bound_lost: "constraint_max (initialize_simplex params values cmin cmax past nm) ! 0 = past"
  by (simp add: initialize_simplex_def)

text \<open>A new simplex does not reset the state: the first sample of the next search is taken for the value of a point of
  the last one.\<close>

lemma state_not_reset: "nm_state (initialize_simplex params values cmin cmax past nm) = nm_state nm"
  by (simp add: initialize_simplex_def)

text \<open>Shrinking moves the vertices and keeps the values that were sampled at their old places.\<close>

lemma shrink_keeps_values:
  "nm_f (shrink N nm) = nm_f nm" "\<exists>nm :: rat nelder_mead. nm_ok nm \<and> nm_v (shrink rat_nm nm) \<noteq> nm_v nm"
proof -
  show "nm_f (shrink N nm) = nm_f nm" by (simp add: shrink_def)
  have "nm_v (shrink rat_nm demo_simplex) \<noteq> nm_v demo_simplex" by (simp add: nm_eval)
  then show "\<exists>nm :: rat nelder_mead. nm_ok nm \<and> nm_v (shrink rat_nm nm) \<noteq> nm_v nm" using demo_simplex_ok by blast
qed

end
