(* ===== verification/Local_Optimizer.thy ===== *)
theory Local_Optimizer
  imports Nelder_Mead
begin

text \<open>
  The local optimizer of a node: src/components/localoptimizer.cpp, allscale/components/localoptimizer.hpp, and its
  use by the scheduler component (init, optimize\_locally and the metrics it updates, in
  src/components/scheduler\_component.cpp), in a build with ALLSCALE\_HAVE\_CPUFREQ.

  Parameters: the arithmetic of double, the numbers of rand (rs, with the number of calls made so far), the parser
  of numbers std::stod, the power that the hardware reports, the clock, and the average iteration time of the monitor.
  An index out of the bounds of a vector, or a division by zero, gives None.
\<close>

section \<open>Objectives\<close>

datatype objectiveType = Time | Energy | Resource

datatype searchPolicy = Allscale | Random | Manual

record 'f objective =
  ob_type :: objectiveType
  ob_leeway :: 'f
  ob_priority :: nat
  ob_localmin :: 'f
  ob_localmax :: 'f
  ob_globalmin :: 'f
  ob_globalmax :: 'f
  ob_samples :: "'f list"
  ob_threads_samples :: "'f list"
  ob_freq_samples :: "'f list"
  ob_converged :: bool
  ob_initialized :: bool
  ob_min_params_idx :: uint64_t
  ob_converged_minimum :: 'f
  ob_minimization_params :: "'f list"

record actuation =
  delta_threads :: uint32_t
  frequency_idx :: uint32_t

record 'f localoptimizer =
  lo_objectives :: "'f objective list"
  lo_nmd :: "'f nelder_mead"
  param_changes :: uint64_t
  optmethod :: searchPolicy
  threads_param :: int
  max_threads :: size_t
  frequency_param :: uint32_t
  frequencies_allowed :: "nat list"
  current_objective_idx :: nat
  lo_steps :: nat
  lo_converged :: bool

definition warmup_steps :: nat where
  "warmup_steps = 3"

text \<open>An objective with the members that the list of targets does not set; the vectors of samples start empty.\<close>

definition new_objective :: "'f nm_fpu \<Rightarrow> objectiveType \<Rightarrow> 'f \<Rightarrow> nat \<Rightarrow> 'f objective" where
  "new_objective N ty leeway priority =
    (let zero = fof_int (fp N) 0 in
     \<lparr>ob_type = ty, ob_leeway = leeway, ob_priority = priority, ob_localmin = zero, ob_localmax = zero, ob_globalmin = zero,
      ob_globalmax = zero, ob_samples = [], ob_threads_samples = [], ob_freq_samples = [], ob_converged = False,
      ob_initialized = False, ob_min_params_idx = 0, ob_converged_minimum = zero, ob_minimization_params = [zero, zero]\<rparr>)"

definition fresh_bounds :: "'f nm_fpu \<Rightarrow> 'f objective \<Rightarrow> 'f objective" where
  "fresh_bounds N ob = ob\<lparr>ob_localmin := fof_int (fp N) 10000, ob_globalmin := fof_int (fp N) 10000,
     ob_localmax := fof_int (fp N) 0, ob_globalmax := fof_int (fp N) 0, ob_converged := False, ob_initialized := False,
     ob_min_params_idx := 0, ob_converged_minimum := fof_int (fp N) 0\<rparr>"

fun place_objectives :: "'f nm_fpu \<Rightarrow> 'f objective list \<Rightarrow> 'f objective list \<Rightarrow> 'f objective list option" where
  "place_objectives N [] obs = Some obs"
| "place_objectives N (t # ts) obs =
    (if ob_priority t < length obs then place_objectives N ts (obs[ob_priority t := fresh_bounds N t]) else None)"

definition setobjectives :: "'f nm_fpu \<Rightarrow> 'f objective list \<Rightarrow> 'f localoptimizer \<Rightarrow> 'f localoptimizer option" where
  "setobjectives N targets lo = do {
     obs \<leftarrow> place_objectives N targets (replicate (length targets) (new_objective N Time (fof_int (fp N) 0) 0));
     Some (lo\<lparr>lo_objectives := obs, lo_steps := 0, param_changes := 0, frequency_param := 0, lo_converged := False\<rparr>)}"

definition setmaxthreads :: "size_t \<Rightarrow> 'f localoptimizer \<Rightarrow> 'f localoptimizer" where
  "setmaxthreads n lo = lo\<lparr>max_threads := n, threads_param := sint (ucast n :: uint32_t)\<rparr>"

definition lo_reset :: "int \<Rightarrow> uint32_t \<Rightarrow> 'f localoptimizer \<Rightarrow> 'f localoptimizer" where
  "lo_reset threads freq_idx lo = lo\<lparr>threads_param := threads, param_changes := 0, frequency_param := freq_idx,
     current_objective_idx := 0, lo_steps := 0, lo_converged := False\<rparr>"

section \<open>Measurements\<close>

definition push_sample :: "'f \<Rightarrow> 'f list \<Rightarrow> 'f list" where
  "push_sample x xs = (let xs = x # xs in if 1000 < length xs then take 500 xs else xs)"

definition measure_one :: "'f nm_fpu \<Rightarrow> 'f localoptimizer \<Rightarrow> 'f \<Rightarrow> 'f \<Rightarrow> 'f \<Rightarrow> 'f objective \<Rightarrow> 'f objective" where
  "measure_one N lo iter_time watts threads el =
    (let x = (case ob_type el of Time \<Rightarrow> iter_time | Energy \<Rightarrow> watts | Resource \<Rightarrow> threads);
         el = el\<lparr>ob_samples := push_sample x (ob_samples el), ob_threads_samples := push_sample threads (ob_threads_samples el),
           ob_freq_samples := push_sample (fof_int (fp N) (uint (frequency_param lo))) (ob_freq_samples el)\<rparr>;
         el = (if flt (fp N) x (ob_globalmin el) then el\<lparr>ob_globalmin := x, ob_min_params_idx := param_changes lo\<rparr> else el)
     in if flt (fp N) (ob_globalmax el) x then el\<lparr>ob_globalmax := x\<rparr> else el)"

definition measureObjective :: "'f nm_fpu \<Rightarrow> 'f \<Rightarrow> 'f \<Rightarrow> 'f \<Rightarrow> 'f localoptimizer \<Rightarrow> 'f localoptimizer" where
  "measureObjective N iter_time watts threads lo =
     lo\<lparr>lo_objectives := map (measure_one N lo iter_time watts threads) (lo_objectives lo)\<rparr>"

section \<open>A step\<close>

definition uint_of :: "'f nm_fpu \<Rightarrow> 'f \<Rightarrow> uint32_t" where
  "uint_of N x = word_of_int (to_int N x)"

definition rand_mod :: "(nat \<Rightarrow> nat) \<Rightarrow> nat \<Rightarrow> nat \<Rightarrow> nat option" where
  "rand_mod rs i n = (if n = 0 then None else Some (rs i mod n))"

definition oldest_three :: "nat \<Rightarrow> 'f list \<Rightarrow> 'f list option" where
  "oldest_three n xs = those (map (\<lambda>k. if k \<le> n then at_opt xs (n - k) else None) [1, 2, 3])"

text \<open>The simplex of an objective is made from its three oldest samples.  past and clobber are what is read behind the
  arrays constraint\_min and constraint\_max of step; the write behind constraint\_max of the simplex falls on the
  member that follows it, param\_changes\_.\<close>

definition init_objective ::
  "'f nm_fpu \<Rightarrow> 'f \<Rightarrow> uint64_t \<Rightarrow> nat \<Rightarrow> 'f objective \<Rightarrow> 'f localoptimizer \<Rightarrow> 'f localoptimizer option" where
  "init_objective N past clobber idx ob lo = do {
     let n = length (ob_samples ob);
     ts \<leftarrow> oldest_three n (ob_threads_samples ob);
     fs \<leftarrow> oldest_three n (ob_freq_samples ob);
     xs \<leftarrow> oldest_three n (ob_samples ob);
     let nmd = initialize_simplex (map2 (\<lambda>t f. [t, f]) ts fs) xs
       [fof_int (fp N) 1, fof_int (fp N) 0]
       [fof_int (fp N) (uint (max_threads lo)), fof_int (fp N) (int (length (frequencies_allowed lo)))] past (lo_nmd lo);
     Some (lo\<lparr>lo_nmd := nmd, param_changes := clobber, lo_objectives := (lo_objectives lo)[idx := ob\<lparr>ob_initialized := True\<rparr>]\<rparr>)}"

definition ensure_initialized ::
  "'f nm_fpu \<Rightarrow> 'f \<Rightarrow> uint64_t \<Rightarrow> nat \<Rightarrow> 'f objective \<Rightarrow> 'f localoptimizer \<Rightarrow> 'f localoptimizer option" where
  "ensure_initialized N past clobber idx ob lo =
    (if ob_initialized ob then Some lo else init_objective N past clobber idx ob lo)"

text \<open>The objective with index idx has converged.\<close>

definition finish_objective :: "nat \<Rightarrow> 'f localoptimizer \<Rightarrow> 'f localoptimizer" where
  "finish_objective idx lo =
    (let ob = lo_objectives lo ! idx;
         ob = ob\<lparr>ob_converged := True, ob_converged_minimum := nm_min (lo_nmd lo),
           ob_minimization_params := [getMinVertices (lo_nmd lo) ! 0, getMinVertices (lo_nmd lo) ! 1]\<rparr>;
         lo = lo\<lparr>lo_objectives := (lo_objectives lo)[idx := ob], current_objective_idx := current_objective_idx lo + 1\<rparr>
     in if current_objective_idx lo = length (lo_objectives lo) then lo\<lparr>lo_converged := True\<rparr> else lo)"

text \<open>The first objective of higher priority that has left its leeway.\<close>

definition max_leeway_value :: "'f nm_fpu \<Rightarrow> 'f objective \<Rightarrow> 'f" where
  "max_leeway_value N ob = fadd (fp N) (ob_converged_minimum ob)
     (fmul (fp N) (ob_leeway ob) (fsub (fp N) (ob_globalmax ob) (ob_converged_minimum ob)))"

fun off_leeway :: "'f nm_fpu \<Rightarrow> 'f objective list \<Rightarrow> 'f objective option option" where
  "off_leeway N [] = Some None"
| "off_leeway N (ob # obs) = do {
    s0 \<leftarrow> at_opt (ob_samples ob) 0;
    s1 \<leftarrow> (if flt (fp N) (max_leeway_value N ob) s0 then at_opt (ob_samples ob) 1 else Some s0);
    if flt (fp N) (max_leeway_value N ob) s0 \<and> flt (fp N) (max_leeway_value N ob) s1 then Some (Some ob)
    else off_leeway N obs}"

text \<open>The point of an objective scaled to its leeway margin: (int) x * (margin / minimum).\<close>

definition leeway_point :: "'f nm_fpu \<Rightarrow> 'f objective \<Rightarrow> nat \<Rightarrow> uint32_t" where
  "leeway_point N ob k = uint_of N (fmul (fp N) (fof_int (fp N) (to_int N (ob_minimization_params ob ! k)))
     (fdiv (fp N) (max_leeway_value N ob) (ob_converged_minimum ob)))"

definition allscale_step ::
  "'f nm_fpu \<Rightarrow> 'f \<Rightarrow> uint64_t \<Rightarrow> actuation \<Rightarrow> 'f localoptimizer \<Rightarrow> (actuation \<times> 'f localoptimizer) option" where
  "allscale_step N past clobber act lo = do {
     let idx = current_objective_idx lo;
     ob \<leftarrow> at_opt (lo_objectives lo) idx;
     lo \<leftarrow> ensure_initialized N past clobber idx ob lo;
     x \<leftarrow> at_opt (ob_samples ob) 0;
     (res, nmd) \<leftarrow> nm_step N x (lo_nmd lo);
     let lo = lo\<lparr>lo_nmd := nmd\<rparr>;
     if r_converged res then
       Some (act\<lparr>delta_threads := uint_of N (getMinVertices nmd ! 0), frequency_idx := uint_of N (getMinVertices nmd ! 1)\<rparr>,
         finish_objective idx lo)
     else do {
       off \<leftarrow> off_leeway N (take idx (lo_objectives lo));
       (case off of
          Some p \<Rightarrow> Some (act\<lparr>delta_threads := leeway_point N p 0, frequency_idx := leeway_point N p 1\<rparr>, finish_objective idx lo)
        | None \<Rightarrow> Some (act\<lparr>delta_threads :=
              (if feq (fp N) (r_threads res) (fof_int (fp N) 0)
               then uint_of N (fof_int (fp N) (uint (word_of_int (threads_param lo) :: size_t)))
               else uint_of N (r_threads res)),
            frequency_idx := word_of_int (r_freq_idx res)\<rparr>, lo))}}"

definition lo_step ::
  "'f nm_fpu \<Rightarrow> (nat \<Rightarrow> nat) \<Rightarrow> 'f \<Rightarrow> uint64_t \<Rightarrow> 'f localoptimizer \<Rightarrow> nat \<Rightarrow> (actuation \<times> 'f localoptimizer \<times> nat) option" where
  "lo_step N rs past clobber lo i = do {
     let lo = lo\<lparr>lo_steps := lo_steps lo + 1\<rparr>;
     let act = \<lparr>delta_threads = word_of_int (threads_param lo), frequency_idx = frequency_param lo\<rparr>;
     (case optmethod lo of
        Random \<Rightarrow> do {
          r \<leftarrow> rand_mod rs i (unat (max_threads lo));
          f \<leftarrow> rand_mod rs (i + 1) (length (frequencies_allowed lo));
          let f = (word_of_nat f :: uint32_t);
          Some (\<lparr>delta_threads = word_of_int (int r - threads_param lo),
                 frequency_idx = (if f = frequency_param lo then - 1 else f)\<rparr>, lo, i + 2)}
      | Allscale \<Rightarrow>
          if length (lo_objectives lo) < current_objective_idx lo then Some (act, lo, i)
          else if lo_steps lo < warmup_steps then do {
            r \<leftarrow> rand_mod rs i (unat (max_threads lo));
            f \<leftarrow> rand_mod rs (i + 1) (length (frequencies_allowed lo));
            Some (\<lparr>delta_threads = word_of_nat r, frequency_idx = word_of_nat f\<rparr>, lo, i + 2)}
          else do {
            (act, lo) \<leftarrow> allscale_step N past clobber act lo;
            Some (act, lo, i)}
      | Manual \<Rightarrow> Some (act, lo, i))}"

section \<open>The scheduler component\<close>

text \<open>The objectives of the configuration entry allscale.objective, a list of words.\<close>

datatype init_error = Wrong_objective string | Leeway_range | No_number string | Out_of_bounds | No_frequencies

record 'f objective_options =
  oo_priorities :: "objectiveType list"
  oo_multi :: bool
  oo_time_leeway :: 'f
  oo_resource_leeway :: 'f
  oo_energy_leeway :: 'f

definition find_colon :: "string \<Rightarrow> nat option" where
  "find_colon s = (if CHR '':'' \<in> set s then Some (length (takeWhile (\<lambda>c. c \<noteq> CHR '':'') s)) else None)"

definition objective_named :: "string \<Rightarrow> objectiveType option" where
  "objective_named s = (if s = ''time'' then Some Time else if s = ''resource'' then Some Resource
     else if s = ''energy'' then Some Energy else None)"

definition word_name :: "string \<Rightarrow> string" where
  "word_name w = (case find_colon w of None \<Rightarrow> w | Some k \<Rightarrow> take k w)"

definition parse_word ::
  "'f nm_fpu \<Rightarrow> (string \<Rightarrow> 'f option) \<Rightarrow> string \<Rightarrow> 'f objective_options \<Rightarrow> init_error + 'f objective_options" where
  "parse_word N stod w oo =
    (let idx = find_colon w;
         obj = word_name w;
         leeway = (case idx of None \<Rightarrow> Some (flit (fp N) 1 1) | Some k \<Rightarrow> stod (drop (k + 1) w));
         oo = (if idx = None then oo else oo\<lparr>oo_multi := True\<rparr>)
     in case leeway of
          None \<Rightarrow> Inl (No_number w)
        | Some leeway \<Rightarrow>
          (case objective_named obj of
             None \<Rightarrow> Inl (Wrong_objective obj)
           | Some ty \<Rightarrow>
             (let oo = oo\<lparr>oo_priorities := oo_priorities oo @ [ty]\<rparr>;
                  oo = (case ty of Time \<Rightarrow> oo\<lparr>oo_time_leeway := leeway\<rparr> | Resource \<Rightarrow> oo\<lparr>oo_resource_leeway := leeway\<rparr>
                        | Energy \<Rightarrow> oo\<lparr>oo_energy_leeway := leeway\<rparr>)
              in if flt (fp N) (flit (fp N) 1 1) (oo_time_leeway oo) \<or> flt (fp N) (flit (fp N) 1 1) (oo_resource_leeway oo) \<or>
                    flt (fp N) (flit (fp N) 1 1) (oo_energy_leeway oo)
                 then Inl Leeway_range else Inr oo)))"

fun parse_words ::
  "'f nm_fpu \<Rightarrow> (string \<Rightarrow> 'f option) \<Rightarrow> string list \<Rightarrow> 'f objective_options \<Rightarrow> init_error + 'f objective_options" where
  "parse_words N stod [] oo = Inr oo"
| "parse_words N stod (w # ws) oo = (case parse_word N stod w oo of Inl e \<Rightarrow> Inl e | Inr oo \<Rightarrow> parse_words N stod ws oo)"

definition no_options :: "'f nm_fpu \<Rightarrow> 'f objective_options" where
  "no_options N = \<lparr>oo_priorities = [], oo_multi = False, oo_time_leeway = flit (fp N) 1 1, oo_resource_leeway = flit (fp N) 1 1,
     oo_energy_leeway = flit (fp N) 1 1\<rparr>"

text \<open>The list of targets: for each requested kind, with the position of its first occurrence.\<close>

definition requested :: "'f objective_options \<Rightarrow> objectiveType \<Rightarrow> bool" where
  "requested oo ty \<longleftrightarrow> ty \<in> set (oo_priorities oo)"

definition first_index :: "'f objective_options \<Rightarrow> objectiveType \<Rightarrow> nat" where
  "first_index oo ty = length (takeWhile (\<lambda>x. x \<noteq> ty) (oo_priorities oo))"

definition leeway_of :: "'f objective_options \<Rightarrow> objectiveType \<Rightarrow> 'f" where
  "leeway_of oo ty = (case ty of Time \<Rightarrow> oo_time_leeway oo | Resource \<Rightarrow> oo_resource_leeway oo | Energy \<Rightarrow> oo_energy_leeway oo)"

definition objective_targets :: "'f nm_fpu \<Rightarrow> 'f objective_options \<Rightarrow> 'f objective list" where
  "objective_targets N oo =
     map (\<lambda>ty. new_objective N ty (leeway_of oo ty) (first_index oo ty)) (filter (requested oo) [Energy, Time, Resource])"

text \<open>The part of init that sets up the local optimizer.\<close>

definition init_optimizer ::
  "'f nm_fpu \<Rightarrow> (string \<Rightarrow> 'f option) \<Rightarrow> string list \<Rightarrow> size_t \<Rightarrow> nat list \<Rightarrow> 'f localoptimizer \<Rightarrow> init_error + 'f localoptimizer" where
  "init_optimizer N stod ws os_threads freqs lo =
    (case parse_words N stod ws (no_options N) of
       Inl e \<Rightarrow> Inl e
     | Inr oo \<Rightarrow>
       (case setobjectives N (objective_targets N oo) lo of
          None \<Rightarrow> Inl Out_of_bounds
        | Some lo \<Rightarrow>
          (let lo = lo_reset (sint (ucast os_threads :: uint32_t)) 0 (setmaxthreads os_threads lo);
               lo = lo\<lparr>frequencies_allowed := freqs\<rparr>
           in if freqs = [] then Inl No_frequencies else Inr lo)))"

section \<open>Optimizing locally\<close>

text \<open>The state of the scheduler component that optimize\_locally uses; times are in milliseconds.\<close>

record 'f optimizing =
  op_lopt :: "'f localoptimizer"
  op_uselopt :: bool
  last_optimization :: int
  last_measurement :: int
  last_power_usage :: uint64_t
  power_sum :: uint64_t
  nr_opt_steps :: nat
  active_threads :: size_t
  hw_frequency_idx :: int
  meas_power_sum :: uint64_t
  meas_power_count :: uint64_t
  meas_power_min :: size_t
  meas_power_max :: size_t

definition optimization_period_ms :: int where "optimization_period_ms = 5"

definition objective_measurement_period_ms :: int where "objective_measurement_period_ms = 1"

definition period_for_power :: nat where "period_for_power = 20"

definition update_power_consumption :: "size_t \<Rightarrow> 'f optimizing \<Rightarrow> 'f optimizing" where
  "update_power_consumption sample op =
    (let op = (if meas_power_max op = 0 then op\<lparr>meas_power_max := sample\<rparr> else op);
         op = (if meas_power_min op = 0 then op\<lparr>meas_power_min := sample\<rparr> else op)
     in if meas_power_sum op = 0 then op\<lparr>meas_power_count := meas_power_count op + 1, meas_power_sum := sample\<rparr>
     else if sample \<le> 10000 then
       (let op = op\<lparr>meas_power_count := meas_power_count op + 1, meas_power_sum := meas_power_sum op + sample\<rparr>;
            op = (if meas_power_max op < sample then op\<lparr>meas_power_max := sample\<rparr> else op)
        in if sample < meas_power_min op then op\<lparr>meas_power_min := sample\<rparr> else op)
     else op)"

text \<open>fix\_allcores\_frequencies brings the index into the range of the frequencies of the hardware.\<close>

definition clamp_frequency_idx :: "nat \<Rightarrow> uint32_t \<Rightarrow> int" where
  "clamp_frequency_idx n idx =
    (let i = sint idx; i = (if i < 0 then 0 else i); m = int n - 1 in if m < i then m else i)"

text \<open>A call of optimize\_locally for a work item of depth 0 at time now; watts is the power that the hardware reports
  and avg the average iteration time, isnan whether it is NaN; past and clobber are what init\_objective reads.\<close>

record 'f optimize_call =
  oc_id :: uint64_t
  oc_now :: int
  oc_watts :: uint64_t
  oc_avg :: 'f
  oc_isnan :: bool
  oc_past :: 'f
  oc_clobber :: uint64_t

definition measure_now :: "'f nm_fpu \<Rightarrow> 'f optimize_call \<Rightarrow> 'f optimizing \<Rightarrow> 'f optimizing option" where
  "measure_now N call op =
    (if last_power_usage op = 0 then None
     else Some (op\<lparr>last_measurement := oc_now call,
       op_lopt := measureObjective N (if oc_isnan call then fof_int (fp N) 0 else oc_avg call)
         (fof_int (fp N) (uint (power_sum op div last_power_usage op))) (fof_int (fp N) (uint (active_threads op))) (op_lopt op),
       last_power_usage := 0, power_sum := 0\<rparr>))"

definition optimize_now ::
  "'f nm_fpu \<Rightarrow> (nat \<Rightarrow> nat) \<Rightarrow> 'f optimize_call \<Rightarrow> 'f optimizing \<Rightarrow> nat \<Rightarrow> ('f optimizing \<times> nat) option" where
  "optimize_now N rs call op i = do {
     (act, lo, i) \<leftarrow> lo_step N rs (oc_past call) (oc_clobber call) (op_lopt op) i;
     let op = op\<lparr>last_optimization := oc_now call, nr_opt_steps := nr_opt_steps op + 1, op_lopt := lo\<rparr>;
     Some
      (if ucast (delta_threads act) < active_threads op then
         op\<lparr>op_lopt := lo\<lparr>threads_param := sint (ucast (active_threads op) :: uint32_t)\<rparr>\<rparr>
       else if active_threads op < ucast (delta_threads act) then
         op\<lparr>hw_frequency_idx := clamp_frequency_idx (length (frequencies_allowed lo)) (frequency_idx act),
            op_lopt := lo\<lparr>frequency_param := frequency_idx act\<rparr>\<rparr>
       else op, i)}"

definition sample_power :: "'f optimize_call \<Rightarrow> 'f optimizing \<Rightarrow> 'f optimizing" where
  "sample_power call op =
    (if period_for_power \<le> unat (oc_id call) \<and> unat (oc_id call) mod period_for_power = 0
     then update_power_consumption (oc_watts call) op else op)"

definition use_lopt ::
  "'f nm_fpu \<Rightarrow> (nat \<Rightarrow> nat) \<Rightarrow> 'f optimize_call \<Rightarrow> 'f optimizing \<Rightarrow> nat \<Rightarrow> ('f optimizing \<times> nat) option" where
  "use_lopt N rs call op i = do {
     let op = op\<lparr>last_power_usage := last_power_usage op + 1, power_sum := power_sum op + oc_watts call\<rparr>;
     op \<leftarrow> (if objective_measurement_period_ms < oc_now call - last_measurement op then measure_now N call op else Some op);
     if optimization_period_ms < oc_now call - last_optimization op
     then optimize_now N rs call op i
     else Some (op, i)}"

definition optimize_locally ::
  "'f nm_fpu \<Rightarrow> (nat \<Rightarrow> nat) \<Rightarrow> 'f optimize_call \<Rightarrow> 'f optimizing \<times> nat \<Rightarrow> ('f optimizing \<times> nat) option" where
  "optimize_locally N rs call = (\<lambda>(op, i).
    (let op = sample_power call op
     in if op_uselopt op \<and> \<not> lo_converged (op_lopt op) then use_lopt N rs call op i else Some (op, i)))"

section \<open>The invariant of the local optimizer\<close>

text \<open>After m measurements every objective has as many samples, up to the limit of the vectors.\<close>

definition samples_ok :: "nat \<Rightarrow> 'f objective \<Rightarrow> bool" where
  "samples_ok m ob \<longleftrightarrow> length (ob_threads_samples ob) = length (ob_samples ob) \<and>
     length (ob_freq_samples ob) = length (ob_samples ob) \<and> min m 3 \<le> length (ob_samples ob)"

definition lo_ok :: "nat \<Rightarrow> 'f localoptimizer \<Rightarrow> bool" where
  "lo_ok m lo \<longleftrightarrow> optmethod lo = Allscale \<and> max_threads lo \<noteq> 0 \<and> frequencies_allowed lo \<noteq> [] \<and> lo_objectives lo \<noteq> [] \<and>
     nm_ok (lo_nmd lo) \<and> (\<forall>ob \<in> set (lo_objectives lo). samples_ok m ob) \<and>
     current_objective_idx lo \<le> length (lo_objectives lo) \<and>
     (lo_converged lo \<longleftrightarrow> current_objective_idx lo = length (lo_objectives lo)) \<and>
     (\<forall>j < length (lo_objectives lo). current_objective_idx lo < j \<longrightarrow> \<not> ob_initialized (lo_objectives lo ! j)) \<and>
     (current_objective_idx lo < length (lo_objectives lo) \<and> ob_initialized (lo_objectives lo ! current_objective_idx lo) \<longrightarrow>
       3 \<le> calls_left (lo_nmd lo))"

text \<open>A bound of the steps that are left: the rest of the warm-up, and 48 for every objective.\<close>

definition objectives_left :: "'f localoptimizer \<Rightarrow> nat" where
  "objectives_left lo =
     (if current_objective_idx lo < length (lo_objectives lo) then
        48 * (length (lo_objectives lo) - current_objective_idx lo - 1) +
        (if ob_initialized (lo_objectives lo ! current_objective_idx lo) then calls_left (lo_nmd lo) - 2 else 48)
      else 0)"

definition steps_left :: "'f localoptimizer \<Rightarrow> nat" where
  "steps_left lo = (2 - lo_steps lo) + objectives_left lo"

lemma length_push_sample: "length (push_sample x xs) = (if 1000 < Suc (length xs) then 500 else Suc (length xs))"
  by (simp add: push_sample_def Let_def)

lemma measure_one_sel:
  "ob_initialized (measure_one N lo t w n ob) = ob_initialized ob"
  "samples_ok m ob \<Longrightarrow> samples_ok (Suc m) (measure_one N lo t w n ob)"
  by (auto simp: measure_one_def Let_def samples_ok_def length_push_sample)

lemma measureObjective_ok:
  "lo_ok m lo \<Longrightarrow> lo_ok (Suc m) (measureObjective N t w n lo)"
  "lo_ok m lo \<Longrightarrow> steps_left (measureObjective N t w n lo) = steps_left lo"
  by (auto simp: lo_ok_def steps_left_def objectives_left_def measureObjective_def measure_one_sel nth_append)

lemma measureObjective_sel [simp]:
  "lo_steps (measureObjective N t w n lo) = lo_steps lo" "lo_converged (measureObjective N t w n lo) = lo_converged lo"
  by (simp_all add: measureObjective_def)

lemma initialize_simplex_ok: "nm_ok nm \<Longrightarrow> nm_ok (initialize_simplex ps xs lo hi past nm)"
  by (simp add: nm_ok_def initialize_simplex_def)

lemma initialize_simplex_calls: "calls_left (initialize_simplex ps xs lo hi past nm) \<le> 50"
  by (simp add: calls_left_def initialize_simplex_def split: iterationstates.split)

lemma oldest_three_total:
  assumes "length xs = n" and "3 \<le> n"
  shows "\<exists>ys. oldest_three n xs = Some ys"
proof -
  have "n - 3 < length xs" "n - 2 < length xs" "n - 1 < length xs" "1 \<le> n" "2 \<le> n" using assms by linarith+
  then show ?thesis using assms(2) by (simp add: oldest_three_def at_opt_def)
qed

lemma init_objective_total:
  assumes "samples_ok m ob" and "3 \<le> m"
  shows "\<exists>ps xs clo chi. init_objective N past clobber idx ob lo =
    Some (lo\<lparr>lo_nmd := initialize_simplex ps xs clo chi past (lo_nmd lo), param_changes := clobber,
      lo_objectives := (lo_objectives lo)[idx := ob\<lparr>ob_initialized := True\<rparr>]\<rparr>)"
proof -
  let ?n = "length (ob_samples ob)"
  have l: "length (ob_threads_samples ob) = ?n" "length (ob_freq_samples ob) = ?n" "3 \<le> ?n" using assms by (auto simp: samples_ok_def)
  obtain ts fs xs where "oldest_three ?n (ob_threads_samples ob) = Some ts" "oldest_three ?n (ob_freq_samples ob) = Some fs"
    "oldest_three ?n (ob_samples ob) = Some xs"
    using oldest_three_total [OF l(1,3)] oldest_three_total [OF l(2,3)] oldest_three_total [OF refl l(3)] by blast
  then show ?thesis by (auto simp: init_objective_def Let_def)
qed

lemma off_leeway_total:
  "\<forall>ob \<in> set obs. samples_ok m ob \<Longrightarrow> 3 \<le> m \<Longrightarrow> \<exists>r. off_leeway N obs = Some r"
proof (induction obs)
  case (Cons ob obs)
  have l: "0 < length (ob_samples ob)" "1 < length (ob_samples ob)" using Cons.prems by (auto simp: samples_ok_def)
  then show ?case using Cons by simp
qed simp

lemma finish_objective_ok:
  assumes "lo_ok m lo" and "idx = current_objective_idx lo" and "idx < length (lo_objectives lo)" and "nm_ok nmd"
    and "2 \<le> lo_steps lo"
  shows "lo_ok m (finish_objective idx (lo\<lparr>lo_nmd := nmd\<rparr>))"
    and "steps_left (finish_objective idx (lo\<lparr>lo_nmd := nmd\<rparr>)) < steps_left lo"
proof -
  define obs where "obs = (lo_objectives lo)[idx := (lo_objectives lo ! idx)\<lparr>ob_converged := True, ob_converged_minimum := nm_min nmd,
      ob_minimization_params := [getMinVertices nmd ! 0, getMinVertices nmd ! 1]\<rparr>]"
  have l: "length obs = length (lo_objectives lo)" "obs \<noteq> []" using assms(1) by (auto simp: obs_def lo_ok_def)
  have "finish_objective idx (lo\<lparr>lo_nmd := nmd\<rparr>) = lo\<lparr>lo_nmd := nmd, lo_objectives := obs,
      current_objective_idx := Suc idx, lo_converged := (Suc idx = length obs \<or> lo_converged lo)\<rparr>"
    by (cases lo) (simp add: finish_objective_def obs_def assms(2) Let_def)
  moreover have "\<not> lo_converged lo" using assms(1-3) by (simp add: lo_ok_def)
  ultimately have f: "finish_objective idx (lo\<lparr>lo_nmd := nmd\<rparr>) = lo\<lparr>lo_nmd := nmd, lo_objectives := obs,
      current_objective_idx := Suc idx, lo_converged := (Suc idx = length obs)\<rparr>" by simp
  have init: "\<not> ob_initialized (obs ! j)" if "j < length obs" "idx < j" for j
    using assms(1,2) that l(1) by (simp add: obs_def lo_ok_def)
  have "samples_ok m ((lo_objectives lo ! idx)\<lparr>ob_converged := True, ob_converged_minimum := nm_min nmd,
      ob_minimization_params := [getMinVertices nmd ! 0, getMinVertices nmd ! 1]\<rparr>)"
    using assms(1,3) by (auto simp: lo_ok_def samples_ok_def)
  then have "\<forall>ob \<in> set obs. samples_ok m ob"
    using assms(1) unfolding obs_def lo_ok_def by (auto dest!: set_update_subset_insert [THEN subsetD])
  then show "lo_ok m (finish_objective idx (lo\<lparr>lo_nmd := nmd\<rparr>))"
    using assms l init unfolding f lo_ok_def by auto
  have "1 \<le> (if ob_initialized (lo_objectives lo ! idx) then calls_left (lo_nmd lo) - 2 else 48)"
    using assms(1-3) by (auto simp: lo_ok_def)
  then show "steps_left (finish_objective idx (lo\<lparr>lo_nmd := nmd\<rparr>)) < steps_left lo"
    using assms(2,3,5) l(1) init [of "Suc idx"] unfolding f steps_left_def objectives_left_def by auto
qed

lemma initialized_objective:
  assumes ok: "lo_ok m lo" and i: "current_objective_idx lo < length (lo_objectives lo)" and m: "3 \<le> m"
  shows "\<exists>lo1. ensure_initialized N past clobber (current_objective_idx lo) (lo_objectives lo ! current_objective_idx lo) lo = Some lo1 \<and>
    lo_ok m lo1 \<and> steps_left lo1 \<le> steps_left lo \<and> lo_steps lo1 = lo_steps lo \<and> current_objective_idx lo1 = current_objective_idx lo \<and>
    length (lo_objectives lo1) = length (lo_objectives lo) \<and> ob_initialized (lo_objectives lo1 ! current_objective_idx lo)"
proof (cases "ob_initialized (lo_objectives lo ! current_objective_idx lo)")
  case False
  let ?i = "current_objective_idx lo" and ?ob = "lo_objectives lo ! current_objective_idx lo"
  have ob: "samples_ok m ?ob" using ok i by (simp add: lo_ok_def)
  obtain ps xs clo chi where init: "init_objective N past clobber ?i ?ob lo =
      Some (lo\<lparr>lo_nmd := initialize_simplex ps xs clo chi past (lo_nmd lo), param_changes := clobber,
        lo_objectives := (lo_objectives lo)[?i := ?ob\<lparr>ob_initialized := True\<rparr>]\<rparr>)" (is "_ = Some ?lo")
    using init_objective_total [OF ob m] by blast
  have c: "3 \<le> calls_left (initialize_simplex ps xs clo chi past (lo_nmd lo))"
    by (simp add: calls_left_def initialize_simplex_def)
  have "\<forall>x \<in> set ((lo_objectives lo)[?i := ?ob\<lparr>ob_initialized := True\<rparr>]). samples_ok m x"
    using ok ob unfolding lo_ok_def by (auto simp: samples_ok_def dest!: set_update_subset_insert [THEN subsetD])
  then have "lo_ok m ?lo" using ok c i initialize_simplex_ok [of "lo_nmd lo"] unfolding lo_ok_def by (simp add: nth_list_update)
  moreover have "steps_left ?lo \<le> steps_left lo"
    using False i initialize_simplex_calls [of ps xs clo chi past "lo_nmd lo"] by (simp add: steps_left_def objectives_left_def)
  ultimately show ?thesis using init False i by (simp add: ensure_initialized_def)
qed (use ok in \<open>simp add: ensure_initialized_def\<close>)

lemma allscale_step_ok:
  assumes ok: "lo_ok m lo" and nc: "\<not> lo_converged lo" and m: "3 \<le> m" and st: "2 \<le> lo_steps lo"
  shows "\<exists>act' lo'. allscale_step N past clobber act lo = Some (act', lo') \<and> lo_ok m lo' \<and> steps_left lo' < steps_left lo \<and>
    lo_steps lo' = lo_steps lo"
proof -
  let ?i = "current_objective_idx lo"
  have i: "?i < length (lo_objectives lo)" using ok nc by (auto simp: lo_ok_def)
  obtain lo1 where lo1: "ensure_initialized N past clobber ?i (lo_objectives lo ! ?i) lo = Some lo1"
    "lo_ok m lo1" "steps_left lo1 \<le> steps_left lo" "lo_steps lo1 = lo_steps lo" "current_objective_idx lo1 = ?i"
    "length (lo_objectives lo1) = length (lo_objectives lo)" "ob_initialized (lo_objectives lo1 ! ?i)"
    using initialized_objective [OF ok i m] by blast
  have "samples_ok m (lo_objectives lo ! ?i)" using ok i by (simp add: lo_ok_def)
  then have x: "0 < length (ob_samples (lo_objectives lo ! ?i))" using m by (auto simp: samples_ok_def)
  let ?x = "ob_samples (lo_objectives lo ! ?i) ! 0"
  have nm1: "nm_ok (lo_nmd lo1)" using lo1(2) by (simp add: lo_ok_def)
  obtain res nmd where s: "nm_step N ?x (lo_nmd lo1) = Some (res, nmd)" "nm_ok nmd" using nm_step_total [OF nm1] by blast
  have fin: "lo_ok m (finish_objective ?i (lo1\<lparr>lo_nmd := nmd\<rparr>))" "steps_left (finish_objective ?i (lo1\<lparr>lo_nmd := nmd\<rparr>)) < steps_left lo"
    "lo_steps (finish_objective ?i (lo1\<lparr>lo_nmd := nmd\<rparr>)) = lo_steps lo"
    using finish_objective_ok [OF lo1(2), of ?i nmd] lo1 s(2) st i by (simp_all add: finish_objective_def Let_def)
  show ?thesis
  proof (cases "r_converged res")
    case True
    then show ?thesis using fin s(1) lo1(1) i x by (simp add: allscale_step_def Let_def)
  next
    case False
    have c: "calls_left nmd < calls_left (lo_nmd lo1)" "3 \<le> calls_left nmd" using nm_step_calls [OF nm1 s(1) False] by blast+
    then have "objectives_left (lo1\<lparr>lo_nmd := nmd\<rparr>) < objectives_left lo1"
      using i by (simp add: objectives_left_def lo1(5-7)) 
    then have "steps_left (lo1\<lparr>lo_nmd := nmd\<rparr>) < steps_left lo1" by (simp add: steps_left_def)
    moreover have "lo_ok m (lo1\<lparr>lo_nmd := nmd\<rparr>)" using lo1(2) s(2) c(2) by (simp add: lo_ok_def)
    ultimately have go: "lo_ok m (lo1\<lparr>lo_nmd := nmd\<rparr>)" "steps_left (lo1\<lparr>lo_nmd := nmd\<rparr>) < steps_left lo" using lo1(3) by simp_all
    have "\<forall>ob \<in> set (take ?i (lo_objectives lo1)). samples_ok m ob" using lo1(2) by (auto simp: lo_ok_def dest: in_set_takeD)
    then obtain r where r: "off_leeway N (take ?i (lo_objectives lo1)) = Some r" using off_leeway_total m by blast
    show ?thesis
    proof (cases r)
      case None
      then show ?thesis using r go s(1) lo1(1,4) i x False by (simp add: allscale_step_def Let_def)
    next
      case (Some p)
      then show ?thesis using r fin s(1) lo1(1) i x False by (simp add: allscale_step_def Let_def)
    qed
  qed
qed

lemma lo_step_ok:
  assumes ok: "lo_ok m lo" and nc: "\<not> lo_converged lo" and m: "lo_steps lo < m"
  shows "\<exists>act lo' i'. lo_step N rs past clobber lo i = Some (act, lo', i') \<and> lo_ok m lo' \<and> steps_left lo' < steps_left lo \<and>
    lo_steps lo' = Suc (lo_steps lo)"
proof -
  let ?lo = "lo\<lparr>lo_steps := Suc (lo_steps lo)\<rparr>"
  have ok': "lo_ok m ?lo" "\<not> lo_converged ?lo" using ok nc by (simp_all add: lo_ok_def)
  have base: "optmethod lo = Allscale" "unat (max_threads lo) \<noteq> 0" "frequencies_allowed lo \<noteq> []"
    "current_objective_idx lo < length (lo_objectives lo)"
    using ok nc by (auto simp: lo_ok_def unat_eq_0)
  show ?thesis
  proof (cases "Suc (lo_steps lo) < warmup_steps")
    case True
    moreover have "objectives_left ?lo = objectives_left lo" by (simp add: objectives_left_def)
    ultimately have "steps_left ?lo < steps_left lo" by (simp add: steps_left_def warmup_steps_def)
    then show ?thesis using \<open>Suc (lo_steps lo) < warmup_steps\<close> base ok' by (simp add: lo_step_def Let_def rand_mod_def)
  next
    case False
    moreover have "objectives_left ?lo = objectives_left lo" by (simp add: objectives_left_def)
    ultimately have st: "2 \<le> lo_steps ?lo" "3 \<le> m" "steps_left ?lo \<le> steps_left lo"
      using m by (simp_all add: warmup_steps_def steps_left_def)
    from allscale_step_ok [OF ok' st(2,1), of N past clobber] obtain act' lo' where
      "allscale_step N past clobber \<lparr>delta_threads = word_of_int (threads_param lo), frequency_idx = frequency_param lo\<rparr> ?lo = Some (act', lo')"
      "lo_ok m lo'" "steps_left lo' < steps_left ?lo" "lo_steps lo' = Suc (lo_steps lo)" by fastforce
    then show ?thesis using False base st(3) by (simp add: lo_step_def Let_def)
  qed
qed

section \<open>The invariant of optimize\_locally\<close>

text \<open>Between the calls: m measurements and k steps of the local optimizer were made, now is the time of the last call.
  Before every step there was a measurement.\<close>

definition optimizing_inv :: "nat \<Rightarrow> nat \<Rightarrow> int \<Rightarrow> 'f optimizing \<Rightarrow> bool" where
  "optimizing_inv most calls now op \<longleftrightarrow> (\<exists>m. lo_ok m (op_lopt op) \<and> lo_steps (op_lopt op) = nr_opt_steps op \<and> nr_opt_steps op \<le> m \<and>
     (m = nr_opt_steps op \<longrightarrow> last_measurement op \<le> last_optimization op)) \<and>
     nr_opt_steps op + steps_left (op_lopt op) \<le> most \<and> unat (last_power_usage op) \<le> calls \<and>
     last_measurement op \<le> now \<and> last_optimization op \<le> now"

lemma parameter_updates:
  "lo_ok m (lo\<lparr>threads_param := t\<rparr>) = lo_ok m lo" "lo_ok m (lo\<lparr>frequency_param := f\<rparr>) = lo_ok m lo"
  "steps_left (lo\<lparr>threads_param := t\<rparr>) = steps_left lo" "steps_left (lo\<lparr>frequency_param := f\<rparr>) = steps_left lo"
  "optimizing_inv most calls now (op\<lparr>hw_frequency_idx := k\<rparr>) = optimizing_inv most calls now op"
  by (simp_all add: lo_ok_def steps_left_def objectives_left_def optimizing_inv_def)

lemma update_power_sel:
  "op_lopt (update_power_consumption x op) = op_lopt op" "op_uselopt (update_power_consumption x op) = op_uselopt op"
  "last_measurement (update_power_consumption x op) = last_measurement op"
  "last_optimization (update_power_consumption x op) = last_optimization op"
  "last_power_usage (update_power_consumption x op) = last_power_usage op"
  "power_sum (update_power_consumption x op) = power_sum op" "nr_opt_steps (update_power_consumption x op) = nr_opt_steps op"
  by (simp_all add: update_power_consumption_def Let_def)

lemma optimizing_inv_power: "optimizing_inv n c t (update_power_consumption x op) = optimizing_inv n c t op"
  by (simp add: optimizing_inv_def update_power_sel)

lemma optimize_now_ok:
  assumes ok: "lo_ok m (op_lopt op)" and nc: "\<not> lo_converged (op_lopt op)" and st: "lo_steps (op_lopt op) = nr_opt_steps op"
    and m: "nr_opt_steps op < m" and tot: "nr_opt_steps op + steps_left (op_lopt op) \<le> most"
    and c: "unat (last_power_usage op) \<le> calls" and t: "last_measurement op \<le> oc_now call"
  shows "\<exists>op' i'. optimize_now N rs call op i = Some (op', i') \<and> optimizing_inv most calls (oc_now call) op'"
proof -
  obtain act lo' i' where s: "lo_step N rs (oc_past call) (oc_clobber call) (op_lopt op) i = Some (act, lo', i')" "lo_ok m lo'"
    "steps_left lo' < steps_left (op_lopt op)" "lo_steps lo' = Suc (lo_steps (op_lopt op))"
    using lo_step_ok [OF ok nc, of N rs "oc_past call" "oc_clobber call" i] st m by auto
  have inv: "optimizing_inv most calls (oc_now call) (op\<lparr>last_optimization := oc_now call, nr_opt_steps := nr_opt_steps op + 1, op_lopt := lo\<rparr>)"
    if "lo_ok m lo" "lo_steps lo = lo_steps lo'" "steps_left lo = steps_left lo'" for lo
    using that s st m tot c t by (auto simp: optimizing_inv_def)
  let ?op = "op\<lparr>last_optimization := oc_now call, nr_opt_steps := nr_opt_steps op + 1, op_lopt := lo'\<rparr>"
  let ?op' = "if ucast (delta_threads act) < active_threads op
    then ?op\<lparr>op_lopt := lo'\<lparr>threads_param := sint (ucast (active_threads op) :: uint32_t)\<rparr>\<rparr>
    else if active_threads op < ucast (delta_threads act)
      then (?op\<lparr>op_lopt := lo'\<lparr>frequency_param := frequency_idx act\<rparr>\<rparr>)
        \<lparr>hw_frequency_idx := clamp_frequency_idx (length (frequencies_allowed lo')) (frequency_idx act)\<rparr>
    else ?op"
  have "optimize_now N rs call op i = Some (?op', i')" using s(1) by (simp add: optimize_now_def Let_def)
  moreover have "optimizing_inv most calls (oc_now call) ?op'"
    using inv [of lo'] inv [of "lo'\<lparr>threads_param := sint (ucast (active_threads op) :: uint32_t)\<rparr>"]
      inv [of "lo'\<lparr>frequency_param := frequency_idx act\<rparr>"] s(2)
    by (simp add: parameter_updates)
  ultimately show ?thesis by blast
qed

lemma optimize_locally_ok:
  assumes inv: "optimizing_inv most calls now op" and t: "now \<le> oc_now call" and c: "Suc calls < 2 ^ 64"
  shows "\<exists>op' i'. optimize_locally N rs call (op, i) = Some (op', i') \<and> optimizing_inv most (Suc calls) (oc_now call) op'"
proof -
  let ?p = "sample_power call op"
  have p: "optimizing_inv most calls now ?p" using inv by (simp add: sample_power_def optimizing_inv_power)
  then obtain m where m: "lo_ok m (op_lopt ?p)" "lo_steps (op_lopt ?p) = nr_opt_steps ?p" "nr_opt_steps ?p \<le> m"
    "m = nr_opt_steps ?p \<longrightarrow> last_measurement ?p \<le> last_optimization ?p" and r: "nr_opt_steps ?p + steps_left (op_lopt ?p) \<le> most"
    "unat (last_power_usage ?p) \<le> calls" "last_measurement ?p \<le> now" "last_optimization ?p \<le> now"
    unfolding optimizing_inv_def by blast
  show ?thesis
  proof (cases "op_uselopt ?p \<and> \<not> lo_converged (op_lopt ?p)")
    case False
    then have "optimize_locally N rs call (op, i) = Some (?p, i)" by (auto simp: optimize_locally_def Let_def)
    then show ?thesis using m r t unfolding optimizing_inv_def by fastforce
  next
    case True
    let ?q = "?p\<lparr>last_power_usage := last_power_usage ?p + 1, power_sum := power_sum ?p + oc_watts call\<rparr>"
    have u: "unat (last_power_usage ?p + 1) = unat (last_power_usage ?p) + 1"
      using r(2) c by (intro unat_plus_one) simp
    then have nz: "last_power_usage ?p + 1 \<noteq> 0" by (metis unat_0 add_is_0 one_neq_zero)
    define q where "q = (if objective_measurement_period_ms < oc_now call - last_measurement ?p then the (measure_now N call ?q) else ?q)"
    have mq: "(if objective_measurement_period_ms < oc_now call - last_measurement ?q then measure_now N call ?q else Some ?q) = Some q"
      using nz by (simp add: q_def measure_now_def)
    have qs: "lo_steps (op_lopt q) = nr_opt_steps q" "nr_opt_steps q = nr_opt_steps ?p" "steps_left (op_lopt q) = steps_left (op_lopt ?p)"
      "unat (last_power_usage q) \<le> Suc calls" "last_measurement q \<le> oc_now call" "last_optimization q = last_optimization ?p"
      "lo_converged (op_lopt q) = lo_converged (op_lopt ?p)"
      using m(1,2) r u t nz by (auto simp: q_def measure_now_def measureObjective_ok)
    have step: "optimize_locally N rs call (op, i) =
        (if optimization_period_ms < oc_now call - last_optimization q then optimize_now N rs call q i else Some (q, i))"
      using True mq by (simp add: optimize_locally_def use_lopt_def Let_def)
    show ?thesis
    proof (cases "objective_measurement_period_ms < oc_now call - last_measurement ?p")
      case meas: True
      then have ok: "lo_ok (Suc m) (op_lopt q)" using m(1) nz by (simp add: q_def measure_now_def measureObjective_ok)
      show ?thesis
      proof (cases "optimization_period_ms < oc_now call - last_optimization q")
        case True
        then show ?thesis
          using optimize_now_ok [OF ok, of most "Suc calls" call N rs i] qs m(3) r(1) \<open>op_uselopt ?p \<and> _\<close> step by simp
      next
        case False
        have "optimizing_inv most (Suc calls) (oc_now call) q"
          unfolding optimizing_inv_def using ok qs m(3) r t by (intro conjI exI [of _ "Suc m"]) auto
        then show ?thesis using False step by simp
      qed
    next
      case meas: False
      then have ok: "lo_ok m (op_lopt q)" and lm: "last_measurement q = last_measurement ?p" using m(1) by (simp_all add: q_def)
      show ?thesis
      proof (cases "optimization_period_ms < oc_now call - last_optimization q")
        case True
        then have "last_optimization ?p < last_measurement ?p"
          using meas qs(6) by (simp add: optimization_period_ms_def objective_measurement_period_ms_def)
        then have "nr_opt_steps q < m" using m(3,4) qs(2) by (cases "m = nr_opt_steps ?p") auto
        then show ?thesis
          using optimize_now_ok [OF ok, of most "Suc calls" call N rs i] qs r(1) \<open>op_uselopt ?p \<and> _\<close> step True by simp
      next
        case False
        have "optimizing_inv most (Suc calls) (oc_now call) q"
          unfolding optimizing_inv_def using ok qs m(3,4) r t lm by (intro conjI exI [of _ m]) auto
        then show ?thesis using False step by simp
      qed
    qed
  qed
qed

section \<open>The set-up\<close>

lemma place_objectives_spec:
  "\<forall>t \<in> set ts. ob_priority t < length obs \<Longrightarrow> \<exists>obs'. place_objectives N ts obs = Some obs' \<and> length obs' = length obs \<and>
     (\<forall>j. j \<notin> ob_priority ` set ts \<longrightarrow> obs' ! j = obs ! j) \<and>
     (distinct (map ob_priority ts) \<longrightarrow> (\<forall>t \<in> set ts. obs' ! ob_priority t = fresh_bounds N t))"
proof (induction ts arbitrary: obs)
  case (Cons t ts)
  let ?obs = "obs[ob_priority t := fresh_bounds N t]"
  obtain obs' where o: "place_objectives N ts ?obs = Some obs'" "length obs' = length ?obs"
    "\<forall>j. j \<notin> ob_priority ` set ts \<longrightarrow> obs' ! j = ?obs ! j"
    "distinct (map ob_priority ts) \<longrightarrow> (\<forall>t \<in> set ts. obs' ! ob_priority t = fresh_bounds N t)"
    using Cons.IH [of ?obs] Cons.prems by auto
  then show ?case using Cons.prems by auto
qed simp

lemma takeWhile_distinct:
  "distinct xs \<Longrightarrow> i < length xs \<Longrightarrow> length (takeWhile (\<lambda>x. x \<noteq> xs ! i) xs) = i"
proof (induction xs arbitrary: i)
  case (Cons x xs)
  then show ?case by (cases i) auto
qed simp

lemma parse_words_priorities:
  "parse_words N stod ws oo = Inr oo' \<Longrightarrow>
   \<exists>tys. oo_priorities oo' = oo_priorities oo @ tys \<and> map (\<lambda>w. objective_named (word_name w)) ws = map Some tys"
proof (induction ws arbitrary: oo)
  case (Cons w ws)
  then obtain oo1 where o: "parse_word N stod w oo = Inr oo1" "parse_words N stod ws oo1 = Inr oo'"
    by (auto split: sum.splits)
  obtain tys where t: "oo_priorities oo' = oo_priorities oo1 @ tys" "map (\<lambda>w. objective_named (word_name w)) ws = map Some tys"
    using Cons.IH [OF o(2)] by blast
  obtain ty where "objective_named (word_name w) = Some ty" "oo_priorities oo1 = oo_priorities oo @ [ty]"
    using o(1) by (auto simp: parse_word_def Let_def split: option.splits if_splits objectiveType.splits)
  then show ?case using t by (intro exI [of _ "ty # tys"]) simp
qed simp

lemma requested_types:
  assumes "distinct (oo_priorities oo)"
  shows "length (filter (requested oo) [Energy, Time, Resource]) = length (oo_priorities oo)"
    and "set (filter (requested oo) [Energy, Time, Resource]) = set (oo_priorities oo)"
proof -
  have "ty \<in> set [Energy, Time, Resource]" for ty by (cases ty) auto
  then show s: "set (filter (requested oo) [Energy, Time, Resource]) = set (oo_priorities oo)"
    unfolding set_filter requested_def by blast
  have "distinct (filter (requested oo) [Energy, Time, Resource])" by simp
  then show "length (filter (requested oo) [Energy, Time, Resource]) = length (oo_priorities oo)"
    using s assms by (metis distinct_card)
qed

lemma new_objective_sel [simp]:
  "ob_type (new_objective N ty l p) = ty" "ob_leeway (new_objective N ty l p) = l" "ob_priority (new_objective N ty l p) = p"
  "ob_samples (new_objective N ty l p) = []" "ob_threads_samples (new_objective N ty l p) = []"
  "ob_freq_samples (new_objective N ty l p) = []"
  by (simp_all add: new_objective_def Let_def)

lemma fresh_bounds_sel [simp]:
  "ob_type (fresh_bounds N ob) = ob_type ob" "ob_leeway (fresh_bounds N ob) = ob_leeway ob"
  "ob_initialized (fresh_bounds N ob) = False" "samples_ok m (fresh_bounds N ob) = samples_ok m ob"
  by (simp_all add: fresh_bounds_def samples_ok_def)

lemma setobjectives_places:
  assumes d: "distinct (oo_priorities oo)"
  shows "\<exists>obs. setobjectives N (objective_targets N oo) lo =
      Some (lo\<lparr>lo_objectives := obs, lo_steps := 0, param_changes := 0, frequency_param := 0, lo_converged := False\<rparr>) \<and>
    length obs = length (oo_priorities oo) \<and>
    (\<forall>i < length obs. obs ! i = fresh_bounds N (new_objective N (oo_priorities oo ! i) (leeway_of oo (oo_priorities oo ! i)) i))"
proof -
  let ?ts = "objective_targets N oo" and ?p = "oo_priorities oo"
  let ?tys = "filter (requested oo) [Energy, Time, Resource]"
  have len: "length ?ts = length ?p" using requested_types(1) [OF d] unfolding objective_targets_def length_map .
  have fi: "first_index oo (?p ! i) = i" if "i < length ?p" for i
    unfolding first_index_def using takeWhile_distinct [OF d that] .
  have fm: "\<exists>i < length ?p. ty = ?p ! i \<and> first_index oo ty = i" if "ty \<in> set ?p" for ty
    using that fi by (metis in_set_conv_nth)
  have prio: "map ob_priority ?ts = map (first_index oo) ?tys" by (simp add: objective_targets_def comp_def)
  have "inj_on (first_index oo) (set ?tys)" unfolding requested_types(2) [OF d] by (rule inj_onI) (metis fm)
  then have dist: "distinct (map ob_priority ?ts)" unfolding prio by (simp add: distinct_map)
  have ts: "t \<in> set ?ts \<longleftrightarrow> (\<exists>i < length ?p. t = new_objective N (?p ! i) (leeway_of oo (?p ! i)) i)" for t
  proof -
    have "set ?ts = (\<lambda>ty. new_objective N ty (leeway_of oo ty) (first_index oo ty)) ` set ?p"
      unfolding objective_targets_def set_map requested_types(2) [OF d] ..
    also have "\<dots> = (\<lambda>i. new_objective N (?p ! i) (leeway_of oo (?p ! i)) i) ` {..<length ?p}"
      unfolding set_conv_nth using fi by (fastforce simp: image_iff)
    finally show ?thesis by auto
  qed
  let ?blank = "replicate (length ?ts) (new_objective N Time (fof_int (fp N) 0) 0)"
  have "\<forall>t \<in> set ?ts. ob_priority t < length ?blank" using ts len by auto
  from place_objectives_spec [OF this, of N] obtain obs where o: "place_objectives N ?ts ?blank = Some obs" "length obs = length ?p"
    "\<forall>t \<in> set ?ts. obs ! ob_priority t = fresh_bounds N t" using dist len by auto
  have "obs ! i = fresh_bounds N (new_objective N (?p ! i) (leeway_of oo (?p ! i)) i)" if "i < length obs" for i
  proof -
    have "new_objective N (?p ! i) (leeway_of oo (?p ! i)) i \<in> set ?ts" unfolding ts using that o(2) by auto
    then show ?thesis using o(3) by fastforce
  qed
  then show ?thesis using o(1,2) by (intro exI [of _ obs]) (simp add: setobjectives_def)
qed

lemma init_optimizer_Inr:
  assumes p: "parse_words N stod ws (no_options N) = Inr oo" and d: "distinct (oo_priorities oo)" and f: "freqs \<noteq> []"
  shows "\<exists>lo'. init_optimizer N stod ws n freqs lo = Inr lo' \<and> length (lo_objectives lo') = length (oo_priorities oo) \<and>
    (\<forall>i < length (lo_objectives lo'). lo_objectives lo' ! i =
       fresh_bounds N (new_objective N (oo_priorities oo ! i) (leeway_of oo (oo_priorities oo ! i)) i)) \<and>
    optmethod lo' = optmethod lo \<and> lo_nmd lo' = lo_nmd lo \<and> max_threads lo' = n \<and> frequencies_allowed lo' = freqs \<and>
    current_objective_idx lo' = 0 \<and> lo_steps lo' = 0 \<and> \<not> lo_converged lo'"
proof -
  obtain obs where "setobjectives N (objective_targets N oo) lo =
      Some (lo\<lparr>lo_objectives := obs, lo_steps := 0, param_changes := 0, frequency_param := 0, lo_converged := False\<rparr>)"
    "length obs = length (oo_priorities oo)"
    "\<forall>i < length obs. obs ! i = fresh_bounds N (new_objective N (oo_priorities oo ! i) (leeway_of oo (oo_priorities oo ! i)) i)"
    using setobjectives_places [OF d, of N lo] by blast
  then show ?thesis using p f by (simp add: init_optimizer_def lo_reset_def setmaxthreads_def Let_def)
qed

lemma init_optimizer_ok:
  assumes p: "parse_words N stod ws (no_options N) = Inr oo" and d: "distinct (oo_priorities oo)" and f: "freqs \<noteq> []" and n: "n \<noteq> 0"
    and w: "ws \<noteq> []" and lo: "optmethod lo = Allscale" "nm_ok (lo_nmd lo)"
  shows "\<exists>lo'. init_optimizer N stod ws n freqs lo = Inr lo' \<and> lo_ok 0 lo' \<and> steps_left lo' = 2 + 48 * length ws \<and> lo_steps lo' = 0 \<and>
    \<not> lo_converged lo'"
proof -
  obtain tys where t: "oo_priorities oo = tys" "map (\<lambda>w. objective_named (word_name w)) ws = map Some tys"
    using parse_words_priorities [OF p] by (auto simp: no_options_def)
  have len: "length (oo_priorities oo) = length ws" using arg_cong [OF t(2), of length] t(1) by simp
  obtain lo' where l: "init_optimizer N stod ws n freqs lo = Inr lo'" "length (lo_objectives lo') = length ws"
    "\<forall>i < length ws. lo_objectives lo' ! i =
       fresh_bounds N (new_objective N (oo_priorities oo ! i) (leeway_of oo (oo_priorities oo ! i)) i)"
    "optmethod lo' = optmethod lo" "lo_nmd lo' = lo_nmd lo" "max_threads lo' = n" "frequencies_allowed lo' = freqs"
    "current_objective_idx lo' = 0" "lo_steps lo' = 0" "\<not> lo_converged lo'"
    using init_optimizer_Inr [OF p d f, of n lo] len by auto
  have s: "samples_ok 0 ob" if mem: "ob \<in> set (lo_objectives lo')" for ob
  proof -
    obtain i where "i < length ws" "ob = lo_objectives lo' ! i" using mem unfolding in_set_conv_nth l(2) by blast
    moreover have "samples_ok 0 (new_objective N ty lw j)" for ty lw j by (simp add: samples_ok_def)
    ultimately show ?thesis using l(3) by simp
  qed
  have i: "\<not> ob_initialized (lo_objectives lo' ! j)" if "j < length ws" for j using l(3) that by simp
  have ne: "lo_objectives lo' \<noteq> []" using l(2) w by auto
  have "lo_ok 0 lo'" using l lo n f s i ne w by (auto simp: lo_ok_def)
  moreover have "steps_left lo' = 2 + 48 * length ws"
    using l(2,8,9) w i [of 0] by (cases ws) (simp_all add: steps_left_def objectives_left_def)
  ultimately show ?thesis using l(1,9,10) by blast
qed

fun run_calls :: "'f nm_fpu \<Rightarrow> (nat \<Rightarrow> nat) \<Rightarrow> 'f optimize_call list \<Rightarrow> 'f optimizing \<times> nat \<Rightarrow> ('f optimizing \<times> nat) option" where
  "run_calls N rs [] s = Some s"
| "run_calls N rs (c # cs) s = do {
    s \<leftarrow> optimize_locally N rs c s;
    run_calls N rs cs s}"

lemma run_calls_ok:
  assumes "optimizing_inv most calls now op" and "sorted_wrt (\<le>) (now # map oc_now cs)" and "calls + length cs < 2 ^ 64"
  shows "\<exists>op' i' now'. run_calls N rs cs (op, i) = Some (op', i') \<and> optimizing_inv most (calls + length cs) now' op'"
  using assms
proof (induction cs arbitrary: calls now op i)
  case (Cons c cs)
  obtain op1 i1 where o: "optimize_locally N rs c (op, i) = Some (op1, i1)" "optimizing_inv most (Suc calls) (oc_now c) op1"
    using optimize_locally_ok [OF Cons.prems(1), of c N rs i] Cons.prems(2,3) by auto
  have "\<exists>op' i' now'. run_calls N rs cs (op1, i1) = Some (op', i') \<and> optimizing_inv most (Suc calls + length cs) now' op'"
    by (rule Cons.IH [OF o(2)]) (use Cons.prems(2,3) in simp_all)
  then show ?case using o(1) by simp
qed auto

text \<open>The state of the scheduler component after init.\<close>

definition optimizing_started :: "int \<Rightarrow> 'f localoptimizer \<Rightarrow> 'f optimizing \<Rightarrow> bool" where
  "optimizing_started now lo op \<longleftrightarrow> op_lopt op = lo \<and> op_uselopt op \<and> nr_opt_steps op = 0 \<and> last_power_usage op = 0 \<and>
     last_measurement op = now \<and> last_optimization op = now"

section \<open>Properties\<close>

text \<open>When the user asks for different objectives, init puts the i-th one of the configuration entry at index i of
  the local optimizer, with its leeway: the order in which they are written is their priority.\<close>

theorem objectives_by_priority:
  assumes "parse_words N stod ws (no_options N) = Inr oo" and "distinct (oo_priorities oo)" and "freqs \<noteq> []"
  shows "\<exists>lo'. init_optimizer N stod ws n freqs lo = Inr lo' \<and>
    map (\<lambda>ob. Some (ob_type ob)) (lo_objectives lo') = map (\<lambda>w. objective_named (word_name w)) ws \<and>
    map ob_leeway (lo_objectives lo') = map (leeway_of oo) (oo_priorities oo) \<and> map ob_priority (lo_objectives lo') = [0..<length ws]"
proof -
  have t: "map (\<lambda>w. objective_named (word_name w)) ws = map Some (oo_priorities oo)"
    using parse_words_priorities [OF assms(1)] by (auto simp: no_options_def)
  then have len: "length (oo_priorities oo) = length ws" by (metis length_map)
  obtain lo' where l: "init_optimizer N stod ws n freqs lo = Inr lo'" "length (lo_objectives lo') = length (oo_priorities oo)"
    "\<forall>i < length (lo_objectives lo'). lo_objectives lo' ! i =
       fresh_bounds N (new_objective N (oo_priorities oo ! i) (leeway_of oo (oo_priorities oo ! i)) i)"
    using init_optimizer_Inr [OF assms, of n lo] by blast
  have "map (\<lambda>ob. Some (ob_type ob)) (lo_objectives lo') = map Some (oo_priorities oo)"
    "map ob_leeway (lo_objectives lo') = map (leeway_of oo) (oo_priorities oo)"
    by (rule nth_equalityI, simp add: l(2), simp add: l(2,3))+
  moreover have "map ob_priority (lo_objectives lo') = [0..<length ws]"
    by (rule nth_equalityI) (use l(2,3) len in \<open>simp_all add: fresh_bounds_def\<close>)
  ultimately show ?thesis using l(1) t by auto
qed

definition demo_lopt :: "rat localoptimizer" where
  "demo_lopt = \<lparr>lo_objectives = [], lo_nmd = demo_simplex, param_changes = 0, optmethod = Allscale, threads_param = 0,
     max_threads = 0, frequency_param = 0, frequencies_allowed = [], current_objective_idx = 0, lo_steps = 0, lo_converged = False\<rparr>"

theorem objectives_by_priority_witness:
  "\<exists>lo'. init_optimizer rat_nm (\<lambda>_. Some (1/2)) [''time:0.5'', ''energy''] 8 [2400, 1200] demo_lopt = Inr lo' \<and>
     map (\<lambda>ob. Some (ob_type ob)) (lo_objectives lo') = [Some Time, Some Energy] \<and> map ob_leeway (lo_objectives lo') = [1/2, 1]"
proof -
  have "\<exists>oo. parse_words rat_nm (\<lambda>_. Some (1/2)) [''time:0.5'', ''energy''] (no_options rat_nm) = Inr oo \<and>
      oo_priorities oo = [Time, Energy] \<and> map (leeway_of oo) (oo_priorities oo) = [1/2, 1]"
    by (simp add: parse_word_def no_options_def rat_nm_def word_name_def find_colon_def objective_named_def leeway_of_def Let_def)
  then show ?thesis
  proof (elim exE conjE)
    fix oo
    assume oo: "parse_words rat_nm (\<lambda>_. Some (1/2)) [''time:0.5'', ''energy''] (no_options rat_nm) = Inr oo"
      "oo_priorities oo = [Time, Energy]" "map (leeway_of oo) (oo_priorities oo) = [1/2, 1]"
    have "map (\<lambda>w. objective_named (word_name w)) [''time:0.5'', ''energy''] = [Some Time, Some Energy]"
      by (simp add: word_name_def find_colon_def objective_named_def)
    then show ?thesis using objectives_by_priority [OF oo(1), of "[2400, 1200]" 8 demo_lopt] oo(2,3) by auto
  qed
qed

text \<open>C16: Whatever is measured and whenever optimize\_locally is called, as long as the clock does not go back, it never
  reads a sample that is not there and never divides by zero: before every step of the local optimizer there was a
  measurement, and before every measurement a reading of the power.  With n different objectives the local
  optimizer has converged after at most 2 + 48 n steps, and is never called again.\<close>

theorem local_optimizer_runs:
  assumes "parse_words N stod ws (no_options N) = Inr oo" and "distinct (oo_priorities oo)" and "ws \<noteq> []"
    and "freqs \<noteq> []" and "threads \<noteq> 0" and "optmethod lo = Allscale" and "nm_ok (lo_nmd lo)"
    and "init_optimizer N stod ws threads freqs lo = Inr lo'" and "optimizing_started now lo' op"
    and "sorted_wrt (\<le>) (now # map oc_now calls)" and "length calls < 2 ^ 64"
  shows "\<exists>op' i'. run_calls N rs calls (op, i) = Some (op', i') \<and> nr_opt_steps op' \<le> 2 + 48 * length ws \<and>
    (nr_opt_steps op' = 2 + 48 * length ws \<longrightarrow> lo_converged (op_lopt op'))"
proof -
  have l: "lo_ok 0 lo'" "steps_left lo' = 2 + 48 * length ws" "lo_steps lo' = 0"
    using init_optimizer_ok [OF assms(1,2,4,5,3,6,7)] assms(8) by auto
  have "optimizing_inv (2 + 48 * length ws) 0 now op"
    using l assms(9) unfolding optimizing_inv_def optimizing_started_def by (intro conjI exI [of _ 0]) simp_all
  from run_calls_ok [OF this assms(10), of N rs i] assms(11) obtain op' i' now' where
    r: "run_calls N rs calls (op, i) = Some (op', i')" "optimizing_inv (2 + 48 * length ws) (length calls) now' op'" by auto
  then obtain m where m: "lo_ok m (op_lopt op')" "nr_opt_steps op' + steps_left (op_lopt op') \<le> 2 + 48 * length ws"
    unfolding optimizing_inv_def by blast
  have "lo_converged (op_lopt op')" if "steps_left (op_lopt op') = 0"
    using m(1) that by (fastforce simp: lo_ok_def steps_left_def objectives_left_def split: if_splits)
  then show ?thesis using r(1) m(2) by auto
qed

definition demo_optimizing :: "rat localoptimizer \<Rightarrow> rat optimizing" where
  "demo_optimizing lo = \<lparr>op_lopt = lo, op_uselopt = True, last_optimization = 0, last_measurement = 0, last_power_usage = 0,
     power_sum = 0, nr_opt_steps = 0, active_threads = 8, hw_frequency_idx = 0, meas_power_sum = 0, meas_power_count = 0,
     meas_power_min = 0, meas_power_max = 0\<rparr>"

definition demo_call :: "int \<Rightarrow> rat optimize_call" where
  "demo_call t = \<lparr>oc_id = word_of_int t, oc_now = t, oc_watts = 90, oc_avg = of_int (t mod 7) + 1, oc_isnan = False, oc_past = 0, oc_clobber = 0\<rparr>"

theorem local_optimizer_runs_witness:
  "\<exists>op' i'. run_calls rat_nm (\<lambda>i. i) (map demo_call [1, 6, 7, 13, 20, 30]) (demo_optimizing (case
       init_optimizer rat_nm (\<lambda>_. None) [''time''] 8 [2400, 1200] demo_lopt of Inr lo \<Rightarrow> lo | Inl _ \<Rightarrow> demo_lopt), 0) = Some (op', i') \<and>
     nr_opt_steps op' \<le> 50"
proof -
  let ?calls = "map demo_call [1, 6, 7, 13, 20, 30]"
  obtain oo where oo: "parse_words rat_nm (\<lambda>_. None) [''time''] (no_options rat_nm) = Inr oo" "oo_priorities oo = [Time]"
    by (simp add: parse_word_def no_options_def rat_nm_def word_name_def find_colon_def objective_named_def Let_def)
  have d: "optmethod demo_lopt = Allscale" "nm_ok (lo_nmd demo_lopt)" by (simp_all add: demo_lopt_def demo_simplex_ok)
  obtain lo' where lo: "init_optimizer rat_nm (\<lambda>_. None) [''time''] 8 [2400, 1200] demo_lopt = Inr lo'"
    using init_optimizer_Inr [OF oo(1), of "[2400, 1200]" 8 demo_lopt] oo(2) by auto
  have st: "optimizing_started 0 lo' (demo_optimizing lo')" by (simp add: optimizing_started_def demo_optimizing_def)
  have t: "sorted_wrt (\<le>) (0 # map oc_now ?calls)" by (simp add: demo_call_def)
  show ?thesis
    using local_optimizer_runs [OF oo(1) _ _ _ _ d lo st t, of "\<lambda>i. i" 0] oo(2) lo by auto
qed

section \<open>Where the local optimizer fails\<close>

text \<open>An objective that is named twice takes a priority of its own, but there is only one target for it: the target of
  a later objective is written behind the end of the vector.\<close>

lemma duplicate_objective:
  "init_optimizer rat_nm stod [''time'', ''time'', ''energy''] n freqs lo = Inl Out_of_bounds"
  by (simp add: init_optimizer_def parse_word_def no_options_def rat_nm_def word_name_def find_colon_def objective_named_def
      objective_targets_def requested_def first_index_def setobjectives_def Let_def)

text \<open>step can be called with an index that is one too large: the guard compares with > instead of >=.\<close>

lemma step_after_convergence:
  assumes "optmethod lo = Allscale" and "current_objective_idx lo = length (lo_objectives lo)" and "2 \<le> lo_steps lo"
  shows "lo_step N rs past clobber lo i = None"
  using assms by (simp add: lo_step_def Let_def warmup_steps_def allscale_step_def)

text \<open>The index - 1, which is to leave the frequency as it is, selects the first frequency.\<close>

lemma no_frequency_is_first: "0 < n \<Longrightarrow> clamp_frequency_idx n (- 1) = 0"
  by (simp add: clamp_frequency_idx_def Let_def)

end
