(* ===== verification/Monitor_Profiles.thy ===== *)
theory Monitor_Profiles
  imports Prelude
begin

text \<open>
  The profiles of the monitor: allscale/profile.hpp and, of src/components/monitor\_component.cpp, the wrappers that are
  called when a variant of a work item starts and finishes, the two queues, and the thread that processes the
  profiles (process\_profiles); stop ends that thread.

  The start and the finish of a work item may be signalled in either order: the first call makes the profile, the
  second one ends it and puts it into the queue for writing.  The thread exchanges the queues, empties the
  one for reading without a lock, and waits again.

  A profile is shared by the id of its work item, the queues and the map: it is the index of an element of the
  heap.  Times are points of the clock in nanoseconds.  A wrapper, a part of process\_profiles between two locks, and
  the call of stop is a step each; the waiting thread can wake up without being notified.
\<close>

section \<open>Profiles\<close>

record profile =
  pf_start :: int
  pf_end :: int
  result_ready :: int
  pf_wid :: string
  pf_parent_wid :: string
  pf_wname :: string

definition new_profile :: "int \<Rightarrow> string \<Rightarrow> string \<Rightarrow> string \<Rightarrow> profile" where
  "new_profile now i name parent = \<lparr>pf_start = now, pf_end = 0, result_ready = 0, pf_wid = i, pf_parent_wid = parent, pf_wname = name\<rparr>"

text \<open>The conversion of a duration to seconds.\<close>

definition seconds :: "'f farith \<Rightarrow> int \<Rightarrow> 'f" where
  "seconds F ns = fdiv F (fof_int F ns) (flit F 1000000000 1)"

definition profile_exclusive_time :: "'f farith \<Rightarrow> profile \<Rightarrow> 'f" where
  "profile_exclusive_time F p = seconds F (pf_end p - pf_start p)"

definition profile_exclusive_time_ns :: "profile \<Rightarrow> uint64_t" where
  "profile_exclusive_time_ns p = word_of_int (pf_end p - pf_start p)"

definition profile_inclusive_time :: "'f farith \<Rightarrow> profile \<Rightarrow> 'f" where
  "profile_inclusive_time F p = seconds F (result_ready p - pf_start p)"

section \<open>The state\<close>

text \<open>The thread has not begun, waits (and is notified or not), empties a queue, or has ended.\<close>

datatype worker_state = Starting | Waiting bool | Draining | Ended

text \<open>A work item as the wrappers see it: the object of its id, which holds the pointer to the profile, the id and
  that of its parent as strings, its name and its depth.\<close>

record observed_item =
  oi_obj :: nat
  oi_id :: string
  oi_parent :: string
  oi_name :: string
  oi_depth :: nat

record 'f monitoring =
  mn_heap :: "profile list"
  id_profile :: "nat \<Rightarrow> nat option"
  queues :: "nat \<Rightarrow> nat list"
  current_read_queue :: nat
  current_write_queue :: nat
  monitor_done :: bool
  worker :: worker_state
  profiles :: "(string \<times> nat) list"
  wi_dependencies :: "string \<Rightarrow> string list option"
  work_item_times :: "'f list"
  finished_tasks :: uint64_t
  weighted_sum :: 'f

definition min_queue_elems :: nat where
  "min_queue_elems = 500"

definition start_monitoring :: "'f farith \<Rightarrow> int \<Rightarrow> 'f monitoring" where
  "start_monitoring F now = \<lparr>mn_heap = [new_profile now ''0'' ''Main'' '' ''], id_profile = (\<lambda>_. None), queues = (\<lambda>_. []),
     current_read_queue = 0, current_write_queue = 0, monitor_done = False, worker = Starting, profiles = [(''0'', 0)],
     wi_dependencies = [''0'' \<mapsto> []], work_item_times = [], finished_tasks = 0, weighted_sum = fof_int F 0\<rparr>"

section \<open>The wrappers\<close>

definition notify_worker :: "'f monitoring \<Rightarrow> 'f monitoring" where
  "notify_worker m = (case worker m of Waiting _ \<Rightarrow> m\<lparr>worker := Waiting True\<rparr> | _ \<Rightarrow> m)"

definition push_profile :: "nat \<Rightarrow> 'f monitoring \<Rightarrow> 'f monitoring" where
  "push_profile p m =
    (let q = queues m (current_write_queue m) @ [p];
         m = m\<lparr>queues := (queues m)(current_write_queue m := q)\<rparr>
     in if min_queue_elems \<le> length q then notify_worker m else m)"

text \<open>The profile is made, or it is ended and one more task is finished.\<close>

definition exec_wrapper :: "int \<Rightarrow> observed_item \<Rightarrow> ('f monitoring \<Rightarrow> 'f monitoring) \<Rightarrow> 'f monitoring \<Rightarrow> 'f monitoring" where
  "exec_wrapper now w count m =
    (case id_profile m (oi_obj w) of
       None \<Rightarrow> m\<lparr>mn_heap := mn_heap m @ [new_profile now (oi_id w) (oi_name w) (oi_parent w)],
         id_profile := (id_profile m)(oi_obj w \<mapsto> length (mn_heap m))\<rparr>
     | Some p \<Rightarrow> count (push_profile p (m\<lparr>mn_heap := (mn_heap m)[p := (mn_heap m ! p)\<lparr>pf_end := now\<rparr>]\<rparr>)))"

definition count_task :: "'f monitoring \<Rightarrow> 'f monitoring" where
  "count_task m = m\<lparr>finished_tasks := finished_tasks m + 1\<rparr>"

definition count_process :: "'f farith \<Rightarrow> nat \<Rightarrow> 'f monitoring \<Rightarrow> 'f monitoring" where
  "count_process F depth m = (let m = count_task m
     in m\<lparr>weighted_sum := fadd F (weighted_sum m) (fdiv F (fof_int F 1) (fof_int F (2 ^ depth)))\<rparr>)"

definition w_exec_split_start :: "int \<Rightarrow> observed_item \<Rightarrow> 'f monitoring \<Rightarrow> 'f monitoring" where
  "w_exec_split_start now w m = exec_wrapper now w count_task m"

definition w_exec_process_start :: "'f farith \<Rightarrow> int \<Rightarrow> observed_item \<Rightarrow> 'f monitoring \<Rightarrow> 'f monitoring" where
  "w_exec_process_start F now w m = exec_wrapper now w (count_process F (oi_depth w)) m"

definition w_exec_split_finish :: "int \<Rightarrow> observed_item \<Rightarrow> 'f monitoring \<Rightarrow> 'f monitoring" where
  "w_exec_split_finish now w m = exec_wrapper now w count_task m"

definition w_exec_process_finish :: "'f farith \<Rightarrow> int \<Rightarrow> observed_item \<Rightarrow> 'f monitoring \<Rightarrow> 'f monitoring" where
  "w_exec_process_finish F now w m = exec_wrapper now w (count_process F (oi_depth w)) m"

section \<open>The thread that processes the profiles\<close>

definition map_insert :: "'k \<Rightarrow> 'v \<Rightarrow> ('k \<times> 'v) list \<Rightarrow> ('k \<times> 'v) list" where
  "map_insert k v xs = (if k \<in> fst ` set xs then xs else xs @ [(k, v)])"

definition add_dependency :: "string \<Rightarrow> string \<Rightarrow> (string \<Rightarrow> string list option) \<Rightarrow> (string \<Rightarrow> string list option)" where
  "add_dependency up i g = g(up \<mapsto> (case g up of None \<Rightarrow> [i] | Some is \<Rightarrow> is @ [i]))"

definition process_profile :: "'f farith \<Rightarrow> nat \<Rightarrow> 'f monitoring \<Rightarrow> 'f monitoring" where
  "process_profile F p m =
    (let pf = mn_heap m ! p
     in m\<lparr>wi_dependencies := add_dependency (pf_parent_wid pf) (pf_wid pf) (wi_dependencies m),
          profiles := map_insert (pf_wid pf) p (profiles m),
          work_item_times := work_item_times m @ [profile_exclusive_time F pf]\<rparr>)"

definition nothing_to_read :: "'f monitoring \<Rightarrow> bool" where
  "nothing_to_read m \<longleftrightarrow> queues m (current_read_queue m) = []"

definition front_profile :: "'f monitoring \<Rightarrow> nat" where
  "front_profile m = hd (queues m (current_read_queue m))"

definition pop_profile :: "'f monitoring \<Rightarrow> 'f monitoring" where
  "pop_profile m = m\<lparr>queues := (queues m)(current_read_queue m := tl (queues m (current_read_queue m)))\<rparr>"

text \<open>When the queue for reading is empty the other one is next; when the monitor is stopped, what is in it is processed
  under the lock of the queues.\<close>

definition end_of_queue :: "'f farith \<Rightarrow> 'f monitoring \<Rightarrow> 'f monitoring" where
  "end_of_queue F m =
    (if \<not> monitor_done m then m\<lparr>worker := Waiting False\<rparr>
     else (let m' = fold (process_profile F) (queues m (current_read_queue m)) m
           in m'\<lparr>queues := (queues m')(current_read_queue m := []), worker := Ended\<rparr>))"

definition process_profiles :: "'f farith \<Rightarrow> 'f monitoring \<Rightarrow> 'f monitoring option" where
  "process_profiles F m =
    (case worker m of
       Starting \<Rightarrow> Some (end_of_queue F m)
     | Waiting notified \<Rightarrow>
         if notified then Some (m\<lparr>current_write_queue := (current_write_queue m + 1) mod 2, worker := Draining\<rparr>) else None
     | Draining \<Rightarrow>
         if nothing_to_read m then Some (end_of_queue F (m\<lparr>current_read_queue := (current_read_queue m + 1) mod 2\<rparr>))
         else Some (pop_profile (process_profile F (front_profile m) m))
     | Ended \<Rightarrow> None)"

definition stop_monitor :: "'f monitoring \<Rightarrow> 'f monitoring" where
  "stop_monitor m = notify_worker (m\<lparr>monitor_done := True\<rparr>)"

section \<open>Runs\<close>

datatype mon_event = Split_start | Process_start | Split_finish | Process_finish

datatype mon_label = Observe mon_event int observed_item | Work | Wake | Stop | Sample

definition observe :: "'f farith \<Rightarrow> mon_event \<Rightarrow> int \<Rightarrow> observed_item \<Rightarrow> 'f monitoring \<Rightarrow> 'f monitoring" where
  "observe F e now w m = (case e of
     Split_start \<Rightarrow> w_exec_split_start now w m
   | Process_start \<Rightarrow> w_exec_process_start F now w m
   | Split_finish \<Rightarrow> w_exec_split_finish now w m
   | Process_finish \<Rightarrow> w_exec_process_finish F now w m)"

text \<open>Wake is a wakeup of the waiting thread that nobody asked for; Sample is what sample\_node does to the counters.\<close>

fun mon_step :: "'f farith \<Rightarrow> mon_label \<Rightarrow> 'f monitoring \<Rightarrow> 'f monitoring option" where
  "mon_step F (Observe e now w) m = Some (observe F e now w m)"
| "mon_step F Work m = process_profiles F m"
| "mon_step F Wake m = (case worker m of Waiting _ \<Rightarrow> Some (m\<lparr>worker := Waiting True\<rparr>) | _ \<Rightarrow> None)"
| "mon_step F Stop m = Some (stop_monitor m)"
| "mon_step F Sample m = Some (m\<lparr>finished_tasks := 0, weighted_sum := fof_int F 0\<rparr>)"

fun mon_run :: "'f farith \<Rightarrow> mon_label list \<Rightarrow> 'f monitoring \<Rightarrow> 'f monitoring option" where
  "mon_run F [] m = Some m"
| "mon_run F (l # ls) m = do {
     m \<leftarrow> mon_step F l m;
     mon_run F ls m}"

section \<open>What is recorded\<close>

text \<open>The completed work items of a sequence of calls, with the times of the first and of the second call, in the order of
  their completion; the first call of a work item opens it.\<close>

type_synonym opened = "nat \<Rightarrow> (observed_item \<times> int) option"

fun observed :: "mon_label list \<Rightarrow> opened \<Rightarrow> opened \<times> (observed_item \<times> int \<times> int) list" where
  "observed [] opn = (opn, [])"
| "observed (Observe e now w # ls) opn =
    (case opn (oi_obj w) of
       None \<Rightarrow> observed ls (opn(oi_obj w \<mapsto> (w, now)))
     | Some (w0, t0) \<Rightarrow> (let (opn', cs) = observed ls opn in (opn', (w0, t0, now) # cs)))"
| "observed (_ # ls) opn = observed ls opn"

definition completed :: "mon_label list \<Rightarrow> (observed_item \<times> int \<times> int) list" where
  "completed ls = snd (observed ls (\<lambda>_. None))"

definition opened_by :: "mon_label list \<Rightarrow> opened" where
  "opened_by ls = fst (observed ls (\<lambda>_. None))"

text \<open>Every work item is signalled twice at most.\<close>

fun observes :: "nat \<Rightarrow> mon_label \<Rightarrow> bool" where
  "observes x (Observe e now w) \<longleftrightarrow> oi_obj w = x"
| "observes x _ \<longleftrightarrow> False"

definition twice_at_most :: "mon_label list \<Rightarrow> bool" where
  "twice_at_most ls \<longleftrightarrow> (\<forall>x. length (filter (observes x) ls) \<le> 2)"

lemma observed_append:
  "observed (ls @ ks) opn = (let (opn', cs) = observed ls opn; (opn'', ds) = observed ks opn' in (opn'', cs @ ds))"
  by (induction ls opn rule: observed.induct) (auto simp: Let_def simp del: fun_upd_apply split: option.splits prod.splits)

lemma observed_snoc:
  "opened_by (ls @ [l]) = fst (observed [l] (opened_by ls))" "completed (ls @ [l]) = completed ls @ snd (observed [l] (opened_by ls))"
  by (simp_all add: opened_by_def completed_def observed_append Let_def split: prod.splits)

lemma observed_single:
  "observed [Observe e now w] opn = (case opn (oi_obj w) of None \<Rightarrow> (opn(oi_obj w \<mapsto> (w, now)), [])
     | Some (w0, t0) \<Rightarrow> (opn, [(w0, t0, now)]))"
  by (simp split: option.splits)

lemma opened_obj: "opened_by ls x = Some (w, t) \<Longrightarrow> oi_obj w = x"
proof (induction ls arbitrary: x w t rule: rev_induct)
  case Nil
  then show ?case by (simp add: opened_by_def)
next
  case (snoc l ls)
  show ?case
  proof (cases l)
    case (Observe e now v)
    show ?thesis using snoc unfolding Observe observed_snoc observed_single
      by (cases "opened_by ls (oi_obj v)") (auto split: if_splits)
  qed (use snoc in \<open>simp_all add: observed_snoc\<close>)
qed

text \<open>An item is opened by its first call, and each further one completes it.\<close>

lemma observed_count:
  "(opened_by ls x = None \<longleftrightarrow> filter (observes x) ls = []) \<and>
   length (filter (\<lambda>c. oi_obj (fst c) = x) (completed ls)) = length (filter (observes x) ls) - 1"
proof (induction ls rule: rev_induct)
  case Nil
  then show ?case by (simp add: opened_by_def completed_def)
next
  case (snoc l ls)
  show ?case
  proof (cases l)
    case (Observe e now w)
    show ?thesis
    proof (cases "opened_by ls (oi_obj w)")
      case None
      then show ?thesis using snoc.IH unfolding Observe observed_snoc observed_single by (cases "oi_obj w = x") auto
    next
      case (Some q)
      obtain w0 t0 where q: "q = (w0, t0)" by (cases q)
      have "oi_obj w0 = oi_obj w" using opened_obj Some q by blast
      then show ?thesis using snoc.IH Some q unfolding Observe observed_snoc observed_single
        by (cases "oi_obj w = x"; cases "filter (observes x) ls") auto
    qed
  qed (use snoc.IH in \<open>simp_all add: observed_snoc\<close>)
qed

lemma opened_keeps: "opened_by ls x = Some q \<Longrightarrow> opened_by (ls @ [l]) x = Some q"
proof (cases l)
  case (Observe e now w)
  show "opened_by ls x = Some q \<Longrightarrow> ?thesis" unfolding Observe observed_snoc observed_single
    by (cases "opened_by ls (oi_obj w)") auto
qed (simp_all add: observed_snoc)

lemma completed_opened:
  "(w, t0, t1) \<in> set (completed ls) \<Longrightarrow> opened_by ls (oi_obj w) = Some (w, t0)"
proof (induction ls rule: rev_induct)
  case Nil
  then show ?case by (simp add: completed_def)
next
  case (snoc l ls)
  show ?case
  proof (cases "(w, t0, t1) \<in> set (completed ls)")
    case True
    then show ?thesis using snoc.IH opened_keeps by blast
  next
    case False
    show ?thesis
    proof (cases l)
      case (Observe e now v)
      then have "snd (observed [Observe e now v] (opened_by ls)) = [(w, t0, t1)]" and o: "opened_by ls (oi_obj v) = Some (w, t0)"
        using snoc.prems False unfolding observed_snoc observed_single by (auto split: option.splits)
      then show ?thesis using opened_obj [OF o] opened_keeps [OF o] by simp
    qed (use snoc.prems False in \<open>simp_all add: observed_snoc\<close>)
  qed
qed

section \<open>The two queues are one queue\<close>

text \<open>What the wrappers and the thread rely on: a buffer from which its elements are taken in the order in which they
  were put into it.\<close>

locale fifo_buffer =
  fixes contents :: "'s \<Rightarrow> 'a list" and ok :: "'s \<Rightarrow> bool" and readable :: "'s \<Rightarrow> bool"
    and push :: "'a \<Rightarrow> 's \<Rightarrow> 's" and front :: "'s \<Rightarrow> 'a" and pop :: "'s \<Rightarrow> 's"
  assumes push: "ok s \<Longrightarrow> ok (push x s) \<and> contents (push x s) = contents s @ [x]"
    and pop: "ok s \<Longrightarrow> readable s \<Longrightarrow> ok (pop s) \<and> contents s = front s # contents (pop s)"
begin

lemma pushes: "ok s \<Longrightarrow> ok (fold push xs s) \<and> contents (fold push xs s) = contents s @ xs"
proof (induction xs arbitrary: s)
  case (Cons x xs)
  show ?case using Cons.IH [of "push x s"] push [OF Cons.prems, of x] by simp
qed simp

lemma first_in_first_out: "ok s \<Longrightarrow> contents s = [] \<Longrightarrow> readable (fold push xs s) \<Longrightarrow> xs \<noteq> [] \<Longrightarrow> front (fold push xs s) = hd xs"
  using pushes [of s xs] pop [of "fold push xs s"] by (cases xs) auto

lemma readable_not_empty: "ok s \<Longrightarrow> readable s \<Longrightarrow> contents s \<noteq> []"
  using pop by fastforce

end

definition waiting_profiles :: "'f monitoring \<Rightarrow> nat list" where
  "waiting_profiles m =
    (if current_read_queue m = current_write_queue m then queues m (current_read_queue m)
     else queues m (current_read_queue m) @ queues m (current_write_queue m))"

text \<open>The thread reads the queue that is not written while it is Draining, and only then.\<close>

definition queues_ok :: "'f monitoring \<Rightarrow> bool" where
  "queues_ok m \<longleftrightarrow> current_read_queue m < 2 \<and> current_write_queue m < 2 \<and>
     (current_read_queue m \<noteq> current_write_queue m \<longleftrightarrow> worker m = Draining) \<and>
     (worker m \<noteq> Draining \<longrightarrow> queues m (1 - current_read_queue m) = []) \<and> (worker m = Ended \<longrightarrow> monitor_done m)"

definition may_read :: "'f monitoring \<Rightarrow> bool" where
  "may_read m \<longleftrightarrow> worker m = Draining \<and> \<not> nothing_to_read m"

lemma notify_worker_simps [simp]:
  "mn_heap (notify_worker m) = mn_heap m" "id_profile (notify_worker m) = id_profile m" "queues (notify_worker m) = queues m"
  "current_read_queue (notify_worker m) = current_read_queue m" "current_write_queue (notify_worker m) = current_write_queue m"
  "monitor_done (notify_worker m) = monitor_done m" "profiles (notify_worker m) = profiles m"
  "wi_dependencies (notify_worker m) = wi_dependencies m" "work_item_times (notify_worker m) = work_item_times m"
  "finished_tasks (notify_worker m) = finished_tasks m" "worker (notify_worker m) = Draining \<longleftrightarrow> worker m = Draining"
  "worker (notify_worker m) = Ended \<longleftrightarrow> worker m = Ended"
  by (simp_all add: notify_worker_def split: worker_state.splits)

lemma push_profile_simps [simp]:
  "mn_heap (push_profile p m) = mn_heap m" "id_profile (push_profile p m) = id_profile m"
  "queues (push_profile p m) = (queues m)(current_write_queue m := queues m (current_write_queue m) @ [p])"
  "current_read_queue (push_profile p m) = current_read_queue m" "current_write_queue (push_profile p m) = current_write_queue m"
  "monitor_done (push_profile p m) = monitor_done m" "profiles (push_profile p m) = profiles m"
  "wi_dependencies (push_profile p m) = wi_dependencies m" "work_item_times (push_profile p m) = work_item_times m"
  "finished_tasks (push_profile p m) = finished_tasks m" "worker (push_profile p m) = Draining \<longleftrightarrow> worker m = Draining"
  "worker (push_profile p m) = Ended \<longleftrightarrow> worker m = Ended"
  by (simp_all add: push_profile_def Let_def)

interpretation double_buffer: fifo_buffer waiting_profiles queues_ok may_read push_profile front_profile pop_profile
proof
  fix m :: "'a monitoring" and x
  assume m: "queues_ok m"
  then show "queues_ok (push_profile x m) \<and> waiting_profiles (push_profile x m) = waiting_profiles m @ [x]"
    unfolding queues_ok_def waiting_profiles_def by (cases "current_read_queue m = current_write_queue m") (simp_all, presburger+)
next
  fix m :: "'a monitoring"
  assume m: "queues_ok m" "may_read m"
  have "queues m (current_read_queue m) = front_profile m # queues (pop_profile m) (current_read_queue m)"
    using m(2) by (simp add: may_read_def nothing_to_read_def front_profile_def pop_profile_def)
  then show "queues_ok (pop_profile m) \<and> waiting_profiles m = front_profile m # waiting_profiles (pop_profile m)"
    using m by (auto simp: queues_ok_def waiting_profiles_def may_read_def pop_profile_def)
qed

section \<open>The invariant of the monitor\<close>

abbreviation pointer :: "'f monitoring \<Rightarrow> observed_item \<times> int \<times> int \<Rightarrow> nat" where
  "pointer m c \<equiv> the (id_profile m (oi_obj (fst c)))"

definition completion_time :: "'f farith \<Rightarrow> observed_item \<times> int \<times> int \<Rightarrow> 'f" where
  "completion_time F c = seconds F (snd (snd c) - fst (snd c))"

text \<open>The items cs have been processed, in their order.\<close>

definition recorded :: "'f farith \<Rightarrow> 'f monitoring \<Rightarrow> (observed_item \<times> int \<times> int) list \<Rightarrow> bool" where
  "recorded F m cs \<longleftrightarrow> work_item_times m = map (completion_time F) cs \<and>
     wi_dependencies m = fold (\<lambda>c. add_dependency (oi_parent (fst c)) (oi_id (fst c))) cs [''0'' \<mapsto> []] \<and>
     profiles m = fold (\<lambda>c. map_insert (oi_id (fst c)) (pointer m c)) cs [(''0'', 0)]"

text \<open>Every item that was opened has a profile of its own, which has what is known of the item.\<close>

definition profile_of :: "profile \<Rightarrow> observed_item \<Rightarrow> int \<Rightarrow> bool" where
  "profile_of pf w t \<longleftrightarrow> pf_start pf = t \<and> pf_wid pf = oi_id w \<and> pf_parent_wid pf = oi_parent w \<and> pf_wname pf = oi_name w"

definition profiles_ok :: "mon_label list \<Rightarrow> 'f monitoring \<Rightarrow> bool" where
  "profiles_ok ls m \<longleftrightarrow> (\<forall>x. opened_by ls x = None \<longleftrightarrow> id_profile m x = None) \<and>
     (\<forall>x w t. opened_by ls x = Some (w, t) \<longrightarrow>
        (\<exists>p. id_profile m x = Some p \<and> p < length (mn_heap m) \<and> profile_of (mn_heap m ! p) w t)) \<and>
     (\<forall>x y p. id_profile m x = Some p \<longrightarrow> id_profile m y = Some p \<longrightarrow> x = y) \<and>
     (\<forall>c \<in> set (completed ls). pf_end (mn_heap m ! pointer m c) = snd (snd c))"

definition mon_inv :: "'f farith \<Rightarrow> mon_label list \<Rightarrow> 'f monitoring \<Rightarrow> bool" where
  "mon_inv F ls m \<longleftrightarrow> queues_ok m \<and> profiles_ok ls m \<and>
     (\<exists>k \<le> length (completed ls). waiting_profiles m = map (pointer m) (drop k (completed ls)) \<and> recorded F m (take k (completed ls)))"

lemma process_profile_simps [simp]:
  "mn_heap (process_profile F p m) = mn_heap m" "id_profile (process_profile F p m) = id_profile m"
  "queues (process_profile F p m) = queues m" "current_read_queue (process_profile F p m) = current_read_queue m"
  "current_write_queue (process_profile F p m) = current_write_queue m" "monitor_done (process_profile F p m) = monitor_done m"
  "worker (process_profile F p m) = worker m" "finished_tasks (process_profile F p m) = finished_tasks m"
  by (simp_all add: process_profile_def Let_def)

lemma process_all_simps [simp]:
  "mn_heap (fold (process_profile F) ps m) = mn_heap m" "id_profile (fold (process_profile F) ps m) = id_profile m"
  "queues (fold (process_profile F) ps m) = queues m" "current_read_queue (fold (process_profile F) ps m) = current_read_queue m"
  "current_write_queue (fold (process_profile F) ps m) = current_write_queue m"
  "monitor_done (fold (process_profile F) ps m) = monitor_done m" "worker (fold (process_profile F) ps m) = worker m"
  "finished_tasks (fold (process_profile F) ps m) = finished_tasks m"
  by (induction ps arbitrary: m) simp_all

lemma recorded_cong:
  "work_item_times m' = work_item_times m \<Longrightarrow> wi_dependencies m' = wi_dependencies m \<Longrightarrow> profiles m' = profiles m \<Longrightarrow>
   (\<And>c. c \<in> set cs \<Longrightarrow> pointer m' c = pointer m c) \<Longrightarrow> recorded F m cs \<Longrightarrow> recorded F m' cs"
  unfolding recorded_def by (auto intro: fold_cong)

lemma process_records:
  assumes "profiles_ok ls m" and "c \<in> set (completed ls)" and "recorded F m cs"
  shows "recorded F (process_profile F (pointer m c) m) (cs @ [c])"
proof -
  obtain w t0 t1 where c: "c = (w, t0, t1)" by (cases c)
  have o: "opened_by ls (oi_obj w) = Some (w, t0)" using completed_opened assms(2) c by blast
  then have "profile_of (mn_heap m ! pointer m c) w t0" using assms(1) c unfolding profiles_ok_def by fastforce
  moreover have "pf_end (mn_heap m ! pointer m c) = t1" using assms(1,2) c unfolding profiles_ok_def by force
  ultimately show ?thesis using assms(3) c
    by (simp add: recorded_def process_profile_def Let_def profile_of_def profile_exclusive_time_def completion_time_def)
qed

lemma processes_record:
  assumes "profiles_ok ls m" and "set ds \<subseteq> set (completed ls)" and "recorded F m cs"
  shows "recorded F (fold (process_profile F) (map (pointer m) ds) m) (cs @ ds)"
  using assms
proof (induction ds arbitrary: m cs)
  case (Cons d ds)
  let ?m = "process_profile F (pointer m d) m"
  have "profiles_ok ls ?m" using Cons.prems(1) by (simp add: profiles_ok_def)
  moreover have "recorded F ?m (cs @ [d])" using process_records Cons.prems by fastforce
  ultimately show ?case using Cons.IH [of ?m "cs @ [d]"] Cons.prems(2) by simp
qed simp

lemma mon_inv_counters [simp]:
  "mon_inv F ls (m\<lparr>finished_tasks := a\<rparr>) = mon_inv F ls m" "mon_inv F ls (m\<lparr>weighted_sum := b\<rparr>) = mon_inv F ls m"
  by (simp_all add: mon_inv_def queues_ok_def profiles_ok_def waiting_profiles_def recorded_def)

lemma mon_inv_count [simp]:
  "mon_inv F ls (count_task m) = mon_inv F ls m" "mon_inv F ls (count_process F d m) = mon_inv F ls m"
  by (simp_all add: count_task_def count_process_def Let_def)

lemma profiles_okD:
  assumes "profiles_ok ls m"
  shows "opened_by ls x = None \<longleftrightarrow> id_profile m x = None"
    and "opened_by ls x = Some (w, t) \<Longrightarrow> \<exists>p. id_profile m x = Some p \<and> p < length (mn_heap m) \<and> profile_of (mn_heap m ! p) w t"
    and "id_profile m x = Some p \<Longrightarrow> id_profile m y = Some p \<Longrightarrow> x = y"
    and "c \<in> set (completed ls) \<Longrightarrow> pf_end (mn_heap m ! pointer m c) = snd (snd c)"
  using assms by (simp_all add: profiles_ok_def)

lemma profiles_ok_pointer:
  assumes "profiles_ok ls m" and "id_profile m x = Some p"
  shows "\<exists>w t. opened_by ls x = Some (w, t) \<and> p < length (mn_heap m) \<and> profile_of (mn_heap m ! p) w t"
proof (cases "opened_by ls x")
  case (Some q)
  obtain w t where "q = (w, t)" by (cases q)
  then show ?thesis using profiles_okD(2) [OF assms(1), of x w t] Some assms(2) by auto
qed (use profiles_okD(1) [OF assms(1), of x] assms(2) in simp)

lemma profiles_ok_completed:
  assumes "profiles_ok ls m" and "c \<in> set (completed ls)"
  shows "id_profile m (oi_obj (fst c)) = Some (pointer m c)"
proof -
  obtain w t0 t1 where "c = (w, t0, t1)" by (cases c)
  then show ?thesis using profiles_okD(2) [OF assms(1)] completed_opened assms(2) by fastforce
qed

lemma inv_open:
  assumes inv: "mon_inv F ls m" and n: "id_profile m (oi_obj w) = None"
  shows "mon_inv F (ls @ [Observe e now w]) (m\<lparr>mn_heap := mn_heap m @ [new_profile now (oi_id w) (oi_name w) (oi_parent w)],
     id_profile := (id_profile m)(oi_obj w \<mapsto> length (mn_heap m))\<rparr>)"
    (is "mon_inv F ?ls ?m")
proof -
  have ok: "queues_ok m" "profiles_ok ls m" using inv by (simp_all add: mon_inv_def)
  obtain k where k: "k \<le> length (completed ls)" "waiting_profiles m = map (pointer m) (drop k (completed ls))"
    "recorded F m (take k (completed ls))" using inv unfolding mon_inv_def by blast
  have o: "opened_by ls (oi_obj w) = None" using ok(2) n by (simp add: profiles_ok_def)
  have c: "completed ?ls = completed ls" "opened_by ?ls = (opened_by ls)(oi_obj w \<mapsto> (w, now))"
    using o by (simp_all only: observed_snoc observed_single) simp_all
  have open_c: "id_profile m (oi_obj (fst c)) \<noteq> None" if "c \<in> set (completed ls)" for c
    using profiles_ok_completed [OF ok(2) that] by blast
  have p: "pointer ?m c = pointer m c" if "c \<in> set (completed ls)" for c using open_c [OF that] n by auto
  have lt: "p < length (mn_heap m)" if "id_profile m x = Some p" for x p
    using profiles_ok_pointer [OF ok(2) that] by blast
  have "queues_ok ?m" using ok(1) by (simp add: queues_ok_def)
  moreover have "profiles_ok ?ls ?m"
    unfolding profiles_ok_def
  proof (intro conjI allI impI ballI)
    fix x show "(opened_by ?ls x = None) = (id_profile ?m x = None)" using ok(2) c(2) by (simp add: profiles_ok_def)
  next
    fix x v t assume x: "opened_by ?ls x = Some (v, t)"
    show "\<exists>p. id_profile ?m x = Some p \<and> p < length (mn_heap ?m) \<and> profile_of (mn_heap ?m ! p) v t"
    proof (cases "x = oi_obj w")
      case True
      then show ?thesis using x c(2) by (simp add: profile_of_def new_profile_def)
    next
      case False
      then have "opened_by ls x = Some (v, t)" using x c(2) by simp
      then obtain p where "id_profile m x = Some p" "p < length (mn_heap m)" "profile_of (mn_heap m ! p) v t"
        using profiles_okD(2) [OF ok(2)] by blast
      then show ?thesis using False by (auto simp: nth_append)
    qed
  next
    fix x y p assume "id_profile ?m x = Some p" "id_profile ?m y = Some p"
    then show "x = y" using profiles_okD(3) [OF ok(2), of x p y] lt [of x p] lt [of y p] by (auto split: if_splits)
  next
    fix d assume d: "d \<in> set (completed ?ls)"
    then have "pointer m d < length (mn_heap m)" using lt [OF profiles_ok_completed [OF ok(2), of d]] c(1) by simp
    then show "pf_end (mn_heap ?m ! pointer ?m d) = snd (snd d)" using d p [of d] c(1) profiles_okD(4) [OF ok(2), of d]
      by (simp add: nth_append)
  qed
  moreover have "waiting_profiles ?m = map (pointer ?m) (drop k (completed ls))"
  proof -
    have "waiting_profiles ?m = waiting_profiles m" by (simp add: waiting_profiles_def)
    moreover have "map (pointer ?m) (drop k (completed ls)) = map (pointer m) (drop k (completed ls))"
      by (rule map_cong [OF refl]) (metis p in_set_dropD)
    ultimately show ?thesis using k(2) by simp
  qed
  moreover have "recorded F ?m (take k (completed ls))"
    by (rule recorded_cong [OF _ _ _ _ k(3)]) (simp, simp, simp, metis p in_set_takeD)
  ultimately show ?thesis using k(1) c(1) unfolding mon_inv_def by auto
qed

lemma inv_close:
  assumes inv: "mon_inv F ls m" and s: "id_profile m (oi_obj w) = Some p" and two: "twice_at_most (ls @ [Observe e now w])"
  shows "mon_inv F (ls @ [Observe e now w]) (push_profile p (m\<lparr>mn_heap := (mn_heap m)[p := (mn_heap m ! p)\<lparr>pf_end := now\<rparr>]\<rparr>))"
    (is "mon_inv F ?ls (push_profile p ?m)")
proof -
  have ok: "queues_ok m" "profiles_ok ls m" using inv by (simp_all add: mon_inv_def)
  obtain k where k: "k \<le> length (completed ls)" "waiting_profiles m = map (pointer m) (drop k (completed ls))"
    "recorded F m (take k (completed ls))" using inv unfolding mon_inv_def by blast
  obtain w0 t0 where o: "opened_by ls (oi_obj w) = Some (w0, t0)" and pf: "p < length (mn_heap m)" "profile_of (mn_heap m ! p) w0 t0"
    using profiles_ok_pointer [OF ok(2) s] by blast
  have w0: "oi_obj w0 = oi_obj w" using opened_obj [OF o] .
  have c: "completed ?ls = completed ls @ [(w0, t0, now)]" "opened_by ?ls = opened_by ls"
    using o by (simp_all only: observed_snoc observed_single) simp_all
  have "length (filter (observes (oi_obj w)) ls) \<le> 1" using two unfolding twice_at_most_def by (auto dest: spec [of _ "oi_obj w"])
  then have "filter (\<lambda>c. oi_obj (fst c) = oi_obj w) (completed ls) = []" using observed_count [of ls "oi_obj w"] by auto
  then have other: "oi_obj (fst c) \<noteq> oi_obj w" if "c \<in> set (completed ls)" for c using that by (auto simp: filter_empty_conv)
  have neq: "pointer m c \<noteq> p" if "c \<in> set (completed ls)" for c
    using other [OF that] profiles_okD(3) [OF ok(2) profiles_ok_completed [OF ok(2) that], of "oi_obj w"] s by auto
  have "queues_ok ?m" using ok(1) by (simp add: queues_ok_def)
  then have q: "queues_ok (push_profile p ?m)" "waiting_profiles (push_profile p ?m) = waiting_profiles m @ [p]"
    using double_buffer.push [of ?m p] by (simp_all add: waiting_profiles_def)
  have "profiles_ok ?ls (push_profile p ?m)"
    unfolding profiles_ok_def
  proof (intro conjI allI impI ballI)
    fix x show "(opened_by ?ls x = None) = (id_profile (push_profile p ?m) x = None)" using ok(2) c(2) by (simp add: profiles_ok_def)
  next
    fix x v t assume x: "opened_by ?ls x = Some (v, t)"
    then have "opened_by ls x = Some (v, t)" using c(2) by simp
    then obtain r where "id_profile m x = Some r" "r < length (mn_heap m)" "profile_of (mn_heap m ! r) v t"
      using profiles_okD(2) [OF ok(2)] by blast
    then show "\<exists>r. id_profile (push_profile p ?m) x = Some r \<and> r < length (mn_heap (push_profile p ?m)) \<and>
        profile_of (mn_heap (push_profile p ?m) ! r) v t"
      by (cases "r = p") (auto simp: profile_of_def)
  next
    fix x y r assume "id_profile (push_profile p ?m) x = Some r" "id_profile (push_profile p ?m) y = Some r"
    then show "x = y" using profiles_okD(3) [OF ok(2), of x r y] by simp
  next
    fix d assume d: "d \<in> set (completed ?ls)"
    show "pf_end (mn_heap (push_profile p ?m) ! pointer (push_profile p ?m) d) = snd (snd d)"
    proof (cases "d \<in> set (completed ls)")
      case True
      then show ?thesis using neq [OF True] profiles_okD(4) [OF ok(2) True] by simp
    qed (use d c(1) s w0 pf(1) in simp)
  qed
  moreover have "recorded F (push_profile p ?m) (take k (completed ls))"
    by (rule recorded_cong [OF _ _ _ _ k(3)]) simp_all
  moreover have "waiting_profiles (push_profile p ?m) = map (pointer (push_profile p ?m)) (drop k (completed ?ls))"
    using q(2) k(1,2) c(1) s w0 by simp
  ultimately show ?thesis using q(1) k(1) c(1) unfolding mon_inv_def by (intro conjI exI [of _ k]) simp_all
qed

lemma observe_inv:
  assumes "mon_inv F ls m" and "twice_at_most (ls @ [Observe e now w])"
  shows "mon_inv F (ls @ [Observe e now w]) (observe F e now w m)"
proof -
  have "mon_inv F (ls @ [Observe e now w]) (exec_wrapper now w f m)"
    if f: "\<And>x. mon_inv F (ls @ [Observe e now w]) (f x) = mon_inv F (ls @ [Observe e now w]) x" for f
  proof (cases "id_profile m (oi_obj w)")
    case None
    then show ?thesis using inv_open [OF assms(1) None] by (simp add: exec_wrapper_def)
  next
    case (Some p)
    then show ?thesis using inv_close [OF assms(1) Some assms(2)] f by (simp add: exec_wrapper_def)
  qed
  then show ?thesis
    by (cases e) (simp_all add: observe_def w_exec_split_start_def w_exec_process_start_def w_exec_split_finish_def w_exec_process_finish_def)
qed

lemma mon_inv_stay:
  assumes "mon_inv F ls m" and "completed (ls @ [l]) = completed ls" and "opened_by (ls @ [l]) = opened_by ls"
    and "queues_ok m'" and "waiting_profiles m' = waiting_profiles m" and "mn_heap m' = mn_heap m" and "id_profile m' = id_profile m"
    and "work_item_times m' = work_item_times m" and "wi_dependencies m' = wi_dependencies m" and "profiles m' = profiles m"
  shows "mon_inv F (ls @ [l]) m'"
  using assms by (simp add: mon_inv_def profiles_ok_def recorded_def)

text \<open>A part of process\_profiles.\<close>

lemma work_inv:
  assumes inv: "mon_inv F ls m" and s: "process_profiles F m = Some m'"
  shows "mon_inv F (ls @ [Work]) m'"
proof -
  have ok: "queues_ok m" "profiles_ok ls m" using inv by (simp_all add: mon_inv_def)
  obtain k where k: "k \<le> length (completed ls)" "waiting_profiles m = map (pointer m) (drop k (completed ls))"
    "recorded F m (take k (completed ls))" using inv unfolding mon_inv_def by blast
  have c: "completed (ls @ [Work]) = completed ls" "opened_by (ls @ [Work]) = opened_by ls" by (simp_all add: observed_snoc)
  note stay = mon_inv_stay [OF inv c]
  have final: "mon_inv F (ls @ [Work]) (end_of_queue F n)"
    if n: "n = m\<lparr>current_read_queue := current_write_queue m\<rparr>" "worker m = Starting \<or> worker m = Draining \<and> nothing_to_read m" for n
  proof -
    have n_ok: "queues n (1 - current_write_queue m) = []" "waiting_profiles n = queues m (current_write_queue m)"
      "waiting_profiles m = queues m (current_write_queue m)" "current_write_queue m < 2"
      using n ok(1) unfolding queues_ok_def waiting_profiles_def nothing_to_read_def
      by (auto simp: less_2_cases_iff)
    show ?thesis
    proof (cases "monitor_done m")
      case False
      have "queues_ok (end_of_queue F n)" using n n_ok False by (simp add: end_of_queue_def queues_ok_def)
      then show ?thesis using n n_ok False by (intro stay) (simp_all add: end_of_queue_def waiting_profiles_def)
    next
      case True
      let ?m = "fold (process_profile F) (queues m (current_write_queue m)) m"
      let ?e = "end_of_queue F n"
      have e: "?e = (fold (process_profile F) (queues m (current_write_queue m)) n)\<lparr>queues := (queues m)(current_write_queue m := []), worker := Ended\<rparr>"
        using n(1) True by (simp add: end_of_queue_def Let_def)
      have q: "queues m (current_write_queue m) = map (pointer n) (drop k (completed ls))" using k(2) n_ok(3) n(1) by simp
      have "profiles_ok ls n" "recorded F n (take k (completed ls))"
        using ok(2) k(3) n(1) by (simp_all add: profiles_ok_def recorded_def)
      then have "recorded F (fold (process_profile F) (queues m (current_write_queue m)) n) (take k (completed ls) @ drop k (completed ls))"
        unfolding q by (intro processes_record) (auto dest: in_set_dropD)
      then have r: "recorded F ?e (completed ls)" unfolding e by (simp add: recorded_def)
      have "queues_ok ?e" using n n_ok True unfolding e queues_ok_def by auto
      moreover have "waiting_profiles ?e = []" using n(1) unfolding e by (simp add: waiting_profiles_def)
      moreover have "profiles_ok (ls @ [Work]) ?e" using ok(2) n(1) c unfolding e by (simp add: profiles_ok_def)
      ultimately show ?thesis using r c unfolding mon_inv_def by (intro conjI exI [of _ "length (completed ls)"]) simp_all
    qed
  qed
  show ?thesis
  proof (cases "worker m")
    case Starting
    then have "m' = end_of_queue F m" "m = m\<lparr>current_read_queue := current_write_queue m\<rparr>"
      using s ok(1) by (simp_all add: process_profiles_def queues_ok_def)
    then show ?thesis using final [of m] Starting by simp
  next
    case (Waiting n)
    then have m': "m' = m\<lparr>current_write_queue := (current_write_queue m + 1) mod 2, worker := Draining\<rparr>"
      using s by (simp add: process_profiles_def split: if_splits)
    have "queues_ok m'" "waiting_profiles m' = waiting_profiles m"
      using ok(1) Waiting unfolding m' queues_ok_def waiting_profiles_def by (auto simp: less_2_cases_iff)
    then show ?thesis by (intro stay) (simp_all add: m')
  next
    case Draining
    show ?thesis
    proof (cases "nothing_to_read m")
      case True
      have "(current_read_queue m + 1) mod 2 = current_write_queue m"
        using ok(1) Draining by (auto simp: queues_ok_def less_2_cases_iff)
      then show ?thesis using final [of "m\<lparr>current_read_queue := current_write_queue m\<rparr>"] s Draining True
        by (simp add: process_profiles_def)
    next
      case False
      let ?m = "process_profile F (front_profile m) m"
      have m': "m' = pop_profile ?m" using s Draining False by (simp add: process_profiles_def)
      have "queues_ok ?m" "may_read ?m" "front_profile ?m = front_profile m" "waiting_profiles ?m = waiting_profiles m"
        using ok(1) Draining False by (simp_all add: queues_ok_def may_read_def nothing_to_read_def front_profile_def waiting_profiles_def)
      then have p: "queues_ok m'" "waiting_profiles m = front_profile m # waiting_profiles m'"
        using double_buffer.pop [of ?m] m' by simp_all
      then have kl: "k < length (completed ls)" using k(2) by (cases "k < length (completed ls)") simp_all
      let ?c = "completed ls ! k"
      have f: "front_profile m = pointer m ?c" "waiting_profiles m' = map (pointer m) (drop (Suc k) (completed ls))"
        using p(2) k(2) Cons_nth_drop_Suc [OF kl] by (metis list.inject list.simps(9))+
      have "recorded F ?m (take k (completed ls) @ [?c])" unfolding f(1) by (rule process_records [OF ok(2) _ k(3)]) (use kl in simp)
      then have "recorded F m' (take (Suc k) (completed ls))"
        by (simp add: m' pop_profile_def recorded_def take_Suc_conv_app_nth [OF kl])
      moreover have "profiles_ok (ls @ [Work]) m'" using ok(2) c by (simp add: m' pop_profile_def profiles_ok_def)
      ultimately show ?thesis using p(1) f(2) kl c unfolding mon_inv_def
        by (intro conjI exI [of _ "Suc k"]) (simp_all add: m' pop_profile_def)
    qed
  next
    case Ended
    then show ?thesis using s by (simp add: process_profiles_def)
  qed
qed

lemma step_inv:
  assumes inv: "mon_inv F ls m" and "mon_step F l m = Some m'" and "twice_at_most (ls @ [l])"
  shows "mon_inv F (ls @ [l]) m'"
proof (cases l)
  case (Observe e now w)
  then show ?thesis using observe_inv assms by auto
next
  case Work
  then show ?thesis using work_inv [OF inv] assms(2) by simp
next
  case Wake
  have "queues_ok m" using inv by (simp add: mon_inv_def)
  then show ?thesis using Wake assms(2)
    by (intro mon_inv_stay [OF inv]) (auto simp: observed_snoc queues_ok_def waiting_profiles_def split: worker_state.splits)
next
  case Stop
  have "queues_ok m" using inv by (simp add: mon_inv_def)
  then show ?thesis using Stop assms(2)
    by (intro mon_inv_stay [OF inv]) (auto simp: observed_snoc queues_ok_def waiting_profiles_def stop_monitor_def)
next
  case Sample
  have "queues_ok m" using inv by (simp add: mon_inv_def)
  then show ?thesis using Sample assms(2)
    by (intro mon_inv_stay [OF inv]) (auto simp: observed_snoc queues_ok_def waiting_profiles_def)
qed

lemma twice_at_most_prefix: "twice_at_most (ls @ ks) \<Longrightarrow> twice_at_most ls"
  unfolding twice_at_most_def by (metis add_leD1 filter_append length_append)

lemma run_inv: "mon_inv F ls m \<Longrightarrow> mon_run F ks m = Some m' \<Longrightarrow> twice_at_most (ls @ ks) \<Longrightarrow> mon_inv F (ls @ ks) m'"
proof (induction ks arbitrary: ls m)
  case (Cons l ks)
  obtain m1 where m1: "mon_step F l m = Some m1" "mon_run F ks m1 = Some m'"
    using Cons.prems(2) by (cases "mon_step F l m") auto
  have "twice_at_most (ls @ [l])" using Cons.prems(3) twice_at_most_prefix [of "ls @ [l]" ks] by simp
  then have "mon_inv F (ls @ [l]) m1" using step_inv Cons.prems(1) m1(1) by blast
  then show ?case using Cons.IH [of "ls @ [l]" m1] m1(2) Cons.prems(3) by simp
qed simp

lemma start_inv: "mon_inv F [] (start_monitoring F now)"
  by (simp add: mon_inv_def queues_ok_def profiles_ok_def recorded_def start_monitoring_def waiting_profiles_def completed_def opened_by_def)

lemma mon_run_append: "mon_run F (ls @ ks) m = do {m \<leftarrow> mon_run F ls m; mon_run F ks m}"
proof (induction ls arbitrary: m)
  case (Cons l ls)
  then show ?case by (cases "mon_step F l m") simp_all
qed simp

section \<open>The monitor stops\<close>

text \<open>The thread never waits without a notification when the monitor is stopped.\<close>

definition wakes_up :: "'f monitoring \<Rightarrow> bool" where
  "wakes_up m \<longleftrightarrow> (monitor_done m \<longrightarrow> worker m \<noteq> Waiting False)"

lemma observe_done [simp]: "monitor_done (observe F e now w m) = monitor_done m"
  by (cases e) (simp_all add: observe_def w_exec_split_start_def w_exec_process_start_def w_exec_split_finish_def
      w_exec_process_finish_def exec_wrapper_def count_task_def count_process_def Let_def split: option.splits)

lemma worker_push: "worker (push_profile p m) = worker m \<or> worker (push_profile p m) = Waiting True"
  by (simp add: push_profile_def notify_worker_def Let_def split: worker_state.splits)

lemma observe_worker: "worker (observe F e now w m) = worker m \<or> worker (observe F e now w m) = Waiting True"
  using worker_push [of _ "m\<lparr>mn_heap := _\<rparr>"]
  by (cases e) (auto simp: observe_def w_exec_split_start_def w_exec_process_start_def w_exec_split_finish_def
      w_exec_process_finish_def exec_wrapper_def count_task_def count_process_def Let_def split: option.splits)

lemma end_of_queue_worker:
  "worker (end_of_queue F m) = (if monitor_done m then Ended else Waiting False)" "monitor_done (end_of_queue F m) = monitor_done m"
  by (simp_all add: end_of_queue_def Let_def)

lemma process_profiles_done: "process_profiles F m = Some m' \<Longrightarrow> monitor_done m' = monitor_done m"
  by (auto simp: process_profiles_def end_of_queue_worker pop_profile_def split: worker_state.splits if_splits)

lemma step_wakes_up:
  assumes "mon_step F l m = Some m'" and "wakes_up m"
  shows "wakes_up m'"
proof (cases l)
  case (Observe e now w)
  then show ?thesis using assms observe_worker [of F e now w m] by (auto simp: wakes_up_def)
next
  case Work
  then have "process_profiles F m = Some m'" using assms(1) by simp
  then show ?thesis using assms(2) process_profiles_done [of F m m']
    by (auto simp: wakes_up_def process_profiles_def end_of_queue_worker pop_profile_def split: worker_state.splits if_splits)
qed (use assms in \<open>auto simp: wakes_up_def stop_monitor_def notify_worker_def split: worker_state.splits\<close>)

lemma run_wakes_up: "mon_run F ls m = Some m' \<Longrightarrow> wakes_up m \<Longrightarrow> wakes_up m'"
proof (induction ls arbitrary: m)
  case (Cons l ls)
  then show ?case using step_wakes_up [of F l m] by (cases "mon_step F l m") auto
qed simp

text \<open>Without a call of stop the monitor is not done, and so its thread has not ended.\<close>

lemma step_done: "mon_step F l m = Some m' \<Longrightarrow> l \<noteq> Stop \<Longrightarrow> monitor_done m' = monitor_done m"
  by (cases l) (auto simp: process_profiles_done split: worker_state.splits)

lemma run_not_done: "mon_run F ls m = Some m' \<Longrightarrow> Stop \<notin> set ls \<Longrightarrow> monitor_done m' = monitor_done m"
proof (induction ls arbitrary: m)
  case (Cons l ls)
  then show ?case using step_done [of F l m] by (cases "mon_step F l m") auto
qed simp

text \<open>The steps of the thread that are left.\<close>

definition work_left :: "'f monitoring \<Rightarrow> nat" where
  "work_left m = (case worker m of Starting \<Rightarrow> 1 | Ended \<Rightarrow> 0 | Draining \<Rightarrow> 1 + length (queues m (current_read_queue m))
     | Waiting _ \<Rightarrow> 2 + length (queues m (current_read_queue m)))"

lemma works_until_ended:
  assumes "monitor_done m" and "wakes_up m" and "worker m \<noteq> Ended"
  shows "\<exists>m'. mon_run F (replicate (work_left m) Work) m = Some m' \<and> worker m' = Ended \<and> queues m' (current_read_queue m') = []"
  using assms
proof (induction "work_left m" arbitrary: m)
  case 0
  then show ?case by (cases "worker m") (simp_all add: work_left_def)
next
  case (Suc n)
  have "\<exists>m1. process_profiles F m = Some m1 \<and> work_left m1 = n \<and> (worker m1 = Ended \<longrightarrow> queues m1 (current_read_queue m1) = [])"
    using Suc.hyps(2) Suc.prems
    by (cases "worker m"; cases "queues m (current_read_queue m)")
      (auto simp: process_profiles_def work_left_def wakes_up_def end_of_queue_def nothing_to_read_def pop_profile_def Let_def split: bool.splits)
  then obtain m1 where m1: "process_profiles F m = Some m1" "work_left m1 = n" "worker m1 = Ended \<longrightarrow> queues m1 (current_read_queue m1) = []"
    by blast
  have "mon_step F Work m = Some m1" using m1(1) by simp
  then have m1_ok: "wakes_up m1" "monitor_done m1" using step_wakes_up Suc.prems process_profiles_done [OF m1(1)] by blast+
  have "mon_run F (replicate (work_left m) Work) m = mon_run F (replicate (work_left m1) Work) m1"
    using m1(1,2) Suc.hyps(2) [symmetric] by simp
  moreover have "work_left m1 = 0" if "worker m1 = Ended" using that by (simp add: work_left_def)
  ultimately show ?case using Suc.hyps(1) [of m1] m1 m1_ok by (cases "worker m1 = Ended") auto
qed

section \<open>Properties\<close>

text \<open>C21: At any time, whatever the interleaving of the wrappers with the thread, the profiles that have been processed are the
  first ones of the completed work items, in the order of their completion, and the others wait in the queues:
  none is lost, none is processed twice, and each has its own times although the finish may be signalled
  before the start.\<close>

theorem profiles_in_order:
  assumes "mon_run F ls (start_monitoring F now) = Some m" and "twice_at_most ls"
  shows "\<exists>k \<le> length (completed ls). recorded F m (take k (completed ls)) \<and>
    map (\<lambda>p. (pf_wid (mn_heap m ! p), pf_start (mn_heap m ! p), pf_end (mn_heap m ! p))) (waiting_profiles m) =
      map (\<lambda>(w, t0, t1). (oi_id w, t0, t1)) (drop k (completed ls))"
proof -
  have "mon_inv F ls m" using run_inv [OF start_inv assms(1)] assms(2) by simp
  then obtain k where k: "profiles_ok ls m" "k \<le> length (completed ls)" "waiting_profiles m = map (pointer m) (drop k (completed ls))"
    "recorded F m (take k (completed ls))" unfolding mon_inv_def by blast
  have "(pf_wid (mn_heap m ! pointer m c), pf_start (mn_heap m ! pointer m c), pf_end (mn_heap m ! pointer m c)) =
      (case c of (w, t0, t1) \<Rightarrow> (oi_id w, t0, t1))" if "c \<in> set (completed ls)" for c
  proof -
    obtain w t0 t1 where c: "c = (w, t0, t1)" by (cases c)
    have "opened_by ls (oi_obj w) = Some (w, t0)" using completed_opened that c by blast
    then show ?thesis using profiles_okD(2) [OF k(1), of "oi_obj w" w t0] profiles_okD(4) [OF k(1) that] c
      by (auto simp: profile_of_def)
  qed
  then have "map (\<lambda>p. (pf_wid (mn_heap m ! p), pf_start (mn_heap m ! p), pf_end (mn_heap m ! p))) (waiting_profiles m) =
      map (\<lambda>(w, t0, t1). (oi_id w, t0, t1)) (drop k (completed ls))"
    unfolding k(3) by (auto dest: in_set_dropD)
  then show ?thesis using k(2,4) by blast
qed

text \<open>C24: After stop the thread always ends, even if it was not waiting when it was notified, and then every work item that was
  completed before is in the statistics.\<close>

theorem stop_records_all:
  assumes "mon_run F ls (start_monitoring F now) = Some m" and "twice_at_most ls" and "Stop \<notin> set ls"
  shows "\<exists>n m'. mon_run F (Stop # replicate n Work) m = Some m' \<and> worker m' = Ended \<and> recorded F m' (completed ls)"
proof -
  have nd: "\<not> monitor_done m" using run_not_done [OF assms(1,3)] by (simp add: start_monitoring_def)
  have inv: "mon_inv F ls m" using run_inv [OF start_inv assms(1)] assms(2) by simp
  let ?m = "stop_monitor m"
  have "wakes_up m" using run_wakes_up [OF assms(1)] by (simp add: wakes_up_def start_monitoring_def)
  then have w: "wakes_up ?m" using step_wakes_up [of F Stop m ?m] by simp
  have d: "monitor_done ?m" by (simp add: stop_monitor_def)
  have e: "worker ?m \<noteq> Ended" using inv nd by (simp add: stop_monitor_def mon_inv_def queues_ok_def)
  obtain m' where r: "mon_run F (replicate (work_left ?m) Work) ?m = Some m'" "worker m' = Ended" "queues m' (current_read_queue m') = []"
    using works_until_ended [OF d w e] by blast
  let ?ks = "Stop # replicate (work_left ?m) Work"
  have r': "mon_run F ?ks m = Some m'" using r(1) by simp
  have obs: "observed (replicate n Work) opn = (opn, [])" for n opn by (induction n) simp_all
  have "filter (observes x) (replicate n Work) = []" for x n by (induction n) simp_all
  then have "twice_at_most (ls @ ?ks)" using assms(2) by (simp add: twice_at_most_def)
  moreover have c: "completed (ls @ ?ks) = completed ls" by (simp add: completed_def observed_append obs Let_def split: prod.splits)
  ultimately have "mon_inv F (ls @ ?ks) m'" using run_inv [OF inv r'] by blast
  then obtain k where k: "queues_ok m'" "waiting_profiles m' = map (pointer m') (drop k (completed ls))" "recorded F m' (take k (completed ls))"
    using c unfolding mon_inv_def by auto
  have "waiting_profiles m' = []" using k(1) r(2,3) by (simp add: waiting_profiles_def queues_ok_def)
  then have "take k (completed ls) = completed ls" using k(2) by simp
  then show ?thesis using r' r(2) k(3) by (metis list.simps(3))
qed

text \<open>Two work items; the finish of the second one is signalled before its start.\<close>

definition demo_observed :: "nat \<Rightarrow> string \<Rightarrow> observed_item" where
  "demo_observed x i = \<lparr>oi_obj = x, oi_id = i, oi_parent = ''0'', oi_name = ''fib'', oi_depth = 1\<rparr>"

definition demo_labels :: "mon_label list" where
  "demo_labels = [Work, Observe Split_start 5 (demo_observed 1 ''0.0''), Observe Process_finish 7 (demo_observed 2 ''0.1''),
     Observe Split_finish 9 (demo_observed 1 ''0.0''), Wake, Work, Observe Process_start 12 (demo_observed 2 ''0.1''), Work]"

lemma demo_completed: "completed demo_labels = [(demo_observed 1 ''0.0'', 5, 9), (demo_observed 2 ''0.1'', 7, 12)]"
  by (simp add: demo_labels_def completed_def demo_observed_def)

lemma demo_twice: "twice_at_most demo_labels"
  by (auto simp: twice_at_most_def demo_labels_def demo_observed_def)

lemma demo_runs: "\<exists>m. mon_run rat_arith demo_labels (start_monitoring rat_arith 0) = Some m"
  by (simp add: demo_labels_def start_monitoring_def process_profiles_def end_of_queue_def observe_def w_exec_split_start_def
      w_exec_split_finish_def w_exec_process_start_def w_exec_process_finish_def exec_wrapper_def demo_observed_def push_profile_def
      notify_worker_def min_queue_elems_def count_task_def count_process_def nothing_to_read_def Let_def)

theorem profiles_in_order_witness:
  "\<exists>m k. mon_run rat_arith demo_labels (start_monitoring rat_arith 0) = Some m \<and> recorded rat_arith m (take k (completed demo_labels))"
proof -
  obtain m where m: "mon_run rat_arith demo_labels (start_monitoring rat_arith 0) = Some m" using demo_runs by blast
  show ?thesis using profiles_in_order [OF m demo_twice] m by blast
qed

theorem stop_records_all_witness:
  "\<exists>m m' ks. mon_run rat_arith demo_labels (start_monitoring rat_arith 0) = Some m \<and> mon_run rat_arith ks m = Some m' \<and>
     worker m' = Ended \<and> work_item_times m' = [4 / 1000000000, 5 / 1000000000] \<and> wi_dependencies m' ''0'' = Some [''0.0'', ''0.1'']"
proof -
  obtain m where m: "mon_run rat_arith demo_labels (start_monitoring rat_arith 0) = Some m" using demo_runs by blast
  have "Stop \<notin> set demo_labels" by (simp add: demo_labels_def)
  from stop_records_all [OF m demo_twice this] obtain n m' where r: "mon_run rat_arith (Stop # replicate n Work) m = Some m'"
    "worker m' = Ended" "recorded rat_arith m' (completed demo_labels)" by blast
  have "work_item_times m' = [4 / 1000000000, 5 / 1000000000]" "wi_dependencies m' ''0'' = Some [''0.0'', ''0.1'']"
    using r(3) unfolding recorded_def demo_completed
    by (simp_all add: completion_time_def seconds_def add_dependency_def demo_observed_def)
  then show ?thesis using m r(1,2) by blast
qed

end
