(* ===== verification/Monitor_Stats.thy ===== *)
theory Monitor_Stats
  imports Monitor_Profiles Task_Times "HOL-Library.Multiset" "HOL-Library.List_Lexorder" "HOL-Library.Char_ord"
begin

text \<open>
  What the monitor computes from its measurements: the introspection functions of
  src/components/monitor\_component.cpp, allscale/historical\_data.hpp, allscale/measure\_buffer.hpp and
  allscale/work\_item\_stats.hpp, the sampling of the node, and the statistics that stop collects from all localities.

  Parameters: the arithmetic of double, the clock, the counters of HPX and of the operating system.  The order in which
  an unordered map is traversed is not determined: the functions that go through the profiles take the list of
  its elements, in any order.
\<close>

section \<open>Times of work items\<close>

definition get_exclusive_time :: "'f farith \<Rightarrow> 'f monitoring \<Rightarrow> string \<Rightarrow> 'f" where
  "get_exclusive_time F m i = (case map_of (profiles m) i of None \<Rightarrow> fof_int F 0 | Some p \<Rightarrow> profile_exclusive_time F (mn_heap m ! p))"

text \<open>The profiles of the children that have one.\<close>

definition child_profiles :: "'f monitoring \<Rightarrow> string list \<Rightarrow> profile list" where
  "child_profiles m is = map (\<lambda>p. mn_heap m ! p) (List.map_filter (map_of (profiles m)) is)"

definition get_inclusive_time :: "'f farith \<Rightarrow> 'f monitoring \<Rightarrow> string \<Rightarrow> 'f" where
  "get_inclusive_time F m i =
    (case map_of (profiles m) i of None \<Rightarrow> fof_int F 0
     | Some p \<Rightarrow>
        (case wi_dependencies m i of None \<Rightarrow> fof_int F 0
         | Some is \<Rightarrow>
            (let start = pf_start (mn_heap m ! p);
                 last = foldl (\<lambda>t c. if t < pf_end c then pf_end c else t) start (child_profiles m is)
             in seconds F (last - start))))"

definition named_times :: "'f farith \<Rightarrow> 'f monitoring \<Rightarrow> (string \<times> nat) list \<Rightarrow> string \<Rightarrow> 'f list" where
  "named_times F m entries name =
    map (profile_exclusive_time F) (filter (\<lambda>pf. pf_wname pf = name) (map (\<lambda>(_, p). mn_heap m ! p) entries))"

definition get_average_exclusive_time :: "'f farith \<Rightarrow> 'f monitoring \<Rightarrow> (string \<times> nat) list \<Rightarrow> string \<Rightarrow> 'f" where
  "get_average_exclusive_time F m entries name =
    (let ts = named_times F m entries name
     in if 0 < length ts then fdiv F (fsum F ts) (fof_int F (int (length ts))) else fof_int F 0)"

definition get_minimum_exclusive_time :: "'f farith \<Rightarrow> 'f \<Rightarrow> 'f monitoring \<Rightarrow> (string \<times> nat) list \<Rightarrow> string \<Rightarrow> 'f" where
  "get_minimum_exclusive_time F dbl_max m entries name =
    (let ts = named_times F m entries name
     in if 0 < length ts then foldl (\<lambda>acc t. if flt F t acc then t else acc) dbl_max ts else fof_int F 0)"

definition get_maximum_exclusive_time :: "'f farith \<Rightarrow> 'f monitoring \<Rightarrow> (string \<times> nat) list \<Rightarrow> string \<Rightarrow> 'f" where
  "get_maximum_exclusive_time F m entries name =
    foldl (\<lambda>acc t. if flt F acc t then t else acc) (fof_int F 0) (named_times F m entries name)"

definition get_children_mean_time :: "'f farith \<Rightarrow> 'f monitoring \<Rightarrow> string \<Rightarrow> 'f" where
  "get_children_mean_time F m i =
    (case wi_dependencies m i of None \<Rightarrow> fof_int F 0
     | Some is \<Rightarrow>
        if 0 < length is then fdiv F (fsum F (map (profile_exclusive_time F) (child_profiles m is))) (fof_int F (int (length is)))
        else fof_int F 0)"

text \<open>The divisor times.size() - 1 is unsigned.\<close>

definition get_children_SD_time :: "'f farith \<Rightarrow> 'f monitoring \<Rightarrow> string \<Rightarrow> 'f" where
  "get_children_SD_time F m i =
    (case wi_dependencies m i of None \<Rightarrow> fof_int F 0
     | Some is \<Rightarrow>
        (let times = map (profile_exclusive_time F) (child_profiles m is);
             mean = fdiv F (fsum F times) (fof_int F (int (length times)));
             accum = foldl (\<lambda>acc d. fadd F acc (fmul F (fsub F d mean) (fsub F d mean))) (fof_int F 0) times
         in fsqrt F (fdiv F accum (fof_int F (uint (word_of_nat (length times) - 1 :: size_t))))))"

text \<open>The last n work items that were processed.\<close>

definition last_times :: "'f monitoring \<Rightarrow> uint32_t \<Rightarrow> 'f list" where
  "last_times m n = take (unat n) (rev (work_item_times m))"

definition number_of_last :: "'f farith \<Rightarrow> 'f monitoring \<Rightarrow> uint32_t \<Rightarrow> 'f" where
  "number_of_last F m n =
    (if unat n \<le> length (work_item_times m) then fof_int F (uint n) else fof_int F (int (length (work_item_times m))))"

definition get_avg_work_item_times :: "'f farith \<Rightarrow> 'f monitoring \<Rightarrow> uint32_t \<Rightarrow> 'f" where
  "get_avg_work_item_times F m n = fdiv F (fsum F (last_times m n)) (number_of_last F m n)"

definition get_SD_work_item_times :: "'f farith \<Rightarrow> ('f \<Rightarrow> 'f) \<Rightarrow> 'f monitoring \<Rightarrow> uint32_t \<Rightarrow> 'f" where
  "get_SD_work_item_times F square m n =
    (let mean = get_avg_work_item_times F m n;
         acc = foldl (\<lambda>acc t. fadd F acc (square (fsub F t mean))) (fof_int F 0) (last_times m n)
     in fsqrt F (fdiv F acc (number_of_last F m n)))"

section \<open>The history of iterations\<close>

record 'f historical_data =
  last_iteration_start :: int
  current_iteration :: int
  iteration_time :: "'f list"
  iteration_roots :: "string list"

definition new_historical_data :: "'f historical_data" where
  "new_historical_data = \<lparr>last_iteration_start = 0, current_iteration = - 1, iteration_time = [], iteration_roots = []\<rparr>"

definition add_tree_root :: "string \<Rightarrow> 'f historical_data \<Rightarrow> 'f historical_data" where
  "add_tree_root label h = h\<lparr>iteration_roots := iteration_roots h @ [label]\<rparr>"

definition new_iteration :: "'f farith \<Rightarrow> int \<Rightarrow> string \<Rightarrow> 'f historical_data \<Rightarrow> 'f historical_data" where
  "new_iteration F now label h =
    h\<lparr>iteration_time := iteration_time h @ [seconds F (now - last_iteration_start h)],
      iteration_roots := iteration_roots h @ [label], last_iteration_start := now, current_iteration := current_iteration h + 1\<rparr>"

definition w_app_iteration :: "'f farith \<Rightarrow> int \<Rightarrow> string \<Rightarrow> 'f historical_data \<Rightarrow> 'f historical_data" where
  "w_app_iteration F now i h =
    (if current_iteration h < 0 then
       (let h = add_tree_root i (h\<lparr>last_iteration_start := now\<rparr>) in h\<lparr>current_iteration := current_iteration h + 1\<rparr>)
     else new_iteration F now i h)"

definition get_iteration_time :: "'f farith \<Rightarrow> nat \<Rightarrow> 'f historical_data \<Rightarrow> 'f" where
  "get_iteration_time F i h = (if length (iteration_time h) \<le> i then fof_int F 0 else iteration_time h ! i)"

definition get_last_iteration_time :: "'f farith \<Rightarrow> 'f historical_data \<Rightarrow> 'f" where
  "get_last_iteration_time F h = (if iteration_time h = [] then fof_int F 0 else last (iteration_time h))"

definition get_number_of_iterations :: "'f historical_data \<Rightarrow> int" where
  "get_number_of_iterations h = current_iteration h"

definition get_avg_time_last_iterations :: "'f farith \<Rightarrow> uint32_t \<Rightarrow> 'f historical_data \<Rightarrow> 'f" where
  "get_avg_time_last_iterations F n h =
    (let ts = take (unat n) (rev (iteration_time h))
     in fdiv F (fsum F ts) (fof_int F (uint (word_of_nat (length ts) + 1 :: uint32_t))))"

text \<open>string::replace takes a count beyond the end of the string for its end.\<close>

definition match_previous_treeture :: "string \<Rightarrow> 'f historical_data \<Rightarrow> string option" where
  "match_previous_treeture i h =
    (let last = current_iteration h - 1
     in if 0 \<le> last then map_option (\<lambda>root. root @ drop (length root) i) (at_opt (iteration_roots h) (nat last)) else Some i)"

section \<open>The idle rate\<close>

text \<open>The buffer has eight elements.\<close>

record measure_buffer =
  mb_data :: "int list"
  mb_times :: "int list"
  mb_counter :: size_t
  mb_next :: nat

definition measure_buffer_size :: nat where
  "measure_buffer_size = 8"

definition mb_push :: "int \<Rightarrow> int \<Rightarrow> measure_buffer \<Rightarrow> measure_buffer" where
  "mb_push x now b = b\<lparr>mb_data := (mb_data b)[mb_next b := x], mb_times := (mb_times b)[mb_next b := now],
     mb_next := (mb_next b + 1) mod measure_buffer_size, mb_counter := mb_counter b + 1\<rparr>"

definition oldest_position :: "measure_buffer \<Rightarrow> nat" where
  "oldest_position b = (if mb_counter b < word_of_nat measure_buffer_size then 0 else mb_next b)"

definition oldest_data :: "measure_buffer \<Rightarrow> int" where
  "oldest_data b = mb_data b ! oldest_position b"

definition oldest_time :: "measure_buffer \<Rightarrow> int" where
  "oldest_time b = mb_times b ! oldest_position b"

text \<open>The members for the times of tasks; durations are in nanoseconds.  The constructor does not set the data of the buffer
  and the process time.\<close>

record 'f task_timing =
  tt_enabled :: bool
  tt_times :: "'f list"
  tt_last_times :: "'f list"
  tt_last_sample :: int
  tt_process_time :: int
  tt_buffer :: measure_buffer
  tt_idle_rates :: "'f list"
  tt_idle_idx :: nat
  tt_num_cpus :: int

definition idle_rate_history_count :: nat where
  "idle_rate_history_count = 1"

definition monitor_add_task_time :: "'p path_ops \<Rightarrow> 'f farith \<Rightarrow> 'p \<Rightarrow> int \<Rightarrow> 'f task_timing \<Rightarrow> 'f task_timing option" where
  "monitor_add_task_time P F p time t =
    (if \<not> tt_enabled t then Some t
     else do {
       ts \<leftarrow> task_times_add P F (tt_times t) p time;
       Some (t\<lparr>tt_times := ts, tt_process_time := tt_process_time t + time\<rparr>)})"

definition monitor_get_task_times :: "'f farith \<Rightarrow> int \<Rightarrow> 'f task_timing \<Rightarrow> ('f list \<times> 'f task_timing) option" where
  "monitor_get_task_times F now t =
    (if \<not> tt_enabled t then Some (new_task_times F, t)
     else do {
       d \<leftarrow> times_minus F (tt_times t) (tt_last_times t);
       Some (times_div F d (fof_int F (now - tt_last_sample t)), t\<lparr>tt_last_sample := now, tt_last_times := tt_times t\<rparr>)})"

definition get_idle_rate :: "'f farith \<Rightarrow> int \<Rightarrow> 'f task_timing \<Rightarrow> 'f \<times> 'f task_timing" where
  "get_idle_rate F now t =
    (let d1 = tt_process_time t - oldest_data (tt_buffer t);
         d2 = now - oldest_time (tt_buffer t);
         cur = fsub F (fof_int F 1) (fdiv F (fof_int F d1) (fmul F (fof_int F d2) (fof_int F (tt_num_cpus t))));
         rates = (tt_idle_rates t)[tt_idle_idx t := cur]
     in (fdiv F (fsum F rates) (fof_int F (int idle_rate_history_count)),
         t\<lparr>tt_idle_rates := rates, tt_idle_idx := (tt_idle_idx t + 1) mod idle_rate_history_count,
           tt_buffer := mb_push (tt_process_time t) now (tt_buffer t)\<rparr>))"

section \<open>Sampling of the node\<close>

text \<open>The counters that are registered, and the line of /proc/stat if the file is open; when it is not, sample\_node
  computes with variables that were never set.\<close>

record node_counters =
  nc_memory :: "uint64_t option"
  nc_mpi :: "(uint64_t \<times> uint64_t) option"
  nc_tcp :: "(uint64_t \<times> uint64_t) option"
  nc_stat :: "(uint64_t \<times> uint64_t \<times> uint64_t \<times> uint64_t) option"

record 'f sampling =
  sampling_interval_ms :: int
  task_throughput :: 'f
  weighted_throughput :: 'f
  resident_memory :: uint64_t
  bytes_sent :: uint64_t
  bytes_recv :: uint64_t
  last_cpu_times :: "uint64_t \<times> uint64_t \<times> uint64_t \<times> uint64_t"
  cpu_load :: 'f
  print_throughput_hm :: bool
  throughput_history :: "'f list"

definition cpu_load_of :: "'f farith \<Rightarrow> (uint64_t \<times> uint64_t \<times> uint64_t \<times> uint64_t) \<Rightarrow>
    (uint64_t \<times> uint64_t \<times> uint64_t \<times> uint64_t) \<Rightarrow> 'f" where
  "cpu_load_of S = (\<lambda>(user, nice, system, idle) (last_user, last_nice, last_system, last_idle).
     (let used = (user - last_user) + (nice - last_nice) + (system - last_system)
      in fdiv S (fof_int S (uint used)) (fof_int S (uint (used + (idle - last_idle))))))"

definition sample_node :: "'f farith \<Rightarrow> 'f farith \<Rightarrow> node_counters \<Rightarrow> 'f monitoring \<Rightarrow> 'f sampling \<Rightarrow> ('f monitoring \<times> 'f sampling) option" where
  "sample_node F S c m s = do {
     stat \<leftarrow> nc_stat c;
     let memory = (case nc_memory c of None \<Rightarrow> 0 | Some x \<Rightarrow> x);
     let (in_mpi, out_mpi) = (case nc_mpi c of None \<Rightarrow> (0, 0) | Some x \<Rightarrow> x);
     let (in_tcp, out_tcp) = (case nc_tcp c of None \<Rightarrow> (0, 0) | Some x \<Rightarrow> x);
     let seconds = fdiv F (fof_int F (sampling_interval_ms s)) (fof_int F 1000);
     let throughput = fdiv F (fof_int F (sint (finished_tasks m))) seconds;
     Some (m\<lparr>finished_tasks := 0, weighted_sum := fof_int F 0\<rparr>,
       s\<lparr>task_throughput := throughput, weighted_throughput := fdiv F (weighted_sum m) seconds, resident_memory := memory,
         bytes_sent := out_mpi + out_tcp, bytes_recv := in_mpi + out_tcp, cpu_load := cpu_load_of S stat (last_cpu_times s),
         last_cpu_times := stat,
         throughput_history := (if print_throughput_hm s then throughput_history s @ [throughput] else throughput_history s)\<rparr>)}"

section \<open>Frequencies\<close>

text \<open>The files of a processor: its available frequencies, or else its least and its greatest one.\<close>

record cpu_files =
  cf_available :: "uint64_t list option"
  cf_min :: "uint64_t option"
  cf_max :: "uint64_t option"

definition cpu_freqs_of :: "cpu_files \<Rightarrow> uint64_t list" where
  "cpu_freqs_of f = (case cf_available f of
     Some freqs \<Rightarrow> freqs
   | None \<Rightarrow> [case cf_min f of None \<Rightarrow> 0 | Some x \<Rightarrow> x, case cf_max f of None \<Rightarrow> 0 | Some x \<Rightarrow> x])"

definition get_cpus_info :: "(nat \<Rightarrow> cpu_files) \<Rightarrow> nat \<Rightarrow> (int \<times> uint64_t list) list \<Rightarrow> (int \<times> uint64_t list) list" where
  "get_cpus_info files n freqs = foldl (\<lambda>fs i. map_insert (int i) (cpu_freqs_of (files i)) fs) freqs [0..<n]"

definition get_available_freqs :: "(int \<times> uint64_t list) list \<Rightarrow> int \<Rightarrow> uint64_t list" where
  "get_available_freqs freqs cpu = (case map_of freqs cpu of None \<Rightarrow> [] | Some fs \<Rightarrow> fs)"

text \<open>front and back of an empty vector are not allowed.\<close>

definition get_min_freq :: "(int \<times> uint64_t list) list \<Rightarrow> int \<Rightarrow> uint64_t option" where
  "get_min_freq freqs cpu = (case map_of freqs cpu of None \<Rightarrow> Some 0
     | Some fs \<Rightarrow> if fs = [] then None else Some (min (last fs) (hd fs)))"

definition get_max_freq :: "(int \<times> uint64_t list) list \<Rightarrow> int \<Rightarrow> uint64_t option" where
  "get_max_freq freqs cpu = (case map_of freqs cpu of None \<Rightarrow> Some 0
     | Some fs \<Rightarrow> if fs = [] then None else Some (max (last fs) (hd fs)))"

section \<open>What stop collects\<close>

record 'f work_item_stats =
  ws_id :: string
  ws_name :: string
  ws_exclusive_time :: 'f
  ws_inclusive_time :: 'f
  ws_children_mean :: 'f
  ws_children_SD :: 'f

definition local_stats :: "'f farith \<Rightarrow> 'f monitoring \<Rightarrow> (string \<times> 'f work_item_stats) list" where
  "local_stats F m = map (\<lambda>(i, p). (i, \<lparr>ws_id = i, ws_name = pf_wname (mn_heap m ! p),
     ws_exclusive_time = get_exclusive_time F m i, ws_inclusive_time = get_inclusive_time F m i,
     ws_children_mean = get_children_mean_time F m i, ws_children_SD = get_children_SD_time F m i\<rparr>)) (profiles m)"

text \<open>The maps of all localities are inserted one after the other: an element whose key is there is left out.\<close>

definition gather_maps :: "('k \<times> 'v) list list \<Rightarrow> ('k \<times> 'v) list" where
  "gather_maps ms = fold (fold (\<lambda>(k, v). map_insert k v)) ms []"

text \<open>The rows of the table, by their ids; the main work item is left out.\<close>

definition table_rows :: "(string \<times> 'f work_item_stats) list \<Rightarrow> 'f work_item_stats list" where
  "table_rows stats = List.map_filter (\<lambda>i. if i = ''0'' then None else map_of stats i) (sort (map fst stats))"

text \<open>The lines of a heat map: the locality, the number of the sample, and the sample; 0.0 where there is none.\<close>

definition heatmap_rows :: "'f list list \<Rightarrow> (nat \<times> nat \<times> 'f option) list" where
  "heatmap_rows buffer =
    (let max_sample = foldl (\<lambda>mx row. if mx \<le> length row then length row else mx) 0 buffer
     in concat (map (\<lambda>(loc, row). map (\<lambda>i. (loc, i, if i < length row then Some (row ! i) else None)) [0..<max_sample])
          (zip [0..<length buffer] buffer)))"

section \<open>Times in exact arithmetic\<close>

declare fsum_rat [simp]

lemma foldl_min_rat: "foldl (\<lambda>acc t. if flt rat_arith t acc then t else acc) a ts = Min (insert a (set ts))"
proof (induction ts arbitrary: a)
  case (Cons t ts)
  have "(if t < a then t else a) = min t a" by (simp add: min_def)
  then show ?case using Cons.IH [of "min t a"] by (cases "ts = []") (simp_all add: insert_commute min.commute min.left_commute)
qed simp

lemma foldl_max_rat: "foldl (\<lambda>acc t. if flt rat_arith acc t then t else acc) a ts = Max (insert a (set ts))"
proof (induction ts arbitrary: a)
  case (Cons t ts)
  have "(if a < t then t else a) = max a t" by (simp add: max_def)
  then show ?case using Cons.IH [of "max a t"] by (cases "ts = []") (simp_all add: insert_commute max.commute max.left_commute)
qed simp

lemma mean_between:
  fixes ts :: "rat list"
  assumes "ts \<noteq> []" and "\<And>t. t \<in> set ts \<Longrightarrow> lo \<le> t \<and> t \<le> hi"
  shows "lo \<le> sum_list ts / of_nat (length ts)" and "sum_list ts / of_nat (length ts) \<le> hi"
proof -
  have "of_nat (length ts) * lo \<le> sum_list ts \<and> sum_list ts \<le> of_nat (length ts) * hi" using assms(2)
  proof (induction ts)
    case (Cons t ts)
    then have "lo \<le> t" "t \<le> hi" "of_nat (length ts) * lo \<le> sum_list ts \<and> sum_list ts \<le> of_nat (length ts) * hi" by simp_all
    then show ?case by (simp add: algebra_simps)
  qed simp
  moreover have "0 < (of_nat (length ts) :: rat)" using assms(1) by simp
  ultimately show "lo \<le> sum_list ts / of_nat (length ts)" "sum_list ts / of_nat (length ts) \<le> hi"
    by (simp_all add: field_simps)
qed

lemma named_times_perm:
  assumes "mset entries = mset entries'"
  shows "mset (named_times F m entries name) = mset (named_times F m entries' name)"
  by (simp only: named_times_def mset_map mset_filter assms)

section \<open>The window of the idle rate\<close>

text \<open>The buffer after the pairs xs have been pushed.\<close>

definition buffer_holds :: "(int \<times> int) list \<Rightarrow> measure_buffer \<Rightarrow> bool" where
  "buffer_holds xs b \<longleftrightarrow> length (mb_data b) = 8 \<and> length (mb_times b) = 8 \<and> mb_counter b = word_of_nat (length xs) \<and>
     mb_next b = length xs mod 8 \<and>
     (\<forall>i < length xs. length xs \<le> i + 8 \<longrightarrow> mb_data b ! (i mod 8) = fst (xs ! i) \<and> mb_times b ! (i mod 8) = snd (xs ! i))"

lemma push_holds:
  assumes "buffer_holds xs b"
  shows "buffer_holds (xs @ [(x, now)]) (mb_push x now b)"
proof -
  have "length xs mod 8 \<noteq> i mod 8" if "i < length xs" "Suc (length xs) \<le> i + 8" for i
  proof
    assume "length xs mod 8 = i mod 8"
    then have "8 dvd length xs - i" using that(1) by (metis mod_eq_dvd_iff_nat less_imp_le_nat)
    then show False using that by (auto dest: dvd_imp_le)
  qed
  then show ?thesis using assms unfolding buffer_holds_def
    by (auto simp: mb_push_def measure_buffer_size_def nth_append mod_Suc_eq less_Suc_eq)
qed

lemma oldest_in_window:
  assumes "buffer_holds xs b" and "xs \<noteq> []" and "length xs < 2 ^ 64"
  shows "oldest_data b = fst (xs ! (length xs - 8)) \<and> oldest_time b = snd (xs ! (length xs - 8))"
proof -
  have c: "unat (mb_counter b) = length xs" using assms(1,3) by (simp add: buffer_holds_def unat_of_nat)
  have e: "mb_counter b < word_of_nat measure_buffer_size \<longleftrightarrow> length xs < 8" using c by (simp add: word_less_nat_alt measure_buffer_size_def)
  show ?thesis
  proof (cases "length xs < 8")
    case True
    then show ?thesis using assms(1,2) e by (auto simp: oldest_data_def oldest_time_def oldest_position_def buffer_holds_def dest: spec [of _ 0])
  next
    case False
    have "(length xs - 8) mod 8 = length xs mod 8" using False by (metis le_add_diff_inverse2 leI mod_add_self2)
    then show ?thesis using assms(1,2) e False
      by (auto simp: oldest_data_def oldest_time_def oldest_position_def buffer_holds_def dest: spec [of _ "length xs - 8"])
  qed
qed

text \<open>Calls of get\_idle\_rate: the process time at the call, and the time of the call.\<close>

fun idle_calls :: "'f farith \<Rightarrow> (int \<times> int) list \<Rightarrow> 'f task_timing \<Rightarrow> 'f list \<times> 'f task_timing" where
  "idle_calls F [] t = ([], t)"
| "idle_calls F ((p, now) # cs) t =
    (let (r, t) = get_idle_rate F now (t\<lparr>tt_process_time := p\<rparr>); (rs, t) = idle_calls F cs t in (r # rs, t))"

lemma idle_call:
  assumes "buffer_holds xs (tt_buffer t)" and "length (tt_idle_rates t) = 1" and "tt_idle_idx t = 0" and "length xs < 2 ^ 64"
    and "get_idle_rate rat_arith now (t\<lparr>tt_process_time := p\<rparr>) = (r, t')"
  shows "buffer_holds (xs @ [(p, now)]) (tt_buffer t')" and "length (tt_idle_rates t') = 1" and "tt_idle_idx t' = 0"
    and "tt_num_cpus t' = tt_num_cpus t"
    and "xs \<noteq> [] \<Longrightarrow> r = 1 - of_int (p - fst (xs ! (length xs - 8))) / (of_int (now - snd (xs ! (length xs - 8))) * of_int (tt_num_cpus t))"
proof -
  obtain x where x: "tt_idle_rates t = [x]" using assms(2) by (cases "tt_idle_rates t") auto
  show "buffer_holds (xs @ [(p, now)]) (tt_buffer t')" "length (tt_idle_rates t') = 1" "tt_idle_idx t' = 0" "tt_num_cpus t' = tt_num_cpus t"
    using push_holds [OF assms(1), of p now] assms(2,3,5) by (auto simp: get_idle_rate_def idle_rate_history_count_def Let_def)
  show "r = 1 - of_int (p - fst (xs ! (length xs - 8))) / (of_int (now - snd (xs ! (length xs - 8))) * of_int (tt_num_cpus t))"
    if "xs \<noteq> []"
    using oldest_in_window [OF assms(1) that assms(4)] assms(3,5) x
    by (auto simp: get_idle_rate_def idle_rate_history_count_def Let_def)
qed

lemma idle_calls_nth:
  assumes "buffer_holds xs (tt_buffer t)" and "length (tt_idle_rates t) = 1" and "tt_idle_idx t = 0"
    and "length xs + length cs < 2 ^ 64" and "k < length cs" and "0 < length xs + k"
  shows "fst (idle_calls rat_arith cs t) ! k = 1 - of_int (fst (cs ! k) - fst ((xs @ cs) ! (length xs + k - 8))) /
     (of_int (snd (cs ! k) - snd ((xs @ cs) ! (length xs + k - 8))) * of_int (tt_num_cpus t))"
  using assms
proof (induction cs arbitrary: xs t k)
  case (Cons c cs)
  obtain p now where c: "c = (p, now)" by (cases c)
  obtain r t' where g: "get_idle_rate rat_arith now (t\<lparr>tt_process_time := p\<rparr>) = (r, t')" by fastforce
  have lt: "length xs < 2 ^ 64" using Cons.prems(4) by simp
  note step = idle_call [OF Cons.prems(1,2,3) lt g]
  have i: "fst (idle_calls rat_arith (c # cs) t) = r # fst (idle_calls rat_arith cs t')" using g c by (simp split: prod.splits)
  show ?case
  proof (cases k)
    case 0
    then have "xs \<noteq> []" using Cons.prems(6) by auto
    then have "(xs @ c # cs) ! (length xs - 8) = xs ! (length xs - 8)" by (simp add: nth_append)
    then show ?thesis using step(5) [OF \<open>xs \<noteq> []\<close>] 0 c unfolding i by simp
  next
    case (Suc j)
    have "(xs @ [(p, now)]) @ cs = xs @ c # cs" "length (xs @ [(p, now)]) + j = length xs + k" using c Suc by simp_all
    then show ?thesis using Cons.IH [OF step(1,2,3), of j] Cons.prems(4,5) step(4) Suc unfolding i by simp
  qed
qed simp

text \<open>Iterations.\<close>

fun app_iterations :: "'f farith \<Rightarrow> (int \<times> string) list \<Rightarrow> 'f historical_data \<Rightarrow> 'f historical_data" where
  "app_iterations F [] h = h"
| "app_iterations F ((now, i) # cs) h = app_iterations F cs (w_app_iteration F now i h)"

definition history_of :: "'f farith \<Rightarrow> (int \<times> string) list \<Rightarrow> 'f historical_data \<Rightarrow> bool" where
  "history_of F cs h \<longleftrightarrow> iteration_roots h = map snd cs \<and> current_iteration h = int (length cs) - 1 \<and>
     iteration_time h = map (\<lambda>i. seconds F (fst (cs ! Suc i) - fst (cs ! i))) [0..<length cs - 1] \<and>
     (cs \<noteq> [] \<longrightarrow> last_iteration_start h = fst (last cs))"

lemma app_iteration_history:
  assumes "history_of F cs h"
  shows "history_of F (cs @ [(now, i)]) (w_app_iteration F now i h)"
proof (cases "cs = []")
  case True
  then show ?thesis using assms by (simp add: history_of_def w_app_iteration_def add_tree_root_def)
next
  case False
  then obtain n where n: "length cs = Suc n" by (cases cs) auto
  have "map (\<lambda>j. seconds F (fst ((cs @ [(now, i)]) ! Suc j) - fst ((cs @ [(now, i)]) ! j))) [0..<n] =
      map (\<lambda>j. seconds F (fst (cs ! Suc j) - fst (cs ! j))) [0..<n]"
    using n by (intro map_cong) (simp_all add: nth_append)
  moreover have "last cs = cs ! n" using False n by (simp add: last_conv_nth)
  ultimately show ?thesis using assms False n by (simp add: history_of_def w_app_iteration_def new_iteration_def nth_append)
qed

lemma app_iterations_history: "history_of F ds h \<Longrightarrow> history_of F (ds @ cs) (app_iterations F cs h)"
proof (induction cs arbitrary: ds h)
  case (Cons c cs)
  obtain now i where c: "c = (now, i)" by (cases c)
  show ?case using Cons.IH [OF app_iteration_history [OF Cons.prems, of now i]] c by simp
qed simp

lemma new_history: "history_of F [] new_historical_data"
  by (simp add: history_of_def new_historical_data_def)

section \<open>Properties\<close>

lemma named_times_set:
  assumes "mset entries = mset (profiles m)"
  shows "set (named_times F m entries name) = set (named_times F m (profiles m) name)"
    and "length (named_times F m entries name) = length (named_times F m (profiles m) name)"
  using mset_eq_setD [OF named_times_perm [OF assms, of F m name]] mset_eq_length [OF named_times_perm [OF assms, of F m name]] by simp_all

text \<open>The statistics of the work items with a name do not depend on the order in which the map of profiles is traversed: they
  are the least and the greatest of their times, and the average, which is between the two (in exact arithmetic).\<close>

theorem exclusive_time_statistics:
  assumes "mset entries = mset (profiles m)" and "named_times rat_arith m (profiles m) name = ts" and "ts \<noteq> []"
    and "\<And>t. t \<in> set ts \<Longrightarrow> 0 \<le> t \<and> t \<le> dbl_max"
  shows "get_minimum_exclusive_time rat_arith dbl_max m entries name = Min (set ts) \<and>
    get_maximum_exclusive_time rat_arith m entries name = Max (set ts) \<and>
    get_average_exclusive_time rat_arith m entries name = sum_list ts / of_nat (length ts) \<and>
    Min (set ts) \<le> get_average_exclusive_time rat_arith m entries name \<and>
    get_average_exclusive_time rat_arith m entries name \<le> Max (set ts)"
proof -
  let ?us = "named_times rat_arith m entries name"
  have us: "set ?us = set ts" "length ?us = length ts" "sum_list ?us = sum_list ts" "?us \<noteq> []"
    using named_times_set [OF assms(1), of rat_arith name] named_times_perm [OF assms(1), of rat_arith m name] assms(2,3)
    by (auto simp flip: sum_mset_sum_list)
  have "get_minimum_exclusive_time rat_arith dbl_max m entries name = Min (insert dbl_max (set ts))"
    using us(4) by (simp only: get_minimum_exclusive_time_def Let_def foldl_min_rat us(1)) simp
  also have "\<dots> = Min (set ts)" using assms(3,4) by (simp add: min_absorb2)
  finally have 1: "get_minimum_exclusive_time rat_arith dbl_max m entries name = Min (set ts)" .
  have "get_maximum_exclusive_time rat_arith m entries name = Max (insert 0 (set ts))"
    by (simp only: get_maximum_exclusive_time_def foldl_max_rat us(1)) simp
  also have "\<dots> = Max (set ts)" using assms(3) assms(4) [of "Max (set ts)"] by (simp add: max_absorb2)
  finally have 2: "get_maximum_exclusive_time rat_arith m entries name = Max (set ts)" .
  have 3: "get_average_exclusive_time rat_arith m entries name = sum_list ts / of_nat (length ts)"
    using us by (simp add: get_average_exclusive_time_def Let_def)
  have "Min (set ts) \<le> t \<and> t \<le> Max (set ts)" if "t \<in> set ts" for t using that by simp
  from mean_between [OF assms(3) this] show ?thesis using 1 2 3 by simp
qed

text \<open>From its second call on, the idle rate is computed over the time since the call eight calls ago (or the first one): it
  is 1 less the share of the processors' time in this window that was spent in tasks.  Where the tasks did not take
  more than all processors have, it is between 0 and 1.\<close>

theorem idle_rate_window:
  assumes "buffer_holds [] (tt_buffer t)" and "length (tt_idle_rates t) = 1" and "tt_idle_idx t = 0" and "length cs < 2 ^ 64"
    and "0 < k" and "k < length cs" and "fst (cs ! k) - fst (cs ! (k - 8)) = busy" and "snd (cs ! k) - snd (cs ! (k - 8)) = window"
  shows "fst (idle_calls rat_arith cs t) ! k = 1 - of_int busy / (of_int window * of_int (tt_num_cpus t)) \<and>
    (0 \<le> busy \<and> busy \<le> window * tt_num_cpus t \<and> 0 < window \<and> 0 < tt_num_cpus t \<longrightarrow>
     0 \<le> fst (idle_calls rat_arith cs t) ! k \<and> fst (idle_calls rat_arith cs t) ! k \<le> 1)"
proof -
  have e: "fst (idle_calls rat_arith cs t) ! k = 1 - of_int busy / (of_int window * of_int (tt_num_cpus t))"
    using idle_calls_nth [OF assms(1-3), of cs k] assms(4-8) by simp
  have "0 \<le> (of_int busy / (of_int window * of_int (tt_num_cpus t)) :: rat) \<and> (of_int busy / (of_int window * of_int (tt_num_cpus t)) :: rat) \<le> 1"
    if "0 \<le> busy" "busy \<le> window * tt_num_cpus t" "0 < window" "0 < tt_num_cpus t"
  proof -
    have "(of_int busy :: rat) \<le> of_int window * of_int (tt_num_cpus t)" using that(2) by (metis of_int_le_iff of_int_mult)
    moreover have "0 < (of_int window * of_int (tt_num_cpus t) :: rat)" using that(3,4) by simp
    ultimately show ?thesis using that(1) by simp
  qed
  then show ?thesis using e by auto
qed

definition demo_timing :: "rat task_timing" where
  "demo_timing = \<lparr>tt_enabled = True, tt_times = [], tt_last_times = [], tt_last_sample = 0, tt_process_time = 0,
     tt_buffer = \<lparr>mb_data = [17, 0, 0, 0, 0, 0, 0, 0], mb_times = replicate 8 0, mb_counter = 0, mb_next = 0\<rparr>,
     tt_idle_rates = [1], tt_idle_idx = 0, tt_num_cpus = 4\<rparr>"

theorem idle_rate_window_witness: "fst (idle_calls rat_arith [(0, 10), (10, 20), (60, 40)] demo_timing) ! 2 = 1 / 2"
proof -
  have "buffer_holds [] (tt_buffer demo_timing)" by (simp add: demo_timing_def buffer_holds_def)
  from idle_rate_window [OF this, of "[(0, 10), (10, 20), (60, 40)]" 2 60 30] show ?thesis by (simp add: demo_timing_def)
qed

definition demo_monitoring :: "rat monitoring" where
  "demo_monitoring = (start_monitoring rat_arith 0)\<lparr>mn_heap := [new_profile 0 ''0'' ''Main'' '' '',
      (new_profile 0 ''0.0'' ''fib'' ''0'')\<lparr>pf_end := 2000000000\<rparr>, (new_profile 0 ''0.1'' ''fib'' ''0'')\<lparr>pf_end := 4000000000\<rparr>],
    profiles := [(''0'', 0), (''0.0'', 1), (''0.1'', 2)], wi_dependencies := [''0'' \<mapsto> [''0.0'', ''0.1'']]\<rparr>"

theorem exclusive_time_statistics_witness:
  "get_minimum_exclusive_time rat_arith 100 demo_monitoring [(''0.1'', 2), (''0'', 0), (''0.0'', 1)] ''fib'' = 2 \<and>
   get_average_exclusive_time rat_arith demo_monitoring [(''0.1'', 2), (''0'', 0), (''0.0'', 1)] ''fib'' = 3"
proof -
  have p: "mset [(''0.1'', 2), (''0'', 0), (''0.0'', 1)] = mset (profiles demo_monitoring)" by (simp add: demo_monitoring_def)
  have t: "named_times rat_arith demo_monitoring (profiles demo_monitoring) ''fib'' = [2, 4]"
    by (simp add: demo_monitoring_def named_times_def profile_exclusive_time_def seconds_def new_profile_def)
  have "0 \<le> x \<and> x \<le> 100" if "x \<in> set [2, 4]" for x :: rat using that by auto
  from exclusive_time_statistics [OF p t _ this] show ?thesis by simp
qed

section \<open>Where the monitor departs from its documentation\<close>

text \<open>The average of the last iterations is divided by their number plus one.\<close>

lemma average_iteration_time_low:
  assumes "history_of rat_arith [(t0, i), (t1, j)] h" and "n \<noteq> 0"
  shows "get_avg_time_last_iterations rat_arith n h = get_last_iteration_time rat_arith h / 2"
proof -
  obtain k where "unat n = Suc k" using assms(2) by (metis not0_implies_Suc unat_eq_zero)
  then show ?thesis using assms(1) by (simp add: history_of_def get_avg_time_last_iterations_def get_last_iteration_time_def)
qed

text \<open>A work item without children has no inclusive time.\<close>

lemma leaf_has_no_inclusive_time: "wi_dependencies m i = None \<Longrightarrow> get_inclusive_time F m i = fof_int F 0"
  by (simp add: get_inclusive_time_def split: option.splits)

text \<open>The prefix of an id is exchanged only if the roots have the same length.\<close>

lemma match_previous_root:
  assumes "history_of F cs h" and "length cs = Suc (Suc n)" and "length (snd (cs ! Suc n)) = length (snd (cs ! n))"
  shows "match_previous_treeture (snd (cs ! Suc n) @ rest) h = Some (snd (cs ! n) @ rest)"
  using assms by (simp add: match_previous_treeture_def history_of_def)

lemma match_previous_longer:
  "history_of F [(t0, ''9''), (t1, ''10'')] h \<Longrightarrow> match_previous_treeture ''10.0'' h = Some ''90.0''"
  by (simp add: match_previous_treeture_def history_of_def)

text \<open>The children that a work item has on a second locality are lost.\<close>

lemma gathered_children_lost: "gather_maps [[(''0'', [''0.0''])], [(''0'', [''0.1''])]] = [(''0'', [''0.0''])]"
  by (simp add: gather_maps_def map_insert_def)

text \<open>The bytes that were received over TCP are not counted, those that were sent are.\<close>

lemma received_counts_sent:
  "nc_mpi c = None \<Longrightarrow> nc_tcp c = Some (i, out) \<Longrightarrow> sample_node F S c m s = Some (m', s') \<Longrightarrow> bytes_recv s' = out"
  by (cases "nc_stat c") (auto simp: sample_node_def Let_def split: option.splits)

text \<open>The ends of the list of frequencies are the least and the greatest one, whichever way the list is sorted.\<close>

lemma min_max_freq:
  assumes "map_of freqs cpu = Some fs" and "fs \<noteq> []" and "sorted fs \<or> sorted (rev fs)"
  shows "get_min_freq freqs cpu = Some (Min (set fs))" and "get_max_freq freqs cpu = Some (Max (set fs))"
proof -
  have e: "(\<forall>x \<in> set fs. hd fs \<le> x \<and> x \<le> last fs) \<or> (\<forall>x \<in> set fs. last fs \<le> x \<and> x \<le> hd fs)"
    using assms(3)
  proof
    assume s: "sorted fs"
    have "hd fs \<le> x \<and> x \<le> last fs" if "x \<in> set fs" for x
      using s that assms(2) by (auto simp: in_set_conv_nth hd_conv_nth last_conv_nth intro: sorted_nth_mono)
    then show ?thesis by blast
  next
    assume s: "sorted (rev fs)"
    have "last fs \<le> x \<and> x \<le> hd fs" if "x \<in> set fs" for x
      using s that assms(2) by (auto simp: sorted_rev_iff_nth_mono in_set_conv_nth hd_conv_nth last_conv_nth)
    then show ?thesis by blast
  qed
  have "Min (set fs) = min (last fs) (hd fs)" "Max (set fs) = max (last fs) (hd fs)"
    using e assms(2) by (auto intro!: Min_eqI Max_eqI simp: min_def max_def)
  then show "get_min_freq freqs cpu = Some (Min (set fs))" "get_max_freq freqs cpu = Some (Max (set fs))"
    using assms(1,2) by (simp_all add: get_min_freq_def get_max_freq_def)
qed

end
