(* ===== verification/Thread_Control.thy ===== *)
theory Thread_Control
  imports Step_Systems Prelude
begin

text \<open>
  The control of the worker threads of a locality: suspend\_threads, resume\_threads and update\_active\_osthreads of
  src/components/scheduler\_component.cpp.

  The thread pools, one for each NUMA domain, belong to HPX.  A pool has the processing units of its threads and a mask of the
  units that HPX uses, which changes when a suspension or a resumption takes effect.  A mask is a list of
  bits.  suspend\_threads and resume\_threads give up their lock while they wait for the pool: each is a first part that
  chooses the threads, the changes of the pool, and a last part.  None is undefined behaviour: an index out of a mask
  or of a pool, a mask that was never set, or a loop whose counter passes 0.
\<close>

section \<open>Pools and masks\<close>

type_synonym mask_type = "bool list"

record thread_pool =
  tp_pus :: "nat list"
  tp_used :: mask_type

record thread_control =
  tc_pools :: "thread_pool list"
  initial_masks :: "mask_type list"
  suspending_masks :: "mask_type list"
  resuming_masks :: "mask_type list"
  tc_active_threads :: size_t
  growing :: bool
  min_threads :: nat
  tc_os_threads :: nat
  depth_cut_off :: nat
  meas_active_sum :: uint64_t
  meas_active_count :: uint64_t
  meas_active_max :: uint64_t
  meas_active_min :: uint64_t

definition mask_test :: "mask_type \<Rightarrow> nat \<Rightarrow> bool option" where
  "mask_test m i = at_opt m i"

definition mask_put :: "nat \<Rightarrow> bool \<Rightarrow> mask_type \<Rightarrow> mask_type option" where
  "mask_put i b m = (if i < length m then Some (m[i := b]) else None)"

definition mask_count :: "mask_type \<Rightarrow> nat" where
  "mask_count m = count_list m True"

definition mask_xor :: "mask_type \<Rightarrow> mask_type \<Rightarrow> mask_type" where
  "mask_xor m k = map2 (\<noteq>) m k"

section \<open>The metric of active threads\<close>

definition update_active_osthreads :: "size_t \<Rightarrow> thread_control \<Rightarrow> thread_control" where
  "update_active_osthreads delta tc =
    (let temp = tc_active_threads tc + delta;
         tc = (if meas_active_max tc = 0 then tc\<lparr>meas_active_max := temp\<rparr> else tc);
         tc = (if meas_active_min tc = 0 then tc\<lparr>meas_active_min := temp\<rparr> else tc)
     in if meas_active_sum tc = 0 then tc\<lparr>meas_active_count := meas_active_count tc + 1, meas_active_sum := tc_active_threads tc\<rparr>
     else if word_of_nat (min_threads tc) \<le> temp \<and> temp \<le> word_of_nat (tc_os_threads tc) then
       (let tc = tc\<lparr>meas_active_count := meas_active_count tc + 1, meas_active_sum := meas_active_sum tc + temp\<rparr>;
            tc = (if meas_active_max tc < temp then tc\<lparr>meas_active_max := temp\<rparr> else tc)
        in if temp < meas_active_min tc then tc\<lparr>meas_active_min := temp\<rparr> else tc)
     else tc)"

section \<open>The state of the pools\<close>

text \<open>What both operations do for a processing unit: a suspension or a resumption that has happened is no longer pending.  To
  suspend, a thread whose suspension is pending is not active; to resume, one whose resumption is pending is.\<close>

record pool_masks =
  pm_curr :: mask_type
  pm_suspending :: mask_type
  pm_resuming :: mask_type

definition settle_pu :: "bool \<Rightarrow> nat \<Rightarrow> pool_masks \<Rightarrow> pool_masks option" where
  "settle_pu suspend pu pm = do {
     c \<leftarrow> mask_test (pm_curr pm) pu;
     s \<leftarrow> mask_test (pm_suspending pm) pu;
     r \<leftarrow> mask_test (pm_resuming pm) pu;
     susp \<leftarrow> mask_put pu (s \<and> c) (pm_suspending pm);
     resm \<leftarrow> mask_put pu (r \<and> \<not> c) (pm_resuming pm);
     curr \<leftarrow> mask_put pu (if suspend then c \<and> \<not> s else c \<or> r) (pm_curr pm);
     Some \<lparr>pm_curr = curr, pm_suspending = susp, pm_resuming = resm\<rparr>}"

fun settle_pool :: "bool \<Rightarrow> nat list \<Rightarrow> pool_masks \<Rightarrow> pool_masks option" where
  "settle_pool suspend [] pm = Some pm"
| "settle_pool suspend (pu # pus) pm = do {
     pm \<leftarrow> settle_pu suspend pu pm;
     settle_pool suspend pus pm}"

text \<open>The scan of the pools: the number of active threads, and the number, the mask and the index of the pool that was selected;
  pools with equal numbers do not replace it.\<close>

record scan =
  sc_active :: nat
  sc_best :: nat
  sc_mask :: "mask_type option"
  sc_idx :: nat

definition scan_pool :: "bool \<Rightarrow> nat \<Rightarrow> scan \<times> thread_control \<Rightarrow> (scan \<times> thread_control) option" where
  "scan_pool suspend i = (\<lambda>(sc, tc). do {
     pool \<leftarrow> at_opt (tc_pools tc) i;
     susp \<leftarrow> at_opt (suspending_masks tc) i;
     resm \<leftarrow> at_opt (resuming_masks tc) i;
     init \<leftarrow> at_opt (initial_masks tc) i;
     pm \<leftarrow> settle_pool suspend (tp_pus pool) \<lparr>pm_curr = tp_used pool, pm_suspending = susp, pm_resuming = resm\<rparr>;
     let m = (if suspend then pm_curr pm else mask_xor (pm_curr pm) init);
     let sc = sc\<lparr>sc_active := sc_active sc + mask_count (pm_curr pm)\<rparr>;
     Some (if sc_best sc < mask_count m then sc\<lparr>sc_best := mask_count m, sc_mask := Some m, sc_idx := i\<rparr> else sc,
       tc\<lparr>suspending_masks := (suspending_masks tc)[i := pm_suspending pm],
          resuming_masks := (resuming_masks tc)[i := pm_resuming pm]\<rparr>)})"

fun scan_pools :: "bool \<Rightarrow> nat list \<Rightarrow> scan \<times> thread_control \<Rightarrow> (scan \<times> thread_control) option" where
  "scan_pools suspend [] s = Some s"
| "scan_pools suspend (i # is) s = do {
     s \<leftarrow> scan_pool suspend i s;
     scan_pools suspend is s}"

definition new_scan :: scan where
  "new_scan = \<lparr>sc_active = 0, sc_best = 0, sc_mask = None, sc_idx = 0\<rparr>"

text \<open>The scan, and the metric with the number of threads it found.\<close>

definition count_active :: "bool \<Rightarrow> thread_control \<Rightarrow> (scan \<times> thread_control) option" where
  "count_active suspend tc = do {
     (sc, tc) \<leftarrow> scan_pools suspend [0..<length (tc_pools tc)] (new_scan, tc);
     let tc = update_active_osthreads (word_of_nat (sc_active sc) - tc_active_threads tc) tc;
     Some (sc, tc\<lparr>tc_active_threads := word_of_nat (sc_active sc), growing := \<not> suspend\<rparr>)}"

section \<open>Suspending and resuming\<close>

text \<open>The threads with the indices is whose bit is set, at most n of them; all of them if n is 0, which the size of the vector
  never equals after an element is added.\<close>

fun choose_threads :: "mask_type \<Rightarrow> nat list \<Rightarrow> nat \<Rightarrow> nat list \<Rightarrow> nat list \<Rightarrow> nat list option" where
  "choose_threads msk pus n [] chosen = Some chosen"
| "choose_threads msk pus n (i # is) chosen = do {
     pu \<leftarrow> at_opt pus i;
     b \<leftarrow> mask_test msk pu;
     if b then
       if Suc (length chosen) = n then Some (chosen @ [i]) else choose_threads msk pus n is (chosen @ [i])
     else choose_threads msk pus n is chosen}"

definition mark_threads :: "nat list \<Rightarrow> nat list \<Rightarrow> mask_type \<Rightarrow> mask_type" where
  "mark_threads pus chosen m = foldl (\<lambda>m i. m[pus ! i := True]) m chosen"

text \<open>The result is the index of the pool and the threads to suspend, or nothing.  The loop runs from the last thread down to min\_threads: its
  counter is unsigned, so without a thread, or with min\_threads = 0, it leaves the pool unless the cap is
  reached before.\<close>

definition suspend_begin :: "nat \<Rightarrow> thread_control \<Rightarrow> ((nat \<times> nat list) option \<times> thread_control) option" where
  "suspend_begin n tc = do {
     (sc, tc) \<leftarrow> count_active True tc;
     if sc_best sc = min_threads tc then Some (None, tc)
     else do {
       msk \<leftarrow> sc_mask sc;
       pool \<leftarrow> at_opt (tc_pools tc) (sc_idx sc);
       susp \<leftarrow> at_opt (suspending_masks tc) (sc_idx sc);
       let count = length (tp_pus pool);
       chosen \<leftarrow> choose_threads msk (tp_pus pool) n (rev [min_threads tc..<count]) [];
       if (min_threads tc = 0 \<or> count = 0) \<and> length chosen \<noteq> n then None
       else Some (Some (sc_idx sc, chosen),
         tc\<lparr>suspending_masks := (suspending_masks tc)[sc_idx sc := mark_threads (tp_pus pool) chosen susp]\<rparr>)}}"

definition resume_begin :: "nat \<Rightarrow> thread_control \<Rightarrow> ((nat \<times> nat list) option \<times> thread_control) option" where
  "resume_begin n tc = do {
     (sc, tc) \<leftarrow> count_active False tc;
     if sc_best sc = 0 then Some (None, tc)
     else do {
       msk \<leftarrow> sc_mask sc;
       pool \<leftarrow> at_opt (tc_pools tc) (sc_idx sc);
       resm \<leftarrow> at_opt (resuming_masks tc) (sc_idx sc);
       chosen \<leftarrow> choose_threads msk (tp_pus pool) n [0..<length (tp_pus pool)] [];
       Some (Some (sc_idx sc, chosen),
         tc\<lparr>resuming_masks := (resuming_masks tc)[sc_idx sc := mark_threads (tp_pus pool) chosen resm]\<rparr>)}}"

text \<open>The pool suspends or resumes a thread.\<close>

definition pool_set_thread :: "bool \<Rightarrow> nat \<Rightarrow> nat \<Rightarrow> thread_control \<Rightarrow> thread_control" where
  "pool_set_thread b i j tc =
    (let pool = tc_pools tc ! i
     in tc\<lparr>tc_pools := (tc_pools tc)[i := pool\<lparr>tp_used := (tp_used pool)[tp_pus pool ! j := b]\<rparr>]\<rparr>)"

text \<open>The last parts; logs k is the ceiling of the binary logarithm of k.\<close>

definition cut_off :: "(nat \<Rightarrow> nat) \<Rightarrow> nat \<Rightarrow> nat \<Rightarrow> nat" where
  "cut_off logs cores localities = logs ((cores + 2) * localities)"

definition suspend_end :: "(nat \<Rightarrow> nat) \<Rightarrow> nat \<Rightarrow> nat \<Rightarrow> thread_control \<Rightarrow> thread_control" where
  "suspend_end logs localities k tc =
    (let tc = tc\<lparr>depth_cut_off := cut_off logs (tc_os_threads tc - k) localities\<rparr>;
         tc = update_active_osthreads (- word_of_nat k) tc
     in tc\<lparr>tc_active_threads := tc_active_threads tc - word_of_nat k\<rparr>)"

definition resume_end :: "(nat \<Rightarrow> nat) \<Rightarrow> nat \<Rightarrow> nat \<Rightarrow> thread_control \<Rightarrow> thread_control" where
  "resume_end logs localities k tc =
    (let tc = tc\<lparr>depth_cut_off := cut_off logs (tc_os_threads tc + k) localities\<rparr>;
         tc = update_active_osthreads (word_of_nat k) tc
     in tc\<lparr>tc_active_threads := tc_active_threads tc + word_of_nat k\<rparr>)"

text \<open>Both operations when no other one comes in between; the result is the number of threads.  An operation that finds nothing to
  do returns before its last part.\<close>

definition suspend_threads :: "(nat \<Rightarrow> nat) \<Rightarrow> nat \<Rightarrow> nat \<Rightarrow> thread_control \<Rightarrow> (nat \<times> thread_control) option" where
  "suspend_threads logs localities n tc = do {
     (found, tc) \<leftarrow> suspend_begin n tc;
     Some (case found of
         None \<Rightarrow> (0, tc)
       | Some (i, chosen) \<Rightarrow> (length chosen, suspend_end logs localities (length chosen) (fold (pool_set_thread False i) chosen tc)))}"

definition resume_threads :: "(nat \<Rightarrow> nat) \<Rightarrow> nat \<Rightarrow> nat \<Rightarrow> thread_control \<Rightarrow> (nat \<times> thread_control) option" where
  "resume_threads logs localities n tc = do {
     (found, tc) \<leftarrow> resume_begin n tc;
     Some (case found of
         None \<Rightarrow> (0, tc)
       | Some (i, chosen) \<Rightarrow> (length chosen, resume_end logs localities (length chosen) (fold (pool_set_thread True i) chosen tc)))}"

text \<open>init: the pools with all their threads active, and no suspension or resumption pending.\<close>

definition init_threads :: "(nat \<Rightarrow> nat) \<Rightarrow> nat \<Rightarrow> nat \<Rightarrow> thread_pool list \<Rightarrow> thread_control" where
  "init_threads logs localities os_threads pools =
    (let blank = map (\<lambda>p. replicate (length (tp_used p)) False) pools
     in \<lparr>tc_pools = pools, initial_masks = map tp_used pools, suspending_masks = blank, resuming_masks = blank,
         tc_active_threads = word_of_nat os_threads, growing = True, min_threads = 1, tc_os_threads = os_threads,
         depth_cut_off = cut_off logs os_threads localities, meas_active_sum = 0, meas_active_count = 0, meas_active_max = 0,
         meas_active_min = 0\<rparr>)"

section \<open>Well-formed states\<close>

definition masks_fit :: "nat \<Rightarrow> mask_type list \<Rightarrow> nat \<Rightarrow> bool" where
  "masks_fit i ms n \<longleftrightarrow> i < length ms \<and> length (ms ! i) = n"

definition pool_ok :: "thread_control \<Rightarrow> nat \<Rightarrow> bool" where
  "pool_ok tc i \<longleftrightarrow> (let pool = tc_pools tc ! i; n = length (tp_used pool)
     in distinct (tp_pus pool) \<and> (\<forall>pu \<in> set (tp_pus pool). pu < n) \<and>
        masks_fit i (initial_masks tc) n \<and> masks_fit i (suspending_masks tc) n \<and> masks_fit i (resuming_masks tc) n)"

definition threads_ok :: "thread_control \<Rightarrow> bool" where
  "threads_ok tc \<longleftrightarrow> (\<forall>i < length (tc_pools tc). pool_ok tc i)"

text \<open>The first threads of every pool are in use, and are not to be suspended.\<close>

definition keeps_threads :: "thread_control \<Rightarrow> bool" where
  "keeps_threads tc \<longleftrightarrow> (\<forall>i < length (tc_pools tc). \<forall>j < length (tp_pus (tc_pools tc ! i)). j < min_threads tc \<longrightarrow>
     tp_used (tc_pools tc ! i) ! (tp_pus (tc_pools tc ! i) ! j) \<and> \<not> suspending_masks tc ! i ! (tp_pus (tc_pools tc ! i) ! j))"

lemma settle_pu_eq:
  assumes "pu < length (pm_curr pm)" "length (pm_suspending pm) = length (pm_curr pm)" "length (pm_resuming pm) = length (pm_curr pm)"
  shows "settle_pu su pu pm = Some \<lparr>pm_curr = (pm_curr pm)[pu := if su then pm_curr pm ! pu \<and> \<not> pm_suspending pm ! pu
        else pm_curr pm ! pu \<or> pm_resuming pm ! pu],
     pm_suspending = (pm_suspending pm)[pu := pm_suspending pm ! pu \<and> pm_curr pm ! pu],
     pm_resuming = (pm_resuming pm)[pu := pm_resuming pm ! pu \<and> \<not> pm_curr pm ! pu]\<rparr>"
  using assms by (simp add: settle_pu_def mask_test_def mask_put_def)

lemma settle_pool_eq:
  assumes "distinct pus" and "\<forall>pu \<in> set pus. pu < length (pm_curr pm)"
    and "length (pm_suspending pm) = length (pm_curr pm)" and "length (pm_resuming pm) = length (pm_curr pm)"
  shows "\<exists>pm'. settle_pool su pus pm = Some pm' \<and> length (pm_curr pm') = length (pm_curr pm) \<and>
     length (pm_suspending pm') = length (pm_curr pm) \<and> length (pm_resuming pm') = length (pm_curr pm) \<and>
     (\<forall>x < length (pm_curr pm).
        pm_curr pm' ! x = (if x \<in> set pus then (if su then pm_curr pm ! x \<and> \<not> pm_suspending pm ! x else pm_curr pm ! x \<or> pm_resuming pm ! x)
          else pm_curr pm ! x) \<and>
        pm_suspending pm' ! x = (pm_suspending pm ! x \<and> (x \<in> set pus \<longrightarrow> pm_curr pm ! x)) \<and>
        pm_resuming pm' ! x = (pm_resuming pm ! x \<and> (x \<in> set pus \<longrightarrow> \<not> pm_curr pm ! x)))"
  using assms
proof (induction pus arbitrary: pm)
  case (Cons pu pus)
  have lt: "pu < length (pm_curr pm)" using Cons.prems(2) by simp
  obtain pm1 where pm1: "settle_pu su pu pm = Some pm1"
    "pm_curr pm1 = (pm_curr pm)[pu := if su then pm_curr pm ! pu \<and> \<not> pm_suspending pm ! pu else pm_curr pm ! pu \<or> pm_resuming pm ! pu]"
    "pm_suspending pm1 = (pm_suspending pm)[pu := pm_suspending pm ! pu \<and> pm_curr pm ! pu]"
    "pm_resuming pm1 = (pm_resuming pm)[pu := pm_resuming pm ! pu \<and> \<not> pm_curr pm ! pu]"
    using that [OF settle_pu_eq [OF lt Cons.prems(3,4)]] by simp
  have "\<exists>pm'. settle_pool su pus pm1 = Some pm' \<and> length (pm_curr pm') = length (pm_curr pm1) \<and>
     length (pm_suspending pm') = length (pm_curr pm1) \<and> length (pm_resuming pm') = length (pm_curr pm1) \<and>
     (\<forall>x < length (pm_curr pm1).
        pm_curr pm' ! x = (if x \<in> set pus then (if su then pm_curr pm1 ! x \<and> \<not> pm_suspending pm1 ! x else pm_curr pm1 ! x \<or> pm_resuming pm1 ! x)
          else pm_curr pm1 ! x) \<and>
        pm_suspending pm' ! x = (pm_suspending pm1 ! x \<and> (x \<in> set pus \<longrightarrow> pm_curr pm1 ! x)) \<and>
        pm_resuming pm' ! x = (pm_resuming pm1 ! x \<and> (x \<in> set pus \<longrightarrow> \<not> pm_curr pm1 ! x)))"
    by (rule Cons.IH) (use Cons.prems pm1 in simp_all)
  then obtain pm' where pm': "settle_pool su pus pm1 = Some pm'" "length (pm_curr pm') = length (pm_curr pm)"
    "length (pm_suspending pm') = length (pm_curr pm)" "length (pm_resuming pm') = length (pm_curr pm)"
    "\<forall>x < length (pm_curr pm).
        pm_curr pm' ! x = (if x \<in> set pus then (if su then pm_curr pm1 ! x \<and> \<not> pm_suspending pm1 ! x else pm_curr pm1 ! x \<or> pm_resuming pm1 ! x)
          else pm_curr pm1 ! x) \<and>
        pm_suspending pm' ! x = (pm_suspending pm1 ! x \<and> (x \<in> set pus \<longrightarrow> pm_curr pm1 ! x)) \<and>
        pm_resuming pm' ! x = (pm_resuming pm1 ! x \<and> (x \<in> set pus \<longrightarrow> \<not> pm_curr pm1 ! x))"
    using pm1(2) by auto
  have "pu \<notin> set pus" using Cons.prems(1) by simp
  show ?case
  proof (intro exI [of _ pm'] conjI allI impI)
    show "settle_pool su (pu # pus) pm = Some pm'" using pm1(1) pm'(1) by simp
  next
    fix x assume x: "x < length (pm_curr pm)"
    note p = pm'(5) [rule_format, OF x] and q = pm1(2-4) and l = Cons.prems(3,4)
    show "pm_curr pm' ! x = (if x \<in> set (pu # pus) then (if su then pm_curr pm ! x \<and> \<not> pm_suspending pm ! x else pm_curr pm ! x \<or> pm_resuming pm ! x)
          else pm_curr pm ! x)"
      using p q l lt \<open>pu \<notin> set pus\<close> by (cases "x = pu") (simp_all add: q)
    show "pm_suspending pm' ! x = (pm_suspending pm ! x \<and> (x \<in> set (pu # pus) \<longrightarrow> pm_curr pm ! x))"
      using p q l lt \<open>pu \<notin> set pus\<close> by (cases "x = pu") (simp_all add: q)
    show "pm_resuming pm' ! x = (pm_resuming pm ! x \<and> (x \<in> set (pu # pus) \<longrightarrow> \<not> pm_curr pm ! x))"
      using p q l lt \<open>pu \<notin> set pus\<close> by (cases "x = pu") (simp_all add: q)
  qed (use pm' in simp_all)
qed simp

text \<open>A scan takes back what is no longer pending.\<close>

definition settles :: "thread_control \<Rightarrow> thread_control \<Rightarrow> bool" where
  "settles tc tc' \<longleftrightarrow> tc_pools tc' = tc_pools tc \<and> initial_masks tc' = initial_masks tc \<and> min_threads tc' = min_threads tc \<and>
     tc_os_threads tc' = tc_os_threads tc \<and> length (suspending_masks tc') = length (suspending_masks tc) \<and>
     length (resuming_masks tc') = length (resuming_masks tc) \<and>
     (\<forall>i < length (suspending_masks tc). length (suspending_masks tc' ! i) = length (suspending_masks tc ! i) \<and>
        (\<forall>x < length (suspending_masks tc ! i). suspending_masks tc' ! i ! x \<longrightarrow> suspending_masks tc ! i ! x)) \<and>
     (\<forall>i < length (resuming_masks tc). length (resuming_masks tc' ! i) = length (resuming_masks tc ! i))"

lemma settles_refl: "settles tc tc"
  by (simp add: settles_def)

lemma settles_trans: "settles a b \<Longrightarrow> settles b c \<Longrightarrow> settles a c"
  by (auto simp: settles_def)

lemma settles_ok: "settles tc tc' \<Longrightarrow> threads_ok tc \<Longrightarrow> threads_ok tc'"
  by (auto simp: settles_def threads_ok_def pool_ok_def masks_fit_def Let_def)

lemma settles_keeps:
  assumes "settles tc tc'" and "threads_ok tc" and "keeps_threads tc"
  shows "keeps_threads tc'"
  unfolding keeps_threads_def
proof (intro allI impI)
  fix i j
  assume a: "i < length (tc_pools tc')" "j < length (tp_pus (tc_pools tc' ! i))" "j < min_threads tc'"
  have e: "tc_pools tc' = tc_pools tc" "min_threads tc' = min_threads tc" using assms(1) by (simp_all add: settles_def)
  let ?pu = "tp_pus (tc_pools tc ! i) ! j"
  have k: "tp_used (tc_pools tc ! i) ! ?pu" "\<not> suspending_masks tc ! i ! ?pu" using assms(3) a e by (simp_all add: keeps_threads_def)
  have "pool_ok tc i" using assms(2) a(1) e(1) by (simp add: threads_ok_def)
  then have "i < length (suspending_masks tc)" "?pu < length (suspending_masks tc ! i)"
    using a(2) e(1) by (simp_all add: pool_ok_def masks_fit_def Let_def)
  then have "\<not> suspending_masks tc' ! i ! ?pu" using assms(1) k(2) unfolding settles_def by blast
  then show "tp_used (tc_pools tc' ! i) ! (tp_pus (tc_pools tc' ! i) ! j) \<and> \<not> suspending_masks tc' ! i ! (tp_pus (tc_pools tc' ! i) ! j)"
    using k(1) e(1) by simp
qed

lemma scan_pool_settles:
  assumes "scan_pool su i (sc, tc) = Some (sc', tc')" and "threads_ok tc"
  shows "settles tc tc'"
proof -
  obtain pm where i: "i < length (tc_pools tc)" "i < length (suspending_masks tc)" "i < length (resuming_masks tc)"
    and pm: "settle_pool su (tp_pus (tc_pools tc ! i)) \<lparr>pm_curr = tp_used (tc_pools tc ! i), pm_suspending = suspending_masks tc ! i,
      pm_resuming = resuming_masks tc ! i\<rparr> = Some pm"
    and tc': "tc' = tc\<lparr>suspending_masks := (suspending_masks tc)[i := pm_suspending pm], resuming_masks := (resuming_masks tc)[i := pm_resuming pm]\<rparr>"
    using assms(1) by (auto simp: scan_pool_def bind_eq_Some_conv Let_def split: if_splits)
  have "pool_ok tc i" using assms(2) i(1) by (simp add: threads_ok_def)
  then have "length (pm_suspending pm) = length (suspending_masks tc ! i)" "length (pm_resuming pm) = length (resuming_masks tc ! i)"
    "\<forall>x < length (suspending_masks tc ! i). pm_suspending pm ! x \<longrightarrow> suspending_masks tc ! i ! x"
    using settle_pool_eq [of "tp_pus (tc_pools tc ! i)" "\<lparr>pm_curr = tp_used (tc_pools tc ! i), pm_suspending = suspending_masks tc ! i,
      pm_resuming = resuming_masks tc ! i\<rparr>" su] pm by (auto simp: pool_ok_def masks_fit_def Let_def)
  then show ?thesis unfolding tc' settles_def using i by (auto simp: nth_list_update)
qed

lemma scan_pools_settles: "scan_pools su is (sc, tc) = Some (sc', tc') \<Longrightarrow> threads_ok tc \<Longrightarrow> settles tc tc'"
proof (induction "is" arbitrary: sc tc)
  case (Cons i js)
  obtain sc1 tc1 where s: "scan_pool su i (sc, tc) = Some (sc1, tc1)" "scan_pools su js (sc1, tc1) = Some (sc', tc')"
    using Cons.prems(1) by (auto simp: bind_eq_Some_conv)
  have "settles tc tc1" using scan_pool_settles [OF s(1) Cons.prems(2)] .
  then show ?case using Cons.IH [OF s(2)] settles_ok Cons.prems(2) settles_trans by blast
qed (simp add: settles_refl)

lemma update_settles: "settles tc (update_active_osthreads d tc)"
  by (simp add: update_active_osthreads_def settles_def Let_def)

lemma count_active_settles:
  assumes "count_active su tc = Some (sc, tc')" and "threads_ok tc"
  shows "settles tc tc'"
proof -
  obtain tc1 where s: "scan_pools su [0..<length (tc_pools tc)] (new_scan, tc) = Some (sc, tc1)"
    and tc': "tc' = (update_active_osthreads (word_of_nat (sc_active sc) - tc_active_threads tc1) tc1)\<lparr>
      tc_active_threads := word_of_nat (sc_active sc), growing := \<not> su\<rparr>"
    using assms(1) by (auto simp: count_active_def bind_eq_Some_conv Let_def)
  have "settles tc tc1" using scan_pools_settles [OF s assms(2)] .
  moreover have "settles tc1 tc'" using update_settles [of tc1] unfolding tc' settles_def by simp
  ultimately show ?thesis using settles_trans by blast
qed

section \<open>Steps\<close>

lemma choose_threads_subset:
  "choose_threads msk pus n is chosen = Some res \<Longrightarrow> set res \<subseteq> set chosen \<union> set is"
proof (induction "is" arbitrary: chosen)
  case (Cons i js)
  obtain pu b where b: "at_opt pus i = Some pu" "mask_test msk pu = Some b" using Cons.prems by (auto simp: bind_eq_Some_conv)
  consider "\<not> b" | "b" "Suc (length chosen) = n" | "b" "Suc (length chosen) \<noteq> n" by blast
  then show ?case
  proof cases
    case 1
    then show ?thesis using Cons.IH [of chosen] Cons.prems b by auto
  next
    case 2
    then show ?thesis using Cons.prems b by auto
  next
    case 3
    then show ?thesis using Cons.IH [of "chosen @ [i]"] Cons.prems b by auto
  qed
qed simp

lemma mark_threads_length [simp]: "length (mark_threads pus chosen m) = length m"
  by (induction chosen arbitrary: m) (simp_all add: mark_threads_def)

lemma mark_threads_other: "\<forall>j \<in> set chosen. pus ! j \<noteq> x \<Longrightarrow> mark_threads pus chosen m ! x = m ! x"
  by (induction chosen arbitrary: m) (simp_all add: mark_threads_def)

text \<open>The steps of the localities and of the pools.  A pool suspends or resumes only threads that it was asked to.\<close>

inductive thread_step :: "(nat \<Rightarrow> nat) \<Rightarrow> nat \<Rightarrow> thread_control \<Rightarrow> thread_control \<Rightarrow> bool" for logs localities where
  begin_suspend: "suspend_begin n tc = Some (found, tc') \<Longrightarrow> thread_step logs localities tc tc'"
| begin_resume: "resume_begin n tc = Some (found, tc') \<Longrightarrow> thread_step logs localities tc tc'"
| suspended: "i < length (tc_pools tc) \<Longrightarrow> j < length (tp_pus (tc_pools tc ! i)) \<Longrightarrow>
    suspending_masks tc ! i ! (tp_pus (tc_pools tc ! i) ! j) \<Longrightarrow> thread_step logs localities tc (pool_set_thread False i j tc)"
| resumed: "i < length (tc_pools tc) \<Longrightarrow> j < length (tp_pus (tc_pools tc ! i)) \<Longrightarrow>
    resuming_masks tc ! i ! (tp_pus (tc_pools tc ! i) ! j) \<Longrightarrow> thread_step logs localities tc (pool_set_thread True i j tc)"
| end_suspend: "thread_step logs localities tc (suspend_end logs localities k tc)"
| end_resume: "thread_step logs localities tc (resume_end logs localities k tc)"

lemma suspend_begin_keeps:
  assumes "suspend_begin n tc = Some (found, tc')" and "threads_ok tc" and "keeps_threads tc"
  shows "threads_ok tc' \<and> keeps_threads tc' \<and> min_threads tc' = min_threads tc \<and> tc_pools tc' = tc_pools tc"
proof -
  obtain sc tc1 where c: "count_active True tc = Some (sc, tc1)" using assms(1) by (cases "count_active True tc") (auto simp: suspend_begin_def)
  have s: "settles tc tc1" using count_active_settles [OF c assms(2)] .
  have ok: "threads_ok tc1" "keeps_threads tc1" using settles_ok settles_keeps s assms(2,3) by blast+
  have e: "min_threads tc1 = min_threads tc" "tc_pools tc1 = tc_pools tc" using s by (simp_all add: settles_def)
  show ?thesis
  proof (cases "sc_best sc = min_threads tc1")
    case True
    then show ?thesis using assms(1) c ok e by (simp add: suspend_begin_def)
  next
    case False
    let ?i = "sc_idx sc"
    obtain msk chosen where i: "?i < length (tc_pools tc1)" "?i < length (suspending_masks tc1)"
      and ch: "choose_threads msk (tp_pus (tc_pools tc1 ! ?i)) n (rev [min_threads tc1..<length (tp_pus (tc_pools tc1 ! ?i))]) [] = Some chosen"
      and tc': "tc' = tc1\<lparr>suspending_masks := (suspending_masks tc1)[?i :=
        mark_threads (tp_pus (tc_pools tc1 ! ?i)) chosen (suspending_masks tc1 ! ?i)]\<rparr>"
      using assms(1) c False by (auto simp: suspend_begin_def bind_eq_Some_conv Let_def split: if_splits)
    let ?pus = "tp_pus (tc_pools tc1 ! ?i)"
    have sub: "min_threads tc1 \<le> j \<and> j < length ?pus" if "j \<in> set chosen" for j using choose_threads_subset [OF ch] that by auto
    have "pool_ok tc1 ?i" using ok(1) i(1) by (simp add: threads_ok_def)
    then have d: "distinct ?pus" by (simp add: pool_ok_def Let_def)
    have "threads_ok tc'" using ok(1) i unfolding tc' threads_ok_def pool_ok_def masks_fit_def Let_def by (auto simp: nth_list_update)
    moreover have "keeps_threads tc'"
      unfolding keeps_threads_def
    proof (intro allI impI)
      fix p j
      assume a: "p < length (tc_pools tc')" "j < length (tp_pus (tc_pools tc' ! p))" "j < min_threads tc'"
      have k: "tp_used (tc_pools tc1 ! p) ! (tp_pus (tc_pools tc1 ! p) ! j)" "\<not> suspending_masks tc1 ! p ! (tp_pus (tc_pools tc1 ! p) ! j)"
        using ok(2) a by (simp_all add: keeps_threads_def tc')
      have "mark_threads ?pus chosen (suspending_masks tc1 ! ?i) ! (?pus ! j) = suspending_masks tc1 ! ?i ! (?pus ! j)" if "p = ?i"
        using sub d a that by (intro mark_threads_other) (force simp: tc' nth_eq_iff_index_eq)
      then have "\<not> suspending_masks tc' ! p ! (tp_pus (tc_pools tc1 ! p) ! j)" using k(2) i(2) by (cases "p = ?i") (simp_all add: tc')
      then show "tp_used (tc_pools tc' ! p) ! (tp_pus (tc_pools tc' ! p) ! j) \<and> \<not> suspending_masks tc' ! p ! (tp_pus (tc_pools tc' ! p) ! j)"
        using k(1) by (simp add: tc')
    qed
    ultimately show ?thesis using e by (simp add: tc')
  qed
qed

lemma resume_begin_keeps:
  assumes "resume_begin n tc = Some (found, tc')" and "threads_ok tc" and "keeps_threads tc"
  shows "threads_ok tc' \<and> keeps_threads tc' \<and> min_threads tc' = min_threads tc \<and> tc_pools tc' = tc_pools tc"
proof -
  obtain sc tc1 where c: "count_active False tc = Some (sc, tc1)" using assms(1) by (cases "count_active False tc") (auto simp: resume_begin_def)
  have s: "settles tc tc1" using count_active_settles [OF c assms(2)] .
  have ok: "threads_ok tc1" "keeps_threads tc1" using settles_ok settles_keeps s assms(2,3) by blast+
  have e: "min_threads tc1 = min_threads tc" "tc_pools tc1 = tc_pools tc" using s by (simp_all add: settles_def)
  show ?thesis
  proof (cases "sc_best sc = 0")
    case True
    then show ?thesis using assms(1) c ok e by (simp add: resume_begin_def)
  next
    case False
    let ?i = "sc_idx sc"
    obtain chosen where i: "?i < length (tc_pools tc1)" "?i < length (resuming_masks tc1)"
      and tc': "tc' = tc1\<lparr>resuming_masks := (resuming_masks tc1)[?i := mark_threads (tp_pus (tc_pools tc1 ! ?i)) chosen (resuming_masks tc1 ! ?i)]\<rparr>"
      using assms(1) c False by (auto simp: resume_begin_def bind_eq_Some_conv Let_def split: if_splits)
    have "threads_ok tc'" using ok(1) i unfolding tc' threads_ok_def pool_ok_def masks_fit_def Let_def by (auto simp: nth_list_update)
    moreover have "keeps_threads tc'" using ok(2) by (simp add: tc' keeps_threads_def)
    ultimately show ?thesis using e by (simp add: tc')
  qed
qed

lemma pool_set_thread_simps [simp]:
  "length (tc_pools (pool_set_thread b i j tc)) = length (tc_pools tc)" "initial_masks (pool_set_thread b i j tc) = initial_masks tc"
  "suspending_masks (pool_set_thread b i j tc) = suspending_masks tc" "resuming_masks (pool_set_thread b i j tc) = resuming_masks tc"
  "min_threads (pool_set_thread b i j tc) = min_threads tc" "tp_pus (tc_pools (pool_set_thread b i j tc) ! p) = tp_pus (tc_pools tc ! p)"
  "length (tp_used (tc_pools (pool_set_thread b i j tc) ! p)) = length (tp_used (tc_pools tc ! p))"
  by (simp_all add: pool_set_thread_def Let_def nth_list_update')

lemma pool_set_thread_used:
  "i < length (tc_pools tc) \<Longrightarrow> tp_used (tc_pools (pool_set_thread b i j tc) ! p) =
     (if p = i then (tp_used (tc_pools tc ! i))[tp_pus (tc_pools tc ! i) ! j := b] else tp_used (tc_pools tc ! p))"
  by (simp add: pool_set_thread_def Let_def)

lemma thread_step_keeps:
  assumes "thread_step logs localities tc tc'" and "threads_ok tc" and "keeps_threads tc"
  shows "threads_ok tc' \<and> keeps_threads tc' \<and> min_threads tc' = min_threads tc \<and> length (tc_pools tc') = length (tc_pools tc) \<and>
    (\<forall>i. tp_pus (tc_pools tc' ! i) = tp_pus (tc_pools tc ! i))"
  using assms
proof cases
  case (begin_suspend n found)
  from suspend_begin_keeps [OF this assms(2,3)] show ?thesis by simp
next
  case (begin_resume n found)
  from resume_begin_keeps [OF this assms(2,3)] show ?thesis by simp
next
  case (suspended i j)
  have "threads_ok tc'" using assms(2) unfolding suspended(1) threads_ok_def pool_ok_def by (simp add: Let_def)
  moreover have "keeps_threads tc'"
    unfolding keeps_threads_def
  proof (intro allI impI)
    fix p l
    assume "p < length (tc_pools tc')" "l < length (tp_pus (tc_pools tc' ! p))" "l < min_threads tc'"
    then have k: "tp_used (tc_pools tc ! p) ! (tp_pus (tc_pools tc ! p) ! l)" "\<not> suspending_masks tc ! p ! (tp_pus (tc_pools tc ! p) ! l)"
      using assms(3) by (simp_all add: suspended(1) keeps_threads_def)
    then have "tp_pus (tc_pools tc ! p) ! l \<noteq> tp_pus (tc_pools tc ! i) ! j" if "p = i" using suspended(4) that by auto
    then show "tp_used (tc_pools tc' ! p) ! (tp_pus (tc_pools tc' ! p) ! l) \<and> \<not> suspending_masks tc' ! p ! (tp_pus (tc_pools tc' ! p) ! l)"
      using k suspended(2) by (auto simp: suspended(1) pool_set_thread_used)
  qed
  ultimately show ?thesis by (simp add: suspended(1))
next
  case (resumed i j)
  have "threads_ok tc'" using assms(2) unfolding resumed(1) threads_ok_def pool_ok_def by (simp add: Let_def)
  moreover have "keeps_threads tc'"
    unfolding keeps_threads_def
  proof (intro allI impI)
    fix p l
    assume a: "p < length (tc_pools tc')" "l < length (tp_pus (tc_pools tc' ! p))" "l < min_threads tc'"
    then have k: "tp_used (tc_pools tc ! p) ! (tp_pus (tc_pools tc ! p) ! l)" "\<not> suspending_masks tc ! p ! (tp_pus (tc_pools tc ! p) ! l)"
      using assms(3) by (simp_all add: resumed(1) keeps_threads_def)
    have "pool_ok tc p" using assms(2) a(1) by (simp add: resumed(1) threads_ok_def)
    then have "tp_pus (tc_pools tc ! p) ! l < length (tp_used (tc_pools tc ! p))" using a(2) by (simp add: resumed(1) pool_ok_def Let_def)
    then show "tp_used (tc_pools tc' ! p) ! (tp_pus (tc_pools tc' ! p) ! l) \<and> \<not> suspending_masks tc' ! p ! (tp_pus (tc_pools tc' ! p) ! l)"
      using k resumed(2) by (cases "p = i") (simp_all add: resumed(1) pool_set_thread_used nth_list_update')
  qed
  ultimately show ?thesis by (simp add: resumed(1))
next
  case (end_suspend k)
  have s: "settles tc tc'" using update_settles [of "tc\<lparr>depth_cut_off := cut_off logs (tc_os_threads tc - k) localities\<rparr>" "- word_of_nat k"]
    by (simp add: end_suspend suspend_end_def Let_def settles_def)
  then show ?thesis using settles_ok settles_keeps assms(2,3) by (auto simp: settles_def)
next
  case (end_resume k)
  have s: "settles tc tc'" using update_settles [of "tc\<lparr>depth_cut_off := cut_off logs (tc_os_threads tc + k) localities\<rparr>" "word_of_nat k"]
    by (simp add: end_resume resume_end_def Let_def settles_def)
  then show ?thesis using settles_ok settles_keeps assms(2,3) by (auto simp: settles_def)
qed

section \<open>Properties\<close>

definition pools_start :: "thread_pool list \<Rightarrow> bool" where
  "pools_start pools \<longleftrightarrow> (\<forall>p \<in> set pools. distinct (tp_pus p) \<and> (\<forall>pu \<in> set (tp_pus p). pu < length (tp_used p) \<and> tp_used p ! pu))"

lemma init_threads_ok:
  assumes "pools_start pools"
  shows "threads_ok (init_threads logs localities os pools) \<and> keeps_threads (init_threads logs localities os pools)"
proof -
  have "distinct (tp_pus (pools ! i)) \<and> (\<forall>pu \<in> set (tp_pus (pools ! i)). pu < length (tp_used (pools ! i)) \<and> tp_used (pools ! i) ! pu)"
    if "i < length pools" for i using assms that by (simp add: pools_start_def)
  then show ?thesis by (simp add: threads_ok_def keeps_threads_def pool_ok_def masks_fit_def init_threads_def Let_def)
qed

definition pools_inv :: "thread_pool list \<Rightarrow> thread_control \<Rightarrow> bool" where
  "pools_inv pools tc \<longleftrightarrow> threads_ok tc \<and> keeps_threads tc \<and> min_threads tc = 1 \<and> length (tc_pools tc) = length pools \<and>
     (\<forall>i. tp_pus (tc_pools tc ! i) = tp_pus (pools ! i))"

interpretation thread_runs: step_invariant "thread_step logs localities"
    "\<lambda>tc. pools_start pools \<and> (\<exists>os. tc = init_threads logs localities os pools)" "pools_inv pools"
proof
  show "pools_inv pools tc" if "pools_start pools \<and> (\<exists>os. tc = init_threads logs localities os pools)" for tc
    using that init_threads_ok [of pools logs localities] by (auto simp: pools_inv_def) (auto simp: init_threads_def Let_def)
  show "pools_inv pools b" if "pools_inv pools a" "thread_step logs localities a b" for a b
    using that(1) thread_step_keeps [OF that(2)] by (simp add: pools_inv_def)
qed

text \<open>C28: Whatever threads are suspended and resumed, in whatever order the pools carry it out and however the operations overlap,
  the first thread of every pool (min\_threads is 1) stays in use: no pool is ever left without a thread.\<close>

theorem pools_keep_threads:
  assumes "pools_start pools" and "(thread_step logs localities)\<^sup>*\<^sup>* (init_threads logs localities os pools) tc"
    and "i < length pools" and "tp_pus (pools ! i) \<noteq> []"
  shows "min_threads tc = 1 \<and> tp_pus (tc_pools tc ! i) = tp_pus (pools ! i) \<and> tp_used (tc_pools tc ! i) ! hd (tp_pus (pools ! i))"
proof -
  have k: "threads_ok tc \<and> keeps_threads tc \<and> min_threads tc = 1 \<and> length (tc_pools tc) = length pools \<and>
    (\<forall>i. tp_pus (tc_pools tc ! i) = tp_pus (pools ! i))"
    using thread_runs.reachable_inv [OF _ assms(2), of pools] assms(1) unfolding pools_inv_def by blast
  have "tp_used (tc_pools tc ! i) ! (tp_pus (tc_pools tc ! i) ! 0)"
    by (rule conjunct1 [OF conjunct1 [OF conjunct2 [OF k], unfolded keeps_threads_def, rule_format]]) (use k assms(3,4) in simp_all)
  then show ?thesis using k assms(4) by (simp add: hd_conv_nth)
qed

text \<open>Two pools of three threads each.\<close>

definition demo_pools :: "thread_pool list" where
  "demo_pools = [\<lparr>tp_pus = [0, 2, 4], tp_used = [True, False, True, False, True, False]\<rparr>,
     \<lparr>tp_pus = [1, 3, 5], tp_used = [False, True, False, True, False, True]\<rparr>]"

definition demo_threads :: thread_control where
  "demo_threads = init_threads (\<lambda>k. k) 2 6 demo_pools"

lemma update_active_simps [simp]:
  "tc_pools (update_active_osthreads d tc) = tc_pools tc" "min_threads (update_active_osthreads d tc) = min_threads tc"
  "suspending_masks (update_active_osthreads d tc) = suspending_masks tc" "resuming_masks (update_active_osthreads d tc) = resuming_masks tc"
  by (simp_all add: update_active_osthreads_def Let_def)

lemmas thread_control_simps = suspend_begin_def count_active_def new_scan_def scan_pool_def settle_pu_def mask_test_def mask_put_def
  mask_count_def mask_xor_def mark_threads_def

lemma suspend_all_but_one:
  "\<exists>tc. suspend_begin 0 demo_threads = Some (Some (0, [2, 1]), tc)"
  by (simp add: demo_threads_def demo_pools_def init_threads_def thread_control_simps Let_def at_opt_def upt_conv_Cons nth_Cons')

theorem pools_keep_threads_witness:
  "\<exists>tc found. suspend_begin 0 demo_threads = Some (found, tc) \<and> tp_used (tc_pools tc ! 0) ! 0"
proof -
  obtain tc where tc: "suspend_begin 0 demo_threads = Some (Some (0, [2, 1]), tc)" using suspend_all_but_one by blast
  have "pools_start demo_pools" by (simp add: pools_start_def demo_pools_def)
  moreover have "(thread_step (\<lambda>k. k) 2)\<^sup>*\<^sup>* (init_threads (\<lambda>k. k) 2 6 demo_pools) tc"
    using thread_step.begin_suspend [OF tc, of "\<lambda>k. k" 2] by (auto simp: demo_threads_def)
  ultimately have "tp_used (tc_pools tc ! 0) ! hd (tp_pus (demo_pools ! 0))"
    using pools_keep_threads [of demo_pools "\<lambda>k. k" 2 6 tc 0] by (simp add: demo_pools_def)
  then show ?thesis using tc by (auto simp: demo_pools_def)
qed

end
