(* ===== verification/Treetures.thy ===== *)
theory Treetures
  imports Prelude
begin

text \<open>
  The handles of results: allscale/treeture.hpp, allscale/detail/treeture\_task.hpp and allscale/detail/treeture\_lco.hpp.

  A treeture refers to a shared state, directly on the locality of the state or by the id of the LCO that stands for it.
  The shared states, which are also those of the futures of HPX, are numbered in the order of their creation, and so are
  the LCOs.  A call of an action at an LCO has returned when the function that calls it returns.  None is undefined
  behaviour: a wait or a call at a treeture that refers to nothing.
\<close>

section \<open>Shared states\<close>

datatype 'v tr_value = Unused | Val 'v

record treeture =
  shared_state :: "nat option"
  tr_id :: "nat option"
  fixed_children :: bool

text \<open>The targets of a state are the states that get its value when it is set, or only its completion.\<close>

record 'v treeture_task =
  tt_value :: "'v tr_value option"
  tt_children :: "treeture \<times> treeture"
  tt_on_completed :: "(nat \<times> bool) list"

record 'v treeture_store =
  ts_tasks :: "'v treeture_task list"
  ts_lcos :: "nat list"

definition no_treeture :: treeture where
  "no_treeture = \<lparr>shared_state = None, tr_id = None, fixed_children = False\<rparr>"

definition tr_valid :: "treeture \<Rightarrow> bool" where
  "tr_valid h \<longleftrightarrow> shared_state h \<noteq> None \<or> tr_id h \<noteq> None"

definition local_treeture :: "nat \<Rightarrow> treeture" where
  "local_treeture a = \<lparr>shared_state = Some a, tr_id = None, fixed_children = False\<rparr>"

definition new_task :: "'v tr_value option \<Rightarrow> 'v treeture_task" where
  "new_task v = \<lparr>tt_value = v, tt_children = (no_treeture, no_treeture), tt_on_completed = []\<rparr>"

definition new_state :: "'v tr_value option \<Rightarrow> 'v treeture_store \<Rightarrow> 'v treeture_store \<times> nat" where
  "new_state v s = (s\<lparr>ts_tasks := ts_tasks s @ [new_task v]\<rparr>, length (ts_tasks s))"

text \<open>The value of a state is set once; a second attempt is an exception, which the callers catch and ignore.  Setting it runs the
  continuations, which set values in turn.\<close>

definition unset_tasks :: "'v treeture_task list \<Rightarrow> nat" where
  "unset_tasks ts = length (filter (\<lambda>t. tt_value t = None) ts)"

definition pass_value :: "'v tr_value \<Rightarrow> nat \<times> bool \<Rightarrow> nat \<times> 'v tr_value" where
  "pass_value v = (\<lambda>(b, keep). (b, if keep then v else Unused))"

definition set_task :: "'v tr_value \<Rightarrow> 'v treeture_task \<Rightarrow> 'v treeture_task" where
  "set_task v t = t\<lparr>tt_value := Some v, tt_on_completed := []\<rparr>"

lemma unset_tasks_set:
  assumes "a < length ts" and "tt_value (ts ! a) = None"
  shows "unset_tasks (ts[a := set_task v (ts ! a)]) < unset_tasks ts"
proof -
  have "unset_tasks (take a ts @ set_task v (ts ! a) # drop (Suc a) ts) < unset_tasks (take a ts @ ts ! a # drop (Suc a) ts)"
    using assms(2) by (simp add: unset_tasks_def set_task_def)
  then show ?thesis using assms(1) by (simp add: upd_conv_take_nth_drop id_take_nth_drop [symmetric])
qed

function complete :: "(nat \<times> 'v tr_value) list \<Rightarrow> 'v treeture_task list \<Rightarrow> 'v treeture_task list" where
  "complete [] ts = ts"
| "complete ((a, v) # ws) ts =
    (if a < length ts \<and> tt_value (ts ! a) = None
     then complete (map (pass_value v) (tt_on_completed (ts ! a)) @ ws) (ts[a := set_task v (ts ! a)])
     else complete ws ts)"
  by pat_completeness auto
termination
  by (relation "measures [\<lambda>(ws, ts). unset_tasks ts, \<lambda>(ws, ts). length ws]") (auto simp: unset_tasks_set)

definition set_state :: "nat \<Rightarrow> 'v tr_value \<Rightarrow> 'v treeture_store \<Rightarrow> 'v treeture_store" where
  "set_state a v s = s\<lparr>ts_tasks := complete [(a, v)] (ts_tasks s)\<rparr>"

text \<open>set\_on\_completed: the continuation runs at once when the state is ready.\<close>

definition on_completed :: "nat \<Rightarrow> nat \<Rightarrow> bool \<Rightarrow> 'v treeture_store \<Rightarrow> 'v treeture_store" where
  "on_completed a c keep s =
    (case tt_value (ts_tasks s ! a) of
       Some v \<Rightarrow> set_state c (if keep then v else Unused) s
     | None \<Rightarrow> s\<lparr>ts_tasks := (ts_tasks s)[a := (ts_tasks s ! a)\<lparr>tt_on_completed := tt_on_completed (ts_tasks s ! a) @ [(c, keep)]\<rparr>]\<rparr>)"

section \<open>Treetures\<close>

definition treeture_init :: "'v treeture_store \<Rightarrow> 'v treeture_store \<times> treeture" where
  "treeture_init s = (let (s, a) = new_state None s in (s, local_treeture a))"

definition make_ready_treeture :: "'v tr_value \<Rightarrow> 'v treeture_store \<Rightarrow> 'v treeture_store \<times> treeture" where
  "make_ready_treeture v s = (let (s, a) = new_state (Some v) s in (s, local_treeture a))"

text \<open>The state behind a treeture.\<close>

definition lco_state :: "treeture \<Rightarrow> 'v treeture_store \<Rightarrow> nat option" where
  "lco_state h s = do {
     g \<leftarrow> tr_id h;
     at_opt (ts_lcos s) g}"

definition state_of :: "treeture \<Rightarrow> 'v treeture_store \<Rightarrow> nat option" where
  "state_of h s = (case shared_state h of Some a \<Rightarrow> Some a | None \<Rightarrow> lco_state h s)"

text \<open>get\_future: the state itself, or the state of the future of a call of get\_state.\<close>

definition get_future :: "treeture \<Rightarrow> 'v treeture_store \<Rightarrow> ('v treeture_store \<times> nat) option" where
  "get_future h s =
    (case shared_state h of
       Some a \<Rightarrow> Some (s, a)
     | None \<Rightarrow> do {
         a \<leftarrow> lco_state h s;
         let (s, f) = new_state None s;
         Some (on_completed a f True s, f)})"

definition tr_is_ready :: "nat \<Rightarrow> 'v treeture_store \<Rightarrow> bool" where
  "tr_is_ready a s \<longleftrightarrow> tt_value (ts_tasks s ! a) \<noteq> None"

definition tr_set_value :: "'v tr_value \<Rightarrow> treeture \<Rightarrow> 'v treeture_store \<Rightarrow> 'v treeture_store option" where
  "tr_set_value v h s = map_option (\<lambda>a. set_state a v s) (state_of h s)"

text \<open>The treeture made from a future, and the one of type void made from another treeture.\<close>

definition treeture_of_future :: "bool \<Rightarrow> nat \<Rightarrow> 'v treeture_store \<Rightarrow> 'v treeture_store \<times> treeture" where
  "treeture_of_future void f s = (let (s, c) = new_state None s in (on_completed f c (\<not> void) s, local_treeture c))"

definition to_void :: "treeture \<Rightarrow> 'v treeture_store \<Rightarrow> ('v treeture_store \<times> treeture) option" where
  "to_void h s = do {
     let (s, c) = new_state None s;
     (s, f) \<leftarrow> get_future h s;
     Some (on_completed f c False s, local_treeture c)}"

definition as_void :: "bool \<Rightarrow> treeture \<Rightarrow> 'v treeture_store \<Rightarrow> ('v treeture_store \<times> treeture) option" where
  "as_void void h s = (if void then Some (s, h) else to_void h s)"

text \<open>get\_left\_child (right is False) and get\_right\_child; void says that the treeture has no value.  The
  call at an LCO is a future whose value is the child; the conversion of this future to a treeture without a value
  keeps only that the call has returned.\<close>

definition child_of :: "bool \<Rightarrow> treeture \<times> treeture \<Rightarrow> treeture" where
  "child_of right = (if right then snd else fst)"

definition get_child :: "bool \<Rightarrow> bool \<Rightarrow> treeture \<Rightarrow> 'v treeture_store \<Rightarrow> ('v treeture_store \<times> treeture) option" where
  "get_child void right h s =
    (if fixed_children h then as_void void h s
     else case shared_state h of
         Some a \<Rightarrow>
           (let res = child_of right (tt_children (ts_tasks s ! a))
            in if \<not> tr_valid res then do {
                 (s, t) \<leftarrow> as_void void h s;
                 Some (s, t\<lparr>fixed_children := True\<rparr>)}
               else Some (s, res))
       | None \<Rightarrow> do {
           a \<leftarrow> lco_state h s;
           let (s, f) = new_state (Some Unused) s;
           Some (treeture_of_future True f s)})"

text \<open>set\_children has its body commented out.\<close>

definition set_children :: "treeture \<Rightarrow> treeture \<Rightarrow> treeture \<Rightarrow> 'v treeture_store \<Rightarrow> 'v treeture_store" where
  "set_children left right h s = s"

definition set_child :: "nat \<Rightarrow> treeture \<Rightarrow> treeture \<Rightarrow> 'v treeture_store \<Rightarrow> 'v treeture_store option" where
  "set_child idx child h s =
    (if 1 < idx then Some s
     else map_option (\<lambda>a. let t = ts_tasks s ! a; (l, r) = tt_children t
       in s\<lparr>ts_tasks := (ts_tasks s)[a := t\<lparr>tt_children := (if idx = 0 then (child, r) else (l, child))\<rparr>]\<rparr>) (state_of h s))"

text \<open>Serialization: a treeture with a shared state gets an LCO the first time it is sent.\<close>

definition tr_save :: "treeture \<Rightarrow> 'v treeture_store \<Rightarrow> 'v treeture_store \<times> treeture \<times> (nat option \<times> bool)" where
  "tr_save h s =
    (case shared_state h of
       Some a \<Rightarrow>
         (if tr_id h = None then
            (let g = length (ts_lcos s)
             in (s\<lparr>ts_lcos := ts_lcos s @ [a]\<rparr>, h\<lparr>tr_id := Some g\<rparr>, (Some g, fixed_children h)))
          else (s, h, (tr_id h, fixed_children h)))
     | None \<Rightarrow> (s, h, (tr_id h, fixed_children h)))"

definition tr_load :: "nat option \<times> bool \<Rightarrow> treeture" where
  "tr_load = (\<lambda>(g, fixed). \<lparr>shared_state = None, tr_id = g, fixed_children = fixed\<rparr>)"

section \<open>Completion\<close>

declare complete.simps [simp del]
lemmas complete_simps = complete.simps

lemma set_task_simps [simp]:
  "tt_value (set_task v t) = Some v" "tt_children (set_task v t) = tt_children t" "tt_on_completed (set_task v t) = []"
  by (simp_all add: set_task_def)

lemma complete_length [simp]: "length (complete ws ts) = length ts"
  by (induction ws ts rule: complete.induct) (simp_all add: complete_simps)

lemma complete_children: "tt_children (complete ws ts ! a) = tt_children (ts ! a)"
proof (induction ws ts rule: complete.induct)
  case (2 x v ws ts)
  then show ?case by (cases "x < length ts \<and> tt_value (ts ! x) = None") (auto simp: complete_simps nth_list_update)
qed (simp add: complete_simps)

text \<open>A value is set at most once, and each of the values on the list is set unless one was set before.\<close>

lemma complete_once: "tt_value (ts ! a) = Some v \<Longrightarrow> tt_value (complete ws ts ! a) = Some v"
proof (induction ws ts rule: complete.induct)
  case (2 x w ws ts)
  show ?case
  proof (cases "x < length ts \<and> tt_value (ts ! x) = None")
    case True
    then have "x \<noteq> a" using 2(3) by auto
    then show ?thesis using True 2(1,3) by (simp add: complete_simps)
  next
    case False
    then show ?thesis using 2(2,3) by (auto simp: complete_simps)
  qed
qed (simp add: complete_simps)

lemma complete_sets: "a \<in> fst ` set ws \<Longrightarrow> a < length ts \<Longrightarrow> tt_value (complete ws ts ! a) \<noteq> None"
proof (induction ws ts rule: complete.induct)
  case (2 x w ws ts)
  show ?case
  proof (cases "x < length ts \<and> tt_value (ts ! x) = None")
    case True
    then show ?thesis
      using 2 complete_once [of "ts[x := set_task w (ts ! x)]" x w] by (cases "a = x") (force simp: image_iff complete_simps)+
  next
    case False
    then show ?thesis
      using 2 complete_once [of ts x] by (cases "a = x") (auto simp: complete_simps)
  qed
qed simp

text \<open>The target c follows a: it is ready when a is, or waits for it.\<close>

definition follows_in :: "nat set \<Rightarrow> 'v treeture_task list \<Rightarrow> nat \<Rightarrow> nat \<Rightarrow> bool" where
  "follows_in pending ts a c \<longleftrightarrow>
    (if tt_value (ts ! a) = None then c \<in> fst ` set (tt_on_completed (ts ! a)) else tt_value (ts ! c) \<noteq> None \<or> c \<in> pending)"

definition follows :: "'v treeture_store \<Rightarrow> nat \<Rightarrow> nat \<Rightarrow> bool" where
  "follows s a c \<longleftrightarrow> a < length (ts_tasks s) \<and> c < length (ts_tasks s) \<and> follows_in {} (ts_tasks s) a c"

lemma fst_pass_value [simp]: "fst ` set (map (pass_value v) ws) = fst ` set ws"
  by (force simp: pass_value_def image_iff split: prod.splits)

lemma complete_follows:
  "follows_in (fst ` set ws) ts a c \<Longrightarrow> c < length ts \<Longrightarrow> follows_in {} (complete ws ts) a c"
proof (induction ws ts rule: complete.induct)
  case (2 x w ws ts)
  show ?case
  proof (cases "x < length ts \<and> tt_value (ts ! x) = None")
    case True
    let ?ws = "map (pass_value w) (tt_on_completed (ts ! x)) @ ws"
    have "follows_in (fst ` set ?ws) (ts[x := set_task w (ts ! x)]) a c"
      using True 2(3,4) by (cases "a = x"; cases "c = x") (auto simp: follows_in_def image_Un nth_list_update fst_pass_value [of w, unfolded set_map] split: if_splits)
    then show ?thesis using 2(1) True 2(4) by (simp add: complete_simps)
  next
    case False
    then have "follows_in (fst ` set ws) ts a c" using 2(3,4) by (auto simp: follows_in_def split: if_splits)
    then have "follows_in {} (complete ws ts) a c" using 2(2) [OF False] 2(4) by simp
    then show ?thesis using False by (simp only: complete_simps if_False)
  qed
qed (simp add: complete_simps)

lemma set_state_length [simp]: "length (ts_tasks (set_state a v s)) = length (ts_tasks s)"
  by (simp add: set_state_def)

lemma set_state_lcos [simp]: "ts_lcos (set_state a v s) = ts_lcos s"
  by (simp add: set_state_def)

lemma set_state_ready: "a < length (ts_tasks s) \<Longrightarrow> tr_is_ready a (set_state a v s)"
  using complete_sets [of a "[(a, v)]" "ts_tasks s"] by (simp add: tr_is_ready_def set_state_def)

lemma set_state_keeps: "tr_is_ready b s \<Longrightarrow> tr_is_ready b (set_state a v s)"
  by (auto simp: tr_is_ready_def set_state_def dest: complete_once)

lemma set_state_follows:
  assumes "follows s a c"
  shows "follows (set_state x v s) a c"
proof -
  have "follows_in (fst ` set [(x, v)]) (ts_tasks s) a c" using assms by (auto simp: follows_def follows_in_def)
  then show ?thesis using assms complete_follows [of "[(x, v)]" "ts_tasks s" a c] by (simp add: follows_def set_state_def)
qed

lemma on_completed_length [simp]: "length (ts_tasks (on_completed a c k s)) = length (ts_tasks s)"
  by (simp add: on_completed_def split: option.split)

lemma on_completed_lcos [simp]: "ts_lcos (on_completed a c k s) = ts_lcos s"
  by (simp add: on_completed_def split: option.split)

lemma on_completed_keeps: "tr_is_ready b s \<Longrightarrow> tr_is_ready b (on_completed a c k s)"
  using set_state_keeps [of b s] by (auto simp: on_completed_def tr_is_ready_def nth_list_update' split: option.split)

lemma on_completed_follows:
  assumes "follows s a c"
  shows "follows (on_completed x y k s) a c"
proof (cases "tt_value (ts_tasks s ! x)")
  case None
  then show ?thesis
    using assms by (auto simp: on_completed_def follows_def follows_in_def nth_list_update' split: if_splits)
next
  case (Some v)
  then show ?thesis using set_state_follows [OF assms] by (simp add: on_completed_def)
qed

lemma on_completed_links:
  assumes "a < length (ts_tasks s)" and "c < length (ts_tasks s)"
  shows "follows (on_completed a c k s) a c"
proof (cases "tt_value (ts_tasks s ! a)")
  case None
  then show ?thesis using assms by (simp add: on_completed_def follows_def follows_in_def)
next
  case (Some v)
  let ?w = "if k then v else Unused"
  have "tt_value (ts_tasks (set_state c ?w s) ! a) \<noteq> None" "tt_value (ts_tasks (set_state c ?w s) ! c) \<noteq> None"
    using Some set_state_keeps [of a s c ?w] set_state_ready [OF assms(2), of ?w] by (simp_all add: tr_is_ready_def)
  then obtain x y where "tt_value (ts_tasks (set_state c ?w s) ! a) = Some x" "tt_value (ts_tasks (set_state c ?w s) ! c) = Some y" by blast
  then have "follows (set_state c ?w s) a c" using assms by (simp add: follows_def follows_in_def del: if_split)
  then show ?thesis using Some by (simp add: on_completed_def)
qed

lemma new_state_simps:
  "ts_tasks (fst (new_state v s)) = ts_tasks s @ [new_task v]" "snd (new_state v s) = length (ts_tasks s)" "ts_lcos (fst (new_state v s)) = ts_lcos s"
  by (simp_all add: new_state_def)

lemma new_state_keeps: "b < length (ts_tasks s) \<Longrightarrow> tr_is_ready b (fst (new_state v s)) = tr_is_ready b s"
  by (simp add: new_state_simps tr_is_ready_def nth_append)

lemma new_state_follows: "follows s a c \<Longrightarrow> follows (fst (new_state v s)) a c"
  by (auto simp: follows_def follows_in_def new_state_simps nth_append split: if_splits)

lemma follows_ready:
  assumes "follows s a c" and "tr_is_ready a s"
  shows "tr_is_ready c s"
proof -
  obtain v where "tt_value (ts_tasks s ! a) = Some v" using assms(2) by (auto simp: tr_is_ready_def)
  then show ?thesis using assms(1) by (simp add: follows_def follows_in_def tr_is_ready_def)
qed

section \<open>Programs with treetures\<close>

text \<open>The variables of a program are treetures; each operation that yields a treeture puts it into a new one.\<close>

datatype 'v tr_op =
  Init
| Ready "'v tr_value"
| Set nat "'v tr_value"
| Void nat
| Child bool nat
| Children nat nat nat
| Send nat

type_synonym 'v tr_program = "'v treeture_store \<times> treeture list"

fun tr_exec :: "'v tr_op \<Rightarrow> 'v tr_program \<Rightarrow> 'v tr_program option" where
  "tr_exec Init (s, hs) = (let (s, h) = treeture_init s in Some (s, hs @ [h]))"
| "tr_exec (Ready v) (s, hs) = (let (s, h) = make_ready_treeture v s in Some (s, hs @ [h]))"
| "tr_exec (Set i v) (s, hs) = do {
     h \<leftarrow> at_opt hs i;
     s \<leftarrow> tr_set_value v h s;
     Some (s, hs)}"
| "tr_exec (Void i) (s, hs) = do {
     h \<leftarrow> at_opt hs i;
     (s, t) \<leftarrow> to_void h s;
     Some (s, hs @ [t])}"
| "tr_exec (Child right i) (s, hs) = do {
     h \<leftarrow> at_opt hs i;
     (s, t) \<leftarrow> get_child True right h s;
     Some (s, hs @ [t])}"
| "tr_exec (Children i l r) (s, hs) = do {
     h \<leftarrow> at_opt hs i;
     left \<leftarrow> at_opt hs l;
     right \<leftarrow> at_opt hs r;
     Some (set_children left right h s, hs)}"
| "tr_exec (Send i) (s, hs) = do {
     h \<leftarrow> at_opt hs i;
     let (s, h, msg) = tr_save h s;
     Some (s, hs[i := h] @ [tr_load msg])}"

fun tr_run :: "'v tr_op list \<Rightarrow> 'v tr_program \<Rightarrow> 'v tr_program option" where
  "tr_run [] p = Some p"
| "tr_run (x # xs) p = do {
     p \<leftarrow> tr_exec x p;
     tr_run xs p}"

definition no_states :: "'v tr_program" where
  "no_states = (\<lparr>ts_tasks = [], ts_lcos = []\<rparr>, [])"

text \<open>Every variable refers to a state; no state has children.\<close>

definition handle_ok :: "'v treeture_store \<Rightarrow> treeture \<Rightarrow> bool" where
  "handle_ok s h \<longleftrightarrow> (case shared_state h of
       Some a \<Rightarrow> a < length (ts_tasks s) \<and> (\<forall>g. tr_id h = Some g \<longrightarrow> g < length (ts_lcos s) \<and> ts_lcos s ! g = a)
     | None \<Rightarrow> (\<exists>g. tr_id h = Some g \<and> g < length (ts_lcos s)))"

definition store_ok :: "'v treeture_store \<Rightarrow> bool" where
  "store_ok s \<longleftrightarrow> (\<forall>a \<in> set (ts_lcos s). a < length (ts_tasks s)) \<and>
     (\<forall>a < length (ts_tasks s). tt_children (ts_tasks s ! a) = (no_treeture, no_treeture))"

definition program_inv :: "'v tr_program \<Rightarrow> bool" where
  "program_inv = (\<lambda>(s, hs). store_ok s \<and> (\<forall>h \<in> set hs. handle_ok s h))"

text \<open>What every operation keeps: states stay ready, links stay, and the states behind the variables stay the same.\<close>

definition store_grows :: "'v treeture_store \<Rightarrow> 'v treeture_store \<Rightarrow> bool" where
  "store_grows s s' \<longleftrightarrow> length (ts_tasks s) \<le> length (ts_tasks s') \<and> (\<exists>xs. ts_lcos s' = ts_lcos s @ xs) \<and>
     (\<forall>a < length (ts_tasks s). tr_is_ready a s \<longrightarrow> tr_is_ready a s') \<and> (\<forall>a c. follows s a c \<longrightarrow> follows s' a c)"

lemma store_grows_refl [simp]: "store_grows s s"
  by (simp add: store_grows_def)

lemma store_grows_trans: "store_grows s s' \<Longrightarrow> store_grows s' s'' \<Longrightarrow> store_grows s s''"
  by (auto simp: store_grows_def)

lemma new_state_grows: "store_grows s (fst (new_state v s))"
  using new_state_keeps new_state_follows by (auto simp: store_grows_def new_state_simps)

lemma on_completed_grows: "store_grows s (on_completed a c k s)"
  using on_completed_keeps on_completed_follows by (auto simp: store_grows_def)

lemma set_state_grows: "store_grows s (set_state a v s)"
  using set_state_keeps set_state_follows by (auto simp: store_grows_def)

lemma handle_ok_state: "handle_ok s h \<Longrightarrow> store_ok s \<Longrightarrow> \<exists>a. state_of h s = Some a \<and> a < length (ts_tasks s)"
  by (auto simp: handle_ok_def store_ok_def state_of_def lco_state_def split: option.splits)

lemma handle_ok_grows: "handle_ok s h \<Longrightarrow> store_grows s s' \<Longrightarrow> handle_ok s' h"
  by (auto simp: handle_ok_def store_grows_def nth_append split: option.splits)

lemma state_of_grows: "handle_ok s h \<Longrightarrow> store_grows s s' \<Longrightarrow> state_of h s' = state_of h s"
  by (auto simp: handle_ok_def store_grows_def state_of_def lco_state_def nth_append split: option.splits)

lemma local_treeture_ok [simp]: "handle_ok s (local_treeture a) \<longleftrightarrow> a < length (ts_tasks s)"
  by (simp add: handle_ok_def local_treeture_def)

lemma state_of_local [simp]: "state_of (local_treeture a) s = Some a"
  by (simp add: state_of_def local_treeture_def)

lemma new_task_children [simp]: "tt_children (new_task v) = (no_treeture, no_treeture)"
  by (simp add: new_task_def)

lemma store_ok_new: "store_ok s \<Longrightarrow> store_ok (fst (new_state v s))"
  by (auto simp: store_ok_def new_state_simps nth_append less_Suc_eq)

lemma store_ok_set: "store_ok s \<Longrightarrow> store_ok (set_state a v s)"
  by (simp add: store_ok_def set_state_def complete_children)

lemma store_ok_link: "store_ok s \<Longrightarrow> store_ok (on_completed a c k s)"
  using store_ok_set [of s] by (auto simp: on_completed_def store_ok_def nth_list_update' split: option.split)

text \<open>A state that is the state behind a treeture, or follows it.\<close>

definition linked :: "'v treeture_store \<Rightarrow> nat \<Rightarrow> nat \<Rightarrow> bool" where
  "linked s a c \<longleftrightarrow> a = c \<or> (\<exists>b. (a = b \<or> follows s a b) \<and> (b = c \<or> follows s b c))"

lemma linked_ready: "linked s a c \<Longrightarrow> tr_is_ready a s \<Longrightarrow> tr_is_ready c s"
  by (auto simp: linked_def dest: follows_ready)

lemma linked_grows: "linked s a c \<Longrightarrow> store_grows s s' \<Longrightarrow> linked s' a c"
  unfolding linked_def store_grows_def by blast

lemma get_future_ok:
  assumes "store_ok s" and "handle_ok s h"
  obtains s' f a where "get_future h s = Some (s', f)" and "store_grows s s'" and "store_ok s'" and "f < length (ts_tasks s')"
    and "state_of h s = Some a" and "a = f \<or> follows s' a f"
proof -
  obtain a where a: "state_of h s = Some a" "a < length (ts_tasks s)" using handle_ok_state assms by blast
  show thesis
  proof (cases "shared_state h")
    case (Some b)
    then have "b = a" using a(1) by (simp add: state_of_def)
    then show thesis using that [of s a a] Some a assms(1) by (simp add: get_future_def)
  next
    case None
    let ?s = "fst (new_state None s)" and ?f = "length (ts_tasks s)"
    have l: "lco_state h s = Some a" using None a(1) by (simp add: state_of_def)
    have g: "get_future h s = Some (on_completed a ?f True ?s, ?f)" using None l by (simp add: get_future_def new_state_def)
    have "follows (on_completed a ?f True ?s) a ?f" using a(2) by (intro on_completed_links) (simp_all add: new_state_simps)
    moreover have "store_grows s (on_completed a ?f True ?s)" using new_state_grows on_completed_grows store_grows_trans by blast
    moreover have "store_ok (on_completed a ?f True ?s)" using store_ok_link store_ok_new assms(1) by blast
    ultimately show thesis using that [OF g _ _ _ a(1)] by (simp add: new_state_simps)
  qed
qed

lemma to_void_ok:
  assumes "store_ok s" and "handle_ok s h"
  obtains s' c a where "to_void h s = Some (s', local_treeture c)" and "store_grows s s'" and "store_ok s'" and "c < length (ts_tasks s')"
    and "state_of h s = Some a" and "linked s' a c"
proof -
  let ?s = "fst (new_state None s)" and ?c = "length (ts_tasks s)"
  have g0: "store_grows s ?s" by (rule new_state_grows)
  obtain s' f a where f: "get_future h ?s = Some (s', f)" "store_grows ?s s'" "store_ok s'" "f < length (ts_tasks s')"
    "state_of h ?s = Some a" "a = f \<or> follows s' a f"
    using get_future_ok [OF store_ok_new [OF assms(1)] handle_ok_grows [OF assms(2) g0]] by blast
  let ?t = "on_completed f ?c False s'"
  have c: "?c < length (ts_tasks s')" using f(2) by (auto simp: store_grows_def new_state_simps)
  have g: "store_grows s' ?t" by (rule on_completed_grows)
  have "follows ?t f ?c" using f(4) c by (rule on_completed_links)
  moreover have "a = f \<or> follows ?t a f" using f(6) g unfolding store_grows_def by blast
  ultimately have "linked ?t a ?c" unfolding linked_def by blast
  moreover have "state_of h s = Some a" using f(5) state_of_grows [OF assms(2) g0] by simp
  moreover have "to_void h s = Some (?t, local_treeture ?c)" using f(1) by (simp add: to_void_def new_state_def)
  moreover have "store_grows s ?t" using g0 f(2) g store_grows_trans by blast
  ultimately show thesis using that store_ok_link [OF f(3)] c by simp
qed

text \<open>A local treeture has no children: it is its own child.  A call to a remote one yields a treeture that is ready.\<close>

lemma get_child_local:
  assumes "store_ok s" and "shared_state h = Some a" and "a < length (ts_tasks s)"
  shows "get_child True right h s = Some (s, h\<lparr>fixed_children := True\<rparr>)"
  using assms by (cases h) (auto simp: get_child_def as_void_def child_of_def store_ok_def tr_valid_def no_treeture_def Let_def)

lemma get_child_remote:
  assumes "shared_state h = None" and "\<not> fixed_children h" and "lco_state h s = Some a"
  obtains s' c where "get_child void right h s = Some (s', local_treeture c)" and "tr_is_ready c s'" and "store_grows s s'"
    and "c < length (ts_tasks s')" and "store_ok s \<Longrightarrow> store_ok s'"
proof -
  let ?s = "fst (new_state (Some Unused) s)" and ?f = "length (ts_tasks s)"
  let ?t = "fst (new_state None ?s)" and ?c = "length (ts_tasks ?s)"
  let ?u = "on_completed ?f ?c False ?t"
  have e: "get_child void right h s = Some (?u, local_treeture ?c)"
    using assms by (simp add: get_child_def treeture_of_future_def new_state_def)
  have l: "?f < length (ts_tasks ?t)" "?c < length (ts_tasks ?t)" by (simp_all add: new_state_simps)
  have "tr_is_ready ?f ?t" by (simp add: new_state_simps tr_is_ready_def nth_append new_task_def)
  then have "tr_is_ready ?c ?u" using follows_ready [OF on_completed_links [OF l]] on_completed_keeps by blast
  moreover have "store_grows s ?u" by (rule store_grows_trans [OF store_grows_trans [OF new_state_grows new_state_grows] on_completed_grows])
  moreover have "?c < length (ts_tasks ?u)" using l(2) by (simp only: on_completed_length)
  moreover have "store_ok ?u" if "store_ok s" using store_ok_link [OF store_ok_new [OF store_ok_new [OF that]]] .
  ultimately show thesis by (rule that [OF e])
qed

lemma get_child_fixed: "fixed_children h \<Longrightarrow> get_child True right h s = Some (s, h)"
  by (simp add: get_child_def as_void_def)

lemma get_child_ok:
  assumes "store_ok s" and "handle_ok s h"
  obtains s' t where "get_child True right h s = Some (s', t)" and "store_grows s s'" and "store_ok s'" and "handle_ok s' t"
proof (cases "fixed_children h")
  case True
  then show thesis using that [of s h] assms by (simp add: get_child_fixed)
next
  case False
  show thesis
  proof (cases "shared_state h")
    case (Some a)
    then have "a < length (ts_tasks s)" using assms(2) by (simp add: handle_ok_def)
    then have "get_child True right h s = Some (s, h\<lparr>fixed_children := True\<rparr>)" using get_child_local [OF assms(1) Some] by blast
    moreover have "handle_ok s (h\<lparr>fixed_children := True\<rparr>)" using assms(2) Some by (simp add: handle_ok_def)
    ultimately show thesis using that assms(1) store_grows_refl [of s] by blast
  next
    case None
    then obtain a where a: "lco_state h s = Some a" using handle_ok_state [OF assms(2,1)] by (auto simp: state_of_def)
    show thesis by (rule get_child_remote [OF None False a, of True right]) (use that assms(1) in simp)
  qed
qed

section \<open>Runs\<close>

lemma set_child_void [simp]: "set_children l r h s = s"
  by (simp add: set_children_def)

lemma save_ok:
  assumes "store_ok s" and "handle_ok s h" and "tr_save h s = (s', h', msg)"
  shows "store_grows s s' \<and> store_ok s' \<and> handle_ok s' h' \<and> handle_ok s' (tr_load msg) \<and>
    state_of h' s' = state_of h s \<and> state_of (tr_load msg) s' = state_of h s"
proof (cases "shared_state h")
  case None
  then show ?thesis using assms by (auto simp: tr_save_def tr_load_def handle_ok_def state_of_def lco_state_def)
next
  case (Some a)
  then show ?thesis
    using assms by (cases "tr_id h")
      (auto simp: tr_save_def tr_load_def handle_ok_def state_of_def lco_state_def store_ok_def store_grows_def tr_is_ready_def follows_def Let_def)
qed

text \<open>No operation is undefined for variables that exist.\<close>

fun op_vars :: "'v tr_op \<Rightarrow> nat list" where
  "op_vars (Set i v) = [i]"
| "op_vars (Void i) = [i]"
| "op_vars (Child right i) = [i]"
| "op_vars (Children i l r) = [i, l, r]"
| "op_vars (Send i) = [i]"
| "op_vars _ = []"

text \<open>What an operation keeps of the variables.\<close>

definition keeps_vars :: "'v tr_program \<Rightarrow> 'v tr_program \<Rightarrow> bool" where
  "keeps_vars = (\<lambda>(s, hs) (s', hs'). store_grows s s' \<and> length hs \<le> length hs' \<and>
     (\<forall>i < length hs. state_of (hs' ! i) s' = state_of (hs ! i) s))"

lemma keeps_vars_refl: "keeps_vars p p"
  by (auto simp: keeps_vars_def)

lemma keeps_vars_trans: "keeps_vars p q \<Longrightarrow> keeps_vars q r \<Longrightarrow> keeps_vars p r"
  by (auto simp: keeps_vars_def intro: store_grows_trans)

lemma grows_keeps_vars:
  assumes "program_inv (s, hs)" and "store_grows s s'"
  shows "keeps_vars (s, hs) (s', hs @ ts)"
  using assms state_of_grows [of s _ s'] by (auto simp: keeps_vars_def program_inv_def nth_append)

lemma grows_inv:
  assumes "program_inv (s, hs)" and "store_grows s s'" and "store_ok s'" and "\<forall>t \<in> set ts. handle_ok s' t"
  shows "program_inv (s', hs @ ts)"
  using assms handle_ok_grows [of s _ s'] by (auto simp: program_inv_def)

lemma tr_exec_step:
  assumes "program_inv (s, hs)" and "\<forall>i \<in> set (op_vars x). i < length hs"
  obtains s' hs' where "tr_exec x (s, hs) = Some (s', hs')" and "program_inv (s', hs')" and "keeps_vars (s, hs) (s', hs')"
proof -
  have s: "store_ok s" and h: "\<And>i. i < length hs \<Longrightarrow> handle_ok s (hs ! i)" using assms(1) by (auto simp: program_inv_def)
  have add: thesis if "tr_exec x (s, hs) = Some (s', hs @ ts)" "store_grows s s'" "store_ok s'" "\<forall>t \<in> set ts. handle_ok s' t" for s' ts
    using \<open>\<And>s' hs'. tr_exec x (s, hs) = Some (s', hs') \<Longrightarrow> program_inv (s', hs') \<Longrightarrow> keeps_vars (s, hs) (s', hs') \<Longrightarrow> thesis\<close>
      [OF that(1) grows_inv [OF assms(1) that(2-4)] grows_keeps_vars [OF assms(1) that(2)]] .
  show thesis
  proof (cases x)
    case Init
    show thesis
      by (rule add [of "fst (new_state None s)" "[local_treeture (length (ts_tasks s))]"])
        (simp_all add: Init treeture_init_def new_state_def new_state_grows [of s None, unfolded new_state_def, simplified] store_ok_new [OF s, of None, unfolded new_state_def, simplified])
  next
    case (Ready v)
    show thesis
      by (rule add [of "fst (new_state (Some v) s)" "[local_treeture (length (ts_tasks s))]"])
        (simp_all add: Ready make_ready_treeture_def new_state_def new_state_grows [of s "Some v", unfolded new_state_def, simplified] store_ok_new [OF s, of "Some v", unfolded new_state_def, simplified])
  next
    case (Set i v)
    then have i: "i < length hs" using assms(2) by simp
    obtain a where "state_of (hs ! i) s = Some a" using handle_ok_state [OF h [OF i] s] by blast
    then show thesis by (intro add [of "set_state a v s" "[]"]) (simp_all add: Set i tr_set_value_def set_state_grows store_ok_set s)
  next
    case (Void i)
    then have i: "i < length hs" using assms(2) by simp
    obtain s' c a where t: "to_void (hs ! i) s = Some (s', local_treeture c)" "store_grows s s'" "store_ok s'" "c < length (ts_tasks s')"
      using to_void_ok [OF s h [OF i]] by metis
    show thesis by (rule add [of s' "[local_treeture c]"]) (simp_all add: Void i t)
  next
    case (Child right i)
    then have i: "i < length hs" using assms(2) by simp
    obtain s' t where t: "get_child True right (hs ! i) s = Some (s', t)" "store_grows s s'" "store_ok s'" "handle_ok s' t"
      by (rule get_child_ok [OF s h [OF i]])
    show thesis by (rule add [of s' "[t]"]) (simp_all add: Child i t)
  next
    case (Children i l r)
    then show thesis using assms(2) by (intro add [of s "[]"]) (simp_all add: s)
  next
    case (Send i)
    then have i: "i < length hs" using assms(2) by simp
    obtain s' h' msg where m: "tr_save (hs ! i) s = (s', h', msg)" by (cases "tr_save (hs ! i) s")
    note ok = save_ok [OF s h [OF i] m]
    have e: "tr_exec x (s, hs) = Some (s', hs[i := h'] @ [tr_load msg])" using i m by (simp add: Send)
    have "program_inv (s', hs[i := h'] @ [tr_load msg])"
      using ok assms(1) handle_ok_grows [of s _ s'] set_update_subset_insert [of hs i h'] by (auto simp: program_inv_def)
    moreover have "keeps_vars (s, hs) (s', hs[i := h'] @ [tr_load msg])"
      using ok h state_of_grows [of s _ s'] by (auto simp: keeps_vars_def nth_append nth_list_update')
    ultimately show thesis using e that by blast
  qed
qed

lemma tr_run_append: "tr_run (xs @ ys) p = do {q \<leftarrow> tr_run xs p; tr_run ys q}"
  by (induction xs arbitrary: p) (auto simp: bind_assoc intro!: arg_cong [where f = "Option.bind (tr_exec _ _)"])

lemma tr_exec_vars: "tr_exec x (s, hs) = Some p \<Longrightarrow> \<forall>i \<in> set (op_vars x). i < length hs"
  by (cases x) (auto simp: bind_eq_Some_conv)

lemma tr_exec_keeps: "tr_exec x p = Some q \<Longrightarrow> program_inv p \<Longrightarrow> program_inv q \<and> keeps_vars p q"
  by (cases p) (metis tr_exec_step tr_exec_vars option.inject)

lemma tr_run_keeps: "tr_run xs p = Some q \<Longrightarrow> program_inv p \<Longrightarrow> program_inv q \<and> keeps_vars p q"
proof (induction xs arbitrary: p)
  case (Cons x xs)
  then obtain r where r: "tr_exec x p = Some r" "tr_run xs r = Some q" by (auto simp: bind_eq_Some_conv)
  then show ?case using tr_exec_keeps [OF r(1) Cons.prems(2)] Cons.IH [OF r(2)] keeps_vars_trans by blast
qed (simp add: keeps_vars_refl)

lemma no_states_inv: "program_inv no_states"
  by (simp add: program_inv_def no_states_def store_ok_def)

text \<open>C36: A treeture without a value that is made from another one, and a treeture that was sent to another
  locality, are ready as soon as the original is, whatever the program does with them and with the others in the meantime;
  the one that was sent is the same state.\<close>

theorem completion_reaches_copies:
  assumes "tr_run xs no_states = Some (s1, hs1)" and "i < length hs1" and "x = Void i \<or> x = Send i"
    and "tr_run (xs @ x # ys) no_states = Some (s, hs)"
  shows "\<exists>a c. state_of (hs ! i) s = Some a \<and> state_of (hs ! length hs1) s = Some c \<and> (tr_is_ready a s \<longrightarrow> tr_is_ready c s) \<and>
    (x = Send i \<longrightarrow> c = a)"
proof -
  have inv1: "program_inv (s1, hs1)" using tr_run_keeps [OF assms(1) no_states_inv] by simp
  then have s1: "store_ok s1" "handle_ok s1 (hs1 ! i)" using assms(2) by (auto simp: program_inv_def)
  obtain s2 hs2 where x: "tr_exec x (s1, hs1) = Some (s2, hs2)" and ys: "tr_run ys (s2, hs2) = Some (s, hs)"
    using assms(1,4) by (auto simp: tr_run_append bind_eq_Some_conv)
  obtain a c where ac: "state_of (hs2 ! i) s2 = Some a" "state_of (hs2 ! length hs1) s2 = Some c" "linked s2 a c" "x = Send i \<longrightarrow> c = a"
    and len: "length hs2 = Suc (length hs1)"
  proof (cases "x = Send i")
    case True
    obtain s' h' msg where m: "tr_save (hs1 ! i) s1 = (s', h', msg)" by (cases "tr_save (hs1 ! i) s1")
    have q: "s2 = s'" "hs2 = hs1[i := h'] @ [tr_load msg]" using x True m assms(2) by simp_all
    obtain a where a: "state_of (hs1 ! i) s1 = Some a" using handle_ok_state s1 by blast
    have "state_of (hs2 ! i) s2 = Some a" "state_of (hs2 ! length hs1) s2 = Some a"
      using save_ok [OF s1 m] a assms(2) by (simp_all add: q nth_append)
    then show thesis using that by (simp add: q linked_def)
  next
    case False
    then have v: "x = Void i" using assms(3) by blast
    obtain s' a c where t: "to_void (hs1 ! i) s1 = Some (s', local_treeture c)" "store_grows s1 s'" "state_of (hs1 ! i) s1 = Some a" "linked s' a c"
      using to_void_ok [OF s1] by metis
    have q: "s2 = s'" "hs2 = hs1 @ [local_treeture c]" using x v t(1) assms(2) by simp_all
    have "state_of (hs2 ! i) s2 = Some a" using state_of_grows [OF s1(2) t(2)] t(3) assms(2) by (simp add: q nth_append)
    then show thesis using that t(4) False by (simp add: q)
  qed
  have inv2: "program_inv (s2, hs2)" using tr_exec_keeps [OF x inv1] by simp
  have k: "keeps_vars (s2, hs2) (s, hs)" using tr_run_keeps [OF ys inv2] by simp
  then have "state_of (hs ! i) s = Some a" "state_of (hs ! length hs1) s = Some c" using ac assms(2) len by (simp_all add: keeps_vars_def)
  moreover have "tr_is_ready a s \<longrightarrow> tr_is_ready c s" using linked_ready [OF linked_grows [OF ac(3)]] k by (auto simp: keeps_vars_def)
  ultimately show ?thesis using ac(4) by blast
qed

theorem completion_reaches_copies_witness:
  "\<exists>s hs a c. tr_run [Init, Void 0, Send 1, Void 2, Set 0 (Val (7 :: int))] no_states = Some (s, hs) \<and> state_of (hs ! 0) s = Some a \<and>
     state_of (hs ! 1) s = Some c \<and> tr_is_ready a s \<and> tr_is_ready c s"
proof -
  obtain s hs where r: "tr_run ([Init] @ Void 0 # [Send 1, Void 2, Set 0 (Val (7 :: int))]) no_states = Some (s, hs)"
    and a: "state_of (hs ! 0) s = Some 0 \<and> tr_is_ready 0 s"
    by (simp add: no_states_def treeture_init_def new_state_def to_void_def get_future_def local_treeture_def on_completed_def new_task_def
      tr_save_def tr_load_def lco_state_def tr_set_value_def state_of_def set_state_def complete_simps pass_value_def set_task_def tr_is_ready_def)
  have "tr_run [Init] (no_states :: int tr_program) = Some (fst (new_state None (fst no_states)), [local_treeture 0])"
    by (simp add: no_states_def treeture_init_def new_state_def)
  then show ?thesis using completion_reaches_copies [of "[Init]" _ _ 0 "Void 0" "[Send 1, Void 2, Set 0 (Val 7)]" s hs] r a by fastforce
qed

section \<open>Children\<close>

text \<open>set\_children has no effect, so every child of a treeture on its locality is the treeture itself; on another
  locality the child is ready at once, even if the work it stands for has not begun.\<close>

lemma child_is_whole:
  assumes "tr_run xs no_states = Some (s, hs)" and "i < length hs" and "shared_state (hs ! i) = Some a"
  shows "get_child True right (hs ! i) s = Some (s, (hs ! i)\<lparr>fixed_children := True\<rparr>)"
proof -
  have "program_inv (s, hs)" using tr_run_keeps [OF assms(1) no_states_inv] by simp
  then have "store_ok s" "handle_ok s (hs ! i)" using assms(2) by (auto simp: program_inv_def)
  then show ?thesis using assms(3) by (intro get_child_local) (auto simp: handle_ok_def)
qed

lemma remote_child_ready_too_early:
  "\<exists>s hs c. tr_run [Init, Send 0, Child False 1] (no_states :: int tr_program) = Some (s, hs) \<and>
     state_of (hs ! 1) s = Some 0 \<and> \<not> tr_is_ready 0 s \<and> state_of (hs ! 2) s = Some c \<and> tr_is_ready c s"
  by (simp add: no_states_def treeture_init_def new_state_def local_treeture_def on_completed_def new_task_def get_child_def treeture_of_future_def
      tr_save_def tr_load_def lco_state_def state_of_def set_state_def complete_simps pass_value_def set_task_def tr_is_ready_def)
end
