(* ===== verification/Pfor.thy ===== *)
theory Pfor
  imports Step_Systems Treetures
begin

text \<open>
  The parallel loops of examples/pfor/pfor.hpp.  A loop is a work item over a range of iterations; it is split into two
  halves or processed.  A loop with the synchronization of neighbours carries the treetures of the loop before it, of
  the iterations left of its range, in it, and right of it, and waits for them before it is processed.

  The state is that of a program that starts loops one after the other and of the work items, in the order of their creation, all on
  one locality.  None stands for a choice that is not possible, or undefined behaviour (the overflow of int).
\<close>

section \<open>Work items\<close>

datatype loop_phase =
  Spawned
| Left_spawned nat int "treeture list"
| Joining nat nat
| Running int
| Finished

record loop_task =
  lt_loop :: nat
  lt_begin :: int
  lt_end :: int
  lt_tree :: treeture
  lt_deps :: "treeture list"
  lt_phase :: loop_phase

record pfor_loop =
  pl_root :: nat
  pl_sync :: bool

record pfor_state =
  pf_store :: "unit treeture_store"
  pf_tasks :: "loop_task list"
  pf_loops :: "pfor_loop list"
  pf_handle :: treeture
  pf_log :: "(nat \<times> int) list"

text \<open>The test of a body that has none of its own.\<close>

definition pfor_can_split :: "int \<Rightarrow> int \<Rightarrow> bool" where
  "pfor_can_split b e \<longleftrightarrow> e - b > 10000"

definition pfor_mid :: "int \<Rightarrow> int \<Rightarrow> int option" where
  "pfor_mid b e = (if e - b < 2 ^ 31 then Some (b + (e - b) div 2) else None)"

text \<open>The dependencies of the two halves; a loop without synchronization has none.\<close>

fun refine_deps :: "treeture list \<Rightarrow> 'v treeture_store \<Rightarrow> ('v treeture_store \<times> treeture list \<times> treeture list) option" where
  "refine_deps [] s = Some (s, [], [])"
| "refine_deps [dl, dc, dr] s = do {
     (s, dlr) \<leftarrow> get_child True True dl s;
     (s, dcl) \<leftarrow> get_child True False dc s;
     (s, dcr) \<leftarrow> get_child True True dc s;
     (s, drl) \<leftarrow> get_child True False dr s;
     Some (s, [dlr, dcl, dcr], [dcl, dcr, drl])}"
| "refine_deps _ s = None"

definition spawn_range :: "nat \<Rightarrow> int \<Rightarrow> int \<Rightarrow> treeture list \<Rightarrow> pfor_state \<Rightarrow> pfor_state" where
  "spawn_range k b e deps r =
    (let (s, h) = treeture_init (pf_store r)
     in r\<lparr>pf_store := s,
          pf_tasks := pf_tasks r @ [\<lparr>lt_loop = k, lt_begin = b, lt_end = e, lt_tree = h, lt_deps = deps, lt_phase = Spawned\<rparr>]\<rparr>)"

definition set_loop_phase :: "nat \<Rightarrow> loop_phase \<Rightarrow> pfor_state \<Rightarrow> pfor_state" where
  "set_loop_phase i p r = r\<lparr>pf_tasks := (pf_tasks r)[i := (pf_tasks r ! i)\<lparr>lt_phase := p\<rparr>]\<rparr>"

definition finish_task :: "nat \<Rightarrow> pfor_state \<Rightarrow> pfor_state option" where
  "finish_task i r = do {
     s \<leftarrow> tr_set_value Unused (lt_tree (pf_tasks r ! i)) (pf_store r);
     Some (set_loop_phase i Finished (r\<lparr>pf_store := s\<rparr>))}"

definition is_done :: "pfor_state \<Rightarrow> treeture \<Rightarrow> bool" where
  "is_done r h \<longleftrightarrow> (case state_of h (pf_store r) of Some a \<Rightarrow> tr_is_ready a (pf_store r) | None \<Rightarrow> False)"

section \<open>Steps\<close>

datatype pfor_choice =
  Start_loop bool int int
| Split_left nat
| Split_right nat
| Join nat
| Process nat
| Iterate nat

definition start_loop :: "bool \<Rightarrow> int \<Rightarrow> int \<Rightarrow> pfor_state \<Rightarrow> pfor_state" where
  "start_loop sync b e r =
    (let (s, ready) = make_ready_treeture Unused (pf_store r);
         deps = (if sync then [ready, pf_handle r, ready] else []);
         r = spawn_range (length (pf_loops r)) b e deps (if sync then r\<lparr>pf_store := s\<rparr> else r);
         i = length (pf_tasks r) - 1
     in r\<lparr>pf_loops := pf_loops r @ [\<lparr>pl_root = i, pl_sync = sync\<rparr>], pf_handle := lt_tree (pf_tasks r ! i)\<rparr>)"

text \<open>The variant that splits; the second half is spawned in a step of its own, since the first may already run by then.\<close>

definition split_left :: "(int \<Rightarrow> int \<Rightarrow> bool) \<Rightarrow> nat \<Rightarrow> pfor_state \<Rightarrow> pfor_state option" where
  "split_left can_split i r = do {
     t \<leftarrow> at_opt (pf_tasks r) i;
     if lt_phase t \<noteq> Spawned \<or> \<not> can_split (lt_begin t) (lt_end t) then None
     else if lt_begin t \<ge> lt_end t then finish_task i r
     else do {
       mid \<leftarrow> pfor_mid (lt_begin t) (lt_end t);
       (s, left, right) \<leftarrow> refine_deps (lt_deps t) (pf_store r);
       let l = length (pf_tasks r);
       let r = spawn_range (lt_loop t) (lt_begin t) mid left (r\<lparr>pf_store := s\<rparr>);
       Some (set_loop_phase i (Left_spawned l mid right) r)}}"

definition split_right :: "nat \<Rightarrow> pfor_state \<Rightarrow> pfor_state option" where
  "split_right i r = do {
     t \<leftarrow> at_opt (pf_tasks r) i;
     case lt_phase t of
       Left_spawned l mid right \<Rightarrow>
         Some (set_loop_phase i (Joining l (length (pf_tasks r))) (spawn_range (lt_loop t) mid (lt_end t) right r))
     | _ \<Rightarrow> None}"

definition join :: "nat \<Rightarrow> pfor_state \<Rightarrow> pfor_state option" where
  "join i r = do {
     t \<leftarrow> at_opt (pf_tasks r) i;
     case lt_phase t of
       Joining l u \<Rightarrow>
         (if is_done r (lt_tree (pf_tasks r ! l)) \<and> is_done r (lt_tree (pf_tasks r ! u)) then finish_task i r else None)
     | _ \<Rightarrow> None}"

text \<open>The variant that processes a range, after all its dependencies.\<close>

definition process_range :: "nat \<Rightarrow> pfor_state \<Rightarrow> pfor_state option" where
  "process_range i r = do {
     t \<leftarrow> at_opt (pf_tasks r) i;
     if lt_phase t = Spawned \<and> list_all (is_done r) (lt_deps t) then Some (set_loop_phase i (Running (lt_begin t)) r) else None}"

definition iterate :: "nat \<Rightarrow> pfor_state \<Rightarrow> pfor_state option" where
  "iterate i r = do {
     t \<leftarrow> at_opt (pf_tasks r) i;
     case lt_phase t of
       Running c \<Rightarrow>
         (if c < lt_end t then Some (set_loop_phase i (Running (c + 1)) (r\<lparr>pf_log := pf_log r @ [(lt_loop t, c)]\<rparr>)) else finish_task i r)
     | _ \<Rightarrow> None}"

fun pfor_exec :: "(int \<Rightarrow> int \<Rightarrow> bool) \<Rightarrow> pfor_choice \<Rightarrow> pfor_state \<Rightarrow> pfor_state option" where
  "pfor_exec can_split (Start_loop sync b e) r = Some (start_loop sync b e r)"
| "pfor_exec can_split (Split_left i) r = split_left can_split i r"
| "pfor_exec can_split (Split_right i) r = split_right i r"
| "pfor_exec can_split (Join i) r = join i r"
| "pfor_exec can_split (Process i) r = process_range i r"
| "pfor_exec can_split (Iterate i) r = iterate i r"

fun pfor_run :: "(int \<Rightarrow> int \<Rightarrow> bool) \<Rightarrow> pfor_choice list \<Rightarrow> pfor_state \<Rightarrow> pfor_state option" where
  "pfor_run can_split [] r = Some r"
| "pfor_run can_split (c # cs) r = do {
     r \<leftarrow> pfor_exec can_split c r;
     pfor_run can_split cs r}"

text \<open>Before the first loop the handle is ready.\<close>

definition no_loops :: pfor_state where
  "no_loops = (let (s, h) = make_ready_treeture Unused \<lparr>ts_tasks = [], ts_lcos = []\<rparr>
     in \<lparr>pf_store = s, pf_tasks = [], pf_loops = [], pf_handle = h, pf_log = []\<rparr>)"

section \<open>The treetures of a run on one locality\<close>

definition near :: "'v treeture_store \<Rightarrow> treeture \<Rightarrow> bool" where
  "near s h \<longleftrightarrow> (\<exists>a < length (ts_tasks s). shared_state h = Some a)"

definition local_store :: "'v treeture_store \<Rightarrow> bool" where
  "local_store s \<longleftrightarrow> store_ok s \<and> (\<forall>a < length (ts_tasks s). tt_on_completed (ts_tasks s ! a) = [])"

definition whole :: "treeture \<Rightarrow> treeture" where
  "whole h = h\<lparr>fixed_children := True\<rparr>"

lemma whole_state [simp]: "shared_state (whole h) = shared_state h"
  by (simp add: whole_def)

lemma get_child_near:
  assumes "local_store s" and "near s h"
  shows "get_child True right h s = Some (s, whole h)"
proof (cases "fixed_children h")
  case True
  then have "whole h = h" by (cases h) (simp add: whole_def)
  then show ?thesis using True get_child_fixed [of h right s] by simp
next
  case False
  obtain a where "shared_state h = Some a" "a < length (ts_tasks s)" using assms(2) by (auto simp: near_def)
  then show ?thesis using get_child_local [of s h a right] assms(1) by (simp add: local_store_def whole_def)
qed

lemma refine_near:
  assumes "local_store s" and "near s dl" and "near s dc" and "near s dr"
  shows "refine_deps [dl, dc, dr] s = Some (s, [whole dl, whole dc, whole dc], [whole dc, whole dc, whole dr])"
  using assms by (simp add: get_child_near)

lemma set_state_local:
  assumes "local_store s" and "a < length (ts_tasks s)" and "tt_value (ts_tasks s ! a) = None"
  shows "set_state a v s = s\<lparr>ts_tasks := (ts_tasks s)[a := set_task v (ts_tasks s ! a)]\<rparr>"
proof -
  have "tt_on_completed (ts_tasks s ! a) = []" using assms(1,2) by (simp add: local_store_def)
  then show ?thesis using assms(2,3) by (simp add: set_state_def complete_simps)
qed

lemma local_store_set:
  assumes "local_store s" and "a < length (ts_tasks s)" and "tt_value (ts_tasks s ! a) = None"
  shows "local_store (set_state a v s)"
proof -
  have "store_ok (set_state a v s)" using store_ok_set assms(1) by (auto simp: local_store_def)
  then show ?thesis
    using assms(1) unfolding set_state_local [OF assms] by (auto simp: local_store_def nth_list_update')
qed

lemma local_store_new: "local_store s \<Longrightarrow> local_store (fst (new_state v s))"
  using store_ok_new [of s v] by (auto simp: local_store_def new_state_simps nth_append new_task_def less_Suc_eq)

definition done_in :: "'v treeture_store \<Rightarrow> treeture \<Rightarrow> bool" where
  "done_in s h \<longleftrightarrow> (\<exists>a < length (ts_tasks s). shared_state h = Some a \<and> tr_is_ready a s)"

lemma is_done_near: "near (pf_store r) h \<Longrightarrow> is_done r h = done_in (pf_store r) h"
  by (auto simp: near_def is_done_def done_in_def state_of_def)

lemma done_in_near: "done_in s h \<Longrightarrow> near s h"
  by (auto simp: near_def done_in_def)

section \<open>The invariant\<close>

definition prev_tree :: "pfor_state \<Rightarrow> nat \<Rightarrow> treeture" where
  "prev_tree r k = (if k = 0 then local_treeture 0 else lt_tree (pf_tasks r ! pl_root (pf_loops r ! (k - 1))))"

definition dep_near :: "pfor_state \<Rightarrow> nat \<Rightarrow> treeture \<Rightarrow> bool" where
  "dep_near r k h \<longleftrightarrow> near (pf_store r) h \<and> (done_in (pf_store r) h \<or> shared_state h = shared_state (prev_tree r k))"

definition deps_ok :: "pfor_state \<Rightarrow> nat \<Rightarrow> treeture list \<Rightarrow> bool" where
  "deps_ok r k ds \<longleftrightarrow>
    (if pl_sync (pf_loops r ! k)
     then \<exists>dl dc dr. ds = [dl, dc, dr] \<and> dep_near r k dl \<and> dep_near r k dc \<and> dep_near r k dr \<and> shared_state dc = shared_state (prev_tree r k)
     else ds = [])"

definition covers :: "pfor_state \<Rightarrow> nat \<Rightarrow> int \<Rightarrow> int \<Rightarrow> bool" where
  "covers r k b e \<longleftrightarrow> (\<forall>j. b \<le> j \<longrightarrow> j < e \<longrightarrow> (k, j) \<in> set (pf_log r))"

definition half_ok :: "pfor_state \<Rightarrow> nat \<Rightarrow> nat \<Rightarrow> nat \<Rightarrow> int \<Rightarrow> int \<Rightarrow> bool" where
  "half_ok r i l k b e \<longleftrightarrow> i < l \<and> l < length (pf_tasks r) \<and> lt_loop (pf_tasks r ! l) = k \<and> lt_begin (pf_tasks r ! l) = b \<and> lt_end (pf_tasks r ! l) = e"

definition phase_ok :: "pfor_state \<Rightarrow> nat \<Rightarrow> loop_task \<Rightarrow> bool" where
  "phase_ok r i t \<longleftrightarrow>
    (case lt_phase t of
       Spawned \<Rightarrow> True
     | Left_spawned l mid ds \<Rightarrow> half_ok r i l (lt_loop t) (lt_begin t) mid \<and> mid \<le> lt_end t \<and> deps_ok r (lt_loop t) ds
     | Joining l u \<Rightarrow> (\<exists>mid. half_ok r i l (lt_loop t) (lt_begin t) mid \<and> half_ok r i u (lt_loop t) mid (lt_end t))
     | Running c \<Rightarrow> covers r (lt_loop t) (lt_begin t) c \<and> (pl_sync (pf_loops r ! lt_loop t) \<longrightarrow> done_in (pf_store r) (prev_tree r (lt_loop t)))
     | Finished \<Rightarrow> covers r (lt_loop t) (lt_begin t) (lt_end t))"

definition own_tree :: "'v treeture_store \<Rightarrow> treeture \<Rightarrow> bool" where
  "own_tree s h \<longleftrightarrow> (\<exists>a < length (ts_tasks s). h = local_treeture a)"

definition task_ok :: "pfor_state \<Rightarrow> nat \<Rightarrow> bool" where
  "task_ok r i \<longleftrightarrow> (let t = pf_tasks r ! i
     in lt_loop t < length (pf_loops r) \<and> own_tree (pf_store r) (lt_tree t) \<and>
        (done_in (pf_store r) (lt_tree t) \<longleftrightarrow> lt_phase t = Finished) \<and> deps_ok r (lt_loop t) (lt_deps t) \<and> phase_ok r i t)"

definition loop_ok :: "pfor_state \<Rightarrow> nat \<Rightarrow> bool" where
  "loop_ok r k \<longleftrightarrow> pl_root (pf_loops r ! k) < length (pf_tasks r) \<and> lt_loop (pf_tasks r ! pl_root (pf_loops r ! k)) = k"

definition loop_begin :: "pfor_state \<Rightarrow> nat \<Rightarrow> int" where
  "loop_begin r k = lt_begin (pf_tasks r ! pl_root (pf_loops r ! k))"

definition loop_end :: "pfor_state \<Rightarrow> nat \<Rightarrow> int" where
  "loop_end r k = lt_end (pf_tasks r ! pl_root (pf_loops r ! k))"

text \<open>Before an iteration of a loop that waits for the one before it, all iterations of that one.\<close>

definition barrier_at :: "pfor_state \<Rightarrow> nat \<Rightarrow> bool" where
  "barrier_at r p \<longleftrightarrow> (let k = fst (pf_log r ! p)
     in k < length (pf_loops r) \<and> (0 < k \<longrightarrow> pl_sync (pf_loops r ! k) \<longrightarrow>
       (\<forall>j. loop_begin r (k - 1) \<le> j \<longrightarrow> j < loop_end r (k - 1) \<longrightarrow> (k - 1, j) \<in> set (take p (pf_log r)))))"

definition pfor_inv :: "pfor_state \<Rightarrow> bool" where
  "pfor_inv r \<longleftrightarrow> local_store (pf_store r) \<and> done_in (pf_store r) (local_treeture 0) \<and> distinct (map lt_tree (pf_tasks r)) \<and>
     (\<forall>i < length (pf_tasks r). task_ok r i) \<and> (\<forall>k < length (pf_loops r). loop_ok r k) \<and>
     pf_handle r = prev_tree r (length (pf_loops r)) \<and> (\<forall>p < length (pf_log r). barrier_at r p)"

lemma pfor_invD:
  assumes "pfor_inv r"
  shows "local_store (pf_store r)" "done_in (pf_store r) (local_treeture 0)" "distinct (map lt_tree (pf_tasks r))"
    "\<And>i. i < length (pf_tasks r) \<Longrightarrow> task_ok r i" "\<And>k. k < length (pf_loops r) \<Longrightarrow> loop_ok r k"
    "pf_handle r = prev_tree r (length (pf_loops r))" "\<And>p. p < length (pf_log r) \<Longrightarrow> barrier_at r p"
  using assms by (auto simp: pfor_inv_def)

text \<open>What every step keeps.\<close>

definition extends :: "pfor_state \<Rightarrow> pfor_state \<Rightarrow> bool" where
  "extends r r' \<longleftrightarrow> length (pf_tasks r) \<le> length (pf_tasks r') \<and>
     (\<forall>i < length (pf_tasks r). \<exists>p. pf_tasks r' ! i = (pf_tasks r ! i)\<lparr>lt_phase := p\<rparr>) \<and>
     length (ts_tasks (pf_store r)) \<le> length (ts_tasks (pf_store r')) \<and>
     (\<forall>h. done_in (pf_store r) h \<longrightarrow> done_in (pf_store r') h) \<and> (\<exists>ls. pf_loops r' = pf_loops r @ ls) \<and> (\<exists>xs. pf_log r' = pf_log r @ xs)"

lemma extends_task:
  assumes "extends r r'" and "i < length (pf_tasks r)"
  shows "i < length (pf_tasks r')" "lt_loop (pf_tasks r' ! i) = lt_loop (pf_tasks r ! i)" "lt_begin (pf_tasks r' ! i) = lt_begin (pf_tasks r ! i)"
    "lt_end (pf_tasks r' ! i) = lt_end (pf_tasks r ! i)" "lt_tree (pf_tasks r' ! i) = lt_tree (pf_tasks r ! i)" "lt_deps (pf_tasks r' ! i) = lt_deps (pf_tasks r ! i)"
proof -
  obtain p where "pf_tasks r' ! i = (pf_tasks r ! i)\<lparr>lt_phase := p\<rparr>" using assms by (auto simp: extends_def)
  then show "lt_loop (pf_tasks r' ! i) = lt_loop (pf_tasks r ! i)" "lt_begin (pf_tasks r' ! i) = lt_begin (pf_tasks r ! i)"
    "lt_end (pf_tasks r' ! i) = lt_end (pf_tasks r ! i)" "lt_tree (pf_tasks r' ! i) = lt_tree (pf_tasks r ! i)"
    "lt_deps (pf_tasks r' ! i) = lt_deps (pf_tasks r ! i)" by simp_all
  show "i < length (pf_tasks r')" using assms by (auto simp: extends_def)
qed

lemma extends_near: "extends r r' \<Longrightarrow> near (pf_store r) h \<Longrightarrow> near (pf_store r') h"
  by (auto simp: extends_def near_def)

lemma extends_own_tree: "extends r r' \<Longrightarrow> own_tree (pf_store r) h \<Longrightarrow> own_tree (pf_store r') h"
  unfolding own_tree_def extends_def using order_less_le_trans by blast

lemma own_tree_near: "own_tree s h \<Longrightarrow> near s h"
  by (auto simp: own_tree_def near_def local_treeture_def)

lemma extends_done: "extends r r' \<Longrightarrow> done_in (pf_store r) h \<Longrightarrow> done_in (pf_store r') h"
  by (auto simp: extends_def)

lemma extends_loop:
  assumes "extends r r'" and "k < length (pf_loops r)"
  shows "k < length (pf_loops r')" "pf_loops r' ! k = pf_loops r ! k"
  using assms by (auto simp: extends_def nth_append)

lemma extends_prev_tree:
  assumes "extends r r'" and "pfor_inv r" and "k \<le> length (pf_loops r)"
  shows "prev_tree r' k = prev_tree r k"
proof (cases k)
  case (Suc m)
  then have m: "m < length (pf_loops r)" using assms(3) by simp
  then have "pl_root (pf_loops r ! m) < length (pf_tasks r)" using pfor_invD(5) [OF assms(2) m] by (simp add: loop_ok_def)
  then show ?thesis using Suc extends_task(5) [OF assms(1)] extends_loop(2) [OF assms(1) m] by (simp add: prev_tree_def)
qed (simp add: prev_tree_def)

lemma extends_dep_near:
  assumes "extends r r'" and "pfor_inv r" and "k < length (pf_loops r)" and "dep_near r k h"
  shows "dep_near r' k h"
  using assms extends_prev_tree [OF assms(1,2), of k] by (auto simp: dep_near_def extends_near extends_done)

lemma extends_deps_ok:
  assumes "extends r r'" and "pfor_inv r" and "k < length (pf_loops r)" and "deps_ok r k ds"
  shows "deps_ok r' k ds"
  using assms(4) extends_dep_near [OF assms(1-3)] extends_prev_tree [OF assms(1,2), of k] extends_loop(2) [OF assms(1,3)] assms(3)
  by (auto simp: deps_ok_def split: if_splits)

lemma extends_covers: "extends r r' \<Longrightarrow> covers r k b e \<Longrightarrow> covers r' k b e"
  by (auto simp: extends_def covers_def)

lemma extends_half_ok: "extends r r' \<Longrightarrow> half_ok r i l k b e \<Longrightarrow> half_ok r' i l k b e"
  using extends_task [of r r' l] by (auto simp: half_ok_def)

lemma extends_phase_ok:
  assumes "extends r r'" and "pfor_inv r" and "lt_loop t < length (pf_loops r)" and "phase_ok r i t"
  shows "phase_ok r' i t"
proof -
  note e = extends_half_ok [OF assms(1)] extends_covers [OF assms(1)] extends_deps_ok [OF assms(1-3)] extends_done [OF assms(1)]
    extends_prev_tree [OF assms(1,2), of "lt_loop t"] extends_loop(2) [OF assms(1,3)]
  show ?thesis
  proof (cases "lt_phase t")
    case (Joining l u)
    then show ?thesis using assms(4) e(1) by (auto simp: phase_ok_def) blast
  qed (use assms(3,4) in \<open>auto simp: phase_ok_def e\<close>)
qed

text \<open>A task other than the one that changes its phase.\<close>

lemma task_ok_extends:
  assumes "extends r r'" and "pfor_inv r" and "i < length (pf_tasks r)" and "pf_tasks r' ! i = pf_tasks r ! i"
    and "done_in (pf_store r') (lt_tree (pf_tasks r ! i)) \<longrightarrow> done_in (pf_store r) (lt_tree (pf_tasks r ! i))"
  shows "task_ok r' i"
proof -
  have t: "task_ok r i" using pfor_invD(4) [OF assms(2,3)] .
  then have k: "lt_loop (pf_tasks r ! i) < length (pf_loops r)" by (simp add: task_ok_def Let_def)
  show ?thesis
    using t assms(4,5) extends_done [OF assms(1)] extends_deps_ok [OF assms(1,2) k] extends_phase_ok [OF assms(1,2) k] extends_loop(1) [OF assms(1) k] extends_own_tree [OF assms(1)]
    by (auto simp: task_ok_def Let_def)
qed

lemma loop_ok_extends:
  assumes "extends r r'" and "pfor_inv r" and "k < length (pf_loops r)"
  shows "loop_ok r' k" "loop_begin r' k = loop_begin r k" "loop_end r' k = loop_end r k"
proof -
  have k: "loop_ok r k" using pfor_invD(5) [OF assms(2,3)] .
  then have "pl_root (pf_loops r ! k) < length (pf_tasks r)" by (simp add: loop_ok_def)
  note t = extends_task [OF assms(1) this] and l = extends_loop [OF assms(1,3)]
  show "loop_ok r' k" "loop_begin r' k = loop_begin r k" "loop_end r' k = loop_end r k"
    using k t l by (simp_all add: loop_ok_def loop_begin_def loop_end_def)
qed

lemma barrier_at_extends:
  assumes "extends r r'" and "pfor_inv r" and "p < length (pf_log r)"
  shows "barrier_at r' p"
proof -
  have b: "barrier_at r p" using pfor_invD(7) [OF assms(2,3)] .
  then have k: "fst (pf_log r ! p) < length (pf_loops r)" by (simp add: barrier_at_def Let_def)
  obtain xs where xs: "pf_log r' = pf_log r @ xs" using assms(1) by (auto simp: extends_def)
  have e: "pf_log r' ! p = pf_log r ! p" "take p (pf_log r') = take p (pf_log r)" using xs assms(3) by (simp_all add: nth_append)
  have k': "fst (pf_log r ! p) - 1 < length (pf_loops r)" using k by simp
  show ?thesis
    using b loop_ok_extends(2,3) [OF assms(1,2) k'] extends_loop [OF assms(1) k] by (simp add: barrier_at_def Let_def e)
qed

lemma handle_extends:
  assumes "extends r r'" and "pfor_inv r" and "pf_loops r' = pf_loops r" and "pf_handle r' = pf_handle r"
  shows "pf_handle r' = prev_tree r' (length (pf_loops r'))"
  using assms(3,4) pfor_invD(6) [OF assms(2)] extends_prev_tree [OF assms(1,2), of "length (pf_loops r)"] by simp

section \<open>Steps\<close>

lemma done_in_new_state:
  "done_in s h \<Longrightarrow> done_in (fst (new_state v s)) h" "near s h \<Longrightarrow> done_in (fst (new_state v s)) h = done_in s h"
  using new_state_keeps [of _ s v] by (auto simp: done_in_def near_def new_state_simps)

lemma spawn_range_simps:
  "pf_tasks (spawn_range k b e ds r) = pf_tasks r @ [\<lparr>lt_loop = k, lt_begin = b, lt_end = e, lt_tree = local_treeture (length (ts_tasks (pf_store r))),
     lt_deps = ds, lt_phase = Spawned\<rparr>]"
  "pf_store (spawn_range k b e ds r) = fst (new_state None (pf_store r))" "pf_loops (spawn_range k b e ds r) = pf_loops r"
  "pf_handle (spawn_range k b e ds r) = pf_handle r" "pf_log (spawn_range k b e ds r) = pf_log r"
  by (simp_all add: spawn_range_def treeture_init_def new_state_def)

lemma nth_phase: "\<exists>p. t = t\<lparr>lt_phase := p\<rparr>"
  by (rule exI [of _ "lt_phase t"]) simp

lemma spawn_extends: "extends r (spawn_range k b e ds r)"
  using done_in_new_state(1) [of "pf_store r" _ None] nth_phase by (auto simp: extends_def spawn_range_simps nth_append new_state_simps)

lemma spawned_task_ok:
  assumes "pf_tasks r' ! i = \<lparr>lt_loop = k, lt_begin = b, lt_end = e, lt_tree = local_treeture a, lt_deps = ds, lt_phase = Spawned\<rparr>"
    and "k < length (pf_loops r')" and "a < length (ts_tasks (pf_store r'))" and "\<not> tr_is_ready a (pf_store r')" and "deps_ok r' k ds"
  shows "task_ok r' i"
  using assms by (auto simp: task_ok_def Let_def done_in_def own_tree_def local_treeture_def phase_ok_def)

lemma distinct_trees_new:
  assumes "pfor_inv r"
  shows "local_treeture (length (ts_tasks (pf_store r))) \<notin> set (map lt_tree (pf_tasks r))"
proof
  assume "local_treeture (length (ts_tasks (pf_store r))) \<in> set (map lt_tree (pf_tasks r))"
  then obtain i where i: "i < length (pf_tasks r)" "lt_tree (pf_tasks r ! i) = local_treeture (length (ts_tasks (pf_store r)))"
    by (auto simp: in_set_conv_nth)
  then show False using pfor_invD(4) [OF assms i(1)] by (auto simp: task_ok_def Let_def own_tree_def local_treeture_def)
qed

lemma task_near: "pfor_inv r \<Longrightarrow> i < length (pf_tasks r) \<Longrightarrow> near (pf_store r) (lt_tree (pf_tasks r ! i))"
  using pfor_invD(4) [of r i] own_tree_near by (auto simp: task_ok_def Let_def)

lemma spawn_inv:
  assumes "pfor_inv r" and "k < length (pf_loops r)" and "deps_ok r k ds"
  shows "pfor_inv (spawn_range k b e ds r)"
proof -
  let ?r = "spawn_range k b e ds r" and ?n = "length (pf_tasks r)"
  note ext = spawn_extends [of r k b e ds] and sp = spawn_range_simps [of k b e ds r]
  have "task_ok ?r i" if "i < length (pf_tasks ?r)" for i
  proof (cases "i < ?n")
    case True
    then show ?thesis using done_in_new_state(2) [OF task_near [OF assms(1) True]]
      by (intro task_ok_extends [OF ext assms(1)]) (simp_all add: sp nth_append)
  next
    case False
    then have "i = ?n" using that by (simp add: sp)
    then show ?thesis using extends_deps_ok [OF ext assms(1-3)] assms(2)
      by (intro spawned_task_ok [where k = k and b = b and e = e and ds = ds and a = "length (ts_tasks (pf_store r))"])
        (simp_all add: sp new_state_simps tr_is_ready_def new_task_def)
  qed
  moreover have "distinct (map lt_tree (pf_tasks ?r))" using pfor_invD(3) [OF assms(1)] distinct_trees_new [OF assms(1)] by (simp add: sp)
  moreover have "local_store (pf_store ?r)" using local_store_new pfor_invD(1) [OF assms(1)] by (simp add: sp)
  moreover have "pf_handle ?r = prev_tree ?r (length (pf_loops ?r))" by (rule handle_extends [OF ext assms(1)]) (simp_all add: sp)
  moreover have "\<forall>p < length (pf_log ?r). barrier_at ?r p" using barrier_at_extends [OF ext assms(1)] by (simp add: sp)
  moreover have "\<forall>k < length (pf_loops ?r). loop_ok ?r k" using loop_ok_extends(1) [OF ext assms(1)] by (simp add: sp)
  ultimately show ?thesis using extends_done [OF ext pfor_invD(2) [OF assms(1)]] by (simp add: pfor_inv_def)
qed

text \<open>A change of phase, with the iterations it adds to the log.\<close>

definition advance :: "nat \<Rightarrow> loop_phase \<Rightarrow> (nat \<times> int) list \<Rightarrow> pfor_state \<Rightarrow> pfor_state" where
  "advance i p xs r = set_loop_phase i p (r\<lparr>pf_log := pf_log r @ xs\<rparr>)"

lemma advance_simps [simp]:
  "pf_tasks (advance i p xs r) = (pf_tasks r)[i := (pf_tasks r ! i)\<lparr>lt_phase := p\<rparr>]" "pf_store (advance i p xs r) = pf_store r"
  "pf_loops (advance i p xs r) = pf_loops r" "pf_handle (advance i p xs r) = pf_handle r" "pf_log (advance i p xs r) = pf_log r @ xs"
  by (simp_all add: advance_def set_loop_phase_def)

lemma advance_extends: "extends r (advance i p xs r)"
  using nth_phase by (auto simp: extends_def nth_list_update')

lemma map_tree_phase: "map lt_tree (ts[i := (ts ! i)\<lparr>lt_phase := p\<rparr>]) = map lt_tree ts"
  by (rule nth_equalityI) (auto simp: nth_list_update')

lemma advance_inv:
  assumes "pfor_inv r" and "i < length (pf_tasks r)" and "lt_phase (pf_tasks r ! i) \<noteq> Finished" and "p \<noteq> Finished"
    and "phase_ok (advance i p xs r) i ((pf_tasks r ! i)\<lparr>lt_phase := p\<rparr>)"
    and "\<forall>q < length xs. barrier_at (advance i p xs r) (length (pf_log r) + q)"
  shows "pfor_inv (advance i p xs r)"
proof -
  let ?r = "advance i p xs r"
  note ext = advance_extends [of r i p xs]
  have "task_ok ?r j" if j: "j < length (pf_tasks r)" for j
  proof (cases "j = i")
    case True
    have t: "task_ok r i" using pfor_invD(4) [OF assms(1,2)] .
    then have "deps_ok ?r (lt_loop (pf_tasks r ! i)) (lt_deps (pf_tasks r ! i))"
      using extends_deps_ok [OF ext assms(1)] by (simp add: task_ok_def Let_def)
    then show ?thesis using t assms(2-5) True by (simp add: task_ok_def Let_def)
  next
    case False
    then show ?thesis using j by (intro task_ok_extends [OF ext assms(1)]) simp_all
  qed
  moreover have "barrier_at ?r q" if "q < length (pf_log r @ xs)" for q
  proof (cases "q < length (pf_log r)")
    case True
    then show ?thesis by (rule barrier_at_extends [OF ext assms(1)])
  next
    case False
    then show ?thesis using assms(6) [rule_format, of "q - length (pf_log r)"] that by simp
  qed
  moreover have "pf_handle ?r = prev_tree ?r (length (pf_loops ?r))" by (rule handle_extends [OF ext assms(1)]) simp_all
  moreover have "\<forall>k < length (pf_loops ?r). loop_ok ?r k" using loop_ok_extends(1) [OF ext assms(1)] by simp
  ultimately show ?thesis using pfor_invD(1-3) [OF assms(1)] by (simp add: pfor_inv_def map_tree_phase)
qed

text \<open>The end of a task.\<close>

lemma finish_simps:
  assumes "pfor_inv r" and "i < length (pf_tasks r)" and "lt_phase (pf_tasks r ! i) \<noteq> Finished"
  obtains a where "lt_tree (pf_tasks r ! i) = local_treeture a" and "a < length (ts_tasks (pf_store r))"
    and "finish_task i r = Some (set_loop_phase i Finished (r\<lparr>pf_store := set_state a Unused (pf_store r)\<rparr>))"
    and "local_store (set_state a Unused (pf_store r))"
    and "\<And>h. done_in (set_state a Unused (pf_store r)) h \<longleftrightarrow> done_in (pf_store r) h \<or> shared_state h = Some a"
proof -
  have t: "task_ok r i" using pfor_invD(4) [OF assms(1,2)] .
  then obtain a where a: "lt_tree (pf_tasks r ! i) = local_treeture a" "a < length (ts_tasks (pf_store r))"
    by (auto simp: task_ok_def Let_def own_tree_def)
  have u: "\<not> tr_is_ready a (pf_store r)" using t a assms(3) by (auto simp: task_ok_def Let_def done_in_def local_treeture_def)
  then have n: "tt_value (ts_tasks (pf_store r) ! a) = None" by (simp add: tr_is_ready_def)
  note l = pfor_invD(1) [OF assms(1)]
  have "done_in (set_state a Unused (pf_store r)) h \<longleftrightarrow> done_in (pf_store r) h \<or> shared_state h = Some a" for h
    unfolding set_state_local [OF l a(2) n] using a(2) by (auto simp: done_in_def tr_is_ready_def nth_list_update')
  moreover have "finish_task i r = Some (set_loop_phase i Finished (r\<lparr>pf_store := set_state a Unused (pf_store r)\<rparr>))"
    using a(1) by (simp add: finish_task_def tr_set_value_def)
  ultimately show thesis using that a local_store_set [OF l a(2) n] by blast
qed

lemma finish_inv:
  assumes "pfor_inv r" and "i < length (pf_tasks r)" and "lt_phase (pf_tasks r ! i) \<noteq> Finished"
    and "covers r (lt_loop (pf_tasks r ! i)) (lt_begin (pf_tasks r ! i)) (lt_end (pf_tasks r ! i))"
  obtains r' where "finish_task i r = Some r'" and "pfor_inv r'" and "extends r r'"
    and "pf_tasks r' = (pf_tasks r)[i := (pf_tasks r ! i)\<lparr>lt_phase := Finished\<rparr>]" and "pf_loops r' = pf_loops r" and "pf_log r' = pf_log r"
proof -
  obtain a where a: "lt_tree (pf_tasks r ! i) = local_treeture a" "a < length (ts_tasks (pf_store r))"
    and f: "finish_task i r = Some (set_loop_phase i Finished (r\<lparr>pf_store := set_state a Unused (pf_store r)\<rparr>))"
    and l: "local_store (set_state a Unused (pf_store r))"
    and d: "\<And>h. done_in (set_state a Unused (pf_store r)) h \<longleftrightarrow> done_in (pf_store r) h \<or> shared_state h = Some a"
    using finish_simps [OF assms(1-3)] by metis
  let ?r = "set_loop_phase i Finished (r\<lparr>pf_store := set_state a Unused (pf_store r)\<rparr>)"
  have s: "pf_tasks ?r = (pf_tasks r)[i := (pf_tasks r ! i)\<lparr>lt_phase := Finished\<rparr>]" "pf_store ?r = set_state a Unused (pf_store r)"
    "pf_loops ?r = pf_loops r" "pf_handle ?r = pf_handle r" "pf_log ?r = pf_log r" by (simp_all add: set_loop_phase_def)
  have ext: "extends r ?r" using d nth_phase by (auto simp: extends_def s nth_list_update')
  have "task_ok ?r j" if j: "j < length (pf_tasks r)" for j
  proof (cases "j = i")
    case True
    have t: "task_ok r i" using pfor_invD(4) [OF assms(1,2)] .
    then have "deps_ok ?r (lt_loop (pf_tasks r ! i)) (lt_deps (pf_tasks r ! i))"
      using extends_deps_ok [OF ext assms(1)] by (simp add: task_ok_def Let_def)
    moreover have "covers ?r (lt_loop (pf_tasks r ! i)) (lt_begin (pf_tasks r ! i)) (lt_end (pf_tasks r ! i))"
      using extends_covers [OF ext assms(4)] .
    moreover have "shared_state (lt_tree (pf_tasks r ! i)) = Some a" using a(1) by (simp add: local_treeture_def)
    ultimately show ?thesis using t assms(2) True extends_own_tree [OF ext] d by (simp add: task_ok_def Let_def s phase_ok_def)
  next
    case False
    have "lt_tree (pf_tasks r ! j) \<noteq> local_treeture a"
      using pfor_invD(3) [OF assms(1)] False j assms(2) a(1) by (simp add: distinct_conv_nth) metis
    moreover have "own_tree (pf_store r) (lt_tree (pf_tasks r ! j))" using pfor_invD(4) [OF assms(1) j] by (simp add: task_ok_def Let_def)
    ultimately have "shared_state (lt_tree (pf_tasks r ! j)) \<noteq> Some a" by (auto simp: own_tree_def local_treeture_def)
    then show ?thesis using j False d by (intro task_ok_extends [OF ext assms(1)]) (simp_all add: s)
  qed
  moreover have "\<forall>q < length (pf_log ?r). barrier_at ?r q" using barrier_at_extends [OF ext assms(1)] by (simp add: s)
  moreover have "pf_handle ?r = prev_tree ?r (length (pf_loops ?r))" by (rule handle_extends [OF ext assms(1)]) (simp_all add: s)
  moreover have "\<forall>k < length (pf_loops ?r). loop_ok ?r k" using loop_ok_extends(1) [OF ext assms(1)] by (simp add: s)
  moreover have "done_in (pf_store ?r) (local_treeture 0)" using extends_done [OF ext pfor_invD(2) [OF assms(1)]] .
  moreover have "distinct (map lt_tree (pf_tasks ?r))" using pfor_invD(3) [OF assms(1)] by (simp add: s map_tree_phase)
  ultimately have "pfor_inv ?r" using l unfolding pfor_inv_def s(2) by (simp add: s(1))
  then show thesis using that [OF f _ ext] s by simp
qed

text \<open>A new loop: first its entry, with a root that is still to be spawned.\<close>

lemma start_loop_simps:
  "pf_tasks (start_loop sync b e r) = pf_tasks r @ [\<lparr>lt_loop = length (pf_loops r), lt_begin = b, lt_end = e,
     lt_tree = local_treeture (length (ts_tasks (pf_store r)) + (if sync then 1 else 0)),
     lt_deps = (if sync then [local_treeture (length (ts_tasks (pf_store r))), pf_handle r, local_treeture (length (ts_tasks (pf_store r)))] else []),
     lt_phase = Spawned\<rparr>]"
  "pf_store (start_loop sync b e r) = fst (new_state None (if sync then fst (new_state (Some Unused) (pf_store r)) else pf_store r))"
  "pf_loops (start_loop sync b e r) = pf_loops r @ [\<lparr>pl_root = length (pf_tasks r), pl_sync = sync\<rparr>]"
  "pf_handle (start_loop sync b e r) = local_treeture (length (ts_tasks (pf_store r)) + (if sync then 1 else 0))"
  "pf_log (start_loop sync b e r) = pf_log r"
  by (simp_all add: start_loop_def make_ready_treeture_def new_state_def Let_def spawn_range_def treeture_init_def)

lemma start_loop_extends: "extends r (start_loop sync b e r)"
  using done_in_new_state(1) nth_phase by (auto simp: extends_def start_loop_simps nth_append new_state_simps)

lemma start_loop_inv:
  assumes "pfor_inv r"
  shows "pfor_inv (start_loop sync b e r)"
proof -
  let ?r = "start_loop sync b e r" and ?n = "length (pf_tasks r)" and ?k = "length (pf_loops r)"
  let ?a = "length (ts_tasks (pf_store r))"
  let ?s = "if sync then fst (new_state (Some Unused) (pf_store r)) else pf_store r"
  note ext = start_loop_extends [of r sync b e] and sp = start_loop_simps [of sync b e r]
  have nd: "done_in (pf_store ?r) h = done_in (pf_store r) h" if "near (pf_store r) h" for h
  proof -
    have "near ?s h" using that by (auto simp: near_def new_state_simps)
    then show ?thesis using that by (simp add: sp done_in_new_state(2))
  qed
  have rd: "done_in (pf_store ?r) (local_treeture ?a)" if sync
    using that done_in_new_state(1) [of "fst (new_state (Some Unused) (pf_store r))" "local_treeture ?a" None]
    by (simp add: start_loop_simps done_in_def local_treeture_def new_state_simps tr_is_ready_def new_task_def nth_append)
  have k: "?k < length (pf_loops ?r)" by (simp add: sp)
  have p: "prev_tree ?r ?k = pf_handle r" using extends_prev_tree [OF ext assms, of ?k] pfor_invD(6) [OF assms] by simp
  have "near (pf_store r) (pf_handle r)"
    using pfor_invD(2,6) [OF assms] done_in_near pfor_invD(5) [OF assms, of "?k - 1"] task_near [OF assms]
    by (cases ?k) (auto simp: prev_tree_def loop_ok_def)
  then have hn: "near (pf_store ?r) (pf_handle r)" using extends_near [OF ext] by blast
  have deps: "deps_ok ?r ?k (lt_deps (pf_tasks ?r ! ?n))"
  proof (cases sync)
    case True
    have "dep_near ?r ?k (local_treeture ?a)" using rd [OF True] done_in_near by (simp add: dep_near_def)
    moreover have "dep_near ?r ?k (pf_handle r)" using hn p by (simp add: dep_near_def)
    moreover have "lt_deps (pf_tasks ?r ! ?n) = [local_treeture ?a, pf_handle r, local_treeture ?a]" "pl_sync (pf_loops ?r ! ?k)"
      using True by (simp_all add: start_loop_simps nth_append)
    ultimately show ?thesis using p by (simp add: deps_ok_def)
  qed (simp add: deps_ok_def start_loop_simps nth_append)
  have "task_ok ?r i" if "i < length (pf_tasks ?r)" for i
  proof (cases "i < ?n")
    case True
    then show ?thesis using nd [OF task_near [OF assms True]] by (intro task_ok_extends [OF ext assms]) (simp_all add: sp nth_append)
  next
    case False
    then have i: "i = ?n" using that by (simp add: sp)
    show ?thesis
      by (rule spawned_task_ok [where k = ?k and b = b and e = e and ds = "lt_deps (pf_tasks ?r ! ?n)" and a = "?a + (if sync then 1 else 0)"])
        (use deps k in \<open>simp_all add: i sp(1-3) new_state_simps tr_is_ready_def new_task_def nth_append\<close>)
  qed
  moreover have "distinct (map lt_tree (pf_tasks ?r))"
  proof -
    have n: "lt_tree t \<noteq> local_treeture (?a + m)" if "t \<in> set (pf_tasks r)" for t m
    proof -
      obtain i where "i < ?n" "t = pf_tasks r ! i" using \<open>t \<in> set (pf_tasks r)\<close> by (auto simp: in_set_conv_nth)
      then show ?thesis using pfor_invD(4) [OF assms] by (force simp: task_ok_def Let_def own_tree_def local_treeture_def)
    qed
    show ?thesis using pfor_invD(3) [OF assms] n [of _ 0] n [of _ 1] by (auto simp: sp) metis+
  qed
  moreover have "local_store (pf_store ?r)" using pfor_invD(1) [OF assms] by (simp add: sp local_store_new)
  moreover have "pf_handle ?r = prev_tree ?r (length (pf_loops ?r))" by (simp add: sp prev_tree_def nth_append)
  moreover have "\<forall>p < length (pf_log ?r). barrier_at ?r p" using barrier_at_extends [OF ext assms] by (simp add: sp)
  moreover have "loop_ok ?r k" if "k < length (pf_loops ?r)" for k
  proof (cases "k < ?k")
    case False
    then have "k = ?k" using that by (simp add: sp)
    then show ?thesis by (simp add: loop_ok_def sp nth_append)
  qed (rule loop_ok_extends(1) [OF ext assms])
  ultimately show ?thesis using extends_done [OF ext pfor_invD(2) [OF assms]] by (simp add: pfor_inv_def)
qed

section \<open>Every choice keeps the invariant\<close>

lemma set_loop_phase_advance: "set_loop_phase i p r = advance i p [] r"
  by (simp add: advance_def)

lemma dep_whole: "dep_near r k h \<Longrightarrow> dep_near r k (whole h)"
  by (auto simp: dep_near_def near_def done_in_def)

lemma refine_ok:
  assumes "pfor_inv r" and "deps_ok r k ds"
  obtains ls rs where "refine_deps ds (pf_store r) = Some (pf_store r, ls, rs)" and "deps_ok r k ls" and "deps_ok r k rs"
proof (cases "pl_sync (pf_loops r ! k)")
  case True
  then obtain dl dc dr where d: "ds = [dl, dc, dr]" "dep_near r k dl" "dep_near r k dc" "dep_near r k dr"
    "shared_state dc = shared_state (prev_tree r k)" using assms(2) by (auto simp: deps_ok_def)
  have "refine_deps ds (pf_store r) = Some (pf_store r, [whole dl, whole dc, whole dc], [whole dc, whole dc, whole dr])"
    unfolding d(1) by (rule refine_near) (use d pfor_invD(1) [OF assms(1)] in \<open>simp_all add: dep_near_def\<close>)
  moreover have "deps_ok r k [whole dl, whole dc, whole dc]" "deps_ok r k [whole dc, whole dc, whole dr]"
    using True d dep_whole by (simp_all add: deps_ok_def)
  ultimately show thesis using that by blast
next
  case False
  then show thesis using that [of "[]" "[]"] assms(2) by (simp add: deps_ok_def)
qed

text \<open>A task after the spawning of one of its halves.\<close>

lemma spawn_advance_inv:
  assumes "pfor_inv r" and "i < length (pf_tasks r)" and "lt_phase (pf_tasks r ! i) \<noteq> Finished" and "p \<noteq> Finished"
    and "deps_ok r (lt_loop (pf_tasks r ! i)) ds"
    and "phase_ok (advance i p [] (spawn_range (lt_loop (pf_tasks r ! i)) b e ds r)) i ((pf_tasks r ! i)\<lparr>lt_phase := p\<rparr>)"
  shows "pfor_inv (advance i p [] (spawn_range (lt_loop (pf_tasks r ! i)) b e ds r))"
proof -
  let ?r = "spawn_range (lt_loop (pf_tasks r ! i)) b e ds r"
  have "lt_loop (pf_tasks r ! i) < length (pf_loops r)" using pfor_invD(4) [OF assms(1,2)] by (simp add: task_ok_def Let_def)
  then have "pfor_inv ?r" using spawn_inv [OF assms(1)] assms(5) by simp
  moreover have "pf_tasks ?r ! i = pf_tasks r ! i" "i < length (pf_tasks ?r)" using assms(2) by (simp_all add: spawn_range_simps nth_append)
  ultimately show ?thesis using assms(3,4,6) by (intro advance_inv) simp_all
qed

lemma task_parts:
  assumes "pfor_inv r" and "i < length (pf_tasks r)"
  shows "lt_loop (pf_tasks r ! i) < length (pf_loops r)" "deps_ok r (lt_loop (pf_tasks r ! i)) (lt_deps (pf_tasks r ! i))"
    "phase_ok r i (pf_tasks r ! i)" "done_in (pf_store r) (lt_tree (pf_tasks r ! i)) \<longleftrightarrow> lt_phase (pf_tasks r ! i) = Finished"
  using pfor_invD(4) [OF assms] by (simp_all add: task_ok_def Let_def)

lemma extends_trans:
  assumes "extends a b" and "extends b c"
  shows "extends a c"
proof -
  have "\<exists>p. pf_tasks c ! i = (pf_tasks a ! i)\<lparr>lt_phase := p\<rparr>" if j: "i < length (pf_tasks a)" for i
  proof -
    have "i < length (pf_tasks b)" using j assms(1) by (auto simp: extends_def)
    then obtain p where "pf_tasks c ! i = (pf_tasks b ! i)\<lparr>lt_phase := p\<rparr>" using assms(2) by (auto simp: extends_def)
    moreover obtain q where "pf_tasks b ! i = (pf_tasks a ! i)\<lparr>lt_phase := q\<rparr>" using j assms(1) unfolding extends_def by blast
    ultimately have "pf_tasks c ! i = (pf_tasks a ! i)\<lparr>lt_phase := p\<rparr>" by simp
    then show ?thesis by (rule exI)
  qed
  then show ?thesis using assms by (auto simp: extends_def)
qed

lemma mid_bounds: "b < e \<Longrightarrow> pfor_mid b e = Some m \<Longrightarrow> b \<le> m \<and> m < e"
  by (auto simp: pfor_mid_def split: if_splits)

lemma split_left_inv:
  assumes "pfor_inv r" and "split_left cs i r = Some r'"
  shows "pfor_inv r' \<and> extends r r'"
proof -
  let ?t = "pf_tasks r ! i"
  have i: "i < length (pf_tasks r)" and ph: "lt_phase ?t = Spawned" using assms(2) by (auto simp: split_left_def bind_eq_Some_conv split: if_splits)
  show ?thesis
  proof (cases "lt_begin ?t \<ge> lt_end ?t")
    case True
    then have "covers r (lt_loop ?t) (lt_begin ?t) (lt_end ?t)" by (simp add: covers_def)
    then show ?thesis using finish_inv [OF assms(1) i] ph assms(2) True i by (auto simp: split_left_def split: if_splits)
  next
    case False
    note tp = task_parts [OF assms(1) i]
    obtain ls rs where rf: "refine_deps (lt_deps ?t) (pf_store r) = Some (pf_store r, ls, rs)" "deps_ok r (lt_loop ?t) ls" "deps_ok r (lt_loop ?t) rs"
      using refine_ok [OF assms(1) tp(2)] by metis
    obtain mid where mid: "pfor_mid (lt_begin ?t) (lt_end ?t) = Some mid" using assms(2) False i by (auto simp: split_left_def bind_eq_Some_conv split: if_splits)
    let ?s = "spawn_range (lt_loop ?t) (lt_begin ?t) mid ls r" and ?p = "Left_spawned (length (pf_tasks r)) mid rs"
    have r': "r' = advance i ?p [] ?s"
      using assms(2) False i rf(1) mid by (auto simp: split_left_def set_loop_phase_advance Let_def split: if_splits)
    have ext: "extends r r'" unfolding r' using extends_trans [OF spawn_extends advance_extends] .
    have "phase_ok r' i (?t\<lparr>lt_phase := ?p\<rparr>)"
      using extends_deps_ok [OF ext assms(1) tp(1) rf(3)] mid_bounds [OF _ mid] False i
      by (simp add: phase_ok_def half_ok_def r' spawn_range_simps)
    then show ?thesis using spawn_advance_inv [OF assms(1) i _ _ rf(2)] ph ext by (simp add: r')
  qed
qed

lemma split_right_inv:
  assumes "pfor_inv r" and "split_right i r = Some r'"
  shows "pfor_inv r' \<and> extends r r'"
proof -
  let ?t = "pf_tasks r ! i"
  obtain l mid rs where i: "i < length (pf_tasks r)" and ph: "lt_phase ?t = Left_spawned l mid rs"
    and r': "r' = advance i (Joining l (length (pf_tasks r))) [] (spawn_range (lt_loop ?t) mid (lt_end ?t) rs r)"
    using assms(2) by (auto simp: split_right_def bind_eq_Some_conv set_loop_phase_advance split: loop_phase.splits)
  have ok: "half_ok r i l (lt_loop ?t) (lt_begin ?t) mid" "deps_ok r (lt_loop ?t) rs"
    using task_parts(3) [OF assms(1) i] ph by (simp_all add: phase_ok_def)
  have ext: "extends r r'" unfolding r' using extends_trans [OF spawn_extends advance_extends] .
  have "half_ok r' i (length (pf_tasks r)) (lt_loop ?t) mid (lt_end ?t)" using i by (simp add: half_ok_def r' spawn_range_simps)
  then have "phase_ok r' i (?t\<lparr>lt_phase := Joining l (length (pf_tasks r))\<rparr>)"
    using extends_half_ok [OF ext ok(1)] by (auto simp: phase_ok_def)
  then show ?thesis using spawn_advance_inv [OF assms(1) i _ _ ok(2)] ph ext by (simp add: r')
qed

lemma covers_join: "covers r k b m \<Longrightarrow> covers r k m e \<Longrightarrow> covers r k b e"
  unfolding covers_def by (meson not_le)

lemma finished_covers:
  assumes "pfor_inv r" and "half_ok r i l k b e" and "lt_phase (pf_tasks r ! l) = Finished"
  shows "covers r k b e"
proof -
  have "l < length (pf_tasks r)" using assms(2) by (simp add: half_ok_def)
  then show ?thesis using task_parts(3) [OF assms(1), of l] assms(2,3) by (auto simp: phase_ok_def half_ok_def)
qed

lemma done_task: "pfor_inv r \<Longrightarrow> i < length (pf_tasks r) \<Longrightarrow> is_done r (lt_tree (pf_tasks r ! i)) \<longleftrightarrow> lt_phase (pf_tasks r ! i) = Finished"
  using task_near is_done_near task_parts(4) by blast

lemma join_inv:
  assumes "pfor_inv r" and "join i r = Some r'"
  shows "pfor_inv r' \<and> extends r r'"
proof -
  let ?t = "pf_tasks r ! i"
  obtain l u where i: "i < length (pf_tasks r)" and ph: "lt_phase ?t = Joining l u"
    and d: "is_done r (lt_tree (pf_tasks r ! l))" "is_done r (lt_tree (pf_tasks r ! u))" and f: "finish_task i r = Some r'"
    using assms(2) by (auto simp: join_def bind_eq_Some_conv split: loop_phase.splits if_splits)
  obtain mid where h: "half_ok r i l (lt_loop ?t) (lt_begin ?t) mid" "half_ok r i u (lt_loop ?t) mid (lt_end ?t)"
    using task_parts(3) [OF assms(1) i] ph by (auto simp: phase_ok_def)
  have "covers r (lt_loop ?t) (lt_begin ?t) (lt_end ?t)"
    using finished_covers [OF assms(1) h(1)] finished_covers [OF assms(1) h(2)] d done_task [OF assms(1)] h covers_join by (auto simp: half_ok_def)
  then show ?thesis using finish_inv [OF assms(1) i] ph f by (metis loop_phase.distinct(13) option.inject loop_phase.simps)
qed

lemma process_inv:
  assumes "pfor_inv r" and "process_range i r = Some r'"
  shows "pfor_inv r' \<and> extends r r'"
proof -
  let ?t = "pf_tasks r ! i"
  have i: "i < length (pf_tasks r)" and ph: "lt_phase ?t = Spawned" and d: "list_all (is_done r) (lt_deps ?t)"
    and r': "r' = advance i (Running (lt_begin ?t)) [] r"
    using assms(2) by (auto simp: process_range_def bind_eq_Some_conv set_loop_phase_advance split: if_splits)
  note tp = task_parts [OF assms(1) i]
  have "done_in (pf_store r) (prev_tree r (lt_loop ?t))" if sy: "pl_sync (pf_loops r ! lt_loop ?t)"
  proof -
    obtain dl dc dr where deps: "lt_deps ?t = [dl, dc, dr]" "dep_near r (lt_loop ?t) dc" "shared_state dc = shared_state (prev_tree r (lt_loop ?t))"
      using tp(2) sy by (auto simp: deps_ok_def)
    then have "done_in (pf_store r) dc" using d is_done_near by (auto simp: dep_near_def)
    then show ?thesis using deps(3) by (simp add: done_in_def)
  qed
  moreover have "prev_tree r' k = prev_tree r k" if "k \<le> length (pf_loops r)" for k
    unfolding r' by (rule extends_prev_tree [OF advance_extends assms(1) that])
  ultimately have "phase_ok r' i (?t\<lparr>lt_phase := Running (lt_begin ?t)\<rparr>)" using tp(1) by (simp add: phase_ok_def covers_def r')
  then show ?thesis using advance_inv [OF assms(1) i] ph advance_extends by (simp add: r')
qed

text \<open>An iteration of a loop that waits: the loop before it has ended.\<close>

lemma prev_loop_covered:
  assumes "pfor_inv r" and "0 < k" and "k \<le> length (pf_loops r)" and "done_in (pf_store r) (prev_tree r k)"
  shows "covers r (k - 1) (loop_begin r (k - 1)) (loop_end r (k - 1))"
proof -
  have k: "k - 1 < length (pf_loops r)" using assms(2,3) by simp
  let ?i = "pl_root (pf_loops r ! (k - 1))"
  have i: "?i < length (pf_tasks r)" "lt_loop (pf_tasks r ! ?i) = k - 1" using pfor_invD(5) [OF assms(1) k] by (simp_all add: loop_ok_def)
  have "lt_phase (pf_tasks r ! ?i) = Finished" using task_parts(4) [OF assms(1) i(1)] assms(2,4) by (simp add: prev_tree_def)
  then show ?thesis using task_parts(3) [OF assms(1) i(1)] i(2) by (simp add: phase_ok_def loop_begin_def loop_end_def)
qed

lemma iterate_inv:
  assumes "pfor_inv r" and "iterate i r = Some r'"
  shows "pfor_inv r' \<and> extends r r'"
proof -
  let ?t = "pf_tasks r ! i"
  obtain c where i: "i < length (pf_tasks r)" and ph: "lt_phase ?t = Running c"
    using assms(2) by (auto simp: iterate_def bind_eq_Some_conv split: loop_phase.splits)
  note tp = task_parts [OF assms(1) i]
  have ok: "covers r (lt_loop ?t) (lt_begin ?t) c" "pl_sync (pf_loops r ! lt_loop ?t) \<longrightarrow> done_in (pf_store r) (prev_tree r (lt_loop ?t))"
    using tp(3) ph by (simp_all add: phase_ok_def)
  show ?thesis
  proof (cases "c < lt_end ?t")
    case True
    have r': "r' = advance i (Running (c + 1)) [(lt_loop ?t, c)] r" using assms(2) i ph True by (simp add: iterate_def advance_def)
    have ext: "extends r r'" unfolding r' by (rule advance_extends)
    have "covers r' (lt_loop ?t) (lt_begin ?t) (c + 1)" using ok(1) by (auto simp: covers_def r')
    moreover have "prev_tree r' (lt_loop ?t) = prev_tree r (lt_loop ?t)" by (rule extends_prev_tree [OF ext assms(1)]) (use tp(1) in simp)
    ultimately have "phase_ok r' i (?t\<lparr>lt_phase := Running (c + 1)\<rparr>)" using ok(2) by (simp add: phase_ok_def r')
    moreover have "barrier_at r' (length (pf_log r))"
    proof (cases "0 < lt_loop ?t \<and> pl_sync (pf_loops r ! lt_loop ?t)")
      case True
      have "covers r (lt_loop ?t - 1) (loop_begin r (lt_loop ?t - 1)) (loop_end r (lt_loop ?t - 1))"
        using prev_loop_covered [OF assms(1)] True tp(1) ok(2) by simp
      moreover have "lt_loop ?t - 1 < length (pf_loops r)" using tp(1) by simp
      ultimately show ?thesis using loop_ok_extends(2,3) [OF ext assms(1)] tp(1) by (simp add: barrier_at_def covers_def r' nth_append)
    next
      case False
      then show ?thesis using tp(1) by (auto simp: barrier_at_def r' nth_append Let_def)
    qed
    ultimately show ?thesis using advance_inv [OF assms(1) i, of "Running (c + 1)" "[(lt_loop ?t, c)]"] ph ext by (simp add: r')
  next
    case False
    have "covers r (lt_loop ?t) (lt_begin ?t) (lt_end ?t)" using ok(1) False by (auto simp: covers_def)
    moreover have "finish_task i r = Some r'" using assms(2) i ph False by (simp add: iterate_def)
    ultimately show ?thesis using finish_inv [OF assms(1) i] ph by auto
  qed
qed

lemma pfor_exec_inv:
  assumes "pfor_exec cs c r = Some r'" and "pfor_inv r"
  shows "pfor_inv r' \<and> extends r r'"
proof (cases c)
  case (Start_loop sync b e)
  then show ?thesis using assms start_loop_inv [OF assms(2), of sync b e] start_loop_extends [of r sync b e] by auto
qed (use assms split_left_inv [OF assms(2), of cs] split_right_inv [OF assms(2)] join_inv [OF assms(2)] process_inv [OF assms(2)]
  iterate_inv [OF assms(2)] in simp_all)

lemma extends_refl: "extends r r"
  using nth_phase by (auto simp: extends_def)

lemma pfor_run_inv: "pfor_run cs xs r = Some r' \<Longrightarrow> pfor_inv r \<Longrightarrow> pfor_inv r' \<and> extends r r'"
proof (induction xs arbitrary: r)
  case (Cons x xs)
  then obtain q where q: "pfor_exec cs x r = Some q" "pfor_run cs xs q = Some r'" by (auto simp: bind_eq_Some_conv)
  have "pfor_inv q \<and> extends r q" using pfor_exec_inv [OF q(1) Cons.prems(2)] .
  then show ?case using Cons.IH [OF q(2)] extends_trans [of r q r'] by simp
qed (simp add: extends_refl)

lemma no_loops_inv: "pfor_inv no_loops"
  by (simp add: pfor_inv_def no_loops_def make_ready_treeture_def new_state_def local_store_def store_ok_def new_task_def done_in_def
      local_treeture_def tr_is_ready_def prev_tree_def)

section \<open>Counting iterations\<close>

text \<open>Whether an iteration is still to be run by a task itself, and not by one that it spawned.\<close>

definition range_count :: "int \<Rightarrow> int \<Rightarrow> int \<Rightarrow> nat" where
  "range_count b e j = (if b \<le> j \<and> j < e then 1 else 0)"

definition own_count :: "nat \<Rightarrow> int \<Rightarrow> loop_task \<Rightarrow> nat" where
  "own_count k j t =
    (if lt_loop t \<noteq> k then 0
     else case lt_phase t of
         Spawned \<Rightarrow> range_count (lt_begin t) (lt_end t) j
       | Left_spawned l mid ds \<Rightarrow> range_count mid (lt_end t) j
       | Joining l u \<Rightarrow> 0
       | Running c \<Rightarrow> range_count c (lt_end t) j
       | Finished \<Rightarrow> 0)"

definition run_count :: "nat \<Rightarrow> int \<Rightarrow> pfor_state \<Rightarrow> nat" where
  "run_count k j r = count_list (pf_log r) (k, j) + sum_list (map (own_count k j) (pf_tasks r))"

lemma range_split: "b \<le> m \<Longrightarrow> m \<le> e \<Longrightarrow> range_count b e j = range_count b m j + range_count m e j"
  by (simp add: range_count_def)

lemma range_empty: "e \<le> b \<Longrightarrow> range_count b e j = 0"
  by (simp add: range_count_def)

lemma range_step: "c < e \<Longrightarrow> range_count c e j = (if c = j then 1 else 0) + range_count (c + 1) e j"
  by (auto simp: range_count_def)

lemma count_list_snoc: "count_list (xs @ [y]) x = count_list xs x + (if y = x then 1 else 0)"
  by (induction xs) simp_all

lemma sum_phase:
  assumes "i < length ts"
  shows "sum_list (map f (ts[i := t])) + f (ts ! i) = sum_list (map f ts) + (f t :: nat)"
  using sum_list_update_nat [of i "map f ts" "f t"] assms by (simp add: map_update)

lemma finish_tasks: "finish_task i r = Some r' \<Longrightarrow>
  pf_tasks r' = (pf_tasks r)[i := (pf_tasks r ! i)\<lparr>lt_phase := Finished\<rparr>] \<and> pf_log r' = pf_log r \<and> pf_loops r' = pf_loops r"
  by (auto simp: finish_task_def set_loop_phase_def bind_eq_Some_conv)

lemma finish_count:
  assumes "finish_task i r = Some r'" and "i < length (pf_tasks r)" and "own_count k j (pf_tasks r ! i) = 0"
  shows "run_count k j r' = run_count k j r"
proof -
  have "own_count k j ((pf_tasks r ! i)\<lparr>lt_phase := Finished\<rparr>) = 0" by (simp add: own_count_def)
  then show ?thesis
    using sum_phase [OF assms(2), of "own_count k j" "(pf_tasks r ! i)\<lparr>lt_phase := Finished\<rparr>"] finish_tasks [OF assms(1)] assms(3)
    by (simp add: run_count_def)
qed

lemma advance_count:
  assumes "i < length (pf_tasks r)"
  shows "run_count k j (advance i p xs r) + own_count k j (pf_tasks r ! i) =
    run_count k j r + own_count k j ((pf_tasks r ! i)\<lparr>lt_phase := p\<rparr>) + count_list xs (k, j)"
  using sum_phase [OF assms, of "own_count k j" "(pf_tasks r ! i)\<lparr>lt_phase := p\<rparr>"] by (simp add: run_count_def count_list_append)

lemma spawn_count:
  "run_count k j (spawn_range l b e ds r) = run_count k j r + (if l = k then range_count b e j else 0)"
  by (simp add: run_count_def spawn_range_simps own_count_def)

lemma start_count:
  "run_count k j (start_loop sync b e r) = run_count k j r + (if k = length (pf_loops r) then range_count b e j else 0)"
  by (simp add: run_count_def start_loop_simps own_count_def)

lemma split_left_count:
  assumes "split_left cs i r = Some r'"
  shows "run_count k j r' = run_count k j r"
proof -
  let ?t = "pf_tasks r ! i"
  have i: "i < length (pf_tasks r)" and ph: "lt_phase ?t = Spawned" using assms by (auto simp: split_left_def bind_eq_Some_conv split: if_splits)
  show ?thesis
  proof (cases "lt_begin ?t \<ge> lt_end ?t")
    case True
    then show ?thesis using finish_count [of i r r' k j] assms i ph by (auto simp: split_left_def own_count_def range_empty split: if_splits)
  next
    case False
    obtain s ls rs mid where mid: "pfor_mid (lt_begin ?t) (lt_end ?t) = Some mid"
      and r': "r' = advance i (Left_spawned (length (pf_tasks r)) mid rs) [] (spawn_range (lt_loop ?t) (lt_begin ?t) mid ls (r\<lparr>pf_store := s\<rparr>))"
      using assms False i by (auto simp: split_left_def bind_eq_Some_conv Let_def set_loop_phase_advance split: if_splits)
    let ?s = "spawn_range (lt_loop ?t) (lt_begin ?t) mid ls (r\<lparr>pf_store := s\<rparr>)"
    have t: "pf_tasks ?s ! i = ?t" "i < length (pf_tasks ?s)" using i by (simp_all add: spawn_range_simps nth_append)
    have "run_count k j (r\<lparr>pf_store := s\<rparr>) = run_count k j r" by (simp add: run_count_def)
    then show ?thesis
      using advance_count [OF t(2), of k j "Left_spawned (length (pf_tasks r)) mid rs" "[]"] spawn_count [of k j "lt_loop ?t" "lt_begin ?t" mid ls "r\<lparr>pf_store := s\<rparr>"]
        range_split [of "lt_begin ?t" mid "lt_end ?t" j] mid_bounds [OF _ mid] False ph by (simp add: r' t(1) own_count_def split: if_splits)
  qed
qed

lemma split_right_count:
  assumes "split_right i r = Some r'"
  shows "run_count k j r' = run_count k j r"
proof -
  let ?t = "pf_tasks r ! i"
  obtain l mid rs where i: "i < length (pf_tasks r)" and ph: "lt_phase ?t = Left_spawned l mid rs"
    and r': "r' = advance i (Joining l (length (pf_tasks r))) [] (spawn_range (lt_loop ?t) mid (lt_end ?t) rs r)"
    using assms by (auto simp: split_right_def bind_eq_Some_conv set_loop_phase_advance split: loop_phase.splits)
  let ?s = "spawn_range (lt_loop ?t) mid (lt_end ?t) rs r"
  have t: "pf_tasks ?s ! i = ?t" "i < length (pf_tasks ?s)" using i by (simp_all add: spawn_range_simps nth_append)
  show ?thesis using advance_count [OF t(2), of k j "Joining l (length (pf_tasks r))" "[]"] ph
    by (simp add: r' t(1) own_count_def spawn_count split: if_splits)
qed

lemma join_count: "join i r = Some r' \<Longrightarrow> run_count k j r' = run_count k j r"
  by (rule finish_count [of i]) (auto simp: join_def own_count_def bind_eq_Some_conv split: loop_phase.splits if_splits)

lemma process_count:
  assumes "process_range i r = Some r'"
  shows "run_count k j r' = run_count k j r"
proof -
  have i: "i < length (pf_tasks r)" and ph: "lt_phase (pf_tasks r ! i) = Spawned" and r': "r' = advance i (Running (lt_begin (pf_tasks r ! i))) [] r"
    using assms by (auto simp: process_range_def bind_eq_Some_conv set_loop_phase_advance split: if_splits)
  then show ?thesis using advance_count [OF i, of k j "Running (lt_begin (pf_tasks r ! i))" "[]"] by (simp add: own_count_def split: if_splits)
qed

lemma iterate_count:
  assumes "iterate i r = Some r'"
  shows "run_count k j r' = run_count k j r"
proof -
  let ?t = "pf_tasks r ! i"
  obtain c where i: "i < length (pf_tasks r)" and ph: "lt_phase ?t = Running c"
    using assms by (auto simp: iterate_def bind_eq_Some_conv split: loop_phase.splits)
  show ?thesis
  proof (cases "c < lt_end ?t")
    case True
    have r': "r' = advance i (Running (c + 1)) [(lt_loop ?t, c)] r" using assms i ph True by (simp add: iterate_def advance_def)
    show ?thesis using advance_count [OF i, of k j "Running (c + 1)" "[(lt_loop ?t, c)]"] range_step [OF True, of j] ph
      by (auto simp: r' own_count_def split: if_splits)
  next
    case False
    then show ?thesis using finish_count [of i r r' k j] assms i ph by (auto simp: iterate_def own_count_def range_empty)
  qed
qed

lemma pfor_exec_count:
  assumes "pfor_exec cs c r = Some r'" and "pfor_inv r" and "\<forall>k j. run_count k j r = (if k < length (pf_loops r) then range_count (loop_begin r k) (loop_end r k) j else 0)"
  shows "run_count k j r' = (if k < length (pf_loops r') then range_count (loop_begin r' k) (loop_end r' k) j else 0)"
proof -
  have ext: "extends r r'" using pfor_exec_inv [OF assms(1,2)] by simp
  have old: "loop_begin r' k = loop_begin r k" "loop_end r' k = loop_end r k" if "k < length (pf_loops r)"
    using loop_ok_extends(2,3) [OF ext assms(2) that] by simp_all
  have "(\<exists>sync b e. c = Start_loop sync b e) \<or> run_count k j r' = run_count k j r \<and> pf_loops r' = pf_loops r"
  proof (cases c)
    case (Split_left i)
    then have s: "split_left cs i r = Some r'" using assms(1) by simp
    then have "pf_loops r' = pf_loops r"
      using finish_tasks [of i r r'] by (auto simp: split_left_def bind_eq_Some_conv set_loop_phase_def spawn_range_def treeture_init_def new_state_def Let_def split: if_splits)
    then show ?thesis using split_left_count [OF s] by simp
  next
    case (Split_right i)
    then have s: "split_right i r = Some r'" using assms(1) by simp
    then have "pf_loops r' = pf_loops r" by (auto simp: split_right_def bind_eq_Some_conv set_loop_phase_def spawn_range_simps split: loop_phase.splits)
    then show ?thesis using split_right_count [OF s] by simp
  next
    case (Join i)
    then have s: "join i r = Some r'" using assms(1) by simp
    then have "pf_loops r' = pf_loops r" using finish_tasks [of i r r'] by (auto simp: join_def bind_eq_Some_conv split: loop_phase.splits if_splits)
    then show ?thesis using join_count [OF s] by simp
  next
    case (Process i)
    then have s: "process_range i r = Some r'" using assms(1) by simp
    then have "pf_loops r' = pf_loops r" by (auto simp: process_range_def bind_eq_Some_conv set_loop_phase_def split: if_splits)
    then show ?thesis using process_count [OF s] by simp
  next
    case (Iterate i)
    then have s: "iterate i r = Some r'" using assms(1) by simp
    then have "pf_loops r' = pf_loops r"
      using finish_tasks [of i r r'] by (auto simp: iterate_def bind_eq_Some_conv set_loop_phase_def split: loop_phase.splits if_splits)
    then show ?thesis using iterate_count [OF s] by simp
  qed simp
  then show ?thesis
  proof (elim disjE exE)
    fix sync b e
    assume "c = Start_loop sync b e"
    then have r': "r' = start_loop sync b e r" using assms(1) by simp
    have "loop_begin r' (length (pf_loops r)) = b" "loop_end r' (length (pf_loops r)) = e"
      by (simp_all add: r' loop_begin_def loop_end_def start_loop_simps nth_append)
    moreover have "length (pf_loops r') = Suc (length (pf_loops r))" by (simp add: r' start_loop_simps)
    ultimately show ?thesis using assms(3) old start_count [of k j sync b e r] unfolding r' [symmetric] by (auto simp: less_Suc_eq)
  next
    assume "run_count k j r' = run_count k j r \<and> pf_loops r' = pf_loops r"
    then show ?thesis using assms(3) old by simp
  qed
qed

lemma pfor_run_count:
  assumes "pfor_run cs xs r = Some r'" and "pfor_inv r"
    and "\<forall>k j. run_count k j r = (if k < length (pf_loops r) then range_count (loop_begin r k) (loop_end r k) j else 0)"
  shows "run_count k j r' = (if k < length (pf_loops r') then range_count (loop_begin r' k) (loop_end r' k) j else 0)"
  using assms
proof (induction xs arbitrary: r)
  case (Cons x xs)
  then obtain q where q: "pfor_exec cs x r = Some q" "pfor_run cs xs q = Some r'" by (auto simp: bind_eq_Some_conv)
  have "pfor_inv q" using pfor_exec_inv [OF q(1) Cons.prems(2)] by simp
  then show ?case using Cons.IH [OF q(2)] pfor_exec_count [OF q(1) Cons.prems(2,3)] by simp
qed simp

section \<open>Progress and termination\<close>

definition unfinished_task :: "pfor_state \<Rightarrow> nat \<Rightarrow> bool" where
  "unfinished_task r i \<longleftrightarrow> i < length (pf_tasks r) \<and> lt_phase (pf_tasks r ! i) \<noteq> Finished"

text \<open>The task to run next: the last one of the first loop that has not ended.\<close>

lemma next_task:
  assumes "unfinished_task r m"
  obtains i where "unfinished_task r i" and "\<And>j. unfinished_task r j \<Longrightarrow> lt_loop (pf_tasks r ! i) \<le> lt_loop (pf_tasks r ! j)"
    and "\<And>j. unfinished_task r j \<Longrightarrow> lt_loop (pf_tasks r ! j) = lt_loop (pf_tasks r ! i) \<Longrightarrow> j \<le> i"
proof -
  obtain a where a: "unfinished_task r a" "\<And>j. unfinished_task r j \<Longrightarrow> lt_loop (pf_tasks r ! a) \<le> lt_loop (pf_tasks r ! j)"
    using ex_has_least_nat [of "unfinished_task r" m "\<lambda>i. lt_loop (pf_tasks r ! i)"] assms by blast
  let ?S = "{i. unfinished_task r i \<and> lt_loop (pf_tasks r ! i) = lt_loop (pf_tasks r ! a)}"
  have "finite ?S" by (rule finite_subset [of _ "{..<length (pf_tasks r)}"]) (auto simp: unfinished_task_def)
  moreover have "?S \<noteq> {}" using a(1) by blast
  ultimately have "Max ?S \<in> ?S" "\<And>j. j \<in> ?S \<Longrightarrow> j \<le> Max ?S" using Max_in [of ?S] Max_ge [of ?S] by blast+
  then show thesis using that [of "Max ?S"] a(2) by simp
qed

definition loops_stuck :: "pfor_state \<Rightarrow> bool" where
  "loops_stuck r \<longleftrightarrow> (\<forall>i < length (pf_tasks r). split_right i r = None \<and> join i r = None \<and> process_range i r = None \<and> iterate i r = None)"

lemma stuck_finished:
  assumes "pfor_inv r" and "loops_stuck r"
  shows "\<not> unfinished_task r m"
proof
  assume "unfinished_task r m"
  then obtain i where i: "unfinished_task r i" and least: "\<And>j. unfinished_task r j \<Longrightarrow> lt_loop (pf_tasks r ! i) \<le> lt_loop (pf_tasks r ! j)"
    and last: "\<And>j. unfinished_task r j \<Longrightarrow> lt_loop (pf_tasks r ! j) = lt_loop (pf_tasks r ! i) \<Longrightarrow> j \<le> i"
    by (rule next_task) blast
  let ?t = "pf_tasks r ! i"
  have n: "i < length (pf_tasks r)" "lt_phase ?t \<noteq> Finished" using i by (simp_all add: unfinished_task_def)
  note tp = task_parts [OF assms(1) n(1)]
  have none: "split_right i r = None" "join i r = None" "process_range i r = None" "iterate i r = None" using assms(2) n(1) by (simp_all add: loops_stuck_def)
  have fin: "finish_task i r \<noteq> None" using finish_simps [OF assms(1) n] by (metis option.distinct(1))
  show False
  proof (cases "lt_phase ?t")
    case Spawned
    have "is_done r h" if h: "h \<in> set (lt_deps ?t)" for h
    proof -
      have d: "dep_near r (lt_loop ?t) h" using tp(2) h by (auto simp: deps_ok_def split: if_splits)
      have "done_in (pf_store r) (prev_tree r (lt_loop ?t))"
      proof (cases "lt_loop ?t = 0")
        case False
        let ?p = "pl_root (pf_loops r ! (lt_loop ?t - 1))"
        have p: "?p < length (pf_tasks r)" "lt_loop (pf_tasks r ! ?p) = lt_loop ?t - 1"
          using pfor_invD(5) [OF assms(1), of "lt_loop ?t - 1"] tp(1) by (simp_all add: loop_ok_def)
        have "lt_phase (pf_tasks r ! ?p) = Finished"
        proof (rule ccontr)
          assume "lt_phase (pf_tasks r ! ?p) \<noteq> Finished"
          then have "lt_loop ?t \<le> lt_loop ?t - 1" using least [of ?p] p by (simp add: unfinished_task_def)
          then show False using False by simp
        qed
        then show ?thesis using task_parts(4) [OF assms(1) p(1)] False by (simp add: prev_tree_def)
      qed (use pfor_invD(2) [OF assms(1)] in \<open>simp add: prev_tree_def\<close>)
      then show ?thesis using d is_done_near [of r h] by (auto simp: dep_near_def done_in_def)
    qed
    then show False using none(3) n(1) Spawned by (simp add: process_range_def list_all_iff)
  next
    case (Left_spawned l mid rs)
    then show False using none(1) n(1) by (simp add: split_right_def)
  next
    case (Joining l u)
    then obtain mid where h: "half_ok r i l (lt_loop ?t) (lt_begin ?t) mid" "half_ok r i u (lt_loop ?t) mid (lt_end ?t)"
      using tp(3) by (auto simp: phase_ok_def)
    have "lt_phase (pf_tasks r ! x) = Finished" if "x = l \<or> x = u" for x
    proof (rule ccontr)
      assume "lt_phase (pf_tasks r ! x) \<noteq> Finished"
      then show False using last [of x] h that by (auto simp: unfinished_task_def half_ok_def)
    qed
    then have "is_done r (lt_tree (pf_tasks r ! l))" "is_done r (lt_tree (pf_tasks r ! u))"
      using done_task [OF assms(1)] h by (simp_all add: half_ok_def)
    then show False using none(2) n(1) Joining fin by (simp add: join_def)
  next
    case (Running c)
    then show False using none(4) n(1) fin by (auto simp: iterate_def split: if_splits)
  next
    case Finished
    then show False using n(2) by simp
  qed
qed

definition range_weight :: "int \<Rightarrow> int \<Rightarrow> nat" where
  "range_weight b e = (if e \<le> b then 2 else 6 * nat (e - b) - 3)"

definition task_weight :: "loop_task \<Rightarrow> nat" where
  "task_weight t =
    (case lt_phase t of
       Spawned \<Rightarrow> range_weight (lt_begin t) (lt_end t)
     | Left_spawned l mid ds \<Rightarrow> range_weight mid (lt_end t) + 2
     | Joining l u \<Rightarrow> 1
     | Running c \<Rightarrow> nat (lt_end t - c) + 1
     | Finished \<Rightarrow> 0)"

text \<open>A bound of the steps that the loops started so far can still take.\<close>

definition pfor_weight :: "pfor_state \<Rightarrow> nat" where
  "pfor_weight r = sum_list (map task_weight (pf_tasks r))"

lemma weight_halves:
  assumes "b + 2 \<le> e" and "pfor_mid b e = Some m"
  shows "range_weight b m + range_weight m e + 2 < range_weight b e"
proof -
  have m: "m = b + (e - b) div 2" using assms(2) by (simp add: pfor_mid_def split: if_splits)
  then have "b < m" "m < e" using assms(1) by auto
  then show ?thesis by (simp add: range_weight_def)
qed

lemma finish_weight:
  assumes "finish_task i r = Some r'" and "i < length (pf_tasks r)"
  shows "pfor_weight r' + task_weight (pf_tasks r ! i) = pfor_weight r"
proof -
  have "task_weight ((pf_tasks r ! i)\<lparr>lt_phase := Finished\<rparr>) = 0" by (simp add: task_weight_def)
  then show ?thesis
    using sum_phase [OF assms(2), of task_weight "(pf_tasks r ! i)\<lparr>lt_phase := Finished\<rparr>"] finish_tasks [OF assms(1)] by (simp add: pfor_weight_def)
qed

lemma advance_weight:
  assumes "i < length (pf_tasks r)"
  shows "pfor_weight (advance i p xs r) + task_weight (pf_tasks r ! i) = pfor_weight r + task_weight ((pf_tasks r ! i)\<lparr>lt_phase := p\<rparr>)"
  using sum_phase [OF assms, of task_weight "(pf_tasks r ! i)\<lparr>lt_phase := p\<rparr>"] by (simp add: pfor_weight_def)

lemma spawn_weight: "pfor_weight (spawn_range l b e ds r) = pfor_weight r + range_weight b e"
  by (simp add: pfor_weight_def spawn_range_simps task_weight_def)

lemma spawn_advance_weight:
  assumes "i < length (pf_tasks r)"
  shows "pfor_weight (advance i p [] (spawn_range l b e ds r)) + task_weight (pf_tasks r ! i) =
    pfor_weight r + range_weight b e + task_weight ((pf_tasks r ! i)\<lparr>lt_phase := p\<rparr>)"
proof -
  have "i < length (pf_tasks (spawn_range l b e ds r))" "pf_tasks (spawn_range l b e ds r) ! i = pf_tasks r ! i"
    using assms by (simp_all add: spawn_range_simps nth_append)
  then show ?thesis using advance_weight [of i "spawn_range l b e ds r" p "[]"] by (simp add: spawn_weight)
qed

lemma split_left_weight:
  assumes "split_left cs i r = Some r'" and "\<forall>b e. cs b e \<longrightarrow> b + 2 \<le> e"
  shows "pfor_weight r' < pfor_weight r"
proof -
  let ?t = "pf_tasks r ! i"
  have i: "i < length (pf_tasks r)" and ph: "lt_phase ?t = Spawned" and cs: "lt_begin ?t + 2 \<le> lt_end ?t"
    using assms by (auto simp: split_left_def bind_eq_Some_conv split: if_splits)
  then obtain s ls rs mid where mid: "pfor_mid (lt_begin ?t) (lt_end ?t) = Some mid"
    and r': "r' = advance i (Left_spawned (length (pf_tasks r)) mid rs) [] (spawn_range (lt_loop ?t) (lt_begin ?t) mid ls (r\<lparr>pf_store := s\<rparr>))"
    using assms(1) by (auto simp: split_left_def bind_eq_Some_conv Let_def set_loop_phase_advance split: if_splits)
  have "pfor_weight (r\<lparr>pf_store := s\<rparr>) = pfor_weight r" by (simp add: pfor_weight_def)
  then show ?thesis
    using spawn_advance_weight [of i "r\<lparr>pf_store := s\<rparr>" "Left_spawned (length (pf_tasks r)) mid rs" "lt_loop ?t" "lt_begin ?t" mid ls] i ph
      weight_halves [OF cs mid] by (simp add: r' task_weight_def)
qed

lemma split_right_weight:
  assumes "split_right i r = Some r'"
  shows "pfor_weight r' < pfor_weight r"
proof -
  let ?t = "pf_tasks r ! i"
  obtain l mid rs where i: "i < length (pf_tasks r)" and ph: "lt_phase ?t = Left_spawned l mid rs"
    and r': "r' = advance i (Joining l (length (pf_tasks r))) [] (spawn_range (lt_loop ?t) mid (lt_end ?t) rs r)"
    using assms by (auto simp: split_right_def bind_eq_Some_conv set_loop_phase_advance split: loop_phase.splits)
  show ?thesis using spawn_advance_weight [OF i, of "Joining l (length (pf_tasks r))" "lt_loop ?t" mid "lt_end ?t" rs] ph by (simp add: r' task_weight_def)
qed

lemma join_weight:
  assumes "join i r = Some r'"
  shows "pfor_weight r' < pfor_weight r"
proof -
  have "i < length (pf_tasks r)" "finish_task i r = Some r'" "task_weight (pf_tasks r ! i) = 1"
    using assms by (auto simp: join_def bind_eq_Some_conv task_weight_def split: loop_phase.splits if_splits)
  then show ?thesis using finish_weight [of i r r'] by simp
qed

lemma process_weight:
  assumes "process_range i r = Some r'"
  shows "pfor_weight r' < pfor_weight r"
proof -
  have i: "i < length (pf_tasks r)" and ph: "lt_phase (pf_tasks r ! i) = Spawned" and r': "r' = advance i (Running (lt_begin (pf_tasks r ! i))) [] r"
    using assms by (auto simp: process_range_def bind_eq_Some_conv set_loop_phase_advance split: if_splits)
  then show ?thesis using advance_weight [OF i, of "Running (lt_begin (pf_tasks r ! i))" "[]"] by (simp add: task_weight_def range_weight_def split: if_splits)
qed

lemma iterate_weight:
  assumes "iterate i r = Some r'"
  shows "pfor_weight r' < pfor_weight r"
proof -
  let ?t = "pf_tasks r ! i"
  obtain c where i: "i < length (pf_tasks r)" and ph: "lt_phase ?t = Running c"
    using assms by (auto simp: iterate_def bind_eq_Some_conv split: loop_phase.splits)
  show ?thesis
  proof (cases "c < lt_end ?t")
    case True
    have r': "r' = advance i (Running (c + 1)) [(lt_loop ?t, c)] r" using assms i ph True by (simp add: iterate_def advance_def)
    show ?thesis using advance_weight [OF i, of "Running (c + 1)" "[(lt_loop ?t, c)]"] ph True by (simp add: r' task_weight_def)
  next
    case False
    then show ?thesis using finish_weight [of i r r'] assms i ph by (simp add: iterate_def task_weight_def)
  qed
qed

fun starts_loop :: "pfor_choice \<Rightarrow> bool" where
  "starts_loop (Start_loop sync b e) = True"
| "starts_loop _ = False"

lemma pfor_run_weight:
  assumes "pfor_run cs xs r = Some r'" and "\<forall>b e. cs b e \<longrightarrow> b + 2 \<le> e" and "list_all (\<lambda>x. \<not> starts_loop x) xs"
  shows "length xs + pfor_weight r' \<le> pfor_weight r"
  using assms(1,3)
proof (induction xs arbitrary: r)
  case (Cons x xs)
  then obtain q where q: "pfor_exec cs x r = Some q" "pfor_run cs xs q = Some r'" by (auto simp: bind_eq_Some_conv)
  have "pfor_weight q < pfor_weight r"
    using q(1) Cons.prems(2) split_left_weight [OF _ assms(2)] split_right_weight join_weight process_weight iterate_weight by (cases x) simp_all
  then show ?case using Cons.IH [OF q(2)] Cons.prems(2) by simp
qed simp

text \<open>So there is no infinite run, and every state comes to an end, if no further loop is started.\<close>

interpretation loop_runs: ending_steps "\<lambda>r r'. (\<forall>b e. cs b e \<longrightarrow> b + 2 \<le> e) \<and> (\<exists>x. \<not> starts_loop x \<and> pfor_exec cs x r = Some r')"
    "\<lambda>r. True" "\<lambda>r. True" pfor_weight less_than
proof
  show "(pfor_weight r', pfor_weight r) \<in> less_than"
    if st: "(\<forall>b e. cs b e \<longrightarrow> b + 2 \<le> e) \<and> (\<exists>x. \<not> starts_loop x \<and> pfor_exec cs x r = Some r')" for r r'
  proof -
    obtain x where "\<not> starts_loop x" "pfor_exec cs x r = Some r'" using st by blast
    then show ?thesis using st pfor_run_weight [of cs "[x]" r r'] by simp
  qed
qed simp_all

lemma loops_end:
  assumes "\<forall>b e. cs b e \<longrightarrow> b + 2 \<le> e"
  shows "\<exists>r'. (\<lambda>r r'. \<exists>x. \<not> starts_loop x \<and> pfor_exec cs x r = Some r')\<^sup>*\<^sup>* r r' \<and>
    (\<forall>x. \<not> starts_loop x \<longrightarrow> pfor_exec cs x r' = None)"
proof -
  obtain r' where "(\<lambda>r r'. \<exists>x. \<not> starts_loop x \<and> pfor_exec cs x r = Some r')\<^sup>*\<^sup>* r r'"
    and r': "\<forall>s x. starts_loop x \<or> pfor_exec cs x r' \<noteq> Some s" using loop_runs.run_ends [where cs = cs and s = r] assms by auto
  moreover have "pfor_exec cs x r' = None" if "\<not> starts_loop x" for x using r' that by (cases "pfor_exec cs x r'") blast+
  ultimately show ?thesis by blast
qed

section \<open>Properties\<close>


definition demo_split :: "int \<Rightarrow> int \<Rightarrow> bool" where
  "demo_split b e \<longleftrightarrow> b + 2 \<le> e"

text \<open>Two loops over two iterations; the second one is split before the first one has run.\<close>

definition demo_choices :: "pfor_choice list" where
  "demo_choices = [Start_loop True 0 2, Start_loop True 0 2, Split_left 1, Split_right 1, Process 0, Iterate 0, Iterate 0, Iterate 0,
     Process 3, Iterate 3, Process 2, Iterate 2, Iterate 2, Iterate 3, Join 1]"

definition demo_loops :: pfor_state where
  "demo_loops = the (pfor_run demo_split demo_choices no_loops)"

lemma demo_loops_run: "pfor_run demo_split demo_choices no_loops = Some demo_loops"
proof -
  have "pfor_run demo_split demo_choices no_loops \<noteq> None" by code_simp
  then show ?thesis by (auto simp: demo_loops_def)
qed

lemma demo_loops_facts:
  "pf_log demo_loops = [(0, 0), (0, 1), (1, 1), (1, 0)]" "map pl_sync (pf_loops demo_loops) = [True, True]"
  "loop_begin demo_loops 0 = 0" "loop_end demo_loops 0 = 2"
  by code_simp+

lemma demo_loops_stuck: "list_all (\<lambda>i. split_right i demo_loops = None \<and> join i demo_loops = None \<and> process_range i demo_loops = None \<and>
    iterate i demo_loops = None) [0, 1, 2, 3] \<and> length (pf_tasks demo_loops) = 4"
  by code_simp

text \<open>C17: On one locality, in a loop that waits for the one before it, an iteration runs only after all iterations of that
  loop, in particular after the two neighbours, whatever the order in which work items are split, processed and
  joined.  All work items are split and processed on the locality that started the loops: when one is split on
  another locality, its halves do not wait at all (split\_elsewhere\_waits\_for\_nothing below), and the property does
  not hold.\<close>

theorem pfor_waits_for_neighbours:
  assumes "pfor_run can_split xs no_loops = Some r" and "p < length (pf_log r)" and "pf_log r ! p = (Suc k, j)"
    and "pl_sync (pf_loops r ! Suc k)" and "loop_begin r k \<le> i" and "i < loop_end r k"
  shows "\<exists>q < p. pf_log r ! q = (k, i)"
proof -
  have "pfor_inv r" using pfor_run_inv [OF assms(1) no_loops_inv] by simp
  then have "barrier_at r p" using pfor_invD(7) assms(2) by blast
  then have "(k, i) \<in> set (take p (pf_log r))" using assms(3-6) by (simp add: barrier_at_def)
  then show ?thesis using assms(2) by (auto simp: in_set_conv_nth)
qed

theorem pfor_waits_for_neighbours_witness:
  "\<exists>q < 2. pf_log demo_loops ! q = (0, 1)"
proof (rule pfor_waits_for_neighbours [OF demo_loops_run])
  have "length (pf_loops demo_loops) = 2" using arg_cong [OF demo_loops_facts(2), of length] by simp
  then show "pl_sync (pf_loops demo_loops ! Suc 0)" using arg_cong [OF demo_loops_facts(2), of "\<lambda>xs. xs ! 1"] by simp
qed (simp_all add: demo_loops_facts)

text \<open>C18: If only ranges of two iterations or more are split, the loops started so far end after a bounded number of steps in whatever order
  their work items are split, processed and joined; no work item waits for ever, and when no step is possible each
  iteration of each loop has run exactly once.\<close>

theorem pfor_runs_once:
  assumes "\<forall>b e. can_split b e \<longrightarrow> b + 2 \<le> e" and "pfor_run can_split xs no_loops = Some r"
  shows "(\<forall>ys r'. list_all (\<lambda>y. \<not> starts_loop y) ys \<longrightarrow> pfor_run can_split ys r = Some r' \<longrightarrow> length ys \<le> pfor_weight r) \<and>
    (loops_stuck r \<longrightarrow> (\<forall>k < length (pf_loops r). \<forall>j.
       count_list (pf_log r) (k, j) = (if loop_begin r k \<le> j \<and> j < loop_end r k then 1 else 0)))"
proof (intro conjI allI impI)
  fix ys r'
  assume "list_all (\<lambda>y. \<not> starts_loop y) ys" and "pfor_run can_split ys r = Some r'"
  then show "length ys \<le> pfor_weight r" using pfor_run_weight [OF _ assms(1)] by fastforce
next
  fix k j
  assume st: "loops_stuck r" and k: "k < length (pf_loops r)"
  have inv: "pfor_inv r" using pfor_run_inv [OF assms(2) no_loops_inv] by simp
  have "\<forall>k j. run_count k j no_loops = (if k < length (pf_loops no_loops) then range_count (loop_begin no_loops k) (loop_end no_loops k) j else 0)"
    by (simp add: run_count_def no_loops_def make_ready_treeture_def new_state_def)
  then have "run_count k j r = range_count (loop_begin r k) (loop_end r k) j" using pfor_run_count [OF assms(2) no_loops_inv] k by simp
  moreover have "own_count k j t = 0" if "t \<in> set (pf_tasks r)" for t
    using that stuck_finished [OF inv st] by (auto simp: own_count_def unfinished_task_def in_set_conv_nth)
  then have "map (own_count k j) (pf_tasks r) = map (\<lambda>_. 0) (pf_tasks r)" by simp
  then have "sum_list (map (own_count k j) (pf_tasks r)) = 0" by (simp only: map_replicate_const sum_list_replicate mult_0_right)
  ultimately show "count_list (pf_log r) (k, j) = (if loop_begin r k \<le> j \<and> j < loop_end r k then 1 else 0)" by (simp add: run_count_def range_count_def)
qed

theorem pfor_runs_once_witness:
  "count_list (pf_log demo_loops) (1, 1) = 1 \<and> count_list (pf_log demo_loops) (1, 2) = 0"
proof -
  have split: "\<forall>b e. demo_split b e \<longrightarrow> b + 2 \<le> e" by (simp add: demo_split_def)
  have "loops_stuck demo_loops"
    unfolding loops_stuck_def
  proof (intro allI impI)
    fix i
    assume "i < length (pf_tasks demo_loops)"
    then have "i \<in> set [0, 1, 2, 3]" using demo_loops_stuck by auto
    then show "split_right i demo_loops = None \<and> join i demo_loops = None \<and> process_range i demo_loops = None \<and> iterate i demo_loops = None"
      using demo_loops_stuck unfolding list_all_iff by blast
  qed
  moreover have "1 < length (pf_loops demo_loops)" "loop_begin demo_loops 1 = 0" "loop_end demo_loops 1 = 2" by code_simp+
  ultimately show ?thesis using pfor_runs_once [OF split demo_loops_run] by simp
qed

section \<open>Work items on another locality\<close>

text \<open>A work item that is split on another locality than the loop before it gets dependencies that are ready at once: its halves do
  not wait at all.\<close>

lemma split_elsewhere_waits_for_nothing:
  assumes "\<forall>h \<in> {dl, dc, dr}. shared_state h = None \<and> \<not> fixed_children h \<and> (\<exists>g. tr_id h = Some g \<and> g < length (ts_lcos s))"
  shows "\<exists>s' a b c d. refine_deps [dl, dc, dr] s = Some (s', [local_treeture a, local_treeture b, local_treeture c], [local_treeture b, local_treeture c, local_treeture d]) \<and>
    (\<forall>x \<in> {a, b, c, d}. tr_is_ready x s')"
proof -
  have lco: "\<exists>a. lco_state h t = Some a" if "h \<in> {dl, dc, dr}" "store_grows s t" for h t
    using assms that by (auto simp: lco_state_def store_grows_def)
  have step: "\<exists>t' c. get_child True right h t = Some (t', local_treeture c) \<and> tr_is_ready c t' \<and> store_grows t t' \<and> c < length (ts_tasks t')"
    if "h \<in> {dl, dc, dr}" "store_grows s t" for h t right
    using get_child_remote [of h t _ True right] assms that lco [OF that] by metis
  obtain s1 a where 1: "get_child True True dl s = Some (s1, local_treeture a)" "tr_is_ready a s1" "store_grows s s1" "a < length (ts_tasks s1)"
    using step [of dl s True] by auto
  obtain s2 b where 2: "get_child True False dc s1 = Some (s2, local_treeture b)" "tr_is_ready b s2" "store_grows s1 s2" "b < length (ts_tasks s2)"
    using step [of dc s1 False] 1(3) by auto
  have g2: "store_grows s s2" using store_grows_trans [OF 1(3) 2(3)] .
  obtain s3 c where 3: "get_child True True dc s2 = Some (s3, local_treeture c)" "tr_is_ready c s3" "store_grows s2 s3" "c < length (ts_tasks s3)"
    using step [of dc s2 True] g2 by auto
  have g3: "store_grows s s3" using store_grows_trans [OF g2 3(3)] .
  obtain s4 d where 4: "get_child True False dr s3 = Some (s4, local_treeture d)" "tr_is_ready d s4" "store_grows s3 s4"
    using step [of dr s3 False] g3 by auto
  have keep: "tr_is_ready x t'" if "tr_is_ready x t" "x < length (ts_tasks t)" "store_grows t t'" for x t t'
    using that by (auto simp: store_grows_def)
  have "tr_is_ready a s4" "tr_is_ready b s4" "tr_is_ready c s4"
    using keep [OF 1(2,4) store_grows_trans [OF 2(3) store_grows_trans [OF 3(3) 4(3)]]] keep [OF 2(2,4) store_grows_trans [OF 3(3) 4(3)]]
      keep [OF 3(2,4) 4(3)] by blast+
  then show ?thesis using 1(1) 2(1) 3(1) 4(1,2) by (simp only: refine_deps.simps) auto
qed
end
