(* ===== verification/Transfer_Plan.thy ===== *)
theory Transfer_Plan
  imports Data_Items
begin

text \<open>
  The plans of transfers: allscale/transfer\_plan.hpp and allscale/simple\_transfer\_plan\_generator.hpp.  The information on
  locations is the vector of parts that getParts yields, with the locality and the region of each.
\<close>

datatype transfer_kind = Replication | Migration

record 'r transfer =
  tf_ref :: data_item_id
  tf_region :: 'r
  tf_src :: size_t
  tf_dst :: size_t
  tf_kind :: transfer_kind

definition addTransfer :: "data_item_id \<Rightarrow> 'r \<Rightarrow> size_t \<Rightarrow> size_t \<Rightarrow> transfer_kind \<Rightarrow> 'r transfer list \<Rightarrow> 'r transfer list" where
  "addTransfer ref region src dst kind plan = plan @ [\<lparr>tf_ref = ref, tf_region = region, tf_src = src, tf_dst = dst, tf_kind = kind\<rparr>]"

text \<open>What is stored at the target is not transferred.\<close>

fun without_target :: "'r region_ops \<Rightarrow> size_t \<Rightarrow> (size_t \<times> 'r) list \<Rightarrow> 'r \<Rightarrow> 'r" where
  "without_target R target [] rest = rest"
| "without_target R target ((loc, region) # parts) rest =
    without_target R target parts (if loc = target then r_diff R rest region else rest)"

fun plan_parts :: "'r region_ops \<Rightarrow> data_item_id \<Rightarrow> size_t \<Rightarrow> transfer_kind \<Rightarrow> (size_t \<times> 'r) list \<Rightarrow> 'r \<Rightarrow> 'r transfer list \<Rightarrow> 'r transfer list" where
  "plan_parts R ref target kind [] rest plan = plan"
| "plan_parts R ref target kind ((loc, region) # parts) rest plan =
    (let overlap = r_inter R rest region
     in if r_empty R overlap then plan_parts R ref target kind parts rest plan
        else plan_parts R ref target kind parts (r_diff R rest overlap) (addTransfer ref overlap loc target kind plan))"

definition simple_transfer_plan_generator :: "'r region_ops \<Rightarrow> (size_t \<times> 'r) list \<Rightarrow> size_t \<Rightarrow> 'r requirement \<Rightarrow> 'r transfer list" where
  "simple_transfer_plan_generator R parts target req =
    (let rest = without_target R target parts (req_region req)
     in if r_empty R rest then []
        else plan_parts R (req_id req) target (if req_mode req = ReadOnly then Replication else Migration) parts rest [])"

section \<open>What a plan moves\<close>

lemma without_target_elems:
  assumes "region_ok R E"
  shows "E (without_target R target parts rest) = E rest - located E parts target"
  by (induction parts arbitrary: rest) (auto simp: region_simps [OF assms] split: if_splits)

lemma plan_parts_append: "plan_parts R ref target kind parts rest plan = plan @ plan_parts R ref target kind parts rest []"
proof (induction parts arbitrary: rest plan)
  case (Cons p parts)
  obtain loc region where p: "p = (loc, region)" by (cases p)
  let ?o = "r_inter R rest region"
  show ?case
  proof (cases "r_empty R ?o")
    case True
    then show ?thesis using Cons.IH [of rest plan] by (simp add: p Let_def)
  next
    case False
    let ?t = "\<lparr>tf_ref = ref, tf_region = ?o, tf_src = loc, tf_dst = target, tf_kind = kind\<rparr>"
    show ?thesis using False Cons.IH [of "r_diff R rest ?o" "plan @ [?t]"] Cons.IH [of "r_diff R rest ?o" "[?t]"]
      by (simp add: p Let_def addTransfer_def)
  qed
qed simp

lemma plan_parts_Cons:
  "plan_parts R ref target kind ((loc, region) # parts) rest [] =
    (let overlap = r_inter R rest region
     in if r_empty R overlap then plan_parts R ref target kind parts rest []
        else \<lparr>tf_ref = ref, tf_region = overlap, tf_src = loc, tf_dst = target, tf_kind = kind\<rparr> # plan_parts R ref target kind parts (r_diff R rest overlap) [])"
  using plan_parts_append [of R ref target kind parts _ "[_]"] by (simp add: Let_def addTransfer_def)

declare plan_parts.simps(2) [simp del]

definition moved :: "('r \<Rightarrow> 'e set) \<Rightarrow> 'r transfer list \<Rightarrow> 'e set" where
  "moved E plan = \<Union> (E ` tf_region ` set plan)"

definition apart :: "('r \<Rightarrow> 'e set) \<Rightarrow> 'r transfer list \<Rightarrow> bool" where
  "apart E plan \<longleftrightarrow> sorted_wrt (\<lambda>s t. E (tf_region s) \<inter> E (tf_region t) = {}) plan"

lemma plan_parts_elems:
  assumes "region_ok R E"
  shows "moved E (plan_parts R ref target kind parts rest []) = E rest \<inter> covered E parts"
proof (induction parts arbitrary: rest)
  case (Cons p parts)
  obtain loc region where p: "p = (loc, region)" by (cases p)
  show ?case
  proof (cases "r_empty R (r_inter R rest region)")
    case True
    then have "E rest \<inter> E region = {}" using assms by (simp add: region_simps)
    then show ?thesis using True Cons.IH [of rest] by (auto simp: p plan_parts_Cons)
  next
    case False
    then show ?thesis using Cons.IH [of "r_diff R rest (r_inter R rest region)"] assms
      by (auto simp: p plan_parts_Cons moved_def region_simps Let_def)
  qed
qed (simp add: moved_def)

lemma plan_parts_apart:
  assumes "region_ok R E"
  shows "apart E (plan_parts R ref target kind parts rest [])"
proof (induction parts arbitrary: rest)
  case (Cons p parts)
  obtain loc region where p: "p = (loc, region)" by (cases p)
  let ?o = "r_inter R rest region"
  have "moved E (plan_parts R ref target kind parts (r_diff R rest ?o) []) \<inter> E ?o = {}"
    using plan_parts_elems [OF assms, of ref target kind parts "r_diff R rest ?o"] assms by (auto simp: region_simps)
  then show ?case using Cons.IH [of rest] Cons.IH [of "r_diff R rest ?o"] by (auto simp: p plan_parts_Cons apart_def moved_def Let_def)
qed (simp add: apart_def)

lemma plan_parts_fields:
  assumes "region_ok R E" and "t \<in> set (plan_parts R ref target kind parts rest [])"
  shows "tf_ref t = ref" "tf_dst t = target" "tf_kind t = kind" "E (tf_region t) \<noteq> {}" "E (tf_region t) \<subseteq> E rest \<inter> located E parts (tf_src t)"
proof -
  have "tf_ref t = ref \<and> tf_dst t = target \<and> tf_kind t = kind \<and> E (tf_region t) \<noteq> {} \<and> E (tf_region t) \<subseteq> E rest \<inter> located E parts (tf_src t)"
    using assms(2)
  proof (induction parts arbitrary: rest)
    case (Cons p parts)
    obtain loc region where p: "p = (loc, region)" by (cases p)
    let ?o = "r_inter R rest region"
    consider "t \<in> set (plan_parts R ref target kind parts rest [])" | "t \<in> set (plan_parts R ref target kind parts (r_diff R rest ?o) [])"
      | "\<not> r_empty R ?o" "t = \<lparr>tf_ref = ref, tf_region = ?o, tf_src = loc, tf_dst = target, tf_kind = kind\<rparr>"
      using Cons.prems by (auto simp: p plan_parts_Cons Let_def split: if_splits)
    then show ?case
    proof cases
      case 1
      then show ?thesis using Cons.IH [of rest] by (auto simp: p)
    next
      case 2
      then show ?thesis using Cons.IH [of "r_diff R rest ?o"] assms(1) by (auto simp: p region_simps)
    next
      case 3
      then show ?thesis using assms(1) by (auto simp: p region_simps)
    qed
  qed simp
  then show "tf_ref t = ref" "tf_dst t = target" "tf_kind t = kind" "E (tf_region t) \<noteq> {}" "E (tf_region t) \<subseteq> E rest \<inter> located E parts (tf_src t)"
    by simp_all
qed

section \<open>Property\<close>

text \<open>C40: A plan moves to the target exactly the elements that it requires, does not have, and that some other part has: each once, from a
  locality that has it and is not the target, as a replication for reading and a migration for writing.\<close>

theorem plan_moves_missing:
  assumes "region_ok R E" and "plan = simple_transfer_plan_generator R parts target req"
  shows "moved E plan = (E (req_region req) - located E parts target) \<inter> covered E parts \<and> apart E plan \<and>
    (\<forall>t \<in> set plan. tf_ref t = req_id req \<and> tf_dst t = target \<and> tf_src t \<noteq> target \<and> E (tf_region t) \<subseteq> located E parts (tf_src t) \<and>
      tf_kind t = (if req_mode req = ReadOnly then Replication else Migration))"
proof -
  let ?rest = "without_target R target parts (req_region req)"
  let ?plan = "plan_parts R (req_id req) target (if req_mode req = ReadOnly then Replication else Migration) parts ?rest []"
  have rest: "E ?rest = E (req_region req) - located E parts target" by (rule without_target_elems [OF assms(1)])
  have "plan = ?plan \<or> plan = [] \<and> E ?rest = {}"
    using assms by (simp add: simple_transfer_plan_generator_def Let_def region_simps)
  then show ?thesis
  proof (elim disjE conjE)
    assume plan: "plan = ?plan"
    have "tf_src t \<noteq> target" if "t \<in> set ?plan" for t
      using plan_parts_fields(4,5) [OF assms(1) that] rest by auto
    then show ?thesis
      using plan_parts_elems [OF assms(1)] plan_parts_apart [OF assms(1)] plan_parts_fields [OF assms(1)] rest unfolding plan by auto
  next
    assume "plan = []" "E ?rest = {}"
    then show ?thesis using rest by (auto simp: moved_def apart_def)
  qed
qed

definition demo_parts :: "(size_t \<times> uint8_t) list" where
  "demo_parts = [(0, 0x03), (1, 0x0E), (2, 0x18)]"

theorem plan_moves_missing_witness:
  "moved mask_elems (simple_transfer_plan_generator mask_regions demo_parts 0
      \<lparr>req_id = data_item_id 0 5, req_region = 0x1F, req_allowance = 0, req_mode = ReadWrite\<rparr>) =
    (mask_elems 0x1F - located mask_elems demo_parts 0) \<inter> covered mask_elems demo_parts"
  using plan_moves_missing [OF mask_regions_ok refl, of demo_parts 0 "\<lparr>req_id = data_item_id 0 5, req_region = 0x1F, req_allowance = 0, req_mode = ReadWrite\<rparr>"]
  by simp

end
