(* ===== verification/Frequency_Control.thy ===== *)
theory Frequency_Control
  imports Prelude
begin

text \<open>
  The control of the frequencies of the processors: src/components/util/hardware\_reconf.cpp, and initialize\_cpu\_frequencies and
  fix\_allcores\_frequencies of src/components/scheduler\_component.cpp.

  The library cpufreq, the files of the operating system and hwloc are parameters: 'h is the state of the hardware.
  Numbers of processors are far below the 32 bits in which the code counts them.
  A result of 0 of a call of cpufreq is success.  The laws cpufreq\_ok are an idealisation: a call takes effect at once
  and on one processor only (shared\_clock shows what a common clock changes).  None is a loop that does not end, or undefined behaviour.
\<close>

section \<open>The hardware\<close>

record freq_policy =
  fq_governor :: string
  fq_min :: uint64_t
  fq_max :: uint64_t

record 'h cpufreq =
  cf_available :: "nat \<Rightarrow> 'h \<Rightarrow> uint64_t list"
  cf_exists :: "nat \<Rightarrow> 'h \<Rightarrow> bool"
  cf_hardware :: "nat \<Rightarrow> 'h \<Rightarrow> uint64_t"
  cf_set :: "nat \<Rightarrow> uint64_t \<Rightarrow> 'h \<Rightarrow> int \<times> 'h"
  cf_policy :: "nat \<Rightarrow> freq_policy \<Rightarrow> 'h \<Rightarrow> int \<times> 'h"
  cf_online :: "bool \<Rightarrow> nat \<Rightarrow> 'h \<Rightarrow> 'h"

record hw_topology =
  num_physical_cores :: nat
  num_logical_cores :: nat
  num_hw_threads :: nat

text \<open>What hwloc and the standard library report; the number of threads of a core is rounded down.\<close>

definition read_hw_topology :: "nat \<Rightarrow> nat \<Rightarrow> hw_topology option" where
  "read_hw_topology physical logical =
    (if physical = 0 then None
     else Some \<lparr>num_physical_cores = physical, num_logical_cores = logical, num_hw_threads = logical div physical\<rparr>)"

text \<open>The loops over the processors from lo in steps of by; with a step of 0 they do not end.\<close>

definition cpu_ids :: "nat \<Rightarrow> nat \<Rightarrow> nat \<Rightarrow> nat list option" where
  "cpu_ids lo hi by =
    (if hi \<le> lo then Some [] else if by = 0 then None else Some (map (\<lambda>i. lo + i * by) [0..<(hi - lo + by - 1) div by]))"

section \<open>hardware\_reconf\<close>

definition get_frequencies :: "'h cpufreq \<Rightarrow> nat \<Rightarrow> 'h \<Rightarrow> uint64_t list" where
  "get_frequencies C cpu h = cf_available C cpu h"

fun set_each :: "'h cpufreq \<Rightarrow> uint64_t \<Rightarrow> nat list \<Rightarrow> int \<times> 'h \<Rightarrow> int \<times> 'h" where
  "set_each C f [] s = s"
| "set_each C f (c # cs) s = set_each C f cs (if cf_exists C c (snd s) then cf_set C c f (snd s) else s)"

definition set_frequency :: "'h cpufreq \<Rightarrow> hw_topology \<Rightarrow> nat \<Rightarrow> nat \<Rightarrow> uint64_t \<Rightarrow> 'h \<Rightarrow> (int \<times> 'h) option" where
  "set_frequency C topo min_cpu max_cpu f h = do {
     ids \<leftarrow> cpu_ids min_cpu (min_cpu + max_cpu * num_hw_threads topo) (num_hw_threads topo);
     Some (set_each C f ids (0, h))}"

text \<open>The index of the frequency step places lower or higher in the list, which is decreasing; the sum is one of 32 bits.\<close>

definition next_index :: "nat \<Rightarrow> bool \<Rightarrow> nat \<Rightarrow> nat \<Rightarrow> nat" where
  "next_index step dec n i =
    (if \<not> dec then (if step \<le> i then i - step else 0)
     else if (i + step) mod 2 ^ 32 < n then (i + step) mod 2 ^ 32 else n - 1)"

fun first_freq :: "uint64_t \<Rightarrow> uint64_t list \<Rightarrow> nat option" where
  "first_freq f [] = None"
| "first_freq f (g # gs) = (if f = g then Some 0 else map_option Suc (first_freq f gs))"

definition shift_frequency :: "'h cpufreq \<Rightarrow> uint64_t list \<Rightarrow> nat \<Rightarrow> bool \<Rightarrow> nat \<Rightarrow> 'h \<Rightarrow> 'h" where
  "shift_frequency C freqs step dec c h =
    (case first_freq (cf_hardware C c h) freqs of
       None \<Rightarrow> h
     | Some i \<Rightarrow> snd (cf_set C c (freqs ! next_index step dec (length freqs) i) h))"

definition set_next_frequency :: "'h cpufreq \<Rightarrow> hw_topology \<Rightarrow> nat \<Rightarrow> bool \<Rightarrow> 'h \<Rightarrow> 'h option" where
  "set_next_frequency C topo step dec h = do {
     ids \<leftarrow> cpu_ids 0 (num_logical_cores topo) (num_hw_threads topo);
     Some (fold (shift_frequency C (get_frequencies C 0 h) step dec) ids h)}"

text \<open>set\_frequencies\_bulk: at most num\_cpus calls of set\_frequency.\<close>

fun bulk_loop :: "'h cpufreq \<Rightarrow> hw_topology \<Rightarrow> nat \<Rightarrow> uint64_t \<Rightarrow> nat list \<Rightarrow> nat \<Rightarrow> 'h \<Rightarrow> 'h option" where
  "bulk_loop C topo n f [] count h = Some h"
| "bulk_loop C topo n f (c # cs) count h =
    (if cf_hardware C c h \<noteq> f then
       if count = n then Some h
       else do {
         (res, h) \<leftarrow> set_frequency C topo c (c + 1) f h;
         bulk_loop C topo n f cs (count + 1) h}
     else bulk_loop C topo n f cs count h)"

definition set_frequencies_bulk :: "'h cpufreq \<Rightarrow> hw_topology \<Rightarrow> nat \<Rightarrow> uint64_t \<Rightarrow> 'h \<Rightarrow> 'h option" where
  "set_frequencies_bulk C topo n f h = do {
     ids \<leftarrow> cpu_ids 0 (num_logical_cores topo) (num_hw_threads topo);
     bulk_loop C topo n f ids 0 h}"

definition num_cpus_with_frequency :: "'h cpufreq \<Rightarrow> hw_topology \<Rightarrow> uint64_t \<Rightarrow> 'h \<Rightarrow> nat option" where
  "num_cpus_with_frequency C topo f h = do {
     ids \<leftarrow> cpu_ids 0 (num_logical_cores topo) (num_hw_threads topo);
     Some (length (filter (\<lambda>c. cf_hardware C c h = f) ids))}"

definition make_cpus :: "'h cpufreq \<Rightarrow> bool \<Rightarrow> nat \<Rightarrow> nat \<Rightarrow> 'h \<Rightarrow> 'h" where
  "make_cpus C online lo hi = fold (cf_online C online) [lo..<hi]"

section \<open>The scheduler\<close>

datatype freq_error = No_cpu_frequency

text \<open>The governor userspace, with the range of the frequencies.\<close>

fun set_policies :: "'h cpufreq \<Rightarrow> freq_policy \<Rightarrow> nat list \<Rightarrow> 'h \<Rightarrow> freq_error + 'h" where
  "set_policies C p [] h = Inr h"
| "set_policies C p (c # cs) h =
    (let (res, h) = cf_policy C c p h in if res \<noteq> 0 then Inl No_cpu_frequency else set_policies C p cs h)"

definition userspace_policy :: "uint64_t list \<Rightarrow> freq_policy option" where
  "userspace_policy freqs =
    (if freqs = [] then None else Some \<lparr>fq_governor = ''userspace'', fq_min = Min (set freqs), fq_max = Max (set freqs)\<rparr>)"

text \<open>Set the frequency of the processing units of all pools, and wait until each of them has it.\<close>

fun set_units :: "'h cpufreq \<Rightarrow> hw_topology \<Rightarrow> uint64_t \<Rightarrow> nat list \<Rightarrow> 'h \<Rightarrow> 'h option" where
  "set_units C topo f [] h = Some h"
| "set_units C topo f (pu # pus) h =
    (if cf_exists C pu h then do {
       (res, h) \<leftarrow> set_frequency C topo pu 1 f h;
       set_units C topo f pus h}
     else set_units C topo f pus h)"

definition wait_units :: "'h cpufreq \<Rightarrow> uint64_t \<Rightarrow> nat list \<Rightarrow> 'h \<Rightarrow> 'h option" where
  "wait_units C f pus h = (if list_all (\<lambda>pu. cf_exists C pu h \<longrightarrow> cf_hardware C pu h = f) pus then Some h else None)"

definition fix_units :: "'h cpufreq \<Rightarrow> hw_topology \<Rightarrow> uint64_t \<Rightarrow> nat list \<Rightarrow> 'h \<Rightarrow> 'h option" where
  "fix_units C topo f pus h = do {
     h \<leftarrow> set_units C topo f pus h;
     wait_units C f pus h}"

text \<open>policy is what the member of the scheduler was before; topo0 is the topology that topo\_init reads for hardware\_reconf, topo
  the member of the scheduler.\<close>

definition initialize_cpu_frequencies :: "'h cpufreq \<Rightarrow> freq_policy \<Rightarrow> hw_topology \<Rightarrow> nat \<Rightarrow> nat list \<Rightarrow> 'h \<Rightarrow> (freq_error + 'h) option" where
  "initialize_cpu_frequencies C policy topo nbpus pus h = do {
     let freqs = get_frequencies C 0 h;
     p \<leftarrow> userspace_policy freqs;
     let h = make_cpus C True 0 nbpus h;
     let h = fold (\<lambda>c h. snd (cf_policy C c (policy\<lparr>fq_governor := ''ondemand''\<rparr>) h)) [0..<num_logical_cores topo] h;
     ids \<leftarrow> cpu_ids 0 (num_logical_cores topo) (num_hw_threads topo);
     case set_policies C p ids h of
       Inl e \<Rightarrow> Some (Inl e)
     | Inr h \<Rightarrow> map_option Inr (fix_units C topo (hd freqs) pus h)}"

definition freq_index :: "nat \<Rightarrow> int \<Rightarrow> nat" where
  "freq_index n i = nat (let i = (if i < 0 then 0 else i) in if i > int n - 1 then int n - 1 else i)"

definition fix_allcores_frequencies :: "'h cpufreq \<Rightarrow> hw_topology \<Rightarrow> hw_topology \<Rightarrow> nat \<Rightarrow> nat list \<Rightarrow> int \<Rightarrow> 'h \<Rightarrow> (freq_error + 'h) option" where
  "fix_allcores_frequencies C topo0 topo nbpus pus i h = do {
     let freqs = get_frequencies C 0 h;
     p \<leftarrow> userspace_policy freqs;
     let h = make_cpus C True 0 nbpus h;
     ids \<leftarrow> cpu_ids 0 (num_logical_cores topo) (num_hw_threads topo);
     case set_policies C p ids h of
       Inl e \<Rightarrow> Some (Inl e)
     | Inr h \<Rightarrow> map_option Inr (fix_units C topo0 (freqs ! freq_index (length freqs) i) pus h)}"

section \<open>Independent processors\<close>

text \<open>Hardware whose processors have clocks of their own: while the governor is userspace, which steady says, setting
  one of the available frequencies of a processor succeeds, is read back at once, and changes no other processor.
  This is an idealization.  cpufreq does not promise it: processors may share a clock, and a new frequency may
  show only later, for which fix\_allcores\_frequencies waits in a loop.  The lemma shared\_clock below is what happens
  to processors with one clock.\<close>

definition set_ok :: "'h cpufreq \<Rightarrow> nat \<Rightarrow> uint64_t \<Rightarrow> 'h \<Rightarrow> 'h \<Rightarrow> bool" where
  "set_ok C c f h h' \<longleftrightarrow> (\<forall>d. cf_hardware C d h' = (if d = c then f else cf_hardware C d h)) \<and>
     (\<forall>d. cf_exists C d h' = cf_exists C d h) \<and> cf_available C 0 h' = cf_available C 0 h"

definition cpufreq_ok :: "'h cpufreq \<Rightarrow> ('h \<Rightarrow> bool) \<Rightarrow> bool" where
  "cpufreq_ok C steady \<longleftrightarrow> (\<forall>c f h. steady h \<longrightarrow> cf_exists C c h \<longrightarrow> f \<in> set (cf_available C 0 h) \<longrightarrow>
     fst (cf_set C c f h) = 0 \<and> steady (snd (cf_set C c f h)) \<and> set_ok C c f h (snd (cf_set C c f h)))"

lemma cpufreq_okD:
  assumes "cpufreq_ok C steady" and "steady h" and "cf_exists C c h" and "f \<in> set (cf_available C 0 h)"
  shows "fst (cf_set C c f h) = 0" "steady (snd (cf_set C c f h))" "set_ok C c f h (snd (cf_set C c f h))"
  using assms by (simp_all add: cpufreq_ok_def)

section \<open>Steps of the frequency\<close>

lemma first_freq_nth: "distinct fs \<Longrightarrow> i < length fs \<Longrightarrow> first_freq (fs ! i) fs = Some i"
proof (induction fs arbitrary: i)
  case (Cons f fs)
  then show ?case by (cases i) auto
qed simp

lemma next_index_less: "i < n \<Longrightarrow> next_index step dec n i < n"
  by (auto simp: next_index_def)

text \<open>Each processor goes from index i to next\_index i, the others stay.\<close>

lemma shift_all:
  assumes "cpufreq_ok C steady" and "distinct cs" and "distinct fs" and "steady h" and "cf_available C 0 h = fs"
    and "\<forall>c \<in> set cs. cf_exists C c h \<and> idx c < length fs \<and> cf_hardware C c h = fs ! idx c"
  shows "steady (fold (shift_frequency C fs step dec) cs h) \<and> cf_available C 0 (fold (shift_frequency C fs step dec) cs h) = fs \<and>
    (\<forall>d. cf_exists C d (fold (shift_frequency C fs step dec) cs h) = cf_exists C d h) \<and>
    (\<forall>d. cf_hardware C d (fold (shift_frequency C fs step dec) cs h) =
      (if d \<in> set cs then fs ! next_index step dec (length fs) (idx d) else cf_hardware C d h))"
  using assms(2,4-6)
proof (induction cs arbitrary: h)
  case (Cons c cs)
  let ?f = "fs ! next_index step dec (length fs) (idx c)"
  let ?h = "snd (cf_set C c ?f h)"
  have c: "cf_exists C c h" "idx c < length fs" "cf_hardware C c h = fs ! idx c" using Cons.prems(4) by simp_all
  have sh: "shift_frequency C fs step dec c h = ?h" using first_freq_nth [OF assms(3) c(2)] c(3) by (simp add: shift_frequency_def)
  have "?f \<in> set (cf_available C 0 h)" using next_index_less [OF c(2)] Cons.prems(3) by simp
  note ok = cpufreq_okD [OF assms(1) Cons.prems(2) c(1) this]
  have h: "cf_available C 0 ?h = fs" "\<forall>d. cf_exists C d ?h = cf_exists C d h" "\<forall>d. cf_hardware C d ?h = (if d = c then ?f else cf_hardware C d h)"
    using ok(3) Cons.prems(3) by (simp_all add: set_ok_def)
  have "\<forall>c' \<in> set cs. cf_exists C c' ?h \<and> idx c' < length fs \<and> cf_hardware C c' ?h = fs ! idx c'"
    using Cons.prems(1,4) h by auto
  from Cons.IH [OF _ ok(2) h(1) this] Cons.prems(1) show ?case using h by (auto simp: sh)
qed simp

lemma cpu_ids_distinct: "cpu_ids lo hi by = Some ids \<Longrightarrow> distinct ids"
  by (auto simp: cpu_ids_def distinct_map inj_on_def split: if_splits)

text \<open>On independent processors, lowering the frequency by some steps and raising it again by as many gives every processor
  the frequency it had, if each has that many lower ones; in between each has the frequency that many places lower in
  the list.\<close>

theorem frequency_steps_roundtrip:
  assumes "cpufreq_ok C steady" and "steady h" and "distinct (cf_available C 0 h)" and "length (cf_available C 0 h) < 2 ^ 32"
    and "cpu_ids 0 (num_logical_cores topo) (num_hw_threads topo) = Some ids"
    and "\<forall>c \<in> set ids. cf_exists C c h \<and> idx c + step < length (cf_available C 0 h) \<and> cf_hardware C c h = cf_available C 0 h ! idx c"
  shows "\<exists>h1 h2. set_next_frequency C topo step True h = Some h1 \<and> set_next_frequency C topo step False h1 = Some h2 \<and>
    (\<forall>c \<in> set ids. cf_hardware C c h1 = cf_available C 0 h ! (idx c + step)) \<and> (\<forall>c. cf_hardware C c h2 = cf_hardware C c h)"
proof -
  let ?fs = "cf_available C 0 h"
  let ?h1 = "fold (shift_frequency C ?fs step True) ids h"
  let ?h2 = "fold (shift_frequency C ?fs step False) ids ?h1"
  have d: "distinct ids" using assms(5) by (rule cpu_ids_distinct)
  have i1: "next_index step True (length ?fs) (idx c) = idx c + step" if "c \<in> set ids" for c
    using assms(4,6) that by (auto simp: next_index_def)
  have "\<forall>c \<in> set ids. cf_exists C c h \<and> idx c < length ?fs \<and> cf_hardware C c h = ?fs ! idx c" using assms(6) by auto
  note s1 = shift_all [OF assms(1) d assms(3) assms(2) refl this, of step True]
  have "\<forall>c \<in> set ids. cf_exists C c ?h1 \<and> idx c + step < length ?fs \<and> cf_hardware C c ?h1 = ?fs ! (idx c + step)"
    using s1 assms(6) i1 by auto
  note s2 = shift_all [OF assms(1) d assms(3) conjunct1 [OF s1] conjunct1 [OF conjunct2 [OF s1]] this, of step False]
  have "cf_hardware C c ?h2 = cf_hardware C c h" for c using s1 s2 assms(6) by (auto simp: next_index_def)
  moreover have "set_next_frequency C topo step True h = Some ?h1" using assms(5) by (simp add: set_next_frequency_def get_frequencies_def)
  moreover have "set_next_frequency C topo step False ?h1 = Some ?h2" using assms(5) s1 by (simp add: set_next_frequency_def get_frequencies_def)
  ultimately show ?thesis using s1 i1 by auto
qed

text \<open>Four processors with frequencies in a list.\<close>

definition list_cpufreq :: "uint64_t list \<Rightarrow> uint64_t list cpufreq" where
  "list_cpufreq fs = \<lparr>cf_available = (\<lambda>c h. fs), cf_exists = (\<lambda>c h. c < length h), cf_hardware = (\<lambda>c h. if c < length h then h ! c else 0),
     cf_set = (\<lambda>c f h. (0, h[c := f])), cf_policy = (\<lambda>c p h. (0, h)), cf_online = (\<lambda>b c h. h)\<rparr>"

lemma list_cpufreq_ok: "cpufreq_ok (list_cpufreq fs) (\<lambda>h. True)"
  by (auto simp: cpufreq_ok_def list_cpufreq_def set_ok_def nth_list_update)

definition four_cores :: "nat \<Rightarrow> hw_topology" where
  "four_cores hw = \<lparr>num_physical_cores = 4, num_logical_cores = 4, num_hw_threads = hw\<rparr>"

lemma four_ids: "cpu_ids 0 (num_logical_cores (four_cores 1)) (num_hw_threads (four_cores 1)) = Some [0, 1, 2, 3]"
  by code_simp

theorem frequency_steps_roundtrip_witness:
  "\<exists>h1 h2. set_next_frequency (list_cpufreq [30, 20, 10]) (four_cores 1) 1 True [30, 20, 30, 20] = Some h1 \<and>
     set_next_frequency (list_cpufreq [30, 20, 10]) (four_cores 1) 1 False h1 = Some h2 \<and>
     (\<forall>c. cf_hardware (list_cpufreq [30, 20, 10]) c h2 = cf_hardware (list_cpufreq [30, 20, 10]) c [30, 20, 30, 20])"
proof -
  let ?C = "list_cpufreq [30, 20, 10]" and ?h = "[30, 20, 30, 20]"
  have d: "distinct (cf_available ?C 0 ?h)" "length (cf_available ?C 0 ?h) < 2 ^ 32" by (simp_all add: list_cpufreq_def)
  have "\<forall>c \<in> set [0, 1, 2, 3]. cf_exists ?C c ?h \<and> c mod 2 + 1 < length (cf_available ?C 0 ?h) \<and> cf_hardware ?C c ?h = cf_available ?C 0 ?h ! (c mod 2)"
    by (simp add: list_cpufreq_def)
  from frequency_steps_roundtrip [OF list_cpufreq_ok TrueI d four_ids this] show ?thesis by blast
qed

text \<open>Three processors with one clock: a step down is taken three times, to the lowest of the four frequencies, and a
  step up ends at the highest one instead of the second.\<close>

definition shared_clock_cpufreq :: "uint64_t list \<Rightarrow> uint64_t cpufreq" where
  "shared_clock_cpufreq fs = \<lparr>cf_available = (\<lambda>c h. fs), cf_exists = (\<lambda>c h. c < 3), cf_hardware = (\<lambda>c h. h),
     cf_set = (\<lambda>c f h. (0, f)), cf_policy = (\<lambda>c p h. (0, h)), cf_online = (\<lambda>b c h. h)\<rparr>"

lemma shared_clock:
  assumes "topo = \<lparr>num_physical_cores = 3, num_logical_cores = 3, num_hw_threads = 1\<rparr>"
  shows "set_next_frequency (shared_clock_cpufreq [40, 30, 20, 10]) topo 1 True 30 = Some 10"
    and "set_next_frequency (shared_clock_cpufreq [40, 30, 20, 10]) topo 1 False 10 = Some 40"
proof -
  have "cpu_ids 0 (num_logical_cores topo) (num_hw_threads topo) = Some [0, 1, 2]" unfolding assms by code_simp
  then show "set_next_frequency (shared_clock_cpufreq [40, 30, 20, 10]) topo 1 True 30 = Some 10"
    "set_next_frequency (shared_clock_cpufreq [40, 30, 20, 10]) topo 1 False 10 = Some 40"
    by (simp_all add: set_next_frequency_def get_frequencies_def shift_frequency_def next_index_def shared_clock_cpufreq_def)
qed

section \<open>Fixing the frequency of all cores\<close>

lemma set_one:
  assumes "num_hw_threads topo \<noteq> 0" and "cf_exists C pu h"
  shows "set_frequency C topo pu 1 f h = Some (cf_set C pu f h)"
proof -
  have "(num_hw_threads topo + num_hw_threads topo - 1) div num_hw_threads topo = 1"
    using assms(1) by (intro div_nat_eqI) simp_all
  then have "cpu_ids pu (pu + 1 * num_hw_threads topo) (num_hw_threads topo) = Some [pu]" using assms(1) by (simp add: cpu_ids_def)
  then show ?thesis using assms(2) by (simp add: set_frequency_def)
qed

lemma set_units_all:
  assumes "cpufreq_ok C steady" and "num_hw_threads topo \<noteq> 0" and "steady h" and "f \<in> set (cf_available C 0 h)"
  shows "\<exists>h'. set_units C topo f pus h = Some h' \<and> (\<forall>d. cf_exists C d h' = cf_exists C d h) \<and>
    (\<forall>d. cf_hardware C d h' = (if d \<in> set pus \<and> cf_exists C d h then f else cf_hardware C d h))"
  using assms(3,4)
proof (induction pus arbitrary: h)
  case (Cons pu pus)
  show ?case
  proof (cases "cf_exists C pu h")
    case True
    let ?h = "snd (cf_set C pu f h)"
    note ok = cpufreq_okD [OF assms(1) Cons.prems(1) True Cons.prems(2)]
    have h: "cf_available C 0 ?h = cf_available C 0 h" "\<forall>d. cf_exists C d ?h = cf_exists C d h" "\<forall>d. cf_hardware C d ?h = (if d = pu then f else cf_hardware C d h)"
      using ok(3) by (simp_all add: set_ok_def)
    have "set_units C topo f (pu # pus) h = set_units C topo f pus ?h"
      using True set_one [OF assms(2) True] by (cases "cf_set C pu f h") simp
    then show ?thesis using Cons.IH [OF ok(2)] Cons.prems(2) h True by auto
  next
    case False
    then show ?thesis using Cons.IH [OF Cons.prems] by auto
  qed
qed simp

lemma freq_index_less: "0 < n \<Longrightarrow> freq_index n i < n"
  by (auto simp: freq_index_def)

text \<open>Once the governor is userspace, fixing the frequency of all cores returns, and every processing unit of the pools has the
  frequency with the index, or with the nearest index that exists.\<close>

theorem fix_allcores_returns:
  assumes "cpufreq_ok C steady" and "num_hw_threads topo0 \<noteq> 0" and "userspace_policy (cf_available C 0 h) = Some p"
    and "cpu_ids 0 (num_logical_cores topo) (num_hw_threads topo) = Some ids"
    and "set_policies C p ids (make_cpus C True 0 nbpus h) = Inr h1" and "steady h1" and "cf_available C 0 h1 = cf_available C 0 h"
  shows "\<exists>h2. fix_allcores_frequencies C topo0 topo nbpus pus i h = Some (Inr h2) \<and>
    (\<forall>pu \<in> set pus. cf_exists C pu h1 \<longrightarrow> cf_hardware C pu h2 = cf_available C 0 h ! freq_index (length (cf_available C 0 h)) i)"
proof -
  let ?fs = "cf_available C 0 h"
  let ?f = "?fs ! freq_index (length ?fs) i"
  have "?fs \<noteq> []" using assms(3) by (auto simp: userspace_policy_def)
  then have "?f \<in> set (cf_available C 0 h1)" using freq_index_less [of "length ?fs" i] assms(7) by simp
  from set_units_all [OF assms(1,2,6) this, of pus] obtain h2
    where h2: "set_units C topo0 ?f pus h1 = Some h2" "\<forall>d. cf_exists C d h2 = cf_exists C d h1"
      "\<forall>d. cf_hardware C d h2 = (if d \<in> set pus \<and> cf_exists C d h1 then ?f else cf_hardware C d h1)" by blast
  have "fix_units C topo0 ?f pus h1 = Some h2" using h2 by (simp add: fix_units_def wait_units_def list_all_iff)
  then show ?thesis using assms(3-5) h2(3) by (simp add: fix_allcores_frequencies_def get_frequencies_def Let_def)
qed

theorem fix_allcores_returns_witness:
  "\<exists>h2. fix_allcores_frequencies (list_cpufreq [30, 20, 10]) (four_cores 1) (four_cores 1) 4 [0, 2] 7 [30, 20, 30, 20] = Some (Inr h2) \<and>
    (\<forall>pu \<in> set [0, 2]. cf_exists (list_cpufreq [30, 20, 10]) pu [30, 20, 30, 20] \<longrightarrow>
      cf_hardware (list_cpufreq [30, 20, 10]) pu h2 = cf_available (list_cpufreq [30, 20, 10]) 0 [30, 20, 30, 20] !
        freq_index (length (cf_available (list_cpufreq [30, 20, 10]) 0 [30, 20, 30, 20])) 7)"
proof (rule fix_allcores_returns [OF list_cpufreq_ok _ _ four_ids])
  show "userspace_policy (cf_available (list_cpufreq [30, 20, 10]) 0 [30, 20, 30, 20]) =
      Some \<lparr>fq_governor = ''userspace'', fq_min = Min {30, 20, 10}, fq_max = Max {30, 20, 10}\<rparr>"
    by (simp add: userspace_policy_def list_cpufreq_def)
qed (simp_all add: list_cpufreq_def four_cores_def make_cpus_def eval_nat_numeral)

section \<open>Deviations\<close>

text \<open>set\_frequencies\_bulk passes the end of a range where set\_frequency takes the number of cores: asked for two, it changes three.\<close>

lemma bulk_changes_too_many:
  "set_frequencies_bulk (list_cpufreq [30, 20, 10]) (four_cores 1) 2 10 [30, 30, 30, 30] = Some [10, 10, 10, 30]"
  by code_simp

text \<open>With fewer logical processors than physical cores the number of threads of a core is 0, and the loops do not end.\<close>

lemma too_few_logical_cores: "read_hw_topology 4 2 = Some topo \<Longrightarrow> num_cpus_with_frequency C topo f h = None"
  by (auto simp: read_hw_topology_def num_cpus_with_frequency_def cpu_ids_def)

text \<open>Without frequencies the least and the greatest one are undefined.\<close>

lemma no_frequencies: "cf_available C 0 h = [] \<Longrightarrow> fix_allcores_frequencies C topo0 topo nbpus pus i h = None"
  by (simp add: fix_allcores_frequencies_def get_frequencies_def userspace_policy_def)

end
