(* ===== verification/Graph_Colouring.thy ===== *)
theory Graph_Colouring
  imports Prelude
begin

text \<open>
  The colours of the nodes in the trees of tasks that the monitor prints: src/components/util/graph\_colouring.cpp.  The
  intensity of a node is a point between two colours in the HSV model, from yellow to red.

  The arithmetic of double is a parameter, with floor, the conversion to an integer, and fmod(x, 1.0).  None is the
  conversion to unsigned of a number that is out of its range, or a result that was never set.
\<close>

section \<open>The conversions\<close>

record 'f colour_fpu =
  ca :: "'f farith"
  cfloor :: "'f \<Rightarrow> int"
  ctrunc :: "'f \<Rightarrow> int"
  cfmod1 :: "'f \<Rightarrow> 'f"

record 'f HSV_color =
  hsv_h :: 'f
  hsv_s :: 'f
  hsv_v :: 'f

record RGB_color =
  rgb_r :: uint32_t
  rgb_g :: uint32_t
  rgb_b :: uint32_t

definition of_uint :: "'f farith \<Rightarrow> uint32_t \<Rightarrow> 'f" where
  "of_uint F x = fof_int F (uint x)"

definition to_uint :: "int \<Rightarrow> uint32_t option" where
  "to_uint i = (if 0 \<le> i \<and> i < 2 ^ 32 then Some (word_of_int i) else None)"

definition rgb_to_hsv :: "'f colour_fpu \<Rightarrow> uint32_t \<Rightarrow> uint32_t \<Rightarrow> uint32_t \<Rightarrow> 'f HSV_color" where
  "rgb_to_hsv C r g b =
    (let F = ca C;
         maxc = (if g \<le> r then r else g); maxc = (if maxc \<le> b then b else maxc);
         minc = (if r \<le> g then r else g); minc = (if b \<le> minc then b else minc);
         v = of_uint F maxc
     in if minc = maxc then \<lparr>hsv_h = fof_int F 0, hsv_s = fof_int F 0, hsv_v = v\<rparr>
     else
       (let diff = maxc - minc;
            s = fdiv F (of_uint F diff) (of_uint F maxc);
            rc = fdiv F (of_uint F (maxc - r)) (of_uint F diff);
            gc = fdiv F (of_uint F (maxc - g)) (of_uint F diff);
            bc = fdiv F (of_uint F (maxc - b)) (of_uint F diff);
            h = (if r = maxc then fsub F bc gc
                 else if g = maxc then fsub F (fadd F (flit F 2 1) rc) bc
                 else fsub F (fadd F (flit F 4 1) gc) rc)
        in \<lparr>hsv_h = cfmod1 C (fdiv F h (flit F 6 1)), hsv_s = s, hsv_v = v\<rparr>))"

definition rgb_of :: "'f colour_fpu \<Rightarrow> 'f \<Rightarrow> 'f \<Rightarrow> 'f \<Rightarrow> RGB_color option" where
  "rgb_of C x y z = do {
     r \<leftarrow> to_uint (ctrunc C x);
     g \<leftarrow> to_uint (ctrunc C y);
     b \<leftarrow> to_uint (ctrunc C z);
     Some \<lparr>rgb_r = r, rgb_g = g, rgb_b = b\<rparr>}"

definition hsv_to_rgb :: "'f colour_fpu \<Rightarrow> 'f \<Rightarrow> 'f \<Rightarrow> 'f \<Rightarrow> RGB_color option" where
  "hsv_to_rgb C h s v =
    (let F = ca C; one = flit F 1 1; h6 = fmul F h (flit F 6 1)
     in if feq F s (flit F 0 1) then rgb_of C v v v
     else do {
       i \<leftarrow> to_uint (cfloor C h6);
       let f = fsub F h6 (of_uint F i);
       let p = fmul F v (fsub F one s);
       let q = fmul F v (fsub F one (fmul F s f));
       let t = fmul F v (fsub F one (fmul F s (fsub F one f)));
       if i mod 6 = 0 then rgb_of C v t p
       else if i = 1 then rgb_of C q v p
       else if i = 2 then rgb_of C p v t
       else if i = 3 then rgb_of C p q v
       else if i = 4 then rgb_of C t p v
       else if i = 5 then rgb_of C v p q
       else None})"

definition HSV_transition :: "'f farith \<Rightarrow> 'f \<Rightarrow> 'f \<Rightarrow> 'f \<Rightarrow> 'f \<Rightarrow> 'f" where
  "HSV_transition F x maximum start end_point = fadd F start (fdiv F (fmul F (fsub F end_point start) x) maximum)"

definition HSV_transition3 :: "'f farith \<Rightarrow> 'f \<Rightarrow> 'f \<Rightarrow> 'f HSV_color \<Rightarrow> 'f HSV_color \<Rightarrow> 'f HSV_color" where
  "HSV_transition3 F x maximum mn mx =
    \<lparr>hsv_h = HSV_transition F x maximum (hsv_h mn) (hsv_h mx), hsv_s = HSV_transition F x maximum (hsv_s mn) (hsv_s mx),
     hsv_v = HSV_transition F x maximum (hsv_v mn) (hsv_v mx)\<rparr>"

text \<open>The ends of the gradient.\<close>

definition init_gradient_HSV_color :: "'f colour_fpu \<Rightarrow> 'f HSV_color \<times> 'f HSV_color" where
  "init_gradient_HSV_color C = (rgb_to_hsv C 255 255 0, rgb_to_hsv C 255 0 0)"

definition intensity_to_rgb :: "'f colour_fpu \<Rightarrow> 'f HSV_color \<times> 'f HSV_color \<Rightarrow> 'f \<Rightarrow> 'f \<Rightarrow> uint32_t option" where
  "intensity_to_rgb C gradient x maximum = do {
     let c = HSV_transition3 (ca C) x maximum (fst gradient) (snd gradient);
     rgb \<leftarrow> hsv_to_rgb C (hsv_h c) (hsv_s c) (hsv_v c);
     Some (push_bit 16 (rgb_r rgb) OR push_bit 8 (rgb_g rgb) OR rgb_b rgb)}"

section \<open>Exact arithmetic\<close>

definition trunc_rat :: "rat \<Rightarrow> int" where
  "trunc_rat x = (if 0 \<le> x then \<lfloor>x\<rfloor> else \<lceil>x\<rceil>)"

definition rat_colour :: "rat colour_fpu" where
  "rat_colour = \<lparr>ca = rat_arith, cfloor = floor, ctrunc = trunc_rat, cfmod1 = (\<lambda>x. x - of_int (trunc_rat x))\<rparr>"

lemma trunc_of_int [simp]: "trunc_rat (of_int i) = i"
  by (simp add: trunc_rat_def)

lemma to_uint_uint [simp]: "to_uint (uint (w :: uint32_t)) = Some w"
  using uint_lt2p [of w] by (simp add: to_uint_def)

lemma trunc_unsigned [simp]: "trunc_rat (unsigned (w :: uint32_t)) = uint w"
  by (metis trunc_of_int of_int_uint)

lemma rgb_of_uint [simp]:
  "rgb_of rat_colour (unsigned r) (unsigned g) (unsigned b) = Some \<lparr>rgb_r = r, rgb_g = g, rgb_b = b\<rparr>"
  by (simp add: rgb_of_def rat_colour_def)

text \<open>The conversion back, at 6 h = i + f with 0 <= f < 1.\<close>

lemma hsv_to_rgb_sector:
  assumes "s \<noteq> 0" and "h * 6 = of_nat n + f" and "0 \<le> f" and "f < 1" and "n < 6"
  shows "hsv_to_rgb rat_colour h s v =
    (let p = v * (1 - s); q = v * (1 - s * f); t = v * (1 - s * (1 - f))
     in [rgb_of rat_colour v t p, rgb_of rat_colour q v p, rgb_of rat_colour p v t, rgb_of rat_colour p q v,
         rgb_of rat_colour t p v, rgb_of rat_colour v p q] ! n)"
proof -
  have fl: "\<lfloor>h * 6\<rfloor> = int n" using assms(2-4) by (simp add: floor_eq_iff)
  have u: "to_uint (int n) = Some (word_of_nat n)" using assms(5) by (simp add: to_uint_def)
  have f: "h * 6 - of_int (uint (word_of_nat n :: uint32_t)) = f"
    using assms(2,5) by (simp add: unsigned_of_nat take_bit_nat_eq_self)
  consider "n = 0" | "n = 1" | "n = 2" | "n = 3" | "n = 4" | "n = 5" using assms(5) by linarith
  then show ?thesis
    using assms(1) fl u f by cases (simp_all add: hsv_to_rgb_def rat_colour_def of_uint_def Let_def)
qed

lemma unsigned_sub: "r \<le> w \<Longrightarrow> (unsigned (w - r :: uint32_t) :: rat) = unsigned w - unsigned r"
proof -
  assume "r \<le> w"
  then have "uint (w - r) = uint w - uint r" by (simp add: uint_minus_simple_alt)
  then have "(of_int (uint (w - r)) :: rat) = of_int (uint w) - of_int (uint r)" by simp
  then show ?thesis by (simp only: of_int_uint)
qed

lemma unsigned_less: "r < w \<Longrightarrow> (unsigned (r :: uint32_t) :: rat) < unsigned w"
  using of_int_less_iff [of "uint r" "uint w", where ?'a = rat] by (simp only: of_int_uint word_less_def)

lemma unsigned_nonneg: "0 \<le> (unsigned (r :: uint32_t) :: rat)"
  by (metis of_int_0_le_iff of_int_uint uint_ge_0)

text \<open>The colour with the greatest channel M, the least channel m and the third one x; e is the distance of x from M.\<close>

lemma channels:
  assumes "0 \<le> m" and "m < M" and "s = (M - m) / M" and "e = (M - x) / (M - m)"
  shows "M * (1 - s) = (m :: rat)" and "M * (1 - s * e) = x" and "s \<noteq> 0"
proof -
  have M: "0 < M" using assms(1,2) by simp
  then show "M * (1 - s) = m" using assms(3) by (simp add: field_simps)
  show "s \<noteq> 0" using M assms(2,3) by simp
  have "s * e = (M - x) / M" using assms(2-4) M by simp
  then show "M * (1 - s * e) = x" using M by (simp add: field_simps)
qed

lemma hue_back:
  assumes "h = of_nat n + f" and "0 \<le> f" and "f < 1" and "n < 6"
  shows "cfmod1 rat_colour (h / 6) * 6 = of_nat n + f"
proof -
  have "n \<le> 5" using assms(4) by simp
  then have "of_nat n \<le> (of_nat 5 :: rat)" by (simp only: of_nat_le_iff)
  then have "0 \<le> h / 6" "h / 6 < 1" using assms by auto
  then have "trunc_rat (h / 6) = 0" by (simp add: trunc_rat_def floor_eq_iff)
  then show ?thesis using assms(1) by (simp add: rat_colour_def)
qed

lemma rgb_to_hsv_gray: "r = g \<Longrightarrow> g = b \<Longrightarrow>
  rgb_to_hsv rat_colour r g b = \<lparr>hsv_h = 0, hsv_s = 0, hsv_v = unsigned r\<rparr>"
  by (simp add: rgb_to_hsv_def rat_colour_def of_uint_def)

text \<open>The hue in each of the orders of the channels.\<close>

lemma rgb_to_hsv_hue:
  fixes r g b :: uint32_t
  defines "R \<equiv> (unsigned r :: rat)" and "G \<equiv> (unsigned g :: rat)" and "B \<equiv> (unsigned b :: rat)"
  shows "b \<le> g \<Longrightarrow> g \<le> r \<Longrightarrow> b < r \<Longrightarrow> rgb_to_hsv rat_colour r g b =
      \<lparr>hsv_h = cfmod1 rat_colour ((1 - (R - G) / (R - B)) / 6), hsv_s = (R - B) / R, hsv_v = R\<rparr>"
    and "b \<le> r \<Longrightarrow> r < g \<Longrightarrow> rgb_to_hsv rat_colour r g b =
      \<lparr>hsv_h = cfmod1 rat_colour ((1 + (G - R) / (G - B)) / 6), hsv_s = (G - B) / G, hsv_v = G\<rparr>"
    and "r < b \<Longrightarrow> b \<le> g \<Longrightarrow> rgb_to_hsv rat_colour r g b =
      \<lparr>hsv_h = cfmod1 rat_colour ((3 - (G - B) / (G - R)) / 6), hsv_s = (G - R) / G, hsv_v = G\<rparr>"
    and "g \<le> r \<Longrightarrow> r < b \<Longrightarrow> rgb_to_hsv rat_colour r g b =
      \<lparr>hsv_h = cfmod1 rat_colour ((5 - (B - R) / (B - G)) / 6), hsv_s = (B - G) / B, hsv_v = B\<rparr>"
    and "r < g \<Longrightarrow> g < b \<Longrightarrow> rgb_to_hsv rat_colour r g b =
      \<lparr>hsv_h = cfmod1 rat_colour ((3 + (B - G) / (B - R)) / 6), hsv_s = (B - R) / B, hsv_v = B\<rparr>"
proof -
  have e: "ca rat_colour = rat_arith" by (simp add: rat_colour_def)
  note u = e of_uint_def Let_def unsigned_sub
  have d: "x \<noteq> y \<Longrightarrow> (unsigned x :: rat) \<noteq> unsigned y" for x y :: uint32_t using unsigned_less [of x y] unsigned_less [of y x] by force
  show "rgb_to_hsv rat_colour r g b = \<lparr>hsv_h = cfmod1 rat_colour ((1 - (R - G) / (R - B)) / 6), hsv_s = (R - B) / R, hsv_v = R\<rparr>"
    if "b \<le> g" "g \<le> r" "b < r"
  proof -
    have m: "(if g \<le> r then r else g) = r" "(if r \<le> b then b else r) = r" "(if b \<le> (if r \<le> g then r else g) then b else (if r \<le> g then r else g)) = b"
      using that by auto
    have "b \<noteq> r" "r \<noteq> b" using that by auto
    then show ?thesis using that d [of b r] d [of r b] unfolding rgb_to_hsv_def Let_def m by (simp add: u R_def G_def B_def)
  qed
  show "rgb_to_hsv rat_colour r g b = \<lparr>hsv_h = cfmod1 rat_colour ((1 + (G - R) / (G - B)) / 6), hsv_s = (G - B) / G, hsv_v = G\<rparr>"
    if "b \<le> r" "r < g"
  proof -
    have m: "(if g \<le> r then r else g) = g" "(if g \<le> b then b else g) = g" "(if r \<le> g then r else g) = r" "(if b \<le> r then b else r) = b"
      using that by auto
    have "b < g" "r \<noteq> g" "b \<noteq> g" "g \<noteq> b" using that by auto
    then show ?thesis using that d [of b g] d [of g b] unfolding rgb_to_hsv_def Let_def m by (simp add: u R_def G_def B_def)
  qed
  show "rgb_to_hsv rat_colour r g b = \<lparr>hsv_h = cfmod1 rat_colour ((3 - (G - B) / (G - R)) / 6), hsv_s = (G - R) / G, hsv_v = G\<rparr>"
    if "r < b" "b \<le> g"
  proof -
    have m: "(if g \<le> r then r else g) = g" "(if g \<le> b then b else g) = g" "(if r \<le> g then r else g) = r" "(if b \<le> r then b else r) = r"
      using that by auto
    have "r < g" "r \<noteq> g" "g \<noteq> r" using that by auto
    then show ?thesis using that d [of r g] d [of g r] unfolding rgb_to_hsv_def Let_def m by (simp add: u R_def G_def B_def)
  qed
  show "rgb_to_hsv rat_colour r g b = \<lparr>hsv_h = cfmod1 rat_colour ((5 - (B - R) / (B - G)) / 6), hsv_s = (B - G) / B, hsv_v = B\<rparr>"
    if "g \<le> r" "r < b"
  proof -
    have m: "(if g \<le> r then r else g) = r" "(if r \<le> b then b else r) = b"
      "(if b \<le> (if r \<le> g then r else g) then b else (if r \<le> g then r else g)) = g" using that by auto
    have "g < b" "r \<noteq> b" "g \<noteq> b" "b \<noteq> g" using that by auto
    then show ?thesis using that d [of g b] d [of b g] unfolding rgb_to_hsv_def Let_def m by (simp add: u R_def G_def B_def)
  qed
  show "rgb_to_hsv rat_colour r g b = \<lparr>hsv_h = cfmod1 rat_colour ((3 + (B - G) / (B - R)) / 6), hsv_s = (B - R) / B, hsv_v = B\<rparr>"
    if "r < g" "g < b"
  proof -
    have m: "(if g \<le> r then r else g) = g" "(if g \<le> b then b else g) = b" "(if r \<le> g then r else g) = r" "(if b \<le> r then b else r) = r"
      using that by auto
    have "r < b" "r \<noteq> b" "g \<noteq> b" "b \<noteq> r" using that by auto
    then show ?thesis using that d [of r b] d [of b r] unfolding rgb_to_hsv_def Let_def m by (simp add: u R_def G_def B_def)
  qed
qed

lemma sector_back:
  assumes "0 \<le> m" and "m < M" and "0 \<le> f" and "f < 1" and "n < 6" and "h = of_nat n + f"
  shows "hsv_to_rgb rat_colour (cfmod1 rat_colour (h / 6)) ((M - m) / M) M =
    (let q = M * (1 - (M - m) / M * f); t = M * (1 - (M - m) / M * (1 - f))
     in [rgb_of rat_colour M t m, rgb_of rat_colour q M m, rgb_of rat_colour m M t, rgb_of rat_colour m q M,
         rgb_of rat_colour t m M, rgb_of rat_colour M m q] ! n)"
proof -
  have h: "cfmod1 rat_colour (h / 6) * 6 = of_nat n + f" by (rule hue_back [OF assms(6,3-5)])
  have s: "(M - m) / M \<noteq> 0" using assms(1,2) by simp
  have p: "M * (1 - (M - m) / M) = m" using assms(1,2) by (simp add: field_simps)
  show ?thesis unfolding hsv_to_rgb_sector [OF s h assms(3-5)] Let_def p ..
qed

text \<open>The third channel x lies between m and M; e is its distance from M in units of the whole range.\<close>

lemma third_channel:
  assumes "0 \<le> m" and "m < M" and "m \<le> x" and "x \<le> (M :: rat)"
  shows "M * (1 - (M - m) / M * ((M - x) / (M - m))) = x" and "0 \<le> (M - x) / (M - m)" and "(M - x) / (M - m) \<le> 1"
    and "x < M \<Longrightarrow> 0 < (M - x) / (M - m)" and "m < x \<Longrightarrow> (M - x) / (M - m) < 1"
  using channels(2) [OF assms(1,2) refl refl] assms by (simp_all add: field_simps)



lemma sector_even:
  assumes "0 \<le> m" and "m \<le> x" and "x < M" and "n < 6" and "h = of_nat n + (1 - (M - x) / (M - m))"
  shows "\<exists>q. hsv_to_rgb rat_colour (cfmod1 rat_colour (h / 6)) ((M - m) / M) M =
    [rgb_of rat_colour M x m, rgb_of rat_colour q M m, rgb_of rat_colour m M x, rgb_of rat_colour m q M,
     rgb_of rat_colour x m M, rgb_of rat_colour M m q] ! n"
proof -
  let ?e = "(M - x) / (M - m)"
  have m: "m < M" using assms(2,3) by simp
  note c = third_channel [OF assms(1) m assms(2) order_less_imp_le [OF assms(3)]]
  have f: "0 \<le> 1 - ?e" "1 - ?e < 1" using c(3) c(4) [OF assms(3)] by simp_all
  have t: "M * (1 - (M - m) / M * (1 - (1 - ?e))) = x" unfolding diff_diff_eq2 using c(1) by (simp only: add_diff_cancel_left')
  show ?thesis unfolding sector_back [OF assms(1) m f assms(4,5)] Let_def t by blast
qed

lemma sector_odd:
  assumes "0 \<le> m" and "m < x" and "x \<le> M" and "n < 6" and "h = of_nat n + (M - x) / (M - m)"
  shows "\<exists>t. hsv_to_rgb rat_colour (cfmod1 rat_colour (h / 6)) ((M - m) / M) M =
    [rgb_of rat_colour M t m, rgb_of rat_colour x M m, rgb_of rat_colour m M t, rgb_of rat_colour m x M,
     rgb_of rat_colour t m M, rgb_of rat_colour M m x] ! n"
proof -
  have m: "m < M" using assms(2,3) by simp
  note c = third_channel [OF assms(1) m order_less_imp_le [OF assms(2)] assms(3)]
  show ?thesis unfolding sector_back [OF assms(1) m c(2) c(5) [OF assms(2)] assms(4,5)] Let_def c(1) by blast
qed

lemma unsigned_le: "r \<le> w \<Longrightarrow> (unsigned (r :: uint32_t) :: rat) \<le> unsigned w"
  using of_int_le_iff [of "uint r" "uint w", where ?'a = rat] by (simp only: of_int_uint word_le_def)

section \<open>Properties\<close>

text \<open>In exact arithmetic, a colour converted to HSV and back is the same, unless red is the greatest channel and blue is greater than
  green.\<close>

theorem rgb_hsv_roundtrip:
  assumes "\<not> (b \<le> r \<and> g < b)"
  shows "(let c = rgb_to_hsv rat_colour r g b in hsv_to_rgb rat_colour (hsv_h c) (hsv_s c) (hsv_v c)) = Some \<lparr>rgb_r = r, rgb_g = g, rgb_b = b\<rparr>"
proof -
  consider "r = g" "g = b" | "b \<le> g" "g < r" | "b < r" "g = r" | "b \<le> r" "r < g" | "r < b" "b \<le> g" | "g \<le> r" "r < b" | "r < g" "g < b"
    using assms by fastforce
  then show ?thesis
  proof cases
    case 1
    then show ?thesis using rgb_to_hsv_gray [OF 1] by (simp add: hsv_to_rgb_def rat_colour_def) (simp add: rgb_of_def)
  next
    case 2
    then show ?thesis
      using rgb_to_hsv_hue(1) [of b g r] sector_even [OF unsigned_nonneg unsigned_le [OF 2(1)] unsigned_less [OF 2(2)], of 0 _]
      by auto
  next
    case 3
    then show ?thesis
      using rgb_to_hsv_hue(1) [of b g r] sector_odd [OF unsigned_nonneg unsigned_less [OF 3(1)] order_refl, of 1 _] by auto
  next
    case 4
    show ?thesis
    proof (cases "b = r")
      case True
      then show ?thesis
        using 4 rgb_to_hsv_hue(2) [of b r g] sector_even [OF unsigned_nonneg order_refl unsigned_less [OF 4(2)], of 2 _] unsigned_less [OF 4(2)] by auto
    next
      case False
      then have "b < r" using 4(1) by simp
      then show ?thesis
        using 4 rgb_to_hsv_hue(2) [of b r g] sector_odd [OF unsigned_nonneg unsigned_less unsigned_le, of b r g 1 _] by auto
    qed
  next
    case 5
    show ?thesis
    proof (cases "b = g")
      case True
      then show ?thesis
        using 5 rgb_to_hsv_hue(3) [of r b g] sector_odd [OF unsigned_nonneg unsigned_less [OF 5(1)] order_refl, of 3 _] by auto
    next
      case False
      then have "b < g" using 5(2) by simp
      then show ?thesis
        using 5 rgb_to_hsv_hue(3) [of r b g] sector_even [OF unsigned_nonneg unsigned_le unsigned_less, of r b g 2 _] by auto
    qed
  next
    case 6
    then show ?thesis
      using rgb_to_hsv_hue(4) [of g r b] sector_even [OF unsigned_nonneg unsigned_le unsigned_less, of g r b 4 _] by auto
  next
    case 7
    then show ?thesis
      using rgb_to_hsv_hue(5) [of r g b] sector_odd [OF unsigned_nonneg unsigned_less unsigned_le, of r g b 3 _] by auto
  qed
qed

theorem rgb_hsv_roundtrip_witness:
  "(let c = rgb_to_hsv rat_colour 12 200 77 in hsv_to_rgb rat_colour (hsv_h c) (hsv_s c) (hsv_v c)) = Some \<lparr>rgb_r = 12, rgb_g = 200, rgb_b = 77\<rparr>"
  by (rule rgb_hsv_roundtrip) simp

section \<open>The gradient\<close>

lemma sixth: "\<lfloor>1 / 6 :: rat\<rfloor> = 0" "\<lceil>- (1 / 6) :: rat\<rceil> = 0"
  by (simp_all add: floor_eq_iff ceiling_eq_iff)

lemma gradient_ends:
  "init_gradient_HSV_color rat_colour = (\<lparr>hsv_h = 1 / 6, hsv_s = 1, hsv_v = 255\<rparr>, \<lparr>hsv_h = 0, hsv_s = 1, hsv_v = 255\<rparr>)"
  by (simp add: init_gradient_HSV_color_def rgb_to_hsv_def rat_colour_def of_uint_def Let_def trunc_rat_def sixth)

text \<open>An intensity from 0 to the maximum goes from yellow to red.\<close>

lemma intensity_green:
  assumes "0 \<le> x" and "x \<le> m" and "0 < m"
  shows "intensity_to_rgb rat_colour (init_gradient_HSV_color rat_colour) x m =
    Some (0xFF0000 OR push_bit 8 (word_of_int \<lfloor>255 * (1 - x / m)\<rfloor>))"
proof -
  let ?f = "1 - x / m"
  have f: "0 \<le> ?f" "?f \<le> 1" using assms by simp_all
  then have t: "to_uint (trunc_rat (255 * ?f)) = Some (word_of_int \<lfloor>255 * ?f\<rfloor>)"
    by (simp add: trunc_rat_def to_uint_def floor_less_iff)
  have c: "HSV_transition3 (ca rat_colour) x m (fst (init_gradient_HSV_color rat_colour)) (snd (init_gradient_HSV_color rat_colour)) =
      \<lparr>hsv_h = ?f / 6, hsv_s = 1, hsv_v = 255\<rparr>"
    using assms unfolding gradient_ends by (simp add: HSV_transition3_def HSV_transition_def rat_colour_def field_simps)
  have z: "to_uint (trunc_rat 0) = Some 0" "to_uint (trunc_rat 255) = Some 255" by (simp_all add: trunc_rat_def to_uint_def)
  have "hsv_to_rgb rat_colour (?f / 6) 1 255 = Some \<lparr>rgb_r = 255, rgb_g = word_of_int \<lfloor>255 * ?f\<rfloor>, rgb_b = 0\<rparr>"
  proof (cases "x = 0")
    case True
    then show ?thesis using hsv_to_rgb_sector [of 1 "1 / 6" 1 0 255] z by (simp add: rgb_of_def rat_colour_def Let_def)
  next
    case False
    then have "?f < 1" using assms by simp
    then show ?thesis using hsv_to_rgb_sector [of 1 "?f / 6" 0 ?f 255] f t z by (simp add: rgb_of_def rat_colour_def Let_def)
  qed
  then show ?thesis by (simp add: intensity_to_rgb_def c push_bit_eq_mult)
qed

text \<open>Magenta: the hue is negative, because fmod keeps the sign, and its conversion to an unsigned integer is undefined.\<close>

lemma magenta_undefined:
  "hsv_h (rgb_to_hsv rat_colour 255 0 255) < 0" "hsv_to_rgb rat_colour (hsv_h (rgb_to_hsv rat_colour 255 0 255)) 1 255 = None"
  by (simp_all add: rgb_to_hsv_def hsv_to_rgb_def rat_colour_def of_uint_def Let_def trunc_rat_def to_uint_def sixth)
end
