(* ===== verification/Task_Trees.thy ===== *)
theory Task_Trees
  imports Monitor_Stats Graph_Colouring
begin

text \<open>
  The trees of tasks that the monitor writes: print\_node, print\_edges and print\_treeture of
  src/components/monitor\_component.cpp.  The lines of the file are the nodes with their labels and colours and the edges between labels;
  the format of a number is a parameter.  The recursion over the graph of dependencies has fuel, and None stands for a
  recursion that needs more, or for a colour that is not defined.
\<close>

datatype dot_line = Dot_node string uint32_t | Dot_edge string string

definition children_of :: "(string \<times> string list) list \<Rightarrow> string \<Rightarrow> string list" where
  "children_of g node = (case map_of g node of None \<Rightarrow> [] | Some cs \<Rightarrow> cs)"

text \<open>The label of a node: its id, a name, and its times.\<close>

definition times_label :: "('f \<Rightarrow> string) \<Rightarrow> 'f work_item_stats \<Rightarrow> string" where
  "times_label sci p = CHR 0x5C # ''n Texcl = '' @ sci (ws_exclusive_time p) @ CHR 0x5C # ''n Tincl = '' @ sci (ws_inclusive_time p)"

definition node_label :: "('f \<Rightarrow> string) \<Rightarrow> string \<Rightarrow> string \<Rightarrow> 'f work_item_stats \<Rightarrow> string" where
  "node_label sci i name p = i @ '' '' @ name @ times_label sci p"

fun print_node :: "'f colour_fpu \<Rightarrow> ('f \<Rightarrow> string) \<Rightarrow> 'f \<Rightarrow> (string \<times> 'f work_item_stats) list \<Rightarrow> (string \<times> string list) list \<Rightarrow> nat \<Rightarrow> string \<Rightarrow>
    dot_line list option" where
  "print_node C sci tree_time stats g 0 node = (case map_of stats node of None \<Rightarrow> Some [] | Some p \<Rightarrow> None)"
| "print_node C sci tree_time stats g (Suc n) node =
    (case map_of stats node of
       None \<Rightarrow> Some []
     | Some p \<Rightarrow> do {
         colour \<leftarrow> intensity_to_rgb C (init_gradient_HSV_color C) (ws_exclusive_time p) tree_time;
         below \<leftarrow> those (map (print_node C sci tree_time stats g n) (children_of g node));
         Some (Dot_node (node_label sci node (ws_name p) p) colour # concat below)})"

text \<open>The label of the child has the name of the parent.\<close>

fun print_edges :: "('f \<Rightarrow> string) \<Rightarrow> (string \<times> 'f work_item_stats) list \<Rightarrow> (string \<times> string list) list \<Rightarrow> nat \<Rightarrow> string \<Rightarrow> dot_line list option" where
  "print_edges sci stats g 0 node = (case map_of stats node of None \<Rightarrow> Some [] | Some p \<Rightarrow> None)"
| "print_edges sci stats g (Suc n) node =
    (case map_of stats node of
       None \<Rightarrow> Some []
     | Some p \<Rightarrow> map_option concat (those (map (\<lambda>child.
         case map_of stats child of
           None \<Rightarrow> Some []
         | Some q \<Rightarrow> map_option (\<lambda>below. Dot_edge (node_label sci node (ws_name p) p) (node_label sci child (ws_name p) q) # below)
             (print_edges sci stats g n child)) (children_of g node))))"

definition print_treeture :: "'f colour_fpu \<Rightarrow> ('f \<Rightarrow> string) \<Rightarrow> nat \<Rightarrow> string \<Rightarrow> 'f \<Rightarrow> (string \<times> 'f work_item_stats) list \<Rightarrow>
    (string \<times> string list) list \<Rightarrow> dot_line list option" where
  "print_treeture C sci fuel root_id tree_time stats g = do {
     nodes \<leftarrow> print_node C sci tree_time stats g fuel root_id;
     edges \<leftarrow> print_edges sci stats g fuel root_id;
     Some (nodes @ edges)}"

section \<open>The recursion ends\<close>

text \<open>The id of a child is longer than that of its parent, as a path in the tree of tasks is.\<close>

definition ids_grow :: "(string \<times> 'f work_item_stats) list \<Rightarrow> (string \<times> string list) list \<Rightarrow> bool" where
  "ids_grow stats g \<longleftrightarrow> (\<forall>i c. c \<in> set (children_of g i) \<longrightarrow> map_of stats c \<noteq> None \<longrightarrow> length i < length c)"

definition longest_id :: "(string \<times> 'f work_item_stats) list \<Rightarrow> nat" where
  "longest_id stats = Max (insert 0 (length ` fst ` set stats))"

lemma longest_id: "map_of stats i \<noteq> None \<Longrightarrow> length i \<le> longest_id stats"
proof -
  assume "map_of stats i \<noteq> None"
  then obtain p where "(i, p) \<in> set stats" by (auto dest: map_of_SomeD)
  then have "length i \<in> length ` fst ` set stats" by force
  then show ?thesis by (simp add: longest_id_def)
qed

definition colours_defined :: "'f colour_fpu \<Rightarrow> 'f \<Rightarrow> (string \<times> 'f work_item_stats) list \<Rightarrow> bool" where
  "colours_defined C tree_time stats \<longleftrightarrow>
    (\<forall>i p. map_of stats i = Some p \<longrightarrow> intensity_to_rgb C (init_gradient_HSV_color C) (ws_exclusive_time p) tree_time \<noteq> None)"

lemma child_is_deeper:
  "\<lbrakk>ids_grow stats g; c \<in> set (children_of g i); longest_id stats < length i + Suc n\<rbrakk> \<Longrightarrow>
    map_of stats c = None \<or> longest_id stats < length c + n"
  by (cases "map_of stats c") (auto simp: ids_grow_def, fastforce)

lemma those_Some: "\<forall>x \<in> set xs. f x \<noteq> None \<Longrightarrow> those (map f xs) = Some (map (\<lambda>x. the (f x)) xs)"
  by (induction xs) auto

lemma print_node_returns:
  assumes "ids_grow stats g" and "colours_defined C tree_time stats"
  shows "map_of stats node = None \<or> longest_id stats < length node + n \<Longrightarrow> print_node C sci tree_time stats g n node \<noteq> None"
proof (induction n arbitrary: node)
  case 0
  then show ?case using longest_id [of stats node] by (cases "map_of stats node") auto
next
  case (Suc n)
  show ?case
  proof (cases "map_of stats node")
    case (Some p)
    have "print_node C sci tree_time stats g n c \<noteq> None" if "c \<in> set (children_of g node)" for c
      using Suc.IH [of c] child_is_deeper [OF assms(1) that, of n] Suc.prems Some by auto
    then obtain below where "those (map (print_node C sci tree_time stats g n) (children_of g node)) = Some below"
      by (simp add: those_Some)
    moreover obtain colour where "intensity_to_rgb C (init_gradient_HSV_color C) (ws_exclusive_time p) tree_time = Some colour"
      using assms(2) Some unfolding colours_defined_def by blast
    ultimately show ?thesis using Some by simp
  qed simp
qed

lemma print_edges_returns:
  assumes "ids_grow stats g"
  shows "map_of stats node = None \<or> longest_id stats < length node + n \<Longrightarrow> print_edges sci stats g n node \<noteq> None"
proof (induction n arbitrary: node)
  case 0
  then show ?case using longest_id [of stats node] by (cases "map_of stats node") auto
next
  case (Suc n)
  show ?case
  proof (cases "map_of stats node")
    case (Some p)
    have "print_edges sci stats g n c \<noteq> None" if "c \<in> set (children_of g node)" for c
      using Suc.IH child_is_deeper [OF assms that] Suc.prems Some by simp
    then show ?thesis using Some by (auto simp: those_Some split: option.splits)
  qed simp
qed

text \<open>When the ids of the dependency graph grow from parent to child, as the paths of tasks do, the tree of every
  iteration is written: the two recursions end after as many levels as the longest id has characters.\<close>

lemma trees_are_written:
  assumes "ids_grow stats g" and "colours_defined C tree_time stats" and "longest_id stats < fuel"
  shows "print_treeture C sci fuel root_id tree_time stats g \<noteq> None"
proof -
  obtain ns es where "print_node C sci tree_time stats g fuel root_id = Some ns" "print_edges sci stats g fuel root_id = Some es"
    using print_node_returns [OF assms(1,2)] print_edges_returns [OF assms(1)] assms(3) by (metis not_None_eq trans_less_add2)
  then show ?thesis by (simp add: print_treeture_def)
qed

section \<open>Edges and nodes\<close>

text \<open>Where all tasks have the same name, every edge joins two nodes of the file.\<close>

definition same_names :: "(string \<times> 'f work_item_stats) list \<Rightarrow> bool" where
  "same_names stats \<longleftrightarrow> (\<forall>i j p q. map_of stats i = Some p \<longrightarrow> map_of stats j = Some q \<longrightarrow> ws_name p = ws_name q)"

definition declared :: "dot_line list \<Rightarrow> string \<Rightarrow> bool" where
  "declared ns l \<longleftrightarrow> (\<exists>colour. Dot_node l colour \<in> set ns)"

lemma declared_simps [simp]:
  "declared (Dot_node l c # ns) m \<longleftrightarrow> l = m \<or> declared ns m" "declared (concat nss) m \<longleftrightarrow> (\<exists>ns \<in> set nss. declared ns m)"
  by (auto simp: declared_def)

lemma those_set: "those xs = Some ys \<Longrightarrow> y \<in> set ys \<longleftrightarrow> Some y \<in> set xs"
  by (induction xs arbitrary: ys) (auto split: option.splits)

lemma those_Some_children:
  "\<lbrakk>those (map f xs) = Some ys; x \<in> set xs\<rbrakk> \<Longrightarrow> \<exists>y. f x = Some y \<and> y \<in> set ys"
  by (induction xs arbitrary: ys) (auto split: option.splits)

lemma node_declared:
  "\<lbrakk>print_node C sci tree_time stats g n node = Some ns; map_of stats node = Some p\<rbrakk> \<Longrightarrow> declared ns (node_label sci node (ws_name p) p)"
  by (cases n) (auto split: bind_splits)

lemma edges_between_nodes:
  "\<lbrakk>same_names stats; print_node C sci tree_time stats g n node = Some ns; print_edges sci stats g n node = Some es; Dot_edge a b \<in> set es\<rbrakk> \<Longrightarrow>
    declared ns a \<and> declared ns b"
proof (induction n arbitrary: node ns es)
  case 0
  then show ?case by (auto split: option.splits)
next
  case (Suc n)
  show ?case
  proof (cases "map_of stats node")
    case None
    then show ?thesis using Suc.prems by simp
  next
    case (Some p)
    obtain colour below where below: "those (map (print_node C sci tree_time stats g n) (children_of g node)) = Some below"
      and ns: "ns = Dot_node (node_label sci node (ws_name p) p) colour # concat below"
      using Suc.prems(2) Some by (auto split: bind_splits)
    let ?child = "\<lambda>c. case map_of stats c of None \<Rightarrow> Some []
        | Some q \<Rightarrow> map_option (\<lambda>es. Dot_edge (node_label sci node (ws_name p) p) (node_label sci c (ws_name p) q) # es) (print_edges sci stats g n c)"
    obtain ess where ess: "those (map ?child (children_of g node)) = Some ess" and es: "es = concat ess"
      using Suc.prems(3) Some by auto
    obtain el where "el \<in> set ess" and el: "Dot_edge a b \<in> set el" using Suc.prems(4) es by auto
    then obtain c where c: "c \<in> set (children_of g node)" and childc: "?child c = Some el" using those_set [OF ess, of el] by auto
    then obtain q es' where q: "map_of stats c = Some q" and es': "print_edges sci stats g n c = Some es'"
      and e: "Dot_edge a b \<in> insert (Dot_edge (node_label sci node (ws_name p) p) (node_label sci c (ws_name p) q)) (set es')"
      using el by (cases "map_of stats c"; cases "print_edges sci stats g n c") auto
    obtain ns' where ns': "print_node C sci tree_time stats g n c = Some ns'" "ns' \<in> set below"
      using those_Some_children [OF below c] by blast
    have "ws_name p = ws_name q" using Suc.prems(1) Some q unfolding same_names_def by blast
    then have "declared ns (node_label sci c (ws_name p) q)" using node_declared [OF ns'(1) q] ns ns'(2) by auto
    moreover have "declared ns a \<and> declared ns b" if "Dot_edge a b \<in> set es'"
      using Suc.IH [OF Suc.prems(1) ns'(1) es' that] ns ns'(2) by auto
    moreover have "declared ns (node_label sci node (ws_name p) p)" using ns by simp
    ultimately show ?thesis using e by blast
  qed
qed

text \<open>Otherwise an edge can lead to a node that is not declared: the label of a child has the name of its parent.\<close>

definition two_names :: "'f \<Rightarrow> (string \<times> 'f work_item_stats) list" where
  "two_names z = [(''0'', \<lparr>ws_id = ''0'', ws_name = ''f'', ws_exclusive_time = z, ws_inclusive_time = z, ws_children_mean = z, ws_children_SD = z\<rparr>),
     (''0.0'', \<lparr>ws_id = ''0.0'', ws_name = ''g'', ws_exclusive_time = z, ws_inclusive_time = z, ws_children_mean = z, ws_children_SD = z\<rparr>)]"

lemma edge_to_undeclared:
  assumes "print_node C sci tree_time (two_names z) [(''0'', [''0.0''])] 2 ''0'' = Some ns"
  shows "\<exists>a b. print_edges sci (two_names z) [(''0'', [''0.0''])] 2 ''0'' = Some [Dot_edge a b] \<and> \<not> declared ns b"
  using assms by (auto simp: two_names_def children_of_def node_label_def numeral_2_eq_2 declared_def split: bind_splits)
end
