(* ===== verification/Json_Text.thy ===== *)
theory Json_Text
  imports Prelude
begin

text \<open>
  The text of JSON messages, and of the numbers in them and in the commands that come back: std::to\_string of an integer, std::stol,
  and htobe64 and be64toh, which put the length of a message in front of it.

  is\_json is the reference for what the dashboard sends: the grammar of RFC 8259 with strings of plain characters only and blanks
  around colons only.
\<close>

section \<open>Decimal numbers\<close>

definition digit_char :: "nat \<Rightarrow> char" where
  "digit_char d = char_of (48 + d)"

definition is_digit :: "char \<Rightarrow> bool" where
  "is_digit c \<longleftrightarrow> 48 \<le> (of_char c :: nat) \<and> (of_char c :: nat) \<le> 57"

definition digit_val :: "char \<Rightarrow> nat" where
  "digit_val c = of_char c - 48"

text \<open>std::to\_string of an unsigned and of a signed integer.\<close>

fun to_string_nat :: "nat \<Rightarrow> string" where
  "to_string_nat n = (if n < 10 then [digit_char n] else to_string_nat (n div 10) @ [digit_char (n mod 10)])"

declare to_string_nat.simps [simp del]

definition to_string_int :: "int \<Rightarrow> string" where
  "to_string_int i = (if i < 0 then CHR ''-'' # to_string_nat (nat (- i)) else to_string_nat (nat i))"

definition digits_val :: "string \<Rightarrow> nat" where
  "digits_val s = foldl (\<lambda>n c. 10 * n + digit_val c) 0 s"

definition is_space :: "char \<Rightarrow> bool" where
  "is_space c \<longleftrightarrow> of_char c = (32 :: nat) \<or> 9 \<le> (of_char c :: nat) \<and> (of_char c :: nat) \<le> 13"

text \<open>std::stol: None is the exception for a text without a number, or with one that is no 64 bit integer.  What follows
  the number is ignored.\<close>

definition stol :: "string \<Rightarrow> int option" where
  "stol s =
    (let s = dropWhile is_space s;
         neg = (s \<noteq> [] \<and> hd s = CHR ''-'');
         s = (if s \<noteq> [] \<and> (hd s = CHR ''-'' \<or> hd s = CHR ''+'') then tl s else s);
         ds = takeWhile is_digit s;
         i = (if neg then - int (digits_val ds) else int (digits_val ds))
     in if ds = [] \<or> i < - (2 ^ 63) \<or> 2 ^ 63 \<le> i then None else Some i)"

lemma of_digit_char: "d < 10 \<Longrightarrow> of_char (digit_char d) = 48 + d"
  by (simp add: digit_char_def)

lemma digit_char [simp]: "d < 10 \<Longrightarrow> is_digit (digit_char d)" "d < 10 \<Longrightarrow> digit_val (digit_char d) = d"
  by (simp_all add: is_digit_def digit_val_def of_digit_char)

lemma digits_val_snoc [simp]: "digits_val (s @ [c]) = 10 * digits_val s + digit_val c"
  by (simp add: digits_val_def)

lemma to_string_digits: "list_all is_digit (to_string_nat n)" "to_string_nat n \<noteq> []"
  by (induction n rule: to_string_nat.induct) (subst to_string_nat.simps; simp)+

lemma digits_val_to_string [simp]: "digits_val (to_string_nat n) = n"
proof (induction n rule: to_string_nat.induct)
  case (1 n)
  then show ?case using digits_val_snoc [of "[]"] by (subst to_string_nat.simps) (simp add: digits_val_def)
qed

lemma is_digit_not: "is_digit c \<Longrightarrow> \<not> is_space c \<and> c \<noteq> CHR ''-'' \<and> c \<noteq> CHR ''+'' \<and> c \<noteq> CHR 0x22 \<and> c \<noteq> CHR '' ''"
  by (auto simp: is_digit_def is_space_def)

lemma stol_to_string:
  assumes "n < 2 ^ 63"
  shows "stol (to_string_nat n) = Some (int n)"
proof -
  obtain c cs where s: "to_string_nat n = c # cs" using to_string_digits(2) by (cases "to_string_nat n") auto
  then have c: "is_digit c" using to_string_digits(1) [of n] by simp
  have "dropWhile is_space (to_string_nat n) = to_string_nat n" using s is_digit_not [OF c] by simp
  moreover have "takeWhile is_digit (to_string_nat n) = to_string_nat n"
    using to_string_digits(1) [of n] by (auto simp: takeWhile_eq_all_conv list_all_iff)
  moreover have "int n < 2 ^ 63" using assms by (metis of_nat_less_iff of_nat_numeral of_nat_power)
  moreover have "digits_val (c # cs) = n" using s digits_val_to_string [of n] by simp
  ultimately show ?thesis using is_digit_not [OF c] s assms by (simp add: stol_def Let_def)
qed

section \<open>Lengths in front of messages\<close>

text \<open>A number of 64 bits in eight bytes, the greatest first.\<close>

definition be64 :: "nat \<Rightarrow> string" where
  "be64 n = map (\<lambda>i. char_of (n div 256 ^ (7 - i) mod 256)) [0..<8]"

definition read_be64 :: "string \<Rightarrow> nat" where
  "read_be64 s = foldl (\<lambda>n c. 256 * n + of_char c) 0 s"

lemma length_be64 [simp]: "length (be64 n) = 8"
  by (simp add: be64_def)

lemma read_be64_prefix:
  assumes "n < 256 ^ k" and "m \<le> k"
  shows "read_be64 (map (\<lambda>i. char_of (n div 256 ^ (k - 1 - i) mod 256)) [0..<m]) = n div 256 ^ (k - m)"
  using assms(2)
proof (induction m)
  case 0
  then show ?case using assms(1) by (simp add: read_be64_def)
next
  case (Suc m)
  let ?d = "(256 :: nat) ^ (k - Suc m)"
  have "n div (256 * ?d) = n div ?d div 256" by (metis div_mult2_eq mult.commute)
  moreover have "k - m = Suc (k - Suc m)" using Suc.prems by simp
  ultimately show ?case using Suc by (simp add: read_be64_def)
qed

lemma read_be64 [simp]: "n < 2 ^ 64 \<Longrightarrow> read_be64 (be64 n) = n"
  using read_be64_prefix [of n 8 8] by (simp add: be64_def)

section \<open>The grammar\<close>

definition json_number :: "string \<Rightarrow> bool" where
  "json_number s =
    (let s = (if s \<noteq> [] \<and> hd s = CHR ''-'' then tl s else s);
         ds = takeWhile is_digit s;
         rest = dropWhile is_digit s
     in ds \<noteq> [] \<and> (ds = ''0'' \<or> hd ds \<noteq> CHR ''0'') \<and> (rest = [] \<or> hd rest = CHR ''.'' \<and> tl rest \<noteq> [] \<and> list_all is_digit (tl rest)))"

text \<open>Characters that need no escape in a string.\<close>

definition plain :: "string \<Rightarrow> bool" where
  "plain s \<longleftrightarrow> list_all (\<lambda>c. 32 \<le> (of_char c :: nat) \<and> c \<noteq> CHR 0x22 \<and> c \<noteq> CHR 0x5C) s"

definition quoted :: "string \<Rightarrow> string" where
  "quoted s = CHR 0x22 # s @ [CHR 0x22]"

fun commas :: "string list \<Rightarrow> string" where
  "commas [] = []"
| "commas [s] = s"
| "commas (s # ss) = s @ CHR '','' # commas ss"

definition colon :: "string \<Rightarrow> bool" where
  "colon w \<longleftrightarrow> (\<exists>a b. w = replicate a CHR '' '' @ CHR '':'' # replicate b CHR '' '')"

fun member_text :: "string \<times> string \<times> string \<Rightarrow> string" where
  "member_text (k, w, v) = quoted k @ w @ v"

inductive is_json :: "string \<Rightarrow> bool" where
  json_num: "json_number s \<Longrightarrow> is_json s"
| json_string: "plain s \<Longrightarrow> is_json (quoted s)"
| json_array: "(\<And>e. e \<in> set es \<Longrightarrow> is_json e) \<Longrightarrow> is_json (CHR ''['' # commas es @ '']'')"
| json_object: "(\<And>k w v. (k, w, v) \<in> set ms \<Longrightarrow> plain k \<and> colon w \<and> is_json v) \<Longrightarrow> is_json (CHR ''{'' # commas (map member_text ms) @ ''}'')"

lemma colons [simp]: "colon '':''" "colon '': ''" "colon '' : ''"
proof -
  have "'':'' = replicate 0 CHR '' '' @ CHR '':'' # replicate 0 CHR '' ''" "'': '' = replicate 0 CHR '' '' @ CHR '':'' # replicate 1 CHR '' ''"
    "'' : '' = replicate 1 CHR '' '' @ CHR '':'' # replicate 1 CHR '' ''" by simp_all
  then show "colon '':''" "colon '': ''" "colon '' : ''" unfolding colon_def by metis+
qed

lemma to_string_head: "n \<noteq> 0 \<Longrightarrow> hd (to_string_nat n) \<noteq> CHR ''0''"
proof (induction n rule: to_string_nat.induct)
  case (1 n)
  show ?case
  proof (cases "n < 10")
    case True
    have "of_char (digit_char n) \<noteq> (48 :: nat)" using True 1(2) by (simp add: of_digit_char)
    then have "digit_char n \<noteq> CHR ''0''" by auto
    then show ?thesis using True by (simp add: to_string_nat.simps)
  next
    case False
    then show ?thesis using 1(1) to_string_digits(2) [of "n div 10"] by (simp add: to_string_nat.simps [of n])
  qed
qed

lemma number_to_string [simp]: "json_number (to_string_nat n)"
proof -
  obtain c cs where s: "to_string_nat n = c # cs" using to_string_digits(2) by (cases "to_string_nat n") auto
  have d: "takeWhile is_digit (to_string_nat n) = to_string_nat n" "dropWhile is_digit (to_string_nat n) = []"
    using to_string_digits(1) [of n] by (auto simp: takeWhile_eq_all_conv dropWhile_eq_Nil_conv list_all_iff)
  have "is_digit c" using s to_string_digits(1) [of n] by simp
  then have "hd (to_string_nat n) \<noteq> CHR ''-''" using is_digit_not s by simp
  moreover have "to_string_nat n = ''0'' \<or> hd (to_string_nat n) \<noteq> CHR ''0''"
    using to_string_head [of n] by (cases "n = 0") (simp_all add: to_string_nat.simps digit_char_def)
  moreover have "\<forall>c \<in> set (to_string_nat n). is_digit c" using to_string_digits(1) [of n] by (simp add: list_all_iff)
  ultimately show ?thesis using to_string_digits(2) [of n] by (simp add: json_number_def Let_def d)
qed

lemma number_to_string_int [simp]: "json_number (to_string_int i)"
proof (cases "i < 0")
  case True
  obtain c cs where s: "to_string_nat (nat (- i)) = c # cs" using to_string_digits(2) by (cases "to_string_nat (nat (- i))") auto
  then have "c \<noteq> CHR ''-''" using to_string_digits(1) [of "nat (- i)"] is_digit_not by force
  then show ?thesis using True number_to_string [of "nat (- i)"] s by (simp add: to_string_int_def json_number_def)
next
  case False
  then show ?thesis by (simp add: to_string_int_def)
qed

text \<open>A list that is written with a comma after each element and whose last comma is replaced.\<close>

lemma butlast_commas: "ss \<noteq> [] \<Longrightarrow> butlast (concat (map (\<lambda>s. s @ '','') ss)) = commas ss"
  by (induction ss rule: commas.induct) (auto simp: butlast_append)

end
