(* ===== verification/Dashboard.thy ===== *)
theory Dashboard
  imports Data_Items Json_Text
begin

text \<open>
  The dashboard: src/src/dashboard.cpp with allscale/dashboard.hpp, and the report of what a locality owns, of
  src/src/data\_item/get\_ownership\_json.cpp and allscale/data\_item\_manager/data\_item.hpp.

  A number of floating point is shown by a parameter, show\_f, and converted to 64 bits by another.  A message is the list of the bytes that
  are sent.  The commands that come back are in the theory Dashboard\_Commands.
\<close>

section \<open>States\<close>

record 'f node_state =
  ns_rank :: uint64_t
  ns_time :: uint64_t
  ns_online :: bool
  ns_active :: bool
  ns_num_cores :: int
  ns_cpu_load :: 'f
  ns_max_frequency :: uint64_t
  ns_cur_frequency :: uint64_t
  ns_memory_load :: uint64_t
  ns_total_memory :: uint64_t
  ns_task_throughput :: 'f
  ns_weighted_task_throughput :: 'f
  ns_idle_rate :: 'f
  ns_network_in :: uint64_t
  ns_network_out :: uint64_t
  ns_ownership :: string
  ns_productive_cycles_per_second :: uint64_t
  ns_cur_power :: 'f
  ns_max_power :: 'f
  ns_speed :: 'f
  ns_efficiency :: 'f
  ns_power :: 'f

record 'f system_state =
  st_time :: uint64_t
  st_speed :: 'f
  st_efficiency :: 'f
  st_power :: 'f
  st_policy :: string
  st_speed_exponent :: 'f
  st_efficiency_exponent :: 'f
  st_power_exponent :: 'f
  st_nodes :: "'f node_state list"

text \<open>The initial values; the time of a node has none.\<close>

definition new_node_state :: "'f farith \<Rightarrow> uint64_t \<Rightarrow> 'f node_state" where
  "new_node_state F t =
    \<lparr>ns_rank = 0, ns_time = t, ns_online = False, ns_active = False, ns_num_cores = 1, ns_cpu_load = flit F 0 1, ns_max_frequency = 1,
     ns_cur_frequency = 1, ns_memory_load = 0, ns_total_memory = 0, ns_task_throughput = flit F 0 1, ns_weighted_task_throughput = flit F 0 1,
     ns_idle_rate = flit F 0 1, ns_network_in = 0, ns_network_out = 0, ns_ownership = [], ns_productive_cycles_per_second = 0,
     ns_cur_power = fof_int F 0, ns_max_power = fof_int F 0, ns_speed = fof_int F 0, ns_efficiency = fof_int F 0, ns_power = fof_int F 0\<rparr>"

definition new_system_state :: "'f farith \<Rightarrow> string \<Rightarrow> 'f system_state" where
  "new_system_state F policy =
    \<lparr>st_time = 0, st_speed = fof_int F 0, st_efficiency = fof_int F 0, st_power = fof_int F 0, st_policy = policy,
     st_speed_exponent = flit F 0 1, st_efficiency_exponent = flit F 0 1, st_power_exponent = flit F 0 1, st_nodes = []\<rparr>"

text \<open>What the monitor and the scheduler of the locality report.\<close>

record 'f node_readings =
  rd_num_cpus :: int
  rd_cpu_load :: 'f
  rd_total_memory :: uint64_t
  rd_consumed_memory :: uint64_t
  rd_throughput :: 'f
  rd_weighted_throughput :: 'f
  rd_idle_rate :: 'f
  rd_network_in :: uint64_t
  rd_network_out :: uint64_t
  rd_current_freq :: uint64_t
  rd_max_freq :: uint64_t
  rd_active_threads :: size_t

definition of_u64 :: "'f farith \<Rightarrow> uint64_t \<Rightarrow> 'f" where
  "of_u64 F w = fof_int F (uint w)"

definition get_state :: "'f farith \<Rightarrow> ('f \<Rightarrow> uint64_t) \<Rightarrow> uint64_t \<Rightarrow> bool \<Rightarrow> string \<Rightarrow> 'f node_readings \<Rightarrow> uint64_t \<Rightarrow> 'f node_state" where
  "get_state F to_u64 rank active ownership r t =
    (let s = new_node_state F t;
         s = s\<lparr>ns_rank := rank, ns_online := True, ns_active := active, ns_num_cores := rd_num_cpus r, ns_cpu_load := rd_cpu_load r,
           ns_ownership := ownership, ns_total_memory := rd_total_memory r, ns_memory_load := rd_consumed_memory r,
           ns_task_throughput := rd_throughput r, ns_weighted_task_throughput := rd_weighted_throughput r, ns_idle_rate := rd_idle_rate r,
           ns_network_in := rd_network_in r, ns_network_out := rd_network_out r, ns_cur_frequency := rd_current_freq r,
           ns_max_frequency := rd_max_freq r\<rparr>;
         busy = fsub F (flit F 1 1) (ns_idle_rate s)
     in s\<lparr>ns_productive_cycles_per_second := to_u64 (fmul F (of_u64 F (ns_cur_frequency s)) busy), ns_speed := busy,
          ns_efficiency := fmul F busy (fdiv F (of_u64 F (ns_cur_frequency s * rd_active_threads r))
            (of_u64 F (ns_max_frequency s * word_of_int (ns_num_cores s))))\<rparr>)"

section \<open>What a locality owns\<close>

text \<open>The list of the boxes is joined by allscale::utils::join, which puts the separator between the texts.\<close>

fun box_json :: "('p \<Rightarrow> string) \<Rightarrow> 'p \<times> 'p \<Rightarrow> string" where
  "box_json show_p (mn, mx) = ''{'' @ quoted ''from'' @ '' : '' @ show_p mn @ '','' @ quoted ''to'' @ '' : '' @ show_p mx @ ''}''"

definition grid_json :: "('p \<Rightarrow> string) \<Rightarrow> data_item_id \<Rightarrow> nat \<Rightarrow> ('p \<times> 'p) list \<Rightarrow> string" where
  "grid_json show_p d dims boxes =
    (if boxes = [] then []
     else ''{'' @ quoted ''id'' @ '' : '' @ to_string_nat (unat (push_bit 32 (ucast (id_locality d)) OR ucast (id_number d) :: uint64_t)) @ '','' @
       quoted ''type'' @ '' : '' @ quoted (to_string_nat dims @ ''D-Grid'') @ '','' @
       quoted ''region'' @ '' : '' @ ''['' @ commas (map (box_json show_p) boxes) @ '']}'')"

definition get_ownership_json :: "string list \<Rightarrow> string" where
  "get_ownership_json items =
    (let res = ''['' @ concat (map (\<lambda>j. if j = [] then [] else j @ '','') items)
     in if length res = 1 then res @ '']'' else butlast res @ '']'')"

section \<open>Messages\<close>

definition field :: "string \<Rightarrow> string \<Rightarrow> string" where
  "field k v = quoted k @ '':'' @ v @ '',''"

definition u64_text :: "uint64_t \<Rightarrow> string" where
  "u64_text w = to_string_nat (unat w)"

definition node_json :: "('f \<Rightarrow> string) \<Rightarrow> 'f node_state \<Rightarrow> string" where
  "node_json show_f s =
    (let res = ''{'' @ quoted ''id'' @ '':'' @ u64_text (ns_rank s) @ '','';
         res = res @ field ''time'' (u64_text (ns_time s));
         res = res @ quoted ''state'' @ '':'' @ (if ns_online s then (if ns_active s then quoted ''active'' @ '','' else quoted ''standby'' @ '','') else quoted ''offline'')
     in if \<not> ns_online s then res @ ''}''
        else res @ field ''num_cores'' (to_string_int (ns_num_cores s)) @ field ''cpu_load'' (show_f (ns_cpu_load s)) @
          field ''max_frequency'' (u64_text (ns_max_frequency s)) @ field ''cur_frequency'' (u64_text (ns_cur_frequency s)) @
          field ''mem_load'' (u64_text (ns_memory_load s)) @ field ''total_memory'' (u64_text (ns_total_memory s)) @
          field ''task_throughput'' (show_f (ns_task_throughput s)) @
          field ''weighted_task_througput'' (show_f (ns_weighted_task_throughput s)) @
          field ''network_in'' (u64_text (ns_network_in s)) @ field ''network_out'' (u64_text (ns_network_out s)) @
          field ''idle_rate'' (show_f (ns_idle_rate s)) @
          field ''productive_cycles_per_second'' (u64_text (ns_productive_cycles_per_second s)) @
          field ''cur_power'' (show_f (ns_cur_power s)) @ field ''max_power'' (show_f (ns_max_power s)) @
          field ''speed'' (show_f (ns_speed s)) @ field ''efficiency'' (show_f (ns_efficiency s)) @ field ''power'' (show_f (ns_power s)) @
          quoted ''owned_data'' @ '':'' @ ns_ownership s @ ''}'')"

definition state_score :: "'f farith \<Rightarrow> ('f \<Rightarrow> 'f \<Rightarrow> 'f) \<Rightarrow> 'f system_state \<Rightarrow> 'f" where
  "state_score F pow_f s =
    fmul F (fmul F (pow_f (st_speed s) (st_speed_exponent s)) (pow_f (st_efficiency s) (st_efficiency_exponent s)))
      (pow_f (fsub F (fof_int F 1) (st_power s)) (st_power_exponent s))"

definition system_json :: "'f farith \<Rightarrow> ('f \<Rightarrow> 'f \<Rightarrow> 'f) \<Rightarrow> ('f \<Rightarrow> string) \<Rightarrow> 'f system_state \<Rightarrow> string" where
  "system_json F pow_f show_f s =
    (let res = ''{'' @ field ''type'' (quoted ''status'') @ field ''time'' (u64_text (st_time s)) @ field ''speed'' (show_f (st_speed s)) @
           field ''efficiency'' (show_f (st_efficiency s)) @ field ''power'' (show_f (st_power s)) @
           quoted ''objective_exponent'' @ '': {'' @ quoted ''speed'' @ '': '' @ show_f (st_speed_exponent s) @ '','' @
           quoted ''efficiency'' @ '': '' @ show_f (st_efficiency_exponent s) @ '','' @
           quoted ''power'' @ '': '' @ show_f (st_power_exponent s) @ ''},'' @
           field ''score'' (show_f (state_score F pow_f s)) @ quoted ''scheduler'' @ '': '' @ quoted (st_policy s) @ '','' @
           quoted ''nodes'' @ '':['' @ concat (map (\<lambda>n. node_json show_f n @ '','') (st_nodes s))
     in butlast res @ '']'' @ ''}'')"

text \<open>struct msg, as the bytes that are sent.\<close>

definition msg_bytes :: "string \<Rightarrow> string" where
  "msg_bytes json = be64 (length json) @ json"

section \<open>The client\<close>

record dashboard_client =
  dc_localities :: "nat list"
  dc_time :: uint64_t
  dc_enabled :: bool

text \<open>get\_system\_state: the localities that are asked.\<close>

definition survivors :: "(nat \<Rightarrow> bool) \<Rightarrow> dashboard_client \<Rightarrow> nat list" where
  "survivors running c = filter running (dc_localities c)"

text \<open>update: what is computed from the states of the nodes.\<close>

fun sum_nodes :: "'f farith \<Rightarrow> 'f node_state list \<Rightarrow> 'f \<times> 'f \<times> 'f \<times> 'f \<Rightarrow> 'f \<times> 'f \<times> 'f \<times> 'f" where
  "sum_nodes F [] acc = acc"
| "sum_nodes F (n # ns) (speed, efficiency, max_power, cur_power) =
    sum_nodes F ns
      (if ns_online n \<and> ns_active n
       then (fadd F speed (ns_speed n), fadd F efficiency (ns_efficiency n), fadd F max_power (ns_max_power n), fadd F cur_power (ns_cur_power n))
       else (speed, efficiency, fadd F max_power (ns_max_power n), cur_power))"

definition overall_state :: "'f farith \<Rightarrow> string \<Rightarrow> 'f \<times> 'f \<times> 'f \<Rightarrow> dashboard_client \<Rightarrow> 'f node_state list \<Rightarrow> 'f system_state" where
  "overall_state F policy exponents c nodes =
    (let z = flit F 0 1; n = fof_int F (int (length (dc_localities c)));
         (speed, efficiency, max_power, cur_power) = sum_nodes F nodes (z, z, z, z);
         (e1, e2, e3) = exponents
     in (new_system_state F policy)\<lparr>st_nodes := nodes, st_speed := fdiv F speed n, st_efficiency := fdiv F efficiency n,
          st_power := (if flt F (fof_int F 0) max_power then fdiv F cur_power max_power else fof_int F 0),
          st_speed_exponent := e1, st_efficiency_exponent := e2, st_power_exponent := e3\<rparr>)"

definition write_state :: "'f farith \<Rightarrow> ('f \<Rightarrow> 'f \<Rightarrow> 'f) \<Rightarrow> ('f \<Rightarrow> string) \<Rightarrow> 'f system_state \<Rightarrow> dashboard_client \<Rightarrow> string \<times> dashboard_client" where
  "write_state F pow_f show_f s c =
    (let s = s\<lparr>st_time := dc_time c, st_nodes := map (\<lambda>n. n\<lparr>ns_time := dc_time c\<rparr>) (st_nodes s)\<rparr>
     in (msg_bytes (system_json F pow_f show_f s), c\<lparr>dc_time := dc_time c + 1\<rparr>))"

text \<open>One round of update; None is an exception of the broadcast.\<close>

definition dashboard_update :: "'f farith \<Rightarrow> ('f \<Rightarrow> 'f \<Rightarrow> 'f) \<Rightarrow> ('f \<Rightarrow> string) \<Rightarrow> string \<Rightarrow> 'f \<times> 'f \<times> 'f \<Rightarrow> 'f node_state list option \<Rightarrow>
    dashboard_client \<Rightarrow> string \<times> dashboard_client" where
  "dashboard_update F pow_f show_f policy exponents nodes c =
    (case nodes of
       Some ns \<Rightarrow> if dc_enabled c then write_state F pow_f show_f (overall_state F policy exponents c ns) c else ([], c)
     | None \<Rightarrow> ([], c))"

text \<open>The last message; the time of a node is whatever the memory held.\<close>

definition dashboard_shutdown :: "'f farith \<Rightarrow> ('f \<Rightarrow> 'f \<Rightarrow> 'f) \<Rightarrow> ('f \<Rightarrow> string) \<Rightarrow> string \<Rightarrow> (nat \<Rightarrow> uint64_t) \<Rightarrow> dashboard_client \<Rightarrow> string \<times> dashboard_client" where
  "dashboard_shutdown F pow_f show_f policy memory c =
    (if \<not> dc_enabled c then ([], c)
     else
       (let s = new_system_state F policy;
            s = s\<lparr>st_speed := flit F 0 1, st_efficiency := flit F 0 1, st_power := flit F 0 1,
              st_nodes := map (\<lambda>loc. (new_node_state F (memory loc))\<lparr>ns_rank := word_of_nat loc, ns_online := False\<rparr>) (dc_localities c)\<rparr>
        in (msg_bytes (system_json F pow_f show_f s), c\<lparr>dc_enabled := False\<rparr>)))"

section \<open>Messages are JSON\<close>

lemma json_numbers [intro, simp]:
  "is_json (to_string_nat n)" "is_json (to_string_int i)" "is_json (u64_text w)"
  by (simp_all add: json_num u64_text_def)

lemma objectI:
  assumes "\<forall>(k, w, v) \<in> set ms. plain k \<and> colon w \<and> is_json v" and "s = CHR ''{'' # commas (map member_text ms) @ ''}''"
  shows "is_json s"
  using assms by (auto intro!: json_object)

lemma grid_is_json:
  assumes "\<forall>p. is_json (show_p p)" and "boxes \<noteq> []"
  shows "is_json (grid_json show_p d dims boxes)"
proof -
  have box: "is_json (box_json show_p b)" for b
    by (cases b, rule objectI [of "[(''from'', '' : '', show_p (fst b)), (''to'', '' : '', show_p (snd b))]"])
      (use assms(1) in \<open>auto simp: plain_def\<close>)
  have dims: "is_json (quoted (to_string_nat dims @ ''D-Grid''))"
  proof (rule json_string)
    have "plain (to_string_nat dims)"
      using to_string_digits(1) [of dims] by (auto simp: plain_def list_all_iff is_digit_def)
    then show "plain (to_string_nat dims @ ''D-Grid'')" by (simp add: plain_def)
  qed
  let ?id = "to_string_nat (unat (push_bit 32 (ucast (id_locality d)) OR ucast (id_number d) :: uint64_t))"
  show ?thesis
    by (rule objectI [of "[(''id'', '' : '', ?id), (''type'', '' : '', quoted (to_string_nat dims @ ''D-Grid'')),
          (''region'', '' : '', CHR ''['' # commas (map (box_json show_p) boxes) @ '']'')]"])
      (use assms dims in \<open>auto simp: plain_def grid_json_def intro!: json_array box\<close>)
qed

lemma concat_nonempty: "concat (map (\<lambda>j. if j = [] then [] else j @ '','') items) = concat (map (\<lambda>j. j @ '','') (filter (\<lambda>j. j \<noteq> []) items))"
  by (induction items) auto

lemma ownership_is_json:
  assumes "\<forall>j \<in> set items. j = [] \<or> is_json j"
  shows "is_json (get_ownership_json items)"
proof -
  let ?js = "filter (\<lambda>j. j \<noteq> []) items"
  have "get_ownership_json items = CHR ''['' # commas ?js @ '']''"
  proof (cases "?js = []")
    case True
    then show ?thesis by (simp add: get_ownership_json_def concat_nonempty)
  next
    case False
    then have "concat (map (\<lambda>j. j @ '','') ?js) \<noteq> []" by (cases ?js) auto
    then show ?thesis using butlast_commas [OF False] by (simp add: get_ownership_json_def concat_nonempty)
  qed
  then show ?thesis using assms by (auto intro!: json_array)
qed

text \<open>The numbers of a state that are shown are finite, so that they are written with digits.\<close>

definition node_shown :: "('f \<Rightarrow> string) \<Rightarrow> 'f node_state \<Rightarrow> bool" where
  "node_shown show_f s \<longleftrightarrow> list_all (\<lambda>x. json_number (show_f x))
    [ns_cpu_load s, ns_task_throughput s, ns_weighted_task_throughput s, ns_idle_rate s, ns_cur_power s, ns_max_power s, ns_speed s,
     ns_efficiency s, ns_power s]"

definition state_shown :: "'f farith \<Rightarrow> ('f \<Rightarrow> 'f \<Rightarrow> 'f) \<Rightarrow> ('f \<Rightarrow> string) \<Rightarrow> 'f system_state \<Rightarrow> bool" where
  "state_shown F pow_f show_f s \<longleftrightarrow> list_all (\<lambda>x. json_number (show_f x))
    [st_speed s, st_efficiency s, st_power s, st_speed_exponent s, st_efficiency_exponent s, st_power_exponent s, state_score F pow_f s]"

definition node_members :: "('f \<Rightarrow> string) \<Rightarrow> 'f node_state \<Rightarrow> (string \<times> string) list" where
  "node_members show_f s =
    [(''id'', u64_text (ns_rank s)), (''time'', u64_text (ns_time s)), (''state'', quoted (if ns_active s then ''active'' else ''standby'')),
     (''num_cores'', to_string_int (ns_num_cores s)), (''cpu_load'', show_f (ns_cpu_load s)),
     (''max_frequency'', u64_text (ns_max_frequency s)), (''cur_frequency'', u64_text (ns_cur_frequency s)),
     (''mem_load'', u64_text (ns_memory_load s)), (''total_memory'', u64_text (ns_total_memory s)),
     (''task_throughput'', show_f (ns_task_throughput s)), (''weighted_task_througput'', show_f (ns_weighted_task_throughput s)),
     (''network_in'', u64_text (ns_network_in s)), (''network_out'', u64_text (ns_network_out s)), (''idle_rate'', show_f (ns_idle_rate s)),
     (''productive_cycles_per_second'', u64_text (ns_productive_cycles_per_second s)), (''cur_power'', show_f (ns_cur_power s)),
     (''max_power'', show_f (ns_max_power s)), (''speed'', show_f (ns_speed s)), (''efficiency'', show_f (ns_efficiency s)),
     (''power'', show_f (ns_power s)), (''owned_data'', ns_ownership s)]"

lemma commas_members: "commas (map (\<lambda>(k, v). quoted k @ '':'' @ v) (ms @ [(k, v)])) = concat (map (\<lambda>(k, v). field k v) ms) @ quoted k @ '':'' @ v"
proof (induction ms)
  case (Cons m ms)
  obtain x xs where "map (\<lambda>(k, v). quoted k @ '':'' @ v) (ms @ [(k, v)]) = x # xs" by (cases ms) auto
  then show ?case using Cons by (cases m) (simp add: field_def)
qed simp

lemma membersI:
  assumes "list_all (\<lambda>(k, v). plain k \<and> is_json v) (ms @ [(k, v)])"
    and "s = ''{'' @ concat (map (\<lambda>(k, v). field k v) ms) @ quoted k @ '':'' @ v @ ''}''"
  shows "is_json s"
proof (rule objectI [of "map (\<lambda>(k, v). (k, '':'', v)) (ms @ [(k, v)])"])
  show "\<forall>(k, w, v) \<in> set (map (\<lambda>(k, v). (k, '':'', v)) (ms @ [(k, v)])). plain k \<and> colon w \<and> is_json v"
    using assms(1) by (auto simp: list_all_iff)
  have "map member_text (map (\<lambda>(k, v). (k, '':'', v)) (ms @ [(k, v)])) = map (\<lambda>(k, v). quoted k @ '':'' @ v) (ms @ [(k, v)])"
    by (simp add: case_prod_unfold comp_def)
  then show "s = CHR ''{'' # commas (map member_text (map (\<lambda>(k, v). (k, '':'', v)) (ms @ [(k, v)]))) @ ''}''"
    unfolding assms(2) by (simp only: commas_members) simp
qed

lemma member_keys: "list_all (\<lambda>(k, v). plain k) (node_members show_f s)"
  by (simp add: node_members_def) code_simp

lemma node_is_json:
  assumes "ns_online s \<longrightarrow> node_shown show_f s \<and> is_json (ns_ownership s)"
  shows "is_json (node_json show_f s)"
proof (cases "ns_online s")
  case True
  have st: "is_json (quoted (if ns_active s then ''active'' else ''standby''))" by (rule json_string) (simp add: plain_def)
  have v: "list_all (\<lambda>(k, v). is_json v) (node_members show_f s)"
    using st assms True by (simp add: node_members_def node_shown_def json_num)
  have m: "node_members show_f s = butlast (node_members show_f s) @ [(''owned_data'', ns_ownership s)]" by (simp add: node_members_def)
  show ?thesis
  proof (rule membersI)
    show "list_all (\<lambda>(k, v). plain k \<and> is_json v) (butlast (node_members show_f s) @ [(''owned_data'', ns_ownership s)])"
      using member_keys [of show_f s] v unfolding m [symmetric] by (auto simp: list_all_iff)
    show "node_json show_f s = ''{'' @ concat (map (\<lambda>(k, v). field k v) (butlast (node_members show_f s))) @ quoted ''owned_data'' @ '':'' @ ns_ownership s @ ''}''"
      using True by (cases "ns_active s") (simp_all add: node_members_def node_json_def field_def [of "''id''"] field_def [of "''state''"])
  qed
next
  case False
  have "is_json (quoted ''offline'')" by (rule json_string) (simp add: plain_def)
  then show ?thesis
    by (intro membersI [of "[(''id'', u64_text (ns_rank s)), (''time'', u64_text (ns_time s))]" "''state''"])
      (use False in \<open>simp_all add: plain_def node_json_def field_def\<close>)
qed

text \<open>C34: The status that the dashboard gets is a JSON text, for at least one node: names without quotes, what every locality owns as a JSON
  text, and no number that is infinite or not a number.\<close>

theorem status_is_json:
  assumes "st_nodes s \<noteq> []" and "plain (st_policy s)" and "state_shown F pow_f show_f s"
    and "\<forall>n \<in> set (st_nodes s). ns_online n \<longrightarrow> node_shown show_f n \<and> is_json (ns_ownership n)"
  shows "is_json (system_json F pow_f show_f s)"
proof -
  let ?nodes = "map (node_json show_f) (st_nodes s)"
  let ?exps = "[(''speed'', '': '', show_f (st_speed_exponent s)), (''efficiency'', '': '', show_f (st_efficiency_exponent s)),
    (''power'', '': '', show_f (st_power_exponent s))]"
  have nodes: "is_json (CHR ''['' # commas ?nodes @ '']'')"
    using assms(4) by (intro json_array) (auto intro: node_is_json)
  have exps: "is_json (CHR ''{'' # commas (map member_text ?exps) @ ''}'')"
    by (rule objectI [OF _ refl]) (use assms(3) in \<open>simp add: state_shown_def plain_def json_num\<close>)
  have names: "is_json (quoted ''status'')" "is_json (quoted (st_policy s))"
    by (rule json_string, simp add: plain_def) (rule json_string [OF assms(2)])
  have c: "concat (map (\<lambda>n. node_json show_f n @ '','') (st_nodes s)) = concat (map (\<lambda>j. j @ '','') ?nodes)" by (simp add: comp_def)
  have "concat (map (\<lambda>j. j @ '','') ?nodes) \<noteq> []" using assms(1) by (cases "st_nodes s") auto
  then have "system_json F pow_f show_f s = CHR ''{'' # commas (map member_text
      [(''type'', '':'', quoted ''status''), (''time'', '':'', u64_text (st_time s)), (''speed'', '':'', show_f (st_speed s)),
       (''efficiency'', '':'', show_f (st_efficiency s)), (''power'', '':'', show_f (st_power s)),
       (''objective_exponent'', '': '', CHR ''{'' # commas (map member_text ?exps) @ ''}''),
       (''score'', '':'', show_f (state_score F pow_f s)), (''scheduler'', '': '', quoted (st_policy s)),
       (''nodes'', '':'', CHR ''['' # commas ?nodes @ '']'')]) @ ''}''"
    using butlast_commas [of ?nodes] assms(1) unfolding system_json_def c by (simp add: field_def butlast_append Let_def)
  moreover have "is_json (CHR ''{'' # commas (map member_text
      [(''type'', '':'', quoted ''status''), (''time'', '':'', u64_text (st_time s)), (''speed'', '':'', show_f (st_speed s)),
       (''efficiency'', '':'', show_f (st_efficiency s)), (''power'', '':'', show_f (st_power s)),
       (''objective_exponent'', '': '', CHR ''{'' # commas (map member_text ?exps) @ ''}''),
       (''score'', '':'', show_f (state_score F pow_f s)), (''scheduler'', '': '', quoted (st_policy s)),
       (''nodes'', '':'', CHR ''['' # commas ?nodes @ '']'')]) @ ''}'')"
    by (rule objectI [OF _ refl]) (use nodes exps names assms(3) in \<open>simp add: state_shown_def plain_def json_num\<close>)
  ultimately show ?thesis by simp
qed

text \<open>Two nodes, one of them not on line; a number is shown as 1.5.\<close>

definition demo_status :: "rat system_state" where
  "demo_status = (new_system_state rat_arith ''ino'')\<lparr>st_nodes :=
     [(new_node_state rat_arith 3)\<lparr>ns_online := True, ns_ownership := get_ownership_json []\<rparr>, new_node_state rat_arith 3]\<rparr>"

theorem status_is_json_witness:
  "is_json (system_json rat_arith (\<lambda>x y. x) (\<lambda>x. ''1.5'') demo_status)"
proof (rule status_is_json)
  have n: "json_number ''1.5''" by code_simp
  show "state_shown rat_arith (\<lambda>x y. x) (\<lambda>x. ''1.5'') demo_status" using n by (simp add: state_shown_def)
  show "\<forall>n \<in> set (st_nodes demo_status). ns_online n \<longrightarrow> node_shown (\<lambda>x. ''1.5'') n \<and> is_json (ns_ownership n)"
    using n by (simp add: demo_status_def node_shown_def new_node_state_def ownership_is_json)
qed (simp_all add: demo_status_def new_system_state_def plain_def)

text \<open>Without nodes the last bracket is the one that is replaced.\<close>

lemma no_nodes_no_json:
  "\<exists>p. system_json F pow_f show_f ((new_system_state F policy)\<lparr>st_nodes := []\<rparr>) = p @ quoted ''nodes'' @ '':]}''"
  by (simp add: system_json_def new_system_state_def butlast_append quoted_def)

section \<open>The metrics are in the unit interval\<close>

definition unit_rat :: "rat \<Rightarrow> bool" where
  "unit_rat x \<longleftrightarrow> 0 \<le> x \<and> x \<le> 1"

text \<open>Readings as the monitor promises them, without an overflow of the products.\<close>

definition sane_readings :: "rat node_readings \<Rightarrow> bool" where
  "sane_readings r \<longleftrightarrow> unit_rat (rd_idle_rate r) \<and> rd_current_freq r \<le> rd_max_freq r \<and> 0 < rd_max_freq r \<and> 0 < rd_num_cpus r \<and>
     uint (rd_active_threads r) \<le> rd_num_cpus r \<and> uint (rd_max_freq r) * rd_num_cpus r < 2 ^ 64"

lemma uint_mult_less: "uint (a :: uint64_t) * uint b < 2 ^ 64 \<Longrightarrow> uint (a * b) = uint a * uint b"
  by (simp add: uint_word_ariths)

lemma unit_mult: "unit_rat x \<Longrightarrow> unit_rat y \<Longrightarrow> unit_rat (x * y)"
  by (simp add: unit_rat_def mult_le_one)

lemma node_metrics:
  assumes "sane_readings r" and "n = get_state rat_arith to_u64 rank active own r t"
  shows "unit_rat (ns_speed n) \<and> unit_rat (ns_efficiency n)"
proof -
  let ?cur = "uint (rd_current_freq r)" and ?max = "uint (rd_max_freq r)" and ?a = "uint (rd_active_threads r)" and ?c = "rd_num_cpus r"
  have a: "0 \<le> rd_idle_rate r" "rd_idle_rate r \<le> 1" "?cur \<le> ?max" "0 < ?max" "0 < ?c" "?a \<le> ?c" "?max * ?c < 2 ^ 64"
    using assms(1) by (auto simp: sane_readings_def unit_rat_def word_le_def word_less_def)
  have "1 * ?c \<le> ?max * ?c" using a(4,5) by (intro mult_right_mono) auto
  then have "?c < 2 ^ 64" using a(7) by linarith
  then have c: "uint (word_of_int ?c :: uint64_t) = ?c" using a(5) by (simp add: uint_word_of_int)
  have le: "?cur * ?a \<le> ?max * ?c" using a by (intro mult_mono) auto
  have d: "uint (rd_max_freq r * word_of_int ?c) = ?max * ?c" using uint_mult_less [of "rd_max_freq r" "word_of_int ?c"] a(7) unfolding c by blast
  have m: "uint (rd_current_freq r * rd_active_threads r) = ?cur * ?a" using le a(7) by (intro uint_mult_less) simp
  let ?q = "of_int (?cur * ?a) / of_int (?max * ?c) :: rat"
  have "0 \<le> ?cur * ?a" "0 \<le> ?max * ?c" using a(4,5) by simp_all
  then have "0 \<le> ?q" by (intro divide_nonneg_nonneg) (simp_all only: of_int_0_le_iff)
  moreover have "?q \<le> 1" using le a(4,5) by (simp only: divide_le_eq_1 of_int_le_iff of_int_0_less_iff mult_pos_pos) auto
  ultimately have "unit_rat ?q" unfolding unit_rat_def ..
  moreover have "unit_rat (1 - rd_idle_rate r)" using a(1,2) by (simp add: unit_rat_def)
  ultimately have q: "unit_rat ((1 - rd_idle_rate r) * ?q)" by (intro unit_mult)
  have sp: "ns_speed n = 1 - rd_idle_rate r" unfolding assms(2) by (simp add: get_state_def new_node_state_def Let_def)
  have "ns_efficiency n = (1 - rd_idle_rate r) * ?q"
    unfolding assms(2) by (simp only: get_state_def Let_def of_u64_def rat_arith_simps new_node_state_def node_state.simps m d) simp
  then show ?thesis using q sp a(1,2) by (simp add: unit_rat_def)
qed

lemma sum_nodes_bounds:
  assumes "\<forall>n \<in> set ns. unit_rat (ns_speed n) \<and> unit_rat (ns_efficiency n) \<and> 0 \<le> ns_cur_power n \<and> ns_cur_power n \<le> ns_max_power n"
    and "sum_nodes rat_arith ns (s, e, mp, cp) = (s', e', mp', cp')"
  shows "s \<le> s' \<and> s' \<le> s + of_nat (length ns) \<and> e \<le> e' \<and> e' \<le> e + of_nat (length ns) \<and> cp \<le> cp' \<and> cp' - cp \<le> mp' - mp"
  using assms
proof (induction ns arbitrary: s e mp cp)
  case (Cons n ns)
  show ?case
  proof (cases "ns_online n \<and> ns_active n")
    case True
    have "sum_nodes rat_arith ns (s + ns_speed n, e + ns_efficiency n, mp + ns_max_power n, cp + ns_cur_power n) = (s', e', mp', cp')"
      using Cons.prems(2) True by simp
    from Cons.IH [OF _ this] Cons.prems(1) show ?thesis by (auto simp: unit_rat_def)
  next
    case False
    have "sum_nodes rat_arith ns (s, e, mp + ns_max_power n, cp) = (s', e', mp', cp')"
      using Cons.prems(2) False by auto
    from Cons.IH [OF _ this] Cons.prems(1) show ?thesis by (fastforce simp: unit_rat_def)
  qed
qed simp

text \<open>A node as get\_state fills it in, with readings of the power.\<close>

definition reported :: "rat node_state \<Rightarrow> bool" where
  "reported n \<longleftrightarrow> (\<exists>r to_u64 rank active own t cp mp. sane_readings r \<and> 0 \<le> cp \<and> cp \<le> mp \<and>
     n = (get_state rat_arith to_u64 rank active own r t)\<lparr>ns_cur_power := cp, ns_max_power := mp\<rparr>)"

lemma reported_metrics:
  assumes "reported n"
  shows "unit_rat (ns_speed n) \<and> unit_rat (ns_efficiency n) \<and> 0 \<le> ns_cur_power n \<and> ns_cur_power n \<le> ns_max_power n"
proof -
  obtain r to_u64 rank active own t cp mp where r: "sane_readings r" "0 \<le> cp" "cp \<le> mp"
    "n = (get_state rat_arith to_u64 rank active own r t)\<lparr>ns_cur_power := cp, ns_max_power := mp\<rparr>"
    using assms unfolding reported_def by (elim exE conjE)
  then show ?thesis using node_metrics [OF r(1) refl, of to_u64 rank active own t] by simp
qed

text \<open>C38: The speed, the efficiency and the power of the whole system that the dashboard shows are between 0 and 1, in exact arithmetic, when
  only localities of its list answer and report sane values.\<close>

theorem metrics_in_unit:
  assumes "\<forall>n \<in> set ns. reported n" and "length ns \<le> length (dc_localities c)" and "0 < length (dc_localities c)"
  shows "unit_rat (st_speed (overall_state rat_arith policy exps c ns)) \<and> unit_rat (st_efficiency (overall_state rat_arith policy exps c ns)) \<and>
    unit_rat (st_power (overall_state rat_arith policy exps c ns))"
proof -
  obtain s e mp cp where sum: "sum_nodes rat_arith ns (0, 0, 0, 0) = (s, e, mp, cp)" by (cases "sum_nodes rat_arith ns (0, 0, 0, 0)")
  have b: "0 \<le> s" "s \<le> of_nat (length ns)" "0 \<le> e" "e \<le> of_nat (length ns)" "0 \<le> cp" "cp \<le> mp"
    using sum_nodes_bounds [OF _ sum] assms(1) reported_metrics by auto
  have l: "(of_nat (length ns) :: rat) \<le> of_nat (length (dc_localities c))" using assms(2) by simp
  have n: "0 < (of_nat (length (dc_localities c)) :: rat)" using assms(3) by simp
  obtain e1 e2 e3 where ex: "exps = (e1, e2, e3)" by (cases exps)
  have "overall_state rat_arith policy exps c ns = (new_system_state rat_arith policy)\<lparr>st_nodes := ns,
      st_speed := s / of_nat (length (dc_localities c)), st_efficiency := e / of_nat (length (dc_localities c)),
      st_power := (if 0 < mp then cp / mp else 0), st_speed_exponent := e1, st_efficiency_exponent := e2, st_power_exponent := e3\<rparr>"
    using sum unfolding ex by (simp add: overall_state_def Let_def)
  then show ?thesis using b l n by (auto simp: unit_rat_def divide_le_eq)
qed

definition demo_readings :: "rat node_readings" where
  "demo_readings = \<lparr>rd_num_cpus = 8, rd_cpu_load = 1 / 2, rd_total_memory = 4096, rd_consumed_memory = 1024, rd_throughput = 10,
     rd_weighted_throughput = 20, rd_idle_rate = 1 / 4, rd_network_in = 0, rd_network_out = 0, rd_current_freq = 1200, rd_max_freq = 2400,
     rd_active_threads = 6\<rparr>"

theorem metrics_in_unit_witness:
  "let c = \<lparr>dc_localities = [0, 1], dc_time = 0, dc_enabled = True\<rparr>;
       ns = [get_state rat_arith (\<lambda>x. 0) 0 True [] demo_readings 0];
       s = overall_state rat_arith ''ino'' (1, 1, 1) c ns
   in unit_rat (st_speed s) \<and> unit_rat (st_efficiency s) \<and> unit_rat (st_power s)"
proof -
  let ?n = "get_state rat_arith (\<lambda>x. 0) 0 True [] demo_readings 0"
  have r: "sane_readings demo_readings" by (simp add: sane_readings_def demo_readings_def unit_rat_def)
  have "?n = ?n\<lparr>ns_cur_power := 0, ns_max_power := 0\<rparr>" by (simp add: get_state_def new_node_state_def Let_def)
  then have n: "reported ?n" unfolding reported_def using r by (meson order_refl)
  show ?thesis unfolding Let_def by (rule metrics_in_unit) (use n in simp_all)
qed

text \<open>On a node whose greatest frequency is not known the efficiency is a quotient by 0.\<close>

lemma unknown_frequency:
  "rd_max_freq r = 0 \<Longrightarrow> ns_efficiency (get_state F to_u64 rank active own r t) =
    fmul F (fsub F (flit F 1 1) (rd_idle_rate r)) (fdiv F (of_u64 F (rd_current_freq r * rd_active_threads r)) (of_u64 F 0))"
  by (simp add: get_state_def new_node_state_def Let_def)

section \<open>What is sent\<close>

text \<open>A message starts with its length, so that the end of it is known.\<close>

lemma msg_bytes_length:
  "length json < 2 ^ 64 \<Longrightarrow> read_be64 (take 8 (msg_bytes json)) = length json \<and> drop 8 (msg_bytes json) = json"
  by (simp add: msg_bytes_def)

text \<open>The times of the messages count up, and all nodes of a message have its time.\<close>

lemma write_times:
  "snd (write_state F pow_f show_f s c) = c\<lparr>dc_time := dc_time c + 1\<rparr> \<and>
   (\<exists>s'. fst (write_state F pow_f show_f s c) = msg_bytes (system_json F pow_f show_f s') \<and> st_time s' = dc_time c \<and>
     (\<forall>n \<in> set (st_nodes s'). ns_time n = dc_time c))"
  by (auto simp: write_state_def Let_def intro!: exI [of _ "s\<lparr>st_time := dc_time c, st_nodes := map (\<lambda>n. n\<lparr>ns_time := dc_time c\<rparr>) (st_nodes s)\<rparr>"])

text \<open>After shutdown nothing is sent.\<close>

lemma silent_after_shutdown:
  assumes "dashboard_shutdown F pow_f show_f policy memory c = (m, c')"
  shows "dashboard_update F pow_f show_f policy exps nodes c' = ([], c')" "dashboard_shutdown F pow_f show_f policy memory c' = ([], c')"
proof -
  have "\<not> dc_enabled c'" using assms by (auto simp: dashboard_shutdown_def Let_def split: if_splits)
  then show "dashboard_update F pow_f show_f policy exps nodes c' = ([], c')" "dashboard_shutdown F pow_f show_f policy memory c' = ([], c')"
    by (simp_all add: dashboard_update_def dashboard_shutdown_def split: option.splits)
qed

end
