(* ===== verification/Dashboard_Commands.thy ===== *)
theory Dashboard_Commands
  imports Scheduler_Control Dashboard
begin

text \<open>
  The commands of the dashboard: get\_commands of src/src/dashboard.cpp.  A connection is the list of the bytes that have arrived until it
  is closed.  A number of floating point is read by stof (None is the exception).  The commands act on the localities of the theory
  Scheduler\_Control.
\<close>

section \<open>Commands\<close>

text \<open>Undefined\_access is an iterator or an index out of range, Bad\_number the exception of std::stol or std::stof, which nothing catches.\<close>

datatype dash_error = Undefined_access | Bad_number

definition of_number :: "'a option \<Rightarrow> ('a \<Rightarrow> 'b) \<Rightarrow> dash_error + 'b option" where
  "of_number x f = (case x of None \<Rightarrow> Inl Bad_number | Some i \<Rightarrow> Inr (Some (f i)))"

definition the_command :: "(string \<Rightarrow> 'f option) \<Rightarrow> string \<Rightarrow> dash_error + 'f control option" where
  "the_command stof cmd =
    (if CHR '' '' \<notin> set cmd then Inl Undefined_access
     else
       (let command = takeWhile (\<lambda>c. c \<noteq> CHR '' '') cmd; payload = tl (dropWhile (\<lambda>c. c \<noteq> CHR '' '') cmd)
        in if command = ''set_scheduler'' then Inr (Some (Set_policy payload))
           else if command = ''toggle_node'' then of_number (stol payload) (\<lambda>i. Toggle_node (unat (word_of_int i :: size_t)))
           else if command = ''set_speed'' then of_number (stof payload) Set_speed_exponent
           else if command = ''set_efficiency'' then of_number (stof payload) Set_efficiency_exponent
           else if command = ''set_power'' then of_number (stof payload) Set_power_exponent
           else Inr None))"

text \<open>get\_commands: the error of the second read is not looked at, so that the part of the command that has not arrived is zero.\<close>

function get_commands ::
  "'p path_ops \<Rightarrow> 'f farith \<Rightarrow> nat \<Rightarrow> (string \<Rightarrow> 'f option) \<Rightarrow> string \<Rightarrow> 'f locality_control list \<Rightarrow> dash_error + 'f locality_control list" where
  "get_commands P F N stof bytes ls =
    (if length bytes < 8 then Inr ls
     else
       (let size = read_be64 (take 8 bytes); arrived = drop 8 bytes;
            cmd = take size arrived @ replicate (size - length arrived) CHR 0x00
        in case the_command stof cmd of
             Inl e \<Rightarrow> Inl e
           | Inr None \<Rightarrow> get_commands P F N stof (drop size arrived) ls
           | Inr (Some op) \<Rightarrow>
               (case broadcast P F N op ls of
                  None \<Rightarrow> Inl Undefined_access
                | Some ls' \<Rightarrow> get_commands P F N stof (drop size arrived) ls')))"
  by pat_completeness auto
termination
  by (relation "measure (\<lambda>(P, F, N, stof, bytes, ls). length bytes)") auto

declare get_commands.simps [simp del]

section \<open>What is sent is executed\<close>

text \<open>The text of a command; the other control operations are none of the dashboard.\<close>

fun command_text :: "('f \<Rightarrow> string) \<Rightarrow> 'f control \<Rightarrow> string" where
  "command_text show_f (Toggle_node n) = ''toggle_node '' @ to_string_nat n"
| "command_text show_f (Set_policy p) = ''set_scheduler '' @ p"
| "command_text show_f (Set_speed_exponent e) = ''set_speed '' @ show_f e"
| "command_text show_f (Set_efficiency_exponent e) = ''set_efficiency '' @ show_f e"
| "command_text show_f (Set_power_exponent e) = ''set_power '' @ show_f e"
| "command_text show_f op = []"

fun sendable :: "(string \<Rightarrow> 'f option) \<Rightarrow> ('f \<Rightarrow> string) \<Rightarrow> 'f control \<Rightarrow> bool" where
  "sendable stof show_f (Toggle_node n) \<longleftrightarrow> n < 2 ^ 63"
| "sendable stof show_f (Set_policy p) \<longleftrightarrow> True"
| "sendable stof show_f (Set_speed_exponent e) \<longleftrightarrow> stof (show_f e) = Some e"
| "sendable stof show_f (Set_efficiency_exponent e) \<longleftrightarrow> stof (show_f e) = Some e"
| "sendable stof show_f (Set_power_exponent e) \<longleftrightarrow> stof (show_f e) = Some e"
| "sendable stof show_f op \<longleftrightarrow> False"

lemma command_back: "sendable stof show_f op \<Longrightarrow> the_command stof (command_text show_f op) = Inr (Some op)"
  by (cases op) (simp_all add: the_command_def of_number_def stol_to_string unat_of_nat take_bit_nat_eq_self)

lemma get_commands_msg:
  assumes "length cmd < 2 ^ 64"
  shows "get_commands P F N stof (msg_bytes cmd @ bytes) ls =
    (case the_command stof cmd of
       Inl e \<Rightarrow> Inl e
     | Inr None \<Rightarrow> get_commands P F N stof bytes ls
     | Inr (Some op) \<Rightarrow> (case broadcast P F N op ls of None \<Rightarrow> Inl Undefined_access | Some ls' \<Rightarrow> get_commands P F N stof bytes ls'))"
  using assms by (subst get_commands.simps) (simp add: msg_bytes_def Let_def cong: option.case_cong sum.case_cong)

text \<open>C25: A sequence of commands that arrives in messages as the dashboard itself sends them has the effect of the control
  operations in their order at all localities, if the numbers are shown as they are read.\<close>

theorem commands_are_executed:
  assumes "list_all (sendable stof show_f) ops" and "\<forall>op \<in> set ops. length (command_text show_f op) < 2 ^ 64"
  shows "get_commands P F N stof (concat (map (msg_bytes \<circ> command_text show_f) ops)) ls =
    (case control_run P F N ops ls of None \<Rightarrow> Inl Undefined_access | Some ls' \<Rightarrow> Inr ls')"
  using assms
proof (induction ops arbitrary: ls)
  case Nil
  show ?case by (simp add: get_commands.simps)
next
  case (Cons op ops)
  then have "the_command stof (command_text show_f op) = Inr (Some op)" by (intro command_back) simp
  with Cons show ?case by (cases "broadcast P F N op ls") (simp_all add: get_commands_msg)
qed

theorem commands_are_executed_witness:
  "get_commands list_paths rat_arith 2 (\<lambda>s. if s = ''2.0'' then Some (2 :: rat) else None)
     (concat (map (msg_bytes \<circ> command_text (\<lambda>x :: rat. ''2.0'')) [Set_policy ''random'', Set_speed_exponent 2, Toggle_node 1])) two_rank_control =
    (case control_run list_paths rat_arith 2 [Set_policy ''random'', Set_speed_exponent 2, Toggle_node 1] two_rank_control of
       None \<Rightarrow> Inl Undefined_access | Some ls' \<Rightarrow> Inr ls')"
proof (rule commands_are_executed)
  have "length (to_string_nat 1) = 1" by (simp add: to_string_nat.simps)
  then show "\<forall>op \<in> set [Set_policy ''random'', Set_speed_exponent 2, Toggle_node 1]. length (command_text (\<lambda>x :: rat. ''2.0'') op) < 2 ^ 64" by simp
qed simp

section \<open>Whatever arrives\<close>

text \<open>Any bytes amount to some control operations, unless the reading stops with an error.\<close>

lemma get_commands_run:
  "get_commands P F N stof bytes ls = Inr ls' \<Longrightarrow> \<exists>ops. control_run P F N ops ls = Some ls'"
proof (induction P F N stof bytes ls rule: get_commands.induct)
  case (1 P F N stof bytes ls)
  let ?size = "read_be64 (take 8 bytes)" and ?arrived = "drop 8 bytes"
  let ?cmd = "take ?size ?arrived @ replicate (?size - length ?arrived) CHR 0x00"
  show ?case
  proof (cases "length bytes < 8")
    case True
    then show ?thesis using 1(3) by (intro exI [of _ "[]"]) (simp add: get_commands.simps)
  next
    case False
    show ?thesis
    proof (cases "the_command stof ?cmd")
      case (Inl e)
      then show ?thesis using 1(3) False by (simp add: get_commands.simps [of _ _ _ _ bytes] Let_def)
    next
      case (Inr c)
      show ?thesis
      proof (cases c)
        case None
        then have "get_commands P F N stof (drop ?size ?arrived) ls = Inr ls'"
          using 1(3) False Inr by (simp add: get_commands.simps [of _ _ _ _ bytes] Let_def)
        then show ?thesis using 1(1) [OF False refl refl refl Inr None] by blast
      next
        case (Some op)
        then obtain l1 where l1: "broadcast P F N op ls = Some l1" "get_commands P F N stof (drop ?size ?arrived) l1 = Inr ls'"
          using 1(3) False Inr by (auto simp: get_commands.simps [of _ _ _ _ bytes] Let_def split: option.splits)
        then obtain ops where "control_run P F N ops l1 = Some ls'" using 1(2) [OF False refl refl refl Inr Some l1(1)] by blast
        then show ?thesis using l1(1) by (intro exI [of _ "op # ops"]) simp
      qed
    qed
  qed
qed

text \<open>So the copies of the policy agree after whatever the dashboard has sent.\<close>

lemma dashboard_keeps_agreement:
  "agree ls \<Longrightarrow> get_commands P F N stof bytes ls = Inr ls' \<Longrightarrow> agree ls'"
  using get_commands_run control_run_agree by blast

section \<open>Malformed commands\<close>

text \<open>A command without a blank: the payload would start behind the end of the text.\<close>

lemma no_blank: "CHR '' '' \<notin> set cmd \<Longrightarrow> length cmd < 2 ^ 64 \<Longrightarrow> get_commands P F N stof (msg_bytes cmd @ bytes) ls = Inl Undefined_access"
  by (simp add: get_commands_msg the_command_def)

text \<open>The connection ends in the middle of a command to toggle node 12: node 1 is toggled.\<close>

lemma truncated_command:
  "get_commands P F N stof (take 21 (msg_bytes ''toggle_node 12'')) ls =
    (case broadcast P F N (Toggle_node 1) ls of None \<Rightarrow> Inl Undefined_access | Some ls' \<Rightarrow> Inr ls')"
proof -
  have t: "take 21 (msg_bytes ''toggle_node 12'') = be64 14 @ ''toggle_node 1''" by (simp add: msg_bytes_def eval_nat_numeral)
  have "stol (''1'' @ [CHR 0x00]) = Some 1" by code_simp
  then have c: "the_command stof (''toggle_node 1'' @ [CHR 0x00]) = Inr (Some (Toggle_node 1))" by (simp add: the_command_def of_number_def)
  show ?thesis unfolding t using c by (subst get_commands.simps) (simp add: Let_def get_commands.simps [of _ _ _ _ "[]"] cong: option.case_cong)
qed

end
