(* ===== verification/Power_Counters.thy ===== *)
theory Power_Counters
  imports Prelude
begin

text \<open>
  The measurements of power: allscale/power.hpp, with the counters of Cray machines and the estimate from the frequency.

  The counters are functions of the moment at which a file is read, and moments says when the reads happen, four for each attempt.  The
  hypothesis counters\_fresh states the documented behaviour of the counters: their freshness is another one after each update.
\<close>

record pm_counters =
  pm_freshness :: "nat \<Rightarrow> int"
  pm_energy :: "nat \<Rightarrow> uint64_t"
  pm_power :: "nat \<Rightarrow> uint64_t"

record 'f power_state =
  last_instant_power :: 'f
  last_instant_energy :: 'f
  instant_power :: 'f
  instant_energy :: 'f

definition init_power_measurements :: "'f farith \<Rightarrow> 'f power_state" where
  "init_power_measurements F =
    \<lparr>last_instant_power = flit F 0 1, last_instant_energy = flit F 0 1, instant_power = flit F 0 1, instant_energy = flit F 0 1\<rparr>"

definition pm_max_attempts :: nat where
  "pm_max_attempts = 10"

text \<open>The loop, with the number of attempts before; the result has the two freshness values, energy and power of the last attempt.\<close>

function pm_attempts :: "pm_counters \<Rightarrow> (nat \<Rightarrow> nat) \<Rightarrow> nat \<Rightarrow> int \<times> int \<times> uint64_t \<times> uint64_t" where
  "pm_attempts C moments n =
    (let f1 = pm_freshness C (moments (4 * n)); e = pm_energy C (moments (4 * n + 1)); p = pm_power C (moments (4 * n + 2));
         f2 = pm_freshness C (moments (4 * n + 3))
     in if n + 1 < pm_max_attempts \<and> f1 \<noteq> f2 then pm_attempts C moments (n + 1) else (f1, f2, e, p))"
  by pat_completeness auto
termination
  by (relation "measure (\<lambda>(C, moments, n). pm_max_attempts - n)") auto

declare pm_attempts.simps [simp del]

definition read_pm_counters :: "'f farith \<Rightarrow> pm_counters \<Rightarrow> (nat \<Rightarrow> nat) \<Rightarrow> 'f power_state \<Rightarrow> nat \<times> 'f power_state" where
  "read_pm_counters F C moments s =
    (let (f1, f2, e, p) = pm_attempts C moments 0; e = fof_int F (uint e); p = fof_int F (uint p)
     in if f1 \<noteq> f2 then (1, s)
        else (0, \<lparr>last_instant_power = p, last_instant_energy = e, instant_power = fsub F p (last_instant_power s),
                  instant_energy = fsub F e (last_instant_energy s)\<rparr>))"

text \<open>With POWER\_ESTIMATE; u is the voltage, 0.9 without the file with the voltage.\<close>

definition monitor_estimate_power :: "'f farith \<Rightarrow> 'f \<Rightarrow> uint64_t \<Rightarrow> 'f power_state \<Rightarrow> 'f \<times> 'f power_state" where
  "monitor_estimate_power F u frequency s =
    (let p = fmul F (fmul F (fmul F (fof_int F 30) (flit F 1 1000000000000)) (fmul F u u)) (fof_int F (uint (frequency * 1000)))
     in (p, s\<lparr>instant_power := p\<rparr>))"

section \<open>The values belong together\<close>

definition counters_fresh :: "pm_counters \<Rightarrow> bool" where
  "counters_fresh C \<longleftrightarrow> (\<forall>t u v. t \<le> u \<longrightarrow> u \<le> v \<longrightarrow> pm_freshness C t = pm_freshness C v \<longrightarrow>
     pm_energy C u = pm_energy C t \<and> pm_power C u = pm_power C t)"

abbreviation (input) attempt_valid :: "pm_counters \<Rightarrow> (nat \<Rightarrow> nat) \<Rightarrow> nat \<Rightarrow> bool" where
  "attempt_valid C moments n \<equiv> pm_freshness C (moments (4 * n)) = pm_freshness C (moments (4 * n + 3))"

definition attempt_result :: "pm_counters \<Rightarrow> (nat \<Rightarrow> nat) \<Rightarrow> nat \<Rightarrow> int \<times> int \<times> uint64_t \<times> uint64_t" where
  "attempt_result C moments n = (pm_freshness C (moments (4 * n)), pm_freshness C (moments (4 * n + 3)),
     pm_energy C (moments (4 * n + 1)), pm_power C (moments (4 * n + 2)))"

lemma pm_attempts_unfold:
  "pm_attempts C moments n =
    (if n + 1 < pm_max_attempts \<and> \<not> attempt_valid C moments n then pm_attempts C moments (n + 1) else attempt_result C moments n)"
  by (subst pm_attempts.simps) (simp only: Let_def attempt_result_def)

lemma attempt_snapshot:
  assumes "counters_fresh C" and "mono moments" and "attempt_valid C moments n"
  shows "\<exists>t. attempt_result C moments n = (pm_freshness C t, pm_freshness C t, pm_energy C t, pm_power C t)"
proof -
  let ?t = "moments (4 * n)"
  have "?t \<le> moments (4 * n + 1)" "moments (4 * n + 1) \<le> moments (4 * n + 3)" "?t \<le> moments (4 * n + 2)" "moments (4 * n + 2) \<le> moments (4 * n + 3)"
    by (rule monoD [OF assms(2)], simp)+
  then have "pm_energy C (moments (4 * n + 1)) = pm_energy C ?t" "pm_power C (moments (4 * n + 2)) = pm_power C ?t"
    using assms(1,3) unfolding counters_fresh_def by blast+
  then show ?thesis using assms(3) by (intro exI [of _ ?t]) (simp add: attempt_result_def)
qed

lemma pm_attempts_result:
  "n < pm_max_attempts \<Longrightarrow> \<exists>k. pm_attempts C moments n = attempt_result C moments k \<and>
    (attempt_valid C moments k \<or> (\<forall>j. n \<le> j \<longrightarrow> j < pm_max_attempts \<longrightarrow> \<not> attempt_valid C moments j))"
proof (induction "pm_max_attempts - n" arbitrary: n rule: less_induct)
  case less
  show ?case
  proof (cases "n + 1 < pm_max_attempts \<and> \<not> attempt_valid C moments n")
    case True
    then have "pm_max_attempts - (n + 1) < pm_max_attempts - n" by linarith
    from less(1) [OF this conjunct1 [OF True]] obtain k where k: "pm_attempts C moments (n + 1) = attempt_result C moments k"
      "attempt_valid C moments k \<or> (\<forall>j. n + 1 \<le> j \<longrightarrow> j < pm_max_attempts \<longrightarrow> \<not> attempt_valid C moments j)"
      by blast
    have "\<forall>j. n \<le> j \<longrightarrow> j < pm_max_attempts \<longrightarrow> \<not> attempt_valid C moments j" if "\<not> attempt_valid C moments k"
      using k(2) that True by (metis Suc_eq_plus1 le_antisym not_less_eq_eq)
    then show ?thesis using k(1) True pm_attempts_unfold [of C moments n] by metis
  next
    case False
    then have "attempt_valid C moments n \<or> (\<forall>j. n \<le> j \<longrightarrow> j < pm_max_attempts \<longrightarrow> \<not> attempt_valid C moments j)"
      using less(2) by (metis Suc_eq_plus1 Suc_lessI le_neq_implies_less less_trans_Suc not_less_iff_gr_or_eq)
    then show ?thesis using False pm_attempts_unfold [of C moments n] by metis
  qed
qed

text \<open>If one of the ten attempts sees no update, the result is 0; and whenever it is 0, energy and power are those of one moment.\<close>

lemma pm_counters_belong_together:
  assumes "counters_fresh C" and "mono moments"
  shows "(\<exists>k < 10. attempt_valid C moments k) \<Longrightarrow> fst (read_pm_counters F C moments s) = 0"
    and "read_pm_counters F C moments s = (0, s') \<Longrightarrow>
      \<exists>t. last_instant_energy s' = fof_int F (uint (pm_energy C t)) \<and> last_instant_power s' = fof_int F (uint (pm_power C t))"
proof -
  obtain k where k: "pm_attempts C moments 0 = attempt_result C moments k"
    "attempt_valid C moments k \<or> (\<forall>j < pm_max_attempts. \<not> attempt_valid C moments j)"
    using pm_attempts_result [of 0 C moments] by (auto simp: pm_max_attempts_def)
  show "fst (read_pm_counters F C moments s) = 0" if "\<exists>k < 10. attempt_valid C moments k"
    using k that by (auto simp: read_pm_counters_def attempt_result_def pm_max_attempts_def Let_def)
  show "\<exists>t. last_instant_energy s' = fof_int F (uint (pm_energy C t)) \<and> last_instant_power s' = fof_int F (uint (pm_power C t))"
    if z: "read_pm_counters F C moments s = (0, s')"
  proof -
    have "attempt_valid C moments k" using z by (auto simp: read_pm_counters_def k(1) attempt_result_def Let_def split: if_splits)
    then obtain t where "attempt_result C moments k = (pm_freshness C t, pm_freshness C t, pm_energy C t, pm_power C t)"
      using attempt_snapshot [OF assms] by blast
    then show ?thesis using z by (intro exI [of _ t]) (auto simp: read_pm_counters_def k(1) Let_def)
  qed
qed

text \<open>What the reader calls the power is the change of the power since the last valid reading.\<close>

lemma power_is_a_difference:
  "read_pm_counters F C moments s = (0, s') \<Longrightarrow> instant_power s' = fsub F (last_instant_power s') (last_instant_power s)"
  by (auto simp: read_pm_counters_def Let_def split: prod.splits if_splits)

end
