(* ===== verification/Spec2Isabelle.thy ===== *)
theory Spec2Isabelle
  imports Hierarchy Task_Path Task_Times Decision_Tree Tree_Policy Rebalance Index_Runs Global_Optimizer
    Scheduler_Control Resilience Work_Items Local_Optimizer Monitor_Stats Thread_Control Pfor Transfer_Plan Frequency_Control Task_Trees Dashboard_Commands Power_Counters
begin

text \<open>
  A development for the AllScale runtime (allscale/ and src/ of the repository): a runtime system that runs
  recursive tasks on a cluster of localities, moves the data they need, and tunes where they run.

  \<^bold>\<open>How the parts work together.\<close>  A program spawns work items; a work item is split into children or processed,
  and its value is the value of a treeture.  The id of a work item is a path in the tree of tasks.  The
  localities form a binary tree of virtual nodes, each with a scheduler service and an index service.  The
  scheduler services hand a work item down and up that tree, to the locality that the scheduling policy of the
  root assigns to it, and on the way the index services find the data items that the work item requires and move
  their ownership.  The policy is a decision tree, made from a mapping of tasks to localities; the optimizer
  collects measurements and replaces it by a rebalanced one, and tunes the number of active localities and
  their frequency.  Each locality has an optimizer of its own for its threads and frequency, and a monitor that
  records the tasks and samples the node.  The dashboard gets the state of all nodes, and sends commands that change the policy, the
  active nodes and the objective.  The resilience component watches the localities and runs the work items of a crashed one again.

  \<^bold>\<open>Theories and code.\<close>  Prelude has the machine integers, the arithmetic of float and double as a record of
  operations, and lemmas on lists; Ordered\_Maps has std::map and std::set as sorted lists and the library functions
  whose result is not determined (sort, shuffle, rand); Step\_Systems has the interfaces of step relations, with an invariant and with
  a weight that decreases, of which the runs of work items, threads, loops and the resilience ring are interpretations.

  \<^item> Hierarchy: allscale/hierarchy.hpp, src/hierarchy.cpp.  A virtual node is a rank and a layer.  The family
    relations are those of a binary tree, and every node reaches the root.
  \<^item> Task\_Path, Task\_Times: allscale/task\_id.hpp, src/task\_id.cpp, allscale/task\_times.hpp, src/task\_times.cpp.
    The type TaskPath of the AllScale API is a record of operations with the laws task\_path\_ok.
  \<^item> Decision\_Tree, Tree\_Policy, Rebalance: allscale/schedule\_policy.hpp, src/schedule\_policy.cpp.  A policy made
    from a monotone mapping realizes it, the uniform one is even, and rebalancing, when it returns, gives a mapping
    to active localities; it returns when the last locality is active.  When the last one is not, rounding can let the
    scan of the mask run past its end.
  \<^item> Scheduler, Scheduler\_Control: src/scheduler.cpp, schedule\_local of src/components/scheduler\_component.cpp.
    A task that is scheduled anywhere is delivered: scheduling returns, and the task is split or processed on the rank
    of its target, with its requirements.  The decisions lead it to the leaf of the rank that the mapping has
    for its path.  The operations broadcast to all services keep their copies of the policy equal and the network routable.
  \<^item> Regions, Data\_Items: allscale/data\_item\_reference.hpp, data\_item\_requirement.hpp and the store, fragments,
    shared data, views and location infos under allscale/data\_item\_manager.  Regions and fragments belong to the
    application: they are records of operations, and region\_ok says that a region is a set of elements.
  \<^item> Ownership, Index\_Service, Index\_Refinement, Index\_Runs: index\_service.hpp, acquire.hpp, add\_allowance.hpp,
    get\_missing\_regions.hpp, check\_write\_requirements.hpp and task\_requirements.hpp under
    allscale/data\_item\_manager.  Ownership is the abstract specification, three sets of elements at every
    virtual node; Index\_Refinement shows that the services implement it, Index\_Runs that in every run an element
    is owned by one locality at most, and that locating a region of elements at rest (none on its way in an allowance,
    none managed unallocated by a virtual node) answers with exactly its owners.  The caches of all localities are
    updated in one step of a run; lookups while such an update is under way are not modelled.
  \<^item> Acquisition: what the requirements of a task become on its way between virtual nodes (carried), and when the nodes of
    a rank can acquire them (acquires); a task that requires nothing or writes to existing items can.
  \<^item> Tuner, Internode, Node\_Schedule, Global\_Optimizer: allscale/tuner.hpp, src/tuner.cpp,
    allscale/tuning\_objective.hpp, allscale/components/internodeoptimizer.hpp, src/components/internodeoptimizer.cpp,
    allscale/optimizer.hpp, src/optimizer.cpp.  The searches end and keep a usable set of localities, the choice
    from the history is not dominated, and a new schedule has exactly the work items of the nodes that it reschedules:
    of all nodes when their number changes, and otherwise of those with a measured time.  The loop of balance\_ino
    measures every second node only, which the lemmas decide\_schedule\_loses and balance\_ino\_even\_fails are about.
  \<^item> Nelder\_Mead, Local\_Optimizer: src/components/nmsimplex\_bbincr.cpp, src/components/localoptimizer.cpp and
    what init and optimize\_locally of src/components/scheduler\_component.cpp do with them.  The search ends, stays in
    its bounds and does not get worse; the local optimizer is never run without the samples that it reads.
  \<^item> Work\_Items: allscale/detail/work\_item\_impl.hpp, work\_item\_description.hpp, spawn.hpp, runtime.hpp and treeture.hpp
    under allscale.  Whatever the scheduler chooses, the treeture of a work item gets the value of its closure, and
    a run ends with all work items finished.
  \<^item> Resilience: src/components/resilience\_component.cpp, allscale/components/resilience.hpp, src/resilience.cpp.
    In one schedule of rounds and messages on an intact ring, after one crash every other locality has scheduled again
    what it had dispatched to the crashed one; other schedules, and a second crash at the wrong time, can stop the recovery.
  \<^item> Thread\_Control: suspend\_threads and resume\_threads of src/components/scheduler\_component.cpp.  The pools keep
    their least number of threads, and the count of active threads is right.
  \<^item> Frequency\_Control: src/components/util/hardware\_reconf.cpp and the operations of the scheduler on frequencies.  On
    processors that change their frequency independently and at once (cpufreq\_ok, an idealisation of the library cpufreq),
    steps down and up cancel, and fixing the frequency of all cores ends; with a shared clock they do not cancel.
  \<^item> Power\_Counters: allscale/power.hpp.  Energy and power of a valid reading are those of one moment.
  \<^item> Treetures: treeture.hpp, detail/treeture\_task.hpp and detail/treeture\_lco.hpp under allscale.  A handle that was made
    from another one, or sent, is ready as soon as the other is.
  \<^item> Pfor: examples/pfor/pfor.hpp.  On one locality an iteration runs once, and not before the iterations
    of the loop before it; a piece that is split on another locality does not wait.
  \<^item> Monitor\_Profiles, Monitor\_Stats, Task\_Trees, Graph\_Colouring: src/components/monitor\_component.cpp and
    src/components/util/graph\_colouring.cpp.  The profiles are processed in the order of the events and none is lost; the statistics
    are over the samples that they name; the files with the trees are written, with colours that convert back.
  \<^item> Json\_Text, Dashboard, Dashboard\_Commands: src/dashboard.cpp, allscale/dashboard.hpp, src/data\_item/get\_ownership\_json.cpp.
    The status is JSON with metrics between 0 and 1, and the commands are executed in their order.
  \<^item> Transfer\_Plan: allscale/transfer\_plan.hpp, allscale/simple\_transfer\_plan\_generator.hpp.  A plan moves what is missing, once.

  This theory ends with what holds across parts: a task reaches its target after whatever the dashboard has sent.

  \<^bold>\<open>State and errors.\<close>  The state of an object is a record with its members; an operation returns the updated state.
  Operations of several localities work on a record of all of them; a call to another locality whose answer is
  awaited is part of the step of its caller, and messages that are not awaited are kept in the state and arrive in
  any order.  None stands for undefined behaviour (an access out of bounds, a division by zero, a signed
  overflow) or an exception; where the code distinguishes errors they are values of a datatype.  Assertions are
  those of the release build, which are empty.

  \<^bold>\<open>Bounds and fuel.\<close>  Machine integers have their width: ranks, paths and times 64 bits, layers 32.  The shift
  1 << layer of the code is one of a 32-bit int, so the results on the network are for 2^k localities with k at most
  30; the paths of tasks are shorter than 63 bits.  A recursion between services or policies has a fuel:
  3 * h + 3 calls for a task in a tree of height h, 2 * l + 2 for the decision on a path of length l, 2 * k + 1 - l for
  locating a region from layer l in a network of 2^k localities, n calls for the shutdown of a ring of n localities.  The theorems state that this is enough, so that their results are
  values and not the end of the fuel.  A search of Nelder and Mead takes at most 48 steps: 16 iterations of 3.

  \<^bold>\<open>Parameters.\<close>  The regions, fragments and task paths of the AllScale API; the arithmetic of float and double with
  pow, ceil and the conversions; std::sort, std::shuffle and std::rand, of which only the documented
  behaviour is used; std::stod, std::stof, std::atoi and the environment; the text of a floating point number; clocks, measured times and the
  counters of power; the library cpufreq; the programs that the work items run.

  \<^bold>\<open>Not modelled.\<close>  The registration of the monitor's counters, its options and tables of text; the files of the operating
  system and the connection of the dashboard; serialization; the adapters of promises to the futures of HPX; type traits and
  debug output: they are input and output, or wrappers of libraries that are not in the repository.  The checks of
  requirements in src/data\_requirements\_check.cpp have empty bodies.  The examples, but for the parallel loops, and the tests
  are applications.

  \<^bold>\<open>Where the code departs from its intention\<close> is stated by lemmas at the end of the theories: an operation of the
  first search that is dead code, a work item that is split before its dependencies are ready, a second
  crash that is never recovered, a lookup of unallocated elements that never ends, and others.
\<close>

section \<open>From the dashboard to the scheduling of a task\<close>

text \<open>C12: Whatever arrives from the dashboard without an error, the localities then deliver a task, from whatever node it
  starts at: it is split or processed on the rank of the target that the tree policy of the moment has for its path,
  after schedule\_local at that target got it with its own requirements.  The commands (theory Dashboard\_Commands) are
  control operations, these keep the network one that routes tasks (Scheduler\_Control), and there a task reaches its
  target (Scheduler); as there, the services of the way exist and run, and the target's rank can acquire what the
  task requires.\<close>

theorem dashboard_keeps_routing:
  assumes "sched_network P N (root_addr pol) old (net_of ls) (ss_world st)" and "agree ls"
    and "get_commands P F N stof bytes ls = Inr ls'" and "\<forall>s \<in> set (all_services ls'). sv_value s \<noteq> ino_policy"
    and "net_of ls' (root_addr pol) = Some r" and "sv_policy r = Tree_policy pol" and "left_nodes (net_of ls')"
    and "way_runs P N pol (net_of ls') running (path (wi_id w))" and "get_target P pol (path (wi_id w)) = Some t"
    and "wi_remote w" and "net_of ls' a \<noteq> None" and "unat (getLayer a) \<le> unat (getLayer (root_addr pol))"
    and "\<And>b. net_of ls' b \<noteq> None \<Longrightarrow> getRank b = getRank t \<Longrightarrow>
      acquires R FO fuel (wi_can_split w) (wi_reqs w) (ss_world st) b"
  shows "\<exists>reqs' st1 f st'.
    schedule P R FO fuel coins running (net_of ls') (3 * unat (getLayer (root_addr pol)) + 3) a w st = Some (f, st') \<and>
    schedule_local P R FO fuel (net_of ls') t w reqs' st1 = Some (f, st') \<and>
    carried R (wi_reqs w) (ss_world st) reqs' (ss_world st1) \<and> ends_on (getRank t) f"
proof -
  obtain ops where "control_run P F N ops ls = Some ls'" using get_commands_run [OF assms(3)] by blast
  then obtain pol' where net: "sched_network P N (root_addr pol) pol' (net_of ls') (ss_world st)"
    using control_keeps_network [OF assms(1,2) _ assms(4)] by blast
  then have "sv_policy r = pol'" using assms(5) by (simp add: sched_network_def)
  then have "sched_network P N (root_addr pol) (Tree_policy pol) (net_of ls') (ss_world st)" using net assms(6) by simp
  then show ?thesis by (rule scheduling_ends [OF _ assms(7-13)])
qed

definition two_rank_tree_control :: "rat locality_control list" where
  "two_rank_tree_control =
    [\<lparr>lc_services = [two_rank_service (Tree_policy two_rank_policy) (HierarchyAddress 0 0),
        two_rank_service (Tree_policy two_rank_policy) (HierarchyAddress 0 1)], lc_active = True, lc_frequency = None\<rparr>,
     \<lparr>lc_services = [two_rank_service (Tree_policy two_rank_policy) (HierarchyAddress 1 0)], lc_active = True, lc_frequency = None\<rparr>]"

theorem dashboard_keeps_routing_witness:
  "\<exists>ls' f st'. get_commands list_paths rat_arith 2 (\<lambda>s. Some 2) (msg_bytes ''set_speed 2.0'') two_rank_tree_control = Inr ls' \<and>
    schedule list_paths mask_regions mask_fragments 3 (\<lambda>_. True) (\<lambda>_. True) (net_of ls') 6 (HierarchyAddress 0 0)
      two_rank_writer two_rank_state = Some (f, st') \<and> ends_on 1 f"
proof -
  let ?pol = "two_rank_policy" and ?ls = two_rank_tree_control and ?w = two_rank_writer
  have rt: "root_addr ?pol = HierarchyAddress 0 1" by (simp add: two_rank_policy_def)
  have n: "sched_network list_paths 2 (root_addr ?pol) (Tree_policy ?pol) (net_of ?ls) (ss_world two_rank_state)"
    using two_rank_hosts
    by (auto simp: rt sched_network_def net_of_def all_services_def two_rank_tree_control_def two_rank_service_def sv_balance_def)
  have ag: "agree ?ls" by (auto simp: agree_def all_services_def two_rank_tree_control_def same_view_def two_rank_service_def)
  have c: "the_command (\<lambda>s. Some (2 :: rat)) ''set_speed 2.0'' = Inr (Some (Set_speed_exponent 2))"
    by (simp add: the_command_def of_number_def)
  obtain ls' where b: "broadcast list_paths rat_arith 2 (Set_speed_exponent 2) ?ls = Some ls'"
    and ls': "all_services ls' = map (sv_set_speed_exponent 2) (all_services ?ls)"
    by (simp add: broadcast_def control_local_def for_all_local_def two_rank_tree_control_def all_services_def upt_rec)
  have g: "get_commands list_paths rat_arith 2 (\<lambda>s. Some 2) (msg_bytes ''set_speed 2.0'') ?ls = Inr ls'"
    using get_commands_msg [of "''set_speed 2.0''" list_paths rat_arith 2 "\<lambda>s. Some 2" "[]" ?ls] c b by (simp add: get_commands.simps)
  have net: "net_of ls' a = map_option (sv_set_speed_exponent 2) (net_of ?ls a)" for a
    unfolding net_of_def ls' by (simp add: all_services_def two_rank_tree_control_def two_rank_service_def sv_set_speed_exponent_def sv_set_exponent_def)
  have some: "net_of ls' a \<noteq> None \<longleftrightarrow> a \<in> {HierarchyAddress 0 1, HierarchyAddress 0 0, HierarchyAddress 1 0}" for a
    unfolding net by (simp add: net_of_def all_services_def two_rank_tree_control_def two_rank_service_def)
  obtain r where r: "net_of ls' (root_addr ?pol) = Some r" "sv_policy r = Tree_policy ?pol"
    unfolding net rt
    by (simp add: net_of_def all_services_def two_rank_tree_control_def two_rank_service_def sv_set_speed_exponent_def sv_set_exponent_def)
  have v: "\<forall>s \<in> set (all_services ls'). sv_value s \<noteq> ino_policy"
    unfolding ls' by (simp add: all_services_def two_rank_tree_control_def two_rank_service_def sv_set_speed_exponent_def sv_set_exponent_def)
  have way: "way_runs list_paths 2 ?pol (net_of ls') (\<lambda>_. True) (path (wi_id ?w))"
    using some by (auto simp: way_runs_def two_rank_routable two_rank_passes two_rank_writer_def two_rank_item_def)
  have t: "get_target list_paths ?pol (path (wi_id ?w)) = Some (HierarchyAddress 1 0)" "wi_remote ?w"
    by (simp_all add: two_rank_writer_def two_rank_item_def two_rank_target)
  have a: "net_of ls' (HierarchyAddress 0 0) \<noteq> None" "unat (getLayer (HierarchyAddress 0 0)) \<le> unat (getLayer (root_addr ?pol))"
    using some by (simp_all add: rt)
  have left: "left_nodes (net_of ls')"
  proof -
    have l: "getLeftChild (HierarchyAddress 0 1) = HierarchyAddress 0 0" by (rule HierarchyAddress.expand) simp
    have "sv_left s = getLeftChild b" if "net_of ls' b = Some s" for b s
      using that unfolding net
      by (auto simp: net_of_def all_services_def two_rank_tree_control_def two_rank_service_def sv_set_speed_exponent_def
          sv_set_exponent_def split: if_splits)
    moreover have "net_of ls' (getLeftChild b) \<noteq> None" if "net_of ls' b \<noteq> None" "\<not> isLeaf b" for b
      using that some l by (auto simp: isLeaf_def)
    ultimately show ?thesis by (auto simp: left_nodes_def)
  qed
  have ac: "acquires mask_regions mask_fragments 3 (wi_can_split ?w) (wi_reqs ?w) (ss_world two_rank_state) b"
    if "net_of ls' b \<noteq> None" "getRank b = getRank (HierarchyAddress 1 0)" for b
    using that some two_rank_acquires by (auto simp: two_rank_writer_def)
  have "3 * unat (getLayer (root_addr ?pol)) + 3 = 6" by (simp add: rt)
  with dashboard_keeps_routing [OF n ag g v r left way t a ac, of "\<lambda>_. True"] g show ?thesis by fastforce
qed

end
